(* ===== verification/Prelude.thy ===== *)
theory Prelude
  imports Main "HOL-Library.Word" "HOL-Library.Monad_Syntax"
begin

text \<open>
  Shared vocabulary of the development: names for the machine integer types of the C sources, the
  rule collections the component theories add to, and the generic facts on words and on division
  that several components use.

  Conventions. An unsigned C integer of width \<open>w\<close> is a \<open>w word\<close>; a signed one is the same word
  read through \<open>sint\<close>, so that signed overflow (undefined in C, two's complement on the targets of
  this compiler) is the wrap-around of the word. A \<open>size_t\<close> that counts elements of an object that
  exists in memory is a \<open>nat\<close>. A C \<open>int\<close> used as a truth value is a \<open>bool\<close>.
\<close>

unbundle bit_operations_syntax

type_synonym u8 = "8 word"
type_synonym u16 = "16 word"
type_synonym u32 = "32 word"
type_synonym u64 = "64 word"
type_synonym i64 = "64 word"

named_theorems word_facts \<open>facts on machine words shared by the components\<close>
named_theorems step_simps \<open>defining equations of the step functions of loops\<close>

subsection \<open>Words and natural numbers\<close>

lemma unat_div_word [word_facts]: "unat (a div b :: 'a::len word) = unat a div unat b"
  by (rule unat_div)

lemma unat_mod_word [word_facts]: "unat (a mod b :: 'a::len word) = unat a mod unat b"
  by (rule unat_mod)

lemma unat_diff_word [word_facts]: "b \<le> a \<Longrightarrow> unat (a - b :: 'a::len word) = unat a - unat b"
  by (rule unat_sub)

lemma unat64_less: "unat (x :: u64) < 18446744073709551616"
  using unsigned_less [of x] by simp

lemma unat64_double: "unat (2 * x :: u64) = (2 * unat x) mod 2 ^ 64"
  by (simp add: unat_word_ariths)

lemma unat64_double_Suc: "unat (2 * x + 1 :: u64) = (2 * unat x + 1) mod 2 ^ 64"
proof -
  have "2 * x + 1 = (of_nat (2 * unat x + 1) :: u64)" by simp
  then show ?thesis by (simp only: unat_of_nat) simp
qed

lemma word_of_unat: "unat (x :: 'a::len word) = n \<Longrightarrow> x = word_of_nat n"
  by auto

lemma word_of_sint: "sint (x :: 'a::len word) = k \<Longrightarrow> x = word_of_int k"
  by auto

lemma unat_drop_bit_word: "unat (drop_bit n x :: 'a::len word) = unat x div 2 ^ n"
proof -
  have "unat (drop_bit n x) = drop_bit n (take_bit LENGTH('a) (unat x))"
    by (rule unsigned_drop_bit_eq)
  also have "take_bit LENGTH('a) (unat x) = unat x"
    by (simp add: take_bit_nat_eq_self_iff)
  finally show ?thesis by (simp only: drop_bit_eq_div)
qed

subsection \<open>Quotients of natural numbers\<close>

text \<open>A number is the quotient when its multiple by the divisor brackets the dividend.\<close>

lemma div_eq_bracket: "(k::nat) * b \<le> a \<Longrightarrow> a < (k + 1) * b \<Longrightarrow> a div b = k"
  by (rule div_nat_eqI) (simp_all add: mult.commute)

lemma div_mod_unique:
  fixes a b :: nat
  assumes "a = q * b + r" and "r < b"
  shows "a div b = q \<and> a mod b = r"
  using assms by simp

lemma div_mod_double:
  fixes a b :: nat
  assumes "0 < b"
  shows "2 * (a mod b) < b \<Longrightarrow> (2 * a) div b = 2 * (a div b) \<and> (2 * a) mod b = 2 * (a mod b)"
    and "b \<le> 2 * (a mod b) \<Longrightarrow>
         (2 * a) div b = 2 * (a div b) + 1 \<and> (2 * a) mod b = 2 * (a mod b) - b"
proof -
  have two: "2 * a = 2 * (a div b) * b + 2 * (a mod b)"
    by (metis div_mult_mod_eq distrib_left mult.assoc)
  have lt: "a mod b < b" using assms by simp
  show "(2 * a) div b = 2 * (a div b) \<and> (2 * a) mod b = 2 * (a mod b)" if "2 * (a mod b) < b"
    by (rule div_mod_unique [OF two that])
  show "(2 * a) div b = 2 * (a div b) + 1 \<and> (2 * a) mod b = 2 * (a mod b) - b"
    if h: "b \<le> 2 * (a mod b)"
  proof (rule div_mod_unique)
    show "2 * a = (2 * (a div b) + 1) * b + (2 * (a mod b) - b)"
      using two h by (simp add: algebra_simps)
    show "2 * (a mod b) - b < b" using lt h by simp
  qed
qed

subsection \<open>Two's complement at 64 bits\<close>

lemma bit63_iff: "bit (x::u64) 63 \<longleftrightarrow> 2 ^ 63 \<le> unat x"
proof -
  have "bit x 63 = bit (unat x) 63" by (simp add: bit_unsigned_iff)
  also have "\<dots> \<longleftrightarrow> odd (unat x div 2 ^ 63)" by (simp add: bit_iff_odd)
  finally have b: "bit x 63 \<longleftrightarrow> odd (unat x div 2 ^ 63)" .
  have "unat x div 2 ^ 63 < 2" using unat64_less [of x] by (simp add: div_less_iff_less_mult)
  then consider "unat x div 2 ^ 63 = 0" | "unat x div 2 ^ 63 = 1" by linarith
  then show ?thesis
  proof cases
    case 1
    then have "unat x < 2 ^ 63" by (simp add: div_eq_0_iff)
    then show ?thesis using b 1 by simp
  next
    case 2
    then have "2 ^ 63 \<le> unat x" by (metis div_less less_numeral_extra(1) not_le less_irrefl)
    then show ?thesis using b 2 by simp
  qed
qed

lemma sint64_unat: "sint (x::i64) = (if unat x < 2 ^ 63 then int (unat x) else int (unat x) - 2 ^ 64)"
proof -
  have "sint x = signed_take_bit 63 (uint x)" by (simp add: sint_uint)
  also have "\<dots> = take_bit 64 (uint x) - 2 ^ 64 * of_bool (bit (uint x) 63)"
    by (simp add: signed_take_bit_eq_take_bit_minus)
  also have "take_bit 64 (uint x) = uint x"
    using uint_bounded [of x] by (simp add: take_bit_int_eq_self_iff)
  also have "bit (uint x) 63 = bit x 63" by (simp add: bit_unsigned_iff)
  finally show ?thesis by (simp add: bit63_iff)
qed

lemma sint64_range: "- (2 ^ 63) \<le> sint (x::i64)" "sint (x::i64) < 2 ^ 63"
  using sint_ge [of x] sint_lt [of x] by simp_all

lemma unat64_sint: "int (unat (x::i64)) = (if sint x < 0 then sint x + 2 ^ 64 else sint x)"
proof -
  have "int (unat x) < 2 ^ 64" using uint_bounded [of x] by simp
  then show ?thesis unfolding sint64_unat by (cases "unat x < 2 ^ 63") auto
qed

lemma sint64_word_of_int:
  "- (2 ^ 63) \<le> k \<Longrightarrow> k < 2 ^ 63 \<Longrightarrow> sint (word_of_int k :: i64) = k"
  by (simp add: sint_sbintrunc' signed_take_bit_int_eq_self)

lemma sint64_neg: "sint (x::i64) \<noteq> - (2 ^ 63) \<Longrightarrow> sint (- x) = - sint x"
proof -
  assume a: "sint x \<noteq> - (2 ^ 63)"
  have "- x = word_of_int (- sint x)" by simp
  then show ?thesis using a sint64_range [of x]
    using sint64_word_of_int [of "- sint x"] by (simp only:)
qed

lemma unat64_neg: "x \<noteq> 0 \<Longrightarrow> unat (- (x::u64)) = 2 ^ 64 - unat x"
proof -
  assume x: "x \<noteq> 0"
  have "- x = (of_nat (2 ^ 64 - unat x) :: u64)" using unat64_less [of x] by (simp add: of_nat_diff)
  moreover have "2 ^ 64 - unat x < 2 ^ 64" using x by (simp add: unat_gt_0)
  ultimately show ?thesis by (simp only: unat_of_nat) simp
qed

lemma drop_bit63_sint: "drop_bit 63 (x::i64) = (if sint x < 0 then 1 else 0)"
proof -
  have "unat (drop_bit 63 x) = (if 2 ^ 63 \<le> unat x then 1 else 0)"
    using unat64_less [of x] by (auto simp: unat_drop_bit_word intro!: div_eq_bracket)
  moreover have "sint x < 0 \<longleftrightarrow> 2 ^ 63 \<le> unat x"
    using uint_bounded [of x] by (auto simp: sint64_unat)
  ultimately show ?thesis by (auto simp: word_unat_eq_iff)
qed

lemma map_update_same: "f y = f (xs ! b) \<Longrightarrow> map f (xs[b := y]) = map f xs"
  by (metis list_update_beyond list_update_id map_update not_less nth_map length_map)

end
