(* ===== verification/MagicDivision.thy ===== *)
theory MagicDivision
  imports StrengthRules
begin

text \<open>
  Correctness of the magic numbers of \<open>StrengthRules\<close>: the loops compute quotients and remainders of
  powers of two (loop invariants over natural numbers), the loops stop, and the multiplier they
  stop with gives the exact quotient for every 64-bit dividend.
\<close>

section \<open>The multiplier, over natural numbers\<close>

text \<open>
  The bound \<open>nc\<close> is the largest number below \<open>W\<close> that leaves remainder \<open>d - 1\<close>; a multiplier
  \<open>m\<close> with \<open>m * d = P + e\<close> divides correctly as soon as \<open>nc * e < P\<close>.
\<close>

lemma magic_round_up:
  fixes d e m n nc P W :: nat
  assumes d: "0 < d" "d \<le> W" and m: "m * d = P + e" and e: "nc * e < P"
    and nc: "nc + 1 = W - W mod d" and n: "n < W"
  shows "(m * n) div P = n div d"
proof -
  define k r where "k = n div d" and "r = n mod d"
  have n_eq: "n = k * d + r" and r: "r < d" using d by (simp_all add: k_def r_def)
  have P: "0 < P" using e by (cases P) auto
  have main: "P * r + e * n < d * P"
  proof (cases "n \<le> nc")
    case True
    then have "e * n < P" using e by (metis le_less_trans mult.commute mult_le_mono1)
    moreover have "P * r \<le> P * (d - 1)" using r d by (simp add: le_diff_conv2 Suc_leI)
    moreover have "P * (d - 1) + P = d * P" using d by (cases d) (simp_all add: algebra_simps)
    ultimately show ?thesis by linarith
  next
    case False
    then have "nc + 1 \<le> n" by simp
    then obtain j where j: "n = (nc + 1) + j" by (auto simp: le_iff_add)
    have jl: "j < W mod d" using j n nc by linarith
    have dv: "d dvd nc + 1" unfolding nc by (simp add: dvd_minus_mod)
    have Wd: "W mod d < d" using d by simp
    have "r = j" unfolding r_def j using dv jl Wd
      by (metis dvd_imp_mod_0 add_0 mod_add_left_eq mod_less less_trans)
    then have r2: "r + 2 \<le> d" using jl Wd by linarith
    have dnc: "d \<le> nc + 1" using dv by (rule dvd_imp_le) simp
    have "j * e \<le> nc * e" using jl Wd dnc by (intro mult_le_mono1) linarith
    moreover have "(nc + 1 + j) * e = nc * e + e + j * e" by (simp add: algebra_simps)
    moreover have "(j + 1) * e \<le> nc * e" using jl Wd dnc by (intro mult_le_mono1) linarith
    ultimately have "e * n < 2 * P" using e unfolding j by (simp add: algebra_simps)
    moreover have "P * r + 2 * P \<le> d * P" using mult_le_mono1 [OF r2, of P] by (simp add: algebra_simps)
    ultimately show ?thesis by linarith
  qed
  have md: "m * n * d = (P + e) * n" using m by (metis mult.assoc mult.commute)
  have lo: "k * P * d \<le> m * n * d"
    unfolding md using n_eq by (simp add: algebra_simps)
  have "m * n * d < (k + 1) * P * d"
    unfolding md using main n_eq by (simp add: algebra_simps)
  with lo d have "k * P \<le> m * n" "m * n < (k + 1) * P" by simp_all
  then have "(m * n) div P = k" by (rule div_eq_bracket)
  then show ?thesis by (simp add: k_def)
qed

text \<open>
  At the end of the dividend range of the signed case, the most negative number, the product may
  reach but not pass the next multiple.
\<close>

lemma magic_round_up_edge:
  fixes d e m nc K W :: nat
  assumes d: "1 < d" "d \<le> W" and m: "m * d = K * W + e" and e: "nc * e < K * W"
    and nc: "nc + 1 = W - W mod d" and e_def: "e = d - K * W mod d" and nz: "K * W mod d \<noteq> 0"
  shows "m * W \<le> (W div d + 1) * (K * W)"
proof -
  define P where "P = K * W"
  define k r where "k = W div d" and "r = W mod d"
  have W_eq: "W = k * d + r" and r: "r < d" using d by (simp_all add: k_def r_def)
  have dv: "d dvd nc + 1" unfolding nc by (simp add: dvd_minus_mod)
  have dnc: "d \<le> nc + 1" using dv by (rule dvd_imp_le) simp
  have Wnc: "W = nc + 1 + r" using nc d by (simp add: r_def)
  have main: "P * r + e * W \<le> d * P"
  proof (cases "r + 2 \<le> d")
    case True
    have "(r + 1) * e \<le> nc * e" using True dnc by (intro mult_le_mono1) linarith
    moreover have "e * W = nc * e + (r + 1) * e" unfolding Wnc by (simp add: algebra_simps)
    ultimately have "e * W \<le> 2 * P" using e by (simp add: P_def)
    moreover have "P * r + 2 * P \<le> d * P" using mult_le_mono1 [OF True, of P] by (simp add: algebra_simps)
    ultimately show ?thesis by linarith
  next
    case False
    then have r1: "r = d - 1" using r by simp
    then have "d dvd W + 1" using d(1) by (simp add: r_def) (metis Suc_pred mod_Suc mod_0_imp_dvd One_nat_def less_trans zero_less_one)
    then have dK: "d dvd K * W + K" by (metis dvd_mult distrib_left mult.right_neutral)
    have "e \<le> K"
    proof -
      have "(K * W + K) mod d = 0" using dK by simp
      then have "(K * W mod d + K) mod d = 0" by (simp add: mod_add_left_eq)
      then have "d \<le> K * W mod d + K" using nz by (metis add_is_0 mod_less not_le)
      then show ?thesis by (simp add: e_def)
    qed
    then have "e * W \<le> P" unfolding P_def by (rule mult_le_mono1)
    moreover have "P * r + P = d * P" using d(1) unfolding r1 by (cases d) (simp_all add: algebra_simps)
    ultimately show ?thesis by linarith
  qed
  have "m * W * d = (P + e) * W" using m unfolding P_def by (metis mult.assoc mult.commute)
  also have "\<dots> \<le> (k + 1) * P * d"
  proof -
    have "P * W = P * (k * d) + P * r" using W_eq by (metis distrib_left)
    moreover have "(P + e) * W = P * W + e * W" by (rule distrib_right)
    moreover have "(k + 1) * P * d = P * (k * d) + d * P" by (simp add: algebra_simps)
    ultimately show ?thesis using main by linarith
  qed
  finally show ?thesis using d(1) by (simp add: k_def P_def)
qed

text \<open>A high multiplication followed by a shift is one division by a power of two.\<close>

lemma div_split: "(a::nat) div (b * c) = a div b div c"
  by (simp add: div_mult2_eq)

lemma high_mult_carry:
  fixes M W n s :: nat
  assumes "0 < W"
  shows "((W + M) * n) div (W * s) = (n + (M * n) div W) div s"
proof -
  have "((W + M) * n) div W = (M * n + n * W) div W" by (simp add: algebra_simps)
  also have "\<dots> = n + (M * n) div W" using assms by simp
  finally show ?thesis by (simp add: div_split)
qed

text \<open>Averaging without overflow, as the emitted code does it.\<close>

lemma avg_no_overflow: "(t::nat) \<le> n \<Longrightarrow> (n - t) div 2 + t = (n + t) div 2"
  by simp

section \<open>The unsigned loop\<close>

definition u64_inv :: "nat \<Rightarrow> nat \<Rightarrow> magic_state \<Rightarrow> bool" where
  "u64_inv d nc st \<longleftrightarrow>
     unat (mr1 st) = 2 ^ mp st mod nc \<and>
     unat (mq1 st) = 2 ^ mp st div nc mod 2 ^ 64 \<and>
     unat (mr2 st) = (2 ^ mp st - 1) mod d \<and>
     unat (mq2 st) = (2 ^ mp st - 1) div d mod 2 ^ 64 \<and>
     madd st = (2 ^ 64 - 1 \<le> (2 ^ mp st - 1) div d)"

lemma div_mod_double_Suc:
  fixes a b :: nat
  assumes "0 < b"
  shows "2 * (a mod b) + 1 < b \<Longrightarrow>
         (2 * a + 1) div b = 2 * (a div b) \<and> (2 * a + 1) mod b = 2 * (a mod b) + 1"
    and "b \<le> 2 * (a mod b) + 1 \<Longrightarrow>
         (2 * a + 1) div b = 2 * (a div b) + 1 \<and> (2 * a + 1) mod b = 2 * (a mod b) + 1 - b"
proof -
  have two: "2 * a + 1 = 2 * (a div b) * b + (2 * (a mod b) + 1)"
    using div_mult_mod_eq [of a b] by (simp only: mult.assoc)
  have lt: "a mod b < b" using assms by simp
  show "(2 * a + 1) div b = 2 * (a div b) \<and> (2 * a + 1) mod b = 2 * (a mod b) + 1"
    if "2 * (a mod b) + 1 < b"
    by (rule div_mod_unique [OF two that])
  show "(2 * a + 1) div b = 2 * (a div b) + 1 \<and> (2 * a + 1) mod b = 2 * (a mod b) + 1 - b"
    if h: "b \<le> 2 * (a mod b) + 1"
  proof (rule div_mod_unique)
    show "2 * a + 1 = (2 * (a div b) + 1) * b + (2 * (a mod b) + 1 - b)"
      using two h by (simp add: algebra_simps)
    show "2 * (a mod b) + 1 - b < b" using lt h by simp
  qed
qed

text \<open>Doubling a remainder below the modulus, on words.\<close>

lemma double_rem_word:
  fixes r m :: u64
  assumes "unat r < unat m"
  shows "(m - r \<le> r) = (unat m \<le> 2 * unat r)"
    and "unat m \<le> 2 * unat r \<Longrightarrow> unat (2 * r - m) = 2 * unat r - unat m"
    and "2 * unat r < unat m \<Longrightarrow> unat (2 * r) = 2 * unat r"
proof -
  have le: "r \<le> m" using assms by (simp add: word_le_nat_alt)
  then show "(m - r \<le> r) = (unat m \<le> 2 * unat r)"
    using assms by (auto simp: word_le_nat_alt unat_sub)
  show "unat (2 * r - m) = 2 * unat r - unat m" if h: "unat m \<le> 2 * unat r"
  proof -
    have "2 * r - m = (of_nat (2 * unat r - unat m) :: u64)" using h by simp
    moreover have "2 * unat r - unat m < 2 ^ 64" using assms h unat64_less [of r] by simp
    ultimately show ?thesis by (simp only: unat_of_nat) simp
  qed
  show "unat (2 * r) = 2 * unat r" if h: "2 * unat r < unat m"
    using h unat64_less [of m] by (simp add: unat64_double)
qed

lemma double_rem_Suc_word:
  fixes r m :: u64
  assumes "unat r < unat m"
  shows "(m - r \<le> r + 1) = (unat m \<le> 2 * unat r + 1)"
    and "unat m \<le> 2 * unat r + 1 \<Longrightarrow> unat (2 * r + 1 - m) = 2 * unat r + 1 - unat m"
    and "2 * unat r + 1 < unat m \<Longrightarrow> unat (2 * r + 1) = 2 * unat r + 1"
proof -
  have le: "r \<le> m" using assms by (simp add: word_le_nat_alt)
  have r1: "unat (r + 1) = unat r + 1"
    using assms unat64_less [of m] by (simp add: unat_word_ariths)
  show "(m - r \<le> r + 1) = (unat m \<le> 2 * unat r + 1)"
    using assms le r1 by (auto simp: word_le_nat_alt unat_sub)
  show "unat (2 * r + 1 - m) = 2 * unat r + 1 - unat m" if h: "unat m \<le> 2 * unat r + 1"
  proof -
    have "2 * r + 1 - m = (of_nat (2 * unat r + 1 - unat m) :: u64)" using h by simp
    moreover have "2 * unat r + 1 - unat m < 2 ^ 64" using assms h unat64_less [of r] by simp
    ultimately show ?thesis by (simp only: unat_of_nat) simp
  qed
  show "unat (2 * r + 1) = 2 * unat r + 1" if h: "2 * unat r + 1 < unat m"
    using h unat64_less [of m] by (simp add: unat64_double_Suc)
qed

lemma pow_Suc_minus_1: "(2::nat) ^ Suc p - 1 = 2 * (2 ^ p - 1) + 1"
proof -
  have "(1::nat) \<le> 2 ^ p" by simp
  then show ?thesis unfolding power_Suc by linarith
qed

lemma double_mod64: "2 * (x mod 2 ^ 64) mod 2 ^ 64 = 2 * x mod (2 ^ 64 :: nat)"
  by (rule mod_mult_right_eq)

lemma double_Suc_mod64: "(2 * (x mod 2 ^ 64) + 1) mod 2 ^ 64 = (2 * x + 1) mod (2 ^ 64 :: nat)"
  by (metis double_mod64 mod_add_left_eq)

lemma u64_step_1:
  fixes d nc :: u64 and st :: magic_state
  assumes inv: "u64_inv D (unat nc) st" and nc: "0 < unat nc"
  defines "st' \<equiv> cg_magic_u64_step d nc st"
  shows "unat (mr1 st') = 2 ^ mp st' mod unat nc"
    and "unat (mq1 st') = 2 ^ mp st' div unat nc mod 2 ^ 64"
proof -
  define a :: nat where "a = 2 ^ mp st"
  have r: "unat (mr1 st) = a mod unat nc" and q: "unat (mq1 st) = a div unat nc mod 2 ^ 64"
    using inv by (simp_all add: u64_inv_def a_def)
  have lt: "unat (mr1 st) < unat nc" using nc r by simp
  have "mp st' = Suc (mp st)" by (simp add: st'_def cg_magic_u64_step_def)
  then have pw: "(2::nat) ^ mp st' = 2 * a" by (simp add: a_def)
  note dm = div_mod_double [OF nc, of a, folded r] and dw = double_rem_word [OF lt]
  have "unat (mr1 st') = 2 * a mod unat nc \<and> unat (mq1 st') = 2 * a div unat nc mod 2 ^ 64"
  proof (cases "unat nc \<le> 2 * unat (mr1 st)")
    case True
    then have "mr1 st' = 2 * mr1 st - nc" "mq1 st' = 2 * mq1 st + 1"
      using dw(1) by (simp_all add: st'_def cg_magic_u64_step_def)
    then show ?thesis using dm(2) [OF True] dw(2) [OF True]
      by (simp only: unat64_double_Suc q double_Suc_mod64)
  next
    case False
    then have lt2: "2 * unat (mr1 st) < unat nc" by simp
    have "mr1 st' = 2 * mr1 st" "mq1 st' = 2 * mq1 st"
      using dw(1) False by (simp_all add: st'_def cg_magic_u64_step_def)
    then show ?thesis using dm(1) [OF lt2] dw(3) [OF lt2]
      by (simp only: unat64_double q double_mod64)
  qed
  then show "unat (mr1 st') = 2 ^ mp st' mod unat nc"
    and "unat (mq1 st') = 2 ^ mp st' div unat nc mod 2 ^ 64"
    unfolding pw by simp_all
qed

lemma u64_step_2:
  fixes d nc :: u64 and st :: magic_state
  assumes inv: "u64_inv (unat d) N st" and d: "0 < unat d"
  defines "st' \<equiv> cg_magic_u64_step d nc st"
  shows "unat (mr2 st') = (2 ^ mp st' - 1) mod unat d"
    and "unat (mq2 st') = (2 ^ mp st' - 1) div unat d mod 2 ^ 64"
    and "madd st' = (2 ^ 64 - 1 \<le> (2 ^ mp st' - 1) div unat d)"
proof -
  define a :: nat where "a = 2 ^ mp st - 1"
  have r: "unat (mr2 st) = a mod unat d" and q: "unat (mq2 st) = a div unat d mod 2 ^ 64"
    and ad: "madd st = (2 ^ 64 - 1 \<le> a div unat d)"
    using inv by (simp_all add: u64_inv_def a_def)
  have lt: "unat (mr2 st) < unat d" using d r by simp
  have "mp st' = Suc (mp st)" by (simp add: st'_def cg_magic_u64_step_def)
  then have pw: "(2::nat) ^ mp st' - 1 = 2 * a + 1" unfolding a_def by (simp only: pow_Suc_minus_1)
  note dm = div_mod_double_Suc [OF d, of a, folded r] and dw = double_rem_Suc_word [OF lt]
  have qe: "unat (mq2 st) = a div unat d" if "\<not> madd st"
    using that q ad by simp
  have t: "unat two63 = 2 ^ 63" "unat (two63 - 1) = 2 ^ 63 - 1" by (simp_all add: two63_def)
  have "unat (mr2 st') = (2 * a + 1) mod unat d \<and>
        unat (mq2 st') = (2 * a + 1) div unat d mod 2 ^ 64 \<and>
        madd st' = (2 ^ 64 - 1 \<le> (2 * a + 1) div unat d)"
  proof (cases "unat d \<le> 2 * unat (mr2 st) + 1")
    case True
    then have st': "mr2 st' = 2 * mr2 st + 1 - d" "mq2 st' = 2 * mq2 st + 1"
      "madd st' = (madd st \<or> two63 - 1 \<le> mq2 st)"
      using dw(1) by (simp_all add: st'_def cg_magic_u64_step_def)
    have "madd st' = (2 ^ 64 - 1 \<le> 2 * (a div unat d) + 1)"
      unfolding st'(3) word_le_nat_alt t using ad qe by (cases "madd st") auto
    then show ?thesis using dm(2) [OF True] dw(2) [OF True] st'(1,2)
      by (simp only: unat64_double_Suc q double_Suc_mod64)
  next
    case False
    then have lt2: "2 * unat (mr2 st) + 1 < unat d" by simp
    have st': "mr2 st' = 2 * mr2 st + 1" "mq2 st' = 2 * mq2 st"
      "madd st' = (madd st \<or> two63 \<le> mq2 st)"
      using dw(1) False by (simp_all add: st'_def cg_magic_u64_step_def)
    have "madd st' = (2 ^ 64 - 1 \<le> 2 * (a div unat d))"
      unfolding st'(3) word_le_nat_alt t using ad qe by (cases "madd st") auto
    then show ?thesis using dm(1) [OF lt2] dw(3) [OF lt2] st'(1,2)
      by (simp only: unat64_double q double_mod64)
  qed
  then show "unat (mr2 st') = (2 ^ mp st' - 1) mod unat d"
    and "unat (mq2 st') = (2 ^ mp st' - 1) div unat d mod 2 ^ 64"
    and "madd st' = (2 ^ 64 - 1 \<le> (2 ^ mp st' - 1) div unat d)"
    unfolding pw by simp_all
qed

lemma u64_step_inv:
  "u64_inv (unat d) (unat nc) st \<Longrightarrow> 0 < unat d \<Longrightarrow> 0 < unat nc \<Longrightarrow>
   u64_inv (unat d) (unat nc) (cg_magic_u64_step d nc st)"
  unfolding u64_inv_def [of _ _ "cg_magic_u64_step d nc st"]
  by (intro conjI u64_step_1 u64_step_2)

text \<open>
  What holds whenever the loop body is entered: the invariant, and for divisors up to \<open>2^63\<close> a bound
  on the power, which keeps the first quotient from wrapping around.
\<close>

definition u64_entry :: "nat \<Rightarrow> nat \<Rightarrow> magic_state \<Rightarrow> bool" where
  "u64_entry d nc st \<longleftrightarrow> u64_inv d nc st \<and> 63 \<le> mp st \<and> mp st < 128 \<and>
     (d \<le> 2 ^ 63 \<longrightarrow> mp st = 63 \<or> 2 ^ mp st \<le> nc * (d - 1))"

lemma u64_entry_quotient:
  assumes "u64_entry d nc st" and "d \<le> 2 ^ 63" and "2 ^ 63 \<le> nc"
  shows "2 ^ Suc (mp st) div nc < 2 ^ 64"
proof -
  have nc: "0 < nc" using assms(3) by (metis gr0I not_le zero_less_power zero_less_numeral)
  have "2 ^ mp st < nc * 2 ^ 63 \<or> 2 ^ mp st \<le> nc"
  proof (cases "mp st = 63")
    case True then show ?thesis using assms(3) by simp
  next
    case False
    then have "2 ^ mp st \<le> nc * (d - 1)" using assms by (simp add: u64_entry_def)
    also have "nc * (d - 1) < nc * 2 ^ 63"
    proof (rule mult_strict_left_mono)
      have "d - 1 < d \<or> d = 0" by auto
      then show "d - 1 < 2 ^ 63" using assms(2) by auto
    qed (rule nc)
    finally show ?thesis ..
  qed
  then have "2 ^ Suc (mp st) < nc * 2 ^ 64"
  proof
    assume "2 ^ mp st < nc * 2 ^ 63" then show ?thesis by simp
  next
    assume "2 ^ mp st \<le> nc"
    then have "2 ^ Suc (mp st) \<le> nc * 2" by simp
    also have "nc * 2 < nc * 2 ^ 64" using nc by simp
    finally show ?thesis .
  qed
  then show ?thesis by (metis less_mult_imp_div_less mult.commute)
qed

lemma u64_delta:
  assumes "u64_inv (unat d) N st" and "0 < unat d"
  shows "unat (d - 1 - mr2 st) = unat d - 1 - (2 ^ mp st - 1) mod unat d"
proof -
  have lt: "unat (mr2 st) < unat d" using assms by (simp add: u64_inv_def)
  have one: "unat (d - 1) = unat d - 1"
    using assms(2) by (simp add: unat_sub word_le_nat_alt)
  then have "mr2 st \<le> d - 1" using lt by (simp add: word_le_nat_alt)
  then show ?thesis using assms(1) one by (simp add: unat_sub u64_inv_def)
qed

lemma u64_cont_bound:
  assumes inv: "u64_inv (unat d) N st" and d: "0 < unat d" and N: "0 < N"
    and ex: "2 ^ mp st div N < 2 ^ 64" and c: "cg_magic_u64_cont d st"
  shows "2 ^ mp st \<le> N * (unat d - 1)"
proof -
  define q r :: nat where "q = 2 ^ mp st div N" and "r = 2 ^ mp st mod N"
  define e where "e = unat d - 1 - (2 ^ mp st - 1) mod unat d"
  have q: "unat (mq1 st) = q" and r: "unat (mr1 st) = r"
    using inv ex by (simp_all add: u64_inv_def q_def r_def)
  have de: "unat (d - 1 - mr2 st) = e" unfolding e_def by (rule u64_delta [OF inv d])
  have eq: "2 ^ mp st = q * N + r" and rl: "r < N" using N by (simp_all add: q_def r_def)
  have "q < e \<or> (q = e \<and> r = 0)"
    using c q r de unfolding cg_magic_u64_cont_def Let_def
    by (metis word_less_nat_alt unat_0)
  then have "q * N + r \<le> e * N"
  proof
    assume "q < e" then have "(q + 1) * N \<le> e * N" by (intro mult_le_mono1) simp
    then show ?thesis using rl by simp
  qed simp
  also have "e * N \<le> (unat d - 1) * N" by (intro mult_le_mono1) (simp add: e_def)
  finally show ?thesis unfolding eq by (simp only: mult.commute)
qed

lemma u64_exit_bound:
  assumes inv: "u64_inv (unat d) N st" and d: "0 < unat d" and N: "0 < N" "N < 2 ^ 64"
    and p: "mp st \<le> 128" and c: "\<not> cg_magic_u64_cont d st"
  shows "N * (unat d - 1 - (2 ^ mp st - 1) mod unat d) < 2 ^ mp st"
proof -
  define q r :: nat where "q = 2 ^ mp st div N" and "r = 2 ^ mp st mod N"
  define e where "e = unat d - 1 - (2 ^ mp st - 1) mod unat d"
  have qw: "unat (mq1 st) \<le> q" and r: "unat (mr1 st) = r"
    using inv by (simp_all add: u64_inv_def q_def r_def)
  have de: "unat (d - 1 - mr2 st) = e" unfolding e_def by (rule u64_delta [OF inv d])
  have eq: "2 ^ mp st = q * N + r" using N by (simp add: q_def r_def)
  consider "mp st = 128" | "e < q" | "e = q" "0 < r"
  proof -
    have "mp st = 128 \<or> \<not> unat (mq1 st) < e \<and> \<not> (unat (mq1 st) = e \<and> r = 0)"
      using c p r de unfolding cg_magic_u64_cont_def Let_def word_less_nat_alt
      by (metis le_neq_implies_less unat_eq_zero word_unat_eq_iff)
    then show thesis using that qw by fastforce
  qed
  then have "N * e < 2 ^ mp st"
  proof cases
    case 1
    have "e < 2 ^ 64" using de unat64_less [of "d - 1 - mr2 st"] by simp
    then have "N * e < 2 ^ 64 * 2 ^ 64" using N(2) by (intro mult_strict_mono') simp_all
    then show ?thesis unfolding 1 by simp
  next
    case 2
    then have "(e + 1) * N \<le> q * N" by (intro mult_le_mono1) simp
    then show ?thesis unfolding eq using N(1) by (simp add: mult.commute)
  next
    case 3 then show ?thesis unfolding eq by (simp add: mult.commute)
  qed
  then show ?thesis by (simp add: e_def)
qed

text \<open>The loop ends with a step that was entered properly and whose result is not continued.\<close>

lemma u64_loop_last:
  assumes "u64_entry (unat d) (unat nc) st" and "0 < unat d" and "2 ^ 63 \<le> unat nc"
  shows "\<exists>s. u64_entry (unat d) (unat nc) s \<and> cg_magic_u64_loop d nc st = cg_magic_u64_step d nc s \<and>
             \<not> cg_magic_u64_cont d (cg_magic_u64_step d nc s)"
  using assms
proof (induction d nc st rule: cg_magic_u64_loop.induct)
  case (1 d nc st)
  let ?s = "cg_magic_u64_step d nc st"
  show ?case
  proof (cases "cg_magic_u64_cont d ?s")
    case False
    then show ?thesis using "1.prems"(1)
      by (intro exI [of _ st]) (simp add: cg_magic_u64_loop.simps [of d nc st])
  next
    case True
    have nc: "0 < unat nc" using "1.prems"(3) by (metis gr0I not_le zero_less_power zero_less_numeral)
    have inv: "u64_inv (unat d) (unat nc) ?s"
      using "1.prems"(1,2) nc by (intro u64_step_inv) (simp_all add: u64_entry_def)
    have mp: "mp ?s = Suc (mp st)" by (simp add: cg_magic_u64_step_def)
    have "2 ^ mp ?s \<le> unat nc * (unat d - 1)" if "unat d \<le> 2 ^ 63"
      using u64_cont_bound [OF inv "1.prems"(2) nc _ True]
        u64_entry_quotient [OF "1.prems"(1) that "1.prems"(3)] mp by simp
    moreover have "mp ?s < 128" using True by (simp add: cg_magic_u64_cont_def Let_def)
    ultimately have "u64_entry (unat d) (unat nc) ?s"
      using inv "1.prems"(1) mp by (simp add: u64_entry_def)
    then show ?thesis
      using "1.IH" [OF refl True] "1.prems"(2,3) True
      by (simp add: cg_magic_u64_loop.simps [of d nc st])
  qed
qed

lemma div_less_of_mult: "(a::nat) < b * c \<Longrightarrow> a div b < c"
  by (metis less_mult_imp_div_less mult.commute)

lemma u64_entry_high:
  assumes "u64_entry d nc s" and "2 \<le> d" "d < 2 ^ 64" and "nc < 2 ^ 64"
  shows "(2 ^ Suc (mp s) - 1) div d \<le> 2 ^ 65 - 2"
proof -
  have "2 ^ Suc (mp s) - 1 < d * (2 ^ 65 - 1)"
  proof (cases "d \<le> 2 ^ 63")
    case True
    then consider "mp s = 63" | "2 ^ mp s \<le> nc * (d - 1)" using assms(1) by (auto simp: u64_entry_def)
    then show ?thesis
    proof cases
      case 1
      have "(2::nat) ^ Suc (mp s) - 1 < 2 * (2 ^ 65 - 1)" unfolding 1 by simp
      also have "\<dots> \<le> d * (2 ^ 65 - 1)" by (rule mult_le_mono1) (rule assms(2))
      finally show ?thesis .
    next
      case 2
      have "nc * (d - 1) \<le> (2 ^ 64 - 1) * (d - 1)" by (rule mult_le_mono1) (use assms(4) in simp)
      with 2 have "2 ^ mp s \<le> (2 ^ 64 - 1) * (d - 1)" by (rule order_trans)
      then have "2 ^ Suc (mp s) \<le> 2 * ((2 ^ 64 - 1) * (d - 1))" unfolding power_Suc
        by (rule mult_le_mono2)
      moreover have "2 * ((2 ^ 64 - 1) * (d - 1)) + 2 ^ 65 \<le> d * (2 ^ 65 - 1) + d"
        using assms(2) by (simp add: algebra_simps diff_mult_distrib2)
      moreover have "P - 1 < Y" if "P \<le> X" "X + 2 ^ 65 \<le> Y + d" for P X Y :: nat
        using that assms(3) by simp
      ultimately show ?thesis by blast
    qed
  next
    case False
    have "mp s < 128" using assms(1) by (simp add: u64_entry_def)
    then have "Suc (mp s) \<le> 128" by simp
    then have "(2::nat) ^ Suc (mp s) \<le> 2 ^ 128" by (intro power_increasing) simp_all
    also have "(2::nat) ^ 128 < (2 ^ 63 + 1) * (2 ^ 65 - 1)" by simp
    also have "\<dots> \<le> d * (2 ^ 65 - 1)" by (rule mult_le_mono1) (use False in simp)
    finally show ?thesis by linarith
  qed
  then have "(2 ^ Suc (mp s) - 1) div d < 2 ^ 65 - 1" by (rule div_less_of_mult)
  then show ?thesis by linarith
qed

lemma u64_nc:
  assumes d: "1 < unat d"
  defines "nc \<equiv> (-1) - (0 - d) mod (d :: u64)"
  shows "unat nc + 1 = 2 ^ 64 - 2 ^ 64 mod unat d" and "2 ^ 63 \<le> unat nc"
proof -
  have "unat (0 - d) = 2 ^ 64 - unat d"
  proof -
    have "0 - d = (of_nat (2 ^ 64 - unat d) :: u64)" using unat64_less [of d] by (simp add: of_nat_diff)
    moreover have "2 ^ 64 - unat d < 2 ^ 64" using d by simp
    ultimately show ?thesis by (simp only: unat_of_nat) simp
  qed
  moreover have "(2 ^ 64 - unat d) mod unat d = 2 ^ 64 mod unat d"
    using unat64_less [of d] by (simp add: le_mod_geq)
  ultimately have m: "unat ((0 - d) mod d) = 2 ^ 64 mod unat d"
    by (simp only: unat_mod)
  have all: "unat (-1 :: u64) = 2 ^ 64 - 1" by (simp add: unsigned_minus_1_eq_mask mask_eq_exp_minus_1)
  have le: "(0 - d) mod d \<le> -1" by simp
  have lt: "2 ^ 64 mod unat d < unat d" using d by simp
  have nc: "unat nc = 2 ^ 64 - 1 - 2 ^ 64 mod unat d"
    unfolding nc_def unat_sub [OF le] all m by simp
  have "2 ^ 64 mod unat d \<le> 2 ^ 63 - 1"
  proof (cases "unat d \<le> 2 ^ 63")
    case True then show ?thesis using lt by simp
  next
    case False
    then have "(2 ^ 64 :: nat) mod unat d = 2 ^ 64 - unat d"
      using unat64_less [of d] by (simp add: le_mod_geq)
    then show ?thesis using False by simp
  qed
  then show "unat nc + 1 = 2 ^ 64 - 2 ^ 64 mod unat d" and "2 ^ 63 \<le> unat nc"
    unfolding nc by simp_all
qed

lemma u64_init_entry:
  assumes "1 < unat d" and "2 ^ 63 \<le> unat nc"
  shows "u64_entry (unat d) (unat nc)
     \<lparr>mp = 63, mq1 = two63 div nc, mr1 = two63 - two63 div nc * nc,
      mq2 = (two63 - 1) div d, mr2 = (two63 - 1) - (two63 - 1) div d * d, madd = False\<rparr>"
proof -
  have t: "unat two63 = 2 ^ 63" "unat (two63 - 1) = 2 ^ 63 - 1" by (simp_all add: two63_def)
  have q: "(2 ^ 63 - 1) div unat d < (2 ^ 64 - 1 :: nat)" 
    by (rule le_less_trans [OF div_le_dividend]) simp
  have q1: "2 ^ 63 div unat nc < (2 ^ 64 :: nat)"
    by (rule le_less_trans [OF div_le_dividend]) simp
  have r: "unat (x - x div y * y) = unat x mod unat y" for x y :: u64
    by (metis minus_div_mult_eq_mod unat_mod)
  show ?thesis
    using q q1 by (simp add: u64_entry_def u64_inv_def r t unat_div)
qed

text \<open>What the unsigned loop ends with, over natural numbers.\<close>

lemma cg_magic_u64_spec:
  assumes d: "1 < unat d" and eq: "cg_magic_u64 d = (M, s, a)"
  obtains q where "a = (2 ^ 64 - 1 \<le> q)" and "unat M = (q + 1) mod 2 ^ 64" and "q \<le> 2 ^ 65 - 2"
    and "q = (2 ^ (64 + s) - 1) div unat d" and "s \<le> 64"
    and "\<And>n. n < 2 ^ 64 \<Longrightarrow> ((q + 1) * n) div 2 ^ (64 + s) = n div unat d"
proof -
  define nc where "nc = (-1) - (0 - d) mod d"
  define st0 where "st0 = \<lparr>mp = 63, mq1 = two63 div nc, mr1 = two63 - two63 div nc * nc,
      mq2 = (two63 - 1) div d, mr2 = (two63 - 1) - (two63 - 1) div d * d, madd = False\<rparr>"
  note nc = u64_nc [OF d, folded nc_def]
  have d0: "0 < unat d" using d by simp
  have nc0: "0 < unat nc" using nc(2) by (metis gr0I not_le zero_less_power zero_less_numeral)
  have "u64_entry (unat d) (unat nc) st0" unfolding st0_def by (rule u64_init_entry [OF d nc(2)])
  then obtain st where st: "u64_entry (unat d) (unat nc) st"
    and loop: "cg_magic_u64_loop d nc st0 = cg_magic_u64_step d nc st"
    and stop: "\<not> cg_magic_u64_cont d (cg_magic_u64_step d nc st)"
    using u64_loop_last [OF _ d0 nc(2)] by blast
  define z where "z = cg_magic_u64_step d nc st"
  have res: "M = mq2 z + 1" "s = mp z - 64" "a = madd z"
    using eq unfolding cg_magic_u64_def Let_def nc_def [symmetric] st0_def [symmetric] loop z_def
    by simp_all
  have mpz: "mp z = Suc (mp st)" by (simp add: z_def cg_magic_u64_step_def)
  have p: "64 \<le> mp z" "mp z \<le> 128" using st by (simp_all add: mpz u64_entry_def)
  then have ps: "64 + s = mp z" "s \<le> 64" by (simp_all add: res)
  have inv: "u64_inv (unat d) (unat nc) z"
    unfolding z_def using st d0 nc0 by (intro u64_step_inv) (simp_all add: u64_entry_def)
  define q where "q = (2 ^ mp z - 1) div unat d"
  define e where "e = unat d - 1 - (2 ^ mp z - 1) mod unat d"
  have ncW: "unat nc < 2 ^ 64" using unat64_less [of nc] by simp
  have bound: "unat nc * e < 2 ^ mp z"
    unfolding e_def using inv d0 nc0 ncW p(2) stop
    by (intro u64_exit_bound) (simp_all add: z_def)
  have md: "(q + 1) * unat d = 2 ^ mp z + e"
  proof -
    have "(2 ^ mp z - 1) mod unat d < unat d" using d0 by simp
    moreover have "q * unat d + (2 ^ mp z - 1) mod unat d = 2 ^ mp z - 1" by (simp add: q_def)
    moreover have "(1::nat) \<le> 2 ^ mp z" by simp
    moreover have "(q + 1) * unat d = q * unat d + unat d" by simp
    ultimately show ?thesis unfolding e_def by linarith
  qed
  show thesis
  proof (rule that)
    show "a = (2 ^ 64 - 1 \<le> q)" using inv by (simp add: res u64_inv_def q_def)
    have "unat (mq2 z + 1) = (unat (mq2 z) + 1) mod 2 ^ 64" by (simp add: unat_word_ariths)
    also have "unat (mq2 z) = q mod 2 ^ 64" using inv by (simp only: u64_inv_def q_def)
    also have "(q mod 2 ^ 64 + 1) mod 2 ^ 64 = (q + 1) mod 2 ^ 64" by (rule mod_add_left_eq)
    finally show "unat M = (q + 1) mod 2 ^ 64" by (simp only: res)
    show "q \<le> 2 ^ 65 - 2" unfolding q_def mpz
      using d unat64_less [of d] ncW by (intro u64_entry_high [OF st]) simp_all
    show "q = (2 ^ (64 + s) - 1) div unat d" by (simp only: ps q_def)
    show "s \<le> 64" by (rule ps)
    show "((q + 1) * n) div 2 ^ (64 + s) = n div unat d" if "n < 2 ^ 64" for n
      unfolding ps using unat64_less [of d] that
      by (intro magic_round_up [OF d0 _ md bound nc(1)]) simp_all
  qed
qed

section \<open>The signed loop\<close>

definition s64_inv :: "nat \<Rightarrow> nat \<Rightarrow> magic_state \<Rightarrow> bool" where
  "s64_inv d nc st \<longleftrightarrow>
     unat (mr1 st) = 2 ^ mp st mod nc \<and>
     unat (mq1 st) = 2 ^ mp st div nc mod 2 ^ 64 \<and>
     unat (mr2 st) = 2 ^ mp st mod d \<and>
     unat (mq2 st) = 2 ^ mp st div d mod 2 ^ 64"

text \<open>Shifting a remainder left by one and reducing it, on words.\<close>

lemma shl_reduce:
  fixes q r m :: u64
  assumes r: "unat r = a mod unat m" and q: "unat q = a div unat m mod 2 ^ 64"
    and m: "0 < unat m" "unat m \<le> 2 ^ 63"
  defines "qr \<equiv> (if m \<le> push_bit 1 r then (push_bit 1 q + 1, push_bit 1 r - m)
                 else (push_bit 1 q, push_bit 1 r))"
  shows "unat (snd qr) = 2 * a mod unat m" and "unat (fst qr) = 2 * a div unat m mod 2 ^ 64"
proof -
  have lt: "unat r < unat m" using m r by simp
  have pr: "push_bit 1 x = 2 * x" for x :: u64 by (simp add: push_bit_eq_mult)
  have ur: "unat (2 * r) = 2 * unat r" using lt m(2) by (simp add: unat64_double)
  note dm = div_mod_double [OF m(1), of a, folded r]
  have "unat (snd qr) = 2 * a mod unat m \<and> unat (fst qr) = 2 * a div unat m mod 2 ^ 64"
  proof (cases "unat m \<le> 2 * unat r")
    case True
    then have le: "m \<le> 2 * r" by (simp add: word_le_nat_alt ur)
    then have e: "snd qr = 2 * r - m" "fst qr = 2 * q + 1" unfolding qr_def pr by simp_all
    have "unat (2 * r - m) = 2 * unat r - unat m" using le ur by (simp add: unat_sub)
    then show ?thesis unfolding e using dm(2) [OF True]
      by (simp only: unat64_double_Suc q double_Suc_mod64)
  next
    case False
    then have "\<not> m \<le> 2 * r" by (simp add: word_le_nat_alt ur)
    then have e: "snd qr = 2 * r" "fst qr = 2 * q" unfolding qr_def pr by simp_all
    show ?thesis unfolding e using dm(1) False ur
      by (simp only: unat64_double q double_mod64 not_le)
  qed
  then show "unat (snd qr) = 2 * a mod unat m" "unat (fst qr) = 2 * a div unat m mod 2 ^ 64"
    by simp_all
qed

lemma s64_step_mp [simp]: "mp (cg_magic_s64_step ad anc st) = Suc (mp st)"
  by (simp add: cg_magic_s64_step_def Let_def)

lemma s64_step_inv:
  assumes inv: "s64_inv (unat ad) (unat anc) st"
    and ad: "0 < unat ad" "unat ad \<le> 2 ^ 63" and anc: "0 < unat anc" "unat anc \<le> 2 ^ 63"
  shows "s64_inv (unat ad) (unat anc) (cg_magic_s64_step ad anc st)"
proof -
  have i: "unat (mr1 st) = 2 ^ mp st mod unat anc" "unat (mq1 st) = 2 ^ mp st div unat anc mod 2 ^ 64"
    "unat (mr2 st) = 2 ^ mp st mod unat ad" "unat (mq2 st) = 2 ^ mp st div unat ad mod 2 ^ 64"
    using inv by (simp_all only: s64_inv_def)
  note one = shl_reduce [OF i(1,2) anc] and two = shl_reduce [OF i(3,4) ad]
  show ?thesis
    unfolding s64_inv_def s64_step_mp power_Suc one(1) [symmetric] one(2) [symmetric]
      two(1) [symmetric] two(2) [symmetric]
    by (simp add: cg_magic_s64_step_def Let_def)
qed

definition s64_entry :: "nat \<Rightarrow> nat \<Rightarrow> magic_state \<Rightarrow> bool" where
  "s64_entry d nc st \<longleftrightarrow> s64_inv d nc st \<and> 63 \<le> mp st \<and> (mp st = 63 \<or> 2 ^ mp st \<le> nc * (d - 2 ^ mp st mod d))"

lemma s64_delta:
  assumes "s64_inv (unat d) N st" and "0 < unat d"
  shows "unat (d - mr2 st) = unat d - 2 ^ mp st mod unat d"
proof -
  have r: "unat (mr2 st) = 2 ^ mp st mod unat d" using assms by (simp add: s64_inv_def)
  then have "mr2 st \<le> d" using assms(2) by (simp add: word_le_nat_alt less_imp_le)
  then show ?thesis using r by (simp add: unat_sub)
qed

lemma s64_cont_iff:
  assumes inv: "s64_inv (unat d) N st" and d: "0 < unat d" and N: "0 < N"
    and ex: "2 ^ mp st div N < 2 ^ 64"
  shows "cg_magic_s64_cont d st \<longleftrightarrow> 2 ^ mp st \<le> N * (unat d - 2 ^ mp st mod unat d)"
proof -
  define q r :: nat where "q = 2 ^ mp st div N" and "r = 2 ^ mp st mod N"
  define e where "e = unat d - 2 ^ mp st mod unat d"
  have q: "unat (mq1 st) = q" and r: "unat (mr1 st) = r"
    using inv ex by (simp_all add: s64_inv_def q_def r_def)
  have de: "unat (d - mr2 st) = e" unfolding e_def by (rule s64_delta [OF inv d])
  have eq: "2 ^ mp st = q * N + r" and rl: "r < N" using N by (simp_all add: q_def r_def)
  have "cg_magic_s64_cont d st \<longleftrightarrow> q < e \<or> (q = e \<and> r = 0)"
    using q r de unfolding cg_magic_s64_cont_def Let_def
    by (metis word_less_nat_alt unat_eq_zero word_unat_eq_iff)
  also have "\<dots> \<longleftrightarrow> q * N + r \<le> e * N"
  proof
    assume "q < e \<or> (q = e \<and> r = 0)"
    then show "q * N + r \<le> e * N"
    proof
      assume "q < e" then have "(q + 1) * N \<le> e * N" by (intro mult_le_mono1) simp
      then show ?thesis using rl by simp
    qed simp
  next
    assume le: "q * N + r \<le> e * N"
    have "q \<le> e"
    proof (rule ccontr)
      assume "\<not> q \<le> e" then have "(e + 1) * N \<le> q * N" by (intro mult_le_mono1) simp
      then show False using le N by simp
    qed
    then show "q < e \<or> (q = e \<and> r = 0)" using le by (cases "q = e") simp_all
  qed
  finally show ?thesis unfolding eq e_def by (simp only: mult.commute)
qed

lemma s64_quotient_exact:
  assumes st: "s64_entry d N st" and N: "1 < N" and A: "\<And>p. 2 ^ p \<le> N * d \<Longrightarrow> 2 ^ p < N * 2 ^ 63"
  shows "2 ^ Suc (mp st) div N < 2 ^ 64"
proof -
  have "2 ^ mp st < N * 2 ^ 63"
  proof (cases "mp st = 63")
    case True then show ?thesis using N by simp
  next
    case False
    then have "2 ^ mp st \<le> N * (d - 2 ^ mp st mod d)" using st by (simp add: s64_entry_def)
    also have "\<dots> \<le> N * d" by (rule mult_le_mono2) simp
    finally show ?thesis by (rule A)
  qed
  then have "2 ^ Suc (mp st) < N * 2 ^ 64" by simp
  then show ?thesis by (rule div_less_of_mult)
qed

text \<open>The signed loop returns: the power outgrows the bound after at most 64 rounds.\<close>

lemma s64_loop_returns:
  assumes "s64_entry (unat ad) (unat anc) st"
    and "0 < unat ad" "unat ad \<le> 2 ^ 63" and "1 < unat anc" "unat anc \<le> 2 ^ 63"
    and A: "\<And>p. 2 ^ p \<le> unat anc * unat ad \<Longrightarrow> 2 ^ p < unat anc * 2 ^ 63"
  shows "\<exists>s. s64_entry (unat ad) (unat anc) s \<and>
             cg_magic_s64_loop ad anc st = Some (cg_magic_s64_step ad anc s) \<and>
             unat anc * (unat ad - 2 ^ Suc (mp s) mod unat ad) < 2 ^ Suc (mp s) \<and> mp s < 127"
  using assms(1)
proof (induction "127 - mp st" arbitrary: st rule: less_induct)
  case less
  let ?s = "cg_magic_s64_step ad anc st"
  have anc0: "0 < unat anc" using assms(4) by simp
  have inv: "s64_inv (unat ad) (unat anc) ?s"
    using less.prems assms(2,3,5) anc0 by (intro s64_step_inv) (simp_all add: s64_entry_def)
  have ex: "2 ^ mp ?s div unat anc < 2 ^ 64"
    using s64_quotient_exact [OF less.prems assms(4) A] by simp
  have mp: "mp st < 127"
  proof (rule ccontr)
    assume "\<not> mp st < 127"
    then have "(2::nat) ^ 127 \<le> 2 ^ mp st" by (intro power_increasing) simp_all
    moreover have "2 ^ mp st \<le> unat anc * (unat ad - 2 ^ mp st mod unat ad)"
      using less.prems \<open>\<not> mp st < 127\<close> by (auto simp: s64_entry_def)
    moreover have "unat anc * (unat ad - 2 ^ mp st mod unat ad) \<le> 2 ^ 63 * 2 ^ 63"
      using assms(3,5) by (intro mult_le_mono) simp_all
    ultimately have "(2::nat) ^ 127 \<le> 2 ^ 63 * 2 ^ 63" by linarith
    then show False by simp
  qed
  note c = s64_cont_iff [OF inv assms(2) anc0 ex]
  show ?case
  proof (cases "cg_magic_s64_cont ad ?s")
    case False
    then have "cg_magic_s64_loop ad anc st = Some ?s"
      by (subst cg_magic_s64_loop.simps) (simp add: Let_def)
    then show ?thesis using less.prems c False mp
      by (intro exI [of _ st]) (simp add: not_le del: power_Suc)
  next
    case True
    then have "s64_entry (unat ad) (unat anc) ?s"
      using inv c less.prems by (simp add: s64_entry_def)
    moreover have "127 - mp ?s < 127 - mp st" using mp by simp
    ultimately show ?thesis using less.hyps [of ?s] True
      by (subst cg_magic_s64_loop.simps) (simp add: Let_def del: power_Suc)
  qed
qed

lemma s64_init_entry:
  shows "s64_entry (unat ad) (unat anc)
     \<lparr>mp = 63, mq1 = two63 div anc, mr1 = two63 - two63 div anc * anc,
      mq2 = two63 div ad, mr2 = two63 - two63 div ad * ad, madd = False\<rparr>"
proof -
  have t: "unat two63 = 2 ^ 63" by (simp add: two63_def)
  have q: "2 ^ 63 div k < (2 ^ 64 :: nat)" for k
    by (rule le_less_trans [OF div_le_dividend]) simp
  have r: "unat (x - x div y * y) = unat x mod unat y" for x y :: u64
    by (metis minus_div_mult_eq_mod unat_mod)
  show ?thesis
    using q [of "unat anc"] q [of "unat ad"] by (simp add: s64_entry_def s64_inv_def r t unat_div)
qed

lemma pow2_dvd_form: "(d::nat) dvd 2 ^ p \<Longrightarrow> \<exists>k. d = 2 ^ k"
proof (induction p arbitrary: d)
  case 0 then show ?case by (metis nat_dvd_1_iff_1 power_0)
next
  case (Suc p)
  show ?case
  proof (cases "even d")
    case True
    then obtain c where c: "d = 2 * c" by (elim evenE)
    then have "c dvd 2 ^ p" using Suc.prems by simp
    then obtain k where "c = 2 ^ k" using Suc.IH by blast
    then show ?thesis using c by (metis power_Suc)
  next
    case False
    then have "coprime d 2" by simp
    then have "d dvd 2 ^ p" using Suc.prems by (simp add: coprime_dvd_mult_right_iff)
    then show ?thesis by (rule Suc.IH)
  qed
qed

lemma s64_bound_nat:
  fixes A T :: nat
  assumes "0 < A" "A \<le> T"
  shows "2 * (T mod A) < T"
proof -
  have "T mod A < A" using assms by simp
  moreover have "T mod A \<le> T - A" using assms by (metis le_mod_geq mod_less_eq_dividend)
  ultimately show ?thesis using assms by linarith
qed

text \<open>The magnitude of the divisor and the bound of the dividends, as the code computes them.\<close>

lemma s64_setup:
  fixes d :: i64
  defines "ad \<equiv> (if sint d < 0 then - d else d)" and "t \<equiv> two63 + drop_bit 63 d"
  defines "anc \<equiv> t - 1 - t mod ad"
  assumes d: "2 \<le> \<bar>sint d\<bar>"
  shows "int (unat ad) = \<bar>sint d\<bar>" and "unat t = 2 ^ 63 + (if sint d < 0 then 1 else 0)"
    and "unat anc + 1 = unat t - unat t mod unat ad" and "2 ^ 62 \<le> unat anc" and "unat anc \<le> 2 ^ 63"
    and "unat ad \<le> 2 ^ 63"
proof -
  note rng = sint64_range [of d]
  show ad: "int (unat ad) = \<bar>sint d\<bar>"
  proof (cases "sint d < 0")
    case True
    then have "d \<noteq> 0" by auto
    then have "int (unat (- d)) = 2 ^ 64 - int (unat d)"
      using unat64_neg [of d] unat64_less [of d] by (simp only: of_nat_diff less_imp_le) simp
    then show ?thesis using True unat64_sint [of d] by (simp add: ad_def del: unat_eq_nat_uint)
  next
    case False
    then show ?thesis using unat64_sint [of d] by (simp add: ad_def)
  qed
  have "drop_bit 63 d = (if sint d < 0 then 1 else 0)" by (rule drop_bit63_sint)
  then show t: "unat t = 2 ^ 63 + (if sint d < 0 then 1 else 0)"
    by (simp add: t_def two63_def)
  have "int (unat ad) \<le> 2 ^ 63" unfolding ad using rng by simp
  then have A: "1 < unat ad" "unat ad \<le> 2 ^ 63" using ad d
    by (linarith, metis of_nat_le_iff of_nat_numeral of_nat_power)
  then show "unat ad \<le> 2 ^ 63" by simp
  have AT: "unat ad \<le> unat t" using A t by simp
  note half = s64_bound_nat [of "unat ad" "unat t", OF _ AT]
  have one: "unat (t - 1) = unat t - 1" using t by (simp add: unat_sub word_le_nat_alt)
  have "t mod ad \<le> t - 1"
    using half A one by (simp add: word_le_nat_alt unat_mod)
  then have anc: "unat anc = unat t - 1 - unat t mod unat ad"
    using one by (simp add: anc_def unat_sub unat_mod)
  show "unat anc + 1 = unat t - unat t mod unat ad" and "2 ^ 62 \<le> unat anc" and "unat anc \<le> 2 ^ 63"
    using anc half A t by (auto split: if_splits)
qed


lemma s64_anc_ge:
  assumes "0 < A" "N + 1 = T - T mod (A::nat)" "A \<le> T"
  shows "A \<le> N + 1"
proof -
  have "A dvd N + 1" unfolding assms(2) by (simp add: dvd_minus_mod)
  then show ?thesis by (rule dvd_imp_le) simp
qed

lemma s64_quotient_small:
  fixes P A N :: nat
  assumes A: "0 < A" "A \<le> N + 1" "A \<le> 2 ^ 63" and N: "N \<le> 2 ^ 63" and P: "P \<le> 2 * (N * (A - 1))"
  shows "P div A \<le> 2 ^ 64 - 2"
proof (cases "A \<le> N")
  case True
  obtain B where B: "A = Suc B" using A(1) by (cases A) auto
  have "2 * (N * (A - 1)) \<le> (2 * N - 2) * A" using True unfolding B
    by (simp add: algebra_simps diff_mult_distrib)
  then have "P \<le> (2 * N - 2) * A" using P by (rule le_trans [rotated])
  then have "P div A \<le> 2 * N - 2" using A(1) by (metis div_le_mono div_mult_self_is_m)
  then show ?thesis using N by simp
next
  case False
  then have "N = A - 1" using A by simp
  then have "P \<le> 2 * (A - 1) * A" using P by (metis diff_le_self mult.assoc mult_le_mono2 order.trans mult.commute)
  then have "P div A \<le> 2 * (A - 1)" using A(1) by (metis div_le_mono div_mult_self_is_m)
  then show ?thesis using A(3) by simp
qed

lemma s64_product_bracket:
  fixes A e m N P T x :: nat
  assumes A: "0 < A" "A \<le> T" and m: "m * A = P + e" and e: "N * e < P" "0 < e"
    and N: "N + 1 = T - T mod A" and x: "0 < x" "x < T"
  shows "(x div A) * P < m * x" and "m * x < (x div A + 1) * P"
proof -
  have q: "(m * x) div P = x div A" by (rule magic_round_up [OF A m e(1) N x(2)])
  have P: "0 < P" using e by (cases P) auto
  have "m * x mod P < P" using P by simp
  then show "m * x < (x div A + 1) * P" using q
    by (metis add.commute add_less_cancel_left div_mult_mod_eq mult.commute mult_Suc_right Suc_eq_plus1)
  have "(x div A) * A \<le> x" by simp
  then have "(x div A) * A * P \<le> x * P" by (rule mult_le_mono1)
  also have "\<dots> < x * (P + e)" using x e by simp
  finally have "(x div A) * P * A < m * x * A" using m by (metis mult.assoc mult.commute)
  then show "(x div A) * P < m * x" by simp
qed


text \<open>The signed magic number: it is computed for every divisor of magnitude at least two.\<close>

lemma s64_loop_bound:
  fixes A N :: nat
  assumes A: "A \<le> 2 ^ 63" and N: "0 < N" and odd: "A = 2 ^ 63 \<Longrightarrow> N = 2 ^ 63 - 1" and p: "2 ^ p \<le> N * A"
  shows "2 ^ p < N * 2 ^ 63"
proof (cases "A = 2 ^ 63")
  case False
  then have "N * A < N * 2 ^ 63" using A N by simp
  then show ?thesis using p by linarith
next
  case True
  have "(2::nat) ^ p \<noteq> N * 2 ^ 63"
  proof
    assume eq: "2 ^ p = N * 2 ^ 63"
    then have "N dvd 2 ^ p" by simp
    then obtain k where k: "N = 2 ^ k" using pow2_dvd_form by blast
    have "odd N" using odd [OF True] by simp
    then have "k = 0" using k by (cases k) simp_all
    then show False using k odd [OF True] by simp
  qed
  then show ?thesis using p True by simp
qed

lemma cg_magic_s64_loop_exit:
  fixes d :: i64
  defines "ad \<equiv> (if sint d < 0 then - d else d)" and "t \<equiv> two63 + drop_bit 63 d"
  defines "anc \<equiv> t - 1 - t mod ad"
  assumes d: "2 \<le> \<bar>sint d\<bar>"
  obtains s where "s64_entry (unat ad) (unat anc) s"
    and "unat anc * (unat ad - 2 ^ Suc (mp s) mod unat ad) < 2 ^ Suc (mp s)" and "mp s < 127"
    and "cg_magic_s64 d = Some (let M = mq2 (cg_magic_s64_step ad anc s) + 1
                                in if sint d < 0 then - M else M, Suc (mp s) - 64)"
proof -
  note su = s64_setup [OF d, folded ad_def t_def, folded anc_def]
  have ad0: "0 < unat ad" using su(1) d by linarith
  have A: "2 ^ p < unat anc * 2 ^ 63" if "2 ^ p \<le> unat anc * unat ad" for p
  proof (rule s64_loop_bound [OF su(6) _ _ that])
    show "0 < unat anc" using su(4) by simp
    show "unat anc = 2 ^ 63 - 1" if "unat ad = 2 ^ 63"
    proof -
      have "sint d < 0" using su(1) that sint64_range [of d] by (cases "sint d < 0") simp_all
      then show ?thesis using su(2,3) that by simp
    qed
  qed
  have anc1: "1 < unat anc" using su(4) by simp
  obtain s where s: "s64_entry (unat ad) (unat anc) s"
     "cg_magic_s64_loop ad anc
        \<lparr>mp = 63, mq1 = two63 div anc, mr1 = two63 - two63 div anc * anc,
         mq2 = two63 div ad, mr2 = two63 - two63 div ad * ad, madd = False\<rparr>
      = Some (cg_magic_s64_step ad anc s)"
     "unat anc * (unat ad - 2 ^ Suc (mp s) mod unat ad) < 2 ^ Suc (mp s)" "mp s < 127"
    using s64_loop_returns [OF s64_init_entry ad0 su(6) anc1 su(5) A] by blast
  have "cg_magic_s64 d = Some (let M = mq2 (cg_magic_s64_step ad anc s) + 1
                                in if sint d < 0 then - M else M, Suc (mp s) - 64)"
    using s(2) unfolding cg_magic_s64_def ad_def [symmetric] t_def [symmetric] anc_def [symmetric] Let_def
    by simp
  then show thesis using that s by blast
qed


text \<open>
  For a divisor that is no power of two the multiplier fits in 64 bits and brackets every product,
  the most negative dividend included.
\<close>

lemma cg_magic_s64_spec:
  fixes d :: i64
  defines "A \<equiv> nat \<bar>sint d\<bar>"
  assumes np: "\<And>k. A \<noteq> 2 ^ k" and d: "2 \<le> \<bar>sint d\<bar>"
  obtains m s where
    "cg_magic_s64 d = Some (if sint d < 0 then - of_nat m else of_nat m, s)"
    "0 < m" "m < 2 ^ 64" "s < 64"
    "\<And>x. 0 < x \<Longrightarrow> x < 2 ^ 63 + (if sint d < 0 then 1 else 0) \<Longrightarrow> m * x < (x div A + 1) * 2 ^ (64 + s)"
    "\<And>x. 0 < x \<Longrightarrow> x \<le> 2 ^ 63 \<Longrightarrow>
        (x div A) * 2 ^ (64 + s) < m * x \<and> m * x \<le> (x div A + 1) * 2 ^ (64 + s)"
proof -
  define ad t where "ad = (if sint d < 0 then - d else d)" and "t = two63 + drop_bit 63 d"
  define anc where "anc = t - 1 - t mod ad"
  note su = s64_setup [OF d, folded ad_def t_def, folded anc_def]
  have AA: "unat ad = A" unfolding A_def su(1) [symmetric] by (rule nat_int [symmetric])
  define N T where "N = unat anc" and "T = unat t"
  have T: "T = 2 ^ 63 + (if sint d < 0 then 1 else 0)" using su(2) by (simp only: T_def)
  have N: "N + 1 = T - T mod A" using su(3) by (simp only: N_def T_def AA)
  have A0: "0 < A" "1 < A" "A \<le> 2 ^ 63" using d su(6) AA by (simp_all add: A_def)
  have AT: "A \<le> T" using A0 T by simp
  have N63: "N \<le> 2 ^ 63" using su(5) by (simp only: N_def)
  obtain st where st: "s64_entry A N st" and ex: "N * (A - 2 ^ Suc (mp st) mod A) < 2 ^ Suc (mp st)"
    and mp: "mp st < 127" and res: "cg_magic_s64 d = Some (let M = mq2 (cg_magic_s64_step ad anc st) + 1
                                in if sint d < 0 then - M else M, Suc (mp st) - 64)"
    using cg_magic_s64_loop_exit [OF d, folded ad_def t_def, folded anc_def] unfolding AA N_def by blast
  have p63: "63 \<le> mp st" using st by (simp add: s64_entry_def)
  define s where "s = Suc (mp st) - 64"
  have ps: "Suc (mp st) = 64 + s" and s: "s < 64" using mp p63 by (simp_all add: s_def)
  define q where "q = 2 ^ (64 + s) div A"
  define e where "e = A - 2 ^ (64 + s) mod A"
  have nz: "2 ^ j mod A \<noteq> 0" for j using np pow2_dvd_form [of A j] by (metis mod_0_imp_dvd)
  have ml: "2 ^ (64 + s) mod A < A" using A0 by simp
  have e: "0 < e" "N * e < 2 ^ (64 + s)" using ml ex unfolding ps e_def by simp_all
  have "2 ^ (64 + s) \<le> 2 * (N * (A - 1))"
  proof (cases "mp st = 63")
    case True
    have "1 * 2 ^ 62 \<le> N" using su(4) by (simp add: N_def)
    moreover have "2 \<le> A - 1" using A0 np [of 1] by simp
    ultimately have "2 ^ 62 * 2 \<le> N * (A - 1)" by (intro mult_le_mono) simp_all
    then show ?thesis using True ps by simp
  next
    case False
    then have "2 ^ mp st \<le> N * (A - 2 ^ mp st mod A)" using st by (simp add: s64_entry_def)
    also have "\<dots> \<le> N * (A - 1)" using nz [of "mp st"] by (intro mult_le_mono2) simp
    finally show ?thesis unfolding ps [symmetric] by simp
  qed
  then have q: "q \<le> 2 ^ 64 - 2" unfolding q_def
    by (intro s64_quotient_small [OF A0(1) s64_anc_ge [OF A0(1) N AT] A0(3) N63])
  have inv: "s64_inv A N (cg_magic_s64_step ad anc st)"
    using st A0 su(4,5,6) unfolding AA [symmetric] N_def
    by (intro s64_step_inv) (simp_all add: s64_entry_def)
  then have uq: "unat (mq2 (cg_magic_s64_step ad anc st)) = q"
    using q by (simp add: s64_inv_def ps q_def)
  then have "mq2 (cg_magic_s64_step ad anc st) + 1 = of_nat (q + 1)"
    by (simp flip: uq)
  then have r: "cg_magic_s64 d = Some (if sint d < 0 then - of_nat (q + 1) else of_nat (q + 1), s)"
    unfolding res Let_def s_def by (simp only:)
  have md: "(q + 1) * A = 2 ^ (64 + s) + e"
  proof -
    have "q * A + 2 ^ (64 + s) mod A = 2 ^ (64 + s)" unfolding q_def by (rule div_mult_mod_eq)
    then show ?thesis using ml unfolding e_def distrib_right by linarith
  qed
  note br = s64_product_bracket [OF A0(1) AT md e(2,1) N]
  show thesis
  proof (rule that [OF r])
    show "(q + 1) * x < (x div A + 1) * 2 ^ (64 + s)"
      if "0 < x" "x < 2 ^ 63 + (if sint d < 0 then 1 else 0)" for x
      by (rule br(2)) (use that T in simp_all)
    show "(x div A) * 2 ^ (64 + s) < (q + 1) * x \<and> (q + 1) * x \<le> (x div A + 1) * 2 ^ (64 + s)"
      if "0 < x" "x \<le> 2 ^ 63" for x
    proof (cases "x < T")
      case True
      then show ?thesis using br [OF that(1) True] by simp
    next
      case False
      then have x: "x = 2 ^ 63" and T63: "T = 2 ^ 63" using that T by (simp_all split: if_splits)
      have P: "(2::nat) ^ (64 + s) = 2 ^ (1 + s) * T" unfolding T63 by (simp add: power_add)
      have up: "(q + 1) * T \<le> (T div A + 1) * (2 ^ (1 + s) * T)"
        using md e(2) N nz [of "64 + s"] unfolding P e_def
        by (intro magic_round_up_edge [where e = e and nc = N]) (use A0 AT e_def P in simp_all)
      have "(x div A) * A * 2 ^ (64 + s) \<le> x * 2 ^ (64 + s)" by (rule mult_le_mono1) simp
      also have "\<dots> < x * ((q + 1) * A)" unfolding md using that e by simp
      finally have "(x div A) * 2 ^ (64 + s) * A < (q + 1) * x * A" by (metis mult.assoc mult.commute)
      then show ?thesis using up unfolding x T63 [symmetric] P by simp
    qed
  qed (use q s in simp_all)
qed

end
