(* ===== verification/Mir.thy ===== *)
theory Mir
  imports Prelude
begin

text \<open>
  The machine intermediate representation, \<open>codegen/binary/mir.h\<close> and \<open>mir.c\<close>: operands,
  instructions and the function under construction, with the two growing arrays (virtual registers
  and instructions), and an executable meaning of the 64-bit integer instructions.

  Allocation. Growing an array calls \<open>realloc\<close>. Whether the n-th call succeeds is a parameter
  \<open>ok :: nat \<Rightarrow> bool\<close>, and the record counts the calls made (\<open>fn_allocs\<close>), so that every failure path
  of the code is a branch of the model.
\<close>

section \<open>Data\<close>

type_synonym MirVregId = int

definition MIR_VREG_NONE :: MirVregId where "MIR_VREG_NONE = -1"
definition MIR_LIVE_NONE :: int where "MIR_LIVE_NONE = -1"

datatype MirRegClass = MIR_RC_GP | MIR_RC_XMM | MIR_RC_VEC

record MirVreg =
  vr_rclass :: MirRegClass
  vr_width :: int
  vr_lanes :: int
  vr_assigned :: bool
  vr_in_register :: bool
  vr_phys :: int
  vr_spill_offset :: int
  vr_live_start :: int
  vr_live_end :: int
  vr_crosses_call :: bool
  vr_loop_carried :: bool
  vr_coalesce_hint :: MirVregId
  vr_address_taken :: bool
  vr_home_bytes :: int
  vr_home_width :: int
  vr_home_signed :: bool
  vr_home_granule :: int
  vr_entry_live :: bool
  vr_crosses_preserving_only :: bool
  vr_crosses_xmm_preserving_only :: bool
  vr_coalesced_into :: MirVregId

record MirMem =
  mem_base :: MirVregId
  mem_index :: MirVregId
  mem_scale :: int
  mem_disp :: int
  mem_phys_base_valid :: bool
  mem_phys_base :: int
  mem_frame_home_valid :: bool
  mem_frame_home :: MirVregId

datatype MirOperand =
    MIR_OPK_NONE
  | MIR_OPK_VREG MirVregId
  | MIR_OPK_PHYS int MirRegClass
  | MIR_OPK_IMM i64
  | MIR_OPK_FIMM u64
  | MIR_OPK_MEM MirMem
  | MIR_OPK_LABEL "string option"
  | MIR_OPK_SYMBOL "string option"
  | MIR_OPK_STACKHOME "string option" int

text \<open>
  The 87 opcodes of the enumeration: the moves, the integer arithmetic and the division block
  directly, the other blocks as enumerations of their own (data addresses, control flow and calls,
  scalar floating point, vectors, inline kernels) under one constructor each.
\<close>

datatype MirDataOpcode =
    MIR_LEA_LOCAL | MIR_LEA_GLOBAL | MIR_LEA_FUNC | MIR_LEA_CSTR | MIR_LEA_STRLIT
  | MIR_POPCNT | MIR_HEAP_NEW | MIR_LOAD_GLOBAL | MIR_STORE_GLOBAL

datatype MirFlowOpcode =
    MIR_CMP | MIR_TEST | MIR_BT | MIR_SETCC | MIR_CMOVCC
  | MIR_JMP | MIR_JCC | MIR_CMPBR | MIR_JMP_TABLE | MIR_LABEL | MIR_PREFETCH | MIR_CMOV
  | MIR_CALL | MIR_CALL_INDIRECT | MIR_REP_MOVSB | MIR_REP_STOSB | MIR_SYSCALL
  | MIR_STORE_OUTARG | MIR_LEA_OUTARG | MIR_TRAP | MIR_INLINE_ASM | MIR_RET

datatype MirFloatOpcode =
    MIR_FADD | MIR_FSUB | MIR_FMUL | MIR_FDIV | MIR_FXOR | MIR_FDUP | MIR_FEXTHI
  | MIR_CVTSI2F | MIR_CVTF2SI | MIR_CVTF2F | MIR_UCOMIS | MIR_FSETCC | MIR_FCMPBR
  | MIR_MOVD_TO_XMM | MIR_MOVD_TO_GP | MIR_CVTPH2PS | MIR_CVTPS2PH

datatype MirVectorOpcode =
    MIR_VADD | MIR_VSUB | MIR_VMUL | MIR_VDIV | MIR_VCVTSI2F | MIR_VCVTF2SI | MIR_VLOAD
  | MIR_VSTORE | MIR_VBROADCAST | MIR_VIOTA | MIR_VHREDUCE

datatype MirKernelOpcode =
    MIR_SIMD_SLP_MAC | MIR_SIMD_FILL | MIR_SIMD_AFFINE_MAP_F32 | MIR_SIMD_AFFINE_MAP_F64
  | MIR_SIMD_SILU_F32 | MIR_SIMD_VLOOP | MIR_IR_KERNEL

datatype MirOpcode =
    MIR_NOP | MIR_MOV | MIR_LEA | MIR_MOVZX | MIR_MOVSX
  | MIR_ADD | MIR_SUB | MIR_AND | MIR_OR | MIR_XOR | MIR_IMUL | MIR_NEG | MIR_NOT
  | MIR_SHL | MIR_SHR | MIR_SAR
  | MIR_CQO | MIR_XOR_RDX | MIR_IDIV | MIR_DIV | MIR_MULHI
  | OpData MirDataOpcode | OpFlow MirFlowOpcode | OpFloat MirFloatOpcode
  | OpVector MirVectorOpcode | OpKernel MirKernelOpcode

text \<open>
  What \<open>aux\<close> points to: the labels of a jump table, the description of an inline kernel (the field the
  code analyses is the index into the kernel table), or the block of another opcode.
\<close>

datatype MirAux = AuxNull | AuxJumpTable "string option list" | AuxKernel int | AuxOther

record MirInst =
  in_op :: MirOpcode
  in_dst :: MirOperand
  in_a :: MirOperand
  in_b :: MirOperand
  in_width :: int
  in_is_float :: bool
  in_is_unsigned :: bool
  in_cc :: u8
  in_ir_index :: int
  in_aux :: MirAux
  in_preserves_rax :: bool
  in_preserves_xmm :: bool

record MirIConst =
  ic_value :: i64
  ic_vreg :: MirVregId

record MirParam =
  pa_vreg :: MirVregId
  pa_arg_index :: int
  pa_width :: int
  pa_is_signed :: bool
  pa_is_float :: bool
  pa_sysv_eightbytes :: int
  pa_sysv_in_memory :: bool
  pa_sysv_sse :: "bool \<times> bool"
  pa_sysv_size :: int
  pa_sysv_direct_sse :: bool
  pa_sysv_storage :: MirVregId

record MirFunction =
  fn_vregs :: "MirVreg list"
  fn_vreg_capacity :: nat
  fn_insns :: "MirInst list"
  fn_insn_capacity :: nat
  fn_params :: "MirParam list"
  fn_returns_indirect :: bool
  fn_indirect_return_vreg :: MirVregId
  fn_iconsts :: "MirIConst list"
  fn_iconst_capacity :: nat
  fn_cur_ir_index :: int
  fn_has_error :: bool
  fn_merged_copies :: nat
  fn_allocs :: nat

definition mir_function_init :: MirFunction where
  "mir_function_init =
    \<lparr>fn_vregs = [], fn_vreg_capacity = 0, fn_insns = [], fn_insn_capacity = 0,
     fn_params = [], fn_returns_indirect = False, fn_indirect_return_vreg = MIR_VREG_NONE,
     fn_iconsts = [], fn_iconst_capacity = 0, fn_cur_ir_index = -1, fn_has_error = False,
     fn_merged_copies = 0, fn_allocs = 0\<rparr>"

definition mir_op_none :: MirOperand where "mir_op_none = MIR_OPK_NONE"
definition mir_op_vreg :: "MirVregId \<Rightarrow> MirOperand" where "mir_op_vreg v = MIR_OPK_VREG v"
definition mir_op_imm :: "i64 \<Rightarrow> MirOperand" where "mir_op_imm v = MIR_OPK_IMM v"

text \<open>The field \<open>sym\<close> of an operand: null unless one of the constructors with a name set it.\<close>

fun op_sym :: "MirOperand \<Rightarrow> string option" where
  "op_sym (MIR_OPK_LABEL s) = s"
| "op_sym (MIR_OPK_SYMBOL s) = s"
| "op_sym (MIR_OPK_STACKHOME s d) = s"
| "op_sym x = None"

section \<open>Growing the function\<close>

text \<open>The cast \<open>(MirVregId)\<close> of a count to the 32-bit \<open>int\<close>.\<close>

definition to_vreg_id :: "nat \<Rightarrow> MirVregId" where
  "to_vreg_id n = sint (of_nat n :: 32 word)"

definition new_vreg_record :: "MirRegClass \<Rightarrow> int \<Rightarrow> MirVreg" where
  "new_vreg_record rclass width =
    \<lparr>vr_rclass = rclass, vr_width = width, vr_lanes = 0, vr_assigned = False,
     vr_in_register = False, vr_phys = -1, vr_spill_offset = 0, vr_live_start = MIR_LIVE_NONE,
     vr_live_end = MIR_LIVE_NONE, vr_crosses_call = False, vr_loop_carried = False,
     vr_coalesce_hint = MIR_VREG_NONE, vr_address_taken = False, vr_home_bytes = 0,
     vr_home_width = 0, vr_home_signed = False, vr_home_granule = 0, vr_entry_live = False,
     vr_crosses_preserving_only = False, vr_crosses_xmm_preserving_only = False,
     vr_coalesced_into = MIR_VREG_NONE\<rparr>"

definition mir_new_vreg ::
  "(nat \<Rightarrow> bool) \<Rightarrow> MirRegClass \<Rightarrow> int \<Rightarrow> MirFunction \<Rightarrow> MirVregId \<times> MirFunction" where
  "mir_new_vreg ok rclass width fn =
    (let add = (\<lambda>f. (to_vreg_id (length (fn_vregs f)),
                     f\<lparr>fn_vregs := fn_vregs f @ [new_vreg_record rclass width]\<rparr>))
     in if fn_vreg_capacity fn \<le> length (fn_vregs fn) then
          (let new_cap = (if fn_vreg_capacity fn \<noteq> 0 then fn_vreg_capacity fn * 2 else 16);
               fn' = fn\<lparr>fn_allocs := fn_allocs fn + 1\<rparr>
           in if \<not> ok (fn_allocs fn) then (MIR_VREG_NONE, fn'\<lparr>fn_has_error := True\<rparr>)
              else add (fn'\<lparr>fn_vreg_capacity := new_cap\<rparr>))
        else add fn)"

definition mir_emit :: "(nat \<Rightarrow> bool) \<Rightarrow> MirInst \<Rightarrow> MirFunction \<Rightarrow> bool \<times> MirFunction" where
  "mir_emit ok inst fn =
    (let placed = (if in_ir_index inst < 0 \<and> 0 \<le> fn_cur_ir_index fn
                   then inst\<lparr>in_ir_index := fn_cur_ir_index fn\<rparr> else inst);
         add = (\<lambda>f. (True, f\<lparr>fn_insns := fn_insns f @ [placed]\<rparr>))
     in if fn_insn_capacity fn \<le> length (fn_insns fn) then
          (let new_cap = (if fn_insn_capacity fn \<noteq> 0 then fn_insn_capacity fn * 2 else 32);
               fn' = fn\<lparr>fn_allocs := fn_allocs fn + 1\<rparr>
           in if \<not> ok (fn_allocs fn) then (False, fn'\<lparr>fn_has_error := True\<rparr>)
              else add (fn'\<lparr>fn_insn_capacity := new_cap\<rparr>))
        else add fn)"

text \<open>\<open>f && g\<close> of two emitting calls, and \<open>f\<close> followed by a test of the register it created.\<close>

definition and_then ::
  "(MirFunction \<Rightarrow> bool \<times> MirFunction) \<Rightarrow> (MirFunction \<Rightarrow> bool \<times> MirFunction) \<Rightarrow>
   MirFunction \<Rightarrow> bool \<times> MirFunction" where
  "and_then f g fn = (case f fn of (r, fn') \<Rightarrow> if r then g fn' else (False, fn'))"

definition with_vreg ::
  "(nat \<Rightarrow> bool) \<Rightarrow> (MirVregId \<Rightarrow> MirFunction \<Rightarrow> bool \<times> MirFunction) \<Rightarrow>
   MirFunction \<Rightarrow> bool \<times> MirFunction" where
  "with_vreg ok k fn =
    (case mir_new_vreg ok MIR_RC_GP 8 fn of
       (v, fn') \<Rightarrow> if v = MIR_VREG_NONE then (False, fn') else k v fn')"

definition mir_emit1 ::
  "(nat \<Rightarrow> bool) \<Rightarrow> MirOpcode \<Rightarrow> MirOperand \<Rightarrow> MirOperand \<Rightarrow> MirOperand \<Rightarrow> int \<Rightarrow> bool \<Rightarrow> u8 \<Rightarrow>
   MirFunction \<Rightarrow> bool \<times> MirFunction" where
  "mir_emit1 ok op dst a b width is_unsigned cc =
    mir_emit ok \<lparr>in_op = op, in_dst = dst, in_a = a, in_b = b, in_width = width,
                 in_is_float = False, in_is_unsigned = is_unsigned, in_cc = cc, in_ir_index = -1,
                 in_aux = AuxNull, in_preserves_rax = False, in_preserves_xmm = False\<rparr>"

section \<open>Meaning of the integer instructions\<close>

text \<open>
  A machine state gives a 64-bit value to every virtual register and to every other place an operand
  can name (physical register, memory cell, stack home). Shift counts are reduced modulo 64, as the
  target does at this width; \<open>MIR_MULHI\<close> is the upper half of the 128-bit product.
\<close>

record mach =
  m_vreg :: "MirVregId \<Rightarrow> u64"
  m_place :: "MirOperand \<Rightarrow> u64"

fun mir_read :: "mach \<Rightarrow> MirOperand \<Rightarrow> u64" where
  "mir_read m (MIR_OPK_VREG v) = m_vreg m v"
| "mir_read m (MIR_OPK_IMM k) = k"
| "mir_read m x = m_place m x"

fun mir_write :: "mach \<Rightarrow> MirOperand \<Rightarrow> u64 \<Rightarrow> mach" where
  "mir_write m (MIR_OPK_VREG v) x = m\<lparr>m_vreg := (m_vreg m)(v := x)\<rparr>"
| "mir_write m p x = m\<lparr>m_place := (m_place m)(p := x)\<rparr>"

fun is_place :: "MirOperand \<Rightarrow> bool" where
  "is_place (MIR_OPK_VREG v) = True"
| "is_place (MIR_OPK_PHYS r c) = True"
| "is_place (MIR_OPK_MEM a) = True"
| "is_place (MIR_OPK_STACKHOME s d) = True"
| "is_place x = False"

definition mulhi_u64 :: "u64 \<Rightarrow> u64 \<Rightarrow> u64" where
  "mulhi_u64 a b = word_of_nat (unat a * unat b div 2 ^ 64)"

definition mulhi_s64 :: "u64 \<Rightarrow> u64 \<Rightarrow> u64" where
  "mulhi_s64 a b = word_of_int (sint a * sint b div 2 ^ 64)"

definition sar64 :: "u64 \<Rightarrow> nat \<Rightarrow> u64" where
  "sar64 a k = word_of_int (sint a div 2 ^ k)"

definition mir_alu :: "MirOpcode \<Rightarrow> bool \<Rightarrow> u64 \<Rightarrow> u64 \<Rightarrow> u64 option" where
  "mir_alu op is_unsigned a b =
    (case op of
       MIR_MOV \<Rightarrow> Some a
     | MIR_ADD \<Rightarrow> Some (a + b)
     | MIR_SUB \<Rightarrow> Some (a - b)
     | MIR_AND \<Rightarrow> Some (a AND b)
     | MIR_OR \<Rightarrow> Some (a OR b)
     | MIR_XOR \<Rightarrow> Some (a XOR b)
     | MIR_IMUL \<Rightarrow> Some (a * b)
     | MIR_NEG \<Rightarrow> Some (- a)
     | MIR_NOT \<Rightarrow> Some (NOT a)
     | MIR_SHL \<Rightarrow> Some (push_bit (unat b mod 64) a)
     | MIR_SHR \<Rightarrow> Some (drop_bit (unat b mod 64) a)
     | MIR_SAR \<Rightarrow> Some (sar64 a (unat b mod 64))
     | MIR_MULHI \<Rightarrow> Some (if is_unsigned then mulhi_u64 a b else mulhi_s64 a b)
     | _ \<Rightarrow> None)"

definition mir_exec1 :: "MirInst \<Rightarrow> mach \<Rightarrow> mach option" where
  "mir_exec1 i m =
    (if in_width i = 8 then
       map_option (mir_write m (in_dst i))
         (mir_alu (in_op i) (in_is_unsigned i) (mir_read m (in_a i)) (mir_read m (in_b i)))
     else None)"

fun mir_exec :: "MirInst list \<Rightarrow> mach \<Rightarrow> mach option" where
  "mir_exec [] m = Some m"
| "mir_exec (i # is) m = (case mir_exec1 i m of None \<Rightarrow> None | Some m' \<Rightarrow> mir_exec is m')"

lemma mir_exec_append:
  "mir_exec (xs @ ys) m = (case mir_exec xs m of None \<Rightarrow> None | Some m' \<Rightarrow> mir_exec ys m')"
  by (induction xs arbitrary: m) (simp_all split: option.split)

lemma mir_read_write [simp]: "is_place p \<Longrightarrow> mir_read (mir_write m p x) p = x"
  by (cases p) simp_all

lemma mir_read_write_vreg [simp]:
  "mir_read (mir_write m p x) (MIR_OPK_VREG v) = (if p = MIR_OPK_VREG v then x else m_vreg m v)"
  by (cases p) simp_all

section \<open>Invariant and what emission adds\<close>

text \<open>
  The counts stay within the capacities, and a register created by \<open>mir_new_vreg\<close> is fresh as long
  as the count fits the 32-bit identifier.
\<close>

definition fn_wf :: "MirFunction \<Rightarrow> bool" where
  "fn_wf fn \<longleftrightarrow> length (fn_vregs fn) \<le> fn_vreg_capacity fn \<and>
     length (fn_insns fn) \<le> fn_insn_capacity fn \<and>
     length (fn_iconsts fn) \<le> fn_iconst_capacity fn"

definition known_vreg :: "MirFunction \<Rightarrow> MirVregId \<Rightarrow> bool" where
  "known_vreg fn v \<longleftrightarrow> 0 \<le> v \<and> v < int (length (fn_vregs fn))"

text \<open>\<open>grown fn code n fn'\<close>: \<open>fn'\<close> is \<open>fn\<close> with \<open>code\<close> appended and \<open>n\<close> registers created.\<close>

definition grown :: "MirFunction \<Rightarrow> MirInst list \<Rightarrow> nat \<Rightarrow> MirFunction \<Rightarrow> bool" where
  "grown fn code n fn' \<longleftrightarrow>
     fn_insns fn' = fn_insns fn @ code \<and> length (fn_vregs fn') = length (fn_vregs fn) + n \<and>
     (\<exists>vs. fn_vregs fn' = fn_vregs fn @ vs) \<and>
     fn_iconsts fn' = fn_iconsts fn \<and> fn_iconst_capacity fn' = fn_iconst_capacity fn \<and>
     fn_cur_ir_index fn' = fn_cur_ir_index fn \<and> fn_has_error fn' = fn_has_error fn \<and>
     fn_allocs fn \<le> fn_allocs fn'"

definition located :: "MirFunction \<Rightarrow> MirInst \<Rightarrow> MirInst" where
  "located fn i = (if 0 \<le> fn_cur_ir_index fn then i\<lparr>in_ir_index := fn_cur_ir_index fn\<rparr> else i)"

definition mk_inst :: "MirOpcode \<Rightarrow> MirOperand \<Rightarrow> MirOperand \<Rightarrow> MirOperand \<Rightarrow> bool \<Rightarrow> MirInst" where
  "mk_inst op dst a b u = \<lparr>in_op = op, in_dst = dst, in_a = a, in_b = b, in_width = 8,
                 in_is_float = False, in_is_unsigned = u, in_cc = 0, in_ir_index = -1,
                 in_aux = AuxNull, in_preserves_rax = False, in_preserves_xmm = False\<rparr>"

lemma to_vreg_id_small: "n < 2 ^ 31 \<Longrightarrow> to_vreg_id n = int n"
  by (simp add: to_vreg_id_def signed_of_nat signed_take_bit_int_eq_self)

lemma located_simps [simp]:
  "mir_exec1 (located fn i) = mir_exec1 i"
  by (simp add: fun_eq_iff located_def mir_exec1_def)

lemma mir_exec_located [simp]: "mir_exec (map (located fn) is) m = mir_exec is m"
  by (induction "is" arbitrary: m) (simp_all split: option.split)

lemma grown_located: "grown fn c n fn' \<Longrightarrow> located fn' = located fn"
  by (simp add: grown_def located_def fun_eq_iff)

lemma grown_refl [simp]: "grown fn [] 0 fn"
  by (simp add: grown_def)

lemma grown_trans:
  "grown fn c n fn' \<Longrightarrow> grown fn' c' n' fn'' \<Longrightarrow> grown fn (c @ c') (n + n') fn''"
  by (auto simp: grown_def)

text \<open>
  \<open>outcome ok fn is n rf\<close>: the result \<open>rf\<close> of an emitting call on \<open>fn\<close> has the instructions \<open>is\<close> appended and
  \<open>n\<close> registers created, or an allocation failed, and then the function is marked erroneous.
  \<open>emits ok fn0 l f is l'\<close>: on every function grown from \<open>fn0\<close> with \<open>l\<close> registers, \<open>f\<close> appends \<open>is\<close> and
  leaves \<open>l'\<close> registers. Its rules follow the structure of the emitting code.
\<close>

definition outcome ::
  "(nat \<Rightarrow> bool) \<Rightarrow> MirFunction \<Rightarrow> MirInst list \<Rightarrow> nat \<Rightarrow> bool \<times> MirFunction \<Rightarrow> bool" where
  "outcome ok fn is n rf \<longleftrightarrow>
     (if fst rf then grown fn (map (located fn) is) n (snd rf)
      else fn_has_error (snd rf) \<and> (\<exists>k\<ge>fn_allocs fn. \<not> ok k))"

definition like :: "MirFunction \<Rightarrow> nat \<Rightarrow> MirFunction \<Rightarrow> bool" where
  "like fn0 l fn \<longleftrightarrow> (\<exists>c n. grown fn0 c n fn) \<and> length (fn_vregs fn) = l"

definition emits ::
  "(nat \<Rightarrow> bool) \<Rightarrow> MirFunction \<Rightarrow> nat \<Rightarrow> (MirFunction \<Rightarrow> bool \<times> MirFunction) \<Rightarrow> MirInst list \<Rightarrow> nat \<Rightarrow> bool" where
  "emits ok fn0 l f is l' \<longleftrightarrow> l \<le> l' \<and> (\<forall>fn. like fn0 l fn \<longrightarrow> outcome ok fn is (l' - l) (f fn))"

named_theorems emits_rules \<open>rules that follow the structure of emitting code\<close>

lemma like_refl: "like fn (length (fn_vregs fn)) fn"
  by (auto simp: like_def intro: grown_refl)

lemma like_grown: "like fn0 l fn \<Longrightarrow> grown fn c n fn' \<Longrightarrow> like fn0 (l + n) fn'"
  unfolding like_def using grown_trans by (metis grown_def)

lemma outcome_later:
  assumes "grown fn (map (located fn) is) n fn1" and "outcome ok fn1 is' n' rf"
  shows "outcome ok fn (is @ is') (n + n') rf"
proof -
  have "fn_allocs fn \<le> fn_allocs fn1" using assms(1) by (simp add: grown_def)
  then show ?thesis using assms grown_trans [OF assms(1), of "map (located fn) is'" n' "snd rf"]
    by (auto simp: outcome_def grown_located [OF assms(1)] split: if_splits intro: le_trans)
qed

lemma outcome_emit1:
  "outcome ok fn [mk_inst op dst a b u] 0 (mir_emit1 ok op dst a b 8 u 0 fn)"
  by (auto simp: outcome_def mir_emit1_def mir_emit_def grown_def located_def mk_inst_def Let_def)

lemma emits_skip [emits_rules]: "emits ok fn0 l (\<lambda>f. (True, f)) [] l"
  by (simp add: emits_def outcome_def)

lemma emits_emit1 [emits_rules]:
  "emits ok fn0 l (mir_emit1 ok op dst a b 8 u 0) [mk_inst op dst a b u] l"
  by (simp add: emits_def outcome_emit1)

lemma emits_if [emits_rules]:
  "(b \<Longrightarrow> emits ok fn0 l f is l') \<Longrightarrow> (\<not> b \<Longrightarrow> emits ok fn0 l g is' l'') \<Longrightarrow>
   emits ok fn0 l (if b then f else g) (if b then is else is') (if b then l' else l'')"
  by simp

lemma emits_and_then [emits_rules]:
  assumes f: "emits ok fn0 l f is l1" and g: "emits ok fn0 l1 g is' l2"
  shows "emits ok fn0 l (and_then f g) (is @ is') l2"
  unfolding emits_def
proof (intro conjI allI impI)
  show "l \<le> l2" using f g by (simp add: emits_def)
  fix fn assume fn: "like fn0 l fn"
  have o: "outcome ok fn is (l1 - l) (f fn)" using f fn by (simp add: emits_def)
  show "outcome ok fn (is @ is') (l2 - l) (and_then f g fn)"
  proof (cases "fst (f fn)")
    case True
    then have gr: "grown fn (map (located fn) is) (l1 - l) (snd (f fn))" using o by (simp add: outcome_def)
    from like_grown [OF fn gr] f have "like fn0 l1 (snd (f fn))" by (simp add: emits_def)
    then have "outcome ok (snd (f fn)) is' (l2 - l1) (g (snd (f fn)))" using g by (simp add: emits_def)
    from outcome_later [OF gr this] f g True show ?thesis
      by (auto simp: emits_def and_then_def split: prod.split)
  next
    case False
    then show ?thesis using o by (auto simp: outcome_def and_then_def split: prod.split)
  qed
qed

text \<open>A new register: fresh when it is created, absent when the allocation fails.\<close>

lemma mir_new_vreg_cases:
  assumes "length (fn_vregs fn) < 2 ^ 31"
  obtains fn' where "mir_new_vreg ok MIR_RC_GP 8 fn = (int (length (fn_vregs fn)), fn')" "grown fn [] 1 fn'"
  | fn' where "mir_new_vreg ok MIR_RC_GP 8 fn = (MIR_VREG_NONE, fn')" "fn_has_error fn'"
      "\<not> ok (fn_allocs fn)"
proof (cases "fn_vreg_capacity fn \<le> length (fn_vregs fn) \<and> \<not> ok (fn_allocs fn)")
  case True
  then show thesis
    by (intro that(2) [of "fn\<lparr>fn_allocs := Suc (fn_allocs fn), fn_has_error := True\<rparr>"])
       (simp_all add: mir_new_vreg_def Let_def)
next
  case False
  define fn' where "fn' = snd (mir_new_vreg ok MIR_RC_GP 8 fn)"
  have "mir_new_vreg ok MIR_RC_GP 8 fn = (int (length (fn_vregs fn)), fn')"
    using False assms by (auto simp: mir_new_vreg_def Let_def fn'_def to_vreg_id_small)
  moreover have "grown fn [] 1 fn'"
    using False by (auto simp: mir_new_vreg_def Let_def fn'_def grown_def)
  ultimately show thesis by (rule that(1))
qed

lemma emits_with_vreg [emits_rules]:
  assumes len: "l < 2 ^ 31" and k: "emits ok fn0 (Suc l) (k (int l)) is l'"
  shows "emits ok fn0 l (with_vreg ok k) is l'"
  unfolding emits_def
proof (intro conjI allI impI)
  show "l \<le> l'" using k by (simp add: emits_def)
  fix fn assume fn: "like fn0 l fn"
  then have l: "length (fn_vregs fn) = l" by (simp add: like_def)
  have "length (fn_vregs fn) < 2 ^ 31" using len l by simp
  then show "outcome ok fn is (l' - l) (with_vreg ok k fn)"
  proof (cases rule: mir_new_vreg_cases [of fn ok])
    case (1 fn')
    have "outcome ok fn' is (l' - Suc l) (k (int l) fn')"
      using k like_grown [OF fn 1(2)] by (simp add: emits_def)
    moreover have "Suc (l' - Suc l) = l' - l" using k unfolding emits_def by linarith
    ultimately show ?thesis using outcome_later [of fn "[]" 1 fn' ok "is" "l' - Suc l"] 1
      by (simp add: with_vreg_def MIR_VREG_NONE_def l)
  next
    case (2 fn')
    then show ?thesis by (auto simp: outcome_def with_vreg_def)
  qed
qed

end
