(* ===== verification/DivModArith.thy ===== *)
theory DivModArith
  imports MagicDivision Mir "HOL-Library.Signed_Division"
begin

text \<open>
  The arithmetic behind the lowered sequences: each straight-line computation on 64-bit words equals
  the quotient it stands for. Quotients of signed words truncate towards zero, as in C.
\<close>

section \<open>Powers of two\<close>

lemma nat_pow2_test: "0 < (n::nat) \<Longrightarrow> n AND (n - 1) = 0 \<longleftrightarrow> (\<exists>k. n = 2 ^ k)"
proof (induction n rule: less_induct)
  case (less n)
  show ?case
  proof (cases "even n")
    case True
    then obtain m where m: "n = 2 * m" by (elim evenE)
    then have m0: "0 < m" "m < n" using less.prems by simp_all
    have n1: "n - 1 = 2 * (m - 1) + 1" using m m0 by simp
    have "n AND (n - 1) = 2 * (m AND (m - 1))" unfolding n1 unfolding m by (simp add: and_rec [of "2 * m"])
    moreover have "(\<exists>k. n = 2 ^ k) \<longleftrightarrow> (\<exists>k. m = 2 ^ k)"
    proof
      assume "\<exists>k. n = 2 ^ k"
      then obtain k where k: "n = 2 ^ k" ..
      then obtain j where "k = Suc j" using m by (cases k) simp_all
      then show "\<exists>k. m = 2 ^ k" using k m by auto
    next
      assume "\<exists>k. m = 2 ^ k"
      then show "\<exists>k. n = 2 ^ k" unfolding m by (metis power_Suc)
    qed
    ultimately show ?thesis using less.IH [OF m0(2,1)] by simp
  next
    case False
    then obtain m where m: "n = 2 * m + 1" by (elim oddE)
    have "n AND (n - 1) = 2 * m" unfolding m by (simp add: and_rec [of "Suc (2 * m)"])
    moreover have "(\<exists>k. n = 2 ^ k) \<longleftrightarrow> n = 1"
      using False by (metis even_power dvd_refl power_0 power_eq_0_iff less_irrefl gr0I)
    ultimately show ?thesis using m by simp
  qed
qed

lemma u64_pow2_exponent: "unat (x::u64) = 2 ^ k \<Longrightarrow> k < 64"
proof -
  assume k: "unat x = 2 ^ k"
  have "(2::nat) ^ k < 2 ^ 64" using k unat64_less [of x] by simp
  then show "k < 64" by (rule power_less_imp_less_exp [rotated]) simp
qed

lemma u64_pow2_test:
  assumes "(x::u64) \<noteq> 0"
  shows "x AND (x - 1) = 0 \<longleftrightarrow> (\<exists>k<64. unat x = 2 ^ k)"
proof -
  have pos: "0 < unat x" using assms by (simp add: unat_gt_0)
  have one: "unat (x - 1) = unat x - 1" using pos by (simp add: unat_sub word_le_nat_alt)
  have "x AND (x - 1) = 0 \<longleftrightarrow> unat x AND (unat x - 1) = 0"
    by (metis one unsigned_and_eq unat_eq_zero)
  also have "\<dots> \<longleftrightarrow> (\<exists>k. unat x = 2 ^ k)" by (rule nat_pow2_test [OF pos])
  also have "\<dots> \<longleftrightarrow> (\<exists>k<64. unat x = 2 ^ k)"
    using u64_pow2_exponent by blast
  finally show ?thesis .
qed

section \<open>Signed quotients\<close>

lemma int_div_range:
  fixes a P :: int
  assumes "0 < P"
  shows "0 \<le> a \<Longrightarrow> 0 \<le> a div P \<and> a div P \<le> a" and "a < 0 \<Longrightarrow> a \<le> a div P \<and> a div P < 0"
  using assms zdiv_mono2 [of a 1 P] zdiv_mono2_neg [of a 1 P]
  by (simp_all add: pos_imp_zdiv_nonneg_iff pos_imp_zdiv_neg_iff)

lemma sint_sar64 [simp]: "sint (sar64 a k) = sint a div 2 ^ k"
proof -
  have "- (2 ^ 63) \<le> sint a div 2 ^ k \<and> sint a div 2 ^ k < 2 ^ 63"
    using sint64_range [of a] int_div_range [of "2 ^ k" "sint a"] by (cases "0 \<le> sint a") simp_all
  then show ?thesis unfolding sar64_def using sint64_word_of_int by blast
qed

text \<open>The truncated quotient, from the floor of the dividend's magnitude.\<close>

lemma sdiv_nonneg: "0 \<le> (a::int) \<Longrightarrow> 0 < d \<Longrightarrow> a sdiv d = a div d"
  by (cases "a = 0") (simp_all add: signed_divide_int_def)

lemma sdiv_neg: "(a::int) < 0 \<Longrightarrow> 0 < d \<Longrightarrow> a sdiv d = - ((- a) div d)"
  by (simp add: signed_divide_int_def)

lemma sdiv_minus: "(a::int) sdiv (- d) = - (a sdiv d)"
  by (simp add: signed_divide_int_def sgn_minus)

lemma ceil_div: "0 < d \<Longrightarrow> ((a::int) + (d - 1)) div d = - ((- a) div d)"
proof -
  assume d: "0 < d"
  define q r where "q = (- a) div d" and "r = (- a) mod d"
  have a: "- a = q * d + r" and r: "0 \<le> r" "r < d" using d by (simp_all add: q_def r_def)
  have "a + (d - 1) = (d - 1 - r) + (- q) * d" using a by (simp add: algebra_simps)
  then have "(a + (d - 1)) div d = - q + (d - 1 - r) div d"
    using d by (simp only: div_mult_self1) 
  also have "(d - 1 - r) div d = 0" using r by simp
  finally show ?thesis by (simp add: q_def)
qed

text \<open>Division by a power of two: add the bias \<open>2 ^ k - 1\<close> to a negative dividend, then shift.\<close>

lemma unat_minus_1: "unat (- 1 :: u64) = 2 ^ 64 - 1"
  using unat64_neg [of 1] by simp

lemma drop_bit_minus_1: "k \<le> 64 \<Longrightarrow> unat (drop_bit (64 - k) (- 1 :: u64)) = 2 ^ k - 1"
proof -
  assume k: "k \<le> 64"
  have p: "(2::nat) ^ 64 = 2 ^ k * 2 ^ (64 - k)" using k by (simp add: power_add [symmetric])
  have "(2 ^ 64 - 1) div 2 ^ (64 - k) = (2 ^ k - 1 :: nat)"
  proof (rule div_eq_bracket)
    have "(2 ^ k - 1) * 2 ^ (64 - k) = (2::nat) ^ 64 - 2 ^ (64 - k)" unfolding p by (simp add: diff_mult_distrib)
    moreover have "(1::nat) \<le> 2 ^ (64 - k)" by simp
    ultimately show "(2 ^ k - 1) * 2 ^ (64 - k) \<le> (2::nat) ^ 64 - 1" by linarith
    have "(2 ^ k - 1 + 1) * 2 ^ (64 - k) = (2::nat) ^ 64" unfolding p by simp
    then show "(2::nat) ^ 64 - 1 < (2 ^ k - 1 + 1) * 2 ^ (64 - k)" by simp
  qed
  then show ?thesis by (simp only: unat_drop_bit_word unat_minus_1)
qed

lemma sar64_63: "sar64 a 63 = (if sint a < 0 then - 1 else 0)"
proof -
  have "sint a div 2 ^ 63 = (if sint a < 0 then - 1 else 0)"
  proof (cases "sint a < 0")
    case True
    have "sint a div 2 ^ 63 = - 1 + (sint a + 2 ^ 63) div 2 ^ 63" by simp
    moreover have "(sint a + 2 ^ 63) div 2 ^ 63 = 0"
      using True sint64_range [of a] by (intro div_pos_pos_trivial) simp_all
    ultimately show ?thesis using True by simp
  next
    case False
    then show ?thesis using sint64_range [of a] by (simp add: div_pos_pos_trivial)
  qed
  then show ?thesis by (simp add: sar64_def)
qed

definition pow2_bias :: "u64 \<Rightarrow> nat \<Rightarrow> u64" where
  "pow2_bias a k = (if k = 1 then drop_bit 63 a else drop_bit (64 - k) (sar64 a 63))"

lemma pow2_bias_eq:
  assumes "1 \<le> k" "k \<le> 63"
  shows "pow2_bias a k = (if sint a < 0 then word_of_int (2 ^ k - 1) else 0)"
proof -
  have "unat (drop_bit (64 - k) (- 1 :: u64)) = 2 ^ k - 1" by (rule drop_bit_minus_1) (use assms in simp)
  then have "drop_bit (64 - k) (- 1 :: u64) = word_of_nat (2 ^ k - 1)" by (rule word_of_unat)
  also have "\<dots> = word_of_int (2 ^ k - 1)" by (simp add: of_nat_diff)
  finally show ?thesis by (simp add: pow2_bias_def sar64_63 drop_bit63_sint)
qed

lemma pow2_quotient:
  assumes k: "1 \<le> k" "k \<le> 63"
  shows "sar64 (a + pow2_bias a k) k = word_of_int (sint a sdiv 2 ^ k)"
proof (cases "sint a < 0")
  case True
  have "a + pow2_bias a k = word_of_int (sint a + (2 ^ k - 1))"
    using True by (simp add: pow2_bias_eq [OF k])
  moreover have "sint (word_of_int (sint a + (2 ^ k - 1)) :: u64) = sint a + (2 ^ k - 1)"
  proof (rule sint64_word_of_int)
    have "(2::int) ^ k \<le> 2 ^ 63" by (rule power_increasing) (use k in simp_all)
    moreover have "(1::int) \<le> 2 ^ k" by simp
    ultimately show "- (2 ^ 63) \<le> sint a + (2 ^ k - 1)" "sint a + (2 ^ k - 1) < 2 ^ 63"
      using True sint64_range(1) [of a] by linarith+
  qed
  ultimately have "sint (a + pow2_bias a k) = sint a + (2 ^ k - 1)" by (simp only:)
  then show ?thesis using True by (simp add: sar64_def ceil_div sdiv_neg)
next
  case False
  then show ?thesis by (simp add: pow2_bias_eq [OF k] sar64_def sdiv_nonneg)
qed

section \<open>Unsigned magic quotients\<close>

lemma unat_mulhi_u64: "unat (mulhi_u64 a b) = unat a * unat b div 2 ^ 64"
proof -
  have "unat a * unat b < 2 ^ 64 * 2 ^ 64"
    using unat64_less [of a] unat64_less [of b] by (intro mult_strict_mono) simp_all
  then have "unat a * unat b div 2 ^ 64 < 2 ^ 64" by (intro div_less_of_mult) simp
  then show ?thesis unfolding mulhi_u64_def by (simp add: unat_of_nat)
qed

text \<open>What the emitted code computes, with and without the correction for a 65-bit multiplier.\<close>

definition magic_quotient_u64 :: "u64 \<Rightarrow> u64 \<Rightarrow> nat \<Rightarrow> bool \<Rightarrow> u64" where
  "magic_quotient_u64 a M s add =
    (let t = mulhi_u64 a M
     in if \<not> add then drop_bit s t else drop_bit (s - 1) (drop_bit 1 (a - t) + t))"

lemma magic_quotient_u64_correct:
  assumes d: "1 < unat d" and eq: "cg_magic_u64 d = (M, s, add)"
  shows "magic_quotient_u64 a M s add = a div d" and "\<not> add \<Longrightarrow> s < 64" and "add \<Longrightarrow> 1 \<le> s \<and> s \<le> 64"
proof -
  obtain q where q: "add = (2 ^ 64 - 1 \<le> q)" "unat M = (q + 1) mod 2 ^ 64" "q \<le> 2 ^ 65 - 2"
      "q = (2 ^ (64 + s) - 1) div unat d" "s \<le> 64"
    and main: "\<And>n. n < 2 ^ 64 \<Longrightarrow> ((q + 1) * n) div 2 ^ (64 + s) = n div unat d"
    using cg_magic_u64_spec [OF d eq] by blast
  define n where "n = unat a"
  have n: "n < 2 ^ 64" unfolding n_def using unat64_less [of a] by simp
  show "s < 64" if "\<not> add"
  proof (rule ccontr)
    assume "\<not> s < 64"
    then have "s = 64" using q(5) by simp
    then have "2 ^ 64 - 1 \<le> q" unfolding q(4)
      using div_le_mono2 [of "unat d" "2 ^ 64" "2 ^ 128 - 1"] d unat64_less [of d] by simp
    then show False using that q(1) by simp
  qed
  show s1: "1 \<le> s \<and> s \<le> 64" if add
  proof (rule ccontr)
    assume "\<not> (1 \<le> s \<and> s \<le> 64)"
    then have "s = 0" using q(5) by simp
    then have "q \<le> (2 ^ 64 - 1) div 2" unfolding q(4) using div_le_mono2 [of 2 "unat d" "2 ^ 64 - 1"] d by simp
    then show False using that q(1) by simp
  qed
  show "magic_quotient_u64 a M s add = a div d"
  proof (cases add)
    case False
    then have M: "unat M = q + 1" using q by simp
    have "unat (drop_bit s (mulhi_u64 a M)) = n * (q + 1) div 2 ^ 64 div 2 ^ s"
      by (simp only: unat_drop_bit_word unat_mulhi_u64 M n_def)
    also have "\<dots> = ((q + 1) * n) div 2 ^ (64 + s)"
      unfolding power_add div_split by (simp only: mult.commute [of n])
    also have "\<dots> = unat (a div d)" unfolding main [OF n] by (simp only: unat_div n_def)
    finally show ?thesis using False by (simp add: magic_quotient_u64_def Let_def word_unat_eq_iff)
  next
    case True
    then have q1: "q + 1 = 2 ^ 64 + unat M"
      using q by (simp add: le_mod_geq)
    define t where "t = mulhi_u64 a M"
    have ut: "unat t = unat M * n div 2 ^ 64" by (simp only: t_def unat_mulhi_u64 n_def mult.commute)
    have tn: "unat t \<le> n"
    proof -
      have "unat M * n \<le> 2 ^ 64 * n" by (rule mult_le_mono1) (use unat64_less [of M] in simp)
      then have "unat M * n div 2 ^ 64 \<le> n" by (metis div_le_mono nonzero_mult_div_cancel_left
            power_not_zero zero_neq_numeral)
      then show ?thesis by (simp only: ut)
    qed
    have "unat (a - t) = n - unat t" unfolding n_def using tn by (simp add: unat_sub word_le_nat_alt n_def)
    then have h: "unat (drop_bit 1 (a - t)) = (n - unat t) div 2" by (simp only: unat_drop_bit_word power_one_right)
    have sum: "(n - unat t) div 2 + unat t = (n + unat t) div 2" by (rule avg_no_overflow [OF tn])
    have "(n + unat t) div 2 < 2 ^ 64" using n tn by simp
    then have avg: "unat (drop_bit 1 (a - t) + t) = (n + unat t) div 2"
      using h sum by (simp add: unat_word_ariths)
    obtain j where j: "s = Suc j" using s1 [OF True] by (cases s) simp_all
    have "unat (drop_bit (s - 1) (drop_bit 1 (a - t) + t)) = (n + unat t) div 2 ^ s"
      unfolding unat_drop_bit_word avg j by (simp add: div_split)
    also have "\<dots> = ((q + 1) * n) div 2 ^ (64 + s)"
      unfolding q1 ut power_add by (rule high_mult_carry [symmetric]) simp
    also have "\<dots> = unat (a div d)" unfolding main [OF n] by (simp only: unat_div n_def)
    finally show ?thesis using True by (simp add: magic_quotient_u64_def Let_def t_def word_unat_eq_iff)
  qed
qed

section \<open>Signed magic quotients\<close>

lemma int_div_bracket: "(k::int) * P \<le> a \<Longrightarrow> a < (k + 1) * P \<Longrightarrow> 0 < P \<Longrightarrow> a div P = k"
  by (rule int_div_pos_eq [of _ _ _ "a - k * P"]) (simp_all add: algebra_simps)

text \<open>The floor of the product by \<open>m / 2 ^ (64 + s)\<close>, and the correction by the sign of the floor.\<close>

definition floor_then_fix :: "int \<Rightarrow> int" where
  "floor_then_fix q = (if q < 0 then q + 1 else q)"

lemma floor_fix_quotient:
  fixes m P A x :: nat and y :: int
  assumes x: "x \<noteq> 0 \<Longrightarrow> (x div A) * P < m * x \<and> m * x \<le> (x div A + 1) * P"
    and pos: "y = int x \<Longrightarrow> x \<noteq> 0 \<Longrightarrow> m * x < (x div A + 1) * P"
    and y: "y = int x \<or> y = - int x" and P: "0 < P"
  shows "floor_then_fix (y * int m div int P) = (if y = int x then int (x div A) else - int (x div A))"
proof (cases "x = 0")
  case True then show ?thesis using y by (simp add: floor_then_fix_def)
next
  case False
  note b = x [OF False]
  show ?thesis
  proof (cases "y = int x")
    case True
    have "int (m * x) div int P = int (x div A)"
      by (simp only: zdiv_int [symmetric] div_eq_bracket [OF less_imp_le [OF conjunct1 [OF b]] pos [OF True False]])
    then show ?thesis using True by (simp add: floor_then_fix_def mult.commute)
  next
    case y': False
    then have y: "y = - int x" using y by simp
    have "y * int m div int P = - int (x div A + 1)"
    proof (rule int_div_bracket)
      have "int (m * x) \<le> int ((x div A + 1) * P)" using b by (simp only: of_nat_le_iff)
      then show "- int (x div A + 1) * int P \<le> y * int m" unfolding y by (simp add: algebra_simps)
      have "int ((x div A) * P) < int (m * x)" using b by (simp only: of_nat_less_iff)
      then show "y * int m < (- int (x div A + 1) + 1) * int P" unfolding y by (simp add: algebra_simps)
    qed (use P in simp)
    then show ?thesis using y' by (simp add: floor_then_fix_def)
  qed
qed

definition magic_quotient_s64 :: "u64 \<Rightarrow> i64 \<Rightarrow> nat \<Rightarrow> i64 \<Rightarrow> u64" where
  "magic_quotient_s64 a M s C =
    (let t = mulhi_s64 a M;
         u = (if 0 < sint C \<and> sint M < 0 then t + a else if sint C < 0 \<and> 0 < sint M then t - a else t);
         v = (if 0 < s then sar64 u s else u)
     in v + drop_bit 63 v)"

lemma high_product_range:
  fixes y :: int
  assumes y: "\<bar>y\<bar> \<le> 2 ^ 63" and m: "0 < m" "m < (2 ^ 64 :: nat)"
  shows "sint (word_of_int (y * int m div 2 ^ 64) :: u64) = y * int m div 2 ^ 64"
proof (rule sint64_word_of_int)
  have im: "int m \<le> 2 ^ 64 - 1" using m by simp
  have "\<bar>y * int m\<bar> \<le> 2 ^ 63 * (2 ^ 64 - 1)" unfolding abs_mult using y im by (intro mult_mono) simp_all
  then have "- (2 ^ 63) * 2 ^ 64 \<le> y * int m" "y * int m < 2 ^ 63 * 2 ^ 64" by simp_all
  then show "- (2 ^ 63) \<le> y * int m div 2 ^ 64" "y * int m div 2 ^ 64 < 2 ^ 63"
    by (simp_all add: div_int_pos_iff)
qed

lemma sint_of_nat64: "m < 2 ^ 64 \<Longrightarrow> sint (of_nat m :: u64) = (if m < 2 ^ 63 then int m else int m - 2 ^ 64)"
  by (simp add: sint64_unat unat_of_nat)

lemma sint_minus_of_nat64:
  "0 < m \<Longrightarrow> m < 2 ^ 64 \<Longrightarrow> sint (- of_nat m :: u64) = (if m \<le> 2 ^ 63 then - int m else 2 ^ 64 - int m)"
proof -
  assume m: "0 < m" "m < (2 ^ 64 :: nat)"
  then have e: "(- of_nat m :: u64) = of_nat (2 ^ 64 - m)" by (simp add: of_nat_diff)
  show ?thesis unfolding e using m by (subst sint_of_nat64) (auto simp: of_nat_diff)
qed

lemma magic_high_product:
  fixes a C :: u64 and m :: nat
  assumes m: "0 < m" "m < 2 ^ 64" and C: "C \<noteq> 0"
  defines "M \<equiv> (if sint C < 0 then - of_nat m else of_nat m :: u64)"
  shows "sint (let t = mulhi_s64 a M
         in if 0 < sint C \<and> sint M < 0 then t + a else if sint C < 0 \<and> 0 < sint M then t - a else t)
         = (if sint C < 0 then - sint a else sint a) * int m div 2 ^ 64"
proof -
  have rng: "\<bar>if sint C < 0 then - sint a else sint a\<bar> \<le> 2 ^ 63" using sint64_range [of a] by auto
  note hp = high_product_range [OF rng m]
  have C': "\<not> sint C < 0 \<Longrightarrow> 0 < sint C" using C by (metis linorder_neqE signed_0 signed_eq_0_iff)
  have shift: "(x + y * 2 ^ 64) div 2 ^ 64 = x div 2 ^ 64 + y" for x y :: int by simp
  show ?thesis
  proof (cases "sint C < 0")
    case True
    then have M: "sint M = (if m \<le> 2 ^ 63 then - int m else 2 ^ 64 - int m)"
      unfolding M_def using sint_minus_of_nat64 [OF m] by simp
    show ?thesis
    proof (cases "m \<le> 2 ^ 63")
      case True
      then show ?thesis using M \<open>sint C < 0\<close> hp m by (simp add: mulhi_s64_def Let_def)
    next
      case False
      have "sint a * sint M = - sint a * int m + sint a * 2 ^ 64"
        unfolding M using False by (simp add: algebra_simps)
      then have "sint a * sint M div 2 ^ 64 = - sint a * int m div 2 ^ 64 + sint a" by (simp only: shift)
      then have "mulhi_s64 a M - a = word_of_int (- sint a * int m div 2 ^ 64)"
        by (simp only: mulhi_s64_def of_int_add) simp
      then show ?thesis using M False \<open>sint C < 0\<close> hp m by (simp add: Let_def)
    qed
  next
    case neg: False
    then have M: "sint M = (if m < 2 ^ 63 then int m else int m - 2 ^ 64)"
      unfolding M_def using sint_of_nat64 [OF m(2)] by simp
    show ?thesis
    proof (cases "m < 2 ^ 63")
      case True
      then show ?thesis using M neg C' hp m by (simp add: mulhi_s64_def Let_def)
    next
      case False
      have "sint a * sint M = sint a * int m + (- sint a) * 2 ^ 64"
        unfolding M using False by (simp add: algebra_simps)
      then have "sint a * sint M div 2 ^ 64 = sint a * int m div 2 ^ 64 + (- sint a)" by (simp only: shift)
      then have "mulhi_s64 a M + a = word_of_int (sint a * int m div 2 ^ 64)"
        by (simp only: mulhi_s64_def of_int_add) simp
      then show ?thesis using M False neg C' hp m by (simp add: Let_def)
    qed
  qed
qed

lemma magic_quotient_s64_correct:
  fixes C :: i64
  assumes np: "\<And>k. nat \<bar>sint C\<bar> \<noteq> 2 ^ k" and C: "2 \<le> \<bar>sint C\<bar>"
  shows "\<exists>M s. cg_magic_s64 C = Some (M, s) \<and> s < 64 \<and>
    (\<forall>a. magic_quotient_s64 a M s C = word_of_int (sint a sdiv sint C))"
proof -
  define A where "A = nat \<bar>sint C\<bar>"
  obtain m s where r: "cg_magic_s64 C = Some (if sint C < 0 then - of_nat m else of_nat m, s)"
    and m: "0 < m" "m < 2 ^ 64" and s: "s < 64"
    and lt: "\<And>x. 0 < x \<Longrightarrow> x < 2 ^ 63 + (if sint C < 0 then 1 else 0) \<Longrightarrow> m * x < (x div A + 1) * 2 ^ (64 + s)"
    and br: "\<And>x. 0 < x \<Longrightarrow> x \<le> 2 ^ 63 \<Longrightarrow>
        (x div A) * 2 ^ (64 + s) < m * x \<and> m * x \<le> (x div A + 1) * 2 ^ (64 + s)"
    using cg_magic_s64_spec [OF np C, folded A_def] by blast
  define M where "M = (if sint C < 0 then - of_nat m else of_nat m :: u64)"
  have C0: "C \<noteq> 0" using C by auto
  have "magic_quotient_s64 a M s C = word_of_int (sint a sdiv sint C)" for a
  proof -
    define u where "u = (let t = mulhi_s64 a M
         in if 0 < sint C \<and> sint M < 0 then t + a else if sint C < 0 \<and> 0 < sint M then t - a else t)"
    define y where "y = (if sint C < 0 then - sint a else sint a)"
    define v where "v = (if 0 < s then sar64 u s else u)"
    define x where "x = nat \<bar>sint a\<bar>"
    have su: "sint u = y * int m div 2 ^ 64"
      unfolding u_def M_def y_def by (rule magic_high_product [OF m C0])
    have sv: "sint v = y * int m div int (2 ^ (64 + s))"
      using su by (simp add: v_def power_add zdiv_zmult2_eq)
    have xl: "x \<le> 2 ^ 63" using sint64_range [of a] by (simp add: x_def)
    have yx: "y = int x \<or> y = - int x" by (auto simp: y_def x_def abs_if)
    have fx: "floor_then_fix (sint v) = (if y = int x then int (x div A) else - int (x div A))"
      unfolding sv
    proof (rule floor_fix_quotient [OF _ _ yx])
      show "m * x < (x div A + 1) * 2 ^ (64 + s)" if "y = int x" "x \<noteq> 0"
      proof (rule lt)
        have "int x < 2 ^ 63 + (if sint C < 0 then 1 else 0)"
          unfolding that(1) [symmetric] y_def using sint64_range [of a] by simp
        then show "x < 2 ^ 63 + (if sint C < 0 then 1 else 0)" by (simp split: if_splits)
      qed (use that in simp)
    qed (use br xl in simp_all)
    have "v + drop_bit 63 v = word_of_int (floor_then_fix (sint v))"
      by (simp add: floor_then_fix_def drop_bit63_sint)
    also have "floor_then_fix (sint v) = sint a sdiv sint C"
    proof -
      have dv: "int (x div A) = \<bar>sint a\<bar> div \<bar>sint C\<bar>" by (simp add: x_def A_def zdiv_int)
      have yi: "y = int x \<longleftrightarrow> (if sint C < 0 then sint a \<le> 0 else 0 \<le> sint a)"
        by (auto simp: y_def x_def)
      show ?thesis unfolding fx yi dv signed_divide_int_def using C
        by (cases "sint a" "0::int" rule: linorder_cases; cases "sint C < 0") simp_all
    qed
    finally show ?thesis by (simp only: magic_quotient_s64_def u_def v_def Let_def)
  qed
  then show ?thesis using r s unfolding M_def by blast
qed

end
