(* ===== verification/StrengthCorrect.thy ===== *)
theory StrengthCorrect
  imports DivModArith
begin

text \<open>
  Correctness of the strength-reduction classifier: it returns for every constant, and the shifts,
  sums and masks the AArch64 encoder emits for the kinds it handles
  (\<open>codegen/binary/arm64_ir_encode.c\<close>, the switch on \<open>rw.kind\<close>) compute the operation.
\<close>

section \<open>What the encoder emits for a rewrite\<close>

text \<open>
  The value left in the result register by the instructions of each case; \<open>None\<close> is the default
  case, which falls through to the general code.
\<close>

definition strength_value :: "CgStrengthRewrite \<Rightarrow> u64 \<Rightarrow> u64 option" where
  "strength_value rw a =
    (case sr_kind rw of
       CG_SR_MUL_SHL \<Rightarrow> Some (push_bit (sr_shift rw) a)
     | CG_SR_MUL_SHL_ADD \<Rightarrow> Some (push_bit (sr_shift rw) a + a)
     | CG_SR_MUL_SHL_SUB \<Rightarrow> Some (push_bit (sr_shift rw) a - a)
     | CG_SR_UDIV_SHR \<Rightarrow> Some (drop_bit (sr_shift rw) a)
     | CG_SR_UREM_AND \<Rightarrow> Some (a AND sr_mask rw)
     | _ \<Rightarrow> None)"

definition op_value :: "char \<Rightarrow> u64 \<Rightarrow> u64 \<Rightarrow> u64" where
  "op_value op a c = (if op = CHR ''*'' then a * c else if op = CHR ''/'' then a div c else a mod c)"

section \<open>The shape tests\<close>

lemma cg_pow2_log_loop_pow2:
  assumes v: "unat v = 2 ^ j"
  shows "k \<le> j \<Longrightarrow> cg_pow2_log_loop v k = Some j"
proof (induction "j - k" arbitrary: k)
  case 0
  then have "unat (drop_bit k v) = 1" by (simp only: unat_drop_bit_word v) simp
  then have "drop_bit k v = 1" using word_of_unat [of "drop_bit k v" 1] by simp
  then show ?case using 0 by (subst cg_pow2_log_loop.simps) simp
next
  case (Suc n)
  then have "k < j" by simp
  then have "unat (drop_bit k v) = 2 ^ (j - k)" by (simp only: unat_drop_bit_word v) (simp add: power_diff)
  moreover have "(1::nat) < 2 ^ (j - k)" using \<open>k < j\<close> by (intro one_less_power) simp_all
  ultimately have "drop_bit k v \<noteq> 1" by auto
  then show ?case using Suc.hyps(1) [of "Suc k"] Suc.hyps(2) \<open>k < j\<close>
    by (subst cg_pow2_log_loop.simps) simp
qed

lemma cg_pow2_log_spec:
  obtains (no) "cg_pow2_log v = Some (-1)" "\<And>k. unat v \<noteq> 2 ^ k"
  | (yes) k where "cg_pow2_log v = Some (int k)" "unat v = 2 ^ k" "k < 64"
proof (cases "v = 0 \<or> v AND (v - 1) \<noteq> 0")
  case True
  then have "unat v \<noteq> 2 ^ k" for k
    using u64_pow2_test [of v] u64_pow2_exponent [of v k] by (cases "v = 0") auto
  then show thesis using True no by (simp add: cg_pow2_log_def)
next
  case False
  then obtain k where "unat v = 2 ^ k" "k < 64" using u64_pow2_test [of v] by auto
  then show thesis using yes False cg_pow2_log_loop_pow2 [of v k 0] by (simp add: cg_pow2_log_def)
qed

lemma cg_shape_matches_spec:
  obtains r where "cg_shape_matches sh c = Some r"
    and "\<And>k. r = Some k \<Longrightarrow> sh = SR_SHAPE_POW2 \<Longrightarrow> c = 2 ^ k \<and> unat c = 2 ^ k \<and> 1 \<le> k \<and> k < 64"
    and "\<And>k. r = Some k \<Longrightarrow> sh = SR_SHAPE_POW2_PLUS_1 \<Longrightarrow> c = 2 ^ k + 1"
    and "\<And>k. r = Some k \<Longrightarrow> sh = SR_SHAPE_POW2_MINUS_1 \<Longrightarrow> c = 2 ^ k - 1"
    and "\<And>k. r = Some k \<Longrightarrow> sh = SR_SHAPE_CONST_GENERAL \<Longrightarrow> c \<noteq> 0 \<and> c \<noteq> 1 \<and> c \<noteq> -1"
proof -
  have w: "unat v = 2 ^ k \<Longrightarrow> v = 2 ^ k" for v :: u64 and k using word_of_unat [of v "2 ^ k"] by simp
  show thesis
  proof (cases sh)
    case SR_SHAPE_POW2
    show ?thesis
    proof (cases rule: cg_pow2_log_spec [of c])
      case no
      then show ?thesis by (auto intro!: that simp: SR_SHAPE_POW2 cg_shape_matches_def split: if_splits)
    next
      case (yes k)
      then show ?thesis using w [OF yes(2)]
        by (intro that [of "if sint c > 1 \<and> 1 \<le> k then Some k else None"])
           (auto simp: SR_SHAPE_POW2 cg_shape_matches_def split: if_splits)
    qed
  next
    case SR_SHAPE_POW2_PLUS_1
    show ?thesis
    proof (cases rule: cg_pow2_log_spec [of "c - 1"])
      case no
      then show ?thesis by (auto intro!: that simp: SR_SHAPE_POW2_PLUS_1 cg_shape_matches_def split: if_splits)
    next
      case (yes k)
      then show ?thesis using w [OF yes(2)]
        by (intro that [of "if sint c > 2 \<and> 2 \<le> k then Some k else None"])
           (auto simp: SR_SHAPE_POW2_PLUS_1 cg_shape_matches_def algebra_simps split: if_splits)
    qed
  next
    case SR_SHAPE_POW2_MINUS_1
    show ?thesis
    proof (cases rule: cg_pow2_log_spec [of "c + 1"])
      case no
      then show ?thesis by (auto intro!: that simp: SR_SHAPE_POW2_MINUS_1 cg_shape_matches_def split: if_splits)
    next
      case (yes k)
      then show ?thesis using w [OF yes(2)]
        by (intro that [of "if sint c > 2 \<and> 2 \<le> k then Some k else None"])
           (auto simp: SR_SHAPE_POW2_MINUS_1 cg_shape_matches_def algebra_simps split: if_splits)
    qed
  next
    case SR_SHAPE_CONST_GENERAL
    show ?thesis
      by (rule that) (auto simp: SR_SHAPE_CONST_GENERAL cg_shape_matches_def split: if_splits)
  qed
qed

section \<open>The classifier\<close>

lemma strength_mul:
  fixes a :: u64
  shows "push_bit k a = a * 2 ^ k" "push_bit k a + a = a * (2 ^ k + 1)" "push_bit k a - a = a * (2 ^ k - 1)"
  by (simp_all add: push_bit_eq_mult algebra_simps)

lemma strength_udiv:
  fixes a c :: u64
  assumes "unat c = 2 ^ k"
  shows "drop_bit k a = a div c" and "k < 64 \<Longrightarrow> a AND (c - 1) = a mod c"
proof -
  show "drop_bit k a = a div c"
    by (simp add: word_unat_eq_iff unat_drop_bit_word unat_div assms)
  assume "k < 64"
  have c: "c = 2 ^ k" using word_of_unat [OF assms] by simp
  have "a AND (c - 1) = take_bit k a" unfolding c by (simp add: take_bit_eq_mask mask_eq_decr_exp)
  also have "\<dots> = a mod c"
    by (simp only: word_unat_eq_iff unsigned_take_bit_eq unat_mod assms)
       (rule take_bit_eq_mod)
  finally show "a AND (c - 1) = a mod c" .
qed

lemma cg_strength_fill_returns:
  assumes "kind = CG_SR_DIV_MAGIC \<or> kind = CG_SR_REM_MAGIC \<Longrightarrow> c \<noteq> 0 \<and> c \<noteq> 1 \<and> c \<noteq> -1"
  shows "\<exists>rw. cg_strength_fill kind k c u = Some rw \<and> sr_kind rw = kind"
proof (cases "(kind = CG_SR_DIV_MAGIC \<or> kind = CG_SR_REM_MAGIC) \<and> \<not> u")
  case True
  then have "sint c \<noteq> 0" "sint c \<noteq> 1" "sint c \<noteq> -1"
    using assms word_of_sint [of c 0] word_of_sint [of c 1] word_of_sint [of c "-1"] by auto
  then have "2 \<le> \<bar>sint c\<bar>" by arith
  from cg_magic_s64_loop_exit [OF this] obtain M s where "cg_magic_s64 c = Some (M, s)" by blast
  then show ?thesis using True by (auto simp: cg_strength_fill_def Let_def)
next
  case False
  then show ?thesis by (cases kind; cases u) (auto simp: cg_strength_fill_def Let_def split: prod.split)
qed

text \<open>What a rule of the table promises of the rewrite it produces.\<close>

definition rewrite_ok :: "char \<Rightarrow> i64 \<Rightarrow> CgStrengthRewrite \<Rightarrow> bool" where
  "rewrite_ok op c rw \<longleftrightarrow> (\<forall>a y. strength_value rw a = Some y \<longrightarrow> y = op_value op a c)"

lemma cg_strength_fill_ok:
  assumes m: "cg_shape_matches (rule_shape r) c = Some (Some k)" and r: "r \<in> set g_cg_strength_rules"
    and f: "cg_strength_fill (rule_kind r) k c u = Some rw"
  shows "rewrite_ok (rule_op r) c rw"
proof -
  obtain s where s: "Some (Some k) = Some s"
    and p: "\<And>k. s = Some k \<Longrightarrow> rule_shape r = SR_SHAPE_POW2 \<Longrightarrow> c = 2 ^ k \<and> unat c = 2 ^ k \<and> 1 \<le> k \<and> k < 64"
      "\<And>k. s = Some k \<Longrightarrow> rule_shape r = SR_SHAPE_POW2_PLUS_1 \<Longrightarrow> c = 2 ^ k + 1"
      "\<And>k. s = Some k \<Longrightarrow> rule_shape r = SR_SHAPE_POW2_MINUS_1 \<Longrightarrow> c = 2 ^ k - 1"
    using cg_shape_matches_spec [of "rule_shape r" c] unfolding m by metis
  then have s: "s = Some k" by simp
  show ?thesis unfolding rewrite_ok_def using r f p [OF s] strength_mul strength_udiv [of c k]
    by (auto simp: g_cg_strength_rules_def mk_rule_def cg_strength_fill_def strength_value_def
          op_value_def Let_def split: if_splits prod.splits bind_splits)
qed

lemma cg_strength_scan_ok:
  "set rules \<subseteq> set g_cg_strength_rules \<Longrightarrow>
   \<exists>r. cg_strength_scan rules op c u = Some r \<and> (\<forall>rw. r = Some rw \<longrightarrow> rewrite_ok op c rw)"
proof (induction rules)
  case (Cons rule rules)
  then obtain r where IH: "cg_strength_scan rules op c u = Some r" "\<forall>rw. r = Some rw \<longrightarrow> rewrite_ok op c rw"
    and mem: "rule \<in> set g_cg_strength_rules" by auto
  obtain m where m: "cg_shape_matches (rule_shape rule) c = Some m"
    and gen: "\<And>k. m = Some k \<Longrightarrow> rule_shape rule = SR_SHAPE_CONST_GENERAL \<Longrightarrow> c \<noteq> 0 \<and> c \<noteq> 1 \<and> c \<noteq> -1"
    using cg_shape_matches_spec [of "rule_shape rule" c] by metis
  show ?case
  proof (cases "rule_op rule = op \<and> (\<exists>k. m = Some k)")
    case True
    then obtain k where k: "m = Some k" by blast
    have "rule_kind rule = CG_SR_DIV_MAGIC \<or> rule_kind rule = CG_SR_REM_MAGIC \<Longrightarrow> rule_shape rule = SR_SHAPE_CONST_GENERAL"
      using mem by (auto simp: g_cg_strength_rules_def mk_rule_def)
    then obtain rw where rw: "cg_strength_fill (rule_kind rule) k c u = Some rw"
      using cg_strength_fill_returns [of "rule_kind rule" c k u] gen [OF k] by blast
    then show ?thesis using True IH m k cg_strength_fill_ok [OF _ mem rw] by auto
  next
    case False
    then show ?thesis using IH m by (cases m) auto
  qed
qed simp

section \<open>Properties\<close>



text \<open>C12. The unsigned magic numbers: for every divisor of at least two, \<open>cg_magic_u64\<close> yields a
  multiplier \<open>M\<close> (with an implicit 65th bit when \<open>add\<close> is set) and a shift \<open>s \<le> 64\<close> such that the shifted
  128-bit product is the exact quotient of every 64-bit dividend.\<close>

theorem magic_u64_divides:
  fixes n :: u64
  assumes d: "1 < unat d" and eq: "cg_magic_u64 d = (M, s, add)"
  shows "s \<le> 64 \<and> (unat M + (if add then 2 ^ 64 else 0)) * unat n div 2 ^ (64 + s) = unat n div unat d"
proof -
  obtain q where q: "add = (2 ^ 64 - 1 \<le> q)" "unat M = (q + 1) mod 2 ^ 64" "q \<le> 2 ^ 65 - 2" "s \<le> 64"
    and main: "\<And>n. n < 2 ^ 64 \<Longrightarrow> ((q + 1) * n) div 2 ^ (64 + s) = n div unat d"
    using cg_magic_u64_spec [OF d eq] by blast
  have "unat M + (if add then 2 ^ 64 else 0) = q + 1" using q(1-3) by (auto simp: le_mod_geq)
  moreover have "unat n < 2 ^ 64" using unat64_less [of n] by simp
  ultimately show ?thesis using main q(4) by presburger
qed

theorem magic_u64_divides_witness:
  "\<exists>M s add. cg_magic_u64 7 = (M, s, add) \<and>
     s \<le> 64 \<and> (unat M + (if add then 2 ^ 64 else 0)) * unat (100 :: u64) div 2 ^ (64 + s) = 14"
proof -
  obtain M s add where eq: "cg_magic_u64 7 = (M, s, add)" by (cases "cg_magic_u64 7")
  have "1 < unat (7 :: u64)" by simp
  from magic_u64_divides [OF this eq, of 100] show ?thesis using eq by auto
qed

text \<open>C13. The signed magic numbers: for every divisor of magnitude at least two that is no power of
  two, the loop of \<open>cg_magic_s64\<close>, which has no bound of its own, ends with a shift below 64, and the high
  product corrected by the dividend, shifted and rounded towards zero is the C quotient of every
  64-bit dividend, the most negative one included.\<close>

theorem magic_s64_divides:
  assumes "\<And>k. nat \<bar>sint C\<bar> \<noteq> 2 ^ k" and "2 \<le> \<bar>sint C\<bar>"
  shows "\<exists>M s. cg_magic_s64 C = Some (M, s) \<and> s < 64 \<and>
    (\<forall>a. magic_quotient_s64 a M s C = word_of_int (sint a sdiv sint C))"
  by (rule magic_quotient_s64_correct [OF assms])

theorem magic_s64_divides_witness:
  "\<exists>M s. cg_magic_s64 (-7) = Some (M, s) \<and> s < 64 \<and>
    magic_quotient_s64 (-100) M s (-7) = word_of_int 14"
proof -
  have s7: "sint (-7 :: i64) = -7" using sint64_word_of_int [of "-7"] by simp
  have s100: "sint (-100 :: i64) = -100" using sint64_word_of_int [of "-100"] by simp
  have np: "nat \<bar>sint (-7 :: i64)\<bar> \<noteq> 2 ^ k" for k
  proof
    assume "nat \<bar>sint (-7 :: i64)\<bar> = 2 ^ k"
    then have k: "(7::nat) = 2 ^ k" by (simp add: s7)
    then have "odd ((2::nat) ^ k)" by (metis odd_numeral)
    then have "k = 0" by simp
    then show False using k by simp
  qed
  have "2 \<le> \<bar>sint (-7 :: i64)\<bar>" by (simp add: s7)
  from magic_s64_divides [OF np this]
  obtain M s where "cg_magic_s64 (-7) = Some (M, s)" "s < 64"
    "magic_quotient_s64 (-100) M s (-7) = word_of_int (sint (-100 :: i64) sdiv sint (-7 :: i64))" by blast
  moreover have "sint (-100 :: i64) sdiv sint (-7 :: i64) = 14" by (simp add: s7 s100 signed_divide_int_def)
  ultimately show ?thesis by auto
qed

end
