(* ===== verification/DivMod.thy ===== *)
theory DivMod
  imports DivModArith
begin

text \<open>
  Lowering of a division or remainder by a constant, \<open>codegen/binary/mir_lower.c\<close> from
  \<open>mir_iconst_lookup\<close> to \<open>mir_emit_const_divmod\<close>. The emitting calls return the C truth value and
  the grown function; the ones that call \<open>cg_magic_s64\<close>, whose loop has no bound of its own, return
  an option.
\<close>

section \<open>Operations\<close>

fun mir_iconst_lookup :: "MirIConst list \<Rightarrow> i64 \<Rightarrow> MirVregId" where
  "mir_iconst_lookup [] v = MIR_VREG_NONE"
| "mir_iconst_lookup (c # cs) v = (if ic_value c = v then ic_vreg c else mir_iconst_lookup cs v)"

definition mir_iconst_reserve :: "(nat \<Rightarrow> bool) \<Rightarrow> MirFunction \<Rightarrow> bool \<times> MirFunction" where
  "mir_iconst_reserve ok fn =
    (if length (fn_iconsts fn) < fn_iconst_capacity fn then (True, fn)
     else let nc = (if fn_iconst_capacity fn \<noteq> 0 then fn_iconst_capacity fn * 2 else 8);
              fn' = fn\<lparr>fn_allocs := fn_allocs fn + 1\<rparr>
          in if \<not> ok (fn_allocs fn) then (False, fn')
             else (True, fn'\<lparr>fn_iconst_capacity := nc\<rparr>))"

definition mir_iconst_note :: "i64 \<Rightarrow> MirVregId \<Rightarrow> MirFunction \<Rightarrow> MirFunction" where
  "mir_iconst_note value v fn =
    fn\<lparr>fn_iconsts := fn_iconsts fn @ [\<lparr>ic_value = value, ic_vreg = v\<rparr>]\<rparr>"

definition mir_iconst_add :: "(nat \<Rightarrow> bool) \<Rightarrow> i64 \<Rightarrow> MirFunction \<Rightarrow> bool \<times> MirFunction" where
  "mir_iconst_add ok value fn =
    (if mir_iconst_lookup (fn_iconsts fn) value \<noteq> MIR_VREG_NONE then (True, fn)
     else case mir_iconst_reserve ok fn of
       (r, fn1) \<Rightarrow>
         if \<not> r then (False, fn1\<lparr>fn_has_error := True\<rparr>)
         else case mir_new_vreg ok MIR_RC_GP 8 fn1 of
           (v, fn2) \<Rightarrow>
             if v = MIR_VREG_NONE then (False, fn2)
             else mir_emit1 ok MIR_MOV (mir_op_vreg v) (mir_op_imm value) mir_op_none 8 False 0
                    (mir_iconst_note value v fn2))"

definition mir_iconst_operand :: "MirFunction \<Rightarrow> i64 \<Rightarrow> MirOperand" where
  "mir_iconst_operand fn value =
    (let v = mir_iconst_lookup (fn_iconsts fn) value
     in if v \<noteq> MIR_VREG_NONE then mir_op_vreg v else mir_op_imm value)"

text \<open>\<open>Some None\<close> is the C result 0.\<close>

definition mir_divmod_magic :: "i64 \<Rightarrow> bool \<Rightarrow> i64 option option" where
  "mir_divmod_magic C uns =
    (case cg_strength_classify CHR ''/'' C uns of
       None \<Rightarrow> None
     | Some None \<Rightarrow> Some None
     | Some (Some rw) \<Rightarrow> Some (if sr_kind rw \<noteq> CG_SR_DIV_MAGIC then None else Some (sr_magic rw)))"

text \<open>The operand the code stores through \<open>out\<close>; \<open>None\<close> is the C result 0.\<close>

definition mir_divmod_value_in_reg ::
  "(nat \<Rightarrow> bool) \<Rightarrow> MirOperand \<Rightarrow> MirFunction \<Rightarrow> MirOperand option \<times> MirFunction" where
  "mir_divmod_value_in_reg ok a fn =
    (case a of
       MIR_OPK_VREG v \<Rightarrow> (Some a, fn)
     | _ \<Rightarrow> (case mir_new_vreg ok MIR_RC_GP 8 fn of
         (av, fn1) \<Rightarrow>
           if av = MIR_VREG_NONE then (None, fn1)
           else case mir_emit1 ok MIR_MOV (mir_op_vreg av) a mir_op_none 8 False 0 fn1 of
             (r, fn2) \<Rightarrow> if r then (Some (mir_op_vreg av), fn2) else (None, fn2)))"

function mir_divmod_shift_loop :: "u64 \<Rightarrow> nat \<Rightarrow> nat" where
  "mir_divmod_shift_loop t k = (if 1 < t then mir_divmod_shift_loop (drop_bit 1 t) (k + 1) else k)"
  by pat_completeness auto
termination
  by (relation "measure (\<lambda>(t, k). unat t)")
     (auto simp: unat_drop_bit_word word_less_nat_alt)

declare mir_divmod_shift_loop.simps [simp del]

definition mir_divmod_shift_for :: "u64 \<Rightarrow> nat" where
  "mir_divmod_shift_for magnitude = mir_divmod_shift_loop magnitude 0"

definition mir_emit_pow2_quotient_signed ::
  "(nat \<Rightarrow> bool) \<Rightarrow> MirOperand \<Rightarrow> MirOperand \<Rightarrow> nat \<Rightarrow> i64 \<Rightarrow> MirFunction \<Rightarrow> bool \<times> MirFunction" where
  "mir_emit_pow2_quotient_signed ok Q A k C fn =
    (case mir_new_vreg ok MIR_RC_GP 8 fn of (t1, fn1) \<Rightarrow>
     case mir_new_vreg ok MIR_RC_GP 8 fn1 of (t2, fn2) \<Rightarrow>
       if t1 = MIR_VREG_NONE \<or> t2 = MIR_VREG_NONE then (False, fn2)
       else
         and_then
           (if k = 1 then mir_emit1 ok MIR_SHR (mir_op_vreg t2) A (mir_op_imm 63) 8 True 0
            else and_then
              (mir_emit1 ok MIR_SAR (mir_op_vreg t1) A (mir_op_imm 63) 8 False 0)
              (mir_emit1 ok MIR_SHR (mir_op_vreg t2) (mir_op_vreg t1)
                 (mir_op_imm (64 - of_nat k)) 8 True 0))
           (and_then
             (and_then (mir_emit1 ok MIR_ADD Q A (mir_op_vreg t2) 8 False 0)
                       (mir_emit1 ok MIR_SAR Q Q (mir_op_imm (of_nat k)) 8 False 0))
             (if 0 \<le> sint C then (\<lambda>f. (True, f))
              else mir_emit1 ok MIR_NEG Q Q mir_op_none 8 False 0)) fn2)"

definition mir_emit_magic_quotient_unsigned ::
  "(nat \<Rightarrow> bool) \<Rightarrow> MirOperand \<Rightarrow> MirOperand \<Rightarrow> u64 \<Rightarrow> MirFunction \<Rightarrow> bool \<times> MirFunction" where
  "mir_emit_magic_quotient_unsigned ok Q A ad =
    (case cg_magic_u64 ad of (M, s, add) \<Rightarrow>
      with_vreg ok (\<lambda>tv.
        and_then
          (\<lambda>fn. mir_emit1 ok MIR_MULHI (mir_op_vreg tv) A (mir_iconst_operand fn M) 8 True 0 fn)
          (if \<not> add
           then mir_emit1 ok MIR_SHR Q (mir_op_vreg tv) (mir_op_imm (of_nat s)) 8 True 0
           else with_vreg ok (\<lambda>d1.
             and_then (mir_emit1 ok MIR_SUB (mir_op_vreg d1) A (mir_op_vreg tv) 8 False 0)
             (and_then (mir_emit1 ok MIR_SHR (mir_op_vreg d1) (mir_op_vreg d1) (mir_op_imm 1) 8 True 0)
             (and_then (mir_emit1 ok MIR_ADD (mir_op_vreg d1) (mir_op_vreg d1) (mir_op_vreg tv) 8 False 0)
                       (mir_emit1 ok MIR_SHR Q (mir_op_vreg d1) (mir_op_imm (of_nat s - 1)) 8 True 0)))))))"

definition mir_emit_magic_quotient_signed ::
  "(nat \<Rightarrow> bool) \<Rightarrow> MirOperand \<Rightarrow> MirOperand \<Rightarrow> i64 \<Rightarrow> MirFunction \<Rightarrow> (bool \<times> MirFunction) option" where
  "mir_emit_magic_quotient_signed ok Q A C fn =
    (case cg_magic_s64 C of
       None \<Rightarrow> None
     | Some (M, s) \<Rightarrow> Some (
        and_then (\<lambda>f. mir_emit1 ok MIR_MULHI Q A (mir_iconst_operand f M) 8 False 0 f)
        (and_then
          (if 0 < sint C \<and> sint M < 0 then mir_emit1 ok MIR_ADD Q Q A 8 False 0
           else if sint C < 0 \<and> 0 < sint M then mir_emit1 ok MIR_SUB Q Q A 8 False 0
           else (\<lambda>f. (True, f)))
        (and_then
          (if 0 < s then mir_emit1 ok MIR_SAR Q Q (mir_op_imm (of_nat s)) 8 False 0
           else (\<lambda>f. (True, f)))
        (with_vreg ok (\<lambda>sb.
          and_then (mir_emit1 ok MIR_SHR (mir_op_vreg sb) Q (mir_op_imm 63) 8 True 0)
                   (mir_emit1 ok MIR_ADD Q Q (mir_op_vreg sb) 8 False 0))))) fn))"

definition mir_emit_times_constant ::
  "(nat \<Rightarrow> bool) \<Rightarrow> MirOperand \<Rightarrow> MirOperand \<Rightarrow> i64 \<Rightarrow> MirFunction \<Rightarrow> bool \<times> MirFunction" where
  "mir_emit_times_constant ok dst Q C =
    (if - (2 ^ 31) \<le> sint C \<and> sint C \<le> 2 ^ 31 - 1
     then mir_emit1 ok MIR_IMUL dst Q (mir_op_imm C) 8 False 0
     else with_vreg ok (\<lambda>cv.
       and_then (mir_emit1 ok MIR_MOV (mir_op_vreg cv) (mir_op_imm C) mir_op_none 8 False 0)
                (mir_emit1 ok MIR_IMUL dst Q (mir_op_vreg cv) 8 False 0)))"

definition mir_emit_remainder ::
  "(nat \<Rightarrow> bool) \<Rightarrow> MirOperand \<Rightarrow> MirOperand \<Rightarrow> MirOperand \<Rightarrow> i64 \<Rightarrow>
   MirFunction \<Rightarrow> bool \<times> MirFunction" where
  "mir_emit_remainder ok dst A Q C =
    with_vreg ok (\<lambda>mv.
      and_then (mir_emit_times_constant ok (mir_op_vreg mv) Q C)
               (mir_emit1 ok MIR_SUB dst A (mir_op_vreg mv) 8 False 0))"

definition mir_emit_quotient ::
  "(nat \<Rightarrow> bool) \<Rightarrow> MirOperand \<Rightarrow> MirOperand \<Rightarrow> i64 \<Rightarrow> bool \<Rightarrow>
   MirFunction \<Rightarrow> (bool \<times> MirFunction) option" where
  "mir_emit_quotient ok Q A C uns fn =
    (let ad = (if uns then C else if sint C < 0 then - C else C);
         is_pow2 = (ad AND (ad - 1) = 0)
     in if is_pow2 \<and> uns
        then Some (mir_emit1 ok MIR_SHR Q A (mir_op_imm (of_nat (mir_divmod_shift_for ad))) 8 True 0 fn)
        else if is_pow2
        then Some (mir_emit_pow2_quotient_signed ok Q A (mir_divmod_shift_for ad) C fn)
        else if uns then Some (mir_emit_magic_quotient_unsigned ok Q A ad fn)
        else mir_emit_magic_quotient_signed ok Q A C fn)"

definition q_in_dst :: "MirOperand \<Rightarrow> MirOperand \<Rightarrow> bool \<Rightarrow> bool" where
  "q_in_dst dst A md =
    (\<not> md \<and> (case dst of MIR_OPK_VREG d \<Rightarrow> \<not> (case A of MIR_OPK_VREG v \<Rightarrow> v = d | _ \<Rightarrow> False) | _ \<Rightarrow> False))"

text \<open>The part of \<open>mir_emit_const_divmod\<close> after the dividend is in a register.\<close>

definition mir_emit_divmod_reg ::
  "(nat \<Rightarrow> bool) \<Rightarrow> MirOperand \<Rightarrow> MirOperand \<Rightarrow> i64 \<Rightarrow> bool \<Rightarrow> bool \<Rightarrow>
   MirFunction \<Rightarrow> (bool \<times> MirFunction) option" where
  "mir_emit_divmod_reg ok dst A C uns md fn =
    (if C = 1 then
       Some (mir_emit1 ok MIR_MOV dst (if md then mir_op_imm 0 else A) mir_op_none 8 False 0 fn)
     else if \<not> uns \<and> C = -1 then
       Some ((if md then mir_emit1 ok MIR_MOV dst (mir_op_imm 0) mir_op_none 8 False 0
              else mir_emit1 ok MIR_NEG dst A mir_op_none 8 False 0) fn)
     else case (if q_in_dst dst A md then (dst, dst = mir_op_vreg MIR_VREG_NONE, fn)
                else case mir_new_vreg ok MIR_RC_GP 8 fn of
                       (qv, f) \<Rightarrow> (mir_op_vreg qv, qv = MIR_VREG_NONE, f)) of
       (Q, failed, fn2) \<Rightarrow>
         if failed then Some (False, fn2)
         else case mir_emit_quotient ok Q A C uns fn2 of
           None \<Rightarrow> None
         | Some (r, fn3) \<Rightarrow>
             if \<not> r then Some (False, fn3)
             else if \<not> md then
               Some (if q_in_dst dst A md then (True, fn3)
                     else mir_emit1 ok MIR_MOV dst Q mir_op_none 8 False 0 fn3)
             else Some (mir_emit_remainder ok dst A Q C fn3))"

definition mir_emit_const_divmod ::
  "(nat \<Rightarrow> bool) \<Rightarrow> MirOperand \<Rightarrow> MirOperand \<Rightarrow> i64 \<Rightarrow> bool \<Rightarrow> bool \<Rightarrow>
   MirFunction \<Rightarrow> (bool \<times> MirFunction) option" where
  "mir_emit_const_divmod ok dst a C uns md fn =
    (if C = 0 then Some (False, fn)
     else case mir_divmod_value_in_reg ok a fn of
       (None, fn1) \<Rightarrow> Some (False, fn1)
     | (Some A, fn1) \<Rightarrow> mir_emit_divmod_reg ok dst A C uns md fn1)"

section \<open>The constant pool\<close>

definition pool_ok :: "MirFunction \<Rightarrow> mach \<Rightarrow> bool" where
  "pool_ok fn m \<longleftrightarrow> (\<forall>c\<in>set (fn_iconsts fn). m_vreg m (ic_vreg c) = ic_value c)"

lemma mir_iconst_lookup_cases:
  "mir_iconst_lookup cs v = MIR_VREG_NONE \<or>
   (\<exists>c\<in>set cs. ic_value c = v \<and> ic_vreg c = mir_iconst_lookup cs v)"
  by (induction cs) auto

lemma pool_read: "pool_ok fn m \<Longrightarrow> mir_read m (mir_iconst_operand fn v) = v"
  using mir_iconst_lookup_cases [of "fn_iconsts fn" v]
  by (auto simp: pool_ok_def mir_iconst_operand_def mir_op_vreg_def mir_op_imm_def Let_def)

lemma emits_emit1_pool [emits_rules]:
  "emits ok fn0 l (\<lambda>f. mir_emit1 ok op dst a (mir_iconst_operand f M) 8 u 0 f)
     [mk_inst op dst a (mir_iconst_operand fn0 M) u] l"
proof -
  have "like fn0 l fn \<Longrightarrow> mir_iconst_operand fn M = mir_iconst_operand fn0 M" for fn
    by (auto simp: like_def grown_def mir_iconst_operand_def)
  then show ?thesis by (auto simp: emits_def outcome_emit1)
qed

section \<open>What the emitted code computes\<close>

text \<open>
  \<open>computes ok f fn l q a g\<close>: on a function grown from \<open>fn\<close> with \<open>l\<close> registers, \<open>f\<close> appends code that
  leaves \<open>g\<close> of register \<open>a\<close> in register \<open>q\<close> and changes no other register that existed before, and no
  other place.
\<close>

definition code_computes :: "MirFunction \<Rightarrow> nat \<Rightarrow> MirInst list \<Rightarrow> MirVregId \<Rightarrow> MirVregId \<Rightarrow> (u64 \<Rightarrow> u64) \<Rightarrow> bool" where
  "code_computes fn l is q a g \<longleftrightarrow>
     (\<forall>m. pool_ok fn m \<longrightarrow> (\<exists>m'. mir_exec is m = Some m' \<and> m_vreg m' q = g (m_vreg m a) \<and>
        (\<forall>v<int l. v \<noteq> q \<longrightarrow> m_vreg m' v = m_vreg m v) \<and> m_place m' = m_place m))"

definition computes ::
  "(nat \<Rightarrow> bool) \<Rightarrow> (MirFunction \<Rightarrow> bool \<times> MirFunction) \<Rightarrow> MirFunction \<Rightarrow> nat \<Rightarrow> MirVregId \<Rightarrow> MirVregId \<Rightarrow>
   (u64 \<Rightarrow> u64) \<Rightarrow> bool" where
  "computes ok f fn l q a g \<longleftrightarrow>
     (\<exists>is l'. l' \<le> l + 2 \<and> emits ok fn l f is l' \<and> code_computes fn l is q a g)"

lemmas inst_simps = mir_exec1_def mk_inst_def mir_alu_def mir_op_vreg_def mir_op_imm_def mir_op_none_def

lemma computesI:
  "emits ok fn l f is l' \<Longrightarrow> l' \<le> l + 2 \<Longrightarrow> code_computes fn l is q a g \<Longrightarrow> computes ok f fn l q a g"
  unfolding computes_def by blast

lemma shr_computes:
  assumes "k < 64"
  shows "computes ok (mir_emit1 ok MIR_SHR (mir_op_vreg q) (mir_op_vreg a) (mir_op_imm (of_nat k)) 8 True 0)
           fn l q a (\<lambda>x. drop_bit k x)"
proof -
  have "code_computes fn l [mk_inst MIR_SHR (mir_op_vreg q) (mir_op_vreg a) (mir_op_imm (of_nat k)) True] q a (drop_bit k)"
    using assms by (simp add: code_computes_def inst_simps unat_of_nat)
  then show ?thesis by (rule computesI [OF emits_emit1 le_add1])
qed

lemma magic_unsigned_computes:
  assumes len: "l + 2 \<le> 2 ^ 31" and a: "0 \<le> a" "a < int l" "0 \<le> q" "q < int l" "a \<noteq> q"
    and d: "1 < unat d"
  shows "computes ok (mir_emit_magic_quotient_unsigned ok (mir_op_vreg q) (mir_op_vreg a) d) fn l q a (\<lambda>x. x div d)"
proof -
  obtain M s add where eq: "cg_magic_u64 d = (M, s, add)" by (cases "cg_magic_u64 d")
  note mq = magic_quotient_u64_correct [OF d eq]
  define A Q T D where "A = mir_op_vreg a" and "Q = mir_op_vreg q" and "T = mir_op_vreg (int l)"
    and "D = mir_op_vreg (int (Suc l))"
  let ?is = "[mk_inst MIR_MULHI T A (mir_iconst_operand fn M) True] @
    (if \<not> add then [mk_inst MIR_SHR Q T (mir_op_imm (of_nat s)) True]
     else [mk_inst MIR_SUB D A T False] @ [mk_inst MIR_SHR D D (mir_op_imm 1) True] @
          [mk_inst MIR_ADD D D T False] @ [mk_inst MIR_SHR Q D (mir_op_imm (of_nat s - 1)) True])"
  have e: "emits ok fn l (mir_emit_magic_quotient_unsigned ok Q A d) ?is (if \<not> add then Suc l else Suc (Suc l))"
    unfolding mir_emit_magic_quotient_unsigned_def eq prod.case T_def D_def
    by (rule emits_rules | use len in simp)+
  have s: "add \<Longrightarrow> unat (of_nat s - 1 :: u64) = s - 1"
    using mq(3) by (simp add: unat_sub word_le_nat_alt unat_of_nat)
  have "code_computes fn l ?is q a (\<lambda>x. magic_quotient_u64 x M s add)"
    unfolding code_computes_def
  proof (intro allI impI)
    fix m assume "pool_ok fn m"
    note pr = pool_read [OF this]
    show "\<exists>m'. mir_exec ?is m = Some m' \<and> m_vreg m' q = magic_quotient_u64 (m_vreg m a) M s add \<and>
        (\<forall>v<int l. v \<noteq> q \<longrightarrow> m_vreg m' v = m_vreg m v) \<and> m_place m' = m_place m"
    proof (cases add)
      case True
      then have "s - 1 < 64" using mq(3) by linarith
      then have "(s - 1) mod 64 = s - 1" by (rule mod_less)
      then show ?thesis using True a by (simp add: inst_simps pr s magic_quotient_u64_def Let_def
          A_def Q_def T_def D_def)
    next
      case False
      then have "unat (of_nat s :: u64) mod 64 = s" using mq(2) by (simp add: unat_of_nat)
      then show ?thesis using False a by (simp add: inst_simps pr magic_quotient_u64_def Let_def
          A_def Q_def T_def D_def)
    qed
  qed
  from computesI [OF e _ this] show ?thesis by (simp add: A_def Q_def mq(1))
qed

lemma mir_new_vreg_keeps_error:
  "mir_new_vreg ok c w fn = (v, fn') \<Longrightarrow> fn_has_error fn \<Longrightarrow> fn_has_error fn'"
  by (auto simp: mir_new_vreg_def Let_def split: if_splits)

lemma emits_two_vregs:
  assumes len: "l + 2 \<le> 2 ^ 31" and k: "emits ok fn0 (Suc (Suc l)) (k (int l) (int (Suc l))) is l'"
  shows "emits ok fn0 l (\<lambda>fn. case mir_new_vreg ok MIR_RC_GP 8 fn of (t1, fn1) \<Rightarrow>
     case mir_new_vreg ok MIR_RC_GP 8 fn1 of (t2, fn2) \<Rightarrow>
       if t1 = MIR_VREG_NONE \<or> t2 = MIR_VREG_NONE then (False, fn2) else k t1 t2 fn2) is l'"
    (is "emits _ _ _ ?f _ _")
  unfolding emits_def
proof (intro conjI allI impI)
  show "l \<le> l'" using k by (simp add: emits_def)
  fix fn assume fn: "like fn0 l fn"
  then have l: "length (fn_vregs fn) = l" by (simp add: like_def)
  show "outcome ok fn is (l' - l) (?f fn)"
  proof (cases "\<exists>fn1. mir_new_vreg ok MIR_RC_GP 8 fn = (int l, fn1) \<and> grown fn [] 1 fn1")
    case True
    then obtain fn1 where one: "mir_new_vreg ok MIR_RC_GP 8 fn = (int l, fn1)" "grown fn [] 1 fn1" by blast
    have "emits ok fn0 (Suc l) (with_vreg ok (k (int l))) is l'"
      by (rule emits_with_vreg) (use len k in simp_all)
    then have "outcome ok fn1 is (l' - Suc l) (with_vreg ok (k (int l)) fn1)"
      using like_grown [OF fn one(2)] by (simp add: emits_def)
    moreover have "?f fn = with_vreg ok (k (int l)) fn1" using one(1) by (simp add: with_vreg_def MIR_VREG_NONE_def)
    moreover have "Suc (l' - Suc l) = l' - l" using k unfolding emits_def by linarith
    ultimately show ?thesis
      using outcome_later [of fn "[]" 1 fn1 ok "is" "l' - Suc l"] one(2) by simp
  next
    case False
    then obtain fn1 where one: "mir_new_vreg ok MIR_RC_GP 8 fn = (MIR_VREG_NONE, fn1)" "fn_has_error fn1"
      "\<not> ok (fn_allocs fn)"
      using mir_new_vreg_cases [of fn ok] l len by auto
    then show ?thesis
      by (auto simp: outcome_def split: prod.split intro: mir_new_vreg_keeps_error)
  qed
qed

lemma pow2_signed_computes:
  assumes len: "l + 2 \<le> 2 ^ 31" and a: "0 \<le> a" "a < int l" "0 \<le> q" "q < int l" "a \<noteq> q"
    and k: "1 \<le> k" "k \<le> 63" and C: "sint C = 2 ^ k \<or> sint C = - (2 ^ k)"
  shows "computes ok (mir_emit_pow2_quotient_signed ok (mir_op_vreg q) (mir_op_vreg a) k C) fn l q a
           (\<lambda>x. word_of_int (sint x sdiv sint C))"
proof -
  define A Q T1 T2 where "A = mir_op_vreg a" and "Q = mir_op_vreg q" and "T1 = mir_op_vreg (int l)"
    and "T2 = mir_op_vreg (int (Suc l))"
  let ?is = "(if k = 1 then [mk_inst MIR_SHR T2 A (mir_op_imm 63) True]
       else [mk_inst MIR_SAR T1 A (mir_op_imm 63) False] @ [mk_inst MIR_SHR T2 T1 (mir_op_imm (64 - of_nat k)) True]) @
     ([mk_inst MIR_ADD Q A T2 False] @ [mk_inst MIR_SAR Q Q (mir_op_imm (of_nat k)) False]) @
     (if 0 \<le> sint C then [] else [mk_inst MIR_NEG Q Q mir_op_none False])"
  have e: "emits ok fn l (mir_emit_pow2_quotient_signed ok Q A k C) ?is
             (if 0 \<le> sint C then Suc (Suc l) else Suc (Suc l))"
    unfolding mir_emit_pow2_quotient_signed_def T1_def T2_def
    by (rule emits_two_vregs)
       (use len in simp, (rule emits_rules | simp)+)
  have kk: "unat (of_nat k :: u64) mod 64 = k" using k by (simp add: unat_of_nat)
  have k64: "unat (64 - of_nat k :: u64) mod 64 = 64 - k"
    using k by (simp add: unat_sub word_le_nat_alt unat_of_nat)
  have sg: "(if 0 \<le> sint C then word_of_int (y sdiv 2 ^ k) else - word_of_int (y sdiv 2 ^ k)) = (word_of_int (y sdiv sint C) :: u64)" for y
    using C by (auto simp: sdiv_minus)
  have "code_computes fn l ?is q a (\<lambda>x. word_of_int (sint x sdiv sint C))"
    unfolding code_computes_def sg [symmetric] pow2_quotient [OF k, symmetric] pow2_bias_def
    using a k64 kk by (simp add: inst_simps A_def Q_def T1_def T2_def)
  from computesI [OF e _ this] show ?thesis by (simp add: A_def Q_def)
qed

lemma magic_signed_computes:
  assumes len: "l + 2 \<le> 2 ^ 31" and a: "0 \<le> a" "a < int l" "0 \<le> q" "q < int l" "a \<noteq> q"
    and np: "\<And>k. nat \<bar>sint C\<bar> \<noteq> 2 ^ k" and C: "2 \<le> \<bar>sint C\<bar>"
  shows "\<exists>f. (\<forall>fn'. mir_emit_magic_quotient_signed ok (mir_op_vreg q) (mir_op_vreg a) C fn' = Some (f fn')) \<and>
             computes ok f fn l q a (\<lambda>x. word_of_int (sint x sdiv sint C))"
proof -
  obtain M s where eq: "cg_magic_s64 C = Some (M, s)" and s: "s < 64"
    and mq: "\<And>x. magic_quotient_s64 x M s C = word_of_int (sint x sdiv sint C)"
    using magic_quotient_s64_correct [OF np C] by blast
  define A Q T where "A = mir_op_vreg a" and "Q = mir_op_vreg q" and "T = mir_op_vreg (int l)"
  define f where "f = (
        and_then (\<lambda>f. mir_emit1 ok MIR_MULHI Q A (mir_iconst_operand f M) 8 False 0 f)
        (and_then
          (if 0 < sint C \<and> sint M < 0 then mir_emit1 ok MIR_ADD Q Q A 8 False 0
           else if sint C < 0 \<and> 0 < sint M then mir_emit1 ok MIR_SUB Q Q A 8 False 0
           else (\<lambda>f. (True, f)))
        (and_then
          (if 0 < s then mir_emit1 ok MIR_SAR Q Q (mir_op_imm (of_nat s)) 8 False 0
           else (\<lambda>f. (True, f)))
        (with_vreg ok (\<lambda>sb.
          and_then (mir_emit1 ok MIR_SHR (mir_op_vreg sb) Q (mir_op_imm 63) 8 True 0)
                   (mir_emit1 ok MIR_ADD Q Q (mir_op_vreg sb) 8 False 0))))))"
  let ?fix = "if 0 < sint C \<and> sint M < 0 then [mk_inst MIR_ADD Q Q A False]
           else if sint C < 0 \<and> 0 < sint M then [mk_inst MIR_SUB Q Q A False] else []"
  let ?is = "[mk_inst MIR_MULHI Q A (mir_iconst_operand fn M) False] @ ?fix @
     (if 0 < s then [mk_inst MIR_SAR Q Q (mir_op_imm (of_nat s)) False] else []) @
     [mk_inst MIR_SHR T Q (mir_op_imm 63) True] @ [mk_inst MIR_ADD Q Q T False]"
  have e: "emits ok fn l f ?is (Suc l)"
  proof -
    have "emits ok fn l (if 0 < sint C \<and> sint M < 0 then mir_emit1 ok MIR_ADD Q Q A 8 False 0
           else if sint C < 0 \<and> 0 < sint M then mir_emit1 ok MIR_SUB Q Q A 8 False 0
           else (\<lambda>f. (True, f))) ?fix l" by (simp add: emits_rules)
    moreover have "emits ok fn l (if 0 < s then mir_emit1 ok MIR_SAR Q Q (mir_op_imm (of_nat s)) 8 False 0
           else (\<lambda>f. (True, f))) (if 0 < s then [mk_inst MIR_SAR Q Q (mir_op_imm (of_nat s)) False] else []) l"
      by (simp add: emits_rules)
    ultimately show ?thesis unfolding f_def T_def
      by - (rule emits_and_then [OF emits_emit1_pool], rule emits_and_then, assumption,
            rule emits_and_then, assumption, (rule emits_rules | use len in simp)+)
  qed
  have sm: "unat (of_nat s :: u64) mod 64 = s" using s by (simp add: unat_of_nat)
  have "code_computes fn l ?is q a (\<lambda>x. magic_quotient_s64 x M s C)"
    unfolding code_computes_def
  proof (intro allI impI)
    fix m assume "pool_ok fn m"
    note pr = pool_read [OF this]
    show "\<exists>m'. mir_exec ?is m = Some m' \<and> m_vreg m' q = magic_quotient_s64 (m_vreg m a) M s C \<and>
        (\<forall>v<int l. v \<noteq> q \<longrightarrow> m_vreg m' v = m_vreg m v) \<and> m_place m' = m_place m"
      using a sm by (simp add: inst_simps pr magic_quotient_s64_def Let_def A_def Q_def T_def)
  qed
  from computesI [OF e _ this] have "computes ok f fn l q a (\<lambda>x. word_of_int (sint x sdiv sint C))"
    by (simp add: mq)
  then show ?thesis unfolding mir_emit_magic_quotient_signed_def eq f_def A_def Q_def by auto
qed

text \<open>The quotient C defines: of the unsigned words, or of the signed ones truncated towards zero.\<close>

definition c_quotient :: "bool \<Rightarrow> u64 \<Rightarrow> u64 \<Rightarrow> u64" where
  "c_quotient uns x c = (if uns then x div c else word_of_int (sint x sdiv sint c))"

definition c_remainder :: "bool \<Rightarrow> u64 \<Rightarrow> u64 \<Rightarrow> u64" where
  "c_remainder uns x c = (if uns then x mod c else word_of_int (sint x smod sint c))"

lemma c_remainder_eq: "x - c_quotient uns x c * c = c_remainder uns x c"
proof (cases uns)
  case True then show ?thesis by (simp add: c_quotient_def c_remainder_def minus_div_mult_eq_mod)
next
  case False
  have "word_of_int (sint x smod sint c) = (word_of_int (sint x - sint x sdiv sint c * sint c) :: u64)"
    by (simp only: minus_sdiv_mult_eq_smod)
  then show ?thesis using False by (simp add: c_quotient_def c_remainder_def)
qed

lemma mir_divmod_shift_loop_pow2: "unat t = 2 ^ j \<Longrightarrow> mir_divmod_shift_loop t k = k + j"
proof (induction j arbitrary: t k)
  case 0
  then have "\<not> 1 < t" by (simp add: word_less_nat_alt)
  then show ?case by (subst mir_divmod_shift_loop.simps) simp
next
  case (Suc j)
  have "(1::nat) < 2 ^ Suc j" by (rule one_less_power) simp_all
  then have "1 < t" using Suc.prems by (simp add: word_less_nat_alt)
  moreover have "unat (drop_bit 1 t) = 2 ^ j" using Suc.prems by (simp only: unat_drop_bit_word) simp
  ultimately show ?case using Suc.IH by (subst mir_divmod_shift_loop.simps) simp
qed

lemma mir_divmod_shift_for_pow2: "unat t = 2 ^ j \<Longrightarrow> mir_divmod_shift_for t = j"
  by (simp add: mir_divmod_shift_for_def mir_divmod_shift_loop_pow2)

lemma quotient_computes_unsigned:
  assumes len: "l + 2 \<le> 2 ^ 31" and a: "0 \<le> a" "a < int l" "0 \<le> q" "q < int l" "a \<noteq> q"
    and C: "C \<noteq> 0" "C \<noteq> 1"
  shows "\<exists>f. (\<forall>fn'. mir_emit_quotient ok (mir_op_vreg q) (mir_op_vreg a) C True fn' = Some (f fn')) \<and>
             computes ok f fn l q a (\<lambda>x. c_quotient True x C)"
proof (cases "C AND (C - 1) = 0")
  case True
  then obtain k where k: "k < 64" "unat C = 2 ^ k" using u64_pow2_test [OF C(1)] by blast
  have "drop_bit k x = x div C" for x :: u64
    by (simp add: word_unat_eq_iff unat_drop_bit_word unat_div k(2))
  then have "computes ok (mir_emit1 ok MIR_SHR (mir_op_vreg q) (mir_op_vreg a) (mir_op_imm (of_nat k)) 8 True 0)
       fn l q a (\<lambda>x. c_quotient True x C)"
    using shr_computes [OF k(1), of ok q a fn l] by (simp add: c_quotient_def)
  then show ?thesis
    using True mir_divmod_shift_for_pow2 [OF k(2)] by (auto simp: mir_emit_quotient_def Let_def)
next
  case False
  have "unat C \<noteq> 0" "unat C \<noteq> 1" using C word_of_unat [of C 0] word_of_unat [of C 1] by auto
  then have "1 < unat C" by simp
  from magic_unsigned_computes [OF len a this] show ?thesis
    using False by (auto simp: mir_emit_quotient_def Let_def c_quotient_def)
qed

lemma quotient_computes_signed:
  assumes len: "l + 2 \<le> 2 ^ 31" and a: "0 \<le> a" "a < int l" "0 \<le> q" "q < int l" "a \<noteq> q"
    and C: "C \<noteq> 0" "C \<noteq> 1" "C \<noteq> -1"
  shows "\<exists>f. (\<forall>fn'. mir_emit_quotient ok (mir_op_vreg q) (mir_op_vreg a) C False fn' = Some (f fn')) \<and>
             computes ok f fn l q a (\<lambda>x. c_quotient False x C)"
proof -
  define ad where "ad = (if sint C < 0 then - C else C)"
  have neq: "sint C \<noteq> 0" "sint C \<noteq> 1" "sint C \<noteq> -1" using C word_of_sint [of C 0] word_of_sint [of C 1] word_of_sint [of C "-1"] by auto
  then have C2: "2 \<le> \<bar>sint C\<bar>" by arith
  have ad: "int (unat ad) = \<bar>sint C\<bar>" unfolding ad_def by (rule s64_setup(1) [OF C2])
  have ad0: "ad \<noteq> 0" using ad C2 by auto
  show ?thesis
  proof (cases "ad AND (ad - 1) = 0")
    case True
    then obtain k where k: "k < 64" "unat ad = 2 ^ k" using u64_pow2_test [OF ad0] by blast
    have abs: "\<bar>sint C\<bar> = 2 ^ k" using ad k by simp
    then have s: "sint C = 2 ^ k \<or> sint C = - (2 ^ k)" by arith
    have k1: "1 \<le> k" using abs C2 by (cases k) simp_all
    from pow2_signed_computes [OF len a k1 _ s] k show ?thesis
      using True mir_divmod_shift_for_pow2 [OF k(2)]
      by (auto simp: mir_emit_quotient_def Let_def c_quotient_def ad_def)
  next
    case False
    have "nat \<bar>sint C\<bar> \<noteq> 2 ^ k" for k
    proof
      assume "nat \<bar>sint C\<bar> = 2 ^ k"
      then have "unat ad = 2 ^ k" by (simp only: ad [symmetric] nat_int)
      then show False using False u64_pow2_test [OF ad0] u64_pow2_exponent by blast
    qed
    from magic_signed_computes [OF len a this C2] False show ?thesis
      by (auto simp: mir_emit_quotient_def Let_def c_quotient_def ad_def)
  qed
qed

text \<open>The quotient as a total emitting step, where it is defined.\<close>

definition quot :: "(nat \<Rightarrow> bool) \<Rightarrow> MirVregId \<Rightarrow> MirVregId \<Rightarrow> i64 \<Rightarrow> bool \<Rightarrow> MirFunction \<Rightarrow> bool \<times> MirFunction" where
  "quot ok q a C uns fn = the (mir_emit_quotient ok (mir_op_vreg q) (mir_op_vreg a) C uns fn)"

lemma quotient_computes:
  assumes "l + 2 \<le> 2 ^ 31" and "0 \<le> a" "a < int l" "0 \<le> q" "q < int l" "a \<noteq> q"
    and "C \<noteq> 0" "C \<noteq> 1" "\<not> (\<not> uns \<and> C = -1)"
  shows "mir_emit_quotient ok (mir_op_vreg q) (mir_op_vreg a) C uns fn' = Some (quot ok q a C uns fn')"
    and "computes ok (quot ok q a C uns) fn l q a (\<lambda>x. c_quotient uns x C)"
proof -
  obtain f where f: "\<And>fn'. mir_emit_quotient ok (mir_op_vreg q) (mir_op_vreg a) C uns fn' = Some (f fn')"
    "computes ok f fn l q a (\<lambda>x. c_quotient uns x C)"
    using quotient_computes_unsigned [OF assms(1-8)] quotient_computes_signed [OF assms(1-8)] assms(9)
    by (cases uns) (metis (full_types))+
  moreover have "quot ok q a C uns = f" by (simp add: fun_eq_iff quot_def f(1))
  ultimately show "mir_emit_quotient ok (mir_op_vreg q) (mir_op_vreg a) C uns fn' = Some (quot ok q a C uns fn')"
    "computes ok (quot ok q a C uns) fn l q a (\<lambda>x. c_quotient uns x C)" by simp_all
qed

definition keeps :: "nat \<Rightarrow> MirOperand \<Rightarrow> mach \<Rightarrow> mach \<Rightarrow> bool" where
  "keeps l dst m m' \<longleftrightarrow> (\<forall>v<int l. MIR_OPK_VREG v \<noteq> dst \<longrightarrow> m_vreg m' v = m_vreg m v) \<and>
     (\<forall>p. p \<noteq> dst \<longrightarrow> m_place m' p = m_place m p)"

definition code_delivers ::
  "MirFunction \<Rightarrow> nat \<Rightarrow> MirInst list \<Rightarrow> MirOperand \<Rightarrow> MirOperand \<Rightarrow> (u64 \<Rightarrow> u64) \<Rightarrow> bool" where
  "code_delivers fn l is dst src g \<longleftrightarrow>
     (\<forall>m. pool_ok fn m \<longrightarrow> (\<exists>m'. mir_exec is m = Some m' \<and> mir_read m' dst = g (mir_read m src) \<and>
        keeps l dst m m'))"

definition delivers ::
  "(nat \<Rightarrow> bool) \<Rightarrow> (MirFunction \<Rightarrow> bool \<times> MirFunction) \<Rightarrow> MirFunction \<Rightarrow> nat \<Rightarrow> MirOperand \<Rightarrow> MirOperand \<Rightarrow>
   (u64 \<Rightarrow> u64) \<Rightarrow> bool" where
  "delivers ok f fn l dst src g \<longleftrightarrow>
     (\<exists>is l'. emits ok fn l f is l' \<and> code_delivers fn l is dst src g)"

definition target_ok :: "nat \<Rightarrow> MirOperand \<Rightarrow> bool" where
  "target_ok l dst \<longleftrightarrow> is_place dst \<and> (\<forall>d. dst = MIR_OPK_VREG d \<longrightarrow> 0 \<le> d \<and> d < int l)"

lemma emits_like_cong:
  "emits ok fn l f is l' \<Longrightarrow> (\<And>fn'. like fn l fn' \<Longrightarrow> g fn' = f fn') \<Longrightarrow> emits ok fn l g is l'"
  by (simp add: emits_def)

lemma one_delivers:
  assumes "is_place dst" and "\<And>m. mir_alu op u (mir_read m a) (mir_read m b) = Some (g (mir_read m src))"
  shows "delivers ok (mir_emit1 ok op dst a b 8 u 0) fn l dst src g"
proof -
  have "keeps l dst m (mir_write m dst x)" for m x
    by (cases dst) (auto simp: keeps_def)
  then have "code_delivers fn l [mk_inst op dst a b u] dst src g"
    using assms by (simp add: code_delivers_def mir_exec1_def mk_inst_def)
  then show ?thesis unfolding delivers_def using emits_emit1 by blast
qed

lemma computes_delivers:
  "computes ok f fn l q a g \<Longrightarrow> delivers ok f fn l (mir_op_vreg q) (mir_op_vreg a) g"
  unfolding computes_def delivers_def code_computes_def code_delivers_def
  by (fastforce simp: mir_op_vreg_def keeps_def)

text \<open>Code appended to a computation into a temporary reads the temporary and the dividend.\<close>

lemma temp_delivers:
  assumes len: "l < 2 ^ 31" and a: "0 \<le> a" "a < int l" and dst: "target_ok l dst"
    and c: "computes ok (k (int l)) fn (Suc l) (int l) a g"
    and h: "\<And>l1. l < l1 \<Longrightarrow> l1 \<le> Suc (Suc (Suc l)) \<Longrightarrow> \<exists>is l2. emits ok fn l1 (h (int l)) is l2 \<and>
       (\<forall>m. \<exists>m'. mir_exec is m = Some m' \<and> mir_read m' dst = g' (m_vreg m a) (m_vreg m (int l)) \<and> keeps l dst m m')"
  shows "delivers ok (with_vreg ok (\<lambda>qv. and_then (k qv) (h qv))) fn l dst (mir_op_vreg a) (\<lambda>x. g' x (g x))"
proof -
  obtain is1 l1 where e1: "l1 \<le> Suc (Suc (Suc l))" "emits ok fn (Suc l) (k (int l)) is1 l1"
    and c1: "code_computes fn (Suc l) is1 (int l) a g" using c by (auto simp: computes_def)
  obtain is2 l2 where e2: "emits ok fn l1 (h (int l)) is2 l2"
    and c2: "\<And>m. \<exists>m'. mir_exec is2 m = Some m' \<and> mir_read m' dst = g' (m_vreg m a) (m_vreg m (int l)) \<and> keeps l dst m m'"
    using h [of l1] e1 by (auto simp: emits_def Suc_le_eq)
  have e: "emits ok fn l (with_vreg ok (\<lambda>qv. and_then (k qv) (h qv))) (is1 @ is2) l2"
    by (rule emits_with_vreg [OF len], rule emits_and_then [OF e1(2) e2])
  have "code_delivers fn l (is1 @ is2) dst (mir_op_vreg a) (\<lambda>x. g' x (g x))"
    unfolding code_delivers_def
  proof (intro allI impI)
    fix m assume "pool_ok fn m"
    then obtain m1 where m1: "mir_exec is1 m = Some m1" "m_vreg m1 (int l) = g (m_vreg m a)"
      "\<And>v. v < int l \<Longrightarrow> m_vreg m1 v = m_vreg m v" "m_place m1 = m_place m"
      using c1 by (fastforce simp: code_computes_def)
    obtain m2 where m2: "mir_exec is2 m1 = Some m2" "mir_read m2 dst = g' (m_vreg m1 a) (m_vreg m1 (int l))" "keeps l dst m1 m2"
      using c2 [of m1] by blast
    show "\<exists>m'. mir_exec (is1 @ is2) m = Some m' \<and> mir_read m' dst = g' (mir_read m (mir_op_vreg a)) (g (mir_read m (mir_op_vreg a))) \<and> keeps l dst m m'"
      using m1 m2 a by (simp add: mir_exec_append keeps_def mir_op_vreg_def)
  qed
  then show ?thesis unfolding delivers_def using e by blast
qed

lemma remainder_tail:
  assumes len: "l1 + 2 \<le> 2 ^ 31" and a: "0 \<le> a" "a < int l" and l: "l < l1" and dst: "target_ok l dst"
  shows "\<exists>is l2. emits ok fn l1 (mir_emit_remainder ok dst (mir_op_vreg a) (mir_op_vreg (int l)) C) is l2 \<and>
       (\<forall>m. \<exists>m'. mir_exec is m = Some m' \<and> mir_read m' dst = m_vreg m a - m_vreg m (int l) * C \<and> keeps l dst m m')"
proof -
  let ?small = "- (2 ^ 31) \<le> sint C \<and> sint C \<le> 2 ^ 31 - 1"
  define A Q T1 T2 where "A = mir_op_vreg a" and "Q = mir_op_vreg (int l)" and "T1 = mir_op_vreg (int l1)"
    and "T2 = mir_op_vreg (int (Suc l1))"
  let ?is = "(if ?small then [mk_inst MIR_IMUL T1 Q (mir_op_imm C) False]
      else [mk_inst MIR_MOV T2 (mir_op_imm C) mir_op_none False] @ [mk_inst MIR_IMUL T1 Q T2 False]) @
     [mk_inst MIR_SUB dst A T1 False]"
  have e: "emits ok fn l1 (mir_emit_remainder ok dst A Q C) ?is (if ?small then Suc l1 else Suc (Suc l1))"
  proof (cases ?small)
    case True
    show ?thesis unfolding mir_emit_remainder_def mir_emit_times_constant_def if_P [OF True] T1_def
      by (rule emits_rules | use len in simp)+
  next
    case False
    show ?thesis unfolding mir_emit_remainder_def mir_emit_times_constant_def if_not_P [OF False] T1_def T2_def
      by (rule emits_rules | use len in simp)+
  qed
  have "\<exists>m'. mir_exec ?is m = Some m' \<and> mir_read m' dst = m_vreg m a - m_vreg m (int l) * C \<and> keeps l dst m m'" for m
    using a l dst
    by (cases ?small; cases dst)
       (auto simp: inst_simps A_def Q_def T1_def T2_def keeps_def target_ok_def)
  then show ?thesis using e unfolding A_def Q_def by blast
qed

text \<open>The three ways the code goes on once the dividend is in register \<open>a\<close>.\<close>

lemma divmod_unit_delivers:
  assumes dst: "is_place dst" and C: "C = 1 \<or> (\<not> uns \<and> C = -1)"
  shows "\<exists>f. (\<forall>fn'. mir_emit_divmod_reg ok dst A C uns md fn' = Some (f fn')) \<and>
    delivers ok f fn l dst A (\<lambda>x. if md then c_remainder uns x C else c_quotient uns x C)"
proof -
  have z: "c_remainder uns x 1 = 0" "c_quotient uns x 1 = x"
    "c_remainder False x (-1) = 0" "c_quotient False x (-1) = - x" for x
    by (simp_all add: c_remainder_def c_quotient_def signed_modulo_int_def)
  let ?f = "if md then mir_emit1 ok MIR_MOV dst (mir_op_imm 0) mir_op_none 8 False 0
            else if C = 1 then mir_emit1 ok MIR_MOV dst A mir_op_none 8 False 0
            else mir_emit1 ok MIR_NEG dst A mir_op_none 8 False 0"
  have "mir_emit_divmod_reg ok dst A C uns md fn' = Some (?f fn')" for fn'
    using C by (auto simp: mir_emit_divmod_reg_def)
  moreover have "delivers ok ?f fn l dst A (\<lambda>x. if md then c_remainder uns x C else c_quotient uns x C)"
    using C by (auto intro!: one_delivers [OF dst] simp: z mir_alu_def mir_op_imm_def)
  ultimately show ?thesis by blast
qed

lemma divmod_in_dst_delivers:
  assumes len: "l + 2 \<le> 2 ^ 31" and a: "0 \<le> a" "a < int l" and dst: "target_ok l dst"
    and C: "C \<noteq> 0" "C \<noteq> 1" "\<not> (\<not> uns \<and> C = -1)" and q: "q_in_dst dst (mir_op_vreg a) md"
  shows "\<exists>f. (\<forall>fn'. mir_emit_divmod_reg ok dst (mir_op_vreg a) C uns md fn' = Some (f fn')) \<and>
    delivers ok f fn l dst (mir_op_vreg a) (\<lambda>x. if md then c_remainder uns x C else c_quotient uns x C)"
proof -
  obtain d where d: "dst = mir_op_vreg d" "a \<noteq> d" and md: "\<not> md"
    using q by (auto simp: q_in_dst_def mir_op_vreg_def split: MirOperand.splits)
  have d': "0 \<le> d" "d < int l" using dst d by (simp_all add: target_ok_def mir_op_vreg_def)
  note qc = quotient_computes [OF len a d' d(2) C]
  have "mir_emit_divmod_reg ok dst (mir_op_vreg a) C uns md fn' = Some (quot ok d a C uns fn')" for fn'
    using C q md d d' qc(1) [of ok fn']
    by (auto simp: mir_emit_divmod_reg_def mir_op_vreg_def MIR_VREG_NONE_def split: prod.split)
  moreover have "delivers ok (quot ok d a C uns) fn l dst (mir_op_vreg a) (\<lambda>x. c_quotient uns x C)"
    unfolding d(1) by (rule computes_delivers [OF qc(2)])
  ultimately show ?thesis using md by auto
qed

lemma divmod_temp_delivers:
  assumes len: "l + 5 \<le> 2 ^ 31" and a: "0 \<le> a" "a < int l" and dst: "target_ok l dst"
    and C: "C \<noteq> 0" "C \<noteq> 1" "\<not> (\<not> uns \<and> C = -1)" and q: "\<not> q_in_dst dst (mir_op_vreg a) md"
  shows "\<exists>f. (\<forall>fn'. like fn l fn' \<longrightarrow> mir_emit_divmod_reg ok dst (mir_op_vreg a) C uns md fn' = Some (f fn')) \<and>
    delivers ok f fn l dst (mir_op_vreg a) (\<lambda>x. if md then c_remainder uns x C else c_quotient uns x C)"
proof -
  let ?h = "\<lambda>qv. if md then mir_emit_remainder ok dst (mir_op_vreg a) (mir_op_vreg qv) C
                 else mir_emit1 ok MIR_MOV dst (mir_op_vreg qv) mir_op_none 8 False 0"
  let ?f = "with_vreg ok (\<lambda>qv. and_then (quot ok qv a C uns) (?h qv))"
  have qc: "mir_emit_quotient ok (mir_op_vreg (int l)) (mir_op_vreg a) C uns fn' = Some (quot ok (int l) a C uns fn')"
     "computes ok (quot ok (int l) a C uns) fn (Suc l) (int l) a (\<lambda>x. c_quotient uns x C)" for fn'
    using quotient_computes [of "Suc l" a "int l" C uns ok] a len C by simp_all
  have "mir_emit_divmod_reg ok dst (mir_op_vreg a) C uns md fn' = Some (?f fn')" if "like fn l fn'" for fn'
  proof -
    have lf: "length (fn_vregs fn') = l" using that by (simp add: like_def)
    have "length (fn_vregs fn') < 2 ^ 31" using lf len by simp
    then show ?thesis
      by (cases rule: mir_new_vreg_cases [of fn' ok])
         (use C q qc(1) lf in \<open>auto simp: mir_emit_divmod_reg_def with_vreg_def and_then_def
             MIR_VREG_NONE_def split: prod.split\<close>)
  qed
  moreover have "delivers ok ?f fn l dst (mir_op_vreg a)
      (\<lambda>x. (\<lambda>x y. if md then x - y * C else y) x (c_quotient uns x C))"
  proof (rule temp_delivers [where k = "\<lambda>qv. quot ok qv a C uns" and h = ?h
        and g' = "\<lambda>x y. if md then x - y * C else y", OF _ a dst qc(2)])
    fix l1 assume l1: "l < l1" "l1 \<le> Suc (Suc (Suc l))"
    have mv: "\<exists>m'. mir_exec [mk_inst MIR_MOV dst (mir_op_vreg (int l)) mir_op_none False] m = Some m' \<and>
       mir_read m' dst = m_vreg m (int l) \<and> keeps l dst m m'" for m
      using dst by (cases dst) (simp_all add: inst_simps target_ok_def keeps_def)
    show "\<exists>is l2. emits ok fn l1 (?h (int l)) is l2 \<and> (\<forall>m. \<exists>m'. mir_exec is m = Some m' \<and>
        mir_read m' dst = (if md then m_vreg m a - m_vreg m (int l) * C else m_vreg m (int l)) \<and> keeps l dst m m')"
    proof (cases md)
      case True
      then show ?thesis using remainder_tail [OF _ a l1(1) dst] l1 len by simp
    next
      case False
      then show ?thesis
        by (intro exI [of _ "[mk_inst MIR_MOV dst (mir_op_vreg (int l)) mir_op_none False]"] exI [of _ l1])
           (simp add: mv emits_emit1 del: mir_exec.simps)
    qed
  qed (use len in simp)
  ultimately show ?thesis unfolding c_remainder_eq by blast
qed

lemma divmod_reg_delivers:
  assumes len: "l + 5 \<le> 2 ^ 31" and a: "0 \<le> a" "a < int l" and dst: "target_ok l dst" and C: "C \<noteq> 0"
  shows "\<exists>f. (\<forall>fn'. like fn l fn' \<longrightarrow> mir_emit_divmod_reg ok dst (mir_op_vreg a) C uns md fn' = Some (f fn')) \<and>
    delivers ok f fn l dst (mir_op_vreg a) (\<lambda>x. if md then c_remainder uns x C else c_quotient uns x C)"
proof -
  consider (unit) "C = 1 \<or> (\<not> uns \<and> C = -1)"
    | (dst) "C \<noteq> 1" "\<not> (\<not> uns \<and> C = -1)" "q_in_dst dst (mir_op_vreg a) md"
    | (temp) "C \<noteq> 1" "\<not> (\<not> uns \<and> C = -1)" "\<not> q_in_dst dst (mir_op_vreg a) md" by blast
  then show ?thesis
  proof cases
    case unit
    then show ?thesis using divmod_unit_delivers [OF _ unit] dst unfolding target_ok_def by blast
  next
    case dst
    then show ?thesis using divmod_in_dst_delivers [OF _ a assms(4) C dst] len by fastforce
  next
    case temp
    then show ?thesis by (rule divmod_temp_delivers [OF len a assms(4) C])
  qed
qed

section \<open>Correctness of the lowering\<close>

text \<open>Registers of the pool exist; the dividend is any operand, a register only if it exists.\<close>

definition pool_wf :: "MirFunction \<Rightarrow> bool" where
  "pool_wf fn \<longleftrightarrow> (\<forall>c\<in>set (fn_iconsts fn). known_vreg fn (ic_vreg c))"

definition source_ok :: "MirFunction \<Rightarrow> MirOperand \<Rightarrow> bool" where
  "source_ok fn a \<longleftrightarrow> (\<forall>v. a = MIR_OPK_VREG v \<longrightarrow> known_vreg fn v)"

lemma value_in_reg_other:
  assumes "\<And>v. a \<noteq> MIR_OPK_VREG v" and "length (fn_vregs fn) < 2 ^ 31"
  shows "mir_divmod_value_in_reg ok a fn =
    (case with_vreg ok (\<lambda>av. mir_emit1 ok MIR_MOV (mir_op_vreg av) a mir_op_none 8 False 0) fn of
       (r, fn') \<Rightarrow> (if r then Some (mir_op_vreg (int (length (fn_vregs fn)))) else None, fn'))"
  using assms(2)
proof (cases rule: mir_new_vreg_cases [of fn ok])
  case (1 fn')
  then show ?thesis using assms(1)
    by (cases a) (auto simp: mir_divmod_value_in_reg_def with_vreg_def MIR_VREG_NONE_def split: prod.split)
next
  case (2 fn')
  then show ?thesis using assms(1)
    by (cases a) (auto simp: mir_divmod_value_in_reg_def with_vreg_def split: prod.split)
qed

lemma const_divmod_emits:
  assumes C: "C \<noteq> 0" and len: "length (fn_vregs fn) + 6 \<le> 2 ^ 31" and pool: "pool_wf fn"
    and a: "source_ok fn a" and dst: "target_ok (length (fn_vregs fn)) dst"
  shows "\<exists>rf is n. mir_emit_const_divmod ok dst a C uns md fn = Some rf \<and> outcome ok fn is n rf \<and>
     code_delivers fn (length (fn_vregs fn)) is dst a
       (\<lambda>x. if md then c_remainder uns x C else c_quotient uns x C)"
proof -
  define l where "l = length (fn_vregs fn)"
  define g where "g = (\<lambda>x. if md then c_remainder uns x C else c_quotient uns x C)"
  have lk: "like fn l fn" unfolding l_def by (rule like_refl)
  show ?thesis
  proof (cases "\<exists>v. a = MIR_OPK_VREG v")
    case True
    then obtain v where v: "a = mir_op_vreg v" by (auto simp: mir_op_vreg_def)
    have kv: "0 \<le> v" "v < int l" using a v by (simp_all add: source_ok_def known_vreg_def mir_op_vreg_def l_def)
    obtain f where f: "mir_emit_divmod_reg ok dst a C uns md fn = Some (f fn)" "delivers ok f fn l dst a g"
      using divmod_reg_delivers [OF _ kv dst [folded l_def] C, of fn ok uns md] len lk unfolding v g_def l_def by auto
    have "mir_emit_const_divmod ok dst a C uns md fn = Some (f fn)"
      using f(1) C v by (simp add: mir_emit_const_divmod_def mir_divmod_value_in_reg_def mir_op_vreg_def)
    moreover obtain "is" l' where "emits ok fn l f is l'" "code_delivers fn l is dst a g"
      using f(2) by (auto simp: delivers_def)
    ultimately show ?thesis using lk unfolding emits_def l_def g_def by blast
  next
    case False
    then have nv: "\<And>v. a \<noteq> MIR_OPK_VREG v" by blast
    let ?mv = "\<lambda>av. mir_emit1 ok MIR_MOV (mir_op_vreg av) a mir_op_none 8 False 0"
    have kv: "0 \<le> int l" "int l < int (Suc l)" by simp_all
    have dst': "target_ok (Suc l) dst" using dst by (auto simp: target_ok_def l_def)
    obtain f where f: "\<And>fn'. like fn (Suc l) fn' \<Longrightarrow>
        mir_emit_divmod_reg ok dst (mir_op_vreg (int l)) C uns md fn' = Some (f fn')"
      and fd: "delivers ok f fn (Suc l) dst (mir_op_vreg (int l)) g"
      using divmod_reg_delivers [OF _ kv dst' C, of fn ok uns md] len unfolding g_def l_def by auto
    obtain "is" l' where e: "emits ok fn (Suc l) f is l'" and cd: "code_delivers fn (Suc l) is dst (mir_op_vreg (int l)) g"
      using fd by (auto simp: delivers_def)
    have em: "emits ok fn l (with_vreg ok ?mv) [mk_inst MIR_MOV (mir_op_vreg (int l)) a mir_op_none False] (Suc l)"
      using len by (intro emits_with_vreg emits_emit1) (simp add: l_def)
    note et = emits_and_then [OF em e]
    have eq: "mir_emit_const_divmod ok dst a C uns md fn = Some (and_then (with_vreg ok ?mv) f fn)"
    proof -
      obtain r fn' where rf: "with_vreg ok ?mv fn = (r, fn')" by (cases "with_vreg ok ?mv fn")
      have "length (fn_vregs fn) < 2 ^ 31" using len by simp
      note vr = value_in_reg_other [OF nv this, of ok, unfolded rf]
      have "r \<Longrightarrow> like fn (Suc l) fn'"
        using em lk rf like_grown [OF lk] by (force simp: emits_def outcome_def)
      then show ?thesis using C rf vr f by (auto simp: mir_emit_const_divmod_def and_then_def l_def)
    qed
    have "code_delivers fn l ([mk_inst MIR_MOV (mir_op_vreg (int l)) a mir_op_none False] @ is) dst a g"
      unfolding code_delivers_def
    proof (intro allI impI)
      fix m assume m: "pool_ok fn m"
      define m1 where "m1 = mir_write m (mir_op_vreg (int l)) (mir_read m a)"
      have "pool_ok fn m1" using m pool
        by (auto simp: pool_ok_def pool_wf_def known_vreg_def m1_def mir_op_vreg_def l_def)
      then obtain m2 where m2: "mir_exec is m1 = Some m2" "mir_read m2 dst = g (mir_read m a)" "keeps (Suc l) dst m1 m2"
        using cd by (auto simp: code_delivers_def m1_def mir_op_vreg_def)
      have "keeps l dst m m2" using m2(3) by (auto simp: keeps_def m1_def mir_op_vreg_def)
      then show "\<exists>m'. mir_exec ([mk_inst MIR_MOV (mir_op_vreg (int l)) a mir_op_none False] @ is) m = Some m' \<and>
          mir_read m' dst = g (mir_read m a) \<and> keeps l dst m m'"
        using m2 by (simp add: m1_def inst_simps)
    qed
    then show ?thesis using eq et lk unfolding emits_def l_def g_def by blast
  qed
qed

section \<open>Properties\<close>

text \<open>C11. \<open>mir_emit_const_divmod\<close> is correct for every non-zero constant, signed or unsigned, quotient or
  remainder. It always returns. When it reports success it has only appended instructions, and running them
  from any state in which the constant-pool registers hold their values leaves the C quotient or
  remainder of the dividend in the destination, and every other register that existed before and every
  other place unchanged. When it reports failure, an allocation failed and the function is marked
  erroneous.\<close>

theorem const_divmod_correct:
  assumes "C \<noteq> 0" and "length (fn_vregs fn) + 6 \<le> 2 ^ 31" and "pool_wf fn"
    and "source_ok fn a" and "target_ok (length (fn_vregs fn)) dst"
  shows "\<exists>r fn'. mir_emit_const_divmod ok dst a C uns md fn = Some (r, fn') \<and>
     (if r then \<exists>code. fn_insns fn' = fn_insns fn @ code \<and>
        (\<forall>m. pool_ok fn m \<longrightarrow> (\<exists>m'. mir_exec code m = Some m' \<and>
           mir_read m' dst = (if md then c_remainder uns (mir_read m a) C else c_quotient uns (mir_read m a) C) \<and>
           keeps (length (fn_vregs fn)) dst m m'))
      else fn_has_error fn' \<and> (\<exists>k\<ge>fn_allocs fn. \<not> ok k))"
proof -
  obtain r fn' "is" n where e: "mir_emit_const_divmod ok dst a C uns md fn = Some (r, fn')"
    and o: "outcome ok fn is n (r, fn')"
    and c: "code_delivers fn (length (fn_vregs fn)) is dst a
       (\<lambda>x. if md then c_remainder uns x C else c_quotient uns x C)"
    using const_divmod_emits [OF assms, of ok uns md] by auto
  have "\<exists>code. fn_insns fn' = fn_insns fn @ code \<and>
        (\<forall>m. pool_ok fn m \<longrightarrow> (\<exists>m'. mir_exec code m = Some m' \<and>
           mir_read m' dst = (if md then c_remainder uns (mir_read m a) C else c_quotient uns (mir_read m a) C) \<and>
           keeps (length (fn_vregs fn)) dst m m'))" if r
    using o c that
    by (intro exI [of _ "map (located fn) is"]) (simp add: outcome_def grown_def code_delivers_def)
  then show ?thesis using e o by (auto simp: outcome_def)
qed

text \<open>A function with two registers, of which the first is divided by minus seven into the second.\<close>

definition two_regs :: MirFunction where
  "two_regs = mir_function_init\<lparr>fn_vregs := [new_vreg_record MIR_RC_GP 8, new_vreg_record MIR_RC_GP 8],
     fn_vreg_capacity := 16\<rparr>"

theorem const_divmod_correct_witness:
  "\<exists>fn' code. mir_emit_const_divmod (\<lambda>_. True) (MIR_OPK_VREG 1) (MIR_OPK_VREG 0) (-7) False True two_regs = Some (True, fn') \<and>
     fn_insns fn' = code \<and>
     (\<forall>m. \<exists>m'. mir_exec code m = Some m' \<and> m_vreg m' 1 = c_remainder False (m_vreg m 0) (-7) \<and> m_vreg m' 0 = m_vreg m 0)"
proof -
  have h: "length (fn_vregs two_regs) + 6 \<le> 2 ^ 31" "pool_wf two_regs" "source_ok two_regs (MIR_OPK_VREG 0)"
    "target_ok (length (fn_vregs two_regs)) (MIR_OPK_VREG 1)"
    by (simp_all add: two_regs_def mir_function_init_def pool_wf_def source_ok_def known_vreg_def target_ok_def)
  have p: "pool_ok two_regs m" "fn_insns two_regs = []" for m
    by (simp_all add: two_regs_def mir_function_init_def pool_ok_def)
  obtain r fn' where e: "mir_emit_const_divmod (\<lambda>_. True) (MIR_OPK_VREG 1) (MIR_OPK_VREG 0) (-7) False True two_regs = Some (r, fn')"
    and c: "if r then \<exists>code. fn_insns fn' = fn_insns two_regs @ code \<and>
        (\<forall>m. pool_ok two_regs m \<longrightarrow> (\<exists>m'. mir_exec code m = Some m' \<and>
           mir_read m' (MIR_OPK_VREG 1) = (if True then c_remainder False (mir_read m (MIR_OPK_VREG 0)) (-7)
             else c_quotient False (mir_read m (MIR_OPK_VREG 0)) (-7)) \<and>
           keeps (length (fn_vregs two_regs)) (MIR_OPK_VREG 1) m m'))
      else fn_has_error fn' \<and> (\<exists>k\<ge>fn_allocs two_regs. \<not> True)"
    using const_divmod_correct [OF _ h, of "-7" "\<lambda>_. True" False True] by auto
  then have r: r by (cases r) auto
  have k: "keeps (length (fn_vregs two_regs)) (MIR_OPK_VREG 1) m m' \<Longrightarrow> m_vreg m' 0 = m_vreg m 0" for m m'
    by (simp add: keeps_def two_regs_def)
  obtain code where "fn_insns fn' = code" and m: "\<And>m. \<exists>m'. mir_exec code m = Some m' \<and>
       m_vreg m' 1 = c_remainder False (m_vreg m 0) (-7) \<and> m_vreg m' 0 = m_vreg m 0"
    using c r k p by (simp del: not_gr_zero) (metis (no_types, lifting))
  moreover have "r = True" using r by simp
  ultimately show ?thesis using e by (intro exI [of _ fn'] exI [of _ code]) simp
qed

lemma mir_iconst_lookup_none:
  "\<forall>c\<in>set cs. 0 \<le> ic_vreg c \<Longrightarrow> mir_iconst_lookup cs v = MIR_VREG_NONE \<Longrightarrow> c \<in> set cs \<Longrightarrow> ic_value c \<noteq> v"
  by (induction cs) (auto simp: MIR_VREG_NONE_def split: if_splits)

lemma mir_iconst_lookup_snoc:
  "\<forall>c\<in>set cs. ic_value c \<noteq> v \<Longrightarrow> mir_iconst_lookup (cs @ [\<lparr>ic_value = v, ic_vreg = r\<rparr>]) v = r"
  by (induction cs) auto

lemma mir_iconst_reserve_same:
  "mir_iconst_reserve ok fn = (r, fn') \<Longrightarrow>
   fn_vregs fn' = fn_vregs fn \<and> fn_insns fn' = fn_insns fn \<and> fn_iconsts fn' = fn_iconsts fn"
  by (auto simp: mir_iconst_reserve_def Let_def split: if_splits)

text \<open>\<open>mir_iconst_add\<close> keeps the constant pool consistent: on success the value is in the pool, all
  pool registers still exist, and the code appended since makes every pool register hold its value, given
  that it did for the entries before.\<close>

theorem iconst_add_pool:
  assumes wf: "pool_wf fn" and len: "length (fn_vregs fn) < 2 ^ 31"
    and add: "mir_iconst_add ok value fn = (True, fn')"
  shows "pool_wf fn' \<and> mir_iconst_lookup (fn_iconsts fn') value \<noteq> MIR_VREG_NONE \<and>
     (\<exists>code. fn_insns fn' = fn_insns fn @ code \<and>
        (\<forall>m. pool_ok fn m \<longrightarrow> (\<exists>m'. mir_exec code m = Some m' \<and> pool_ok fn' m')))"
proof (cases "mir_iconst_lookup (fn_iconsts fn) value = MIR_VREG_NONE")
  case False
  then have "fn' = fn" using add by (simp add: mir_iconst_add_def)
  then show ?thesis using False wf by (auto intro: exI [of _ "[]"])
next
  case True
  define l where "l = int (length (fn_vregs fn))"
  obtain r fn1 where r1: "mir_iconst_reserve ok fn = (r, fn1)" by (cases "mir_iconst_reserve ok fn")
  note same = mir_iconst_reserve_same [OF r1]
  have r using add True r1 by (simp add: mir_iconst_add_def split: if_splits)
  have "length (fn_vregs fn1) < 2 ^ 31" using len same by simp
  then obtain fn2 where v: "mir_new_vreg ok MIR_RC_GP 8 fn1 = (l, fn2)" and g2: "grown fn1 [] 1 fn2"
    using add True r1 \<open>r\<close> same
    by (cases rule: mir_new_vreg_cases [of fn1 ok]) (auto simp: mir_iconst_add_def l_def)
  define fn3 where "fn3 = mir_iconst_note value l fn2"
  have e: "mir_emit1 ok MIR_MOV (mir_op_vreg l) (mir_op_imm value) mir_op_none 8 False 0 fn3 = (True, fn')"
    using add True r1 \<open>r\<close> v by (simp add: mir_iconst_add_def l_def fn3_def MIR_VREG_NONE_def split: if_splits)
  let ?i = "mk_inst MIR_MOV (mir_op_vreg l) (mir_op_imm value) mir_op_none False"
  have g3: "grown fn3 [located fn3 ?i] 0 fn'"
    using outcome_emit1 [of ok fn3 MIR_MOV "mir_op_vreg l" "mir_op_imm value" mir_op_none False] e
    by (simp add: outcome_def)
  have ic: "fn_iconsts fn' = fn_iconsts fn @ [\<lparr>ic_value = value, ic_vreg = l\<rparr>]"
    and vl: "length (fn_vregs fn') = Suc (length (fn_vregs fn))"
    and code: "fn_insns fn' = fn_insns fn @ [located fn3 ?i]"
    using g3 g2 same by (simp_all add: grown_def fn3_def mir_iconst_note_def)
  have ge: "\<forall>c\<in>set (fn_iconsts fn). 0 \<le> ic_vreg c \<and> ic_vreg c < l"
    using wf by (simp add: pool_wf_def known_vreg_def l_def)
  then have "\<forall>c\<in>set (fn_iconsts fn). ic_value c \<noteq> value" using mir_iconst_lookup_none True by blast
  then have "mir_iconst_lookup (fn_iconsts fn') value = l" unfolding ic by (rule mir_iconst_lookup_snoc)
  moreover have "pool_wf fn'" using ge by (auto simp: pool_wf_def known_vreg_def ic vl l_def)
  moreover have "\<exists>m'. mir_exec [located fn3 ?i] m = Some m' \<and> pool_ok fn' m'" if "pool_ok fn m" for m
    using that ge by (auto simp: inst_simps pool_ok_def ic)
  ultimately show ?thesis using code by (auto simp: l_def MIR_VREG_NONE_def)
qed

theorem iconst_add_pool_witness:
  "\<exists>fn'. mir_iconst_add (\<lambda>_. True) 5 two_regs = (True, fn') \<and> pool_wf fn' \<and>
     mir_iconst_lookup (fn_iconsts fn') 5 \<noteq> MIR_VREG_NONE"
proof -
  have h: "pool_wf two_regs" "length (fn_vregs two_regs) < 2 ^ 31"
    by (simp_all add: two_regs_def mir_function_init_def pool_wf_def)
  have t: "to_vreg_id (Suc (Suc 0)) = 2" by (simp add: to_vreg_id_small)
  obtain fn' where e: "mir_iconst_add (\<lambda>_. True) 5 two_regs = (True, fn')"
    by (simp add: mir_iconst_add_def mir_iconst_reserve_def mir_new_vreg_def mir_emit1_def mir_emit_def
        two_regs_def mir_function_init_def Let_def mir_iconst_note_def t MIR_VREG_NONE_def)
  from iconst_add_pool [OF h e] e show ?thesis by blast
qed

end
