(* ===== verification/Arm64Encode.thy ===== *)
theory Arm64Encode
  imports Prelude "HOL-Library.Signed_Division"
begin

text \<open>
  The AArch64 instruction encoders, \<open>codegen/binary/arm64_encode.c\<close>, one definition per function.
  A \<open>uint32_t\<close> and an enumeration are 32-bit words; an \<open>int\<close> is a 32-bit word read with \<open>sint\<close>, shifted
  right arithmetically and divided with truncation.
\<close>

type_synonym i32 = "32 word"
type_synonym Arm64Reg = "32 word"
type_synonym Arm64Cond = "32 word"

definition ARM64_XZR :: Arm64Reg where "ARM64_XZR = 31"
definition ARM64_SP :: Arm64Reg where "ARM64_SP = 31"

definition R5 :: "u32 \<Rightarrow> u32" where "R5 x = x AND 0x1F"

definition c_div32 :: "i32 \<Rightarrow> i32 \<Rightarrow> i32" where
  "c_div32 a b = word_of_int (sint a sdiv sint b)"

definition arm64_invert_cond :: "Arm64Cond \<Rightarrow> Arm64Cond" where
  "arm64_invert_cond c = c XOR 1"

definition arm64_nop :: "u32" where
  "arm64_nop = 0xD503201F"

definition arm64_mov_reg :: "bool \<Rightarrow> Arm64Reg \<Rightarrow> Arm64Reg \<Rightarrow> u32" where
  "arm64_mov_reg is64 rd rm = (if is64 then 0xAA0003E0 else 0x2A0003E0) OR push_bit 16 (R5 rm) OR R5 rd"

definition arm64_add_imm :: "bool \<Rightarrow> Arm64Reg \<Rightarrow> Arm64Reg \<Rightarrow> u32 \<Rightarrow> bool \<Rightarrow> u32" where
  "arm64_add_imm is64 rd rn imm12 shift12 = (if is64 then 0x91000000 else 0x11000000) OR
     (if shift12 then push_bit 22 1 else 0) OR push_bit 10 (imm12 AND 0xFFF) OR push_bit 5 (R5 rn) OR
     R5 rd"

definition arm64_mov_sp :: "Arm64Reg \<Rightarrow> Arm64Reg \<Rightarrow> u32" where
  "arm64_mov_sp rd rn = arm64_add_imm True rd rn 0 False"

definition arm64_movz :: "bool \<Rightarrow> Arm64Reg \<Rightarrow> u16 \<Rightarrow> u32 \<Rightarrow> u32" where
  "arm64_movz is64 rd imm16 hw = (if is64 then 0xD2800000 else 0x52800000) OR push_bit 21 (hw AND 3) OR
     push_bit 5 (ucast imm16) OR R5 rd"

definition arm64_movn :: "bool \<Rightarrow> Arm64Reg \<Rightarrow> u16 \<Rightarrow> u32 \<Rightarrow> u32" where
  "arm64_movn is64 rd imm16 hw = (if is64 then 0x92800000 else 0x12800000) OR push_bit 21 (hw AND 3) OR
     push_bit 5 (ucast imm16) OR R5 rd"

definition arm64_movk :: "bool \<Rightarrow> Arm64Reg \<Rightarrow> u16 \<Rightarrow> u32 \<Rightarrow> u32" where
  "arm64_movk is64 rd imm16 hw = (if is64 then 0xF2800000 else 0x72800000) OR push_bit 21 (hw AND 3) OR
     push_bit 5 (ucast imm16) OR R5 rd"

definition arm64_add_reg :: "bool \<Rightarrow> Arm64Reg \<Rightarrow> Arm64Reg \<Rightarrow> Arm64Reg \<Rightarrow> u32" where
  "arm64_add_reg is64 rd rn rm = (if is64 then 0x8B000000 else 0x0B000000) OR push_bit 16 (R5 rm) OR
     push_bit 5 (R5 rn) OR R5 rd"

definition arm64_sub_reg :: "bool \<Rightarrow> Arm64Reg \<Rightarrow> Arm64Reg \<Rightarrow> Arm64Reg \<Rightarrow> u32" where
  "arm64_sub_reg is64 rd rn rm = (if is64 then 0xCB000000 else 0x4B000000) OR push_bit 16 (R5 rm) OR
     push_bit 5 (R5 rn) OR R5 rd"

definition arm64_and_reg :: "bool \<Rightarrow> Arm64Reg \<Rightarrow> Arm64Reg \<Rightarrow> Arm64Reg \<Rightarrow> u32" where
  "arm64_and_reg is64 rd rn rm = (if is64 then 0x8A000000 else 0x0A000000) OR push_bit 16 (R5 rm) OR
     push_bit 5 (R5 rn) OR R5 rd"

definition arm64_orr_reg :: "bool \<Rightarrow> Arm64Reg \<Rightarrow> Arm64Reg \<Rightarrow> Arm64Reg \<Rightarrow> u32" where
  "arm64_orr_reg is64 rd rn rm = (if is64 then 0xAA000000 else 0x2A000000) OR push_bit 16 (R5 rm) OR
     push_bit 5 (R5 rn) OR R5 rd"

definition arm64_eor_reg :: "bool \<Rightarrow> Arm64Reg \<Rightarrow> Arm64Reg \<Rightarrow> Arm64Reg \<Rightarrow> u32" where
  "arm64_eor_reg is64 rd rn rm = (if is64 then 0xCA000000 else 0x4A000000) OR push_bit 16 (R5 rm) OR
     push_bit 5 (R5 rn) OR R5 rd"

definition arm64_neg :: "bool \<Rightarrow> Arm64Reg \<Rightarrow> Arm64Reg \<Rightarrow> u32" where
  "arm64_neg is64 rd rm = arm64_sub_reg is64 rd ARM64_XZR rm"

definition arm64_mvn :: "bool \<Rightarrow> Arm64Reg \<Rightarrow> Arm64Reg \<Rightarrow> u32" where
  "arm64_mvn is64 rd rm = (if is64 then 0xAA2003E0 else 0x2A2003E0) OR push_bit 16 (R5 rm) OR R5 rd"

definition arm64_sub_imm :: "bool \<Rightarrow> Arm64Reg \<Rightarrow> Arm64Reg \<Rightarrow> u32 \<Rightarrow> bool \<Rightarrow> u32" where
  "arm64_sub_imm is64 rd rn imm12 shift12 = (if is64 then 0xD1000000 else 0x51000000) OR
     (if shift12 then push_bit 22 1 else 0) OR push_bit 10 (imm12 AND 0xFFF) OR push_bit 5 (R5 rn) OR
     R5 rd"

definition arm64_cmp_reg :: "bool \<Rightarrow> Arm64Reg \<Rightarrow> Arm64Reg \<Rightarrow> u32" where
  "arm64_cmp_reg is64 rn rm = (if is64 then 0xEB00001F else 0x6B00001F) OR push_bit 16 (R5 rm) OR
     push_bit 5 (R5 rn)"

definition arm64_cmp_imm :: "bool \<Rightarrow> Arm64Reg \<Rightarrow> u32 \<Rightarrow> bool \<Rightarrow> u32" where
  "arm64_cmp_imm is64 rn imm12 shift12 = (if is64 then 0xF100001F else 0x7100001F) OR
     (if shift12 then push_bit 22 1 else 0) OR push_bit 10 (imm12 AND 0xFFF) OR push_bit 5 (R5 rn)"

definition arm64_tst :: "bool \<Rightarrow> Arm64Reg \<Rightarrow> Arm64Reg \<Rightarrow> u32" where
  "arm64_tst is64 rn rm = (if is64 then 0xEA00001F else 0x6A00001F) OR push_bit 16 (R5 rm) OR
     push_bit 5 (R5 rn)"

definition arm64_uxtb :: "Arm64Reg \<Rightarrow> Arm64Reg \<Rightarrow> u32" where
  "arm64_uxtb rd rn = 0x53000000 OR push_bit 10 7 OR push_bit 5 (R5 rn) OR R5 rd"

definition arm64_uxth :: "Arm64Reg \<Rightarrow> Arm64Reg \<Rightarrow> u32" where
  "arm64_uxth rd rn = 0x53000000 OR push_bit 10 15 OR push_bit 5 (R5 rn) OR R5 rd"

definition arm64_sxtb :: "Arm64Reg \<Rightarrow> Arm64Reg \<Rightarrow> u32" where
  "arm64_sxtb rd rn = 0x93400000 OR push_bit 10 7 OR push_bit 5 (R5 rn) OR R5 rd"

definition arm64_sxth :: "Arm64Reg \<Rightarrow> Arm64Reg \<Rightarrow> u32" where
  "arm64_sxth rd rn = 0x93400000 OR push_bit 10 15 OR push_bit 5 (R5 rn) OR R5 rd"

definition arm64_sxtw :: "Arm64Reg \<Rightarrow> Arm64Reg \<Rightarrow> u32" where
  "arm64_sxtw rd rn = 0x93400000 OR push_bit 10 31 OR push_bit 5 (R5 rn) OR R5 rd"

definition arm64_madd :: "bool \<Rightarrow> Arm64Reg \<Rightarrow> Arm64Reg \<Rightarrow> Arm64Reg \<Rightarrow> Arm64Reg \<Rightarrow> u32" where
  "arm64_madd is64 rd rn rm ra = (if is64 then 0x9B000000 else 0x1B000000) OR push_bit 16 (R5 rm) OR
     push_bit 10 (R5 ra) OR push_bit 5 (R5 rn) OR R5 rd"

definition arm64_msub :: "bool \<Rightarrow> Arm64Reg \<Rightarrow> Arm64Reg \<Rightarrow> Arm64Reg \<Rightarrow> Arm64Reg \<Rightarrow> u32" where
  "arm64_msub is64 rd rn rm ra = (if is64 then 0x9B008000 else 0x1B008000) OR push_bit 16 (R5 rm) OR
     push_bit 10 (R5 ra) OR push_bit 5 (R5 rn) OR R5 rd"

definition arm64_mul :: "bool \<Rightarrow> Arm64Reg \<Rightarrow> Arm64Reg \<Rightarrow> Arm64Reg \<Rightarrow> u32" where
  "arm64_mul is64 rd rn rm = arm64_madd is64 rd rn rm ARM64_XZR"

definition arm64_sdiv :: "bool \<Rightarrow> Arm64Reg \<Rightarrow> Arm64Reg \<Rightarrow> Arm64Reg \<Rightarrow> u32" where
  "arm64_sdiv is64 rd rn rm = (if is64 then 0x9AC00C00 else 0x1AC00C00) OR push_bit 16 (R5 rm) OR
     push_bit 5 (R5 rn) OR R5 rd"

definition arm64_udiv :: "bool \<Rightarrow> Arm64Reg \<Rightarrow> Arm64Reg \<Rightarrow> Arm64Reg \<Rightarrow> u32" where
  "arm64_udiv is64 rd rn rm = (if is64 then 0x9AC00800 else 0x1AC00800) OR push_bit 16 (R5 rm) OR
     push_bit 5 (R5 rn) OR R5 rd"

definition arm64_lslv :: "bool \<Rightarrow> Arm64Reg \<Rightarrow> Arm64Reg \<Rightarrow> Arm64Reg \<Rightarrow> u32" where
  "arm64_lslv is64 rd rn rm = (if is64 then 0x9AC02000 else 0x1AC02000) OR push_bit 16 (R5 rm) OR
     push_bit 5 (R5 rn) OR R5 rd"

definition arm64_lsrv :: "bool \<Rightarrow> Arm64Reg \<Rightarrow> Arm64Reg \<Rightarrow> Arm64Reg \<Rightarrow> u32" where
  "arm64_lsrv is64 rd rn rm = (if is64 then 0x9AC02400 else 0x1AC02400) OR push_bit 16 (R5 rm) OR
     push_bit 5 (R5 rn) OR R5 rd"

definition arm64_asrv :: "bool \<Rightarrow> Arm64Reg \<Rightarrow> Arm64Reg \<Rightarrow> Arm64Reg \<Rightarrow> u32" where
  "arm64_asrv is64 rd rn rm = (if is64 then 0x9AC02800 else 0x1AC02800) OR push_bit 16 (R5 rm) OR
     push_bit 5 (R5 rn) OR R5 rd"

definition arm64_bfm :: "bool \<Rightarrow> bool \<Rightarrow> Arm64Reg \<Rightarrow> Arm64Reg \<Rightarrow> u32 \<Rightarrow> u32 \<Rightarrow> u32" where
  "arm64_bfm is64 sbfm rd rn immr imms =
  (let base = (if sbfm then (if is64 then 0x93400000 else 0x13000000) else (if is64 then 0xD3400000 else 0x53000000));
       m = (if is64 then 63 else 31)
   in base OR push_bit 16 (immr AND m) OR push_bit 10 (imms AND m) OR push_bit 5 (R5 rn) OR R5 rd)"

definition arm64_lsl_imm :: "bool \<Rightarrow> Arm64Reg \<Rightarrow> Arm64Reg \<Rightarrow> u32 \<Rightarrow> u32" where
  "arm64_lsl_imm is64 rd rn shift = 
  (let width = (if is64 then 64 else 32)
   in arm64_bfm is64 False rd rn ((- shift) AND (width - 1)) (width - 1 - shift))"

definition arm64_lsr_imm :: "bool \<Rightarrow> Arm64Reg \<Rightarrow> Arm64Reg \<Rightarrow> u32 \<Rightarrow> u32" where
  "arm64_lsr_imm is64 rd rn shift = 
  arm64_bfm is64 False rd rn shift ((if is64 then 64 else 32) - 1)"

definition arm64_asr_imm :: "bool \<Rightarrow> Arm64Reg \<Rightarrow> Arm64Reg \<Rightarrow> u32 \<Rightarrow> u32" where
  "arm64_asr_imm is64 rd rn shift = 
  arm64_bfm is64 True rd rn shift ((if is64 then 64 else 32) - 1)"

definition arm64_csel :: "bool \<Rightarrow> Arm64Reg \<Rightarrow> Arm64Reg \<Rightarrow> Arm64Reg \<Rightarrow> Arm64Cond \<Rightarrow> u32" where
  "arm64_csel is64 rd rn rm cond = (if is64 then 0x9A800000 else 0x1A800000) OR push_bit 16 (R5 rm) OR
     push_bit 12 (cond AND 0xF) OR push_bit 5 (R5 rn) OR R5 rd"

definition arm64_cset :: "bool \<Rightarrow> Arm64Reg \<Rightarrow> Arm64Cond \<Rightarrow> u32" where
  "arm64_cset is64 rd cond = (if is64 then 0x9A800400 else 0x1A800400) OR push_bit 16 (R5 ARM64_XZR) OR
     push_bit 12 (arm64_invert_cond cond AND 0xF) OR push_bit 5 (R5 ARM64_XZR) OR R5 rd"

definition arm64_str_imm :: "bool \<Rightarrow> Arm64Reg \<Rightarrow> Arm64Reg \<Rightarrow> i32 \<Rightarrow> u32" where
  "arm64_str_imm is64 rt rn offset_bytes = (if is64 then 0xF9000000 else 0xB9000000) OR
     push_bit 10 (c_div32 offset_bytes (if is64 then 8 else 4) AND 0xFFF) OR push_bit 5 (R5 rn) OR
     R5 rt"

definition arm64_ldr_imm :: "bool \<Rightarrow> Arm64Reg \<Rightarrow> Arm64Reg \<Rightarrow> i32 \<Rightarrow> u32" where
  "arm64_ldr_imm is64 rt rn offset_bytes = (if is64 then 0xF9400000 else 0xB9400000) OR
     push_bit 10 (c_div32 offset_bytes (if is64 then 8 else 4) AND 0xFFF) OR push_bit 5 (R5 rn) OR
     R5 rt"

definition arm64_strb_imm :: "Arm64Reg \<Rightarrow> Arm64Reg \<Rightarrow> i32 \<Rightarrow> u32" where
  "arm64_strb_imm rt rn offset = 0x39000000 OR push_bit 10 (offset AND 0xFFF) OR push_bit 5 (R5 rn) OR R5 rt"

definition arm64_ldrb_imm :: "Arm64Reg \<Rightarrow> Arm64Reg \<Rightarrow> i32 \<Rightarrow> u32" where
  "arm64_ldrb_imm rt rn offset = 0x39400000 OR push_bit 10 (offset AND 0xFFF) OR push_bit 5 (R5 rn) OR R5 rt"

definition arm64_strh_imm :: "Arm64Reg \<Rightarrow> Arm64Reg \<Rightarrow> i32 \<Rightarrow> u32" where
  "arm64_strh_imm rt rn offset_bytes = 0x79000000 OR push_bit 10 (c_div32 offset_bytes 2 AND 0xFFF) OR
     push_bit 5 (R5 rn) OR R5 rt"

definition arm64_ldrh_imm :: "Arm64Reg \<Rightarrow> Arm64Reg \<Rightarrow> i32 \<Rightarrow> u32" where
  "arm64_ldrh_imm rt rn offset_bytes = 0x79400000 OR push_bit 10 (c_div32 offset_bytes 2 AND 0xFFF) OR
     push_bit 5 (R5 rn) OR R5 rt"

definition fp2 :: "bool \<Rightarrow> u32 \<Rightarrow> u32 \<Rightarrow> u32 \<Rightarrow> u32 \<Rightarrow> u32" where
  "fp2 is_double dbase fd fn fm = (if is_double then dbase else dbase AND NOT (push_bit 22 1)) OR
     push_bit 16 (R5 fm) OR push_bit 5 (R5 fn) OR R5 fd"

definition arm64_fmul :: "bool \<Rightarrow> u32 \<Rightarrow> u32 \<Rightarrow> u32 \<Rightarrow> u32" where
  "arm64_fmul is_double fd fn fm = fp2 is_double 0x1E600800 fd fn fm"

definition arm64_fdiv :: "bool \<Rightarrow> u32 \<Rightarrow> u32 \<Rightarrow> u32 \<Rightarrow> u32" where
  "arm64_fdiv is_double fd fn fm = fp2 is_double 0x1E601800 fd fn fm"

definition arm64_fadd :: "bool \<Rightarrow> u32 \<Rightarrow> u32 \<Rightarrow> u32 \<Rightarrow> u32" where
  "arm64_fadd is_double fd fn fm = fp2 is_double 0x1E602800 fd fn fm"

definition arm64_fsub :: "bool \<Rightarrow> u32 \<Rightarrow> u32 \<Rightarrow> u32 \<Rightarrow> u32" where
  "arm64_fsub is_double fd fn fm = fp2 is_double 0x1E603800 fd fn fm"

definition arm64_fneg :: "bool \<Rightarrow> u32 \<Rightarrow> u32 \<Rightarrow> u32" where
  "arm64_fneg is_double fd fn = (if is_double then 0x1E614000 else 0x1E214000) OR push_bit 5 (R5 fn) OR R5 fd"

definition arm64_fcmp :: "bool \<Rightarrow> u32 \<Rightarrow> u32 \<Rightarrow> u32" where
  "arm64_fcmp is_double fn fm = (if is_double then 0x1E602000 else 0x1E202000) OR
     push_bit 16 (R5 fm) OR push_bit 5 (R5 fn)"

definition arm64_scvtf :: "bool \<Rightarrow> u32 \<Rightarrow> Arm64Reg \<Rightarrow> u32" where
  "arm64_scvtf is_double fd xn = (if is_double then 0x9E620000 else 0x9E220000) OR
     push_bit 5 (R5 xn) OR R5 fd"

definition arm64_fcvtzs :: "bool \<Rightarrow> Arm64Reg \<Rightarrow> u32 \<Rightarrow> u32" where
  "arm64_fcvtzs is_double xd fn = (if is_double then 0x9E780000 else 0x9E380000) OR
     push_bit 5 (R5 fn) OR R5 xd"

definition arm64_ucvtf :: "bool \<Rightarrow> u32 \<Rightarrow> Arm64Reg \<Rightarrow> u32" where
  "arm64_ucvtf is_double fd xn = (if is_double then 0x9E630000 else 0x9E230000) OR
     push_bit 5 (R5 xn) OR R5 fd"

definition arm64_fcvtzu :: "bool \<Rightarrow> Arm64Reg \<Rightarrow> u32 \<Rightarrow> u32" where
  "arm64_fcvtzu is_double xd fn = (if is_double then 0x9E790000 else 0x9E390000) OR
     push_bit 5 (R5 fn) OR R5 xd"

definition arm64_fcvt :: "bool \<Rightarrow> u32 \<Rightarrow> u32 \<Rightarrow> u32" where
  "arm64_fcvt to_double fd fn = (if to_double then 0x1E22C000 else 0x1E624000) OR push_bit 5 (R5 fn) OR R5 fd"

definition arm64_fcvt_h2s :: "u32 \<Rightarrow> u32 \<Rightarrow> u32" where
  "arm64_fcvt_h2s sd hn = 0x1EE24000 OR push_bit 5 (R5 hn) OR R5 sd"

definition arm64_fcvt_s2h :: "u32 \<Rightarrow> u32 \<Rightarrow> u32" where
  "arm64_fcvt_s2h hh sn = 0x1E23C000 OR push_bit 5 (R5 sn) OR R5 hh"

definition arm64_fmov_gp :: "bool \<Rightarrow> u32 \<Rightarrow> Arm64Reg \<Rightarrow> u32" where
  "arm64_fmov_gp is_double fd xn = (if is_double then 0x9E670000 else 0x1E270000) OR
     push_bit 5 (R5 xn) OR R5 fd"

definition arm64_fmov_to_gp :: "bool \<Rightarrow> Arm64Reg \<Rightarrow> u32 \<Rightarrow> u32" where
  "arm64_fmov_to_gp is_double xd fn = (if is_double then 0x9E660000 else 0x1E260000) OR
     push_bit 5 (R5 fn) OR R5 xd"

definition arm64_fmov_reg :: "bool \<Rightarrow> u32 \<Rightarrow> u32 \<Rightarrow> u32" where
  "arm64_fmov_reg is_double fd fn = (if is_double then 0x1E604000 else 0x1E204000) OR
     push_bit 5 (R5 fn) OR R5 fd"

definition arm64_ldr_fp :: "bool \<Rightarrow> u32 \<Rightarrow> Arm64Reg \<Rightarrow> i32 \<Rightarrow> u32" where
  "arm64_ldr_fp is_double ft rn offset_bytes = (if is_double then 0xFD400000 else 0xBD400000) OR
     push_bit 10 (c_div32 offset_bytes (if is_double then 8 else 4) AND 0xFFF) OR push_bit 5 (R5 rn) OR
     R5 ft"

definition arm64_str_fp :: "bool \<Rightarrow> u32 \<Rightarrow> Arm64Reg \<Rightarrow> i32 \<Rightarrow> u32" where
  "arm64_str_fp is_double ft rn offset_bytes = (if is_double then 0xFD000000 else 0xBD000000) OR
     push_bit 10 (c_div32 offset_bytes (if is_double then 8 else 4) AND 0xFFF) OR push_bit 5 (R5 rn) OR
     R5 ft"

definition arm64_stp_pre :: "bool \<Rightarrow> Arm64Reg \<Rightarrow> Arm64Reg \<Rightarrow> Arm64Reg \<Rightarrow> i32 \<Rightarrow> u32" where
  "arm64_stp_pre is64 rt rt2 rn offset_bytes = (if is64 then 0xA9800000 else 0x29800000) OR
     push_bit 15 (c_div32 offset_bytes (if is64 then 8 else 4) AND 0x7F) OR push_bit 10 (R5 rt2) OR
     push_bit 5 (R5 rn) OR R5 rt"

definition arm64_ldp_post :: "bool \<Rightarrow> Arm64Reg \<Rightarrow> Arm64Reg \<Rightarrow> Arm64Reg \<Rightarrow> i32 \<Rightarrow> u32" where
  "arm64_ldp_post is64 rt rt2 rn offset_bytes = (if is64 then 0xA8C00000 else 0x28C00000) OR
     push_bit 15 (c_div32 offset_bytes (if is64 then 8 else 4) AND 0x7F) OR push_bit 10 (R5 rt2) OR
     push_bit 5 (R5 rn) OR R5 rt"

definition arm64_b :: "i32 \<Rightarrow> u32" where
  "arm64_b offset_bytes = 0x14000000 OR (signed_drop_bit 2 offset_bytes AND 0x03FFFFFF)"

definition arm64_bl :: "i32 \<Rightarrow> u32" where
  "arm64_bl offset_bytes = 0x94000000 OR (signed_drop_bit 2 offset_bytes AND 0x03FFFFFF)"

definition arm64_bcond :: "Arm64Cond \<Rightarrow> i32 \<Rightarrow> u32" where
  "arm64_bcond cond offset_bytes = 0x54000000 OR
     push_bit 5 (signed_drop_bit 2 offset_bytes AND 0x7FFFF) OR (cond AND 0xF)"

definition arm64_cbz :: "bool \<Rightarrow> Arm64Reg \<Rightarrow> i32 \<Rightarrow> u32" where
  "arm64_cbz is64 rt offset_bytes = (if is64 then 0xB4000000 else 0x34000000) OR
     push_bit 5 (signed_drop_bit 2 offset_bytes AND 0x7FFFF) OR R5 rt"

definition arm64_cbnz :: "bool \<Rightarrow> Arm64Reg \<Rightarrow> i32 \<Rightarrow> u32" where
  "arm64_cbnz is64 rt offset_bytes = (if is64 then 0xB5000000 else 0x35000000) OR
     push_bit 5 (signed_drop_bit 2 offset_bytes AND 0x7FFFF) OR R5 rt"

definition arm64_br :: "Arm64Reg \<Rightarrow> u32" where
  "arm64_br rn = 0xD61F0000 OR push_bit 5 (R5 rn)"

definition arm64_blr :: "Arm64Reg \<Rightarrow> u32" where
  "arm64_blr rn = 0xD63F0000 OR push_bit 5 (R5 rn)"

definition arm64_ret :: "Arm64Reg \<Rightarrow> u32" where
  "arm64_ret rn = 0xD65F0000 OR push_bit 5 (R5 rn)"

end
