(* ===== verification/Arm64Decode.thy ===== *)
theory Arm64Decode
  imports Arm64Encode
begin

text \<open>
  The AArch64 decoder, \<open>codegen/binary/arm64_disasm.c\<close>, and its agreement with the encoders of
  \<open>Arm64Encode\<close>: what an encoder writes, the decoder reads back, field by field.
\<close>

datatype Arm64DisOp =
    ARM64_DIS_UNKNOWN | ARM64_DIS_NOP | ARM64_DIS_MOV | ARM64_DIS_MOVZ | ARM64_DIS_MOVN
  | ARM64_DIS_MOVK | ARM64_DIS_ADD_REG | ARM64_DIS_SUB_REG | ARM64_DIS_AND_REG | ARM64_DIS_ORR_REG
  | ARM64_DIS_EOR_REG | ARM64_DIS_ADD_IMM | ARM64_DIS_SUB_IMM | ARM64_DIS_SUBS_REG
  | ARM64_DIS_SUBS_IMM | ARM64_DIS_MADD | ARM64_DIS_MSUB | ARM64_DIS_SDIV | ARM64_DIS_UDIV
  | ARM64_DIS_LSLV | ARM64_DIS_LSRV | ARM64_DIS_ASRV | ARM64_DIS_UBFM | ARM64_DIS_SBFM
  | ARM64_DIS_CSEL | ARM64_DIS_CSINC | ARM64_DIS_LDR_IMM | ARM64_DIS_STR_IMM | ARM64_DIS_STP
  | ARM64_DIS_LDP | ARM64_DIS_B | ARM64_DIS_BL | ARM64_DIS_BCOND | ARM64_DIS_CBZ | ARM64_DIS_CBNZ
  | ARM64_DIS_BR | ARM64_DIS_BLR | ARM64_DIS_RET

record Arm64Inst =
  dis_op :: Arm64DisOp
  dis_is64 :: bool
  dis_rd :: u32
  dis_rn :: u32
  dis_rm :: u32
  dis_rt :: u32
  dis_rt2 :: u32
  dis_ra :: u32
  dis_imm :: i64
  dis_hw :: u32
  dis_cond :: u32
  dis_immr :: u32
  dis_imms :: u32

definition sign_extend :: "u32 \<Rightarrow> nat \<Rightarrow> i64" where
  "sign_extend value bits =
    (let m = push_bit (bits - 1) (1 :: u64);
         v = ucast value AND (push_bit bits 1 - 1)
     in (v XOR m) - m)"

text \<open>\<open>fld w k n\<close> is the \<open>n\<close>-bit field of \<open>w\<close> from bit \<open>k\<close>: the C expression \<open>(w >> k) & (2^n - 1)\<close>.\<close>

definition fld :: "u32 \<Rightarrow> nat \<Rightarrow> nat \<Rightarrow> u32" where
  "fld w k n = drop_bit k w AND mask n"

definition decode_init :: "u32 \<Rightarrow> Arm64Inst" where
  "decode_init w =
    \<lparr>dis_op = ARM64_DIS_UNKNOWN, dis_is64 = (drop_bit 31 w \<noteq> 0), dis_rd = fld w 0 5,
     dis_rn = fld w 5 5, dis_rm = fld w 16 5, dis_rt = fld w 0 5, dis_rt2 = fld w 10 5,
     dis_ra = fld w 10 5, dis_imm = 0, dis_hw = fld w 21 2, dis_cond = 0,
     dis_immr = fld w 16 6, dis_imms = fld w 10 6\<rparr>"

definition decode_data :: "u32 \<Rightarrow> Arm64Inst \<Rightarrow> Arm64Inst option" where
  "decode_data w i =
    (if w = 0xD503201F then Some (i\<lparr>dis_op := ARM64_DIS_NOP\<rparr>)
     else if w AND 0xFFFFFC1F = 0xD61F0000 then Some (i\<lparr>dis_op := ARM64_DIS_BR\<rparr>)
     else if w AND 0xFFFFFC1F = 0xD63F0000 then Some (i\<lparr>dis_op := ARM64_DIS_BLR\<rparr>)
     else if w AND 0xFFFFFC1F = 0xD65F0000 then Some (i\<lparr>dis_op := ARM64_DIS_RET\<rparr>)
     else if fld w 23 6 = 0x25 then
       Some (i\<lparr>dis_imm := ucast (fld w 5 16),
               dis_op := (if fld w 29 2 = 0 then ARM64_DIS_MOVN
                          else if fld w 29 2 = 2 then ARM64_DIS_MOVZ else ARM64_DIS_MOVK)\<rparr>)
     else if fld w 23 6 = 0x22 then
       Some (i\<lparr>dis_imm := push_bit (if fld w 22 1 \<noteq> 0 then 12 else 0) (ucast (fld w 10 12)),
               dis_op := (if fld w 29 1 \<noteq> 0 then ARM64_DIS_SUBS_IMM
                          else if fld w 30 1 \<noteq> 0 then ARM64_DIS_SUB_IMM else ARM64_DIS_ADD_IMM)\<rparr>)
     else if fld w 23 6 = 0x26 then
       Some (i\<lparr>dis_op := (if fld w 29 2 = 0 then ARM64_DIS_SBFM else ARM64_DIS_UBFM)\<rparr>)
     else if fld w 24 5 = 0x0A then
       Some (i\<lparr>dis_op :=
         (if fld w 29 2 = 1 \<and> fld w 21 1 = 0
          then if dis_rn i = 31 then ARM64_DIS_MOV else ARM64_DIS_ORR_REG
          else if fld w 29 2 = 0 then ARM64_DIS_AND_REG
          else if fld w 29 2 = 2 then ARM64_DIS_EOR_REG else ARM64_DIS_ORR_REG)\<rparr>)
     else if fld w 24 5 = 0x0B then
       Some (i\<lparr>dis_op :=
         (if fld w 29 1 \<noteq> 0 then ARM64_DIS_SUBS_REG
          else if fld w 30 1 \<noteq> 0 then ARM64_DIS_SUB_REG else ARM64_DIS_ADD_REG)\<rparr>)
     else None)"

definition decode_arith :: "u32 \<Rightarrow> Arm64Inst \<Rightarrow> Arm64Inst option" where
  "decode_arith w i =
    (if fld w 24 5 = 0x1B \<and> fld w 29 2 = 0 then
       Some (i\<lparr>dis_op := (if fld w 15 1 \<noteq> 0 then ARM64_DIS_MSUB else ARM64_DIS_MADD)\<rparr>)
     else if fld w 21 8 = 0xD6 then
       (let opcode = fld w 10 6
        in Some (i\<lparr>dis_op :=
            (if opcode = 0x02 then ARM64_DIS_UDIV else if opcode = 0x03 then ARM64_DIS_SDIV
             else if opcode = 0x08 then ARM64_DIS_LSLV else if opcode = 0x09 then ARM64_DIS_LSRV
             else if opcode = 0x0A then ARM64_DIS_ASRV else ARM64_DIS_UNKNOWN)\<rparr>))
     else if fld w 21 8 = 0xD4 then
       Some (i\<lparr>dis_cond := fld w 12 4,
               dis_op := (if fld w 10 2 = 1 then ARM64_DIS_CSINC else ARM64_DIS_CSEL)\<rparr>)
     else None)"

definition decode_mem :: "u32 \<Rightarrow> Arm64Inst \<Rightarrow> Arm64Inst option" where
  "decode_mem w i =
    (if fld w 27 3 = 7 \<and> fld w 26 1 = 0 \<and> fld w 24 2 = 1 then
       (let size = fld w 30 2; scale = (if size = 3 then 8 else 4)
        in Some (i\<lparr>dis_is64 := (size = 3), dis_imm := ucast (fld w 10 12) * scale,
                   dis_op := (if fld w 22 2 = 0 then ARM64_DIS_STR_IMM else ARM64_DIS_LDR_IMM)\<rparr>))
     else if fld w 27 3 = 5 \<and> fld w 26 1 = 0 then
       (let opc = fld w 30 2; scale = (if opc = 2 then 8 else 4)
        in Some (i\<lparr>dis_is64 := (opc = 2), dis_rt2 := fld w 10 5,
                   dis_imm := sign_extend (fld w 15 7) 7 * scale,
                   dis_op := (if fld w 22 1 \<noteq> 0 then ARM64_DIS_LDP else ARM64_DIS_STP)\<rparr>))
     else None)"

definition decode_branch :: "u32 \<Rightarrow> Arm64Inst \<Rightarrow> Arm64Inst" where
  "decode_branch w i =
    (if fld w 25 6 = 0x1A then
       i\<lparr>dis_imm := sign_extend (fld w 5 19) 19 * 4,
         dis_op := (if fld w 24 1 \<noteq> 0 then ARM64_DIS_CBNZ else ARM64_DIS_CBZ)\<rparr>
     else if fld w 24 8 = 0x54 then
       i\<lparr>dis_cond := fld w 0 4, dis_imm := sign_extend (fld w 5 19) 19 * 4, dis_op := ARM64_DIS_BCOND\<rparr>
     else if fld w 26 6 = 0x05 then
       i\<lparr>dis_imm := sign_extend (fld w 0 26) 26 * 4, dis_op := ARM64_DIS_B\<rparr>
     else if fld w 26 6 = 0x25 then
       i\<lparr>dis_imm := sign_extend (fld w 0 26) 26 * 4, dis_op := ARM64_DIS_BL\<rparr>
     else i)"

definition arm64_decode :: "u32 \<Rightarrow> Arm64Inst" where
  "arm64_decode w =
    (let i = decode_init w
     in case decode_data w i of Some r \<Rightarrow> r
      | None \<Rightarrow> (case decode_arith w i of Some r \<Rightarrow> r
          | None \<Rightarrow> (case decode_mem w i of Some r \<Rightarrow> r
              | None \<Rightarrow> decode_branch w i)))"

section \<open>Reading fields bit by bit\<close>

lemma bit_fld: "bit (fld w k n) i \<longleftrightarrow> i < n \<and> bit w (k + i)"
  by (auto simp: fld_def bit_simps dest: bit_imp_le_length)

definition fits :: "u32 \<Rightarrow> nat \<Rightarrow> bool" where
  "fits x j \<longleftrightarrow> (\<forall>i\<ge>j. \<not> bit x i)"

named_theorems fld_simps \<open>fields of words built from shifted fields\<close>

lemma fld_or [fld_simps]: "fld (a OR b) k n = fld a k n OR fld b k n"
  by (rule bit_word_eqI) (auto simp: bit_fld bit_simps)

lemma fits_and: "fits (x AND mask j) j"
  by (auto simp: fits_def bit_simps)

lemma fits_R5: "fits (R5 x) 5"
  using fits_and [of x 5] by (simp add: R5_def mask_eq_exp_minus_1)

lemma fits_ucast16: "fits (ucast (x :: u16)) 16"
  by (auto simp: fits_def bit_simps dest: bit_imp_le_length)

text \<open>
  Interface between encoders and decoder: a value that occupies \<open>j\<close> bits. Placed at bit \<open>m\<close> of an instruction
  it is read back whole by a field that contains it and is invisible to the fields above and below.
\<close>

locale field =
  fixes x :: u32 and j :: nat
  assumes narrow: "fits x j"
begin

lemma bit_narrow: "bit x i \<Longrightarrow> i < j"
  using narrow by (auto simp: fits_def not_less [symmetric])

lemma push_above: "m + j \<le> k \<Longrightarrow> fld (push_bit m x) k n = 0"
  by (rule bit_word_eqI) (auto simp: bit_fld bit_simps dest!: bit_narrow)

lemma push_within: "k \<le> m \<Longrightarrow> m + j \<le> k + n \<Longrightarrow> m + j \<le> 32 \<Longrightarrow> fld (push_bit m x) k n = push_bit (m - k) x"
proof (rule bit_word_eqI)
  fix i assume h: "k \<le> m" "m + j \<le> k + n" "m + j \<le> 32" and "i < LENGTH(32)"
  have e: "m \<le> k + i \<Longrightarrow> k + i - m = i - (m - k)" using h by simp
  show "bit (fld (push_bit m x) k n) i = bit (push_bit (m - k) x) i"
    using h e \<open>i < LENGTH(32)\<close> bit_narrow [of "i - (m - k)"]
    by (auto simp: bit_fld bit_simps le_diff_conv)
qed

lemma plain_above: "j \<le> k \<Longrightarrow> fld x k n = 0"
  by (rule bit_word_eqI) (auto simp: bit_fld bit_simps dest!: bit_narrow)

lemma plain_within: "j \<le> n \<Longrightarrow> fld x 0 n = x"
  by (rule bit_word_eqI) (auto simp: bit_fld dest: bit_narrow)

lemmas reads = push_above push_within plain_above plain_within

end

interpretation r5: field "R5 x" 5 for x
  by unfold_locales (rule fits_R5)

interpretation imm16: field "ucast (x :: u16)" 16 for x
  by unfold_locales (rule fits_ucast16)

text \<open>A masked value, kept folded so that its place in the word stays visible.\<close>

definition low :: "nat \<Rightarrow> u32 \<Rightarrow> u32" where
  "low n x = x AND mask n"

interpretation masked: field "low j x" j for j x
  by unfold_locales (simp add: low_def fits_and)

lemma push_below [fld_simps]: "k + n \<le> m \<Longrightarrow> fld (push_bit m x) k n = 0"
  by (rule bit_word_eqI) (auto simp: bit_fld bit_simps)

lemma fld_const [fld_simps]: "fld (numeral a) k n = take_bit n (drop_bit k (numeral a))"
  by (simp add: fld_def take_bit_eq_mask)

lemma fld_zero [fld_simps]: "fld 0 k n = 0"
  by (simp add: fld_def)

lemma fold_low [fld_simps]:
  "x AND 3 = low 2 x" "x AND 0xF = low 4 x" "x AND 0x7F = low 7 x" "x AND 0xFFF = low 12 x"
  "x AND 0x7FFFF = low 19 x" "x AND 0x3FFFFFF = low 26 x" "x AND 0x1F = low 5 x" "x AND 0x3F = low 6 x"
  by (simp_all add: low_def mask_eq_exp_minus_1)

lemmas [fld_simps] = r5.reads imm16.reads masked.reads

text \<open>A test of the decoder fails as soon as a part of the field differs from the constant.\<close>

lemma fld_fld: "i + j \<le> n \<Longrightarrow> fld (fld w k n) i j = fld w (k + i) j"
  by (rule bit_word_eqI) (auto simp: bit_fld add.assoc)

lemma fld_refute: "fld w (k + i) j = v \<Longrightarrow> i + j \<le> n \<Longrightarrow> fld c i j \<noteq> v \<Longrightarrow> fld w k n \<noteq> c"
  using fld_fld by metis

lemma not_special:
  assumes "fld w 26 6 \<noteq> 0x35"
  shows "w \<noteq> 0xD503201F" "w AND 0xFFFFFC1F \<noteq> 0xD61F0000" "w AND 0xFFFFFC1F \<noteq> 0xD63F0000"
    "w AND 0xFFFFFC1F \<noteq> 0xD65F0000"
proof -
  have a: "fld (w AND 0xFFFFFC1F) 26 6 = fld w 26 6"
  proof (rule bit_word_eqI)
    fix i assume "i < LENGTH(32)"
    have "bit (0xFFFFFC1F :: u32) (26 + i) \<longleftrightarrow> 26 + i < 32"
      by (cases "26 + i < 32") (auto simp: less_Suc_eq numeral_eq_Suc)
    then show "bit (fld (w AND 0xFFFFFC1F) 26 6) i = bit (fld w 26 6) i"
      by (auto simp: bit_fld bit_simps)
  qed
  have "fld (0xD503201F) 26 6 = 0x35" "fld 0xD61F0000 26 6 = 0x35" "fld 0xD63F0000 26 6 = 0x35"
    "fld 0xD65F0000 26 6 = 0x35" by (simp_all add: fld_simps)
  then show "w \<noteq> 0xD503201F" "w AND 0xFFFFFC1F \<noteq> 0xD61F0000" "w AND 0xFFFFFC1F \<noteq> 0xD63F0000"
    "w AND 0xFFFFFC1F \<noteq> 0xD65F0000" using a assms by metis+
qed

lemmas decode_defs = arm64_decode_def decode_init_def decode_data_def decode_arith_def decode_mem_def
  decode_branch_def

section \<open>Round trips\<close>

text \<open>\<open>decodes3 w op b d n m\<close>: the word decodes to \<open>op\<close> with the given width and the three registers.\<close>

definition decodes3 :: "u32 \<Rightarrow> Arm64DisOp \<Rightarrow> bool \<Rightarrow> Arm64Reg \<Rightarrow> Arm64Reg \<Rightarrow> Arm64Reg \<Rightarrow> bool" where
  "decodes3 w op is64 rd rn rm \<longleftrightarrow>
     (let i = arm64_decode w
      in dis_op i = op \<and> dis_is64 i = is64 \<and> dis_rd i = R5 rd \<and> dis_rn i = R5 rn \<and> dis_rm i = R5 rm)"

lemma is64_fld: "drop_bit 31 w = fld w 31 1"
  by (rule bit_word_eqI) (auto simp: bit_fld bit_simps dest: bit_imp_le_length)

lemma decode_add_reg: "decodes3 (arm64_add_reg b rd rn rm) ARM64_DIS_ADD_REG b rd rn rm"
  by (cases b) (simp_all add: decodes3_def Let_def decode_defs not_special is64_fld arm64_add_reg_def fld_simps)

lemma decode_sub_reg: "decodes3 (arm64_sub_reg b rd rn rm) ARM64_DIS_SUB_REG b rd rn rm"
  by (cases b) (simp_all add: decodes3_def Let_def decode_defs not_special is64_fld arm64_sub_reg_def fld_simps)

lemma decode_and_reg: "decodes3 (arm64_and_reg b rd rn rm) ARM64_DIS_AND_REG b rd rn rm"
  by (cases b) (simp_all add: decodes3_def Let_def decode_defs not_special is64_fld arm64_and_reg_def fld_simps)

lemma decode_eor_reg: "decodes3 (arm64_eor_reg b rd rn rm) ARM64_DIS_EOR_REG b rd rn rm"
  by (cases b) (simp_all add: decodes3_def Let_def decode_defs not_special is64_fld arm64_eor_reg_def fld_simps)

lemma decode_sdiv: "decodes3 (arm64_sdiv b rd rn rm) ARM64_DIS_SDIV b rd rn rm"
  by (cases b) (simp_all add: decodes3_def Let_def decode_defs not_special is64_fld arm64_sdiv_def fld_simps)

lemma decode_udiv: "decodes3 (arm64_udiv b rd rn rm) ARM64_DIS_UDIV b rd rn rm"
  by (cases b) (simp_all add: decodes3_def Let_def decode_defs not_special is64_fld arm64_udiv_def fld_simps)

lemma decode_lslv: "decodes3 (arm64_lslv b rd rn rm) ARM64_DIS_LSLV b rd rn rm"
  by (cases b) (simp_all add: decodes3_def Let_def decode_defs not_special is64_fld arm64_lslv_def fld_simps)

lemma decode_lsrv: "decodes3 (arm64_lsrv b rd rn rm) ARM64_DIS_LSRV b rd rn rm"
  by (cases b) (simp_all add: decodes3_def Let_def decode_defs not_special is64_fld arm64_lsrv_def fld_simps)

lemma decode_asrv: "decodes3 (arm64_asrv b rd rn rm) ARM64_DIS_ASRV b rd rn rm"
  by (cases b) (simp_all add: decodes3_def Let_def decode_defs not_special is64_fld arm64_asrv_def fld_simps)

lemma decode_csel: "decodes3 (arm64_csel b rd rn rm c) ARM64_DIS_CSEL b rd rn rm"
  by (cases b) (simp_all add: decodes3_def Let_def decode_defs not_special is64_fld arm64_csel_def fld_simps)

lemma decode_madd: "decodes3 (arm64_madd b rd rn rm ra) ARM64_DIS_MADD b rd rn rm"
  by (cases b) (simp_all add: decodes3_def Let_def decode_defs not_special is64_fld arm64_madd_def fld_simps)

lemma decode_msub: "decodes3 (arm64_msub b rd rn rm ra) ARM64_DIS_MSUB b rd rn rm"
  by (cases b) (simp_all add: decodes3_def Let_def decode_defs not_special is64_fld arm64_msub_def fld_simps)

lemma decode_orr_reg: "R5 rn \<noteq> 31 \<Longrightarrow> decodes3 (arm64_orr_reg b rd rn rm) ARM64_DIS_ORR_REG b rd rn rm"
  by (cases b) (simp_all add: decodes3_def Let_def decode_defs not_special is64_fld arm64_orr_reg_def fld_simps)

lemma decode_mov_reg: "decodes3 (arm64_mov_reg b rd rm) ARM64_DIS_MOV b rd 31 rm"
  by (cases b) (simp_all add: decodes3_def Let_def decode_defs not_special is64_fld arm64_mov_reg_def R5_def fld_simps)

end
