(* ===== verification/Arm64Roundtrip.thy ===== *)
theory Arm64Roundtrip
  imports Arm64Decode
begin

text \<open>
  Round trips of the immediate, memory and branch encodings: the decoder returns the offset that was
  encoded whenever it is a multiple of the access size and in the range of the field.
\<close>

section \<open>Sign extension\<close>

lemma xor_top_sub:
  fixes v :: u64
  assumes n: "n < 64"
  shows "(v XOR push_bit n 1) - push_bit n 1 = (if bit v n then v - 2 ^ Suc n else v)"
proof -
  let ?m = "push_bit n (1 :: u64)"
  have m: "?m = 2 ^ n" by (simp add: push_bit_eq_mult)
  have add: "a + ?m = a XOR ?m" if "\<not> bit a n" for a :: u64
  proof -
    have "a + ?m = a OR ?m" using that by (intro disjunctive_add) (auto simp: bit_simps)
    also have "\<dots> = a XOR ?m" using that by (intro bit_word_eqI) (auto simp: bit_simps)
    finally show ?thesis .
  qed
  show ?thesis
  proof (cases "bit v n")
    case True
    have "\<not> bit (v XOR ?m) n" using True n by (simp add: bit_simps)
    from add [OF this] have "(v XOR ?m) + ?m = v" by (simp add: xor.assoc)
    then have "v XOR ?m = v - ?m" by (simp add: algebra_simps)
    then show ?thesis using True by (simp add: m)
  next
    case False
    then show ?thesis using add [OF False] by (metis add_diff_cancel_right')
  qed
qed

lemma sign_extend_eq:
  assumes "0 < bits" "bits \<le> 32"
  shows "sign_extend value bits = word_of_int (signed_take_bit (bits - 1) (uint value))"
proof -
  obtain n where n: "bits = Suc n" using assms by (cases bits) auto
  define v :: u64 where "v = ucast value AND (push_bit bits 1 - 1)"
  have v: "v = take_bit bits (ucast value)"
    unfolding v_def by (simp add: take_bit_eq_mask mask_eq_exp_minus_1 push_bit_eq_mult)
  have uv: "uint v = take_bit bits (uint value)"
    using assms by (simp add: v unsigned_take_bit_eq unsigned_ucast_eq)
  have bv: "bit v n = bit (uint value) n" using assms by (auto simp: v n bit_simps)
  have "sign_extend value bits = (v XOR push_bit n 1) - push_bit n 1"
    by (simp add: sign_extend_def Let_def v_def n)
  also have "\<dots> = (if bit v n then v - 2 ^ Suc n else v)" by (rule xor_top_sub) (use assms n in simp)
  also have "\<dots> = word_of_int (uint v - (if bit v n then 2 ^ Suc n else 0))" by simp
  also have "uint v - (if bit v n then 2 ^ Suc n else 0) = signed_take_bit n (uint value)"
    unfolding uv bv n by (simp add: signed_take_bit_eq_take_bit_minus)
  finally show ?thesis by (simp add: n)
qed

lemma sign_extend_low:
  fixes x :: u32
  assumes b: "0 < b" "b \<le> 32" and r: "- (2 ^ (b - 1)) \<le> sint x" "sint x < 2 ^ (b - 1)"
  shows "sign_extend (low b x) b = word_of_int (sint x)"
proof -
  have "uint (low b x) = take_bit b (uint x)"
    by (simp add: low_def take_bit_eq_mask [symmetric] unsigned_take_bit_eq)
  also have "\<dots> = take_bit b (sint x)"
    using b by (simp add: uint_sint take_bit_take_bit min_def)
  finally have "signed_take_bit (b - 1) (uint (low b x)) = signed_take_bit (b - 1) (sint x)"
    using b by (auto simp: signed_take_bit_take_bit)
  also have "\<dots> = sint x" using r by (simp add: signed_take_bit_int_eq_self)
  finally show ?thesis by (simp add: sign_extend_eq [OF b])
qed

section \<open>Branches\<close>

lemma sint_sar2: "sint (signed_drop_bit 2 (x :: u32)) = sint x div 4"
  by (simp add: sint_signed_drop_bit_eq drop_bit_eq_div)

lemma branch_offset:
  fixes off :: i32
  assumes "4 dvd sint off" and "0 < b" "b \<le> 32" "- (2 ^ (b + 1)) \<le> sint off" "sint off < 2 ^ (b + 1)"
  shows "sign_extend (low b (signed_drop_bit 2 off)) b * 4 = word_of_int (sint off)"
proof -
  obtain q where q: "sint off = 4 * q" using assms(1) by (elim dvdE)
  have p: "(2::int) ^ (b + 1) = 4 * 2 ^ (b - 1)" using assms(2) by (cases b) simp_all
  have "sign_extend (low b (signed_drop_bit 2 off)) b = word_of_int q"
    using assms sign_extend_low [of b "signed_drop_bit 2 off"] unfolding sint_sar2 p by (simp add: q)
  then show ?thesis by (simp add: q)
qed

definition branch_ok :: "i32 \<Rightarrow> nat \<Rightarrow> bool" where
  "branch_ok off n \<longleftrightarrow> 4 dvd sint off \<and> - (2 ^ (n + 1)) \<le> sint off \<and> sint off < 2 ^ (n + 1)"

text \<open>The top bits of a branch refute every earlier test of the decoder.\<close>

lemma decode_top6:
  assumes t: "fld w 26 6 = t" and tt: "t = 0x05 \<or> t = 0x25"
  shows "arm64_decode w = (decode_init w)\<lparr>dis_imm := sign_extend (fld w 0 26) 26 * 4,
           dis_op := (if t = 0x05 then ARM64_DIS_B else ARM64_DIS_BL)\<rparr>"
proof -
  have sp: "fld w 26 6 \<noteq> 0x35" using t tt by auto
  have f3: "fld w (23 + 3) 3 = 5" "fld w (24 + 2) 3 = 5" "fld w (21 + 5) 3 = 5"
    "fld w (27 + 0) 3 = 2" "fld w (25 + 1) 5 = 5" "fld w (24 + 2) 6 = t"
    using tt fld_fld [of 0 3 6 w 26] fld_fld [of 1 3 6 w 26] fld_fld [of 0 5 6 w 26] unfolding t
    by (auto simp: fld_const t)
  note r = f3(1) [THEN fld_refute] f3(2) [THEN fld_refute] f3(3) [THEN fld_refute] f3(4) [THEN fld_refute]
    f3(5) [THEN fld_refute] f3(6) [THEN fld_refute]
  have n: "fld w 23 6 \<noteq> 0x25" "fld w 23 6 \<noteq> 0x22" "fld w 23 6 \<noteq> 0x26" "fld w 24 5 \<noteq> 0x0A" "fld w 24 5 \<noteq> 0x0B"
    "fld w 24 5 \<noteq> 0x1B" "fld w 21 8 \<noteq> 0xD6" "fld w 21 8 \<noteq> 0xD4" "fld w 27 3 \<noteq> 7" "fld w 27 3 \<noteq> 5"
    "fld w 25 6 \<noteq> 0x1A" "fld w 24 8 \<noteq> 0x54"
    by (rule r; use tt in \<open>auto simp: fld_const\<close>)+
  then show ?thesis using t tt not_special [OF sp] by (auto simp: decode_defs)
qed

lemma decode_b:
  assumes "branch_ok off 26"
  shows "dis_op (arm64_decode (arm64_b off)) = ARM64_DIS_B \<and> dis_imm (arm64_decode (arm64_b off)) = word_of_int (sint off)"
proof -
  have t: "fld (arm64_b off) 26 6 = 0x05" "fld (arm64_b off) 0 26 = low 26 (signed_drop_bit 2 off)"
    by (simp_all add: arm64_b_def fld_simps)
  show ?thesis using decode_top6 [OF t(1)] assms branch_offset [of off 26]
    by (simp add: t(2) branch_ok_def)
qed

lemma decode_bl:
  assumes "branch_ok off 26"
  shows "dis_op (arm64_decode (arm64_bl off)) = ARM64_DIS_BL \<and> dis_imm (arm64_decode (arm64_bl off)) = word_of_int (sint off)"
proof -
  have t: "fld (arm64_bl off) 26 6 = 0x25" "fld (arm64_bl off) 0 26 = low 26 (signed_drop_bit 2 off)"
    by (simp_all add: arm64_bl_def fld_simps)
  show ?thesis using decode_top6 [OF t(1)] assms branch_offset [of off 26]
    by (simp add: t(2) branch_ok_def)
qed

text \<open>Conditional branches: bits 24 to 30 decide.\<close>

lemma decode_top7:
  assumes t: "fld w 24 7 = t" and tt: "t = 0x34 \<or> t = 0x35"
  shows "arm64_decode w = (decode_init w)\<lparr>dis_imm := sign_extend (fld w 5 19) 19 * 4,
           dis_op := (if t = 0x35 then ARM64_DIS_CBNZ else ARM64_DIS_CBZ)\<rparr>"
proof -
  have f: "fld w (24 + 0) 5 = t - 0x20" "fld w (23 + 1) 5 = t - 0x20" "fld w (21 + 3) 5 = t - 0x20"
    "fld w 27 3 = 6" "fld w 25 6 = 0x1A" "fld w 24 1 = t - 0x34" "fld w (26 + 0) 3 = 5"
    using tt fld_fld [of 0 5 7 w 24] fld_fld [of 3 3 7 w 24] fld_fld [of 1 6 7 w 24] fld_fld [of 0 1 7 w 24]
      fld_fld [of 2 3 7 w 24] unfolding t
    by (auto simp: fld_const t)
  have sp: "fld w 26 6 \<noteq> 0x35"
  proof -
    have "fld w (26 + 3) 2 = 1" using tt fld_fld [of 5 2 7 w 24] unfolding t by (auto simp: fld_const)
    from fld_refute [OF this] show ?thesis by (simp add: fld_const)
  qed
  note r = f(1) [THEN fld_refute] f(2) [THEN fld_refute] f(3) [THEN fld_refute]
  have n: "fld w 23 6 \<noteq> 0x25" "fld w 23 6 \<noteq> 0x22" "fld w 23 6 \<noteq> 0x26" "fld w 24 5 \<noteq> 0x0A" "fld w 24 5 \<noteq> 0x0B"
    "fld w 24 5 \<noteq> 0x1B" "fld w 21 8 \<noteq> 0xD6" "fld w 21 8 \<noteq> 0xD4"
    by (rule r; use tt in \<open>auto simp: fld_const\<close>)+
  then show ?thesis using f tt not_special [OF sp] by (auto simp: decode_defs)
qed

definition decodes_cb :: "u32 \<Rightarrow> Arm64DisOp \<Rightarrow> bool \<Rightarrow> Arm64Reg \<Rightarrow> i32 \<Rightarrow> bool" where
  "decodes_cb w op is64 rt off \<longleftrightarrow>
     (let i = arm64_decode w
      in dis_op i = op \<and> dis_is64 i = is64 \<and> dis_rt i = R5 rt \<and> dis_imm i = word_of_int (sint off))"

lemma decode_cbz:
  assumes "branch_ok off 19"
  shows "decodes_cb (arm64_cbz b rt off) ARM64_DIS_CBZ b rt off"
proof -
  have t: "fld (arm64_cbz b rt off) 24 7 = 0x34" "fld (arm64_cbz b rt off) 5 19 = low 19 (signed_drop_bit 2 off)"
    "fld (arm64_cbz b rt off) 0 5 = R5 rt" "(fld (arm64_cbz b rt off) 31 1 \<noteq> 0) = b"
    by (cases b; simp add: arm64_cbz_def fld_simps)+
  show ?thesis using decode_top7 [OF t(1)] assms branch_offset [of off 19] t(4)
    by (simp add: decodes_cb_def t decode_init_def is64_fld branch_ok_def)
qed

lemma decode_cbnz:
  assumes "branch_ok off 19"
  shows "decodes_cb (arm64_cbnz b rt off) ARM64_DIS_CBNZ b rt off"
proof -
  have t: "fld (arm64_cbnz b rt off) 24 7 = 0x35" "fld (arm64_cbnz b rt off) 5 19 = low 19 (signed_drop_bit 2 off)"
    "fld (arm64_cbnz b rt off) 0 5 = R5 rt" "(fld (arm64_cbnz b rt off) 31 1 \<noteq> 0) = b"
    by (cases b; simp add: arm64_cbnz_def fld_simps)+
  show ?thesis using decode_top7 [OF t(1)] assms branch_offset [of off 19] t(4)
    by (simp add: decodes_cb_def t decode_init_def is64_fld branch_ok_def)
qed

lemma decode_bcond_word:
  assumes t: "fld w 24 8 = 0x54"
  shows "arm64_decode w = (decode_init w)\<lparr>dis_cond := fld w 0 4,
           dis_imm := sign_extend (fld w 5 19) 19 * 4, dis_op := ARM64_DIS_BCOND\<rparr>"
proof -
  have f: "fld w (24 + 0) 5 = 0x14" "fld w (23 + 1) 5 = 0x14" "fld w (21 + 3) 5 = 0x14"
    "fld w 27 3 = 2" "fld w (25 + 0) 6 = 0x2A" "fld w (26 + 0) 6 = 0x15"
    using fld_fld [of 0 5 8 w 24] fld_fld [of 3 3 8 w 24] fld_fld [of 1 6 8 w 24] fld_fld [of 2 6 8 w 24]
    unfolding t by (auto simp: fld_const)
  have sp: "fld w 26 6 \<noteq> 0x35" using f(6) by simp
  note r = f(1) [THEN fld_refute] f(2) [THEN fld_refute] f(3) [THEN fld_refute] f(5) [THEN fld_refute]
  have n: "fld w 23 6 \<noteq> 0x25" "fld w 23 6 \<noteq> 0x22" "fld w 23 6 \<noteq> 0x26" "fld w 24 5 \<noteq> 0x0A" "fld w 24 5 \<noteq> 0x0B"
    "fld w 24 5 \<noteq> 0x1B" "fld w 21 8 \<noteq> 0xD6" "fld w 21 8 \<noteq> 0xD4" "fld w 25 6 \<noteq> 0x1A"
    by (rule r; auto simp: fld_const)+
  then show ?thesis using f t not_special [OF sp] by (auto simp: decode_defs)
qed

lemma decode_bcond:
  assumes "branch_ok off 19"
  shows "dis_op (arm64_decode (arm64_bcond c off)) = ARM64_DIS_BCOND \<and>
     dis_cond (arm64_decode (arm64_bcond c off)) = c AND 0xF \<and>
     dis_imm (arm64_decode (arm64_bcond c off)) = word_of_int (sint off)"
proof -
  have t: "fld (arm64_bcond c off) 24 8 = 0x54" "fld (arm64_bcond c off) 5 19 = low 19 (signed_drop_bit 2 off)"
    "fld (arm64_bcond c off) 0 4 = c AND 0xF"
    by (simp_all add: arm64_bcond_def fld_simps)
  show ?thesis using decode_bcond_word [OF t(1)] assms branch_offset [of off 19]
    by (simp add: t branch_ok_def)
qed

section \<open>Loads and stores\<close>

lemma scaled_offset:
  fixes off :: i32
  assumes "0 < k" "k dvd sint off" "sint (word_of_int k :: i32) = k"
    and "- (2 ^ n * k) \<le> sint off" "sint off < 2 ^ n * k" "n \<le> 31"
  shows "sint (c_div32 off (word_of_int k)) = sint off div k" and "sint off div k * k = sint off"
    and "- (2 ^ n) \<le> sint off div k" "sint off div k < 2 ^ n"
proof -
  obtain q where q: "sint off = q * k" using assms(2) by (metis dvdE mult.commute)
  show b: "- (2 ^ n) \<le> sint off div k" "sint off div k < 2 ^ n" and "sint off div k * k = sint off"
    using assms(1,4,5) by (simp_all add: q) (metis minus_mult_left mult_le_cancel_right not_less_iff_gr_or_eq)
  have "(2::int) ^ n \<le> 2 ^ 31" using assms(6) by (intro power_increasing) simp_all
  moreover have "sint off sdiv k = sint off div k"
    using assms(1) by (simp add: q signed_divide_int_def abs_mult sgn_mult mult.assoc)
       (metis mult_sgn_abs mult.commute)
  ultimately show "sint (c_div32 off (word_of_int k)) = sint off div k"
    using b assms(3) by (simp add: c_div32_def sint_sbintrunc' signed_take_bit_int_eq_self)
qed

lemma ucast_low:
  fixes x :: u32
  assumes "0 \<le> sint x" "sint x < 2 ^ b" "b \<le> 31"
  shows "(ucast (low b x) :: i64) = word_of_int (sint x)"
proof -
  have "uint (low b x) = take_bit b (uint x)"
    by (simp add: low_def take_bit_eq_mask [symmetric] unsigned_take_bit_eq)
  also have "\<dots> = take_bit b (sint x)"
    using assms by (simp add: uint_sint take_bit_take_bit min_def)
  also have "\<dots> = sint x" using assms by (simp add: take_bit_int_eq_self)
  finally show ?thesis by (metis ucast_eq)
qed

definition mem_scale :: "bool \<Rightarrow> int" where "mem_scale is64 = (if is64 then 8 else 4)"

lemma mem_scale_word: "(if b then 8 else 4 :: i32) = word_of_int (mem_scale b)"
  "(if b then 8 else 4 :: i64) = word_of_int (mem_scale b)"
  "sint (word_of_int (mem_scale b) :: i32) = mem_scale b" "0 < mem_scale b"
  by (simp_all add: mem_scale_def)

definition decodes_mem :: "u32 \<Rightarrow> Arm64DisOp \<Rightarrow> bool \<Rightarrow> Arm64Reg \<Rightarrow> Arm64Reg \<Rightarrow> i32 \<Rightarrow> bool" where
  "decodes_mem w op is64 rt rn off \<longleftrightarrow>
     (let i = arm64_decode w
      in dis_op i = op \<and> dis_is64 i = is64 \<and> dis_rt i = R5 rt \<and> dis_rn i = R5 rn \<and>
         dis_imm i = word_of_int (sint off))"

lemma mem_imm:
  fixes off :: i32
  assumes "mem_scale b dvd sint off" "0 \<le> sint off" "sint off < 4096 * mem_scale b"
  shows "ucast (low 12 (c_div32 off (word_of_int (mem_scale b)))) * word_of_int (mem_scale b)
       = (word_of_int (sint off) :: i64)"
proof -
  have "- (2 ^ 12 * mem_scale b) \<le> sint off" using assms(2) by (simp add: mem_scale_def)
  note sc = scaled_offset [of "mem_scale b" off 12, OF mem_scale_word(4) assms(1) mem_scale_word(3) this]
  have q: "sint (c_div32 off (word_of_int (mem_scale b))) = sint off div mem_scale b"
     "sint off div mem_scale b * mem_scale b = sint off" "sint off div mem_scale b < 2 ^ 12"
    using sc assms(3) by simp_all
  have p: "0 \<le> sint off div mem_scale b" using assms(2) mem_scale_word(4) [of b] by (simp add: pos_imp_zdiv_nonneg_iff)
  have "(ucast (low 12 (c_div32 off (word_of_int (mem_scale b)))) :: i64) = word_of_int (sint off div mem_scale b)"
    using ucast_low [of "c_div32 off (word_of_int (mem_scale b))" 12] q p by simp
  then show ?thesis using q(2) by (metis of_int_mult)
qed

lemma decode_ldst_word:
  assumes "fld w 22 8 = (if ld then 0xE5 else 0xE4)" and "(fld w 30 2 = 3) = b"
  shows "arm64_decode w = (decode_init w)\<lparr>dis_is64 := b, dis_imm := ucast (fld w 10 12) * (if b then 8 else 4),
           dis_op := (if ld then ARM64_DIS_LDR_IMM else ARM64_DIS_STR_IMM)\<rparr>"
proof -
  have f: "fld w (26 + 0) 4 = 0xE" "fld w 23 6 = 0x32" "fld w 24 5 = 0x19" "fld w (21 + 1) 7 = (if ld then 0x65 else 0x64)"
    "fld w 27 3 = 7" "fld w 26 1 = 0" "fld w 24 2 = 1" "fld w 22 2 = (if ld then 1 else 0)"
    using assms(1) fld_fld [of 4 4 8 w 22] fld_fld [of 1 6 8 w 22] fld_fld [of 2 5 8 w 22] fld_fld [of 0 7 8 w 22]
      fld_fld [of 5 3 8 w 22] fld_fld [of 4 1 8 w 22] fld_fld [of 2 2 8 w 22] fld_fld [of 0 2 8 w 22]
    by (cases ld; auto simp: fld_const)+
  have sp: "fld w 26 6 \<noteq> 0x35" by (rule fld_refute [OF f(1)]) (simp_all add: fld_const)
  have n: "fld w 21 8 \<noteq> 0xD6" "fld w 21 8 \<noteq> 0xD4"
    by (rule fld_refute [OF f(4)]; simp add: fld_const)+
  then show ?thesis using f assms(2) not_special [OF sp] by (auto simp: decode_defs Let_def)
qed

lemma decode_ldst:
  assumes "mem_scale b dvd sint off" "0 \<le> sint off" "sint off < 4096 * mem_scale b"
  shows "decodes_mem (arm64_ldr_imm b rt rn off) ARM64_DIS_LDR_IMM b rt rn off"
    and "decodes_mem (arm64_str_imm b rt rn off) ARM64_DIS_STR_IMM b rt rn off"
proof -
  have t: "fld (arm64_ldr_imm b rt rn off) 22 8 = (if True then 0xE5 else 0xE4)" "(fld (arm64_ldr_imm b rt rn off) 30 2 = 3) = b"
    "fld (arm64_ldr_imm b rt rn off) 10 12 = low 12 (c_div32 off (if b then 8 else 4))"
    "fld (arm64_ldr_imm b rt rn off) 0 5 = R5 rt" "fld (arm64_ldr_imm b rt rn off) 5 5 = R5 rn"
    by (cases b; simp add: arm64_ldr_imm_def fld_simps)+
  show "decodes_mem (arm64_ldr_imm b rt rn off) ARM64_DIS_LDR_IMM b rt rn off"
    unfolding decodes_mem_def decode_ldst_word [OF t(1,2)] Let_def using mem_imm [OF assms]
    by (simp add: t(3-5) decode_init_def mem_scale_word(1,2))
  have u: "fld (arm64_str_imm b rt rn off) 22 8 = (if False then 0xE5 else 0xE4)" "(fld (arm64_str_imm b rt rn off) 30 2 = 3) = b"
    "fld (arm64_str_imm b rt rn off) 10 12 = low 12 (c_div32 off (if b then 8 else 4))"
    "fld (arm64_str_imm b rt rn off) 0 5 = R5 rt" "fld (arm64_str_imm b rt rn off) 5 5 = R5 rn"
    by (cases b; simp add: arm64_str_imm_def fld_simps)+
  show "decodes_mem (arm64_str_imm b rt rn off) ARM64_DIS_STR_IMM b rt rn off"
    unfolding decodes_mem_def decode_ldst_word [OF u(1,2)] Let_def using mem_imm [OF assms]
    by (simp add: u(3-5) decode_init_def mem_scale_word(1,2))
qed

text \<open>Pairs: a signed seven-bit field.\<close>

lemma pair_imm:
  fixes off :: i32
  assumes "mem_scale b dvd sint off" "- (64 * mem_scale b) \<le> sint off" "sint off < 64 * mem_scale b"
  shows "sign_extend (low 7 (c_div32 off (word_of_int (mem_scale b)))) 7 * word_of_int (mem_scale b)
       = (word_of_int (sint off) :: i64)"
proof -
  have q: "sint (c_div32 off (word_of_int (mem_scale b))) = sint off div mem_scale b"
     "sint off div mem_scale b * mem_scale b = sint off" "- (2 ^ 6) \<le> sint off div mem_scale b" "sint off div mem_scale b < 2 ^ 6"
    using scaled_offset [of "mem_scale b" off 6, OF mem_scale_word(4) assms(1) mem_scale_word(3)] assms(2,3) by simp_all
  have "sign_extend (low 7 (c_div32 off (word_of_int (mem_scale b)))) 7 = word_of_int (sint off div mem_scale b)"
    using sign_extend_low [of 7 "c_div32 off (word_of_int (mem_scale b))"] q by simp
  then show ?thesis using q(2) by (metis of_int_mult)
qed

lemma decode_pair_word:
  assumes "fld w 22 8 = (if ld then 0xA3 else 0xA6)" and "fld w 30 2 = (if b then 2 else 0)"
  shows "arm64_decode w = (decode_init w)\<lparr>dis_is64 := b, dis_rt2 := fld w 10 5,
           dis_imm := sign_extend (fld w 15 7) 7 * (if b then 8 else 4),
           dis_op := (if ld then ARM64_DIS_LDP else ARM64_DIS_STP)\<rparr>"
proof -
  have f: "fld w (26 + 0) 4 = 0xA" "fld w 23 6 = (if ld then 0x11 else 0x13)" "fld w 24 5 = (if ld then 8 else 9)"
    "fld w (21 + 1) 7 = (if ld then 0x23 else 0x26)" "fld w 27 3 = 5" "fld w 26 1 = 0" "fld w 22 1 = (if ld then 1 else 0)"
    using assms(1) fld_fld [of 4 4 8 w 22] fld_fld [of 1 6 8 w 22] fld_fld [of 2 5 8 w 22] fld_fld [of 0 7 8 w 22]
      fld_fld [of 5 3 8 w 22] fld_fld [of 4 1 8 w 22] fld_fld [of 0 1 8 w 22]
    by (cases ld; auto simp: fld_const)+
  have sp: "fld w 26 6 \<noteq> 0x35" by (rule fld_refute [OF f(1)]) (simp_all add: fld_const)
  have n: "fld w 21 8 \<noteq> 0xD6" "fld w 21 8 \<noteq> 0xD4"
    by (rule fld_refute [OF f(4)]; simp add: fld_const)+
  then show ?thesis using f assms(2) not_special [OF sp] by (auto simp: decode_defs Let_def)
qed

lemma decode_pair:
  assumes "mem_scale b dvd sint off" "- (64 * mem_scale b) \<le> sint off" "sint off < 64 * mem_scale b"
  shows "decodes_mem (arm64_stp_pre b rt rt2 rn off) ARM64_DIS_STP b rt rn off \<and>
      dis_rt2 (arm64_decode (arm64_stp_pre b rt rt2 rn off)) = R5 rt2"
    and "decodes_mem (arm64_ldp_post b rt rt2 rn off) ARM64_DIS_LDP b rt rn off \<and>
      dis_rt2 (arm64_decode (arm64_ldp_post b rt rt2 rn off)) = R5 rt2"
proof -
  let ?w = "arm64_stp_pre b rt rt2 rn off"
  have t: "fld ?w 22 8 = (if False then 0xA3 else 0xA6)" "fld ?w 30 2 = (if b then 2 else 0)"
    "fld ?w 15 7 = low 7 (c_div32 off (if b then 8 else 4))" "fld ?w 10 5 = R5 rt2"
    "fld ?w 0 5 = R5 rt" "fld ?w 5 5 = R5 rn"
    by (cases b; simp add: arm64_stp_pre_def fld_simps)+
  show "decodes_mem ?w ARM64_DIS_STP b rt rn off \<and> dis_rt2 (arm64_decode ?w) = R5 rt2"
    unfolding decodes_mem_def decode_pair_word [OF t(1,2)] Let_def using pair_imm [OF assms]
    by (simp add: t(3-6) decode_init_def mem_scale_word(1,2))
  let ?v = "arm64_ldp_post b rt rt2 rn off"
  have u: "fld ?v 22 8 = (if True then 0xA3 else 0xA6)" "fld ?v 30 2 = (if b then 2 else 0)"
    "fld ?v 15 7 = low 7 (c_div32 off (if b then 8 else 4))" "fld ?v 10 5 = R5 rt2"
    "fld ?v 0 5 = R5 rt" "fld ?v 5 5 = R5 rn"
    by (cases b; simp add: arm64_ldp_post_def fld_simps)+
  show "decodes_mem ?v ARM64_DIS_LDP b rt rn off \<and> dis_rt2 (arm64_decode ?v) = R5 rt2"
    unfolding decodes_mem_def decode_pair_word [OF u(1,2)] Let_def using pair_imm [OF assms]
    by (simp add: u(3-6) decode_init_def mem_scale_word(1,2))
qed

section \<open>Immediates and register branches\<close>

definition decodes_imm :: "u32 \<Rightarrow> Arm64DisOp \<Rightarrow> bool \<Rightarrow> Arm64Reg \<Rightarrow> Arm64Reg \<Rightarrow> i64 \<Rightarrow> bool" where
  "decodes_imm w op is64 rd rn imm \<longleftrightarrow>
     (let i = arm64_decode w
      in dis_op i = op \<and> dis_is64 i = is64 \<and> dis_rd i = R5 rd \<and> dis_rn i = R5 rn \<and> dis_imm i = imm)"

lemma decode_addsub_imm:
  shows "decodes_imm (arm64_add_imm b rd rn imm s) ARM64_DIS_ADD_IMM b rd rn (push_bit (if s then 12 else 0) (ucast (low 12 imm)))"
    and "decodes_imm (arm64_sub_imm b rd rn imm s) ARM64_DIS_SUB_IMM b rd rn (push_bit (if s then 12 else 0) (ucast (low 12 imm)))"
    and "decodes_imm (arm64_cmp_imm b rn imm s) ARM64_DIS_SUBS_IMM b 31 rn (push_bit (if s then 12 else 0) (ucast (low 12 imm)))"
  by (cases b; cases s; simp add: decodes_imm_def Let_def decode_defs not_special is64_fld
      arm64_add_imm_def arm64_sub_imm_def arm64_cmp_imm_def R5_def fld_simps)+

definition decodes_wide :: "u32 \<Rightarrow> Arm64DisOp \<Rightarrow> bool \<Rightarrow> Arm64Reg \<Rightarrow> u16 \<Rightarrow> u32 \<Rightarrow> bool" where
  "decodes_wide w op is64 rd imm hw \<longleftrightarrow>
     (let i = arm64_decode w
      in dis_op i = op \<and> dis_is64 i = is64 \<and> dis_rd i = R5 rd \<and> dis_imm i = ucast imm \<and> dis_hw i = hw AND 3)"

lemma ucast_ucast16: "(ucast (ucast (x :: u16) :: u32) :: i64) = ucast x"
  by (rule bit_word_eqI) (auto simp: bit_simps dest: bit_imp_le_length)

lemma decode_wide:
  shows "decodes_wide (arm64_movz b rd imm hw) ARM64_DIS_MOVZ b rd imm hw"
    and "decodes_wide (arm64_movn b rd imm hw) ARM64_DIS_MOVN b rd imm hw"
    and "decodes_wide (arm64_movk b rd imm hw) ARM64_DIS_MOVK b rd imm hw"
  by (cases b; simp add: decodes_wide_def Let_def decode_defs not_special is64_fld ucast_ucast16
      arm64_movz_def arm64_movn_def arm64_movk_def fld_simps)+

lemma r5_masked_off: "push_bit 5 (R5 x) AND 0xFFFFFC1F = 0"
proof (rule bit_word_eqI)
  fix i assume i: "i < LENGTH(32)"
  show "bit (push_bit 5 (R5 x) AND 0xFFFFFC1F) i = bit (0 :: u32) i"
  proof (cases "5 \<le> i \<and> i < 10")
    case True
    then have "i = 5 \<or> i = 6 \<or> i = 7 \<or> i = 8 \<or> i = 9" by arith
    then show ?thesis by (auto simp: bit_simps)
  next
    case False
    then show ?thesis using r5.bit_narrow [of x "i - 5"] by (auto simp: bit_simps)
  qed
qed

lemma decode_br:
  shows "dis_op (arm64_decode (arm64_br r)) = ARM64_DIS_BR \<and> dis_rn (arm64_decode (arm64_br r)) = R5 r"
    and "dis_op (arm64_decode (arm64_blr r)) = ARM64_DIS_BLR \<and> dis_rn (arm64_decode (arm64_blr r)) = R5 r"
    and "dis_op (arm64_decode (arm64_ret r)) = ARM64_DIS_RET \<and> dis_rn (arm64_decode (arm64_ret r)) = R5 r"
proof -
  have d: "(c OR push_bit 5 (R5 r)) AND 0xFFFFFC1F = c AND 0xFFFFFC1F" for c
    by (simp only: bit.conj_disj_distrib2 r5_masked_off or.right_neutral)
  have nn: "c OR push_bit 5 (R5 r) \<noteq> 0xD503201F" if "c AND 0xFFFFFC1F \<noteq> 0xD503201F AND 0xFFFFFC1F" for c
    using that d [of c] by metis
  show "dis_op (arm64_decode (arm64_br r)) = ARM64_DIS_BR \<and> dis_rn (arm64_decode (arm64_br r)) = R5 r"
    and "dis_op (arm64_decode (arm64_blr r)) = ARM64_DIS_BLR \<and> dis_rn (arm64_decode (arm64_blr r)) = R5 r"
    and "dis_op (arm64_decode (arm64_ret r)) = ARM64_DIS_RET \<and> dis_rn (arm64_decode (arm64_ret r)) = R5 r"
    by (simp_all add: arm64_decode_def decode_data_def decode_init_def Let_def nn d arm64_br_def arm64_blr_def arm64_ret_def fld_simps)
qed

section \<open>Properties\<close>

text \<open>Register forms: for every width and all registers, decoding what the encoder of a
  three-register instruction wrote returns the operation, the width and the three registers (an \<open>orr\<close>
  whose first source is register 31 is the move alias).\<close>

theorem arm64_register_roundtrip:
  "decodes3 (arm64_add_reg b rd rn rm) ARM64_DIS_ADD_REG b rd rn rm \<and>
   decodes3 (arm64_sub_reg b rd rn rm) ARM64_DIS_SUB_REG b rd rn rm \<and>
   decodes3 (arm64_and_reg b rd rn rm) ARM64_DIS_AND_REG b rd rn rm \<and>
   decodes3 (arm64_eor_reg b rd rn rm) ARM64_DIS_EOR_REG b rd rn rm \<and>
   decodes3 (arm64_orr_reg b rd rn rm) (if R5 rn = 31 then ARM64_DIS_MOV else ARM64_DIS_ORR_REG) b rd rn rm \<and>
   decodes3 (arm64_mul b rd rn rm) ARM64_DIS_MADD b rd rn rm \<and>
   decodes3 (arm64_msub b rd rn rm ra) ARM64_DIS_MSUB b rd rn rm \<and>
   decodes3 (arm64_sdiv b rd rn rm) ARM64_DIS_SDIV b rd rn rm \<and>
   decodes3 (arm64_udiv b rd rn rm) ARM64_DIS_UDIV b rd rn rm \<and>
   decodes3 (arm64_lslv b rd rn rm) ARM64_DIS_LSLV b rd rn rm \<and>
   decodes3 (arm64_lsrv b rd rn rm) ARM64_DIS_LSRV b rd rn rm \<and>
   decodes3 (arm64_asrv b rd rn rm) ARM64_DIS_ASRV b rd rn rm \<and>
   decodes3 (arm64_csel b rd rn rm c) ARM64_DIS_CSEL b rd rn rm"
proof -
  have "decodes3 (arm64_orr_reg b rd rn rm) (if R5 rn = 31 then ARM64_DIS_MOV else ARM64_DIS_ORR_REG) b rd rn rm"
    by (cases b) (simp_all add: decodes3_def Let_def decode_defs not_special is64_fld arm64_orr_reg_def fld_simps)
  then show ?thesis
    by (simp only: decode_add_reg decode_sub_reg decode_and_reg decode_eor_reg arm64_mul_def decode_madd decode_msub
        decode_sdiv decode_udiv decode_lslv decode_lsrv decode_asrv decode_csel)
qed

text \<open>Immediate forms: decoding returns the operation, the width, the registers and the immediate,
  shifted by twelve when the shift bit was set, for add, sub, cmp, and the 16-bit immediate with its half-word
  index for movz, movn and movk; a register branch returns its register.\<close>

theorem arm64_immediate_roundtrip:
  "decodes_imm (arm64_add_imm b rd rn imm s) ARM64_DIS_ADD_IMM b rd rn (push_bit (if s then 12 else 0) (ucast (low 12 imm))) \<and>
   decodes_imm (arm64_sub_imm b rd rn imm s) ARM64_DIS_SUB_IMM b rd rn (push_bit (if s then 12 else 0) (ucast (low 12 imm))) \<and>
   decodes_imm (arm64_cmp_imm b rn imm s) ARM64_DIS_SUBS_IMM b 31 rn (push_bit (if s then 12 else 0) (ucast (low 12 imm))) \<and>
   decodes_wide (arm64_movz b rd imm16 hw) ARM64_DIS_MOVZ b rd imm16 hw \<and>
   decodes_wide (arm64_movn b rd imm16 hw) ARM64_DIS_MOVN b rd imm16 hw \<and>
   decodes_wide (arm64_movk b rd imm16 hw) ARM64_DIS_MOVK b rd imm16 hw \<and>
   dis_op (arm64_decode (arm64_br rn)) = ARM64_DIS_BR \<and> dis_rn (arm64_decode (arm64_br rn)) = R5 rn \<and>
   dis_op (arm64_decode (arm64_blr rn)) = ARM64_DIS_BLR \<and> dis_rn (arm64_decode (arm64_blr rn)) = R5 rn \<and>
   dis_op (arm64_decode (arm64_ret rn)) = ARM64_DIS_RET \<and> dis_rn (arm64_decode (arm64_ret rn)) = R5 rn"
  by (simp only: decode_addsub_imm decode_wide decode_br)

text \<open>C18. Branches: whenever the byte offset is a multiple of four within the reach of the field
  (128 MB for b and bl, 1 MB for the conditional ones), decoding returns the operation and exactly that offset,
  sign included.\<close>

theorem arm64_branch_roundtrip:
  assumes "branch_ok off 26" and "branch_ok coff 19"
  shows "dis_op (arm64_decode (arm64_b off)) = ARM64_DIS_B \<and> dis_imm (arm64_decode (arm64_b off)) = word_of_int (sint off) \<and>
   dis_op (arm64_decode (arm64_bl off)) = ARM64_DIS_BL \<and> dis_imm (arm64_decode (arm64_bl off)) = word_of_int (sint off) \<and>
   dis_op (arm64_decode (arm64_bcond c coff)) = ARM64_DIS_BCOND \<and> dis_cond (arm64_decode (arm64_bcond c coff)) = c AND 0xF \<and>
   dis_imm (arm64_decode (arm64_bcond c coff)) = word_of_int (sint coff) \<and>
   decodes_cb (arm64_cbz b rt coff) ARM64_DIS_CBZ b rt coff \<and> decodes_cb (arm64_cbnz b rt coff) ARM64_DIS_CBNZ b rt coff"
  using decode_b [OF assms(1)] decode_bl [OF assms(1)] decode_bcond [OF assms(2)] decode_cbz [OF assms(2)]
    decode_cbnz [OF assms(2)] by blast

lemma sint32_neg8: "sint (- 8 :: i32) = - 8"
  using sint_sbintrunc' [of "-8", where 'a = 32] by (simp add: signed_take_bit_int_eq_self)

theorem arm64_branch_roundtrip_witness:
  "dis_imm (arm64_decode (arm64_b (-8))) = -8 \<and> dis_imm (arm64_decode (arm64_bcond 1 16)) = 16"
proof -
  have "branch_ok (-8) 26" by (simp add: branch_ok_def sint32_neg8)
  moreover have "branch_ok 16 19" by (simp add: branch_ok_def)
  ultimately show ?thesis using arm64_branch_roundtrip [of "-8" 16 1] by (simp add: sint32_neg8)
qed



text \<open>The decoder has no case for the flag-setting AND and none for byte accesses: it names the word of
  \<open>arm64_tst\<close> an ORR, and it returns the offset of a byte load multiplied by four.\<close>

theorem arm64_decode_misreads:
  "dis_op (arm64_decode (arm64_tst b rn rm)) = ARM64_DIS_ORR_REG \<and>
   dis_op (arm64_decode (arm64_ldrb_imm rt rn off)) = ARM64_DIS_LDR_IMM \<and>
   dis_imm (arm64_decode (arm64_ldrb_imm rt rn off)) = ucast (low 12 off) * 4"
proof -
  have w: "fld (arm64_ldrb_imm rt rn off) 22 8 = (if True then 0xE5 else 0xE4)"
    "(fld (arm64_ldrb_imm rt rn off) 30 2 = 3) = False" "fld (arm64_ldrb_imm rt rn off) 10 12 = low 12 off"
    by (simp_all add: arm64_ldrb_imm_def fld_simps)
  have "dis_op (arm64_decode (arm64_tst b rn rm)) = ARM64_DIS_ORR_REG"
    by (cases b) (simp_all add: decode_defs Let_def not_special arm64_tst_def fld_simps)
  then show ?thesis using decode_ldst_word [OF w(1,2)] by (simp add: w(3))
qed

end
