(* ===== verification/Arm64Emit.thy ===== *)
theory Arm64Emit
  imports Arm64Roundtrip
begin

text \<open>
  The AArch64 emitter, \<open>codegen/binary/arm64_emit.c\<close>: a code buffer with labels and branch fixups that
  \<open>arm64_emit_finalize\<close> resolves. The buffer is the list of the bytes written; whether the n-th \<open>realloc\<close>
  succeeds is the parameter \<open>ok\<close>, and \<open>em_allocs\<close> counts the calls. The formatted message of \<open>reason\<close> is a
  datatype with the arguments of the format. \<open>memcpy\<close> of a word is in little-endian order, the byte order
  of the hosts and of the target.
\<close>

section \<open>State\<close>

datatype Arm64FixKind = ARM64_FIX_B26 | ARM64_FIX_IMM19 | ARM64_FIX_ABS64_MOV

record Arm64Fixup =
  fix_at :: nat
  fix_label :: int
  fix_kind :: Arm64FixKind

datatype fail_reason =
    NoReason | OomCode | OomLabels | OomFixups | BadLabel int nat | UnboundLabel nat
  | RangeB int | RangeCond int | NeedsVaddr | BadFrame int | FrameTooBig int

record Arm64Emit =
  em_code :: "u8 list"
  em_cap :: nat
  em_label_off :: "nat list"
  em_label_bound :: "bool list"
  em_label_cap :: nat
  em_fixups :: "Arm64Fixup list"
  em_fixup_cap :: nat
  em_error :: bool
  em_reason :: fail_reason
  em_code_vaddr :: u64
  em_allocs :: nat

definition arm64_emit_init :: Arm64Emit where
  "arm64_emit_init =
    \<lparr>em_code = [], em_cap = 0, em_label_off = [], em_label_bound = [], em_label_cap = 0,
     em_fixups = [], em_fixup_cap = 0, em_error = False, em_reason = NoReason, em_code_vaddr = 0,
     em_allocs = 0\<rparr>"

definition arm64_fail :: "fail_reason \<Rightarrow> Arm64Emit \<Rightarrow> Arm64Emit" where
  "arm64_fail msg e =
    (if \<not> em_error e \<or> em_reason e = NoReason then e\<lparr>em_reason := msg\<rparr> else e)\<lparr>em_error := True\<rparr>"

definition arm64_emit_free :: "Arm64Emit \<Rightarrow> Arm64Emit" where
  "arm64_emit_free e = arm64_emit_init\<lparr>em_allocs := em_allocs e\<rparr>"

text \<open>The text reported to the caller; \<open>NoReason\<close> is the empty buffer.\<close>

definition arm64_error_reason :: "Arm64Emit \<Rightarrow> string + fail_reason" where
  "arm64_error_reason e =
    (if em_reason e = NoReason then Inl ''an op outside the supported subset'' else Inr (em_reason e))"

definition arm64_here :: "Arm64Emit \<Rightarrow> nat" where "arm64_here e = length (em_code e)"

section \<open>The code buffer\<close>

function grow_cap :: "nat \<Rightarrow> nat \<Rightarrow> nat" where
  "grow_cap cap need = (if 0 < cap \<and> cap < need then grow_cap (cap * 2) need else cap)"
  by pat_completeness auto
termination by (relation "measure (\<lambda>(cap, need). need - cap)") auto

declare grow_cap.simps [simp del]

definition buf_reserve :: "(nat \<Rightarrow> bool) \<Rightarrow> nat \<Rightarrow> Arm64Emit \<Rightarrow> bool \<times> Arm64Emit" where
  "buf_reserve ok need e =
    (if length (em_code e) + need \<le> em_cap e then (True, e)
     else let cap = grow_cap (if em_cap e \<noteq> 0 then em_cap e * 2 else 64) (length (em_code e) + need);
              e' = e\<lparr>em_allocs := em_allocs e + 1\<rparr>
          in if \<not> ok (em_allocs e) then (False, e') else (True, e'\<lparr>em_cap := cap\<rparr>))"

definition le_bytes :: "u32 \<Rightarrow> u8 list" where
  "le_bytes w = [ucast w, ucast (drop_bit 8 w), ucast (drop_bit 16 w), ucast (drop_bit 24 w)]"

definition le_word :: "u8 list \<Rightarrow> u32" where
  "le_word bs = ucast (bs ! 0) OR push_bit 8 (ucast (bs ! 1)) OR push_bit 16 (ucast (bs ! 2)) OR
     push_bit 24 (ucast (bs ! 3))"

definition read_word :: "u8 list \<Rightarrow> nat \<Rightarrow> u32" where
  "read_word bs at = le_word (take 4 (drop at bs))"

definition write_word :: "u8 list \<Rightarrow> nat \<Rightarrow> u32 \<Rightarrow> u8 list" where
  "write_word bs at w = take at bs @ le_bytes w @ drop (at + 4) bs"

definition emit_raw :: "u8 list \<Rightarrow> Arm64Emit \<Rightarrow> Arm64Emit" where
  "emit_raw bs e = e\<lparr>em_code := em_code e @ bs\<rparr>"

definition arm64_emit_word :: "(nat \<Rightarrow> bool) \<Rightarrow> u32 \<Rightarrow> Arm64Emit \<Rightarrow> bool \<times> Arm64Emit" where
  "arm64_emit_word ok word e =
    (if em_error e then (False, arm64_fail OomCode e)
     else case buf_reserve ok 4 e of
       (r, e') \<Rightarrow> if \<not> r then (False, arm64_fail OomCode e') else (True, emit_raw (le_bytes word) e'))"

definition arm64_emit_mov ::
  "(nat \<Rightarrow> bool) \<Rightarrow> bool \<Rightarrow> Arm64Reg \<Rightarrow> Arm64Reg \<Rightarrow> Arm64Emit \<Rightarrow> bool \<times> Arm64Emit" where
  "arm64_emit_mov ok is64 rd rn =
    (if rd = ARM64_SP \<or> rn = ARM64_SP then arm64_emit_word ok (arm64_mov_sp rd rn)
     else arm64_emit_word ok (arm64_mov_reg is64 rd rn))"

definition arm64_emit_bytes :: "(nat \<Rightarrow> bool) \<Rightarrow> u8 list \<Rightarrow> Arm64Emit \<Rightarrow> bool \<times> Arm64Emit" where
  "arm64_emit_bytes ok bs e =
    (let pad = (4 - length bs mod 4) mod 4
     in if em_error e then (False, arm64_fail OomCode e)
        else case buf_reserve ok (length bs + pad) e of
          (r, e') \<Rightarrow> if \<not> r then (False, arm64_fail OomCode e')
                    else (True, emit_raw (bs @ replicate pad 0) e'))"

section \<open>Labels and fixups\<close>

text \<open>Both label arrays are reallocated before either result is tested.\<close>

definition arm64_new_label :: "(nat \<Rightarrow> bool) \<Rightarrow> Arm64Emit \<Rightarrow> int \<times> Arm64Emit" where
  "arm64_new_label ok e =
    (let add = (\<lambda>e. (int (length (em_label_off e)),
                     e\<lparr>em_label_off := em_label_off e @ [0], em_label_bound := em_label_bound e @ [False]\<rparr>))
     in if em_error e then (-1, e)
        else if length (em_label_off e) = em_label_cap e then
          (let cap = (if em_label_cap e \<noteq> 0 then em_label_cap e * 2 else 16);
               e' = e\<lparr>em_allocs := em_allocs e + 2\<rparr>
           in if \<not> ok (em_allocs e) \<or> \<not> ok (em_allocs e + 1) then (-1, arm64_fail OomLabels e')
              else add (e'\<lparr>em_label_cap := cap\<rparr>))
        else add e)"

definition arm64_bind_label :: "int \<Rightarrow> Arm64Emit \<Rightarrow> Arm64Emit" where
  "arm64_bind_label label e =
    (if em_error e \<or> label < 0 \<or> label \<ge> int (length (em_label_off e))
     then arm64_fail (BadLabel label (length (em_label_off e))) e
     else e\<lparr>em_label_off := (em_label_off e)[nat label := length (em_code e)],
            em_label_bound := (em_label_bound e)[nat label := True]\<rparr>)"

definition add_fixup ::
  "(nat \<Rightarrow> bool) \<Rightarrow> nat \<Rightarrow> int \<Rightarrow> Arm64FixKind \<Rightarrow> Arm64Emit \<Rightarrow> bool \<times> Arm64Emit" where
  "add_fixup ok at label kind e =
    (let add = (\<lambda>e. (True, e\<lparr>em_fixups := em_fixups e @ [\<lparr>fix_at = at, fix_label = label, fix_kind = kind\<rparr>]\<rparr>))
     in if length (em_fixups e) = em_fixup_cap e then
          (let cap = (if em_fixup_cap e \<noteq> 0 then em_fixup_cap e * 2 else 16);
               e' = e\<lparr>em_allocs := em_allocs e + 1\<rparr>
           in if \<not> ok (em_allocs e) then (False, arm64_fail OomFixups e')
              else add (e'\<lparr>em_fixup_cap := cap\<rparr>))
        else add e)"

definition em_and ::
  "(Arm64Emit \<Rightarrow> bool \<times> Arm64Emit) \<Rightarrow> (Arm64Emit \<Rightarrow> bool \<times> Arm64Emit) \<Rightarrow> Arm64Emit \<Rightarrow> bool \<times> Arm64Emit" where
  "em_and f g e = (case f e of (r, e') \<Rightarrow> if r then g e' else (False, e'))"

definition emit_branch ::
  "(nat \<Rightarrow> bool) \<Rightarrow> u32 \<Rightarrow> int \<Rightarrow> Arm64FixKind \<Rightarrow> Arm64Emit \<Rightarrow> bool \<times> Arm64Emit" where
  "emit_branch ok word label kind e =
    em_and (arm64_emit_word ok word) (add_fixup ok (length (em_code e)) label kind) e"

definition arm64_emit_b :: "(nat \<Rightarrow> bool) \<Rightarrow> int \<Rightarrow> Arm64Emit \<Rightarrow> bool \<times> Arm64Emit" where
  "arm64_emit_b ok label = emit_branch ok (arm64_b 0) label ARM64_FIX_B26"

definition arm64_emit_bl :: "(nat \<Rightarrow> bool) \<Rightarrow> int \<Rightarrow> Arm64Emit \<Rightarrow> bool \<times> Arm64Emit" where
  "arm64_emit_bl ok label = emit_branch ok (arm64_bl 0) label ARM64_FIX_B26"

definition arm64_emit_bcond :: "(nat \<Rightarrow> bool) \<Rightarrow> Arm64Cond \<Rightarrow> int \<Rightarrow> Arm64Emit \<Rightarrow> bool \<times> Arm64Emit" where
  "arm64_emit_bcond ok cond label = emit_branch ok (arm64_bcond cond 0) label ARM64_FIX_IMM19"

definition arm64_emit_cbz ::
  "(nat \<Rightarrow> bool) \<Rightarrow> bool \<Rightarrow> Arm64Reg \<Rightarrow> int \<Rightarrow> Arm64Emit \<Rightarrow> bool \<times> Arm64Emit" where
  "arm64_emit_cbz ok is64 rt label = emit_branch ok (arm64_cbz is64 rt 0) label ARM64_FIX_IMM19"

definition arm64_emit_cbnz ::
  "(nat \<Rightarrow> bool) \<Rightarrow> bool \<Rightarrow> Arm64Reg \<Rightarrow> int \<Rightarrow> Arm64Emit \<Rightarrow> bool \<times> Arm64Emit" where
  "arm64_emit_cbnz ok is64 rt label = emit_branch ok (arm64_cbnz is64 rt 0) label ARM64_FIX_IMM19"

definition arm64_emit_label_address ::
  "(nat \<Rightarrow> bool) \<Rightarrow> Arm64Reg \<Rightarrow> int \<Rightarrow> Arm64Emit \<Rightarrow> bool \<times> Arm64Emit" where
  "arm64_emit_label_address ok rd label e =
    (if em_code_vaddr e = 0 then (False, arm64_fail NeedsVaddr e)
     else em_and (em_and (em_and (em_and (arm64_emit_word ok (arm64_movz True rd 0 0))
                                         (arm64_emit_word ok (arm64_movk True rd 0 1)))
                                 (arm64_emit_word ok (arm64_movk True rd 0 2)))
                         (arm64_emit_word ok (arm64_movk True rd 0 3)))
                 (add_fixup ok (length (em_code e)) label ARM64_FIX_ABS64_MOV) e)"

section \<open>Resolution\<close>

definition patch_abs64 :: "u64 \<Rightarrow> nat \<Rightarrow> nat \<Rightarrow> u8 list \<Rightarrow> u8 list" where
  "patch_abs64 address at part bs =
    (let word = read_word bs (at + part * 4)
     in write_word bs (at + part * 4)
          ((word AND NOT (push_bit 5 0xFFFF)) OR
           push_bit 5 (ucast (drop_bit (16 * part) address AND 0xFFFF))))"

definition patch_b26 :: "int \<Rightarrow> u32 \<Rightarrow> u32" where
  "patch_b26 words word = (word AND NOT 0x03FFFFFF) OR (word_of_int words AND 0x03FFFFFF)"

definition patch_imm19 :: "int \<Rightarrow> u32 \<Rightarrow> u32" where
  "patch_imm19 words word =
    (word AND NOT (push_bit 5 0x7FFFF)) OR push_bit 5 (word_of_int words AND 0x7FFFF)"

text \<open>One round of the loop; \<open>False\<close> is the early return.\<close>

definition fix_one :: "Arm64Fixup \<Rightarrow> Arm64Emit \<Rightarrow> bool \<times> Arm64Emit" where
  "fix_one f e =
    (if fix_label f < 0 \<or> fix_label f \<ge> int (length (em_label_off e)) \<or>
        \<not> em_label_bound e ! nat (fix_label f)
     then (False, arm64_fail (UnboundLabel (fix_at f)) e)
     else if fix_kind f = ARM64_FIX_ABS64_MOV then
       (let address = em_code_vaddr e + word_of_nat (em_label_off e ! nat (fix_label f))
        in (True, e\<lparr>em_code := fold (patch_abs64 address (fix_at f)) [0, 1, 2, 3] (em_code e)\<rparr>))
     else
       (let disp = int (em_label_off e ! nat (fix_label f)) - int (fix_at f);
            words = disp div 4;
            word = read_word (em_code e) (fix_at f)
        in if fix_kind f = ARM64_FIX_B26 then
             (if words < - (2 ^ 25) \<or> words \<ge> 2 ^ 25 then (False, arm64_fail (RangeB disp) e)
              else (True, e\<lparr>em_code := write_word (em_code e) (fix_at f) (patch_b26 words word)\<rparr>))
           else
             (if words < - (2 ^ 18) \<or> words \<ge> 2 ^ 18 then (False, arm64_fail (RangeCond disp) e)
              else (True, e\<lparr>em_code := write_word (em_code e) (fix_at f) (patch_imm19 words word)\<rparr>))))"

fun fix_all :: "Arm64Fixup list \<Rightarrow> Arm64Emit \<Rightarrow> bool \<times> Arm64Emit" where
  "fix_all [] e = (True, e)"
| "fix_all (f # fs) e = (case fix_one f e of (r, e') \<Rightarrow> if r then fix_all fs e' else (False, e'))"

definition arm64_emit_finalize :: "Arm64Emit \<Rightarrow> bool \<times> Arm64Emit" where
  "arm64_emit_finalize e = (if em_error e then (False, e) else fix_all (em_fixups e) e)"

section \<open>Prologue and epilogue\<close>

fun emit_saves ::
  "(nat \<Rightarrow> bool) \<Rightarrow> (Arm64Reg \<Rightarrow> nat \<Rightarrow> u32) \<Rightarrow> Arm64Reg list \<Rightarrow> nat \<Rightarrow> Arm64Emit \<Rightarrow> bool \<times> Arm64Emit" where
  "emit_saves ok enc [] i e = (True, e)"
| "emit_saves ok enc (r # rs) i e = em_and (arm64_emit_word ok (enc r i)) (emit_saves ok enc rs (i + 1)) e"

definition mark_unless :: "bool \<times> Arm64Emit \<Rightarrow> bool \<times> Arm64Emit" where
  "mark_unless re = (if fst re then re else (False, (snd re)\<lparr>em_error := True\<rparr>))"

definition arm64_emit_prologue ::
  "(nat \<Rightarrow> bool) \<Rightarrow> i32 \<Rightarrow> Arm64Reg list \<Rightarrow> Arm64Emit \<Rightarrow> bool \<times> Arm64Emit" where
  "arm64_emit_prologue ok frame_bytes saved e =
    (if sint frame_bytes < 0 \<or> frame_bytes AND 15 \<noteq> 0 then (False, arm64_fail (BadFrame (sint frame_bytes)) e)
     else
       let (r0, e0) = em_and (arm64_emit_word ok (arm64_stp_pre True 29 30 ARM64_SP (-16)))
                             (arm64_emit_word ok (arm64_mov_sp 29 ARM64_SP)) e;
           saves = emit_saves ok (\<lambda>r i. arm64_str_imm True r ARM64_SP (8 * word_of_nat i)) saved 0
       in if r0 \<and> 0 < sint frame_bytes \<and> sint frame_bytes \<le> 4095 then
            mark_unless (em_and (arm64_emit_word ok (arm64_sub_imm True ARM64_SP ARM64_SP frame_bytes False)) saves e0)
          else if r0 \<and> 4095 < sint frame_bytes then
            (if frame_bytes > 0xFFFFFF then (False, arm64_fail (FrameTooBig (sint frame_bytes)) e0)
             else mark_unless
               (em_and (em_and
                 (arm64_emit_word ok (arm64_sub_imm True ARM64_SP ARM64_SP (frame_bytes AND 0xFFF) False))
                 (arm64_emit_word ok (arm64_sub_imm True ARM64_SP ARM64_SP (drop_bit 12 frame_bytes) True))) saves e0))
          else mark_unless (if r0 then saves e0 else (False, e0)))"

definition arm64_emit_epilogue ::
  "(nat \<Rightarrow> bool) \<Rightarrow> Arm64Reg list \<Rightarrow> Arm64Emit \<Rightarrow> bool \<times> Arm64Emit" where
  "arm64_emit_epilogue ok saved e =
    mark_unless
      (em_and (emit_saves ok (\<lambda>r i. arm64_ldr_imm True r ARM64_SP (8 * word_of_nat i)) saved 0)
      (em_and (arm64_emit_word ok (arm64_mov_sp ARM64_SP 29))
      (em_and (arm64_emit_word ok (arm64_ldp_post True 29 30 ARM64_SP 16))
              (arm64_emit_word ok (arm64_ret 30)))) e)"

end
