(* ===== verification/Arm64EmitCorrect.thy ===== *)
theory Arm64EmitCorrect
  imports Arm64Emit
begin

text \<open>
  Correctness of the emitter: the invariant every operation keeps, and what a successful
  \<open>arm64_emit_finalize\<close> leaves in the code buffer.
\<close>

section \<open>Words in the buffer\<close>

lemma le_word_le_bytes [simp]: "le_word (le_bytes w) = w"
proof (rule bit_word_eqI)
  fix i assume "i < LENGTH(32)"
  then consider "i < 8" | "8 \<le> i" "i < 16" | "16 \<le> i" "i < 24" | "24 \<le> i" "i < 32" by force
  then show "bit (le_word (le_bytes w)) i = bit w i"
    by cases (auto simp: le_word_def le_bytes_def bit_simps)
qed

lemma length_le_bytes [simp]: "length (le_bytes w) = 4"
  by (simp add: le_bytes_def)

lemma length_write_word [simp]: "at + 4 \<le> length bs \<Longrightarrow> length (write_word bs at w) = length bs"
  by (simp add: write_word_def)

lemma read_write_same [simp]: "at + 4 \<le> length bs \<Longrightarrow> read_word (write_word bs at w) at = w"
  by (simp add: read_word_def write_word_def)

lemma read_write_other:
  assumes "at + 4 \<le> length bs" "p + 4 \<le> at \<or> at + 4 \<le> p"
  shows "read_word (write_word bs at w) p = read_word bs p"
proof -
  have "take 4 (drop p (write_word bs at w)) = take 4 (drop p bs)"
  proof (rule nth_equalityI)
    show "length (take 4 (drop p (write_word bs at w))) = length (take 4 (drop p bs))" using assms by simp
    fix i assume i: "i < length (take 4 (drop p (write_word bs at w)))"
    then have "p + i < length bs" "i < 4" using assms by auto
    moreover have "write_word bs at w ! (p + i) = bs ! (p + i)"
      using assms \<open>i < 4\<close> \<open>p + i < length bs\<close> by (auto simp: write_word_def nth_append)
    ultimately show "take 4 (drop p (write_word bs at w)) ! i = take 4 (drop p bs) ! i" using assms by simp
  qed
  then show ?thesis by (simp add: read_word_def)
qed

lemma read_word_append: "p + 4 \<le> length bs \<Longrightarrow> read_word (bs @ cs) p = read_word bs p"
  by (simp add: read_word_def)

lemma read_word_end: "read_word (bs @ le_bytes w @ cs) (length bs) = w"
  by (simp add: read_word_def)

section \<open>Invariant\<close>

definition fix_len :: "Arm64Fixup \<Rightarrow> nat" where
  "fix_len f = (if fix_kind f = ARM64_FIX_ABS64_MOV then 16 else 4)"

definition address_words :: "u8 list \<Rightarrow> nat \<Rightarrow> Arm64Reg \<Rightarrow> u64 \<Rightarrow> bool" where
  "address_words bs at rd a \<longleftrightarrow>
     read_word bs at = arm64_movz True rd (ucast a) 0 \<and>
     read_word bs (at + 4) = arm64_movk True rd (ucast (drop_bit 16 a)) 1 \<and>
     read_word bs (at + 8) = arm64_movk True rd (ucast (drop_bit 32 a)) 2 \<and>
     read_word bs (at + 12) = arm64_movk True rd (ucast (drop_bit 48 a)) 3"

text \<open>The branch a fixup was recorded for, with displacement \<open>d\<close>.\<close>

inductive branch_word :: "i32 \<Rightarrow> Arm64FixKind \<Rightarrow> u32 \<Rightarrow> bool" for d where
  "branch_word d ARM64_FIX_B26 (arm64_b d)"
| "branch_word d ARM64_FIX_B26 (arm64_bl d)"
| "branch_word d ARM64_FIX_IMM19 (arm64_bcond c d)"
| "branch_word d ARM64_FIX_IMM19 (arm64_cbz b rt d)"
| "branch_word d ARM64_FIX_IMM19 (arm64_cbnz b rt d)"

inductive_cases branch_word_b26: "branch_word d ARM64_FIX_B26 w"
inductive_cases branch_word_imm19: "branch_word d ARM64_FIX_IMM19 w"

definition placeholder :: "u8 list \<Rightarrow> Arm64Fixup \<Rightarrow> bool" where
  "placeholder bs f \<longleftrightarrow>
     (if fix_kind f = ARM64_FIX_ABS64_MOV then \<exists>rd. address_words bs (fix_at f) rd 0
      else branch_word 0 (fix_kind f) (read_word bs (fix_at f)))"

definition fixup_ok :: "u8 list \<Rightarrow> Arm64Fixup \<Rightarrow> bool" where
  "fixup_ok bs f \<longleftrightarrow> 4 dvd fix_at f \<and> fix_at f + fix_len f \<le> length bs \<and> placeholder bs f"

definition em_inv :: "Arm64Emit \<Rightarrow> bool" where
  "em_inv e \<longleftrightarrow> 4 dvd length (em_code e) \<and> length (em_code e) \<le> em_cap e \<and>
     length (em_label_bound e) = length (em_label_off e) \<and>
     (\<forall>p\<in>set (em_label_off e). 4 dvd p \<and> p \<le> length (em_code e)) \<and>
     sorted_wrt (\<lambda>f g. fix_at f + fix_len f \<le> fix_at g) (em_fixups e) \<and>
     (\<forall>f\<in>set (em_fixups e). fixup_ok (em_code e) f)"

lemma em_inv_init: "em_inv arm64_emit_init"
  by (simp add: em_inv_def arm64_emit_init_def)

lemma em_inv_fail [simp]: "em_inv (arm64_fail m e) = em_inv e"
  by (simp add: em_inv_def arm64_fail_def)

lemma arm64_fail_sel [simp]:
  "em_fixups (arm64_fail m e) = em_fixups e" "em_code (arm64_fail m e) = em_code e"
  "em_label_off (arm64_fail m e) = em_label_off e" "em_error (arm64_fail m e)"
  "em_cap (arm64_fail m e) = em_cap e" "em_label_bound (arm64_fail m e) = em_label_bound e"
  "em_code_vaddr (arm64_fail m e) = em_code_vaddr e"
  by (simp_all add: arm64_fail_def)

lemma em_inv_error [simp]: "em_inv (e\<lparr>em_error := b\<rparr>) = em_inv e"
  by (simp add: em_inv_def)

lemma grow_cap_ge: "0 < cap \<Longrightarrow> need \<le> grow_cap cap need"
  by (induction cap need rule: grow_cap.induct) (subst grow_cap.simps, auto)

lemma buf_reserve_ok:
  assumes "buf_reserve ok need e = (r, e')" "em_inv e"
  shows "em_inv e' \<and> em_code e' = em_code e \<and> em_fixups e' = em_fixups e \<and> em_label_off e' = em_label_off e \<and>
     (r \<longrightarrow> length (em_code e) + need \<le> em_cap e')"
proof -
  have "length (em_code e) + need \<le> grow_cap (if em_cap e \<noteq> 0 then em_cap e * 2 else 64) (length (em_code e) + need)"
    by (rule grow_cap_ge) simp
  then show ?thesis using assms
    by (auto simp: buf_reserve_def em_inv_def Let_def split: if_splits)
qed

lemma fixup_ok_append: "fixup_ok bs f \<Longrightarrow> fixup_ok (bs @ cs) f"
  by (auto simp: fixup_ok_def placeholder_def address_words_def fix_len_def read_word_append split: if_splits)

lemma emit_raw_inv:
  assumes "em_inv e" "4 dvd length bs" "length (em_code e) + length bs \<le> em_cap e"
  shows "em_inv (emit_raw bs e)"
  using assms by (auto simp: em_inv_def emit_raw_def fixup_ok_append le_add1 trans_le_add1)

lemma emit_word_inv:
  assumes "em_inv e" "arm64_emit_word ok w e = (r, e')"
  shows "em_inv e' \<and> em_fixups e' = em_fixups e \<and>
     (r \<longrightarrow> em_code e' = em_code e @ le_bytes w \<and> \<not> em_error e)"
proof (cases "em_error e")
  case True
  then show ?thesis using assms by (auto simp: arm64_emit_word_def)
next
  case False
  obtain b e1 where b: "buf_reserve ok 4 e = (b, e1)" by (cases "buf_reserve ok 4 e")
  note br = buf_reserve_ok [OF b assms(1)]
  show ?thesis
  proof (cases b)
    case True
    then show ?thesis using assms(2) b False br emit_raw_inv [of e1 "le_bytes w"]
      by (auto simp: arm64_emit_word_def emit_raw_def)
  next
    case f: False
    then show ?thesis using assms(2) b False br by (auto simp: arm64_emit_word_def)
  qed
qed

text \<open>What an emitting call may do: keep the invariant, append code and fixups.\<close>

definition keeps_inv :: "(Arm64Emit \<Rightarrow> bool \<times> Arm64Emit) \<Rightarrow> bool" where
  "keeps_inv f \<longleftrightarrow> (\<forall>e. em_inv e \<longrightarrow> em_inv (snd (f e)))"

named_theorems keeps \<open>emitting calls that keep the invariant\<close>

lemma keeps_word [keeps]: "keeps_inv (arm64_emit_word ok w)"
  using emit_word_inv [where e' = "snd (arm64_emit_word ok w _)"] by (metis keeps_inv_def prod.collapse)

lemma keeps_and [keeps]: "keeps_inv f \<Longrightarrow> keeps_inv g \<Longrightarrow> keeps_inv (em_and f g)"
  by (simp add: keeps_inv_def em_and_def case_prod_unfold)

lemma keeps_mov [keeps]: "keeps_inv (arm64_emit_mov ok b rd rn)"
  by (simp add: arm64_emit_mov_def keeps)

lemma pad_dvd: "4 dvd n + (4 - n mod 4) mod (4::nat)"
proof -
  have "n mod 4 < 4" by simp
  then consider "n mod 4 = 0" | "n mod 4 = 1" | "n mod 4 = 2" | "n mod 4 = 3" by linarith
  then show ?thesis by cases (simp_all add: dvd_eq_mod_eq_0, presburger+)
qed

lemma keeps_bytes [keeps]: "keeps_inv (arm64_emit_bytes ok bs)"
  unfolding keeps_inv_def
proof (intro allI impI)
  fix e assume e: "em_inv e"
  let ?pad = "(4 - length bs mod 4) mod 4"
  obtain b e1 where b: "buf_reserve ok (length bs + ?pad) e = (b, e1)" by (cases "buf_reserve ok (length bs + ?pad) e")
  note br = buf_reserve_ok [OF b e]
  have d: "4 dvd length (bs @ replicate ?pad (0 :: u8))" using pad_dvd [of "length bs"] by simp
  have "b \<Longrightarrow> em_inv (emit_raw (bs @ replicate ?pad 0) e1)" using br d by (intro emit_raw_inv) simp_all
  then show "em_inv (snd (arm64_emit_bytes ok bs e))"
    using b e br by (auto simp: arm64_emit_bytes_def Let_def)
qed

lemma new_label_inv: "em_inv e \<Longrightarrow> em_inv (snd (arm64_new_label ok e))"
  by (auto simp: arm64_new_label_def Let_def em_inv_def)

lemma bind_label_inv: "em_inv e \<Longrightarrow> em_inv (arm64_bind_label l e)"
  using set_update_subset_insert [of "em_label_off e" "nat l" "length (em_code e)"]
  by (auto simp: arm64_bind_label_def em_inv_def)

lemma add_fixup_inv:
  assumes "em_inv e" "fixup_ok (em_code e) \<lparr>fix_at = at, fix_label = l, fix_kind = k\<rparr>"
    "\<forall>f\<in>set (em_fixups e). fix_at f + fix_len f \<le> at"
  shows "em_inv (snd (add_fixup ok at l k e))"
  using assms by (auto simp: add_fixup_def Let_def em_inv_def sorted_wrt_append)

lemma keeps_branch [keeps]:
  assumes "k = ARM64_FIX_B26 \<or> k = ARM64_FIX_IMM19" "branch_word 0 k w"
  shows "keeps_inv (emit_branch ok w l k)"
  unfolding keeps_inv_def
proof (intro allI impI)
  fix e assume e: "em_inv e"
  obtain r e1 where w: "arm64_emit_word ok w e = (r, e1)" by (cases "arm64_emit_word ok w e")
  note ew = emit_word_inv [OF e w]
  have "em_inv (snd (add_fixup ok (length (em_code e)) l k e1))" if r
  proof (rule add_fixup_inv)
    show "em_inv e1" using ew by simp
    have c: "em_code e1 = em_code e @ le_bytes w" using ew that by simp
    show "fixup_ok (em_code e1) \<lparr>fix_at = length (em_code e), fix_label = l, fix_kind = k\<rparr>"
      using assms e unfolding c by (auto simp: fixup_ok_def fix_len_def placeholder_def em_inv_def read_word_end [where cs = "[]", simplified])
    show "\<forall>f\<in>set (em_fixups e1). fix_at f + fix_len f \<le> length (em_code e)"
      using ew e by (auto simp: em_inv_def fixup_ok_def)
  qed
  then show "em_inv (snd (emit_branch ok w l k e))" using w ew by (simp add: emit_branch_def em_and_def)
qed

lemma keeps_saves [keeps]: "keeps_inv (emit_saves ok enc rs i)"
proof (induction rs arbitrary: i)
  case Nil then show ?case by (simp add: keeps_inv_def)
next
  case (Cons r rs)
  have "emit_saves ok enc (r # rs) i = em_and (arm64_emit_word ok (enc r i)) (emit_saves ok enc rs (i + 1))"
    by (rule ext) simp
  then show ?case using Cons.IH by (simp add: keeps)
qed

lemma keeps_mark: "em_inv (snd re) \<Longrightarrow> em_inv (snd (mark_unless re))"
  by (simp add: mark_unless_def)

lemma emit_four_words:
  assumes e: "em_inv e" and f: "em_and (em_and (em_and (arm64_emit_word ok w0) (arm64_emit_word ok w1))
      (arm64_emit_word ok w2)) (arm64_emit_word ok w3) e = (r, e')"
  shows "em_inv e' \<and> em_fixups e' = em_fixups e \<and>
     (r \<longrightarrow> em_code e' = em_code e @ le_bytes w0 @ le_bytes w1 @ le_bytes w2 @ le_bytes w3)"
proof -
  obtain r0 e0 where 0: "arm64_emit_word ok w0 e = (r0, e0)" by (cases "arm64_emit_word ok w0 e")
  note i0 = emit_word_inv [OF e 0]
  obtain r1 e1 where 1: "arm64_emit_word ok w1 e0 = (r1, e1)" by (cases "arm64_emit_word ok w1 e0")
  note i1 = emit_word_inv [OF conjunct1 [OF i0] 1]
  obtain r2 e2 where 2: "arm64_emit_word ok w2 e1 = (r2, e2)" by (cases "arm64_emit_word ok w2 e1")
  note i2 = emit_word_inv [OF conjunct1 [OF i1] 2]
  obtain r3 e3 where 3: "arm64_emit_word ok w3 e2 = (r3, e3)" by (cases "arm64_emit_word ok w3 e2")
  note i3 = emit_word_inv [OF conjunct1 [OF i2] 3]
  show ?thesis using f i0 i1 i2 i3 0 1 2 3 by (auto simp: em_and_def split: if_splits)
qed

lemma read_word_at: "read_word (bs @ cs) (length bs + k) = read_word cs k"
  by (simp add: read_word_def)

lemma keeps_label_address [keeps]: "keeps_inv (arm64_emit_label_address ok rd l)"
  unfolding keeps_inv_def
proof (intro allI impI)
  fix e assume e: "em_inv e"
  define f where "f = em_and (em_and (em_and (arm64_emit_word ok (arm64_movz True rd 0 0))
      (arm64_emit_word ok (arm64_movk True rd 0 1))) (arm64_emit_word ok (arm64_movk True rd 0 2)))
      (arm64_emit_word ok (arm64_movk True rd 0 3))"
  obtain r e1 where w: "f e = (r, e1)" by (cases "f e")
  note ew = emit_four_words [OF e w [unfolded f_def]]
  let ?fx = "\<lparr>fix_at = length (em_code e), fix_label = l, fix_kind = ARM64_FIX_ABS64_MOV\<rparr>"
  have "em_inv (snd (add_fixup ok (length (em_code e)) l ARM64_FIX_ABS64_MOV e1))" if r
  proof (rule add_fixup_inv)
    show "em_inv e1" using ew by simp
    have c: "em_code e1 = em_code e @ le_bytes (arm64_movz True rd 0 0) @ le_bytes (arm64_movk True rd 0 1) @
        le_bytes (arm64_movk True rd 0 2) @ le_bytes (arm64_movk True rd 0 3)" using ew that by simp
    have "address_words (em_code e1) (length (em_code e)) rd 0"
      unfolding address_words_def c read_word_at using read_word_at [where k = 0, simplified]
      by (simp add: read_word_def)
    then show "fixup_ok (em_code e1) ?fx"
      using e by (auto simp: fixup_ok_def fix_len_def placeholder_def em_inv_def c)
    show "\<forall>g\<in>set (em_fixups e1). fix_at g + fix_len g \<le> length (em_code e)"
      using ew e by (auto simp: em_inv_def fixup_ok_def)
  qed
  then show "em_inv (snd (arm64_emit_label_address ok rd l e))"
    using w ew e unfolding arm64_emit_label_address_def f_def [symmetric] by (auto simp: em_and_def [of f])
qed

lemma keeps_prologue [keeps]: "keeps_inv (arm64_emit_prologue ok n saved)"
  unfolding keeps_inv_def
proof (intro allI impI)
  fix e assume e: "em_inv e"
  define p where "p = em_and (arm64_emit_word ok (arm64_stp_pre True 29 30 ARM64_SP (-16)))
                             (arm64_emit_word ok (arm64_mov_sp 29 ARM64_SP))"
  obtain r0 e0 where p0: "p e = (r0, e0)" by (cases "p e")
  have "keeps_inv p" unfolding p_def by (intro keeps)
  then have e0: "em_inv e0" using e p0 by (metis keeps_inv_def snd_conv)
  have k: "keeps_inv f \<Longrightarrow> em_inv (snd (mark_unless (f e0)))" for f
    using e0 by (simp add: keeps_inv_def keeps_mark)
  show "em_inv (snd (arm64_emit_prologue ok n saved e))"
    unfolding arm64_emit_prologue_def p_def [symmetric] p0 Let_def prod.case using e e0
    by (auto intro!: k keeps keeps_mark [of "(False, e0)", simplified])
qed

lemma keeps_epilogue [keeps]: "keeps_inv (arm64_emit_epilogue ok saved)"
  unfolding keeps_inv_def arm64_emit_epilogue_def
  by (intro allI impI keeps_mark) (metis keeps keeps_inv_def)

section \<open>Reachable emitters\<close>

text \<open>One call of the interface, with any outcome of the allocations.\<close>

inductive emit_step :: "Arm64Emit \<Rightarrow> Arm64Emit \<Rightarrow> bool" where
  step_word: "emit_step e (snd (arm64_emit_word ok w e))"
| step_mov: "emit_step e (snd (arm64_emit_mov ok b rd rn e))"
| step_bytes: "emit_step e (snd (arm64_emit_bytes ok bs e))"
| step_new_label: "emit_step e (snd (arm64_new_label ok e))"
| step_bind: "emit_step e (arm64_bind_label l e)"
| step_b: "emit_step e (snd (arm64_emit_b ok l e))"
| step_bl: "emit_step e (snd (arm64_emit_bl ok l e))"
| step_bcond: "emit_step e (snd (arm64_emit_bcond ok c l e))"
| step_cbz: "emit_step e (snd (arm64_emit_cbz ok b rt l e))"
| step_cbnz: "emit_step e (snd (arm64_emit_cbnz ok b rt l e))"
| step_address: "emit_step e (snd (arm64_emit_label_address ok rd l e))"
| step_prologue: "emit_step e (snd (arm64_emit_prologue ok n saved e))"
| step_epilogue: "emit_step e (snd (arm64_emit_epilogue ok saved e))"

inductive emitted :: "u64 \<Rightarrow> Arm64Emit \<Rightarrow> bool" for vaddr where
  init: "emitted vaddr (arm64_emit_init\<lparr>em_code_vaddr := vaddr\<rparr>)"
| step: "emitted vaddr e \<Longrightarrow> emit_step e e' \<Longrightarrow> emitted vaddr e'"

lemma emit_step_inv: "emit_step e e' \<Longrightarrow> em_inv e \<Longrightarrow> em_inv e'"
proof (induction rule: emit_step.induct)
  case (step_b e ok l)
  have "keeps_inv (arm64_emit_b ok l)" unfolding arm64_emit_b_def by (intro keeps) (auto intro: branch_word.intros)
  then show ?case using step_b by (simp add: keeps_inv_def)
next
  case (step_bl e ok l)
  have "keeps_inv (arm64_emit_bl ok l)" unfolding arm64_emit_bl_def by (intro keeps) (auto intro: branch_word.intros)
  then show ?case using step_bl by (simp add: keeps_inv_def)
next
  case (step_bcond e ok c l)
  have "keeps_inv (arm64_emit_bcond ok c l)" unfolding arm64_emit_bcond_def by (intro keeps) (auto intro: branch_word.intros)
  then show ?case using step_bcond by (simp add: keeps_inv_def)
next
  case (step_cbz e ok b rt l)
  have "keeps_inv (arm64_emit_cbz ok b rt l)" unfolding arm64_emit_cbz_def by (intro keeps) (auto intro: branch_word.intros)
  then show ?case using step_cbz by (simp add: keeps_inv_def)
next
  case (step_cbnz e ok b rt l)
  have "keeps_inv (arm64_emit_cbnz ok b rt l)" unfolding arm64_emit_cbnz_def by (intro keeps) (auto intro: branch_word.intros)
  then show ?case using step_cbnz by (simp add: keeps_inv_def)
qed (use keeps in \<open>auto simp: keeps_inv_def new_label_inv bind_label_inv\<close>)

lemma emitted_inv: "emitted vaddr e \<Longrightarrow> em_inv e"
proof (induction rule: emitted.induct)
  case init then show ?case by (simp add: em_inv_def arm64_emit_init_def)
qed (rule emit_step_inv)

section \<open>Resolution of the fixups\<close>

text \<open>Patching a branch that was emitted with displacement zero gives the branch with the displacement.\<close>

lemma sar2_word_of_int:
  assumes "- (2 ^ 31) \<le> d" "d < 2 ^ 31"
  shows "signed_drop_bit 2 (word_of_int d :: i32) = word_of_int (d div 4)"
proof -
  have "sint (word_of_int d :: i32) = d" using assms by (simp add: sint_sbintrunc' signed_take_bit_int_eq_self)
  then have "sint (signed_drop_bit 2 (word_of_int d :: i32)) = d div 4" by (simp add: sint_sar2)
  then show ?thesis by (rule word_of_sint)
qed

lemma patch_off:
  fixes c x n M :: u32
  assumes "c AND M = 0" "n AND M = 0"
  shows "(c OR (x AND n)) AND NOT M = c OR (x AND n)"
proof (rule bit_word_eqI)
  fix i assume i: "i < LENGTH(32)"
  have "\<not> bit (c AND M) i" "\<not> bit (n AND M) i" by (simp_all only: assms bit_0_eq bot_apply) simp_all
  then show "bit ((c OR (x AND n)) AND NOT M) i = bit (c OR (x AND n)) i"
    using i by (auto simp: bit_simps)
qed

text \<open>The placeholder that was emitted and the same instruction with displacement \<open>d\<close>: the operation, the
  condition and the register are those of the placeholder.\<close>

inductive retarget :: "i32 \<Rightarrow> Arm64FixKind \<Rightarrow> u32 \<Rightarrow> u32 \<Rightarrow> bool" for d where
  "retarget d ARM64_FIX_B26 (arm64_b 0) (arm64_b d)"
| "retarget d ARM64_FIX_B26 (arm64_bl 0) (arm64_bl d)"
| "retarget d ARM64_FIX_IMM19 (arm64_bcond c 0) (arm64_bcond c d)"
| "retarget d ARM64_FIX_IMM19 (arm64_cbz b rt 0) (arm64_cbz b rt d)"
| "retarget d ARM64_FIX_IMM19 (arm64_cbnz b rt 0) (arm64_cbnz b rt d)"

lemma patch_b26_retarget:
  assumes w: "branch_word 0 ARM64_FIX_B26 w" and r: "- (2 ^ 31) \<le> d" "d < 2 ^ 31"
  shows "retarget (word_of_int d) ARM64_FIX_B26 w (patch_b26 (d div 4) w)"
proof -
  have "patch_b26 (d div 4) (arm64_b 0) = arm64_b (word_of_int d)"
    "patch_b26 (d div 4) (arm64_bl 0) = arm64_bl (word_of_int d)"
    unfolding patch_b26_def arm64_b_def arm64_bl_def sar2_word_of_int [OF r] by simp_all
  then show ?thesis using w by (auto elim!: branch_word_b26 intro: retarget.intros)
qed

lemma patch_imm19_word:
  fixes c x n :: u32
  assumes "c AND push_bit 5 0x7FFFF = 0" "n AND push_bit 5 0x7FFFF = 0"
  shows "patch_imm19 ws (c OR push_bit 5 (signed_drop_bit 2 (0 :: i32) AND 0x7FFFF) OR (x AND n)) =
    c OR push_bit 5 (word_of_int ws AND 0x7FFFF) OR (x AND n)"
proof -
  have z: "push_bit 5 (signed_drop_bit 2 (0 :: i32) AND 0x7FFFF) = 0" by simp
  show ?thesis
    unfolding patch_imm19_def z or.left_neutral patch_off [OF assms]
    by (simp only: or.assoc or.commute or.left_commute)
qed

lemma patch_imm19_retarget:
  assumes w: "branch_word 0 ARM64_FIX_IMM19 w" and r: "- (2 ^ 31) \<le> d" "d < 2 ^ 31"
  shows "retarget (word_of_int d) ARM64_FIX_IMM19 w (patch_imm19 (d div 4) w)"
proof -
  note sd = sar2_word_of_int [OF r]
  have "patch_imm19 (d div 4) (arm64_bcond c 0) = arm64_bcond c (word_of_int d)"
    "patch_imm19 (d div 4) (arm64_cbz b rt 0) = arm64_cbz b rt (word_of_int d)"
    "patch_imm19 (d div 4) (arm64_cbnz b rt 0) = arm64_cbnz b rt (word_of_int d)" for c b rt
    unfolding arm64_bcond_def arm64_cbz_def arm64_cbnz_def R5_def sd
    by (rule patch_imm19_word; simp)+
  then show ?thesis using w by (auto elim!: branch_word_imm19 intro: retarget.intros)
qed

lemma ucast16_field: "push_bit 5 (ucast (x AND 0xFFFF)) = push_bit 5 (ucast (ucast (x :: u64) :: u16) :: u32)"
proof (rule bit_word_eqI)
  fix i assume i: "i < LENGTH(32)"
  have m: "(0xFFFF :: u64) = mask 16" by (simp add: mask_eq_exp_minus_1)
  show "bit (push_bit 5 (ucast (x AND 0xFFFF)) :: u32) i = bit (push_bit 5 (ucast (ucast x :: u16) :: u32)) i"
    unfolding m using i by (auto simp: bit_simps)
qed

lemma patch_mov:
  fixes c h r :: u32
  assumes "c AND push_bit 5 0xFFFF = 0" "h AND push_bit 5 0xFFFF = 0"
  shows "((c OR h OR push_bit 5 (ucast (0 :: u16)) OR R5 r) AND NOT (push_bit 5 0xFFFF)) OR push_bit 5 (ucast ((x :: u64) AND 0xFFFF)) =
    c OR h OR push_bit 5 (ucast (ucast x :: u16)) OR R5 r"
proof -
  have "c OR h OR push_bit 5 (ucast (0 :: u16)) OR R5 r = (c OR h) OR (r AND 0x1F)"
    by (simp add: R5_def or.assoc)
  moreover have "(c OR h) AND push_bit 5 0xFFFF = 0"
    using assms by (simp only: bit.conj_disj_distrib2) simp
  moreover have "(0x1F :: u32) AND push_bit 5 0xFFFF = 0" by simp
  ultimately show ?thesis unfolding ucast16_field
    by (simp only: patch_off) (simp only: R5_def or.assoc or.commute or.left_commute)
qed

lemma patch_movzk:
  "(arm64_movz True rd 0 0 AND NOT (push_bit 5 0xFFFF)) OR push_bit 5 (ucast ((x :: u64) AND 0xFFFF)) = arm64_movz True rd (ucast x) 0"
  "(arm64_movk True rd 0 1 AND NOT (push_bit 5 0xFFFF)) OR push_bit 5 (ucast ((x :: u64) AND 0xFFFF)) = arm64_movk True rd (ucast x) 1"
  "(arm64_movk True rd 0 2 AND NOT (push_bit 5 0xFFFF)) OR push_bit 5 (ucast ((x :: u64) AND 0xFFFF)) = arm64_movk True rd (ucast x) 2"
  "(arm64_movk True rd 0 3 AND NOT (push_bit 5 0xFFFF)) OR push_bit 5 (ucast ((x :: u64) AND 0xFFFF)) = arm64_movk True rd (ucast x) 3"
  unfolding arm64_movz_def arm64_movk_def if_True by (rule patch_mov; simp)+

text \<open>What a patch leaves alone: the length and every byte outside the words of the fixup.\<close>

definition framed :: "nat \<Rightarrow> nat \<Rightarrow> u8 list \<Rightarrow> u8 list \<Rightarrow> bool" where
  "framed at n bs bs' \<longleftrightarrow> length bs' = length bs \<and>
     (\<forall>p < length bs. p < at \<or> at + n \<le> p \<longrightarrow> bs' ! p = bs ! p)"

lemma read_word_cong:
  assumes "length bs' = length bs" "p + 4 \<le> length bs" "\<And>i. i < 4 \<Longrightarrow> bs' ! (p + i) = bs ! (p + i)"
  shows "read_word bs' p = read_word bs p"
proof -
  have "take 4 (drop p bs') = take 4 (drop p bs)"
    by (rule nth_equalityI) (use assms in auto)
  then show ?thesis by (simp add: read_word_def)
qed

lemma framed_read:
  assumes "framed at n bs bs'" "p + 4 \<le> length bs" "p + 4 \<le> at \<or> at + n \<le> p"
  shows "read_word bs' p = read_word bs p"
  using assms by (intro read_word_cong) (auto simp: framed_def)

lemma framed_write: "at + 4 \<le> length bs \<Longrightarrow> framed at 4 bs (write_word bs at w)"
  by (auto simp: framed_def write_word_def nth_append)

lemma framed_mono: "framed at n bs bs' \<Longrightarrow> at' \<le> at \<Longrightarrow> at + n \<le> at' + n' \<Longrightarrow> framed at' n' bs bs'"
  by (auto simp: framed_def)

lemma framed_trans: "framed at n bs bs' \<Longrightarrow> framed at n bs' bs'' \<Longrightarrow> framed at n bs bs''"
  by (auto simp: framed_def)

lemma framed_length: "framed at n bs bs' \<Longrightarrow> length bs' = length bs"
  by (simp add: framed_def)

lemma patch_abs64_part:
  assumes "at + part * 4 + 4 \<le> length bs"
  shows "framed (at + part * 4) 4 bs (patch_abs64 a at part bs)"
    "read_word (patch_abs64 a at part bs) (at + part * 4) =
       (read_word bs (at + part * 4) AND NOT (push_bit 5 0xFFFF)) OR push_bit 5 (ucast (drop_bit (16 * part) a AND 0xFFFF))"
  using assms by (simp_all add: patch_abs64_def Let_def framed_write)

lemma patch_abs64_all:
  fixes a :: u64
  assumes l: "at + 16 \<le> length bs" and w: "address_words bs at rd 0"
  defines "bs' \<equiv> fold (patch_abs64 a at) [0, 1, 2, 3] bs"
  shows "framed at 16 bs bs' \<and> address_words bs' at rd a"
proof -
  define b1 where "b1 = patch_abs64 a at 0 bs"
  define b2 where "b2 = patch_abs64 a at 1 b1"
  define b3 where "b3 = patch_abs64 a at 2 b2"
  have b4: "bs' = patch_abs64 a at 3 b3" by (simp add: bs'_def b1_def b2_def b3_def)
  have f1: "framed at 4 bs b1" and r1: "read_word b1 at =
      (read_word bs at AND NOT (push_bit 5 0xFFFF)) OR push_bit 5 (ucast (a AND 0xFFFF))"
    using l patch_abs64_part [of at 0 bs a] by (simp_all add: b1_def)
  have f2: "framed (at + 4) 4 b1 b2" and r2: "read_word b2 (at + 4) =
      (read_word b1 (at + 4) AND NOT (push_bit 5 0xFFFF)) OR push_bit 5 (ucast (drop_bit 16 a AND 0xFFFF))"
    using l framed_length [OF f1] patch_abs64_part [of at 1 b1 a] by (simp_all add: b2_def)
  have f3: "framed (at + 8) 4 b2 b3" and r3: "read_word b3 (at + 8) =
      (read_word b2 (at + 8) AND NOT (push_bit 5 0xFFFF)) OR push_bit 5 (ucast (drop_bit 32 a AND 0xFFFF))"
    using l framed_length [OF f1] framed_length [OF f2] patch_abs64_part [of at 2 b2 a] by (simp_all add: b3_def)
  have f4: "framed (at + 12) 4 b3 bs'" and r4: "read_word bs' (at + 12) =
      (read_word b3 (at + 12) AND NOT (push_bit 5 0xFFFF)) OR push_bit 5 (ucast (drop_bit 48 a AND 0xFFFF))"
    using l framed_length [OF f1] framed_length [OF f2] framed_length [OF f3] patch_abs64_part [of at 3 b3 a]
    by (simp_all add: b4)
  note L = l framed_length [OF f1] framed_length [OF f2] framed_length [OF f3]
  have "framed at 16 bs bs'"
    by (rule framed_trans [OF framed_trans [OF framed_trans]])
       (use f1 f2 f3 f4 in \<open>auto intro: framed_mono\<close>)
  moreover have "read_word bs' at = read_word b1 at" "read_word bs' (at + 4) = read_word b2 (at + 4)"
    "read_word bs' (at + 8) = read_word b3 (at + 8)" "read_word b1 (at + 4) = read_word bs (at + 4)"
    "read_word b2 (at + 8) = read_word bs (at + 8)" "read_word b3 (at + 12) = read_word bs (at + 12)"
    using L framed_read [OF f1] framed_read [OF f2] framed_read [OF f3] framed_read [OF f4] by simp_all
  moreover note r1 r2 r3 r4 w
  ultimately show ?thesis by (simp only: address_words_def unsigned_0 drop_bit_of_0 patch_movzk HOL.simp_thms)
qed

section \<open>The resolved code\<close>

definition label_ok :: "Arm64Emit \<Rightarrow> Arm64Fixup \<Rightarrow> bool" where
  "label_ok e f \<longleftrightarrow> 0 \<le> fix_label f \<and> fix_label f < int (length (em_label_off e)) \<and> em_label_bound e ! nat (fix_label f)"

definition fix_disp :: "Arm64Emit \<Rightarrow> Arm64Fixup \<Rightarrow> int" where
  "fix_disp e f = int (em_label_off e ! nat (fix_label f)) - int (fix_at f)"

definition fix_bits :: "Arm64Fixup \<Rightarrow> nat" where
  "fix_bits f = (if fix_kind f = ARM64_FIX_B26 then 26 else 19)"

text \<open>A fixup can be resolved: its label is bound and, for a branch, within the reach of the field.\<close>

definition fix_can :: "Arm64Emit \<Rightarrow> Arm64Fixup \<Rightarrow> bool" where
  "fix_can e f \<longleftrightarrow> label_ok e f \<and>
     (fix_kind f \<noteq> ARM64_FIX_ABS64_MOV \<longrightarrow>
        - (2 ^ (fix_bits f + 1)) \<le> fix_disp e f \<and> fix_disp e f < 2 ^ (fix_bits f + 1))"

definition resolved :: "Arm64Emit \<Rightarrow> u8 list \<Rightarrow> u8 list \<Rightarrow> Arm64Fixup \<Rightarrow> bool" where
  "resolved e old new f \<longleftrightarrow>
     (if fix_kind f = ARM64_FIX_ABS64_MOV then
        \<exists>rd. address_words old (fix_at f) rd 0 \<and>
             address_words new (fix_at f) rd (em_code_vaddr e + word_of_nat (em_label_off e ! nat (fix_label f)))
      else retarget (word_of_int (fix_disp e f)) (fix_kind f) (read_word old (fix_at f)) (read_word new (fix_at f)))"

lemma disp_words:
  fixes d :: int assumes "4 dvd d"
  shows "d div 4 < - (2 ^ 25) \<longleftrightarrow> d < - (2 ^ 27)" "2 ^ 25 \<le> d div 4 \<longleftrightarrow> 2 ^ 27 \<le> d"
    "d div 4 < - (2 ^ 18) \<longleftrightarrow> d < - (2 ^ 20)" "2 ^ 18 \<le> d div 4 \<longleftrightarrow> 2 ^ 20 \<le> d"
  using assms by (auto elim!: dvdE)

lemma fix_disp_dvd:
  assumes "em_inv (e\<lparr>em_fixups := []\<rparr>)" "label_ok e f" "fixup_ok bs f" shows "4 dvd fix_disp e f"
proof -
  have "em_label_off e ! nat (fix_label f) \<in> set (em_label_off e)"
    using assms(2) by (simp add: label_ok_def nat_less_iff)
  then have "4 dvd em_label_off e ! nat (fix_label f)" using assms(1) by (simp add: em_inv_def)
  then have "4 dvd int (em_label_off e ! nat (fix_label f))" by (metis int_dvd_int_iff of_nat_numeral)
  moreover have "4 dvd int (fix_at f)" using assms(3) unfolding fixup_ok_def by (metis int_dvd_int_iff of_nat_numeral)
  ultimately show ?thesis by (simp add: fix_disp_def)
qed

lemma fix_one_fails:
  assumes "em_inv (e\<lparr>em_fixups := []\<rparr>)" "fixup_ok (em_code e) f" "\<not> fix_can e f"
  shows "\<exists>m. fix_one f e = (False, arm64_fail m e) \<and>
     (if label_ok e f then m = RangeB (fix_disp e f) \<or> m = RangeCond (fix_disp e f) else m = UnboundLabel (fix_at f))"
proof (cases "label_ok e f")
  case True
  note dw = disp_words [OF fix_disp_dvd [OF assms(1) True assms(2)]]
  have "fix_kind f \<noteq> ARM64_FIX_ABS64_MOV" using assms(3) True by (auto simp: fix_can_def)
  then show ?thesis using assms(3) True dw
    by (cases "fix_kind f") (auto simp: fix_one_def Let_def label_ok_def fix_can_def fix_bits_def fix_disp_def [symmetric])
qed (auto simp: fix_one_def label_ok_def)

lemma fix_one_works:
  assumes e: "em_inv (e\<lparr>em_fixups := []\<rparr>)" and f: "fixup_ok (em_code e) f" and c: "fix_can e f"
  shows "\<exists>bs. fix_one f e = (True, e\<lparr>em_code := bs\<rparr>) \<and> framed (fix_at f) (fix_len f) (em_code e) bs \<and> resolved e (em_code e) bs f"
proof -
  have l: "label_ok e f" using c by (simp add: fix_can_def)
  then have nl: "\<not> (fix_label f < 0 \<or> fix_label f \<ge> int (length (em_label_off e)) \<or> \<not> em_label_bound e ! nat (fix_label f))"
    by (auto simp: label_ok_def)
  note dw = disp_words [OF fix_disp_dvd [OF e l f]]
  have at: "fix_at f + fix_len f \<le> length (em_code e)" and p: "placeholder (em_code e) f"
    using f by (simp_all add: fixup_ok_def)
  let ?w = "read_word (em_code e) (fix_at f)"
  show ?thesis
  proof (cases "fix_kind f")
    case ARM64_FIX_B26
    then have r: "- (2 ^ 27) \<le> fix_disp e f" "fix_disp e f < 2 ^ 27" using c by (simp_all add: fix_can_def fix_bits_def)
    have "retarget (word_of_int (fix_disp e f)) ARM64_FIX_B26 ?w (patch_b26 (fix_disp e f div 4) ?w)"
      using r p ARM64_FIX_B26 by (intro patch_b26_retarget) (simp_all add: placeholder_def)
    then show ?thesis using nl r at dw ARM64_FIX_B26
      by (auto simp: fix_one_def Let_def fix_disp_def [symmetric] fix_len_def framed_write resolved_def)
  next
    case ARM64_FIX_IMM19
    then have r: "- (2 ^ 20) \<le> fix_disp e f" "fix_disp e f < 2 ^ 20" using c by (simp_all add: fix_can_def fix_bits_def)
    have "retarget (word_of_int (fix_disp e f)) ARM64_FIX_IMM19 ?w (patch_imm19 (fix_disp e f div 4) ?w)"
      using r p ARM64_FIX_IMM19 by (intro patch_imm19_retarget) (simp_all add: placeholder_def)
    then show ?thesis using nl r at dw ARM64_FIX_IMM19
      by (auto simp: fix_one_def Let_def fix_disp_def [symmetric] fix_len_def framed_write resolved_def)
  next
    case ARM64_FIX_ABS64_MOV
    then obtain rd where "address_words (em_code e) (fix_at f) rd 0" using p by (auto simp: placeholder_def)
    then show ?thesis
      using nl at ARM64_FIX_ABS64_MOV patch_abs64_all [of "fix_at f" "em_code e" rd "em_code_vaddr e + word_of_nat (em_label_off e ! nat (fix_label f))"]
      by (auto simp: fix_one_def Let_def fix_len_def resolved_def)
  qed
qed

text \<open>Fixups do not overlap, so a later patch leaves an earlier one alone.\<close>

definition outside :: "Arm64Fixup list \<Rightarrow> nat \<Rightarrow> bool" where
  "outside fs p \<longleftrightarrow> (\<forall>f\<in>set fs. p < fix_at f \<or> fix_at f + fix_len f \<le> p)"

lemma framed_fixup_ok:
  assumes "framed (fix_at f) (fix_len f) bs bs'" "fixup_ok bs g" "fix_at f + fix_len f \<le> fix_at g"
  shows "fixup_ok bs' g" and "resolved e bs' new g \<Longrightarrow> resolved e bs new g"
  using assms framed_length [OF assms(1)]
  by (auto simp: fixup_ok_def placeholder_def resolved_def address_words_def fix_len_def framed_read [OF assms(1)] split: if_splits)

lemma resolved_cong:
  assumes "resolved e old new f" "fix_at f + fix_len f \<le> length new" "length new' = length new"
    "\<And>i. i < fix_len f \<Longrightarrow> new' ! (fix_at f + i) = new ! (fix_at f + i)"
  shows "resolved e old new' f"
proof -
  have "read_word new' (fix_at f + k) = read_word new (fix_at f + k)" if "k + 4 \<le> fix_len f" for k
    using assms(2-) that by (intro read_word_cong) (simp_all add: add.assoc)
  from this [of 0] this [of 4] this [of 8] this [of 12] show ?thesis
    using assms(1) by (auto simp: resolved_def address_words_def fix_len_def split: if_splits)
qed

lemma em_code_sel [simp]:
  "fix_can (e\<lparr>em_code := bs\<rparr>) = fix_can e" "resolved (e\<lparr>em_code := bs\<rparr>) = resolved e"
  by (simp_all add: fun_eq_iff fix_can_def label_ok_def fix_disp_def resolved_def)

definition patchable :: "Arm64Emit \<Rightarrow> Arm64Fixup list \<Rightarrow> bool" where
  "patchable e fs \<longleftrightarrow> em_inv (e\<lparr>em_fixups := fs\<rparr>)"

lemma patchable_ConsD:
  assumes "patchable e (f # fs)"
  shows "fixup_ok (em_code e) f" "em_inv (e\<lparr>em_fixups := []\<rparr>)"
    "framed (fix_at f) (fix_len f) (em_code e) bs \<Longrightarrow> patchable (e\<lparr>em_code := bs\<rparr>) fs"
    "\<forall>g\<in>set fs. fixup_ok (em_code e) g \<and> fix_at f + fix_len f \<le> fix_at g"
  using assms by (auto simp: patchable_def em_inv_def framed_length dest: framed_fixup_ok)

lemma fix_all_works:
  "patchable e fs \<Longrightarrow> \<forall>f\<in>set fs. fix_can e f \<Longrightarrow>
   \<exists>bs. fix_all fs e = (True, e\<lparr>em_code := bs\<rparr>) \<and> length bs = length (em_code e) \<and>
     (\<forall>p < length bs. outside fs p \<longrightarrow> bs ! p = em_code e ! p) \<and> (\<forall>f\<in>set fs. resolved e (em_code e) bs f)"
proof (induction fs arbitrary: e)
  case Nil
  have "e\<lparr>em_code := em_code e\<rparr> = e" by simp
  then show ?case by (intro exI [of _ "em_code e"]) simp
next
  case (Cons f fs)
  note pd = patchable_ConsD [OF Cons.prems(1)]
  obtain b1 where b1: "fix_one f e = (True, e\<lparr>em_code := b1\<rparr>)" "framed (fix_at f) (fix_len f) (em_code e) b1" "resolved e (em_code e) b1 f"
    using fix_one_works [OF pd(2,1)] Cons.prems(2) by auto
  obtain bs where bs: "fix_all fs (e\<lparr>em_code := b1\<rparr>) = (True, e\<lparr>em_code := bs\<rparr>)" "length bs = length b1"
    "\<forall>p < length bs. outside fs p \<longrightarrow> bs ! p = b1 ! p" "\<forall>g\<in>set fs. resolved e b1 bs g"
    using Cons.IH [OF pd(3) [OF b1(2)]] Cons.prems(2) by auto
  have l: "length b1 = length (em_code e)" "fix_at f + fix_len f \<le> length b1"
    using framed_length [OF b1(2)] pd(1) by (simp_all add: fixup_ok_def)
  have "bs ! (fix_at f + i) = b1 ! (fix_at f + i)" if "i < fix_len f" for i
  proof -
    have "outside fs (fix_at f + i)" using pd(4) that by (auto simp: outside_def)
    moreover have "fix_at f + i < length bs" using bs(2) l that by simp
    ultimately show ?thesis using bs(3) by blast
  qed
  then have "resolved e (em_code e) bs f" using resolved_cong [OF b1(3) l(2) bs(2)] by blast
  moreover have "\<forall>g\<in>set fs. resolved e (em_code e) bs g" using framed_fixup_ok(2) [OF b1(2)] pd(4) bs(4) by blast
  moreover have "\<forall>p < length bs. outside (f # fs) p \<longrightarrow> bs ! p = em_code e ! p"
    using bs(2,3) b1(2) l by (auto simp: outside_def framed_def)
  ultimately show ?case using b1(1) bs(1,2) l(1) by auto
qed

lemma fix_all_fails:
  "patchable e fs \<Longrightarrow> \<exists>f\<in>set fs. \<not> fix_can e f \<Longrightarrow> \<exists>bs m. fix_all fs e = (False, arm64_fail m (e\<lparr>em_code := bs\<rparr>))"
proof (induction fs arbitrary: e)
  case (Cons f fs)
  note pd = patchable_ConsD [OF Cons.prems(1)]
  show ?case
  proof (cases "fix_can e f")
    case True
    then obtain b1 where b1: "fix_one f e = (True, e\<lparr>em_code := b1\<rparr>)" "framed (fix_at f) (fix_len f) (em_code e) b1"
      using fix_one_works [OF pd(2,1)] by auto
    then show ?thesis using Cons.IH [OF pd(3) [OF b1(2)]] Cons.prems(2) True by auto
  next
    case False
    then obtain m where "fix_one f e = (False, arm64_fail m e)" using fix_one_fails [OF pd(2,1)] by blast
    then have "fix_all (f # fs) e = (False, arm64_fail m (e\<lparr>em_code := em_code e\<rparr>))" by simp
    then show ?thesis by blast
  qed
qed simp

lemma emitted_patchable: "emitted vaddr e \<Longrightarrow> patchable e (em_fixups e)"
  by (simp add: patchable_def emitted_inv)

text \<open>The decoder reads the displacement back from a retargeted branch.\<close>

lemma retarget_decodes:
  assumes "retarget d (fix_kind f) w w'" "branch_ok d (fix_bits f)"
  shows "dis_imm (arm64_decode w') = word_of_int (sint d)"
  using assms 
    decode_cbz [unfolded decodes_cb_def Let_def] decode_cbnz [unfolded decodes_cb_def Let_def]
  by cases (simp_all add: fix_bits_def decode_b decode_bl decode_bcond)

text \<open>A small program: a branch and a label address over a label bound behind them.\<close>

definition demo_code :: Arm64Emit where
  "demo_code =
    arm64_bind_label 0
      (snd (arm64_emit_label_address (\<lambda>_. True) 5 0
        (snd (arm64_emit_b (\<lambda>_. True) 0
          (snd (arm64_new_label (\<lambda>_. True) (arm64_emit_init\<lparr>em_code_vaddr := 0x400000\<rparr>)))))))"

lemma demo_emitted: "emitted 0x400000 demo_code"
  unfolding demo_code_def by (rule emitted.intros emit_step.intros)+

lemma demo_finalize: "fst (arm64_emit_finalize demo_code)"
  by code_simp

lemma demo_fixups: "em_fixups demo_code =
    [\<lparr>fix_at = 0, fix_label = 0, fix_kind = ARM64_FIX_B26\<rparr>, \<lparr>fix_at = 4, fix_label = 0, fix_kind = ARM64_FIX_ABS64_MOV\<rparr>]"
  by code_simp

lemma demo_labels: "em_label_off demo_code = [20]"
  by code_simp

section \<open>Properties\<close>

text \<open>C17. Whatever calls build the code, and whichever allocations fail, the buffer never holds more bytes than
  its capacity, its length and every bound label stay multiples of four, and the fixups are in order, do not
  overlap, lie inside the buffer and each stands on the placeholder it was recorded for.\<close>

theorem emitter_invariant:
  assumes "emitted vaddr e"
  shows "length (em_code e) \<le> em_cap e \<and> 4 dvd length (em_code e) \<and>
    (\<forall>p\<in>set (em_label_off e). 4 dvd p \<and> p \<le> length (em_code e)) \<and>
    sorted_wrt (\<lambda>f g. fix_at f + fix_len f \<le> fix_at g) (em_fixups e) \<and>
    (\<forall>f\<in>set (em_fixups e). fix_at f + fix_len f \<le> length (em_code e) \<and> placeholder (em_code e) f)"
  using emitted_inv [OF assms] by (simp add: em_inv_def fixup_ok_def)

theorem emitter_invariant_witness: "length (em_code demo_code) \<le> em_cap demo_code \<and> 4 dvd length (em_code demo_code)"
  using emitter_invariant [OF demo_emitted] by simp

text \<open>C15. A successful \<open>arm64_emit_finalize\<close> turns every branch placeholder into the same instruction with the
  displacement from the branch to its label, which the decoder reads back exactly, makes every address
  placeholder load the virtual address of its label, and changes no other byte.\<close>

theorem finalize_resolves:
  assumes em: "emitted vaddr e" and fin: "arm64_emit_finalize e = (True, e')"
  shows "(\<forall>f\<in>set (em_fixups e). resolved e (em_code e) (em_code e') f \<and>
      (fix_kind f \<noteq> ARM64_FIX_ABS64_MOV \<longrightarrow>
         dis_imm (arm64_decode (read_word (em_code e') (fix_at f))) = word_of_int (fix_disp e f))) \<and>
    length (em_code e') = length (em_code e) \<and>
    (\<forall>p < length (em_code e). outside (em_fixups e) p \<longrightarrow> em_code e' ! p = em_code e ! p)"
proof -
  note pa = emitted_patchable [OF em]
  have nerr: "\<not> em_error e" and all: "fix_all (em_fixups e) e = (True, e')"
    using fin by (auto simp: arm64_emit_finalize_def split: if_splits)
  have can: "\<forall>f\<in>set (em_fixups e). fix_can e f" using fix_all_fails [OF pa] all by fastforce
  have *: "\<forall>f\<in>set (em_fixups e). resolved e (em_code e) (em_code e') f"
    "length (em_code e') = length (em_code e)"
    "\<forall>p < length (em_code e). outside (em_fixups e) p \<longrightarrow> em_code e' ! p = em_code e ! p"
    using fix_all_works [OF pa can] all by auto
  have "dis_imm (arm64_decode (read_word (em_code e') (fix_at f))) = word_of_int (fix_disp e f)"
    if f: "f \<in> set (em_fixups e)" and k: "fix_kind f \<noteq> ARM64_FIX_ABS64_MOV" for f
  proof -
    have c: "label_ok e f" "- (2 ^ (fix_bits f + 1)) \<le> fix_disp e f" "fix_disp e f < 2 ^ (fix_bits f + 1)"
      using can f k by (auto simp: fix_can_def)
    have fo: "fixup_ok (em_code e) f" and ei: "em_inv (e\<lparr>em_fixups := []\<rparr>)"
      using emitted_inv [OF em] f by (simp_all add: em_inv_def)
    have "(2::int) ^ (fix_bits f + 1) \<le> 2 ^ 27" by (simp add: fix_bits_def)
    then have s: "sint (word_of_int (fix_disp e f) :: i32) = fix_disp e f"
      using c(2,3) by (simp add: sint_sbintrunc' signed_take_bit_int_eq_self)
    have "branch_ok (word_of_int (fix_disp e f)) (fix_bits f)"
      unfolding branch_ok_def s using c fix_disp_dvd [OF ei c(1) fo] by simp
    then show ?thesis using *(1) f k retarget_decodes s by (fastforce simp: resolved_def)
  qed
  then show ?thesis using * by blast
qed

theorem finalize_resolves_witness:
  "\<exists>e'. arm64_emit_finalize demo_code = (True, e') \<and> dis_imm (arm64_decode (read_word (em_code e') 0)) = 20"
proof -
  obtain e' where e': "arm64_emit_finalize demo_code = (True, e')"
    using demo_finalize by (metis (full_types) eq_fst_iff)
  have "dis_imm (arm64_decode (read_word (em_code e') 0)) = 20"
    using finalize_resolves [OF demo_emitted e'] by (simp add: demo_fixups demo_labels fix_disp_def)
  then show ?thesis using e' by blast
qed

text \<open>C16. \<open>arm64_emit_finalize\<close> succeeds exactly when no call failed before, every fixup names a bound label and
  every branch is within the reach of its field (128 MB for B and BL, 1 MB for the conditional ones); otherwise
  the error flag is set, so a failure is never mistaken for finished code.\<close>

theorem finalize_outcome:
  assumes "emitted vaddr e"
  shows "(fst (arm64_emit_finalize e) \<longleftrightarrow> \<not> em_error e \<and> (\<forall>f\<in>set (em_fixups e). fix_can e f)) \<and>
    (\<not> fst (arm64_emit_finalize e) \<longrightarrow> em_error (snd (arm64_emit_finalize e)))"
proof (cases "\<not> em_error e \<and> (\<forall>f\<in>set (em_fixups e). fix_can e f)")
  case True
  then show ?thesis using fix_all_works [OF emitted_patchable [OF assms]] by (auto simp: arm64_emit_finalize_def)
next
  case False
  show ?thesis
  proof (cases "em_error e")
    case True then show ?thesis by (simp add: arm64_emit_finalize_def)
  next
    case nerr: False
    then have ex: "\<exists>f\<in>set (em_fixups e). \<not> fix_can e f" using False by simp
    then obtain bs m where "fix_all (em_fixups e) e = (False, arm64_fail m (e\<lparr>em_code := bs\<rparr>))"
      using fix_all_fails [OF emitted_patchable [OF assms]] by blast
    then show ?thesis using nerr ex by (auto simp: arm64_emit_finalize_def)
  qed
qed

theorem finalize_outcome_witness: "fst (arm64_emit_finalize demo_code) \<and> \<not> em_error demo_code"
  using finalize_outcome [OF demo_emitted] demo_finalize by blast

end
