(* ===== verification/Arm64Abi.thy ===== *)
theory Arm64Abi
  imports Arm64Encode
begin

text \<open>
  The AArch64 calling convention, \<open>codegen/binary/arm64_abi.c\<close>: the register tables, the overridable list
  of integer argument registers (file-scope state), the register predicates and the argument layout.
\<close>

section \<open>Tables and state\<close>

definition GP_ARG_REGS :: "Arm64Reg list" where "GP_ARG_REGS = [0, 1, 2, 3, 4, 5, 6, 7]"
definition VEC_ARG_REGS :: "Arm64Reg list" where "VEC_ARG_REGS = [0, 1, 2, 3, 4, 5, 6, 7]"
definition GP_CALLEE_SAVED :: "Arm64Reg list" where
  "GP_CALLEE_SAVED = [19, 20, 21, 22, 23, 24, 25, 26, 27, 28]"
definition GP_TEMPS :: "Arm64Reg list" where "GP_TEMPS = [9, 10, 11, 12, 13, 14, 15]"
definition VEC_VOLATILE :: "Arm64Reg list" where "VEC_VOLATILE = [0, 1, 2, 3, 4, 5, 6, 7]"
definition VEC_CALLEE_SAVED :: "Arm64Reg list" where
  "VEC_CALLEE_SAVED = [8, 9, 10, 11, 12, 13, 14, 15]"

text \<open>A register table of the structure is a list; its count field is the number of entries in use.\<close>

record Arm64Abi =
  gp_arg_regs :: "Arm64Reg list"
  gp_arg_count :: int
  vec_arg_regs :: "Arm64Reg list"
  vec_arg_count :: int
  indirect_result_reg :: Arm64Reg
  stack_slot_bytes :: int
  gp_callee_saved :: "Arm64Reg list"
  gp_temps :: "Arm64Reg list"
  vec_volatile :: "Arm64Reg list"
  vec_callee_saved :: "Arm64Reg list"
  abi_fp :: Arm64Reg
  abi_lr :: Arm64Reg
  abi_sp :: Arm64Reg
  abi_scratch0 :: Arm64Reg
  abi_scratch1 :: Arm64Reg
  abi_platform :: Arm64Reg

definition AAPCS64 :: Arm64Abi where
  "AAPCS64 = \<lparr>gp_arg_regs = GP_ARG_REGS, gp_arg_count = int (length GP_ARG_REGS),
     vec_arg_regs = VEC_ARG_REGS, vec_arg_count = int (length VEC_ARG_REGS),
     indirect_result_reg = 8, stack_slot_bytes = 8,
     gp_callee_saved = GP_CALLEE_SAVED, gp_temps = GP_TEMPS, vec_volatile = VEC_VOLATILE,
     vec_callee_saved = VEC_CALLEE_SAVED,
     abi_fp = 29, abi_lr = 30, abi_sp = 31, abi_scratch0 = 16, abi_scratch1 = 17, abi_platform = 18\<rparr>"

text \<open>
  The file-scope variables. \<open>g_abi.gp_arg_regs\<close> points to \<open>g_gp_args\<close> once it is initialised, so a write to
  that array is a write to both.
\<close>

record abi_globals =
  g_gp_args :: "Arm64Reg list"
  g_abi :: "Arm64Abi option"

definition abi_start :: abi_globals where
  "abi_start = \<lparr>g_gp_args = [0, 1, 2, 3, 4, 5, 6, 7], g_abi = None\<rparr>"

definition arm64_abi :: "abi_globals \<Rightarrow> Arm64Abi \<times> abi_globals" where
  "arm64_abi g =
    (case g_abi g of
       Some abi \<Rightarrow> (abi, g)
     | None \<Rightarrow>
         let abi = AAPCS64\<lparr>gp_arg_regs := g_gp_args g, gp_arg_count := int (length (g_gp_args g))\<rparr>
         in (abi, g\<lparr>g_abi := Some abi\<rparr>))"

definition arm64_aapcs64 :: "abi_globals \<Rightarrow> Arm64Abi \<times> abi_globals" where
  "arm64_aapcs64 g = arm64_abi g"

definition set_args :: "Arm64Reg list \<Rightarrow> int \<Rightarrow> abi_globals \<Rightarrow> abi_globals" where
  "set_args args n g =
    (let (abi, g') = arm64_abi g
     in g'\<lparr>g_gp_args := args, g_abi := Some (abi\<lparr>gp_arg_regs := args, gp_arg_count := n\<rparr>)\<rparr>)"

text \<open>The validation loop: entry \<open>i\<close> is at most X7 and differs from every earlier entry.\<close>

fun args_valid :: "Arm64Reg list \<Rightarrow> Arm64Reg list \<Rightarrow> bool" where
  "args_valid seen [] = True"
| "args_valid seen (r # rs) = (\<not> r > 7 \<and> r \<notin> set seen \<and> args_valid (seen @ [r]) rs)"

definition arm64_abi_set_gp_args ::
  "Arm64Reg list option \<Rightarrow> int \<Rightarrow> abi_globals \<Rightarrow> bool \<times> abi_globals" where
  "arm64_abi_set_gp_args regs count g =
    (case regs of
       None \<Rightarrow> (False, g)
     | Some rs \<Rightarrow>
         if count < 1 \<or> count > int (length (g_gp_args g)) then (False, g)
         else if \<not> args_valid [] (take (nat count) rs) then (False, g)
         else (True, set_args (take (nat count) rs @ drop (nat count) (g_gp_args g)) count g))"

definition arm64_abi_reset :: "abi_globals \<Rightarrow> abi_globals" where
  "arm64_abi_reset g =
    set_args (map word_of_nat [0..<length (g_gp_args g)]) (int (length (g_gp_args g))) g"

section \<open>Register predicates\<close>

definition arm64_reg_is_callee_saved :: "Arm64Reg \<Rightarrow> bool" where
  "arm64_reg_is_callee_saved r \<longleftrightarrow> (r \<ge> 19 \<and> r \<le> 28) \<or> r = 29"

definition arm64_reg_is_volatile :: "Arm64Reg \<Rightarrow> bool" where
  "arm64_reg_is_volatile r \<longleftrightarrow> (if r \<ge> 0 \<and> r \<le> 18 then True else r = 30)"

fun arg_index :: "Arm64Reg list \<Rightarrow> int \<Rightarrow> Arm64Reg \<Rightarrow> int" where
  "arg_index [] i r = -1"
| "arg_index (a # as) i r = (if a = r then i else arg_index as (i + 1) r)"

definition arm64_reg_arg_index :: "Arm64Reg \<Rightarrow> abi_globals \<Rightarrow> int \<times> abi_globals" where
  "arm64_reg_arg_index r g =
    (case arm64_abi g of (abi, g') \<Rightarrow> (arg_index (take (nat (gp_arg_count abi)) (gp_arg_regs abi)) 0 r, g'))"

definition arm64_reg_is_allocatable :: "Arm64Reg \<Rightarrow> bool" where
  "arm64_reg_is_allocatable r \<longleftrightarrow>
    (if r = 31 \<or> r = 29 \<or> r = 30 then False else if r = 16 \<or> r = 17 \<or> r = 18 then False else r \<le> 28)"

section \<open>Argument layout\<close>

datatype Arm64ArgKind = ARM64_ARG_IN_GP_REGISTER | ARM64_ARG_IN_VEC_REGISTER | ARM64_ARG_ON_STACK

record Arm64ArgLocation =
  loc_kind :: Arm64ArgKind
  loc_reg :: Arm64Reg
  loc_stack_offset :: int

definition mk_loc :: "Arm64ArgKind \<Rightarrow> Arm64Reg \<Rightarrow> int \<Rightarrow> Arm64ArgLocation" where
  "mk_loc k r s = \<lparr>loc_kind = k, loc_reg = r, loc_stack_offset = s\<rparr>"

fun layout_loop :: "Arm64Abi \<Rightarrow> bool list \<Rightarrow> nat \<Rightarrow> nat \<Rightarrow> int \<Rightarrow> Arm64ArgLocation list \<times> int" where
  "layout_loop abi [] gp_used vec_used stack_cursor = ([], stack_cursor)"
| "layout_loop abi (f # fs) gp_used vec_used stack_cursor =
    (if f \<and> int vec_used < vec_arg_count abi then
       (case layout_loop abi fs gp_used (vec_used + 1) stack_cursor of
          (ls, n) \<Rightarrow> (mk_loc ARM64_ARG_IN_VEC_REGISTER (vec_arg_regs abi ! vec_used) 0 # ls, n))
     else if \<not> f \<and> int gp_used < gp_arg_count abi then
       (case layout_loop abi fs (gp_used + 1) vec_used stack_cursor of
          (ls, n) \<Rightarrow> (mk_loc ARM64_ARG_IN_GP_REGISTER (gp_arg_regs abi ! gp_used) 0 # ls, n))
     else
       (case layout_loop abi fs gp_used vec_used (stack_cursor + stack_slot_bytes abi) of
          (ls, n) \<Rightarrow> (mk_loc ARM64_ARG_ON_STACK ARM64_SP stack_cursor # ls, n)))"

text \<open>The arrays may be null: \<open>is_float\<close> is an option, \<open>out\<close> tells whether the output array exists. \<open>None\<close> is the
  result 0, \<open>Some\<close> holds the output array and the stack size.\<close>

definition arm64_compute_arg_layout ::
  "bool list option \<Rightarrow> int \<Rightarrow> bool \<Rightarrow> abi_globals \<Rightarrow> (Arm64ArgLocation list \<times> int) option \<times> abi_globals" where
  "arm64_compute_arg_layout is_float count out g =
    (if count < 0 \<or> (count > 0 \<and> (is_float = None \<or> \<not> out)) then (None, g)
     else case arm64_abi g of
       (abi, g') \<Rightarrow>
         (Some (layout_loop abi (take (nat count) (case is_float of Some fs \<Rightarrow> fs | None \<Rightarrow> [])) 0 0 0), g'))"

section \<open>Invariant\<close>

definition abi_inv :: "abi_globals \<Rightarrow> bool" where
  "abi_inv g \<longleftrightarrow> length (g_gp_args g) = 8 \<and>
     (case g_abi g of
        None \<Rightarrow> g_gp_args g = GP_ARG_REGS
      | Some abi \<Rightarrow> \<exists>n. 1 \<le> n \<and> n \<le> 8 \<and> distinct (take (nat n) (g_gp_args g)) \<and>
          (\<forall>r\<in>set (take (nat n) (g_gp_args g)). r \<le> 7) \<and>
          abi = AAPCS64\<lparr>gp_arg_regs := g_gp_args g, gp_arg_count := n\<rparr>)"

lemma args_valid_iff: "args_valid seen rs \<longleftrightarrow> distinct rs \<and> set seen \<inter> set rs = {} \<and> (\<forall>r\<in>set rs. r \<le> 7)"
  by (induction rs arbitrary: seen) (auto simp: not_less)

lemma gp_args_default: "distinct GP_ARG_REGS" "length GP_ARG_REGS = 8" "\<forall>r\<in>set GP_ARG_REGS. r \<le> 7"
  by (simp_all add: GP_ARG_REGS_def)

lemma abi_inv_start: "abi_inv abi_start"
  by (simp add: abi_inv_def abi_start_def GP_ARG_REGS_def)

lemma arm64_abi_inv:
  assumes "abi_inv g"
  obtains n where "1 \<le> n" "n \<le> 8" "distinct (take (nat n) (g_gp_args g))"
    "\<forall>r\<in>set (take (nat n) (g_gp_args g)). r \<le> 7" "length (g_gp_args g) = 8"
    "fst (arm64_abi g) = AAPCS64\<lparr>gp_arg_regs := g_gp_args g, gp_arg_count := n\<rparr>"
    "g_gp_args (snd (arm64_abi g)) = g_gp_args g" "abi_inv (snd (arm64_abi g))"
proof (cases "g_abi g")
  case None
  then have e: "g_gp_args g = GP_ARG_REGS" using assms by (simp add: abi_inv_def)
  then show thesis using None gp_args_default
    by (intro that [of 8]) (auto simp: arm64_abi_def abi_inv_def Let_def intro!: exI [of _ "8::int"])
next
  case (Some abi)
  then show thesis using assms that by (auto simp: arm64_abi_def abi_inv_def)
qed

lemma set_args_inv:
  assumes "abi_inv g" "length args = 8" "1 \<le> n" "n \<le> 8" "distinct (take (nat n) args)"
    "\<forall>r\<in>set (take (nat n) args). r \<le> 7"
  shows "abi_inv (set_args args n g)"
proof -
  obtain m where "fst (arm64_abi g) = AAPCS64\<lparr>gp_arg_regs := g_gp_args g, gp_arg_count := m\<rparr>"
    using arm64_abi_inv [OF assms(1)] by metis
  then show ?thesis using assms(2-6)
    by (cases "arm64_abi g") (auto simp: set_args_def abi_inv_def intro!: exI [of _ n])
qed

section \<open>Facts on the layout\<close>

definition loc_in :: "Arm64Abi \<Rightarrow> nat \<Rightarrow> nat \<Rightarrow> int \<Rightarrow> int \<Rightarrow> Arm64ArgLocation \<Rightarrow> bool" where
  "loc_in abi gp vec lo hi l \<longleftrightarrow>
    (case loc_kind l of
       ARM64_ARG_IN_GP_REGISTER \<Rightarrow> loc_stack_offset l = 0 \<and>
         (\<exists>i\<ge>gp. int i < gp_arg_count abi \<and> loc_reg l = gp_arg_regs abi ! i)
     | ARM64_ARG_IN_VEC_REGISTER \<Rightarrow> loc_stack_offset l = 0 \<and>
         (\<exists>i\<ge>vec. int i < vec_arg_count abi \<and> loc_reg l = vec_arg_regs abi ! i)
     | ARM64_ARG_ON_STACK \<Rightarrow> loc_reg l = ARM64_SP \<and> lo \<le> loc_stack_offset l \<and>
         loc_stack_offset l + stack_slot_bytes abi \<le> hi \<and> stack_slot_bytes abi dvd loc_stack_offset l)"

lemma loc_in_mono:
  "loc_in abi gp vec lo hi l \<Longrightarrow> gp' \<le> gp \<Longrightarrow> vec' \<le> vec \<Longrightarrow> lo' \<le> lo \<Longrightarrow> loc_in abi gp' vec' lo' hi l"
  by (cases "loc_kind l") (auto simp: loc_in_def intro: le_trans)

definition abi_tables_ok :: "Arm64Abi \<Rightarrow> bool" where
  "abi_tables_ok abi \<longleftrightarrow>
     distinct (take (nat (gp_arg_count abi)) (gp_arg_regs abi)) \<and> gp_arg_count abi \<le> int (length (gp_arg_regs abi)) \<and>
     distinct (take (nat (vec_arg_count abi)) (vec_arg_regs abi)) \<and> vec_arg_count abi \<le> int (length (vec_arg_regs abi)) \<and>
     0 < stack_slot_bytes abi"

lemma distinct_take_nth:
  "distinct (take k xs) \<Longrightarrow> k \<le> length xs \<Longrightarrow> i < k \<Longrightarrow> j < k \<Longrightarrow> xs ! i = xs ! j \<Longrightarrow> i = j"
  by (metis length_take min.absorb2 nth_eq_iff_index_eq nth_take)

lemma loc_kind_mk_loc [simp]: "loc_kind (mk_loc k r s) = k" "loc_reg (mk_loc k r s) = r" "loc_stack_offset (mk_loc k r s) = s"
  by (simp_all add: mk_loc_def)

lemma layout_cursor_le: "0 < stack_slot_bytes abi \<Longrightarrow> layout_loop abi fs gp vec sc = (ls, n) \<Longrightarrow> sc \<le> n"
proof (induction abi fs gp vec sc arbitrary: ls n rule: layout_loop.induct)
  case (2 abi f fs gp vec sc)
  then show ?case by (fastforce split: if_splits prod.splits)
qed simp

text \<open>Every location lies in the part of the tables and of the stack that is still free.\<close>

lemma layout_loc_in:
  assumes "abi_tables_ok abi"
  shows "layout_loop abi fs gp vec sc = (ls, n) \<Longrightarrow> stack_slot_bytes abi dvd sc \<Longrightarrow>
     length ls = length fs \<and> (\<forall>l\<in>set ls. loc_in abi gp vec sc n l)"
proof (induction fs arbitrary: gp vec sc ls n)
  case (Cons f fs)
  have pos: "0 < stack_slot_bytes abi" using assms by (simp add: abi_tables_ok_def)
  consider (v) "f" "int vec < vec_arg_count abi" | (g) "\<not> f" "int gp < gp_arg_count abi"
    | (s) "\<not> (f \<and> int vec < vec_arg_count abi)" "\<not> (\<not> f \<and> int gp < gp_arg_count abi)" by blast
  then show ?case
  proof cases
    case v
    then obtain ls' where l: "layout_loop abi fs gp (vec + 1) sc = (ls', n)"
      "ls = mk_loc ARM64_ARG_IN_VEC_REGISTER (vec_arg_regs abi ! vec) 0 # ls'"
      using Cons.prems(1) by (auto split: prod.splits)
    have "loc_in abi gp vec sc n (hd ls)" using v by (auto simp: l loc_in_def)
    then show ?thesis using Cons.IH [OF l(1) Cons.prems(2)] loc_in_mono [of abi gp "vec + 1" sc n _ gp vec sc]
      by (simp add: l(2))
  next
    case g
    then obtain ls' where l: "layout_loop abi fs (gp + 1) vec sc = (ls', n)"
      "ls = mk_loc ARM64_ARG_IN_GP_REGISTER (gp_arg_regs abi ! gp) 0 # ls'"
      using Cons.prems(1) by (auto split: prod.splits)
    have "loc_in abi gp vec sc n (hd ls)" using g by (auto simp: l loc_in_def)
    then show ?thesis using Cons.IH [OF l(1) Cons.prems(2)] loc_in_mono [of abi "gp + 1" vec sc n _ gp vec sc]
      by (simp add: l(2))
  next
    case s
    then obtain ls' where l: "layout_loop abi fs gp vec (sc + stack_slot_bytes abi) = (ls', n)"
      "ls = mk_loc ARM64_ARG_ON_STACK ARM64_SP sc # ls'"
      using Cons.prems(1) by (auto split: prod.splits)
    have "loc_in abi gp vec sc n (hd ls)"
      using layout_cursor_le [OF pos l(1)] Cons.prems(2) by (simp add: l loc_in_def)
    moreover have "stack_slot_bytes abi dvd sc + stack_slot_bytes abi" using Cons.prems(2) by simp
    ultimately show ?thesis using Cons.IH [OF l(1)] pos
        loc_in_mono [of abi gp vec "sc + stack_slot_bytes abi" n _ gp vec sc] by (simp add: l(2))
  qed
qed simp

lemma loc_in_fresh:
  assumes ok: "abi_tables_ok abi"
  shows "int gp < gp_arg_count abi \<Longrightarrow> \<not> loc_in abi (gp + 1) vec lo hi (mk_loc ARM64_ARG_IN_GP_REGISTER (gp_arg_regs abi ! gp) 0)"
    and "int vec < vec_arg_count abi \<Longrightarrow> \<not> loc_in abi gp (vec + 1) lo hi (mk_loc ARM64_ARG_IN_VEC_REGISTER (vec_arg_regs abi ! vec) 0)"
    and "\<not> loc_in abi gp vec (sc + stack_slot_bytes abi) hi (mk_loc ARM64_ARG_ON_STACK ARM64_SP sc)"
proof -
  show "\<not> loc_in abi (gp + 1) vec lo hi (mk_loc ARM64_ARG_IN_GP_REGISTER (gp_arg_regs abi ! gp) 0)" if "int gp < gp_arg_count abi"
  proof
    assume "loc_in abi (gp + 1) vec lo hi (mk_loc ARM64_ARG_IN_GP_REGISTER (gp_arg_regs abi ! gp) 0)"
    then obtain i where i: "gp + 1 \<le> i" "int i < gp_arg_count abi" "gp_arg_regs abi ! gp = gp_arg_regs abi ! i"
      by (auto simp: loc_in_def)
    have "gp = i" using that ok i
      by (intro distinct_take_nth [of "nat (gp_arg_count abi)" "gp_arg_regs abi"]) (auto simp: abi_tables_ok_def)
    then show False using i(1) by simp
  qed
  show "\<not> loc_in abi gp (vec + 1) lo hi (mk_loc ARM64_ARG_IN_VEC_REGISTER (vec_arg_regs abi ! vec) 0)" if "int vec < vec_arg_count abi"
  proof
    assume "loc_in abi gp (vec + 1) lo hi (mk_loc ARM64_ARG_IN_VEC_REGISTER (vec_arg_regs abi ! vec) 0)"
    then obtain i where i: "vec + 1 \<le> i" "int i < vec_arg_count abi" "vec_arg_regs abi ! vec = vec_arg_regs abi ! i"
      by (auto simp: loc_in_def)
    have "vec = i" using that ok i
      by (intro distinct_take_nth [of "nat (vec_arg_count abi)" "vec_arg_regs abi"]) (auto simp: abi_tables_ok_def)
    then show False using i(1) by simp
  qed
  show "\<not> loc_in abi gp vec (sc + stack_slot_bytes abi) hi (mk_loc ARM64_ARG_ON_STACK ARM64_SP sc)"
    using ok by (simp add: loc_in_def abi_tables_ok_def)
qed

lemma layout_distinct:
  assumes ok: "abi_tables_ok abi"
  shows "layout_loop abi fs gp vec sc = (ls, n) \<Longrightarrow> stack_slot_bytes abi dvd sc \<Longrightarrow> distinct ls"
proof (induction fs arbitrary: gp vec sc ls n)
  case (Cons f fs)
  consider (v) "f" "int vec < vec_arg_count abi" | (g) "\<not> f" "int gp < gp_arg_count abi"
    | (s) "\<not> (f \<and> int vec < vec_arg_count abi)" "\<not> (\<not> f \<and> int gp < gp_arg_count abi)" by blast
  then show ?case
  proof cases
    case v
    then obtain ls' where l: "layout_loop abi fs gp (vec + 1) sc = (ls', n)"
      "ls = mk_loc ARM64_ARG_IN_VEC_REGISTER (vec_arg_regs abi ! vec) 0 # ls'"
      using Cons.prems(1) by (auto split: prod.splits)
    then show ?thesis using Cons.IH [OF l(1) Cons.prems(2)] layout_loc_in [OF ok l(1) Cons.prems(2)]
        loc_in_fresh(2) [OF ok v(2)] by auto
  next
    case g
    then obtain ls' where l: "layout_loop abi fs (gp + 1) vec sc = (ls', n)"
      "ls = mk_loc ARM64_ARG_IN_GP_REGISTER (gp_arg_regs abi ! gp) 0 # ls'"
      using Cons.prems(1) by (auto split: prod.splits)
    then show ?thesis using Cons.IH [OF l(1) Cons.prems(2)] layout_loc_in [OF ok l(1) Cons.prems(2)]
        loc_in_fresh(1) [OF ok g(2)] by auto
  next
    case s
    then obtain ls' where l: "layout_loop abi fs gp vec (sc + stack_slot_bytes abi) = (ls', n)"
      "ls = mk_loc ARM64_ARG_ON_STACK ARM64_SP sc # ls'"
      using Cons.prems(1) by (auto split: prod.splits)
    have d: "stack_slot_bytes abi dvd sc + stack_slot_bytes abi" using Cons.prems(2) by simp
    show ?thesis using l Cons.IH [OF l(1) d] layout_loc_in [OF ok l(1) d] loc_in_fresh(3) [OF ok] by auto
  qed
qed simp

text \<open>Integer arguments take the integer registers in order.\<close>

lemma layout_gp_regs:
  assumes "gp_arg_count abi \<le> int (length (gp_arg_regs abi))"
  shows "layout_loop abi fs gp vec sc = (ls, n) \<Longrightarrow>
   map loc_reg (filter (\<lambda>l. loc_kind l = ARM64_ARG_IN_GP_REGISTER) ls) =
   take (length (filter Not fs)) (drop gp (take (nat (gp_arg_count abi)) (gp_arg_regs abi)))"
proof (induction fs arbitrary: gp vec sc ls n)
  case (Cons f fs)
  let ?xs = "take (nat (gp_arg_count abi)) (gp_arg_regs abi)"
  show ?case
  proof (cases "\<not> f \<and> int gp < gp_arg_count abi")
    case True
    then obtain ls' where l: "layout_loop abi fs (gp + 1) vec sc = (ls', n)"
      "ls = mk_loc ARM64_ARG_IN_GP_REGISTER (gp_arg_regs abi ! gp) 0 # ls'"
      using Cons.prems(1) by (auto split: prod.splits)
    have "gp < length ?xs" using True assms by (simp add: zless_nat_eq_int_zless)
    then have "drop gp ?xs = gp_arg_regs abi ! gp # drop (gp + 1) ?xs"
      using True by (simp add: Cons_nth_drop_Suc [symmetric])
    then show ?thesis using Cons.IH [OF l(1)] True by (simp add: l(2))
  next
    case False
    then obtain vec' sc' ls' r where l: "layout_loop abi fs gp vec' sc' = (ls', n)" "ls = r # ls'"
      "loc_kind r \<noteq> ARM64_ARG_IN_GP_REGISTER"
      using Cons.prems(1) by (auto split: prod.splits if_splits)
    have "\<not> f \<Longrightarrow> drop gp ?xs = []" using False by simp
    then show ?thesis using Cons.IH [OF l(1)] l(2,3) by (cases f) simp_all
  qed
qed simp

lemma abi_tables:
  assumes "abi_inv g"
  shows "abi_tables_ok (fst (arm64_abi g))"
proof -
  obtain n where n: "1 \<le> n" "n \<le> 8" "distinct (take (nat n) (g_gp_args g))" "length (g_gp_args g) = 8"
    "fst (arm64_abi g) = AAPCS64\<lparr>gp_arg_regs := g_gp_args g, gp_arg_count := n\<rparr>"
    using arm64_abi_inv [OF assms] by metis
  have "distinct VEC_ARG_REGS" by (simp add: VEC_ARG_REGS_def)
  then show ?thesis using n(1-4) unfolding n(5) by (simp add: abi_tables_ok_def AAPCS64_def)
qed

section \<open>Properties\<close>

text \<open>C20. Argument layout: in every reachable state of the register table, \<open>arm64_compute_arg_layout\<close> gives
  each argument exactly one location, no two arguments the same one; the integer arguments take the
  configured registers in order; every stack offset is a multiple of the slot size and its slot ends within
  the reported stack size.\<close>

theorem arg_layout_correct:
  assumes inv: "abi_inv g" and lay: "arm64_compute_arg_layout (Some is_float) (int (length is_float)) True g = (r, g')"
  shows "\<exists>ls n. r = Some (ls, n) \<and> length ls = length is_float \<and> distinct ls \<and> abi_inv g' \<and>
     map loc_reg (filter (\<lambda>l. loc_kind l = ARM64_ARG_IN_GP_REGISTER) ls) =
       take (length (filter Not is_float)) (take (nat (gp_arg_count (fst (arm64_abi g)))) (g_gp_args g)) \<and>
     (\<forall>l\<in>set ls. loc_kind l = ARM64_ARG_ON_STACK \<longrightarrow>
        0 \<le> loc_stack_offset l \<and> loc_stack_offset l + 8 \<le> n \<and> 8 dvd loc_stack_offset l)"
proof -
  define abi where "abi = fst (arm64_abi g)"
  obtain ls n where l: "layout_loop abi is_float 0 0 0 = (ls, n)" by fastforce
  have r: "r = Some (ls, n)" and g': "g' = snd (arm64_abi g)"
    using lay l by (cases "arm64_abi g"; auto simp: arm64_compute_arg_layout_def abi_def)+
  have ok: "abi_tables_ok abi" unfolding abi_def by (rule abi_tables [OF inv])
  obtain k where k: "abi = AAPCS64\<lparr>gp_arg_regs := g_gp_args g, gp_arg_count := k\<rparr>" and i': "abi_inv g'"
    using arm64_abi_inv [OF inv] unfolding abi_def g' by metis
  have slot: "stack_slot_bytes abi = 8" "gp_arg_regs abi = g_gp_args g" by (simp_all add: k AAPCS64_def)
  have "loc_kind x = ARM64_ARG_ON_STACK \<Longrightarrow>
      0 \<le> loc_stack_offset x \<and> loc_stack_offset x + 8 \<le> n \<and> 8 dvd loc_stack_offset x" if "x \<in> set ls" for x
    using layout_loc_in [OF ok l] that slot(1) by (auto simp: loc_in_def)
  then show ?thesis
    using layout_loc_in [OF ok l] layout_distinct [OF ok l] layout_gp_regs [OF _ l] ok i' slot(2) r
    unfolding abi_def [symmetric] by (simp add: abi_tables_ok_def)
qed

theorem arg_layout_correct_witness:
  "\<exists>ls n g'. arm64_compute_arg_layout (Some [False, True, False]) 3 True abi_start = (Some (ls, n), g') \<and> distinct ls \<and>
     map loc_reg (filter (\<lambda>l. loc_kind l = ARM64_ARG_IN_GP_REGISTER) ls) = [0, 1]"
proof -
  obtain r g' where e: "arm64_compute_arg_layout (Some [False, True, False]) 3 True abi_start = (r, g')"
    by (metis surj_pair)
  have "take (nat (gp_arg_count (fst (arm64_abi abi_start)))) (g_gp_args abi_start) = [0, 1, 2, 3, 4, 5, 6, 7]"
    by (simp add: arm64_abi_def abi_start_def Let_def)
  with arg_layout_correct [OF abi_inv_start, of "[False, True, False]" r g'] e show ?thesis by auto
qed

text \<open>The override of the integer argument registers: \<open>arm64_abi_set_gp_args\<close> and \<open>arm64_abi_reset\<close> keep
  the invariant of the table; a rejected override (null, count out of range, register above X7 or
  repeated) changes nothing, an accepted one makes exactly the given registers the argument registers, and
  a reset restores the standard convention.\<close>

theorem gp_args_override:
  assumes inv: "abi_inv g" and rs: "regs = None \<or> (\<exists>rs. regs = Some rs \<and> count \<le> int (length rs))"
    and set: "arm64_abi_set_gp_args regs count g = (r, g')"
  shows "abi_inv g' \<and>
     (if r then \<exists>rs. regs = Some rs \<and> gp_arg_count (fst (arm64_abi g')) = count \<and>
                take (nat count) (gp_arg_regs (fst (arm64_abi g'))) = take (nat count) rs
      else g' = g) \<and>
     fst (arm64_abi (arm64_abi_reset g')) = AAPCS64"
proof -
  obtain m where m: "length (g_gp_args g) = 8" "fst (arm64_abi g) = AAPCS64\<lparr>gp_arg_regs := g_gp_args g, gp_arg_count := m\<rparr>"
    using arm64_abi_inv [OF inv] by metis
  have acc: "abi_inv g' \<and> (\<exists>rs. regs = Some rs \<and> gp_arg_count (fst (arm64_abi g')) = count \<and>
                take (nat count) (gp_arg_regs (fst (arm64_abi g'))) = take (nat count) rs)" if rr: r
  proof -
    obtain xs where xs: "regs = Some xs" "1 \<le> count" "count \<le> 8" "args_valid [] (take (nat count) xs)"
      and g': "g' = set_args (take (nat count) xs @ drop (nat count) (g_gp_args g)) count g"
      using set rr m(1) by (auto simp: arm64_abi_set_gp_args_def split: option.splits if_splits)
    have len: "nat count \<le> length xs" using rs xs by auto
    have "abi_inv g'" unfolding g' using xs len m(1) by (intro set_args_inv [OF inv]) (auto simp: args_valid_iff)
    moreover have "g_abi g' = Some ((fst (arm64_abi g))\<lparr>gp_arg_regs := take (nat count) xs @ drop (nat count) (g_gp_args g), gp_arg_count := count\<rparr>)"
      unfolding g' by (cases "arm64_abi g") (simp add: set_args_def)
    ultimately show ?thesis using xs(1) len by (simp add: arm64_abi_def)
  qed
  have rej: "\<not> r \<Longrightarrow> g' = g" using set by (auto simp: arm64_abi_set_gp_args_def split: option.splits if_splits)
  have inv': "abi_inv g'" using acc rej inv by (cases r) auto
  obtain m' where m': "length (g_gp_args g') = 8" "fst (arm64_abi g') = AAPCS64\<lparr>gp_arg_regs := g_gp_args g', gp_arg_count := m'\<rparr>"
    using arm64_abi_inv [OF inv'] by metis
  have "map word_of_nat [0..<8] = GP_ARG_REGS" by (simp add: GP_ARG_REGS_def upt_rec)
  then have "fst (arm64_abi (arm64_abi_reset g')) = AAPCS64"
    using m' by (cases "arm64_abi g'") (simp add: arm64_abi_reset_def set_args_def arm64_abi_def AAPCS64_def GP_ARG_REGS_def)
  then show ?thesis using acc rej inv' by (cases r) auto
qed

theorem gp_args_override_witness:
  "\<exists>g'. arm64_abi_set_gp_args (Some [3, 1]) 2 abi_start = (True, g') \<and> abi_inv g' \<and>
     take 2 (gp_arg_regs (fst (arm64_abi g'))) = [3, 1]"
proof -
  obtain g' where e: "arm64_abi_set_gp_args (Some [3, 1]) 2 abi_start = (True, g')"
    by (simp add: arm64_abi_set_gp_args_def abi_start_def)
  from gp_args_override [OF abi_inv_start _ e] e show ?thesis by auto
qed

end
