(* ===== verification/LexWords.thy ===== *)
theory LexWords
  imports Prelude "HOL-Library.Char_ord" "HOL-Library.List_Lexorder"
begin

text \<open>
  Token kinds and the two word tables of \<open>lexer/lexer.c\<close>, with the binary search \<open>lex_lookup_word\<close> over the
  words of one length. The enumeration \<open>TokenType\<close> of \<open>lexer/lexer.h\<close> is split into the groups its blank lines
  mark: keywords, type names, operators, mnemonics and registers.
\<close>

section \<open>Token kinds\<close>

datatype KeywordToken =
    TOKEN_IMPORT | TOKEN_IMPORT_STR | TOKEN_EXTERN | TOKEN_EXPORT | TOKEN_VAR | TOKEN_CONST
  | TOKEN_FUNCTION | TOKEN_STRUCT | TOKEN_ENUM | TOKEN_METHOD | TOKEN_RETURN | TOKEN_IF | TOKEN_ELSE
  | TOKEN_WHILE | TOKEN_FOR | TOKEN_SWITCH | TOKEN_CASE | TOKEN_DEFAULT | TOKEN_BREAK
  | TOKEN_CONTINUE | TOKEN_DEFER | TOKEN_ERRDEFER | TOKEN_ASM | TOKEN_THIS | TOKEN_NEW | TOKEN_TRAIT
  | TOKEN_IMPL | TOKEN_WHERE | TOKEN_FN | TOKEN_MATCH | TOKEN_KERNEL | TOKEN_DISPATCH
  | TOKEN_WORKGROUP | TOKEN_PRIVATE | TOKEN_BARRIER

datatype TypeToken =
    TOKEN_INT8 | TOKEN_INT16 | TOKEN_INT32 | TOKEN_INT64 | TOKEN_UINT8 | TOKEN_UINT16 | TOKEN_UINT32
  | TOKEN_UINT64 | TOKEN_FLOAT32 | TOKEN_FLOAT64 | TOKEN_STRING_TYPE

datatype OperatorToken =
    TOKEN_COLON | TOKEN_SEMICOLON | TOKEN_COMMA | TOKEN_EQUALS | TOKEN_PLUS_EQUALS | TOKEN_MINUS_EQUALS
  | TOKEN_PLUS_PLUS | TOKEN_MINUS_MINUS | TOKEN_STAR_EQUALS | TOKEN_SLASH_EQUALS
  | TOKEN_PERCENT_EQUALS | TOKEN_AMP_EQUALS | TOKEN_PIPE_EQUALS | TOKEN_CARET_EQUALS
  | TOKEN_LSHIFT_EQUALS | TOKEN_RSHIFT_EQUALS | TOKEN_EQUALS_EQUALS | TOKEN_NOT_EQUALS
  | TOKEN_LESS_THAN | TOKEN_GREATER_THAN | TOKEN_LESS_EQUALS | TOKEN_GREATER_EQUALS | TOKEN_ARROW
  | TOKEN_LPAREN | TOKEN_RPAREN | TOKEN_LBRACE | TOKEN_RBRACE | TOKEN_LBRACKET | TOKEN_RBRACKET
  | TOKEN_PLUS | TOKEN_MINUS | TOKEN_MULTIPLY | TOKEN_AMPERSAND | TOKEN_PIPE | TOKEN_CARET
  | TOKEN_LSHIFT | TOKEN_RSHIFT | TOKEN_TILDE | TOKEN_AND_AND | TOKEN_OR_OR | TOKEN_DIVIDE
  | TOKEN_PERCENT | TOKEN_NOT | TOKEN_DOT | TOKEN_DOT_DOT | TOKEN_AT

datatype AsmToken =
    TOKEN_MOV | TOKEN_ADD | TOKEN_SUB | TOKEN_MUL | TOKEN_DIV | TOKEN_IMUL | TOKEN_IDIV | TOKEN_INC
  | TOKEN_DEC | TOKEN_CMP | TOKEN_JMP | TOKEN_JE | TOKEN_JNE | TOKEN_JL | TOKEN_JLE | TOKEN_JG
  | TOKEN_JGE | TOKEN_CALL | TOKEN_RET | TOKEN_PUSH | TOKEN_POP | TOKEN_LEA | TOKEN_NOP | TOKEN_INT
  | TOKEN_SYSCALL

datatype RegisterToken =
    TOKEN_EAX | TOKEN_EBX | TOKEN_ECX | TOKEN_EDX | TOKEN_ESI | TOKEN_EDI | TOKEN_ESP | TOKEN_EBP
  | TOKEN_RAX | TOKEN_RBX | TOKEN_RCX | TOKEN_RDX | TOKEN_RSI | TOKEN_RDI | TOKEN_RSP | TOKEN_RBP
  | TOKEN_R8 | TOKEN_R9 | TOKEN_R10 | TOKEN_R11 | TOKEN_R12 | TOKEN_R13 | TOKEN_R14 | TOKEN_R15

datatype TokenType =
    TOKEN_EOF | TOKEN_IDENTIFIER | TOKEN_NUMBER | TOKEN_STRING
  | Kw KeywordToken | Ty TypeToken | Op OperatorToken | TOKEN_NEWLINE | Asm AsmToken | Reg RegisterToken
  | TOKEN_ERROR

definition g_lex_keywords :: "(string \<times> TokenType) list" where
  "g_lex_keywords =
    [(''fn'', Kw TOKEN_FN), (''if'', Kw TOKEN_IF), (''asm'', Kw TOKEN_ASM), (''for'', Kw TOKEN_FOR),
     (''new'', Kw TOKEN_NEW), (''var'', Kw TOKEN_VAR), (''case'', Kw TOKEN_CASE), (''else'', Kw TOKEN_ELSE),
     (''enum'', Kw TOKEN_ENUM), (''impl'', Kw TOKEN_IMPL), (''int8'', Ty TOKEN_INT8),
     (''this'', Kw TOKEN_THIS), (''break'', Kw TOKEN_BREAK), (''const'', Kw TOKEN_CONST),
     (''defer'', Kw TOKEN_DEFER), (''int16'', Ty TOKEN_INT16), (''int32'', Ty TOKEN_INT32),
     (''int64'', Ty TOKEN_INT64), (''match'', Kw TOKEN_MATCH), (''trait'', Kw TOKEN_TRAIT),
     (''uint8'', Ty TOKEN_UINT8), (''where'', Kw TOKEN_WHERE), (''while'', Kw TOKEN_WHILE),
     (''export'', Kw TOKEN_EXPORT), (''extern'', Kw TOKEN_EXTERN), (''import'', Kw TOKEN_IMPORT),
     (''kernel'', Kw TOKEN_KERNEL), (''method'', Kw TOKEN_METHOD), (''return'', Kw TOKEN_RETURN),
     (''string'', Ty TOKEN_STRING_TYPE), (''struct'', Kw TOKEN_STRUCT), (''switch'', Kw TOKEN_SWITCH),
     (''uint16'', Ty TOKEN_UINT16), (''uint32'', Ty TOKEN_UINT32), (''uint64'', Ty TOKEN_UINT64),
     (''barrier'', Kw TOKEN_BARRIER), (''default'', Kw TOKEN_DEFAULT), (''float32'', Ty TOKEN_FLOAT32),
     (''float64'', Ty TOKEN_FLOAT64), (''private'', Kw TOKEN_PRIVATE), (''continue'', Kw TOKEN_CONTINUE),
     (''dispatch'', Kw TOKEN_DISPATCH), (''errdefer'', Kw TOKEN_ERRDEFER), (''workgroup'', Kw TOKEN_WORKGROUP),
     (''import_str'', Kw TOKEN_IMPORT_STR)]"

definition g_lex_keywords_span :: "nat list" where
  "g_lex_keywords_span = [0, 0, 0, 2, 6, 12, 23, 35, 40, 43, 44, 45]"

definition g_lex_asm_words :: "(string \<times> TokenType) list" where
  "g_lex_asm_words =
    [(''je'', Asm TOKEN_JE), (''jg'', Asm TOKEN_JG), (''jl'', Asm TOKEN_JL), (''r8'', Reg TOKEN_R8),
     (''r9'', Reg TOKEN_R9), (''add'', Asm TOKEN_ADD), (''cmp'', Asm TOKEN_CMP), (''dec'', Asm TOKEN_DEC),
     (''div'', Asm TOKEN_DIV), (''eax'', Reg TOKEN_EAX), (''ebp'', Reg TOKEN_EBP), (''ebx'', Reg TOKEN_EBX),
     (''ecx'', Reg TOKEN_ECX), (''edi'', Reg TOKEN_EDI), (''edx'', Reg TOKEN_EDX), (''esi'', Reg TOKEN_ESI),
     (''esp'', Reg TOKEN_ESP), (''inc'', Asm TOKEN_INC), (''int'', Asm TOKEN_INT), (''jge'', Asm TOKEN_JGE),
     (''jle'', Asm TOKEN_JLE), (''jmp'', Asm TOKEN_JMP), (''jne'', Asm TOKEN_JNE), (''lea'', Asm TOKEN_LEA),
     (''mov'', Asm TOKEN_MOV), (''mul'', Asm TOKEN_MUL), (''nop'', Asm TOKEN_NOP), (''pop'', Asm TOKEN_POP),
     (''r10'', Reg TOKEN_R10), (''r11'', Reg TOKEN_R11), (''r12'', Reg TOKEN_R12), (''r13'', Reg TOKEN_R13),
     (''r14'', Reg TOKEN_R14), (''r15'', Reg TOKEN_R15), (''rax'', Reg TOKEN_RAX), (''rbp'', Reg TOKEN_RBP),
     (''rbx'', Reg TOKEN_RBX), (''rcx'', Reg TOKEN_RCX), (''rdi'', Reg TOKEN_RDI), (''rdx'', Reg TOKEN_RDX),
     (''ret'', Asm TOKEN_RET), (''rsi'', Reg TOKEN_RSI), (''rsp'', Reg TOKEN_RSP), (''sub'', Asm TOKEN_SUB),
     (''call'', Asm TOKEN_CALL), (''idiv'', Asm TOKEN_IDIV), (''imul'', Asm TOKEN_IMUL),
     (''push'', Asm TOKEN_PUSH), (''syscall'', Asm TOKEN_SYSCALL)]"

definition g_lex_asm_words_span :: "nat list" where
  "g_lex_asm_words_span = [0, 0, 0, 5, 44, 48, 48, 48, 49, 49, 49, 49]"

section \<open>Lookup\<close>

definition LEX_WORD_MAXLEN :: nat where "LEX_WORD_MAXLEN = 10"

text \<open>\<open>tolower\<close> of the C locale.\<close>

definition c_tolower :: "char \<Rightarrow> char" where
  "c_tolower c = (if 65 \<le> (of_char c :: nat) \<and> (of_char c :: nat) \<le> 90 then char_of (of_char c + 32 :: nat) else c)"

text \<open>The first argument is the \<open>len\<close> bytes of the input; the entry is padded with zero bytes.\<close>

fun lex_word_cmp :: "string \<Rightarrow> string \<Rightarrow> bool \<Rightarrow> int" where
  "lex_word_cmp [] entry cf = 0"
| "lex_word_cmp (x # input) entry cf =
    (let a = (if cf then c_tolower x else x);
         b = (case entry of [] \<Rightarrow> CHR 0x00 | y # _ \<Rightarrow> y)
     in if a \<noteq> b then (if a < b then -1 else 1) else lex_word_cmp input (tl entry) cf)"

function lookup_loop :: "(string \<times> TokenType) list \<Rightarrow> string \<Rightarrow> bool \<Rightarrow> nat \<Rightarrow> nat \<Rightarrow> TokenType" where
  "lookup_loop table text cf lo hi =
    (if lo < hi then
       let mid = lo + (hi - lo) div 2; c = lex_word_cmp text (fst (table ! mid)) cf
       in if c = 0 then snd (table ! mid)
          else if c < 0 then lookup_loop table text cf lo mid
          else lookup_loop table text cf (mid + 1) hi
     else TOKEN_IDENTIFIER)"
  by pat_completeness auto
termination by (relation "measure (\<lambda>(_, _, _, lo, hi). hi - lo)") auto

declare lookup_loop.simps [simp del]

definition lex_lookup_word :: "(string \<times> TokenType) list \<Rightarrow> nat list \<Rightarrow> string \<Rightarrow> bool \<Rightarrow> TokenType" where
  "lex_lookup_word table span text cf =
    (if length text = 0 \<or> length text > LEX_WORD_MAXLEN then TOKEN_IDENTIFIER
     else lookup_loop table text cf (span ! length text) (span ! (length text + 1)))"

section \<open>The comparison\<close>

definition folded :: "bool \<Rightarrow> string \<Rightarrow> string" where
  "folded cf s = (if cf then map c_tolower s else s)"

lemma folded_simps [simp]: "folded cf [] = []" "length (folded cf s) = length s"
  "folded cf (x # s) = (if cf then c_tolower x else x) # folded cf s"
  by (simp_all add: folded_def)

lemma lex_word_cmp_eq: "length s = length w \<Longrightarrow> lex_word_cmp s w cf = 0 \<longleftrightarrow> folded cf s = w"
  by (induction s w rule: list_induct2) (auto simp: Let_def)

lemma lex_word_cmp_less: "length s = length w \<Longrightarrow> lex_word_cmp s w cf < 0 \<longleftrightarrow> folded cf s < w"
  by (induction s w rule: list_induct2) (auto simp: Let_def)

section \<open>Tables sorted by length and then by bytes\<close>

definition word_less :: "(string \<times> TokenType) \<Rightarrow> (string \<times> TokenType) \<Rightarrow> bool" where
  "word_less a b \<longleftrightarrow> length (fst a) < length (fst b) \<or> length (fst a) = length (fst b) \<and> fst a < fst b"

text \<open>What the search relies on: the order of the table, and for each length the number of shorter words.\<close>

locale word_table =
  fixes table :: "(string \<times> TokenType) list" and span :: "nat list"
  assumes sorted: "sorted_wrt word_less table"
    and spans: "n \<le> 11 \<Longrightarrow> span ! n = length (filter (\<lambda>w. length (fst w) < n) table)"
    and lengths: "w \<in> set table \<Longrightarrow> 0 < length (fst w) \<and> length (fst w) \<le> 10"
begin

lemma shorter_prefix:
  "sorted_wrt word_less ws \<Longrightarrow> i < length ws \<Longrightarrow> i < length (filter (\<lambda>w. length (fst w) < n) ws) \<longleftrightarrow> length (fst (ws ! i)) < n"
proof (induction ws arbitrary: i)
  case (Cons w ws)
  have w: "length (fst w) \<le> length (fst v)" if "v \<in> set ws" for v using Cons.prems(1) that by (auto simp: word_less_def)
  then have *: "n \<le> length (fst w) \<Longrightarrow> filter (\<lambda>w. length (fst w) < n) ws = []" by (fastforce simp: filter_empty_conv)
  show ?case
  proof (cases i)
    case 0 then show ?thesis using * by auto
  next
    case (Suc k)
    have "length (fst w) \<le> length (fst (ws ! k))" using Cons.prems(2) Suc by (intro w) simp
    then show ?thesis using Cons.IH [of k] Cons.prems Suc * by auto
  qed
qed simp

lemma in_span:
  assumes "i < length table" "n \<le> 10"
  shows "span ! n \<le> i \<and> i < span ! (n + 1) \<longleftrightarrow> length (fst (table ! i)) = n"
proof -
  have "i < span ! n \<longleftrightarrow> length (fst (table ! i)) < n" "i < span ! (n + 1) \<longleftrightarrow> length (fst (table ! i)) < n + 1"
    using shorter_prefix [OF sorted assms(1)] spans [of n] spans [of "n + 1"] assms(2) by simp_all
  then show ?thesis by linarith
qed

lemma span_le: "n \<le> 11 \<Longrightarrow> span ! n \<le> length table"
  by (simp add: spans)

lemma nth_less: "i < j \<Longrightarrow> j < length table \<Longrightarrow> length (fst (table ! i)) = length (fst (table ! j)) \<Longrightarrow> fst (table ! i) < fst (table ! j)"
  using sorted unfolding sorted_wrt_iff_nth_less word_less_def by (metis less_irrefl)

text \<open>Halving the interval keeps every entry that equals the word.\<close>

lemma loop_step:
  assumes "lo < hi" "hi \<le> length table" "\<forall>i. lo \<le> i \<and> i < hi \<longrightarrow> length (fst (table ! i)) = length text"
  defines "mid \<equiv> lo + (hi - lo) div 2"
  shows "lookup_loop table text cf lo hi =
      (if fst (table ! mid) = folded cf text then snd (table ! mid)
       else if folded cf text < fst (table ! mid) then lookup_loop table text cf lo mid
       else lookup_loop table text cf (mid + 1) hi)"
    and "lo \<le> mid" "mid < hi"
    and "folded cf text < fst (table ! mid) \<Longrightarrow> mid \<le> i \<Longrightarrow> i < hi \<Longrightarrow> fst (table ! i) \<noteq> folded cf text"
    and "fst (table ! mid) < folded cf text \<Longrightarrow> lo \<le> i \<Longrightarrow> i \<le> mid \<Longrightarrow> fst (table ! i) \<noteq> folded cf text"
proof -
  show m: "lo \<le> mid" "mid < hi" using assms(1) by (auto simp: mid_def)
  have l: "length text = length (fst (table ! mid))" using assms(3) m by simp
  show "lookup_loop table text cf lo hi = (if fst (table ! mid) = folded cf text then snd (table ! mid)
       else if folded cf text < fst (table ! mid) then lookup_loop table text cf lo mid
       else lookup_loop table text cf (mid + 1) hi)"
    unfolding lookup_loop.simps [of table "text" cf lo hi] Let_def mid_def [symmetric]
    using assms(1) lex_word_cmp_eq [OF l, of cf] lex_word_cmp_less [OF l, of cf] by auto
  show "fst (table ! i) \<noteq> folded cf text" if "folded cf text < fst (table ! mid)" "mid \<le> i" "i < hi"
    using nth_less [of mid i] that assms(2,3) m by (cases "mid = i") auto
  show "fst (table ! i) \<noteq> folded cf text" if "fst (table ! mid) < folded cf text" "lo \<le> i" "i \<le> mid"
    using nth_less [of i mid] that assms(2,3) m by (cases "mid = i") auto
qed

definition found_in :: "string \<Rightarrow> nat \<Rightarrow> nat \<Rightarrow> TokenType \<Rightarrow> bool" where
  "found_in w lo hi t \<longleftrightarrow> (if \<exists>k. lo \<le> k \<and> k < hi \<and> fst (table ! k) = w
     then \<exists>k. (lo \<le> k \<and> k < hi \<and> fst (table ! k) = w) \<and> t = snd (table ! k) else t = TOKEN_IDENTIFIER)"

lemma found_in_shrink:
  assumes "found_in w lo' hi' t" "lo \<le> lo'" "hi' \<le> hi" "\<And>k. lo \<le> k \<Longrightarrow> k < hi \<Longrightarrow> fst (table ! k) = w \<Longrightarrow> lo' \<le> k \<and> k < hi'"
  shows "found_in w lo hi t"
proof -
  have "(lo \<le> k \<and> k < hi \<and> fst (table ! k) = w) = (lo' \<le> k \<and> k < hi' \<and> fst (table ! k) = w)" for k
    using assms(2,3) assms(4) [of k] by auto
  then show ?thesis using assms(1) unfolding found_in_def by (simp only:)
qed

lemma loop_correct:
  "hi \<le> length table \<Longrightarrow> \<forall>i. lo \<le> i \<and> i < hi \<longrightarrow> length (fst (table ! i)) = length text \<Longrightarrow>
   found_in (folded cf text) lo hi (lookup_loop table text cf lo hi)"
proof (induction "hi - lo" arbitrary: lo hi rule: less_induct)
  case less
  show ?case
  proof (cases "lo < hi")
    case False
    then show ?thesis using lookup_loop.simps [of table "text" cf lo hi] by (auto simp: found_in_def)
  next
    case True
    define mid where "mid = lo + (hi - lo) div 2"
    note ls = loop_step [OF True less.prems, folded mid_def]
    consider "fst (table ! mid) = folded cf text" | "folded cf text < fst (table ! mid)" | "fst (table ! mid) < folded cf text"
      by (rule linorder_cases)
    then show ?thesis
    proof cases
      case 1 then show ?thesis using ls(1-3) by (auto simp: found_in_def)
    next
      case 2
      have "found_in (folded cf text) lo mid (lookup_loop table text cf lo mid)"
        using less.hyps [of mid lo] less.prems ls(2,3) by simp
      then have "found_in (folded cf text) lo hi (lookup_loop table text cf lo mid)"
        by (rule found_in_shrink) (use ls(3) ls(4) [OF 2] in \<open>auto simp: not_less [symmetric]\<close>)
      then show ?thesis using ls(1) 2 by auto
    next
      case 3
      have "found_in (folded cf text) (mid + 1) hi (lookup_loop table text cf (mid + 1) hi)"
        using less.hyps [of hi "mid + 1"] less.prems ls(2,3) by simp
      then have "found_in (folded cf text) lo hi (lookup_loop table text cf (mid + 1) hi)"
        by (rule found_in_shrink) (use ls(2) ls(5) [OF 3] in \<open>auto simp: not_le [symmetric] Suc_le_eq\<close>)
      then show ?thesis using ls(1) 3 by auto
    qed
  qed
qed

lemma distinct_words: "distinct (map fst table)"
proof -
  have "i < j \<Longrightarrow> j < length table \<Longrightarrow> fst (table ! i) \<noteq> fst (table ! j)" for i j
    using nth_less [of i j] by auto
  then show ?thesis by (auto simp: distinct_conv_nth) (metis nat_neq_iff)
qed

lemma lookup_correct:
  "lex_lookup_word table span text cf = (case map_of table (folded cf text) of Some t \<Rightarrow> t | None \<Rightarrow> TOKEN_IDENTIFIER)"
proof (cases "length text = 0 \<or> length text > 10")
  case True
  then have "map_of table (folded cf text) = None"
    using lengths by (fastforce simp: map_of_eq_None_iff)
  then show ?thesis using True by (simp add: lex_lookup_word_def LEX_WORD_MAXLEN_def)
next
  case False
  let ?lo = "span ! length text" and ?hi = "span ! (length text + 1)"
  have b: "?hi \<le> length table" "\<forall>i. ?lo \<le> i \<and> i < ?hi \<longrightarrow> length (fst (table ! i)) = length text"
  proof -
    show hi: "?hi \<le> length table" using span_le [of "length text + 1"] False by simp
    show "\<forall>i. ?lo \<le> i \<and> i < ?hi \<longrightarrow> length (fst (table ! i)) = length text"
      using in_span [of _ "length text"] False hi by (meson order_less_le_trans not_less)
  qed
  have r: "lex_lookup_word table span text cf = lookup_loop table text cf ?lo ?hi"
    using False by (simp add: lex_lookup_word_def LEX_WORD_MAXLEN_def)
  note lc = loop_correct [OF b, of cf, unfolded found_in_def]
  show ?thesis
  proof (cases "\<exists>k. ?lo \<le> k \<and> k < ?hi \<and> fst (table ! k) = folded cf text")
    case True
    then obtain k where k: "k < ?hi" "fst (table ! k) = folded cf text" "lookup_loop table text cf ?lo ?hi = snd (table ! k)"
      using lc by auto
    then have "(folded cf text, snd (table ! k)) \<in> set table" using b(1) by (metis nth_mem order_less_le_trans prod.collapse)
    then show ?thesis using k r distinct_words by simp
  next
    case no: False
    then have n: "\<forall>k. ?lo \<le> k \<and> k < ?hi \<longrightarrow> fst (table ! k) \<noteq> folded cf text" "lookup_loop table text cf ?lo ?hi = TOKEN_IDENTIFIER"
      using lc unfolding if_not_P [OF no] by blast+
    have "folded cf text \<notin> fst ` set table"
    proof
      assume "folded cf text \<in> fst ` set table"
      then obtain k where k: "k < length table" "fst (table ! k) = folded cf text" by (auto simp: in_set_conv_nth)
      then have "length (fst (table ! k)) = length text" by simp
      then show False using n(1) k in_span [OF k(1), of "length text"] False by simp
    qed
    then have "map_of table (folded cf text) = None" by (simp add: map_of_eq_None_iff)
    then show ?thesis using n(2) r by simp
  qed
qed

end

interpretation kw_words: word_table g_lex_keywords g_lex_keywords_span
proof
  show "sorted_wrt word_less g_lex_keywords" by code_simp
  have "\<forall>n\<in>set [0..<12]. g_lex_keywords_span ! n = length (filter (\<lambda>w. length (fst w) < n) g_lex_keywords)" by code_simp
  then show "g_lex_keywords_span ! n = length (filter (\<lambda>w. length (fst w) < n) g_lex_keywords)" if "n \<le> 11" for n
    using that by simp
  have "\<forall>w\<in>set g_lex_keywords. 0 < length (fst w) \<and> length (fst w) \<le> 10" by code_simp
  then show "0 < length (fst w) \<and> length (fst w) \<le> 10" if "w \<in> set g_lex_keywords" for w using that by blast
qed

interpretation asm_words: word_table g_lex_asm_words g_lex_asm_words_span
proof
  show "sorted_wrt word_less g_lex_asm_words" by code_simp
  have "\<forall>n\<in>set [0..<12]. g_lex_asm_words_span ! n = length (filter (\<lambda>w. length (fst w) < n) g_lex_asm_words)" by code_simp
  then show "g_lex_asm_words_span ! n = length (filter (\<lambda>w. length (fst w) < n) g_lex_asm_words)" if "n \<le> 11" for n
    using that by simp
  have "\<forall>w\<in>set g_lex_asm_words. 0 < length (fst w) \<and> length (fst w) \<le> 10" by code_simp
  then show "0 < length (fst w) \<and> length (fst w) \<le> 10" if "w \<in> set g_lex_asm_words" for w using that by blast
qed

text \<open>The binary search finds exactly the words of its table: a keyword by its exact spelling, a mnemonic or
  register by its spelling in any case, and every other text is an identifier.\<close>

theorem lookup_words:
  "lex_lookup_word g_lex_keywords g_lex_keywords_span text False =
     (case map_of g_lex_keywords text of Some t \<Rightarrow> t | None \<Rightarrow> TOKEN_IDENTIFIER) \<and>
   lex_lookup_word g_lex_asm_words g_lex_asm_words_span text True =
     (case map_of g_lex_asm_words (map c_tolower text) of Some t \<Rightarrow> t | None \<Rightarrow> TOKEN_IDENTIFIER)"
  using kw_words.lookup_correct [of "text" False] asm_words.lookup_correct [of "text" True] by (simp add: folded_def)

end
