(* ===== verification/StringIntern.thy ===== *)
theory StringIntern
  imports Prelude "HOL-Library.Multiset"
begin

text \<open>
  The string intern table of \<open>lexer/lexer.c\<close>: two hash tables over the same entries, one keyed by the bytes
  and one by the address of the interned copy. A chain of entries is a list, first entry first; an entry
  holds the address of the copy and the bytes stored there. The allocator is the parameter \<open>alloc\<close>: from the
  number of the allocation and the addresses of the interned copies, the address of the new block, or
  \<open>None\<close> when it fails; \<open>it_allocs\<close> counts the allocations.
\<close>

type_synonym addr = u64
type_synonym allocator = "nat \<Rightarrow> addr list \<Rightarrow> addr option"

section \<open>State and operations\<close>

record StringInternEntry =
  ent_value :: addr
  ent_bytes :: string

record intern_table =
  it_buckets :: "StringInternEntry list list option"
  it_ptr_buckets :: "StringInternEntry list list option"
  it_bucket_count :: nat
  it_entry_count :: nat
  it_allocs :: nat

definition intern_start :: intern_table where
  "intern_start = \<lparr>it_buckets = None, it_ptr_buckets = None, it_bucket_count = 0, it_entry_count = 0, it_allocs = 0\<rparr>"

definition entries :: "intern_table \<Rightarrow> StringInternEntry list" where
  "entries t = (case it_buckets t of None \<Rightarrow> [] | Some bs \<Rightarrow> concat bs)"

text \<open>The outcome of an allocation, given how many others were made just before it.\<close>

definition allocate :: "allocator \<Rightarrow> nat \<Rightarrow> intern_table \<Rightarrow> addr option" where
  "allocate alloc i t = alloc (it_allocs t + i) (map ent_value (entries t))"

definition STRING_INTERN_INITIAL_BUCKETS :: nat where "STRING_INTERN_INITIAL_BUCKETS = 4096"

definition string_intern_init :: "allocator \<Rightarrow> intern_table \<Rightarrow> bool \<times> intern_table" where
  "string_intern_init alloc t =
    (if it_buckets t \<noteq> None \<and> it_ptr_buckets t \<noteq> None then (True, t)
     else let t' = t\<lparr>it_allocs := it_allocs t + 2\<rparr>
          in if allocate alloc 0 t = None \<or> allocate alloc 1 t = None
             then (False, t'\<lparr>it_buckets := None, it_ptr_buckets := None\<rparr>)
             else (True, t'\<lparr>it_buckets := Some (replicate STRING_INTERN_INITIAL_BUCKETS []),
                            it_ptr_buckets := Some (replicate STRING_INTERN_INITIAL_BUCKETS []),
                            it_bucket_count := STRING_INTERN_INITIAL_BUCKETS, it_entry_count := 0\<rparr>))"

definition string_intern_hash_bytes :: "string \<Rightarrow> u64" where
  "string_intern_hash_bytes s = foldl (\<lambda>h c. (h XOR of_char c) * 1099511628211) 1469598103934665603 s"

definition string_intern_hash_ptr :: "addr \<Rightarrow> u64" where
  "string_intern_hash_ptr p =
    (let v = p XOR drop_bit 33 p; v = v * 0xff51afd7ed558ccd in v XOR drop_bit 33 v)"

definition bucket_of :: "u64 \<Rightarrow> nat \<Rightarrow> nat" where
  "bucket_of h n = unat (h AND word_of_nat (n - 1))"

definition push_chain :: "'a list list \<Rightarrow> nat \<Rightarrow> 'a \<Rightarrow> 'a list list" where
  "push_chain bs i e = bs[i := e # bs ! i]"

text \<open>The loop body of the rehashing: the entry moves to the front of its chain in both new tables.\<close>

definition rehash_entry ::
  "nat \<Rightarrow> StringInternEntry \<Rightarrow> StringInternEntry list list \<times> StringInternEntry list list \<Rightarrow>
   StringInternEntry list list \<times> StringInternEntry list list" where
  "rehash_entry n e cp =
    (push_chain (fst cp) (bucket_of (string_intern_hash_bytes (ent_bytes e)) n) e,
     push_chain (snd cp) (bucket_of (string_intern_hash_ptr (ent_value e)) n) e)"

definition string_intern_maybe_grow :: "allocator \<Rightarrow> intern_table \<Rightarrow> intern_table" where
  "string_intern_maybe_grow alloc t =
    (if it_entry_count t \<le> (it_bucket_count t * 3) div 4 then t
     else let new_count = it_bucket_count t * 2; t' = t\<lparr>it_allocs := it_allocs t + 2\<rparr>
          in if allocate alloc 0 t = None \<or> allocate alloc 1 t = None then t'
             else let (c, p) = fold (rehash_entry new_count) (concat (the (it_buckets t)))
                                 (replicate new_count [], replicate new_count [])
                  in t'\<lparr>it_buckets := Some c, it_ptr_buckets := Some p, it_bucket_count := new_count\<rparr>)"

definition insert_entry :: "addr \<Rightarrow> string \<Rightarrow> intern_table \<Rightarrow> intern_table" where
  "insert_entry a s t =
    (let e = \<lparr>ent_value = a, ent_bytes = s\<rparr>; n = it_bucket_count t
     in t\<lparr>it_buckets := Some (push_chain (the (it_buckets t)) (bucket_of (string_intern_hash_bytes s) n) e),
          it_ptr_buckets := Some (push_chain (the (it_ptr_buckets t)) (bucket_of (string_intern_hash_ptr a) n) e),
          it_entry_count := it_entry_count t + 1\<rparr>)"

text \<open>\<open>value\<close> is \<open>None\<close> for a null pointer, otherwise the \<open>length\<close> bytes it points to.\<close>

definition string_intern_n :: "allocator \<Rightarrow> string option \<Rightarrow> intern_table \<Rightarrow> addr option \<times> intern_table" where
  "string_intern_n alloc value t0 =
    (case value of None \<Rightarrow> (None, t0)
     | Some s \<Rightarrow>
       (case string_intern_init alloc t0 of (ok, t) \<Rightarrow>
         if \<not> ok then (None, t)
         else case find (\<lambda>e. ent_bytes e = s)
                     (the (it_buckets t) ! bucket_of (string_intern_hash_bytes s) (it_bucket_count t)) of
             Some e \<Rightarrow> (Some (ent_value e), t)
           | None \<Rightarrow>
               (case allocate alloc 0 t of
                  None \<Rightarrow> (None, t\<lparr>it_allocs := it_allocs t + 1\<rparr>)
                | Some copy \<Rightarrow>
                    let t1 = t\<lparr>it_allocs := it_allocs t + 2\<rparr>
                    in if allocate alloc 1 t = None then (None, t1)
                       else (Some copy, string_intern_maybe_grow alloc (insert_entry copy s t1)))))"

definition c_string :: "string \<Rightarrow> string" where
  "c_string s = takeWhile (\<lambda>c. c \<noteq> CHR 0x00) s"

definition string_intern :: "allocator \<Rightarrow> string option \<Rightarrow> intern_table \<Rightarrow> addr option \<times> intern_table" where
  "string_intern alloc value t =
    (case value of None \<Rightarrow> (None, t) | Some s \<Rightarrow> string_intern_n alloc (Some (c_string s)) t)"

definition string_is_interned :: "addr option \<Rightarrow> intern_table \<Rightarrow> bool" where
  "string_is_interned value t =
    (case value of None \<Rightarrow> False
     | Some p \<Rightarrow>
         (case it_ptr_buckets t of None \<Rightarrow> False
          | Some bs \<Rightarrow> find (\<lambda>e. ent_value e = p) (bs ! bucket_of (string_intern_hash_ptr p) (it_bucket_count t)) \<noteq> None))"

definition string_intern_clear :: "intern_table \<Rightarrow> intern_table" where
  "string_intern_clear t =
    (if it_buckets t = None then t
     else t\<lparr>it_buckets := None, it_ptr_buckets := None, it_bucket_count := 0, it_entry_count := 0\<rparr>)"

section \<open>Chained hash tables\<close>

text \<open>A chained table keyed by \<open>key\<close>: every entry is in the chain its key hashes to.\<close>

locale chained =
  fixes key :: "'e \<Rightarrow> 'k" and hash :: "'k \<Rightarrow> u64"
begin

definition placed :: "'e list list \<Rightarrow> nat \<Rightarrow> bool" where
  "placed bs n \<longleftrightarrow> 0 < n \<and> length bs = n \<and> (\<forall>i < n. \<forall>e\<in>set (bs ! i). bucket_of (hash (key e)) n = i)"

lemma bucket_less: "0 < n \<Longrightarrow> bucket_of h n < n"
proof -
  assume "0 < n"
  have "unat (h AND word_of_nat (n - 1)) \<le> unat (word_of_nat (n - 1) :: u64)"
    by (metis word_and_le2 and.commute word_le_nat_alt)
  also have "\<dots> \<le> n - 1" by (simp add: unat_of_nat)
  finally show ?thesis using \<open>0 < n\<close> by (simp add: bucket_of_def)
qed

lemma placed_empty: "0 < n \<Longrightarrow> placed (replicate n []) n"
  by (simp add: placed_def)

lemma placed_push: "placed bs n \<Longrightarrow> placed (push_chain bs (bucket_of (hash (key e)) n) e) n"
proof -
  assume p: "placed bs n"
  then have "bucket_of (hash (key e)) n < length bs" using bucket_less by (simp add: placed_def)
  with p show ?thesis by (auto simp: placed_def push_chain_def nth_list_update split: if_splits)
qed

lemma mset_push: "i < length bs \<Longrightarrow> mset (concat (push_chain bs i e)) = add_mset e (mset (concat bs))"
  unfolding push_chain_def
proof (induction bs arbitrary: i)
  case (Cons b bs) then show ?case by (cases i) auto
qed simp

lemma mset_push_placed:
  "placed bs n \<Longrightarrow> mset (concat (push_chain bs (bucket_of (hash (key e)) n) e)) = add_mset e (mset (concat bs))"
  using bucket_less by (intro mset_push) (simp add: placed_def)

lemma placed_find:
  assumes "placed bs n"
  shows "find (\<lambda>e. key e = k) (bs ! bucket_of (hash k) n) = None \<longleftrightarrow> k \<notin> key ` set (concat bs)"
    and "find (\<lambda>e. key e = k) (bs ! bucket_of (hash k) n) = Some e \<Longrightarrow> e \<in> set (concat bs) \<and> key e = k"
proof -
  have b: "bucket_of (hash k) n < length bs" using assms bucket_less by (simp add: placed_def)
  have "e \<in> set (bs ! bucket_of (hash k) n)" if "e \<in> set (concat bs)" "key e = k" for e
    using that assms by (auto simp: placed_def in_set_conv_nth [of _ bs])
  then show "find (\<lambda>e. key e = k) (bs ! bucket_of (hash k) n) = None \<longleftrightarrow> k \<notin> key ` set (concat bs)"
    using nth_mem [OF b] by (auto simp: find_None_iff)
  show "e \<in> set (concat bs) \<and> key e = k" if "find (\<lambda>e. key e = k) (bs ! bucket_of (hash k) n) = Some e"
    using that by (auto simp: find_Some_iff intro!: bexI [OF _ nth_mem [OF b]])
qed

end

interpretation by_bytes: chained ent_bytes string_intern_hash_bytes .
interpretation by_addr: chained ent_value string_intern_hash_ptr .


section \<open>Invariant and abstraction\<close>

text \<open>The abstract table: a map from strings to the address of the interned copy.\<close>

definition interned :: "intern_table \<Rightarrow> string \<Rightarrow> addr option" where
  "interned t = map_of (map (\<lambda>e. (ent_bytes e, ent_value e)) (entries t))"

definition intern_inv :: "intern_table \<Rightarrow> bool" where
  "intern_inv t \<longleftrightarrow>
     (it_buckets t = None \<longleftrightarrow> it_ptr_buckets t = None) \<and>
     (\<forall>bs ps. it_buckets t = Some bs \<longrightarrow> it_ptr_buckets t = Some ps \<longrightarrow>
        by_bytes.placed bs (it_bucket_count t) \<and> by_addr.placed ps (it_bucket_count t) \<and> mset (concat bs) = mset (concat ps)) \<and>
     it_entry_count t = length (entries t) \<and>
     distinct (map ent_bytes (entries t)) \<and> distinct (map ent_value (entries t))"

text \<open>What the C library promises of its allocator: a new block has an address that is not in use.\<close>

definition fresh_alloc :: "allocator \<Rightarrow> bool" where
  "fresh_alloc alloc \<longleftrightarrow> (\<forall>n live a. alloc n live = Some a \<longrightarrow> a \<notin> set live)"

lemma entries_None [simp]: "it_buckets t = None \<Longrightarrow> entries t = []"
  and entries_Some [simp]: "it_buckets t = Some bs \<Longrightarrow> entries t = concat bs"
  by (simp_all add: entries_def)

lemma entry_eta [simp]: "\<lparr>ent_value = ent_value e, ent_bytes = ent_bytes e\<rparr> = e"
  by (cases e) simp

lemma intern_inv_start: "intern_inv intern_start"
  by (simp add: intern_inv_def intern_start_def)

lemma intern_inv_allocs [simp]: "intern_inv (t\<lparr>it_allocs := m\<rparr>) = intern_inv t"
  by (simp add: intern_inv_def entries_def)

lemma interned_allocs [simp]: "interned (t\<lparr>it_allocs := m\<rparr>) = interned t"
  by (simp add: interned_def entries_def)

lemma init_ok:
  assumes "intern_inv t" "string_intern_init alloc t = (ok, t')"
  shows "intern_inv t'" "interned t' = interned t" "ok \<longleftrightarrow> it_buckets t' \<noteq> None"
    "it_allocs t \<le> it_allocs t'" "it_buckets t \<noteq> None \<Longrightarrow> t' = t"
  using assms
  by (auto simp: string_intern_init_def Let_def intern_inv_def interned_def entries_def STRING_INTERN_INITIAL_BUCKETS_def
      by_bytes.placed_empty by_addr.placed_empty split: if_splits option.splits)

lemma map_of_distinct_set:
  assumes "distinct (map f xs)" "mset xs = mset ys"
  shows "map_of (map (\<lambda>x. (f x, g x)) xs) = map_of (map (\<lambda>x. (f x, g x)) ys)"
proof (rule map_of_eqI)
  have "distinct (map f ys)" using assms by (metis distinct_map mset_eq_imp_distinct_iff set_mset_mset)
  show "set (map fst (map (\<lambda>x. (f x, g x)) xs)) = set (map fst (map (\<lambda>x. (f x, g x)) ys))"
    using assms(2) by (simp add: comp_def) (metis set_mset_mset)
  show "\<forall>k\<in>set (map fst (map (\<lambda>x. (f x, g x)) xs)).
      map_of (map (\<lambda>x. (f x, g x)) xs) k = map_of (map (\<lambda>x. (f x, g x)) ys) k"
  proof
    fix k assume "k \<in> set (map fst (map (\<lambda>x. (f x, g x)) xs))"
    then obtain x where x: "x \<in> set xs" "k = f x" by auto
    then have "x \<in> set ys" using assms(2) by (metis set_mset_mset)
    then have "map_of (map (\<lambda>x. (f x, g x)) xs) k = Some (g x)" "map_of (map (\<lambda>x. (f x, g x)) ys) k = Some (g x)"
      using x assms(1) \<open>distinct (map f ys)\<close> by (auto simp: comp_def intro!: map_of_is_SomeI)
    then show "map_of (map (\<lambda>x. (f x, g x)) xs) k = map_of (map (\<lambda>x. (f x, g x)) ys) k" by simp
  qed
qed

lemma rehash_fold:
  assumes "by_bytes.placed c n" "by_addr.placed p n"
  shows "by_bytes.placed (fst (fold (rehash_entry n) es (c, p))) n \<and> by_addr.placed (snd (fold (rehash_entry n) es (c, p))) n \<and>
     mset (concat (fst (fold (rehash_entry n) es (c, p)))) = mset (concat c) + mset es \<and>
     mset (concat (snd (fold (rehash_entry n) es (c, p)))) = mset (concat p) + mset es"
  using assms
proof (induction es arbitrary: c p)
  case (Cons e es)
  show ?case using Cons.IH [OF by_bytes.placed_push [OF Cons.prems(1), of e] by_addr.placed_push [OF Cons.prems(2), of e]]
    by (simp add: rehash_entry_def by_bytes.mset_push_placed [OF Cons.prems(1)] by_addr.mset_push_placed [OF Cons.prems(2)])
qed simp

lemma concat_replicate_Nil [simp]: "concat (replicate n []) = []"
  by (induction n) simp_all

lemma maybe_grow_ok:
  assumes inv: "intern_inv t" and b: "it_buckets t = Some bs"
  shows "intern_inv (string_intern_maybe_grow alloc t) \<and> interned (string_intern_maybe_grow alloc t) = interned t \<and>
    it_buckets (string_intern_maybe_grow alloc t) \<noteq> None \<and> it_allocs t \<le> it_allocs (string_intern_maybe_grow alloc t)"
proof -
  let ?n = "it_bucket_count t * 2"
  obtain c p where cp: "fold (rehash_entry ?n) (concat bs) (replicate ?n [], replicate ?n []) = (c, p)" by fastforce
  have n: "0 < ?n" using inv b by (auto simp: intern_inv_def by_bytes.placed_def)
  have f: "by_bytes.placed c ?n" "by_addr.placed p ?n" "mset (concat c) = mset (concat bs)" "mset (concat p) = mset (concat bs)"
    using rehash_fold [OF by_bytes.placed_empty [OF n] by_addr.placed_empty [OF n], of "concat bs"] cp by simp_all
  have d: "distinct (map ent_bytes (concat bs))" "distinct (map ent_value (concat bs))" using inv b by (simp_all add: intern_inv_def)
  have "distinct (map ent_bytes (concat c))" "distinct (map ent_value (concat c))"
    using d f(3) by (metis mset_eq_imp_distinct_iff mset_map)+
  moreover have "set (concat c) = set (concat bs)" "length (concat c) = length (concat bs)"
    using f(3) by (metis set_mset_mset) (metis f(3) size_mset)
  moreover have "map_of (map (\<lambda>e. (ent_bytes e, ent_value e)) (concat c)) = map_of (map (\<lambda>e. (ent_bytes e, ent_value e)) (concat bs))"
    using d(1) f(3) by (intro map_of_distinct_set [symmetric]) simp_all
  ultimately show ?thesis using inv b cp f
    by (auto simp: string_intern_maybe_grow_def Let_def intern_inv_def interned_def entries_def split: if_splits)
qed


lemma interned_Some_iff:
  assumes "intern_inv t"
  shows "interned t s = Some a \<longleftrightarrow> \<lparr>ent_value = a, ent_bytes = s\<rparr> \<in> set (entries t)"
proof -
  have d: "distinct (map fst (map (\<lambda>e. (ent_bytes e, ent_value e)) (entries t)))"
    using assms by (simp add: intern_inv_def comp_def)
  have "(s, a) \<in> (\<lambda>e. (ent_bytes e, ent_value e)) ` set (entries t) \<longleftrightarrow> \<lparr>ent_value = a, ent_bytes = s\<rparr> \<in> set (entries t)"
    by (force simp: image_iff)
  then show ?thesis unfolding interned_def map_of_eq_Some_iff [OF d] by simp
qed

lemma interned_None_iff: "interned t s = None \<longleftrightarrow> s \<notin> ent_bytes ` set (entries t)"
  by (simp add: interned_def map_of_eq_None_iff image_image comp_def)

lemma interned_inj:
  assumes "intern_inv t" "interned t s = Some a" "interned t s' = Some a" shows "s = s'"
proof -
  have "distinct (map ent_value (entries t))" using assms(1) by (simp add: intern_inv_def)
  then have "inj_on ent_value (set (entries t))" by (simp add: distinct_map)
  then show ?thesis using assms(2,3) unfolding interned_Some_iff [OF assms(1)]
    by (metis inj_onD StringInternEntry.select_convs)
qed

lemma find_content:
  assumes inv: "intern_inv t" and b: "it_buckets t = Some bs"
  shows "(case find (\<lambda>e. ent_bytes e = s) (bs ! bucket_of (string_intern_hash_bytes s) (it_bucket_count t)) of
      None \<Rightarrow> interned t s = None | Some e \<Rightarrow> interned t s = Some (ent_value e))"
proof -
  have p: "by_bytes.placed bs (it_bucket_count t)" using inv b by (cases "it_ptr_buckets t") (auto simp: intern_inv_def)
  show ?thesis
  proof (cases "find (\<lambda>e. ent_bytes e = s) (bs ! bucket_of (string_intern_hash_bytes s) (it_bucket_count t))")
    case None
    then show ?thesis using by_bytes.placed_find(1) [OF p, of s] b by (simp add: interned_None_iff)
  next
    case (Some e)
    then have "e \<in> set (entries t)" "ent_bytes e = s" using by_bytes.placed_find(2) [OF p, of s e] b by simp_all
    then have "\<lparr>ent_value = ent_value e, ent_bytes = s\<rparr> \<in> set (entries t)" by (metis entry_eta)
    then show ?thesis using Some by (simp add: interned_Some_iff [OF inv])
  qed
qed

lemma insert_entry_ok:
  assumes inv: "intern_inv t" and b: "it_buckets t = Some bs" and s: "interned t s = None"
    and a: "\<forall>e\<in>set (entries t). ent_value e \<noteq> a"
  shows "intern_inv (insert_entry a s t) \<and> interned (insert_entry a s t) = (interned t)(s \<mapsto> a) \<and>
    it_buckets (insert_entry a s t) \<noteq> None \<and> it_allocs (insert_entry a s t) = it_allocs t"
proof -
  let ?e = "\<lparr>ent_value = a, ent_bytes = s\<rparr>" and ?n = "it_bucket_count t"
  obtain ps where ps: "it_ptr_buckets t = Some ps" using inv b by (cases "it_ptr_buckets t") (auto simp: intern_inv_def)
  let ?b = "push_chain bs (bucket_of (string_intern_hash_bytes s) ?n) ?e"
  let ?p = "push_chain ps (bucket_of (string_intern_hash_ptr a) ?n) ?e"
  have pl: "by_bytes.placed bs ?n" "by_addr.placed ps ?n" "mset (concat bs) = mset (concat ps)"
    and d: "distinct (map ent_bytes (concat bs))" "distinct (map ent_value (concat bs))"
    using inv b ps by (simp_all add: intern_inv_def)
  have m: "mset (concat ?b) = mset (?e # concat bs)" "mset (concat ?p) = mset (?e # concat ps)"
    using by_bytes.mset_push_placed [OF pl(1), of ?e] by_addr.mset_push_placed [OF pl(2), of ?e] by simp_all
  have nb: "s \<notin> ent_bytes ` set (concat bs)" using s b by (simp add: interned_None_iff)
  have de: "distinct (map ent_bytes (?e # concat bs))" "distinct (map ent_value (?e # concat bs))"
    using d nb a b by auto
  then have db: "distinct (map ent_bytes (concat ?b))" "distinct (map ent_value (concat ?b))"
    using m(1) by (metis mset_eq_imp_distinct_iff mset_map)+
  have sets: "set (concat ?b) = insert ?e (set (concat bs))" "length (concat ?b) = Suc (length (concat bs))"
    using m(1) by (metis list.simps(15) set_mset_mset) (metis m(1) length_Cons size_mset)
  have t': "it_buckets (insert_entry a s t) = Some ?b" "it_ptr_buckets (insert_entry a s t) = Some ?p"
    "it_bucket_count (insert_entry a s t) = ?n" "it_entry_count (insert_entry a s t) = it_entry_count t + 1"
    "it_allocs (insert_entry a s t) = it_allocs t"
    by (simp_all add: insert_entry_def Let_def b ps)
  have "interned (insert_entry a s t) = map_of (map (\<lambda>e. (ent_bytes e, ent_value e)) (?e # concat bs))"
    unfolding interned_def entries_Some [OF t'(1)] by (rule map_of_distinct_set [OF db(1) m(1)])
  then have i: "interned (insert_entry a s t) = (interned t)(s \<mapsto> a)" using b by (simp add: interned_def)
  have "by_bytes.placed ?b ?n" "by_addr.placed ?p ?n" "mset (concat ?b) = mset (concat ?p)"
    using by_bytes.placed_push [OF pl(1), of ?e] by_addr.placed_push [OF pl(2), of ?e] m pl(3) by simp_all
  then have "intern_inv (insert_entry a s t)"
    unfolding intern_inv_def entries_Some [OF t'(1)] t' using db sets(2) inv b
    by (simp add: intern_inv_def)
  then show ?thesis using i t' by simp
qed

section \<open>The interface of the table\<close>

text \<open>The abstract operation: an interned string keeps its address; a new one gets an address not in use, or the
  memory is exhausted and nothing changes.\<close>

definition spec_intern :: "string \<Rightarrow> (string \<rightharpoonup> addr) \<Rightarrow> addr option \<Rightarrow> (string \<rightharpoonup> addr) \<Rightarrow> bool" where
  "spec_intern s m r m' \<longleftrightarrow>
     (case m s of Some a \<Rightarrow> r = Some a \<and> m' = m
      | None \<Rightarrow> (r = None \<and> m' = m) \<or> (\<exists>a. r = Some a \<and> a \<notin> ran m \<and> m' = m(s \<mapsto> a)))"

locale string_pool =
  fixes intern :: "string \<Rightarrow> 't \<Rightarrow> addr option \<times> 't"
    and content :: "'t \<Rightarrow> string \<rightharpoonup> addr"
    and inv :: "'t \<Rightarrow> bool"
  assumes keeps_inv: "inv t \<Longrightarrow> inv (snd (intern s t))"
    and refines: "inv t \<Longrightarrow> spec_intern s (content t) (fst (intern s t)) (content (snd (intern s t)))"
    and injective: "inv t \<Longrightarrow> content t s = Some a \<Longrightarrow> content t s' = Some a \<Longrightarrow> s = s'"
begin

lemma stable: "inv t \<Longrightarrow> content t s = Some a \<Longrightarrow> content (snd (intern s' t)) s = Some a"
  using refines [of t s'] by (auto simp: spec_intern_def split: option.splits)

lemma returned: "inv t \<Longrightarrow> fst (intern s t) = Some a \<Longrightarrow> content (snd (intern s t)) s = Some a"
  using refines [of t s] by (auto simp: spec_intern_def split: option.splits)

lemma stable_all: "inv t \<Longrightarrow> content t s = Some a \<Longrightarrow> content (fold (\<lambda>s. snd \<circ> intern s) ss t) s = Some a"
  by (induction ss arbitrary: t) (simp_all add: stable keeps_inv)

lemma keeps_inv_all: "inv t \<Longrightarrow> inv (fold (\<lambda>s. snd \<circ> intern s) ss t)"
  by (induction ss arbitrary: t) (simp_all add: keeps_inv)

text \<open>Pointer comparison is string comparison, however many strings are interned in between.\<close>

lemma pointer_eq:
  assumes "inv t" "fst (intern s t) = Some a"
    and "t' = fold (\<lambda>s. snd \<circ> intern s) ss (snd (intern s t))" "fst (intern s' t') = Some a'"
  shows "a = a' \<longleftrightarrow> s = s'"
proof -
  have i: "inv t'" using assms(1,3) keeps_inv keeps_inv_all by simp
  have 1: "content (snd (intern s' t')) s = Some a"
    using assms stable_all [OF keeps_inv returned] stable [OF i] by blast
  have 2: "content (snd (intern s' t')) s' = Some a'" using returned [OF i assms(4)] .
  show ?thesis using 1 2 injective [OF keeps_inv [OF i], of s' s _ s'] by auto
qed

lemma again: "inv t \<Longrightarrow> content t s = Some a \<Longrightarrow> fst (intern s t) = Some a \<and> content (snd (intern s t)) = content t"
  using refines [of t s] by (simp add: spec_intern_def)

end

lemma intern_n_refines:
  assumes fr: "fresh_alloc alloc" and inv: "intern_inv t" and r: "string_intern_n alloc (Some s) t = (r, t')"
  shows "intern_inv t' \<and> spec_intern s (interned t) r (interned t')"
proof -
  obtain ok t0 where t0: "string_intern_init alloc t = (ok, t0)" by fastforce
  note io = init_ok [OF inv t0]
  show ?thesis
  proof (cases "it_buckets t0")
    case None
    then have "t' = t0" "r = None" using r t0 io(3) by (simp_all add: string_intern_n_def)
    moreover have "interned t0 = Map.empty" using None by (simp add: interned_def)
    ultimately show ?thesis using io by (simp add: spec_intern_def)
  next
    case (Some bs)
    note fc = find_content [OF io(1) Some, of s]
    show ?thesis
    proof (cases "interned t0 s")
      case (Some a)
      then show ?thesis using r t0 io fc \<open>it_buckets t0 = Some bs\<close>
        by (auto simp: string_intern_n_def spec_intern_def split: option.splits)
    next
      case None
      have fn: "find (\<lambda>e. ent_bytes e = s) (bs ! bucket_of (string_intern_hash_bytes s) (it_bucket_count t0)) = None"
        using fc None by (auto split: option.splits)
      show ?thesis
      proof (cases "allocate alloc 0 t0 = None \<or> allocate alloc 1 t0 = None")
        case True
        then show ?thesis using r t0 io None Some fn
          by (auto simp: string_intern_n_def spec_intern_def Let_def split: option.splits if_splits)
      next
        case False
        then obtain a b where a: "allocate alloc 0 t0 = Some a" "allocate alloc 1 t0 = Some b" by auto
        let ?t2 = "t0\<lparr>it_allocs := it_allocs t0 + 2\<rparr>"
        have na: "\<forall>e\<in>set (entries t0). ent_value e \<noteq> a"
          using fr a by (fastforce simp: allocate_def fresh_alloc_def)
        have ins: "intern_inv (insert_entry a s ?t2)" "interned (insert_entry a s ?t2) = (interned t0)(s \<mapsto> a)"
          "it_buckets (insert_entry a s ?t2) \<noteq> None"
          using insert_entry_ok [of ?t2 bs s a] Some None io(1) na by (simp_all add: entries_def)
        then obtain bs2 where b2: "it_buckets (insert_entry a s ?t2) = Some bs2" by auto
        have "a \<notin> ran (interned t0)"
          using na unfolding ran_def interned_Some_iff [OF io(1)] by force
        moreover have "r = Some a" "t' = string_intern_maybe_grow alloc (insert_entry a s ?t2)"
          using r t0 io(3) Some fn a by (simp_all add: string_intern_n_def Let_def)
        ultimately show ?thesis using maybe_grow_ok [OF ins(1) b2] ins(2) io(2) None by (auto simp: spec_intern_def)
      qed
    qed
  qed
qed

interpretation pool: string_pool "\<lambda>s. string_intern_n alloc (Some s)" interned "\<lambda>t. fresh_alloc alloc \<and> intern_inv t"
  for alloc
proof unfold_locales
  fix t s assume i: "fresh_alloc alloc \<and> intern_inv t"
  show "fresh_alloc alloc \<and> intern_inv (snd (string_intern_n alloc (Some s) t))"
    "spec_intern s (interned t) (fst (string_intern_n alloc (Some s) t)) (interned (snd (string_intern_n alloc (Some s) t)))"
    using i intern_n_refines [of alloc t s] by (cases "string_intern_n alloc (Some s) t"; simp)+
next
  fix t s a s' assume "fresh_alloc alloc \<and> intern_inv t" "interned t s = Some a" "interned t s' = Some a"
  then show "s = s'" using interned_inj by blast
qed


section \<open>Properties\<close>

inductive intern_reach :: "allocator \<Rightarrow> intern_table \<Rightarrow> bool" for alloc where
  reach_start: "intern_reach alloc intern_start"
| reach_intern: "intern_reach alloc t \<Longrightarrow> intern_reach alloc (snd (string_intern_n alloc v t))"
| reach_clear: "intern_reach alloc t \<Longrightarrow> intern_reach alloc (string_intern_clear t)"

lemma clear_ok: "intern_inv t \<Longrightarrow> intern_inv (string_intern_clear t)" "interned (string_intern_clear t) = Map.empty"
  by (auto simp: string_intern_clear_def intern_inv_def interned_def entries_def)

lemma intern_reach_inv: "intern_reach alloc t \<Longrightarrow> fresh_alloc alloc \<Longrightarrow> intern_inv t"
proof (induction rule: intern_reach.induct)
  case (reach_intern t v)
  then show ?case using pool.keeps_inv [of alloc t] by (cases v) (simp_all add: string_intern_n_def)
qed (simp_all add: intern_inv_start clear_ok)

lemma is_interned_iff:
  assumes inv: "intern_inv t" shows "string_is_interned (Some p) t \<longleftrightarrow> p \<in> ran (interned t)"
proof (cases "it_buckets t")
  case None
  then show ?thesis using inv by (simp add: string_is_interned_def intern_inv_def interned_def)
next
  case (Some bs)
  then obtain ps where ps: "it_ptr_buckets t = Some ps" using inv by (cases "it_ptr_buckets t") (auto simp: intern_inv_def)
  have pl: "by_addr.placed ps (it_bucket_count t)" and "mset (concat bs) = mset (concat ps)"
    using inv Some ps by (simp_all add: intern_inv_def)
  then have es: "set (concat ps) = set (entries t)" using mset_eq_setD [of "concat bs" "concat ps"] Some by simp
  have "string_is_interned (Some p) t \<longleftrightarrow> p \<in> ent_value ` set (entries t)"
    using by_addr.placed_find(1) [OF pl, of p] ps unfolding es by (auto simp: string_is_interned_def)
  also have "\<dots> \<longleftrightarrow> p \<in> ran (interned t)"
  proof
    assume "p \<in> ent_value ` set (entries t)"
    then obtain e where "e \<in> set (entries t)" "p = ent_value e" by blast
    then have "interned t (ent_bytes e) = Some p" by (simp add: interned_Some_iff [OF inv])
    then show "p \<in> ran (interned t)" by (rule ranI)
  next
    assume "p \<in> ran (interned t)"
    then show "p \<in> ent_value ` set (entries t)" by (force simp: ran_def interned_Some_iff [OF inv])
  qed
  finally show ?thesis .
qed

text \<open>C40. In every reachable state the two hash tables implement one injective map from strings to addresses:
  \<open>string_intern_n\<close> returns the address of an interned string and otherwise adds it under an address not in
  use, or runs out of memory and changes no entry, across the rehashing of a growing table;
  \<open>string_is_interned\<close> decides exactly the addresses of the map, and \<open>string_intern_clear\<close> empties it.\<close>

theorem string_intern_refines:
  assumes "fresh_alloc alloc" and "intern_reach alloc t" and "string_intern_n alloc (Some s) t = (r, t')"
  shows "spec_intern s (interned t) r (interned t') \<and> (\<forall>p. string_is_interned (Some p) t \<longleftrightarrow> p \<in> ran (interned t)) \<and>
    inj_on (interned t) (dom (interned t)) \<and> interned (string_intern_clear t) = Map.empty"
proof -
  note inv = intern_reach_inv [OF assms(2,1)]
  have "inj_on (interned t) (dom (interned t))"
    by (auto intro!: inj_onI) (metis interned_inj [OF inv])
  then show ?thesis using intern_n_refines [OF assms(1) inv assms(3)] is_interned_iff [OF inv] clear_ok(2) by blast
qed

text \<open>An allocator that numbers its blocks.\<close>

definition counting_alloc :: allocator where
  "counting_alloc n live = (let a = word_of_nat n + 1 in if a \<in> set live then None else Some a)"

lemma counting_fresh: "fresh_alloc counting_alloc"
  by (simp add: fresh_alloc_def counting_alloc_def Let_def)

theorem string_intern_refines_witness:
  "\<exists>r t'. string_intern_n counting_alloc (Some ''x'') intern_start = (r, t') \<and>
     spec_intern ''x'' (interned intern_start) r (interned t')"
  using string_intern_refines [OF counting_fresh reach_start] by (metis surj_pair)

text \<open>Pointer equality of interned strings is equality of the strings, whatever is interned in between.\<close>

theorem string_intern_pointer_eq:
  assumes "fresh_alloc alloc" and "intern_reach alloc t" and "fst (string_intern_n alloc (Some s) t) = Some a"
    and "t' = fold (\<lambda>x. snd \<circ> string_intern_n alloc (Some x)) ss (snd (string_intern_n alloc (Some s) t))"
    and "fst (string_intern_n alloc (Some s') t') = Some a'"
  shows "a = a' \<longleftrightarrow> s = s'"
  using pool.pointer_eq [of alloc t s a t' ss s' a'] assms intern_reach_inv [OF assms(2,1)] by simp


lemma intern_first: "fst (string_intern_n counting_alloc (Some s) intern_start) = Some 3"
proof -
  have b: "bucket_of h 4096 < 4096" for h by (rule by_bytes.bucket_less) simp
  show ?thesis
    by (simp add: string_intern_n_def string_intern_init_def intern_start_def Let_def allocate_def counting_alloc_def
        entries_def STRING_INTERN_INITIAL_BUCKETS_def b)
qed

theorem string_intern_pointer_eq_witness:
  "\<exists>a'. fst (string_intern_n counting_alloc (Some ''x'') (snd (string_intern_n counting_alloc (Some ''x'') intern_start))) = Some a' \<and>
     (3 = a' \<longleftrightarrow> ''x'' = ''x'')"
proof -
  let ?t = "snd (string_intern_n counting_alloc (Some ''x'') intern_start)"
  have i: "fresh_alloc counting_alloc \<and> intern_inv intern_start" by (simp add: counting_fresh intern_inv_start)
  have "fst (string_intern_n counting_alloc (Some ''x'') ?t) = Some 3"
    using pool.again [OF pool.keeps_inv [OF i] pool.returned [OF i intern_first]] by blast
  then show ?thesis
    using string_intern_pointer_eq [OF counting_fresh reach_start intern_first [of "''x''"], of ?t "[]" "''x''" 3] by simp
qed

end
