(* ===== verification/Lexer.thy ===== *)
theory Lexer
  imports LexWords StringIntern
begin

text \<open>
  The lexer of \<open>lexer/lexer.c\<close>. A \<open>Lexer\<close> is the structure of \<open>lexer.h\<close>; its source is the list of the bytes before
  the terminating zero, so \<open>lexer->length\<close> is the length of that list. Every allocation of a token value or of
  an error message goes through the allocator of the intern table, whose state is threaded along. The
  character tests are those of the C locale; for bytes of 128 and above, which the sources pass as plain
  \<open>char\<close>, they are false.
\<close>

section \<open>Tokens and state\<close>

text \<open>What \<open>value\<close> points to: a string literal of the program, an interned copy, or a heap block.\<close>

datatype token_value = NoValue | Static string | Interned addr | Heap string

text \<open>What \<open>lexeme\<close> points to: nothing, a slice of the source, or the value of the token itself.\<close>

datatype StringView = NoView | InSource nat nat | InValue nat

record Token =
  tok_type :: TokenType
  tok_value :: token_value
  tok_lexeme :: StringView
  tok_line :: nat
  tok_column :: nat
  is_interned :: bool

datatype lex_message = LexError nat nat string

record Lexer =
  lx_source :: string
  lx_position :: nat
  lx_line :: nat
  lx_column :: nat
  error_message :: "lex_message option"
  has_error :: bool
  continuation_depth :: nat
  last_significant :: TokenType

type_synonym lex_result = "Token \<times> Lexer \<times> intern_table"

definition lx_length :: "Lexer \<Rightarrow> nat" where "lx_length l = length (lx_source l)"

definition cur :: "Lexer \<Rightarrow> char" where "cur l = lx_source l ! lx_position l"

definition next_is :: "Lexer \<Rightarrow> nat \<Rightarrow> char \<Rightarrow> bool" where
  "next_is l k c \<longleftrightarrow> lx_position l + k < lx_length l \<and> lx_source l ! (lx_position l + k) = c"

definition at_end :: "Lexer \<Rightarrow> bool" where "at_end l \<longleftrightarrow> lx_length l \<le> lx_position l"

text \<open>Move forward on the same line, and over a newline.\<close>

definition bump :: "nat \<Rightarrow> Lexer \<Rightarrow> Lexer" where
  "bump n l = l\<lparr>lx_position := lx_position l + n, lx_column := lx_column l + n\<rparr>"

definition newline :: "Lexer \<Rightarrow> Lexer" where
  "newline l = l\<lparr>lx_position := lx_position l + 1, lx_line := lx_line l + 1, lx_column := 1\<rparr>"

definition slice :: "Lexer \<Rightarrow> nat \<Rightarrow> nat \<Rightarrow> string" where
  "slice l start n = take n (drop start (lx_source l))"

definition new_token :: "Lexer \<Rightarrow> Token" where
  "new_token l = \<lparr>tok_type = TOKEN_EOF, tok_value = NoValue, tok_lexeme = NoView, tok_line = lx_line l,
     tok_column = lx_column l, is_interned = False\<rparr>"

section \<open>Character tests of the C locale\<close>

definition c_isspace :: "char \<Rightarrow> bool" where
  "c_isspace c \<longleftrightarrow> (let n = of_char c :: nat in n = 32 \<or> (9 \<le> n \<and> n \<le> 13))"

definition c_isdigit :: "char \<Rightarrow> bool" where
  "c_isdigit c \<longleftrightarrow> (let n = of_char c :: nat in 48 \<le> n \<and> n \<le> 57)"

definition c_isxdigit :: "char \<Rightarrow> bool" where
  "c_isxdigit c \<longleftrightarrow> (let n = of_char c :: nat in (48 \<le> n \<and> n \<le> 57) \<or> (65 \<le> n \<and> n \<le> 70) \<or> (97 \<le> n \<and> n \<le> 102))"

definition c_isalpha :: "char \<Rightarrow> bool" where
  "c_isalpha c \<longleftrightarrow> (let n = of_char c :: nat in (65 \<le> n \<and> n \<le> 90) \<or> (97 \<le> n \<and> n \<le> 122))"

definition c_isalnum :: "char \<Rightarrow> bool" where
  "c_isalnum c \<longleftrightarrow> c_isalpha c \<or> c_isdigit c"

section \<open>Creation and errors\<close>

definition lexer_create :: "allocator \<Rightarrow> string \<Rightarrow> intern_table \<Rightarrow> Lexer option \<times> intern_table" where
  "lexer_create alloc source t =
    (let t' = t\<lparr>it_allocs := it_allocs t + 1\<rparr>
     in if allocate alloc 0 t = None then (None, t')
        else (Some \<lparr>lx_source = source,
                    lx_position = (if take 3 source = [CHR 0xEF, CHR 0xBB, CHR 0xBF] then 3 else 0),
                    lx_line = 1, lx_column = 1, error_message = None, has_error = False,
                    continuation_depth = 0, last_significant = TOKEN_NEWLINE\<rparr>, t'))"

text \<open>Releasing a lexer; the result is the number of blocks that are freed.\<close>

definition lexer_destroy :: "Lexer option \<Rightarrow> nat" where
  "lexer_destroy lexer =
    (case lexer of None \<Rightarrow> 0 | Some l \<Rightarrow> (if error_message l \<noteq> None then 2 else 1))"

definition lexer_set_error :: "allocator \<Rightarrow> string option \<Rightarrow> Lexer \<Rightarrow> intern_table \<Rightarrow> Lexer \<times> intern_table" where
  "lexer_set_error alloc message l t =
    (case message of
       None \<Rightarrow> (l\<lparr>error_message := None, has_error := False\<rparr>, t)
     | Some m \<Rightarrow>
         (l\<lparr>error_message := (if allocate alloc 0 t = None then None else Some (LexError (lx_line l) (lx_column l) m)),
            has_error := True\<rparr>,
          t\<lparr>it_allocs := it_allocs t + 1\<rparr>))"

text \<open>The pattern of every error return: the type, a \<open>strdup\<close> of the message, and \<open>lexer_set_error\<close> with it.\<close>

definition error_token :: "allocator \<Rightarrow> string \<Rightarrow> Token \<Rightarrow> Lexer \<Rightarrow> intern_table \<Rightarrow> lex_result" where
  "error_token alloc msg tok l t =
    (let dup = (if allocate alloc 0 t = None then None else Some msg);
         tok' = tok\<lparr>tok_type := TOKEN_ERROR, tok_value := (case dup of None \<Rightarrow> NoValue | Some m \<Rightarrow> Heap m)\<rparr>;
         (l', t') = lexer_set_error alloc dup l (t\<lparr>it_allocs := it_allocs t + 1\<rparr>)
     in (tok', l', t'))"

section \<open>Loops\<close>

function advance_while :: "(Lexer \<Rightarrow> bool) \<Rightarrow> Lexer \<Rightarrow> Lexer" where
  "advance_while P l = (if \<not> at_end l \<and> P l then advance_while P (bump 1 l) else l)"
  by pat_completeness auto
termination by (relation "measure (\<lambda>(_, l). lx_length l - lx_position l)") (auto simp: at_end_def bump_def lx_length_def)

declare advance_while.simps [simp del]

definition lexer_skip_line_comment :: "Lexer \<Rightarrow> Lexer" where
  "lexer_skip_line_comment l = advance_while (\<lambda>l. cur l \<noteq> CHR 0x0A) (bump 2 l)"

function block_loop :: "nat \<Rightarrow> Lexer \<Rightarrow> nat \<times> Lexer" where
  "block_loop depth l =
    (if \<not> at_end l \<and> depth > 0 then
       (if cur l = CHR ''/'' \<and> next_is l 1 CHR ''*'' then block_loop (depth + 1) (bump 2 l)
        else if cur l = CHR ''*'' \<and> next_is l 1 CHR ''/'' then block_loop (depth - 1) (bump 2 l)
        else if cur l = CHR 0x0A then block_loop depth (newline l)
        else block_loop depth (bump 1 l))
     else (depth, l))"
  by pat_completeness auto
termination by (relation "measure (\<lambda>(_, l). lx_length l - lx_position l)")
    (auto simp: at_end_def bump_def newline_def lx_length_def next_is_def)

declare block_loop.simps [simp del]

text \<open>\<open>Inl\<close>: the comment is over and \<open>lexer_next_token\<close> is called; \<open>Inr\<close>: the error token.\<close>

definition lexer_skip_block_comment :: "allocator \<Rightarrow> Lexer \<Rightarrow> intern_table \<Rightarrow> Lexer + lex_result" where
  "lexer_skip_block_comment alloc l t =
    (case block_loop 1 (bump 2 l) of
       (depth, l') \<Rightarrow> if depth \<noteq> 0 then Inr (error_token alloc ''Unterminated block comment'' (new_token l) l' t)
                      else Inl l')"

section \<open>Literals\<close>

text \<open>Decimal digits, as \<open>snprintf\<close> with \<open>%d\<close> prints them.\<close>

fun decimal :: "nat \<Rightarrow> string" where
  "decimal n = (if n < 10 then [char_of (48 + n)] else decimal (n div 10) @ [char_of (48 + n mod 10)])"

declare decimal.simps [simp del]

definition char_escape :: "char \<Rightarrow> char option" where
  "char_escape c =
    (if c = CHR ''n'' then Some CHR 0x0A else if c = CHR ''t'' then Some CHR 0x09
     else if c = CHR ''r'' then Some CHR 0x0D else if c = CHR 0x5C then Some CHR 0x5C
     else if c = CHR 0x27 then Some CHR 0x27 else if c = CHR ''0'' then Some CHR 0x00 else None)"

text \<open>The end of a character literal, after its value is known.\<close>

definition char_close :: "allocator \<Rightarrow> nat \<Rightarrow> char \<Rightarrow> Token \<Rightarrow> Lexer \<Rightarrow> intern_table \<Rightarrow> lex_result" where
  "char_close alloc start v tok l0 t =
    (let l = bump 1 l0
     in if at_end l \<or> cur l \<noteq> CHR 0x27
        then error_token alloc ''Character literal must contain exactly one character'' tok l t
        else let l = bump 1 l; t' = t\<lparr>it_allocs := it_allocs t + 1\<rparr>
             in if allocate alloc 0 t = None then error_token alloc ''Memory allocation failed'' tok l t'
                else (tok\<lparr>tok_type := TOKEN_NUMBER, tok_value := Heap (decimal (of_char v)),
                          tok_lexeme := InSource start (lx_position l - start)\<rparr>, l, t'))"

definition lexer_lex_char_literal :: "allocator \<Rightarrow> Lexer \<Rightarrow> intern_table \<Rightarrow> lex_result" where
  "lexer_lex_char_literal alloc l0 t =
    (let tok = new_token l0; start = lx_position l0; l = bump 1 l0
     in if at_end l then error_token alloc ''Unterminated character literal'' tok l t
        else if cur l = CHR 0x5C then
          (let l = bump 1 l
           in if at_end l then error_token alloc ''Unterminated character literal'' tok l t
              else case char_escape (cur l) of
                None \<Rightarrow> error_token alloc ''Invalid character escape sequence'' tok l t
              | Some v \<Rightarrow> char_close alloc start v tok l t)
        else if cur l = CHR 0x0A \<or> cur l = CHR 0x0D
          then error_token alloc ''Unterminated character literal'' tok l t
        else char_close alloc start (cur l) tok l t)"

definition lex_exponent :: "Lexer \<Rightarrow> Lexer" where
  "lex_exponent l =
    (if \<not> at_end l \<and> (cur l = CHR ''e'' \<or> cur l = CHR ''E'') then
       let sign = (if next_is l 1 CHR ''+'' \<or> next_is l 1 CHR ''-'' then 1 else 0); skip = 1 + sign
       in if lx_position l + skip < lx_length l \<and> c_isdigit (lx_source l ! (lx_position l + skip))
          then advance_while (\<lambda>l. c_isdigit (cur l)) (bump skip l) else l
     else l)"

text \<open>The digits: \<open>Inl\<close> is the error message.\<close>

definition lex_digits :: "Lexer \<Rightarrow> string \<times> Lexer + Lexer" where
  "lex_digits l =
    (if cur l = CHR ''0'' \<and> (next_is l 1 CHR ''x'' \<or> next_is l 1 CHR ''X'') then
       (let l0 = bump 2 l; l1 = advance_while (\<lambda>l. c_isxdigit (cur l)) l0
        in if lx_position l1 = lx_position l0 then Inl (''Invalid hexadecimal literal'', l1) else Inr l1)
     else if cur l = CHR ''0'' \<and> (next_is l 1 CHR ''b'' \<or> next_is l 1 CHR ''B'') then
       (let l0 = bump 2 l; l1 = advance_while (\<lambda>l. cur l = CHR ''0'' \<or> cur l = CHR ''1'') l0
        in if lx_position l1 = lx_position l0 then Inl (''Invalid binary literal'', l1) else Inr l1)
     else Inr (lex_exponent
       (advance_while (\<lambda>l. c_isdigit (cur l) \<or> (cur l = CHR ''.'' \<and> \<not> next_is l 1 CHR ''.'')) l)))"

definition lexer_lex_number :: "allocator \<Rightarrow> Lexer \<Rightarrow> intern_table \<Rightarrow> lex_result" where
  "lexer_lex_number alloc l t =
    (case lex_digits l of
       Inl (msg, l') \<Rightarrow> error_token alloc msg (new_token l) l' t
     | Inr l' \<Rightarrow>
         let start = lx_position l; n = lx_position l' - start; t' = t\<lparr>it_allocs := it_allocs t + 1\<rparr>
         in if allocate alloc 0 t = None then error_token alloc ''Memory allocation failed'' (new_token l) l' t'
            else ((new_token l)\<lparr>tok_type := TOKEN_NUMBER, tok_value := Heap (slice l' start n),
                                tok_lexeme := InSource start n\<rparr>, l', t'))"

definition classify_word :: "string \<Rightarrow> TokenType" where
  "classify_word w =
    (let ty = lex_lookup_word g_lex_keywords g_lex_keywords_span w False
     in if ty = TOKEN_IDENTIFIER then lex_lookup_word g_lex_asm_words g_lex_asm_words_span w True else ty)"

definition lexer_lex_identifier_or_keyword :: "allocator \<Rightarrow> Lexer \<Rightarrow> intern_table \<Rightarrow> lex_result" where
  "lexer_lex_identifier_or_keyword alloc l t =
    (let l' = advance_while (\<lambda>l. c_isalnum (cur l) \<or> cur l = CHR ''_'') l;
         start = lx_position l; n = lx_position l' - start; w = slice l' start n
     in case string_intern_n alloc (Some w) t of
          (None, t') \<Rightarrow> error_token alloc ''Memory allocation failed'' (new_token l) l' t'
        | (Some a, t') \<Rightarrow>
            ((new_token l)\<lparr>tok_type := classify_word w, tok_value := Interned a,
                           tok_lexeme := InSource start n, is_interned := True\<rparr>, l', t'))"

definition string_escape :: "char \<Rightarrow> char option" where
  "string_escape c =
    (if c = CHR ''n'' then Some CHR 0x0A else if c = CHR ''t'' then Some CHR 0x09
     else if c = CHR ''r'' then Some CHR 0x0D else if c = CHR 0x5C then Some CHR 0x5C
     else if c = CHR 0x22 then Some CHR 0x22 else if c = CHR ''0'' then Some CHR 0x00 else None)"

text \<open>One pass over the body of a string: the buffer filled so far, the brace depth, whether a nested string is
  open, and the first bad escape (0 for none).\<close>

record body_state =
  bs_lexer :: Lexer
  bs_buffer :: string
  bs_depth :: nat
  bs_nested :: bool
  bs_bad :: nat

definition body_escape :: "body_state \<Rightarrow> body_state" where
  "body_escape b =
    (let l = bump 1 (bs_lexer b); c = cur l; b' = b\<lparr>bs_lexer := bump 1 l\<rparr>
     in case string_escape c of
          Some v \<Rightarrow> b'\<lparr>bs_buffer := bs_buffer b @ [v]\<rparr>
        | None \<Rightarrow> b'\<lparr>bs_buffer := bs_buffer b @ [CHR 0x5C, c],
                     bs_bad := (if bs_bad b = 0 then of_char c else bs_bad b)\<rparr>)"

definition body_plain :: "bool \<Rightarrow> body_state \<Rightarrow> body_state" where
  "body_plain aware b =
    (let l = bs_lexer b; c = cur l;
         b' = b\<lparr>bs_lexer := bump 1 l, bs_buffer := bs_buffer b @ [c]\<rparr>
     in if \<not> aware then b'
        else if bs_depth b > 0 \<and> c = CHR 0x22 then b'\<lparr>bs_nested := \<not> bs_nested b\<rparr>
        else if \<not> bs_nested b then
          (if c = CHR ''{'' then b'\<lparr>bs_depth := bs_depth b + 1\<rparr>
           else if c = CHR ''}'' \<and> bs_depth b > 0 then b'\<lparr>bs_depth := bs_depth b - 1\<rparr> else b')
        else b')"

definition body_braces :: "body_state \<Rightarrow> body_state" where
  "body_braces b = b\<lparr>bs_lexer := bump 2 (bs_lexer b), bs_buffer := bs_buffer b @ ''{{''\<rparr>"

text \<open>One round of the loop, after the test for the closing quote.\<close>

definition body_round :: "bool \<Rightarrow> body_state \<Rightarrow> body_state" where
  "body_round aware b =
    (let l = bs_lexer b
     in if cur l = CHR 0x5C \<and> lx_position l + 1 < lx_length l then body_escape b
        else if aware \<and> \<not> bs_nested b \<and> bs_depth b = 0 \<and> cur l = CHR ''{'' \<and> next_is l 1 CHR ''{'' then body_braces b
        else body_plain aware b)"

definition body_stops :: "bool \<Rightarrow> body_state \<Rightarrow> bool" where
  "body_stops aware b \<longleftrightarrow> at_end (bs_lexer b) \<or> (cur (bs_lexer b) = CHR 0x22 \<and> \<not> (aware \<and> bs_depth b > 0))"

lemma bump_simps [simp]:
  "lx_source (bump n l) = lx_source l" "lx_position (bump n l) = lx_position l + n" "lx_line (bump n l) = lx_line l"
  "lx_column (bump n l) = lx_column l + n" "lx_length (bump n l) = lx_length l"
  "last_significant (bump n l) = last_significant l" "continuation_depth (bump n l) = continuation_depth l"
  by (simp_all add: bump_def lx_length_def)

lemma newline_simps [simp]:
  "lx_source (newline l) = lx_source l" "lx_position (newline l) = lx_position l + 1" "lx_line (newline l) = lx_line l + 1"
  "lx_column (newline l) = 1" "lx_length (newline l) = lx_length l"
  "last_significant (newline l) = last_significant l" "continuation_depth (newline l) = continuation_depth l"
  by (simp_all add: newline_def lx_length_def)

lemma bump_bump [simp]: "bump n (bump m l) = bump (m + n) l"
  by (simp add: bump_def add.assoc)

lemma body_escape_moves: "bs_lexer (body_escape b) = bump 2 (bs_lexer b)"
  "length (bs_buffer (body_escape b)) \<le> length (bs_buffer b) + 2"
  by (auto simp: body_escape_def Let_def numeral_2_eq_2 split: option.splits)

lemma body_plain_moves: "bs_lexer (body_plain aware b) = bump 1 (bs_lexer b)"
  "length (bs_buffer (body_plain aware b)) = length (bs_buffer b) + 1"
  by (simp_all add: body_plain_def Let_def)

lemma body_round_moves:
  assumes "\<not> at_end (bs_lexer b)"
  obtains n where "n = 1 \<or> n = 2" "bs_lexer (body_round aware b) = bump n (bs_lexer b)"
    "lx_position (bs_lexer b) + n \<le> lx_length (bs_lexer b)" "length (bs_buffer (body_round aware b)) \<le> length (bs_buffer b) + n"
proof -
  let ?l = "bs_lexer b"
  show thesis
  proof (cases "cur ?l = CHR 0x5C \<and> lx_position ?l + 1 < lx_length ?l")
    case True
    then have "body_round aware b = body_escape b" by (simp add: body_round_def Let_def)
    then show thesis using body_escape_moves [of b] True by (intro that [of 2]) simp_all
  next
    case e: False
    show thesis
    proof (cases "aware \<and> \<not> bs_nested b \<and> bs_depth b = 0 \<and> cur ?l = CHR ''{'' \<and> next_is ?l 1 CHR ''{''")
      case True
      then have "body_round aware b = body_braces b" using e by (simp add: body_round_def Let_def)
      then show thesis using True by (intro that [of 2]) (simp_all add: body_braces_def next_is_def)
    next
      case False
      then have "body_round aware b = body_plain aware b" using e unfolding body_round_def Let_def by (simp only: if_False)
      then show thesis using body_plain_moves [of aware b] assms by (intro that [of 1]) (simp_all add: at_end_def)
    qed
  qed
qed

function lexer_read_string_body :: "bool \<Rightarrow> body_state \<Rightarrow> bool \<times> body_state" where
  "lexer_read_string_body aware b =
    (if body_stops aware b then (\<not> at_end (bs_lexer b), b) else lexer_read_string_body aware (body_round aware b))"
  by pat_completeness auto
termination
proof (relation "measure (\<lambda>(_, b). lx_length (bs_lexer b) - lx_position (bs_lexer b))")
  fix aware b assume "\<not> body_stops aware b"
  then have "\<not> at_end (bs_lexer b)" by (simp add: body_stops_def)
  then show "((aware, body_round aware b), (aware, b)) \<in> measure (\<lambda>(_, b). lx_length (bs_lexer b) - lx_position (bs_lexer b))"
    by (rule body_round_moves [of b aware]) (auto simp: at_end_def)
qed simp

declare lexer_read_string_body.simps [simp del]

definition body_start :: "Lexer \<Rightarrow> body_state" where
  "body_start l = \<lparr>bs_lexer = l, bs_buffer = [], bs_depth = 0, bs_nested = False, bs_bad = 0\<rparr>"

definition lexer_lex_string_literal :: "allocator \<Rightarrow> Lexer \<Rightarrow> intern_table \<Rightarrow> lex_result" where
  "lexer_lex_string_literal alloc l0 t0 =
    (let tok = new_token l0; l = bump 1 l0; t = t0\<lparr>it_allocs := it_allocs t0 + 1\<rparr>
     in if allocate alloc 0 t0 = None then error_token alloc ''Memory allocation failed'' tok l t
        else let (closed, b1) = lexer_read_string_body True (body_start l);
                 b = (if closed then b1 else snd (lexer_read_string_body False (body_start l)));
                 l' = bs_lexer b
             in if at_end l' then error_token alloc ''Unterminated string literal'' tok l' t
                else if bs_bad b \<noteq> 0 then error_token alloc ''Invalid string escape sequence'' tok (bump 1 l') t
                else (tok\<lparr>tok_type := TOKEN_STRING, tok_value := Heap (bs_buffer b),
                          tok_lexeme := InValue (length (bs_buffer b))\<rparr>, bump 1 l', t))"

section \<open>Operators\<close>

definition lexer_token_continues_line :: "TokenType \<Rightarrow> bool" where
  "lexer_token_continues_line ty \<longleftrightarrow> ty \<in> Op ` set
    [TOKEN_PLUS, TOKEN_MINUS, TOKEN_DIVIDE, TOKEN_PERCENT, TOKEN_AMPERSAND, TOKEN_PIPE, TOKEN_CARET, TOKEN_LSHIFT,
     TOKEN_RSHIFT, TOKEN_AND_AND, TOKEN_OR_OR, TOKEN_EQUALS_EQUALS, TOKEN_NOT_EQUALS, TOKEN_LESS_THAN,
     TOKEN_LESS_EQUALS, TOKEN_GREATER_EQUALS, TOKEN_EQUALS, TOKEN_PLUS_EQUALS, TOKEN_MINUS_EQUALS,
     TOKEN_STAR_EQUALS, TOKEN_SLASH_EQUALS, TOKEN_PERCENT_EQUALS, TOKEN_AMP_EQUALS, TOKEN_PIPE_EQUALS,
     TOKEN_CARET_EQUALS, TOKEN_LSHIFT_EQUALS, TOKEN_RSHIFT_EQUALS, TOKEN_ARROW, TOKEN_DOT, TOKEN_DOT_DOT]"

text \<open>The switch over the current character and the tests for \<open>-\<close> behind it: the kind and the text of the operator.
  A text of one character is the entry of \<open>g_single_char_strings\<close> for it.\<close>

definition scan_brackets :: "char \<Rightarrow> (OperatorToken \<times> string) option" where
  "scan_brackets c =
    (if c = CHR '':'' then Some (TOKEN_COLON, '':'')
     else if c = CHR '';'' then Some (TOKEN_SEMICOLON, '';'')
     else if c = CHR ''@'' then Some (TOKEN_AT, ''@'')
     else if c = CHR '','' then Some (TOKEN_COMMA, '','')
     else if c = CHR ''('' then Some (TOKEN_LPAREN, ''('')
     else if c = CHR '')'' then Some (TOKEN_RPAREN, '')'')
     else if c = CHR ''{'' then Some (TOKEN_LBRACE, ''{'')
     else if c = CHR ''}'' then Some (TOKEN_RBRACE, ''}'')
     else if c = CHR ''['' then Some (TOKEN_LBRACKET, ''['')
     else if c = CHR '']'' then Some (TOKEN_RBRACKET, '']'')
     else if c = CHR ''~'' then Some (TOKEN_TILDE, ''~'')
     else None)"

definition scan_relation :: "(nat \<Rightarrow> char \<Rightarrow> bool) \<Rightarrow> char \<Rightarrow> (OperatorToken \<times> string) option" where
  "scan_relation nx c =
    (if c = CHR ''='' then
       Some (if nx 1 CHR ''='' then (TOKEN_EQUALS_EQUALS, ''=='') else (TOKEN_EQUALS, ''=''))
     else if c = CHR ''!'' then
       Some (if nx 1 CHR ''='' then (TOKEN_NOT_EQUALS, ''!='') else (TOKEN_NOT, ''!''))
     else if c = CHR ''<'' then
       Some (if nx 1 CHR ''='' then (TOKEN_LESS_EQUALS, ''<='')
             else if nx 1 CHR ''<'' then
               (if nx 2 CHR ''='' then (TOKEN_LSHIFT_EQUALS, ''<<='') else (TOKEN_LSHIFT, ''<<''))
             else (TOKEN_LESS_THAN, ''<''))
     else if c = CHR ''>'' then
       Some (if nx 1 CHR ''='' then (TOKEN_GREATER_EQUALS, ''>='')
             else if nx 1 CHR ''>'' then
               (if nx 2 CHR ''='' then (TOKEN_RSHIFT_EQUALS, ''>>='') else (TOKEN_RSHIFT, ''>>''))
             else (TOKEN_GREATER_THAN, ''>''))
     else None)"

definition scan_arith :: "(nat \<Rightarrow> char \<Rightarrow> bool) \<Rightarrow> char \<Rightarrow> (OperatorToken \<times> string) option" where
  "scan_arith nx c =
    (if c = CHR ''+'' then
       Some (if nx 1 CHR ''='' then (TOKEN_PLUS_EQUALS, ''+='')
             else if nx 1 CHR ''+'' then (TOKEN_PLUS_PLUS, ''++'') else (TOKEN_PLUS, ''+''))
     else if c = CHR ''*'' then
       Some (if nx 1 CHR ''='' then (TOKEN_STAR_EQUALS, ''*='') else (TOKEN_MULTIPLY, ''*''))
     else if c = CHR ''&'' then
       Some (if nx 1 CHR ''&'' then (TOKEN_AND_AND, ''&&'')
             else if nx 1 CHR ''='' then (TOKEN_AMP_EQUALS, ''&='') else (TOKEN_AMPERSAND, ''&''))
     else if c = CHR ''|'' then
       Some (if nx 1 CHR ''|'' then (TOKEN_OR_OR, ''||'')
             else if nx 1 CHR ''='' then (TOKEN_PIPE_EQUALS, ''|='') else (TOKEN_PIPE, ''|''))
     else if c = CHR ''^'' then
       Some (if nx 1 CHR ''='' then (TOKEN_CARET_EQUALS, ''^='') else (TOKEN_CARET, ''^''))
     else if c = CHR ''/'' then
       Some (if nx 1 CHR ''='' then (TOKEN_SLASH_EQUALS, ''/='') else (TOKEN_DIVIDE, ''/''))
     else if c = CHR ''%'' then
       Some (if nx 1 CHR ''='' then (TOKEN_PERCENT_EQUALS, ''%='') else (TOKEN_PERCENT, ''%''))
     else if c = CHR ''.'' then
       Some (if nx 1 CHR ''.'' then (TOKEN_DOT_DOT, ''..'') else (TOKEN_DOT, ''.''))
     else if c = CHR ''-'' then
       Some (if nx 1 CHR ''>'' then (TOKEN_ARROW, ''->'')
             else if nx 1 CHR ''-'' then (TOKEN_MINUS_MINUS, ''--'')
             else if nx 1 CHR ''='' then (TOKEN_MINUS_EQUALS, ''-='') else (TOKEN_MINUS, ''-''))
     else None)"

definition scan_operator :: "(nat \<Rightarrow> char \<Rightarrow> bool) \<Rightarrow> char \<Rightarrow> (OperatorToken \<times> string) option" where
  "scan_operator nx c =
    (case scan_brackets c of Some r \<Rightarrow> Some r
     | None \<Rightarrow> (case scan_relation nx c of Some r \<Rightarrow> Some r | None \<Rightarrow> scan_arith nx c))"

definition depth_after :: "char \<Rightarrow> nat \<Rightarrow> nat" where
  "depth_after c d =
    (if c = CHR ''('' \<or> c = CHR ''['' then d + 1 else if c = CHR '')'' \<or> c = CHR '']'' then d - 1 else d)"

section \<open>The scanner\<close>

text \<open>The whitespace loop; \<open>True\<close> when it stops at a newline that ends the line.\<close>

definition continues :: "Lexer \<Rightarrow> bool" where
  "continues l \<longleftrightarrow> continuation_depth l > 0 \<or> lexer_token_continues_line (last_significant l)"

function skip_space :: "Lexer \<Rightarrow> bool \<times> Lexer" where
  "skip_space l =
    (if \<not> at_end l \<and> c_isspace (cur l) then
       (if cur l = CHR 0x0A then (if continues l then skip_space (newline l) else (True, l))
        else skip_space (bump 1 l))
     else (False, l))"
  by pat_completeness auto
termination by (relation "measure (\<lambda>l. lx_length l - lx_position l)") (auto simp: at_end_def)

declare skip_space.simps [simp del]

definition unknown_token :: "allocator \<Rightarrow> Lexer \<Rightarrow> intern_table \<Rightarrow> lex_result" where
  "unknown_token alloc l t =
    (let t1 = t\<lparr>it_allocs := it_allocs t + 1\<rparr>;
         tok = (new_token l)\<lparr>tok_type := TOKEN_ERROR\<rparr>
     in if allocate alloc 0 t \<noteq> None then
          (let m = ''Unknown character: '' @ [cur l]; (l', t') = lexer_set_error alloc (Some m) l t1
           in (tok\<lparr>tok_value := Heap m, tok_lexeme := InSource (lx_position l) 1\<rparr>, bump 1 l', t'))
        else
          (let m = ''Unknown character''; t2 = t1\<lparr>it_allocs := it_allocs t1 + 1\<rparr>;
               (l', t') = lexer_set_error alloc (Some m) l t2
           in ((if allocate alloc 0 t1 = None then tok else tok\<lparr>tok_value := Heap m, tok_lexeme := InValue (length m)\<rparr>),
               bump 1 l', t')))"

text \<open>What follows the whitespace and the comments, at a character that is not the end.\<close>

definition scan_lexeme :: "allocator \<Rightarrow> Lexer \<Rightarrow> intern_table \<Rightarrow> lex_result" where
  "scan_lexeme alloc l t =
    (case scan_operator (next_is l) (cur l) of
       Some (ty, txt) \<Rightarrow>
         ((new_token l)\<lparr>tok_type := Op ty, tok_value := Static txt, tok_lexeme := InSource (lx_position l) (length txt),
                         is_interned := True\<rparr>,
          (bump (length txt) l)\<lparr>continuation_depth := depth_after (cur l) (continuation_depth l)\<rparr>, t)
     | None \<Rightarrow>
         if cur l = CHR 0x27 then lexer_lex_char_literal alloc l t
         else if c_isdigit (cur l) \<or> (cur l = CHR ''0'' \<and>
             (next_is l 1 CHR ''x'' \<or> next_is l 1 CHR ''X'' \<or> next_is l 1 CHR ''b'' \<or> next_is l 1 CHR ''B''))
           then lexer_lex_number alloc l t
         else if c_isalpha (cur l) \<or> cur l = CHR ''_'' then lexer_lex_identifier_or_keyword alloc l t
         else if cur l = CHR 0x22 then lexer_lex_string_literal alloc l t
         else unknown_token alloc l t)"

text \<open>\<open>Inl\<close>: a comment was skipped and the result is that of \<open>lexer_next_token\<close> from there.\<close>

definition lexer_scan_token :: "allocator \<Rightarrow> Lexer \<Rightarrow> intern_table \<Rightarrow> Lexer + lex_result" where
  "lexer_scan_token alloc l0 t =
    (case skip_space l0 of (nl, l) \<Rightarrow>
       if nl then
         Inr ((new_token l0)\<lparr>tok_type := TOKEN_NEWLINE, tok_lexeme := InSource (lx_position l) 1\<rparr>, newline l, t)
       else if at_end l then Inr (new_token l0, l, t)
       else if cur l = CHR ''/'' \<and> next_is l 1 CHR ''/'' then Inl (lexer_skip_line_comment l)
       else if cur l = CHR ''/'' \<and> next_is l 1 CHR ''*'' then lexer_skip_block_comment alloc l t
       else Inr (scan_lexeme alloc l t))"

text \<open>The lexer only moves forward, over the same source, and not past its end.\<close>

definition moved :: "Lexer \<Rightarrow> Lexer \<Rightarrow> bool" where
  "moved l l' \<longleftrightarrow> lx_source l' = lx_source l \<and> lx_position l \<le> lx_position l' \<and>
     (lx_position l \<le> lx_length l \<longrightarrow> lx_position l' \<le> lx_length l')"

lemma moved_refl [simp]: "moved l l"
  by (simp add: moved_def)

lemma moved_trans: "moved l l' \<Longrightarrow> moved l' l'' \<Longrightarrow> moved l l''"
  by (auto simp: moved_def lx_length_def)

lemma moved_length: "moved l l' \<Longrightarrow> lx_length l' = lx_length l"
  by (simp add: moved_def lx_length_def)

lemma moved_bump: "lx_position l + n \<le> lx_length l \<Longrightarrow> moved l (bump n l)"
  by (simp add: moved_def)

lemma moved_bump1: "\<not> at_end l \<Longrightarrow> moved l (bump 1 l)"
  by (simp add: moved_def at_end_def)

lemma moved_newline: "\<not> at_end l \<Longrightarrow> moved l (newline l)"
  by (simp add: moved_def at_end_def)

lemma advance_while_moved: "moved l (advance_while P l)"
proof (induction P l rule: advance_while.induct)
  case (1 P l)
  then show ?case using moved_bump1 [of l] moved_trans by (subst advance_while.simps) auto
qed

lemma block_loop_moved: "block_loop d l = (d', l') \<Longrightarrow> moved l l'"
proof (induction d l rule: block_loop.induct)
  case (1 d l)
  show ?case
  proof (cases "\<not> at_end l \<and> d > 0")
    case False
    then have "block_loop d l = (d, l)" by (simp only: block_loop.simps [of d l] if_False)
    then show ?thesis using "1.prems" by simp
  next
    case True
    have "next_is l 1 c \<Longrightarrow> moved l (bump 2 l)" for c by (rule moved_bump) (simp add: next_is_def)
    then show ?thesis using "1.IH" "1.prems" True moved_bump1 [of l] moved_newline [of l]
      by (subst (asm) block_loop.simps) (auto split: if_splits intro: moved_trans)
  qed
qed

lemma skip_space_moved: "skip_space l = (nl, l') \<Longrightarrow> moved l l' \<and> (nl \<longrightarrow> \<not> at_end l' \<and> cur l' = CHR 0x0A)"
proof (induction l rule: skip_space.induct)
  case (1 l)
  then show ?case using moved_bump1 [of l] moved_newline [of l]
    by (subst (asm) (3) skip_space.simps) (auto split: if_splits intro: moved_trans)
qed

lemma scan_comment_moves:
  assumes "lexer_scan_token alloc l t = Inl l'"
  shows "moved l l' \<and> lx_position l < lx_position l' \<and> lx_position l < lx_length l"
proof -
  obtain nl l1 where s: "skip_space l = (nl, l1)" by fastforce
  have m: "moved l l1" using skip_space_moved [OF s] by simp
  have n: "next_is l1 1 CHR ''/'' \<or> next_is l1 1 CHR ''*''"
    and l': "l' = lexer_skip_line_comment l1 \<or> (\<exists>d. block_loop 1 (bump 2 l1) = (d, l'))"
    using assms s by (auto simp: lexer_scan_token_def lexer_skip_block_comment_def split: if_splits prod.splits)
  then have b: "lx_position l1 + 2 \<le> lx_length l1" by (auto simp: next_is_def)
  have "moved (bump 2 l1) l'" using l' advance_while_moved block_loop_moved by (auto simp: lexer_skip_line_comment_def)
  then show ?thesis using m b moved_bump [OF b] moved_trans [of l1 "bump 2 l1" l'] moved_trans [of l l1 l']
    moved_length [OF m] by (auto simp: moved_def)
qed

function lexer_next_token :: "allocator \<Rightarrow> Lexer \<Rightarrow> intern_table \<Rightarrow> lex_result" where
  "lexer_next_token alloc l t =
    (case (case lexer_scan_token alloc l t of Inr r \<Rightarrow> r | Inl l1 \<Rightarrow> lexer_next_token alloc l1 t) of
       (tok, l', t') \<Rightarrow>
         (tok, if tok_type tok \<noteq> TOKEN_NEWLINE then l'\<lparr>last_significant := tok_type tok\<rparr> else l', t'))"
  by pat_completeness auto
termination
proof (relation "measure (\<lambda>(_, l, _). lx_length l - lx_position l)")
  fix alloc l t l1 assume "lexer_scan_token alloc l t = Inl l1"
  note sc = scan_comment_moves [OF this]
  then have "lx_length l1 = lx_length l" using moved_length by blast
  then show "((alloc, l1, t), (alloc, l, t)) \<in> measure (\<lambda>(_, l, _). lx_length l - lx_position l)"
    using sc by (simp add: diff_less_mono2)
qed simp

declare lexer_next_token.simps [simp del]

definition lexer_peek_token :: "allocator \<Rightarrow> Lexer \<Rightarrow> intern_table \<Rightarrow> lex_result" where
  "lexer_peek_token alloc l t =
    (case lexer_next_token alloc l t of
       (tok, l', t') \<Rightarrow>
         (tok, l'\<lparr>lx_position := lx_position l, lx_line := lx_line l, lx_column := lx_column l,
                  continuation_depth := continuation_depth l, last_significant := last_significant l\<rparr>, t'))"

section \<open>Tokens by hand\<close>

text \<open>The result is the token and the heap block freed, if any.\<close>

definition token_destroy :: "Token \<Rightarrow> Token \<times> string option" where
  "token_destroy tok =
    (let tok' = tok\<lparr>tok_lexeme := NoView\<rparr>
     in case tok_value tok of
          NoValue \<Rightarrow> (tok', None)
        | Heap s \<Rightarrow> (tok'\<lparr>tok_value := NoValue, is_interned := False\<rparr>, if is_interned tok then None else Some s)
        | _ \<Rightarrow> (tok'\<lparr>tok_value := NoValue, is_interned := False\<rparr>, None))"

text \<open>Only a heap value is copied: \<open>strlen\<close> bytes, or the length of the lexeme when it views the value and is longer.\<close>

definition token_clone :: "allocator \<Rightarrow> Token option \<Rightarrow> intern_table \<Rightarrow> Token \<times> intern_table" where
  "token_clone alloc token t =
    (case token of
       None \<Rightarrow> (\<lparr>tok_type = TOKEN_EOF, tok_value = NoValue, tok_lexeme = NoView, tok_line = 0, tok_column = 0,
                 is_interned = False\<rparr>, t)
     | Some tok \<Rightarrow>
         (case tok_value tok of
            Heap s \<Rightarrow>
              if is_interned tok then (tok, t)
              else let n = length (c_string s);
                       bytes = (case tok_lexeme tok of InValue k \<Rightarrow> if k > n then k else n | _ \<Rightarrow> n);
                       t' = t\<lparr>it_allocs := it_allocs t + 1\<rparr>
                   in if allocate alloc 0 t = None
                      then (tok\<lparr>tok_type := TOKEN_ERROR, tok_value := NoValue, is_interned := False, tok_lexeme := NoView\<rparr>, t')
                      else (tok\<lparr>tok_value := Heap (take bytes s)\<rparr>, t')
          | _ \<Rightarrow> (tok, t)))"

end
