(* ===== verification/LexerCorrect.thy ===== *)
theory LexerCorrect
  imports Lexer
begin

text \<open>
  Correctness of the lexer: every call moves forward and ends, tokens spell the slice of the source they
  stand for, strings are decoded within their buffer, and peeking announces the next token.
\<close>

section \<open>Well-formed results\<close>

text \<open>Heap values and only they are owned by the token.\<close>

definition tok_wf :: "Token \<Rightarrow> bool" where
  "tok_wf tok \<longleftrightarrow> (is_interned tok \<longleftrightarrow> (\<exists>s. tok_value tok = Static s) \<or> (\<exists>a. tok_value tok = Interned a))"

text \<open>Same place, whatever the error fields.\<close>

definition same_place :: "Lexer \<Rightarrow> Lexer \<Rightarrow> bool" where
  "same_place l l' \<longleftrightarrow> (\<exists>e h. l' = l\<lparr>error_message := e, has_error := h\<rparr>)"

lemma same_place_sel:
  "same_place l l' \<Longrightarrow> lx_position l' = lx_position l" "same_place l l' \<Longrightarrow> lx_source l' = lx_source l"
  "same_place l l' \<Longrightarrow> lx_line l' = lx_line l"
  by (auto simp: same_place_def)

lemma set_error_place: "lexer_set_error alloc m l t = (l', t') \<Longrightarrow> same_place l l' \<and> interned t' = interned t"
  by (auto simp: lexer_set_error_def same_place_def split: option.splits)

lemma set_error_sel [simp]:
  "lx_position (fst (lexer_set_error alloc m l t)) = lx_position l" "lx_source (fst (lexer_set_error alloc m l t)) = lx_source l"
  "lx_line (fst (lexer_set_error alloc m l t)) = lx_line l" "lx_length (fst (lexer_set_error alloc m l t)) = lx_length l"
  by (simp_all add: lexer_set_error_def lx_length_def split: option.split)

lemma error_token_result:
  assumes "error_token alloc msg tok l t = (tok', l', t')"
  shows "same_place l l'" "tok_type tok' = TOKEN_ERROR" "tok_lexeme tok' = tok_lexeme tok"
    "is_interned tok' = is_interned tok" "tok_value tok' = NoValue \<or> tok_value tok' = Heap msg"
proof -
  let ?d = "if allocate alloc 0 t = None then None else Some msg"
  obtain l1 t1 where e: "lexer_set_error alloc ?d l (t\<lparr>it_allocs := it_allocs t + 1\<rparr>) = (l1, t1)" by fastforce
  have r: "tok' = tok\<lparr>tok_type := TOKEN_ERROR, tok_value := (case ?d of None \<Rightarrow> NoValue | Some m \<Rightarrow> Heap m)\<rparr>" "l' = l1"
    using assms unfolding error_token_def Let_def e by simp_all
  show "same_place l l'" using set_error_place [OF e] r(2) by simp
  show "tok_type tok' = TOKEN_ERROR" "tok_lexeme tok' = tok_lexeme tok"
    "is_interned tok' = is_interned tok" "tok_value tok' = NoValue \<or> tok_value tok' = Heap msg"
    by (simp_all add: r(1))
qed

text \<open>What scanning one lexeme at \<open>l\<close> promises.\<close>

definition lexeme_ok :: "Lexer \<Rightarrow> lex_result \<Rightarrow> bool" where
  "lexeme_ok l r \<longleftrightarrow>
    (case r of (tok, l', t') \<Rightarrow>
       moved l l' \<and> lx_position l < lx_position l' \<and> tok_type tok \<noteq> TOKEN_EOF \<and> tok_type tok \<noteq> TOKEN_NEWLINE \<and>
       tok_wf tok \<and>
       (case tok_lexeme tok of
          InSource s n \<Rightarrow> s = lx_position l \<and> s + n = lx_position l'
        | InValue n \<Rightarrow> (\<exists>v. tok_value tok = Heap v \<and> length v = n)
        | NoView \<Rightarrow> tok_type tok = TOKEN_ERROR))"

lemma new_token_sel [simp]:
  "tok_type (new_token l) = TOKEN_EOF" "tok_value (new_token l) = NoValue" "tok_lexeme (new_token l) = NoView"
  "is_interned (new_token l) = False" "tok_line (new_token l) = lx_line l" "tok_column (new_token l) = lx_column l"
  by (simp_all add: new_token_def)

lemma error_lexeme_ok:
  assumes "moved l l1" "lx_position l < lx_position l1"
  shows "lexeme_ok l (error_token alloc msg (new_token l) l1 t)"
proof -
  obtain tok' l' t' where e: "error_token alloc msg (new_token l) l1 t = (tok', l', t')" by (metis prod_cases3)
  note r = error_token_result [OF e]
  have "moved l l'" "lx_position l < lx_position l'"
    using assms same_place_sel [OF r(1)] by (auto simp: moved_def lx_length_def)
  then show ?thesis using r(2-) unfolding e by (auto simp: lexeme_ok_def tok_wf_def)
qed

lemma bump_1_1: "bump 1 (bump 1 l) = bump 2 l"
  by (simp add: numeral_2_eq_2)

lemma char_close_ok:
  assumes "moved l l1" "lx_position l < lx_position l1" "\<not> at_end l1"
  shows "lexeme_ok l (char_close alloc (lx_position l) v (new_token l) l1 t)"
proof -
  let ?l2 = "bump 1 l1"
  have m2: "moved l ?l2" "lx_position l < lx_position ?l2"
    using assms moved_trans moved_bump1 by (auto simp: moved_def)
  show ?thesis
  proof (cases "at_end ?l2 \<or> cur ?l2 \<noteq> CHR 0x27")
    case True
    then show ?thesis using error_lexeme_ok [OF m2] by (simp add: char_close_def Let_def)
  next
    case False
    then have m3: "moved l (bump 2 l1)" "lx_position l < lx_position (bump 2 l1)"
      using m2(2) moved_trans [OF m2(1) moved_bump1 [of ?l2]] unfolding bump_1_1 by simp_all
    let ?t = "t\<lparr>it_allocs := it_allocs t + 1\<rparr>"
    have "char_close alloc (lx_position l) v (new_token l) l1 t =
        (if allocate alloc 0 t = None then error_token alloc ''Memory allocation failed'' (new_token l) (bump 2 l1) ?t
         else ((new_token l)\<lparr>tok_type := TOKEN_NUMBER, tok_value := Heap (decimal (of_char v)),
                 tok_lexeme := InSource (lx_position l) (lx_position (bump 2 l1) - lx_position l)\<rparr>, bump 2 l1, ?t))"
      using False unfolding char_close_def Let_def bump_1_1 by (simp only: if_False)
    moreover have "lexeme_ok l ((new_token l)\<lparr>tok_type := TOKEN_NUMBER, tok_value := Heap (decimal (of_char v)),
                 tok_lexeme := InSource (lx_position l) (lx_position (bump 2 l1) - lx_position l)\<rparr>, bump 2 l1, ?t)"
      using m3 by (simp add: lexeme_ok_def tok_wf_def)
    ultimately show ?thesis using error_lexeme_ok [OF m3] by simp
  qed
qed

lemma char_literal_ok:
  assumes "\<not> at_end l" shows "lexeme_ok l (lexer_lex_char_literal alloc l t)"
proof -
  have m1: "moved l (bump 1 l)" "lx_position l < lx_position (bump 1 l)" using moved_bump1 [OF assms] by simp_all
  have m2: "moved l (bump 2 l)" "lx_position l < lx_position (bump 2 l)" if "\<not> at_end (bump 1 l)"
    using moved_trans [OF m1(1) moved_bump1 [OF that]] unfolding bump_1_1 by simp_all
  show ?thesis unfolding lexer_lex_char_literal_def Let_def bump_1_1
    using error_lexeme_ok [OF m1] error_lexeme_ok [OF m2] char_close_ok [OF m1] char_close_ok [OF m2]
    by (simp only: split: if_split option.split) blast
qed

lemma advance_while_first: "\<not> at_end l \<Longrightarrow> P l \<Longrightarrow> moved l (advance_while P l) \<and> lx_position l < lx_position (advance_while P l)"
  using advance_while_moved [of "bump 1 l" P] advance_while_moved [of l P]
  by (subst (2) advance_while.simps) (auto simp: moved_def)

lemma exponent_moved: "moved l (lex_exponent l)"
proof -
  have "moved l (advance_while P (bump n l))" if "lx_position l + n < lx_length l" for n P
    using that moved_trans [OF moved_bump [of l n] advance_while_moved [of "bump n l" P]] by simp
  then show ?thesis by (auto simp: lex_exponent_def Let_def)
qed

lemma digits_moved:
  assumes "\<not> at_end l" "c_isdigit (cur l)"
  shows "case lex_digits l of Inl (m, l') \<Rightarrow> moved l l' \<and> lx_position l < lx_position l' | Inr l' \<Rightarrow> moved l l' \<and> lx_position l < lx_position l'"
proof -
  have a: "moved l (advance_while P (bump 2 l)) \<and> lx_position l < lx_position (advance_while P (bump 2 l))" if "next_is l 1 c" for P c
  proof -
    have b: "moved l (bump 2 l)" using that by (intro moved_bump) (simp add: next_is_def)
    show ?thesis using moved_trans [OF b advance_while_moved [of "bump 2 l" P]] advance_while_moved [of "bump 2 l" P] by (auto simp: moved_def)
  qed
  let ?P = "\<lambda>l. c_isdigit (cur l) \<or> (cur l = CHR ''.'' \<and> \<not> next_is l 1 CHR ''.'')"
  have "moved l (advance_while ?P l)" "lx_position l < lx_position (advance_while ?P l)"
    using advance_while_first [of l ?P] assms by simp_all
  then have d: "moved l (lex_exponent (advance_while ?P l)) \<and> lx_position l < lx_position (lex_exponent (advance_while ?P l))"
    using moved_trans exponent_moved [of "advance_while ?P l"] by (auto simp: moved_def)
  show ?thesis unfolding lex_digits_def Let_def using a d by (auto split: sum.splits)
qed

lemma number_ok:
  assumes "\<not> at_end l" "c_isdigit (cur l)" shows "lexeme_ok l (lexer_lex_number alloc l t)"
proof (cases "lex_digits l")
  case (Inl r)
  then show ?thesis using digits_moved [OF assms] error_lexeme_ok by (cases r) (simp add: lexer_lex_number_def)
next
  case (Inr l')
  then have m: "moved l l'" "lx_position l < lx_position l'" using digits_moved [OF assms] by simp_all
  then show ?thesis using Inr error_lexeme_ok [OF m]
    by (auto simp: lexer_lex_number_def Let_def lexeme_ok_def tok_wf_def)
qed

text \<open>A word is an identifier or one of the words of the two tables.\<close>

definition word_kind :: "TokenType \<Rightarrow> bool" where
  "word_kind ty \<longleftrightarrow> ty \<noteq> TOKEN_EOF \<and> ty \<noteq> TOKEN_NEWLINE \<and> ty \<noteq> TOKEN_ERROR"

lemma word_tables_kinds: "list_all (word_kind \<circ> snd) g_lex_keywords" "list_all (word_kind \<circ> snd) g_lex_asm_words"
  by code_simp+

lemma map_of_kind: "map_of xs k = Some t \<Longrightarrow> list_all (word_kind \<circ> snd) xs \<Longrightarrow> word_kind t"
  by (auto simp: list_all_iff dest!: map_of_SomeD)

lemma classify_word_kind: "word_kind (classify_word w)"
proof -
  have i: "word_kind TOKEN_IDENTIFIER" by (simp add: word_kind_def)
  have "word_kind (lex_lookup_word g_lex_keywords g_lex_keywords_span w False)"
    "word_kind (lex_lookup_word g_lex_asm_words g_lex_asm_words_span w True)"
    using map_of_kind word_tables_kinds i
    by (auto simp: kw_words.lookup_correct asm_words.lookup_correct split: option.splits)
  then show ?thesis by (simp add: classify_word_def Let_def)
qed

lemma word_ok:
  assumes "\<not> at_end l" "c_isalpha (cur l) \<or> cur l = CHR ''_''"
  shows "lexeme_ok l (lexer_lex_identifier_or_keyword alloc l t)"
proof -
  let ?P = "\<lambda>l. c_isalnum (cur l) \<or> cur l = CHR ''_''" and ?l = "advance_while (\<lambda>l. c_isalnum (cur l) \<or> cur l = CHR ''_'') l"
  have m: "moved l ?l" "lx_position l < lx_position ?l"
    using advance_while_first [of l ?P] assms by (auto simp: c_isalnum_def)
  note k = classify_word_kind [unfolded word_kind_def]
  obtain r t' where i: "string_intern_n alloc (Some (slice ?l (lx_position l) (lx_position ?l - lx_position l))) t = (r, t')" by fastforce
  show ?thesis
  proof (cases r)
    case None
    then show ?thesis using error_lexeme_ok [OF m] i by (simp add: lexer_lex_identifier_or_keyword_def Let_def)
  next
    case (Some a)
    then show ?thesis using m k i by (simp add: lexer_lex_identifier_or_keyword_def Let_def lexeme_ok_def tok_wf_def)
  qed
qed


text \<open>The body of a string: forward, within the source, and the buffer never holds more bytes than were read.\<close>

lemma body_moves:
  "lexer_read_string_body aware b = (closed, b') \<Longrightarrow>
   moved (bs_lexer b) (bs_lexer b') \<and> lx_line (bs_lexer b') = lx_line (bs_lexer b) \<and> (closed \<longleftrightarrow> \<not> at_end (bs_lexer b')) \<and>
   length (bs_buffer b') + lx_position (bs_lexer b) \<le> length (bs_buffer b) + lx_position (bs_lexer b')"
proof (induction aware b rule: lexer_read_string_body.induct)
  case (1 aware b)
  show ?case
  proof (cases "body_stops aware b")
    case True
    then have "closed = (\<not> at_end (bs_lexer b))" "b' = b" using "1.prems" by (auto simp: lexer_read_string_body.simps)
    then show ?thesis by simp
  next
    case False
    then have "\<not> at_end (bs_lexer b)" by (simp add: body_stops_def)
    then obtain n where n: "bs_lexer (body_round aware b) = bump n (bs_lexer b)"
      "lx_position (bs_lexer b) + n \<le> lx_length (bs_lexer b)" "length (bs_buffer (body_round aware b)) \<le> length (bs_buffer b) + n"
      using body_round_moves [of b aware] by metis
    have "lexer_read_string_body aware (body_round aware b) = (closed, b')"
      using "1.prems" False by (simp add: lexer_read_string_body.simps [of aware b])
    from "1.IH" [OF False this] show ?thesis using n moved_trans [OF moved_bump [OF n(2)]] by auto
  qed
qed

lemma body_start_sel [simp]: "bs_lexer (body_start l) = l" "bs_buffer (body_start l) = []" "bs_depth (body_start l) = 0"
  "bs_nested (body_start l) = False" "bs_bad (body_start l) = 0"
  by (simp_all add: body_start_def)

text \<open>The reading that counts: the first one, or the second when the first finds no end.\<close>

definition string_reading :: "Lexer \<Rightarrow> body_state" where
  "string_reading l =
    (case lexer_read_string_body True (body_start l) of
       (closed, b) \<Rightarrow> if closed then b else snd (lexer_read_string_body False (body_start l)))"

lemma string_reading_moves:
  "moved l (bs_lexer (string_reading l))" "lx_line (bs_lexer (string_reading l)) = lx_line l"
  "length (bs_buffer (string_reading l)) + lx_position l \<le> lx_position (bs_lexer (string_reading l))"
  using body_moves [of True "body_start l"] body_moves [of False "body_start l"]
  by (cases "lexer_read_string_body True (body_start l)"; cases "lexer_read_string_body False (body_start l)";
      simp add: string_reading_def)+

lemma string_literal_unfold:
  "lexer_lex_string_literal alloc l t =
    (let b = string_reading (bump 1 l); t' = t\<lparr>it_allocs := it_allocs t + 1\<rparr>
     in if allocate alloc 0 t = None then error_token alloc ''Memory allocation failed'' (new_token l) (bump 1 l) t'
        else if at_end (bs_lexer b) then error_token alloc ''Unterminated string literal'' (new_token l) (bs_lexer b) t'
        else if bs_bad b \<noteq> 0 then error_token alloc ''Invalid string escape sequence'' (new_token l) (bump 1 (bs_lexer b)) t'
        else ((new_token l)\<lparr>tok_type := TOKEN_STRING, tok_value := Heap (bs_buffer b),
                 tok_lexeme := InValue (length (bs_buffer b))\<rparr>, bump 1 (bs_lexer b), t'))"
  by (simp add: lexer_lex_string_literal_def string_reading_def Let_def split: prod.splits)

lemma string_ok:
  assumes "\<not> at_end l" shows "lexeme_ok l (lexer_lex_string_literal alloc l t)"
proof -
  let ?b = "string_reading (bump 1 l)"
  have m1: "moved l (bump 1 l)" "lx_position l < lx_position (bump 1 l)" using moved_bump1 [OF assms] by simp_all
  have m2: "moved l (bs_lexer ?b)" "lx_position l < lx_position (bs_lexer ?b)"
    using moved_trans [OF m1(1) string_reading_moves(1)] string_reading_moves(1) [of "bump 1 l"] by (auto simp: moved_def)
  have m3: "moved l (bump 1 (bs_lexer ?b))" "lx_position l < lx_position (bump 1 (bs_lexer ?b))" if "\<not> at_end (bs_lexer ?b)"
    using moved_trans [OF m2(1) moved_bump1 [OF that]] m2(2) by simp_all
  show ?thesis unfolding string_literal_unfold Let_def
    using error_lexeme_ok [OF m1] error_lexeme_ok [OF m2] error_lexeme_ok [OF m3] m3
    by (simp add: lexeme_ok_def [of l "(_\<lparr>tok_type := _, tok_value := _, tok_lexeme := _\<rparr>, _)"] tok_wf_def)
qed

text \<open>Operators: the text of the token is the slice it covers.\<close>

lemma slice_nth:
  "lx_position l + n \<le> lx_length l \<Longrightarrow> slice l (lx_position l) n = map (\<lambda>i. lx_source l ! (lx_position l + i)) [0..<n]"
  by (rule nth_equalityI) (simp_all add: slice_def lx_length_def)

lemma slice_1: "\<not> at_end l \<Longrightarrow> slice l (lx_position l) 1 = [cur l]"
  by (subst slice_nth) (simp_all add: at_end_def cur_def)

lemma slice_2: "next_is l 1 d \<Longrightarrow> slice l (lx_position l) 2 = [cur l, d]"
  by (subst slice_nth) (simp_all add: next_is_def cur_def numeral_2_eq_2)

lemma slice_3: "next_is l 1 d \<Longrightarrow> next_is l 2 e \<Longrightarrow> slice l (lx_position l) 3 = [cur l, d, e]"
  by (subst slice_nth) (simp_all add: next_is_def cur_def numeral_3_eq_3)

lemma next_is_less: "next_is l k c \<Longrightarrow> lx_position l + k < lx_length l"
  by (simp add: next_is_def)

definition spelled :: "Lexer \<Rightarrow> string \<Rightarrow> bool" where
  "spelled l txt \<longleftrightarrow> 0 < length txt \<and> lx_position l + length txt \<le> lx_length l \<and> slice l (lx_position l) (length txt) = txt"

lemma spelled_1: "\<not> at_end l \<Longrightarrow> cur l = c \<Longrightarrow> spelled l [c]"
  using slice_1 [of l] by (simp add: spelled_def at_end_def)

lemma spelled_2: "next_is l 1 d \<Longrightarrow> cur l = c \<Longrightarrow> spelled l [c, d]"
  using slice_2 [of l d] next_is_less [of l 1 d] by (simp add: spelled_def numeral_2_eq_2)

lemma spelled_3: "next_is l 1 d \<Longrightarrow> next_is l 2 e \<Longrightarrow> cur l = c \<Longrightarrow> spelled l [c, d, e]"
  using slice_3 [of l d e] next_is_less [of l 2 e] by (simp add: spelled_def numeral_3_eq_3)

definition spells :: "Lexer \<Rightarrow> (OperatorToken \<times> string) option \<Rightarrow> bool" where
  "spells l r \<longleftrightarrow> (case r of None \<Rightarrow> True | Some (ty, txt) \<Rightarrow> spelled l txt)"

lemma spells_simps: "spells l None" "spells l (Some (ty, txt)) = spelled l txt"
  by (simp_all add: spells_def)

lemma spells_if: "(P \<Longrightarrow> spells l a) \<Longrightarrow> (\<not> P \<Longrightarrow> spells l b) \<Longrightarrow> spells l (if P then a else b)"
  by simp

lemma spells_if_Some: "(P \<Longrightarrow> spells l (Some a)) \<Longrightarrow> (\<not> P \<Longrightarrow> spells l (Some b)) \<Longrightarrow> spells l (Some (if P then a else b))"
  by simp

lemma spells_1: "cur l = c \<Longrightarrow> \<not> at_end l \<Longrightarrow> spells l (Some (ty, [c]))"
  by (simp add: spells_simps spelled_1)

lemma spells_2: "next_is l 1 d \<Longrightarrow> cur l = c \<Longrightarrow> spells l (Some (ty, [c, d]))"
  by (simp add: spells_simps spelled_2)

lemma spells_3: "next_is l 2 e \<Longrightarrow> next_is l 1 d \<Longrightarrow> cur l = c \<Longrightarrow> spells l (Some (ty, [c, d, e]))"
  by (simp add: spells_simps spelled_3)

lemmas spells_rules = spells_if spells_if_Some spells_simps(1) spells_1 spells_2 spells_3

lemma scan_spells:
  assumes e: "\<not> at_end l"
  shows "spells l (scan_brackets (cur l))" "spells l (scan_relation (next_is l) (cur l))" "spells l (scan_arith (next_is l) (cur l))"
  unfolding scan_brackets_def scan_relation_def scan_arith_def by (rule spells_rules | assumption | rule e)+

lemma scan_operator_spells:
  assumes "scan_operator (next_is l) (cur l) = Some (ty, txt)" and e: "\<not> at_end l"
  shows "spelled l txt"
  using assms(1) scan_spells [OF e] by (auto simp: scan_operator_def spells_def split: option.splits)

lemma lexeme_scanned:
  assumes e: "\<not> at_end l" shows "lexeme_ok l (scan_lexeme alloc l t)"
proof (cases "scan_operator (next_is l) (cur l)")
  case (Some r)
  obtain ty tx where r: "r = (ty, tx)" by fastforce
  have sp: "spelled l tx" using scan_operator_spells [OF Some [unfolded r] e] .
  then have "moved l ((bump (length tx) l)\<lparr>continuation_depth := d\<rparr>)" for d by (simp add: moved_def spelled_def lx_length_def)
  then show ?thesis using Some r sp
    by (simp add: scan_lexeme_def lexeme_ok_def tok_wf_def spelled_def)
next
  case None
  have m1: "moved l (bump 1 l)" "lx_position l < lx_position (bump 1 l)" using moved_bump1 [OF e] by simp_all
  have u: "lexeme_ok l (unknown_token alloc l t)"
    using e unfolding unknown_token_def Let_def case_prod_unfold
    by (simp add: lexeme_ok_def tok_wf_def moved_def at_end_def)
  have "c_isdigit CHR ''0''" by code_simp
  then have z: "c_isdigit (cur l)" if "c_isdigit (cur l) \<or> cur l = CHR ''0'' \<and> X" for X using that by metis
  have br: "(P \<Longrightarrow> lexeme_ok l a) \<Longrightarrow> (\<not> P \<Longrightarrow> lexeme_ok l b) \<Longrightarrow> lexeme_ok l (if P then a else b)" for P a b by simp
  show ?thesis unfolding scan_lexeme_def None option.case
    by (rule br u char_literal_ok [OF e] number_ok [OF e z] word_ok [OF e] string_ok [OF e] | assumption)+
qed

section \<open>Progress\<close>

text \<open>What a call of \<open>lexer_next_token\<close> promises.\<close>

definition next_ok :: "Lexer \<Rightarrow> lex_result \<Rightarrow> bool" where
  "next_ok l r \<longleftrightarrow>
    (case r of (tok, l', t') \<Rightarrow> moved l l' \<and> tok_wf tok \<and>
       (if tok_type tok = TOKEN_EOF then at_end l' else lx_position l < lx_position l') \<and>
       (case tok_lexeme tok of
          InSource s n \<Rightarrow> lx_position l \<le> s \<and> s + n = lx_position l'
        | InValue n \<Rightarrow> (\<exists>v. tok_value tok = Heap v \<and> length v = n)
        | NoView \<Rightarrow> tok_type tok = TOKEN_ERROR \<or> tok_type tok = TOKEN_EOF))"

lemma lexeme_next_ok: "moved l l1 \<Longrightarrow> lexeme_ok l1 r \<Longrightarrow> next_ok l r"
  by (auto simp: lexeme_ok_def next_ok_def moved_def lx_length_def split: prod.splits StringView.splits)

lemma next_ok_moved: "moved l l1 \<Longrightarrow> next_ok l1 r \<Longrightarrow> next_ok l r"
  by (auto simp: next_ok_def moved_def lx_length_def split: prod.splits StringView.splits if_splits)

lemma scan_token_ok:
  assumes "lexer_scan_token alloc l t = Inr r" "lx_position l \<le> lx_length l" shows "next_ok l r"
proof -
  obtain nl l1 where s: "skip_space l = (nl, l1)" by fastforce
  have m: "moved l l1" and n: "nl \<Longrightarrow> \<not> at_end l1" using skip_space_moved [OF s] by auto
  have l1: "lx_position l1 \<le> lx_length l1" using m assms(2) by (simp add: moved_def)
  have b: "lexeme_ok l1 (error_token alloc msg (new_token l1) l2 t)"
    if "next_is l1 1 CHR ''*''" "block_loop 1 (bump 2 l1) = (d, l2)" for msg d l2
  proof -
    have mb: "moved l1 (bump 2 l1)" using that(1) by (intro moved_bump) (simp add: next_is_def)
    then have "moved l1 l2" "lx_position l1 < lx_position l2"
      using moved_trans [OF mb block_loop_moved [OF that(2)]] block_loop_moved [OF that(2)] by (auto simp: moved_def)
    then show ?thesis by (rule error_lexeme_ok)
  qed
  consider (nl) "nl" "r = ((new_token l)\<lparr>tok_type := TOKEN_NEWLINE, tok_lexeme := InSource (lx_position l1) 1\<rparr>, newline l1, t)"
    | (eof) "at_end l1" "r = (new_token l, l1, t)"
    | (block) d l2 where "next_is l1 1 CHR ''*''" "block_loop 1 (bump 2 l1) = (d, l2)"
        "r = error_token alloc ''Unterminated block comment'' (new_token l1) l2 t"
    | (lexeme) "\<not> at_end l1" "r = scan_lexeme alloc l1 t"
    using assms(1) s unfolding lexer_scan_token_def lexer_skip_block_comment_def
    by (auto split: if_splits prod.splits)
  then show ?thesis
  proof cases
    case nl
    then show ?thesis using m n by (simp add: next_ok_def tok_wf_def moved_def at_end_def lx_length_def)
  next
    case eof then show ?thesis using m by (simp add: next_ok_def tok_wf_def)
  next
    case block then show ?thesis using b lexeme_next_ok [OF m] by simp
  next
    case lexeme then show ?thesis using lexeme_next_ok [OF m lexeme_scanned] by simp
  qed
qed

lemma next_token_ok: "lx_position l \<le> lx_length l \<Longrightarrow> next_ok l (lexer_next_token alloc l t)"
proof (induction alloc l t rule: lexer_next_token.induct)
  case (1 alloc l t)
  have keep: "next_ok l (tok, l', t')" if "next_ok l (tok, l'', t')" "l' = l'' \<or> l' = l''\<lparr>last_significant := ty\<rparr>" for tok l' l'' t' ty
    using that by (auto simp: next_ok_def moved_def lx_length_def at_end_def split: StringView.splits)
  have "next_ok l (case lexer_scan_token alloc l t of Inr r \<Rightarrow> r | Inl l1 \<Rightarrow> lexer_next_token alloc l1 t)"
  proof (cases "lexer_scan_token alloc l t")
    case (Inl l1)
    have "moved l l1" using scan_comment_moves [OF Inl] by simp
    then show ?thesis using "1.IH" [OF Inl] "1.prems" Inl next_ok_moved by (simp add: moved_def)
  qed (simp add: scan_token_ok "1.prems")
  then show ?case unfolding lexer_next_token.simps [of alloc l t]
    by (auto split: prod.splits intro: keep)
qed


section \<open>Reachable lexers\<close>

inductive lex_reach :: "allocator \<Rightarrow> Lexer \<Rightarrow> intern_table \<Rightarrow> bool" for alloc where
  reach_create: "lexer_create alloc src t0 = (Some l, t) \<Longrightarrow> intern_reach alloc t0 \<Longrightarrow> lex_reach alloc l t"
| reach_next: "lex_reach alloc l t \<Longrightarrow> lexer_next_token alloc l t = (tok, l', t') \<Longrightarrow> lex_reach alloc l' t'"
| reach_peek: "lex_reach alloc l t \<Longrightarrow> lexer_peek_token alloc l t = (tok, l', t') \<Longrightarrow> lex_reach alloc l' t'"
| reach_error: "lex_reach alloc l t \<Longrightarrow> lexer_set_error alloc m l t = (l', t') \<Longrightarrow> lex_reach alloc l' t'"

lemma next_token_sel:
  assumes "lexer_next_token alloc l t = (tok, l', t')" "lx_position l \<le> lx_length l"
  shows "lx_source l' = lx_source l" "lx_position l' \<le> lx_length l'" "lx_length l' = lx_length l"
  using next_token_ok [OF assms(2), of alloc t] assms by (auto simp: next_ok_def moved_def lx_length_def)

lemma reach_bounds: "lex_reach alloc l t \<Longrightarrow> lx_position l \<le> lx_length l"
proof (induction rule: lex_reach.induct)
  case (reach_create src t0 l t)
  have "take 3 src = [CHR 0xEF, CHR 0xBB, CHR 0xBF] \<Longrightarrow> 3 \<le> length src"
    using length_take [of 3 src] by (metis length_Cons list.size(3) min.absorb_iff2 min.commute numeral_3_eq_3)
  then show ?case using reach_create by (auto simp: lexer_create_def Let_def lx_length_def split: if_splits)
next
  case (reach_next l t tok l' t') then show ?case using next_token_sel by blast
next
  case (reach_peek l t tok l' t')
  obtain tok' l2 t2 where n: "lexer_next_token alloc l t = (tok', l2, t2)" by (metis prod_cases3)
  then show ?case using reach_peek next_token_sel [OF n] by (auto simp: lexer_peek_token_def lx_length_def)
next
  case (reach_error l t m l' t')
  then show ?case using set_error_sel [of alloc m l t] by (simp add: lx_length_def)
qed

text \<open>The tokens of \<open>n\<close> successive calls.\<close>

fun tokens :: "allocator \<Rightarrow> nat \<Rightarrow> Lexer \<Rightarrow> intern_table \<Rightarrow> Token list" where
  "tokens alloc 0 l t = []"
| "tokens alloc (Suc n) l t = (case lexer_next_token alloc l t of (tok, l', t') \<Rightarrow> tok # tokens alloc n l' t')"

lemma tokens_eof:
  "lx_position l \<le> lx_length l \<Longrightarrow> lx_length l - lx_position l < n \<Longrightarrow> \<exists>tok\<in>set (tokens alloc n l t). tok_type tok = TOKEN_EOF"
proof (induction n arbitrary: l t)
  case (Suc n)
  obtain tok l' t' where r: "lexer_next_token alloc l t = (tok, l', t')" by (metis prod_cases3)
  note ok = next_token_ok [OF Suc.prems(1), of alloc t, unfolded r]
  show ?case
  proof (cases "tok_type tok = TOKEN_EOF")
    case False
    then have "lx_position l < lx_position l'" using ok by (simp add: next_ok_def)
    moreover note next_token_sel [OF r Suc.prems(1)]
    ultimately have "\<exists>tok\<in>set (tokens alloc n l' t'). tok_type tok = TOKEN_EOF"
      using Suc.prems by (intro Suc.IH) simp_all
    then show ?thesis by (simp add: r)
  qed (simp add: r)
qed simp

section \<open>What tokens spell\<close>

text \<open>The character literal at \<open>s\<close>: a plain character, or a backslash and the name of an escape.\<close>

definition char_literal_at :: "string \<Rightarrow> nat \<Rightarrow> nat \<Rightarrow> char \<Rightarrow> bool" where
  "char_literal_at src s n c \<longleftrightarrow> src ! s = CHR 0x27 \<and>
     (if src ! (s + 1) = CHR 0x5C then n = 4 \<and> char_escape (src ! (s + 2)) = Some c else n = 3 \<and> src ! (s + 1) = c)"

definition tok_spells :: "string \<Rightarrow> intern_table \<Rightarrow> Token \<Rightarrow> bool" where
  "tok_spells src t tok \<longleftrightarrow>
    (case tok_value tok of
       NoValue \<Rightarrow> tok_type tok \<in> {TOKEN_EOF, TOKEN_NEWLINE, TOKEN_ERROR}
     | Static w \<Rightarrow> \<exists>ty s n. tok_type tok = Op ty \<and> tok_lexeme tok = InSource s n \<and> w = take n (drop s src)
     | Interned a \<Rightarrow> \<exists>s n. tok_lexeme tok = InSource s n \<and> tok_type tok = classify_word (take n (drop s src)) \<and>
                      interned t (take n (drop s src)) = Some a
     | Heap v \<Rightarrow> tok_type tok = TOKEN_ERROR \<or> tok_type tok = TOKEN_STRING \<and> tok_lexeme tok = InValue (length v) \<or>
         tok_type tok = TOKEN_NUMBER \<and> (\<exists>s n. tok_lexeme tok = InSource s n \<and>
            (v = take n (drop s src) \<or> (\<exists>c. char_literal_at src s n c \<and> v = decimal (of_char c)))))"

lemma error_spells: "error_token alloc msg tok0 l t0 = (tok, l', t') \<Longrightarrow> tok_spells src t tok"
  using error_token_result [of alloc msg tok0 l t0 tok l' t'] by (auto simp: tok_spells_def)

lemma error_spells_fst: "tok_spells src t (fst (error_token alloc msg tok0 l t0))"
  using error_spells by (metis prod.collapse)

lemma char_close_spells:
  assumes "lx_position l1 = s + k" "char_literal_at (lx_source l1) s (k + 2) c"
  shows "tok_spells (lx_source l1) t (fst (char_close alloc s c (new_token l) l1 t0))"
proof (cases "at_end (bump 1 l1) \<or> cur (bump 1 l1) \<noteq> CHR 0x27 \<or> allocate alloc 0 t0 = None")
  case True
  then show ?thesis unfolding char_close_def Let_def using error_spells_fst by (auto simp only: split: if_split)
next
  case False
  then have "fst (char_close alloc s c (new_token l) l1 t0) =
      (new_token l)\<lparr>tok_type := TOKEN_NUMBER, tok_value := Heap (decimal (of_char c)), tok_lexeme := InSource s (k + 2)\<rparr>"
    using assms(1) by (auto simp: char_close_def Let_def)
  then show ?thesis using assms(2) by (auto simp: tok_spells_def)
qed

lemma char_literal_spells:
  assumes "cur l = CHR 0x27"
  shows "tok_spells (lx_source l) t (fst (lexer_lex_char_literal alloc l t0))"
proof -
  let ?s = "lx_position l"
  have a: "tok_spells (lx_source l) t (fst (char_close alloc ?s (cur (bump 1 l)) (new_token l) (bump 1 l) t0))"
    if "cur (bump 1 l) \<noteq> CHR 0x5C"
  proof -
    have "char_literal_at (lx_source (bump 1 l)) ?s (1 + 2) (cur (bump 1 l))"
      using that assms by (simp add: char_literal_at_def cur_def)
    then show ?thesis using char_close_spells [of "bump 1 l" ?s 1] by simp
  qed
  have b: "tok_spells (lx_source l) t (fst (char_close alloc ?s c (new_token l) (bump 2 l) t0))"
    if "cur (bump 1 l) = CHR 0x5C" "char_escape (cur (bump 2 l)) = Some c" for c
  proof -
    have "char_literal_at (lx_source (bump 2 l)) ?s (2 + 2) c"
      using that assms by (simp add: char_literal_at_def cur_def)
    then show ?thesis using char_close_spells [of "bump 2 l" ?s 2] by simp
  qed
  show ?thesis unfolding lexer_lex_char_literal_def Let_def bump_1_1
    using a b error_spells_fst by (simp only: split: if_split option.split) blast
qed

lemma number_spells:
  assumes "\<not> at_end l" "c_isdigit (cur l)"
  shows "tok_spells (lx_source l) t (fst (lexer_lex_number alloc l t0))"
proof (cases "lex_digits l")
  case (Inl r)
  then show ?thesis using error_spells_fst by (cases r) (simp add: lexer_lex_number_def)
next
  case (Inr l')
  then have "lx_source l' = lx_source l" using digits_moved [OF assms] by (simp add: moved_def)
  then show ?thesis using Inr error_spells_fst
    by (auto simp: lexer_lex_number_def Let_def tok_spells_def slice_def)
qed

lemma word_spells:
  assumes "fresh_alloc alloc" "intern_inv t" and r: "lexer_lex_identifier_or_keyword alloc l t = (tok, l', t')"
  shows "tok_spells (lx_source l) t' tok \<and> intern_inv t'"
proof -
  define l1 where "l1 = advance_while (\<lambda>l. c_isalnum (cur l) \<or> cur l = CHR ''_'') l"
  define w where "w = slice l1 (lx_position l) (lx_position l1 - lx_position l)"
  have src: "lx_source l1 = lx_source l" using advance_while_moved [of l] by (simp add: l1_def moved_def)
  obtain a t1 where i: "string_intern_n alloc (Some w) t = (a, t1)" by fastforce
  have inv: "intern_inv t1" using pool.keeps_inv [of alloc t w] assms i by simp
  show ?thesis
  proof (cases a)
    case None
    then have e: "error_token alloc ''Memory allocation failed'' (new_token l) l1 t1 = (tok, l', t')"
      using r i unfolding lexer_lex_identifier_or_keyword_def Let_def l1_def [symmetric] w_def [symmetric] by simp
    have "intern_inv t'" using e inv
      by (auto simp: error_token_def lexer_set_error_def Let_def split: if_splits)
    then show ?thesis using error_spells [OF e] by blast
  next
    case (Some p)
    have "interned t1 w = Some p" using pool.returned [of alloc t w p] assms i Some by simp
    then show ?thesis
      using r i Some inv src unfolding lexer_lex_identifier_or_keyword_def Let_def l1_def [symmetric] w_def [symmetric]
      by (auto simp: tok_spells_def w_def slice_def)
  qed
qed


text \<open>Everything but the scanning of words only counts allocations in the intern table.\<close>

definition only_allocs :: "intern_table \<Rightarrow> intern_table \<Rightarrow> bool" where
  "only_allocs t t' \<longleftrightarrow> (\<exists>m. t' = t\<lparr>it_allocs := m\<rparr>)"

lemma only_allocs_refl [intro, simp]: "only_allocs t t"
  unfolding only_allocs_def by (rule exI [of _ "it_allocs t"]) simp

lemma only_allocs_upd [simp]: "only_allocs t (t'\<lparr>it_allocs := m\<rparr>) = only_allocs t t'"
  unfolding only_allocs_def
proof
  assume "\<exists>k. t'\<lparr>it_allocs := m\<rparr> = t\<lparr>it_allocs := k\<rparr>"
  then have "t'\<lparr>it_allocs := m\<rparr>\<lparr>it_allocs := it_allocs t'\<rparr> = t\<lparr>it_allocs := it_allocs t'\<rparr>" by fastforce
  then show "\<exists>k. t' = t\<lparr>it_allocs := k\<rparr>" by (intro exI [of _ "it_allocs t'"]) simp
qed auto

lemma only_allocs_inv: "only_allocs t t' \<Longrightarrow> intern_inv t' = intern_inv t"
  by (auto simp: only_allocs_def)

lemma only_allocs_set_error [simp]: "only_allocs t (snd (lexer_set_error alloc m l t')) = only_allocs t t'"
  by (simp add: lexer_set_error_def split: option.split)

lemma only_allocs_error [simp]: "only_allocs t (snd (snd (error_token alloc msg tok l t'))) = only_allocs t t'"
  by (simp add: error_token_def Let_def case_prod_unfold)

lemma only_allocs_literals:
  "only_allocs t (snd (snd (lexer_lex_char_literal alloc l t)))" "only_allocs t (snd (snd (lexer_lex_number alloc l t)))"
  "only_allocs t (snd (snd (lexer_lex_string_literal alloc l t)))" "only_allocs t (snd (snd (unknown_token alloc l t)))"
  by (simp_all add: lexer_lex_char_literal_def char_close_def lexer_lex_number_def string_literal_unfold unknown_token_def Let_def
      case_prod_unfold split: option.split sum.split)

lemma string_spells: "tok_spells src t (fst (lexer_lex_string_literal alloc l t0))"
proof -
  have "tok_spells src t (tok\<lparr>tok_type := TOKEN_STRING, tok_value := Heap v, tok_lexeme := InValue (length v)\<rparr>)" for tok v
    by (simp add: tok_spells_def)
  then show ?thesis by (simp add: string_literal_unfold Let_def error_spells_fst)
qed

lemma unknown_spells: "tok_spells src t (fst (unknown_token alloc l t0))"
  by (simp add: unknown_token_def Let_def case_prod_unfold tok_spells_def)

lemma scan_lexeme_spells:
  assumes fr: "fresh_alloc alloc" and inv: "intern_inv t" and e: "\<not> at_end l"
  shows "tok_spells (lx_source l) (snd (snd (scan_lexeme alloc l t))) (fst (scan_lexeme alloc l t)) \<and> intern_inv (snd (snd (scan_lexeme alloc l t)))"
    (is "?P (scan_lexeme alloc l t)")
proof (cases "scan_operator (next_is l) (cur l)")
  case (Some r)
  obtain ty tx where r: "r = (ty, tx)" by fastforce
  have "spelled l tx" using scan_operator_spells [OF Some [unfolded r] e] .
  then show ?thesis using Some r inv by (auto simp: scan_lexeme_def tok_spells_def spelled_def slice_def)
next
  case None
  have br: "(P \<Longrightarrow> ?P a) \<Longrightarrow> (\<not> P \<Longrightarrow> ?P b) \<Longrightarrow> ?P (if P then a else b)" for P a b by simp
  have "c_isdigit CHR ''0''" by code_simp
  then have z: "c_isdigit (cur l)" if "c_isdigit (cur l) \<or> cur l = CHR ''0'' \<and> X" for X using that by metis
  have w: "?P (lexer_lex_identifier_or_keyword alloc l t)"
    using word_spells [OF fr inv] by (metis prod.collapse)
  have c: "?P (lexer_lex_char_literal alloc l t)" if "cur l = CHR 0x27"
    using only_allocs_inv [OF only_allocs_literals(1)] inv char_literal_spells [OF that] by blast
  have n: "?P (lexer_lex_number alloc l t)" if "c_isdigit (cur l)"
    using only_allocs_inv [OF only_allocs_literals(2)] inv number_spells [OF e that] by blast
  have s: "?P (lexer_lex_string_literal alloc l t)"
    using only_allocs_inv [OF only_allocs_literals(3)] inv string_spells by blast
  have u: "?P (unknown_token alloc l t)"
    using only_allocs_inv [OF only_allocs_literals(4)] inv unknown_spells by blast
  show ?thesis unfolding scan_lexeme_def None option.case
    by (rule br c n [OF z] w s u | assumption)+
qed

lemma scan_token_spells:
  assumes "fresh_alloc alloc" "intern_inv t" "lexer_scan_token alloc l t = Inr r"
  shows "tok_spells (lx_source l) (snd (snd r)) (fst r) \<and> intern_inv (snd (snd r))"
proof -
  obtain nl l1 where s: "skip_space l = (nl, l1)" by fastforce
  have src: "lx_source l1 = lx_source l" using skip_space_moved [OF s] by (simp add: moved_def)
  have "only_allocs t (snd (snd (error_token alloc msg tok l2 t)))" for msg tok l2 by simp
  then have er: "tok_spells (lx_source l) (snd (snd (error_token alloc msg tok l2 t))) (fst (error_token alloc msg tok l2 t)) \<and>
      intern_inv (snd (snd (error_token alloc msg tok l2 t)))" for msg tok l2
    using error_spells_fst only_allocs_inv assms(2) by blast
  show ?thesis using assms(3) s er scan_lexeme_spells [OF assms(1,2), of l1] src assms(2)
    unfolding lexer_scan_token_def lexer_skip_block_comment_def
    by (auto simp: tok_spells_def [of _ _ "new_token l"] tok_spells_def [of _ _ "(new_token l)\<lparr>tok_type := _, tok_lexeme := _\<rparr>"]
        split: if_splits prod.splits)
qed

lemma next_token_spells:
  "fresh_alloc alloc \<Longrightarrow> intern_inv t \<Longrightarrow> tok_spells (lx_source l) (snd (snd (lexer_next_token alloc l t))) (fst (lexer_next_token alloc l t)) \<and>
     intern_inv (snd (snd (lexer_next_token alloc l t)))"
proof (induction alloc l t rule: lexer_next_token.induct)
  case (1 alloc l t)
  let ?r = "case lexer_scan_token alloc l t of Inr r \<Rightarrow> r | Inl l1 \<Rightarrow> lexer_next_token alloc l1 t"
  have "tok_spells (lx_source l) (snd (snd ?r)) (fst ?r) \<and> intern_inv (snd (snd ?r))"
  proof (cases "lexer_scan_token alloc l t")
    case (Inl l1)
    then have "lx_source l1 = lx_source l" using scan_comment_moves [OF Inl] by (simp add: moved_def)
    then show ?thesis using "1.IH" [OF Inl] "1.prems" Inl by simp
  next
    case (Inr r) then show ?thesis using scan_token_spells "1.prems" by simp
  qed
  then show ?case unfolding lexer_next_token.simps [of alloc l t] by (simp add: case_prod_unfold)
qed

section \<open>Properties\<close>

definition demo_lexer :: "string \<Rightarrow> Lexer" where
  "demo_lexer src = \<lparr>lx_source = src, lx_position = 0, lx_line = 1, lx_column = 1, error_message = None, has_error = False,
     continuation_depth = 0, last_significant = TOKEN_NEWLINE\<rparr>"

lemma demo_reach: "take 3 src \<noteq> [CHR 0xEF, CHR 0xBB, CHR 0xBF] \<Longrightarrow>
    lex_reach counting_alloc (demo_lexer src) (intern_start\<lparr>it_allocs := 1\<rparr>)"
  by (rule reach_create [OF _ reach_start, where src = src])
     (simp add: lexer_create_def demo_lexer_def allocate_def counting_alloc_def intern_start_def)

text \<open>C35. Progress: in every reachable state \<open>lexer_next_token\<close> stays within the source; it either reports the end
  of the file at the end of the source or moves forward. The lexeme of its token is the slice of the
  source that ends where the lexer stands, or the whole heap value; and a token owns its value exactly when
  the value is on the heap.\<close>

theorem next_token_progress:
  assumes "lex_reach alloc l t" and "lexer_next_token alloc l t = (tok, l', t')"
  shows "lx_source l' = lx_source l \<and> lx_position l' \<le> length (lx_source l) \<and>
    (if tok_type tok = TOKEN_EOF then lx_position l' = length (lx_source l) else lx_position l < lx_position l') \<and>
    (is_interned tok \<longleftrightarrow> (\<exists>s. tok_value tok = Static s) \<or> (\<exists>a. tok_value tok = Interned a)) \<and>
    (case tok_lexeme tok of
       InSource s n \<Rightarrow> lx_position l \<le> s \<and> s + n = lx_position l'
     | InValue n \<Rightarrow> (\<exists>v. tok_value tok = Heap v \<and> length v = n)
     | NoView \<Rightarrow> tok_type tok = TOKEN_ERROR \<or> tok_type tok = TOKEN_EOF)"
proof -
  have b: "lx_position l \<le> lx_length l" using reach_bounds [OF assms(1)] .
  show ?thesis using next_token_ok [OF b, of alloc t] b unfolding assms(2)
    by (auto simp: next_ok_def tok_wf_def moved_def at_end_def lx_length_def split: if_splits)
qed

theorem next_token_progress_witness:
  "\<exists>tok l' t'. lexer_next_token counting_alloc (demo_lexer ''x'') (intern_start\<lparr>it_allocs := 1\<rparr>) = (tok, l', t') \<and> lx_position l' \<le> 1"
proof -
  obtain tok l' t' where r: "lexer_next_token counting_alloc (demo_lexer ''x'') (intern_start\<lparr>it_allocs := 1\<rparr>) = (tok, l', t')"
    by (metis prod_cases3)
  have "lx_source (demo_lexer ''x'') = ''x''" by (simp add: demo_lexer_def)
  then show ?thesis using next_token_progress [OF demo_reach r] r by auto
qed

text \<open>C38. Repeated calls of \<open>lexer_next_token\<close> reach the end of the file: among as many tokens as there are bytes
  left, plus one, there is \<open>TOKEN_EOF\<close>.\<close>

theorem lexer_reaches_eof:
  assumes "lex_reach alloc l t"
  shows "\<exists>tok\<in>set (tokens alloc (length (lx_source l) - lx_position l + 1) l t). tok_type tok = TOKEN_EOF"
  using tokens_eof [OF reach_bounds [OF assms], of "length (lx_source l) - lx_position l + 1" alloc t] by (simp add: lx_length_def)

theorem lexer_reaches_eof_witness:
  "\<exists>tok\<in>set (tokens counting_alloc 3 (demo_lexer ''ab'') (intern_start\<lparr>it_allocs := 1\<rparr>)). tok_type tok = TOKEN_EOF"
  using lexer_reaches_eof [OF demo_reach [of "''ab''"]] by (simp add: demo_lexer_def numeral_3_eq_3)

text \<open>The buffer of a string literal is large enough: both readings of the body write at most as many bytes as
  were allocated for it, the bytes left in the source, so every write and the final zero stay inside.\<close>

theorem string_buffer_bound:
  assumes "lexer_read_string_body aware (body_start (bump 1 l)) = (closed, b)"
    and "lx_position l < length (lx_source l)"
  shows "length (bs_buffer b) \<le> length (lx_source l) - (lx_position l + 1)"
proof -
  have "moved (bump 1 l) (bs_lexer b)" "length (bs_buffer b) + (lx_position l + 1) \<le> lx_position (bs_lexer b)"
    using body_moves [OF assms(1)] by simp_all
  then show ?thesis using assms(2) by (auto simp: moved_def lx_length_def)
qed

theorem string_buffer_bound_witness:
  "\<exists>closed b. lexer_read_string_body True (body_start (bump 1 (demo_lexer [CHR 0x22, CHR ''a'', CHR 0x22]))) = (closed, b) \<and>
     length (bs_buffer b) \<le> 2"
proof -
  let ?l = "demo_lexer [CHR 0x22, CHR ''a'', CHR 0x22]"
  obtain closed b where r: "lexer_read_string_body True (body_start (bump 1 ?l)) = (closed, b)" by fastforce
  have l: "lx_source ?l = [CHR 0x22, CHR ''a'', CHR 0x22]" "lx_position ?l = 0" by (simp_all add: demo_lexer_def)
  show ?thesis using string_buffer_bound [OF r] r l by auto
qed

text \<open>Newlines inside a string literal are not counted: whatever the literal contains, the line number behind it
  is the line number in front of it, so every later token of a file with a multi-line string is reported on
  a line that is too small.\<close>

theorem string_literal_line:
  "lx_line (fst (snd (lexer_lex_string_literal alloc l t))) = lx_line l"
proof -
  have e: "lx_line (fst (snd (error_token alloc msg tok l' t'))) = lx_line l'" for msg tok l' t'
    by (simp add: error_token_def Let_def case_prod_unfold)
  show ?thesis unfolding string_literal_unfold Let_def
    using string_reading_moves(2) [of "bump 1 l"] by (simp add: e)
qed

end
