(* ===== verification/LexerProps.thy ===== *)
theory LexerProps
  imports LexerCorrect
begin

text \<open>
  The text of tokens: what they spell, the decoding of string literals, cloning, and that
  \<open>lexer_peek_token\<close> announces what \<open>lexer_next_token\<close> returns.
\<close>

section \<open>Spelling\<close>

lemma reach_intern_inv: "lex_reach alloc l t \<Longrightarrow> fresh_alloc alloc \<Longrightarrow> intern_inv t"
proof (induction rule: lex_reach.induct)
  case (reach_create src t0 l t)
  then show ?case using intern_reach_inv [of alloc t0] by (auto simp: lexer_create_def Let_def split: if_splits)
next
  case (reach_next l t tok l' t') then show ?case using next_token_spells [of alloc t l] by simp
next
  case (reach_peek l t tok l' t')
  then show ?case using next_token_spells [of alloc t l] by (auto simp: lexer_peek_token_def split: prod.splits)
next
  case (reach_error l t m l' t')
  then show ?case using only_allocs_set_error [of t alloc m l t] only_allocs_inv [of t t'] by simp
qed



section \<open>Cloning\<close>

lemma c_string_id: "CHR 0x00 \<notin> set s \<Longrightarrow> c_string s = s"
  by (simp add: c_string_def takeWhile_eq_all_conv) metis

lemma decimal_no_nul: "CHR 0x00 \<notin> set (decimal n)"
proof (induction n rule: decimal.induct)
  case (1 n)
  have d: "char_of (48 + k) \<noteq> CHR 0x00" if "k < 10" for k :: nat
  proof
    assume "char_of (48 + k) = CHR 0x00"
    then have "of_char (char_of (48 + k) :: char) = (0 :: nat)" by simp
    then show False using that by (simp add: of_char_of)
  qed
  show ?case using 1 d [of n] d [of "n mod 10"] by (subst decimal.simps) auto
qed

text \<open>\<open>token_clone\<close> copies every token of the lexer that is not an error, string literals with embedded zero bytes
  included: when its allocation succeeds the clone equals the token.\<close>

theorem token_clone_same:
  assumes "fresh_alloc alloc" and "lex_reach alloc l t" and "CHR 0x00 \<notin> set (lx_source l)"
    and "lexer_next_token alloc l t = (tok, l', t')" and "tok_type tok \<noteq> TOKEN_ERROR" and "allocate alloc 0 t' \<noteq> None"
  shows "fst (token_clone alloc (Some tok) t') = tok"
proof (cases "tok_value tok")
  case (Heap v)
  have sp: "tok_spells (lx_source l) t' tok"
    using next_token_spells [OF assms(1) reach_intern_inv [OF assms(2,1)], of l] assms(4) by simp
  have own: "\<not> is_interned tok"
    using next_token_ok [OF reach_bounds [OF assms(2)], of alloc t] assms(4) Heap by (simp add: next_ok_def tok_wf_def)
  have eq: "tok\<lparr>tok_value := Heap v\<rparr> = tok" using Heap by simp
  consider "tok_lexeme tok = InValue (length v)"
    | s n where "tok_lexeme tok = InSource s n" "v = take n (drop s (lx_source l)) \<or> (\<exists>c. v = decimal (of_char c))"
    using sp Heap assms(5) by (auto simp: tok_spells_def)
  then show ?thesis
  proof cases
    case 1
    have "length (c_string v) \<le> length v" by (simp add: c_string_def length_takeWhile_le)
    then show ?thesis using 1 Heap own assms(6) eq by (auto simp: token_clone_def Let_def)
  next
    case 2
    then have "CHR 0x00 \<notin> set v" using assms(3) decimal_no_nul by (auto dest!: in_set_takeD in_set_dropD)
    then show ?thesis using 2 Heap own assms(6) eq by (auto simp: token_clone_def Let_def c_string_id)
  qed
qed (simp_all add: token_clone_def)


lemma demo_number:
  "(\<lambda>(tok, l', t'). tok_type tok = TOKEN_NUMBER \<and> allocate counting_alloc 0 t' \<noteq> None)
     (lexer_next_token counting_alloc (demo_lexer ''7'') (intern_start\<lparr>it_allocs := 1\<rparr>))"
  by code_simp

theorem token_clone_same_witness:
  "\<exists>tok l' t'. lexer_next_token counting_alloc (demo_lexer ''7'') (intern_start\<lparr>it_allocs := 1\<rparr>) = (tok, l', t') \<and>
     fst (token_clone counting_alloc (Some tok) t') = tok"
proof -
  obtain tok l' t' where r: "lexer_next_token counting_alloc (demo_lexer ''7'') (intern_start\<lparr>it_allocs := 1\<rparr>) = (tok, l', t')"
    by (metis prod_cases3)
  then have "tok_type tok \<noteq> TOKEN_ERROR" "allocate counting_alloc 0 t' \<noteq> None" using demo_number by simp_all
  moreover have "CHR 0x00 \<notin> set (lx_source (demo_lexer ''7''))" by (simp add: demo_lexer_def)
  ultimately show ?thesis using token_clone_same [OF counting_fresh demo_reach _ r] r by simp
qed

section \<open>String literals\<close>

text \<open>The spelling of a byte inside a string literal.\<close>

definition escape_char :: "char \<Rightarrow> string" where
  "escape_char c =
    (if c = CHR 0x0A then [CHR 0x5C, CHR ''n''] else if c = CHR 0x09 then [CHR 0x5C, CHR ''t'']
     else if c = CHR 0x0D then [CHR 0x5C, CHR ''r''] else if c = CHR 0x5C then [CHR 0x5C, CHR 0x5C]
     else if c = CHR 0x22 then [CHR 0x5C, CHR 0x22] else if c = CHR 0x00 then [CHR 0x5C, CHR ''0''] else [c])"

definition escape_string :: "string \<Rightarrow> string" where
  "escape_string s = concat (map escape_char s)"

lemma escape_char_cases:
  obtains e where "escape_char c = [CHR 0x5C, e]" "string_escape e = Some c"
  | "escape_char c = [c]" "c \<noteq> CHR 0x5C" "c \<noteq> CHR 0x22"
proof -
  consider "c \<in> {CHR 0x0A, CHR 0x09, CHR 0x0D, CHR 0x5C, CHR 0x22, CHR 0x00}" | "c \<notin> {CHR 0x0A, CHR 0x09, CHR 0x0D, CHR 0x5C, CHR 0x22, CHR 0x00}" by blast
  then show thesis
  proof cases
    case 1 then show thesis using that(1) by (auto simp: escape_char_def string_escape_def)
  next
    case 2 then show thesis using that(2) by (simp add: escape_char_def)
  qed
qed

lemma at_drop:
  assumes "drop (lx_position l) (lx_source l) = x # xs"
  shows "\<not> at_end l" "cur l = x" "drop (lx_position (bump 1 l)) (lx_source (bump 1 l)) = xs"
proof -
  have p: "lx_position l < length (lx_source l)" using assms by (metis drop_eq_Nil list.distinct(1) not_le)
  then show "\<not> at_end l" by (simp add: at_end_def lx_length_def)
  show "cur l = x" using assms p by (metis cur_def hd_drop_conv_nth list.sel(1))
  show "drop (lx_position (bump 1 l)) (lx_source (bump 1 l)) = xs" using assms by (simp add: drop_Suc) (metis drop_Suc list.sel(3) tl_drop)
qed

text \<open>Reading one spelled byte outside braces appends the byte.\<close>

lemma read_escaped_char:
  assumes d: "drop (lx_position (bs_lexer b)) (lx_source (bs_lexer b)) = escape_char c @ rest"
    and st: "bs_depth b = 0" "\<not> bs_nested b" "c \<noteq> CHR ''{''"
  shows "\<not> body_stops True b \<and>
    body_round True b = b\<lparr>bs_lexer := bump (length (escape_char c)) (bs_lexer b), bs_buffer := bs_buffer b @ [c]\<rparr> \<and>
    drop (lx_position (bump (length (escape_char c)) (bs_lexer b))) (lx_source (bs_lexer b)) = rest"
proof (rule escape_char_cases [of c])
  let ?l = "bs_lexer b"
  fix e assume e: "escape_char c = [CHR 0x5C, e]" "string_escape e = Some c"
  note d1 = at_drop [of ?l "CHR 0x5C" "e # rest"] and d2 = at_drop [of "bump 1 ?l" e rest]
  have c1: "\<not> at_end ?l" "cur ?l = CHR 0x5C" "\<not> at_end (bump 1 ?l)" "cur (bump 1 ?l) = e"
    "drop (lx_position (bump 2 ?l)) (lx_source ?l) = rest"
    using d1 d2 d e(1) by (simp_all only: bump_1_1) simp_all
  then show ?thesis using e
    by (auto simp: body_stops_def body_round_def body_escape_def Let_def at_end_def bump_1_1 numeral_2_eq_2)
next
  let ?l = "bs_lexer b"
  assume e: "escape_char c = [c]" "c \<noteq> CHR 0x5C" "c \<noteq> CHR 0x22"
  have "\<not> at_end ?l" "cur ?l = c" "drop (lx_position (bump 1 ?l)) (lx_source ?l) = rest"
    using at_drop [of ?l c rest] d e by simp_all
  then show ?thesis using e st by (simp add: body_stops_def body_round_def body_plain_def Let_def)
qed


lemma read_escaped:
  "drop (lx_position (bs_lexer b)) (lx_source (bs_lexer b)) = escape_string s @ CHR 0x22 # post \<Longrightarrow>
   bs_depth b = 0 \<Longrightarrow> \<not> bs_nested b \<Longrightarrow> CHR ''{'' \<notin> set s \<Longrightarrow>
   lexer_read_string_body True b = (True, b\<lparr>bs_lexer := bump (length (escape_string s)) (bs_lexer b), bs_buffer := bs_buffer b @ s\<rparr>)"
proof (induction s arbitrary: b)
  case Nil
  note q = at_drop [OF Nil.prems(1) [unfolded escape_string_def, simplified]]
  have "bump 0 (bs_lexer b) = bs_lexer b" by (simp add: bump_def)
  then show ?case using q Nil.prems by (simp add: lexer_read_string_body.simps [of True b] body_stops_def escape_string_def)
next
  case (Cons c s)
  let ?b = "b\<lparr>bs_lexer := bump (length (escape_char c)) (bs_lexer b), bs_buffer := bs_buffer b @ [c]\<rparr>"
  have d: "drop (lx_position (bs_lexer b)) (lx_source (bs_lexer b)) = escape_char c @ escape_string s @ CHR 0x22 # post"
    using Cons.prems(1) by (simp add: escape_string_def)
  have r: "\<not> body_stops True b" "body_round True b = ?b"
    "drop (lx_position (bump (length (escape_char c)) (bs_lexer b))) (lx_source (bs_lexer b)) = escape_string s @ CHR 0x22 # post"
    using read_escaped_char [OF d] Cons.prems by auto
  have "lexer_read_string_body True b = lexer_read_string_body True ?b"
    using r by (simp add: lexer_read_string_body.simps [of True b])
  also have "\<dots> = (True, ?b\<lparr>bs_lexer := bump (length (escape_string s)) (bs_lexer ?b), bs_buffer := bs_buffer ?b @ s\<rparr>)"
    using r(3) Cons.prems by (intro Cons.IH) simp_all
  finally show ?case by (simp add: escape_string_def)
qed

text \<open>C39. Round trip of string literals: for every string without an opening brace, lexing its spelling between
  quotes, with newline, tab, carriage return, backslash, quote and zero byte escaped, gives a string token
  with exactly that value and that length, and ends behind the closing quote.\<close>

theorem string_literal_roundtrip:
  assumes "drop (lx_position l) (lx_source l) = CHR 0x22 # escape_string s @ CHR 0x22 # post"
    and "CHR ''{'' \<notin> set s" and "allocate alloc 0 t \<noteq> None"
  shows "lexer_lex_string_literal alloc l t =
    ((new_token l)\<lparr>tok_type := TOKEN_STRING, tok_value := Heap s, tok_lexeme := InValue (length s)\<rparr>,
     bump (length (escape_string s) + 2) l, t\<lparr>it_allocs := it_allocs t + 1\<rparr>)"
proof -
  let ?b = "body_start (bump 1 l)" and ?n = "length (escape_string s)"
  have d: "drop (lx_position (bump 1 l)) (lx_source (bump 1 l)) = escape_string s @ CHR 0x22 # post" using at_drop(3) [OF assms(1)] .
  have r: "string_reading (bump 1 l) = ?b\<lparr>bs_lexer := bump ?n (bump 1 l), bs_buffer := s\<rparr>"
    using read_escaped [of ?b s post] d assms(2) by (simp add: string_reading_def)
  have "drop (lx_position (bump ?n (bump 1 l))) (lx_source (bump ?n (bump 1 l))) = CHR 0x22 # post"
    using arg_cong [OF d, of "drop ?n"] by (simp add: add.commute)
  then have "\<not> at_end (bump ?n (bump 1 l))" by (rule at_drop(1))
  then show ?thesis using assms(3) unfolding string_literal_unfold r Let_def by (auto simp: add.commute)
qed

theorem string_literal_roundtrip_witness:
  "fst (lexer_lex_string_literal counting_alloc (demo_lexer (CHR 0x22 # escape_string [CHR ''a'', CHR 0x0A] @ [CHR 0x22])) intern_start) =
     (new_token (demo_lexer (CHR 0x22 # escape_string [CHR ''a'', CHR 0x0A] @ [CHR 0x22])))
       \<lparr>tok_type := TOKEN_STRING, tok_value := Heap [CHR ''a'', CHR 0x0A], tok_lexeme := InValue 2\<rparr>"
proof -
  let ?l = "demo_lexer (CHR 0x22 # escape_string [CHR ''a'', CHR 0x0A] @ [CHR 0x22])"
  have "drop (lx_position ?l) (lx_source ?l) = CHR 0x22 # escape_string [CHR ''a'', CHR 0x0A] @ CHR 0x22 # []"
    by (simp add: demo_lexer_def)
  moreover have "allocate counting_alloc 0 intern_start \<noteq> None" by (simp add: allocate_def counting_alloc_def intern_start_def)
  ultimately show ?thesis using string_literal_roundtrip [of ?l "[CHR ''a'', CHR 0x0A]" "[]" counting_alloc intern_start] by simp
qed

end
