(* ===== verification/LexerPeek.thy ===== *)
theory LexerPeek
  imports LexerProps
begin

text \<open>
  Peeking. \<open>lexer_peek_token\<close> restores the position but keeps the error fields and the interned words of the
  call it makes; these lemmas show that neither changes what \<open>lexer_next_token\<close> returns afterwards, as long
  as memory lasts.
\<close>

section \<open>The error fields do not matter\<close>

named_theorems err_simps \<open>operations commute with setting the error fields\<close>

definition set_err :: "lex_message option \<Rightarrow> bool \<Rightarrow> Lexer \<Rightarrow> Lexer" where
  "set_err e h l = l\<lparr>error_message := e, has_error := h\<rparr>"

lemma same_place_err: "same_place l m \<longleftrightarrow> (\<exists>e h. m = set_err e h l)"
  by (simp add: same_place_def set_err_def)

lemma set_err_sel [simp]:
  "lx_source (set_err e h l) = lx_source l" "lx_position (set_err e h l) = lx_position l" "lx_line (set_err e h l) = lx_line l"
  "lx_column (set_err e h l) = lx_column l" "continuation_depth (set_err e h l) = continuation_depth l"
  "last_significant (set_err e h l) = last_significant l" "lx_length (set_err e h l) = lx_length l" "cur (set_err e h l) = cur l"
  "at_end (set_err e h l) = at_end l" "next_is (set_err e h l) = next_is l" "new_token (set_err e h l) = new_token l"
  "slice (set_err e h l) = slice l" "continues (set_err e h l) = continues l"
  by (simp_all add: set_err_def lx_length_def cur_def at_end_def next_is_def new_token_def slice_def continues_def fun_eq_iff)

lemma set_err_bump [err_simps]: "bump n (set_err e h l) = set_err e h (bump n l)" "newline (set_err e h l) = set_err e h (newline l)"
  by (simp_all add: set_err_def bump_def newline_def)

lemma set_err_advance [err_simps]:
  assumes "\<And>l. P (set_err e h l) = P l"
  shows "advance_while P (set_err e h l) = set_err e h (advance_while P l)"
proof (induction "lx_length l - lx_position l" arbitrary: l rule: less_induct)
  case less
  show ?case
  proof (cases "\<not> at_end l \<and> P l")
    case True
    then have "advance_while P (set_err e h (bump 1 l)) = set_err e h (advance_while P (bump 1 l))"
      by (intro less) (auto simp: at_end_def)
    then show ?thesis using True assms advance_while.simps [of P l] advance_while.simps [of P "set_err e h l"]
      by (simp add: set_err_bump)
  next
    case False
    then show ?thesis using assms advance_while.simps [of P l] advance_while.simps [of P "set_err e h l"] by auto
  qed
qed

lemma set_err_block [err_simps]: "block_loop d (set_err e h l) = apsnd (set_err e h) (block_loop d l)"
proof (induction d l rule: block_loop.induct)
  case (1 d l)
  show ?case using 1 by (subst (1 2) block_loop.simps) (simp add: set_err_bump)
qed

lemma set_err_skip [err_simps]: "skip_space (set_err e h l) = apsnd (set_err e h) (skip_space l)"
proof (induction l rule: skip_space.induct)
  case (1 l)
  show ?case using 1 by (subst (1 2) skip_space.simps) (simp add: set_err_bump)
qed

lemma set_err_exponent [err_simps]: "lex_exponent (set_err e h l) = set_err e h (lex_exponent l)"
  unfolding lex_exponent_def Let_def set_err_sel set_err_bump by (auto simp: err_simps)

lemma set_err_digits [err_simps]: "lex_digits (set_err e h l) = map_sum (apsnd (set_err e h)) (set_err e h) (lex_digits l)"
  unfolding lex_digits_def Let_def set_err_sel set_err_bump by (auto simp: err_simps)

definition body_err :: "lex_message option \<Rightarrow> bool \<Rightarrow> body_state \<Rightarrow> body_state" where
  "body_err e h b = b\<lparr>bs_lexer := set_err e h (bs_lexer b)\<rparr>"

lemma body_err_sel [simp]: "bs_lexer (body_err e h b) = set_err e h (bs_lexer b)" "bs_buffer (body_err e h b) = bs_buffer b"
  "bs_depth (body_err e h b) = bs_depth b" "bs_nested (body_err e h b) = bs_nested b" "bs_bad (body_err e h b) = bs_bad b"
  by (simp_all add: body_err_def)

lemma body_err_round: "body_round aware (body_err e h b) = body_err e h (body_round aware b)"
  by (cases "string_escape (cur (bump 1 (bs_lexer b)))")
     (simp_all add: body_round_def body_escape_def body_plain_def body_braces_def Let_def err_simps body_err_def)

lemma body_err_read: "lexer_read_string_body aware (body_err e h b) = apsnd (body_err e h) (lexer_read_string_body aware b)"
proof (induction aware b rule: lexer_read_string_body.induct)
  case (1 aware b)
  have "body_stops aware (body_err e h b) = body_stops aware b" by (simp add: body_stops_def)
  then show ?case using 1 by (subst (1 2) lexer_read_string_body.simps) (simp add: body_err_round)
qed

lemma body_err_start: "body_start (set_err e h l) = body_err e h (body_start l)"
  by (simp add: body_start_def body_err_def)

lemma string_reading_err: "string_reading (set_err e h l) = body_err e h (string_reading l)"
  by (simp add: string_reading_def body_err_start body_err_read apsnd_def case_prod_unfold)

section \<open>Agreement of two runs\<close>

text \<open>Memory lasts as long as at most \<open>k\<close> strings are interned.\<close>

definition room :: "allocator \<Rightarrow> nat \<Rightarrow> bool" where
  "room alloc k \<longleftrightarrow> (\<forall>n live. length live \<le> k \<longrightarrow> alloc n live \<noteq> None)"

definition fits :: "nat \<Rightarrow> intern_table \<Rightarrow> bool" where
  "fits k t \<longleftrightarrow> length (entries t) \<le> k"

lemma fits_allocs [simp]: "fits k (t\<lparr>it_allocs := m\<rparr>) = fits k t"
  by (simp add: fits_def entries_def)

lemma room_allocate: "room alloc k \<Longrightarrow> fits k t \<Longrightarrow> allocate alloc i t \<noteq> None"
  by (simp add: room_def fits_def allocate_def)

definition agree :: "lex_result \<Rightarrow> lex_result \<Rightarrow> bool" where
  "agree r r' \<longleftrightarrow> fst r' = fst r \<and> same_place (fst (snd r)) (fst (snd r'))"

lemma agree_err: "agree (tok, l, t) (tok, set_err e h l, t')"
  by (auto simp: agree_def same_place_err)

lemma agree_if: "(P \<Longrightarrow> agree a a') \<Longrightarrow> (\<not> P \<Longrightarrow> agree b b') \<Longrightarrow> agree (if P then a else b) (if P then a' else b')"
  by simp

lemma set_err_twice [simp]: "set_err e h (set_err e' h' l) = set_err e h l"
  by (simp add: set_err_def)

lemma same_place_refl [simp]: "same_place l l"
  unfolding same_place_def by (intro exI [of _ "error_message l"] exI [of _ "has_error l"]) simp

lemma total_set_error:
  "room alloc k \<Longrightarrow> fits k t \<Longrightarrow> lexer_set_error alloc (Some m) l t =
     (set_err (Some (LexError (lx_line l) (lx_column l) m)) True l, t\<lparr>it_allocs := it_allocs t + 1\<rparr>)"
  using room_allocate [of alloc k t 0] by (simp add: lexer_set_error_def set_err_def)

lemma error_agree:
  assumes room: "room alloc k" and f: "fits k t" "fits k t'"
  shows "agree (error_token alloc msg tok l t) (error_token alloc msg tok (set_err e h l) t')"
  using f by (simp add: room_allocate [OF room] error_token_def total_set_error [OF room] agree_def Let_def)

lemma char_close_agree:
  assumes room: "room alloc k" and f: "fits k t" "fits k t'"
  shows "agree (char_close alloc s c tok l t) (char_close alloc s c tok (set_err e h l) t')"
  using f error_agree [OF room] agree_err
  by (simp add: room_allocate [OF room] char_close_def Let_def err_simps del: bump_bump)

lemma char_literal_agree:
  assumes room: "room alloc k" and f: "fits k t" "fits k t'"
  shows "agree (lexer_lex_char_literal alloc l t) (lexer_lex_char_literal alloc (set_err e h l) t')"
  using f error_agree [OF room] char_close_agree [OF room]
  by (simp add: lexer_lex_char_literal_def Let_def err_simps del: bump_bump split: option.split)

lemma number_agree:
  assumes room: "room alloc k" and f: "fits k t" "fits k t'"
  shows "agree (lexer_lex_number alloc l t) (lexer_lex_number alloc (set_err e h l) t')"
  using f error_agree [OF room] agree_err
  by (cases "lex_digits l") (auto simp: room_allocate [OF room] lexer_lex_number_def Let_def err_simps)

lemma string_agree:
  assumes room: "room alloc k" and f: "fits k t" "fits k t'"
  shows "agree (lexer_lex_string_literal alloc l t) (lexer_lex_string_literal alloc (set_err e h l) t')"
  using f error_agree [OF room] agree_err
  by (simp add: room_allocate [OF room] string_literal_unfold Let_def err_simps string_reading_err del: bump_bump)

lemma unknown_agree:
  assumes room: "room alloc k" and f: "fits k t" "fits k t'"
  shows "agree (unknown_token alloc l t) (unknown_token alloc (set_err e h l) t')"
  using f by (simp add: room_allocate [OF room] unknown_token_def total_set_error [OF room] agree_def Let_def)


lemma intern_total:
  assumes room: "room alloc k" and f: "fits k t"
  shows "\<exists>a. fst (string_intern_n alloc (Some w) t) = Some a"
proof -
  obtain ok t0 where i: "string_intern_init alloc t = (ok, t0)" by fastforce
  have "ok" "fits k t0" using i f room_allocate [OF room f, of 0] room_allocate [OF room f, of 1]
    by (auto simp: string_intern_init_def Let_def fits_def entries_def split: if_splits)
  then show ?thesis using i room_allocate [OF room, of t0 0] room_allocate [OF room, of t0 1]
    by (auto simp: string_intern_n_def Let_def split: option.splits)
qed

text \<open>A word that the first run has interned has the same address in the second.\<close>

lemma word_agree:
  assumes room: "room alloc k" and f: "fits k t" "fits k t2" and fr: "fresh_alloc alloc" and inv: "intern_inv t" "intern_inv t2"
    and sub: "interned (snd (snd (lexer_lex_identifier_or_keyword alloc l t))) \<subseteq>\<^sub>m interned t2"
  shows "agree (lexer_lex_identifier_or_keyword alloc l t) (lexer_lex_identifier_or_keyword alloc (set_err e h l) t2)"
proof -
  define l1 where "l1 = advance_while (\<lambda>l. c_isalnum (cur l) \<or> cur l = CHR ''_'') l"
  define w where "w = slice l1 (lx_position l) (lx_position l1 - lx_position l)"
  have l2: "advance_while (\<lambda>l. c_isalnum (cur l) \<or> cur l = CHR ''_'') (set_err e h l) = set_err e h l1"
    unfolding l1_def by (rule set_err_advance) simp
  obtain a t1 where i: "string_intern_n alloc (Some w) t = (Some a, t1)" using intern_total [OF room f(1)] by (metis prod.collapse)
  have "interned t1 w = Some a" using pool.returned [of alloc t w a] fr inv(1) i by simp
  moreover have "snd (snd (lexer_lex_identifier_or_keyword alloc l t)) = t1"
    using i unfolding lexer_lex_identifier_or_keyword_def Let_def l1_def [symmetric] w_def [symmetric] by simp
  ultimately have "interned t2 w = Some a" using sub by (metis map_le_def domI)
  then obtain t3 where i2: "string_intern_n alloc (Some w) t2 = (Some a, t3)"
    using pool.again [of alloc t2 w a] fr inv(2) by (metis prod.collapse)
  show ?thesis
    unfolding lexer_lex_identifier_or_keyword_def Let_def l2 l1_def [symmetric]
    using i i2 by (simp add: w_def agree_err)
qed

lemma scan_lexeme_agree:
  assumes room: "room alloc k" and f: "fits k t" "fits k t2" and fr: "fresh_alloc alloc" and inv: "intern_inv t" "intern_inv t2"
    and sub: "interned (snd (snd (scan_lexeme alloc l t))) \<subseteq>\<^sub>m interned t2"
  shows "agree (scan_lexeme alloc l t) (scan_lexeme alloc (set_err e h l) t2)"
proof (cases "scan_operator (next_is l) (cur l)")
  case (Some r)
  obtain ty tx where r: "r = (ty, tx)" by fastforce
  have "(bump n (set_err e h l))\<lparr>continuation_depth := d\<rparr> = set_err e h ((bump n l)\<lparr>continuation_depth := d\<rparr>)" for n d
    by (simp add: set_err_def bump_def)
  then show ?thesis using Some r agree_err by (simp add: scan_lexeme_def)
next
  case None
  let ?num = "c_isdigit (cur l) \<or> (cur l = CHR ''0'' \<and>
      (next_is l 1 CHR ''x'' \<or> next_is l 1 CHR ''X'' \<or> next_is l 1 CHR ''b'' \<or> next_is l 1 CHR ''B''))"
  have w: "agree (lexer_lex_identifier_or_keyword alloc l t) (lexer_lex_identifier_or_keyword alloc (set_err e h l) t2)"
    if "cur l \<noteq> CHR 0x27" "\<not> ?num" "c_isalpha (cur l) \<or> cur l = CHR ''_''"
  proof (rule word_agree [OF room f fr inv])
    have "scan_lexeme alloc l t = lexer_lex_identifier_or_keyword alloc l t"
      using that unfolding scan_lexeme_def None option.case by (simp only: if_True if_False)
    then show "interned (snd (snd (lexer_lex_identifier_or_keyword alloc l t))) \<subseteq>\<^sub>m interned t2" using sub by simp
  qed
  show ?thesis unfolding scan_lexeme_def None option.case set_err_sel
    by (rule agree_if char_literal_agree [OF room f] number_agree [OF room f] w string_agree [OF room f] unknown_agree [OF room f] | assumption)+
qed

lemma scan_token_unfold:
  assumes s: "skip_space l = (nl, l1)" and b: "block_loop 1 (bump 2 l1) = (d, l2)"
  shows "lexer_scan_token alloc l t =
      (if nl then Inr ((new_token l)\<lparr>tok_type := TOKEN_NEWLINE, tok_lexeme := InSource (lx_position l1) 1\<rparr>, newline l1, t)
       else if at_end l1 then Inr (new_token l, l1, t)
       else if cur l1 = CHR ''/'' \<and> next_is l1 1 CHR ''/'' then Inl (lexer_skip_line_comment l1)
       else if cur l1 = CHR ''/'' \<and> next_is l1 1 CHR ''*'' then
         (if d \<noteq> 0 then Inr (error_token alloc ''Unterminated block comment'' (new_token l1) l2 t) else Inl l2)
       else Inr (scan_lexeme alloc l1 t))"
  by (simp only: lexer_scan_token_def lexer_skip_block_comment_def s b prod.case)

lemma scan_token_agree:
  assumes room: "room alloc k" and f: "fits k t" "fits k t2" and fr: "fresh_alloc alloc" and inv: "intern_inv t" "intern_inv t2"
  shows "(case lexer_scan_token alloc l t of
      Inl l1 \<Rightarrow> lexer_scan_token alloc (set_err e h l) t2 = Inl (set_err e h l1)
    | Inr r \<Rightarrow> interned (snd (snd r)) \<subseteq>\<^sub>m interned t2 \<longrightarrow> (\<exists>r2. lexer_scan_token alloc (set_err e h l) t2 = Inr r2 \<and> agree r r2))"
proof -
  obtain nl l1 where s: "skip_space l = (nl, l1)" by fastforce
  obtain d l2 where b: "block_loop 1 (bump 2 l1) = (d, l2)" by fastforce
  have lc: "lexer_skip_line_comment (set_err e h l1) = set_err e h (lexer_skip_line_comment l1)"
    unfolding lexer_skip_line_comment_def by (simp add: err_simps)
  have bc: "lexer_skip_block_comment alloc (set_err e h l1) t2 =
      (if d \<noteq> 0 then Inr (error_token alloc ''Unterminated block comment'' (new_token l1) (set_err e h l2) t2) else Inl (set_err e h l2))"
    unfolding lexer_skip_block_comment_def set_err_bump set_err_block b by simp
  have sl: "lexer_scan_token alloc (set_err e h l) t2 =
      (if nl then Inr ((new_token l)\<lparr>tok_type := TOKEN_NEWLINE, tok_lexeme := InSource (lx_position l1) 1\<rparr>, set_err e h (newline l1), t2)
       else if at_end l1 then Inr (new_token l, set_err e h l1, t2)
       else if cur l1 = CHR ''/'' \<and> next_is l1 1 CHR ''/'' then Inl (set_err e h (lexer_skip_line_comment l1))
       else if cur l1 = CHR ''/'' \<and> next_is l1 1 CHR ''*'' then
         (if d \<noteq> 0 then Inr (error_token alloc ''Unterminated block comment'' (new_token l1) (set_err e h l2) t2) else Inl (set_err e h l2))
       else Inr (scan_lexeme alloc (set_err e h l1) t2))"
    by (simp only: lexer_scan_token_def bc set_err_skip s apsnd_conv prod.case lc set_err_sel set_err_bump(2))
  show ?thesis unfolding sl scan_token_unfold [OF s b] using error_agree [OF room f] scan_lexeme_agree [OF room f fr inv, of l1] agree_err by (simp del: split_paired_Ex)
qed

lemma same_place_last: "same_place l m \<Longrightarrow> same_place (l\<lparr>last_significant := ty\<rparr>) (m\<lparr>last_significant := ty\<rparr>)"
proof -
  have "(set_err e h l)\<lparr>last_significant := ty\<rparr> = set_err e h (l\<lparr>last_significant := ty\<rparr>)" for e h by (simp add: set_err_def)
  then show "same_place l m \<Longrightarrow> ?thesis" by (auto simp: same_place_err)
qed

lemma next_token_agree:
  assumes room: "room alloc k" and f: "fits k t" "fits k t2" and fr: "fresh_alloc alloc"
  shows "intern_inv t \<Longrightarrow> intern_inv t2 \<Longrightarrow> interned (snd (snd (lexer_next_token alloc l t))) \<subseteq>\<^sub>m interned t2 \<Longrightarrow>
    agree (lexer_next_token alloc l t) (lexer_next_token alloc (set_err e h l) t2)"
proof (induction "lx_length l - lx_position l" arbitrary: l rule: less_induct)
  case less
  let ?r = "case lexer_scan_token alloc l t of Inr r \<Rightarrow> r | Inl l1 \<Rightarrow> lexer_next_token alloc l1 t"
  let ?r2 = "case lexer_scan_token alloc (set_err e h l) t2 of Inr r \<Rightarrow> r | Inl l1 \<Rightarrow> lexer_next_token alloc l1 t2"
  note sa = scan_token_agree [OF room f fr less.prems(1,2), where l = l and e = e and h = h]
  have sub: "interned (snd (snd ?r)) \<subseteq>\<^sub>m interned t2"
    using less.prems(3) unfolding lexer_next_token.simps [of alloc l t] by (simp add: case_prod_unfold)
  have "agree ?r ?r2"
  proof (cases "lexer_scan_token alloc l t")
    case (Inl l1)
    have "lx_length l1 - lx_position l1 < lx_length l - lx_position l"
      using scan_comment_moves [OF Inl] moved_length [of l l1] by (simp add: diff_less_mono2)
    then show ?thesis using less.hyps [of l1] less.prems sub sa Inl by simp
  next
    case (Inr r) then show ?thesis using sa sub by auto
  qed
  then show ?case
    unfolding lexer_next_token.simps [of alloc l t] lexer_next_token.simps [of alloc "set_err e h l" t2]
    by (auto simp: agree_def case_prod_unfold same_place_last)
qed

text \<open>A call interns at most one string.\<close>

lemma intern_n_count: "it_entry_count (snd (string_intern_n alloc v t)) \<le> it_entry_count t + 1"
proof -
  have "it_entry_count (snd (string_intern_init alloc t)) \<le> it_entry_count t" by (simp add: string_intern_init_def Let_def)
  moreover have "it_entry_count (string_intern_maybe_grow alloc t') = it_entry_count t'" for t'
    by (simp add: string_intern_maybe_grow_def Let_def case_prod_unfold)
  ultimately show ?thesis
    by (cases v) (auto simp: string_intern_n_def insert_entry_def Let_def case_prod_unfold split: option.splits)
qed

lemma only_allocs_count: "only_allocs t t' \<Longrightarrow> it_entry_count t' = it_entry_count t"
  by (auto simp: only_allocs_def)

lemma error_count: "it_entry_count (snd (snd (error_token alloc msg tok l t))) = it_entry_count t"
  using only_allocs_count [of t "snd (snd (error_token alloc msg tok l t))"] by simp

lemma word_count: "it_entry_count (snd (snd (lexer_lex_identifier_or_keyword alloc l t))) \<le> it_entry_count t + 1"
proof -
  define l1 where "l1 = advance_while (\<lambda>l. c_isalnum (cur l) \<or> cur l = CHR ''_'') l"
  define w where "w = slice l1 (lx_position l) (lx_position l1 - lx_position l)"
  obtain a t1 where i: "string_intern_n alloc (Some w) t = (a, t1)" by fastforce
  then have "it_entry_count t1 \<le> it_entry_count t + 1" using intern_n_count [of alloc "Some w" t] by simp
  then show ?thesis
    unfolding lexer_lex_identifier_or_keyword_def Let_def l1_def [symmetric] w_def [symmetric] i
    by (cases a) (simp_all add: error_count)
qed

lemma scan_lexeme_count: "it_entry_count (snd (snd (scan_lexeme alloc l t))) \<le> it_entry_count t + 1" (is "?P (scan_lexeme alloc l t)")
proof (cases "scan_operator (next_is l) (cur l)")
  case None
  have br: "?P a \<Longrightarrow> ?P b \<Longrightarrow> ?P (if c then a else b)" for a b c by simp
  have oa: "only_allocs t (snd (snd r)) \<Longrightarrow> ?P r" for r using only_allocs_count by fastforce
  show ?thesis unfolding scan_lexeme_def None option.case by (intro br word_count oa only_allocs_literals)
qed (auto simp: scan_lexeme_def)

lemma next_token_count: "it_entry_count (snd (snd (lexer_next_token alloc l t))) \<le> it_entry_count t + 1"
proof (induction alloc l t rule: lexer_next_token.induct)
  case (1 alloc l t)
  obtain nl l1 where s: "skip_space l = (nl, l1)" by fastforce
  obtain d l2 where b: "block_loop 1 (bump 2 l1) = (d, l2)" by fastforce
  have "case lexer_scan_token alloc l t of Inl l1 \<Rightarrow> True | Inr r \<Rightarrow> it_entry_count (snd (snd r)) \<le> it_entry_count t + 1"
    unfolding scan_token_unfold [OF s b] using scan_lexeme_count [of alloc l1 t] by (simp add: error_count)
  then have "it_entry_count (snd (snd (case lexer_scan_token alloc l t of Inr r \<Rightarrow> r | Inl l1 \<Rightarrow> lexer_next_token alloc l1 t)))
      \<le> it_entry_count t + 1"
    using "1.IH" by (cases "lexer_scan_token alloc l t") simp_all
  then show ?case unfolding lexer_next_token.simps [of alloc l t] case_prod_unfold by simp
qed

section \<open>Properties\<close>

text \<open>C37. Peeking: \<open>lexer_peek_token\<close> leaves the position, the line, the column, the bracket depth and the last
  significant token as they were, and as long as memory lasts the following call of \<open>lexer_next_token\<close> returns
  the very token that was peeked, the address of its interned text included.\<close>

theorem peek_then_next:
  assumes room: "room alloc (it_entry_count t + 1)" and fr: "fresh_alloc alloc" and r: "lex_reach alloc l t"
    and p: "lexer_peek_token alloc l t = (tok, l1, t1)"
  shows "lx_position l1 = lx_position l \<and> lx_line l1 = lx_line l \<and> lx_column l1 = lx_column l \<and>
    continuation_depth l1 = continuation_depth l \<and> last_significant l1 = last_significant l \<and>
    fst (lexer_next_token alloc l1 t1) = tok"
proof -
  obtain l' where n: "lexer_next_token alloc l t = (tok, l', t1)"
    and l1: "l1 = l'\<lparr>lx_position := lx_position l, lx_line := lx_line l, lx_column := lx_column l,
                  continuation_depth := continuation_depth l, last_significant := last_significant l\<rparr>"
    using p by (auto simp: lexer_peek_token_def split: prod.splits)
  have inv: "intern_inv t" using reach_intern_inv [OF r fr] .
  have inv1: "intern_inv t1" using next_token_spells [OF fr inv, of l] n by simp
  have f: "fits (it_entry_count t + 1) t" "fits (it_entry_count t + 1) t1"
    using inv inv1 next_token_count [of alloc l t] n by (simp_all add: intern_inv_def fits_def)
  have "lx_source l' = lx_source l" using next_token_sel(1) [OF n reach_bounds [OF r]] .
  then have "l1 = set_err (error_message l') (has_error l') l" unfolding l1 set_err_def by simp
  then have "agree (tok, l', t1) (lexer_next_token alloc l1 t1)"
    using next_token_agree [OF room f fr inv inv1, of l] n by simp
  then show ?thesis using l1 by (simp add: agree_def)
qed


text \<open>An allocator that lasts: the first address in a list of candidates that is not in use.\<close>

definition first_free :: allocator where
  "first_free n live = find (\<lambda>a. a \<notin> set live) [1, 2, 3]"

lemma first_free_fresh: "fresh_alloc first_free"
  by (simp add: fresh_alloc_def first_free_def find_Some_iff)

lemma first_free_room: "room first_free 1"
proof -
  have "first_free n live \<noteq> None" if "length live \<le> 1" for n live
    using that by (cases live) (auto simp: first_free_def)
  then show ?thesis by (simp add: room_def)
qed

theorem peek_then_next_witness:
  "\<exists>tok l1 t1. lexer_peek_token first_free (demo_lexer ''fn x'') (intern_start\<lparr>it_allocs := 1\<rparr>) = (tok, l1, t1) \<and>
     fst (lexer_next_token first_free l1 t1) = tok"
proof -
  obtain tok l1 t1 where p: "lexer_peek_token first_free (demo_lexer ''fn x'') (intern_start\<lparr>it_allocs := 1\<rparr>) = (tok, l1, t1)"
    by (metis prod_cases3)
  have "lex_reach first_free (demo_lexer ''fn x'') (intern_start\<lparr>it_allocs := 1\<rparr>)"
    by (rule reach_create [OF _ reach_start, where src = "''fn x''"])
       (simp add: lexer_create_def demo_lexer_def allocate_def first_free_def intern_start_def)
  moreover have "room first_free (it_entry_count (intern_start\<lparr>it_allocs := 1\<rparr>) + 1)" using first_free_room by (simp add: intern_start_def)
  ultimately show ?thesis using peek_then_next [OF _ first_free_fresh _ p] p by blast
qed

end
