(* ===== verification/LinkBytes.thy ===== *)
theory LinkBytes
  imports Prelude
begin

text \<open>
  The byte-level helpers of the linker (\<open>linker/linker_common.h\<close>): little-endian reads and writes and the
  rounding of offsets, together with the range test of \<open>linker/link_object.c\<close>.

  A buffer is the list of its bytes. An access outside the buffer is the error \<open>Fault\<close>, so that the absence of
  \<open>Fault\<close> in a result is memory safety; the other errors are the messages the sources report.
\<close>

section \<open>Outcomes\<close>

datatype link_error =
    Fault
  | Diverge
  | OutOfMemory
  | Refused string

type_synonym 'a outcome = "link_error + 'a"

definition andthen :: "'a outcome \<Rightarrow> ('a \<Rightarrow> 'b outcome) \<Rightarrow> 'b outcome" where
  "andthen m f = (case m of Inl e \<Rightarrow> Inl e | Inr x \<Rightarrow> f x)"

definition need :: "bool \<Rightarrow> string \<Rightarrow> unit outcome" where
  "need b message = (if b then Inr () else Inl (Refused message))"

definition allocate_mem :: "bool \<Rightarrow> unit outcome" where
  "allocate_mem ok = (if ok then Inr () else Inl OutOfMemory)"

lemma andthen_simps [simp]: "andthen (Inl e) f = Inl e" "andthen (Inr x) f = f x"
  by (simp_all add: andthen_def)

lemma andthen_assoc: "andthen (andthen m f) g = andthen m (\<lambda>x. andthen (f x) g)"
  by (cases m) simp_all

lemma andthen_Inr_iff: "andthen m f = Inr y \<longleftrightarrow> (\<exists>x. m = Inr x \<and> f x = Inr y)"
  by (cases m) simp_all

lemma andthen_InrE:
  assumes "andthen m f = Inr y" obtains x where "m = Inr x" "f x = Inr y"
  using assms by (auto simp: andthen_Inr_iff)

lemma andthen_Inl_iff: "andthen m f = Inl e \<longleftrightarrow> m = Inl e \<or> (\<exists>x. m = Inr x \<and> f x = Inl e)"
  by (cases m) simp_all

lemma need_simps [simp]: "need True s = Inr ()" "need False s = Inl (Refused s)"
  by (simp_all add: need_def)

lemma need_Inr_iff [simp]: "need b s = Inr x \<longleftrightarrow> b" "need b s = Inl e \<longleftrightarrow> \<not> b \<and> e = Refused s"
  by (auto simp: need_def)

lemma allocate_mem_iff [simp]:
  "allocate_mem b = Inr x \<longleftrightarrow> b" "allocate_mem b = Inl e \<longleftrightarrow> \<not> b \<and> e = OutOfMemory"
  by (auto simp: allocate_mem_def)

text \<open>A computation is safe when no run of it touches memory outside a buffer.\<close>

definition safe :: "'a outcome \<Rightarrow> bool" where
  "safe m \<longleftrightarrow> m \<noteq> Inl Fault"

named_theorems safe_intros \<open>computations that touch only their buffers\<close>

lemma safe_simps [simp]: "safe (Inr x)" "safe (Inl e) \<longleftrightarrow> e \<noteq> Fault" "safe (need b s)" "safe (allocate_mem b)"
  by (simp_all add: safe_def need_def allocate_mem_def)

lemma safe_andthen [safe_intros]: "safe m \<Longrightarrow> (\<And>x. m = Inr x \<Longrightarrow> safe (f x)) \<Longrightarrow> safe (andthen m f)"
  by (cases m) simp_all

lemma safe_if [safe_intros]: "(b \<Longrightarrow> safe m) \<Longrightarrow> (\<not> b \<Longrightarrow> safe n) \<Longrightarrow> safe (if b then m else n)"
  by simp

section \<open>Little-endian access\<close>

type_synonym bytes = "u8 list"

definition linker_read_u16 :: "bytes \<Rightarrow> nat \<Rightarrow> u16 outcome" where
  "linker_read_u16 d p =
    (if p + 2 \<le> length d then Inr (ucast (d ! p) OR push_bit 8 (ucast (d ! (p + 1)))) else Inl Fault)"

definition linker_read_u32 :: "bytes \<Rightarrow> nat \<Rightarrow> u32 outcome" where
  "linker_read_u32 d p =
    (if p + 4 \<le> length d
     then Inr (ucast (d ! p) OR push_bit 8 (ucast (d ! (p + 1))) OR
               push_bit 16 (ucast (d ! (p + 2))) OR push_bit 24 (ucast (d ! (p + 3))))
     else Inl Fault)"

definition linker_read_u64 :: "bytes \<Rightarrow> nat \<Rightarrow> u64 outcome" where
  "linker_read_u64 d p =
    andthen (linker_read_u32 d p) (\<lambda>lo.
    andthen (linker_read_u32 d (p + 4)) (\<lambda>hi. Inr (ucast lo OR push_bit 32 (ucast hi))))"

definition poke :: "bytes \<Rightarrow> nat \<Rightarrow> u8 list \<Rightarrow> bytes outcome" where
  "poke d p bs = (if p + length bs \<le> length d then Inr (take p d @ bs @ drop (p + length bs) d) else Inl Fault)"

definition linker_write_u32 :: "bytes \<Rightarrow> nat \<Rightarrow> u32 \<Rightarrow> bytes outcome" where
  "linker_write_u32 d p v =
    poke d p [ucast (v AND 0xFF), ucast (drop_bit 8 v AND 0xFF), ucast (drop_bit 16 v AND 0xFF),
              ucast (drop_bit 24 v AND 0xFF)]"

definition linker_write_u64 :: "bytes \<Rightarrow> nat \<Rightarrow> u64 \<Rightarrow> bytes outcome" where
  "linker_write_u64 d p v =
    poke d p [ucast (v AND 0xFF), ucast (drop_bit 8 v AND 0xFF), ucast (drop_bit 16 v AND 0xFF),
              ucast (drop_bit 24 v AND 0xFF), ucast (drop_bit 32 v AND 0xFF), ucast (drop_bit 40 v AND 0xFF),
              ucast (drop_bit 48 v AND 0xFF), ucast (drop_bit 56 v AND 0xFF)]"

definition linker_align_up :: "u64 \<Rightarrow> u64 \<Rightarrow> u64" where
  "linker_align_up value alignment =
    (if alignment = 0 then value else (value + alignment - 1) AND NOT (alignment - 1))"

definition link_object_range_ok :: "u64 \<Rightarrow> u64 \<Rightarrow> u64 \<Rightarrow> bool" where
  "link_object_range_ok file_size offset len =
    (if offset > file_size then False else if len > file_size - offset then False else True)"

section \<open>Facts on buffers\<close>

lemma length_poke: "poke d p bs = Inr d' \<Longrightarrow> length d' = length d"
  by (auto simp: poke_def split: if_splits)

lemma nth_poke:
  assumes "poke d p bs = Inr d'" "i < length d"
  shows "d' ! i = (if p \<le> i \<and> i < p + length bs then bs ! (i - p) else d ! i)"
  using assms by (auto simp: poke_def nth_append split: if_splits)

lemma poke_outside: "poke d p bs = Inr d' \<Longrightarrow> i < length d \<Longrightarrow> i < p \<or> p + length bs \<le> i \<Longrightarrow> d' ! i = d ! i"
  by (auto simp: nth_poke)

lemma poke_inside: "poke d p bs = Inr d' \<Longrightarrow> i < length bs \<Longrightarrow> d' ! (p + i) = bs ! i"
  by (subst nth_poke) (auto simp: poke_def split: if_splits)

lemma poke_safe [safe_intros]: "p + length bs \<le> length d \<Longrightarrow> safe (poke d p bs)"
  by (simp add: poke_def)

lemma read_safe [safe_intros]:
  "p + 2 \<le> length d \<Longrightarrow> safe (linker_read_u16 d p)"
  "p + 4 \<le> length d \<Longrightarrow> safe (linker_read_u32 d p)"
  "p + 8 \<le> length d \<Longrightarrow> safe (linker_read_u64 d p)"
  by (simp_all add: linker_read_u16_def linker_read_u32_def linker_read_u64_def)

lemma read_defined:
  "p + 4 \<le> length d \<Longrightarrow> \<exists>v. linker_read_u32 d p = Inr v"
  "p + 8 \<le> length d \<Longrightarrow> \<exists>v. linker_read_u64 d p = Inr v"
  by (simp_all add: linker_read_u32_def linker_read_u64_def)

lemma write_safe [safe_intros]:
  "p + 4 \<le> length d \<Longrightarrow> safe (linker_write_u32 d p v)"
  "p + 8 \<le> length d \<Longrightarrow> safe (linker_write_u64 d p w)"
  by (simp_all add: linker_write_u32_def linker_write_u64_def poke_def)

text \<open>A codec of fixed width: what is written is read back, and no other byte changes.\<close>

locale byte_codec =
  fixes rd :: "bytes \<Rightarrow> nat \<Rightarrow> 'v outcome" and wr :: "bytes \<Rightarrow> nat \<Rightarrow> 'v \<Rightarrow> bytes outcome" and width :: nat
  assumes wr_len: "wr d p v = Inr d' \<Longrightarrow> length d' = length d"
    and wr_fits: "wr d p v = Inr d' \<Longrightarrow> p + width \<le> length d"
    and wr_total: "p + width \<le> length d \<Longrightarrow> \<exists>d'. wr d p v = Inr d'"
    and wr_outside: "wr d p v = Inr d' \<Longrightarrow> i < length d \<Longrightarrow> i < p \<or> p + width \<le> i \<Longrightarrow> d' ! i = d ! i"
    and rd_wr: "wr d p v = Inr d' \<Longrightarrow> rd d' p = Inr v"
    and rd_local: "length d = length d' \<Longrightarrow>
      (\<And>i. p \<le> i \<Longrightarrow> i < p + width \<Longrightarrow> i < length d \<Longrightarrow> d ! i = d' ! i) \<Longrightarrow> rd d p = rd d' p"
begin

lemma rd_wr_other:
  assumes w: "wr d q v = Inr d'" and s: "p + width \<le> q \<or> q + width \<le> p"
  shows "rd d' p = rd d p"
  using wr_len [OF w] wr_outside [OF w] s by (intro rd_local) auto

text \<open>Two writes that do not overlap commute, so the order in which patches are applied is immaterial.\<close>

lemma wr_commute:
  assumes "wr d p v = Inr d1" "wr d1 q w = Inr d2" "wr d q w = Inr e1" "wr e1 p v = Inr e2"
    and s: "p + width \<le> q \<or> q + width \<le> p"
    and same: "\<And>d p v d' e e' i. wr d p v = Inr d' \<Longrightarrow> wr e p v = Inr e' \<Longrightarrow> length d = length e \<Longrightarrow>
      p \<le> i \<Longrightarrow> i < p + width \<Longrightarrow> d' ! i = e' ! i"
  shows "d2 = e2"
proof (rule nth_equalityI)
  note len = wr_len [OF assms(1)] wr_len [OF assms(2)] wr_len [OF assms(3)] wr_len [OF assms(4)]
  show "length d2 = length e2" using len by simp
  fix i assume i: "i < length d2"
  consider "p \<le> i" "i < p + width" | "q \<le> i" "i < q + width"
    | "i < p \<or> p + width \<le> i" "i < q \<or> q + width \<le> i" by linarith
  then show "d2 ! i = e2 ! i"
  proof cases
    case 1
    then show ?thesis using wr_outside [OF assms(2), of i] same [OF assms(1,4), of i] len i s by auto
  next
    case 2
    then show ?thesis using wr_outside [OF assms(4), of i] same [OF assms(2,3), of i] len i s by auto
  next
    case 3
    then show ?thesis
      using wr_outside [OF assms(1), of i] wr_outside [OF assms(2), of i] wr_outside [OF assms(3), of i]
        wr_outside [OF assms(4), of i] len i by auto
  qed
qed

end

lemma byte_and_255: "(ucast (w AND 0xFF :: 'a::len word) :: u8) = ucast w"
proof -
  have m: "(0xFF :: 'a word) = mask 8" by (simp add: mask_eq_exp_minus_1)
  show ?thesis unfolding m by (rule bit_word_eqI) (auto simp: bit_simps dest: bit_imp_le_length)
qed

lemma join_split32:
  "(ucast (ucast v :: u8) OR push_bit 8 (ucast (ucast (drop_bit 8 v) :: u8)) OR
    push_bit 16 (ucast (ucast (drop_bit 16 v) :: u8)) OR push_bit 24 (ucast (ucast (drop_bit 24 v) :: u8))) = (v :: u32)"
proof (rule bit_word_eqI)
  fix n assume "n < LENGTH(32)"
  then have n: "n < 32" by simp
  consider "n < 8" | "8 \<le> n" "n < 16" | "16 \<le> n" "n < 24" | "24 \<le> n" by linarith
  then show "bit (ucast (ucast v :: u8) OR push_bit 8 (ucast (ucast (drop_bit 8 v) :: u8)) OR
    push_bit 16 (ucast (ucast (drop_bit 16 v) :: u8)) OR push_bit 24 (ucast (ucast (drop_bit 24 v) :: u8)) :: u32) n = bit v n"
    by cases (use n in \<open>auto simp: bit_simps\<close>)
qed

lemma join_halves64: "(ucast (ucast v :: u32) OR push_bit 32 (ucast (ucast (drop_bit 32 v) :: u32))) = (v :: u64)"
proof (rule bit_word_eqI)
  fix n assume "n < LENGTH(64)"
  then have n: "n < 64" by simp
  consider "n < 32" | "32 \<le> n" by linarith
  then show "bit (ucast (ucast v :: u32) OR push_bit 32 (ucast (ucast (drop_bit 32 v) :: u32)) :: u64) n = bit v n"
    by cases (use n in \<open>auto simp: bit_simps\<close>)
qed

lemma byte_of_half:
  "k \<le> 24 \<Longrightarrow> (ucast (drop_bit k (ucast (v :: u64) :: u32)) :: u8) = ucast (drop_bit k v)"
  "k \<le> 24 \<Longrightarrow> (ucast (drop_bit k (ucast (drop_bit 32 v) :: u32)) :: u8) = ucast (drop_bit (32 + k) v)"
  by (rule bit_word_eqI; simp add: bit_simps ac_simps)+

lemma read32_bytes:
  assumes "d ! p = ucast (v :: u32)" "d ! (p + 1) = ucast (drop_bit 8 v)" "d ! (p + 2) = ucast (drop_bit 16 v)"
    "d ! (p + 3) = ucast (drop_bit 24 v)" "p + 4 \<le> length d"
  shows "linker_read_u32 d p = Inr v"
  using assms join_split32 [of v] by (simp add: linker_read_u32_def)

lemma read32_write32:
  assumes w: "linker_write_u32 d p v = Inr d'" shows "linker_read_u32 d' p = Inr v"
proof (rule read32_bytes)
  note p = w [unfolded linker_write_u32_def byte_and_255]
  show "d' ! p = ucast v" "d' ! (p + 1) = ucast (drop_bit 8 v)" "d' ! (p + 2) = ucast (drop_bit 16 v)"
    "d' ! (p + 3) = ucast (drop_bit 24 v)"
    using poke_inside [OF p, of 0] poke_inside [OF p, of 1] poke_inside [OF p, of 2] poke_inside [OF p, of 3] by simp_all
  show "p + 4 \<le> length d'" using length_poke [OF p] p by (auto simp: poke_def split: if_splits)
qed

lemma read64_write64:
  assumes w: "linker_write_u64 d p v = Inr d'" shows "linker_read_u64 d' p = Inr v"
proof -
  note p = w [unfolded linker_write_u64_def byte_and_255]
  have len: "p + 8 \<le> length d'" using length_poke [OF p] p by (auto simp: poke_def split: if_splits)
  have lo: "linker_read_u32 d' p = Inr (ucast v)"
    by (rule read32_bytes)
      (use len poke_inside [OF p, of 0] poke_inside [OF p, of 1] poke_inside [OF p, of 2] poke_inside [OF p, of 3]
        byte_of_half(1) [of 0 v] byte_of_half(1) [of 8 v] byte_of_half(1) [of 16 v] byte_of_half(1) [of 24 v] in simp_all)
  have hi: "linker_read_u32 d' (p + 4) = Inr (ucast (drop_bit 32 v))"
    by (rule read32_bytes)
      (use len poke_inside [OF p, of 4] poke_inside [OF p, of 5] poke_inside [OF p, of 6] poke_inside [OF p, of 7]
        byte_of_half(2) [of 0 v] byte_of_half(2) [of 8 v] byte_of_half(2) [of 16 v] byte_of_half(2) [of 24 v]
        in \<open>simp_all add: add.commute [of _ p]\<close>)
  show ?thesis using join_halves64 [of v] by (simp add: linker_read_u64_def lo hi)
qed

lemma read32_local:
  assumes "length d = length d'" "\<And>i. p \<le> i \<Longrightarrow> i < p + 4 \<Longrightarrow> i < length d \<Longrightarrow> d ! i = d' ! i"
  shows "linker_read_u32 d p = linker_read_u32 d' p"
  using assms(2) [of p] assms(2) [of "p + 1"] assms(2) [of "p + 2"] assms(2) [of "p + 3"] assms(1)
  by (simp add: linker_read_u32_def)

lemma poke_total: "p + length bs \<le> length d \<Longrightarrow> \<exists>d'. poke d p bs = Inr d'"
  by (simp add: poke_def)

lemma poke_fits: "poke d p bs = Inr d' \<Longrightarrow> p + length bs \<le> length d"
  by (simp add: poke_def split: if_splits)

lemmas write32_poke = linker_write_u32_def
lemmas write64_poke = linker_write_u64_def

interpretation u32_codec: byte_codec linker_read_u32 linker_write_u32 4
proof unfold_locales
  fix d d' :: bytes and p i :: nat and v :: u32
  show "length d' = length d" "p + 4 \<le> length d" if "linker_write_u32 d p v = Inr d'"
    using length_poke poke_fits that [unfolded linker_write_u32_def] by fastforce+
  show "\<exists>d'. linker_write_u32 d p v = Inr d'" if "p + 4 \<le> length d"
    unfolding linker_write_u32_def by (rule poke_total) (use that in simp)
  show "d' ! i = d ! i" if "linker_write_u32 d p v = Inr d'" "i < length d" "i < p \<or> p + 4 \<le> i"
    by (rule poke_outside [OF that(1) [unfolded linker_write_u32_def] that(2)]) (use that(3) in auto)
qed (rule read32_write32 read32_local; assumption)+

lemma read64_local:
  assumes "length d = length d'" "\<And>i. p \<le> i \<Longrightarrow> i < p + 8 \<Longrightarrow> i < length d \<Longrightarrow> d ! i = d' ! i"
  shows "linker_read_u64 d p = linker_read_u64 d' p"
proof -
  have "linker_read_u32 d p = linker_read_u32 d' p" "linker_read_u32 d (p + 4) = linker_read_u32 d' (p + 4)"
    by (rule read32_local; use assms in simp)+
  then show ?thesis by (simp add: linker_read_u64_def)
qed

interpretation u64_codec: byte_codec linker_read_u64 linker_write_u64 8
proof unfold_locales
  fix d d' :: bytes and p i :: nat and v :: u64
  show "length d' = length d" "p + 8 \<le> length d" if "linker_write_u64 d p v = Inr d'"
    using length_poke poke_fits that [unfolded linker_write_u64_def] by fastforce+
  show "\<exists>d'. linker_write_u64 d p v = Inr d'" if "p + 8 \<le> length d"
    unfolding linker_write_u64_def by (rule poke_total) (use that in simp)
  show "d' ! i = d ! i" if "linker_write_u64 d p v = Inr d'" "i < length d" "i < p \<or> p + 8 \<le> i"
    by (rule poke_outside [OF that(1) [unfolded linker_write_u64_def] that(2)]) (use that(3) in auto)
qed (rule read64_write64 read64_local; assumption)+

section \<open>Ranges and alignment\<close>

lemma unat_ucast_up: "unat (ucast (x :: u32) :: u64) = unat x" "unat (ucast (y :: u16) :: u64) = unat y"
  "unat (ucast (y :: u16) :: u32) = unat y"
proof -
  have "unat x < 2 ^ 32" "unat y < 2 ^ 16" using unsigned_less [of x] unsigned_less [of y] by simp_all
  then show "unat (ucast x :: u64) = unat x" "unat (ucast y :: u64) = unat y" "unat (ucast y :: u32) = unat y"
    by (simp_all add: unsigned_ucast_eq take_bit_nat_eq_self)
qed

lemma range_ok_iff: "link_object_range_ok n p k \<longleftrightarrow> unat p + unat k \<le> unat n"
  by (auto simp: link_object_range_ok_def word_less_nat_alt unat_sub_if' split: if_splits)

text \<open>Clearing the bits of a mask takes away at most the mask.\<close>

lemma and_not_unat: "unat (w AND NOT k :: u64) = unat w - unat (w AND k)" "unat (w AND k) \<le> unat k"
  "unat (w AND k) \<le> unat w"
proof -
  have "w AND NOT k = w AND NOT (w AND k)" by (rule bit_word_eqI) (auto simp: bit_simps)
  also have "\<dots> = w - (w AND k)"
    by (rule disjunctive_diff_eq_and_not [symmetric]) (auto simp: bit_eq_iff bit_simps)
  finally have e: "w AND NOT k = w - (w AND k)" .
  show le: "unat (w AND k) \<le> unat w" by (simp add: word_and_le2 flip: word_le_nat_alt)
  show "unat (w AND k) \<le> unat k" by (simp add: word_and_le1 flip: word_le_nat_alt)
  show "unat (w AND NOT k :: u64) = unat w - unat (w AND k)"
    unfolding e using le by (simp add: unat_sub word_le_nat_alt)
qed

lemma align_up_bounds:
  assumes "unat v + unat a \<le> 2 ^ 64"
  shows "unat v \<le> unat (linker_align_up v a)" "unat (linker_align_up v a) \<le> unat v + (unat a - 1)"
proof -
  have "unat v \<le> unat (linker_align_up v a) \<and> unat (linker_align_up v a) \<le> unat v + (unat a - 1)"
  proof (cases "a = 0")
    case False
    then have a: "0 < unat a" by (simp add: unat_gt_0)
    have one: "unat (a - 1) = unat a - 1" using False by (simp add: unat_minus_one)
    have s: "unat (v + a - 1) = unat v + (unat a - 1)"
      using assms a one unat_add_lem [of v "a - 1"] unfolding add_diff_eq by fastforce
    then show ?thesis
      using and_not_unat(1,2) [of "v + a - 1" "a - 1"] one False by (simp add: linker_align_up_def)
  qed (simp add: linker_align_up_def)
  then show "unat v \<le> unat (linker_align_up v a)" "unat (linker_align_up v a) \<le> unat v + (unat a - 1)" by simp_all
qed

lemma align_up_dvd:
  assumes "unat a = 2 ^ k" shows "2 ^ k dvd unat (linker_align_up v a)"
proof -
  have "(2::nat) ^ k < 2 ^ 64" using unat64_less [of a] assms by simp
  then have k: "k < 64" by (simp only: power_strict_increasing_iff)
  have "a = word_of_nat (2 ^ k)" using word_of_unat [OF assms] .
  then have "a = 2 ^ k" by simp
  then have "linker_align_up v a = (v + a - 1) AND NOT (mask k)"
    using k by (simp add: linker_align_up_def mask_eq_exp_minus_1)
  then have "take_bit k (linker_align_up v a) = 0"
    by (auto simp: bit_eq_iff bit_simps)
  then have "take_bit k (unat (linker_align_up v a)) = 0"
    by (metis unsigned_0 unsigned_take_bit_eq)
  then show ?thesis by (simp add: take_bit_eq_0_iff)
qed

end
