(* ===== verification/LinkObject.thy ===== *)
theory LinkObject
  imports LinkBytes
begin

text \<open>
  The object files the linker works on (\<open>linker/link_object.h\<close>, \<open>linker/link_object.c\<close>) and the COFF objects
  they may come from (types of \<open>linker/coff_reader.h\<close>): the records, the lookups, and the conversion of a COFF
  object.

  A \<open>char *\<close> that may be null is a \<open>string option\<close>; an array with its count is a list; an \<open>int64_t\<close> that only
  holds indices and the markers below zero is an \<open>int\<close>. Whether an allocation succeeds is a parameter, a
  predicate on the place in the code that allocates.
\<close>

section \<open>Data\<close>

datatype LinkObjectFormat = LINK_FORMAT_COFF | LINK_FORMAT_ELF

datatype LinkSectionKind =
    LINK_SECTION_KIND_UNKNOWN | LINK_SECTION_KIND_TEXT | LINK_SECTION_KIND_RDATA | LINK_SECTION_KIND_DATA
  | LINK_SECTION_KIND_BSS | LINK_SECTION_KIND_TLS | LINK_SECTION_KIND_PDATA | LINK_SECTION_KIND_XDATA

datatype LinkRelocKind =
    LINK_RELOC_NONE | LINK_RELOC_ABS64 | LINK_RELOC_PC32 | LINK_RELOC_ABS32 | LINK_RELOC_IMAGE_REL32
  | LINK_RELOC_SECREL32 | LINK_RELOC_TPOFF32 | LINK_RELOC_GOTPCREL32 | LINK_RELOC_GOTPCRELX32

record LinkReloc =
  rl_offset :: u64
  rl_symbol_index :: u32
  rl_kind :: LinkRelocKind
  rl_addend :: i64
  rl_addend_is_explicit :: bool
  rl_format_type :: u32

record LinkSection =
  sc_name :: "string option"
  sc_kind :: LinkSectionKind
  sc_virtual_size :: u64
  sc_size_of_raw_data :: u64
  sc_alignment :: u64
  sc_raw_data :: "bytes option"
  sc_relocations :: "LinkReloc list"
  sc_is_metadata :: bool

record LinkSymbol =
  sy_name :: "string option"
  sy_value :: u64
  sy_section_index :: int
  sy_is_external :: bool
  sy_is_defined :: bool
  sy_is_auxiliary :: bool
  sy_is_weak :: bool
  sy_is_common :: bool
  sy_aux_section_length :: u64
  sy_size :: u64
  sy_elf_type :: u8

record LinkObject =
  ob_format :: LinkObjectFormat
  ob_sections :: "LinkSection list"
  ob_symbols :: "LinkSymbol list"

definition LINK_SECTION_INDEX_UNDEFINED :: int where "LINK_SECTION_INDEX_UNDEFINED = -1"
definition LINK_SECTION_INDEX_ABSOLUTE :: int where "LINK_SECTION_INDEX_ABSOLUTE = -2"
definition LINK_SECTION_INDEX_COMMON :: int where "LINK_SECTION_INDEX_COMMON = -3"

lemmas section_index_defs =
  LINK_SECTION_INDEX_UNDEFINED_def LINK_SECTION_INDEX_ABSOLUTE_def LINK_SECTION_INDEX_COMMON_def

datatype CoffSectionKind =
    COFF_SECTION_KIND_UNKNOWN | COFF_SECTION_KIND_TEXT | COFF_SECTION_KIND_RDATA | COFF_SECTION_KIND_DATA
  | COFF_SECTION_KIND_BSS | COFF_SECTION_KIND_PDATA | COFF_SECTION_KIND_XDATA

record CoffRelocation =
  cr_virtual_address :: u32
  cr_symbol_table_index :: u32
  cr_type :: u16

record CoffSection =
  cs_name :: "string option"
  cs_kind :: CoffSectionKind
  cs_virtual_size :: u32
  cs_virtual_address :: u32
  cs_size_of_raw_data :: u32
  cs_pointer_to_raw_data :: u32
  cs_pointer_to_relocations :: u32
  cs_pointer_to_line_numbers :: u32
  cs_number_of_relocations :: u16
  cs_number_of_line_numbers :: u16
  cs_characteristics :: u32
  cs_raw_data :: "bytes option"
  cs_relocations :: "CoffRelocation list"

record CoffSymbol =
  cy_raw_index :: u32
  cy_name :: "string option"
  cy_value :: u32
  cy_section_number :: u16
  cy_type :: u16
  cy_storage_class :: u8
  cy_auxiliary_count :: u8
  cy_is_auxiliary :: bool
  cy_primary_symbol_index :: u32
  cy_has_auxiliary_record :: bool
  cy_aux_section_length :: u32
  cy_aux_section_relocation_count :: u16
  cy_aux_section_line_number_count :: u16

record CoffObject =
  co_machine :: u16
  co_section_count :: u16
  co_time_date_stamp :: u32
  co_pointer_to_symbol_table :: u32
  co_symbol_count :: u32
  co_size_of_optional_header :: u16
  co_characteristics :: u16
  co_sections :: "CoffSection list"
  co_symbols :: "CoffSymbol list"
  co_string_table :: "bytes option"
  co_string_table_size :: u32

datatype alloc_site =
    AllocObject | AllocStringTable | AllocSections | AllocSymbols
  | AllocSectionName nat | AllocSectionData nat | AllocSectionRelocs nat | AllocSymbolName nat

type_synonym memory = "alloc_site \<Rightarrow> bool"

definition enough_memory :: memory where "enough_memory = (\<lambda>_. True)"

text \<open>The C string that starts a sequence of bytes.\<close>

definition cstr :: "bytes \<Rightarrow> string" where
  "cstr bs = map (\<lambda>b. char_of (unat b)) (takeWhile (\<lambda>b. b \<noteq> 0) bs)"

definition strdup :: "bool \<Rightarrow> string option \<Rightarrow> string option" where
  "strdup ok s = (if ok then s else None)"

section \<open>Loops over arrays\<close>

text \<open>A loop that fills entry \<open>i\<close> of an array from entry \<open>i\<close> of another, and stops at the first error.\<close>

fun map_outcome :: "(nat \<Rightarrow> 'a \<Rightarrow> 'b outcome) \<Rightarrow> nat \<Rightarrow> 'a list \<Rightarrow> 'b list outcome" where
  "map_outcome f i [] = Inr []"
| "map_outcome f i (x # xs) = andthen (f i x) (\<lambda>y. andthen (map_outcome f (Suc i) xs) (\<lambda>ys. Inr (y # ys)))"

fun fold_outcome :: "('a \<Rightarrow> 's \<Rightarrow> 's outcome) \<Rightarrow> 'a list \<Rightarrow> 's \<Rightarrow> 's outcome" where
  "fold_outcome f [] s = Inr s"
| "fold_outcome f (x # xs) s = andthen (f x s) (fold_outcome f xs)"

lemma map_outcome_nth:
  "map_outcome f i xs = Inr ys \<Longrightarrow>
   length ys = length xs \<and> (\<forall>k < length xs. f (i + k) (xs ! k) = Inr (ys ! k))"
proof (induction xs arbitrary: i ys)
  case (Cons x xs)
  then obtain y zs where y: "f i x = Inr y" and z: "map_outcome f (Suc i) xs = Inr zs" and ys: "ys = y # zs"
    by (auto simp: andthen_Inr_iff)
  note IH = Cons.IH [OF z]
  have "f (i + k) ((x # xs) ! k) = Inr (ys ! k)" if "k < length (x # xs)" for k
    using that IH y ys by (cases k) auto
  then show ?case using IH ys by simp
qed simp

lemma map_outcome_length: "map_outcome f i xs = Inr ys \<Longrightarrow> length ys = length xs"
  by (simp add: map_outcome_nth)

lemma map_outcome_all:
  assumes "map_outcome f i xs = Inr ys" and "\<And>k x y. x \<in> set xs \<Longrightarrow> f k x = Inr y \<Longrightarrow> P y"
  shows "\<forall>y\<in>set ys. P y"
  using map_outcome_nth [OF assms(1)] assms(2) by (metis in_set_conv_nth)

lemma map_outcome_safe [safe_intros]:
  "(\<And>k x. x \<in> set xs \<Longrightarrow> safe (f k x)) \<Longrightarrow> safe (map_outcome f i xs)"
proof (induction xs arbitrary: i)
  case (Cons x xs)
  then show ?case by (cases "f i x"; cases "map_outcome f (Suc i) xs") (fastforce simp: safe_def)+
qed simp

lemma map_outcome_cong:
  "(\<And>k x. x \<in> set xs \<Longrightarrow> f k x = g k x) \<Longrightarrow> map_outcome f i xs = map_outcome g i xs"
  by (induction xs arbitrary: i) simp_all

lemma fold_outcome_inv:
  assumes "\<And>x s s'. x \<in> set xs \<Longrightarrow> I s \<Longrightarrow> f x s = Inr s' \<Longrightarrow> I s'"
  shows "I s \<Longrightarrow> fold_outcome f xs s = Inr s' \<Longrightarrow> I s'"
  using assms by (induction xs arbitrary: s) (auto simp: andthen_Inr_iff)

lemma fold_outcome_safe [safe_intros]:
  assumes "\<And>x s s'. x \<in> set xs \<Longrightarrow> I s \<Longrightarrow> f x s = Inr s' \<Longrightarrow> I s'" and "\<And>x s. x \<in> set xs \<Longrightarrow> I s \<Longrightarrow> safe (f x s)"
  shows "I s \<Longrightarrow> safe (fold_outcome f xs s)"
  using assms by (induction xs arbitrary: s) (auto intro!: safe_andthen)

lemma fold_outcome_append: "fold_outcome f (xs @ ys) s = andthen (fold_outcome f xs s) (fold_outcome f ys)"
  by (induction xs arbitrary: s) (auto simp: andthen_def split: sum.split)

section \<open>Lookups and names\<close>

definition link_object_find_section_by_kind :: "LinkObject option \<Rightarrow> LinkSectionKind \<Rightarrow> LinkSection option" where
  "link_object_find_section_by_kind object kind =
    (case object of None \<Rightarrow> None | Some ob \<Rightarrow> find (\<lambda>s. sc_kind s = kind) (ob_sections ob))"

definition link_object_find_symbol :: "LinkObject option \<Rightarrow> string option \<Rightarrow> LinkSymbol option" where
  "link_object_find_symbol object name =
    (case (object, name) of
       (Some ob, Some n) \<Rightarrow> find (\<lambda>s. sy_name s = Some n) (ob_symbols ob)
     | _ \<Rightarrow> None)"

fun link_section_kind_name :: "LinkSectionKind \<Rightarrow> string" where
  "link_section_kind_name LINK_SECTION_KIND_TEXT = ''.text''"
| "link_section_kind_name LINK_SECTION_KIND_RDATA = ''.rdata''"
| "link_section_kind_name LINK_SECTION_KIND_DATA = ''.data''"
| "link_section_kind_name LINK_SECTION_KIND_BSS = ''.bss''"
| "link_section_kind_name LINK_SECTION_KIND_TLS = ''.tls''"
| "link_section_kind_name LINK_SECTION_KIND_PDATA = ''.pdata''"
| "link_section_kind_name LINK_SECTION_KIND_XDATA = ''.xdata''"
| "link_section_kind_name LINK_SECTION_KIND_UNKNOWN = ''<unknown>''"

fun link_reloc_kind_name :: "LinkRelocKind \<Rightarrow> string" where
  "link_reloc_kind_name LINK_RELOC_ABS64 = ''ABS64''"
| "link_reloc_kind_name LINK_RELOC_PC32 = ''PC32''"
| "link_reloc_kind_name LINK_RELOC_ABS32 = ''ABS32''"
| "link_reloc_kind_name LINK_RELOC_IMAGE_REL32 = ''REL32''"
| "link_reloc_kind_name LINK_RELOC_SECREL32 = ''SECREL32''"
| "link_reloc_kind_name LINK_RELOC_TPOFF32 = ''TPOFF32''"
| "link_reloc_kind_name LINK_RELOC_GOTPCREL32 = ''GOTPCREL32''"
| "link_reloc_kind_name LINK_RELOC_GOTPCRELX32 = ''GOTPCRELX32''"
| "link_reloc_kind_name LINK_RELOC_NONE = ''NONE''"

section \<open>Objects that came from COFF\<close>

fun link_section_kind_from_coff :: "CoffSectionKind \<Rightarrow> LinkSectionKind" where
  "link_section_kind_from_coff COFF_SECTION_KIND_TEXT = LINK_SECTION_KIND_TEXT"
| "link_section_kind_from_coff COFF_SECTION_KIND_RDATA = LINK_SECTION_KIND_RDATA"
| "link_section_kind_from_coff COFF_SECTION_KIND_DATA = LINK_SECTION_KIND_DATA"
| "link_section_kind_from_coff COFF_SECTION_KIND_BSS = LINK_SECTION_KIND_BSS"
| "link_section_kind_from_coff COFF_SECTION_KIND_PDATA = LINK_SECTION_KIND_PDATA"
| "link_section_kind_from_coff COFF_SECTION_KIND_XDATA = LINK_SECTION_KIND_XDATA"
| "link_section_kind_from_coff COFF_SECTION_KIND_UNKNOWN = LINK_SECTION_KIND_UNKNOWN"

definition link_reloc_kind_from_coff :: "u16 \<Rightarrow> LinkRelocKind" where
  "link_reloc_kind_from_coff type =
    (if type = 1 then LINK_RELOC_ABS64 else if type = 2 then LINK_RELOC_ABS32
     else if type = 3 then LINK_RELOC_IMAGE_REL32 else if type = 4 then LINK_RELOC_PC32
     else if type = 11 then LINK_RELOC_SECREL32 else LINK_RELOC_NONE)"

definition link_alignment_from_coff :: "u32 \<Rightarrow> u64" where
  "link_alignment_from_coff characteristics =
    (let field = drop_bit 20 (characteristics AND 0x00F00000)
     in if field \<noteq> 0 then push_bit (unat (field - 1)) 1 else 1)"

definition adopt_coff_reloc :: "CoffRelocation \<Rightarrow> LinkReloc" where
  "adopt_coff_reloc r =
    \<lparr>rl_offset = ucast (cr_virtual_address r), rl_symbol_index = cr_symbol_table_index r,
     rl_kind = link_reloc_kind_from_coff (cr_type r), rl_addend = 0, rl_addend_is_explicit = False,
     rl_format_type = ucast (cr_type r)\<rparr>"

definition adopt_coff_section :: "memory \<Rightarrow> nat \<Rightarrow> CoffSection \<Rightarrow> LinkSection outcome" where
  "adopt_coff_section mem i source =
    (let section = \<lparr>sc_name = strdup (mem (AllocSectionName i)) (cs_name source),
           sc_kind = link_section_kind_from_coff (cs_kind source),
           sc_virtual_size = ucast (cs_size_of_raw_data source), sc_size_of_raw_data = 0,
           sc_alignment = link_alignment_from_coff (cs_characteristics source),
           sc_raw_data = None, sc_relocations = [],
           sc_is_metadata = (cs_kind source = COFF_SECTION_KIND_UNKNOWN)\<rparr>;
         n = unat (cs_size_of_raw_data source)
     in andthen
       (case cs_raw_data source of
          Some raw \<Rightarrow>
            if cs_size_of_raw_data source > 0
            then andthen (allocate_mem (mem (AllocSectionData i))) (\<lambda>_.
                 if n \<le> length raw
                 then Inr (section\<lparr>sc_raw_data := Some (take n raw), sc_size_of_raw_data := ucast (cs_size_of_raw_data source)\<rparr>)
                 else Inl Fault)
            else Inr section
        | None \<Rightarrow> Inr section)
       (\<lambda>section.
          if cs_relocations source = [] then Inr section
          else andthen (allocate_mem (mem (AllocSectionRelocs i))) (\<lambda>_.
               Inr (section\<lparr>sc_relocations := map adopt_coff_reloc (cs_relocations source)\<rparr>))))"

definition link_object_adopt_coff_sections :: "memory \<Rightarrow> CoffObject \<Rightarrow> LinkObject \<Rightarrow> LinkObject outcome" where
  "link_object_adopt_coff_sections mem coff object =
    andthen (allocate_mem (mem AllocSections)) (\<lambda>_.
    andthen (map_outcome (adopt_coff_section mem) 0 (co_sections coff)) (\<lambda>secs.
    Inr (object\<lparr>ob_sections := secs\<rparr>)))"

definition adopt_coff_symbol :: "memory \<Rightarrow> nat \<Rightarrow> nat \<Rightarrow> CoffSymbol \<Rightarrow> LinkSymbol outcome" where
  "adopt_coff_symbol mem section_count i source =
    (let symbol = \<lparr>sy_name = strdup (mem (AllocSymbolName i)) (cy_name source), sy_value = ucast (cy_value source),
           sy_section_index = LINK_SECTION_INDEX_UNDEFINED, sy_is_external = False, sy_is_defined = False,
           sy_is_auxiliary = cy_is_auxiliary source, sy_is_weak = False, sy_is_common = False,
           sy_aux_section_length = (if cy_has_auxiliary_record source then ucast (cy_aux_section_length source) else 0),
           sy_size = 0, sy_elf_type = 0\<rparr>
     in if cy_is_auxiliary source then Inr symbol
        else let symbol = symbol\<lparr>sy_is_external := (cy_storage_class source = 2), sy_is_weak := (cy_storage_class source = 105)\<rparr>;
                 number = sint (cy_section_number source)
             in if number > 0 then
                  andthen (need (number \<le> int section_count) ''COFF symbol names a section outside the section table'') (\<lambda>_.
                  Inr (symbol\<lparr>sy_section_index := number - 1, sy_is_defined := True\<rparr>))
                else if number = -1 then
                  Inr (symbol\<lparr>sy_section_index := LINK_SECTION_INDEX_ABSOLUTE, sy_is_defined := True\<rparr>)
                else if number = 0 \<and> cy_value source \<noteq> 0 then
                  Inr (symbol\<lparr>sy_section_index := LINK_SECTION_INDEX_COMMON, sy_is_common := True, sy_is_defined := True\<rparr>)
                else Inr symbol)"

definition link_object_adopt_coff_symbols :: "memory \<Rightarrow> CoffObject \<Rightarrow> LinkObject \<Rightarrow> LinkObject outcome" where
  "link_object_adopt_coff_symbols mem coff object =
    andthen (allocate_mem (mem AllocSymbols)) (\<lambda>_.
    andthen (map_outcome (adopt_coff_symbol mem (length (ob_sections object))) 0 (co_symbols coff)) (\<lambda>syms.
    Inr (object\<lparr>ob_symbols := syms\<rparr>)))"

text \<open>The conversion after the COFF file has been parsed.\<close>

definition link_object_from_coff :: "memory \<Rightarrow> CoffObject \<Rightarrow> LinkObject outcome" where
  "link_object_from_coff mem coff =
    andthen (allocate_mem (mem AllocObject)) (\<lambda>_.
    andthen (link_object_adopt_coff_sections mem coff
               \<lparr>ob_format = LINK_FORMAT_COFF, ob_sections = [], ob_symbols = []\<rparr>) (\<lambda>object.
    link_object_adopt_coff_symbols mem coff object))"

section \<open>Well-formed objects\<close>

text \<open>What the stages after the readers rely on: a section with raw data has exactly the announced number of
  bytes, a symbol defined in a section names one that exists, and the markers below zero are the three of the
  header file.\<close>

definition section_wf :: "LinkSection \<Rightarrow> bool" where
  "section_wf s \<longleftrightarrow> (case sc_raw_data s of
       None \<Rightarrow> sc_size_of_raw_data s = 0
     | Some raw \<Rightarrow> length raw = unat (sc_size_of_raw_data s) \<and> 0 < length raw \<and> sc_size_of_raw_data s \<le> sc_virtual_size s)"

definition symbol_wf :: "nat \<Rightarrow> LinkSymbol \<Rightarrow> bool" where
  "symbol_wf n y \<longleftrightarrow> - 3 \<le> sy_section_index y \<and> sy_section_index y < int n \<and>
     (sy_is_defined y \<longleftrightarrow> sy_section_index y \<noteq> LINK_SECTION_INDEX_UNDEFINED) \<and>
     (sy_is_common y \<longleftrightarrow> sy_section_index y = LINK_SECTION_INDEX_COMMON)"

definition object_wf :: "LinkObject \<Rightarrow> bool" where
  "object_wf ob \<longleftrightarrow> (\<forall>s\<in>set (ob_sections ob). section_wf s) \<and>
     (\<forall>y\<in>set (ob_symbols ob). symbol_wf (length (ob_sections ob)) y)"

end
