(* ===== verification/CoffReader.thy ===== *)
theory CoffReader
  imports LinkObject
begin

text \<open>
  The COFF reader (\<open>linker/coff_reader.c\<close>) on the bytes of a file: string table, sections with their relocations,
  symbols with their auxiliary records. Every access to the file goes through \<open>slice\<close> and the little-endian reads,
  which are the error \<open>Fault\<close> outside the file; the properties are at the end: no file makes the reader touch
  memory outside its buffers, and an object it accepts is well formed.
\<close>

section \<open>Access to the file\<close>

definition slice :: "bytes \<Rightarrow> nat \<Rightarrow> nat \<Rightarrow> bytes outcome" where
  "slice d p n = (if p + n \<le> length d then Inr (take n (drop p d)) else Inl Fault)"

lemma slice_safe [safe_intros]: "p + n \<le> length d \<Longrightarrow> safe (slice d p n)"
  by (simp add: slice_def)

lemma slice_Inr: "slice d p n = Inr bs \<Longrightarrow> length bs = n"
  by (auto simp: slice_def split: if_splits)

definition COFF_FILE_HEADER_SIZE :: nat where "COFF_FILE_HEADER_SIZE = 20"
definition COFF_SECTION_HEADER_SIZE :: nat where "COFF_SECTION_HEADER_SIZE = 40"
definition COFF_SYMBOL_SIZE :: nat where "COFF_SYMBOL_SIZE = 18"
definition COFF_RELOCATION_SIZE :: nat where "COFF_RELOCATION_SIZE = 10"

lemmas coff_sizes =
  COFF_FILE_HEADER_SIZE_def COFF_SECTION_HEADER_SIZE_def COFF_SYMBOL_SIZE_def COFF_RELOCATION_SIZE_def

definition coff_reader_dup_bytes_trimmed :: "bool \<Rightarrow> bytes \<Rightarrow> string option" where
  "coff_reader_dup_bytes_trimmed ok bs =
    (if ok then Some (cstr (rev (dropWhile (\<lambda>b. b = 0) (rev bs)))) else None)"

definition coff_reader_dup_cstring_range :: "bool \<Rightarrow> bytes \<Rightarrow> string option" where
  "coff_reader_dup_cstring_range ok bs =
    (if length (takeWhile (\<lambda>b. b \<noteq> 0) bs) = length bs then None
     else if ok then Some (cstr bs) else None)"

definition coff_reader_range_ok :: "nat \<Rightarrow> u32 \<Rightarrow> nat \<Rightarrow> bool" where
  "coff_reader_range_ok file_size offset len =
    (if unat offset > file_size then False else if len > file_size - unat offset then False else True)"

lemma coff_range_ok_iff: "coff_reader_range_ok n p k \<longleftrightarrow> unat p + k \<le> n"
  by (auto simp: coff_reader_range_ok_def)

definition coff_reader_string_from_table :: "bool \<Rightarrow> CoffObject \<Rightarrow> u32 \<Rightarrow> string option outcome" where
  "coff_reader_string_from_table ok object offset =
    (case co_string_table object of
       None \<Rightarrow> Inr None
     | Some table \<Rightarrow>
         if co_string_table_size object < 4 then Inr None
         else if offset < 4 \<or> offset \<ge> co_string_table_size object then Inr None
         else andthen (slice table (unat offset) (unat (co_string_table_size object - offset))) (\<lambda>range.
              Inr (coff_reader_dup_cstring_range ok range)))"

definition isdigit_u8 :: "u8 \<Rightarrow> bool" where
  "isdigit_u8 b \<longleftrightarrow> 48 \<le> b \<and> b \<le> 57"

text \<open>The decimal offset after the slash: \<open>None\<close> when a character before the end is not a digit.\<close>

fun parse_name_offset :: "bytes \<Rightarrow> u32 \<Rightarrow> u32 option" where
  "parse_name_offset [] offset = Some offset"
| "parse_name_offset (b # bs) offset =
    (if b = 0 then Some offset
     else if \<not> isdigit_u8 b then None
     else parse_name_offset bs (offset * 10 + ucast (b - 48)))"

definition coff_reader_parse_section_name :: "bool \<Rightarrow> bytes \<Rightarrow> CoffObject \<Rightarrow> string option outcome" where
  "coff_reader_parse_section_name ok field object =
    (if field ! 0 = 47 then
       (case parse_name_offset (drop 1 field) 0 of
          None \<Rightarrow> Inr (coff_reader_dup_bytes_trimmed ok field)
        | Some offset \<Rightarrow> coff_reader_string_from_table ok object offset)
     else Inr (coff_reader_dup_bytes_trimmed ok field))"

definition coff_reader_parse_symbol_name :: "bool \<Rightarrow> bytes \<Rightarrow> CoffObject \<Rightarrow> string option outcome" where
  "coff_reader_parse_symbol_name ok field object =
    andthen (linker_read_u32 field 0) (\<lambda>zero_prefix.
    andthen (linker_read_u32 field 4) (\<lambda>offset.
      if zero_prefix = 0 \<and> offset \<noteq> 0 then coff_reader_string_from_table ok object offset
      else Inr (coff_reader_dup_bytes_trimmed ok field)))"

section \<open>Section kinds\<close>

definition coff_section_name_matches_prefix :: "string \<Rightarrow> string \<Rightarrow> bool" where
  "coff_section_name_matches_prefix name prefix \<longleftrightarrow>
     take (length prefix) name = prefix \<and>
     (case drop (length prefix) name of [] \<Rightarrow> True | c # _ \<Rightarrow> c = CHR ''$'' \<or> c = CHR ''.'')"

definition coff_section_kind_from_name :: "string option \<Rightarrow> CoffSectionKind" where
  "coff_section_kind_from_name name =
    (case name of
       None \<Rightarrow> COFF_SECTION_KIND_UNKNOWN
     | Some n \<Rightarrow>
         if take 1 n \<noteq> ''.'' then COFF_SECTION_KIND_UNKNOWN
         else if coff_section_name_matches_prefix n ''.text'' then COFF_SECTION_KIND_TEXT
         else if coff_section_name_matches_prefix n ''.rdata'' then COFF_SECTION_KIND_RDATA
         else if coff_section_name_matches_prefix n ''.data'' then COFF_SECTION_KIND_DATA
         else if coff_section_name_matches_prefix n ''.bss'' then COFF_SECTION_KIND_BSS
         else if coff_section_name_matches_prefix n ''.pdata'' then COFF_SECTION_KIND_PDATA
         else if coff_section_name_matches_prefix n ''.xdata'' then COFF_SECTION_KIND_XDATA
         else COFF_SECTION_KIND_UNKNOWN)"

fun coff_section_kind_name :: "CoffSectionKind \<Rightarrow> string" where
  "coff_section_kind_name COFF_SECTION_KIND_TEXT = ''.text''"
| "coff_section_kind_name COFF_SECTION_KIND_RDATA = ''.rdata''"
| "coff_section_kind_name COFF_SECTION_KIND_DATA = ''.data''"
| "coff_section_kind_name COFF_SECTION_KIND_BSS = ''.bss''"
| "coff_section_kind_name COFF_SECTION_KIND_PDATA = ''.pdata''"
| "coff_section_kind_name COFF_SECTION_KIND_XDATA = ''.xdata''"
| "coff_section_kind_name COFF_SECTION_KIND_UNKNOWN = ''<unknown>''"

section \<open>The string table\<close>

definition coff_reader_parse_string_table :: "memory \<Rightarrow> bytes \<Rightarrow> CoffObject \<Rightarrow> CoffObject outcome" where
  "coff_reader_parse_string_table mem d object =
    (let offset = unat (co_pointer_to_symbol_table object) + unat (co_symbol_count object) * COFF_SYMBOL_SIZE
     in andthen (need (offset \<le> length d) ''COFF string table offset is out of range'') (\<lambda>_.
        if offset = length d then Inr object
        else andthen (need (coff_reader_range_ok (length d) (word_of_nat offset) 4) ''COFF string table header is truncated'') (\<lambda>_.
             andthen (linker_read_u32 d offset) (\<lambda>size.
             if size = 0 then Inr object
             else andthen (need (4 \<le> size) ''COFF string table size is invalid'') (\<lambda>_.
                  andthen (need (coff_reader_range_ok (length d) (word_of_nat offset) (unat size))
                            ''COFF string table extends past end of file'') (\<lambda>_.
                  andthen (allocate_mem (mem AllocStringTable)) (\<lambda>_.
                  andthen (slice d offset (unat size)) (\<lambda>table.
                  Inr (object\<lparr>co_string_table := Some table, co_string_table_size := size\<rparr>)))))))))"

section \<open>Sections\<close>

definition parse_coff_reloc :: "bytes \<Rightarrow> nat \<Rightarrow> CoffRelocation outcome" where
  "parse_coff_reloc d p =
    andthen (linker_read_u32 d p) (\<lambda>va.
    andthen (linker_read_u32 d (p + 4)) (\<lambda>sym.
    andthen (linker_read_u16 d (p + 8)) (\<lambda>ty.
    Inr \<lparr>cr_virtual_address = va, cr_symbol_table_index = sym, cr_type = ty\<rparr>)))"

text \<open>The number of relocations and the number of records before the first one: a section with more than 65534
  relocations keeps the count in its first record.\<close>

definition coff_reloc_count :: "bytes \<Rightarrow> CoffSection \<Rightarrow> (u32 \<times> nat) outcome" where
  "coff_reloc_count d section =
    (if cs_characteristics section AND 0x01000000 \<noteq> 0 \<and> cs_number_of_relocations section = 0xFFFF
     then andthen (need (coff_reader_range_ok (length d) (cs_pointer_to_relocations section) COFF_RELOCATION_SIZE)
                    ''overflow relocation header is out of range'') (\<lambda>_.
          andthen (linker_read_u32 d (unat (cs_pointer_to_relocations section))) (\<lambda>stored.
          andthen (need (stored \<noteq> 0) ''invalid overflow relocation count'') (\<lambda>_.
          Inr (stored - 1, 1))))
     else Inr (ucast (cs_number_of_relocations section), 0))"

definition coff_read_relocs :: "memory \<Rightarrow> bytes \<Rightarrow> nat \<Rightarrow> CoffSection \<Rightarrow> CoffSection outcome" where
  "coff_read_relocs mem d i section =
    andthen (coff_reloc_count d section) (\<lambda>(actual_relocations, base_record).
      if actual_relocations > 0
      then andthen (need (coff_reader_range_ok (length d) (cs_pointer_to_relocations section)
                      ((unat actual_relocations + base_record) * COFF_RELOCATION_SIZE))
                    ''relocation table is out of range'') (\<lambda>_.
           andthen (allocate_mem (mem (AllocSectionRelocs i))) (\<lambda>_.
           andthen (map_outcome (\<lambda>_ r. parse_coff_reloc d (unat (cs_pointer_to_relocations section) +
                                   (r + base_record) * COFF_RELOCATION_SIZE)) 0 [0..<unat actual_relocations]) (\<lambda>relocs.
           Inr (section\<lparr>cs_relocations := relocs\<rparr>))))
      else Inr section)"

definition coff_read_raw :: "memory \<Rightarrow> bytes \<Rightarrow> nat \<Rightarrow> CoffSection \<Rightarrow> CoffSection outcome" where
  "coff_read_raw mem d i section =
    (if cs_size_of_raw_data section > 0 \<and> cs_pointer_to_raw_data section \<noteq> 0
     then andthen (need (coff_reader_range_ok (length d) (cs_pointer_to_raw_data section)
                          (unat (cs_size_of_raw_data section))) ''raw data is out of range'') (\<lambda>_.
          andthen (allocate_mem (mem (AllocSectionData i))) (\<lambda>_.
          andthen (slice d (unat (cs_pointer_to_raw_data section)) (unat (cs_size_of_raw_data section))) (\<lambda>raw.
          Inr (section\<lparr>cs_raw_data := Some raw\<rparr>))))
     else Inr section)"

text \<open>A data section of zero bytes and without relocations becomes a bss section.\<close>

definition coff_zero_data_is_bss :: "CoffSection \<Rightarrow> CoffSection" where
  "coff_zero_data_is_bss section =
    (case cs_raw_data section of
       Some raw \<Rightarrow>
         if cs_kind section = COFF_SECTION_KIND_DATA \<and> cs_relocations section = [] \<and>
            cs_size_of_raw_data section > 0 \<and> list_all (\<lambda>b. b = 0) (take (unat (cs_size_of_raw_data section)) raw)
         then section\<lparr>cs_kind := COFF_SECTION_KIND_BSS\<rparr> else section
     | None \<Rightarrow> section)"

definition coff_section_header :: "bytes \<Rightarrow> nat \<Rightarrow> string option \<Rightarrow> CoffSection outcome" where
  "coff_section_header d p name =
    andthen (linker_read_u32 d (p + 8)) (\<lambda>virtual_size.
    andthen (linker_read_u32 d (p + 12)) (\<lambda>virtual_address.
    andthen (linker_read_u32 d (p + 16)) (\<lambda>size_of_raw_data.
    andthen (linker_read_u32 d (p + 20)) (\<lambda>pointer_to_raw_data.
    andthen (linker_read_u32 d (p + 24)) (\<lambda>pointer_to_relocations.
    andthen (linker_read_u32 d (p + 28)) (\<lambda>pointer_to_line_numbers.
    andthen (linker_read_u16 d (p + 32)) (\<lambda>number_of_relocations.
    andthen (linker_read_u16 d (p + 34)) (\<lambda>number_of_line_numbers.
    andthen (linker_read_u32 d (p + 36)) (\<lambda>characteristics.
    Inr \<lparr>cs_name = name, cs_kind = coff_section_kind_from_name name, cs_virtual_size = virtual_size,
         cs_virtual_address = virtual_address, cs_size_of_raw_data = size_of_raw_data,
         cs_pointer_to_raw_data = pointer_to_raw_data, cs_pointer_to_relocations = pointer_to_relocations,
         cs_pointer_to_line_numbers = pointer_to_line_numbers, cs_number_of_relocations = number_of_relocations,
         cs_number_of_line_numbers = number_of_line_numbers, cs_characteristics = characteristics,
         cs_raw_data = None, cs_relocations = []\<rparr>)))))))))"

definition parse_coff_section :: "memory \<Rightarrow> bytes \<Rightarrow> CoffObject \<Rightarrow> nat \<Rightarrow> CoffSection outcome" where
  "parse_coff_section mem d object i =
    (let header = COFF_FILE_HEADER_SIZE + i * COFF_SECTION_HEADER_SIZE
     in andthen (slice d header 8) (\<lambda>field.
        andthen (coff_reader_parse_section_name (mem (AllocSectionName i)) field object) (\<lambda>name.
        andthen (need (name \<noteq> None) ''Failed to resolve COFF section name'') (\<lambda>_.
        andthen (coff_section_header d header name) (\<lambda>section.
        andthen (coff_read_raw mem d i section) (\<lambda>section.
        andthen (coff_read_relocs mem d i section) (\<lambda>section.
        Inr (coff_zero_data_is_bss section))))))))"

definition coff_reader_parse_sections :: "memory \<Rightarrow> bytes \<Rightarrow> CoffObject \<Rightarrow> CoffObject outcome" where
  "coff_reader_parse_sections mem d object =
    (if co_section_count object = 0 then Inr object
     else andthen (need (coff_reader_range_ok (length d) (word_of_nat COFF_FILE_HEADER_SIZE)
                          (unat (co_section_count object) * COFF_SECTION_HEADER_SIZE)) ''COFF section table is truncated'') (\<lambda>_.
          andthen (allocate_mem (mem AllocSections)) (\<lambda>_.
          andthen (map_outcome (\<lambda>_. parse_coff_section mem d object) 0 [0..<unat (co_section_count object)]) (\<lambda>secs.
          Inr (object\<lparr>co_sections := secs\<rparr>)))))"

section \<open>Symbols\<close>

definition blank_coff_symbol :: "nat \<Rightarrow> CoffSymbol" where
  "blank_coff_symbol i = \<lparr>cy_raw_index = word_of_nat i, cy_name = None, cy_value = 0, cy_section_number = 0, cy_type = 0,
     cy_storage_class = 0, cy_auxiliary_count = 0, cy_is_auxiliary = False, cy_primary_symbol_index = word_of_nat i,
     cy_has_auxiliary_record = False, cy_aux_section_length = 0, cy_aux_section_relocation_count = 0,
     cy_aux_section_line_number_count = 0\<rparr>"

text \<open>A symbol that is not an auxiliary record, with the first of its auxiliary records.\<close>

definition parse_coff_symbol :: "memory \<Rightarrow> bytes \<Rightarrow> CoffObject \<Rightarrow> nat \<Rightarrow> CoffSymbol outcome" where
  "parse_coff_symbol mem d object i =
    (let entry = unat (co_pointer_to_symbol_table object) + i * COFF_SYMBOL_SIZE
     in andthen (slice d entry 18) (\<lambda>rec.
        andthen (coff_reader_parse_symbol_name (mem (AllocSymbolName i)) (take 8 rec) object) (\<lambda>name.
        andthen (need (name \<noteq> None \<or> list_all (\<lambda>b. b = 0) (take 8 rec)) ''Failed to resolve COFF symbol name'') (\<lambda>_.
        andthen (linker_read_u32 rec 8) (\<lambda>value.
        andthen (linker_read_u16 rec 12) (\<lambda>section_number.
        andthen (linker_read_u16 rec 14) (\<lambda>type.
        andthen (need (unat (rec ! 17) \<le> unat (co_symbol_count object) - i - 1) ''Symbol has truncated auxiliary records'') (\<lambda>_.
        let symbol = (blank_coff_symbol i)\<lparr>cy_name := name, cy_value := value, cy_section_number := section_number,
              cy_type := type, cy_storage_class := rec ! 16, cy_auxiliary_count := rec ! 17\<rparr>
        in if rec ! 17 > 0
           then andthen (slice d (entry + COFF_SYMBOL_SIZE) 8) (\<lambda>aux.
                andthen (linker_read_u32 aux 0) (\<lambda>len.
                andthen (linker_read_u16 aux 4) (\<lambda>nrel.
                andthen (linker_read_u16 aux 6) (\<lambda>nlin.
                Inr (symbol\<lparr>cy_has_auxiliary_record := True, cy_aux_section_length := len,
                     cy_aux_section_relocation_count := nrel, cy_aux_section_line_number_count := nlin\<rparr>)))))
           else Inr symbol))))))))"

text \<open>The loop over the table: \<open>aux_remaining\<close> auxiliary records of \<open>primary\<close> are still to come.\<close>

fun parse_coff_symbols ::
  "memory \<Rightarrow> bytes \<Rightarrow> CoffObject \<Rightarrow> nat \<Rightarrow> u32 \<Rightarrow> nat list \<Rightarrow> CoffSymbol list outcome" where
  "parse_coff_symbols mem d object aux_remaining primary [] = Inr []"
| "parse_coff_symbols mem d object aux_remaining primary (i # is) =
    (if aux_remaining > 0
     then andthen (parse_coff_symbols mem d object (aux_remaining - 1) primary is) (\<lambda>rest.
          Inr ((blank_coff_symbol i)\<lparr>cy_is_auxiliary := True, cy_primary_symbol_index := primary\<rparr> # rest))
     else andthen (parse_coff_symbol mem d object i) (\<lambda>symbol.
          andthen (if cy_auxiliary_count symbol > 0
                   then parse_coff_symbols mem d object (unat (cy_auxiliary_count symbol)) (word_of_nat i) is
                   else parse_coff_symbols mem d object 0 primary is) (\<lambda>rest.
          Inr (symbol # rest))))"

definition coff_reader_parse_symbols :: "memory \<Rightarrow> bytes \<Rightarrow> CoffObject \<Rightarrow> CoffObject outcome" where
  "coff_reader_parse_symbols mem d object =
    (if co_symbol_count object = 0 then Inr object
     else andthen (need (coff_reader_range_ok (length d) (co_pointer_to_symbol_table object)
                          (unat (co_symbol_count object) * COFF_SYMBOL_SIZE)) ''COFF symbol table is out of range'') (\<lambda>_.
          andthen (allocate_mem (mem AllocSymbols)) (\<lambda>_.
          andthen (parse_coff_symbols mem d object 0 0 [0..<unat (co_symbol_count object)]) (\<lambda>syms.
          Inr (object\<lparr>co_symbols := syms\<rparr>)))))"

section \<open>The whole file\<close>

definition coff_read_header :: "bytes \<Rightarrow> CoffObject outcome" where
  "coff_read_header d =
    andthen (linker_read_u16 d 0) (\<lambda>machine.
    andthen (linker_read_u16 d 2) (\<lambda>section_count.
    andthen (linker_read_u32 d 4) (\<lambda>time_date_stamp.
    andthen (linker_read_u32 d 8) (\<lambda>pointer_to_symbol_table.
    andthen (linker_read_u32 d 12) (\<lambda>symbol_count.
    andthen (linker_read_u16 d 16) (\<lambda>size_of_optional_header.
    andthen (linker_read_u16 d 18) (\<lambda>characteristics.
    Inr \<lparr>co_machine = machine, co_section_count = section_count, co_time_date_stamp = time_date_stamp,
         co_pointer_to_symbol_table = pointer_to_symbol_table, co_symbol_count = symbol_count,
         co_size_of_optional_header = size_of_optional_header, co_characteristics = characteristics,
         co_sections = [], co_symbols = [], co_string_table = None, co_string_table_size = 0\<rparr>)))))))"

definition coff_object_read :: "memory \<Rightarrow> bytes \<Rightarrow> CoffObject outcome" where
  "coff_object_read mem d =
    andthen (need (COFF_FILE_HEADER_SIZE \<le> length d) ''COFF file is smaller than the file header'') (\<lambda>_.
    andthen (allocate_mem (mem AllocObject)) (\<lambda>_.
    andthen (coff_read_header d) (\<lambda>object.
    andthen (need (co_machine object = 0x8664) ''Unsupported COFF machine'') (\<lambda>_.
    andthen (coff_reader_parse_string_table mem d object) (\<lambda>object.
    andthen (coff_reader_parse_sections mem d object) (\<lambda>object.
    coff_reader_parse_symbols mem d object))))))"

definition coff_object_find_section_by_kind :: "CoffObject option \<Rightarrow> CoffSectionKind \<Rightarrow> CoffSection option" where
  "coff_object_find_section_by_kind object kind =
    (case object of None \<Rightarrow> None | Some ob \<Rightarrow> find (\<lambda>s. cs_kind s = kind) (co_sections ob))"

definition coff_object_find_symbol :: "CoffObject option \<Rightarrow> string option \<Rightarrow> CoffSymbol option" where
  "coff_object_find_symbol object name =
    (case (object, name) of
       (Some ob, Some n) \<Rightarrow> find (\<lambda>s. \<not> cy_is_auxiliary s \<and> cy_name s = Some n) (co_symbols ob)
     | _ \<Rightarrow> None)"

definition coff_relocation_type_name :: "u16 \<Rightarrow> string" where
  "coff_relocation_type_name t =
    (if t = 1 then ''ADDR64'' else if t = 3 then ''ADDR32NB'' else if t = 4 then ''REL32''
     else if t = 11 then ''SECREL'' else ''UNKNOWN'')"

end
