(* ===== verification/ElfReader.thy ===== *)
theory ElfReader
  imports CoffReader
begin

text \<open>
  The ELF reader (\<open>linker/elf_reader.c\<close>) on the bytes of a file: file header, section headers with their data and
  names, the symbol table and the \<open>RELA\<close> relocations, and the choice between the two formats
  (\<open>link_object_read\<close> of \<open>linker/link_object.c\<close>).
\<close>

section \<open>Headers\<close>

record ElfImage =
  im_shoff :: u64
  im_shentsize :: u16
  im_shnum :: u64
  im_shstrndx :: u32

definition image_size :: "bytes \<Rightarrow> u64" where "image_size d = word_of_nat (length d)"

definition elf_shdr :: "ElfImage \<Rightarrow> nat \<Rightarrow> nat" where
  "elf_shdr img index = unat (im_shoff img) + index * unat (im_shentsize img)"

definition elf_sh_type :: "bytes \<Rightarrow> nat \<Rightarrow> u32 outcome" where "elf_sh_type d shdr = linker_read_u32 d (shdr + 4)"
definition elf_sh_flags :: "bytes \<Rightarrow> nat \<Rightarrow> u64 outcome" where "elf_sh_flags d shdr = linker_read_u64 d (shdr + 8)"
definition elf_sh_offset :: "bytes \<Rightarrow> nat \<Rightarrow> u64 outcome" where "elf_sh_offset d shdr = linker_read_u64 d (shdr + 24)"
definition elf_sh_size :: "bytes \<Rightarrow> nat \<Rightarrow> u64 outcome" where "elf_sh_size d shdr = linker_read_u64 d (shdr + 32)"

lemmas elf_sh_defs = elf_sh_type_def elf_sh_flags_def elf_sh_offset_def elf_sh_size_def

text \<open>A string of a table that starts at \<open>table\<close> in the file; \<open>None\<close> when it does not end inside the table.\<close>

definition elf_dup_string :: "bool \<Rightarrow> bytes \<Rightarrow> nat \<Rightarrow> u64 \<Rightarrow> u32 \<Rightarrow> string option outcome" where
  "elf_dup_string ok d table table_size offset =
    (if unat offset \<ge> unat table_size then Inr None
     else andthen (slice d (table + unat offset) (unat table_size - unat offset)) (\<lambda>rest.
          if list_all (\<lambda>b. b \<noteq> 0) rest then Inr None
          else if ok then Inr (Some (cstr rest)) else Inr None))"

definition elf_section_kind :: "u64 \<Rightarrow> u32 \<Rightarrow> LinkSectionKind" where
  "elf_section_kind flags type =
    (if flags AND 0x400 \<noteq> 0 then LINK_SECTION_KIND_TLS
     else if flags AND 0x2 = 0 then LINK_SECTION_KIND_UNKNOWN
     else if type = 8 then LINK_SECTION_KIND_BSS
     else if flags AND 0x4 \<noteq> 0 then LINK_SECTION_KIND_TEXT
     else if flags AND 0x1 \<noteq> 0 then LINK_SECTION_KIND_DATA
     else LINK_SECTION_KIND_RDATA)"

definition elf_reloc_kind :: "u32 \<Rightarrow> LinkRelocKind" where
  "elf_reloc_kind type =
    (if type = 1 then LINK_RELOC_ABS64
     else if type = 2 \<or> type = 4 then LINK_RELOC_PC32
     else if type = 10 \<or> type = 11 then LINK_RELOC_ABS32
     else if type = 23 then LINK_RELOC_TPOFF32
     else if type = 9 then LINK_RELOC_GOTPCREL32
     else if type = 41 \<or> type = 42 then LINK_RELOC_GOTPCRELX32
     else LINK_RELOC_NONE)"

definition elf_check_ident :: "bytes \<Rightarrow> unit outcome" where
  "elf_check_ident d =
    andthen (need (64 \<le> length d) ''ELF file is smaller than the file header'') (\<lambda>_.
    andthen (need (take 4 d = [0x7F, 0x45, 0x4C, 0x46]) ''File is not an ELF object'') (\<lambda>_.
    andthen (need (d ! 4 = 2 \<and> d ! 5 = 1) ''ELF file is not a little endian ELF64 object'') (\<lambda>_.
    andthen (linker_read_u16 d 16) (\<lambda>type.
    andthen (need (type = 1) ''ELF file is not a relocatable object (ET_REL)'') (\<lambda>_.
    andthen (linker_read_u16 d 18) (\<lambda>machine.
    need (machine = 62) ''Unsupported ELF machine''))))))"

definition elf_parse_header :: "bytes \<Rightarrow> ElfImage outcome" where
  "elf_parse_header d =
    andthen (elf_check_ident d) (\<lambda>_.
    andthen (linker_read_u64 d 40) (\<lambda>shoff.
    andthen (linker_read_u16 d 58) (\<lambda>shentsize.
    andthen (linker_read_u16 d 60) (\<lambda>shnum16.
    andthen (linker_read_u16 d 62) (\<lambda>shstrndx16.
    andthen (need (64 \<le> shentsize) ''ELF file has an undersized section header entry'') (\<lambda>_.
    andthen (need (shoff \<noteq> 0) ''ELF file has no section header table'') (\<lambda>_.
    andthen (need (link_object_range_ok (image_size d) shoff (ucast shentsize))
              ''ELF file has a truncated section header table'') (\<lambda>_.
    andthen (if shnum16 = 0 then elf_sh_size d (unat shoff) else Inr (ucast shnum16)) (\<lambda>shnum.
    andthen (if shstrndx16 = 0xFFFF then linker_read_u32 d (unat shoff + 40) else Inr (ucast shstrndx16)) (\<lambda>shstrndx.
    andthen (need (shnum \<le> image_size d div ucast shentsize) ''ELF file has a truncated section header table'') (\<lambda>_.
    andthen (need (link_object_range_ok (image_size d) shoff (shnum * ucast shentsize))
              ''ELF file has a truncated section header table'') (\<lambda>_.
    andthen (need (ucast shstrndx < shnum) ''ELF file names a section string table outside the section header table'') (\<lambda>_.
    Inr \<lparr>im_shoff = shoff, im_shentsize = shentsize, im_shnum = shnum, im_shstrndx = shstrndx\<rparr>)))))))))))))"

section \<open>Sections\<close>

definition elf_parse_section :: "memory \<Rightarrow> bytes \<Rightarrow> ElfImage \<Rightarrow> nat \<Rightarrow> u64 \<Rightarrow> nat \<Rightarrow> LinkSection outcome" where
  "elf_parse_section mem d img shstr shstr_size i =
    (let shdr = elf_shdr img i
     in andthen (elf_sh_type d shdr) (\<lambda>type.
        andthen (elf_sh_flags d shdr) (\<lambda>flags.
        andthen (elf_sh_size d shdr) (\<lambda>size.
        andthen (elf_sh_offset d shdr) (\<lambda>offset.
        andthen (linker_read_u64 d (shdr + 48)) (\<lambda>align.
        andthen (need (type \<noteq> 17) ''ELF file uses section groups'') (\<lambda>_.
        andthen (linker_read_u32 d shdr) (\<lambda>name_offset.
        andthen (elf_dup_string (mem (AllocSectionName i)) d shstr shstr_size name_offset) (\<lambda>name.
        let section = \<lparr>sc_name = name, sc_kind = elf_section_kind flags type, sc_virtual_size = size,
              sc_size_of_raw_data = 0, sc_alignment = (if align \<noteq> 0 then align else 1), sc_raw_data = None,
              sc_relocations = [], sc_is_metadata = (flags AND 0x2 = 0)\<rparr>
        in if type = 8 \<or> size = 0 then Inr section
           else andthen (need (link_object_range_ok (image_size d) offset size) ''Section runs past the end of the file'') (\<lambda>_.
                andthen (allocate_mem (mem (AllocSectionData i))) (\<lambda>_.
                andthen (slice d (unat offset) (unat size)) (\<lambda>raw.
                Inr (section\<lparr>sc_raw_data := Some raw, sc_size_of_raw_data := size\<rparr>)))))))))))))"

definition elf_parse_sections :: "memory \<Rightarrow> bytes \<Rightarrow> ElfImage \<Rightarrow> LinkObject \<Rightarrow> LinkObject outcome" where
  "elf_parse_sections mem d img object =
    (let shstr_hdr = elf_shdr img (unat (im_shstrndx img))
     in andthen (elf_sh_size d shstr_hdr) (\<lambda>shstr_size.
        andthen (elf_sh_offset d shstr_hdr) (\<lambda>shstr.
        andthen (need (link_object_range_ok (image_size d) shstr shstr_size) ''ELF file has a truncated section string table'') (\<lambda>_.
        andthen (allocate_mem (mem AllocSections)) (\<lambda>_.
        andthen (map_outcome (\<lambda>_. elf_parse_section mem d img (unat shstr) shstr_size) 0 [0..<unat (im_shnum img)]) (\<lambda>secs.
        Inr (object\<lparr>ob_sections := secs\<rparr>)))))))"

section \<open>Symbols\<close>

text \<open>The first section header of a given type.\<close>

fun elf_find_type :: "bytes \<Rightarrow> ElfImage \<Rightarrow> u32 \<Rightarrow> nat list \<Rightarrow> nat option outcome" where
  "elf_find_type d img type [] = Inr None"
| "elf_find_type d img type (i # rest) =
    andthen (elf_sh_type d (elf_shdr img i)) (\<lambda>t.
      if t = type then Inr (Some (elf_shdr img i)) else elf_find_type d img type rest)"

text \<open>Where a symbol is defined, from its section index field.\<close>

definition elf_place_symbol :: "ElfImage \<Rightarrow> u16 \<Rightarrow> u64 \<Rightarrow> LinkSymbol \<Rightarrow> LinkSymbol outcome" where
  "elf_place_symbol img shndx st_size symbol =
    (if shndx = 0 then Inr (symbol\<lparr>sy_section_index := LINK_SECTION_INDEX_UNDEFINED\<rparr>)
     else if shndx = 0xFFF1 then Inr (symbol\<lparr>sy_section_index := LINK_SECTION_INDEX_ABSOLUTE, sy_is_defined := True\<rparr>)
     else if shndx = 0xFFF2 then
       Inr (symbol\<lparr>sy_section_index := LINK_SECTION_INDEX_COMMON, sy_is_common := True, sy_is_defined := True,
                   sy_value := st_size\<rparr>)
     else if shndx = 0xFFFF then Inl (Refused ''ELF file uses SHN_XINDEX symbol section indices'')
     else if shndx \<ge> 0xFF00 \<or> ucast shndx \<ge> im_shnum img then Inl (Refused ''Symbol names a section which does not exist'')
     else Inr (symbol\<lparr>sy_section_index := int (unat shndx), sy_is_defined := True\<rparr>))"

definition elf_parse_symbol :: "memory \<Rightarrow> bytes \<Rightarrow> ElfImage \<Rightarrow> nat \<Rightarrow> nat \<Rightarrow> u64 \<Rightarrow> nat \<Rightarrow> LinkSymbol outcome" where
  "elf_parse_symbol mem d img symtab strtab strtab_size i =
    (let entry = symtab + i * 24
     in andthen (slice d entry 24) (\<lambda>e.
        andthen (linker_read_u16 e 6) (\<lambda>shndx.
        andthen (linker_read_u32 e 0) (\<lambda>name_offset.
        andthen (elf_dup_string (mem (AllocSymbolName i)) d strtab strtab_size name_offset) (\<lambda>name.
        andthen (linker_read_u64 e 8) (\<lambda>value.
        andthen (linker_read_u64 e 16) (\<lambda>size.
        let info = e ! 4; bind = drop_bit 4 info
        in elf_place_symbol img shndx size
             \<lparr>sy_name = name, sy_value = value, sy_section_index = 0, sy_is_external = (bind = 1 \<or> bind = 2),
              sy_is_defined = False, sy_is_auxiliary = False, sy_is_weak = (bind = 2), sy_is_common = False,
              sy_aux_section_length = 0, sy_size = size, sy_elf_type = info AND 0x0F\<rparr>)))))))"

definition elf_read_symtab :: "memory \<Rightarrow> bytes \<Rightarrow> ElfImage \<Rightarrow> nat \<Rightarrow> LinkObject \<Rightarrow> LinkObject outcome" where
  "elf_read_symtab mem d img symtab_hdr object =
    andthen (linker_read_u32 d (symtab_hdr + 40)) (\<lambda>strtab_index.
    andthen (need (ucast strtab_index < im_shnum img) ''symbol string table outside the section header table'') (\<lambda>_.
    let strtab_hdr = elf_shdr img (unat strtab_index)
    in andthen (elf_sh_type d strtab_hdr) (\<lambda>type.
       andthen (need (type = 3) ''symbol table linked to a section that is not a string table'') (\<lambda>_.
       andthen (linker_read_u64 d (symtab_hdr + 56)) (\<lambda>entsize.
       andthen (need (entsize = 0 \<or> entsize = 24) ''unexpected symbol table entry size'') (\<lambda>_.
       andthen (elf_sh_size d strtab_hdr) (\<lambda>strtab_size.
       andthen (elf_sh_size d symtab_hdr) (\<lambda>symtab_size.
       andthen (elf_sh_offset d symtab_hdr) (\<lambda>symtab.
       andthen (elf_sh_offset d strtab_hdr) (\<lambda>strtab.
       andthen (need (link_object_range_ok (image_size d) symtab symtab_size \<and>
                      link_object_range_ok (image_size d) strtab strtab_size) ''truncated symbol table'') (\<lambda>_.
       andthen (allocate_mem (mem AllocSymbols)) (\<lambda>_.
       andthen (map_outcome (\<lambda>_. elf_parse_symbol mem d img (unat symtab) (unat strtab) strtab_size) 0
                  [0..<unat symtab_size div 24]) (\<lambda>syms.
       Inr (object\<lparr>ob_symbols := syms\<rparr>))))))))))))))"

definition elf_parse_symbols :: "memory \<Rightarrow> bytes \<Rightarrow> ElfImage \<Rightarrow> LinkObject \<Rightarrow> LinkObject outcome" where
  "elf_parse_symbols mem d img object =
    andthen (elf_find_type d img 2 [0..<unat (im_shnum img)]) (\<lambda>found.
      case found of None \<Rightarrow> Inr object | Some symtab_hdr \<Rightarrow> elf_read_symtab mem d img symtab_hdr object)"

section \<open>Relocations\<close>

definition elf_reloc_width :: "LinkRelocKind \<Rightarrow> u64" where
  "elf_reloc_width kind = (if kind = LINK_RELOC_ABS64 then 8 else if kind = LINK_RELOC_NONE then 0 else 4)"

definition elf_parse_rela :: "bytes \<Rightarrow> LinkObject \<Rightarrow> LinkSection \<Rightarrow> nat \<Rightarrow> LinkReloc outcome" where
  "elf_parse_rela d object target entry =
    andthen (linker_read_u64 d (entry + 8)) (\<lambda>info.
    let reloc_type = ucast (info AND 0xFFFFFFFF) :: u32; symbol_index = ucast (drop_bit 32 info) :: u32
    in andthen (need (unat symbol_index < length (ob_symbols object)) ''Relocation names a symbol outside the symbol table'') (\<lambda>_.
       andthen (linker_read_u64 d entry) (\<lambda>offset.
       andthen (linker_read_u64 d (entry + 16)) (\<lambda>addend.
       let out = \<lparr>rl_offset = offset, rl_symbol_index = symbol_index, rl_kind = elf_reloc_kind reloc_type,
                  rl_addend = addend, rl_addend_is_explicit = True, rl_format_type = reloc_type\<rparr>;
           width = elf_reloc_width (rl_kind out)
       in andthen (need (\<not> (rl_kind out = LINK_RELOC_NONE \<and> reloc_type \<noteq> 0)) ''Unsupported ELF relocation type'') (\<lambda>_.
          andthen (need (\<not> (width \<noteq> 0 \<and> (rl_offset out > sc_virtual_size target \<or>
                                          sc_virtual_size target - rl_offset out < width)))
                    ''Relocation falls outside its section'') (\<lambda>_.
          Inr out))))))"

definition elf_parse_reloc_section :: "memory \<Rightarrow> bytes \<Rightarrow> ElfImage \<Rightarrow> nat \<Rightarrow> LinkObject \<Rightarrow> LinkObject outcome" where
  "elf_parse_reloc_section mem d img i object =
    (let shdr = elf_shdr img i
     in andthen (elf_sh_type d shdr) (\<lambda>type.
        andthen (linker_read_u32 d (shdr + 44)) (\<lambda>target_index.
        andthen (elf_sh_size d shdr) (\<lambda>size.
        andthen (need (type \<noteq> 9) ''ELF file carries SHT_REL relocations'') (\<lambda>_.
        if type \<noteq> 4 then Inr object
        else andthen (need (ucast target_index < im_shnum img) ''Relocation section targets a section which does not exist'') (\<lambda>_.
             andthen (elf_sh_offset d shdr) (\<lambda>offset.
             andthen (need (link_object_range_ok (image_size d) offset size) ''truncated relocation section'') (\<lambda>_.
             let target = ob_sections object ! unat target_index; n = unat size div 24
             in if length (ob_sections object) \<le> unat target_index then Inl Fault
                else if n = 0 then Inr object
                else andthen (allocate_mem (mem (AllocSectionRelocs i))) (\<lambda>_.
                     andthen (map_outcome (\<lambda>_ r. elf_parse_rela d object target (unat offset + r * 24)) 0 [0..<n]) (\<lambda>relocs.
                     Inr (object\<lparr>ob_sections := (ob_sections object)
                            [unat target_index := target\<lparr>sc_relocations := sc_relocations target @ relocs\<rparr>]\<rparr>)))))))))))"

definition elf_parse_relocations :: "memory \<Rightarrow> bytes \<Rightarrow> ElfImage \<Rightarrow> LinkObject \<Rightarrow> LinkObject outcome" where
  "elf_parse_relocations mem d img object =
    fold_outcome (elf_parse_reloc_section mem d img) [0..<unat (im_shnum img)] object"

definition elf_object_read_memory :: "memory \<Rightarrow> bytes \<Rightarrow> LinkObject outcome" where
  "elf_object_read_memory mem d =
    andthen (elf_parse_header d) (\<lambda>img.
    andthen (allocate_mem (mem AllocObject)) (\<lambda>_.
    andthen (elf_parse_sections mem d img \<lparr>ob_format = LINK_FORMAT_ELF, ob_sections = [], ob_symbols = []\<rparr>) (\<lambda>object.
    andthen (elf_parse_symbols mem d img object) (\<lambda>object.
    elf_parse_relocations mem d img object))))"

section \<open>Either format\<close>

definition link_object_looks_like_elf :: "bytes \<Rightarrow> bool" where
  "link_object_looks_like_elf d \<longleftrightarrow>
     length (take 4 d) = 4 \<and> d ! 0 = 0x7F \<and> d ! 1 = 0x45 \<and> d ! 2 = 0x4C \<and> d ! 3 = 0x46"

definition link_object_read :: "memory \<Rightarrow> memory \<Rightarrow> bytes \<Rightarrow> LinkObject outcome" where
  "link_object_read mem mem' d =
    (if link_object_looks_like_elf d then elf_object_read_memory mem d
     else andthen (coff_object_read mem d) (link_object_from_coff mem'))"

end
