(* ===== verification/CoffSafe.thy ===== *)
theory CoffSafe
  imports CoffReader
begin

text \<open>
  The COFF reader and the conversion to the linker's own objects: no access leaves its buffer, and the objects
  accepted are well formed.
\<close>

section \<open>The string table\<close>

text \<open>The string table, once copied, has the size recorded beside it.\<close>

definition table_ok :: "CoffObject \<Rightarrow> bool" where
  "table_ok object \<longleftrightarrow> (\<forall>t. co_string_table object = Some t \<longrightarrow> length t = unat (co_string_table_size object))"

lemma string_from_table_safe [safe_intros]:
  assumes "table_ok object" shows "safe (coff_reader_string_from_table ok object offset)"
proof -
  have "unat offset + unat (co_string_table_size object - offset) \<le> length t"
    if "co_string_table object = Some t" "\<not> offset \<ge> co_string_table_size object" for t
    using that assms by (simp add: table_ok_def unat_sub word_le_nat_alt)
  then show ?thesis
    unfolding coff_reader_string_from_table_def
    by (auto split: option.split intro!: safe_intros)
qed

lemma section_name_safe [safe_intros]: "table_ok object \<Longrightarrow> safe (coff_reader_parse_section_name ok field object)"
  unfolding coff_reader_parse_section_name_def by (auto split: option.split intro!: safe_intros)

lemma symbol_name_safe [safe_intros]:
  "table_ok object \<Longrightarrow> 8 \<le> length field \<Longrightarrow> safe (coff_reader_parse_symbol_name ok field object)"
  unfolding coff_reader_parse_symbol_name_def by (intro safe_intros) simp_all

lemma parse_string_table_safe [safe_intros]:
  assumes "length d < 2 ^ 32" shows "safe (coff_reader_parse_string_table mem d object)"
proof -
  have "unat (word_of_nat n :: u32) = n" if "n \<le> length d" for n
    using that assms by (simp add: unat_of_nat take_bit_nat_eq_self)
  then show ?thesis
    unfolding coff_reader_parse_string_table_def Let_def
    by (intro safe_intros) (simp_all add: coff_range_ok_iff del: of_nat_add of_nat_mult)
qed

lemma parse_string_table_ok:
  assumes "coff_reader_parse_string_table mem d object = Inr object'" "co_string_table object = None"
  shows "table_ok object' \<and> co_sections object' = co_sections object \<and> co_symbols object' = co_symbols object"
proof -
  consider "object' = object" | table size where "length table = unat size"
    "object' = object\<lparr>co_string_table := Some table, co_string_table_size := size\<rparr>"
    using assms(1) unfolding coff_reader_parse_string_table_def Let_def
    by (auto simp: andthen_Inr_iff dest!: slice_Inr split: if_splits)
  then show ?thesis using assms(2) by cases (auto simp: table_ok_def)
qed

section \<open>Sections\<close>

lemma parse_coff_reloc_safe [safe_intros]: "p + 10 \<le> length d \<Longrightarrow> safe (parse_coff_reloc d p)"
  unfolding parse_coff_reloc_def by (intro safe_intros) simp_all

lemma section_header_safe [safe_intros]: "p + 40 \<le> length d \<Longrightarrow> safe (coff_section_header d p name)"
  unfolding coff_section_header_def by (intro safe_intros) simp_all

lemma reloc_count_safe [safe_intros]: "safe (coff_reloc_count d section)"
  unfolding coff_reloc_count_def by (intro safe_intros) (simp_all add: coff_range_ok_iff coff_sizes)

lemma read_relocs_safe [safe_intros]: "safe (coff_read_relocs mem d i section)"
  unfolding coff_read_relocs_def split_beta
  by (intro safe_intros) (auto simp: coff_range_ok_iff coff_sizes)

lemma read_raw_safe [safe_intros]: "safe (coff_read_raw mem d i section)"
  unfolding coff_read_raw_def by (intro safe_intros) (simp_all add: coff_range_ok_iff)

lemma parse_coff_section_safe [safe_intros]:
  "table_ok object \<Longrightarrow> 20 + (i + 1) * 40 \<le> length d \<Longrightarrow> safe (parse_coff_section mem d object i)"
  unfolding parse_coff_section_def Let_def by (intro safe_intros) (simp_all add: coff_sizes)

lemma parse_sections_safe [safe_intros]:
  "table_ok object \<Longrightarrow> safe (coff_reader_parse_sections mem d object)"
  unfolding coff_reader_parse_sections_def
  by (intro safe_intros) (auto simp: coff_range_ok_iff coff_sizes)

section \<open>Symbols\<close>

lemma parse_coff_symbol_safe [safe_intros]:
  assumes "table_ok object" "i < unat (co_symbol_count object)"
    and "unat (co_pointer_to_symbol_table object) + unat (co_symbol_count object) * 18 \<le> length d"
  shows "safe (parse_coff_symbol mem d object i)"
proof -
  let ?p = "unat (co_pointer_to_symbol_table object)" and ?n = "unat (co_symbol_count object)"
  have "(i + 1) * 18 \<le> ?n * 18" using assms(2) by (intro mult_le_mono1) simp
  then have one: "?p + i * 18 + 18 \<le> length d" using assms(3) by simp
  have two: "?p + i * 18 + 18 + 8 \<le> length d" if "0 < b" "unat b \<le> ?n - i - 1" for b :: u8
  proof -
    have "0 < unat b" using that(1) by (simp add: unat_gt_0 word_gt_0)
    then have "(i + 2) * 18 \<le> ?n * 18" using that(2) assms(2) by (intro mult_le_mono1) simp
    then show ?thesis using assms(3) by simp
  qed
  show ?thesis
    unfolding parse_coff_symbol_def Let_def
    by (intro safe_intros) (use assms(1) one two in \<open>auto dest!: slice_Inr simp: coff_sizes\<close>)
qed

lemma parse_coff_symbols_safe [safe_intros]:
  assumes "\<And>i. i \<in> set js \<Longrightarrow> safe (parse_coff_symbol mem d object i)"
  shows "safe (parse_coff_symbols mem d object aux primary js)"
  using assms
proof (induction js arbitrary: aux primary)
  case (Cons i js)
  show ?case unfolding parse_coff_symbols.simps by (intro safe_andthen safe_if) (use Cons in simp_all)
qed simp

lemma parse_symbols_safe [safe_intros]:
  "table_ok object \<Longrightarrow> safe (coff_reader_parse_symbols mem d object)"
  unfolding coff_reader_parse_symbols_def
  by (intro safe_intros) (auto simp: coff_range_ok_iff coff_sizes)

lemma parse_sections_keeps:
  "coff_reader_parse_sections mem d object = Inr object' \<Longrightarrow>
   co_string_table object' = co_string_table object \<and> co_string_table_size object' = co_string_table_size object \<and>
   co_symbols object' = co_symbols object"
  by (auto simp: coff_reader_parse_sections_def andthen_Inr_iff split: if_splits)

lemma read_header_blank:
  "coff_read_header d = Inr object \<Longrightarrow> co_string_table object = None \<and> co_sections object = [] \<and> co_symbols object = []"
  by (auto simp: coff_read_header_def andthen_Inr_iff)

lemma read_header_safe [safe_intros]: "20 \<le> length d \<Longrightarrow> safe (coff_read_header d)"
  unfolding coff_read_header_def by (intro safe_intros) simp_all

lemma coff_object_read_safe:
  assumes "length d < 2 ^ 32" shows "safe (coff_object_read mem d)"
proof -
  have t: "table_ok object''"
    if "coff_read_header d = Inr object" "coff_reader_parse_string_table mem d object = Inr object'"
      "coff_reader_parse_sections mem d object' = Inr object''" for object object' object''
    using parse_string_table_ok [OF that(2)] read_header_blank [OF that(1)] parse_sections_keeps [OF that(3)]
    by (simp add: table_ok_def)
  show ?thesis
    unfolding coff_object_read_def
    by (intro safe_intros)
      (use assms t parse_string_table_ok read_header_blank in \<open>auto simp: coff_sizes\<close>)
qed

section \<open>What an accepted file looks like\<close>

definition coff_section_wf :: "CoffSection \<Rightarrow> bool" where
  "coff_section_wf s \<longleftrightarrow>
     (\<forall>raw. cs_raw_data s = Some raw \<longrightarrow> length raw = unat (cs_size_of_raw_data s) \<and> 0 < length raw)"

lemma section_header_blank: "coff_section_header d p name = Inr s \<Longrightarrow> cs_raw_data s = None"
  by (auto simp: coff_section_header_def andthen_Inr_iff)

lemma parse_coff_section_wf:
  assumes "parse_coff_section mem d object i = Inr section" shows "coff_section_wf section"
proof -
  obtain s0 s1 s2 where s0: "cs_raw_data s0 = None" and s1: "coff_read_raw mem d i s0 = Inr s1"
    and s2: "coff_read_relocs mem d i s1 = Inr s2" and s: "section = coff_zero_data_is_bss s2"
    using assms unfolding parse_coff_section_def Let_def
    by (auto simp: andthen_Inr_iff dest!: section_header_blank)
  have "coff_section_wf s1"
    using s0 s1 unfolding coff_read_raw_def coff_section_wf_def
    by (auto simp: andthen_Inr_iff unat_eq_zero dest!: slice_Inr split: if_splits)
  then have "coff_section_wf s2"
    using s2 unfolding coff_read_relocs_def coff_section_wf_def
    by (auto simp: andthen_Inr_iff split: if_splits)
  then show ?thesis unfolding s coff_zero_data_is_bss_def coff_section_wf_def
    by (auto split: option.splits)
qed

lemma coff_object_read_wf:
  assumes "coff_object_read mem d = Inr object" shows "\<forall>s\<in>set (co_sections object). coff_section_wf s"
proof -
  obtain o0 o1 o2 where h: "coff_read_header d = Inr o0" "coff_reader_parse_string_table mem d o0 = Inr o1"
    "coff_reader_parse_sections mem d o1 = Inr o2" "coff_reader_parse_symbols mem d o2 = Inr object"
    using assms unfolding coff_object_read_def by (auto simp: andthen_Inr_iff)
  have e: "co_sections o1 = []"
    using parse_string_table_ok [OF h(2)] read_header_blank [OF h(1)] by simp
  have "\<forall>s\<in>set (co_sections o2). coff_section_wf s"
    using h(3) e unfolding coff_reader_parse_sections_def
    by (auto simp: andthen_Inr_iff dest!: map_outcome_all [where P = coff_section_wf] parse_coff_section_wf split: if_splits)
  moreover have "co_sections object = co_sections o2"
    using h(4) unfolding coff_reader_parse_symbols_def by (auto simp: andthen_Inr_iff split: if_splits)
  ultimately show ?thesis by simp
qed

section \<open>Conversion\<close>

lemma adopt_coff_section_safe [safe_intros]: "coff_section_wf s \<Longrightarrow> safe (adopt_coff_section mem i s)"
  unfolding adopt_coff_section_def Let_def
  by (intro safe_andthen) (auto simp: coff_section_wf_def split: option.splits intro!: safe_intros)

lemma adopt_coff_section_wf:
  assumes "coff_section_wf s" "adopt_coff_section mem i s = Inr t" shows "section_wf t"
  using assms unfolding adopt_coff_section_def Let_def coff_section_wf_def
  by (auto simp: andthen_Inr_iff section_wf_def unat_ucast_up split: option.splits if_splits)

lemma adopt_coff_symbol_safe [safe_intros]: "safe (adopt_coff_symbol mem n i y)"
  unfolding adopt_coff_symbol_def Let_def by (intro safe_intros) simp_all

lemma adopt_coff_symbol_wf:
  assumes "adopt_coff_symbol mem n i y = Inr z" shows "symbol_wf n z"
  using assms unfolding adopt_coff_symbol_def Let_def
  by (auto simp: andthen_Inr_iff symbol_wf_def section_index_defs split: if_splits)

lemma link_object_from_coff_safe:
  "\<forall>s\<in>set (co_sections coff). coff_section_wf s \<Longrightarrow> safe (link_object_from_coff mem coff)"
  unfolding link_object_from_coff_def link_object_adopt_coff_sections_def link_object_adopt_coff_symbols_def
  by (intro safe_intros) simp_all

lemma link_object_from_coff_wf:
  assumes "\<forall>s\<in>set (co_sections coff). coff_section_wf s" "link_object_from_coff mem coff = Inr ob"
  shows "object_wf ob"
proof -
  obtain secs syms where s: "map_outcome (adopt_coff_section mem) 0 (co_sections coff) = Inr secs"
    and y: "map_outcome (adopt_coff_symbol mem (length secs)) 0 (co_symbols coff) = Inr syms"
    and ob: "ob_sections ob = secs" "ob_symbols ob = syms"
    using assms(2) unfolding link_object_from_coff_def link_object_adopt_coff_sections_def link_object_adopt_coff_symbols_def
    by (auto simp: andthen_Inr_iff)
  have "\<forall>t\<in>set secs. section_wf t"
    by (rule map_outcome_all [OF s]) (use assms(1) adopt_coff_section_wf in blast)
  moreover have "\<forall>z\<in>set syms. symbol_wf (length secs) z"
    by (rule map_outcome_all [OF y]) (rule adopt_coff_symbol_wf)
  ultimately show ?thesis by (simp add: object_wf_def ob)
qed

end
