(* ===== verification/ElfSafe.thy ===== *)
theory ElfSafe
  imports ElfReader CoffSafe
begin

text \<open>
  The ELF reader: no access leaves the file, and what it accepts is well formed; then both readers behind the one
  interface that the linker calls.
\<close>

section \<open>The section header table lies in the file\<close>

definition image_ok :: "bytes \<Rightarrow> ElfImage \<Rightarrow> bool" where
  "image_ok d img \<longleftrightarrow> 64 \<le> unat (im_shentsize img) \<and>
     unat (im_shoff img) + unat (im_shnum img) * unat (im_shentsize img) \<le> length d \<and>
     unat (im_shstrndx img) < unat (im_shnum img)"

lemma image_size_unat: "length d < 2 ^ 64 \<Longrightarrow> unat (image_size d) = length d"
  by (simp add: image_size_def unat_of_nat take_bit_nat_eq_self)

lemma shdr_fits:
  assumes "image_ok d img" "i < unat (im_shnum img)" shows "elf_shdr img i + 64 \<le> length d"
proof -
  have "(i + 1) * unat (im_shentsize img) \<le> unat (im_shnum img) * unat (im_shentsize img)"
    using assms(2) by (intro mult_le_mono1) simp
  then show ?thesis using assms(1) by (simp add: image_ok_def elf_shdr_def)
qed

lemma elf_sh_safe [safe_intros]:
  assumes "p + 64 \<le> length d"
  shows "safe (elf_sh_type d p)" "safe (elf_sh_flags d p)" "safe (elf_sh_offset d p)" "safe (elf_sh_size d p)"
  unfolding elf_sh_defs by (rule safe_intros; use assms in simp)+

lemma ident_safe [safe_intros]: "safe (elf_check_ident d)"
  unfolding elf_check_ident_def by (intro safe_intros) simp_all

lemma ident_length: "elf_check_ident d = Inr u \<Longrightarrow> 64 \<le> length d"
  by (auto simp: elf_check_ident_def andthen_Inr_iff)

lemma ucast_16_64: "(ucast (w :: u16) :: u64) = word_of_nat (unat w)"
  by (rule word_of_unat) (simp add: unat_ucast_up)

lemma parse_header_safe [safe_intros]:
  assumes "length d < 2 ^ 64" shows "safe (elf_parse_header d)"
proof -
  have fits: "unat shoff + 64 \<le> length d"
    if "link_object_range_ok (image_size d) shoff (ucast shentsize)" "64 \<le> shentsize" for shoff and shentsize :: u16
    using that by (simp add: range_ok_iff image_size_unat [OF assms] unat_ucast_up word_le_nat_alt)
  show ?thesis
    unfolding elf_parse_header_def
    by (intro safe_intros) (auto dest!: ident_length dest: fits)
qed

lemma table_no_wrap:
  fixes n e s :: u64
  assumes "n \<le> s div e" shows "unat (n * e) = unat n * unat e"
proof -
  have "unat n \<le> unat s div unat e" using assms by (simp add: word_le_nat_alt unat_div_word)
  then have "unat n * unat e \<le> unat s div unat e * unat e" by (rule mult_le_mono1)
  also have "\<dots> \<le> unat s" by (rule div_times_less_eq_dividend)
  finally have "unat n * unat e < 2 ^ 64" using unat64_less [of s] by simp
  then show ?thesis by (simp add: unat_word_ariths)
qed

lemma parse_header_ok:
  assumes "length d < 2 ^ 64" "elf_parse_header d = Inr img" shows "image_ok d img"
proof -
  obtain shentsize shoff shnum shstrndx where e: "64 \<le> shentsize" and q: "shnum \<le> image_size d div ucast shentsize"
    and r: "link_object_range_ok (image_size d) shoff (shnum * ucast shentsize)" and x: "ucast shstrndx < shnum"
    and img: "img = \<lparr>im_shoff = shoff, im_shentsize = shentsize, im_shnum = shnum, im_shstrndx = shstrndx\<rparr>"
    using assms(2) unfolding elf_parse_header_def by (auto simp only: andthen_Inr_iff need_Inr_iff sum.inject)
  have "unat shoff + unat shnum * unat shentsize \<le> length d"
    using r table_no_wrap [OF q] by (simp add: range_ok_iff image_size_unat [OF assms(1)] unat_ucast_up)
  then show ?thesis using e x by (simp add: image_ok_def img word_le_nat_alt word_less_nat_alt unat_ucast_up)
qed

section \<open>Sections, symbols, relocations\<close>

lemma dup_string_safe [safe_intros]:
  "table + unat table_size \<le> length d \<Longrightarrow> safe (elf_dup_string ok d table table_size offset)"
  unfolding elf_dup_string_def by (intro safe_intros) simp_all

text \<open>The string is the part of the table from the offset to the first zero byte, which must exist.\<close>

lemma parse_section_safe [safe_intros]:
  assumes "length d < 2 ^ 64" "image_ok d img" "i < unat (im_shnum img)" "shstr + unat shstr_size \<le> length d"
  shows "safe (elf_parse_section mem d img shstr shstr_size i)"
  using shdr_fits [OF assms(2,3)] assms(4) unfolding elf_parse_section_def Let_def
  by (intro safe_intros) (simp_all add: range_ok_iff image_size_unat [OF assms(1)])

lemma parse_sections_safe' [safe_intros]:
  assumes "length d < 2 ^ 64" "image_ok d img" shows "safe (elf_parse_sections mem d img object)"
proof -
  have "elf_shdr img (unat (im_shstrndx img)) + 64 \<le> length d"
    using assms(2) by (intro shdr_fits) (simp_all add: image_ok_def)
  then show ?thesis using assms unfolding elf_parse_sections_def Let_def
    by (intro safe_intros) (auto simp: range_ok_iff image_size_unat)
qed

lemma find_type_safe [safe_intros]:
  "image_ok d img \<Longrightarrow> (\<And>i. i \<in> set js \<Longrightarrow> i < unat (im_shnum img)) \<Longrightarrow> safe (elf_find_type d img type js)"
proof (induction js)
  case (Cons i js)
  then show ?case unfolding elf_find_type.simps
    by (intro safe_andthen safe_if elf_sh_safe shdr_fits) simp_all
qed simp

lemma find_type_Some:
  "elf_find_type d img type js = Inr (Some p) \<Longrightarrow> \<exists>i\<in>set js. p = elf_shdr img i"
  by (induction js) (auto simp: andthen_Inr_iff split: if_splits)

lemma place_symbol_safe [safe_intros]: "safe (elf_place_symbol img shndx st_size symbol)"
  by (simp add: elf_place_symbol_def)

lemma parse_symbol_safe [safe_intros]:
  assumes "symtab + (i + 1) * 24 \<le> length d" "strtab + unat strtab_size \<le> length d"
  shows "safe (elf_parse_symbol mem d img symtab strtab strtab_size i)"
  using assms unfolding elf_parse_symbol_def Let_def by (intro safe_intros) (auto dest!: slice_Inr)

lemma entry_fits: "i < n div 24 \<Longrightarrow> p + n \<le> m \<Longrightarrow> p + (i + 1) * 24 \<le> (m::nat)"
proof -
  assume i: "i < n div 24" and m: "p + n \<le> m"
  have "(i + 1) * 24 \<le> n div 24 * 24" using i by (intro mult_le_mono1) simp
  also have "\<dots> \<le> n" by (rule div_times_less_eq_dividend)
  finally show ?thesis using m by simp
qed

lemma linked_shdr_fits:
  assumes "image_ok d img" "ucast (j :: u32) < im_shnum img" shows "elf_shdr img (unat j) + 64 \<le> length d"
  using assms(2) by (intro shdr_fits [OF assms(1)]) (simp add: word_less_nat_alt unat_ucast_up)

lemma read_symtab_safe [safe_intros]:
  assumes "length d < 2 ^ 64" "image_ok d img" "p + 64 \<le> length d"
  shows "safe (elf_read_symtab mem d img p object)"
  using assms unfolding elf_read_symtab_def Let_def
  by (intro safe_intros) (auto simp: range_ok_iff image_size_unat intro: linked_shdr_fits entry_fits)

lemma parse_symbols_safe' [safe_intros]:
  assumes "length d < 2 ^ 64" "image_ok d img" shows "safe (elf_parse_symbols mem d img object)"
  unfolding elf_parse_symbols_def
  by (intro safe_andthen find_type_safe)
    (use assms in \<open>auto split: option.splits intro!: read_symtab_safe shdr_fits dest!: find_type_Some\<close>)

lemma parse_rela_safe [safe_intros]: "p + 24 \<le> length d \<Longrightarrow> safe (elf_parse_rela d object target p)"
  unfolding elf_parse_rela_def Let_def by (intro safe_intros) simp_all

lemma reloc_section_safe [safe_intros]:
  assumes "length d < 2 ^ 64" "image_ok d img" "i < unat (im_shnum img)" "length (ob_sections object) = unat (im_shnum img)"
  shows "safe (elf_parse_reloc_section mem d img i object)"
  using assms shdr_fits [OF assms(2,3)] entry_fits unfolding elf_parse_reloc_section_def Let_def
  by (intro safe_intros)
    (auto simp: range_ok_iff image_size_unat word_less_nat_alt unat_ucast_up dest: entry_fits)

lemma reloc_section_length:
  "elf_parse_reloc_section mem d img i object = Inr object' \<Longrightarrow> length (ob_sections object') = length (ob_sections object)"
  unfolding elf_parse_reloc_section_def Let_def by (auto simp: andthen_Inr_iff split: if_splits)

lemma parse_relocations_safe [safe_intros]:
  assumes "length d < 2 ^ 64" "image_ok d img" "length (ob_sections object) = unat (im_shnum img)"
  shows "safe (elf_parse_relocations mem d img object)"
  unfolding elf_parse_relocations_def
  by (rule fold_outcome_safe [where I = "\<lambda>ob. length (ob_sections ob) = unat (im_shnum img)"])
    (use assms in \<open>auto intro: reloc_section_safe dest: reloc_section_length\<close>)

lemma parse_sections_length:
  "elf_parse_sections mem d img object = Inr object' \<Longrightarrow> length (ob_sections object') = unat (im_shnum img)"
  unfolding elf_parse_sections_def Let_def by (auto simp: andthen_Inr_iff dest: map_outcome_length)

lemma parse_symbols_sections:
  "elf_parse_symbols mem d img object = Inr object' \<Longrightarrow> ob_sections object' = ob_sections object"
  unfolding elf_parse_symbols_def elf_read_symtab_def Let_def by (auto simp: andthen_Inr_iff split: option.splits)

lemma elf_object_read_safe:
  assumes "length d < 2 ^ 64" shows "safe (elf_object_read_memory mem d)"
  unfolding elf_object_read_memory_def
  by (intro safe_andthen parse_header_safe parse_sections_safe' parse_symbols_safe' parse_relocations_safe)
    (use assms parse_header_ok parse_sections_length parse_symbols_sections in auto)

section \<open>Well-formedness\<close>

text \<open>Relocations name existing symbols and patch bytes of their own section.\<close>

definition reloc_wf :: "nat \<Rightarrow> LinkSection \<Rightarrow> LinkReloc \<Rightarrow> bool" where
  "reloc_wf n s r \<longleftrightarrow> unat (rl_symbol_index r) < n \<and>
     (rl_kind r = LINK_RELOC_NONE \<or>
      unat (rl_offset r) + unat (elf_reloc_width (rl_kind r)) \<le> unat (sc_virtual_size s))"

definition relocs_wf :: "LinkObject \<Rightarrow> bool" where
  "relocs_wf ob \<longleftrightarrow> (\<forall>s\<in>set (ob_sections ob). \<forall>r\<in>set (sc_relocations s). reloc_wf (length (ob_symbols ob)) s r)"

lemma parse_section_wf:
  assumes "elf_parse_section mem d img shstr shstr_size i = Inr s"
  shows "section_wf s \<and> sc_relocations s = []"
  using assms unfolding elf_parse_section_def Let_def
  by (auto simp: andthen_Inr_iff section_wf_def unat_eq_zero word_neq_0_conv unat_gt_0 dest!: slice_Inr split: if_splits)

lemma place_symbol_wf:
  assumes "elf_place_symbol img shndx st y = Inr z" "\<not> sy_is_defined y" "\<not> sy_is_common y"
  shows "symbol_wf (unat (im_shnum img)) z"
  using assms unfolding elf_place_symbol_def
  by (auto simp: symbol_wf_def section_index_defs not_le word_less_nat_alt unat_ucast_up simp del: of_nat_unat split: if_splits)

lemma parse_symbol_wf:
  assumes "elf_parse_symbol mem d img symtab strtab n i = Inr z" shows "symbol_wf (unat (im_shnum img)) z"
  using assms unfolding elf_parse_symbol_def Let_def by (auto simp: andthen_Inr_iff intro: place_symbol_wf)

lemma parse_sections_wf:
  assumes "elf_parse_sections mem d img ob = Inr ob'"
  shows "\<forall>s\<in>set (ob_sections ob'). section_wf s \<and> sc_relocations s = []"
  using assms unfolding elf_parse_sections_def Let_def
  by (auto simp: andthen_Inr_iff dest!: map_outcome_all [where P = "\<lambda>s. section_wf s \<and> sc_relocations s = []"] parse_section_wf)

lemma parse_symbols_wf:
  assumes "elf_parse_symbols mem d img ob = Inr ob'" "ob_symbols ob = []"
  shows "\<forall>y\<in>set (ob_symbols ob'). symbol_wf (unat (im_shnum img)) y"
  using assms unfolding elf_parse_symbols_def elf_read_symtab_def Let_def
  by (auto simp: andthen_Inr_iff split: option.splits
      dest!: map_outcome_all [where P = "symbol_wf (unat (im_shnum img))"] parse_symbol_wf)

lemma parse_rela_wf:
  assumes "elf_parse_rela d ob s p = Inr r" shows "reloc_wf (length (ob_symbols ob)) s r"
proof -
  have w: "unat off + unat w \<le> unat v" if "\<not> v < off" "\<not> v - off < w" for off w v :: u64
    using that by (simp add: not_less word_le_nat_alt unat_sub)
  note w [where w = 8, simplified] w [where w = 4, simplified]
  then show ?thesis using assms unfolding elf_parse_rela_def Let_def
    by (auto simp: andthen_Inr_iff reloc_wf_def elf_reloc_width_def split: if_splits)
qed

lemma reloc_section_wf:
  assumes "elf_parse_reloc_section mem d img i ob = Inr ob'" "relocs_wf ob" "object_wf ob"
  shows "relocs_wf ob' \<and> object_wf ob'"
proof -
  consider "ob' = ob"
    | k relocs where "k < length (ob_sections ob)"
      "\<forall>r\<in>set relocs. reloc_wf (length (ob_symbols ob)) (ob_sections ob ! k) r"
      "ob' = ob\<lparr>ob_sections := (ob_sections ob)[k := (ob_sections ob ! k)
         \<lparr>sc_relocations := sc_relocations (ob_sections ob ! k) @ relocs\<rparr>]\<rparr>"
    using assms(1) unfolding elf_parse_reloc_section_def Let_def
    by (auto simp: andthen_Inr_iff not_le split: if_splits
        dest!: map_outcome_all [where P = "reloc_wf (length (ob_symbols ob)) _"] parse_rela_wf)
  then show ?thesis
  proof cases
    case 2
    note k = nth_mem [OF 2(1)]
    have rw: "reloc_wf n (s\<lparr>sc_relocations := x\<rparr>) r = reloc_wf n s r" for n s x r by (simp add: reloc_wf_def)
    have sw: "section_wf (s\<lparr>sc_relocations := x\<rparr>) = section_wf s" for s x by (simp add: section_wf_def split: option.split)
    show ?thesis using assms(2,3) 2 k unfolding relocs_wf_def object_wf_def 2(3)
      by (auto simp: rw sw dest!: set_update_subset_insert [THEN subsetD])
  qed (use assms in simp)
qed

lemma elf_object_read_wf:
  assumes "elf_object_read_memory mem d = Inr ob" shows "object_wf ob \<and> relocs_wf ob"
proof -
  obtain img ob0 ob1 where h: "elf_parse_sections mem d img \<lparr>ob_format = LINK_FORMAT_ELF, ob_sections = [], ob_symbols = []\<rparr> = Inr ob0"
    "elf_parse_symbols mem d img ob0 = Inr ob1" "elf_parse_relocations mem d img ob1 = Inr ob"
    using assms unfolding elf_object_read_memory_def by (auto simp: andthen_Inr_iff)
  have e: "ob_symbols ob0 = []" using h(1) unfolding elf_parse_sections_def Let_def by (auto simp: andthen_Inr_iff)
  have "object_wf ob1 \<and> relocs_wf ob1"
    using parse_sections_wf [OF h(1)] parse_symbols_wf [OF h(2) e] parse_symbols_sections [OF h(2)] parse_sections_length [OF h(1)]
    by (simp add: object_wf_def relocs_wf_def)
  then show ?thesis using h(3) unfolding elf_parse_relocations_def
    by (rule fold_outcome_inv [where I = "\<lambda>ob. object_wf ob \<and> relocs_wf ob", rotated]) (auto dest: reloc_section_wf)
qed

section \<open>The interface of a reader\<close>

text \<open>What the linker relies on, whatever the format: reading a file that fits the address range ends in a well-formed
  object or in an error that is reported.\<close>

locale object_reader =
  fixes read :: "bytes \<Rightarrow> LinkObject outcome" and fits :: "bytes \<Rightarrow> bool"
  assumes read_safe: "fits d \<Longrightarrow> safe (read d)"
    and read_wf: "read d = Inr ob \<Longrightarrow> object_wf ob"
begin

lemma outcome: "fits d \<Longrightarrow> (\<exists>ob. read d = Inr ob \<and> object_wf ob) \<or> (\<exists>e. read d = Inl e \<and> e \<noteq> Fault)"
  using read_safe [of d] read_wf [of d] by (cases "read d") simp_all

text \<open>Section indices of symbols can be used without a further test.\<close>

lemma symbol_section_exists:
  "read d = Inr ob \<Longrightarrow> y \<in> set (ob_symbols ob) \<Longrightarrow> 0 \<le> sy_section_index y \<Longrightarrow>
   nat (sy_section_index y) < length (ob_sections ob)"
  using read_wf [of d ob] by (auto simp: object_wf_def symbol_wf_def)

end

interpretation elf: object_reader "elf_object_read_memory mem" "\<lambda>d. length d < 2 ^ 64" for mem
  by unfold_locales (auto intro: elf_object_read_safe dest: elf_object_read_wf)

interpretation coff: object_reader "\<lambda>d. andthen (coff_object_read mem d) (link_object_from_coff mem')" "\<lambda>d. length d < 2 ^ 32"
  for mem mem'
  by unfold_locales
    (auto simp: andthen_Inr_iff intro!: safe_andthen coff_object_read_safe link_object_from_coff_safe
      dest: coff_object_read_wf intro: link_object_from_coff_wf)

lemma link_object_read_outcome:
  assumes "length d < 2 ^ 32" shows "safe (link_object_read mem mem' d)"
  using elf.read_safe [of d mem] coff.read_safe [of d mem mem'] assms by (simp add: link_object_read_def)

lemma reader_format:
  "elf_object_read_memory mem d = Inr ob \<Longrightarrow> ob_format ob = LINK_FORMAT_ELF"
  "link_object_from_coff mem' c = Inr ob \<Longrightarrow> ob_format ob = LINK_FORMAT_COFF"
proof -
  have f: "ob_format ob' = ob_format ob0" if "fold_outcome (elf_parse_reloc_section mem d img) js ob0 = Inr ob'" for img js ob0 ob'
    by (rule fold_outcome_inv [where I = "\<lambda>ob. ob_format ob = ob_format ob0", OF _ refl that])
      (auto simp: elf_parse_reloc_section_def Let_def andthen_Inr_iff split: if_splits)
  show "elf_object_read_memory mem d = Inr ob \<Longrightarrow> ob_format ob = LINK_FORMAT_ELF"
    unfolding elf_object_read_memory_def elf_parse_relocations_def elf_parse_symbols_def elf_read_symtab_def elf_parse_sections_def Let_def
    by (auto simp: andthen_Inr_iff split: option.splits dest!: f)
  show "link_object_from_coff mem' c = Inr ob \<Longrightarrow> ob_format ob = LINK_FORMAT_COFF"
    unfolding link_object_from_coff_def link_object_adopt_coff_sections_def link_object_adopt_coff_symbols_def
    by (auto simp: andthen_Inr_iff)
qed

section \<open>Properties\<close>




text \<open>A COFF file with one section of two bytes and one external symbol in it.\<close>

definition sample_coff :: bytes where
  "sample_coff =
    [0x64, 0x86, 1, 0, 0, 0, 0, 0, 62, 0, 0, 0, 1, 0, 0, 0, 0, 0, 0, 0] @
    [46, 116, 101, 120, 116, 0, 0, 0] @ [0, 0, 0, 0, 0, 0, 0, 0, 2, 0, 0, 0, 60, 0, 0, 0] @
    [0, 0, 0, 0, 0, 0, 0, 0, 0, 0, 0, 0, 0, 0, 0x50, 0] @ [0x90, 0xC3] @
    [109, 97, 105, 110, 0, 0, 0, 0, 0, 0, 0, 0, 1, 0, 0, 0, 2, 0]"

lemma sample_coff_reads:
  "(case link_object_read enough_memory enough_memory sample_coff of
      Inr ob \<Rightarrow> map sc_raw_data (ob_sections ob) = [Some [0x90, 0xC3]] \<and> map sy_section_index (ob_symbols ob) = [0]
    | Inl _ \<Rightarrow> False)"
  by code_simp


section \<open>Files of four gigabytes and more\<close>

text \<open>The header of a COFF file without sections whose one symbol ends at offset \<open>2 ^ 32 + 17\<close>.\<close>

definition far_coff_header :: bytes where
  "far_coff_header = [0x64, 0x86, 0, 0, 0, 0, 0, 0, 0xFF, 0xFF, 0xFF, 0xFF, 1, 0, 0, 0, 0, 0, 0, 0]"

lemma far_header_reads:
  "\<exists>object. coff_read_header (far_coff_header @ zs) = Inr object \<and> co_machine object = 0x8664 \<and>
     co_pointer_to_symbol_table object = 0xFFFFFFFF \<and> co_symbol_count object = 1"
  by (simp add: coff_read_header_def linker_read_u16_def linker_read_u32_def far_coff_header_def nth_append)

text \<open>A COFF file of more than four gigabytes can make the reader read past its end: the test of the string table
  header truncates the offset to 32 bits, the access does not.\<close>

theorem coff_string_table_offset_truncated:
  "\<exists>d. length d = 2 ^ 32 + 18 \<and> coff_object_read enough_memory d = Inl Fault"
proof -
  define zs :: bytes where "zs = replicate (2 ^ 32 - 2) 0"
  let ?d = "far_coff_header @ zs"
  have len: "length ?d = 2 ^ 32 + 18" by (simp add: far_coff_header_def zs_def)
  obtain object where h: "coff_read_header ?d = Inr object" "co_machine object = 0x8664"
    "co_pointer_to_symbol_table object = 0xFFFFFFFF" "co_symbol_count object = 1"
    using far_header_reads by blast
  have "coff_reader_parse_string_table enough_memory ?d object = Inl Fault"
    unfolding coff_reader_parse_string_table_def Let_def h(3,4) coff_range_ok_iff len
    by (simp add: COFF_SYMBOL_SIZE_def linker_read_u32_def len [simplified])
  then have "coff_object_read enough_memory ?d = Inl Fault"
    using h len by (simp add: coff_object_read_def COFF_FILE_HEADER_SIZE_def enough_memory_def allocate_mem_def)
  then show ?thesis using len by blast
qed

end
