(* ===== verification/Probing.thy ===== *)
theory Probing
  imports LinkBytes
begin

text \<open>
  Hash tables with open addressing and linear probing, as the linker uses them in several places: the loop that walks
  from the slot of the hash to the first slot with a given property, and the invariant that makes that walk find
  every key. The tables themselves are in the theories that use them; a table is seen here as the function from
  slots to the key stored there.
\<close>

section \<open>The walk\<close>

text \<open>A walk that has seen as many slots as the table has without stopping repeats itself for ever.\<close>

fun probe :: "(nat \<Rightarrow> bool) \<Rightarrow> (nat \<Rightarrow> nat) \<Rightarrow> nat \<Rightarrow> nat \<Rightarrow> nat outcome" where
  "probe stop nxt 0 b = Inl Diverge"
| "probe stop nxt (Suc fuel) b = (if stop b then Inr b else probe stop nxt fuel (nxt b))"

lemma probe_cong:
  assumes "\<And>b. b < n \<Longrightarrow> stop b = stop' b" "\<And>b. b < n \<Longrightarrow> nxt b < n" "b < n"
  shows "probe stop nxt fuel b = probe stop' nxt fuel b"
  using assms(3) by (induction fuel arbitrary: b) (simp_all add: assms(1,2))

text \<open>The hash function of \<open>common.c\<close>, which the symbol tables and the label map of the code generator use.\<close>

definition mettle_fnv1a_hash :: "string \<Rightarrow> u64" where
  "mettle_fnv1a_hash s = foldl (\<lambda>h c. (h XOR of_char c) * 1099511628211) 1469598103934665603 s"

definition slot_of :: "u64 \<Rightarrow> nat \<Rightarrow> nat" where
  "slot_of h n = unat (h AND word_of_nat (n - 1))"

definition next_slot :: "nat \<Rightarrow> nat \<Rightarrow> nat" where
  "next_slot n b = (b + 1) AND (n - 1)"

definition pow2_size :: "nat \<Rightarrow> bool" where
  "pow2_size n \<longleftrightarrow> (\<exists>k < 64. n = 2 ^ k)"

text \<open>The size loops of the sources: double until the minimum is reached.\<close>

function double_until :: "nat \<Rightarrow> nat \<Rightarrow> nat" where
  "double_until n minimum = (if 0 < n \<and> n < minimum then double_until (n * 2) minimum else n)"
  by pat_completeness auto
termination by (relation "measure (\<lambda>(n, m). m - n)") auto

declare double_until.simps [simp del]

lemma double_until_ge: "0 < n \<Longrightarrow> minimum \<le> double_until n minimum"
proof (induction n minimum rule: double_until.induct)
  case (1 n m)
  then show ?case by (subst double_until.simps) auto
qed

lemma double_until_le: "n \<le> double_until n minimum"
proof (induction n minimum rule: double_until.induct)
  case (1 n m)
  then show ?case by (subst double_until.simps) auto
qed

lemma double_until_pow2: "\<exists>j. double_until (2 ^ k) m = 2 ^ (k + j)"
proof (induction "2 ^ k :: nat" m arbitrary: k rule: double_until.induct)
  case (1 m k)
  show ?case
  proof (cases "2 ^ k < m")
    case True
    have e: "2 ^ k * 2 = (2 ^ Suc k :: nat)" by simp
    have "\<exists>j. double_until (2 ^ Suc k) m = 2 ^ (Suc k + j)"
      using "1.hyps" [of "Suc k"] True e by simp
    then obtain j where "double_until (2 ^ Suc k) m = 2 ^ (k + Suc j)" by auto
    then show ?thesis using True e by (subst double_until.simps) (metis zero_less_numeral zero_less_power)
  next
    case False
    then show ?thesis by (subst double_until.simps) (auto intro: exI [of _ 0])
  qed
qed

lemma double_until_less: "0 < n \<Longrightarrow> n < minimum \<Longrightarrow> double_until n minimum < 2 * minimum"
proof (induction n minimum rule: double_until.induct)
  case (1 n m)
  show ?case
  proof (cases "n * 2 < m")
    case True
    then show ?thesis using 1 by (subst double_until.simps) auto
  next
    case False
    then have "double_until (n * 2) m = n * 2" by (subst double_until.simps) auto
    then show ?thesis using 1(2,3) by (subst double_until.simps) auto
  qed
qed

lemma and_pow2_mod: "(x :: nat) AND (2 ^ k - 1) = x mod 2 ^ k"
  by (metis mask_eq_exp_minus_1 take_bit_eq_mask take_bit_eq_mod)

section \<open>The invariant\<close>

text \<open>What the probing relies on: the slot of a key is inside the table, and the next slot is the next one cyclically.\<close>

locale open_addressing =
  fixes home :: "'k \<Rightarrow> nat \<Rightarrow> nat" and nxt :: "nat \<Rightarrow> nat \<Rightarrow> nat" and sized :: "nat \<Rightarrow> bool"
  assumes home_less: "sized n \<Longrightarrow> home k n < n"
    and nxt_mod: "sized n \<Longrightarrow> b < n \<Longrightarrow> nxt n b = (b + 1) mod n"
begin

definition walk :: "'k \<Rightarrow> nat \<Rightarrow> nat \<Rightarrow> nat" where
  "walk k n i = (home k n + i) mod n"

text \<open>Every stored key is found by walking over occupied slots, and is stored once.\<close>

definition placed :: "(nat \<Rightarrow> 'k option) \<Rightarrow> nat \<Rightarrow> bool" where
  "placed ka n \<longleftrightarrow> sized n \<and>
     (\<forall>s k. s < n \<longrightarrow> ka s = Some k \<longrightarrow> (\<exists>i < n. s = walk k n i \<and> (\<forall>j < i. ka (walk k n j) \<noteq> None))) \<and>
     (\<forall>s s' k. s < n \<longrightarrow> s' < n \<longrightarrow> ka s = Some k \<longrightarrow> ka s' = Some k \<longrightarrow> s = s')"

definition roomy :: "(nat \<Rightarrow> 'k option) \<Rightarrow> nat \<Rightarrow> bool" where
  "roomy ka n \<longleftrightarrow> (\<exists>s < n. ka s = None)"

lemma walk_less: "sized n \<Longrightarrow> walk k n i < n"
  using home_less [of n k] by (simp add: walk_def)

lemma walk_0: "sized n \<Longrightarrow> walk k n 0 = home k n"
  using home_less [of n k] by (simp add: walk_def)

lemma nxt_walk: "sized n \<Longrightarrow> nxt n (walk k n i) = walk k n (Suc i)"
  using nxt_mod [OF _ walk_less, of n k i] by (simp add: walk_def mod_simps)

lemma walk_onto:
  assumes "sized n" "s < n" shows "\<exists>i < n. walk k n i = s"
proof (cases "home k n \<le> s")
  case True
  then have "walk k n (s - home k n) = s" using assms by (simp add: walk_def)
  then show ?thesis using assms True by (intro exI [of _ "s - home k n"]) simp
next
  case False
  have h: "home k n < n" using home_less assms by simp
  then have "home k n + (n - home k n + s) = n + s" using False by simp
  then have "walk k n (n - home k n + s) = s" using assms by (simp add: walk_def)
  moreover have "n - home k n + s < n" using False h by simp
  ultimately show ?thesis by blast
qed

lemma probe_walk:
  assumes "sized n" "stop (walk k n (m + i))" "\<forall>j < i. \<not> stop (walk k n (m + j))" "i < fuel"
  shows "probe stop (nxt n) fuel (walk k n m) = Inr (walk k n (m + i))"
  using assms
proof (induction i arbitrary: m fuel)
  case 0
  then show ?case by (cases fuel) simp_all
next
  case (Suc i)
  then obtain f where f: "fuel = Suc f" "i < f" by (cases fuel) auto
  have "\<not> stop (walk k n m)" using Suc.prems(3) by force
  moreover have "probe stop (nxt n) f (walk k n (Suc m)) = Inr (walk k n (Suc m + i))"
    using Suc.prems f by (intro Suc.IH) auto
  ultimately show ?case using f Suc.prems(1) by (simp add: nxt_walk)
qed

lemma probe_home:
  assumes "sized n" "stop (walk k n i)" "\<forall>j < i. \<not> stop (walk k n j)" "i < n"
  shows "probe stop (nxt n) n (home k n) = Inr (walk k n i)"
  using probe_walk [of n stop k 0 i n] assms by (simp add: walk_0)

lemma find_hit:
  assumes p: "placed ka n" and s: "s < n" "ka s = Some k"
  shows "probe (\<lambda>b. ka b = None \<or> ka b = Some k) (nxt n) n (home k n) = Inr s"
proof -
  have sz: "sized n" using p by (simp add: placed_def)
  obtain i where i: "i < n" "s = walk k n i" "\<forall>j < i. ka (walk k n j) \<noteq> None"
    using p s unfolding placed_def by blast
  define i0 where "i0 = (LEAST j. walk k n j = s)"
  have i0: "walk k n i0 = s" "\<And>j. walk k n j = s \<Longrightarrow> i0 \<le> j"
    unfolding i0_def using i(2) by (auto intro: LeastI Least_le)
  have le: "i0 \<le> i" using i0(2) i(2) by simp
  show ?thesis
    unfolding i0(1) [symmetric]
  proof (rule probe_home [OF sz])
    show "ka (walk k n i0) = None \<or> ka (walk k n i0) = Some k" using i0 s by simp
    show "i0 < n" using le i by simp
    show "\<forall>j < i0. \<not> (ka (walk k n j) = None \<or> ka (walk k n j) = Some k)"
    proof (intro allI impI)
      fix j assume j: "j < i0"
      then have "walk k n j \<noteq> s" using i0(2) [of j] by auto
      then have "ka (walk k n j) \<noteq> Some k" using p s walk_less [OF sz] unfolding placed_def by blast
      then show "\<not> (ka (walk k n j) = None \<or> ka (walk k n j) = Some k)" using i(3) j le by auto
    qed
  qed
qed

text \<open>A walk that looks for a free slot stops at the first one of its sequence.\<close>

lemma first_free:
  assumes "sized n" "roomy ka n"
  obtains i where "i < n" "ka (walk k n i) = None" "\<forall>j < i. ka (walk k n j) \<noteq> None"
proof -
  obtain s where "s < n" "ka s = None" using assms by (auto simp: roomy_def)
  then obtain m where m: "m < n" "ka (walk k n m) = None" using walk_onto [OF assms(1)] by metis
  define i where "i = (LEAST j. ka (walk k n j) = None)"
  have "ka (walk k n i) = None" "i \<le> m" "\<forall>j < i. ka (walk k n j) \<noteq> None"
    unfolding i_def using m LeastI [of "\<lambda>j. ka (walk k n j) = None"] Least_le [of "\<lambda>j. ka (walk k n j) = None"] not_less_Least
    by blast+
  then show ?thesis using that [of i] m(1) by auto
qed

lemma probe_free:
  assumes "sized n" "roomy ka n"
  obtains i where "i < n" "probe (\<lambda>b. ka b = None) (nxt n) n (home k n) = Inr (walk k n i)"
    "ka (walk k n i) = None" "\<forall>j < i. ka (walk k n j) \<noteq> None"
proof -
  obtain i where i: "i < n" "ka (walk k n i) = None" "\<forall>j < i. ka (walk k n j) \<noteq> None"
    using first_free [OF assms] by blast
  have "probe (\<lambda>b. ka b = None) (nxt n) n (home k n) = Inr (walk k n i)"
    by (rule probe_home [OF assms(1)]) (use i in auto)
  then show ?thesis using that i by blast
qed

lemma find_miss:
  assumes p: "placed ka n" and "roomy ka n" and m: "\<forall>s < n. ka s \<noteq> Some k"
  obtains i where "i < n" "probe (\<lambda>b. ka b = None \<or> ka b = Some k) (nxt n) n (home k n) = Inr (walk k n i)"
    "ka (walk k n i) = None" "\<forall>j < i. ka (walk k n j) \<noteq> None"
proof -
  have sz: "sized n" using p by (simp add: placed_def)
  obtain i where i: "i < n" "ka (walk k n i) = None" "\<forall>j < i. ka (walk k n j) \<noteq> None"
    using first_free [OF sz assms(2)] by blast
  have "probe (\<lambda>b. ka b = None \<or> ka b = Some k) (nxt n) n (home k n) = Inr (walk k n i)"
    by (rule probe_home [OF sz]) (use i m walk_less [OF sz] in auto)
  then show ?thesis using that i by blast
qed

lemma placed_insert:
  assumes p: "placed ka n" and i: "i < n" "\<forall>j < i. ka (walk k n j) \<noteq> None" "ka (walk k n i) = None"
    and m: "\<forall>s < n. ka s \<noteq> Some k"
  shows "placed (ka(walk k n i \<mapsto> k)) n"
  unfolding placed_def
proof (intro conjI allI impI)
  let ?s = "walk k n i"
  show "sized n" using p by (simp add: placed_def)
  fix s k' assume s: "s < n" "(ka(?s \<mapsto> k)) s = Some k'"
  show "\<exists>i < n. s = walk k' n i \<and> (\<forall>j < i. (ka(?s \<mapsto> k)) (walk k' n j) \<noteq> None)"
  proof (cases "s = ?s")
    case True
    then show ?thesis using s i by auto
  next
    case False
    then obtain i' where "i' < n" "s = walk k' n i'" "\<forall>j < i'. ka (walk k' n j) \<noteq> None"
      using p s unfolding placed_def by (metis fun_upd_other)
    then show ?thesis by (intro exI [of _ i']) auto
  qed
next
  fix s s' k' assume "s < n" "s' < n" "(ka(walk k n i \<mapsto> k)) s = Some k'" "(ka(walk k n i \<mapsto> k)) s' = Some k'"
  then show "s = s'" using p m unfolding placed_def by (auto split: if_splits)
qed

lemma placed_empty: "sized n \<Longrightarrow> (\<And>s. s < n \<Longrightarrow> ka s = None) \<Longrightarrow> placed ka n"
  by (simp add: placed_def)

lemma placed_cong:
  assumes e: "\<And>s. s < n \<Longrightarrow> ka s = ka' s" and p: "placed ka n" shows "placed ka' n"
proof -
  have sz: "sized n" using p by (simp add: placed_def)
  have w: "ka (walk k n j) = ka' (walk k n j)" for k j using e walk_less [OF sz] by simp
  show ?thesis using p e unfolding placed_def w by (metis (no_types, lifting))
qed

end

lemma slot_of_mod: "k < 64 \<Longrightarrow> slot_of h (2 ^ k) = unat h mod 2 ^ k"
proof -
  assume "k < 64"
  have "(word_of_nat (2 ^ k - 1) :: u64) = mask k" by (simp add: mask_eq_exp_minus_1 of_nat_diff)
  then have "slot_of h (2 ^ k) = unat (take_bit k h)" by (simp add: slot_of_def take_bit_eq_mask)
  also have "\<dots> = take_bit k (unat h)" by (simp add: unsigned_take_bit_eq)
  finally show ?thesis by (simp add: take_bit_eq_mod)
qed

interpretation lp: open_addressing "\<lambda>k n. slot_of (hash k) n" next_slot pow2_size for hash :: "'k \<Rightarrow> u64"
proof unfold_locales
  fix n k b
  assume "pow2_size n"
  then obtain j where j: "j < 64" "n = 2 ^ j" by (auto simp: pow2_size_def)
  show "slot_of (hash k) n < n" using j slot_of_mod [of j "hash k"] by simp
  show "b < n \<Longrightarrow> next_slot n b = (b + 1) mod n" using j and_pow2_mod [of "b + 1" j] by (simp add: next_slot_def)
qed

end
