(* ===== verification/LinkTypes.thy ===== *)
theory LinkTypes
  imports LinkObject Probing
begin

text \<open>
  The state of a link (\<open>linker/symbol_resolve.h\<close>): the merged sections, the input objects with what the stages record
  for them, and the global symbol table with its hash index.

  The sentinel \<open>LINKED_SECTION_INDEX_NONE\<close> is \<open>None\<close>. Sizes, offsets and addresses that come from the files are
  64-bit words; counts of array elements are natural numbers. \<open>lk_data\<close> is the allocated buffer of a merged section:
  its length is \<open>data_capacity\<close>, and only its first \<open>lk_size\<close> bytes have been written.
\<close>

record LinkedSectionContribution =
  ct_object_index :: nat
  ct_section_index :: nat
  ct_merged_offset :: u64
  ct_size :: u64
  ct_alignment :: u64

record LinkedSection =
  lk_kind :: LinkSectionKind
  lk_name :: string
  lk_data :: bytes
  lk_size :: u64
  lk_virtual_size :: u64
  lk_alignment :: u64
  lk_virtual_address :: u64
  lk_contributions :: "LinkedSectionContribution list"
  lk_contribution_capacity :: nat

record LinkedObjectSymbol =
  os_name :: "string option"
  os_object_index :: nat
  os_symbol_index :: u32
  os_is_defined :: bool
  os_is_external :: bool
  os_is_local :: bool
  os_is_auxiliary :: bool
  os_section_index :: int
  os_merged_section_index :: "nat option"
  os_merged_offset :: u64
  os_virtual_address :: u64
  os_size :: u64
  os_elf_type :: u8
  os_is_weak :: bool

record LinkedInputObject =
  in_path :: "string option"
  in_object :: "LinkObject option"
  in_section_merged_indices :: "nat option list"
  in_section_merged_offsets :: "u64 list"
  in_section_merged_sizes :: "u64 list"
  in_section_alignments :: "u64 list"
  in_symbols :: "LinkedObjectSymbol list"
  in_is_runtime_default :: bool
  in_section_gc_dead :: "bool list option"
  in_symbol_gc_referenced :: "bool list option"

record LinkedSymbol =
  ls_name :: "string option"
  ls_is_defined :: bool
  ls_is_external :: bool
  ls_defining_object_index :: "nat option"
  ls_defining_symbol_index :: u32
  ls_merged_section_index :: "nat option"
  ls_merged_offset :: u64
  ls_virtual_address :: u64
  ls_size :: u64
  ls_elf_type :: u8
  ls_is_weak :: bool
  ls_is_shared_import :: bool
  ls_shared_import_index :: nat

record ElfSharedSymbol =
  ss_name :: string
  ss_version :: "string option"
  ss_size :: u64
  ss_alignment :: u64
  ss_type :: u8
  ss_is_weak :: bool

record ElfSharedLibrary =
  lb_path :: string
  lb_soname :: string
  lb_symbols :: "ElfSharedSymbol list"
  lb_symbol_capacity :: nat
  lb_buckets :: "nat list"

record LinkedSharedImport =
  si_library_index :: "nat option"
  si_symbol_index :: nat
  si_version :: "string option"
  si_size :: u64
  si_alignment :: u64
  si_type :: u8
  si_is_weak :: bool

record LinkResolutionOptions =
  op_entry_symbol_name :: "string option"
  op_section_alignment :: u64
  op_allow_unresolved_externals :: bool
  op_object_is_runtime_default :: "bool list option"
  op_shared_library_paths :: "string list"
  op_produce_shared_library :: bool

record LinkResolution =
  rs_objects :: "LinkedInputObject list"
  rs_sections :: "LinkedSection list"
  rs_symbols :: "LinkedSymbol list"
  rs_symbol_capacity :: nat
  rs_symbol_buckets :: "nat list"
  rs_entry_symbol :: "nat option"
  rs_shared_libraries :: "ElfSharedLibrary list"
  rs_shared_library_used :: "bool list"
  rs_shared_imports :: "LinkedSharedImport list"
  rs_shared_import_capacity :: nat

text \<open>The places where the stages after the readers allocate.\<close>

datatype link_site =
    GrowSection nat nat | GrowContributions nat nat | MapSections nat | GcTables | GcObject nat | GcDead nat
  | MapSymbols nat | CopySymbolName nat nat | GrowSymbols nat | CopyGlobalName nat | IndexSymbols nat
  | GrowImports nat | CopyVersion nat | LoadLibraries | NewResolution | LoadObjects | ObjectPath nat

type_synonym link_memory = "link_site \<Rightarrow> bool"

definition plenty :: link_memory where "plenty = (\<lambda>_. True)"

section \<open>Lookup of merged sections\<close>

fun link_section_index_from_kind :: "LinkSectionKind \<Rightarrow> nat option" where
  "link_section_index_from_kind LINK_SECTION_KIND_TEXT = Some 0"
| "link_section_index_from_kind LINK_SECTION_KIND_RDATA = Some 1"
| "link_section_index_from_kind LINK_SECTION_KIND_DATA = Some 2"
| "link_section_index_from_kind LINK_SECTION_KIND_BSS = Some 3"
| "link_section_index_from_kind LINK_SECTION_KIND_PDATA = Some 4"
| "link_section_index_from_kind LINK_SECTION_KIND_XDATA = Some 5"
| "link_section_index_from_kind LINK_SECTION_KIND_TLS = Some 6"
| "link_section_index_from_kind LINK_SECTION_KIND_UNKNOWN = None"

fun link_section_name_from_kind :: "LinkSectionKind \<Rightarrow> string" where
  "link_section_name_from_kind LINK_SECTION_KIND_TEXT = ''.text''"
| "link_section_name_from_kind LINK_SECTION_KIND_RDATA = ''.rdata''"
| "link_section_name_from_kind LINK_SECTION_KIND_DATA = ''.data''"
| "link_section_name_from_kind LINK_SECTION_KIND_BSS = ''.bss''"
| "link_section_name_from_kind LINK_SECTION_KIND_PDATA = ''.pdata''"
| "link_section_name_from_kind LINK_SECTION_KIND_XDATA = ''.xdata''"
| "link_section_name_from_kind LINK_SECTION_KIND_TLS = ''.tls''"
| "link_section_name_from_kind LINK_SECTION_KIND_UNKNOWN = ''<unknown>''"

definition link_resolution_find_section :: "LinkResolution \<Rightarrow> LinkSectionKind \<Rightarrow> LinkedSection option" where
  "link_resolution_find_section r kind = map_option (\<lambda>i. rs_sections r ! i) (link_section_index_from_kind kind)"

definition linked_section_kinds :: "LinkSectionKind list" where
  "linked_section_kinds =
    [LINK_SECTION_KIND_TEXT, LINK_SECTION_KIND_RDATA, LINK_SECTION_KIND_DATA, LINK_SECTION_KIND_BSS,
     LINK_SECTION_KIND_PDATA, LINK_SECTION_KIND_XDATA, LINK_SECTION_KIND_TLS]"

definition blank_section :: "LinkSectionKind \<Rightarrow> LinkedSection" where
  "blank_section kind = \<lparr>lk_kind = kind, lk_name = link_section_name_from_kind kind, lk_data = [], lk_size = 0,
     lk_virtual_size = 0, lk_alignment = 1, lk_virtual_address = 0, lk_contributions = [], lk_contribution_capacity = 0\<rparr>"

definition blank_resolution :: "LinkedInputObject list \<Rightarrow> LinkResolution" where
  "blank_resolution objs = \<lparr>rs_objects = objs, rs_sections = [], rs_symbols = [], rs_symbol_capacity = 0,
     rs_symbol_buckets = [], rs_entry_symbol = None, rs_shared_libraries = [], rs_shared_library_used = [],
     rs_shared_imports = [], rs_shared_import_capacity = 0\<rparr>"

definition link_resolution_init_sections :: "LinkResolution \<Rightarrow> LinkResolution" where
  "link_resolution_init_sections r = r\<lparr>rs_sections := map blank_section linked_section_kinds\<rparr>"

end
