(* ===== verification/ElfShared.thy ===== *)
theory ElfShared
  imports LinkTypes ElfReader
begin

text \<open>
  The reader of ELF shared libraries (\<open>linker/elf_shared.c\<close>): it finds the dynamic symbol table of a library through the
  section headers or through the dynamic segment, collects the exported symbols with their versions and indexes them by
  name. A linker script in place of a library is searched for the path of one. A pointer into the file is its offset, every
  read through one is checked against the file, and the files of the system are the parameter \<open>files\<close>.
\<close>

section \<open>The image\<close>

record ElfSharedImage =
  ei_phoff :: u64
  ei_phentsize :: u16
  ei_phnum :: u16
  ei_shoff :: u64
  ei_shentsize :: u16
  ei_shnum :: u64

record ElfSharedTables =
  et_symbols :: "nat option"
  et_symbol_count :: u64
  et_strings :: "nat option"
  et_string_size :: u64
  et_versym :: "nat option"
  et_versym_count :: u64
  et_verdef :: "nat option"
  et_verdef_size :: u64

datatype shared_site =
    ScriptText | ScriptToken nat | NewLibrary | LibraryPath | LibrarySoname | GrowLibrary nat | SharedName nat | SharedVersion nat
  | LibraryIndex

type_synonym shared_memory = "shared_site \<Rightarrow> bool"

definition elf_shared_range_ok :: "bytes \<Rightarrow> u64 \<Rightarrow> u64 \<Rightarrow> bool" where
  "elf_shared_range_ok d offset len = link_object_range_ok (image_size d) offset len"

definition elf_shared_at :: "bytes \<Rightarrow> u64 \<Rightarrow> u64 \<Rightarrow> nat option" where
  "elf_shared_at d offset len = (if \<not> elf_shared_range_ok d offset len then None else Some (unat offset))"

definition elf_shared_phdr :: "bytes \<Rightarrow> ElfSharedImage \<Rightarrow> u64 \<Rightarrow> nat option" where
  "elf_shared_phdr d img index = elf_shared_at d (ei_phoff img + index * ucast (ei_phentsize img)) 56"

definition elf_shared_shdr :: "bytes \<Rightarrow> ElfSharedImage \<Rightarrow> u64 \<Rightarrow> nat option" where
  "elf_shared_shdr d img index = elf_shared_at d (ei_shoff img + index * ucast (ei_shentsize img)) 64"

text \<open>A loop that returns from inside at the first index that gives a result.\<close>

fun first_outcome :: "('a \<Rightarrow> 'b option outcome) \<Rightarrow> 'a list \<Rightarrow> 'b option outcome" where
  "first_outcome f [] = Inr None"
| "first_outcome f (x # xs) = andthen (f x) (\<lambda>r. case r of Some y \<Rightarrow> Inr (Some y) | None \<Rightarrow> first_outcome f xs)"

definition load_contains :: "bytes \<Rightarrow> ElfSharedImage \<Rightarrow> u64 \<Rightarrow> nat \<Rightarrow> u64 option outcome" where
  "load_contains d img address i =
    (case elf_shared_phdr d img (word_of_nat i) of
       None \<Rightarrow> Inr None
     | Some phdr \<Rightarrow>
         andthen (linker_read_u32 d phdr) (\<lambda>type.
         if type \<noteq> 1 then Inr None
         else andthen (linker_read_u64 d (phdr + 16)) (\<lambda>vaddr.
              andthen (linker_read_u64 d (phdr + 32)) (\<lambda>filesz.
              if address \<ge> vaddr \<and> address - vaddr < filesz
              then andthen (linker_read_u64 d (phdr + 8)) (\<lambda>offset. Inr (Some (offset + (address - vaddr))))
              else Inr None))))"

definition elf_shared_offset_for_address :: "bytes \<Rightarrow> ElfSharedImage \<Rightarrow> u64 \<Rightarrow> u64 option outcome" where
  "elf_shared_offset_for_address d img address = first_outcome (load_contains d img address) [0..<unat (ei_phnum img)]"

text \<open>The search stops at the first zero byte; it faults when it leaves the file before.\<close>

definition elf_shared_string :: "bytes \<Rightarrow> nat option \<Rightarrow> u64 \<Rightarrow> u32 \<Rightarrow> string option outcome" where
  "elf_shared_string d table table_size offset =
    (case table of
       None \<Rightarrow> Inr None
     | Some t \<Rightarrow>
         if ucast offset \<ge> table_size then Inr None
         else let len = unat table_size - unat offset; bs = take len (drop (t + unat offset) d)
              in if 0 \<in> set bs then Inr (Some (cstr bs))
                 else if length bs < len then Inl Fault else Inr None)"

definition elf_shared_check_ident :: "bytes \<Rightarrow> unit outcome" where
  "elf_shared_check_ident d =
    andthen (need (64 \<le> length d \<and> take 4 d = [0x7F, 0x45, 0x4C, 0x46]) ''not an ELF file'') (\<lambda>_.
    andthen (need (d ! 4 = 2 \<and> d ! 5 = 1) ''not a little endian 64-bit ELF file'') (\<lambda>_.
    andthen (linker_read_u16 d 16) (\<lambda>type.
    andthen (need (type = 3) ''not a shared object'') (\<lambda>_.
    andthen (linker_read_u16 d 18) (\<lambda>machine.
    need (machine = 62) ''shared object is built for another machine'')))))"

definition elf_shared_header :: "bytes \<Rightarrow> ElfSharedImage outcome" where
  "elf_shared_header d =
    andthen (linker_read_u64 d 32) (\<lambda>phoff.
    andthen (linker_read_u16 d 54) (\<lambda>phentsize.
    andthen (linker_read_u16 d 56) (\<lambda>phnum.
    andthen (linker_read_u64 d 40) (\<lambda>shoff.
    andthen (linker_read_u16 d 58) (\<lambda>shentsize.
    andthen (linker_read_u16 d 60) (\<lambda>shnum.
    Inr \<lparr>ei_phoff = phoff, ei_phentsize = phentsize, ei_phnum = phnum, ei_shoff = shoff, ei_shentsize = shentsize,
         ei_shnum = ucast shnum\<rparr>))))))"

text \<open>The number of section headers when it does not fit the file header.\<close>

definition elf_shared_extended_count :: "bytes \<Rightarrow> ElfSharedImage \<Rightarrow> ElfSharedImage outcome" where
  "elf_shared_extended_count d img =
    (if ei_shnum img = 0 \<and> ei_shoff img \<noteq> 0 \<and> ei_shentsize img \<noteq> 0
     then case elf_shared_shdr d img 0 of
            None \<Rightarrow> Inr img
          | Some first \<Rightarrow> andthen (linker_read_u64 d (first + 32)) (\<lambda>n. Inr (img\<lparr>ei_shnum := n\<rparr>))
     else Inr img)"

definition elf_shared_open_image :: "bytes \<Rightarrow> ElfSharedImage outcome" where
  "elf_shared_open_image d =
    andthen (elf_shared_check_ident d) (\<lambda>_.
    andthen (elf_shared_header d) (\<lambda>img.
    andthen (need (ei_phentsize img = 0 \<or> 56 \<le> ei_phentsize img) ''undersized program headers'') (\<lambda>_.
    andthen (need (ei_shentsize img = 0 \<or> 64 \<le> ei_shentsize img) ''undersized section headers'') (\<lambda>_.
    let img = (if ei_phentsize img = 0 then img\<lparr>ei_phnum := 0\<rparr> else img);
        img = (if ei_shentsize img = 0 then img\<lparr>ei_shnum := 0\<rparr> else img)
    in andthen (elf_shared_extended_count d img) (\<lambda>img.
       andthen (need (ei_phnum img = 0 \<or>
                      elf_shared_range_ok d (ei_phoff img) (ucast (ei_phnum img) * ucast (ei_phentsize img)))
                 ''truncated program header table'') (\<lambda>_.
       Inr (if ei_shnum img \<noteq> 0 \<and> \<not> elf_shared_range_ok d (ei_shoff img) (ei_shnum img * ucast (ei_shentsize img))
            then img\<lparr>ei_shnum := 0\<rparr> else img)))))))"

section \<open>The dynamic segment\<close>

text \<open>Position and number of entries of the dynamic table named by one header: \<open>Some None\<close> is the early return of a
  null pointer.\<close>

definition dynamic_at :: "bytes \<Rightarrow> nat option \<Rightarrow> nat \<Rightarrow> u32 \<Rightarrow> nat \<Rightarrow> (nat \<times> u64) option option outcome" where
  "dynamic_at d hdr type_at wanted offset_at =
    (case hdr of
       None \<Rightarrow> Inr None
     | Some h \<Rightarrow>
         andthen (linker_read_u32 d (h + type_at)) (\<lambda>type.
         if type \<noteq> wanted then Inr None
         else andthen (linker_read_u64 d (h + offset_at)) (\<lambda>offset.
              andthen (linker_read_u64 d (h + 32)) (\<lambda>sz.
              Inr (Some (if \<not> elf_shared_range_ok d offset sz then None else Some (unat offset, sz div 16)))))))"

definition elf_shared_dynamic_segment :: "bytes \<Rightarrow> ElfSharedImage \<Rightarrow> (nat \<times> u64) option outcome" where
  "elf_shared_dynamic_segment d img =
    andthen (first_outcome (\<lambda>i. dynamic_at d (elf_shared_phdr d img (word_of_nat i)) 0 2 8) [0..<unat (ei_phnum img)]) (\<lambda>r.
    case r of
      Some result \<Rightarrow> Inr result
    | None \<Rightarrow>
        andthen (first_outcome (\<lambda>i. dynamic_at d (elf_shared_shdr d img (word_of_nat i)) 4 6 24) [0..<unat (ei_shnum img)]) (\<lambda>r.
        Inr (case r of Some result \<Rightarrow> result | None \<Rightarrow> None)))"

text \<open>One entry: \<open>Some None\<close> at the end of the table, \<open>Some (Some v)\<close> for the tag looked for.\<close>

definition dynamic_entry :: "bytes \<Rightarrow> nat \<Rightarrow> u64 \<Rightarrow> nat \<Rightarrow> u64 option option outcome" where
  "dynamic_entry d dynamic tag i =
    andthen (linker_read_u64 d (dynamic + i * 16)) (\<lambda>entry_tag.
    if entry_tag = 0 then Inr (Some None)
    else if entry_tag = tag then andthen (linker_read_u64 d (dynamic + i * 16 + 8)) (\<lambda>v. Inr (Some (Some v)))
    else Inr None)"

definition elf_shared_dynamic_value :: "bytes \<Rightarrow> nat \<times> u64 \<Rightarrow> u64 \<Rightarrow> u64 option outcome" where
  "elf_shared_dynamic_value d dyn tag =
    (case dyn of (dynamic, n) \<Rightarrow>
     andthen (first_outcome (dynamic_entry d dynamic tag) [0..<unat n]) (\<lambda>r.
     Inr (case r of Some result \<Rightarrow> result | None \<Rightarrow> None)))"

text \<open>The tag and the mapping of its address, as the sources combine them with \<open>&&\<close>.\<close>

definition dynamic_offset :: "bytes \<Rightarrow> ElfSharedImage \<Rightarrow> nat \<times> u64 \<Rightarrow> u64 \<Rightarrow> u64 option outcome" where
  "dynamic_offset d img dyn tag =
    andthen (elf_shared_dynamic_value d dyn tag) (\<lambda>v.
    case v of None \<Rightarrow> Inr None | Some address \<Rightarrow> elf_shared_offset_for_address d img address)"

section \<open>The number of symbols in a GNU hash table\<close>

definition max_bucket :: "bytes \<Rightarrow> nat \<Rightarrow> nat \<Rightarrow> u32 \<Rightarrow> u32 outcome" where
  "max_bucket d buckets i best =
    andthen (linker_read_u32 d (buckets + unat (word_of_nat i * 4 :: u32))) (\<lambda>v. Inr (if v > best then v else best))"

text \<open>Every round reads another word of the file, so a walk that is longer than the file repeats itself.\<close>

fun chain_end :: "nat \<Rightarrow> bytes \<Rightarrow> nat \<Rightarrow> u64 \<Rightarrow> u64 \<Rightarrow> u32 \<Rightarrow> u32 \<Rightarrow> u32 outcome" where
  "chain_end 0 d table chain available symbol_offset i = Inl Diverge"
| "chain_end (Suc fuel) d table chain available symbol_offset i =
    (if chain + ucast i * 4 + 4 \<le> available
     then andthen (linker_read_u32 d (table + unat (chain + ucast i * 4))) (\<lambda>v.
          if v AND 1 \<noteq> 0 then Inr (symbol_offset + i + 1)
          else chain_end fuel d table chain available symbol_offset (i + 1))
     else Inr 0)"

definition elf_shared_gnu_hash_symbol_count :: "bytes \<Rightarrow> nat \<Rightarrow> u64 \<Rightarrow> u32 outcome" where
  "elf_shared_gnu_hash_symbol_count d table available =
    (if available < 16 then Inr 0
     else andthen (linker_read_u32 d table) (\<lambda>bucket_count.
          andthen (linker_read_u32 d (table + 4)) (\<lambda>symbol_offset.
          andthen (linker_read_u32 d (table + 8)) (\<lambda>bloom_size.
          let header = 16 + ucast bloom_size * 8 :: u64
          in if bucket_count = 0 \<or> available < header + ucast bucket_count * 4 then Inr 0
             else let chain = header + ucast bucket_count * 4
                  in andthen (fold_outcome (max_bucket d (table + unat header)) [0..<unat bucket_count] 0) (\<lambda>best.
                     if best < symbol_offset then Inr symbol_offset
                     else chain_end (length d + 1) d table chain available symbol_offset (best - symbol_offset))))))"

section \<open>The tables\<close>

definition no_tables :: ElfSharedTables where
  "no_tables = \<lparr>et_symbols = None, et_symbol_count = 0, et_strings = None, et_string_size = 0, et_versym = None, et_versym_count = 0,
     et_verdef = None, et_verdef_size = 0\<rparr>"

definition dynsym_section :: "bytes \<Rightarrow> ElfSharedImage \<Rightarrow> nat \<Rightarrow> u64 \<Rightarrow> u64 \<Rightarrow> ElfSharedTables \<Rightarrow> ElfSharedTables outcome" where
  "dynsym_section d img shdr section_offset section_size tables =
    andthen (linker_read_u32 d (shdr + 40)) (\<lambda>link.
    andthen (linker_read_u64 d (shdr + 56)) (\<lambda>entry_size.
    case elf_shared_shdr d img (ucast link) of
      None \<Rightarrow> Inr tables
    | Some strings \<Rightarrow>
        if entry_size \<noteq> 24 then Inr tables
        else andthen (linker_read_u64 d (strings + 24)) (\<lambda>string_offset.
             andthen (linker_read_u64 d (strings + 32)) (\<lambda>string_size.
             if \<not> elf_shared_range_ok d string_offset string_size
             then Inr (tables\<lparr>et_symbols := None, et_symbol_count := 0\<rparr>)
             else Inr (tables\<lparr>et_symbols := Some (unat section_offset), et_symbol_count := section_size div 24,
                              et_strings := Some (unat string_offset), et_string_size := string_size\<rparr>)))))"

definition table_section :: "bytes \<Rightarrow> ElfSharedImage \<Rightarrow> nat \<Rightarrow> ElfSharedTables \<Rightarrow> ElfSharedTables outcome" where
  "table_section d img i tables =
    (case elf_shared_shdr d img (word_of_nat i) of
       None \<Rightarrow> Inr tables
     | Some shdr \<Rightarrow>
         andthen (linker_read_u32 d (shdr + 4)) (\<lambda>type.
         andthen (linker_read_u64 d (shdr + 24)) (\<lambda>section_offset.
         andthen (linker_read_u64 d (shdr + 32)) (\<lambda>section_size.
         if \<not> elf_shared_range_ok d section_offset section_size then Inr tables
         else if type = 11 then dynsym_section d img shdr section_offset section_size tables
         else if type = 0x6fffffff
              then Inr (tables\<lparr>et_versym := Some (unat section_offset), et_versym_count := section_size div 2\<rparr>)
         else if type = 0x6ffffffd
              then Inr (tables\<lparr>et_verdef := Some (unat section_offset), et_verdef_size := section_size\<rparr>)
         else Inr tables))))"

text \<open>The number of dynamic symbols, from either hash table.\<close>

definition dynamic_symbol_count :: "bytes \<Rightarrow> ElfSharedImage \<Rightarrow> nat \<times> u64 \<Rightarrow> u64 \<Rightarrow> u64 outcome" where
  "dynamic_symbol_count d img dyn before =
    andthen (dynamic_offset d img dyn 4) (\<lambda>hash.
    case (case hash of None \<Rightarrow> None | Some offset \<Rightarrow> if elf_shared_range_ok d offset 8 then Some offset else None) of
      Some offset \<Rightarrow> andthen (linker_read_u32 d (unat offset + 4)) (\<lambda>n. Inr (ucast n))
    | None \<Rightarrow>
        andthen (dynamic_offset d img dyn 0x6ffffef5) (\<lambda>gnu.
        case gnu of
          None \<Rightarrow> Inr before
        | Some offset \<Rightarrow>
            andthen (elf_shared_gnu_hash_symbol_count d (unat offset) (image_size d - offset)) (\<lambda>n. Inr (ucast n))))"

definition dynamic_versions :: "bytes \<Rightarrow> ElfSharedImage \<Rightarrow> nat \<times> u64 \<Rightarrow> ElfSharedTables \<Rightarrow> ElfSharedTables outcome" where
  "dynamic_versions d img dyn tables =
    andthen (dynamic_offset d img dyn 0x6ffffff0) (\<lambda>versym.
    let tables =
      (case versym of
         None \<Rightarrow> tables
       | Some offset \<Rightarrow>
           if elf_shared_range_ok d offset (et_symbol_count tables * 2)
           then tables\<lparr>et_versym := Some (unat offset), et_versym_count := et_symbol_count tables\<rparr> else tables)
    in andthen (dynamic_offset d img dyn 0x6ffffffc) (\<lambda>verdef.
       Inr (case verdef of
              None \<Rightarrow> tables
            | Some offset \<Rightarrow> tables\<lparr>et_verdef := Some (unat offset), et_verdef_size := image_size d - offset\<rparr>)))"

definition dynamic_tables :: "bytes \<Rightarrow> ElfSharedImage \<Rightarrow> nat \<times> u64 \<Rightarrow> ElfSharedTables \<Rightarrow> ElfSharedTables option outcome" where
  "dynamic_tables d img dyn tables =
    andthen (dynamic_offset d img dyn 6) (\<lambda>symtab.
    case symtab of None \<Rightarrow> Inr None | Some symbols \<Rightarrow>
    andthen (dynamic_offset d img dyn 5) (\<lambda>strtab.
    case strtab of None \<Rightarrow> Inr None | Some strings \<Rightarrow>
    andthen (elf_shared_dynamic_value d dyn 10) (\<lambda>strsz.
    case strsz of None \<Rightarrow> Inr None | Some sz \<Rightarrow>
    if \<not> elf_shared_range_ok d strings sz then Inr None
    else andthen (dynamic_symbol_count d img dyn (et_symbol_count tables)) (\<lambda>n.
         if n = 0 \<or> \<not> elf_shared_range_ok d symbols (n * 24) then Inr None
         else andthen (dynamic_versions d img dyn
                (tables\<lparr>et_symbols := Some (unat symbols), et_symbol_count := n, et_strings := Some (unat strings), et_string_size := sz\<rparr>))
              (\<lambda>tables. Inr (Some tables))))))"

definition elf_shared_locate_tables :: "bytes \<Rightarrow> ElfSharedImage \<Rightarrow> ElfSharedTables option outcome" where
  "elf_shared_locate_tables d img =
    andthen (fold_outcome (table_section d img) [0..<unat (ei_shnum img)] no_tables) (\<lambda>tables.
    if et_symbols tables \<noteq> None \<and> et_strings tables \<noteq> None then Inr (Some tables)
    else andthen (elf_shared_dynamic_segment d img) (\<lambda>dyn.
         case dyn of None \<Rightarrow> Inr None | Some dyn \<Rightarrow> dynamic_tables d img dyn tables))"

section \<open>Versions and symbols\<close>

fun version_walk :: "nat \<Rightarrow> bytes \<Rightarrow> ElfSharedTables \<Rightarrow> nat \<Rightarrow> u16 \<Rightarrow> u64 \<Rightarrow> string option outcome" where
  "version_walk 0 d tables verdef index cursor = Inl Diverge"
| "version_walk (Suc fuel) d tables verdef index cursor =
    (if cursor + 20 \<le> et_verdef_size tables
     then let entry = verdef + unat cursor
          in andthen (linker_read_u16 d (entry + 4)) (\<lambda>entry_index.
             andthen (linker_read_u32 d (entry + 12)) (\<lambda>aux.
             andthen (linker_read_u32 d (entry + 16)) (\<lambda>nxt.
             if entry_index = index \<and> aux \<noteq> 0 \<and> cursor + ucast aux + 8 \<le> et_verdef_size tables
             then andthen (linker_read_u32 d (entry + unat aux)) (\<lambda>name.
                  elf_shared_string d (et_strings tables) (et_string_size tables) name)
             else if nxt = 0 then Inr None
             else version_walk fuel d tables verdef index (cursor + ucast nxt))))
     else Inr None)"

definition elf_shared_version_name :: "bytes \<Rightarrow> ElfSharedTables \<Rightarrow> u16 \<Rightarrow> string option outcome" where
  "elf_shared_version_name d tables index =
    (case et_verdef tables of
       None \<Rightarrow> Inr None
     | Some verdef \<Rightarrow> if index \<le> 1 then Inr None else version_walk (length d + 1) d tables verdef index 0)"

definition elf_shared_library_reserve :: "bool \<Rightarrow> nat \<Rightarrow> ElfSharedLibrary \<Rightarrow> ElfSharedLibrary outcome" where
  "elf_shared_library_reserve ok minimum_count lib =
    (if lb_symbol_capacity lib \<ge> minimum_count then Inr lib
     else andthen (allocate_mem ok) (\<lambda>_.
          Inr (lib\<lparr>lb_symbol_capacity :=
                 double_until (if lb_symbol_capacity lib \<noteq> 0 then lb_symbol_capacity lib else 64) minimum_count\<rparr>)))"

definition elf_shared_section_alignment :: "bytes \<Rightarrow> ElfSharedImage \<Rightarrow> u16 \<Rightarrow> u64 outcome" where
  "elf_shared_section_alignment d img section_index =
    (if section_index = 0 \<or> ucast section_index \<ge> ei_shnum img then Inr 0
     else case elf_shared_shdr d img (ucast section_index) of
            None \<Rightarrow> Inr 0
          | Some shdr \<Rightarrow> andthen (linker_read_u64 d (shdr + 48)) (\<lambda>alignment. Inr (if alignment > 1 then alignment else 0)))"

text \<open>The version index of a symbol: \<open>None\<close> for a hidden one, which is skipped.\<close>

definition symbol_version :: "bytes \<Rightarrow> ElfSharedTables \<Rightarrow> nat \<Rightarrow> u16 option outcome" where
  "symbol_version d tables i =
    (case et_versym tables of
       Some versym \<Rightarrow>
         if word_of_nat i < et_versym_count tables
         then andthen (linker_read_u16 d (versym + i * 2)) (\<lambda>v. Inr (if v AND 0x8000 \<noteq> 0 then None else Some v))
         else Inr (Some 0)
     | None \<Rightarrow> Inr (Some 0))"

definition record_symbol ::
  "shared_memory \<Rightarrow> bytes \<Rightarrow> ElfSharedImage \<Rightarrow> ElfSharedTables \<Rightarrow> nat \<Rightarrow> u8 \<Rightarrow> u16 \<Rightarrow> string \<Rightarrow> u16 \<Rightarrow> ElfSharedLibrary \<Rightarrow> ElfSharedLibrary outcome" where
  "record_symbol mem d img tables entry info shndx name version_index lib =
    (let k = length (lb_symbols lib)
     in andthen (elf_shared_library_reserve (mem (GrowLibrary k)) (k + 1) lib) (\<lambda>lib.
        andthen (allocate_mem (mem (SharedName k))) (\<lambda>_.
        andthen (linker_read_u64 d (entry + 16)) (\<lambda>sz.
        andthen (elf_shared_section_alignment d img shndx) (\<lambda>alignment.
        andthen (if version_index > 1 then elf_shared_version_name d tables version_index else Inr None) (\<lambda>version.
        andthen (allocate_mem (version = None \<or> mem (SharedVersion k))) (\<lambda>_.
        Inr (lib\<lparr>lb_symbols := lb_symbols lib @
               [\<lparr>ss_name = name, ss_version = version, ss_size = sz, ss_alignment = alignment, ss_type = info AND 0x0F,
                 ss_is_weak = (drop_bit 4 info = 2)\<rparr>]\<rparr>))))))))"

definition collect_symbol ::
  "shared_memory \<Rightarrow> bytes \<Rightarrow> ElfSharedImage \<Rightarrow> ElfSharedTables \<Rightarrow> nat \<Rightarrow> nat \<Rightarrow> ElfSharedLibrary \<Rightarrow> ElfSharedLibrary outcome" where
  "collect_symbol mem d img tables symbols i lib =
    (let entry = symbols + i * 24
     in andthen (if entry + 4 < length d then Inr (d ! (entry + 4)) else Inl Fault) (\<lambda>info.
        andthen (linker_read_u16 d (entry + 6)) (\<lambda>shndx.
        if shndx = 0 \<or> drop_bit 4 info = 0 then Inr lib
        else andthen (linker_read_u32 d entry) (\<lambda>name_offset.
             andthen (elf_shared_string d (et_strings tables) (et_string_size tables) name_offset) (\<lambda>name.
             case name of
               None \<Rightarrow> Inr lib
             | Some n \<Rightarrow>
                 if n = '''' then Inr lib
                 else andthen (symbol_version d tables i) (\<lambda>version.
                      case version of
                        None \<Rightarrow> Inr lib
                      | Some v \<Rightarrow> record_symbol mem d img tables entry info shndx n v lib))))))"

definition elf_shared_collect_symbols ::
  "shared_memory \<Rightarrow> bytes \<Rightarrow> ElfSharedImage \<Rightarrow> ElfSharedTables \<Rightarrow> ElfSharedLibrary \<Rightarrow> ElfSharedLibrary outcome" where
  "elf_shared_collect_symbols mem d img tables lib =
    fold_outcome (collect_symbol mem d img tables (case et_symbols tables of None \<Rightarrow> 0 | Some s \<Rightarrow> s)) [1..<unat (et_symbol_count tables)] lib"

section \<open>The index\<close>

definition index_shared :: "ElfSharedSymbol list \<Rightarrow> nat \<Rightarrow> nat list \<Rightarrow> nat list outcome" where
  "index_shared syms i bs =
    andthen (probe (\<lambda>b. bs ! b = 0) (next_slot (length bs)) (length bs) (slot_of (mettle_fnv1a_hash (ss_name (syms ! i))) (length bs))) (\<lambda>b.
    Inr (bs[b := i + 1]))"

definition elf_shared_library_index :: "bool \<Rightarrow> ElfSharedLibrary \<Rightarrow> ElfSharedLibrary outcome" where
  "elf_shared_library_index ok lib =
    andthen (allocate_mem ok) (\<lambda>_.
    andthen (fold_outcome (index_shared (lb_symbols lib)) [0..<length (lb_symbols lib)]
               (replicate (double_until 64 (length (lb_symbols lib) * 2)) 0)) (\<lambda>bs.
    Inr (lib\<lparr>lb_buckets := bs\<rparr>)))"

definition elf_shared_library_find :: "ElfSharedLibrary \<Rightarrow> string \<Rightarrow> ElfSharedSymbol option outcome" where
  "elf_shared_library_find lib name =
    (let bs = lb_buckets lib; n = length bs; syms = lb_symbols lib
     in if n = 0 then Inr None
        else andthen (probe (\<lambda>b. bs ! b = 0 \<or> ss_name (syms ! (bs ! b - 1)) = name) (next_slot n) n (slot_of (mettle_fnv1a_hash name) n)) (\<lambda>b.
             Inr (if bs ! b = 0 then None else Some (syms ! (bs ! b - 1)))))"

section \<open>Names and linker scripts\<close>

definition elf_shared_basename :: "string \<Rightarrow> string" where
  "elf_shared_basename path = rev (takeWhile (\<lambda>c. c \<noteq> CHR ''/'' \<and> c \<noteq> CHR 0x5C) (rev path))"

definition elf_shared_read_soname ::
  "bool \<Rightarrow> bytes \<Rightarrow> ElfSharedImage \<Rightarrow> ElfSharedTables \<Rightarrow> ElfSharedLibrary \<Rightarrow> ElfSharedLibrary outcome" where
  "elf_shared_read_soname ok d img tables lib =
    andthen (elf_shared_dynamic_segment d img) (\<lambda>dyn.
    andthen (case dyn of None \<Rightarrow> Inr None | Some dyn \<Rightarrow> elf_shared_dynamic_value d dyn 14) (\<lambda>v.
    andthen (case v of None \<Rightarrow> Inr None
             | Some v \<Rightarrow> if v \<le> 0xFFFFFFFF then elf_shared_string d (et_strings tables) (et_string_size tables) (ucast v) else Inr None) (\<lambda>name.
    andthen (allocate_mem ok) (\<lambda>_.
    Inr (lib\<lparr>lb_soname := (case name of Some n \<Rightarrow> n | None \<Rightarrow> elf_shared_basename (lb_path lib))\<rparr>)))))"

text \<open>Comments become blanks. The last character of an unfinished comment stays.\<close>

fun blank_comments :: "string \<Rightarrow> string" and in_comment :: "string \<Rightarrow> string" where
  "blank_comments [] = []"
| "blank_comments [c] = [c]"
| "blank_comments (a # b # cs) =
    (if a = CHR ''/'' \<and> b = CHR ''*'' then CHR '' '' # CHR '' '' # in_comment cs else a # blank_comments (b # cs))"
| "in_comment [] = []"
| "in_comment [c] = [c]"
| "in_comment (a # b # cs) =
    (if a = CHR ''*'' \<and> b = CHR ''/'' then CHR '' '' # blank_comments (CHR '' '' # cs) else CHR '' '' # in_comment (b # cs))"

definition script_space :: "char \<Rightarrow> bool" where
  "script_space c \<longleftrightarrow> c = CHR '' '' \<or> c = CHR 0x09 \<or> c = CHR 0x0A \<or> c = CHR 0x0D"

definition script_stop :: "char \<Rightarrow> bool" where
  "script_stop c \<longleftrightarrow> script_space c \<or> c = CHR ''('' \<or> c = CHR '')''"

definition elf_path_is_shared_library :: "(string \<Rightarrow> bytes option) \<Rightarrow> string \<Rightarrow> bool" where
  "elf_path_is_shared_library files path =
    (case files path of
       None \<Rightarrow> False
     | Some d \<Rightarrow> 18 \<le> length d \<and> take 4 d = [0x7F, 0x45, 0x4C, 0x46] \<and> linker_read_u16 d 16 = Inr 3)"

definition script_candidate :: "int \<Rightarrow> string \<Rightarrow> bool" where
  "script_candidate depth token \<longleftrightarrow>
    depth > 0 \<and> take 1 token = ''/'' \<and> \<not> (2 < length token \<and> drop (length token - 2) token = ''.a'')"

function script_scan :: "(nat \<Rightarrow> bool) \<Rightarrow> (string \<Rightarrow> bytes option) \<Rightarrow> nat \<Rightarrow> int \<Rightarrow> string \<Rightarrow> string option" where
  "script_scan ok files k depth cs =
    (case dropWhile script_space cs of
       [] \<Rightarrow> None
     | c # rest \<Rightarrow>
         if c = CHR ''('' then script_scan ok files k (depth + 1) rest
         else if c = CHR '')'' then script_scan ok files k (depth - 1) rest
         else let token = c # takeWhile (\<lambda>c. \<not> script_stop c) rest; rest = dropWhile (\<lambda>c. \<not> script_stop c) rest
              in if script_candidate depth token
                 then if \<not> ok k then None
                      else if elf_path_is_shared_library files token then Some token
                      else script_scan ok files (k + 1) depth rest
                 else script_scan ok files k depth rest)"
  by pat_completeness auto
termination
proof (relation "measure (\<lambda>(ok, files, k, depth, cs). length cs)", goal_cases)
  case 1
  then show ?case by simp
next
  case (2 ok files k depth cs c rest)
  have "length (dropWhile script_space cs) \<le> length cs" by (rule length_dropWhile_le)
  then show ?case using 2 by simp
next
  case (3 ok files k depth cs c rest)
  have "length (dropWhile script_space cs) \<le> length cs" by (rule length_dropWhile_le)
  then show ?case using 3 by simp
next
  case (4 ok files k depth cs c rest)
  have "length (dropWhile script_space cs) \<le> length cs" "length (dropWhile (\<lambda>c. \<not> script_stop c) rest) \<le> length rest"
    by (rule length_dropWhile_le)+
  then show ?case using 4 by simp
next
  case (5 ok files k depth cs c rest)
  have "length (dropWhile script_space cs) \<le> length cs" "length (dropWhile (\<lambda>c. \<not> script_stop c) rest) \<le> length rest"
    by (rule length_dropWhile_le)+
  then show ?case using 5 by simp
qed

declare script_scan.simps [simp del]

definition elf_shared_script_target :: "shared_memory \<Rightarrow> (string \<Rightarrow> bytes option) \<Rightarrow> bytes \<Rightarrow> string option" where
  "elf_shared_script_target mem files d =
    (if \<not> mem ScriptText then None
     else script_scan (\<lambda>k. mem (ScriptToken k)) files 0 0
            (takeWhile (\<lambda>c. c \<noteq> CHR 0x00) (blank_comments (map (\<lambda>b. char_of (unat b)) d))))"

section \<open>Reading a library\<close>

definition blank_library :: "string \<Rightarrow> ElfSharedLibrary" where
  "blank_library path = \<lparr>lb_path = path, lb_soname = '''', lb_symbols = [], lb_symbol_capacity = 0, lb_buckets = []\<rparr>"

definition read_shared_object :: "shared_memory \<Rightarrow> string \<Rightarrow> bytes \<Rightarrow> ElfSharedLibrary outcome" where
  "read_shared_object mem path d =
    andthen (elf_shared_open_image d) (\<lambda>img.
    andthen (allocate_mem (mem NewLibrary)) (\<lambda>_.
    andthen (allocate_mem (mem LibraryPath)) (\<lambda>_.
    andthen (elf_shared_locate_tables d img) (\<lambda>found.
    case found of
      None \<Rightarrow> Inl (Refused ''Shared object has no readable dynamic symbol table'')
    | Some tables \<Rightarrow>
        andthen (elf_shared_read_soname (mem LibrarySoname) d img tables (blank_library path)) (\<lambda>lib.
        andthen (elf_shared_collect_symbols mem d img tables lib) (\<lambda>lib.
        elf_shared_library_index (mem LibraryIndex) lib))))))"

text \<open>A script may only name a file that starts like a shared object, so the recursion is one level deep.\<close>

fun elf_shared_library_read :: "nat \<Rightarrow> shared_memory \<Rightarrow> (string \<Rightarrow> bytes option) \<Rightarrow> string \<Rightarrow> ElfSharedLibrary outcome" where
  "elf_shared_library_read 0 mem files path = Inl Diverge"
| "elf_shared_library_read (Suc fuel) mem files path =
    (case files path of
       None \<Rightarrow> Inl (Refused ''Failed to read the file'')
     | Some d \<Rightarrow>
         if length d < 4 \<or> take 4 d \<noteq> [0x7F, 0x45, 0x4C, 0x46]
         then case elf_shared_script_target mem files d of
                None \<Rightarrow> Inl (Refused ''neither a shared object nor a linker script naming one'')
              | Some target \<Rightarrow> elf_shared_library_read fuel mem files target
         else read_shared_object mem path d)"

section \<open>The search path\<close>

definition ELF_SHARED_DEFAULT_DIRECTORIES :: "string list" where
  "ELF_SHARED_DEFAULT_DIRECTORIES =
    [''/usr/local/lib/x86_64-linux-gnu'', ''/usr/local/lib64'', ''/usr/local/lib'', ''/usr/lib/x86_64-linux-gnu'', ''/usr/lib64'',
     ''/usr/lib'', ''/lib/x86_64-linux-gnu'', ''/lib64'', ''/lib'']"

definition elf_shared_join :: "string \<Rightarrow> string \<Rightarrow> string" where
  "elf_shared_join directory file = directory @ (if directory \<noteq> [] \<and> last directory \<noteq> CHR ''/'' then ''/'' else []) @ file"

text \<open>A path that cannot be allocated or opened is passed over.\<close>

definition elf_shared_probe :: "bool \<Rightarrow> (string \<Rightarrow> bytes option) \<Rightarrow> string \<Rightarrow> string \<Rightarrow> string option" where
  "elf_shared_probe ok files directory file =
    (let candidate = elf_shared_join directory file in if ok \<and> files candidate \<noteq> None then Some candidate else None)"

definition elf_shared_library_locate ::
  "(nat \<Rightarrow> bool) \<Rightarrow> (string \<Rightarrow> bytes option) \<Rightarrow> string option \<Rightarrow> string option list \<Rightarrow> string outcome" where
  "elf_shared_library_locate ok files library_name directories =
    (case library_name of
       None \<Rightarrow> Inl (Refused ''An empty library name was requested'')
     | Some nm \<Rightarrow>
         if nm = [] then Inl (Refused ''An empty library name was requested'')
         else let file = (if hd nm = CHR '':'' then tl nm else ''lib'' @ nm @ ''.so'')
              in if length file \<ge> 512 then Inl (Refused ''Library name is too long'')
                 else case List.map_filter (\<lambda>(k, d). case d of None \<Rightarrow> None | Some dir \<Rightarrow> elf_shared_probe (ok k) files dir file)
                             (List.enumerate 0 (directories @ map Some ELF_SHARED_DEFAULT_DIRECTORIES)) of
                        [] \<Rightarrow> Inl (Refused ''Could not find shared library on the library search path'')
                      | found # _ \<Rightarrow> Inr found)"

end
