(* ===== verification/ElfSharedSafe.thy ===== *)
theory ElfSharedSafe
  imports ElfShared ElfSafe
begin

text \<open>
  The reader of shared libraries stays inside the file and ends, for every file whose loadable segments lie inside the
  file; without that hypothesis it does not. The index it builds finds the first symbol of a name.
\<close>

section \<open>Outcomes with a postcondition\<close>

definition meets :: "'a outcome \<Rightarrow> ('a \<Rightarrow> bool) \<Rightarrow> bool" where
  "meets m P \<longleftrightarrow> (case m of Inl e \<Rightarrow> e \<noteq> Fault \<and> e \<noteq> Diverge | Inr x \<Rightarrow> P x)"

named_theorems meets_intros \<open>rules that establish an outcome step by step\<close>

lemma meets_simps [simp]:
  "meets (Inr x) P \<longleftrightarrow> P x" "meets (Inl OutOfMemory) P" "meets (Inl (Refused s)) P"
  by (simp_all add: meets_def)

lemma meets_Inr [meets_intros]: "P x \<Longrightarrow> meets (Inr x) P"
  by simp

lemma meets_bind: "meets m P \<Longrightarrow> (\<And>x. m = Inr x \<Longrightarrow> P x \<Longrightarrow> meets (f x) Q) \<Longrightarrow> meets (andthen m f) Q"
  by (cases m) (simp_all add: meets_def)

lemma meets_weaken: "meets m P \<Longrightarrow> (\<And>x. P x \<Longrightarrow> Q x) \<Longrightarrow> meets m Q"
  by (cases m) (simp_all add: meets_def)

lemma meets_need [meets_intros]: "(b \<Longrightarrow> meets (f ()) Q) \<Longrightarrow> meets (andthen (need b s) f) Q"
  by (cases b) simp_all

lemma meets_need_end [meets_intros]: "(b \<Longrightarrow> P ()) \<Longrightarrow> meets (need b s) P"
  by (cases b) simp_all

lemma meets_allocate [meets_intros]: "(b \<Longrightarrow> meets (f ()) Q) \<Longrightarrow> meets (andthen (allocate_mem b) f) Q"
  by (cases b) (simp_all add: allocate_mem_def)

lemma meets_if [meets_intros]: "(b \<Longrightarrow> meets m P) \<Longrightarrow> (\<not> b \<Longrightarrow> meets n P) \<Longrightarrow> meets (if b then m else n) P"
  by simp

lemma meets_option [meets_intros]:
  "(v = None \<Longrightarrow> meets m P) \<Longrightarrow> (\<And>x. v = Some x \<Longrightarrow> meets (f x) P) \<Longrightarrow> meets (case v of None \<Rightarrow> m | Some x \<Rightarrow> f x) P"
  by (cases v) simp_all

lemma read_ok:
  "p + 2 \<le> length d \<Longrightarrow> \<exists>v. linker_read_u16 d p = Inr v" "p + 4 \<le> length d \<Longrightarrow> \<exists>v. linker_read_u32 d p = Inr v"
  "p + 8 \<le> length d \<Longrightarrow> \<exists>v. linker_read_u64 d p = Inr v"
  by (simp_all add: linker_read_u16_def linker_read_u32_def linker_read_u64_def)

lemma meets_read [meets_intros]:
  "p + 2 \<le> length d \<Longrightarrow> (\<And>x. linker_read_u16 d p = Inr x \<Longrightarrow> meets (f x) Q) \<Longrightarrow> meets (andthen (linker_read_u16 d p) f) Q"
  "p + 4 \<le> length d \<Longrightarrow> (\<And>x. linker_read_u32 d p = Inr x \<Longrightarrow> meets (g x) Q) \<Longrightarrow> meets (andthen (linker_read_u32 d p) g) Q"
  "p + 8 \<le> length d \<Longrightarrow> (\<And>x. linker_read_u64 d p = Inr x \<Longrightarrow> meets (h x) Q) \<Longrightarrow> meets (andthen (linker_read_u64 d p) h) Q"
  using read_ok by fastforce+

lemma meets_fold:
  assumes "I s" "\<And>x s. x \<in> set xs \<Longrightarrow> I s \<Longrightarrow> meets (f x s) I" shows "meets (fold_outcome f xs s) I"
  using assms
proof (induction xs arbitrary: s)
  case (Cons x xs)
  have "meets (f x s) I" using Cons.prems by simp
  then show ?case using Cons.IH Cons.prems(2) by (auto intro!: meets_bind)
qed simp

lemma meets_first:
  assumes "\<And>x. x \<in> set xs \<Longrightarrow> meets (f x) (\<lambda>r. \<forall>y. r = Some y \<longrightarrow> P y)"
  shows "meets (first_outcome f xs) (\<lambda>r. \<forall>y. r = Some y \<longrightarrow> P y)"
  using assms
proof (induction xs)
  case (Cons x xs)
  have "meets (f x) (\<lambda>r. \<forall>y. r = Some y \<longrightarrow> P y)" using Cons.prems by simp
  then show ?case using Cons.IH Cons.prems by (auto intro!: meets_bind split: option.split)
qed simp

section \<open>Headers\<close>

text \<open>What the mapping of addresses relies on: the loadable segments lie inside the file.\<close>

definition load_fits :: "bytes \<Rightarrow> ElfSharedImage \<Rightarrow> nat \<Rightarrow> bool" where
  "load_fits d img i =
    (case elf_shared_phdr d img (word_of_nat i) of
       None \<Rightarrow> True
     | Some h \<Rightarrow>
         if linker_read_u32 d h = Inr 1
         then case (linker_read_u64 d (h + 8), linker_read_u64 d (h + 32)) of
                (Inr offset, Inr filesz) \<Rightarrow> unat offset + unat filesz \<le> length d
              | _ \<Rightarrow> True
         else True)"

definition loads_in_file :: "bytes \<Rightarrow> bool" where
  "loads_in_file d =
    (case elf_shared_open_image d of Inl _ \<Rightarrow> True | Inr img \<Rightarrow> list_all (load_fits d img) [0..<unat (ei_phnum img)])"

lemma unat32_less: "unat (x :: u32) < 2 ^ 32"
  using unsigned_less [where 'a = nat, of x] by simp

lemma shared_at_fits:
  assumes "length d < 2 ^ 34" "elf_shared_at d offset len = Some h" shows "h = unat offset" "h + unat len \<le> length d"
proof -
  have "unat (image_size d) = length d" using assms(1) by (intro image_size_unat) simp
  then show "h = unat offset" "h + unat len \<le> length d"
    using assms(2) by (auto simp: elf_shared_at_def elf_shared_range_ok_def range_ok_iff split: if_splits)
qed

lemma shared_phdr_fits: "length d < 2 ^ 34 \<Longrightarrow> elf_shared_phdr d img i = Some h \<Longrightarrow> h + 56 \<le> length d"
  using shared_at_fits(2) unfolding elf_shared_phdr_def by fastforce

lemma shared_shdr_fits: "length d < 2 ^ 34 \<Longrightarrow> elf_shared_shdr d img i = Some h \<Longrightarrow> h + 64 \<le> length d"
  using shared_at_fits(2) unfolding elf_shared_shdr_def by fastforce

lemma shared_range: "length d < 2 ^ 34 \<Longrightarrow> elf_shared_range_ok d offset len \<longleftrightarrow> unat offset + unat len \<le> length d"
  by (simp add: elf_shared_range_ok_def range_ok_iff image_size_unat)

lemma meets_call: "meets m (\<lambda>_. True) \<Longrightarrow> (\<And>x. m = Inr x \<Longrightarrow> meets (f x) Q) \<Longrightarrow> meets (andthen m f) Q"
  by (rule meets_bind)

lemma check_ident_meets: "meets (elf_shared_check_ident d) (\<lambda>_. 64 \<le> length d)"
  unfolding elf_shared_check_ident_def by (intro meets_intros) auto

lemma header_meets: "64 \<le> length d \<Longrightarrow> meets (elf_shared_header d) (\<lambda>_. True)"
  unfolding elf_shared_header_def by (intro meets_intros) auto

lemma extended_count_meets: "length d < 2 ^ 34 \<Longrightarrow> meets (elf_shared_extended_count d img) (\<lambda>_. True)"
  unfolding elf_shared_extended_count_def by (intro meets_intros) (fastforce dest: shared_shdr_fits)+

lemma open_image_meets: "length d < 2 ^ 34 \<Longrightarrow> meets (elf_shared_open_image d) (\<lambda>_. True)"
  unfolding elf_shared_open_image_def Let_def
  by (intro meets_need meets_Inr meets_bind [OF check_ident_meets] meets_bind [OF header_meets] meets_bind [OF extended_count_meets]) simp_all

section \<open>The dynamic segment\<close>

text \<open>The offset found for an address lies inside the file.\<close>

lemma offset_meets:
  assumes len: "length d < 2 ^ 34" and img: "elf_shared_open_image d = Inr img" and loads: "loads_in_file d"
  shows "meets (elf_shared_offset_for_address d img address) (\<lambda>r. \<forall>offset. r = Some offset \<longrightarrow> unat offset < length d)"
  unfolding elf_shared_offset_for_address_def
proof (rule meets_first)
  fix i assume i: "i \<in> set [0..<unat (ei_phnum img)]"
  show "meets (load_contains d img address i) (\<lambda>r. \<forall>offset. r = Some offset \<longrightarrow> unat offset < length d)"
    unfolding load_contains_def
  proof (intro meets_intros)
    fix h type vaddr filesz offset
    assume h: "elf_shared_phdr d img (word_of_nat i) = Some h" "linker_read_u32 d h = Inr type" "\<not> type \<noteq> 1"
      "linker_read_u64 d (h + 16) = Inr vaddr" "linker_read_u64 d (h + 32) = Inr filesz"
      "vaddr \<le> address \<and> address - vaddr < filesz" "linker_read_u64 d (h + 8) = Inr offset"
    have "load_fits d img i" using loads img i by (simp add: loads_in_file_def list_all_iff)
    then have fit: "unat offset + unat filesz \<le> length d" using h by (simp add: load_fits_def)
    have lt: "unat (address - vaddr) < unat filesz" using h(6) by (simp add: word_less_nat_alt)
    then have "unat (offset + (address - vaddr)) = unat offset + unat (address - vaddr)"
      using fit len by (simp add: unat_word_ariths)
    then show "\<forall>x. Some (offset + (address - vaddr)) = Some x \<longrightarrow> unat x < length d" using fit lt by simp
  qed (auto dest: shared_phdr_fits [OF len])
qed

lemma dynamic_at_meets:
  assumes len: "length d < 2 ^ 34" and fit: "\<And>h. hdr = Some h \<Longrightarrow> h + 40 \<le> length d \<and> h + a + 4 \<le> length d \<and> h + b + 8 \<le> length d"
  shows "meets (dynamic_at d hdr a wanted b) (\<lambda>r. \<forall>y. r = Some y \<longrightarrow> (\<forall>p n. y = Some (p, n) \<longrightarrow> p + unat n * 16 \<le> length d))"
  unfolding dynamic_at_def
proof (intro meets_intros)
  fix h type offset and sz :: u64
  assume "hdr = Some h" "linker_read_u32 d (h + a) = Inr type" "\<not> type \<noteq> wanted"
  have "unat (sz div 16) * 16 \<le> unat sz" by (simp add: unat_div_word)
  then show "\<forall>y. Some (if \<not> elf_shared_range_ok d offset sz then None else Some (unat offset, sz div 16)) = Some y \<longrightarrow>
      (\<forall>p n. y = Some (p, n) \<longrightarrow> p + unat n * 16 \<le> length d)"
    by (auto simp: shared_range [OF len])
qed (use fit in auto)

definition dyn_ok :: "bytes \<Rightarrow> nat \<times> u64 \<Rightarrow> bool" where
  "dyn_ok d dyn \<longleftrightarrow> fst dyn + unat (snd dyn) * 16 \<le> length d"

lemma dynamic_segment_meets:
  assumes len: "length d < 2 ^ 34" shows "meets (elf_shared_dynamic_segment d img) (\<lambda>r. \<forall>dyn. r = Some dyn \<longrightarrow> dyn_ok d dyn)"
proof -
  let ?P = "\<lambda>y. \<forall>p n. y = Some (p, n :: u64) \<longrightarrow> p + unat n * 16 \<le> length d"
  have 1: "meets (first_outcome (\<lambda>i. dynamic_at d (elf_shared_phdr d img (word_of_nat i)) 0 2 8) xs) (\<lambda>r. \<forall>y. r = Some y \<longrightarrow> ?P y)" for xs
    by (intro meets_first dynamic_at_meets [OF len]) (auto dest: shared_phdr_fits [OF len])
  have 2: "meets (first_outcome (\<lambda>i. dynamic_at d (elf_shared_shdr d img (word_of_nat i)) 4 6 24) xs) (\<lambda>r. \<forall>y. r = Some y \<longrightarrow> ?P y)" for xs
    by (intro meets_first dynamic_at_meets [OF len]) (auto dest: shared_shdr_fits [OF len])
  show ?thesis unfolding elf_shared_dynamic_segment_def
  proof (rule meets_bind [OF 1])
    fix r assume "\<forall>y. r = Some y \<longrightarrow> ?P y"
    then show "meets (case r of Some result \<Rightarrow> Inr result
       | None \<Rightarrow> andthen (first_outcome (\<lambda>i. dynamic_at d (elf_shared_shdr d img (word_of_nat i)) 4 6 24) [0..<unat (ei_shnum img)]) (\<lambda>r.
                 Inr (case r of Some result \<Rightarrow> result | None \<Rightarrow> None))) (\<lambda>r. \<forall>dyn. r = Some dyn \<longrightarrow> dyn_ok d dyn)"
      by (cases r) (auto simp: dyn_ok_def split: option.splits intro!: meets_bind [OF 2])
  qed
qed

lemma dynamic_value_meets:
  assumes "dyn_ok d dyn" shows "meets (elf_shared_dynamic_value d dyn tag) (\<lambda>_. True)"
proof -
  obtain p n where dyn: "dyn = (p, n)" by (cases dyn)
  have "meets (first_outcome (dynamic_entry d p tag) [0..<unat n]) (\<lambda>r. \<forall>y. r = Some y \<longrightarrow> True)"
  proof (rule meets_first)
    fix i assume "i \<in> set [0..<unat n]"
    then have "p + i * 16 + 16 \<le> length d" using assms dyn by (simp add: dyn_ok_def)
    then show "meets (dynamic_entry d p tag i) (\<lambda>r. \<forall>y. r = Some y \<longrightarrow> True)"
      unfolding dynamic_entry_def by (intro meets_intros) auto
  qed
  then show ?thesis unfolding elf_shared_dynamic_value_def dyn by (auto intro!: meets_bind)
qed

lemma dynamic_offset_meets:
  assumes "length d < 2 ^ 34" "elf_shared_open_image d = Inr img" "loads_in_file d" "dyn_ok d dyn"
  shows "meets (dynamic_offset d img dyn tag) (\<lambda>r. \<forall>offset. r = Some offset \<longrightarrow> unat offset < length d)"
  unfolding dynamic_offset_def
  by (intro meets_bind [OF dynamic_value_meets [OF assms(4)]] meets_intros) (auto intro: offset_meets [OF assms(1-3)])

section \<open>The tables\<close>

definition fits_at :: "bytes \<Rightarrow> nat option \<Rightarrow> nat \<Rightarrow> bool" where
  "fits_at d p n \<longleftrightarrow> (\<forall>q. p = Some q \<longrightarrow> q + n \<le> length d)"

lemma fits_at_simps [simp]: "fits_at d None n" "fits_at d (Some p) n \<longleftrightarrow> p + n \<le> length d"
  by (simp_all add: fits_at_def)

definition tables_ok :: "bytes \<Rightarrow> ElfSharedTables \<Rightarrow> bool" where
  "tables_ok d t \<longleftrightarrow>
     fits_at d (et_symbols t) (unat (et_symbol_count t) * 24) \<and> fits_at d (et_strings t) (unat (et_string_size t)) \<and>
     fits_at d (et_versym t) (unat (et_versym_count t) * 2) \<and> fits_at d (et_verdef t) (unat (et_verdef_size t)) \<and>
     (et_symbols t = None \<longrightarrow> et_symbol_count t = 0) \<and> (et_symbols t \<noteq> None \<longrightarrow> et_strings t \<noteq> None)"

lemma unat_div_le: "0 < k \<Longrightarrow> unat (x div word_of_nat k :: u64) * k \<le> unat x" if "k < 2 ^ 64"
  using that by (simp add: unat_div_word unsigned_of_nat take_bit_nat_eq_self)

lemma unat_div_table: "unat (x div 24 :: u64) * 24 \<le> unat x" "unat (x div 2 :: u64) * 2 \<le> unat x"
  using unat_div_le [of 24 x] unat_div_le [of 2 x] by simp_all

lemma table_section_meets:
  assumes len: "length d < 2 ^ 34" and t: "tables_ok d tables"
  shows "meets (table_section d img i tables) (tables_ok d)"
proof -
  have shdr: "h + 64 \<le> length d" if "elf_shared_shdr d img j = Some h" for j h
    using shared_shdr_fits [OF len that] .
  have dyn: "meets (dynsym_section d img h offset sz tables) (tables_ok d)"
    if "h + 64 \<le> length d" "unat offset + unat sz \<le> length d" for h offset sz
    unfolding dynsym_section_def
    using that t unat_div_table(1) [of sz]
    by (intro meets_intros) (auto dest: shdr simp: tables_ok_def shared_range [OF len])
  show ?thesis unfolding table_section_def
  proof (intro meets_intros)
    fix h type offset and sz :: u64
    assume h: "elf_shared_shdr d img (word_of_nat i) = Some h" and r: "\<not> \<not> elf_shared_range_ok d offset sz"
    show "meets (dynsym_section d img h offset sz tables) (tables_ok d)"
      using dyn shdr [OF h] r by (simp add: shared_range [OF len])
    show "tables_ok d (tables\<lparr>et_versym := Some (unat offset), et_versym_count := sz div 2\<rparr>)"
      using r t unat_div_table(2) [of sz] by (simp add: tables_ok_def shared_range [OF len])
    show "tables_ok d (tables\<lparr>et_verdef := Some (unat offset), et_verdef_size := sz\<rparr>)"
      using r t by (simp add: tables_ok_def shared_range [OF len])
  qed (use t in \<open>auto dest: shdr\<close>)
qed

text \<open>The chain of the GNU hash table moves on by a word in every round.\<close>

lemma chain_guard:
  assumes "unat (chain :: u64) < 2 ^ 40"
  shows "unat (chain + ucast (i :: u32) * 4 + 4) = unat chain + unat i * 4 + 4" "unat (chain + ucast i * 4) = unat chain + unat i * 4"
proof -
  have i: "unat i < 2 ^ 32" using unsigned_less [of i] by simp
  have p: "unat (ucast i * 4 :: u64) = unat i * 4" using i by (simp add: unat_word_ariths unat_ucast_up)
  then show q: "unat (chain + ucast i * 4) = unat chain + unat i * 4" using assms i by (simp add: unat_word_ariths)
  show "unat (chain + ucast i * 4 + 4) = unat chain + unat i * 4 + 4"
    using q assms i by (subst unat_word_ariths) simp
qed

lemma chain_end_meets:
  assumes av: "unat (available :: u64) < 2 ^ 34" "table + unat available \<le> length d" and ch: "unat chain < 2 ^ 40"
  shows "0 < fuel \<Longrightarrow> unat available \<le> unat i * 4 + 4 * fuel - 4 \<Longrightarrow>
    meets (chain_end fuel d table chain available symbol_offset i) (\<lambda>_. True)"
proof (induction fuel arbitrary: i)
  case (Suc fuel)
  show ?case
  proof (cases "chain + ucast i * 4 + 4 \<le> available")
    case True
    then have g: "unat chain + unat i * 4 + 4 \<le> unat available" by (simp add: word_le_nat_alt chain_guard [OF ch])
    then have "unat (i + 1) = unat i + 1" using av(1) by (simp add: unat_word_ariths)
    then have "meets (chain_end fuel d table chain available symbol_offset (i + 1)) (\<lambda>_. True)"
      using g Suc.prems by (intro Suc.IH) simp_all
    moreover have "table + unat (chain + ucast i * 4) + 4 \<le> length d"
      using g av(2) by (simp add: chain_guard [OF ch])
    ultimately show ?thesis using True by (auto simp: chain_guard [OF ch] intro!: meets_read)
  qed simp
qed simp

lemma hash_header_sizes:
  "unat (16 + ucast (bloom :: u32) * 8 :: u64) = 16 + unat bloom * 8"
  "unat (16 + ucast bloom * 8 + ucast (n :: u32) * 4 :: u64) = 16 + unat bloom * 8 + unat n * 4"
proof -
  have b: "unat bloom < 2 ^ 32" "unat n < 2 ^ 32" using unsigned_less [of bloom] unsigned_less [of n] by simp_all
  have p: "unat (ucast bloom * 8 :: u64) = unat bloom * 8" "unat (ucast n * 4 :: u64) = unat n * 4"
    using b by (simp_all add: unat_word_ariths unat_ucast_up)
  show q: "unat (16 + ucast bloom * 8 :: u64) = 16 + unat bloom * 8" using p b by (simp add: unat_word_ariths)
  show "unat (16 + ucast bloom * 8 + ucast n * 4 :: u64) = 16 + unat bloom * 8 + unat n * 4"
    using p q b by (subst unat_word_ariths) simp
qed

lemma max_bucket_meets:
  assumes "p + n * 4 \<le> length d" shows "meets (fold_outcome (max_bucket d p) [0..<n] 0) (\<lambda>_. True)"
proof (rule meets_fold)
  fix i and best :: u32 assume "i \<in> set [0..<n]"
  moreover have "unat (word_of_nat i * 4 :: u32) \<le> i * 4"
    by (metis mult.commute of_nat_mult of_nat_numeral unat_of_nat mod_less_eq_dividend unsigned_of_nat take_bit_nat_less_eq_self)
  ultimately have "p + unat (word_of_nat i * 4 :: u32) + 4 \<le> length d" using assms by simp
  then show "meets (max_bucket d p i best) (\<lambda>_. True)"
    unfolding max_bucket_def by (intro meets_intros) auto
qed simp

lemma gnu_hash_meets:
  assumes len: "length d < 2 ^ 34" and fit: "table + unat available \<le> length d"
  shows "meets (elf_shared_gnu_hash_symbol_count d table available) (\<lambda>_. True)"
  unfolding elf_shared_gnu_hash_symbol_count_def Let_def
proof (intro meets_intros)
  fix n first bloom :: u32
  assume "\<not> (n = 0 \<or> available < 16 + ucast bloom * 8 + ucast n * 4)"
  then have g: "16 + unat bloom * 8 + unat n * 4 \<le> unat available"
    by (simp add: word_less_nat_alt hash_header_sizes not_less)
  have m: "meets (fold_outcome (max_bucket d (table + unat (16 + ucast bloom * 8 :: u64))) [0..<unat n] 0) (\<lambda>_. True)"
    using g fit by (intro max_bucket_meets) (simp add: hash_header_sizes)
  have c: "meets (chain_end (length d + 1) d table (16 + ucast bloom * 8 + ucast n * 4) available first i) (\<lambda>_. True)" for i
    using g fit len by (intro chain_end_meets) (simp_all add: hash_header_sizes)
  show "meets (andthen (fold_outcome (max_bucket d (table + unat (16 + ucast bloom * 8 :: u64))) [0..<unat n] 0)
          (\<lambda>best. if best < first then Inr first
             else chain_end (length d + 1) d table (16 + ucast bloom * 8 + ucast n * 4) available first (best - first))) (\<lambda>_. True)"
    by (intro meets_call [OF m] meets_if meets_Inr c) simp
qed (use fit in \<open>auto simp: word_less_nat_alt\<close>)

text \<open>The number of symbols from a hash table is a word of the file, so the size of the table does not wrap.\<close>

lemma symbol_count_meets:
  assumes len: "length d < 2 ^ 34" and img: "elf_shared_open_image d = Inr img" and loads: "loads_in_file d" and dyn: "dyn_ok d dyn"
  shows "meets (dynamic_symbol_count d img dyn 0) (\<lambda>n. unat n < 2 ^ 32)"
proof -
  have small: "unat (ucast (n :: u32) :: u64) < 4294967296" for n using unsigned_less [of n] by (simp add: unat_ucast_up)
  have gnu: "meets (elf_shared_gnu_hash_symbol_count d (unat offset) (image_size d - offset)) (\<lambda>_. True)"
    if "unat offset < length d" for offset
  proof (rule gnu_hash_meets [OF len])
    have "offset \<le> image_size d" using that len by (simp add: word_le_nat_alt image_size_unat)
    then show "unat offset + unat (image_size d - offset) \<le> length d"
      using that len by (simp add: unat_diff_word image_size_unat)
  qed
  show ?thesis unfolding dynamic_symbol_count_def
    by (intro meets_bind [OF dynamic_offset_meets [OF assms]] meets_intros meets_call [OF gnu])
      (auto simp: small shared_range [OF len] split: option.splits if_splits)
qed

lemma versions_meets:
  assumes len: "length d < 2 ^ 34" and img: "elf_shared_open_image d = Inr img" and loads: "loads_in_file d" and dyn: "dyn_ok d dyn"
    and t: "tables_ok d t" and n: "unat (et_symbol_count t) < 2 ^ 32"
  shows "meets (dynamic_versions d img dyn t) (\<lambda>t'. tables_ok d t' \<and> et_symbols t' = et_symbols t)"
proof -
  let ?next = "\<lambda>v. case v of None \<Rightarrow> t
     | Some offset \<Rightarrow> if elf_shared_range_ok d offset (et_symbol_count t * 2)
         then t\<lparr>et_versym := Some (unat offset), et_versym_count := et_symbol_count t\<rparr> else t"
  have two: "unat (et_symbol_count t * 2) = unat (et_symbol_count t) * 2" using n by (simp add: unat_word_ariths)
  have t1: "tables_ok d (?next v) \<and> et_symbols (?next v) = et_symbols t" for v
    using t two by (cases v) (auto simp: tables_ok_def shared_range [OF len])
  have t2: "tables_ok d (t'\<lparr>et_verdef := Some (unat offset), et_verdef_size := image_size d - offset\<rparr>)"
    if "tables_ok d t'" "unat offset < length d" for t' offset
  proof -
    have "offset \<le> image_size d" using that(2) len by (simp add: word_le_nat_alt image_size_unat)
    then have "unat offset + unat (image_size d - offset) \<le> length d"
      using that len by (simp add: unat_diff_word image_size_unat)
    then show ?thesis using that(1) by (simp add: tables_ok_def)
  qed
  note off = dynamic_offset_meets [OF len img loads dyn]
  have "meets (andthen (dynamic_offset d img dyn 0x6ffffffc) (\<lambda>verdef.
       Inr (case verdef of None \<Rightarrow> u
            | Some offset \<Rightarrow> u\<lparr>et_verdef := Some (unat offset), et_verdef_size := image_size d - offset\<rparr>)))
     (\<lambda>t'. tables_ok d t' \<and> et_symbols t' = et_symbols t)" if "tables_ok d u \<and> et_symbols u = et_symbols t" for u
    using that t2 by (intro meets_bind [OF off] meets_Inr) (auto split: option.split)
  then show ?thesis unfolding dynamic_versions_def Let_def by (intro meets_bind [OF off]) (simp add: t1)
qed

lemma locate_tables_meets:
  assumes len: "length d < 2 ^ 34" and img: "elf_shared_open_image d = Inr img" and loads: "loads_in_file d"
  shows "meets (elf_shared_locate_tables d img) (\<lambda>r. \<forall>t. r = Some t \<longrightarrow> tables_ok d t \<and> et_symbols t \<noteq> None)"
proof -
  have sections: "meets (fold_outcome (table_section d img) xs no_tables) (tables_ok d)" for xs
    by (intro meets_fold table_section_meets [OF len]) (simp_all add: tables_ok_def no_tables_def)
  have dynamic: "meets (dynamic_tables d img dyn t) (\<lambda>r. \<forall>t. r = Some t \<longrightarrow> tables_ok d t \<and> et_symbols t \<noteq> None)"
    if t: "tables_ok d t" "\<not> (et_symbols t \<noteq> None \<and> et_strings t \<noteq> None)" and dyn: "dyn_ok d dyn" for t dyn
  proof -
    note off = dynamic_offset_meets [OF len img loads dyn]
    have none: "et_symbols t = None" "et_symbol_count t = 0" using t by (auto simp: tables_ok_def)
    show ?thesis unfolding dynamic_tables_def none
    proof (intro meets_bind [OF off] meets_call [OF dynamic_value_meets [OF dyn]] meets_bind [OF symbol_count_meets [OF len img loads dyn]] meets_intros)
      fix symbols strings sz n :: u64
      let ?u = "t\<lparr>et_symbols := Some (unat symbols), et_symbol_count := n, et_strings := Some (unat strings), et_string_size := sz\<rparr>"
      assume r: "\<not> \<not> elf_shared_range_ok d strings sz" "\<not> (n = 0 \<or> \<not> elf_shared_range_ok d symbols (n * 24))" and n: "unat n < 2 ^ 32"
      have "unat (n * 24) = unat n * 24" using n by (simp add: unat_word_ariths)
      then have "tables_ok d ?u" using r t(1) by (simp add: tables_ok_def shared_range [OF len])
      then have v: "meets (dynamic_versions d img dyn ?u) (\<lambda>t'. tables_ok d t' \<and> et_symbols t' = et_symbols ?u)"
        using n by (intro versions_meets [OF len img loads dyn]) simp_all
      show "meets (andthen (dynamic_versions d img dyn ?u) (\<lambda>tables. Inr (Some tables)))
          (\<lambda>r. \<forall>t. r = Some t \<longrightarrow> tables_ok d t \<and> et_symbols t \<noteq> None)"
        by (intro meets_bind [OF v] meets_Inr) simp
    qed simp_all
  qed
  show ?thesis unfolding elf_shared_locate_tables_def
    by (intro meets_bind [OF sections] meets_bind [OF dynamic_segment_meets [OF len]] meets_intros dynamic) (auto simp: tables_ok_def)
qed

section \<open>Versions and symbols\<close>

lemma string_meets: "fits_at d table (unat sz) \<Longrightarrow> meets (elf_shared_string d table sz offset) (\<lambda>_. True)"
  unfolding elf_shared_string_def Let_def
  by (intro meets_intros) (auto simp: meets_def not_less word_le_nat_alt unat_ucast_up)

text \<open>Every round of the walk over the version definitions moves the cursor forward.\<close>

lemma version_walk_meets:
  assumes len: "length d < 2 ^ 34" and t: "tables_ok d t" "et_verdef t = Some verdef"
  shows "0 < fuel \<Longrightarrow> unat (et_verdef_size t) \<le> unat cursor + fuel - 1 \<Longrightarrow> unat cursor < 2 ^ 36 \<Longrightarrow>
    meets (version_walk fuel d t verdef index cursor) (\<lambda>_. True)"
proof (induction fuel arbitrary: cursor)
  case (Suc fuel)
  have fit: "verdef + unat (et_verdef_size t) \<le> length d" and str: "fits_at d (et_strings t) (unat (et_string_size t))"
    using t by (simp_all add: tables_ok_def)
  show ?case
  proof (cases "cursor + 20 \<le> et_verdef_size t")
    case True
    have "unat (cursor + 20) = unat cursor + 20" using Suc.prems(3) by (simp add: unat_word_ariths)
    then have c: "unat cursor + 20 \<le> unat (et_verdef_size t)" using True by (simp add: word_le_nat_alt)
    have small: "unat cursor < 2 ^ 34" using c fit len by simp
    have nxt: "unat (cursor + ucast (n :: u32)) = unat cursor + unat n" for n
      using small unat32_less [of n] by (simp add: unat_word_ariths unat_ucast_up)
    have aux: "unat (cursor + ucast (n :: u32) + 8) = unat cursor + unat n + 8" for n
      using small unat32_less [of n] by (subst unat_word_ariths) (simp add: nxt)
    have step: "meets (version_walk fuel d t verdef index (cursor + ucast n)) (\<lambda>_. True)" if "n \<noteq> 0" for n :: u32
    proof (rule Suc.IH)
      have "0 < unat n" using that by (simp add: unat_gt_0)
      then show "unat (et_verdef_size t) \<le> unat (cursor + ucast n) + fuel - 1" using Suc.prems(2) by (simp add: nxt)
      show "0 < fuel" using c Suc.prems(2) by simp
      show "unat (cursor + ucast n) < 2 ^ 36" using small unat32_less [of n] by (simp add: nxt)
    qed
    show ?thesis
      unfolding version_walk.simps Let_def
      using c fit str
      by (intro meets_intros string_meets step) (auto simp: word_le_nat_alt aux)
  qed simp
qed simp

lemma version_name_meets:
  assumes "length d < 2 ^ 34" "tables_ok d t" shows "meets (elf_shared_version_name d t index) (\<lambda>_. True)"
  unfolding elf_shared_version_name_def
proof (intro meets_intros)
  fix verdef assume v: "et_verdef t = Some verdef"
  have "unat (et_verdef_size t) \<le> length d" using assms(2) v by (simp add: tables_ok_def)
  then show "meets (version_walk (length d + 1) d t verdef index 0) (\<lambda>_. True)"
    by (intro version_walk_meets [OF assms v]) simp_all
qed simp_all

lemma alignment_meets: "length d < 2 ^ 34 \<Longrightarrow> meets (elf_shared_section_alignment d img i) (\<lambda>_. True)"
  unfolding elf_shared_section_alignment_def by (intro meets_intros) (fastforce dest: shared_shdr_fits)+

lemma reserve_meets: "meets (elf_shared_library_reserve ok n lib) (\<lambda>lib'. lb_symbols lib' = lb_symbols lib)"
  unfolding elf_shared_library_reserve_def by (intro meets_intros) simp_all

lemma record_symbol_meets:
  assumes len: "length d < 2 ^ 34" and t: "tables_ok d t" and e: "entry + 24 \<le> length d"
  shows "meets (record_symbol mem d img t entry info shndx name v lib) (\<lambda>lib'. length (lb_symbols lib') \<le> Suc (length (lb_symbols lib)))"
proof -
  have ver: "meets (if v > 1 then elf_shared_version_name d t v else Inr None) (\<lambda>_. True)"
    using version_name_meets [OF len t] by simp
  show ?thesis unfolding record_symbol_def Let_def
    using e by (intro meets_bind [OF reserve_meets] meets_intros meets_call [OF alignment_meets [OF len]] meets_call [OF ver]) auto
qed

lemma symbol_version_meets:
  assumes "tables_ok d t" "i < 2 ^ 64" shows "meets (symbol_version d t i) (\<lambda>_. True)"
  unfolding symbol_version_def
proof (intro meets_intros)
  fix p assume p: "et_versym t = Some p" "word_of_nat i < et_versym_count t"
  have "i < unat (et_versym_count t)" using p(2) assms(2) by (simp add: word_less_nat_alt unsigned_of_nat take_bit_nat_eq_self)
  then show "p + i * 2 + 2 \<le> length d" using p(1) assms(1) by (simp add: tables_ok_def)
qed simp_all

lemma collect_symbol_meets:
  assumes len: "length d < 2 ^ 34" and t: "tables_ok d t" "et_symbols t = Some symbols" and i: "i < unat (et_symbol_count t)"
  shows "meets (collect_symbol mem d img t symbols i lib) (\<lambda>lib'. length (lb_symbols lib') \<le> Suc (length (lb_symbols lib)))"
proof -
  have e: "symbols + i * 24 + 24 \<le> length d" using t i by (simp add: tables_ok_def)
  have info: "meets (if symbols + i * 24 + 4 < length d then Inr (d ! (symbols + i * 24 + 4)) else Inl Fault) (\<lambda>_. True)"
    using e by simp
  have str: "fits_at d (et_strings t) (unat (et_string_size t))" using t by (simp add: tables_ok_def)
  have i64: "i < 2 ^ 64" using i unat64_less [of "et_symbol_count t"] by simp
  show ?thesis unfolding collect_symbol_def Let_def
    using e
    by (intro meets_call [OF info] meets_intros meets_call [OF string_meets [OF str]] meets_call [OF symbol_version_meets [OF t(1) i64]]
          record_symbol_meets [OF len t(1)]) auto
qed

lemma fold_growth:
  assumes "\<And>x s. x \<in> set xs \<Longrightarrow> meets (f x s) (\<lambda>s'. m s' \<le> Suc (m s))"
  shows "meets (fold_outcome f xs s) (\<lambda>s'. m s' \<le> m s + length xs)"
  using assms
proof (induction xs arbitrary: s)
  case (Cons x xs)
  have 1: "meets (f x s) (\<lambda>s'. m s' \<le> Suc (m s))" using Cons.prems by simp
  have 2: "meets (fold_outcome f xs u) (\<lambda>s'. m s' \<le> m u + length xs)" for u using Cons.IH Cons.prems by simp
  show ?case by (simp, rule meets_bind [OF 1], rule meets_weaken [OF 2]) simp
qed simp

lemma collect_symbols_meets:
  assumes len: "length d < 2 ^ 34" and t: "tables_ok d t" "et_symbols t \<noteq> None"
  shows "meets (elf_shared_collect_symbols mem d img t lib) (\<lambda>lib'. length (lb_symbols lib') \<le> length (lb_symbols lib) + length d)"
proof -
  obtain p where p: "et_symbols t = Some p" using t(2) by blast
  have "unat (et_symbol_count t) \<le> length d" using t(1) p by (simp add: tables_ok_def)
  moreover have "meets (fold_outcome (collect_symbol mem d img t p) [1..<unat (et_symbol_count t)] lib)
      (\<lambda>lib'. length (lb_symbols lib') \<le> length (lb_symbols lib) + length [1..<unat (et_symbol_count t)])"
    using collect_symbol_meets [OF len t(1) p] by (intro fold_growth) simp
  ultimately show ?thesis unfolding elf_shared_collect_symbols_def p by (auto elim: meets_weaken)
qed

lemma soname_meets:
  assumes len: "length d < 2 ^ 34" and t: "tables_ok d t"
  shows "meets (elf_shared_read_soname ok d img t lib) (\<lambda>lib'. lb_symbols lib' = lb_symbols lib)"
proof -
  have str: "fits_at d (et_strings t) (unat (et_string_size t))" using t by (simp add: tables_ok_def)
  have 1: "meets (case dyn of None \<Rightarrow> Inr None | Some dyn \<Rightarrow> elf_shared_dynamic_value d dyn 14) (\<lambda>_. True)"
    if "\<forall>x. dyn = Some x \<longrightarrow> dyn_ok d x" for dyn
    using that dynamic_value_meets by (cases dyn) auto
  have 2: "meets (case v of None \<Rightarrow> Inr None
     | Some v \<Rightarrow> if v \<le> 0xFFFFFFFF then elf_shared_string d (et_strings t) (et_string_size t) (ucast v) else Inr None) (\<lambda>_. True)" for v :: "u64 option"
    using string_meets [OF str] by (cases v) auto
  show ?thesis unfolding elf_shared_read_soname_def
    by (intro meets_bind [OF dynamic_segment_meets [OF len]] meets_call [OF 1] meets_call [OF 2] meets_intros) simp_all
qed

section \<open>The index\<close>

abbreviation shared_walk :: "ElfSharedSymbol list \<Rightarrow> nat \<Rightarrow> nat \<Rightarrow> nat \<Rightarrow> nat" where
  "shared_walk syms i n j \<equiv> lp.walk mettle_fnv1a_hash (ss_name (syms ! i)) n j"

text \<open>The first \<open>m\<close> symbols are in the table, each behind symbols that come before it.\<close>

definition in_order :: "ElfSharedSymbol list \<Rightarrow> nat \<Rightarrow> nat list \<Rightarrow> bool" where
  "in_order syms m bs \<longleftrightarrow> pow2_size (length bs) \<and> (\<forall>b < length bs. bs ! b \<le> m) \<and>
     (\<forall>b < length bs. \<forall>b' < length bs. bs ! b \<noteq> 0 \<longrightarrow> bs ! b = bs ! b' \<longrightarrow> b = b') \<and>
     (\<forall>i < m. \<exists>j < length bs. bs ! shared_walk syms i (length bs) j = i + 1 \<and>
        (\<forall>j' < j. 0 < bs ! shared_walk syms i (length bs) j' \<and> bs ! shared_walk syms i (length bs) j' \<le> i))"

lemma in_order_roomy:
  assumes "in_order syms m bs" "m < length bs" shows "\<exists>b < length bs. bs ! b = 0"
proof (rule ccontr)
  assume full: "\<not> ?thesis"
  have "inj_on (\<lambda>b. bs ! b) {..<length bs}" using assms(1) full unfolding in_order_def by (intro inj_onI) auto
  moreover have "(\<lambda>b. bs ! b) ` {..<length bs} \<subseteq> {1..m}" using assms(1) full by (auto simp: in_order_def Suc_le_eq)
  ultimately have "card {..<length bs} \<le> card {1..m}" by (meson card_inj_on_le finite_atLeastAtMost)
  then show False using assms(2) by simp
qed

text \<open>The walk for a free slot, over the names of the symbols.\<close>

lemma free_slot:
  assumes o: "in_order syms m bs" and m: "m < length bs"
  obtains i where "i < length bs" "bs ! lp.walk mettle_fnv1a_hash k (length bs) i = 0"
    "\<forall>j < i. bs ! lp.walk mettle_fnv1a_hash k (length bs) j \<noteq> 0"
proof -
  define ka :: "nat \<Rightarrow> string option" where "ka b = (if bs ! b = 0 then None else Some [])" for b
  have none: "ka b = None \<longleftrightarrow> bs ! b = 0" for b by (simp add: ka_def)
  have sz: "pow2_size (length bs)" using o by (simp add: in_order_def)
  have "lp.roomy ka (length bs)" using in_order_roomy [OF o m] unfolding lp.roomy_def none by simp
  then obtain i where "i < length bs" "ka (lp.walk mettle_fnv1a_hash k (length bs) i) = None"
    "\<forall>j < i. ka (lp.walk mettle_fnv1a_hash k (length bs) j) \<noteq> None"
    by (rule lp.first_free [OF sz, of ka mettle_fnv1a_hash k])
  then show ?thesis unfolding none by (rule that)
qed

lemma index_shared_ok:
  assumes o: "in_order syms m bs" and m: "m < length bs"
  shows "\<exists>bs'. index_shared syms m bs = Inr bs' \<and> in_order syms (Suc m) bs' \<and> length bs' = length bs"
proof -
  let ?n = "length bs" and ?w = "\<lambda>i. shared_walk syms i (length bs)"
  have sz: "pow2_size ?n" using o by (simp add: in_order_def)
  have wl: "?w k j < ?n" for k j by (rule lp.walk_less [OF sz])
  obtain i where i: "i < ?n" "bs ! ?w m i = 0" "\<forall>j < i. bs ! ?w m j \<noteq> 0" using free_slot [OF o m] by blast
  have "probe (\<lambda>b. bs ! b = 0) (next_slot ?n) ?n (slot_of (mettle_fnv1a_hash (ss_name (syms ! m))) ?n) = Inr (?w m i)"
    by (rule lp.probe_home [OF sz]) (use i in auto)
  then have run: "index_shared syms m bs = Inr (bs[?w m i := Suc m])" by (simp add: index_shared_def)
  let ?bs = "bs[?w m i := Suc m]"
  have le: "bs ! b \<le> m" if "b < ?n" for b using o that by (simp add: in_order_def)
  have keep: "?bs ! b = (if b = ?w m i then Suc m else bs ! b)" if "b < ?n" for b using that by (simp add: nth_list_update)
  have "\<exists>j < ?n. ?bs ! ?w k j = k + 1 \<and> (\<forall>j' < j. 0 < ?bs ! ?w k j' \<and> ?bs ! ?w k j' \<le> k)" if k: "k < Suc m" for k
  proof (cases "k = m")
    case True
    have "\<forall>j' < i. 0 < ?bs ! ?w m j' \<and> ?bs ! ?w m j' \<le> m" using i le wl by (auto simp: keep [OF wl])
    then show ?thesis using True i by (intro exI [of _ i]) (simp add: keep [OF wl])
  next
    case False
    then have "k < m" using k by simp
    then obtain j where j: "j < ?n" "bs ! ?w k j = k + 1" "\<forall>j' < j. 0 < bs ! ?w k j' \<and> bs ! ?w k j' \<le> k"
      using o unfolding in_order_def by blast
    have "?w k j' \<noteq> ?w m i" if "j' \<le> j" for j'
      using j that i(2) by (metis add_is_0 le_neq_implies_less less_nat_zero_code zero_neq_one)
    then show ?thesis using j by (intro exI [of _ j]) (simp add: keep [OF wl])
  qed
  moreover have "\<forall>b < ?n. \<forall>b' < ?n. ?bs ! b \<noteq> 0 \<longrightarrow> ?bs ! b = ?bs ! b' \<longrightarrow> b = b'"
  proof (intro allI impI)
    fix b b' assume b: "b < ?n" "b' < ?n" "?bs ! b \<noteq> 0" "?bs ! b = ?bs ! b'"
    have "bs ! b \<noteq> Suc m" "bs ! b' \<noteq> Suc m" using le [OF b(1)] le [OF b(2)] by simp_all
    then show "b = b'" using o b unfolding in_order_def keep [OF b(1)] keep [OF b(2)] by (metis nat.distinct(1))
  qed
  moreover have "\<forall>b < ?n. ?bs ! b \<le> Suc m" using le by (auto simp: keep le_SucI)
  ultimately have "in_order syms (Suc m) ?bs" using sz by (simp add: in_order_def)
  then show ?thesis using run by simp
qed

lemma index_shared_all:
  assumes "in_order syms 0 bs" "m \<le> length bs"
  shows "\<exists>bs'. fold_outcome (index_shared syms) [0..<m] bs = Inr bs' \<and> in_order syms m bs' \<and> length bs' = length bs"
  using assms(2)
proof (induction m)
  case 0
  then show ?case using assms(1) by simp
next
  case (Suc m)
  then obtain bs1 where bs1: "fold_outcome (index_shared syms) [0..<m] bs = Inr bs1" "in_order syms m bs1" "length bs1 = length bs"
    by auto
  obtain bs2 where "index_shared syms m bs1 = Inr bs2" "in_order syms (Suc m) bs2" "length bs2 = length bs1"
    using index_shared_ok [OF bs1(2)] bs1(3) Suc.prems by auto
  then show ?case using bs1 by (simp add: fold_outcome_append)
qed

lemma find_least:
  assumes "i < length xs" "P (xs ! i)" "\<And>j. j < i \<Longrightarrow> \<not> P (xs ! j)" shows "find P xs = Some (xs ! i)"
  using assms by (subst find_Some_iff) blast

text \<open>The probe for a name stops at the first symbol of that name, because the symbols in front of it come before.\<close>

lemma find_in_order:
  assumes o: "in_order (lb_symbols lib) (length (lb_symbols lib)) (lb_buckets lib)"
    and room: "length (lb_symbols lib) < length (lb_buckets lib)"
  shows "elf_shared_library_find lib name = Inr (find (\<lambda>s. ss_name s = name) (lb_symbols lib))"
proof -
  let ?syms = "lb_symbols lib" and ?bs = "lb_buckets lib"
  let ?n = "length ?bs"
  let ?w = "lp.walk mettle_fnv1a_hash name ?n" and ?stop = "\<lambda>b. ?bs ! b = 0 \<or> ss_name (?syms ! (?bs ! b - 1)) = name"
  have sz: "pow2_size ?n" using o by (simp add: in_order_def)
  have le: "?bs ! ?w j \<le> length ?syms" for j
    using o lp.walk_less [OF sz, of mettle_fnv1a_hash name j] unfolding in_order_def by blast
  have run: "elf_shared_library_find lib name = Inr (if ?bs ! ?w j = 0 then None else Some (?syms ! (?bs ! ?w j - 1)))"
    if "j < ?n" "?stop (?w j)" "\<forall>j' < j. \<not> ?stop (?w j')" for j
  proof -
    have "probe ?stop (next_slot ?n) ?n (slot_of (mettle_fnv1a_hash name) ?n) = Inr (?w j)"
      by (rule lp.probe_home [OF sz]) (use that in auto)
    moreover have "?n \<noteq> 0" using that(1) by auto
    ultimately show ?thesis unfolding elf_shared_library_find_def Let_def by (simp only: if_False andthen_simps)
  qed
  show ?thesis
  proof (cases "find (\<lambda>s. ss_name s = name) ?syms")
    case None
    then have none: "ss_name (?syms ! i) \<noteq> name" if "i < length ?syms" for i using that by (simp add: find_None_iff)
    obtain j where j: "j < ?n" "?bs ! ?w j = 0" "\<forall>j' < j. ?bs ! ?w j' \<noteq> 0" using free_slot [OF o room] by blast
    have "\<not> ?stop (?w j')" if "j' < j" for j' using j(3) that none [of "?bs ! ?w j' - 1"] le [of j'] by force
    then show ?thesis using run [OF j(1)] j(2) None by simp
  next
    case (Some s)
    then obtain i where i: "i < length ?syms" "ss_name (?syms ! i) = name" "s = ?syms ! i" "\<And>k. k < i \<Longrightarrow> ss_name (?syms ! k) \<noteq> name"
      by (auto simp: find_Some_iff)
    then obtain j where j: "j < ?n" "?bs ! ?w j = i + 1" "\<forall>j' < j. 0 < ?bs ! ?w j' \<and> ?bs ! ?w j' \<le> i"
      using o unfolding in_order_def by metis
    have "\<not> ?stop (?w j')" if "j' < j" for j' using j(3) that i(4) [of "?bs ! ?w j' - 1"] by force
    then show ?thesis using run [OF j(1)] j(2) i Some by simp
  qed
qed

lemma library_index_meets:
  assumes "length (lb_symbols lib) < 2 ^ 40"
  shows "meets (elf_shared_library_index ok lib) (\<lambda>lib'. \<forall>name. elf_shared_library_find lib' name = Inr (find (\<lambda>s. ss_name s = name) (lb_symbols lib')))"
proof -
  let ?m = "length (lb_symbols lib)"
  let ?n = "double_until 64 (?m * 2)"
  obtain j where j: "?n = 2 ^ (6 + j)" using double_until_pow2 [of 6 "?m * 2"] by auto
  have "?n \<le> 64 + 2 * (?m * 2)"
    using double_until_less [of 64 "?m * 2"] by (cases "64 < ?m * 2") (simp_all add: double_until.simps)
  then have "2 ^ (6 + j) < (2 :: nat) ^ 43" using assms j by simp
  then have "6 + j < 43" by (simp only: power_strict_increasing_iff)
  then have "6 + j < 64" by simp
  then have sz: "pow2_size ?n" unfolding pow2_size_def j by blast
  have "in_order (lb_symbols lib) 0 (replicate ?n 0)" using sz by (simp add: in_order_def)
  moreover have room: "?m < ?n" using double_until_ge [of 64 "?m * 2"] double_until_le [of 64 "?m * 2"] by (cases "?m = 0") simp_all
  ultimately obtain bs where bs: "fold_outcome (index_shared (lb_symbols lib)) [0..<?m] (replicate ?n 0) = Inr bs"
    "in_order (lb_symbols lib) ?m bs" "length bs = ?n"
    using index_shared_all [of "lb_symbols lib" "replicate ?n 0" ?m] by auto
  have "\<forall>name. elf_shared_library_find (lib\<lparr>lb_buckets := bs\<rparr>) name = Inr (find (\<lambda>s. ss_name s = name) (lb_symbols lib))"
    using find_in_order [of "lib\<lparr>lb_buckets := bs\<rparr>"] bs room by simp
  then show ?thesis unfolding elf_shared_library_index_def bs(1) by (intro meets_intros) (simp add: bs(1))
qed

section \<open>Reading a library\<close>

abbreviation lookup_is_search :: "ElfSharedLibrary \<Rightarrow> bool" where
  "lookup_is_search lib \<equiv> \<forall>name. elf_shared_library_find lib name = Inr (find (\<lambda>s. ss_name s = name) (lb_symbols lib))"

lemma read_shared_object_meets:
  assumes len: "length d < 2 ^ 34" and loads: "loads_in_file d"
  shows "meets (read_shared_object mem path d) lookup_is_search"
  unfolding read_shared_object_def
proof (intro meets_call [OF open_image_meets [OF len]] meets_bind [OF locate_tables_meets [OF len]] meets_intros loads)
  fix img found t
  assume "\<forall>t. found = Some t \<longrightarrow> tables_ok d t \<and> et_symbols t \<noteq> None" "found = Some t"
  then have t: "tables_ok d t" "et_symbols t \<noteq> None" by simp_all
  have "meets (elf_shared_collect_symbols mem d img t lib) (\<lambda>lib'. length (lb_symbols lib') < 2 ^ 40)"
    if "lb_symbols lib = []" for lib
    by (rule meets_weaken [OF collect_symbols_meets [OF len t]]) (use that len in simp)
  then show "meets (andthen (elf_shared_read_soname (mem LibrarySoname) d img t (blank_library path)) (\<lambda>lib.
        andthen (elf_shared_collect_symbols mem d img t lib) (\<lambda>lib. elf_shared_library_index (mem LibraryIndex) lib))) lookup_is_search"
    by (intro meets_bind [OF soname_meets [OF len t(1)]]) (auto simp: blank_library_def intro!: meets_bind library_index_meets)
qed simp_all

text \<open>A script names a file that starts as a shared object does, so a second script is never followed.\<close>

lemma script_scan_names_library:
  "script_scan ok files k depth cs = Some p \<Longrightarrow> elf_path_is_shared_library files p"
proof (induction ok files k depth cs rule: script_scan.induct)
  case (1 ok files k depth cs)
  show ?case
  proof (cases "dropWhile script_space cs")
    case Nil
    then show ?thesis using "1.prems" unfolding script_scan.simps [of ok files k depth cs] by (simp only: list.case option.distinct)
  next
    case (Cons c rest)
    show ?thesis using "1.prems" "1.IH" [OF Cons] unfolding script_scan.simps [of ok files k depth cs] Cons
      by (auto simp: Let_def split: if_splits)
  qed
qed

lemma library_read_meets:
  assumes "\<And>p d. files p = Some d \<Longrightarrow> length d < 2 ^ 34 \<and> loads_in_file d"
  shows "meets (elf_shared_library_read 2 mem files path) lookup_is_search"
proof (cases "files path")
  case (Some d)
  show ?thesis
  proof (cases "length d < 4 \<or> take 4 d \<noteq> [0x7F, 0x45, 0x4C, 0x46]")
    case script: True
    show ?thesis
    proof (cases "elf_shared_script_target mem files d")
      case None
      then show ?thesis using Some script by (simp add: numeral_2_eq_2)
    next
      case target: (Some p)
      then have "elf_path_is_shared_library files p"
        by (auto simp: elf_shared_script_target_def split: if_splits intro: script_scan_names_library)
      then obtain e where "files p = Some e" "take 4 e = [0x7F, 0x45, 0x4C, 0x46]" "18 \<le> length e"
        by (auto simp: elf_path_is_shared_library_def split: option.splits)
      then show ?thesis using Some script target read_shared_object_meets assms by (simp add: numeral_2_eq_2)
    qed
  next
    case False
    then show ?thesis using Some read_shared_object_meets assms by (simp add: numeral_2_eq_2)
  qed
qed (simp add: numeral_2_eq_2)

section \<open>Properties\<close>

text \<open>A library whose dynamic symbol table has the function \<open>f\<close> of five bytes and, behind it, a weak \<open>f\<close> of seven.\<close>

definition sample_shared :: bytes where
  "sample_shared =
     [127, 69, 76, 70, 2, 1, 1, 0, 0, 0, 0, 0, 0, 0, 0, 0, 3, 0, 62, 0, 1, 0, 0, 0] @
     [0, 0, 0, 0, 0, 0, 0, 0, 0, 0, 0, 0, 0, 0, 0, 0, 64, 0, 0, 0, 0, 0, 0, 0] @
     [0, 0, 0, 0, 64, 0, 0, 0, 0, 0, 64, 0, 2, 0, 0, 0, 0, 0, 0, 0, 11, 0, 0, 0] @
     [0, 0, 0, 0, 0, 0, 0, 0, 0, 0, 0, 0, 0, 0, 0, 0, 192, 0, 0, 0, 0, 0, 0, 0] @
     [72, 0, 0, 0, 0, 0, 0, 0, 1, 0, 0, 0, 0, 0, 0, 0, 1, 0, 0, 0, 0, 0, 0, 0] @
     [24, 0, 0, 0, 0, 0, 0, 0, 0, 0, 0, 0, 3, 0, 0, 0, 0, 0, 0, 0, 0, 0, 0, 0] @
     [0, 0, 0, 0, 0, 0, 0, 0, 8, 1, 0, 0, 0, 0, 0, 0, 3, 0, 0, 0, 0, 0, 0, 0] @
     [0, 0, 0, 0, 0, 0, 0, 0, 1, 0, 0, 0, 0, 0, 0, 0, 0, 0, 0, 0, 0, 0, 0, 0] @
     replicate 24 0 @
     [1, 0, 0, 0, 18, 0, 1, 0, 0, 0, 0, 0, 0, 0, 0, 0, 5, 0, 0, 0, 0, 0, 0, 0] @
     [1, 0, 0, 0, 34, 0, 1, 0, 0, 0, 0, 0, 0, 0, 0, 0, 7, 0, 0, 0, 0, 0, 0, 0] @
     [0, 102, 0]"

definition sample_files :: "string \<Rightarrow> bytes option" where
  "sample_files path = (if path = ''libf.so'' then Some sample_shared else None)"

lemma sample_files_ok: "sample_files p = Some d \<Longrightarrow> length d < 2 ^ 34 \<and> loads_in_file d"
proof -
  have "length sample_shared < 2 ^ 34" by (simp add: sample_shared_def)
  moreover have "loads_in_file sample_shared" by code_simp
  ultimately show "sample_files p = Some d \<Longrightarrow> length d < 2 ^ 34 \<and> loads_in_file d" by (simp add: sample_files_def split: if_splits)
qed

text \<open>C34. Reading a shared library is memory safe and ends: for every file system whose files are shorter than 16 gigabytes
  and whose loadable segments lie inside their file, \<open>elf_shared_library_read\<close> neither reads outside the image nor runs for
  ever, whatever else the file holds; it gives a library, reports why it refuses the file, or runs out of memory. The
  bound two on the depth of the recursion is enough, because a script can only name a shared object.\<close>

theorem shared_library_read_safe:
  assumes "\<And>p d. files p = Some d \<Longrightarrow> length d < 2 ^ 34 \<and> loads_in_file d"
  shows "safe (elf_shared_library_read 2 mem files path)"
proof -
  have "meets (elf_shared_library_read 2 mem files path) lookup_is_search"
    by (rule library_read_meets) (use assms in blast)
  then show ?thesis by (cases "elf_shared_library_read 2 mem files path") (auto simp: meets_def safe_def)
qed

theorem shared_library_read_safe_witness: "safe (elf_shared_library_read 2 (\<lambda>_. True) sample_files ''libf.so'')"
  by (rule shared_library_read_safe) (rule sample_files_ok)

text \<open>The index of a library is exact: after a library was read, \<open>elf_shared_library_find\<close> returns, for every name, the
  first symbol of that name in the order of the symbol table, and none when there is no such symbol. A name may occur
  several times, with different versions.\<close>

theorem shared_lookup_first:
  assumes "\<And>p d. files p = Some d \<Longrightarrow> length d < 2 ^ 34 \<and> loads_in_file d"
    and "elf_shared_library_read 2 mem files path = Inr lib"
  shows "elf_shared_library_find lib name = Inr (find (\<lambda>s. ss_name s = name) (lb_symbols lib))"
proof -
  have "meets (elf_shared_library_read 2 mem files path) lookup_is_search"
    by (rule library_read_meets) (use assms(1) in blast)
  then show ?thesis using assms(2) by simp
qed

lemma sample_reads:
  "(case elf_shared_library_read 2 (\<lambda>_. True) sample_files ''libf.so'' of
      Inr lib \<Rightarrow> map ss_name (lb_symbols lib) = [''f'', ''f''] \<and> map ss_size (lb_symbols lib) = [5, 7] | Inl _ \<Rightarrow> False)"
  by code_simp

theorem shared_lookup_first_witness:
  "\<exists>lib s. elf_shared_library_read 2 (\<lambda>_. True) sample_files ''libf.so'' = Inr lib \<and>
     elf_shared_library_find lib ''f'' = Inr (Some s) \<and> ss_size s = 5"
proof (cases "elf_shared_library_read 2 (\<lambda>_. True) sample_files ''libf.so''")
  case (Inr lib)
  then obtain s t where "lb_symbols lib = [s, t]" "ss_name s = ''f''" "ss_size s = 5"
    using sample_reads by (auto simp: map_eq_Cons_conv)
  then show ?thesis using Inr shared_lookup_first [OF _ Inr, of "''f''"] sample_files_ok by simp
qed (use sample_reads in simp)

text \<open>Without the hypothesis on the loadable segments the reader leaves the image: the second loadable segment of this
  library lies behind the end of the file, the offset of the GNU hash table is taken from it without a check, and the
  bytes available there, the size of the file minus the offset, wrap around.\<close>

definition wrapping_shared :: bytes where
  "wrapping_shared =
     [127, 69, 76, 70, 2, 1, 1, 0, 0, 0, 0, 0, 0, 0, 0, 0] @
     [3, 0, 62, 0, 1, 0, 0, 0, 0, 0, 0, 0, 0, 0, 0, 0] @
     [64, 0, 0, 0, 0, 0, 0, 0, 0, 0, 0, 0, 0, 0, 0, 0] @
     [0, 0, 0, 0, 64, 0, 56, 0, 3, 0, 0, 0, 0, 0, 0, 0] @
     [1, 0, 0, 0, 4, 0, 0, 0, 0, 0, 0, 0, 0, 0, 0, 0] @
     replicate 16 0 @
     [56, 1, 0, 0, 0, 0, 0, 0, 56, 1, 0, 0, 0, 0, 0, 0] @
     [1, 0, 0, 0, 0, 0, 0, 0, 1, 0, 0, 0, 4, 0, 0, 0] @
     [0, 2, 0, 0, 0, 0, 0, 0, 0, 2, 0, 0, 0, 0, 0, 0] @
     [0, 0, 0, 0, 0, 0, 0, 0, 0, 16, 0, 0, 0, 0, 0, 0] @
     [0, 16, 0, 0, 0, 0, 0, 0, 1, 0, 0, 0, 0, 0, 0, 0] @
     [2, 0, 0, 0, 4, 0, 0, 0, 232, 0, 0, 0, 0, 0, 0, 0] @
     replicate 16 0 @
     [80, 0, 0, 0, 0, 0, 0, 0, 80, 0, 0, 0, 0, 0, 0, 0] @
     [1, 0, 0, 0, 0, 0, 0, 0, 6, 0, 0, 0, 0, 0, 0, 0] @
     [0, 0, 0, 0, 0, 0, 0, 0, 5, 0, 0, 0, 0, 0, 0, 0] @
     [0, 0, 0, 0, 0, 0, 0, 0, 10, 0, 0, 0, 0, 0, 0, 0] @
     [1, 0, 0, 0, 0, 0, 0, 0, 245, 254, 255, 111, 0, 0, 0, 0] @
     [0, 2, 0, 0, 0, 0, 0, 0, 0, 0, 0, 0, 0, 0, 0, 0] @
     replicate 8 0"

theorem shared_library_read_leaves_image:
  "elf_shared_library_read 2 (\<lambda>_. True) (\<lambda>p. if p = ''libw.so'' then Some wrapping_shared else None) ''libw.so'' = Inl Fault"
  by code_simp

end
