(* ===== verification/LinkSymbols.thy ===== *)
theory LinkSymbols
  imports LinkTypes
begin

text \<open>
  The global symbol table of the linker (\<open>linker/symbol_resolve.c\<close>): the symbols in the order they were seen, and an
  index over their names, a hash table with open addressing that holds the position of a symbol plus one, or zero. The
  theorems: a lookup through the index is the linear search, the table is a map from names to symbols, and recording an
  occurrence of a symbol acts on that map alone.
\<close>

section \<open>Operations\<close>

definition bucket_key :: "LinkedSymbol list \<Rightarrow> nat list \<Rightarrow> nat \<Rightarrow> string option" where
  "bucket_key syms bs b = (if bs ! b = 0 then None else ls_name (syms ! (bs ! b - 1)))"

definition scan_symbols :: "LinkedSymbol list \<Rightarrow> string \<Rightarrow> nat option" where
  "scan_symbols syms name = find (\<lambda>i. ls_name (syms ! i) = Some name) [0..<length syms]"

definition link_resolution_find_symbol :: "LinkResolution \<Rightarrow> string option \<Rightarrow> nat option outcome" where
  "link_resolution_find_symbol r name =
    (case name of None \<Rightarrow> Inr None
     | Some nm \<Rightarrow>
         let bs = rs_symbol_buckets r; n = length bs; syms = rs_symbols r
         in if n \<noteq> 0
            then andthen (probe (\<lambda>b. bs ! b = 0 \<or> ls_name (syms ! (bs ! b - 1)) = Some nm) (next_slot n) n
                            (slot_of (mettle_fnv1a_hash nm) n)) (\<lambda>b.
                 Inr (if bs ! b = 0 then None else Some (bs ! b - 1)))
            else Inr (scan_symbols syms nm))"

text \<open>The variant that returns a pointer to write through has the same body.\<close>

definition link_resolution_find_symbol_mutable :: "LinkResolution \<Rightarrow> string option \<Rightarrow> nat option outcome" where
  "link_resolution_find_symbol_mutable r name =
    (case name of None \<Rightarrow> Inr None
     | Some nm \<Rightarrow>
         let bs = rs_symbol_buckets r; n = length bs; syms = rs_symbols r
         in if n \<noteq> 0
            then andthen (probe (\<lambda>b. bs ! b = 0 \<or> ls_name (syms ! (bs ! b - 1)) = Some nm) (next_slot n) n
                            (slot_of (mettle_fnv1a_hash nm) n)) (\<lambda>b.
                 Inr (if bs ! b = 0 then None else Some (bs ! b - 1)))
            else Inr (scan_symbols syms nm))"

text \<open>Putting symbol \<open>i\<close> into the first free slot.\<close>

definition index_symbol :: "LinkedSymbol list \<Rightarrow> nat \<Rightarrow> nat list \<Rightarrow> nat list outcome" where
  "index_symbol syms i bs =
    (case ls_name (syms ! i) of
       None \<Rightarrow> Inr bs
     | Some nm \<Rightarrow>
         andthen (probe (\<lambda>b. bs ! b = 0) (next_slot (length bs)) (length bs) (slot_of (mettle_fnv1a_hash nm) (length bs))) (\<lambda>b.
         Inr (bs[b := i + 1])))"

definition link_resolution_reindex_symbols :: "link_memory \<Rightarrow> LinkResolution \<Rightarrow> nat \<Rightarrow> LinkResolution outcome" where
  "link_resolution_reindex_symbols mem r min_buckets =
    andthen (allocate_mem (mem (IndexSymbols (length (rs_symbols r))))) (\<lambda>_.
    andthen (fold_outcome (index_symbol (rs_symbols r)) [0..<length (rs_symbols r)] (replicate (double_until 64 min_buckets) 0)) (\<lambda>fresh.
    Inr (r\<lparr>rs_symbol_buckets := fresh\<rparr>)))"

definition link_resolution_index_insert :: "link_memory \<Rightarrow> LinkResolution \<Rightarrow> nat \<Rightarrow> LinkResolution outcome" where
  "link_resolution_index_insert mem r i =
    (if (length (rs_symbols r) + 1) * 4 \<ge> length (rs_symbol_buckets r) * 3
     then link_resolution_reindex_symbols mem r ((length (rs_symbols r) + 1) * 2)
     else andthen (index_symbol (rs_symbols r) i (rs_symbol_buckets r)) (\<lambda>bs. Inr (r\<lparr>rs_symbol_buckets := bs\<rparr>)))"

definition link_resolution_reserve_symbols :: "link_memory \<Rightarrow> LinkResolution \<Rightarrow> nat \<Rightarrow> LinkResolution outcome" where
  "link_resolution_reserve_symbols mem r minimum_count =
    (if rs_symbol_capacity r \<ge> minimum_count then Inr r
     else andthen (allocate_mem (mem (GrowSymbols (length (rs_symbols r))))) (\<lambda>_.
          Inr (r\<lparr>rs_symbol_capacity := double_until (if rs_symbol_capacity r \<noteq> 0 then rs_symbol_capacity r else 8) minimum_count\<rparr>)))"

definition fresh_global :: "string \<Rightarrow> LinkedSymbol" where
  "fresh_global name = \<lparr>ls_name = Some name, ls_is_defined = False, ls_is_external = False, ls_defining_object_index = None,
     ls_defining_symbol_index = 0xFFFFFFFF, ls_merged_section_index = Some 0, ls_merged_offset = 0, ls_virtual_address = 0,
     ls_size = 0, ls_elf_type = 0, ls_is_weak = False, ls_is_shared_import = False, ls_shared_import_index = 0\<rparr>"

text \<open>The second half of \<open>link_resolution_record_global_symbol\<close>: the update of the entry found or created.\<close>

definition take_definition :: "LinkedObjectSymbol \<Rightarrow> LinkedSymbol \<Rightarrow> LinkedSymbol" where
  "take_definition os g = g\<lparr>ls_is_defined := True, ls_defining_object_index := Some (os_object_index os),
     ls_defining_symbol_index := os_symbol_index os, ls_merged_section_index := os_merged_section_index os,
     ls_merged_offset := os_merged_offset os, ls_size := os_size os, ls_elf_type := os_elf_type os\<rparr>"

definition merge_global :: "LinkedInputObject list \<Rightarrow> bool \<Rightarrow> LinkedObjectSymbol \<Rightarrow> LinkedSymbol \<Rightarrow> LinkedSymbol outcome" where
  "merge_global objs is_default os g0 =
    (let g = g0\<lparr>ls_is_external := True\<rparr>
     in if \<not> os_is_defined os then Inr (g\<lparr>ls_is_weak := os_is_weak os\<rparr>)
        else if ls_is_defined g then
          (case ls_defining_object_index g of
             None \<Rightarrow> Inl Fault
           | Some h \<Rightarrow>
               if length objs \<le> h then Inl Fault
               else if in_is_runtime_default (objs ! h) \<and> \<not> is_default then Inr (take_definition os g)
               else if \<not> in_is_runtime_default (objs ! h) \<and> is_default then Inr g
               else Inl (Refused ''Duplicate external symbol''))
        else Inr (take_definition os g))"

definition add_global :: "link_memory \<Rightarrow> LinkResolution \<Rightarrow> string \<Rightarrow> LinkResolution outcome" where
  "add_global mem r name =
    andthen (link_resolution_reserve_symbols mem r (length (rs_symbols r) + 1)) (\<lambda>r.
    andthen (allocate_mem (mem (CopyGlobalName (length (rs_symbols r))))) (\<lambda>_.
    link_resolution_index_insert mem (r\<lparr>rs_symbols := rs_symbols r @ [fresh_global name]\<rparr>) (length (rs_symbols r))))"

definition link_resolution_record_global_symbol ::
  "link_memory \<Rightarrow> LinkResolution \<Rightarrow> LinkedInputObject \<Rightarrow> LinkedObjectSymbol \<Rightarrow> LinkResolution outcome" where
  "link_resolution_record_global_symbol mem r inp os =
    (case os_name os of
       None \<Rightarrow> Inl (Refused '''')
     | Some name \<Rightarrow>
         andthen (link_resolution_find_symbol_mutable r (Some name)) (\<lambda>found.
         andthen (case found of
                    Some i \<Rightarrow> Inr (i, r)
                  | None \<Rightarrow> andthen (add_global mem r name) (\<lambda>r'. Inr (length (rs_symbols r), r'))) (\<lambda>(i, r).
         andthen (merge_global (rs_objects r) (in_is_runtime_default inp) os (rs_symbols r ! i)) (\<lambda>g.
         Inr (r\<lparr>rs_symbols := (rs_symbols r)[i := g]\<rparr>)))))"

section \<open>The index\<close>

lemma next_slot_less: "pow2_size n \<Longrightarrow> b < n \<Longrightarrow> next_slot n b < n"
  using lp.nxt_mod [of n b] by simp

text \<open>The first \<open>m\<close> symbols are in the table.\<close>

abbreviation name_home :: "string \<Rightarrow> nat \<Rightarrow> nat" where
  "name_home k n \<equiv> slot_of (mettle_fnv1a_hash k) n"

definition indexed :: "LinkedSymbol list \<Rightarrow> nat \<Rightarrow> nat list \<Rightarrow> bool" where
  "indexed syms m bs \<longleftrightarrow> m \<le> length syms \<and>
     open_addressing.placed name_home pow2_size (bucket_key syms bs) (length bs) \<and>
     (\<forall>b < length bs. bs ! b \<le> m) \<and> (\<forall>i < m. \<exists>b < length bs. bs ! b = i + 1)"

definition named :: "LinkedSymbol list \<Rightarrow> bool" where
  "named syms \<longleftrightarrow> (\<forall>s\<in>set syms. ls_name s \<noteq> None) \<and> distinct (map ls_name syms)"

lemma indexed_size: "indexed syms m bs \<Longrightarrow> pow2_size (length bs)"
  by (simp add: indexed_def lp.placed_def)

lemma bucket_key_None:
  assumes "named syms" "indexed syms m bs" "b < length bs"
  shows "bucket_key syms bs b = None \<longleftrightarrow> bs ! b = 0"
proof -
  have "bs ! b - 1 < length syms" if "bs ! b \<noteq> 0" using assms that by (fastforce simp: indexed_def)
  then show ?thesis using assms(1) by (auto simp: bucket_key_def named_def)
qed

lemma indexed_roomy:
  assumes "named syms" "indexed syms m bs" "m < length bs"
  shows "lp.roomy (bucket_key syms bs) (length bs)"
proof (rule ccontr)
  let ?n = "length bs"
  assume "\<not> lp.roomy (bucket_key syms bs) ?n"
  then have full: "bs ! b \<noteq> 0" if "b < ?n" for b
    using that bucket_key_None [OF assms(1,2), of b] unfolding lp.roomy_def by blast
  have inj: "inj_on (\<lambda>b. bs ! b) {..<?n}"
  proof (rule inj_onI)
    fix b b' assume b: "b \<in> {..<?n}" "b' \<in> {..<?n}" "bs ! b = bs ! b'"
    obtain k where "bucket_key syms bs b = Some k"
      using bucket_key_None [OF assms(1,2), of b] full [of b] b(1) by auto
    moreover have "bucket_key syms bs b' = bucket_key syms bs b" using b by (simp add: bucket_key_def)
    ultimately show "b = b'" using b assms(2) unfolding indexed_def lp.placed_def by (metis lessThan_iff)
  qed
  have "(\<lambda>b. bs ! b) ` {..<?n} \<subseteq> {1..m}"
    using full assms(2) by (force simp: indexed_def Suc_le_eq)
  then have "card {..<?n} \<le> card {1..m}" using inj by (meson card_inj_on_le finite_atLeastAtMost)
  then show False using assms(3) by simp
qed

lemma indexed_other:
  assumes "named syms" "indexed syms m bs" "m < length syms" "ls_name (syms ! m) = Some k"
  shows "\<forall>s < length bs. bucket_key syms bs s \<noteq> Some k"
proof (intro allI impI notI)
  fix s assume s: "s < length bs" "bucket_key syms bs s = Some k"
  then have z: "bs ! s \<noteq> 0" by (metis bucket_key_def option.distinct(1))
  have lt: "bs ! s - 1 < m" using assms(2) s(1) z by (fastforce simp: indexed_def)
  have "map ls_name syms ! (bs ! s - 1) = map ls_name syms ! m" using s z assms(3,4) lt by (simp add: bucket_key_def)
  moreover have "distinct (map ls_name syms)" using assms(1) by (simp add: named_def)
  ultimately show False using assms(3) lt nth_eq_iff_index_eq [of "map ls_name syms" "bs ! s - 1" m] by simp
qed

lemma index_symbol_ok:
  assumes nm: "named syms" and ix: "indexed syms m bs" and m: "m < length syms" "m < length bs"
  shows "\<exists>bs'. index_symbol syms m bs = Inr bs' \<and> indexed syms (Suc m) bs' \<and> length bs' = length bs"
proof -
  let ?n = "length bs" and ?ka = "bucket_key syms bs"
  obtain k where k: "ls_name (syms ! m) = Some k" using nm nth_mem [OF m(1)] unfolding named_def by blast
  have pl: "lp.placed mettle_fnv1a_hash ?ka ?n" using ix by (simp add: indexed_def)
  obtain i where i: "i < ?n" "probe (\<lambda>b. ?ka b = None) (next_slot ?n) ?n (name_home k ?n) = Inr (lp.walk mettle_fnv1a_hash k ?n i)"
    "?ka (lp.walk mettle_fnv1a_hash k ?n i) = None" "\<forall>j < i. ?ka (lp.walk mettle_fnv1a_hash k ?n j) \<noteq> None"
    using lp.probe_free [OF indexed_size [OF ix] indexed_roomy [OF nm ix m(2)]] by blast
  let ?s = "lp.walk mettle_fnv1a_hash k ?n i"
  have s: "?s < ?n" by (rule lp.walk_less [OF indexed_size [OF ix]])
  have "probe (\<lambda>b. bs ! b = 0) (next_slot ?n) ?n (name_home k ?n) = Inr ?s"
    unfolding i(2) [symmetric]
    by (rule probe_cong [where n = ?n])
      (use bucket_key_None [OF nm ix] next_slot_less [OF indexed_size [OF ix]] lp.home_less [OF indexed_size [OF ix]] in auto)
  then have r: "index_symbol syms m bs = Inr (bs[?s := m + 1])" by (simp add: index_symbol_def k)
  have old: "bs ! ?s = 0" using i(3) bucket_key_None [OF nm ix s] by simp
  have ka: "(?ka(?s \<mapsto> k)) b = bucket_key syms (bs[?s := m + 1]) b" if "b < ?n" for b
    using that k by (simp add: bucket_key_def nth_list_update)
  have "lp.placed mettle_fnv1a_hash (?ka(?s \<mapsto> k)) ?n"
    by (rule lp.placed_insert [OF pl i(1,4,3) indexed_other [OF nm ix m(1) k]])
  then have "lp.placed mettle_fnv1a_hash (bucket_key syms (bs[?s := m + 1])) ?n"
    by (rule lp.placed_cong [rotated]) (rule ka)
  moreover have "\<forall>j < Suc m. \<exists>b < ?n. bs[?s := m + 1] ! b = j + 1"
  proof (intro allI impI)
    fix j assume "j < Suc m"
    then consider "j = m" | "j < m" by linarith
    then show "\<exists>b < ?n. bs[?s := m + 1] ! b = j + 1"
    proof cases
      case 1
      then show ?thesis using s by (intro exI [of _ ?s]) simp
    next
      case 2
      then obtain b where b: "b < ?n" "bs ! b = j + 1" using ix by (auto simp: indexed_def)
      then have "b \<noteq> ?s" using old by auto
      then show ?thesis using b by (intro exI [of _ b]) simp
    qed
  qed
  moreover have "\<forall>b < ?n. bs[?s := m + 1] ! b \<le> Suc m"
    using ix by (metis indexed_def Suc_eq_plus1 le_SucI nth_list_update_eq nth_list_update_neq order_refl)
  ultimately show ?thesis using r m(1) by (simp add: indexed_def)
qed


lemma reindex_fold:
  assumes nm: "named syms" and "indexed syms m bs" "m + k \<le> length syms" "length syms < length bs"
  shows "\<exists>bs'. fold_outcome (index_symbol syms) [m..<m + k] bs = Inr bs' \<and> indexed syms (m + k) bs' \<and> length bs' = length bs"
  using assms(2-)
proof (induction k arbitrary: m bs)
  case (Suc k)
  obtain bs1 where b: "index_symbol syms m bs = Inr bs1" "indexed syms (Suc m) bs1" "length bs1 = length bs"
    using index_symbol_ok [OF nm Suc.prems(1)] Suc.prems by auto
  then show ?case using Suc.IH [OF b(2)] Suc.prems by (simp add: upt_conv_Cons del: upt_Suc)
qed simp

lemma indexed_empty: "pow2_size n \<Longrightarrow> indexed syms 0 (replicate n 0)"
  by (simp add: indexed_def bucket_key_def lp.placed_empty)

text \<open>The state of the table: named symbols, all of them in the index, and a free slot left.\<close>

definition sym_inv :: "LinkResolution \<Rightarrow> bool" where
  "sym_inv r \<longleftrightarrow> named (rs_symbols r) \<and>
     (if rs_symbol_buckets r = [] then rs_symbols r = []
      else indexed (rs_symbols r) (length (rs_symbols r)) (rs_symbol_buckets r) \<and>
           length (rs_symbols r) < length (rs_symbol_buckets r))"

lemma buckets_pow2: "m < 2 ^ 62 \<Longrightarrow> pow2_size (double_until 64 m)"
proof -
  assume m: "m < 2 ^ 62"
  obtain j where j: "double_until 64 m = 2 ^ (6 + j)" using double_until_pow2 [of 6 m] by auto
  have "double_until 64 m < 2 ^ 63"
  proof (cases "64 < m")
    case True
    then show ?thesis using double_until_less [of 64 m] m by simp
  next
    case False
    then have "double_until 64 m = 64" by (subst double_until.simps) simp
    then show ?thesis by simp
  qed
  then have "(2::nat) ^ (6 + j) < 2 ^ 63" using j by simp
  then have "6 + j < 63" by (simp only: power_strict_increasing_iff)
  then show ?thesis using j by (auto simp: pow2_size_def)
qed

lemma reindex_ok:
  assumes "named (rs_symbols r)" "mem (IndexSymbols (length (rs_symbols r)))" "length (rs_symbols r) < m" "m < 2 ^ 62"
  shows "\<exists>bs. link_resolution_reindex_symbols mem r m = Inr (r\<lparr>rs_symbol_buckets := bs\<rparr>) \<and>
    indexed (rs_symbols r) (length (rs_symbols r)) bs \<and> length (rs_symbols r) < length bs"
proof -
  let ?n = "double_until 64 m"
  have n: "length (rs_symbols r) < ?n" using double_until_ge [of 64 m] assms(3) by simp
  have "\<exists>bs'. fold_outcome (index_symbol (rs_symbols r)) [0..<length (rs_symbols r)] (replicate ?n 0) = Inr bs' \<and>
      indexed (rs_symbols r) (length (rs_symbols r)) bs' \<and> length bs' = ?n"
    using reindex_fold [OF assms(1) indexed_empty [OF buckets_pow2 [OF assms(4)]], of "length (rs_symbols r)"] n by simp
  then show ?thesis using n assms(2) by (auto simp: link_resolution_reindex_symbols_def allocate_mem_def)
qed

lemma indexed_append:
  assumes "indexed syms (length syms) bs" shows "indexed (syms @ [s]) (length syms) bs"
proof -
  have "bucket_key (syms @ [s]) bs b = bucket_key syms bs b" if "b < length bs" for b
  proof -
    have "bs ! b \<le> length syms" using assms that by (simp add: indexed_def)
    then show ?thesis by (auto simp: bucket_key_def nth_append)
  qed
  then show ?thesis using assms unfolding indexed_def by (auto intro: lp.placed_cong [rotated])
qed

lemma index_insert_ok:
  assumes inv: "sym_inv r" and nm: "named (rs_symbols r @ [s])" and small: "length (rs_symbols r) < 2 ^ 60"
  shows "(link_resolution_index_insert mem (r\<lparr>rs_symbols := rs_symbols r @ [s]\<rparr>) (length (rs_symbols r)) = Inl OutOfMemory \<and> mem \<noteq> plenty) \<or>
    (\<exists>bs. link_resolution_index_insert mem (r\<lparr>rs_symbols := rs_symbols r @ [s]\<rparr>) (length (rs_symbols r)) =
      Inr (r\<lparr>rs_symbols := rs_symbols r @ [s], rs_symbol_buckets := bs\<rparr>) \<and>
    sym_inv (r\<lparr>rs_symbols := rs_symbols r @ [s], rs_symbol_buckets := bs\<rparr>))"
proof -
  let ?r = "r\<lparr>rs_symbols := rs_symbols r @ [s]\<rparr>" and ?m = "length (rs_symbols r)"
  consider (grow) "(length (rs_symbols ?r) + 1) * 4 \<ge> length (rs_symbol_buckets ?r) * 3" "mem (IndexSymbols (?m + 1))"
    | (oom) "(length (rs_symbols ?r) + 1) * 4 \<ge> length (rs_symbol_buckets ?r) * 3" "\<not> mem (IndexSymbols (?m + 1))"
    | (keep) "\<not> (length (rs_symbols ?r) + 1) * 4 \<ge> length (rs_symbol_buckets ?r) * 3" by blast
  then show ?thesis
  proof cases
    case grow
    obtain bs where "link_resolution_reindex_symbols mem ?r ((length (rs_symbols ?r) + 1) * 2) = Inr (?r\<lparr>rs_symbol_buckets := bs\<rparr>)"
      "indexed (rs_symbols ?r) (length (rs_symbols ?r)) bs" "length (rs_symbols ?r) < length bs"
      using reindex_ok [of ?r mem "(length (rs_symbols ?r) + 1) * 2"] nm small grow(2) by auto
    then show ?thesis using grow(1) nm
      by (intro disjI2 exI [of _ bs]) (auto simp: link_resolution_index_insert_def sym_inv_def)
  next
    case oom
    then show ?thesis
      by (auto simp: link_resolution_index_insert_def link_resolution_reindex_symbols_def allocate_mem_def plenty_def)
  next
    case keep
    then have ne: "rs_symbol_buckets r \<noteq> []" by auto
    then have ix: "indexed (rs_symbols ?r) ?m (rs_symbol_buckets r)"
      using inv indexed_append by (simp add: sym_inv_def)
    obtain bs where bs: "index_symbol (rs_symbols ?r) ?m (rs_symbol_buckets r) = Inr bs"
      "indexed (rs_symbols ?r) (Suc ?m) bs" "length bs = length (rs_symbol_buckets r)"
      using index_symbol_ok [OF _ ix] nm keep by auto
    moreover have "Suc ?m < length bs" using keep bs(3) by simp
    ultimately show ?thesis using keep nm ne
      by (intro disjI2 exI [of _ bs]) (auto simp: link_resolution_index_insert_def sym_inv_def)
  qed
qed

text \<open>Looking a name up through the index is searching the symbols in order.\<close>

lemma scan_Some_iff:
  assumes "named syms" shows "scan_symbols syms nm = Some i \<longleftrightarrow> i < length syms \<and> ls_name (syms ! i) = Some nm"
proof
  assume "scan_symbols syms nm = Some i"
  then show "i < length syms \<and> ls_name (syms ! i) = Some nm" by (auto simp: scan_symbols_def find_Some_iff)
next
  assume i: "i < length syms \<and> ls_name (syms ! i) = Some nm"
  have "ls_name (syms ! j) \<noteq> Some nm" if "j < i" for j
    using assms i that nth_eq_iff_index_eq [of "map ls_name syms" j i] by (auto simp: named_def)
  then show "scan_symbols syms nm = Some i" using i by (auto simp: scan_symbols_def find_Some_iff intro!: exI [of _ i])
qed

lemma scan_None_iff: "scan_symbols syms nm = None \<longleftrightarrow> (\<forall>i < length syms. ls_name (syms ! i) \<noteq> Some nm)"
  by (auto simp: scan_symbols_def find_None_iff)

lemma find_symbol_scan:
  assumes "sym_inv r" shows "link_resolution_find_symbol r (Some nm) = Inr (scan_symbols (rs_symbols r) nm)"
proof (cases "rs_symbol_buckets r = []")
  case True
  then show ?thesis by (simp add: link_resolution_find_symbol_def)
next
  case False
  let ?bs = "rs_symbol_buckets r" and ?n = "length (rs_symbol_buckets r)" and ?syms = "rs_symbols r"
  let ?ka = "bucket_key ?syms ?bs"
  have nmd: "named ?syms" and ix: "indexed ?syms (length ?syms) ?bs" and room: "length ?syms < ?n"
    using assms False by (simp_all add: sym_inv_def)
  have pl: "lp.placed mettle_fnv1a_hash ?ka ?n" using ix by (simp add: indexed_def)
  have stop: "(?bs ! b = 0 \<or> ls_name (?syms ! (?bs ! b - 1)) = Some nm) = (?ka b = None \<or> ?ka b = Some nm)" if "b < ?n" for b
    using bucket_key_None [OF nmd ix that] by (auto simp: bucket_key_def)
  have pr: "probe (\<lambda>b. ?bs ! b = 0 \<or> ls_name (?syms ! (?bs ! b - 1)) = Some nm) (next_slot ?n) ?n (name_home nm ?n) =
      probe (\<lambda>b. ?ka b = None \<or> ?ka b = Some nm) (next_slot ?n) ?n (name_home nm ?n)"
    by (rule probe_cong [where n = ?n])
      (use stop next_slot_less [OF indexed_size [OF ix]] lp.home_less [OF indexed_size [OF ix]] in auto)
  show ?thesis
  proof (cases "scan_symbols ?syms nm")
    case (Some i)
    then have i: "i < length ?syms" "ls_name (?syms ! i) = Some nm" using scan_Some_iff [OF nmd] by auto
    then obtain b where b: "b < ?n" "?bs ! b = i + 1" using ix by (auto simp: indexed_def)
    then have "?ka b = Some nm" using i by (simp add: bucket_key_def)
    then show ?thesis using lp.find_hit [OF pl b(1)] pr b False Some
      by (simp add: link_resolution_find_symbol_def Let_def)
  next
    case None
    have "\<forall>s < ?n. ?ka s \<noteq> Some nm"
    proof (intro allI impI notI)
      fix s assume s: "s < ?n" "?ka s = Some nm"
      then have z: "?bs ! s \<noteq> 0" by (metis bucket_key_def option.distinct(1))
      moreover have "?bs ! s \<le> length ?syms" using ix s(1) by (simp add: indexed_def)
      ultimately show False using s(2) None by (auto simp: bucket_key_def scan_None_iff)
    qed
    then obtain i where i: "i < ?n" "probe (\<lambda>b. ?ka b = None \<or> ?ka b = Some nm) (next_slot ?n) ?n (name_home nm ?n) =
        Inr (lp.walk mettle_fnv1a_hash nm ?n i)" "?ka (lp.walk mettle_fnv1a_hash nm ?n i) = None"
      using lp.find_miss [OF pl indexed_roomy [OF nmd ix room]] by blast
    moreover have "?bs ! lp.walk mettle_fnv1a_hash nm ?n i = 0"
      using i(3) bucket_key_None [OF nmd ix, of "lp.walk mettle_fnv1a_hash nm ?n i"]
        lp.walk_less [OF indexed_size [OF ix], of mettle_fnv1a_hash nm i] by simp
    ultimately show ?thesis using pr False None
      by (simp add: link_resolution_find_symbol_def Let_def)
  qed
qed

lemma find_mutable_eq: "link_resolution_find_symbol_mutable = link_resolution_find_symbol"
  by (intro ext) (simp add: link_resolution_find_symbol_mutable_def link_resolution_find_symbol_def)


section \<open>The table as a map\<close>

definition globals :: "LinkResolution \<Rightarrow> string \<Rightarrow> LinkedSymbol option" where
  "globals r nm = map_option (\<lambda>i. rs_symbols r ! i) (scan_symbols (rs_symbols r) nm)"

lemma globals_Some_iff:
  "named (rs_symbols r) \<Longrightarrow> globals r nm = Some g \<longleftrightarrow> g \<in> set (rs_symbols r) \<and> ls_name g = Some nm"
  by (auto simp: globals_def scan_Some_iff in_set_conv_nth)

lemma scan_append:
  assumes "named (syms @ [g])" "ls_name g = Some nm"
  shows "scan_symbols (syms @ [g]) k = (if k = nm then Some (length syms) else scan_symbols syms k)"
proof -
  have n: "named syms" using assms(1) by (auto simp: named_def)
  show ?thesis
  proof (cases "scan_symbols (syms @ [g]) k")
    case None
    then have a: "ls_name ((syms @ [g]) ! i) \<noteq> Some k" if "i < Suc (length syms)" for i
      using that by (simp add: scan_None_iff)
    have "k \<noteq> nm" using a [of "length syms"] assms(2) by auto
    moreover have "scan_symbols syms k = None"
      unfolding scan_None_iff using a by (metis less_SucI nth_append)
    ultimately show ?thesis using None by simp
  next
    case (Some i)
    then have i: "i < Suc (length syms)" "ls_name ((syms @ [g]) ! i) = Some k" using scan_Some_iff [OF assms(1)] by auto
    show ?thesis
    proof (cases "i = length syms")
      case True
      then show ?thesis using i assms(2) Some by simp
    next
      case False
      then have h: "i < length syms" "ls_name (syms ! i) = Some k" using i by (auto simp: nth_append)
      then have "Some k \<in> ls_name ` set syms" by (metis image_eqI nth_mem)
      then have "k \<noteq> nm" using assms by (auto simp: named_def)
      then show ?thesis using Some h scan_Some_iff [OF n, of k i] by simp
    qed
  qed
qed

lemma named_append: "named syms \<Longrightarrow> scan_symbols syms nm = None \<Longrightarrow> ls_name g = Some nm \<Longrightarrow> named (syms @ [g])"
  by (auto simp: named_def scan_None_iff in_set_conv_nth)

lemma named_update: "i < length syms \<Longrightarrow> ls_name g = ls_name (syms ! i) \<Longrightarrow> map ls_name (syms[i := g]) = map ls_name syms"
  by (metis list_update_id map_update)

lemma names_determine:
  assumes "map ls_name syms' = map ls_name syms"
  shows "scan_symbols syms' = scan_symbols syms" "named syms' = named syms" "indexed syms' m bs = indexed syms m bs"
proof -
  have len: "length syms' = length syms" using assms by (rule map_eq_imp_length_eq)
  have nth: "ls_name (syms' ! i) = ls_name (syms ! i)" if "i < length syms" for i
    using assms that len by (metis nth_map)
  have set: "ls_name ` set syms' = ls_name ` set syms" using assms by (metis set_map)
  show "scan_symbols syms' = scan_symbols syms"
    unfolding scan_symbols_def len by (intro ext find_cong) (simp_all add: nth)
  have "(\<forall>s\<in>set syms'. ls_name s \<noteq> None) = (\<forall>x\<in>ls_name ` set syms'. x \<noteq> None)"
    "(\<forall>s\<in>set syms. ls_name s \<noteq> None) = (\<forall>x\<in>ls_name ` set syms. x \<noteq> None)" by blast+
  then show "named syms' = named syms" using set assms by (simp only: named_def)
  show "indexed syms' m bs = indexed syms m bs"
  proof (cases "m \<le> length syms \<and> (\<forall>b < length bs. bs ! b \<le> m)")
    case True
    have k: "bucket_key syms' bs b = bucket_key syms bs b" if "b < length bs" for b
    proof (cases "bs ! b = 0")
      case False
      then have "bs ! b - 1 < length syms" using True that by (metis Suc_diff_1 Suc_le_lessD gr0I order_trans)
      then show ?thesis using nth by (simp add: bucket_key_def)
    qed (simp add: bucket_key_def)
    have "lp.placed mettle_fnv1a_hash (bucket_key syms' bs) (length bs) = lp.placed mettle_fnv1a_hash (bucket_key syms bs) (length bs)"
      using lp.placed_cong [where ka = "bucket_key syms' bs" and ka' = "bucket_key syms bs", OF k]
        lp.placed_cong [where ka = "bucket_key syms bs" and ka' = "bucket_key syms' bs", OF k [symmetric]] by blast
    then show ?thesis by (simp add: indexed_def len)
  next
    case False
    then show ?thesis by (auto simp: indexed_def len)
  qed
qed

lemma update_global:
  assumes inv: "sym_inv r" and i: "scan_symbols (rs_symbols r) nm = Some i" and g: "ls_name g = Some nm"
  shows "sym_inv (r\<lparr>rs_symbols := (rs_symbols r)[i := g]\<rparr>) \<and>
    globals (r\<lparr>rs_symbols := (rs_symbols r)[i := g]\<rparr>) = (globals r)(nm \<mapsto> g)"
proof -
  have n: "named (rs_symbols r)" using inv by (simp add: sym_inv_def)
  have l: "i < length (rs_symbols r)" "ls_name (rs_symbols r ! i) = Some nm" using i scan_Some_iff [OF n] by auto
  note e = names_determine [OF named_update [OF l(1), of g]]
  have s: "scan_symbols ((rs_symbols r)[i := g]) = scan_symbols (rs_symbols r)" using e(1) g l by simp
  have "sym_inv (r\<lparr>rs_symbols := (rs_symbols r)[i := g]\<rparr>)"
    using inv e(2,3) g l by (auto simp: sym_inv_def)
  moreover have "globals (r\<lparr>rs_symbols := (rs_symbols r)[i := g]\<rparr>) = (globals r)(nm \<mapsto> g)"
  proof (rule ext)
    fix k
    have "j \<noteq> i" if "scan_symbols (rs_symbols r) k = Some j" "k \<noteq> nm" for j
      using that l scan_Some_iff [OF n] by auto
    then show "globals (r\<lparr>rs_symbols := (rs_symbols r)[i := g]\<rparr>) k = ((globals r)(nm \<mapsto> g)) k"
      using i l by (cases "scan_symbols (rs_symbols r) k") (auto simp: globals_def s)
  qed
  ultimately show ?thesis ..
qed

lemma reserve_ok:
  "(link_resolution_reserve_symbols mem r m = Inl OutOfMemory \<and> mem \<noteq> plenty) \<or>
   (\<exists>cap. link_resolution_reserve_symbols mem r m = Inr (r\<lparr>rs_symbol_capacity := cap\<rparr>))"
proof (cases "rs_symbol_capacity r \<ge> m")
  case True
  then have "link_resolution_reserve_symbols mem r m = Inr (r\<lparr>rs_symbol_capacity := rs_symbol_capacity r\<rparr>)"
    by (simp add: link_resolution_reserve_symbols_def)
  then show ?thesis by blast
next
  case False
  then show ?thesis by (auto simp: link_resolution_reserve_symbols_def allocate_mem_def plenty_def)
qed

text \<open>Adding a symbol either runs out of memory or extends the map.\<close>

lemma add_global_ok:
  assumes inv: "sym_inv r" and new: "globals r nm = None" and small: "length (rs_symbols r) < 2 ^ 60"
  shows "(add_global mem r nm = Inl OutOfMemory \<and> mem \<noteq> plenty) \<or>
    (\<exists>r'. add_global mem r nm = Inr r' \<and> sym_inv r' \<and> globals r' = (globals r)(nm \<mapsto> fresh_global nm) \<and>
       rs_objects r' = rs_objects r \<and> rs_sections r' = rs_sections r \<and> rs_symbols r' = rs_symbols r @ [fresh_global nm])"
proof -
  let ?m = "length (rs_symbols r)" and ?g = "fresh_global nm"
  have n: "named (rs_symbols r)" and sn: "scan_symbols (rs_symbols r) nm = None"
    using inv new by (simp_all add: sym_inv_def globals_def)
  have g: "ls_name ?g = Some nm" by (simp add: fresh_global_def)
  note na = named_append [OF n sn g]
  consider (oom) "link_resolution_reserve_symbols mem r (?m + 1) = Inl OutOfMemory" "mem \<noteq> plenty"
    | (oom') cap where "link_resolution_reserve_symbols mem r (?m + 1) = Inr (r\<lparr>rs_symbol_capacity := cap\<rparr>)" "\<not> mem (CopyGlobalName ?m)"
    | (ok) cap where "link_resolution_reserve_symbols mem r (?m + 1) = Inr (r\<lparr>rs_symbol_capacity := cap\<rparr>)" "mem (CopyGlobalName ?m)"
    using reserve_ok by blast
  then show ?thesis
  proof cases
    case (ok cap)
    let ?r1 = "r\<lparr>rs_symbol_capacity := cap\<rparr>"
    have e: "add_global mem r nm = link_resolution_index_insert mem (?r1\<lparr>rs_symbols := rs_symbols ?r1 @ [?g]\<rparr>) (length (rs_symbols ?r1))"
      using ok by (simp add: add_global_def allocate_mem_def)
    have inv1: "sym_inv ?r1" using inv by (simp add: sym_inv_def)
    have gl: "globals (?r1\<lparr>rs_symbols := rs_symbols r @ [?g], rs_symbol_buckets := bs\<rparr>) k = ((globals r)(nm \<mapsto> ?g)) k" for bs k
      using scan_Some_iff [OF n, of k]
      by (cases "scan_symbols (rs_symbols r) k") (auto simp: globals_def scan_append [OF na g] nth_append)
    show ?thesis using index_insert_ok [OF inv1, of ?g mem] na small gl unfolding e by fastforce
  qed (auto simp: add_global_def allocate_mem_def plenty_def)
qed

lemma merge_global_name: "merge_global objs d os g = Inr g' \<Longrightarrow> ls_name g' = ls_name g"
  by (auto simp: merge_global_def Let_def take_definition_def split: if_splits option.splits)

text \<open>Recording an occurrence of a symbol acts on the map from names to symbols alone.\<close>

definition entry_of :: "LinkResolution \<Rightarrow> string \<Rightarrow> LinkedSymbol" where
  "entry_of r nm = (case globals r nm of Some g \<Rightarrow> g | None \<Rightarrow> fresh_global nm)"

lemma record_ok:
  assumes inv: "sym_inv r" and nm: "os_name os = Some nm" and small: "length (rs_symbols r) < 2 ^ 60"
  shows "(link_resolution_record_global_symbol mem r inp os = Inl OutOfMemory \<and> mem \<noteq> plenty) \<or>
    (case merge_global (rs_objects r) (in_is_runtime_default inp) os (entry_of r nm) of
       Inl e \<Rightarrow> link_resolution_record_global_symbol mem r inp os = Inl e
     | Inr g \<Rightarrow> \<exists>r'. link_resolution_record_global_symbol mem r inp os = Inr r' \<and> sym_inv r' \<and>
         globals r' = (globals r)(nm \<mapsto> g) \<and> rs_objects r' = rs_objects r \<and> rs_sections r' = rs_sections r \<and>
         length (rs_symbols r') \<le> Suc (length (rs_symbols r)))"
proof -
  have n: "named (rs_symbols r)" using inv by (simp add: sym_inv_def)
  have fs: "link_resolution_find_symbol_mutable r (Some nm) = Inr (scan_symbols (rs_symbols r) nm)"
    by (simp add: find_mutable_eq find_symbol_scan [OF inv])
  show ?thesis
  proof (cases "scan_symbols (rs_symbols r) nm")
    case (Some i)
    then have e: "entry_of r nm = rs_symbols r ! i" "ls_name (rs_symbols r ! i) = Some nm"
      using scan_Some_iff [OF n, of nm i] by (simp_all add: entry_of_def globals_def)
    have u: "sym_inv (r\<lparr>rs_symbols := (rs_symbols r)[i := g]\<rparr>) \<and> globals (r\<lparr>rs_symbols := (rs_symbols r)[i := g]\<rparr>) = (globals r)(nm \<mapsto> g)"
      if "merge_global (rs_objects r) (in_is_runtime_default inp) os (rs_symbols r ! i) = Inr g" for g
      by (rule update_global [OF inv Some]) (use merge_global_name [OF that] e in simp)
    show ?thesis
      by (cases "merge_global (rs_objects r) (in_is_runtime_default inp) os (rs_symbols r ! i)")
        (use u in \<open>simp_all add: link_resolution_record_global_symbol_def nm fs Some e(1)\<close>)
  next
    case None
    then have gn: "globals r nm = None" by (simp add: globals_def)
    then have e: "entry_of r nm = fresh_global nm" by (simp add: entry_of_def)
    consider (oom) "add_global mem r nm = Inl OutOfMemory" "mem \<noteq> plenty"
      | (ok) r1 where "add_global mem r nm = Inr r1" "sym_inv r1" "globals r1 = (globals r)(nm \<mapsto> fresh_global nm)"
        "rs_objects r1 = rs_objects r" "rs_sections r1 = rs_sections r" "rs_symbols r1 = rs_symbols r @ [fresh_global nm]"
      using add_global_ok [OF inv gn small, of mem] by blast
    then show ?thesis
    proof cases
      case oom
      then show ?thesis using nm fs None by (simp add: link_resolution_record_global_symbol_def)
    next
      case (ok r1)
      have s1: "scan_symbols (rs_symbols r1) nm = Some (length (rs_symbols r))"
        using ok(2,6) by (subst scan_Some_iff) (auto simp: sym_inv_def fresh_global_def)
      have u: "sym_inv (r1\<lparr>rs_symbols := (rs_symbols r1)[length (rs_symbols r) := g]\<rparr>) \<and>
          globals (r1\<lparr>rs_symbols := (rs_symbols r1)[length (rs_symbols r) := g]\<rparr>) = (globals r1)(nm \<mapsto> g)"
        if "merge_global (rs_objects r) (in_is_runtime_default inp) os (fresh_global nm) = Inr g" for g
        by (rule update_global [OF ok(2) s1]) (use merge_global_name [OF that] in \<open>simp add: fresh_global_def\<close>)
      show ?thesis
        by (cases "merge_global (rs_objects r) (in_is_runtime_default inp) os (fresh_global nm)")
          (use u in \<open>simp_all add: link_resolution_record_global_symbol_def nm fs None e ok\<close>)
    qed
  qed
qed

end
