(* ===== verification/LinkGlobals.thy ===== *)
theory LinkGlobals
  imports LinkSymbols
begin

text \<open>
  Symbol resolution over all input objects (\<open>link_resolution_build_symbols\<close> and
  \<open>link_resolution_validate_externals\<close> of \<open>linker/symbol_resolve.c\<close>) and what it decides: which definition a name
  ends up with.
\<close>

section \<open>The symbols of an object\<close>

text \<open>Where a symbol of an object goes, and whether it is a global one that has to be recorded.\<close>

definition blank_object_symbol :: "nat \<Rightarrow> nat \<Rightarrow> LinkSymbol \<Rightarrow> LinkedObjectSymbol" where
  "blank_object_symbol object_index symbol_index symbol =
    \<lparr>os_name = sy_name symbol, os_object_index = object_index, os_symbol_index = word_of_nat symbol_index,
     os_is_defined = False, os_is_external = False, os_is_local = False, os_is_auxiliary = sy_is_auxiliary symbol,
     os_section_index = sy_section_index symbol, os_merged_section_index = None, os_merged_offset = 0,
     os_virtual_address = 0, os_size = sy_size symbol, os_elf_type = sy_elf_type symbol, os_is_weak = sy_is_weak symbol\<rparr>"

definition symbol_is_global :: "LinkedInputObject \<Rightarrow> nat \<Rightarrow> LinkSymbol \<Rightarrow> LinkedObjectSymbol \<Rightarrow> bool" where
  "symbol_is_global inp symbol_index symbol resolved =
    (if sy_section_index symbol \<ge> 0 \<and>
        (case in_section_gc_dead inp of None \<Rightarrow> False | Some dead \<Rightarrow> dead ! nat (sy_section_index symbol)) then False
     else if sy_section_index symbol = LINK_SECTION_INDEX_UNDEFINED \<and>
        (case in_symbol_gc_referenced inp of None \<Rightarrow> False | Some seen \<Rightarrow> \<not> seen ! symbol_index) then False
     else os_is_external resolved \<and> os_name resolved \<noteq> None)"

definition resolve_symbol ::
  "link_memory \<Rightarrow> LinkedInputObject \<Rightarrow> nat \<Rightarrow> nat \<Rightarrow> nat \<Rightarrow> LinkSymbol \<Rightarrow> (LinkedObjectSymbol \<times> bool) outcome" where
  "resolve_symbol mem inp section_count object_index symbol_index symbol =
    (let resolved = blank_object_symbol object_index symbol_index symbol
     in andthen (allocate_mem (sy_name symbol = None \<or> mem (CopySymbolName object_index symbol_index))) (\<lambda>_.
        if sy_is_auxiliary symbol then Inr (resolved\<lparr>os_is_local := True\<rparr>, False)
        else let resolved = resolved\<lparr>os_is_external := sy_is_external symbol, os_is_local := \<not> sy_is_external symbol\<rparr>
             in if sy_section_index symbol \<ge> 0
                then let section_index = nat (sy_section_index symbol)
                     in andthen (need (section_index < section_count) ''Symbol refers to a section outside the section table'') (\<lambda>_.
                        let resolved =
                          (case in_section_merged_indices inp ! section_index of
                             None \<Rightarrow> resolved
                           | Some merged_index \<Rightarrow>
                               resolved\<lparr>os_is_defined := True, os_merged_section_index := Some merged_index,
                                        os_merged_offset := in_section_merged_offsets inp ! section_index + sy_value symbol\<rparr>)
                        in Inr (resolved, symbol_is_global inp symbol_index symbol resolved))
                else Inr (resolved, symbol_is_global inp symbol_index symbol resolved)))"

definition build_symbol ::
  "link_memory \<Rightarrow> nat \<Rightarrow> LinkObject \<Rightarrow> nat \<Rightarrow> LinkResolution \<Rightarrow> LinkResolution outcome" where
  "build_symbol mem object_index object symbol_index r =
    andthen (resolve_symbol mem (rs_objects r ! object_index) (length (ob_sections object)) object_index symbol_index
               (ob_symbols object ! symbol_index)) (\<lambda>(resolved, is_global).
    let inp = rs_objects r ! object_index;
        r = r\<lparr>rs_objects := (rs_objects r)[object_index := inp\<lparr>in_symbols := in_symbols inp @ [resolved]\<rparr>]\<rparr>
    in if is_global then link_resolution_record_global_symbol mem r inp resolved else Inr r)"

definition build_object :: "link_memory \<Rightarrow> nat \<Rightarrow> LinkResolution \<Rightarrow> LinkResolution outcome" where
  "build_object mem object_index r =
    (let inp = rs_objects r ! object_index;
         r = r\<lparr>rs_objects := (rs_objects r)[object_index := inp\<lparr>in_symbols := []\<rparr>]\<rparr>
     in case in_object inp of
          None \<Rightarrow> Inr r
        | Some object \<Rightarrow>
            andthen (allocate_mem (ob_symbols object = [] \<or> mem (MapSymbols object_index))) (\<lambda>_.
            fold_outcome (build_symbol mem object_index object) [0..<length (ob_symbols object)] r))"

definition link_resolution_build_symbols :: "link_memory \<Rightarrow> LinkResolution \<Rightarrow> LinkResolution outcome" where
  "link_resolution_build_symbols mem r = fold_outcome (build_object mem) [0..<length (rs_objects r)] r"

text \<open>The checks after resolution; the message for an unresolved symbol is built in \<open>linker/unresolved_hint.c\<close>.\<close>

definition link_resolution_validate_externals ::
  "LinkResolution \<Rightarrow> LinkResolutionOptions option \<Rightarrow> LinkResolution outcome" where
  "link_resolution_validate_externals r options =
    andthen (need ((case options of None \<Rightarrow> False | Some op \<Rightarrow> op_allow_unresolved_externals op) \<or>
               list_all (\<lambda>s. \<not> (ls_is_external s \<and> \<not> ls_is_defined s \<and> \<not> ls_is_shared_import s)) (rs_symbols r))
              ''Unresolved external symbol'') (\<lambda>_.
    case (case options of None \<Rightarrow> None | Some op \<Rightarrow> op_entry_symbol_name op) of
      None \<Rightarrow> Inr r
    | Some entry_name \<Rightarrow>
        if entry_name = '''' then Inr r
        else andthen (link_resolution_find_symbol r (Some entry_name)) (\<lambda>entry.
             andthen (need (case entry of None \<Rightarrow> False | Some i \<Rightarrow> ls_is_defined (rs_symbols r ! i))
                       ''Entry point symbol was not resolved'') (\<lambda>_.
             Inr (r\<lparr>rs_entry_symbol := entry\<rparr>))))"

section \<open>Which definition wins\<close>

lemma merge_global_cong:
  "map in_is_runtime_default objs = map in_is_runtime_default objs' \<Longrightarrow> merge_global objs = merge_global objs'"
proof (intro ext)
  fix d os g assume m: "map in_is_runtime_default objs = map in_is_runtime_default objs'"
  then have "length objs = length objs'" by (rule map_eq_imp_length_eq)
  moreover have "in_is_runtime_default (objs ! h) = in_is_runtime_default (objs' ! h)" if "h < length objs" for h
    using m that by (metis \<open>length objs = length objs'\<close> nth_map)
  ultimately show "merge_global objs d os g = merge_global objs' d os g"
    by (auto simp: merge_global_def Let_def split: option.split)
qed

definition from_default :: "LinkedInputObject list \<Rightarrow> LinkedObjectSymbol \<Rightarrow> bool" where
  "from_default objs os = in_is_runtime_default (objs ! os_object_index os)"

definition defined_by :: "LinkedObjectSymbol \<Rightarrow> LinkedSymbol \<Rightarrow> bool" where
  "defined_by w g \<longleftrightarrow> ls_is_defined g \<and> ls_defining_object_index g = Some (os_object_index w) \<and>
     ls_defining_symbol_index g = os_symbol_index w \<and> ls_merged_section_index g = os_merged_section_index w \<and>
     ls_merged_offset g = os_merged_offset w"

text \<open>The rule: a definition of the program wins over one of the default runtime, two definitions of the program are an
  error, and a name without definition stays undefined.\<close>

definition resolution_rule :: "LinkedInputObject list \<Rightarrow> LinkedObjectSymbol list \<Rightarrow> LinkedSymbol \<Rightarrow> bool" where
  "resolution_rule objs occs g \<longleftrightarrow>
    (let defs = filter os_is_defined occs; own = filter (\<lambda>os. os_is_defined os \<and> \<not> from_default objs os) occs
     in (case own of
           [] \<Rightarrow> (case defs of [] \<Rightarrow> \<not> ls_is_defined g | [w] \<Rightarrow> defined_by w g | _ \<Rightarrow> False)
         | [w] \<Rightarrow> defined_by w g
         | _ \<Rightarrow> False))"

lemma resolution_step:
  assumes rule: "resolution_rule objs occs g" and ok: "merge_global objs (from_default objs os) os g = Inr g'"
    and idx: "\<forall>w\<in>set occs. os_object_index w < length objs" "os_object_index os < length objs"
  shows "resolution_rule objs (occs @ [os]) g'"
proof (cases "os_is_defined os")
  case False
  then have "g' = g\<lparr>ls_is_external := True, ls_is_weak := os_is_weak os\<rparr>" using ok by (simp add: merge_global_def)
  then show ?thesis using rule False
    by (auto simp: resolution_rule_def Let_def defined_by_def split: list.splits)
next
  case True
  let ?defs = "filter os_is_defined occs" and ?own = "filter (\<lambda>os. os_is_defined os \<and> \<not> from_default objs os) occs"
  have td: "defined_by os (take_definition os x)" for x by (simp add: defined_by_def take_definition_def)
  have keep: "defined_by w (g\<lparr>ls_is_external := True\<rparr>) = defined_by w g" for w by (simp add: defined_by_def)
  consider (none) "?defs = []" | (dflt) w where "?own = []" "?defs = [w]" | (own) w where "?own = [w]"
    using rule unfolding resolution_rule_def Let_def by (auto split: list.splits)
  then show ?thesis
  proof cases
    case none
    then have ne: "?own = []" by (metis (no_types, lifting) filter_empty_conv)
    have "\<not> ls_is_defined g" using rule none ne by (simp add: resolution_rule_def)
    then have "g' = take_definition os (g\<lparr>ls_is_external := True\<rparr>)" using ok True by (simp add: merge_global_def)
    then show ?thesis using none ne True td by (simp add: resolution_rule_def Let_def)
  next
    case (dflt w)
    have "w \<in> set ?defs" unfolding dflt(2) by simp
    then have wo: "w \<in> set occs" "from_default objs w" using dflt(1) by (auto simp: filter_empty_conv)
    have w: "defined_by w g" using rule dflt by (simp add: resolution_rule_def)
    note wo(1)
    then have "\<not> from_default objs os \<and> g' = take_definition os (g\<lparr>ls_is_external := True\<rparr>)"
      using ok True w wo idx by (auto simp: merge_global_def Let_def defined_by_def from_default_def split: if_splits)
    then show ?thesis using dflt True td by (simp add: resolution_rule_def Let_def)
  next
    case (own w)
    then have w: "defined_by w g" using rule by (auto simp: resolution_rule_def Let_def)
    have "w \<in> set ?own" using own by simp
    then have w2: "w \<in> set occs" "\<not> from_default objs w" by auto
    then have "from_default objs os \<and> g' = g\<lparr>ls_is_external := True\<rparr>"
      using ok True w idx by (auto simp: merge_global_def Let_def defined_by_def from_default_def split: if_splits)
    then show ?thesis using own True w keep by (simp add: resolution_rule_def Let_def)
  qed
qed

section \<open>Resolution over all objects\<close>

text \<open>The global symbols of an object, among those handled so far, and all occurrences of a name in link order.\<close>

definition counts_as_global :: "LinkedInputObject \<Rightarrow> LinkObject \<Rightarrow> nat \<times> LinkedObjectSymbol \<Rightarrow> bool" where
  "counts_as_global inp ob = (\<lambda>(i, os). \<not> sy_is_auxiliary (ob_symbols ob ! i) \<and> symbol_is_global inp i (ob_symbols ob ! i) os)"

definition global_symbols :: "LinkedInputObject \<Rightarrow> LinkedObjectSymbol list" where
  "global_symbols inp = (case in_object inp of None \<Rightarrow> []
     | Some ob \<Rightarrow> map snd (filter (counts_as_global inp ob) (enumerate 0 (in_symbols inp))))"

definition all_globals :: "LinkResolution \<Rightarrow> LinkedObjectSymbol list" where
  "all_globals r = concat (map global_symbols (rs_objects r))"

definition occurrences :: "LinkResolution \<Rightarrow> string \<Rightarrow> LinkedObjectSymbol list" where
  "occurrences r nm = filter (\<lambda>os. os_name os = Some nm) (all_globals r)"

definition symbol_total :: "LinkedInputObject \<Rightarrow> nat" where
  "symbol_total inp = (case in_object inp of None \<Rightarrow> 0 | Some ob \<Rightarrow> length (ob_symbols ob))"

lemma global_symbols_blank: "in_symbols inp = [] \<Longrightarrow> global_symbols inp = []"
  by (simp add: global_symbols_def split: option.split)

lemma global_symbols_append:
  assumes "in_object inp = Some ob"
  shows "global_symbols (inp\<lparr>in_symbols := xs @ [os]\<rparr>) = global_symbols (inp\<lparr>in_symbols := xs\<rparr>) @
    (if counts_as_global inp ob (length xs, os) then [os] else [])"
proof -
  have "counts_as_global (inp\<lparr>in_symbols := ys\<rparr>) ob = counts_as_global inp ob" for ys
    by (simp add: counts_as_global_def symbol_is_global_def)
  then show ?thesis using assms by (simp add: global_symbols_def enumerate_append_eq)
qed

lemma global_symbols_length: "length (global_symbols inp) \<le> length (in_symbols inp)"
  using length_filter_le [of _ "enumerate 0 (in_symbols inp)"] by (auto simp: global_symbols_def split: option.split)

lemma concat_map_update:
  assumes "i < length xs" "\<And>j. i < j \<Longrightarrow> j < length xs \<Longrightarrow> f (xs ! j) = []"
  shows "concat (map f (xs[i := y])) = concat (map f (take i xs)) @ f y"
proof -
  have "f z = []" if z: "z \<in> set (drop (Suc i) xs)" for z
  proof -
    obtain k where k: "k < length (drop (Suc i) xs)" "z = drop (Suc i) xs ! k" using z by (metis in_set_conv_nth)
    then have "z = xs ! (Suc i + k)" "Suc i + k < length xs" by (simp_all add: nth_drop)
    then show ?thesis using assms(2) [of "Suc i + k"] by simp
  qed
  then have "concat (map f (drop (Suc i) xs)) = []" by simp
  then show ?thesis using assms(1) by (simp add: upd_conv_take_nth_drop)
qed

text \<open>What holds after any number of symbols: the table obeys the rule for the occurrences seen so far.\<close>

definition same_static :: "LinkedInputObject \<Rightarrow> LinkedInputObject \<Rightarrow> bool" where
  "same_static x y \<longleftrightarrow> x\<lparr>in_symbols := []\<rparr> = y\<lparr>in_symbols := []\<rparr>"

definition resolved :: "LinkedInputObject list \<Rightarrow> LinkResolution \<Rightarrow> bool" where
  "resolved objs r \<longleftrightarrow> sym_inv r \<and> list_all2 same_static (rs_objects r) objs \<and>
     (\<forall>inp\<in>set (rs_objects r). length (in_symbols inp) \<le> symbol_total inp) \<and>
     length (rs_symbols r) \<le> length (all_globals r) \<and>
     (\<forall>w\<in>set (all_globals r). os_object_index w < length objs) \<and>
     (\<forall>nm. resolution_rule objs (occurrences r nm) (entry_of r nm) \<and>
           (globals r nm = None \<longleftrightarrow> occurrences r nm = []))"

lemma same_static_facts:
  assumes "same_static x y"
  shows "in_object x = in_object y" "in_is_runtime_default x = in_is_runtime_default y" "symbol_total x = symbol_total y"
proof -
  have "f (x\<lparr>in_symbols := []\<rparr>) = f (y\<lparr>in_symbols := []\<rparr>)" for f :: "LinkedInputObject \<Rightarrow> 'a"
    using assms by (simp add: same_static_def)
  from this [of in_object] this [of in_is_runtime_default]
  show "in_object x = in_object y" "in_is_runtime_default x = in_is_runtime_default y" by simp_all
  then show "symbol_total x = symbol_total y" by (simp add: symbol_total_def)
qed

lemma globals_bound:
  assumes "list_all2 same_static xs objs" "\<forall>inp\<in>set xs. length (in_symbols inp) \<le> symbol_total inp"
  shows "length (concat (map global_symbols xs)) \<le> sum_list (map symbol_total objs)"
  using assms
proof (induction rule: list_all2_induct)
  case (Cons x xs y ys)
  have "length (global_symbols x) \<le> symbol_total y"
    using global_symbols_length [of x] Cons.prems same_static_facts(3) [OF Cons.hyps(1)] by fastforce
  then show ?case using Cons by simp
qed simp

lemma resolve_symbol_index:
  "resolve_symbol mem inp n oi si y = Inr (os, g) \<Longrightarrow> os_object_index os = oi \<and>
     g = (\<not> sy_is_auxiliary y \<and> symbol_is_global inp si y os) \<and> (g \<longrightarrow> os_name os \<noteq> None)"
  by (auto simp: resolve_symbol_def Let_def andthen_Inr_iff blank_object_symbol_def symbol_is_global_def
      split: if_splits option.splits)


lemma static_defaults:
  "list_all2 same_static xs objs \<Longrightarrow> map in_is_runtime_default xs = map in_is_runtime_default objs"
  by (induction rule: list_all2_induct) (auto dest: same_static_facts)

text \<open>Storing one more symbol of object \<open>oi\<close>, the last one with symbols.\<close>

lemma store_symbol:
  assumes res: "resolved objs r" and oi: "oi < length (rs_objects r)" and last: "\<forall>j. oi < j \<longrightarrow> j < length (rs_objects r) \<longrightarrow> in_symbols (rs_objects r ! j) = []"
    and ob: "in_object (rs_objects r ! oi) = Some ob" and si: "length (in_symbols (rs_objects r ! oi)) < length (ob_symbols ob)"
    and r1: "r1 = r\<lparr>rs_objects := (rs_objects r)[oi := (rs_objects r ! oi)\<lparr>in_symbols := in_symbols (rs_objects r ! oi) @ [os]\<rparr>]\<rparr>"
  shows "all_globals r1 = all_globals r @ (if counts_as_global (rs_objects r ! oi) ob (length (in_symbols (rs_objects r ! oi)), os) then [os] else [])"
    and "list_all2 same_static (rs_objects r1) objs" and "\<forall>inp\<in>set (rs_objects r1). length (in_symbols inp) \<le> symbol_total inp"
    and "sym_inv r1" "globals r1 = globals r" "rs_symbols r1 = rs_symbols r"
proof -
  let ?inp = "rs_objects r ! oi"
  have lastg: "global_symbols (rs_objects r ! j) = []" if "oi < j" "j < length (rs_objects r)" for j
    using last that by (intro global_symbols_blank) simp
  have "all_globals r = concat (map global_symbols ((rs_objects r)[oi := ?inp]))" by (simp add: all_globals_def)
  also have "\<dots> = concat (map global_symbols (take oi (rs_objects r))) @ global_symbols ?inp"
    by (rule concat_map_update [where f = global_symbols, OF oi lastg])
  finally have g0: "all_globals r = concat (map global_symbols (take oi (rs_objects r))) @ global_symbols ?inp" .
  have "all_globals r1 = concat (map global_symbols (take oi (rs_objects r))) @ global_symbols (?inp\<lparr>in_symbols := in_symbols ?inp @ [os]\<rparr>)"
    unfolding all_globals_def r1 LinkResolution.select_convs LinkResolution.update_convs
    by (simp add: concat_map_update [where f = global_symbols, OF oi lastg])
  then show "all_globals r1 = all_globals r @ (if counts_as_global ?inp ob (length (in_symbols ?inp), os) then [os] else [])"
    using g0 global_symbols_append [OF ob, of "in_symbols ?inp" os] by simp
  have l2: "list_all2 same_static (rs_objects r) objs" using res by (simp add: resolved_def)
  then have "same_static ?inp (objs ! oi)" using oi by (simp add: list_all2_nthD)
  then have "same_static (?inp\<lparr>in_symbols := in_symbols ?inp @ [os]\<rparr>) (objs ! oi)" by (simp add: same_static_def)
  then show "list_all2 same_static (rs_objects r1) objs"
    using list_all2_update_cong [OF l2, of "?inp\<lparr>in_symbols := in_symbols ?inp @ [os]\<rparr>" "objs ! oi" oi] by (simp add: r1)
  show "\<forall>inp\<in>set (rs_objects r1). length (in_symbols inp) \<le> symbol_total inp"
    using res si ob unfolding r1 by (auto simp: resolved_def symbol_total_def dest!: set_update_subset_insert [THEN subsetD])
  show "sym_inv r1" "globals r1 = globals r" "rs_symbols r1 = rs_symbols r"
    using res by (simp_all add: resolved_def sym_inv_def r1 globals_def [abs_def])
qed

lemma build_symbol_ok:
  assumes res: "resolved objs r" and oi: "oi < length (rs_objects r)" and last: "\<forall>j. oi < j \<longrightarrow> j < length (rs_objects r) \<longrightarrow> in_symbols (rs_objects r ! j) = []"
    and ob: "in_object (rs_objects r ! oi) = Some ob" and si: "length (in_symbols (rs_objects r ! oi)) = si" "si < length (ob_symbols ob)"
    and small: "sum_list (map symbol_total objs) < 2 ^ 60" and ok: "build_symbol mem oi ob si r = Inr r'"
  shows "resolved objs r' \<and> (\<exists>os. rs_objects r' = (rs_objects r)[oi := (rs_objects r ! oi)\<lparr>in_symbols := in_symbols (rs_objects r ! oi) @ [os]\<rparr>])"
proof -
  let ?inp = "rs_objects r ! oi" and ?y = "ob_symbols ob ! si"
  obtain os g where rs: "resolve_symbol mem ?inp (length (ob_sections ob)) oi si ?y = Inr (os, g)"
    using ok unfolding build_symbol_def by (auto simp: andthen_Inr_iff)
  let ?r1 = "r\<lparr>rs_objects := (rs_objects r)[oi := ?inp\<lparr>in_symbols := in_symbols ?inp @ [os]\<rparr>]\<rparr>"
  note st = store_symbol [OF res oi last ob, of ?r1 os, unfolded si(1), OF si(2) refl]
  note ix = resolve_symbol_index [OF rs]
  have cg: "counts_as_global ?inp ob (si, os) = g" using ix by (simp add: counts_as_global_def)
  have n: "length objs = length (rs_objects r)" using res by (auto simp: resolved_def dest: list_all2_lengthD)
  have r': "(if g then link_resolution_record_global_symbol mem ?r1 ?inp os else Inr ?r1) = Inr r'"
    using ok rs by (simp add: build_symbol_def Let_def)
  have idx: "\<forall>w\<in>set (all_globals r). os_object_index w < length objs" "os_object_index os < length objs"
    using res oi n ix by (simp_all add: resolved_def)
  show ?thesis
  proof (cases g)
    case False
    then have "all_globals ?r1 = all_globals r" "occurrences ?r1 = occurrences r" "entry_of ?r1 = entry_of r"
      using st(1) cg st(5) by (simp_all add: occurrences_def [abs_def] entry_of_def [abs_def])
    then show ?thesis using False r' st(2-6) res by (auto simp: resolved_def)
  next
    case True
    then obtain nm where nm: "os_name os = Some nm" using ix by auto
    have ag: "all_globals ?r1 = all_globals r @ [os]" using st(1) cg True by simp
    have "length (rs_symbols ?r1) \<le> length (all_globals r)" using res by (simp add: resolved_def)
    also have "\<dots> \<le> sum_list (map symbol_total objs)"
      unfolding all_globals_def using res by (intro globals_bound) (simp_all add: resolved_def)
    finally have sm: "length (rs_symbols ?r1) < 2 ^ 60" using small by simp
    have mg: "merge_global (rs_objects ?r1) (in_is_runtime_default ?inp) os x = merge_global objs (from_default objs os) os x" for x
    proof -
      have "in_is_runtime_default ?inp = from_default objs os"
        using res oi ix same_static_facts(2) [of ?inp "objs ! oi"] by (simp add: resolved_def list_all2_nthD from_default_def)
      then show ?thesis using merge_global_cong [OF static_defaults [OF st(2)]] by simp
    qed
    have rec: "link_resolution_record_global_symbol mem ?r1 ?inp os = Inr r'" using r' True by simp
    obtain s where s: "merge_global objs (from_default objs os) os (entry_of r nm) = Inr s" "sym_inv r'"
      "globals r' = (globals r)(nm \<mapsto> s)" "rs_objects r' = rs_objects ?r1" "length (rs_symbols r') \<le> Suc (length (rs_symbols r))"
      using record_ok [OF st(4) nm sm, of mem ?inp] rec st(5,6) mg
      by (auto simp: entry_of_def split: sum.splits)
    have ag': "all_globals r' = all_globals r @ [os]" using ag s(4) by (simp add: all_globals_def)
    have rule: "resolution_rule objs (occurrences r' k) (entry_of r' k) \<and> (globals r' k = None \<longleftrightarrow> occurrences r' k = [])" for k
    proof (cases "k = nm")
      case True
      have "resolution_rule objs (occurrences r nm @ [os]) s"
        by (rule resolution_step [OF _ s(1)]) (use res idx in \<open>auto simp: resolved_def occurrences_def\<close>)
      then show ?thesis using True s(3) nm ag' by (simp add: occurrences_def entry_of_def)
    next
      case False
      then show ?thesis using res s(3) nm ag' by (simp add: resolved_def occurrences_def entry_of_def)
    qed
    have "length (rs_symbols r') \<le> length (all_globals r')" using res s(5) ag' by (simp add: resolved_def)
    then have "resolved objs r'" unfolding resolved_def
      using s(2) st(2,3) s(4) rule idx ag' by simp
    then show ?thesis using s(4) by auto
  qed
qed


text \<open>The whole of an object, then all objects. \<open>pending\<close>: the objects from \<open>k\<close> on have no symbols yet.\<close>

definition pending :: "nat \<Rightarrow> LinkResolution \<Rightarrow> bool" where
  "pending k r \<longleftrightarrow> (\<forall>j. k \<le> j \<longrightarrow> j < length (rs_objects r) \<longrightarrow> in_symbols (rs_objects r ! j) = [])"

lemma build_symbols_of_object:
  assumes "resolved objs r" and "oi < length (rs_objects r)" and "pending (Suc oi) r"
    and "in_object (rs_objects r ! oi) = Some ob" and "length (in_symbols (rs_objects r ! oi)) = si" "si + k \<le> length (ob_symbols ob)"
    and small: "sum_list (map symbol_total objs) < 2 ^ 60" and "fold_outcome (build_symbol mem oi ob) [si..<si + k] r = Inr r'"
  shows "resolved objs r' \<and> pending (Suc oi) r' \<and> length (rs_objects r') = length (rs_objects r) \<and>
    length (in_symbols (rs_objects r' ! oi)) = si + k"
  using assms(1-6,8)
proof (induction k arbitrary: r si)
  case (Suc k)
  obtain r1 where r1: "build_symbol mem oi ob si r = Inr r1" "fold_outcome (build_symbol mem oi ob) [Suc si..<Suc si + k] r1 = Inr r'"
    using Suc.prems(7) by (auto simp: upt_conv_Cons andthen_Inr_iff simp del: upt_Suc)
  have last: "\<forall>j. oi < j \<longrightarrow> j < length (rs_objects r) \<longrightarrow> in_symbols (rs_objects r ! j) = []"
    using Suc.prems(3) by (simp add: pending_def Suc_le_eq)
  obtain os where o1: "resolved objs r1"
    "rs_objects r1 = (rs_objects r)[oi := (rs_objects r ! oi)\<lparr>in_symbols := in_symbols (rs_objects r ! oi) @ [os]\<rparr>]"
    using build_symbol_ok [OF Suc.prems(1,2) last Suc.prems(4,5) _ small r1(1)] Suc.prems(6) by auto
  have "pending (Suc oi) r1" using Suc.prems(3) o1(2) by (simp add: pending_def)
  then show ?case using Suc.IH [OF o1(1), of "Suc si"] o1(2) Suc.prems r1(2) by simp
qed simp

lemma build_object_ok:
  assumes res: "resolved objs r" and oi: "oi < length (rs_objects r)" and pend: "pending oi r"
    and small: "sum_list (map symbol_total objs) < 2 ^ 60" and ok: "build_object mem oi r = Inr r'"
  shows "resolved objs r' \<and> pending (Suc oi) r' \<and> length (rs_objects r') = length (rs_objects r) \<and>
    length (in_symbols (rs_objects r' ! oi)) = symbol_total (objs ! oi)"
proof -
  let ?inp = "rs_objects r ! oi"
  have "in_symbols ?inp = []" using pend oi by (simp add: pending_def)
  then have "?inp\<lparr>in_symbols := []\<rparr> = ?inp" by (cases ?inp) simp
  then have id: "r\<lparr>rs_objects := (rs_objects r)[oi := ?inp\<lparr>in_symbols := []\<rparr>]\<rparr> = r" by simp
  have p': "pending (Suc oi) r" using pend by (simp add: pending_def)
  have t: "symbol_total (objs ! oi) = symbol_total ?inp"
    using res oi same_static_facts(3) [of ?inp "objs ! oi"] by (simp add: resolved_def list_all2_nthD)
  show ?thesis
  proof (cases "in_object ?inp")
    case None
    then show ?thesis using ok id res p' t \<open>in_symbols ?inp = []\<close> by (simp add: build_object_def Let_def symbol_total_def)
  next
    case (Some ob)
    then have "fold_outcome (build_symbol mem oi ob) [0..<0 + length (ob_symbols ob)] r = Inr r'"
      using ok unfolding build_object_def Let_def id by (simp add: andthen_Inr_iff)
    then show ?thesis
      using build_symbols_of_object [OF res oi p' Some, of 0 "length (ob_symbols ob)"] small t Some \<open>in_symbols ?inp = []\<close>
      by (simp add: symbol_total_def)
  qed
qed

lemma build_objects_ok:
  assumes "resolved objs r" "pending oi r" "oi + k = length (rs_objects r)" "sum_list (map symbol_total objs) < 2 ^ 60"
    "fold_outcome (build_object mem) [oi..<oi + k] r = Inr r'"
  shows "resolved objs r'"
  using assms
proof (induction k arbitrary: r oi)
  case (Suc k)
  obtain r1 where r1: "build_object mem oi r = Inr r1" "fold_outcome (build_object mem) [Suc oi..<Suc oi + k] r1 = Inr r'"
    using Suc.prems(5) by (auto simp: upt_conv_Cons andthen_Inr_iff simp del: upt_Suc)
  have o1: "resolved objs r1" "pending (Suc oi) r1" "length (rs_objects r1) = length (rs_objects r)"
    using build_object_ok [OF Suc.prems(1) _ Suc.prems(2,4) r1(1)] Suc.prems(3) by simp_all
  show ?case by (rule Suc.IH [OF o1(1,2) _ Suc.prems(4) r1(2)]) (use o1(3) Suc.prems(3) in simp)
qed simp

text \<open>The state before resolution.\<close>

definition unresolved_state :: "LinkResolution \<Rightarrow> bool" where
  "unresolved_state r \<longleftrightarrow> rs_symbols r = [] \<and> rs_symbol_buckets r = [] \<and> (\<forall>inp\<in>set (rs_objects r). in_symbols inp = [])"

lemma resolved_start:
  assumes "unresolved_state r" shows "resolved (rs_objects r) r \<and> pending 0 r"
proof -
  have ag: "all_globals r = []"
    using assms by (auto simp: all_globals_def unresolved_state_def global_symbols_blank)
  have g: "globals r nm = None" for nm using assms by (simp add: globals_def unresolved_state_def scan_symbols_def)
  have "list_all2 same_static (rs_objects r) (rs_objects r)" by (rule list_all2_refl) (simp add: same_static_def)
  moreover have "sym_inv r" using assms by (simp add: sym_inv_def unresolved_state_def named_def)
  moreover have "resolution_rule (rs_objects r) [] (entry_of r nm)" for nm
    by (simp add: resolution_rule_def entry_of_def g fresh_global_def)
  ultimately show ?thesis
    using assms ag g by (simp add: resolved_def pending_def unresolved_state_def occurrences_def)
qed

section \<open>Properties\<close>

text \<open>In every state the linker reaches while it resolves symbols, the lookup through the hash index of the symbol
  table returns what a search of the symbols in order returns; in particular it ends, also for names that are not there,
  and a recorded occurrence changes the entry of its own name only.\<close>

theorem symbol_index_is_scan:
  assumes "sym_inv r" and "length (rs_symbols r) < 2 ^ 60" and "os_name os = Some nm"
    and "link_resolution_record_global_symbol mem r inp os = Inr r'"
  shows "link_resolution_find_symbol r (Some k) = Inr (scan_symbols (rs_symbols r) k) \<and>
    sym_inv r' \<and> link_resolution_find_symbol r' (Some k) = Inr (scan_symbols (rs_symbols r') k) \<and>
    (k \<noteq> nm \<longrightarrow> globals r' k = globals r k) \<and> globals r' nm \<noteq> None"
proof -
  have "sym_inv r' \<and> (\<exists>g. globals r' = (globals r)(nm \<mapsto> g))"
    using record_ok [OF assms(1,3,2), of mem inp] assms(4) by (auto split: sum.splits)
  then show ?thesis using find_symbol_scan [OF assms(1)] find_symbol_scan [of r'] by auto
qed

text \<open>A state with one definition recorded.\<close>

definition sample_symbol :: "nat \<Rightarrow> LinkedObjectSymbol" where
  "sample_symbol oi = \<lparr>os_name = Some ''main'', os_object_index = oi, os_symbol_index = 3, os_is_defined = True,
     os_is_external = True, os_is_local = False, os_is_auxiliary = False, os_section_index = 0,
     os_merged_section_index = Some 0, os_merged_offset = 16, os_virtual_address = 0, os_size = 0, os_elf_type = 0,
     os_is_weak = False\<rparr>"

definition sample_input :: "bool \<Rightarrow> LinkedInputObject" where
  "sample_input dflt = \<lparr>in_path = None, in_object = None, in_section_merged_indices = [], in_section_merged_offsets = [],
     in_section_merged_sizes = [], in_section_alignments = [], in_symbols = [], in_is_runtime_default = dflt,
     in_section_gc_dead = None, in_symbol_gc_referenced = None\<rparr>"

lemma sample_record:
  "\<exists>r'. link_resolution_record_global_symbol plenty (blank_resolution [sample_input False]) (sample_input False) (sample_symbol 0) = Inr r'"
proof -
  let ?r = "blank_resolution [sample_input False]"
  have i: "sym_inv ?r" by (simp add: blank_resolution_def sym_inv_def named_def)
  have e: "entry_of ?r ''main'' = fresh_global ''main''"
    by (simp add: entry_of_def globals_def scan_symbols_def blank_resolution_def)
  have m: "merge_global (rs_objects ?r) False (sample_symbol 0) (fresh_global ''main'') =
      Inr (take_definition (sample_symbol 0) ((fresh_global ''main'')\<lparr>ls_is_external := True\<rparr>))"
    by (simp add: merge_global_def fresh_global_def sample_symbol_def)
  have n: "os_name (sample_symbol 0) = Some ''main''" "in_is_runtime_default (sample_input False) = False"
    "length (rs_symbols ?r) < 2 ^ 60" by (simp_all add: sample_symbol_def sample_input_def blank_resolution_def)
  show ?thesis using record_ok [OF i n(1,3), of plenty "sample_input False"] by (auto simp: e n(2) m)
qed

theorem symbol_index_is_scan_witness:
  "\<exists>r'. link_resolution_record_global_symbol plenty (blank_resolution [sample_input False]) (sample_input False) (sample_symbol 0) = Inr r' \<and>
     link_resolution_find_symbol r' (Some ''main'') = Inr (scan_symbols (rs_symbols r') ''main'') \<and> globals r' ''main'' \<noteq> None"
proof -
  obtain r' where r: "link_resolution_record_global_symbol plenty (blank_resolution [sample_input False]) (sample_input False) (sample_symbol 0) = Inr r'"
    using sample_record by blast
  have i: "sym_inv (blank_resolution [sample_input False])" by (simp add: blank_resolution_def sym_inv_def named_def)
  show ?thesis using symbol_index_is_scan [OF i _ _ r, of "''main''"] r
    by (simp add: blank_resolution_def sample_symbol_def)
qed

lemma build_symbols_resolved:
  assumes "unresolved_state r" and "sum_list (map symbol_total (rs_objects r)) < 2 ^ 60"
    and "link_resolution_build_symbols mem r = Inr r'"
  shows "resolved (rs_objects r) r'"
  by (rule build_objects_ok [of "rs_objects r" r 0 "length (rs_objects r)" mem])
    (use resolved_start [OF assms(1)] assms(2,3) in \<open>simp_all add: link_resolution_build_symbols_def\<close>)



text \<open>The default runtime and the program both define \<open>main\<close>; the definition of the program is taken.\<close>

definition sample_object :: LinkObject where
  "sample_object = \<lparr>ob_format = LINK_FORMAT_ELF, ob_sections = [\<lparr>sc_name = Some ''.text'', sc_kind = LINK_SECTION_KIND_TEXT,
       sc_virtual_size = 0, sc_size_of_raw_data = 0, sc_alignment = 16, sc_raw_data = None, sc_relocations = [], sc_is_metadata = False\<rparr>],
     ob_symbols = [\<lparr>sy_name = Some ''main'', sy_value = 8, sy_section_index = 0, sy_is_external = True, sy_is_defined = True,
       sy_is_auxiliary = False, sy_is_weak = False, sy_is_common = False, sy_aux_section_length = 0, sy_size = 0, sy_elf_type = 2\<rparr>]\<rparr>"

definition sample_linked :: "bool \<Rightarrow> u64 \<Rightarrow> LinkedInputObject" where
  "sample_linked dflt offset = (sample_input dflt)\<lparr>in_object := Some sample_object, in_section_merged_indices := [Some 0],
     in_section_merged_offsets := [offset]\<rparr>"

definition sample_link :: LinkResolution where
  "sample_link = blank_resolution [sample_linked True 0, sample_linked False 32]"

lemma sample_link_builds:
  "(case link_resolution_build_symbols plenty sample_link of Inl _ \<Rightarrow> False
    | Inr r \<Rightarrow> map ls_defining_object_index (rs_symbols r) = [Some 1] \<and> map ls_merged_offset (rs_symbols r) = [40])"
  by code_simp


end
