(* ===== verification/LinkGc.thy ===== *)
theory LinkGc
  imports LinkGlobals
begin

text \<open>
  Garbage collection of sections (\<open>link_resolution_gc_sections\<close> of \<open>linker/symbol_resolve.c\<close>): the table of external
  definitions, the marking of the sections that are reached from the roots through relocations, and the flags the later
  stages read. The array of the worklist has room for as many items as there are sections; writing behind it is
  \<open>Fault\<close>. The optional report on standard error is not modelled.
\<close>

section \<open>Sections that may be collected\<close>

definition link_section_is_granular :: "string option \<Rightarrow> bool" where
  "link_section_is_granular name =
    (case name of None \<Rightarrow> False
     | Some n \<Rightarrow> CHR ''$'' \<in> set n \<or> (take 1 n = ''.'' \<and> CHR ''.'' \<in> set (drop 1 n)))"

definition link_section_is_gc_eligible :: "LinkSection \<Rightarrow> bool" where
  "link_section_is_gc_eligible section \<longleftrightarrow>
    link_section_is_granular (sc_name section) \<and>
    sc_kind section \<in> {LINK_SECTION_KIND_TEXT, LINK_SECTION_KIND_RDATA, LINK_SECTION_KIND_DATA, LINK_SECTION_KIND_BSS}"

section \<open>The table of definitions\<close>

record GcDefinition =
  gd_name :: string
  gd_object_index :: nat
  gd_section_index :: nat
  gd_is_runtime_default :: bool

type_synonym gc_table = "GcDefinition option list"

fun gc_hash_loop :: "u64 \<Rightarrow> string \<Rightarrow> u64" where
  "gc_hash_loop h [] = h"
| "gc_hash_loop h (c # name) = gc_hash_loop ((h XOR of_char c) * 1099511628211) name"

definition gc_hash_name :: "string \<Rightarrow> u64" where
  "gc_hash_name name = gc_hash_loop 1469598103934665603 name"

definition gc_slot :: "gc_table \<Rightarrow> string \<Rightarrow> nat outcome" where
  "gc_slot table name =
    probe (\<lambda>b. table ! b = None \<or> map_option gd_name (table ! b) = Some name) (next_slot (length table)) (length table)
      (slot_of (gc_hash_name name) (length table))"

definition gc_find_definition :: "gc_table \<Rightarrow> string \<Rightarrow> GcDefinition option outcome" where
  "gc_find_definition table name = andthen (gc_slot table name) (\<lambda>b. Inr (table ! b))"

definition gc_insert_definition :: "GcDefinition \<Rightarrow> gc_table \<Rightarrow> gc_table outcome" where
  "gc_insert_definition d table =
    andthen (gc_slot table (gd_name d)) (\<lambda>b.
    case table ! b of
      None \<Rightarrow> Inr (table[b := Some d])
    | Some old \<Rightarrow>
        if gd_is_runtime_default old = gd_is_runtime_default d then Inl (Refused ''Duplicate external symbol'')
        else if gd_is_runtime_default old \<and> \<not> gd_is_runtime_default d then Inr (table[b := Some d])
        else Inr table)"

section \<open>Marking\<close>

type_synonym GcWorkItem = "nat \<times> nat"

record GcState =
  gc_live :: "bool list list"
  gc_worklist :: "GcWorkItem list"
  gc_referenced :: "bool list list"

definition gc_mark :: "nat \<Rightarrow> GcWorkItem \<Rightarrow> GcState \<Rightarrow> GcState outcome" where
  "gc_mark room item st =
    (case item of (object_index, section_index) \<Rightarrow>
     if \<not> (object_index < length (gc_live st) \<and> section_index < length (gc_live st ! object_index)) then Inl Fault
     else if gc_live st ! object_index ! section_index then Inr st
     else if room \<le> length (gc_worklist st) then Inl Fault
     else Inr (st\<lparr>gc_live := (gc_live st)[object_index := (gc_live st ! object_index)[section_index := True]],
                  gc_worklist := gc_worklist st @ [item]\<rparr>))"

text \<open>The definition an external symbol of an object gives, if it counts as one.\<close>

definition gc_symbol_definition :: "nat \<Rightarrow> bool \<Rightarrow> LinkObject \<Rightarrow> LinkSymbol \<Rightarrow> GcDefinition option" where
  "gc_symbol_definition object_index is_default object symbol =
    (case sy_name symbol of
       None \<Rightarrow> None
     | Some name \<Rightarrow>
         if sy_is_auxiliary symbol \<or> \<not> sy_is_external symbol \<or> sy_section_index symbol < 0 \<or>
            length (ob_sections object) \<le> nat (sy_section_index symbol) then None
         else Some \<lparr>gd_name = name, gd_object_index = object_index, gd_section_index = nat (sy_section_index symbol),
                    gd_is_runtime_default = is_default\<rparr>)"

definition gc_collect_symbol :: "nat \<Rightarrow> bool \<Rightarrow> LinkObject \<Rightarrow> LinkSymbol \<Rightarrow> gc_table \<Rightarrow> gc_table outcome" where
  "gc_collect_symbol object_index is_default object symbol table =
    (case gc_symbol_definition object_index is_default object symbol of
       None \<Rightarrow> Inr table | Some d \<Rightarrow> gc_insert_definition d table)"

definition gc_collect_object :: "link_memory \<Rightarrow> LinkedInputObject list \<Rightarrow> nat \<Rightarrow> gc_table \<Rightarrow> gc_table outcome" where
  "gc_collect_object mem objs object_index table =
    (case in_object (objs ! object_index) of
       None \<Rightarrow> Inr table
     | Some object \<Rightarrow>
         andthen (allocate_mem (mem (GcObject object_index))) (\<lambda>_.
         fold_outcome (gc_collect_symbol object_index (in_is_runtime_default (objs ! object_index)) object) (ob_symbols object) table))"

text \<open>The arrays of flags of an object, all clear; an object without contents has none.\<close>

definition section_flags :: "LinkedInputObject \<Rightarrow> bool list" where
  "section_flags inp = (case in_object inp of None \<Rightarrow> [] | Some object \<Rightarrow> replicate (length (ob_sections object)) False)"

definition symbol_flags :: "LinkedInputObject \<Rightarrow> bool list" where
  "symbol_flags inp = (case in_object inp of None \<Rightarrow> [] | Some object \<Rightarrow> replicate (length (ob_symbols object)) False)"

definition object_sections :: "LinkedInputObject \<Rightarrow> LinkSection list" where
  "object_sections inp = (case in_object inp of None \<Rightarrow> [] | Some object \<Rightarrow> ob_sections object)"

definition gc_mark_root :: "nat \<Rightarrow> LinkedInputObject list \<Rightarrow> GcWorkItem \<Rightarrow> GcState \<Rightarrow> GcState outcome" where
  "gc_mark_root room objs item st =
    (case item of (oi, i) \<Rightarrow>
     let section = object_sections (objs ! oi) ! i
     in if sc_kind section = LINK_SECTION_KIND_UNKNOWN then Inr st
        else if \<not> link_section_is_gc_eligible section then gc_mark room item st
        else Inr st)"

text \<open>All sections, in the order of the two nested loops.\<close>

definition all_items :: "LinkedInputObject list \<Rightarrow> GcWorkItem list" where
  "all_items objs = concat (map (\<lambda>oi. map (Pair oi) [0..<length (object_sections (objs ! oi))]) [0..<length objs])"

definition gc_mark_entry :: "nat \<Rightarrow> LinkResolutionOptions option \<Rightarrow> gc_table \<Rightarrow> GcState \<Rightarrow> GcState outcome" where
  "gc_mark_entry room options table st =
    (case (case options of None \<Rightarrow> None | Some op \<Rightarrow> op_entry_symbol_name op) of
       None \<Rightarrow> Inr st
     | Some name \<Rightarrow>
         if name = '''' then Inr st
         else andthen (gc_find_definition table name) (\<lambda>found.
              case found of None \<Rightarrow> Inr st | Some entry \<Rightarrow> gc_mark room (gd_object_index entry, gd_section_index entry) st))"

definition gc_scan_reloc :: "nat \<Rightarrow> gc_table \<Rightarrow> nat \<Rightarrow> LinkObject \<Rightarrow> LinkReloc \<Rightarrow> GcState \<Rightarrow> GcState outcome" where
  "gc_scan_reloc room table oi object reloc st =
    (let k = unat (rl_symbol_index reloc)
     in if length (ob_symbols object) \<le> k then Inr st
        else let st = st\<lparr>gc_referenced := (gc_referenced st)[oi := (gc_referenced st ! oi)[k := True]]\<rparr>;
                 symbol = ob_symbols object ! k
             in if sy_is_auxiliary symbol then Inr st
                else if 0 \<le> sy_section_index symbol \<and> nat (sy_section_index symbol) < length (ob_sections object)
                     then gc_mark room (oi, nat (sy_section_index symbol)) st
                else if sy_section_index symbol = LINK_SECTION_INDEX_UNDEFINED
                     then case sy_name symbol of
                            None \<Rightarrow> Inr st
                          | Some name \<Rightarrow>
                              andthen (gc_find_definition table name) (\<lambda>found.
                              case found of None \<Rightarrow> Inr st
                              | Some d \<Rightarrow> gc_mark room (gd_object_index d, gd_section_index d) st)
                else Inr st)"

text \<open>The loop over the worklist, with fuel: no section enters it twice.\<close>

fun gc_trace :: "nat \<Rightarrow> nat \<Rightarrow> LinkedInputObject list \<Rightarrow> gc_table \<Rightarrow> nat \<Rightarrow> GcState \<Rightarrow> GcState outcome" where
  "gc_trace 0 room objs table processed st = Inl Diverge"
| "gc_trace (Suc fuel) room objs table processed st =
    (if processed < length (gc_worklist st)
     then case gc_worklist st ! processed of
            (oi, si) \<Rightarrow>
              (case in_object (objs ! oi) of
                 None \<Rightarrow> Inl Fault
               | Some object \<Rightarrow>
                   andthen (fold_outcome (gc_scan_reloc room table oi object) (sc_relocations (ob_sections object ! si)) st) (\<lambda>st.
                   gc_trace fuel room objs table (processed + 1) st))
     else Inr st)"

section \<open>The whole pass\<close>

definition gc_sweep_object :: "link_memory \<Rightarrow> GcState \<Rightarrow> nat \<Rightarrow> LinkedInputObject \<Rightarrow> LinkedInputObject outcome" where
  "gc_sweep_object mem st object_index inp =
    (case in_object inp of
       None \<Rightarrow> Inr inp
     | Some object \<Rightarrow>
         andthen (allocate_mem (mem (GcDead object_index))) (\<lambda>_.
         Inr (inp\<lparr>in_section_gc_dead := Some (map (\<lambda>i. \<not> gc_live st ! object_index ! i \<and> link_section_is_gc_eligible (ob_sections object ! i))
                                           [0..<length (ob_sections object)]),
                  in_symbol_gc_referenced := Some (gc_referenced st ! object_index)\<rparr>)))"

definition link_resolution_gc_sections ::
  "link_memory \<Rightarrow> LinkResolutionOptions option \<Rightarrow> LinkResolution \<Rightarrow> LinkResolution outcome" where
  "link_resolution_gc_sections mem options r =
    (let objs = rs_objects r;
         total_sections = sum_list (map (\<lambda>inp. length (object_sections inp)) objs);
         definition_count = sum_list (map symbol_total objs)
     in if total_sections = 0 then Inr r
        else andthen (allocate_mem (mem GcTables)) (\<lambda>_.
             andthen (fold_outcome (gc_collect_object mem objs) [0..<length objs]
                        (replicate (double_until 64 (definition_count * 2)) None)) (\<lambda>table.
             andthen (fold_outcome (gc_mark_root total_sections objs) (all_items objs)
                        \<lparr>gc_live = map section_flags objs, gc_worklist = [], gc_referenced = map symbol_flags objs\<rparr>) (\<lambda>st.
             andthen (gc_mark_entry total_sections options table st) (\<lambda>st.
             andthen (gc_trace (total_sections + 1) total_sections objs table 0 st) (\<lambda>st.
             andthen (map_outcome (gc_sweep_object mem st) 0 objs) (\<lambda>objs.
             Inr (r\<lparr>rs_objects := objs\<rparr>))))))))"

end
