(* ===== verification/LinkMerge.thy ===== *)
theory LinkMerge
  imports LinkGlobals
begin

text \<open>
  Merging the sections of the input objects and laying the merged sections out (\<open>linker/symbol_resolve.c\<close>):
  alignment, size estimate, growth of the buffer, the copy of the raw bytes, and the assignment of virtual addresses.

  The bytes of a buffer that a reallocation adds are unknown: they are the parameter \<open>junk\<close>, indexed by position.
\<close>

section \<open>Alignment and size of an input section\<close>

definition link_alignment_from_characteristics :: "u32 \<Rightarrow> u64" where
  "link_alignment_from_characteristics characteristics =
    (let field = characteristics AND 0x00F00000
     in if field = 0x00100000 then 1 else if field = 0x00200000 then 2 else if field = 0x00300000 then 4
        else if field = 0x00400000 then 8 else if field = 0x00500000 then 16 else if field = 0x00600000 then 32
        else if field = 0x00700000 then 64 else if field = 0x00800000 then 128 else if field = 0x00900000 then 256
        else if field = 0x00A00000 then 512 else if field = 0x00B00000 then 1024 else if field = 0x00C00000 then 2048
        else if field = 0x00D00000 then 4096 else if field = 0x00E00000 then 8192 else 0)"

definition link_default_section_alignment :: "LinkSectionKind \<Rightarrow> u64 \<Rightarrow> u64" where
  "link_default_section_alignment kind fallback_alignment =
    (if fallback_alignment > 1 then fallback_alignment
     else if kind \<in> {LINK_SECTION_KIND_TEXT, LINK_SECTION_KIND_RDATA, LINK_SECTION_KIND_DATA, LINK_SECTION_KIND_BSS,
                      LINK_SECTION_KIND_PDATA, LINK_SECTION_KIND_XDATA} then 16 else 1)"

definition link_section_alignment :: "LinkSection \<Rightarrow> u64 \<Rightarrow> u64" where
  "link_section_alignment section fallback_alignment =
    (if sc_alignment section > 1 then sc_alignment section
     else link_default_section_alignment (sc_kind section) fallback_alignment)"

text \<open>The length recorded in the auxiliary record of the section symbol, if there is one.\<close>

fun section_symbol_length :: "LinkSection \<Rightarrow> nat \<Rightarrow> LinkSymbol list \<Rightarrow> u64 option outcome" where
  "section_symbol_length section i [] = Inr None"
| "section_symbol_length section i (y # ys) =
    (if sy_is_auxiliary y \<or> sy_aux_section_length y = 0 \<or> sy_name y = None then section_symbol_length section i ys
     else if sy_is_external y \<or> sy_section_index y \<noteq> int i then section_symbol_length section i ys
     else if sc_name section = None then Inl Fault
     else if sy_name y \<noteq> sc_name section then section_symbol_length section i ys
     else Inr (Some (sy_aux_section_length y)))"

definition bss_end :: "nat \<Rightarrow> LinkSymbol \<Rightarrow> u64 \<times> bool \<Rightarrow> u64 \<times> bool" where
  "bss_end i y = (\<lambda>(size, saw).
    if sy_is_auxiliary y \<or> sy_section_index y \<noteq> int i then (size, saw)
    else (let end = sy_value y + 1 in (if end > size then end else size, True)))"

definition link_estimate_section_size :: "LinkObject \<Rightarrow> nat \<Rightarrow> u64 outcome" where
  "link_estimate_section_size object i =
    (if length (ob_sections object) \<le> i then Inr 0
     else let section = ob_sections object ! i
          in andthen (section_symbol_length section i (ob_symbols object)) (\<lambda>found.
             case found of
               Some n \<Rightarrow> Inr n
             | None \<Rightarrow>
                 let size = (if sc_virtual_size section > sc_size_of_raw_data section then sc_virtual_size section
                             else sc_size_of_raw_data section)
                 in if sc_kind section \<noteq> LINK_SECTION_KIND_BSS then Inr size
                    else case fold (bss_end i) (ob_symbols object) (size, False) of
                           (size, saw) \<Rightarrow> Inr (if size = 0 \<and> saw then 1 else size)))"

section \<open>Growth\<close>

text \<open>Doubling a nonzero 64-bit capacity more than 64 times gives zero for ever.\<close>

fun grow_capacity :: "nat \<Rightarrow> u64 \<Rightarrow> u64 \<Rightarrow> u64 outcome" where
  "grow_capacity 0 capacity minimum = Inl Diverge"
| "grow_capacity (Suc fuel) capacity minimum =
    (if capacity < minimum then grow_capacity fuel (capacity * 2) minimum else Inr capacity)"

definition link_section_reserve_data ::
  "bool \<Rightarrow> (nat \<Rightarrow> u8) \<Rightarrow> LinkedSection \<Rightarrow> u64 \<Rightarrow> LinkedSection outcome" where
  "link_section_reserve_data ok junk section minimum_size =
    (let capacity = word_of_nat (length (lk_data section)) :: u64
     in if minimum_size \<le> capacity then Inr section
        else andthen (grow_capacity 66 (if capacity \<noteq> 0 then capacity else 64) minimum_size) (\<lambda>new_capacity.
             andthen (allocate_mem ok) (\<lambda>_.
             Inr (section\<lparr>lk_data := lk_data section @ map junk [length (lk_data section)..<unat new_capacity]\<rparr>))))"

definition link_section_reserve_contributions :: "bool \<Rightarrow> LinkedSection \<Rightarrow> nat \<Rightarrow> LinkedSection outcome" where
  "link_section_reserve_contributions ok section minimum_count =
    (if lk_contribution_capacity section \<ge> minimum_count then Inr section
     else andthen (allocate_mem ok) (\<lambda>_.
          Inr (section\<lparr>lk_contribution_capacity :=
                 double_until (if lk_contribution_capacity section \<noteq> 0 then lk_contribution_capacity section else 4) minimum_count\<rparr>)))"

section \<open>Merging\<close>

text \<open>The copy of the raw bytes at \<open>start\<close>, with zeros over the alignment gap before them.\<close>

definition copy_raw :: "bool \<Rightarrow> (nat \<Rightarrow> u8) \<Rightarrow> u64 \<Rightarrow> LinkSection \<Rightarrow> LinkedSection \<Rightarrow> LinkedSection outcome" where
  "copy_raw ok junk start section merged =
    andthen (link_section_reserve_data ok junk merged (start + sc_size_of_raw_data section)) (\<lambda>merged.
    andthen (if start > lk_size merged
             then poke (lk_data merged) (unat (lk_size merged)) (replicate (unat (start - lk_size merged)) 0)
             else Inr (lk_data merged)) (\<lambda>d.
    andthen (case sc_raw_data section of
               None \<Rightarrow> Inl Fault
             | Some raw \<Rightarrow>
                 if length raw < unat (sc_size_of_raw_data section) then Inl Fault
                 else poke d (unat start) (take (unat (sc_size_of_raw_data section)) raw)) (\<lambda>d.
    let size = start + sc_size_of_raw_data section
    in Inr (merged\<lparr>lk_data := d, lk_size := size,
            lk_virtual_size := (if lk_virtual_size merged < size then size else lk_virtual_size merged)\<rparr>))))"

definition has_raw :: "LinkSection \<Rightarrow> bool" where
  "has_raw section \<longleftrightarrow> sc_kind section \<noteq> LINK_SECTION_KIND_BSS \<and> sc_size_of_raw_data section \<noteq> 0"

text \<open>The body of the loop for a section that is kept: the merged section after it, and the offset and size recorded.\<close>

definition place_section ::
  "link_memory \<Rightarrow> (nat \<Rightarrow> u8) \<Rightarrow> u64 \<Rightarrow> LinkObject \<Rightarrow> nat \<Rightarrow> nat \<Rightarrow> LinkedSection \<Rightarrow> (LinkedSection \<times> u64 \<times> u64) outcome" where
  "place_section mem junk fallback object oi i merged0 =
    (let section = ob_sections object ! i;
         alignment = link_section_alignment section fallback;
         merged = (if alignment > lk_alignment merged0 then merged0\<lparr>lk_alignment := alignment\<rparr> else merged0)
     in andthen (link_estimate_section_size object i) (\<lambda>contribution_size.
        let start = linker_align_up (lk_virtual_size merged) alignment
        in andthen (link_section_reserve_contributions (mem (GrowContributions oi i)) merged (length (lk_contributions merged) + 1)) (\<lambda>merged.
           andthen (if has_raw section then copy_raw (mem (GrowSection oi i)) junk start section merged
                    else Inr (if lk_virtual_size merged < start + contribution_size
                              then merged\<lparr>lk_virtual_size := start + contribution_size\<rparr> else merged)) (\<lambda>merged.
           Inr (merged\<lparr>lk_contributions := lk_contributions merged @
                  [\<lparr>ct_object_index = oi, ct_section_index = i, ct_merged_offset = start, ct_size = contribution_size,
                    ct_alignment = alignment\<rparr>]\<rparr>, start, contribution_size)))))"

definition record_placement :: "nat option \<Rightarrow> u64 \<Rightarrow> u64 \<Rightarrow> u64 \<Rightarrow> LinkedInputObject \<Rightarrow> LinkedInputObject" where
  "record_placement idx off sz align inp =
    inp\<lparr>in_section_merged_indices := in_section_merged_indices inp @ [idx],
        in_section_merged_offsets := in_section_merged_offsets inp @ [off],
        in_section_merged_sizes := in_section_merged_sizes inp @ [sz],
        in_section_alignments := in_section_alignments inp @ [align]\<rparr>"

definition section_kept :: "LinkedInputObject \<Rightarrow> nat \<Rightarrow> bool" where
  "section_kept inp i = (case in_section_gc_dead inp of None \<Rightarrow> True | Some dead \<Rightarrow> \<not> dead ! i)"

definition merge_section ::
  "link_memory \<Rightarrow> (nat \<Rightarrow> u8) \<Rightarrow> u64 \<Rightarrow> nat \<Rightarrow> LinkObject \<Rightarrow> nat \<Rightarrow> LinkResolution \<Rightarrow> LinkResolution outcome" where
  "merge_section mem junk fallback oi object i r =
    (let inp = rs_objects r ! oi;
         skip = Inr (r\<lparr>rs_objects := (rs_objects r)[oi := record_placement None 0 0 0 inp]\<rparr>)
     in case link_section_index_from_kind (sc_kind (ob_sections object ! i)) of
          None \<Rightarrow> skip
        | Some m \<Rightarrow>
            if \<not> section_kept inp i then skip
            else andthen (place_section mem junk fallback object oi i (rs_sections r ! m)) (\<lambda>(merged, start, size).
                 Inr (r\<lparr>rs_sections := (rs_sections r)[m := merged],
                        rs_objects := (rs_objects r)[oi := record_placement (Some m) start size
                          (link_section_alignment (ob_sections object ! i) fallback) inp]\<rparr>)))"

definition merge_object :: "link_memory \<Rightarrow> (nat \<Rightarrow> u8) \<Rightarrow> u64 \<Rightarrow> nat \<Rightarrow> LinkResolution \<Rightarrow> LinkResolution outcome" where
  "merge_object mem junk fallback oi r =
    (let inp = rs_objects r ! oi;
         r = r\<lparr>rs_objects := (rs_objects r)[oi := inp\<lparr>in_section_merged_indices := [], in_section_merged_offsets := [],
               in_section_merged_sizes := [], in_section_alignments := []\<rparr>]\<rparr>
     in case in_object inp of
          None \<Rightarrow> Inr r
        | Some object \<Rightarrow>
            andthen (allocate_mem (ob_sections object = [] \<or> mem (MapSections oi))) (\<lambda>_.
            fold_outcome (merge_section mem junk fallback oi object) [0..<length (ob_sections object)] r))"

definition link_resolution_merge_sections ::
  "link_memory \<Rightarrow> (nat \<Rightarrow> u8) \<Rightarrow> u64 \<Rightarrow> LinkResolution \<Rightarrow> LinkResolution outcome" where
  "link_resolution_merge_sections mem junk fallback r = fold_outcome (merge_object mem junk fallback) [0..<length (rs_objects r)] r"

section \<open>Addresses\<close>

fun assign_section_addresses :: "u64 \<Rightarrow> u64 \<Rightarrow> LinkedSection list \<Rightarrow> LinkedSection list" where
  "assign_section_addresses alignment current [] = []"
| "assign_section_addresses alignment current (s # ss) =
    (if lk_virtual_size s = 0 then s # assign_section_addresses alignment current ss
     else let a = linker_align_up current alignment
          in s\<lparr>lk_virtual_address := a\<rparr> # assign_section_addresses alignment (a + lk_virtual_size s) ss)"

definition address_object_symbol :: "LinkedSection list \<Rightarrow> LinkedObjectSymbol \<Rightarrow> LinkedObjectSymbol" where
  "address_object_symbol sections os =
    (case os_merged_section_index os of
       None \<Rightarrow> os
     | Some m \<Rightarrow> if os_is_defined os then os\<lparr>os_virtual_address := lk_virtual_address (sections ! m) + os_merged_offset os\<rparr> else os)"

definition address_global :: "LinkedSection list \<Rightarrow> LinkedSymbol \<Rightarrow> LinkedSymbol" where
  "address_global sections g =
    (case ls_merged_section_index g of
       None \<Rightarrow> g
     | Some m \<Rightarrow> if ls_is_defined g then g\<lparr>ls_virtual_address := lk_virtual_address (sections ! m) + ls_merged_offset g\<rparr> else g)"

definition link_resolution_assign_virtual_addresses :: "u64 \<Rightarrow> LinkResolution \<Rightarrow> LinkResolution" where
  "link_resolution_assign_virtual_addresses alignment r =
    (let sections = assign_section_addresses alignment 0 (rs_sections r)
     in r\<lparr>rs_sections := sections,
          rs_objects := map (\<lambda>inp. inp\<lparr>in_symbols := map (address_object_symbol sections) (in_symbols inp)\<rparr>) (rs_objects r),
          rs_symbols := map (address_global sections) (rs_symbols r)\<rparr>)"

end
