(* ===== verification/LinkBuild.thy ===== *)
theory LinkBuild
  imports LinkGc LinkMerge ElfShared
begin

text \<open>
  The whole resolution (\<open>link_resolution_build\<close> of \<open>linker/symbol_resolve.c\<close>): the objects are read, sections that nothing
  reaches are collected, the rest is merged, symbols are resolved, what is left undefined is bound to shared libraries,
  addresses are assigned and the externals checked. The files of the system are the parameter \<open>files\<close>; the readers get
  their own allocation outcomes for every file.
\<close>

record build_memory =
  bm_link :: link_memory
  bm_reader :: "nat \<Rightarrow> memory"
  bm_object :: "nat \<Rightarrow> memory"
  bm_library :: "nat \<Rightarrow> shared_memory"

section \<open>Loading the objects\<close>

definition blank_input :: LinkedInputObject where
  "blank_input = \<lparr>in_path = None, in_object = None, in_section_merged_indices = [], in_section_merged_offsets = [],
     in_section_merged_sizes = [], in_section_alignments = [], in_symbols = [], in_is_runtime_default = False,
     in_section_gc_dead = None, in_symbol_gc_referenced = None\<rparr>"

definition load_object :: "build_memory \<Rightarrow> (string \<Rightarrow> bytes option) \<Rightarrow> nat \<Rightarrow> string \<Rightarrow> LinkedInputObject outcome" where
  "load_object mem files i path =
    andthen (allocate_mem (bm_link mem (ObjectPath i))) (\<lambda>_.
    case files path of
      None \<Rightarrow> Inl (Refused ''Failed to read the file'')
    | Some d \<Rightarrow>
        andthen (link_object_read (bm_reader mem i) (bm_object mem i) d) (\<lambda>ob.
        Inr (blank_input\<lparr>in_path := Some path, in_object := Some ob\<rparr>)))"

definition link_resolution_load_objects ::
  "build_memory \<Rightarrow> (string \<Rightarrow> bytes option) \<Rightarrow> string list \<Rightarrow> LinkResolution \<Rightarrow> LinkResolution outcome" where
  "link_resolution_load_objects mem files object_paths r =
    andthen (allocate_mem (bm_link mem LoadObjects \<or> object_paths = [])) (\<lambda>_.
    andthen (map_outcome (load_object mem files) 0 object_paths) (\<lambda>objs.
    Inr (r\<lparr>rs_objects := objs\<rparr>)))"

text \<open>The flags of the options, one for every object.\<close>

definition mark_runtime_defaults :: "LinkResolutionOptions option \<Rightarrow> LinkResolution \<Rightarrow> LinkResolution outcome" where
  "mark_runtime_defaults options r =
    (case (case options of None \<Rightarrow> None | Some op \<Rightarrow> op_object_is_runtime_default op) of
       None \<Rightarrow> Inr r
     | Some flags \<Rightarrow>
         if length flags < length (rs_objects r) then Inl Fault
         else Inr (r\<lparr>rs_objects := map2 (\<lambda>inp flag. inp\<lparr>in_is_runtime_default := flag\<rparr>) (rs_objects r) flags\<rparr>))"

section \<open>Shared libraries\<close>

definition link_resolution_reserve_shared_imports :: "link_memory \<Rightarrow> nat \<Rightarrow> LinkResolution \<Rightarrow> LinkResolution outcome" where
  "link_resolution_reserve_shared_imports mem minimum_count r =
    (if rs_shared_import_capacity r \<ge> minimum_count then Inr r
     else andthen (allocate_mem (mem (GrowImports (length (rs_shared_imports r))))) (\<lambda>_.
          Inr (r\<lparr>rs_shared_import_capacity :=
                 double_until (if rs_shared_import_capacity r \<noteq> 0 then rs_shared_import_capacity r else 16) minimum_count\<rparr>)))"

definition shared_import :: "nat option \<Rightarrow> nat \<Rightarrow> ElfSharedSymbol option \<Rightarrow> LinkedSymbol \<Rightarrow> LinkedSharedImport" where
  "shared_import library_index symbol_index def g =
    (case def of
       None \<Rightarrow> \<lparr>si_library_index = library_index, si_symbol_index = symbol_index, si_version = None, si_size = 0, si_alignment = 0,
                si_type = 0, si_is_weak = ls_is_weak g\<rparr>
     | Some s \<Rightarrow> \<lparr>si_library_index = library_index, si_symbol_index = symbol_index, si_version = ss_version s, si_size = ss_size s,
                  si_alignment = ss_alignment s, si_type = ss_type s, si_is_weak = ss_is_weak s\<rparr>)"

definition link_resolution_add_shared_import ::
  "link_memory \<Rightarrow> nat \<Rightarrow> nat option \<Rightarrow> ElfSharedSymbol option \<Rightarrow> LinkResolution \<Rightarrow> LinkResolution outcome" where
  "link_resolution_add_shared_import mem symbol_index library_index def r =
    andthen (link_resolution_reserve_shared_imports mem (length (rs_shared_imports r) + 1) r) (\<lambda>r.
    let k = length (rs_shared_imports r); g = rs_symbols r ! symbol_index
    in andthen (allocate_mem ((case def of None \<Rightarrow> True | Some s \<Rightarrow> ss_version s = None) \<or> mem (CopyVersion k))) (\<lambda>_.
       Inr (r\<lparr>rs_shared_imports := rs_shared_imports r @ [shared_import library_index symbol_index def g],
              rs_symbols := (rs_symbols r)[symbol_index := g\<lparr>ls_is_shared_import := True, ls_shared_import_index := k\<rparr>],
              rs_shared_library_used := (case library_index of None \<Rightarrow> rs_shared_library_used r
                                         | Some l \<Rightarrow> (rs_shared_library_used r)[l := True])\<rparr>)))"

text \<open>The first library that has the name, with its position.\<close>

definition find_in_libraries :: "ElfSharedLibrary list \<Rightarrow> string \<Rightarrow> (nat \<times> ElfSharedSymbol) option outcome" where
  "find_in_libraries libs name =
    first_outcome (\<lambda>l. andthen (elf_shared_library_find (libs ! l) name) (\<lambda>found. Inr (map_option (Pair l) found))) [0..<length libs]"

definition bind_symbol :: "link_memory \<Rightarrow> bool \<Rightarrow> nat \<Rightarrow> LinkResolution \<Rightarrow> LinkResolution outcome" where
  "bind_symbol mem produce_shared i r =
    (let g = rs_symbols r ! i
     in case ls_name g of
          None \<Rightarrow> Inr r
        | Some name \<Rightarrow>
            if ls_is_defined g \<or> \<not> ls_is_external g then Inr r
            else andthen (find_in_libraries (rs_shared_libraries r) name) (\<lambda>found.
                 if found = None \<and> \<not> produce_shared then Inr r
                 else link_resolution_add_shared_import mem i (map_option fst found) (map_option snd found) r))"

definition load_libraries ::
  "build_memory \<Rightarrow> (string \<Rightarrow> bytes option) \<Rightarrow> string list \<Rightarrow> LinkResolution \<Rightarrow> LinkResolution outcome" where
  "load_libraries mem files paths r =
    (if paths = [] then Inr r
     else andthen (allocate_mem (bm_link mem LoadLibraries)) (\<lambda>_.
          andthen (map_outcome (\<lambda>i path. elf_shared_library_read 2 (bm_library mem i) files path) 0 paths) (\<lambda>libs.
          Inr (r\<lparr>rs_shared_libraries := libs, rs_shared_library_used := replicate (length paths) False\<rparr>))))"

definition link_resolution_bind_shared_libraries ::
  "build_memory \<Rightarrow> (string \<Rightarrow> bytes option) \<Rightarrow> LinkResolutionOptions option \<Rightarrow> LinkResolution \<Rightarrow> LinkResolution outcome" where
  "link_resolution_bind_shared_libraries mem files options r =
    (let paths = (case options of None \<Rightarrow> [] | Some op \<Rightarrow> op_shared_library_paths op);
         produce_shared = (case options of None \<Rightarrow> False | Some op \<Rightarrow> op_produce_shared_library op)
     in if paths = [] \<and> \<not> produce_shared then Inr r
        else andthen (load_libraries mem files paths r) (\<lambda>r.
             fold_outcome (bind_symbol (bm_link mem) produce_shared) [0..<length (rs_symbols r)] r))"

section \<open>The build\<close>

definition build_alignment :: "LinkResolutionOptions option \<Rightarrow> u64" where
  "build_alignment options = (case options of None \<Rightarrow> 16 | Some op \<Rightarrow> if op_section_alignment op > 1 then op_section_alignment op else 16)"

definition link_resolution_build ::
  "build_memory \<Rightarrow> (nat \<Rightarrow> u8) \<Rightarrow> (string \<Rightarrow> bytes option) \<Rightarrow> string list \<Rightarrow> LinkResolutionOptions option \<Rightarrow> LinkResolution outcome" where
  "link_resolution_build mem junk files object_paths options =
    andthen (need (object_paths \<noteq> []) ''At least one object file is required'') (\<lambda>_.
    andthen (allocate_mem (bm_link mem NewResolution)) (\<lambda>_.
    andthen (link_resolution_load_objects mem files object_paths (link_resolution_init_sections (blank_resolution []))) (\<lambda>r.
    andthen (mark_runtime_defaults options r) (\<lambda>r.
    andthen (link_resolution_gc_sections (bm_link mem) options r) (\<lambda>r.
    andthen (link_resolution_merge_sections (bm_link mem) junk (build_alignment options) r) (\<lambda>r.
    andthen (link_resolution_build_symbols (bm_link mem) r) (\<lambda>r.
    andthen (link_resolution_bind_shared_libraries mem files options r) (\<lambda>r.
    link_resolution_validate_externals (link_resolution_assign_virtual_addresses (build_alignment options) r) options))))))))"

end
