(* ===== verification/LinkGcCorrect.thy ===== *)
theory LinkGcCorrect
  imports LinkGc
begin

text \<open>
  Correctness of the section collector: the table of definitions is a map from names to the definition that wins, the
  marking ends with exactly the sections that are reachable from the roots, and the flags of the objects say so.
\<close>

section \<open>The table is a map\<close>

lemma gc_hash_fnv: "gc_hash_name = mettle_fnv1a_hash"
proof -
  have "gc_hash_loop h s = foldl (\<lambda>h c. (h XOR of_char c) * 1099511628211) h s" for h s
    by (induction s arbitrary: h) simp_all
  then show ?thesis by (intro ext) (simp add: gc_hash_name_def mettle_fnv1a_hash_def)
qed

abbreviation gc_home :: "string \<Rightarrow> nat \<Rightarrow> nat" where
  "gc_home k n \<equiv> slot_of (gc_hash_name k) n"

definition gc_key :: "gc_table \<Rightarrow> nat \<Rightarrow> string option" where
  "gc_key table b = map_option gd_name (table ! b)"

definition gc_rep :: "gc_table \<Rightarrow> (string \<Rightarrow> GcDefinition option) \<Rightarrow> nat \<Rightarrow> bool" where
  "gc_rep table f k \<longleftrightarrow> lp.placed gc_hash_name (gc_key table) (length table) \<and>
     card {b. b < length table \<and> table ! b \<noteq> None} \<le> k \<and>
     (\<forall>nm d. f nm = Some d \<longleftrightarrow> gd_name d = nm \<and> (\<exists>b < length table. table ! b = Some d))"

lemma gc_slot_key:
  "gc_slot table nm = probe (\<lambda>b. gc_key table b = None \<or> gc_key table b = Some nm) (next_slot (length table)) (length table)
     (gc_home nm (length table))"
  unfolding gc_slot_def gc_key_def by simp

lemma gc_slot_hit:
  assumes "gc_rep table f k" "f nm = Some d" shows "\<exists>b < length table. gc_slot table nm = Inr b \<and> table ! b = Some d"
proof -
  obtain b where b: "b < length table" "table ! b = Some d" "gd_name d = nm" using assms by (auto simp: gc_rep_def)
  have pl: "lp.placed gc_hash_name (gc_key table) (length table)" using assms(1) by (simp add: gc_rep_def)
  have "gc_key table b = Some nm" using b by (simp add: gc_key_def)
  from lp.find_hit [OF pl b(1) this] have "gc_slot table nm = Inr b" by (simp only: gc_slot_key)
  then show ?thesis using b by blast
qed

lemma gc_slot_miss:
  assumes "gc_rep table f k" "k < length table" "f nm = None"
  obtains i where "i < length table" "gc_slot table nm = Inr (lp.walk gc_hash_name nm (length table) i)"
    "gc_key table (lp.walk gc_hash_name nm (length table) i) = None"
    "\<forall>j < i. gc_key table (lp.walk gc_hash_name nm (length table) j) \<noteq> None" "\<forall>s < length table. gc_key table s \<noteq> Some nm"
proof -
  let ?n = "length table"
  have pl: "lp.placed gc_hash_name (gc_key table) ?n" using assms(1) by (simp add: gc_rep_def)
  have "{b. b < ?n \<and> table ! b \<noteq> None} \<noteq> {..<?n}"
  proof
    assume "{b. b < ?n \<and> table ! b \<noteq> None} = {..<?n}"
    then have "?n \<le> k" using assms(1) by (simp add: gc_rep_def)
    then show False using assms(2) by simp
  qed
  then have room: "lp.roomy (gc_key table) ?n" by (auto simp: lp.roomy_def gc_key_def)
  have other: "\<forall>s < ?n. gc_key table s \<noteq> Some nm"
  proof (intro allI impI notI)
    fix s assume s: "s < ?n" "gc_key table s = Some nm"
    then obtain d where "table ! s = Some d" "gd_name d = nm" by (auto simp: gc_key_def)
    then have "f nm = Some d" using assms(1) s(1) by (auto simp: gc_rep_def)
    then show False using assms(3) by simp
  qed
  obtain i where i: "i < ?n" "probe (\<lambda>b. gc_key table b = None \<or> gc_key table b = Some nm) (next_slot ?n) ?n (gc_home nm ?n) =
      Inr (lp.walk gc_hash_name nm ?n i)" "gc_key table (lp.walk gc_hash_name nm ?n i) = None"
    "\<forall>j < i. gc_key table (lp.walk gc_hash_name nm ?n j) \<noteq> None"
    by (rule lp.find_miss [OF pl room other])
  show ?thesis by (rule that [OF i(1) _ i(3,4) other]) (simp only: gc_slot_key i(2))
qed

lemma gc_find_map:
  assumes "gc_rep table f k" "k < length table" shows "gc_find_definition table nm = Inr (f nm)"
proof (cases "f nm")
  case None
  obtain i where "gc_slot table nm = Inr (lp.walk gc_hash_name nm (length table) i)"
    "gc_key table (lp.walk gc_hash_name nm (length table) i) = None"
    using gc_slot_miss [OF assms None] by metis
  then show ?thesis using None by (simp add: gc_find_definition_def gc_key_def)
next
  case (Some d)
  then show ?thesis using gc_slot_hit [OF assms(1) Some] by (auto simp: gc_find_definition_def)
qed

text \<open>The same insertion on the map.\<close>

definition gc_admit :: "GcDefinition \<Rightarrow> (string \<Rightarrow> GcDefinition option) \<Rightarrow> (string \<Rightarrow> GcDefinition option) outcome" where
  "gc_admit d f =
    (case f (gd_name d) of
       None \<Rightarrow> Inr (f(gd_name d \<mapsto> d))
     | Some old \<Rightarrow>
         if gd_is_runtime_default old = gd_is_runtime_default d then Inl (Refused ''Duplicate external symbol'')
         else if gd_is_runtime_default old then Inr (f(gd_name d \<mapsto> d)) else Inr f)"

lemma gc_rep_facts:
  assumes "gc_rep table f k"
  shows "lp.placed gc_hash_name (gc_key table) (length table)" "card {b. b < length table \<and> table ! b \<noteq> None} \<le> k"
    "f nm = Some d \<longleftrightarrow> gd_name d = nm \<and> (\<exists>b < length table. table ! b = Some d)"
  using assms unfolding gc_rep_def by blast+

lemma gc_rep_weaken: "gc_rep table f k \<Longrightarrow> gc_rep table f (Suc k)"
  by (simp add: gc_rep_def)

lemma gc_rep_replace:
  assumes rep: "gc_rep table f k" and b: "b < length table" "table ! b = Some old" "gd_name old = gd_name d"
  shows "gc_rep (table[b := Some d]) (f(gd_name d \<mapsto> d)) k"
proof -
  have key: "gc_key (table[b := Some d]) s = gc_key table s" if "s < length table" for s
    using b that by (auto simp: gc_key_def nth_list_update)
  have pl: "lp.placed gc_hash_name (gc_key (table[b := Some d])) (length table)"
    by (rule lp.placed_cong [where ka = "gc_key table"]) (simp_all add: key gc_rep_facts(1) [OF rep])
  have occ: "{s. s < length table \<and> table[b := Some d] ! s \<noteq> None} = {s. s < length table \<and> table ! s \<noteq> None}"
    using b by (auto simp: nth_list_update)
  have one: "s = b" if "s < length table" "table ! s = Some e" "gd_name e = gd_name d" for s e
  proof -
    have "gc_key table s = Some (gd_name d)" "gc_key table b = Some (gd_name d)" using that b by (simp_all add: gc_key_def)
    moreover have "\<forall>s s' k. s < length table \<longrightarrow> s' < length table \<longrightarrow> gc_key table s = Some k \<longrightarrow> gc_key table s' = Some k \<longrightarrow> s = s'"
      using gc_rep_facts(1) [OF rep] unfolding lp.placed_def by blast
    ultimately show ?thesis using that(1) b(1) by blast
  qed
  have map: "(f(gd_name d \<mapsto> d)) nm = Some e \<longleftrightarrow> gd_name e = nm \<and> (\<exists>s < length table. table[b := Some d] ! s = Some e)" for nm e
  proof (cases "nm = gd_name d")
    case True
    have "e = d" if "s < length table" "table[b := Some d] ! s = Some e" "gd_name e = gd_name d" for s
    proof (cases "s = b")
      case True
      then show ?thesis using that(1,2) by simp
    next
      case False
      then show ?thesis using one [OF that(1) _ that(3)] that(2) by simp
    qed
    moreover have "table[b := Some d] ! b = Some d" using b(1) by simp
    ultimately show ?thesis using b(1) True by auto
  next
    case False
    then have "(f(gd_name d \<mapsto> d)) nm = Some e \<longleftrightarrow> gd_name e = nm \<and> (\<exists>s < length table. table ! s = Some e)"
      using gc_rep_facts(3) [OF rep, of nm e] by simp
    moreover have "table[b := Some d] ! s = Some e \<longleftrightarrow> table ! s = Some e" if "gd_name e = nm" "s < length table" for s
      using that False b by (cases "s = b") auto
    ultimately show ?thesis by blast
  qed
  show ?thesis unfolding gc_rep_def length_list_update
    by (intro conjI allI pl map) (simp only: occ gc_rep_facts(2) [OF rep])
qed

lemma gc_rep_insert:
  assumes rep: "gc_rep table f k" and miss: "f (gd_name d) = None"
    and i: "i < length table" "gc_key table (lp.walk gc_hash_name (gd_name d) (length table) i) = None"
    "\<forall>j < i. gc_key table (lp.walk gc_hash_name (gd_name d) (length table) j) \<noteq> None" "\<forall>s < length table. gc_key table s \<noteq> Some (gd_name d)"
  shows "gc_rep (table[lp.walk gc_hash_name (gd_name d) (length table) i := Some d]) (f(gd_name d \<mapsto> d)) (Suc k)"
proof -
  let ?n = "length table" and ?s = "lp.walk gc_hash_name (gd_name d) (length table) i"
  have pl: "lp.placed gc_hash_name (gc_key table) ?n" using rep by (simp add: gc_rep_def)
  then have "pow2_size ?n" by (simp add: lp.placed_def)
  then have s: "?s < ?n" by (rule lp.walk_less)
  have free: "table ! ?s = None" using i(2) by (simp add: gc_key_def)
  have key: "((gc_key table)(?s \<mapsto> gd_name d)) b = gc_key (table[?s := Some d]) b" if "b < ?n" for b
    using that by (simp add: gc_key_def nth_list_update)
  have "lp.placed gc_hash_name (gc_key (table[?s := Some d])) ?n"
    by (rule lp.placed_cong [rotated, OF lp.placed_insert [OF pl i(1,3,2,4)]]) (rule key)
  moreover have "{b. b < ?n \<and> table[?s := Some d] ! b \<noteq> None} = insert ?s {b. b < ?n \<and> table ! b \<noteq> None}"
    using s by (auto simp: nth_list_update)
  then have "card {b. b < ?n \<and> table[?s := Some d] ! b \<noteq> None} \<le> Suc k"
    using rep card_insert_le_m1 [of "Suc k" "{b. b < ?n \<and> table ! b \<noteq> None}" ?s] by (simp add: gc_rep_def)
  moreover have "(f(gd_name d \<mapsto> d)) nm = Some e \<longleftrightarrow> gd_name e = nm \<and> (\<exists>b < ?n. table[?s := Some d] ! b = Some e)" for nm e
  proof (cases "nm = gd_name d")
    case True
    have "gd_name e \<noteq> gd_name d" if "b < ?n" "table ! b = Some e" for b
      using i(4) that by (auto simp: gc_key_def)
    then show ?thesis using s True by (auto simp: nth_list_update)
  next
    case False
    then have "(f(gd_name d \<mapsto> d)) nm = Some e \<longleftrightarrow> gd_name e = nm \<and> (\<exists>b < ?n. table ! b = Some e)"
      using rep by (simp add: gc_rep_def)
    then show ?thesis using False s free by (metis nth_list_update_eq nth_list_update_neq option.distinct(1) option.inject)
  qed
  ultimately show ?thesis by (simp add: gc_rep_def)
qed

lemma gc_insert_admits:
  assumes rep: "gc_rep table f k" and k: "k < length table"
  shows "case gc_admit d f of Inl e \<Rightarrow> gc_insert_definition d table = Inl e
    | Inr f' \<Rightarrow> \<exists>table'. gc_insert_definition d table = Inr table' \<and> length table' = length table \<and> gc_rep table' f' (Suc k)"
proof (cases "f (gd_name d)")
  case None
  obtain i where i: "i < length table" "gc_slot table (gd_name d) = Inr (lp.walk gc_hash_name (gd_name d) (length table) i)"
    "gc_key table (lp.walk gc_hash_name (gd_name d) (length table) i) = None"
    "\<forall>j < i. gc_key table (lp.walk gc_hash_name (gd_name d) (length table) j) \<noteq> None"
    "\<forall>s < length table. gc_key table s \<noteq> Some (gd_name d)"
    using gc_slot_miss [OF rep k None] by metis
  then show ?thesis using None gc_rep_insert [OF rep None i(1,3,4,5)]
    by (simp add: gc_admit_def gc_insert_definition_def gc_key_def)
next
  case (Some old)
  then obtain b where b: "b < length table" "gc_slot table (gd_name d) = Inr b" "table ! b = Some old"
    using gc_slot_hit [OF rep Some] by blast
  have "gd_name old = gd_name d" using rep Some by (auto simp: gc_rep_def)
  then show ?thesis using Some b gc_rep_replace [OF rep b(1,3)] gc_rep_weaken rep
    by (auto simp: gc_admit_def gc_insert_definition_def)
qed

lemma gc_insert_all:
  assumes "gc_rep table f k" "k + length ds \<le> length table"
  shows "case fold_outcome gc_admit ds f of Inl e \<Rightarrow> fold_outcome gc_insert_definition ds table = Inl e
    | Inr f' \<Rightarrow> \<exists>table'. fold_outcome gc_insert_definition ds table = Inr table' \<and> length table' = length table \<and> gc_rep table' f' (k + length ds)"
  using assms
proof (induction ds arbitrary: table f k)
  case (Cons d ds)
  have step: "case gc_admit d f of Inl e \<Rightarrow> gc_insert_definition d table = Inl e
    | Inr f' \<Rightarrow> \<exists>table'. gc_insert_definition d table = Inr table' \<and> length table' = length table \<and> gc_rep table' f' (Suc k)"
    by (rule gc_insert_admits) (use Cons.prems in auto)
  show ?case
  proof (cases "gc_admit d f")
    case (Inr f1)
    then obtain t1 where t1: "gc_insert_definition d table = Inr t1" "length t1 = length table" "gc_rep t1 f1 (Suc k)"
      using step by auto
    show ?thesis using Cons.IH [OF t1(3)] Cons.prems(2) t1 Inr by (cases "fold_outcome gc_admit ds f1") simp_all
  qed (use step in simp)
qed simp

text \<open>On a list of definitions the map ends up with the first one of the program, or else the first default.\<close>

definition winner :: "GcDefinition list \<Rightarrow> GcDefinition option" where
  "winner ds = (case filter (\<lambda>d. \<not> gd_is_runtime_default d) ds of d # _ \<Rightarrow> Some d
     | [] \<Rightarrow> (case ds of [] \<Rightarrow> None | d # _ \<Rightarrow> Some d))"

lemma winner_snoc:
  "winner (ds @ [d]) = (case winner ds of None \<Rightarrow> Some d
     | Some old \<Rightarrow> if gd_is_runtime_default old \<and> \<not> gd_is_runtime_default d then Some d else Some old)"
proof (cases "filter (\<lambda>d. \<not> gd_is_runtime_default d) ds")
  case Nil
  then have "gd_is_runtime_default y" if "y \<in> set ds" for y using that by (auto simp: filter_empty_conv)
  then show ?thesis using Nil by (cases ds) (simp_all add: winner_def)
next
  case (Cons y ys)
  have "y \<in> set (filter (\<lambda>d. \<not> gd_is_runtime_default d) ds)" unfolding Cons by simp
  then have "\<not> gd_is_runtime_default y" by simp
  then show ?thesis using Cons by (simp add: winner_def)
qed

lemma admit_winner:
  "fold_outcome gc_admit ds (\<lambda>nm. winner (filter (\<lambda>d. gd_name d = nm) done)) = Inr f \<Longrightarrow>
   f nm = winner (filter (\<lambda>d. gd_name d = nm) (done @ ds))"
proof (induction ds arbitrary: "done" nm)
  case (Cons d ds)
  let ?f = "\<lambda>nm. winner (filter (\<lambda>d. gd_name d = nm) done)" and ?g = "\<lambda>nm. winner (filter (\<lambda>d. gd_name d = nm) (done @ [d]))"
  obtain f1 where f1: "gc_admit d ?f = Inr f1" "fold_outcome gc_admit ds f1 = Inr f"
    using Cons.prems by (auto simp: andthen_Inr_iff)
  have "f1 nm = ?g nm" for nm
    using f1(1) by (auto simp: gc_admit_def winner_snoc split: option.splits if_splits)
  then have "f1 = ?g" by blast
  then show ?case using Cons.IH [of "done @ [d]" nm] f1(2) by simp
qed auto

section \<open>The definitions of all objects\<close>

lemma fold_outcome_skip:
  "fold_outcome (\<lambda>x s. case g x of None \<Rightarrow> Inr s | Some d \<Rightarrow> f d s) xs s = fold_outcome f (List.map_filter g xs) s"
proof (induction xs arbitrary: s)
  case (Cons x xs)
  show ?case
  proof (cases "g x")
    case (Some d)
    then show ?thesis using Cons.IH by (cases "f d s") (simp_all add: List.map_filter_simps)
  qed (simp add: List.map_filter_simps Cons.IH)
qed (simp add: List.map_filter_simps)

definition object_definitions :: "LinkedInputObject list \<Rightarrow> nat \<Rightarrow> GcDefinition list" where
  "object_definitions objs oi =
    (case in_object (objs ! oi) of None \<Rightarrow> []
     | Some ob \<Rightarrow> List.map_filter (gc_symbol_definition oi (in_is_runtime_default (objs ! oi)) ob) (ob_symbols ob))"

definition all_definitions :: "LinkedInputObject list \<Rightarrow> GcDefinition list" where
  "all_definitions objs = concat (map (object_definitions objs) [0..<length objs])"

lemma collect_objects:
  "(fold_outcome (gc_collect_object mem objs) ois table = Inl OutOfMemory \<and> mem \<noteq> plenty) \<or>
   fold_outcome (gc_collect_object mem objs) ois table =
     fold_outcome gc_insert_definition (concat (map (object_definitions objs) ois)) table"
proof (induction ois arbitrary: table)
  case (Cons oi ois)
  have "gc_collect_object mem objs oi table = Inl OutOfMemory \<and> mem \<noteq> plenty \<or>
      gc_collect_object mem objs oi table = fold_outcome gc_insert_definition (object_definitions objs oi) table"
  proof (cases "in_object (objs ! oi)")
    case (Some ob)
    then show ?thesis
      using fold_outcome_skip [where g = "gc_symbol_definition oi (in_is_runtime_default (objs ! oi)) ob" and f = gc_insert_definition]
      by (cases "mem (GcObject oi)")
        (auto simp: gc_collect_object_def object_definitions_def gc_collect_symbol_def [abs_def] plenty_def allocate_mem_def)
  qed (simp add: gc_collect_object_def object_definitions_def)
  then show ?case
  proof
    assume e: "gc_collect_object mem objs oi table = fold_outcome gc_insert_definition (object_definitions objs oi) table"
    show ?thesis
      by (cases "fold_outcome gc_insert_definition (object_definitions objs oi) table")
        (use Cons.IH in \<open>simp_all add: e fold_outcome_append\<close>)
  qed simp
qed simp

lemma map_filter_length: "length (List.map_filter f xs) \<le> length xs"
  by (induction xs) (auto simp: List.map_filter_simps split: option.split)

lemma definitions_count: "length (all_definitions objs) \<le> sum_list (map symbol_total objs)"
proof -
  have "length (object_definitions objs oi) \<le> symbol_total (objs ! oi)" for oi
    by (auto simp: object_definitions_def symbol_total_def map_filter_length split: option.split)
  then have "length (concat (map (object_definitions objs) ois)) \<le> sum_list (map (\<lambda>oi. symbol_total (objs ! oi)) ois)" for ois
    by (induction ois) (auto intro: add_mono)
  from this [of "[0..<length objs]"] show ?thesis
    unfolding all_definitions_def by (metis (no_types, lifting) map_map map_nth comp_def map_eq_conv)
qed

definition definition_of :: "LinkedInputObject list \<Rightarrow> string \<Rightarrow> GcDefinition option" where
  "definition_of objs nm = winner (filter (\<lambda>d. gd_name d = nm) (all_definitions objs))"

text \<open>No name is defined twice by the program, or twice by the default runtime before the program defines it.\<close>

definition definitions_clash :: "LinkedInputObject list \<Rightarrow> bool" where
  "definitions_clash objs \<longleftrightarrow> fold_outcome gc_admit (all_definitions objs) Map.empty = Inl (Refused ''Duplicate external symbol'')"

lemma admit_clash: "fold_outcome gc_admit ds f = Inl e \<Longrightarrow> e = Refused ''Duplicate external symbol''"
  by (induction ds arbitrary: f) (auto simp: andthen_Inl_iff gc_admit_def split: option.splits if_splits)

lemma collect_all:
  assumes small: "sum_list (map symbol_total objs) < 2 ^ 60"
  defines "n \<equiv> double_until 64 (sum_list (map symbol_total objs) * 2)"
  shows "(fold_outcome (gc_collect_object mem objs) [0..<length objs] (replicate n None) = Inl OutOfMemory \<and> mem \<noteq> plenty) \<or>
    (if definitions_clash objs
     then fold_outcome (gc_collect_object mem objs) [0..<length objs] (replicate n None) = Inl (Refused ''Duplicate external symbol'')
     else \<exists>table k. fold_outcome (gc_collect_object mem objs) [0..<length objs] (replicate n None) = Inr table \<and>
            gc_rep table (definition_of objs) k \<and> k < length table)"
proof -
  let ?c = "fold_outcome (gc_collect_object mem objs) [0..<length objs] (replicate n None)"
  let ?t = "replicate n None :: gc_table" and ?ds = "all_definitions objs"
  have p: "pow2_size n" unfolding n_def by (rule buckets_pow2) (use small in simp)
  have "64 \<le> n" "sum_list (map symbol_total objs) * 2 \<le> n"
    unfolding n_def by (rule double_until_le, rule double_until_ge) simp
  then have room: "length ?ds < n" using definitions_count [of objs] by simp
  have rep: "gc_rep ?t Map.empty 0"
    unfolding gc_rep_def using p by (auto simp: gc_key_def intro!: lp.placed_empty)
  have "?c = Inl OutOfMemory \<and> mem \<noteq> plenty \<or> ?c = fold_outcome gc_insert_definition ?ds ?t"
    using collect_objects [of mem objs "[0..<length objs]" ?t] by (simp add: all_definitions_def)
  moreover note gc_insert_all [OF rep, of ?ds]
  moreover have "f = definition_of objs" if "fold_outcome gc_admit ?ds Map.empty = Inr f" for f
  proof
    fix nm
    have "(\<lambda>nm. winner (filter (\<lambda>d. gd_name d = nm) [])) = Map.empty" by (simp add: winner_def)
    then show "f nm = definition_of objs nm" using admit_winner [of ?ds "[]" f nm] that by (simp add: definition_of_def)
  qed
  ultimately show ?thesis using room admit_clash [of ?ds Map.empty]
    by (cases "fold_outcome gc_admit ?ds Map.empty") (fastforce simp: definitions_clash_def)+
qed

section \<open>Marking reaches what is reachable\<close>

definition gc_target :: "(string \<Rightarrow> GcDefinition option) \<Rightarrow> nat \<Rightarrow> LinkObject \<Rightarrow> LinkReloc \<Rightarrow> GcWorkItem option" where
  "gc_target f oi object reloc =
    (let k = unat (rl_symbol_index reloc); symbol = ob_symbols object ! k
     in if length (ob_symbols object) \<le> k \<or> sy_is_auxiliary symbol then None
        else if 0 \<le> sy_section_index symbol \<and> nat (sy_section_index symbol) < length (ob_sections object)
        then Some (oi, nat (sy_section_index symbol))
        else if sy_section_index symbol = LINK_SECTION_INDEX_UNDEFINED
        then (case sy_name symbol of None \<Rightarrow> None
              | Some name \<Rightarrow> map_option (\<lambda>d. (gd_object_index d, gd_section_index d)) (f name))
        else None)"

definition relocs_of :: "LinkedInputObject list \<Rightarrow> GcWorkItem \<Rightarrow> LinkReloc list" where
  "relocs_of objs = (\<lambda>(oi, si). sc_relocations (object_sections (objs ! oi) ! si))"

definition gc_edge :: "LinkedInputObject list \<Rightarrow> GcWorkItem \<Rightarrow> GcWorkItem \<Rightarrow> bool" where
  "gc_edge objs item t \<longleftrightarrow> (\<exists>object. in_object (objs ! fst item) = Some object \<and>
     (\<exists>reloc\<in>set (relocs_of objs item). gc_target (definition_of objs) (fst item) object reloc = Some t))"

definition gc_root :: "LinkedInputObject list \<Rightarrow> string option \<Rightarrow> GcWorkItem \<Rightarrow> bool" where
  "gc_root objs entry item \<longleftrightarrow>
    item \<in> set (all_items objs) \<and> sc_kind (object_sections (objs ! fst item) ! snd item) \<noteq> LINK_SECTION_KIND_UNKNOWN \<and>
      \<not> link_section_is_gc_eligible (object_sections (objs ! fst item) ! snd item) \<or>
    (\<exists>name d. entry = Some name \<and> name \<noteq> '''' \<and> definition_of objs name = Some d \<and> item = (gd_object_index d, gd_section_index d))"

inductive gc_reachable :: "LinkedInputObject list \<Rightarrow> string option \<Rightarrow> GcWorkItem \<Rightarrow> bool" for objs entry where
  root: "gc_root objs entry item \<Longrightarrow> gc_reachable objs entry item"
| edge: "gc_reachable objs entry item \<Longrightarrow> gc_edge objs item t \<Longrightarrow> gc_reachable objs entry t"

lemma all_items_iff: "(oi, si) \<in> set (all_items objs) \<longleftrightarrow> oi < length objs \<and> si < length (object_sections (objs ! oi))"
  by (force simp: all_items_def)

lemma all_items_distinct: "distinct (all_items objs)"
proof -
  have "distinct (concat (map (\<lambda>oi. map (Pair oi) [0..<h oi]) ois))" if "distinct ois" for ois :: "nat list" and h :: "nat \<Rightarrow> nat"
    using that by (induction ois) (auto simp: distinct_map inj_on_def)
  then show ?thesis by (simp add: all_items_def)
qed

lemma all_items_length: "length (all_items objs) = sum_list (map (\<lambda>inp. length (object_sections inp)) objs)"
proof -
  have "length (all_items objs) = sum_list (map (\<lambda>oi. length (object_sections (objs ! oi))) [0..<length objs])"
    by (simp add: all_items_def length_concat comp_def)
  also have "\<dots> = sum_list (map (\<lambda>inp. length (object_sections inp)) objs)"
    by (metis (no_types, lifting) map_map map_nth comp_def map_eq_conv)
  finally show ?thesis .
qed

text \<open>Definitions and targets are sections that exist.\<close>

lemma winner_in: "winner ds = Some d \<Longrightarrow> d \<in> set ds"
proof -
  assume w: "winner ds = Some d"
  have "d \<in> set (filter (\<lambda>d. \<not> gd_is_runtime_default d) ds) \<or> d \<in> set ds"
    using w unfolding winner_def by (cases "filter (\<lambda>d. \<not> gd_is_runtime_default d) ds"; cases ds) auto
  then show ?thesis by auto
qed

lemma definition_item:
  assumes "definition_of objs nm = Some d" shows "(gd_object_index d, gd_section_index d) \<in> set (all_items objs)"
proof -
  have "d \<in> set (all_definitions objs)" using winner_in [of _ d] assms by (force simp: definition_of_def)
  then obtain oi where oi: "oi < length objs" "d \<in> set (object_definitions objs oi)" by (auto simp: all_definitions_def)
  then obtain ob y where y: "in_object (objs ! oi) = Some ob" "gc_symbol_definition oi (in_is_runtime_default (objs ! oi)) ob y = Some d"
    by (cases "in_object (objs ! oi)") (auto simp: object_definitions_def List.map_filter_def)
  then show ?thesis using oi
    by (auto simp: gc_symbol_definition_def all_items_iff object_sections_def split: option.splits if_splits)
qed

lemma target_item:
  assumes "oi < length objs" "in_object (objs ! oi) = Some ob" "gc_target (definition_of objs) oi ob reloc = Some t"
  shows "t \<in> set (all_items objs)"
  using assms definition_item
  by (auto simp: gc_target_def Let_def all_items_iff object_sections_def split: if_splits option.splits)


text \<open>The flags agree with the worklist, which holds no section twice; so it never outgrows its array.\<close>

definition gc_ok :: "LinkedInputObject list \<Rightarrow> GcState \<Rightarrow> bool" where
  "gc_ok objs st \<longleftrightarrow> map length (gc_live st) = map (\<lambda>inp. length (object_sections inp)) objs \<and>
     map length (gc_referenced st) = map symbol_total objs \<and>
     distinct (gc_worklist st) \<and> set (gc_worklist st) \<subseteq> set (all_items objs) \<and>
     (\<forall>oi si. (oi, si) \<in> set (all_items objs) \<longrightarrow> gc_live st ! oi ! si = ((oi, si) \<in> set (gc_worklist st)))"

lemma gc_ok_lengths:
  assumes "gc_ok objs st"
  shows "length (gc_live st) = length objs" "length (gc_referenced st) = length objs"
    "oi < length objs \<Longrightarrow> length (gc_live st ! oi) = length (object_sections (objs ! oi))"
    "oi < length objs \<Longrightarrow> length (gc_referenced st ! oi) = symbol_total (objs ! oi)"
proof -
  have m: "map length (gc_live st) = map (\<lambda>inp. length (object_sections inp)) objs" "map length (gc_referenced st) = map symbol_total objs"
    using assms by (simp_all add: gc_ok_def)
  show l: "length (gc_live st) = length objs" "length (gc_referenced st) = length objs"
    using m by (auto dest: map_eq_imp_length_eq)
  show "oi < length objs \<Longrightarrow> length (gc_live st ! oi) = length (object_sections (objs ! oi))"
    using m(1) l(1) by (metis (no_types, lifting) nth_map)
  show "oi < length objs \<Longrightarrow> length (gc_referenced st ! oi) = symbol_total (objs ! oi)"
    using m(2) l(2) by (metis (no_types, lifting) nth_map)
qed

lemma distinct_subset_length: "distinct xs \<Longrightarrow> set xs \<subseteq> set ys \<Longrightarrow> length xs \<le> length ys"
  by (metis List.finite_set card_mono card_length distinct_card order_trans)

lemma gc_mark_ok:
  assumes ok: "gc_ok objs st" and t: "t \<in> set (all_items objs)"
  shows "\<exists>st'. gc_mark (length (all_items objs)) t st = Inr st' \<and> gc_ok objs st' \<and> gc_referenced st' = gc_referenced st \<and>
    gc_worklist st' = gc_worklist st @ (if t \<in> set (gc_worklist st) then [] else [t])"
proof -
  obtain oi si where p: "t = (oi, si)" by (cases t)
  have in_range: "oi < length objs" "si < length (object_sections (objs ! oi))" using t p by (simp_all add: all_items_iff)
  note len = gc_ok_lengths [OF ok]
  have fit: "oi < length (gc_live st)" "si < length (gc_live st ! oi)" using in_range len by simp_all
  have live: "gc_live st ! oi ! si = (t \<in> set (gc_worklist st))" using ok t p by (simp add: gc_ok_def)
  show ?thesis
  proof (cases "t \<in> set (gc_worklist st)")
    case True
    then show ?thesis using fit live p ok by (simp add: gc_mark_def)
  next
    case False
    let ?wl = "gc_worklist st @ [t]"
    let ?st = "st\<lparr>gc_live := (gc_live st)[oi := (gc_live st ! oi)[si := True]], gc_worklist := ?wl\<rparr>"
    have d: "distinct ?wl" "set ?wl \<subseteq> set (all_items objs)" using ok False t by (auto simp: gc_ok_def)
    then have "length ?wl \<le> length (all_items objs)" by (rule distinct_subset_length)
    then have mark: "gc_mark (length (all_items objs)) t st = Inr ?st" using fit live False p by (simp add: gc_mark_def)
    have m: "map length ((gc_live st)[oi := (gc_live st ! oi)[si := True]]) = map length (gc_live st)"
      by (metis length_list_update list_update_id map_update)
    have "(gc_live st)[oi := (gc_live st ! oi)[si := True]] ! a ! b = ((a, b) \<in> set ?wl)" if "(a, b) \<in> set (all_items objs)" for a b
    proof -
      have "gc_live st ! a ! b = ((a, b) \<in> set (gc_worklist st))" using ok that by (simp add: gc_ok_def)
      then show ?thesis using fit p by (cases "a = oi"; cases "b = si") auto
    qed
    then have "gc_ok objs ?st" using ok d m by (simp add: gc_ok_def)
    then show ?thesis using mark False by auto
  qed
qed

text \<open>A relocation notes the symbol and marks its target.\<close>

definition note_symbol :: "nat \<Rightarrow> LinkObject \<Rightarrow> LinkReloc \<Rightarrow> GcState \<Rightarrow> GcState" where
  "note_symbol oi object reloc st =
    (let k = unat (rl_symbol_index reloc)
     in if length (ob_symbols object) \<le> k then st
        else st\<lparr>gc_referenced := (gc_referenced st)[oi := (gc_referenced st ! oi)[k := True]]\<rparr>)"

lemma gc_scan_reloc_target:
  assumes "gc_rep table f k" "k < length table"
  shows "gc_scan_reloc room table oi object reloc st =
    (case gc_target f oi object reloc of None \<Rightarrow> Inr (note_symbol oi object reloc st)
     | Some t \<Rightarrow> gc_mark room t (note_symbol oi object reloc st))"
  unfolding gc_scan_reloc_def gc_target_def note_symbol_def Let_def gc_find_map [OF assms]
  by (auto split: option.split)

lemma note_symbol_ok:
  assumes "gc_ok objs st" shows "gc_ok objs (note_symbol oi object reloc st)"
proof -
  have "map length ((gc_referenced st)[oi := (gc_referenced st ! oi)[k := True]]) = map length (gc_referenced st)" for k
    by (metis length_list_update list_update_id map_update)
  then show ?thesis using assms by (simp add: note_symbol_def Let_def gc_ok_def)
qed

definition refers :: "LinkObject \<Rightarrow> LinkReloc list \<Rightarrow> nat \<Rightarrow> bool" where
  "refers object relocs k \<longleftrightarrow> k < length (ob_symbols object) \<and> (\<exists>reloc\<in>set relocs. unat (rl_symbol_index reloc) = k)"

lemma note_symbol_effect:
  assumes "gc_ok objs st" "oi < length objs" "in_object (objs ! oi) = Some object" "a < length objs" "k < symbol_total (objs ! a)"
  shows "gc_referenced (note_symbol oi object reloc st) ! a ! k = (gc_referenced st ! a ! k \<or> a = oi \<and> refers object [reloc] k)"
proof -
  note len = gc_ok_lengths [OF assms(1)]
  have "symbol_total (objs ! oi) = length (ob_symbols object)" using assms(3) by (simp add: symbol_total_def)
  then show ?thesis using len(2) len(4) [OF assms(4)] assms(2,4,5)
    by (auto simp: note_symbol_def Let_def refers_def nth_list_update not_le split: if_splits)
qed

lemma scan_relocs_ok:
  assumes rep: "gc_rep table (definition_of objs) k" "k < length table" and oi: "oi < length objs" "in_object (objs ! oi) = Some object"
    and ok: "gc_ok objs st"
  shows "\<exists>st' new. fold_outcome (gc_scan_reloc (length (all_items objs)) table oi object) relocs st = Inr st' \<and> gc_ok objs st' \<and>
    gc_worklist st' = gc_worklist st @ new \<and>
    set (gc_worklist st') = set (gc_worklist st) \<union> {t. \<exists>reloc\<in>set relocs. gc_target (definition_of objs) oi object reloc = Some t} \<and>
    (\<forall>a < length objs. \<forall>k < symbol_total (objs ! a). gc_referenced st' ! a ! k = (gc_referenced st ! a ! k \<or> a = oi \<and> refers object relocs k))"
  using ok
proof (induction relocs arbitrary: st)
  case Nil
  then show ?case by (simp add: refers_def)
next
  case (Cons reloc relocs)
  let ?T = "gc_target (definition_of objs) oi object reloc"
  let ?n = "note_symbol oi object reloc st"
  have n: "gc_ok objs ?n" "gc_worklist ?n = gc_worklist st"
    using note_symbol_ok [OF Cons.prems] by (simp_all add: note_symbol_def Let_def)
  have "\<exists>st1. gc_scan_reloc (length (all_items objs)) table oi object reloc st = Inr st1 \<and> gc_ok objs st1 \<and>
      gc_referenced st1 = gc_referenced ?n \<and> (\<exists>new. gc_worklist st1 = gc_worklist st @ new) \<and>
      set (gc_worklist st1) = set (gc_worklist st) \<union> set_option ?T"
  proof (cases ?T)
    case None
    then show ?thesis using gc_scan_reloc_target [OF rep] n by auto
  next
    case (Some t)
    obtain st1 where "gc_mark (length (all_items objs)) t ?n = Inr st1" "gc_ok objs st1" "gc_referenced st1 = gc_referenced ?n"
      "gc_worklist st1 = gc_worklist ?n @ (if t \<in> set (gc_worklist ?n) then [] else [t])"
      using gc_mark_ok [OF n(1) target_item [OF oi Some]] by blast
    then show ?thesis using gc_scan_reloc_target [OF rep] Some n(2) by auto
  qed
  then obtain st1 new1 where st1: "gc_scan_reloc (length (all_items objs)) table oi object reloc st = Inr st1" "gc_ok objs st1"
    "gc_referenced st1 = gc_referenced ?n" "gc_worklist st1 = gc_worklist st @ new1"
    "set (gc_worklist st1) = set (gc_worklist st) \<union> set_option ?T" by blast
  obtain st2 new2 where st2: "fold_outcome (gc_scan_reloc (length (all_items objs)) table oi object) relocs st1 = Inr st2" "gc_ok objs st2"
    "gc_worklist st2 = gc_worklist st1 @ new2"
    "set (gc_worklist st2) = set (gc_worklist st1) \<union> {t. \<exists>reloc\<in>set relocs. gc_target (definition_of objs) oi object reloc = Some t}"
    "\<forall>a < length objs. \<forall>k < symbol_total (objs ! a). gc_referenced st2 ! a ! k = (gc_referenced st1 ! a ! k \<or> a = oi \<and> refers object relocs k)"
    using Cons.IH [OF st1(2)] by blast
  have "gc_referenced st2 ! a ! k = (gc_referenced st ! a ! k \<or> a = oi \<and> refers object (reloc # relocs) k)"
    if "a < length objs" "k < symbol_total (objs ! a)" for a k
    using st2(5) st1(3) note_symbol_effect [OF Cons.prems oi that, of reloc] that by (auto simp: refers_def)
  moreover have "set (gc_worklist st2) =
      set (gc_worklist st) \<union> {t. \<exists>r\<in>set (reloc # relocs). gc_target (definition_of objs) oi object r = Some t}"
    unfolding st2(4) st1(5) by auto
  ultimately show ?case using st1(1,4) st2(1-3) by auto
qed


text \<open>The loop: what has been processed is closed under edges, and everything in the worklist is reachable.\<close>

definition processed_ok :: "LinkedInputObject list \<Rightarrow> string option \<Rightarrow> nat \<Rightarrow> GcState \<Rightarrow> bool" where
  "processed_ok objs entry p st \<longleftrightarrow> gc_ok objs st \<and> p \<le> length (gc_worklist st) \<and>
     (\<forall>t\<in>set (gc_worklist st). gc_reachable objs entry t) \<and> (\<forall>t. gc_root objs entry t \<longrightarrow> t \<in> set (gc_worklist st)) \<and>
     (\<forall>s\<in>set (take p (gc_worklist st)). \<forall>t. gc_edge objs s t \<longrightarrow> t \<in> set (gc_worklist st)) \<and>
     (\<forall>a ob k. a < length objs \<longrightarrow> in_object (objs ! a) = Some ob \<longrightarrow> k < length (ob_symbols ob) \<longrightarrow>
        gc_referenced st ! a ! k = (\<exists>s\<in>set (take p (gc_worklist st)). fst s = a \<and> refers ob (relocs_of objs s) k))"

lemma trace_step:
  assumes rep: "gc_rep table (definition_of objs) k" "k < length table" and inv: "processed_ok objs entry p st"
    and p: "p < length (gc_worklist st)" "gc_worklist st ! p = (oi, si)"
  shows "\<exists>object st'. in_object (objs ! oi) = Some object \<and>
    fold_outcome (gc_scan_reloc (length (all_items objs)) table oi object) (sc_relocations (ob_sections object ! si)) st = Inr st' \<and>
    processed_ok objs entry (Suc p) st'"
proof -
  have ok: "gc_ok objs st" using inv by (simp add: processed_ok_def)
  have mem: "(oi, si) \<in> set (gc_worklist st)" using p by (metis nth_mem)
  then have "(oi, si) \<in> set (all_items objs)" using ok by (auto simp: gc_ok_def)
  then have in_range: "oi < length objs" "si < length (object_sections (objs ! oi))" by (simp_all add: all_items_iff)
  then obtain object where ob: "in_object (objs ! oi) = Some object" by (cases "in_object (objs ! oi)") (auto simp: object_sections_def)
  let ?rs = "sc_relocations (ob_sections object ! si)"
  have rs: "relocs_of objs (oi, si) = ?rs" using ob by (simp add: relocs_of_def object_sections_def)
  have edge: "gc_edge objs (oi, si) t \<longleftrightarrow> (\<exists>reloc\<in>set ?rs. gc_target (definition_of objs) oi object reloc = Some t)" for t
    using ob rs by (simp add: gc_edge_def)
  obtain st' new where st': "fold_outcome (gc_scan_reloc (length (all_items objs)) table oi object) ?rs st = Inr st'" "gc_ok objs st'"
    "gc_worklist st' = gc_worklist st @ new"
    "set (gc_worklist st') = set (gc_worklist st) \<union> {t. \<exists>reloc\<in>set ?rs. gc_target (definition_of objs) oi object reloc = Some t}"
    "\<forall>a < length objs. \<forall>k < symbol_total (objs ! a). gc_referenced st' ! a ! k = (gc_referenced st ! a ! k \<or> a = oi \<and> refers object ?rs k)"
    using scan_relocs_ok [OF rep in_range(1) ob ok, of ?rs] by blast
  have take: "take (Suc p) (gc_worklist st') = take p (gc_worklist st) @ [(oi, si)]"
    using p st'(3) by (simp add: take_Suc_conv_app_nth)
  have "\<forall>t\<in>set (gc_worklist st'). gc_reachable objs entry t"
    using inv mem gc_reachable.edge [of objs entry "(oi, si)"] edge unfolding st'(4) by (auto simp: processed_ok_def)
  moreover have "\<forall>t. gc_root objs entry t \<longrightarrow> t \<in> set (gc_worklist st')" using inv st'(4) by (simp add: processed_ok_def)
  moreover have "\<forall>s\<in>set (take (Suc p) (gc_worklist st')). \<forall>t. gc_edge objs s t \<longrightarrow> t \<in> set (gc_worklist st')"
    using inv edge unfolding take st'(4) by (auto simp: processed_ok_def)
  moreover have "gc_referenced st' ! a ! k = (\<exists>s\<in>set (take (Suc p) (gc_worklist st')). fst s = a \<and> refers ob (relocs_of objs s) k)"
    if a: "a < length objs" "in_object (objs ! a) = Some ob" "k < length (ob_symbols ob)" for a ob k
  proof -
    have "gc_referenced st ! a ! k = (\<exists>s\<in>set (take p (gc_worklist st)). fst s = a \<and> refers ob (relocs_of objs s) k)"
      using inv a by (simp add: processed_ok_def)
    moreover have "k < symbol_total (objs ! a)" using a by (simp add: symbol_total_def)
    ultimately show ?thesis using st'(5) a ob rs unfolding take by auto
  qed
  ultimately have "processed_ok objs entry (Suc p) st'" using st'(2,3) p(1) by (simp add: processed_ok_def)
  then show ?thesis using ob st'(1) by blast
qed

lemma trace_ok:
  assumes rep: "gc_rep table (definition_of objs) k" "k < length table"
  shows "processed_ok objs entry p st \<Longrightarrow> length (all_items objs) < p + fuel \<Longrightarrow>
    \<exists>st'. gc_trace fuel (length (all_items objs)) objs table p st = Inr st' \<and> processed_ok objs entry (length (gc_worklist st')) st'"
proof (induction fuel arbitrary: p st)
  case 0
  have "length (gc_worklist st) \<le> length (all_items objs)"
    by (rule distinct_subset_length) (use "0.prems"(1) in \<open>simp_all add: processed_ok_def gc_ok_def\<close>)
  then show ?case using 0 by (simp add: processed_ok_def)
next
  case (Suc fuel)
  show ?case
  proof (cases "p < length (gc_worklist st)")
    case True
    obtain oi si where w: "gc_worklist st ! p = (oi, si)" by (cases "gc_worklist st ! p")
    obtain object st1 where s1: "in_object (objs ! oi) = Some object"
      "fold_outcome (gc_scan_reloc (length (all_items objs)) table oi object) (sc_relocations (ob_sections object ! si)) st = Inr st1"
      "processed_ok objs entry (Suc p) st1"
      using trace_step [OF rep Suc.prems(1) True w] by blast
    then show ?thesis using Suc.IH [OF s1(3)] Suc.prems(2) True w by simp
  next
    case False
    then have "p = length (gc_worklist st)" using Suc.prems(1) by (simp add: processed_ok_def)
    then show ?thesis using Suc.prems(1) False by simp
  qed
qed

text \<open>At the end the worklist is the set of reachable sections.\<close>

lemma worklist_reachable:
  assumes "processed_ok objs entry (length (gc_worklist st)) st"
  shows "t \<in> set (gc_worklist st) \<longleftrightarrow> gc_reachable objs entry t"
proof
  show "t \<in> set (gc_worklist st) \<Longrightarrow> gc_reachable objs entry t" using assms by (simp add: processed_ok_def)
  show "gc_reachable objs entry t \<Longrightarrow> t \<in> set (gc_worklist st)"
  proof (induction rule: gc_reachable.induct)
    case (edge item t)
    then show ?case using assms by (cases t) (auto simp: processed_ok_def)
  next
    case (root item)
    then show ?case using assms by (cases item) (auto simp: processed_ok_def)
  qed
qed

text \<open>The roots.\<close>

lemma mark_roots:
  assumes "gc_ok objs st" "set items \<subseteq> set (all_items objs)"
  shows "\<exists>st'. fold_outcome (gc_mark_root (length (all_items objs)) objs) items st = Inr st' \<and> gc_ok objs st' \<and>
    gc_referenced st' = gc_referenced st \<and>
    set (gc_worklist st') = set (gc_worklist st) \<union> {t \<in> set items. sc_kind (object_sections (objs ! fst t) ! snd t) \<noteq> LINK_SECTION_KIND_UNKNOWN \<and>
      \<not> link_section_is_gc_eligible (object_sections (objs ! fst t) ! snd t)}"
  using assms
proof (induction items arbitrary: st)
  case (Cons t items)
  obtain oi si where t: "t = (oi, si)" by (cases t)
  let ?root = "sc_kind (object_sections (objs ! oi) ! si) \<noteq> LINK_SECTION_KIND_UNKNOWN \<and> \<not> link_section_is_gc_eligible (object_sections (objs ! oi) ! si)"
  have "\<exists>st1. gc_mark_root (length (all_items objs)) objs t st = Inr st1 \<and> gc_ok objs st1 \<and> gc_referenced st1 = gc_referenced st \<and>
      set (gc_worklist st1) = set (gc_worklist st) \<union> (if ?root then {t} else {})"
  proof (cases ?root)
    case True
    then show ?thesis using gc_mark_ok [OF Cons.prems(1), of t] Cons.prems(2) t by (auto simp: gc_mark_root_def Let_def)
  next
    case False
    then show ?thesis using Cons.prems(1) t by (auto simp: gc_mark_root_def Let_def)
  qed
  then obtain st1 where st1: "gc_mark_root (length (all_items objs)) objs t st = Inr st1" "gc_ok objs st1" "gc_referenced st1 = gc_referenced st"
      "set (gc_worklist st1) = set (gc_worklist st) \<union> (if ?root then {t} else {})" by blast
  then show ?case using Cons.IH [OF st1(2)] Cons.prems(2) t by auto
qed simp

abbreviation entry_name :: "LinkResolutionOptions option \<Rightarrow> string option" where
  "entry_name options \<equiv> (case options of None \<Rightarrow> None | Some op \<Rightarrow> op_entry_symbol_name op)"

lemma mark_entry:
  assumes rep: "gc_rep table (definition_of objs) k" "k < length table" and ok: "gc_ok objs st"
  shows "\<exists>st'. gc_mark_entry (length (all_items objs)) options table st = Inr st' \<and> gc_ok objs st' \<and> gc_referenced st' = gc_referenced st \<and>
    set (gc_worklist st') = set (gc_worklist st) \<union> {t. \<exists>name d. entry_name options = Some name \<and> name \<noteq> '''' \<and>
      definition_of objs name = Some d \<and> t = (gd_object_index d, gd_section_index d)}"
proof (cases "entry_name options")
  case None
  then show ?thesis using ok by (simp add: gc_mark_entry_def)
next
  case (Some name)
  note f = gc_find_map [OF rep, of name]
  show ?thesis
  proof (cases "definition_of objs name")
    case None
    then show ?thesis using ok f Some by (auto simp: gc_mark_entry_def)
  next
    case (Some d)
    then show ?thesis using gc_mark_ok [OF ok definition_item [OF Some]] f ok \<open>entry_name options = Some name\<close>
      by (cases "name = ''''") (auto simp: gc_mark_entry_def)
  qed
qed

definition gc_start :: "LinkedInputObject list \<Rightarrow> GcState" where
  "gc_start objs = \<lparr>gc_live = map section_flags objs, gc_worklist = [], gc_referenced = map symbol_flags objs\<rparr>"

lemma start_ok: "gc_ok objs (gc_start objs)"
  by (auto simp: gc_ok_def gc_start_def section_flags_def symbol_flags_def object_sections_def symbol_total_def all_items_iff split: option.split)

text \<open>Marking as a whole.\<close>

lemma marking_ok:
  assumes rep: "gc_rep table (definition_of objs) k" "k < length table"
  shows "\<exists>st. andthen (fold_outcome (gc_mark_root (length (all_items objs)) objs) (all_items objs) (gc_start objs)) (\<lambda>st.
      andthen (gc_mark_entry (length (all_items objs)) options table st) (\<lambda>st.
      gc_trace (length (all_items objs) + 1) (length (all_items objs)) objs table 0 st)) = Inr st \<and>
    processed_ok objs (entry_name options) (length (gc_worklist st)) st"
proof -
  obtain st1 where s1: "fold_outcome (gc_mark_root (length (all_items objs)) objs) (all_items objs) (gc_start objs) = Inr st1" "gc_ok objs st1"
    "gc_referenced st1 = gc_referenced (gc_start objs)"
    "set (gc_worklist st1) = set (gc_worklist (gc_start objs)) \<union> {t \<in> set (all_items objs). sc_kind (object_sections (objs ! fst t) ! snd t) \<noteq> LINK_SECTION_KIND_UNKNOWN \<and>
      \<not> link_section_is_gc_eligible (object_sections (objs ! fst t) ! snd t)}"
    using mark_roots [OF start_ok subset_refl] by blast
  obtain st2 where s2: "gc_mark_entry (length (all_items objs)) options table st1 = Inr st2" "gc_ok objs st2" "gc_referenced st2 = gc_referenced st1"
    "set (gc_worklist st2) = set (gc_worklist st1) \<union> {t. \<exists>name d. entry_name options = Some name \<and> name \<noteq> '''' \<and>
      definition_of objs name = Some d \<and> t = (gd_object_index d, gd_section_index d)}"
    using mark_entry [OF rep s1(2)] by blast
  have roots: "set (gc_worklist st2) = {t. gc_root objs (entry_name options) t}"
    unfolding s2(4) s1(4) gc_root_def by (auto simp: gc_start_def)
  have "\<not> gc_referenced st2 ! a ! k" if "a < length objs" "in_object (objs ! a) = Some ob" "k < length (ob_symbols ob)" for a ob k
    using that s1(3) s2(3) by (simp add: gc_start_def symbol_flags_def)
  then have "processed_ok objs (entry_name options) 0 st2" using s2(2) roots gc_reachable.root by (simp add: processed_ok_def)
  from trace_ok [OF rep this, of "length (all_items objs) + 1"] show ?thesis using s1(1) s2(1) by auto
qed


section \<open>Properties\<close>

definition collected :: "LinkedInputObject list \<Rightarrow> string option \<Rightarrow> nat \<Rightarrow> LinkedInputObject \<Rightarrow> bool" where
  "collected objs entry oi inp \<longleftrightarrow>
    (case in_object (objs ! oi) of
       None \<Rightarrow> inp = objs ! oi
     | Some ob \<Rightarrow> \<exists>dead ref. inp = (objs ! oi)\<lparr>in_section_gc_dead := Some dead, in_symbol_gc_referenced := Some ref\<rparr> \<and>
         length dead = length (ob_sections ob) \<and> length ref = length (ob_symbols ob) \<and>
         (\<forall>si < length dead. dead ! si \<longleftrightarrow> link_section_is_gc_eligible (ob_sections ob ! si) \<and> \<not> gc_reachable objs entry (oi, si)) \<and>
         (\<forall>k < length ref. ref ! k \<longleftrightarrow> (\<exists>si. gc_reachable objs entry (oi, si) \<and>
            (\<exists>reloc\<in>set (sc_relocations (ob_sections ob ! si)). unat (rl_symbol_index reloc) = k))))"

lemma map_outcome_total:
  assumes "\<And>k. k < length xs \<Longrightarrow> (f (i + k) (xs ! k) = Inl e \<and> Q) \<or> (\<exists>y. f (i + k) (xs ! k) = Inr y)"
  shows "(map_outcome f i xs = Inl e \<and> Q) \<or> (\<exists>ys. map_outcome f i xs = Inr ys)"
  using assms
proof (induction xs arbitrary: i)
  case (Cons x xs)
  have "(map_outcome f (Suc i) xs = Inl e \<and> Q) \<or> (\<exists>ys. map_outcome f (Suc i) xs = Inr ys)"
  proof (rule Cons.IH)
    show "f (Suc i + k) (xs ! k) = Inl e \<and> Q \<or> (\<exists>y. f (Suc i + k) (xs ! k) = Inr y)" if "k < length xs" for k
      using Cons.prems [of "Suc k"] that by simp
  qed
  moreover have "f i x = Inl e \<and> Q \<or> (\<exists>y. f i x = Inr y)" using Cons.prems [of 0] by simp
  ultimately show ?case by auto
qed simp

lemma sweep_collected:
  assumes fin: "processed_ok objs entry (length (gc_worklist st)) st" and oi: "oi < length objs"
    and sweep: "gc_sweep_object mem st oi (objs ! oi) = Inr inp"
  shows "collected objs entry oi inp"
proof (cases "in_object (objs ! oi)")
  case None
  then show ?thesis using sweep by (simp add: gc_sweep_object_def collected_def)
next
  case (Some ob)
  have ok: "gc_ok objs st" using fin by (simp add: processed_ok_def)
  note reach = worklist_reachable [OF fin]
  have live: "gc_live st ! oi ! si = gc_reachable objs entry (oi, si)" if "si < length (ob_sections ob)" for si
    using ok that oi Some reach by (simp add: gc_ok_def all_items_iff object_sections_def)
  have len: "length (gc_referenced st ! oi) = length (ob_symbols ob)"
    using gc_ok_lengths(4) [OF ok oi] Some by (simp add: symbol_total_def)
  have ref: "gc_referenced st ! oi ! k = (\<exists>si. gc_reachable objs entry (oi, si) \<and>
      (\<exists>reloc\<in>set (sc_relocations (ob_sections ob ! si)). unat (rl_symbol_index reloc) = k))" if k: "k < length (ob_symbols ob)" for k
  proof -
    have "gc_referenced st ! oi ! k = (\<exists>s\<in>set (gc_worklist st). fst s = oi \<and> refers ob (relocs_of objs s) k)"
      using fin oi Some k by (simp add: processed_ok_def)
    also have "\<dots> = (\<exists>si. (oi, si) \<in> set (gc_worklist st) \<and> refers ob (relocs_of objs (oi, si)) k)" by force
    finally show ?thesis using reach k Some by (simp add: refers_def relocs_of_def object_sections_def)
  qed
  let ?dead = "map (\<lambda>i. \<not> gc_live st ! oi ! i \<and> link_section_is_gc_eligible (ob_sections ob ! i)) [0..<length (ob_sections ob)]"
  have "inp = (objs ! oi)\<lparr>in_section_gc_dead := Some ?dead, in_symbol_gc_referenced := Some (gc_referenced st ! oi)\<rparr>"
    using sweep Some by (simp add: gc_sweep_object_def andthen_Inr_iff)
  then show ?thesis unfolding collected_def Some option.case
    by (intro exI [of _ ?dead] exI [of _ "gc_referenced st ! oi"] conjI) (use live len ref in auto)
qed

lemma gc_outcome:
  assumes "sum_list (map symbol_total (rs_objects r)) < 2 ^ 60" and "all_items (rs_objects r) \<noteq> []"
  shows "(link_resolution_gc_sections mem options r = Inl OutOfMemory \<and> mem \<noteq> plenty) \<or>
    (if definitions_clash (rs_objects r)
     then link_resolution_gc_sections mem options r = Inl (Refused ''Duplicate external symbol'')
     else \<exists>objs. link_resolution_gc_sections mem options r = Inr (r\<lparr>rs_objects := objs\<rparr>) \<and> length objs = length (rs_objects r) \<and>
       (\<forall>oi < length objs. collected (rs_objects r) (entry_name options) oi (objs ! oi)))"
proof -
  let ?objs = "rs_objects r" and ?L = "length (all_items (rs_objects r))"
  have L: "sum_list (map (\<lambda>inp. length (object_sections inp)) ?objs) = ?L" by (rule all_items_length [symmetric])
  have "?L \<noteq> 0" using assms(2) by simp
  let ?c = "fold_outcome (gc_collect_object mem ?objs) [0..<length ?objs] (replicate (double_until 64 (sum_list (map symbol_total ?objs) * 2)) None)"
  have gc: "link_resolution_gc_sections mem options r =
      andthen (allocate_mem (mem GcTables)) (\<lambda>_. andthen ?c (\<lambda>table.
      andthen (andthen (fold_outcome (gc_mark_root ?L ?objs) (all_items ?objs) (gc_start ?objs)) (\<lambda>st.
        andthen (gc_mark_entry ?L options table st) (\<lambda>st. gc_trace (?L + 1) ?L ?objs table 0 st))) (\<lambda>st.
      andthen (map_outcome (gc_sweep_object mem st) 0 ?objs) (\<lambda>objs. Inr (r\<lparr>rs_objects := objs\<rparr>)))))"
    unfolding link_resolution_gc_sections_def Let_def L gc_start_def [symmetric] using \<open>?L \<noteq> 0\<close> by (simp add: andthen_assoc)
  consider (oom) "\<not> mem GcTables" | (oom2) "?c = Inl OutOfMemory" "mem \<noteq> plenty"
    | (clash) "mem GcTables" "definitions_clash ?objs" "?c = Inl (Refused ''Duplicate external symbol'')"
    | (ok) table k where "mem GcTables" "\<not> definitions_clash ?objs" "?c = Inr table" "gc_rep table (definition_of ?objs) k" "k < length table"
    using collect_all [OF assms(1), of mem] by (auto split: if_splits)
  then show ?thesis
  proof cases
    case oom
    then show ?thesis unfolding gc by (auto simp: allocate_mem_def plenty_def)
  next
    case oom2
    then show ?thesis unfolding gc by (simp add: allocate_mem_def)
  next
    case clash
    then show ?thesis unfolding gc by (simp add: allocate_mem_def)
  next
    case (ok table k)
    obtain st where st: "andthen (fold_outcome (gc_mark_root ?L ?objs) (all_items ?objs) (gc_start ?objs)) (\<lambda>st.
        andthen (gc_mark_entry ?L options table st) (\<lambda>st. gc_trace (?L + 1) ?L ?objs table 0 st)) = Inr st"
      "processed_ok ?objs (entry_name options) (length (gc_worklist st)) st"
      using marking_ok [OF ok(4,5)] by blast
    have e: "link_resolution_gc_sections mem options r = andthen (map_outcome (gc_sweep_object mem st) 0 ?objs) (\<lambda>objs. Inr (r\<lparr>rs_objects := objs\<rparr>))"
      unfolding gc ok(3) andthen_simps st(1) by (simp add: allocate_mem_def ok(1))
    have "(map_outcome (gc_sweep_object mem st) 0 ?objs = Inl OutOfMemory \<and> mem \<noteq> plenty) \<or> (\<exists>ys. map_outcome (gc_sweep_object mem st) 0 ?objs = Inr ys)"
      by (rule map_outcome_total) (auto simp: gc_sweep_object_def allocate_mem_def plenty_def split: option.split)
    then show ?thesis
    proof (elim disjE exE)
      fix ys assume ys: "map_outcome (gc_sweep_object mem st) 0 ?objs = Inr ys"
      then have "length ys = length ?objs" "\<forall>oi < length ?objs. gc_sweep_object mem st oi (?objs ! oi) = Inr (ys ! oi)"
        using map_outcome_nth [OF ys] by simp_all
      then show ?thesis using e ys ok(2) sweep_collected [OF st(2)] by (auto intro!: exI [of _ ys])
    qed (use e in simp)
  qed
qed

text \<open>C29. Garbage collection of sections, for any set of objects: unless memory runs out, it fails exactly when the program (or
  the default runtime on its own) defines a name twice, and otherwise ends, never writes past its worklist, and leaves in
  every object flags that say exactly which sections are dead - those that may be collected and that no chain of
  relocations reaches from a section that must stay or from the entry point - and which symbols a live section refers to.\<close>

theorem gc_collects_unreachable:
  assumes "sum_list (map symbol_total (rs_objects r)) < 2 ^ 60" and "all_items (rs_objects r) \<noteq> []"
  shows "(link_resolution_gc_sections mem options r = Inl OutOfMemory \<and> mem \<noteq> plenty) \<or>
    (if definitions_clash (rs_objects r)
     then link_resolution_gc_sections mem options r = Inl (Refused ''Duplicate external symbol'')
     else \<exists>objs. link_resolution_gc_sections mem options r = Inr (r\<lparr>rs_objects := objs\<rparr>) \<and> length objs = length (rs_objects r) \<and>
       (\<forall>oi < length objs. collected (rs_objects r) (entry_name options) oi (objs ! oi)))"
  using assms by (rule gc_outcome)


text \<open>An object whose entry point refers to one of two other functions, each in a section of its own.\<close>

definition function_section :: "string \<Rightarrow> LinkReloc list \<Rightarrow> LinkSection" where
  "function_section nm relocs = \<lparr>sc_name = Some (''.text.'' @ nm), sc_kind = LINK_SECTION_KIND_TEXT, sc_virtual_size = 8,
     sc_size_of_raw_data = 8, sc_alignment = 16, sc_raw_data = Some (replicate 8 0), sc_relocations = relocs, sc_is_metadata = False\<rparr>"

definition function_symbol :: "string \<Rightarrow> int \<Rightarrow> LinkSymbol" where
  "function_symbol nm si = \<lparr>sy_name = Some nm, sy_value = 0, sy_section_index = si, sy_is_external = True, sy_is_defined = True,
     sy_is_auxiliary = False, sy_is_weak = False, sy_is_common = False, sy_aux_section_length = 0, sy_size = 8, sy_elf_type = 2\<rparr>"

definition three_functions :: LinkObject where
  "three_functions = \<lparr>ob_format = LINK_FORMAT_ELF,
     ob_sections = [function_section ''main'' [\<lparr>rl_offset = 1, rl_symbol_index = 2, rl_kind = LINK_RELOC_PC32, rl_addend = - 4,
                      rl_addend_is_explicit = True, rl_format_type = 2\<rparr>], function_section ''a'' [], function_section ''b'' []],
     ob_symbols = [function_symbol ''main'' 0, function_symbol ''a'' 1, function_symbol ''b'' 2]\<rparr>"

definition sample_gc :: LinkResolution where
  "sample_gc = blank_resolution [(sample_input False)\<lparr>in_object := Some three_functions\<rparr>]"

definition main_options :: "LinkResolutionOptions option" where
  "main_options = Some \<lparr>op_entry_symbol_name = Some ''main'', op_section_alignment = 16, op_allow_unresolved_externals = False,
     op_object_is_runtime_default = None, op_shared_library_paths = [], op_produce_shared_library = False\<rparr>"

lemma sample_gc_runs:
  "(case link_resolution_gc_sections plenty main_options sample_gc of Inl _ \<Rightarrow> False
    | Inr r \<Rightarrow> map in_section_gc_dead (rs_objects r) = [Some [False, True, False]] \<and>
        map in_symbol_gc_referenced (rs_objects r) = [Some [False, False, True]])"
  by code_simp

theorem gc_collects_unreachable_witness:
  "\<exists>objs. link_resolution_gc_sections plenty main_options sample_gc = Inr (sample_gc\<lparr>rs_objects := objs\<rparr>) \<and>
     map in_section_gc_dead objs = [Some [False, True, False]] \<and> collected (rs_objects sample_gc) (Some ''main'') 0 (objs ! 0)"
proof (cases "link_resolution_gc_sections plenty main_options sample_gc")
  case (Inr r)
  have 1: "sum_list (map symbol_total (rs_objects sample_gc)) < 2 ^ 60"
    by (simp add: sample_gc_def blank_resolution_def symbol_total_def three_functions_def)
  have "(0, 0) \<in> set (all_items (rs_objects sample_gc))"
    by (simp add: all_items_iff sample_gc_def blank_resolution_def object_sections_def three_functions_def)
  then have 2: "all_items (rs_objects sample_gc) \<noteq> []" by (metis empty_iff empty_set)
  have e: "entry_name main_options = Some ''main''" by (simp add: main_options_def)
  have d: "map in_section_gc_dead (rs_objects r) = [Some [False, True, False]]" using sample_gc_runs unfolding Inr by simp
  obtain objs where o: "r = sample_gc\<lparr>rs_objects := objs\<rparr>" "\<forall>oi < length objs. collected (rs_objects sample_gc) (Some ''main'') oi (objs ! oi)"
    using gc_collects_unreachable [OF 1 2, of plenty main_options] unfolding Inr e
    by (auto simp only: sum.distinct sum.inject split: if_splits)
  have m: "map in_section_gc_dead objs = [Some [False, True, False]]" using d unfolding o(1) by simp
  then have "length objs = 1" by (metis length_map One_nat_def length_Cons list.size(3))
  then have "collected (rs_objects sample_gc) (Some ''main'') 0 (objs ! 0)" using o(2) by simp
  with Inr [unfolded o(1)] m show ?thesis by (intro exI [of _ objs] conjI)
qed (use sample_gc_runs in simp)

end
