(* ===== verification/LinkLayout.thy ===== *)
theory LinkLayout
  imports LinkMerge
begin

text \<open>
  What merging and address assignment guarantee: the contributions of a merged section do not overlap, are aligned and
  hold the bytes of their input sections, everything else in the buffer is zero, and the merged sections occupy
  disjoint ranges of addresses.
\<close>

section \<open>The buffer\<close>

lemma grow_capacity_ge: "grow_capacity fuel c m = Inr c' \<Longrightarrow> m \<le> c'"
  by (induction fuel arbitrary: c) (auto split: if_splits)

lemma reserve_data_ok:
  assumes "link_section_reserve_data ok junk s m = Inr s'" "length (lk_data s) < 2 ^ 64"
  shows "\<exists>ext. s' = s\<lparr>lk_data := lk_data s @ ext\<rparr> \<and> unat m \<le> length (lk_data s @ ext) \<and> length (lk_data s @ ext) < 2 ^ 64"
proof -
  let ?n = "length (lk_data s)"
  have u: "unat (word_of_nat ?n :: u64) = ?n" using assms(2) by (simp add: unat_of_nat take_bit_nat_eq_self)
  consider "m \<le> word_of_nat ?n" "s' = s\<lparr>lk_data := lk_data s @ []\<rparr>"
    | c where "\<not> m \<le> word_of_nat ?n" "m \<le> c" "s' = s\<lparr>lk_data := lk_data s @ map junk [?n..<unat c]\<rparr>"
    using assms(1) unfolding link_section_reserve_data_def Let_def
    by (auto simp: andthen_Inr_iff dest: grow_capacity_ge split: if_splits)
  then show ?thesis
  proof cases
    case 1
    then show ?thesis using u assms(2) by (intro exI [of _ "[]"]) (simp add: word_le_nat_alt)
  next
    case 2
    have "unat c < 2 ^ 64" using unat64_less [of c] by simp
    moreover have "?n < unat m" "unat m \<le> unat c" using 2(1,2) u by (simp_all add: word_le_nat_alt)
    ultimately show ?thesis using 2(3) by (intro exI [of _ "map junk [?n..<unat c]"]) simp
  qed
qed

text \<open>Enough steps are allowed: a minimum that is representable with room to double is always reached.\<close>

lemma grow_capacity_total:
  assumes "unat m \<le> 2 ^ 63" "0 < unat c" "2 ^ 63 \<le> unat c * 2 ^ k" "k < fuel"
  shows "\<exists>c'. grow_capacity fuel c m = Inr c'"
  using assms
proof (induction k arbitrary: fuel c)
  case 0
  then have "\<not> c < m" by (simp add: word_less_nat_alt)
  then show ?case using 0 by (cases fuel) auto
next
  case (Suc k)
  obtain f where f: "fuel = Suc f" "k < f" using Suc.prems by (cases fuel) auto
  show ?case
  proof (cases "c < m")
    case True
    then have "unat c < 2 ^ 63" using Suc.prems(1) by (simp add: word_less_nat_alt)
    then have "unat (c * 2) = unat c * 2" by (simp add: unat_word_ariths)
    then have "\<exists>c'. grow_capacity f (c * 2) m = Inr c'" using Suc.prems f by (intro Suc.IH) (simp_all add: mult.assoc)
    then show ?thesis using f True by simp
  qed (simp add: f)
qed

lemma copy_raw_ok:
  assumes c: "copy_raw ok junk start sec s = Inr s'" and len: "length (lk_data s) < 2 ^ 64"
    and size: "unat (lk_size s) \<le> length (lk_data s)" "unat (lk_size s) \<le> unat start"
    and fit: "unat start + unat (sc_size_of_raw_data sec) < 2 ^ 64"
  obtains d raw where "s' = s\<lparr>lk_data := d, lk_size := start + sc_size_of_raw_data sec,
        lk_virtual_size := (if lk_virtual_size s < start + sc_size_of_raw_data sec then start + sc_size_of_raw_data sec else lk_virtual_size s)\<rparr>"
    "length d < 2 ^ 64" "unat start + unat (sc_size_of_raw_data sec) \<le> length d"
    "sc_raw_data sec = Some raw" "unat (sc_size_of_raw_data sec) \<le> length raw"
    "\<And>p. p < unat start + unat (sc_size_of_raw_data sec) \<Longrightarrow>
       d ! p = (if p < unat (lk_size s) then lk_data s ! p else if p < unat start then 0 else raw ! (p - unat start))"
proof -
  let ?n = "unat (sc_size_of_raw_data sec)" and ?a = "unat start" and ?z = "unat (lk_size s)"
  have add: "unat (start + sc_size_of_raw_data sec) = ?a + ?n" using fit by (simp add: unat_word_ariths)
  obtain s1 d0 d raw where s1: "link_section_reserve_data ok junk s (start + sc_size_of_raw_data sec) = Inr s1"
    and d0: "(if start > lk_size s1 then poke (lk_data s1) (unat (lk_size s1)) (replicate (unat (start - lk_size s1)) 0)
             else Inr (lk_data s1)) = Inr d0"
    and raw: "sc_raw_data sec = Some raw" "?n \<le> length raw" and d: "poke d0 ?a (take ?n raw) = Inr d"
    and s': "s' = s1\<lparr>lk_data := d, lk_size := start + sc_size_of_raw_data sec,
        lk_virtual_size := (if lk_virtual_size s1 < start + sc_size_of_raw_data sec then start + sc_size_of_raw_data sec else lk_virtual_size s1)\<rparr>"
    using c unfolding copy_raw_def Let_def by (fastforce simp: andthen_Inr_iff not_less split: option.splits if_splits)
  obtain ext where ext: "s1 = s\<lparr>lk_data := lk_data s @ ext\<rparr>" "?a + ?n \<le> length (lk_data s @ ext)" "length (lk_data s @ ext) < 2 ^ 64"
    using reserve_data_ok [OF s1 len] add by auto
  have diff: "unat (start - lk_size s) = ?a - ?z" using size(2) by (simp add: unat_sub word_le_nat_alt)
  have l0: "length d0 = length (lk_data s @ ext)" using d0 ext(1) by (auto dest: length_poke split: if_splits)
  have l: "length d = length (lk_data s @ ext)" using length_poke [OF d] l0 by simp
  have n0: "d0 ! p = (if p < ?z then lk_data s ! p else if p < ?a then 0 else (lk_data s @ ext) ! p)" if "p < length d0" for p
  proof (cases "start > lk_size s")
    case True
    then have pk: "poke (lk_data s @ ext) ?z (replicate (?a - ?z) 0) = Inr d0" using d0 ext(1) diff by simp
    show ?thesis using nth_poke [OF pk, of p] that l0 size by (auto simp: nth_append)
  next
    case False
    then have "d0 = lk_data s @ ext" "?a = ?z" using d0 ext(1) size(2) by (auto simp: word_less_nat_alt)
    then show ?thesis using size(1) by (auto simp: nth_append)
  qed
  show ?thesis
  proof (rule that)
    show "s' = s\<lparr>lk_data := d, lk_size := start + sc_size_of_raw_data sec,
        lk_virtual_size := (if lk_virtual_size s < start + sc_size_of_raw_data sec then start + sc_size_of_raw_data sec else lk_virtual_size s)\<rparr>"
      using s' ext(1) by simp
    show "length d < 2 ^ 64" "?a + ?n \<le> length d" using l ext by simp_all
    show "sc_raw_data sec = Some raw" "?n \<le> length raw" by fact+
    fix p assume p: "p < ?a + ?n"
    then show "d ! p = (if p < ?z then lk_data s ! p else if p < ?a then 0 else raw ! (p - ?a))"
      using nth_poke [OF d, of p] n0 [of p] l0 ext(2) raw(2) size by auto
  qed
qed

section \<open>The layout of a merged section\<close>

definition source_section :: "LinkedInputObject list \<Rightarrow> LinkedSectionContribution \<Rightarrow> LinkSection" where
  "source_section objs c = ob_sections (the (in_object (objs ! ct_object_index c))) ! ct_section_index c"

text \<open>The bytes a contribution occupies, its range, and the bytes it puts there.\<close>

definition span :: "LinkedInputObject list \<Rightarrow> LinkedSectionContribution \<Rightarrow> nat" where
  "span objs c = (if has_raw (source_section objs c) then unat (sc_size_of_raw_data (source_section objs c)) else unat (ct_size c))"

abbreviation offset_of :: "LinkedSectionContribution \<Rightarrow> nat" where
  "offset_of c \<equiv> unat (ct_merged_offset c)"

definition holds_bytes :: "LinkedInputObject list \<Rightarrow> LinkedSection \<Rightarrow> LinkedSectionContribution \<Rightarrow> bool" where
  "holds_bytes objs s c \<longleftrightarrow> (\<exists>raw. sc_raw_data (source_section objs c) = Some raw \<and> span objs c \<le> length raw \<and>
     offset_of c + span objs c \<le> unat (lk_size s) \<and> take (span objs c) (drop (offset_of c) (lk_data s)) = take (span objs c) raw)"

definition well_placed :: "LinkedSection \<Rightarrow> LinkedInputObject list \<Rightarrow> LinkedSectionContribution \<Rightarrow> bool" where
  "well_placed s objs c \<longleftrightarrow> offset_of c + span objs c \<le> unat (lk_virtual_size s) \<and>
     (\<forall>k. unat (ct_alignment c) = 2 ^ k \<longrightarrow> 2 ^ k dvd offset_of c) \<and> ct_alignment c \<le> lk_alignment s \<and>
     (has_raw (source_section objs c) \<longrightarrow> holds_bytes objs s c)"

definition laid_out :: "LinkedInputObject list \<Rightarrow> LinkedSection \<Rightarrow> bool" where
  "laid_out objs s \<longleftrightarrow> length (lk_data s) < 2 ^ 64 \<and> unat (lk_size s) \<le> length (lk_data s) \<and> lk_size s \<le> lk_virtual_size s \<and>
     sorted_wrt (\<lambda>c d. offset_of c + span objs c \<le> offset_of d) (lk_contributions s) \<and>
     (\<forall>c\<in>set (lk_contributions s). well_placed s objs c) \<and>
     (\<forall>p < unat (lk_size s). lk_data s ! p \<noteq> 0 \<longrightarrow>
        (\<exists>c\<in>set (lk_contributions s). has_raw (source_section objs c) \<and> offset_of c \<le> p \<and> p < offset_of c + span objs c))"

lemma laid_out_blank: "laid_out objs (blank_section k)"
  by (simp add: laid_out_def blank_section_def)

lemma take_drop_eqI:
  assumes "a + n \<le> length d" "n \<le> length raw" "\<And>i. i < n \<Longrightarrow> d ! (a + i) = raw ! i"
  shows "take n (drop a d) = take n raw"
  using assms by (intro nth_equalityI) simp_all

lemma take_drop_eq: "take n (drop a d) = take n raw \<Longrightarrow> a + n \<le> length d \<Longrightarrow> n \<le> length raw \<Longrightarrow> i < n \<Longrightarrow> d ! (a + i) = raw ! i"
  by (metis add.commute diff_is_0_eq' le_add_diff_inverse length_drop min.absorb4 min_less_iff_conj nth_drop nth_take add_leD1)

text \<open>The buffer may grow and change beyond what is already placed.\<close>

lemma well_placed_grow:
  assumes "well_placed s objs c" "unat (lk_virtual_size s) \<le> unat (lk_virtual_size s')" "lk_alignment s \<le> lk_alignment s'"
    "unat (lk_size s) \<le> unat (lk_size s')" "unat (lk_size s) \<le> length (lk_data s)" "unat (lk_size s) \<le> length (lk_data s')"
    "\<And>p. p < unat (lk_size s) \<Longrightarrow> lk_data s' ! p = lk_data s ! p"
  shows "well_placed s' objs c"
proof -
  have "holds_bytes objs s' c" if h: "holds_bytes objs s c"
  proof -
    obtain raw where raw: "sc_raw_data (source_section objs c) = Some raw" "span objs c \<le> length raw"
      "offset_of c + span objs c \<le> unat (lk_size s)" "take (span objs c) (drop (offset_of c) (lk_data s)) = take (span objs c) raw"
      using h by (auto simp: holds_bytes_def)
    have "take (span objs c) (drop (offset_of c) (lk_data s')) = take (span objs c) raw"
      by (rule take_drop_eqI) (use raw assms(5-7) take_drop_eq [OF raw(4)] in auto)
    then show ?thesis using raw assms(4) by (auto simp: holds_bytes_def)
  qed
  then show ?thesis using assms(1-3) by (auto simp: well_placed_def)
qed


text \<open>One section more. \<open>room\<close>: no sum of sizes and alignments overflows.\<close>

definition new_contribution :: "nat \<Rightarrow> nat \<Rightarrow> u64 \<Rightarrow> u64 \<Rightarrow> u64 \<Rightarrow> LinkedSectionContribution" where
  "new_contribution oi i start sz align = \<lparr>ct_object_index = oi, ct_section_index = i, ct_merged_offset = start, ct_size = sz, ct_alignment = align\<rparr>"

lemma laid_out_extend:
  assumes lay: "laid_out objs s" and c: "c = new_contribution oi i start sz align"
    and start: "unat (lk_virtual_size s) \<le> unat start" and div: "\<And>k. unat align = 2 ^ k \<Longrightarrow> 2 ^ k dvd unat start"
    and s': "lk_contributions s' = lk_contributions s @ [c]" "length (lk_data s') < 2 ^ 64" "unat (lk_size s') \<le> length (lk_data s')"
      "unat (lk_virtual_size s') = unat start + span objs c" "lk_alignment s \<le> lk_alignment s'" "align \<le> lk_alignment s'"
      "unat (lk_size s) \<le> unat (lk_size s')" "unat (lk_size s') \<le> unat (lk_virtual_size s')"
      "\<And>p. p < unat (lk_size s) \<Longrightarrow> lk_data s' ! p = lk_data s ! p"
      "\<And>p. unat (lk_size s) \<le> p \<Longrightarrow> p < unat (lk_size s') \<Longrightarrow> lk_data s' ! p \<noteq> 0 \<Longrightarrow> has_raw (source_section objs c) \<and> unat start \<le> p"
    and raw: "has_raw (source_section objs c) \<Longrightarrow> holds_bytes objs s' c"
  shows "laid_out objs s'"
proof -
  have oc: "offset_of c = unat start" "ct_alignment c = align" by (simp_all add: c new_contribution_def)
  have vs: "unat (lk_virtual_size s) \<le> unat (lk_virtual_size s')" using start s'(4) by simp
  have old: "well_placed s' objs d" if "d \<in> set (lk_contributions s)" for d
    by (rule well_placed_grow [of s]) (use lay that vs s'(3,5,7,9) in \<open>auto simp: laid_out_def\<close>)
  have new: "well_placed s' objs c" using raw div s'(4,6) by (simp add: well_placed_def oc)
  have sorted: "sorted_wrt (\<lambda>c d. offset_of c + span objs c \<le> offset_of d) (lk_contributions s @ [c])"
  proof -
    have "offset_of d + span objs d \<le> unat start" if "d \<in> set (lk_contributions s)" for d
      using lay that start by (fastforce simp: laid_out_def well_placed_def)
    then show ?thesis using lay by (simp add: laid_out_def sorted_wrt_append oc)
  qed
  have zeros: "\<exists>c'\<in>set (lk_contributions s'). has_raw (source_section objs c') \<and> offset_of c' \<le> p \<and> p < offset_of c' + span objs c'"
    if p: "p < unat (lk_size s')" "lk_data s' ! p \<noteq> 0" for p
  proof (cases "p < unat (lk_size s)")
    case True
    then show ?thesis using lay p(2) s'(1,9) by (fastforce simp: laid_out_def)
  next
    case False
    then have "has_raw (source_section objs c)" "unat start \<le> p" using s'(10) [of p] p by auto
    then show ?thesis using p(1) s'(1,4,8) oc by (intro bexI [of _ c]) auto
  qed
  show ?thesis unfolding laid_out_def s'(1)
    using s'(2,3,8) old new sorted zeros s'(1) by (auto simp: word_le_nat_alt)
qed

lemma reserve_contributions_ok:
  assumes "link_section_reserve_contributions ok t m = Inr t'" shows "\<exists>cap. t' = t\<lparr>lk_contribution_capacity := cap\<rparr>"
proof -
  have "\<exists>cap. t = t\<lparr>lk_contribution_capacity := cap\<rparr>" by (rule exI [of _ "lk_contribution_capacity t"]) simp
  then show ?thesis using assms by (auto simp: link_section_reserve_contributions_def andthen_Inr_iff split: if_splits)
qed

lemma place_section_steps:
  assumes "place_section mem junk fallback ob oi i s = Inr (s', start, sz)"
  defines "al \<equiv> link_section_alignment (ob_sections ob ! i) fallback"
  shows "start = linker_align_up (lk_virtual_size s) al \<and> link_estimate_section_size ob i = Inr sz \<and>
    (\<exists>s1 s2 ok m. link_section_reserve_contributions ok (if al > lk_alignment s then s\<lparr>lk_alignment := al\<rparr> else s) m = Inr s1 \<and>
       (if has_raw (ob_sections ob ! i) then copy_raw (mem (GrowSection oi i)) junk start (ob_sections ob ! i) s1
        else Inr (if lk_virtual_size s1 < start + sz then s1\<lparr>lk_virtual_size := start + sz\<rparr> else s1)) = Inr s2 \<and>
       s' = s2\<lparr>lk_contributions := lk_contributions s2 @ [new_contribution oi i start sz al]\<rparr>)"
proof -
  have vs: "lk_virtual_size (if al > lk_alignment s then s\<lparr>lk_alignment := al\<rparr> else s) = lk_virtual_size s" by simp
  show ?thesis using assms(1) unfolding place_section_def Let_def al_def [symmetric] vs new_contribution_def
    by (auto simp only: andthen_Inr_iff sum.inject prod.inject)
qed

lemma place_section_ok:
  assumes lay: "laid_out objs s" and ob: "in_object (objs ! oi) = Some ob"
    and p: "place_section mem junk fallback ob oi i s = Inr (s', start, sz)"
    and room: "unat (lk_virtual_size s) + unat (link_section_alignment (ob_sections ob ! i) fallback) +
                 max (unat (sc_size_of_raw_data (ob_sections ob ! i))) (unat sz) < 2 ^ 64"
  shows "laid_out objs s' \<and> lk_contributions s' = lk_contributions s @ [new_contribution oi i start sz (link_section_alignment (ob_sections ob ! i) fallback)] \<and>
    link_estimate_section_size ob i = Inr sz \<and>
    unat (lk_virtual_size s') \<le> unat (lk_virtual_size s) + unat (link_section_alignment (ob_sections ob ! i) fallback) +
                 max (unat (sc_size_of_raw_data (ob_sections ob ! i))) (unat sz) \<and> lk_kind s' = lk_kind s"
proof -
  let ?sec = "ob_sections ob ! i" and ?al = "link_section_alignment (ob_sections ob ! i) fallback"
  let ?c = "new_contribution oi i start sz ?al"
  obtain s1 s2 cap where st: "start = linker_align_up (lk_virtual_size s) ?al" and est: "link_estimate_section_size ob i = Inr sz"
    and s1: "s1 = (if ?al > lk_alignment s then s\<lparr>lk_alignment := ?al\<rparr> else s)\<lparr>lk_contribution_capacity := cap\<rparr>"
    and s2: "(if has_raw ?sec then copy_raw (mem (GrowSection oi i)) junk start ?sec s1
              else Inr (if lk_virtual_size s1 < start + sz then s1\<lparr>lk_virtual_size := start + sz\<rparr> else s1)) = Inr s2"
    and s': "s' = s2\<lparr>lk_contributions := lk_contributions s2 @ [?c]\<rparr>"
    using place_section_steps [OF p] reserve_contributions_ok by metis
  have src: "source_section objs ?c = ?sec" by (simp add: source_section_def new_contribution_def ob)
  have b: "unat (lk_virtual_size s) \<le> unat start" "unat start \<le> unat (lk_virtual_size s) + unat ?al"
    using align_up_bounds [of "lk_virtual_size s" ?al] room unfolding st by simp_all
  have div: "2 ^ k dvd unat start" if "unat ?al = 2 ^ k" for k unfolding st by (rule align_up_dvd [OF that])
  have sz: "unat (lk_size s) \<le> length (lk_data s)" "unat (lk_size s) \<le> unat (lk_virtual_size s)" "length (lk_data s) < 2 ^ 64"
    using lay by (simp_all add: laid_out_def word_le_nat_alt)
  have same: "lk_data s1 = lk_data s" "lk_size s1 = lk_size s" "lk_virtual_size s1 = lk_virtual_size s"
    "lk_contributions s1 = lk_contributions s" "lk_alignment s \<le> lk_alignment s1" "?al \<le> lk_alignment s1" "lk_kind s1 = lk_kind s"
    unfolding s1 by auto
  show ?thesis
  proof (cases "has_raw ?sec")
    case True
    let ?n = "unat (sc_size_of_raw_data ?sec)"
    have fit: "unat start + ?n < 2 ^ 64" using room b by simp
    have add: "unat (start + sc_size_of_raw_data ?sec) = unat start + ?n" using fit by (simp add: unat_word_ariths)
    have sp: "span objs ?c = ?n" using True by (simp add: span_def src)
    obtain d raw where s2': "s2 = s1\<lparr>lk_data := d, lk_size := start + sc_size_of_raw_data ?sec,
          lk_virtual_size := (if lk_virtual_size s1 < start + sc_size_of_raw_data ?sec then start + sc_size_of_raw_data ?sec else lk_virtual_size s1)\<rparr>"
      and d: "length d < 2 ^ 64" "unat start + ?n \<le> length d" "sc_raw_data ?sec = Some raw" "?n \<le> length raw"
      and nth: "\<And>p. p < unat start + ?n \<Longrightarrow> d ! p = (if p < unat (lk_size s1) then lk_data s1 ! p else if p < unat start then 0 else raw ! (p - unat start))"
      by (rule copy_raw_ok [of "mem (GrowSection oi i)" junk start ?sec s1 s2]) (use s2 True same sz b fit in auto)
    have vs: "unat (lk_virtual_size s2) = unat start + ?n"
      using s2' same(3) b(1) add by (auto simp: word_less_nat_alt)
    have "holds_bytes objs s' ?c"
    proof -
      have "take ?n (drop (unat start) d) = take ?n raw"
        by (rule take_drop_eqI) (use d nth same(2) sz b in auto)
      then show ?thesis using d(3,4) add unfolding holds_bytes_def src sp by (simp add: s' s2' new_contribution_def)
    qed
    then have "laid_out objs s'"
      by (intro laid_out_extend [OF lay refl b(1) div, where oi = oi and i = i and sz = sz and align = ?al])
        (use same s' s2' d nth sz b vs add sp src True in \<open>auto simp: word_le_nat_alt split: if_splits\<close>)
    then show ?thesis using vs s' s2' same est b room by simp
  next
    case False
    have fit: "unat start + unat sz < 2 ^ 64" using room b by simp
    have add: "unat (start + sz) = unat start + unat sz" using fit by (simp add: unat_word_ariths)
    have sp: "span objs ?c = unat sz" using False by (simp add: span_def src) (simp add: new_contribution_def)
    have s2': "s2 = s1\<lparr>lk_virtual_size := (if lk_virtual_size s1 < start + sz then start + sz else lk_virtual_size s1)\<rparr>"
      using s2 False by auto
    have vs: "unat (lk_virtual_size s2) = unat start + unat sz"
      using s2' same(3) b(1) add by (auto simp: word_less_nat_alt)
    have "laid_out objs s'"
      by (intro laid_out_extend [OF lay refl b(1) div, where oi = oi and i = i and sz = sz and align = ?al])
        (use same s' s2' sz b vs sp src False in \<open>auto simp: word_le_nat_alt\<close>)
    then show ?thesis using vs s' s2' same est b room by simp
  qed
qed


section \<open>All objects\<close>

text \<open>An upper bound for the space a section can need, alignment included.\<close>

definition section_cost :: "u64 \<Rightarrow> LinkObject \<Rightarrow> nat \<Rightarrow> nat" where
  "section_cost fallback ob i = unat (link_section_alignment (ob_sections ob ! i) fallback) +
     max (unat (sc_size_of_raw_data (ob_sections ob ! i))) (case link_estimate_section_size ob i of Inr v \<Rightarrow> unat v | Inl _ \<Rightarrow> 0)"

definition object_cost :: "u64 \<Rightarrow> LinkedInputObject \<Rightarrow> nat" where
  "object_cost fallback inp = (case in_object inp of None \<Rightarrow> 0 | Some ob \<Rightarrow> sum_list (map (section_cost fallback ob) [0..<length (ob_sections ob)]))"

definition clear_placement :: "LinkedInputObject \<Rightarrow> LinkedInputObject" where
  "clear_placement inp = inp\<lparr>in_section_merged_indices := [], in_section_merged_offsets := [], in_section_merged_sizes := [],
     in_section_alignments := []\<rparr>"

text \<open>Where the sections of an object went: a kept section of a known kind is a contribution of the merged section of that
  kind, at the recorded offset; any other section is nowhere.\<close>

definition destination :: "LinkedInputObject \<Rightarrow> LinkObject \<Rightarrow> nat \<Rightarrow> nat option" where
  "destination inp ob j = (if section_kept inp j then link_section_index_from_kind (sc_kind (ob_sections ob ! j)) else None)"

definition placements_ok :: "LinkedSection list \<Rightarrow> nat \<Rightarrow> LinkedInputObject \<Rightarrow> bool" where
  "placements_ok sections oi inp \<longleftrightarrow> length (in_section_merged_offsets inp) = length (in_section_merged_indices inp) \<and>
     (\<forall>j < length (in_section_merged_indices inp).
        in_section_merged_indices inp ! j = destination inp (the (in_object inp)) j \<and>
        (case in_section_merged_indices inp ! j of None \<Rightarrow> True
         | Some m \<Rightarrow> \<exists>c\<in>set (lk_contributions (sections ! m)). ct_object_index c = oi \<and> ct_section_index c = j \<and>
             ct_merged_offset c = in_section_merged_offsets inp ! j))"

definition merged_state :: "LinkedInputObject list \<Rightarrow> nat \<Rightarrow> LinkResolution \<Rightarrow> bool" where
  "merged_state objs B r \<longleftrightarrow> length (rs_sections r) = 7 \<and> (\<forall>s\<in>set (rs_sections r). laid_out objs s \<and> unat (lk_virtual_size s) \<le> B) \<and>
     map clear_placement (rs_objects r) = map clear_placement objs \<and>
     (\<forall>oi < length objs. placements_ok (rs_sections r) oi (rs_objects r ! oi))"

lemma index_less: "link_section_index_from_kind k = Some m \<Longrightarrow> m < 7"
  by (cases k) auto

lemma clear_facts:
  assumes "clear_placement x = clear_placement y"
  shows "in_object x = in_object y" "section_kept x = section_kept y"
proof -
  have f: "f (clear_placement x) = f (clear_placement y)" for f :: "LinkedInputObject \<Rightarrow> 'a" using assms by simp
  show "in_object x = in_object y" using f [of in_object] by (simp add: clear_placement_def)
  show "section_kept x = section_kept y"
    using f [of in_section_gc_dead] by (intro ext) (simp add: clear_placement_def section_kept_def)
qed

lemma clear_record [simp]: "clear_placement (record_placement a b c d inp) = clear_placement inp"
  by (simp add: clear_placement_def record_placement_def)

lemma clear_clear [simp]: "clear_placement (clear_placement inp) = clear_placement inp"
  by (simp add: clear_placement_def)

lemma object_same:
  assumes "merged_state objs B r" "oi < length objs"
  shows "oi < length (rs_objects r)" "in_object (rs_objects r ! oi) = in_object (objs ! oi)"
    "clear_placement (rs_objects r ! oi) = clear_placement (objs ! oi)"
proof -
  have m: "map clear_placement (rs_objects r) = map clear_placement objs" using assms by (simp add: merged_state_def)
  show l: "oi < length (rs_objects r)" using map_eq_imp_length_eq [OF m] assms(2) by simp
  show c: "clear_placement (rs_objects r ! oi) = clear_placement (objs ! oi)"
    using m l assms(2) by (metis nth_map)
  show "in_object (rs_objects r ! oi) = in_object (objs ! oi)" using clear_facts(1) [OF c] .
qed

text \<open>Contributions are only added, so recorded placements stay valid.\<close>

lemma placements_mono:
  assumes "placements_ok secs oi inp" "m < length secs" "set (lk_contributions (secs ! m)) \<subseteq> set (lk_contributions s')"
  shows "placements_ok (secs[m := s']) oi inp"
  using assms unfolding placements_ok_def by (fastforce simp: nth_list_update split: option.splits)

lemma placements_record:
  assumes ok: "placements_ok secs oi inp" and j: "length (in_section_merged_indices inp) = j"
    and d: "idx = destination inp (the (in_object inp)) j"
    and c: "\<And>m. idx = Some m \<Longrightarrow> \<exists>c\<in>set (lk_contributions (secs ! m)). ct_object_index c = oi \<and> ct_section_index c = j \<and> ct_merged_offset c = off"
  shows "placements_ok secs oi (record_placement idx off sz al inp)"
proof -
  let ?x = "record_placement idx off sz al inp"
  have dest: "destination ?x (the (in_object ?x)) k = destination inp (the (in_object inp)) k" for k
    by (simp add: destination_def record_placement_def section_kept_def)
  show ?thesis
    unfolding placements_ok_def dest
  proof (intro conjI allI impI)
    show "length (in_section_merged_offsets ?x) = length (in_section_merged_indices ?x)"
      using ok by (simp add: placements_ok_def record_placement_def)
    fix k assume "k < length (in_section_merged_indices ?x)"
    then consider "k < j" | "k = j" using j by (fastforce simp: record_placement_def less_Suc_eq)
    then show "in_section_merged_indices ?x ! k = destination inp (the (in_object inp)) k"
      "case in_section_merged_indices ?x ! k of None \<Rightarrow> True
         | Some m \<Rightarrow> \<exists>c\<in>set (lk_contributions (secs ! m)). ct_object_index c = oi \<and> ct_section_index c = k \<and>
             ct_merged_offset c = in_section_merged_offsets ?x ! k"
      using ok j d c by (cases; auto simp: placements_ok_def record_placement_def nth_append split: option.splits)+
  qed
qed

lemma merge_section_ok:
  assumes st: "merged_state objs B r" and oi: "oi < length objs" and ob: "in_object (objs ! oi) = Some ob"
    and i: "length (in_section_merged_indices (rs_objects r ! oi)) = i" and B: "B + section_cost fallback ob i < 2 ^ 64"
    and ok: "merge_section mem junk fallback oi ob i r = Inr r'"
  shows "merged_state objs (B + section_cost fallback ob i) r' \<and> (\<exists>idx off sz al. rs_objects r' = (rs_objects r)[oi := record_placement idx off sz al (rs_objects r ! oi)])"
proof -
  let ?inp = "rs_objects r ! oi" and ?B = "B + section_cost fallback ob i"
  note same = object_same [OF st oi]
  have pl: "placements_ok (rs_sections r) k (rs_objects r ! k)" if "k < length objs" for k
    using st that by (simp add: merged_state_def)
  have the_ob: "the (in_object ?inp) = ob" using same(2) ob by simp
  have upd: "map clear_placement ((rs_objects r)[oi := record_placement idx off sz al ?inp]) = map clear_placement objs" for idx off sz al
    using st map_update_same [of clear_placement] by (simp add: merged_state_def)
  show ?thesis
  proof (cases "destination ?inp ob i")
    case None
    then have r': "r' = r\<lparr>rs_objects := (rs_objects r)[oi := record_placement None 0 0 0 ?inp]\<rparr>"
      using ok by (auto simp: merge_section_def Let_def destination_def split: option.splits if_splits)
    have "placements_ok (rs_sections r) oi (record_placement None 0 0 0 ?inp)"
      by (rule placements_record [OF pl [OF oi] i]) (simp_all add: the_ob None)
    then have "placements_ok (rs_sections r) k ((rs_objects r)[oi := record_placement None 0 0 0 ?inp] ! k)" if "k < length objs" for k
      using pl [OF that] same(1) by (auto simp: nth_list_update)
    then have "merged_state objs ?B r'" using st upd unfolding merged_state_def r' by force
    then show ?thesis using r' by auto
  next
    case (Some m)
    then have kept: "section_kept ?inp i" "link_section_index_from_kind (sc_kind (ob_sections ob ! i)) = Some m"
      by (auto simp: destination_def split: if_splits)
    have m: "m < length (rs_sections r)" using index_less [OF kept(2)] st by (simp add: merged_state_def)
    then have ms: "laid_out objs (rs_sections r ! m)" "unat (lk_virtual_size (rs_sections r ! m)) \<le> B"
      using st nth_mem [OF m] by (auto simp: merged_state_def)
    obtain s' start sz where p: "place_section mem junk fallback ob oi i (rs_sections r ! m) = Inr (s', start, sz)"
      and r': "r' = r\<lparr>rs_sections := (rs_sections r)[m := s'], rs_objects := (rs_objects r)[oi := record_placement (Some m) start sz
                          (link_section_alignment (ob_sections ob ! i) fallback) ?inp]\<rparr>"
      using ok kept by (auto simp: merge_section_def Let_def andthen_Inr_iff)
    have est: "link_estimate_section_size ob i = Inr sz" using place_section_steps [OF p] by simp
    have room: "unat (lk_virtual_size (rs_sections r ! m)) + unat (link_section_alignment (ob_sections ob ! i) fallback) +
                 max (unat (sc_size_of_raw_data (ob_sections ob ! i))) (unat sz) \<le> ?B"
      using ms(2) est by (simp add: section_cost_def)
    note po = place_section_ok [OF ms(1) ob p le_less_trans [OF room B]]
    let ?c = "new_contribution oi i start sz (link_section_alignment (ob_sections ob ! i) fallback)"
    have "placements_ok ((rs_sections r)[m := s']) k (rs_objects r ! k)" if "k < length objs" for k
      by (rule placements_mono [OF pl [OF that] m]) (use po in auto)
    note old = this
    have "placements_ok ((rs_sections r)[m := s']) oi (record_placement (Some m) start sz (link_section_alignment (ob_sections ob ! i) fallback) ?inp)"
      by (rule placements_record [OF old [OF oi] i])
        (use Some the_ob m po in \<open>auto simp: new_contribution_def\<close>)
    then have pl': "placements_ok (rs_sections r') k (rs_objects r' ! k)" if "k < length objs" for k
      using old [OF that] same(1) unfolding r' by (auto simp: nth_list_update)
    have "\<forall>s\<in>set ((rs_sections r)[m := s']). laid_out objs s \<and> unat (lk_virtual_size s) \<le> ?B"
      using st po room by (auto simp: merged_state_def dest!: set_update_subset_insert [THEN subsetD])
    then have "merged_state objs ?B r'" using st upd pl' unfolding merged_state_def r' by simp
    then show ?thesis using r' by auto
  qed
qed


lemma merge_object_sections:
  assumes "merged_state objs B r" and oi: "oi < length objs" and ob: "in_object (objs ! oi) = Some ob"
    and "length (in_section_merged_indices (rs_objects r ! oi)) = i"
    and "B + sum_list (map (section_cost fallback ob) [i..<i + k]) < 2 ^ 64"
    and "fold_outcome (merge_section mem junk fallback oi ob) [i..<i + k] r = Inr r'"
  shows "merged_state objs (B + sum_list (map (section_cost fallback ob) [i..<i + k])) r' \<and>
    length (in_section_merged_indices (rs_objects r' ! oi)) = i + k \<and>
    (\<forall>j < length objs. j \<noteq> oi \<longrightarrow> rs_objects r' ! j = rs_objects r ! j)"
  using assms(1,4-6)
proof (induction k arbitrary: B r i)
  case (Suc k)
  obtain r1 where r1: "merge_section mem junk fallback oi ob i r = Inr r1"
    "fold_outcome (merge_section mem junk fallback oi ob) [Suc i..<Suc i + k] r1 = Inr r'"
    using Suc.prems(4) by (auto simp: upt_conv_Cons andthen_Inr_iff simp del: upt_Suc)
  have cost: "sum_list (map (section_cost fallback ob) [i..<i + Suc k]) =
      section_cost fallback ob i + sum_list (map (section_cost fallback ob) [Suc i..<Suc i + k])"
    by (simp add: upt_conv_Cons del: upt_Suc)
  have "B + section_cost fallback ob i < 2 ^ 64" using Suc.prems(3) cost by simp
  then obtain idx off sz al where o1: "merged_state objs (B + section_cost fallback ob i) r1"
    "rs_objects r1 = (rs_objects r)[oi := record_placement idx off sz al (rs_objects r ! oi)]"
    using merge_section_ok [OF Suc.prems(1) oi ob Suc.prems(2) _ r1(1)] by blast
  have len: "length (in_section_merged_indices (rs_objects r1 ! oi)) = Suc i"
    using o1(2) object_same(1) [OF Suc.prems(1) oi] Suc.prems(2) by (simp add: record_placement_def)
  show ?case using Suc.IH [OF o1(1) len _ r1(2)] Suc.prems(3) o1(2) unfolding cost by (simp add: add.assoc del: upt_Suc)
qed simp

lemma placements_clear: "placements_ok secs oi (clear_placement inp)"
  by (simp add: placements_ok_def clear_placement_def)

lemma merge_object_ok:
  assumes st: "merged_state objs B r" and oi: "oi < length objs"
    and B: "B + object_cost fallback (objs ! oi) < 2 ^ 64" and ok: "merge_object mem junk fallback oi r = Inr r'"
  shows "merged_state objs (B + object_cost fallback (objs ! oi)) r' \<and>
    length (in_section_merged_indices (rs_objects r' ! oi)) = (case in_object (objs ! oi) of None \<Rightarrow> 0 | Some ob \<Rightarrow> length (ob_sections ob)) \<and>
    (\<forall>j < length objs. j \<noteq> oi \<longrightarrow> rs_objects r' ! j = rs_objects r ! j)"
proof -
  note same = object_same [OF st oi]
  let ?r = "r\<lparr>rs_objects := (rs_objects r)[oi := clear_placement (rs_objects r ! oi)]\<rparr>"
  have "map clear_placement (rs_objects ?r) = map clear_placement objs"
    using st map_update_same [of clear_placement] by (simp add: merged_state_def)
  then have st': "merged_state objs B ?r"
    using st same(1) by (auto simp: merged_state_def nth_list_update placements_clear)
  have len: "length (in_section_merged_indices (rs_objects ?r ! oi)) = 0" using same(1) by (simp add: clear_placement_def)
  show ?thesis
  proof (cases "in_object (objs ! oi)")
    case None
    then have "r' = ?r" using ok same(2) by (simp add: merge_object_def Let_def clear_placement_def)
    then show ?thesis using st' len None by (simp add: object_cost_def)
  next
    case (Some ob)
    then have "fold_outcome (merge_section mem junk fallback oi ob) [0..<0 + length (ob_sections ob)] ?r = Inr r'"
      using ok same(2) by (simp add: merge_object_def Let_def clear_placement_def andthen_Inr_iff)
    then show ?thesis using merge_object_sections [OF st' oi Some len] B Some by (simp add: object_cost_def)
  qed
qed

lemma merge_objects_ok:
  assumes "merged_state objs B r" "oi + k = length objs" "B + sum_list (map (object_cost fallback) (drop oi objs)) < 2 ^ 64"
    "\<forall>j < oi. length (in_section_merged_indices (rs_objects r ! j)) = (case in_object (objs ! j) of None \<Rightarrow> 0 | Some ob \<Rightarrow> length (ob_sections ob))"
    "fold_outcome (merge_object mem junk fallback) [oi..<oi + k] r = Inr r'"
  shows "merged_state objs (B + sum_list (map (object_cost fallback) (drop oi objs))) r' \<and>
    (\<forall>j < length objs. length (in_section_merged_indices (rs_objects r' ! j)) = (case in_object (objs ! j) of None \<Rightarrow> 0 | Some ob \<Rightarrow> length (ob_sections ob)))"
  using assms
proof (induction k arbitrary: B r oi)
  case (Suc k)
  obtain r1 where r1: "merge_object mem junk fallback oi r = Inr r1" "fold_outcome (merge_object mem junk fallback) [Suc oi..<Suc oi + k] r1 = Inr r'"
    using Suc.prems(5) by (auto simp: upt_conv_Cons andthen_Inr_iff simp del: upt_Suc)
  have oi: "oi < length objs" using Suc.prems(2) by simp
  have cost: "sum_list (map (object_cost fallback) (drop oi objs)) = object_cost fallback (objs ! oi) + sum_list (map (object_cost fallback) (drop (Suc oi) objs))"
    using oi by (simp add: Cons_nth_drop_Suc [symmetric])
  have o1: "merged_state objs (B + object_cost fallback (objs ! oi)) r1"
    "\<forall>j < Suc oi. length (in_section_merged_indices (rs_objects r1 ! j)) = (case in_object (objs ! j) of None \<Rightarrow> 0 | Some ob \<Rightarrow> length (ob_sections ob))"
    using merge_object_ok [OF Suc.prems(1) oi _ r1(1)] Suc.prems(3,4) cost oi by (auto simp: less_Suc_eq)
  show ?case using Suc.IH [OF o1(1) _ _ o1(2) r1(2)] Suc.prems(2,3) unfolding cost by (simp add: add.assoc)
qed simp


section \<open>Addresses\<close>

definition end_of :: "LinkedSection \<Rightarrow> nat" where
  "end_of s = unat (lk_virtual_address s) + unat (lk_virtual_size s)"

definition address_cost :: "u64 \<Rightarrow> LinkedSection list \<Rightarrow> nat" where
  "address_cost al ss = sum_list (map (\<lambda>s. unat (lk_virtual_size s) + unat al) ss)"

text \<open>Sections that occupy memory get increasing, aligned, disjoint ranges; nothing else about a section changes.\<close>

lemma assign_addresses_ok:
  assumes "unat cur + address_cost al ss < 2 ^ 64"
  shows "list_all2 (\<lambda>s s'. s' = s\<lparr>lk_virtual_address := lk_virtual_address s'\<rparr>) ss (assign_section_addresses al cur ss) \<and>
    (let occ = filter (\<lambda>s. lk_virtual_size s \<noteq> 0) (assign_section_addresses al cur ss)
     in sorted_wrt (\<lambda>s t. end_of s \<le> unat (lk_virtual_address t)) occ \<and>
        (\<forall>s\<in>set occ. unat cur \<le> unat (lk_virtual_address s) \<and> end_of s \<le> unat cur + address_cost al ss \<and>
           (\<forall>k. unat al = 2 ^ k \<longrightarrow> 2 ^ k dvd unat (lk_virtual_address s))))"
  using assms
proof (induction ss arbitrary: cur)
  case (Cons s ss)
  show ?case
  proof (cases "lk_virtual_size s = 0")
    case True
    then show ?thesis using Cons.IH [of cur] Cons.prems by (fastforce simp: address_cost_def Let_def)
  next
    case False
    let ?a = "linker_align_up cur al" and ?cost = "address_cost al ss"
    have c: "address_cost al (s # ss) = unat (lk_virtual_size s) + unat al + ?cost" by (simp add: address_cost_def)
    have a: "unat cur \<le> unat ?a" "unat ?a \<le> unat cur + unat al"
      using align_up_bounds [of cur al] Cons.prems c by simp_all
    have e: "unat (?a + lk_virtual_size s) = unat ?a + unat (lk_virtual_size s)"
      using a Cons.prems c by (simp add: unat_word_ariths)
    have IH: "list_all2 (\<lambda>s s'. s' = s\<lparr>lk_virtual_address := lk_virtual_address s'\<rparr>) ss (assign_section_addresses al (?a + lk_virtual_size s) ss)"
      "sorted_wrt (\<lambda>s t. end_of s \<le> unat (lk_virtual_address t)) (filter (\<lambda>s. lk_virtual_size s \<noteq> 0) (assign_section_addresses al (?a + lk_virtual_size s) ss))"
      "\<forall>t\<in>set (filter (\<lambda>s. lk_virtual_size s \<noteq> 0) (assign_section_addresses al (?a + lk_virtual_size s) ss)).
         unat (?a + lk_virtual_size s) \<le> unat (lk_virtual_address t) \<and> end_of t \<le> unat (?a + lk_virtual_size s) + ?cost \<and>
         (\<forall>k. unat al = 2 ^ k \<longrightarrow> 2 ^ k dvd unat (lk_virtual_address t))"
      using Cons.IH [of "?a + lk_virtual_size s"] a e Cons.prems c by (simp_all add: Let_def)
    have d: "2 ^ k dvd unat ?a" if "unat al = 2 ^ k" for k using align_up_dvd [OF that] .
    have head: "end_of (s\<lparr>lk_virtual_address := ?a\<rparr>) = unat (?a + lk_virtual_size s)" by (simp add: end_of_def e)
    have tail: "unat cur \<le> unat (lk_virtual_address t) \<and> end_of t \<le> unat cur + address_cost al (s # ss)"
      if "t \<in> set (filter (\<lambda>s. lk_virtual_size s \<noteq> 0) (assign_section_addresses al (?a + lk_virtual_size s) ss))" for t
      using IH(3) that a e c by fastforce
    show ?thesis using False IH(1,2) head tail IH(3) d a c e unfolding Let_def assign_section_addresses.simps
      by (auto simp: end_of_def)
  qed
qed (simp add: address_cost_def)

lemma merge_sections_ok:
  assumes "rs_sections r = map blank_section linked_section_kinds" and "\<forall>inp\<in>set (rs_objects r). clear_placement inp = inp"
    and "sum_list (map (object_cost fallback) (rs_objects r)) < 2 ^ 64"
    and "link_resolution_merge_sections mem junk fallback r = Inr r'"
  shows "merged_state (rs_objects r) (sum_list (map (object_cost fallback) (rs_objects r))) r' \<and>
    (\<forall>j < length (rs_objects r). length (in_section_merged_indices (rs_objects r' ! j)) =
       (case in_object (rs_objects r ! j) of None \<Rightarrow> 0 | Some ob \<Rightarrow> length (ob_sections ob)))"
proof -
  have "placements_ok (rs_sections r) oi (rs_objects r ! oi)" if "oi < length (rs_objects r)" for oi
  proof -
    have "clear_placement (rs_objects r ! oi) = rs_objects r ! oi" using assms(2) that by simp
    then have "in_section_merged_indices (rs_objects r ! oi) = []" "in_section_merged_offsets (rs_objects r ! oi) = []"
      by (metis LinkedInputObject.select_convs(3) LinkedInputObject.surjective LinkedInputObject.update_convs(3-6) clear_placement_def,
          metis LinkedInputObject.select_convs(4) LinkedInputObject.surjective LinkedInputObject.update_convs(3-6) clear_placement_def)
    then show ?thesis by (simp add: placements_ok_def)
  qed
  then have "merged_state (rs_objects r) 0 r"
    unfolding merged_state_def assms(1) by (auto simp: linked_section_kinds_def laid_out_blank) (simp_all add: blank_section_def)
  then show ?thesis
    using merge_objects_ok [of "rs_objects r" 0 r 0 "length (rs_objects r)" fallback mem junk r'] assms(3,4)
    by (simp add: link_resolution_merge_sections_def)
qed

lemma assign_virtual_addresses_ok:
  assumes "address_cost al (rs_sections r) < 2 ^ 64" and "r' = link_resolution_assign_virtual_addresses al r"
  shows "sorted_wrt (\<lambda>s t. end_of s \<le> unat (lk_virtual_address t)) (filter (\<lambda>s. lk_virtual_size s \<noteq> 0) (rs_sections r')) \<and>
    (\<forall>s\<in>set (rs_sections r'). lk_virtual_size s \<noteq> 0 \<longrightarrow> end_of s \<le> address_cost al (rs_sections r) \<and>
       (\<forall>k. unat al = 2 ^ k \<longrightarrow> 2 ^ k dvd unat (lk_virtual_address s))) \<and>
    map lk_data (rs_sections r') = map lk_data (rs_sections r) \<and>
    (\<forall>g\<in>set (rs_symbols r'). \<forall>m. ls_is_defined g \<longrightarrow> ls_merged_section_index g = Some m \<longrightarrow>
       ls_virtual_address g = lk_virtual_address (rs_sections r' ! m) + ls_merged_offset g) \<and>
    (\<forall>inp\<in>set (rs_objects r'). \<forall>os\<in>set (in_symbols inp). \<forall>m. os_is_defined os \<longrightarrow> os_merged_section_index os = Some m \<longrightarrow>
       os_virtual_address os = lk_virtual_address (rs_sections r' ! m) + os_merged_offset os)"
proof -
  have s: "rs_sections r' = assign_section_addresses al 0 (rs_sections r)"
    "rs_symbols r' = map (address_global (rs_sections r')) (rs_symbols r)"
    "rs_objects r' = map (\<lambda>inp. inp\<lparr>in_symbols := map (address_object_symbol (rs_sections r')) (in_symbols inp)\<rparr>) (rs_objects r)"
    by (simp_all add: assms(2) link_resolution_assign_virtual_addresses_def Let_def)
  note ok = assign_addresses_ok [of 0 al "rs_sections r", unfolded Let_def]
  have l2: "list_all2 (\<lambda>s s'. s' = s\<lparr>lk_virtual_address := lk_virtual_address s'\<rparr>) (rs_sections r) (rs_sections r')"
    using ok assms(1) s(1) by simp
  have "map lk_data (rs_sections r') = map lk_data (rs_sections r)"
  proof (rule nth_equalityI)
    show "length (map lk_data (rs_sections r')) = length (map lk_data (rs_sections r))" using l2 by (auto dest: list_all2_lengthD)
    fix i assume "i < length (map lk_data (rs_sections r'))"
    then obtain a where a: "rs_sections r' ! i = (rs_sections r ! i)\<lparr>lk_virtual_address := a\<rparr>" "i < length (rs_sections r)"
      using l2 by (auto simp: list_all2_conv_all_nth)
    then show "map lk_data (rs_sections r') ! i = map lk_data (rs_sections r) ! i" using l2
      by (simp add: list_all2_conv_all_nth)
  qed
  moreover have "ls_virtual_address g = lk_virtual_address (rs_sections r' ! m) + ls_merged_offset g"
    if "g \<in> set (rs_symbols r')" "ls_is_defined g" "ls_merged_section_index g = Some m" for g m
    using that unfolding s(2) by (auto simp: address_global_def split: option.splits if_splits)
  moreover have "os_virtual_address os = lk_virtual_address (rs_sections r' ! m) + os_merged_offset os"
    if "inp \<in> set (rs_objects r')" "os \<in> set (in_symbols inp)" "os_is_defined os" "os_merged_section_index os = Some m" for inp os m
    using that unfolding s(3) by (auto simp: address_object_symbol_def split: option.splits if_splits)
  moreover have "sorted_wrt (\<lambda>s t. end_of s \<le> unat (lk_virtual_address t)) (filter (\<lambda>s. lk_virtual_size s \<noteq> 0) (rs_sections r'))"
    using ok assms(1) s(1) by simp
  moreover have "end_of s \<le> address_cost al (rs_sections r) \<and> (\<forall>k. unat al = 2 ^ k \<longrightarrow> 2 ^ k dvd unat (lk_virtual_address s))"
    if "s \<in> set (rs_sections r')" "lk_virtual_size s \<noteq> 0" for s
    using ok assms(1) that unfolding s(1) by simp
  ultimately show ?thesis by blast
qed

section \<open>Properties\<close>

text \<open>C30. Merging the sections of any number of objects: in every merged section the contributions follow each other without
  overlap, at offsets that are multiples of their alignment when it is a power of two, a section with raw data finds
  exactly its bytes at its offset, and every other byte of the buffer that is in use is zero, whatever the memory held
  before. Every section that is kept is in the merged section of its kind at the offset recorded for it, the sections
  that were collected are nowhere. The hypothesis bounds the sum of all sizes and alignments by the address space.\<close>

theorem merge_lays_out:
  assumes "rs_sections r = map blank_section linked_section_kinds" and "\<forall>inp\<in>set (rs_objects r). clear_placement inp = inp"
    and "sum_list (map (object_cost fallback) (rs_objects r)) < 2 ^ 64"
    and "link_resolution_merge_sections mem junk fallback r = Inr r'"
  shows "merged_state (rs_objects r) (sum_list (map (object_cost fallback) (rs_objects r))) r' \<and>
    (\<forall>j < length (rs_objects r). length (in_section_merged_indices (rs_objects r' ! j)) =
       (case in_object (rs_objects r ! j) of None \<Rightarrow> 0 | Some ob \<Rightarrow> length (ob_sections ob)))"
  using assms by (rule merge_sections_ok)


text \<open>Two objects with five and three bytes of text: the second starts at the next multiple of its alignment.\<close>

definition text_section :: "u64 \<Rightarrow> u8 list \<Rightarrow> LinkSection" where
  "text_section al raw = \<lparr>sc_name = Some ''.text'', sc_kind = LINK_SECTION_KIND_TEXT, sc_virtual_size = word_of_nat (length raw),
     sc_size_of_raw_data = word_of_nat (length raw), sc_alignment = al, sc_raw_data = Some raw, sc_relocations = [], sc_is_metadata = False\<rparr>"

definition text_input :: "u64 \<Rightarrow> u8 list \<Rightarrow> LinkedInputObject" where
  "text_input al raw = (sample_input False)\<lparr>in_object := Some \<lparr>ob_format = LINK_FORMAT_ELF, ob_sections = [text_section al raw], ob_symbols = []\<rparr>\<rparr>"

definition sample_merge :: LinkResolution where
  "sample_merge = link_resolution_init_sections (blank_resolution [text_input 4 [1, 2, 3, 4, 5], text_input 8 [6, 7, 8]])"

lemma sample_merge_runs:
  "(case link_resolution_merge_sections plenty (\<lambda>_. 0xCD) 16 sample_merge of Inl _ \<Rightarrow> False
    | Inr r \<Rightarrow> take 11 (lk_data (rs_sections r ! 0)) = [1, 2, 3, 4, 5, 0, 0, 0, 6, 7, 8] \<and> lk_size (rs_sections r ! 0) = 11)"
  by code_simp

theorem merge_lays_out_witness:
  "\<exists>r. link_resolution_merge_sections plenty (\<lambda>_. 0xCD) 16 sample_merge = Inr r \<and>
     take 11 (lk_data (rs_sections r ! 0)) = [1, 2, 3, 4, 5, 0, 0, 0, 6, 7, 8] \<and> merged_state (rs_objects sample_merge) 20 r"
proof (cases "link_resolution_merge_sections plenty (\<lambda>_. 0xCD) 16 sample_merge")
  case (Inr r)
  have 1: "rs_sections sample_merge = map blank_section linked_section_kinds"
    by (simp add: sample_merge_def link_resolution_init_sections_def)
  have 2: "\<forall>inp\<in>set (rs_objects sample_merge). clear_placement inp = inp"
    by (simp add: sample_merge_def link_resolution_init_sections_def blank_resolution_def text_input_def sample_input_def clear_placement_def)
  have 3: "sum_list (map (object_cost 16) (rs_objects sample_merge)) = 20" by code_simp
  show ?thesis using merge_lays_out [OF 1 2 _ Inr] sample_merge_runs Inr unfolding 3 by simp
qed (use sample_merge_runs in simp)

text \<open>C31. After address assignment the merged sections that occupy memory have disjoint, increasing ranges of addresses that
  start at multiples of the section alignment, and the address of every symbol that is defined in a merged section is the
  address of that section plus its offset there, for the symbols of the objects and for the global ones alike.\<close>

theorem addresses_assigned:
  assumes "address_cost al (rs_sections r) < 2 ^ 64" and "r' = link_resolution_assign_virtual_addresses al r"
  shows "sorted_wrt (\<lambda>s t. end_of s \<le> unat (lk_virtual_address t)) (filter (\<lambda>s. lk_virtual_size s \<noteq> 0) (rs_sections r')) \<and>
    (\<forall>s\<in>set (rs_sections r'). lk_virtual_size s \<noteq> 0 \<longrightarrow> end_of s \<le> address_cost al (rs_sections r) \<and>
       (\<forall>k. unat al = 2 ^ k \<longrightarrow> 2 ^ k dvd unat (lk_virtual_address s))) \<and>
    map lk_data (rs_sections r') = map lk_data (rs_sections r) \<and>
    (\<forall>g\<in>set (rs_symbols r'). \<forall>m. ls_is_defined g \<longrightarrow> ls_merged_section_index g = Some m \<longrightarrow>
       ls_virtual_address g = lk_virtual_address (rs_sections r' ! m) + ls_merged_offset g) \<and>
    (\<forall>inp\<in>set (rs_objects r'). \<forall>os\<in>set (in_symbols inp). \<forall>m. os_is_defined os \<longrightarrow> os_merged_section_index os = Some m \<longrightarrow>
       os_virtual_address os = lk_virtual_address (rs_sections r' ! m) + os_merged_offset os)"
  using assms by (rule assign_virtual_addresses_ok)

definition sample_sized :: LinkResolution where
  "sample_sized = (blank_resolution [])\<lparr>rs_sections := map (\<lambda>k. (blank_section k)\<lparr>lk_virtual_size := 100\<rparr>) linked_section_kinds\<rparr>"

lemma sample_sized_cost: "address_cost 4096 (rs_sections sample_sized) = 29372"
  by (simp add: address_cost_def sample_sized_def blank_section_def linked_section_kinds_def)

theorem addresses_assigned_witness:
  "sorted_wrt (\<lambda>s t. end_of s \<le> unat (lk_virtual_address t))
     (filter (\<lambda>s. lk_virtual_size s \<noteq> 0) (rs_sections (link_resolution_assign_virtual_addresses 4096 sample_sized)))"
proof -
  have "address_cost 4096 (rs_sections sample_sized) < 2 ^ 64" by (simp add: sample_sized_cost)
  from addresses_assigned [OF this refl] show ?thesis by (rule conjunct1)
qed

end
