(* ===== verification/Relocation.thy ===== *)
theory Relocation
  imports LinkGlobals
begin

text \<open>
  Applying relocations (\<open>linker/relocation.c\<close>): the target of a relocation, the rewriting of loads through the global
  offset table, the value of each kind of relocation with its range check, and the loops over sections and objects.

  The tests and sums are those of the source, on 64-bit words: \<open>int64_t\<close> values are compared through \<open>sint\<close>, and the
  sum of the offset of a patch and its width wraps as \<open>size_t\<close> does.
\<close>

section \<open>The target of a relocation\<close>

record RelocationTarget =
  tg_merged_section_index :: nat
  tg_merged_offset :: u64
  tg_virtual_address :: u64

definition relocation_section_is_debug_only :: "LinkSection \<Rightarrow> bool" where
  "relocation_section_is_debug_only section =
    (case sc_name section of None \<Rightarrow> False
     | Some name \<Rightarrow> take 6 name = ''.debug'' \<or> take 7 name = ''.zdebug'')"

definition relocation_resolve_target :: "LinkResolution \<Rightarrow> LinkedInputObject \<Rightarrow> u32 \<Rightarrow> RelocationTarget outcome" where
  "relocation_resolve_target r inp symbol_index =
    andthen (need (unat symbol_index < length (in_symbols inp)) ''Relocation refers to a symbol index outside the object symbol table'') (\<lambda>_.
    let os = in_symbols inp ! unat symbol_index
    in andthen (need (\<not> os_is_auxiliary os) ''Relocation refers to auxiliary symbol'') (\<lambda>_.
       case (os_is_defined os, os_merged_section_index os) of
         (True, Some m) \<Rightarrow> Inr \<lparr>tg_merged_section_index = m, tg_merged_offset = os_merged_offset os, tg_virtual_address = os_virtual_address os\<rparr>
       | _ \<Rightarrow>
         andthen (link_resolution_find_symbol r (os_name os)) (\<lambda>found.
           case found of
             None \<Rightarrow> Inl (Refused ''Relocation target is unresolved'')
           | Some i \<Rightarrow>
               (let g = rs_symbols r ! i
                in case (ls_is_defined g, ls_merged_section_index g) of
                     (True, Some m) \<Rightarrow> Inr \<lparr>tg_merged_section_index = m, tg_merged_offset = ls_merged_offset g, tg_virtual_address = ls_virtual_address g\<rparr>
                   | _ \<Rightarrow> Inl (Refused ''Relocation target is unresolved'')))))"

section \<open>Relaxation\<close>

definition relocation_gotpcrelx_group_extension :: "u8 \<Rightarrow> u8 option" where
  "relocation_gotpcrelx_group_extension opcode =
    (if opcode = 0x03 then Some 0 else if opcode = 0x0B then Some 1 else if opcode = 0x13 then Some 2
     else if opcode = 0x1B then Some 3 else if opcode = 0x23 then Some 4 else if opcode = 0x2B then Some 5
     else if opcode = 0x33 then Some 6 else if opcode = 0x3B then Some 7 else None)"

definition peek_byte :: "bytes \<Rightarrow> nat \<Rightarrow> u8 outcome" where
  "peek_byte d p = (if p < length d then Inr (d ! p) else Inl Fault)"

text \<open>The bytes after the rewriting, and whether the field now holds an absolute immediate.\<close>

definition relocation_relax_gotpcrelx :: "bytes \<Rightarrow> u64 \<Rightarrow> (bytes \<times> bool) outcome" where
  "relocation_relax_gotpcrelx d patch_offset =
    (let p = unat patch_offset
     in andthen (need (2 \<le> patch_offset) ''GOTPCRELX relocation has no room for the instruction'') (\<lambda>_.
        andthen (peek_byte d (p - 2)) (\<lambda>opcode.
        andthen (peek_byte d (p - 1)) (\<lambda>modrm.
        andthen (need (modrm AND 0xC7 = 0x05) ''GOTPCRELX relocation is not a RIP-relative load'') (\<lambda>_.
        if opcode = 0x8B then Inr (d[p - 2 := 0x8D], False)
        else let group = relocation_gotpcrelx_group_extension opcode
             in andthen (need (group \<noteq> None \<or> opcode = 0x85) ''GOTPCRELX relocation is not a RIP-relative load'') (\<lambda>_.
                andthen (need (3 \<le> patch_offset) ''GOTPCRELX relocation has no room for the instruction'') (\<lambda>_.
                andthen (peek_byte d (p - 3)) (\<lambda>rex.
                andthen (need (rex AND 0xF0 = 0x40) ''GOTPCRELX relocation needs a REX prefix'') (\<lambda>_.
                let destination = drop_bit 3 modrm AND 0x07;
                    opcode' = (if opcode = 0x85 then 0xF7 else 0x81);
                    extension = (if opcode = 0x85 then 0 else case group of Some e \<Rightarrow> e | None \<Rightarrow> 0);
                    modrm' = 0xC0 OR push_bit 3 extension OR destination;
                    rex' = (rex AND 0xFA) OR drop_bit 2 (rex AND 0x04)
                in Inr (d[p - 2 := opcode', p - 1 := modrm', p - 3 := rex'], True))))))))))"

section \<open>One relocation\<close>

definition reloc_width :: "LinkRelocKind \<Rightarrow> nat option" where
  "reloc_width kind =
    (case kind of LINK_RELOC_ABS64 \<Rightarrow> Some 8
     | LINK_RELOC_PC32 \<Rightarrow> Some 4 | LINK_RELOC_ABS32 \<Rightarrow> Some 4 | LINK_RELOC_IMAGE_REL32 \<Rightarrow> Some 4
     | LINK_RELOC_SECREL32 \<Rightarrow> Some 4 | LINK_RELOC_TPOFF32 \<Rightarrow> Some 4 | LINK_RELOC_GOTPCRELX32 \<Rightarrow> Some 4
     | _ \<Rightarrow> None)"

definition reloc_addend :: "bytes \<Rightarrow> u64 \<Rightarrow> LinkReloc \<Rightarrow> i64 outcome" where
  "reloc_addend d patch_offset relocation =
    (if rl_addend_is_explicit relocation then Inr (rl_addend relocation)
     else if reloc_width (rl_kind relocation) = Some 8 then linker_read_u64 d (unat patch_offset)
     else andthen (linker_read_u32 d (unat patch_offset)) (\<lambda>v. Inr (scast v)))"

definition int32_range :: "i64 \<Rightarrow> bool" where
  "int32_range v \<longleftrightarrow> - (2 ^ 31) \<le> sint v \<and> sint v < 2 ^ 31"

definition uint32_range :: "i64 \<Rightarrow> bool" where
  "uint32_range v \<longleftrightarrow> 0 \<le> sint v \<and> unat v < 2 ^ 32"

text \<open>The value of a relocation of each kind; \<open>absolute\<close> is the form after the relaxation to an immediate.\<close>

definition reloc_value :: "u64 \<Rightarrow> u64 \<Rightarrow> LinkReloc \<Rightarrow> RelocationTarget \<Rightarrow> u64 \<Rightarrow> i64 \<Rightarrow> bool \<Rightarrow> i64" where
  "reloc_value image_base tls_size relocation target patch_address addend absolute =
    (if absolute then tg_virtual_address target + addend + 4
     else case rl_kind relocation of
       LINK_RELOC_PC32 \<Rightarrow> tg_virtual_address target + addend - patch_address - (if rl_addend_is_explicit relocation then 0 else 4)
     | LINK_RELOC_GOTPCRELX32 \<Rightarrow> tg_virtual_address target + addend - patch_address - (if rl_addend_is_explicit relocation then 0 else 4)
     | LINK_RELOC_IMAGE_REL32 \<Rightarrow>
         if image_base \<noteq> 0 \<and> tg_virtual_address target \<ge> image_base then (tg_virtual_address target - image_base) + addend
         else tg_virtual_address target + addend
     | LINK_RELOC_SECREL32 \<Rightarrow> tg_merged_offset target + addend
     | LINK_RELOC_TPOFF32 \<Rightarrow> tg_merged_offset target + addend - tls_size
     | _ \<Rightarrow> tg_virtual_address target + addend)"

definition value_in_range :: "LinkRelocKind \<Rightarrow> bool \<Rightarrow> i64 \<Rightarrow> bool" where
  "value_in_range kind absolute v =
    (if absolute then 0 \<le> sint v \<and> sint v < 2 ^ 31
     else case kind of
       LINK_RELOC_PC32 \<Rightarrow> int32_range v | LINK_RELOC_GOTPCRELX32 \<Rightarrow> int32_range v
     | LINK_RELOC_TPOFF32 \<Rightarrow> int32_range v
     | LINK_RELOC_ABS64 \<Rightarrow> 0 \<le> sint v
     | _ \<Rightarrow> uint32_range v)"

definition write_value :: "LinkRelocKind \<Rightarrow> bytes \<Rightarrow> nat \<Rightarrow> i64 \<Rightarrow> bytes outcome" where
  "write_value kind d p v = (if kind = LINK_RELOC_ABS64 then linker_write_u64 d p v else linker_write_u32 d p (ucast v))"

definition apply_relocation ::
  "LinkResolution \<Rightarrow> LinkedInputObject \<Rightarrow> nat \<Rightarrow> nat \<Rightarrow> u64 \<Rightarrow> u64 \<Rightarrow> LinkReloc \<Rightarrow> bytes \<Rightarrow> bytes outcome" where
  "apply_relocation r inp section_index m image_base tls_size relocation d =
    (let merged = rs_sections r ! m;
         patch_offset = in_section_merged_offsets inp ! section_index + rl_offset relocation;
         patch_address = lk_virtual_address merged + patch_offset
     in andthen (relocation_resolve_target r inp (rl_symbol_index relocation)) (\<lambda>target.
        case reloc_width (rl_kind relocation) of
          None \<Rightarrow> Inl (Refused ''Unsupported relocation kind'')
        | Some width \<Rightarrow>
            andthen (need (patch_offset + word_of_nat width \<le> lk_size merged) ''Relocation writes past merged section'') (\<lambda>_.
            andthen (reloc_addend d patch_offset relocation) (\<lambda>addend.
            andthen (if rl_kind relocation = LINK_RELOC_GOTPCRELX32 then relocation_relax_gotpcrelx d patch_offset else Inr (d, False)) (\<lambda>(d, absolute).
            let v = reloc_value image_base tls_size relocation target patch_address addend absolute
            in andthen (need (value_in_range (rl_kind relocation) absolute v) ''relocation is out of range'') (\<lambda>_.
               write_value (rl_kind relocation) d (unat patch_offset) v))))))"

section \<open>The loops\<close>

text \<open>The loop works on the bytes of the merged section; nothing it reads elsewhere changes.\<close>

definition link_apply_section_relocations ::
  "LinkedInputObject \<Rightarrow> LinkSection \<Rightarrow> nat \<Rightarrow> nat \<Rightarrow> u64 \<Rightarrow> u64 \<Rightarrow> LinkResolution \<Rightarrow> LinkResolution outcome" where
  "link_apply_section_relocations inp source_section section_index m image_base tls_size r =
    andthen (fold_outcome (apply_relocation r inp section_index m image_base tls_size) (sc_relocations source_section)
               (lk_data (rs_sections r ! m))) (\<lambda>d.
    Inr (r\<lparr>rs_sections := (rs_sections r)[m := (rs_sections r ! m)\<lparr>lk_data := d\<rparr>]\<rparr>))"

definition relocate_section :: "u64 \<Rightarrow> u64 \<Rightarrow> LinkedInputObject \<Rightarrow> LinkObject \<Rightarrow> nat \<Rightarrow> LinkResolution \<Rightarrow> LinkResolution outcome" where
  "relocate_section image_base tls_size inp object section_index r =
    (let source_section = ob_sections object ! section_index
     in if sc_relocations source_section = [] then Inr r
        else if (case in_section_gc_dead inp of None \<Rightarrow> False | Some dead \<Rightarrow> dead ! section_index) then Inr r
        else case in_section_merged_indices inp ! section_index of
               None \<Rightarrow> if relocation_section_is_debug_only source_section then Inr r
                       else Inl (Refused ''Section has relocations but was not merged'')
             | Some m \<Rightarrow> link_apply_section_relocations inp source_section section_index m image_base tls_size r)"

definition relocate_object :: "u64 \<Rightarrow> u64 \<Rightarrow> LinkedInputObject \<Rightarrow> LinkResolution \<Rightarrow> LinkResolution outcome" where
  "relocate_object image_base tls_size inp r =
    (case in_object inp of
       None \<Rightarrow> Inr r
     | Some object \<Rightarrow> fold_outcome (relocate_section image_base tls_size inp object) [0..<length (ob_sections object)] r)"

definition tls_size_of :: "LinkResolution \<Rightarrow> u64" where
  "tls_size_of r =
    (case link_resolution_find_section r LINK_SECTION_KIND_TLS of
       None \<Rightarrow> 0
     | Some tls \<Rightarrow> if lk_virtual_size tls > lk_size tls then lk_virtual_size tls else lk_size tls)"

definition link_apply_relocations :: "u64 option \<Rightarrow> LinkResolution \<Rightarrow> LinkResolution outcome" where
  "link_apply_relocations options r =
    fold_outcome (relocate_object (case options of None \<Rightarrow> 0 | Some image_base \<Rightarrow> image_base) (tls_size_of r)) (rs_objects r) r"

end
