(* ===== verification/LinkBuildCorrect.thy ===== *)
theory LinkBuildCorrect
  imports LinkBuild LinkGcCorrect LinkLayout Relocation
begin

text \<open>
  What the stages of the linker give together: a relocation of a section that reaches the image never refers to a symbol
  that was dropped, the place it resolves to is the place the merging gave to the definition, and the bytes found there
  are those of the object file.
\<close>

section \<open>The symbols the objects get\<close>

definition stored_symbols :: "link_memory \<Rightarrow> nat \<Rightarrow> LinkedInputObject \<Rightarrow> LinkedObjectSymbol list \<Rightarrow> bool" where
  "stored_symbols mem oi inp oss \<longleftrightarrow>
    (case in_object inp of
       None \<Rightarrow> oss = []
     | Some ob \<Rightarrow> length oss = length (ob_symbols ob) \<and>
         (\<forall>k < length oss. \<exists>g. resolve_symbol mem inp (length (ob_sections ob)) oi k (ob_symbols ob ! k) = Inr (oss ! k, g)))"

text \<open>Everything in the table is external.\<close>

definition all_external :: "LinkResolution \<Rightarrow> bool" where
  "all_external r \<longleftrightarrow> (\<forall>g\<in>set (rs_symbols r). ls_is_external g)"

lemma merge_global_external: "merge_global objs d os g = Inr g' \<Longrightarrow> ls_is_external g'"
  by (auto simp: merge_global_def Let_def take_definition_def split: if_splits option.splits)

lemma reserve_symbols_keeps:
  "link_resolution_reserve_symbols mem r n = Inr r' \<Longrightarrow> rs_objects r' = rs_objects r \<and> rs_sections r' = rs_sections r \<and> rs_symbols r' = rs_symbols r"
  by (auto simp: link_resolution_reserve_symbols_def andthen_Inr_iff split: if_splits)

lemma index_insert_keeps:
  "link_resolution_index_insert mem r i = Inr r' \<Longrightarrow> rs_objects r' = rs_objects r \<and> rs_sections r' = rs_sections r \<and> rs_symbols r' = rs_symbols r"
  by (auto simp: link_resolution_index_insert_def link_resolution_reindex_symbols_def andthen_Inr_iff split: if_splits)

lemma add_global_keeps:
  assumes "add_global mem r nm = Inr r'"
  shows "rs_objects r' = rs_objects r \<and> rs_sections r' = rs_sections r \<and> rs_symbols r' = rs_symbols r @ [fresh_global nm]"
proof -
  obtain r1 where r1: "link_resolution_reserve_symbols mem r (length (rs_symbols r) + 1) = Inr r1"
    "link_resolution_index_insert mem (r1\<lparr>rs_symbols := rs_symbols r1 @ [fresh_global nm]\<rparr>) (length (rs_symbols r1)) = Inr r'"
    using assms by (auto simp: add_global_def andthen_Inr_iff)
  show ?thesis using reserve_symbols_keeps [OF r1(1)] index_insert_keeps [OF r1(2)] by simp
qed

lemma record_keeps:
  assumes "link_resolution_record_global_symbol mem r inp os = Inr r'"
  shows "rs_objects r' = rs_objects r \<and> rs_sections r' = rs_sections r \<and> (all_external r \<longrightarrow> all_external r')"
proof -
  obtain nm found where nm: "os_name os = Some nm" "link_resolution_find_symbol_mutable r (Some nm) = Inr found"
    using assms by (auto simp: link_resolution_record_global_symbol_def andthen_Inr_iff split: option.splits)
  show ?thesis
  proof (cases found)
    case (Some i)
    then obtain g where "merge_global (rs_objects r) (in_is_runtime_default inp) os (rs_symbols r ! i) = Inr g"
      "r' = r\<lparr>rs_symbols := (rs_symbols r)[i := g]\<rparr>"
      using assms nm by (auto simp: link_resolution_record_global_symbol_def andthen_Inr_iff)
    then show ?thesis using merge_global_external
      by (auto simp: all_external_def dest: set_update_subset_insert [THEN subsetD])
  next
    case None
    then obtain r1 g where r1: "add_global mem r nm = Inr r1"
      and g: "merge_global (rs_objects r1) (in_is_runtime_default inp) os (rs_symbols r1 ! length (rs_symbols r)) = Inr g"
      and r': "r' = r1\<lparr>rs_symbols := (rs_symbols r1)[length (rs_symbols r) := g]\<rparr>"
      using assms nm by (auto simp: link_resolution_record_global_symbol_def andthen_Inr_iff)
    then show ?thesis using add_global_keeps [OF r1] merge_global_external [OF g] by (auto simp: all_external_def)
  qed
qed

lemma resolve_symbol_static: "resolve_symbol mem (inp\<lparr>in_symbols := xs\<rparr>) = resolve_symbol mem inp"
  by (intro ext) (simp add: resolve_symbol_def symbol_is_global_def Let_def cong: option.case_cong)

lemma build_symbol_stores:
  assumes "build_symbol mem oi ob k r = Inr r'"
  shows "\<exists>os g. resolve_symbol mem (rs_objects r ! oi) (length (ob_sections ob)) oi k (ob_symbols ob ! k) = Inr (os, g) \<and>
    rs_objects r' = (rs_objects r)[oi := (rs_objects r ! oi)\<lparr>in_symbols := in_symbols (rs_objects r ! oi) @ [os]\<rparr>] \<and>
    rs_sections r' = rs_sections r \<and> (all_external r \<longrightarrow> all_external r')"
proof -
  let ?inp = "rs_objects r ! oi"
  obtain os g where os: "resolve_symbol mem ?inp (length (ob_sections ob)) oi k (ob_symbols ob ! k) = Inr (os, g)"
    using assms by (auto simp: build_symbol_def andthen_Inr_iff)
  let ?r = "r\<lparr>rs_objects := (rs_objects r)[oi := ?inp\<lparr>in_symbols := in_symbols ?inp @ [os]\<rparr>]\<rparr>"
  have r': "(if g then link_resolution_record_global_symbol mem ?r ?inp os else Inr ?r) = Inr r'"
    using assms os by (simp add: build_symbol_def Let_def)
  have "rs_objects r' = rs_objects ?r \<and> rs_sections r' = rs_sections ?r \<and> (all_external ?r \<longrightarrow> all_external r')"
  proof (cases g)
    case True
    then show ?thesis using record_keeps r' by simp
  next
    case False
    then show ?thesis using r' by auto
  qed
  moreover have "all_external ?r = all_external r" by (simp add: all_external_def)
  ultimately show ?thesis using os by simp
qed

lemma build_symbols_store:
  assumes "fold_outcome (build_symbol mem oi ob) [si..<si + n] r = Inr r'" "oi < length (rs_objects r)"
  shows "\<exists>oss. rs_objects r' = (rs_objects r)[oi := (rs_objects r ! oi)\<lparr>in_symbols := in_symbols (rs_objects r ! oi) @ oss\<rparr>] \<and>
    length oss = n \<and> (\<forall>t < n. \<exists>g. resolve_symbol mem (rs_objects r ! oi) (length (ob_sections ob)) oi (si + t) (ob_symbols ob ! (si + t)) = Inr (oss ! t, g)) \<and>
    rs_sections r' = rs_sections r \<and> (all_external r \<longrightarrow> all_external r')"
  using assms
proof (induction n arbitrary: si r)
  case 0
  then show ?case by simp
next
  case (Suc n)
  let ?inp = "rs_objects r ! oi"
  obtain r1 where r1: "build_symbol mem oi ob si r = Inr r1" "fold_outcome (build_symbol mem oi ob) [Suc si..<Suc si + n] r1 = Inr r'"
    using Suc.prems(1) by (auto simp: upt_conv_Cons andthen_Inr_iff simp del: upt_Suc)
  obtain os g where os: "resolve_symbol mem ?inp (length (ob_sections ob)) oi si (ob_symbols ob ! si) = Inr (os, g)"
    "rs_objects r1 = (rs_objects r)[oi := ?inp\<lparr>in_symbols := in_symbols ?inp @ [os]\<rparr>]" "rs_sections r1 = rs_sections r"
    "all_external r \<longrightarrow> all_external r1"
    using build_symbol_stores [OF r1(1)] by blast
  then have inp1: "rs_objects r1 ! oi = ?inp\<lparr>in_symbols := in_symbols ?inp @ [os]\<rparr>" using Suc.prems(2) by simp
  obtain oss where oss: "rs_objects r' = (rs_objects r1)[oi := (rs_objects r1 ! oi)\<lparr>in_symbols := in_symbols (rs_objects r1 ! oi) @ oss\<rparr>]"
    "length oss = n" "\<forall>t < n. \<exists>g. resolve_symbol mem (rs_objects r1 ! oi) (length (ob_sections ob)) oi (Suc si + t) (ob_symbols ob ! (Suc si + t)) = Inr (oss ! t, g)"
    "rs_sections r' = rs_sections r1" "all_external r1 \<longrightarrow> all_external r'"
    using Suc.IH [OF r1(2)] os(2) Suc.prems(2) by auto
  have "\<exists>g. resolve_symbol mem ?inp (length (ob_sections ob)) oi (si + t) (ob_symbols ob ! (si + t)) = Inr ((os # oss) ! t, g)" if "t < Suc n" for t
    using that os(1) oss(3) by (cases t) (auto simp: inp1 resolve_symbol_static)
  then show ?case using oss os(2-4) Suc.prems(2) by (intro exI [of _ "os # oss"]) (simp add: inp1)
qed

lemma build_object_stores:
  assumes ok: "build_object mem oi r = Inr r'" and oi: "oi < length (rs_objects r)"
  shows "\<exists>oss. rs_objects r' = (rs_objects r)[oi := (rs_objects r ! oi)\<lparr>in_symbols := oss\<rparr>] \<and> stored_symbols mem oi (rs_objects r ! oi) oss \<and>
    rs_sections r' = rs_sections r \<and> (all_external r \<longrightarrow> all_external r')"
proof (cases "in_object (rs_objects r ! oi)")
  case None
  then show ?thesis using ok by (auto simp: build_object_def stored_symbols_def all_external_def)
next
  case (Some ob)
  let ?inp = "rs_objects r ! oi"
  let ?r = "r\<lparr>rs_objects := (rs_objects r)[oi := ?inp\<lparr>in_symbols := []\<rparr>]\<rparr>"
  have "fold_outcome (build_symbol mem oi ob) [0..<0 + length (ob_symbols ob)] ?r = Inr r'"
    using ok Some by (auto simp: build_object_def Let_def andthen_Inr_iff)
  from build_symbols_store [OF this] obtain oss where "rs_objects r' = (rs_objects r)[oi := ?inp\<lparr>in_symbols := oss\<rparr>]"
    "length oss = length (ob_symbols ob)" "\<forall>t < length (ob_symbols ob). \<exists>g. resolve_symbol mem ?inp (length (ob_sections ob)) oi t (ob_symbols ob ! t) = Inr (oss ! t, g)"
    "rs_sections r' = rs_sections r" "all_external ?r \<longrightarrow> all_external r'"
    using oi by (auto simp: resolve_symbol_static)
  then show ?thesis using Some by (auto simp: stored_symbols_def all_external_def)
qed

lemma build_objects_store:
  assumes "fold_outcome (build_object mem) [a..<a + n] r = Inr r'" "a + n \<le> length (rs_objects r)"
  shows "length (rs_objects r') = length (rs_objects r) \<and> rs_sections r' = rs_sections r \<and> (all_external r \<longrightarrow> all_external r') \<and>
    (\<forall>j < length (rs_objects r). if a \<le> j \<and> j < a + n
       then \<exists>oss. rs_objects r' ! j = (rs_objects r ! j)\<lparr>in_symbols := oss\<rparr> \<and> stored_symbols mem j (rs_objects r ! j) oss
       else rs_objects r' ! j = rs_objects r ! j)"
  using assms
proof (induction n arbitrary: a r)
  case (Suc n)
  obtain r1 where r1: "build_object mem a r = Inr r1" "fold_outcome (build_object mem) [Suc a..<Suc a + n] r1 = Inr r'"
    using Suc.prems(1) by (auto simp: upt_conv_Cons andthen_Inr_iff simp del: upt_Suc)
  obtain oss where oss: "rs_objects r1 = (rs_objects r)[a := (rs_objects r ! a)\<lparr>in_symbols := oss\<rparr>]"
    "stored_symbols mem a (rs_objects r ! a) oss" "rs_sections r1 = rs_sections r" "all_external r \<longrightarrow> all_external r1"
    using build_object_stores [OF r1(1)] Suc.prems(2) by auto
  have l: "length (rs_objects r1) = length (rs_objects r)" "Suc a + n \<le> length (rs_objects r)" using oss(1) Suc.prems(2) by simp_all
  note all = Suc.IH [OF r1(2), unfolded l(1), OF l(2)]
  have IH: "length (rs_objects r') = length (rs_objects r)" "rs_sections r' = rs_sections r" "all_external r \<longrightarrow> all_external r'"
    "\<And>j. j < length (rs_objects r) \<Longrightarrow> if Suc a \<le> j \<and> j < Suc a + n
       then \<exists>oss. rs_objects r' ! j = (rs_objects r1 ! j)\<lparr>in_symbols := oss\<rparr> \<and> stored_symbols mem j (rs_objects r1 ! j) oss
       else rs_objects r' ! j = rs_objects r1 ! j"
    subgoal using all by (elim conjE)
    subgoal using all oss(3) by (elim conjE) (simp only:)
    subgoal using all oss(4) by (elim conjE) (iprover)
    subgoal for j using all [THEN conjunct2, THEN conjunct2, THEN conjunct2, THEN spec, of j] by (rule mp)
    done
  have "if a \<le> j \<and> j < a + Suc n
       then \<exists>oss. rs_objects r' ! j = (rs_objects r ! j)\<lparr>in_symbols := oss\<rparr> \<and> stored_symbols mem j (rs_objects r ! j) oss
       else rs_objects r' ! j = rs_objects r ! j" if j: "j < length (rs_objects r)" for j
    using IH(4) [OF j] oss(1,2) j by (cases "j = a") (auto split: if_splits)
  then show ?case using IH(1-3) by blast
qed auto

section \<open>What the collection keeps\<close>

text \<open>A section that is kept refers to kept sections and to symbols that are not dropped.\<close>

definition closed_object :: "LinkedInputObject \<Rightarrow> bool" where
  "closed_object inp \<longleftrightarrow> (\<forall>ob si rel k. in_object inp = Some ob \<longrightarrow> si < length (ob_sections ob) \<longrightarrow> section_kept inp si \<longrightarrow>
     sc_kind (ob_sections ob ! si) \<noteq> LINK_SECTION_KIND_UNKNOWN \<longrightarrow> rel \<in> set (sc_relocations (ob_sections ob ! si)) \<longrightarrow>
     k = unat (rl_symbol_index rel) \<longrightarrow> k < length (ob_symbols ob) \<longrightarrow> \<not> sy_is_auxiliary (ob_symbols ob ! k) \<longrightarrow>
     (\<forall>j < length (ob_sections ob). sy_section_index (ob_symbols ob ! k) = int j \<longrightarrow> section_kept inp j) \<and>
     (case in_symbol_gc_referenced inp of None \<Rightarrow> True | Some seen \<Rightarrow> seen ! k))"

lemma closed_objectD:
  assumes "closed_object inp" "in_object inp = Some ob" "si < length (ob_sections ob)" "section_kept inp si"
    "sc_kind (ob_sections ob ! si) \<noteq> LINK_SECTION_KIND_UNKNOWN" "rel \<in> set (sc_relocations (ob_sections ob ! si))"
    "k = unat (rl_symbol_index rel)" "k < length (ob_symbols ob)" "\<not> sy_is_auxiliary (ob_symbols ob ! k)"
  shows "j < length (ob_sections ob) \<Longrightarrow> sy_section_index (ob_symbols ob ! k) = int j \<Longrightarrow> section_kept inp j"
    and "in_symbol_gc_referenced inp = Some seen \<Longrightarrow> seen ! k"
  using assms(1) [unfolded closed_object_def, rule_format, OF assms(2-9)] by auto

lemma collected_closed:
  assumes c: "collected objs entry oi inp" and oi: "oi < length objs"
  shows "closed_object inp"
proof (cases "in_object (objs ! oi)")
  case None
  then show ?thesis using c by (simp add: collected_def closed_object_def)
next
  case (Some ob)
  then obtain dead ref where inp: "inp = (objs ! oi)\<lparr>in_section_gc_dead := Some dead, in_symbol_gc_referenced := Some ref\<rparr>"
    and len: "length dead = length (ob_sections ob)" "length ref = length (ob_symbols ob)"
    and dead: "\<And>si. si < length dead \<Longrightarrow> dead ! si \<longleftrightarrow> link_section_is_gc_eligible (ob_sections ob ! si) \<and> \<not> gc_reachable objs entry (oi, si)"
    and ref: "\<And>k. k < length ref \<Longrightarrow> ref ! k \<longleftrightarrow> (\<exists>si. gc_reachable objs entry (oi, si) \<and>
            (\<exists>reloc\<in>set (sc_relocations (ob_sections ob ! si)). unat (rl_symbol_index reloc) = k))"
    using c by (auto simp: collected_def)
  have sec: "object_sections (objs ! oi) = ob_sections ob" using Some by (simp add: object_sections_def)
  show ?thesis
    unfolding closed_object_def
  proof (intro allI impI)
    fix ob' si rel k
    assume a: "in_object inp = Some ob'" "si < length (ob_sections ob')" "section_kept inp si"
      "sc_kind (ob_sections ob' ! si) \<noteq> LINK_SECTION_KIND_UNKNOWN" "rel \<in> set (sc_relocations (ob_sections ob' ! si))"
      "k = unat (rl_symbol_index rel)" "k < length (ob_symbols ob')" "\<not> sy_is_auxiliary (ob_symbols ob' ! k)"
    have ob': "ob' = ob" using a(1) Some inp by simp
    have live: "gc_reachable objs entry (oi, si)"
    proof (cases "link_section_is_gc_eligible (ob_sections ob ! si)")
      case True
      then show ?thesis using a(2,3) dead [of si] len inp ob' by (simp add: section_kept_def)
    next
      case False
      then show ?thesis using a(2,4) oi sec ob' by (intro gc_reachable.root) (simp add: gc_root_def all_items_iff)
    qed
    have "section_kept inp j" if j: "j < length (ob_sections ob)" "sy_section_index (ob_symbols ob ! k) = int j" for j
    proof -
      have "gc_target (definition_of objs) oi ob rel = Some (oi, j)" using a(6-8) ob' j by (simp add: gc_target_def)
      then have "gc_edge objs (oi, si) (oi, j)" using Some a(5) ob' sec by (auto simp: gc_edge_def relocs_of_def)
      then have "gc_reachable objs entry (oi, j)" using live by (rule gc_reachable.edge [rotated])
      then show ?thesis using dead [of j] len j inp by (simp add: section_kept_def)
    qed
    moreover have "ref ! k" using ref [of k] len a(5-7) live ob' by auto
    ultimately show "(\<forall>j < length (ob_sections ob'). sy_section_index (ob_symbols ob' ! k) = int j \<longrightarrow> section_kept inp j) \<and>
       (case in_symbol_gc_referenced inp of None \<Rightarrow> True | Some seen \<Rightarrow> seen ! k)"
      using ob' inp by simp
  qed
qed

text \<open>The objects as they were read: nothing placed, collected or resolved yet.\<close>

definition fresh_input :: "LinkedInputObject \<Rightarrow> bool" where
  "fresh_input inp \<longleftrightarrow> clear_placement inp = inp \<and> in_symbols inp = [] \<and> in_section_gc_dead inp = None \<and> in_symbol_gc_referenced inp = None"

lemma fresh_mark: "fresh_input inp \<Longrightarrow> fresh_input (inp\<lparr>in_is_runtime_default := flag\<rparr>)"
  by (cases inp) (simp add: fresh_input_def clear_placement_def)

lemma load_objects_fresh:
  assumes "link_resolution_load_objects mem files paths r = Inr r1" "mark_runtime_defaults options r1 = Inr r'"
  shows "\<exists>objs. r' = r\<lparr>rs_objects := objs\<rparr> \<and> (\<forall>inp\<in>set objs. fresh_input inp)"
proof -
  obtain objs where objs: "map_outcome (load_object mem files) 0 paths = Inr objs" "r1 = r\<lparr>rs_objects := objs\<rparr>"
    using assms(1) by (auto simp: link_resolution_load_objects_def andthen_Inr_iff)
  have "\<forall>inp\<in>set objs. fresh_input inp"
    by (rule map_outcome_all [OF objs(1)])
      (auto simp: load_object_def andthen_Inr_iff fresh_input_def blank_input_def clear_placement_def split: option.splits)
  then have flagged: "\<forall>inp\<in>set (map2 (\<lambda>inp flag. inp\<lparr>in_is_runtime_default := flag\<rparr>) objs flags). fresh_input inp" for flags
    by (auto dest!: set_zip_leftD intro!: fresh_mark)
  show ?thesis
  proof (cases "case options of None \<Rightarrow> None | Some op \<Rightarrow> op_object_is_runtime_default op")
    case None
    then show ?thesis using assms(2) objs(2) \<open>\<forall>inp\<in>set objs. fresh_input inp\<close>
      by (intro exI [of _ objs]) (simp add: mark_runtime_defaults_def)
  next
    case (Some flags)
    then show ?thesis using assms(2) objs(2) flagged [of flags]
      by (intro exI [of _ "map2 (\<lambda>inp flag. inp\<lparr>in_is_runtime_default := flag\<rparr>) objs flags"])
        (simp only: mark_runtime_defaults_def option.case split: if_splits; simp)
  qed
qed

lemma fresh_closed:
  assumes "fresh_input inp" shows "closed_object inp"
  using assms by (auto simp: fresh_input_def closed_object_def section_kept_def)

lemma clear_placement_flags:
  "clear_placement (inp\<lparr>in_section_gc_dead := a, in_symbol_gc_referenced := b\<rparr>) = (clear_placement inp)\<lparr>in_section_gc_dead := a, in_symbol_gc_referenced := b\<rparr>"
  by (simp add: clear_placement_def)

lemma collected_keeps:
  assumes "collected objs entry oi inp" "fresh_input (objs ! oi)"
  shows "in_object inp = in_object (objs ! oi)" "clear_placement inp = inp" "in_symbols inp = []"
proof -
  have cp: "clear_placement (objs ! oi) = objs ! oi" "in_symbols (objs ! oi) = []"
    using assms(2) unfolding fresh_input_def by blast+
  have "\<exists>a b. inp = (objs ! oi)\<lparr>in_section_gc_dead := a, in_symbol_gc_referenced := b\<rparr>"
  proof (cases "in_object (objs ! oi)")
    case None
    then have "inp = objs ! oi" using assms(1) by (simp add: collected_def)
    then show ?thesis by (intro exI [of _ "in_section_gc_dead inp"] exI [of _ "in_symbol_gc_referenced inp"]) simp
  next
    case (Some ob)
    then show ?thesis using assms(1) unfolding collected_def Some option.case by blast
  qed
  then obtain a b where inp: "inp = (objs ! oi)\<lparr>in_section_gc_dead := a, in_symbol_gc_referenced := b\<rparr>" by blast
  show "in_object inp = in_object (objs ! oi)" "in_symbols inp = []" using inp cp(2) by simp_all
  show "clear_placement inp = inp" unfolding inp clear_placement_flags cp(1) ..
qed

lemma gc_closed:
  assumes gc: "link_resolution_gc_sections mem options r = Inr r'" and small: "sum_list (map symbol_total (rs_objects r)) < 2 ^ 60"
    and fresh: "\<forall>inp\<in>set (rs_objects r). fresh_input inp"
  shows "\<exists>objs. r' = r\<lparr>rs_objects := objs\<rparr> \<and> map in_object objs = map in_object (rs_objects r) \<and>
    (\<forall>inp\<in>set objs. clear_placement inp = inp \<and> in_symbols inp = [] \<and> closed_object inp)"
proof (cases "all_items (rs_objects r) = []")
  case True
  then have "sum_list (map (\<lambda>inp. length (object_sections inp)) (rs_objects r)) = 0" using all_items_length [of "rs_objects r"] by simp
  then have "r' = r" using gc by (simp add: link_resolution_gc_sections_def)
  then have "r' = r\<lparr>rs_objects := rs_objects r\<rparr>" by simp
  moreover have "\<forall>inp\<in>set (rs_objects r). clear_placement inp = inp \<and> in_symbols inp = [] \<and> closed_object inp"
    using fresh fresh_closed unfolding fresh_input_def by blast
  ultimately show ?thesis by blast
next
  case False
  obtain objs where objs: "r' = r\<lparr>rs_objects := objs\<rparr>" "length objs = length (rs_objects r)"
    "\<forall>oi < length objs. collected (rs_objects r) (entry_name options) oi (objs ! oi)"
    using gc_outcome [OF small False, of mem options] unfolding gc by (auto simp only: sum.distinct sum.inject simp_thms split: if_splits)
  have c: "collected (rs_objects r) (entry_name options) oi (objs ! oi)" "fresh_input (rs_objects r ! oi)" "oi < length (rs_objects r)"
    if "oi < length objs" for oi
    using objs(2,3) fresh that by (blast, simp, simp)
  note k = collected_keeps [OF c(1,2)]
  have "map in_object objs = map in_object (rs_objects r)" by (rule nth_equalityI) (simp_all add: objs(2) k(1))
  moreover have "clear_placement (objs ! oi) = objs ! oi \<and> in_symbols (objs ! oi) = [] \<and> closed_object (objs ! oi)" if "oi < length objs" for oi
    using k(2,3) [OF that that] collected_closed [OF c(1,3) [OF that]] by blast
  then have "\<forall>inp\<in>set objs. clear_placement inp = inp \<and> in_symbols inp = [] \<and> closed_object inp"
    by (metis in_set_conv_nth)
  ultimately show ?thesis using objs(1) by blast
qed

section \<open>What merging and binding leave alone\<close>

lemma merge_keeps:
  assumes "link_resolution_merge_sections mem junk al r = Inr r'"
  shows "rs_symbols r' = rs_symbols r \<and> rs_symbol_buckets r' = rs_symbol_buckets r"
proof -
  have sec: "rs_symbols s' = rs_symbols s \<and> rs_symbol_buckets s' = rs_symbol_buckets s"
    if "merge_section mem junk al oi ob i s = Inr s'" for oi ob i s s'
    using that by (auto simp: merge_section_def Let_def andthen_Inr_iff split: option.splits if_splits prod.splits)
  have obj: "rs_symbols s' = rs_symbols s \<and> rs_symbol_buckets s' = rs_symbol_buckets s"
    if s: "merge_object mem junk al oi s = Inr s'" for oi s s'
  proof (cases "in_object (rs_objects s ! oi)")
    case None
    then show ?thesis using s by (auto simp: merge_object_def)
  next
    case (Some ob)
    let ?s = "s\<lparr>rs_objects := (rs_objects s)[oi := (rs_objects s ! oi)\<lparr>in_section_merged_indices := [], in_section_merged_offsets := [],
       in_section_merged_sizes := [], in_section_alignments := []\<rparr>]\<rparr>"
    have f: "fold_outcome (merge_section mem junk al oi ob) [0..<length (ob_sections ob)] ?s = Inr s'"
      using s Some by (auto simp: merge_object_def Let_def andthen_Inr_iff)
    show ?thesis
      using fold_outcome_inv [of _ "\<lambda>t. rs_symbols t = rs_symbols s \<and> rs_symbol_buckets t = rs_symbol_buckets s", OF _ _ f] sec by auto
  qed
  show ?thesis
    using fold_outcome_inv [of _ "\<lambda>t. rs_symbols t = rs_symbols r \<and> rs_symbol_buckets t = rs_symbol_buckets r", OF _ _ assms [unfolded link_resolution_merge_sections_def]]
      obj by auto
qed

text \<open>A global symbol without what binding it to a shared library adds.\<close>

definition unbound :: "LinkedSymbol \<Rightarrow> LinkedSymbol" where
  "unbound g = g\<lparr>ls_is_shared_import := False, ls_shared_import_index := 0\<rparr>"

definition only_bound :: "LinkResolution \<Rightarrow> LinkResolution \<Rightarrow> bool" where
  "only_bound r r' \<longleftrightarrow> rs_objects r' = rs_objects r \<and> rs_sections r' = rs_sections r \<and> rs_symbol_buckets r' = rs_symbol_buckets r \<and>
     map unbound (rs_symbols r') = map unbound (rs_symbols r)"

lemma unbound_facts:
  assumes "unbound g = unbound h"
  shows "ls_name g = ls_name h" "ls_is_defined g = ls_is_defined h" "ls_is_external g = ls_is_external h"
    "ls_merged_section_index g = ls_merged_section_index h" "ls_merged_offset g = ls_merged_offset h"
    "ls_defining_object_index g = ls_defining_object_index h" "ls_defining_symbol_index g = ls_defining_symbol_index h"
proof -
  have f: "f (unbound g) = f (unbound h)" for f :: "LinkedSymbol \<Rightarrow> 'a" using assms by simp
  from f [of ls_name] f [of ls_is_defined] f [of ls_is_external] f [of ls_merged_section_index] f [of ls_merged_offset]
    f [of ls_defining_object_index] f [of ls_defining_symbol_index]
  show "ls_name g = ls_name h" "ls_is_defined g = ls_is_defined h" "ls_is_external g = ls_is_external h"
    "ls_merged_section_index g = ls_merged_section_index h" "ls_merged_offset g = ls_merged_offset h"
    "ls_defining_object_index g = ls_defining_object_index h" "ls_defining_symbol_index g = ls_defining_symbol_index h"
    by (simp_all add: unbound_def)
qed

lemma only_bound_trans: "only_bound a b \<Longrightarrow> only_bound b c \<Longrightarrow> only_bound a c"
  by (simp add: only_bound_def)

lemma add_import_bound:
  assumes "link_resolution_add_shared_import mem i l def r = Inr r'" shows "only_bound r r'"
proof -
  obtain r1 where r1: "link_resolution_reserve_shared_imports mem (length (rs_shared_imports r) + 1) r = Inr r1"
    "rs_objects r' = rs_objects r1" "rs_sections r' = rs_sections r1" "rs_symbol_buckets r' = rs_symbol_buckets r1"
    "rs_symbols r' = (rs_symbols r1)[i := (rs_symbols r1 ! i)\<lparr>ls_is_shared_import := True, ls_shared_import_index := length (rs_shared_imports r1)\<rparr>]"
    using assms by (auto simp: link_resolution_add_shared_import_def andthen_Inr_iff Let_def)
  have "rs_objects r1 = rs_objects r" "rs_sections r1 = rs_sections r" "rs_symbol_buckets r1 = rs_symbol_buckets r" "rs_symbols r1 = rs_symbols r"
    using r1(1) by (auto simp: link_resolution_reserve_shared_imports_def andthen_Inr_iff split: if_splits)
  moreover have "map unbound (xs[i := (xs ! i)\<lparr>ls_is_shared_import := True, ls_shared_import_index := k\<rparr>]) = map unbound xs" for xs k
  proof -
    have "unbound ((xs ! i)\<lparr>ls_is_shared_import := True, ls_shared_import_index := k\<rparr>) = unbound (xs ! i)" by (simp add: unbound_def)
    then show ?thesis by (simp add: map_update) (metis list_update_id map_update)
  qed
  ultimately show ?thesis using r1 by (simp add: only_bound_def)
qed

lemma bind_bound:
  assumes "link_resolution_bind_shared_libraries mem files options r = Inr r'" shows "only_bound r r'"
proof -
  have sym: "only_bound s s'" if "bind_symbol m p i s = Inr s'" for m p i s s'
    using that by (auto simp: bind_symbol_def Let_def andthen_Inr_iff only_bound_def split: option.splits if_splits
        dest!: add_import_bound)
  have lib: "only_bound s s'" if "load_libraries mem files paths s = Inr s'" for paths s s'
    using that by (auto simp: load_libraries_def andthen_Inr_iff only_bound_def split: if_splits)
  have all: "only_bound s s'" if f: "fold_outcome (bind_symbol m p) xs s = Inr s'" for m p xs s s'
    using fold_outcome_inv [of _ "only_bound s", OF _ _ f] sym only_bound_trans by (auto simp: only_bound_def)
  consider (none) "r' = r" | (some) paths m p r1 xs where "load_libraries mem files paths r = Inr r1" "fold_outcome (bind_symbol m p) xs r1 = Inr r'"
    using assms unfolding link_resolution_bind_shared_libraries_def Let_def by (auto simp: andthen_Inr_iff split: if_splits)
  then show ?thesis
  proof cases
    case some
    then show ?thesis using lib all only_bound_trans by blast
  qed (simp add: only_bound_def)
qed

section \<open>The final state\<close>

lemma resolve_symbol_result:
  assumes "resolve_symbol mem inp n oi k y = Inr (os, g)"
  shows "os_is_auxiliary os = sy_is_auxiliary y" "os_name os = sy_name y"
    "\<not> sy_is_auxiliary y \<Longrightarrow> os_is_external os = sy_is_external y"
    "\<not> sy_is_auxiliary y \<Longrightarrow> sy_section_index y = int j \<Longrightarrow> j < n"
    "\<not> sy_is_auxiliary y \<Longrightarrow> sy_section_index y = int j \<Longrightarrow> in_section_merged_indices inp ! j = Some m \<Longrightarrow>
       os_is_defined os \<and> os_merged_section_index os = Some m \<and> os_merged_offset os = in_section_merged_offsets inp ! j + sy_value y"
    "os_is_defined os \<Longrightarrow> \<not> sy_is_auxiliary y \<and> 0 \<le> sy_section_index y \<and> in_section_merged_indices inp ! nat (sy_section_index y) \<noteq> None"
  using assms
  by (auto simp: resolve_symbol_def Let_def andthen_Inr_iff blank_object_symbol_def split: if_splits option.splits)

text \<open>Where the definition of a name is: a symbol of an object, in a section that was placed.\<close>

definition defined_at :: "LinkResolution \<Rightarrow> string \<Rightarrow> nat \<Rightarrow> u64 \<Rightarrow> bool" where
  "defined_at r nm m offset \<longleftrightarrow> (\<exists>oi ob k j. oi < length (rs_objects r) \<and> in_object (rs_objects r ! oi) = Some ob \<and>
     k < length (ob_symbols ob) \<and> sy_name (ob_symbols ob ! k) = Some nm \<and> sy_is_external (ob_symbols ob ! k) \<and>
     j < length (ob_sections ob) \<and> sy_section_index (ob_symbols ob ! k) = int j \<and> in_section_merged_indices (rs_objects r ! oi) ! j = Some m \<and>
     offset = in_section_merged_offsets (rs_objects r ! oi) ! j + sy_value (ob_symbols ob ! k))"

text \<open>After the symbols are built: every defined name is where one of its definitions is, and every external symbol that
  was not dropped is in the table.\<close>

lemma all_globals_nth:
  "w \<in> set (all_globals r) \<longleftrightarrow> (\<exists>oi ob k. oi < length (rs_objects r) \<and> in_object (rs_objects r ! oi) = Some ob \<and>
     k < length (in_symbols (rs_objects r ! oi)) \<and> w = in_symbols (rs_objects r ! oi) ! k \<and> counts_as_global (rs_objects r ! oi) ob (k, w))"
proof -
  have g: "w \<in> set (global_symbols inp) \<longleftrightarrow> (\<exists>ob k. in_object inp = Some ob \<and> k < length (in_symbols inp) \<and> w = in_symbols inp ! k \<and> counts_as_global inp ob (k, w))" for inp
    by (cases "in_object inp") (force simp: global_symbols_def in_set_enumerate_eq)+
  have "w \<in> set (all_globals r) \<longleftrightarrow> (\<exists>inp\<in>set (rs_objects r). w \<in> set (global_symbols inp))" by (simp add: all_globals_def)
  also have "\<dots> \<longleftrightarrow> (\<exists>oi < length (rs_objects r). w \<in> set (global_symbols (rs_objects r ! oi)))" by (metis in_set_conv_nth)
  finally show ?thesis unfolding g by blast
qed

lemma rule_has_witness:
  assumes "resolution_rule objs occs g" "ls_is_defined g" shows "\<exists>w\<in>set occs. os_is_defined w \<and> defined_by w g"
proof -
  let ?defs = "filter os_is_defined occs" and ?own = "filter (\<lambda>os. os_is_defined os \<and> \<not> from_default objs os) occs"
  consider (own) w where "?own = [w]" "defined_by w g" | (dflt) w where "?defs = [w]" "defined_by w g"
    using assms unfolding resolution_rule_def Let_def by (auto split: list.splits)
  then show ?thesis
  proof cases
    case own
    then have "w \<in> set ?own" by simp
    then show ?thesis using own(2) by auto
  next
    case dflt
    then have "w \<in> set ?defs" by simp
    then show ?thesis using dflt(2) by auto
  qed
qed

definition symbols_ok :: "link_memory \<Rightarrow> LinkResolution \<Rightarrow> bool" where
  "symbols_ok mem r \<longleftrightarrow> sym_inv r \<and> all_external r \<and>
     (\<forall>oi < length (rs_objects r). stored_symbols mem oi (rs_objects r ! oi) (in_symbols (rs_objects r ! oi))) \<and>
     (\<forall>nm g. globals r nm = Some g \<longrightarrow> ls_is_defined g \<longrightarrow>
        (\<exists>m. ls_merged_section_index g = Some m \<and> defined_at r nm m (ls_merged_offset g))) \<and>
     (\<forall>w nm. w \<in> set (all_globals r) \<longrightarrow> os_name w = Some nm \<longrightarrow> globals r nm \<noteq> None)"

lemma stored_static: "stored_symbols mem oi (inp\<lparr>in_symbols := xs\<rparr>) = stored_symbols mem oi inp"
  by (intro ext) (simp add: stored_symbols_def resolve_symbol_static split: option.split)

lemma build_symbols_ok:
  assumes ok: "link_resolution_build_symbols mem r = Inr r'" and un: "unresolved_state r" and small: "sum_list (map symbol_total (rs_objects r)) < 2 ^ 60"
  shows "symbols_ok mem r'" and "rs_sections r' = rs_sections r" and "length (rs_objects r') = length (rs_objects r)"
    and "\<And>oi. oi < length (rs_objects r) \<Longrightarrow> \<exists>oss. rs_objects r' ! oi = (rs_objects r ! oi)\<lparr>in_symbols := oss\<rparr>"
proof -
  have res: "resolved (rs_objects r) r'" by (rule build_symbols_resolved [OF un small ok])
  have "all_external r" using un by (simp add: unresolved_state_def all_external_def)
  then have st: "length (rs_objects r') = length (rs_objects r)" "rs_sections r' = rs_sections r" "all_external r'"
    "\<And>oi. oi < length (rs_objects r) \<Longrightarrow> \<exists>oss. rs_objects r' ! oi = (rs_objects r ! oi)\<lparr>in_symbols := oss\<rparr> \<and> stored_symbols mem oi (rs_objects r ! oi) oss"
    using build_objects_store [of mem 0 "length (rs_objects r)" r r'] ok by (auto simp: link_resolution_build_symbols_def)
  show "rs_sections r' = rs_sections r" "length (rs_objects r') = length (rs_objects r)" by (fact st)+
  show "\<And>oi. oi < length (rs_objects r) \<Longrightarrow> \<exists>oss. rs_objects r' ! oi = (rs_objects r ! oi)\<lparr>in_symbols := oss\<rparr>" using st(4) by blast
  have stored: "stored_symbols mem oi (rs_objects r' ! oi) (in_symbols (rs_objects r' ! oi))" if "oi < length (rs_objects r')" for oi
    using st(4) [of oi] that st(1) by (auto simp: stored_static)
  have "\<exists>m. ls_merged_section_index g = Some m \<and> defined_at r' nm m (ls_merged_offset g)"
    if g: "globals r' nm = Some g" "ls_is_defined g" for nm g
  proof -
    have "resolution_rule (rs_objects r) (occurrences r' nm) g" using res g(1) by (auto simp: resolved_def entry_of_def) (metis option.simps(5))
    then obtain w where w: "w \<in> set (occurrences r' nm)" "os_is_defined w" "defined_by w g" using rule_has_witness g(2) by blast
    then obtain oi ob k where k: "oi < length (rs_objects r')" "in_object (rs_objects r' ! oi) = Some ob"
      "k < length (in_symbols (rs_objects r' ! oi))" "w = in_symbols (rs_objects r' ! oi) ! k" "counts_as_global (rs_objects r' ! oi) ob (k, w)" "os_name w = Some nm"
      by (auto simp: occurrences_def all_globals_nth)
    obtain b where rs: "resolve_symbol mem (rs_objects r' ! oi) (length (ob_sections ob)) oi k (ob_symbols ob ! k) = Inr (w, b)" "k < length (ob_symbols ob)"
      using stored [OF k(1)] k(2-4) by (auto simp: stored_symbols_def)
    note f = resolve_symbol_result [OF rs(1)]
    obtain j m where j: "\<not> sy_is_auxiliary (ob_symbols ob ! k)" "sy_section_index (ob_symbols ob ! k) = int j" "in_section_merged_indices (rs_objects r' ! oi) ! j = Some m"
      using f(6) [OF w(2)] by (metis int_nat_eq not_None_eq)
    have ext: "sy_is_external (ob_symbols ob ! k)" using k(5) f(3) [OF j(1)] by (auto simp: counts_as_global_def symbol_is_global_def split: if_splits)
    have "defined_at r' nm m (os_merged_offset w)"
      unfolding defined_at_def
      using k(1,2,6) rs(2) ext j f(2) f(4) [OF j(1,2)] f(5) [OF j] by (intro exI [of _ oi] exI [of _ ob] exI [of _ k] exI [of _ j]) simp
    then show ?thesis using w(3) f(5) [OF j] by (auto simp: defined_by_def)
  qed
  moreover have "globals r' nm \<noteq> None" if "w \<in> set (all_globals r')" "os_name w = Some nm" for w nm
  proof -
    have "w \<in> set (occurrences r' nm)" using that by (simp add: occurrences_def)
    then show ?thesis using res by (auto simp: resolved_def)
  qed
  moreover have "sym_inv r'" using res by (simp add: resolved_def)
  ultimately show "symbols_ok mem r'" using st(3) stored unfolding symbols_ok_def by blast
qed

text \<open>The state in which the symbols are bound: sections placed, symbols built.\<close>

definition placed_objects :: "LinkResolution \<Rightarrow> bool" where
  "placed_objects r \<longleftrightarrow> (\<forall>oi < length (rs_objects r). \<forall>ob. in_object (rs_objects r ! oi) = Some ob \<longrightarrow>
     length (in_section_merged_indices (rs_objects r ! oi)) = length (ob_sections ob) \<and>
     (\<forall>j < length (ob_sections ob). in_section_merged_indices (rs_objects r ! oi) ! j = destination (rs_objects r ! oi) ob j \<and>
        (\<forall>m. destination (rs_objects r ! oi) ob j = Some m \<longrightarrow>
           (\<exists>c\<in>set (lk_contributions (rs_sections r ! m)). ct_object_index c = oi \<and> ct_section_index c = j \<and>
              ct_merged_offset c = in_section_merged_offsets (rs_objects r ! oi) ! j))))"

definition image_state :: "link_memory \<Rightarrow> nat \<Rightarrow> LinkedInputObject list \<Rightarrow> LinkResolution \<Rightarrow> bool" where
  "image_state mem B objs r \<longleftrightarrow> symbols_ok mem r \<and> placed_objects r \<and> (\<forall>oi < length (rs_objects r). closed_object (rs_objects r ! oi)) \<and>
     map in_object objs = map in_object (rs_objects r) \<and>
     length (rs_sections r) = 7 \<and> (\<forall>s\<in>set (rs_sections r). laid_out objs s \<and> unat (lk_virtual_size s) \<le> B)"

lemma clear_more:
  assumes "clear_placement x = clear_placement y"
  shows "in_section_gc_dead x = in_section_gc_dead y" "in_symbol_gc_referenced x = in_symbol_gc_referenced y" "in_symbols x = in_symbols y"
proof -
  have f: "f (clear_placement x) = f (clear_placement y)" for f :: "LinkedInputObject \<Rightarrow> 'a" using assms by simp
  from f [of in_section_gc_dead] f [of in_symbol_gc_referenced] f [of in_symbols]
  show "in_section_gc_dead x = in_section_gc_dead y" "in_symbol_gc_referenced x = in_symbol_gc_referenced y" "in_symbols x = in_symbols y"
    by (simp_all add: clear_placement_def)
qed

lemma closed_cong:
  assumes "in_object x = in_object y" "in_section_gc_dead x = in_section_gc_dead y" "in_symbol_gc_referenced x = in_symbol_gc_referenced y"
  shows "closed_object x = closed_object y"
  unfolding closed_object_def section_kept_def assms ..


lemma total_same:
  assumes "map in_object xs = map in_object ys"
  shows "map symbol_total xs = map symbol_total ys" "map (object_cost al) xs = map (object_cost al) ys"
proof -
  show "map symbol_total xs = map symbol_total ys"
    using arg_cong [OF assms, of "map (\<lambda>v. case v of None \<Rightarrow> 0 | Some ob \<Rightarrow> length (ob_symbols ob))"]
    by (simp add: symbol_total_def [abs_def] comp_def)
  show "map (object_cost al) xs = map (object_cost al) ys"
    using arg_cong [OF assms, of "map (\<lambda>v. case v of None \<Rightarrow> 0 | Some ob \<Rightarrow> sum_list (map (section_cost al ob) [0..<length (ob_sections ob)]))"]
    by (simp add: object_cost_def [abs_def] comp_def)
qed

lemma merge_to_image:
  assumes merge: "link_resolution_merge_sections mem junk al r2 = Inr r3" and sym: "link_resolution_build_symbols mem r3 = Inr r4"
    and start: "rs_sections r2 = map blank_section linked_section_kinds" "rs_symbols r2 = []" "rs_symbol_buckets r2 = []"
    and objs: "\<forall>inp\<in>set (rs_objects r2). clear_placement inp = inp \<and> in_symbols inp = [] \<and> closed_object inp"
    and small: "sum_list (map symbol_total (rs_objects r2)) < 2 ^ 60" "sum_list (map (object_cost al) (rs_objects r2)) < 2 ^ 64"
  shows "image_state mem (sum_list (map (object_cost al) (rs_objects r2))) (rs_objects r2) r4"
proof -
  let ?B = "sum_list (map (object_cost al) (rs_objects r2))"
  have "\<forall>inp\<in>set (rs_objects r2). clear_placement inp = inp" using objs by blast
  from merge_sections_ok [OF start(1) this small(2) merge]
  have ms: "length (rs_sections r3) = 7" "\<And>s. s \<in> set (rs_sections r3) \<Longrightarrow> laid_out (rs_objects r2) s \<and> unat (lk_virtual_size s) \<le> ?B"
    and cl: "map clear_placement (rs_objects r3) = map clear_placement (rs_objects r2)"
    and pl: "\<And>oi. oi < length (rs_objects r2) \<Longrightarrow> placements_ok (rs_sections r3) oi (rs_objects r3 ! oi)"
    and ln: "\<And>j. j < length (rs_objects r2) \<Longrightarrow> length (in_section_merged_indices (rs_objects r3 ! j)) =
       (case in_object (rs_objects r2 ! j) of None \<Rightarrow> 0 | Some ob \<Rightarrow> length (ob_sections ob))"
    unfolding merged_state_def by blast+
  have len3: "length (rs_objects r3) = length (rs_objects r2)" using cl by (rule map_eq_imp_length_eq)
  have c3: "clear_placement (rs_objects r3 ! oi) = clear_placement (rs_objects r2 ! oi)" if "oi < length (rs_objects r2)" for oi
    using cl that len3 by (metis nth_map)
  have io3: "map in_object (rs_objects r3) = map in_object (rs_objects r2)"
    by (rule nth_equalityI) (use len3 clear_facts(1) [OF c3] in simp_all)
  have "in_symbols (rs_objects r3 ! oi) = []" if "oi < length (rs_objects r3)" for oi
    using clear_more(3) [OF c3] objs that len3 by simp
  then have un: "unresolved_state r3"
    using merge_keeps [OF merge] start unfolding unresolved_state_def by (metis in_set_conv_nth)
  have sm: "sum_list (map symbol_total (rs_objects r3)) < 2 ^ 60" using small(1) total_same(1) [OF io3] by simp
  note b = build_symbols_ok [OF sym un sm]
  have len4: "length (rs_objects r4) = length (rs_objects r2)" using b(3) len3 by simp
  have io4: "map in_object (rs_objects r4) = map in_object (rs_objects r3)"
  proof (rule nth_equalityI)
    fix oi assume "oi < length (map in_object (rs_objects r4))"
    then have "oi < length (rs_objects r3)" "oi < length (rs_objects r4)" using b(3) by simp_all
    then show "map in_object (rs_objects r4) ! oi = map in_object (rs_objects r3) ! oi" using b(4) [of oi] by auto
  qed (simp add: b(3))
  have "closed_object (rs_objects r4 ! oi)" if oi: "oi < length (rs_objects r4)" for oi
  proof -
    obtain oss where e: "rs_objects r4 ! oi = (rs_objects r3 ! oi)\<lparr>in_symbols := oss\<rparr>" using b(4) [of oi] oi len3 len4 by auto
    have l: "oi < length (rs_objects r2)" using oi len4 by simp
    have "closed_object (rs_objects r4 ! oi) = closed_object (rs_objects r2 ! oi)"
      unfolding e by (rule closed_cong) (simp_all add: clear_facts(1) [OF c3 [OF l]] clear_more(1,2) [OF c3 [OF l]])
    then show ?thesis using objs l by simp
  qed
  moreover have "placed_objects r4"
    unfolding placed_objects_def
  proof (intro allI impI)
    fix oi ob assume oi: "oi < length (rs_objects r4)" and ob: "in_object (rs_objects r4 ! oi) = Some ob"
    have l: "oi < length (rs_objects r2)" using oi len4 by simp
    obtain oss where e: "rs_objects r4 ! oi = (rs_objects r3 ! oi)\<lparr>in_symbols := oss\<rparr>" using b(4) [of oi] oi len3 len4 by auto
    have ob3: "in_object (rs_objects r3 ! oi) = Some ob" "in_object (rs_objects r2 ! oi) = Some ob"
      using ob e clear_facts(1) [OF c3 [OF l]] by simp_all
    have d: "destination (rs_objects r4 ! oi) ob = destination (rs_objects r3 ! oi) ob" by (simp add: e destination_def section_kept_def fun_eq_iff)
    have n: "length (in_section_merged_indices (rs_objects r3 ! oi)) = length (ob_sections ob)" using ln [OF l] ob3 by simp
    have "in_section_merged_indices (rs_objects r3 ! oi) ! j = destination (rs_objects r3 ! oi) ob j \<and>
        (\<forall>m. destination (rs_objects r3 ! oi) ob j = Some m \<longrightarrow>
           (\<exists>c\<in>set (lk_contributions (rs_sections r3 ! m)). ct_object_index c = oi \<and> ct_section_index c = j \<and>
              ct_merged_offset c = in_section_merged_offsets (rs_objects r3 ! oi) ! j))" if "j < length (ob_sections ob)" for j
    proof -
      have p: "in_section_merged_indices (rs_objects r3 ! oi) ! j = destination (rs_objects r3 ! oi) (the (in_object (rs_objects r3 ! oi))) j"
        "case in_section_merged_indices (rs_objects r3 ! oi) ! j of None \<Rightarrow> True
         | Some m \<Rightarrow> \<exists>c\<in>set (lk_contributions (rs_sections r3 ! m)). ct_object_index c = oi \<and> ct_section_index c = j \<and>
             ct_merged_offset c = in_section_merged_offsets (rs_objects r3 ! oi) ! j"
        using pl [OF l, unfolded placements_ok_def n, THEN conjunct2, THEN spec, THEN mp, OF that] by (rule conjunct1, rule conjunct2)
      then show ?thesis using ob3(1) by (cases "in_section_merged_indices (rs_objects r3 ! oi) ! j") auto
    qed
    then show "length (in_section_merged_indices (rs_objects r4 ! oi)) = length (ob_sections ob) \<and>
     (\<forall>j < length (ob_sections ob). in_section_merged_indices (rs_objects r4 ! oi) ! j = destination (rs_objects r4 ! oi) ob j \<and>
        (\<forall>m. destination (rs_objects r4 ! oi) ob j = Some m \<longrightarrow>
           (\<exists>c\<in>set (lk_contributions (rs_sections r4 ! m)). ct_object_index c = oi \<and> ct_section_index c = j \<and>
              ct_merged_offset c = in_section_merged_offsets (rs_objects r4 ! oi) ! j)))"
      unfolding d b(2) using n e by simp
  qed
  moreover have "map in_object (rs_objects r2) = map in_object (rs_objects r4)" using io3 io4 by simp
  ultimately show ?thesis using b(1,2) ms unfolding image_state_def by simp
qed

section \<open>From the symbols to the end\<close>

abbreviation unresolved_allowed :: "LinkResolutionOptions option \<Rightarrow> bool" where
  "unresolved_allowed options \<equiv> (case options of None \<Rightarrow> False | Some op \<Rightarrow> op_allow_unresolved_externals op)"

definition finished :: "u64 \<Rightarrow> LinkResolutionOptions option \<Rightarrow> LinkResolution \<Rightarrow> LinkResolution \<Rightarrow> bool" where
  "finished al options r4 r \<longleftrightarrow> rs_sections r = assign_section_addresses al 0 (rs_sections r4) \<and>
     rs_objects r = map (\<lambda>inp. inp\<lparr>in_symbols := map (address_object_symbol (rs_sections r)) (in_symbols inp)\<rparr>) (rs_objects r4) \<and>
     rs_symbol_buckets r = rs_symbol_buckets r4 \<and>
     (\<exists>syms. map unbound syms = map unbound (rs_symbols r4) \<and> rs_symbols r = map (address_global (rs_sections r)) syms) \<and>
     (unresolved_allowed options \<or> (\<forall>g\<in>set (rs_symbols r). ls_is_external g \<longrightarrow> ls_is_defined g \<or> ls_is_shared_import g))"

lemma validate_facts:
  assumes "link_resolution_validate_externals r options = Inr r'"
  shows "\<exists>e. r' = r\<lparr>rs_entry_symbol := e\<rparr>"
    "unresolved_allowed options \<or> (\<forall>g\<in>set (rs_symbols r). ls_is_external g \<longrightarrow> ls_is_defined g \<or> ls_is_shared_import g)"
proof -
  have same: "\<exists>e. r = r\<lparr>rs_entry_symbol := e\<rparr>" by (rule exI [of _ "rs_entry_symbol r"]) simp
  show "\<exists>e. r' = r\<lparr>rs_entry_symbol := e\<rparr>"
  proof (cases "case options of None \<Rightarrow> None | Some op \<Rightarrow> op_entry_symbol_name op")
    case None
    then have "r' = r" using assms unfolding link_resolution_validate_externals_def by (auto simp: andthen_Inr_iff)
    then show ?thesis using same by simp
  next
    case (Some nm)
    then have "r' = r \<or> (\<exists>e. r' = r\<lparr>rs_entry_symbol := e\<rparr>)"
      using assms unfolding link_resolution_validate_externals_def Some option.case by (auto simp: andthen_Inr_iff split: if_splits)
    then show ?thesis using same by blast
  qed
  show "unresolved_allowed options \<or> (\<forall>g\<in>set (rs_symbols r). ls_is_external g \<longrightarrow> ls_is_defined g \<or> ls_is_shared_import g)"
    using assms unfolding link_resolution_validate_externals_def by (auto simp: andthen_Inr_iff list_all_iff)
qed

text \<open>No stage changes the contents of an object file.\<close>

lemma gc_in_object:
  assumes "link_resolution_gc_sections mem options r = Inr r'" shows "map in_object (rs_objects r') = map in_object (rs_objects r)"
proof -
  have "r' = r \<or> (\<exists>st objs. map_outcome (gc_sweep_object mem st) 0 (rs_objects r) = Inr objs \<and> rs_objects r' = objs)"
    using assms by (auto simp: link_resolution_gc_sections_def Let_def andthen_Inr_iff split: if_splits)
  then show ?thesis
  proof
    assume "\<exists>st objs. map_outcome (gc_sweep_object mem st) 0 (rs_objects r) = Inr objs \<and> rs_objects r' = objs"
    then obtain st where m: "map_outcome (gc_sweep_object mem st) 0 (rs_objects r) = Inr (rs_objects r')" by blast
    have "in_object y = in_object x" if "gc_sweep_object mem st k x = Inr y" for k x y
      using that by (auto simp: gc_sweep_object_def andthen_Inr_iff split: option.splits)
    then show ?thesis using map_outcome_nth [OF m] by (intro nth_equalityI) auto
  qed simp
qed

lemma merge_in_object:
  assumes "link_resolution_merge_sections mem junk al r = Inr r'" shows "map in_object (rs_objects r') = map in_object (rs_objects r)"
proof -
  let ?I = "\<lambda>t. map in_object (rs_objects t) = map in_object (rs_objects r)"
  have upd: "map in_object (xs[i := y]) = map in_object xs" if "in_object y = in_object (xs ! i)" for xs i y
    by (cases "i < length xs") (simp_all add: map_update that list_update_same_conv list_update_beyond)
  have sec: "?I s'" if I: "?I s" and m: "merge_section mem junk al oi ob i s = Inr s'" for oi ob i s s'
  proof -
    have "\<exists>a b c d. rs_objects s' = (rs_objects s)[oi := record_placement a b c d (rs_objects s ! oi)]"
      using m unfolding merge_section_def Let_def by (auto simp: andthen_Inr_iff split: option.splits if_splits prod.splits) blast+
    then obtain a b c d where e: "rs_objects s' = (rs_objects s)[oi := record_placement a b c d (rs_objects s ! oi)]" by blast
    have "map in_object (rs_objects s') = map in_object (rs_objects s)" unfolding e by (rule upd) (simp add: record_placement_def)
    then show ?thesis using I by (rule trans)
  qed
  have obj: "?I s'" if s: "?I s" "merge_object mem junk al oi s = Inr s'" for oi s s'
  proof (cases "in_object (rs_objects s ! oi)")
    case None
    then have e: "rs_objects s' = (rs_objects s)[oi := (rs_objects s ! oi)\<lparr>in_section_merged_indices := [], in_section_merged_offsets := [],
       in_section_merged_sizes := [], in_section_alignments := []\<rparr>]"
      using s(2) by (auto simp: merge_object_def Let_def)
    have "map in_object (rs_objects s') = map in_object (rs_objects s)" unfolding e by (rule upd) simp
    then show ?thesis using s(1) by (rule trans)
  next
    case (Some ob)
    let ?s = "s\<lparr>rs_objects := (rs_objects s)[oi := (rs_objects s ! oi)\<lparr>in_section_merged_indices := [], in_section_merged_offsets := [],
       in_section_merged_sizes := [], in_section_alignments := []\<rparr>]\<rparr>"
    have f: "fold_outcome (merge_section mem junk al oi ob) [0..<length (ob_sections ob)] ?s = Inr s'"
      using s(2) Some by (auto simp: merge_object_def Let_def andthen_Inr_iff)
    have "map in_object (rs_objects ?s) = map in_object (rs_objects s)"
      unfolding LinkResolution.select_convs LinkResolution.update_convs by simp (rule upd, simp)
    then have start: "?I ?s" using s(1) by (rule trans)
    show ?thesis
    proof (rule fold_outcome_inv [where I = ?I, OF _ start f])
      fix i t t' assume "?I t" "merge_section mem junk al oi ob i t = Inr t'"
      then show "?I t'" by (rule sec)
    qed
  qed
  show ?thesis
  proof (rule fold_outcome_inv [where I = ?I, OF _ refl assms [unfolded link_resolution_merge_sections_def]])
    fix oi t t' assume "?I t" "merge_object mem junk al oi t = Inr t'"
    then show "?I t'" by (rule obj)
  qed
qed

lemma symbols_in_object:
  assumes "link_resolution_build_symbols mem r = Inr r'" shows "map in_object (rs_objects r') = map in_object (rs_objects r)"
proof -
  have "length (rs_objects r') = length (rs_objects r)" "\<And>j. j < length (rs_objects r) \<Longrightarrow> \<exists>oss. rs_objects r' ! j = (rs_objects r ! j)\<lparr>in_symbols := oss\<rparr>"
    using build_objects_store [of mem 0 "length (rs_objects r)" r r'] assms by (auto simp: link_resolution_build_symbols_def)
  then show ?thesis by (intro nth_equalityI) (simp, fastforce)
qed

lemma build_finishes:
  assumes build: "link_resolution_build mem junk files paths options = Inr r"
    and small: "sum_list (map symbol_total (rs_objects r)) < 2 ^ 60" "sum_list (map (object_cost (build_alignment options)) (rs_objects r)) < 2 ^ 60"
  obtains r4 objs where "image_state (bm_link mem) (sum_list (map (object_cost (build_alignment options)) (rs_objects r))) objs r4"
    "finished (build_alignment options) options r4 r"
proof -
  let ?al = "build_alignment options" and ?m = "bm_link mem"
  let ?r0 = "link_resolution_init_sections (blank_resolution [])"
  obtain ra r1 r2 r3 r4 r5 where s: "link_resolution_load_objects mem files paths ?r0 = Inr ra" "mark_runtime_defaults options ra = Inr r1"
    "link_resolution_gc_sections ?m options r1 = Inr r2" "link_resolution_merge_sections ?m junk ?al r2 = Inr r3"
    "link_resolution_build_symbols ?m r3 = Inr r4" "link_resolution_bind_shared_libraries mem files options r4 = Inr r5"
    "link_resolution_validate_externals (link_resolution_assign_virtual_addresses ?al r5) options = Inr r"
    using build by (auto simp: link_resolution_build_def andthen_Inr_iff)
  have ob: "only_bound r4 r5" by (rule bind_bound [OF s(6)])
  obtain e where r: "r = (link_resolution_assign_virtual_addresses ?al r5)\<lparr>rs_entry_symbol := e\<rparr>" using validate_facts(1) [OF s(7)] by blast
  have fin: "finished ?al options r4 r"
    using ob validate_facts(2) [OF s(7)] unfolding finished_def r
    by (auto simp: link_resolution_assign_virtual_addresses_def Let_def only_bound_def)
  obtain objs1 where r1: "r1 = ?r0\<lparr>rs_objects := objs1\<rparr>" "\<forall>inp\<in>set objs1. fresh_input inp" using load_objects_fresh [OF s(1,2)] by blast
  have io: "map in_object (rs_objects r) = map in_object (rs_objects r4)" using fin by (simp add: finished_def comp_def)
  have io4: "map in_object (rs_objects r4) = map in_object (rs_objects r2)" "map in_object (rs_objects r2) = map in_object (rs_objects r1)"
    using symbols_in_object [OF s(5)] merge_in_object [OF s(4)] gc_in_object [OF s(3)] by simp_all
  have sm: "sum_list (map symbol_total (rs_objects r1)) < 2 ^ 60" "sum_list (map symbol_total (rs_objects r2)) < 2 ^ 60"
    "sum_list (map (object_cost ?al) (rs_objects r2)) < 2 ^ 60" "sum_list (map (object_cost ?al) (rs_objects r2)) = sum_list (map (object_cost ?al) (rs_objects r))"
    using small total_same [of "rs_objects r" "rs_objects r2"] total_same(1) [of "rs_objects r" "rs_objects r1"] io io4 by simp_all
  have "\<forall>inp\<in>set (rs_objects r1). fresh_input inp" using r1 by simp
  from gc_closed [OF s(3) sm(1) this] obtain objs2 where r2: "r2 = r1\<lparr>rs_objects := objs2\<rparr>"
    "\<forall>inp\<in>set objs2. clear_placement inp = inp \<and> in_symbols inp = [] \<and> closed_object inp" by blast
  have st: "rs_sections r2 = map blank_section linked_section_kinds" "rs_symbols r2 = []" "rs_symbol_buckets r2 = []" "rs_objects r2 = objs2"
    by (simp_all add: r2(1) r1(1) link_resolution_init_sections_def blank_resolution_def)
  have "image_state ?m (sum_list (map (object_cost ?al) (rs_objects r2))) (rs_objects r2) r4"
    by (rule merge_to_image [OF s(4,5) st(1-3)]) (use r2(2) st(4) sm in \<open>blast | simp\<close>)+
  then show ?thesis using fin sm(4) that by simp
qed

text \<open>A section in the image was kept and its kind is known.\<close>

lemma placed_kept:
  assumes "placed_objects r" "oi < length (rs_objects r)" "in_object (rs_objects r ! oi) = Some ob" "si < length (ob_sections ob)"
    "in_section_merged_indices (rs_objects r ! oi) ! si \<noteq> None"
  shows "section_kept (rs_objects r ! oi) si" "sc_kind (ob_sections ob ! si) \<noteq> LINK_SECTION_KIND_UNKNOWN"
proof -
  have "destination (rs_objects r ! oi) ob si \<noteq> None" using assms unfolding placed_objects_def by auto
  then show "section_kept (rs_objects r ! oi) si" "sc_kind (ob_sections ob ! si) \<noteq> LINK_SECTION_KIND_UNKNOWN"
    by (auto simp: destination_def split: if_splits)
qed

lemma finished_object:
  assumes "finished al options r4 r" "oi < length (rs_objects r)"
  shows "oi < length (rs_objects r4)"
    "rs_objects r ! oi = (rs_objects r4 ! oi)\<lparr>in_symbols := map (address_object_symbol (rs_sections r)) (in_symbols (rs_objects r4 ! oi))\<rparr>"
proof -
  have e: "rs_objects r = map (\<lambda>inp. inp\<lparr>in_symbols := map (address_object_symbol (rs_sections r)) (in_symbols inp)\<rparr>) (rs_objects r4)"
    using assms(1) by (simp add: finished_def)
  show l: "oi < length (rs_objects r4)" using assms(2) arg_cong [OF e, of length] by simp
  show "rs_objects r ! oi = (rs_objects r4 ! oi)\<lparr>in_symbols := map (address_object_symbol (rs_sections r)) (in_symbols (rs_objects r4 ! oi))\<rparr>"
    by (subst e) (simp add: l)
qed

text \<open>The index of a symbol's section was checked when the symbol was built.\<close>

lemma stored_section:
  assumes "image_state mem B objs r" "oi < length (rs_objects r)" "in_object (rs_objects r ! oi) = Some ob"
    "k < length (ob_symbols ob)" "\<not> sy_is_auxiliary (ob_symbols ob ! k)" "sy_section_index (ob_symbols ob ! k) = int j"
  shows "j < length (ob_sections ob)"
proof -
  have "stored_symbols mem oi (rs_objects r ! oi) (in_symbols (rs_objects r ! oi))" using assms(1,2) unfolding image_state_def symbols_ok_def by blast
  then obtain g where "resolve_symbol mem (rs_objects r ! oi) (length (ob_sections ob)) oi k (ob_symbols ob ! k) = Inr (in_symbols (rs_objects r ! oi) ! k, g)"
    using assms(3,4) unfolding stored_symbols_def by auto
  from resolve_symbol_result(4) [OF this assms(5,6)] show ?thesis .
qed

text \<open>A symbol of a section in the image.\<close>

lemma section_symbol_resolves:
  assumes im: "image_state mem B objs r4" and fin: "finished al options r4 r" and oi: "oi < length (rs_objects r)"
    and ob: "in_object (rs_objects r ! oi) = Some ob" and k: "unat k < length (ob_symbols ob)" "\<not> sy_is_auxiliary (ob_symbols ob ! unat k)"
    and j: "sy_section_index (ob_symbols ob ! unat k) = int j" "section_kept (rs_objects r ! oi) j"
      "link_section_index_from_kind (sc_kind (ob_sections ob ! j)) = Some m"
  shows "relocation_resolve_target r (rs_objects r ! oi) k =
    Inr \<lparr>tg_merged_section_index = m, tg_merged_offset = in_section_merged_offsets (rs_objects r ! oi) ! j + sy_value (ob_symbols ob ! unat k),
      tg_virtual_address = lk_virtual_address (rs_sections r ! m) + (in_section_merged_offsets (rs_objects r ! oi) ! j + sy_value (ob_symbols ob ! unat k))\<rparr>"
proof -
  let ?inp = "rs_objects r4 ! oi" and ?y = "ob_symbols ob ! unat k"
  note f = finished_object [OF fin oi]
  have ob4: "in_object ?inp = Some ob" using ob f(2) by simp
  have "stored_symbols mem oi ?inp (in_symbols ?inp)" using im f(1) unfolding image_state_def symbols_ok_def by blast
  then obtain g where len: "length (in_symbols ?inp) = length (ob_symbols ob)"
    and rs: "resolve_symbol mem ?inp (length (ob_sections ob)) oi (unat k) ?y = Inr (in_symbols ?inp ! unat k, g)"
    using ob4 k(1) unfolding stored_symbols_def by auto
  note res = resolve_symbol_result [OF rs]
  have jl: "j < length (ob_sections ob)" by (rule res(4) [OF k(2) j(1)])
  have "destination ?inp ob j = Some m" using j(2,3) f(2) by (simp add: destination_def section_kept_def)
  then have "in_section_merged_indices ?inp ! j = Some m"
    using im f(1) ob4 jl unfolding image_state_def placed_objects_def by simp
  note d = res(5) [OF k(2) j(1) this]
  have "in_symbols (rs_objects r ! oi) ! unat k = address_object_symbol (rs_sections r) (in_symbols ?inp ! unat k)"
    using f(2) k(1) len by simp
  moreover define os where "os = in_symbols ?inp ! unat k"
  moreover have "address_object_symbol (rs_sections r) os = os\<lparr>os_virtual_address := lk_virtual_address (rs_sections r ! m) + os_merged_offset os\<rparr>"
    using d unfolding os_def [symmetric] by (simp add: address_object_symbol_def)
  ultimately have sym: "in_symbols (rs_objects r ! oi) ! unat k = os\<lparr>os_virtual_address := lk_virtual_address (rs_sections r ! m) + os_merged_offset os\<rparr>"
    by simp
  have l: "unat k < length (in_symbols (rs_objects r ! oi))" using f(2) k(1) len by simp
  have off: "in_section_merged_offsets (rs_objects r ! oi) = in_section_merged_offsets ?inp" using f(2) by simp
  have aux: "\<not> os_is_auxiliary os" using res(1) k(2) by (simp add: os_def)
  have d': "os_is_defined os" "os_merged_section_index os = Some m" "os_merged_offset os = in_section_merged_offsets ?inp ! j + sy_value ?y"
    using d by (simp_all add: os_def)
  show ?thesis unfolding relocation_resolve_target_def Let_def sym off using l aux d' by simp
qed

text \<open>The table of global symbols at the end, against the table when the symbols were built.\<close>

lemma finished_defined_at:
  assumes "finished al options r4 r" shows "defined_at r nm m offset = defined_at r4 nm m offset"
proof -
  have e: "rs_objects r = map (\<lambda>inp. inp\<lparr>in_symbols := map (address_object_symbol (rs_sections r)) (in_symbols inp)\<rparr>) (rs_objects r4)"
    using assms by (simp add: finished_def)
  have l: "length (rs_objects r) = length (rs_objects r4)" using arg_cong [OF e, of length] by simp
  have f: "in_object (rs_objects r ! oi) = in_object (rs_objects r4 ! oi)" "in_section_merged_indices (rs_objects r ! oi) = in_section_merged_indices (rs_objects r4 ! oi)"
    "in_section_merged_offsets (rs_objects r ! oi) = in_section_merged_offsets (rs_objects r4 ! oi)" if "oi < length (rs_objects r4)" for oi
    using finished_object(2) [OF assms, of oi] that l by simp_all
  show ?thesis unfolding defined_at_def l by (simp add: f cong: conj_cong)
qed

lemma finished_symbol:
  assumes im: "image_state mem B objs r4" and fin: "finished al options r4 r" and g4: "globals r4 nm = Some g4"
  shows "\<exists>i < length (rs_symbols r). link_resolution_find_symbol r (Some nm) = Inr (Some i) \<and> ls_is_external (rs_symbols r ! i) \<and>
    ls_is_defined (rs_symbols r ! i) = ls_is_defined g4 \<and> ls_merged_section_index (rs_symbols r ! i) = ls_merged_section_index g4 \<and>
    ls_merged_offset (rs_symbols r ! i) = ls_merged_offset g4 \<and>
    (\<forall>m. ls_is_defined g4 \<longrightarrow> ls_merged_section_index g4 = Some m \<longrightarrow>
       ls_virtual_address (rs_symbols r ! i) = lk_virtual_address (rs_sections r ! m) + ls_merged_offset g4)"
proof -
  have inv: "sym_inv r4" and ext: "all_external r4" using im by (simp_all add: image_state_def symbols_ok_def)
  obtain syms where syms: "map unbound syms = map unbound (rs_symbols r4)" "rs_symbols r = map (address_global (rs_sections r)) syms"
    and bk: "rs_symbol_buckets r = rs_symbol_buckets r4"
    using fin by (auto simp: finished_def)
  have len: "length syms = length (rs_symbols r4)" using syms(1) by (rule map_eq_imp_length_eq)
  have u: "unbound (syms ! i) = unbound (rs_symbols r4 ! i)" if "i < length syms" for i
    using arg_cong [OF syms(1), of "\<lambda>xs. xs ! i"] that len by simp
  have an: "ls_name (address_global secs g) = ls_name g" for secs g by (simp add: address_global_def split: option.split)
  have "map ls_name (rs_symbols r) = map ls_name (rs_symbols r4)"
    unfolding syms(2) by (rule nth_equalityI) (use len unbound_facts(1) [OF u] in \<open>simp_all add: an\<close>)
  note nd = names_determine [OF this]
  have "length (rs_symbols r) = length (rs_symbols r4)" using syms(2) len by simp
  moreover have "rs_symbols r = [] \<longleftrightarrow> rs_symbols r4 = []" using calculation by (metis length_0_conv)
  ultimately have "sym_inv r" using inv nd(2,3) bk by (simp add: sym_inv_def)
  then have find: "link_resolution_find_symbol r (Some nm) = Inr (scan_symbols (rs_symbols r) nm)" by (rule find_symbol_scan)
  obtain i where i: "scan_symbols (rs_symbols r4) nm = Some i" "g4 = rs_symbols r4 ! i" using g4 by (auto simp: globals_def)
  have il: "i < length (rs_symbols r4)" using i(1) inv scan_Some_iff [of "rs_symbols r4"] by (simp add: sym_inv_def)
  then have ilen: "i < length syms" using len by simp
  note f = unbound_facts [OF u [OF ilen]]
  have gi: "rs_symbols r ! i = address_global (rs_sections r) (syms ! i)" using syms(2) ilen by simp
  have ag: "ls_is_defined (address_global secs g) = ls_is_defined g" "ls_merged_section_index (address_global secs g) = ls_merged_section_index g"
    "ls_merged_offset (address_global secs g) = ls_merged_offset g" "ls_is_external (address_global secs g) = ls_is_external g" for secs g
    by (simp_all add: address_global_def split: option.split)
  have va: "ls_virtual_address (address_global (rs_sections r) (syms ! i)) = lk_virtual_address (rs_sections r ! m) + ls_merged_offset g4"
    if "ls_is_defined g4" "ls_merged_section_index g4 = Some m" for m
    using that f i(2) by (simp add: address_global_def)
  have "ls_is_external g4" using ext il i(2) by (simp add: all_external_def)
  then show ?thesis
    using il find nd(1) i f va \<open>length (rs_symbols r) = length (rs_symbols r4)\<close> by (intro exI [of _ i]) (simp add: gi ag)
qed

text \<open>A reference to a name of another object.\<close>

lemma undefined_symbol_resolves:
  assumes im: "image_state mem B objs r4" and fin: "finished al options r4 r" and oi: "oi < length (rs_objects r)"
    and ob: "in_object (rs_objects r ! oi) = Some ob" and k: "unat k < length (ob_symbols ob)" "\<not> sy_is_auxiliary (ob_symbols ob ! unat k)"
    and y: "sy_section_index (ob_symbols ob ! unat k) = LINK_SECTION_INDEX_UNDEFINED" "sy_is_external (ob_symbols ob ! unat k)" "sy_name (ob_symbols ob ! unat k) = Some nm"
    and seen: "\<And>flags. in_symbol_gc_referenced (rs_objects r ! oi) = Some flags \<Longrightarrow> flags ! unat k"
  shows "(\<exists>m offset. defined_at r nm m offset \<and> relocation_resolve_target r (rs_objects r ! oi) k =
      Inr \<lparr>tg_merged_section_index = m, tg_merged_offset = offset, tg_virtual_address = lk_virtual_address (rs_sections r ! m) + offset\<rparr>) \<or>
    (\<exists>i < length (rs_symbols r). link_resolution_find_symbol r (Some nm) = Inr (Some i) \<and> ls_is_shared_import (rs_symbols r ! i)) \<or> unresolved_allowed options"
proof -
  let ?inp = "rs_objects r4 ! oi" and ?y = "ob_symbols ob ! unat k"
  note f = finished_object [OF fin oi]
  have ob4: "in_object ?inp = Some ob" using ob f(2) by simp
  have "stored_symbols mem oi ?inp (in_symbols ?inp)" using im f(1) unfolding image_state_def symbols_ok_def by blast
  then obtain b where len: "length (in_symbols ?inp) = length (ob_symbols ob)"
    and rs: "resolve_symbol mem ?inp (length (ob_sections ob)) oi (unat k) ?y = Inr (in_symbols ?inp ! unat k, b)"
    using ob4 k(1) unfolding stored_symbols_def by auto
  note res = resolve_symbol_result [OF rs]
  define os where "os = in_symbols ?inp ! unat k"
  have os: "\<not> os_is_auxiliary os" "os_name os = Some nm" "os_is_external os" "\<not> os_is_defined os"
    using res(1,2,3,6) k(2) y by (auto simp: os_def LINK_SECTION_INDEX_UNDEFINED_def)
  have "in_symbol_gc_referenced ?inp = Some flags \<Longrightarrow> flags ! unat k" for flags using seen f(2) by simp
  then have "counts_as_global ?inp ob (unat k, os)"
    using k(2) y os by (auto simp: counts_as_global_def symbol_is_global_def LINK_SECTION_INDEX_UNDEFINED_def split: option.split)
  then have "os \<in> set (all_globals r4)" unfolding all_globals_nth using f(1) ob4 k(1) len os_def by metis
  then obtain g4 where g4: "globals r4 nm = Some g4" using im os(2) unfolding image_state_def symbols_ok_def by blast
  obtain i where i: "i < length (rs_symbols r)" "link_resolution_find_symbol r (Some nm) = Inr (Some i)" "ls_is_external (rs_symbols r ! i)"
    "ls_is_defined (rs_symbols r ! i) = ls_is_defined g4" "ls_merged_section_index (rs_symbols r ! i) = ls_merged_section_index g4"
    "ls_merged_offset (rs_symbols r ! i) = ls_merged_offset g4"
    "\<And>m. ls_is_defined g4 \<Longrightarrow> ls_merged_section_index g4 = Some m \<Longrightarrow> ls_virtual_address (rs_symbols r ! i) = lk_virtual_address (rs_sections r ! m) + ls_merged_offset g4"
    using finished_symbol [OF im fin g4] by blast
  show ?thesis
  proof (cases "ls_is_defined g4")
    case True
    then obtain m where m: "ls_merged_section_index g4 = Some m" "defined_at r4 nm m (ls_merged_offset g4)"
      using im g4 unfolding image_state_def symbols_ok_def by blast
    have sym: "in_symbols (rs_objects r ! oi) ! unat k = address_object_symbol (rs_sections r) os" using f(2) k(1) len os_def by simp
    have "address_object_symbol (rs_sections r) os = os" using os(4) by (simp add: address_object_symbol_def split: option.split)
    then have sym: "in_symbols (rs_objects r ! oi) ! unat k = os" using sym by simp
    have l: "unat k < length (in_symbols (rs_objects r ! oi))" using f(2) k(1) len by simp
    have "relocation_resolve_target r (rs_objects r ! oi) k =
      Inr \<lparr>tg_merged_section_index = m, tg_merged_offset = ls_merged_offset g4, tg_virtual_address = lk_virtual_address (rs_sections r ! m) + ls_merged_offset g4\<rparr>"
      unfolding relocation_resolve_target_def Let_def sym using l os True i(2,4,5,6) i(7) [OF True m(1)] m(1) by simp
    then show ?thesis using m(2) finished_defined_at [OF fin] by blast
  next
    case False
    have "rs_symbols r ! i \<in> set (rs_symbols r)" using i(1) by simp
    then have "unresolved_allowed options \<or> ls_is_shared_import (rs_symbols r ! i)"
      using fin i(3,4) False unfolding finished_def by blast
    then show ?thesis using i(1,2) by blast
  qed
qed

section \<open>The sections in the image\<close>

lemma finished_sections:
  assumes im: "image_state mem B objs r4" and fin: "finished al options r4 r" and room: "7 * (B + unat al) < 2 ^ 64"
  shows "length (rs_sections r) = 7"
    and "\<And>m. m < 7 \<Longrightarrow> rs_sections r ! m = (rs_sections r4 ! m)\<lparr>lk_virtual_address := lk_virtual_address (rs_sections r ! m)\<rparr>"
    and "sorted_wrt (\<lambda>s t. end_of s \<le> unat (lk_virtual_address t)) (filter (\<lambda>s. lk_virtual_size s \<noteq> 0) (rs_sections r))"
proof -
  have len: "length (rs_sections r4) = 7" using im by (simp add: image_state_def)
  have "unat (lk_virtual_size s) + unat al \<le> B + unat al" if "s \<in> set (rs_sections r4)" for s using im that by (simp add: image_state_def)
  then have "address_cost al (rs_sections r4) \<le> length (rs_sections r4) * (B + unat al)"
    unfolding address_cost_def using sum_list_mono [of "rs_sections r4" "\<lambda>s. unat (lk_virtual_size s) + unat al" "\<lambda>_. B + unat al"]
    by (simp add: sum_list_triv)
  then have cost: "unat (0 :: u64) + address_cost al (rs_sections r4) < 2 ^ 64" using room len by simp
  have sec: "rs_sections r = assign_section_addresses al 0 (rs_sections r4)" using fin by (simp add: finished_def)
  note ok = assign_addresses_ok [OF cost, unfolded Let_def, folded sec]
  have l2: "list_all2 (\<lambda>s s'. s' = s\<lparr>lk_virtual_address := lk_virtual_address s'\<rparr>) (rs_sections r4) (rs_sections r)" using ok by (rule conjunct1)
  show "length (rs_sections r) = 7" using list_all2_lengthD [OF l2] len by simp
  show "rs_sections r ! m = (rs_sections r4 ! m)\<lparr>lk_virtual_address := lk_virtual_address (rs_sections r ! m)\<rparr>" if "m < 7" for m
    using list_all2_nthD [OF l2, of m] that len by simp
  show "sorted_wrt (\<lambda>s t. end_of s \<le> unat (lk_virtual_address t)) (filter (\<lambda>s. lk_virtual_size s \<noteq> 0) (rs_sections r))"
    using ok by blast
qed

lemma image_section:
  assumes im: "image_state mem B objs r4" and fin: "finished al options r4 r" and room: "7 * (B + unat al) < 2 ^ 64"
    and oi: "oi < length (rs_objects r)" and ob: "in_object (rs_objects r ! oi) = Some ob" and si: "si < length (ob_sections ob)"
    and m: "in_section_merged_indices (rs_objects r ! oi) ! si = Some m" and raw: "has_raw (ob_sections ob ! si)"
  shows "m < 7 \<and> link_section_index_from_kind (sc_kind (ob_sections ob ! si)) = Some m \<and>
    (\<exists>bs. sc_raw_data (ob_sections ob ! si) = Some bs \<and> unat (sc_size_of_raw_data (ob_sections ob ! si)) \<le> length bs \<and>
       unat (in_section_merged_offsets (rs_objects r ! oi) ! si) + unat (sc_size_of_raw_data (ob_sections ob ! si)) \<le> unat (lk_size (rs_sections r ! m)) \<and>
       take (unat (sc_size_of_raw_data (ob_sections ob ! si))) (drop (unat (in_section_merged_offsets (rs_objects r ! oi) ! si)) (lk_data (rs_sections r ! m))) =
       take (unat (sc_size_of_raw_data (ob_sections ob ! si))) bs)"
proof -
  let ?inp = "rs_objects r4 ! oi" and ?s = "rs_sections r4 ! m" and ?x = "ob_sections ob ! si"
  note f = finished_object [OF fin oi]
  have ob4: "in_object ?inp = Some ob" and m4: "in_section_merged_indices ?inp ! si = Some m" using ob m f(2) by simp_all
  have pl: "placed_objects r4" using im by (simp add: image_state_def)
  have dest: "destination ?inp ob si = Some m" using pl f(1) ob4 si m4 unfolding placed_objects_def by simp
  then have kind: "link_section_index_from_kind (sc_kind ?x) = Some m" by (simp add: destination_def split: if_splits)
  then have m7: "m < 7" by (rule index_less)
  obtain c where c: "c \<in> set (lk_contributions ?s)" "ct_object_index c = oi" "ct_section_index c = si"
    "ct_merged_offset c = in_section_merged_offsets ?inp ! si"
    using pl f(1) ob4 si dest unfolding placed_objects_def by blast
  have len: "length (rs_sections r4) = 7" and io: "map in_object objs = map in_object (rs_objects r4)" using im by (simp_all add: image_state_def)
  have "length objs = length (rs_objects r4)" using io by (rule map_eq_imp_length_eq)
  then have "in_object (objs ! oi) = Some ob" using io f(1) ob4 by (metis nth_map)
  then have src: "source_section objs c = ?x" using c by (simp add: source_section_def)
  have "laid_out objs ?s" using im m7 len by (simp add: image_state_def)
  then have "well_placed ?s objs c" using c(1) unfolding laid_out_def by blast
  then have h: "holds_bytes objs ?s c" using raw src unfolding well_placed_def by simp
  have sp: "span objs c = unat (sc_size_of_raw_data ?x)" using raw src by (simp add: span_def)
  have sec: "lk_data (rs_sections r ! m) = lk_data ?s" "lk_size (rs_sections r ! m) = lk_size ?s"
    using arg_cong [OF finished_sections(2) [OF im fin room m7], of lk_data] arg_cong [OF finished_sections(2) [OF im fin room m7], of lk_size] by simp_all
  have off: "in_section_merged_offsets (rs_objects r ! oi) = in_section_merged_offsets ?inp" using f(2) by simp
  show ?thesis using h kind m7 unfolding holds_bytes_def src sp c(4) sec off by blast
qed

section \<open>Properties\<close>

text \<open>An object whose text calls \<open>f\<close>, and an object that defines it.\<close>

definition caller_coff :: bytes where
  "caller_coff =
     [100, 134, 1, 0, 0, 0, 0, 0, 75, 0, 0, 0, 1, 0, 0, 0, 0, 0, 0, 0] @ 
     [46, 116, 101, 120, 116, 0, 0, 0] @ 
     [0, 0, 0, 0, 0, 0, 0, 0, 5, 0, 0, 0, 60, 0, 0, 0] @ 
     [65, 0, 0, 0, 0, 0, 0, 0, 1, 0, 0, 0, 32, 0, 80, 96] @ 
     [232, 0, 0, 0, 0, 1, 0, 0, 0, 0, 0, 0, 0, 4, 0] @ 
     [102, 0, 0, 0, 0, 0, 0, 0, 0, 0, 0, 0, 0, 0, 32, 0, 2, 0]"

definition callee_coff :: bytes where
  "callee_coff =
     [100, 134, 1, 0, 0, 0, 0, 0, 61, 0, 0, 0, 1, 0, 0, 0, 0, 0, 0, 0] @ 
     [46, 116, 101, 120, 116, 0, 0, 0] @ 
     [0, 0, 0, 0, 0, 0, 0, 0, 1, 0, 0, 0, 60, 0, 0, 0] @ 
     [0, 0, 0, 0, 0, 0, 0, 0, 0, 0, 0, 0, 32, 0, 80, 96] @ 
     [195, 102, 0, 0, 0, 0, 0, 0, 0, 0, 0, 0, 0, 1, 0] @ 
     [32, 0, 2, 0]"

definition call_files :: "string \<Rightarrow> bytes option" where
  "call_files path = (if path = ''a.obj'' then Some caller_coff else if path = ''f.obj'' then Some callee_coff else None)"

definition all_memory :: build_memory where
  "all_memory = \<lparr>bm_link = plenty, bm_reader = \<lambda>_. enough_memory, bm_object = \<lambda>_. enough_memory, bm_library = \<lambda>_ _. True\<rparr>"

lemma call_build_runs:
  "(case link_resolution_build all_memory (\<lambda>_. 0xCD) call_files [''a.obj'', ''f.obj''] None of
      Inl _ \<Rightarrow> False
    | Inr r \<Rightarrow>
        sum_list (map symbol_total (rs_objects r)) = 2 \<and> sum_list (map (object_cost 16) (rs_objects r)) = 38 \<and>
        map in_section_merged_indices (rs_objects r) = [[Some 0], [Some 0]] \<and> map in_section_merged_offsets (rs_objects r) = [[0], [16]] \<and>
        list_all (\<lambda>g. \<not> ls_is_shared_import g) (rs_symbols r) \<and>
        (case in_object (rs_objects r ! 0) of None \<Rightarrow> False
         | Some ob \<Rightarrow> map (\<lambda>x. map rl_symbol_index (sc_relocations x)) (ob_sections ob) = [[0]] \<and>
             map sy_name (ob_symbols ob) = [Some ''f''] \<and> map sy_section_index (ob_symbols ob) = [-1] \<and>
             map sy_is_external (ob_symbols ob) = [True] \<and> map sy_is_auxiliary (ob_symbols ob) = [False]) \<and>
        (case in_object (rs_objects r ! 1) of None \<Rightarrow> False
         | Some ob \<Rightarrow> map sc_raw_data (ob_sections ob) = [Some [0xC3]] \<and> map sc_size_of_raw_data (ob_sections ob) = [1] \<and> list_all has_raw (ob_sections ob) \<and>
             map sc_kind (ob_sections ob) = [LINK_SECTION_KIND_TEXT] \<and> section_kept (rs_objects r ! 1) 0))"
  by code_simp



text \<open>C22. The image holds the sections: after a successful link every section with contents that was not collected lies in the
  merged section of its kind, at the offset recorded for it, and the bytes found there are exactly the bytes of the object
  file; the merged sections that occupy memory have disjoint ranges of addresses.\<close>

theorem image_holds_sections:
  assumes "link_resolution_build mem junk files paths options = Inr r"
    and "sum_list (map symbol_total (rs_objects r)) < 2 ^ 60" and "sum_list (map (object_cost (build_alignment options)) (rs_objects r)) < 2 ^ 60"
    and "unat (build_alignment options) < 2 ^ 60"
    and "oi < length (rs_objects r)" and "in_object (rs_objects r ! oi) = Some ob" and "si < length (ob_sections ob)"
    and "section_kept (rs_objects r ! oi) si" and "link_section_index_from_kind (sc_kind (ob_sections ob ! si)) = Some m"
    and "has_raw (ob_sections ob ! si)"
  shows "in_section_merged_indices (rs_objects r ! oi) ! si = Some m \<and>
    (\<exists>bs. sc_raw_data (ob_sections ob ! si) = Some bs \<and> unat (sc_size_of_raw_data (ob_sections ob ! si)) \<le> length bs \<and>
       take (unat (sc_size_of_raw_data (ob_sections ob ! si))) (drop (unat (in_section_merged_offsets (rs_objects r ! oi) ! si)) (lk_data (rs_sections r ! m))) =
       take (unat (sc_size_of_raw_data (ob_sections ob ! si))) bs) \<and>
    sorted_wrt (\<lambda>s t. end_of s \<le> unat (lk_virtual_address t)) (filter (\<lambda>s. lk_virtual_size s \<noteq> 0) (rs_sections r))"
proof -
  let ?B = "sum_list (map (object_cost (build_alignment options)) (rs_objects r))"
  obtain r4 objs where im: "image_state (bm_link mem) ?B objs r4" and fin: "finished (build_alignment options) options r4 r"
    using build_finishes [OF assms(1-3)] by blast
  have room: "7 * (?B + unat (build_alignment options)) < 2 ^ 64" using assms(3,4) by simp
  note f = finished_object [OF fin assms(5)]
  have ob4: "in_object (rs_objects r4 ! oi) = Some ob" using assms(6) f(2) by simp
  have "destination (rs_objects r4 ! oi) ob si = Some m" using assms(8,9) f(2) by (simp add: destination_def section_kept_def)
  then have "in_section_merged_indices (rs_objects r4 ! oi) ! si = Some m"
    using im f(1) ob4 assms(7) unfolding image_state_def placed_objects_def by simp
  then have m: "in_section_merged_indices (rs_objects r ! oi) ! si = Some m" using f(2) by simp
  show ?thesis using m image_section [OF im fin room assms(5-7) m assms(10)] finished_sections(3) [OF im fin room] by blast
qed

theorem image_holds_sections_witness:
  "\<exists>r. link_resolution_build all_memory (\<lambda>_. 0xCD) call_files [''a.obj'', ''f.obj''] None = Inr r \<and>
     take 1 (drop 16 (lk_data (rs_sections r ! 0))) = [0xC3]"
proof (cases "link_resolution_build all_memory (\<lambda>_. 0xCD) call_files [''a.obj'', ''f.obj''] None")
  case (Inr r)
  have al: "build_alignment None = 16" by (simp add: build_alignment_def)
  have n: "length (rs_objects r) = 2" "in_section_merged_offsets (rs_objects r ! 1) = [16]"
    "sum_list (map symbol_total (rs_objects r)) < 2 ^ 60" "sum_list (map (object_cost 16) (rs_objects r)) < 2 ^ 60"
    using call_build_runs unfolding Inr by (auto simp: map_eq_Cons_conv)
  obtain ob where ob: "in_object (rs_objects r ! 1) = Some ob" "map sc_raw_data (ob_sections ob) = [Some [0xC3]]"
     "map sc_size_of_raw_data (ob_sections ob) = [1]" "list_all has_raw (ob_sections ob)" "map sc_kind (ob_sections ob) = [LINK_SECTION_KIND_TEXT]"
     "section_kept (rs_objects r ! 1) 0"
    using call_build_runs unfolding Inr by (auto split: option.splits)
  obtain x where x: "ob_sections ob = [x]" "sc_raw_data x = Some [0xC3]" "sc_size_of_raw_data x = 1" "has_raw x" "sc_kind x = LINK_SECTION_KIND_TEXT"
    using ob(2-5) by (auto simp: map_eq_Cons_conv)
  show ?thesis using image_holds_sections [OF Inr n(3), of 1 ob 0 0] n ob(1,6) x al Inr by auto
qed (use call_build_runs in simp)

end
