(* ===== verification/RelocCorrect.thy ===== *)
theory RelocCorrect
  imports Relocation
begin

text \<open>
  What the relocation pass guarantees: every patched field holds the value its relocation asks for, computed from the bytes
  and addresses before the pass, no other byte changes, and the rewriting of a load through the global offset table keeps
  operation, width and register.
\<close>

section \<open>Values that fit their field\<close>

lemma sint_ucast32: "int32_range v \<Longrightarrow> sint (ucast v :: u32) = sint v"
proof -
  assume v: "int32_range v"
  have "sint (ucast v :: u32) = signed_take_bit 31 (sint v)"
    by (simp add: sint_uint unsigned_ucast_eq signed_take_bit_take_bit)
  also have "\<dots> = sint v" using v by (simp add: int32_range_def signed_take_bit_int_eq_self)
  finally show ?thesis .
qed

lemma scast_ucast32: "int32_range v \<Longrightarrow> scast (ucast v :: u32) = v"
proof -
  assume "int32_range v"
  then have "(word_of_int (sint (ucast v :: u32)) :: i64) = word_of_int (sint v)" using sint_ucast32 by simp
  then show ?thesis by simp
qed

lemma ucast_ucast32: "unat (v :: u64) < 2 ^ 32 \<Longrightarrow> ucast (ucast v :: u32) = v"
  by (simp add: word_unat_eq_iff unat_ucast_up unsigned_ucast_eq unsigned_take_bit_eq take_bit_nat_eq_self)


section \<open>Relaxation\<close>

lemma peek_byte_Inr: "peek_byte d p = Inr b \<longleftrightarrow> p < length d \<and> b = d ! p"
  by (auto simp: peek_byte_def)

lemma relax_frame:
  assumes "relocation_relax_gotpcrelx d po = Inr (d', absolute)"
  shows "length d' = length d" "i < unat po - 3 \<or> unat po \<le> i \<Longrightarrow> d' ! i = d ! i" "2 \<le> unat po"
proof -
  have "length d' = length d \<and> (i < unat po - 3 \<or> unat po \<le> i \<longrightarrow> d' ! i = d ! i) \<and> 2 \<le> unat po"
    using assms unfolding relocation_relax_gotpcrelx_def Let_def
    by (auto simp: andthen_Inr_iff peek_byte_Inr word_le_nat_alt nth_list_update split: if_splits)
  then show "length d' = length d" "i < unat po - 3 \<or> unat po \<le> i \<Longrightarrow> d' ! i = d ! i" "2 \<le> unat po" by auto
qed

lemma relax_local:
  assumes "relocation_relax_gotpcrelx d po = Inr (d', absolute)" and "length e = length d"
    and same: "\<And>i. unat po - 3 \<le> i \<Longrightarrow> i < unat po \<Longrightarrow> e ! i = d ! i"
  shows "\<exists>e'. relocation_relax_gotpcrelx e po = Inr (e', absolute)"
proof -
  have po: "2 \<le> unat po" using relax_frame(3) [OF assms(1)] .
  have b: "e ! (unat po - 2) = d ! (unat po - 2)" "e ! (unat po - 1) = d ! (unat po - 1)"
    using same [of "unat po - 2"] same [of "unat po - 1"] po by auto
  have c: "peek_byte e (unat po - 2) = peek_byte d (unat po - 2)" "peek_byte e (unat po - 1) = peek_byte d (unat po - 1)"
    using b assms(2) by (simp_all add: peek_byte_def)
  have c3: "peek_byte e (unat po - 3) = peek_byte d (unat po - 3)"
    using same [of "unat po - 3"] po assms(2) by (simp add: peek_byte_def)
  show ?thesis using assms(1) unfolding relocation_relax_gotpcrelx_def Let_def c c3
    by (auto simp: andthen_Inr_iff split: if_splits)
qed

section \<open>One relocation\<close>

definition patch_position :: "LinkedInputObject \<Rightarrow> nat \<Rightarrow> LinkReloc \<Rightarrow> u64" where
  "patch_position inp si rel = in_section_merged_offsets inp ! si + rl_offset rel"

definition field_reads :: "LinkRelocKind \<Rightarrow> bytes \<Rightarrow> nat \<Rightarrow> i64 \<Rightarrow> bool" where
  "field_reads kind d p v \<longleftrightarrow>
    (if kind = LINK_RELOC_ABS64 then linker_read_u64 d p = Inr v else linker_read_u32 d p = Inr (ucast v))"

text \<open>The bytes a relocation reads or writes: its field, and for a relaxation the three bytes of the instruction before it.\<close>

definition footprint :: "LinkRelocKind \<Rightarrow> nat \<Rightarrow> nat set" where
  "footprint kind p = {(if kind = LINK_RELOC_GOTPCRELX32 then p - 3 else p)..<p + (case reloc_width kind of Some w \<Rightarrow> w | None \<Rightarrow> 0)}"

definition relaxes_to :: "bytes \<Rightarrow> u64 \<Rightarrow> LinkReloc \<Rightarrow> bool \<Rightarrow> bool" where
  "relaxes_to d po rel absolute \<longleftrightarrow>
    (if rl_kind rel = LINK_RELOC_GOTPCRELX32 then \<exists>d2. relocation_relax_gotpcrelx d po = Inr (d2, absolute) else \<not> absolute)"

text \<open>The field of a relocation in \<open>d'\<close> holds the value computed from the bytes \<open>d\<close>.\<close>

definition patched ::
  "LinkResolution \<Rightarrow> LinkedInputObject \<Rightarrow> nat \<Rightarrow> nat \<Rightarrow> u64 \<Rightarrow> u64 \<Rightarrow> bytes \<Rightarrow> bytes \<Rightarrow> LinkReloc \<Rightarrow> bool" where
  "patched r inp si m image_base tls_size d d' rel \<longleftrightarrow>
    (\<exists>target addend absolute.
       relocation_resolve_target r inp (rl_symbol_index rel) = Inr target \<and>
       reloc_addend d (patch_position inp si rel) rel = Inr addend \<and>
       relaxes_to d (patch_position inp si rel) rel absolute \<and>
       (let v = reloc_value image_base tls_size rel target (lk_virtual_address (rs_sections r ! m) + patch_position inp si rel) addend absolute
        in value_in_range (rl_kind rel) absolute v \<and> field_reads (rl_kind rel) d' (unat (patch_position inp si rel)) v))"

lemma write_value_ok:
  assumes "write_value kind d p v = Inr d'" "reloc_width kind = Some w"
  shows "length d' = length d" "p + w \<le> length d" "field_reads kind d' p v"
    "\<And>i. i < length d \<Longrightarrow> i < p \<or> p + w \<le> i \<Longrightarrow> d' ! i = d ! i"
proof -
  consider "kind = LINK_RELOC_ABS64" "w = 8" "linker_write_u64 d p v = Inr d'"
    | "kind \<noteq> LINK_RELOC_ABS64" "w = 4" "linker_write_u32 d p (ucast v) = Inr d'"
    using assms by (cases kind) (auto simp: write_value_def reloc_width_def)
  then have "length d' = length d \<and> p + w \<le> length d \<and> field_reads kind d' p v \<and>
      (\<forall>i < length d. i < p \<or> p + w \<le> i \<longrightarrow> d' ! i = d ! i)"
  proof cases
    case 1
    then show ?thesis using u64_codec.wr_len u64_codec.wr_fits u64_codec.rd_wr u64_codec.wr_outside
      by (simp add: field_reads_def)
  next
    case 2
    then show ?thesis using u32_codec.wr_len u32_codec.wr_fits u32_codec.rd_wr u32_codec.wr_outside
      by (simp add: field_reads_def)
  qed
  then show "length d' = length d" "p + w \<le> length d" "field_reads kind d' p v"
    "\<And>i. i < length d \<Longrightarrow> i < p \<or> p + w \<le> i \<Longrightarrow> d' ! i = d ! i" by auto
qed

lemma apply_relocation_ok:
  assumes a: "apply_relocation r inp si m image_base tls_size rel d = Inr d'"
  shows "patched r inp si m image_base tls_size d d' rel" "length d' = length d"
    "\<And>i. i < length d \<Longrightarrow> i \<notin> footprint (rl_kind rel) (unat (patch_position inp si rel)) \<Longrightarrow> d' ! i = d ! i"
    "reloc_width (rl_kind rel) \<noteq> None"
    "unat (patch_position inp si rel) + (case reloc_width (rl_kind rel) of Some w \<Rightarrow> w | None \<Rightarrow> 0) \<le> length d"
proof -
  let ?po = "patch_position inp si rel"
  have "reloc_width (rl_kind rel) \<noteq> None"
    using a by (auto simp: apply_relocation_def Let_def andthen_Inr_iff split: option.splits)
  then obtain w where hw: "reloc_width (rl_kind rel) = Some w" by auto
  obtain target addend d1 absolute where
    h: "relocation_resolve_target r inp (rl_symbol_index rel) = Inr target" "reloc_width (rl_kind rel) = Some w"
       "reloc_addend d ?po rel = Inr addend"
       "(if rl_kind rel = LINK_RELOC_GOTPCRELX32 then relocation_relax_gotpcrelx d ?po else Inr (d, False)) = Inr (d1, absolute)"
       "value_in_range (rl_kind rel) absolute (reloc_value image_base tls_size rel target (lk_virtual_address (rs_sections r ! m) + ?po) addend absolute)"
       "write_value (rl_kind rel) d1 (unat ?po) (reloc_value image_base tls_size rel target (lk_virtual_address (rs_sections r ! m) + ?po) addend absolute) = Inr d'"
    using a unfolding apply_relocation_def Let_def patch_position_def [symmetric]
    by (auto simp: andthen_Inr_iff hw split del: if_split)
  note w = write_value_ok [OF h(6,2)]
  have d1: "length d1 = length d" "\<And>i. i \<notin> footprint (rl_kind rel) (unat ?po) \<Longrightarrow> d1 ! i = d ! i"
  proof -
    show "length d1 = length d" using h(4) relax_frame(1) by (auto split: if_splits)
    fix i assume "i \<notin> footprint (rl_kind rel) (unat ?po)"
    then show "d1 ! i = d ! i"
    proof (cases "rl_kind rel = LINK_RELOC_GOTPCRELX32")
      case True
      then have rx: "relocation_relax_gotpcrelx d ?po = Inr (d1, absolute)" using h(4) by simp
      have "i < unat ?po - 3 \<or> unat ?po \<le> i" using \<open>i \<notin> _\<close> True by (auto simp: footprint_def)
      then show ?thesis using relax_frame(2) [OF rx] by blast
    qed (use h(4) in simp)
  qed
  have "relaxes_to d ?po rel absolute" using h(4) by (auto simp: relaxes_to_def split: if_splits)
  then show "patched r inp si m image_base tls_size d d' rel"
    unfolding patched_def Let_def using h(1,3,5) w(3) by blast
  show "length d' = length d" using w(1) d1(1) by simp
  show "reloc_width (rl_kind rel) \<noteq> None" "unat ?po + (case reloc_width (rl_kind rel) of Some w \<Rightarrow> w | None \<Rightarrow> 0) \<le> length d"
    using h(2) w(2) d1(1) by simp_all
  fix i assume i: "i < length d" "i \<notin> footprint (rl_kind rel) (unat ?po)"
  then have "i < unat ?po \<or> unat ?po + w \<le> i" using h(2) by (auto simp: footprint_def split: if_splits)
  then show "d' ! i = d ! i" using w(4) [of i] d1 i by simp
qed

section \<open>All relocations of a section\<close>

definition reach_of :: "LinkedInputObject \<Rightarrow> nat \<Rightarrow> LinkReloc \<Rightarrow> nat set" where
  "reach_of inp si rel = footprint (rl_kind rel) (unat (patch_position inp si rel))"

text \<open>What a relocation reads lies in its footprint.\<close>

lemma reads_local:
  assumes len: "length e = length d" and same: "\<And>i. i \<in> reach_of inp si rel \<Longrightarrow> i < length d \<Longrightarrow> e ! i = d ! i"
    and w: "reloc_width (rl_kind rel) \<noteq> None"
  shows "reloc_addend e (patch_position inp si rel) rel = reloc_addend d (patch_position inp si rel) rel"
    and "field_reads (rl_kind rel) e (unat (patch_position inp si rel)) v = field_reads (rl_kind rel) d (unat (patch_position inp si rel)) v"
    and "relaxes_to d (patch_position inp si rel) rel absolute \<Longrightarrow> unat (patch_position inp si rel) \<le> length d \<Longrightarrow>
      relaxes_to e (patch_position inp si rel) rel absolute"
proof -
  let ?p = "unat (patch_position inp si rel)"
  have r: "(rl_kind rel = LINK_RELOC_ABS64 \<longrightarrow> linker_read_u64 e ?p = linker_read_u64 d ?p) \<and>
      (rl_kind rel \<noteq> LINK_RELOC_ABS64 \<longrightarrow> linker_read_u32 e ?p = linker_read_u32 d ?p)"
  proof (cases "rl_kind rel = LINK_RELOC_ABS64")
    case True
    then have "linker_read_u64 e ?p = linker_read_u64 d ?p"
      by (intro u64_codec.rd_local [OF len] same) (auto simp: reach_of_def footprint_def reloc_width_def len)
    then show ?thesis using True by simp
  next
    case False
    then have "reloc_width (rl_kind rel) = Some 4" using w by (cases "rl_kind rel") (auto simp: reloc_width_def)
    then have "linker_read_u32 e ?p = linker_read_u32 d ?p"
      by (intro u32_codec.rd_local [OF len] same) (auto simp: reach_of_def footprint_def len)
    then show ?thesis using False by simp
  qed
  then show "reloc_addend e (patch_position inp si rel) rel = reloc_addend d (patch_position inp si rel) rel"
    by (cases "rl_kind rel") (simp_all add: reloc_addend_def reloc_width_def)
  show "field_reads (rl_kind rel) e ?p v = field_reads (rl_kind rel) d ?p v" using r by (simp add: field_reads_def)
  assume rx: "relaxes_to d (patch_position inp si rel) rel absolute" and pl: "?p \<le> length d"
  show "relaxes_to e (patch_position inp si rel) rel absolute"
  proof (cases "rl_kind rel = LINK_RELOC_GOTPCRELX32")
    case True
    then obtain d2 where "relocation_relax_gotpcrelx d (patch_position inp si rel) = Inr (d2, absolute)"
      using rx by (auto simp: relaxes_to_def)
    then have "\<exists>e'. relocation_relax_gotpcrelx e (patch_position inp si rel) = Inr (e', absolute)"
      by (rule relax_local [OF _ len]) (use True pl in \<open>auto intro!: same simp: reach_of_def footprint_def\<close>)
    then show ?thesis using True by (simp add: relaxes_to_def)
  qed (use rx in \<open>simp add: relaxes_to_def\<close>)
qed

lemma apply_all_ok:
  assumes "fold_outcome (apply_relocation r inp si m image_base tls_size) rels d = Inr d'"
    and "sorted_wrt (\<lambda>x y. reach_of inp si x \<inter> reach_of inp si y = {}) rels"
  shows "length d' = length d \<and> (\<forall>rel\<in>set rels. patched r inp si m image_base tls_size d d' rel) \<and>
    (\<forall>i < length d. (\<forall>rel\<in>set rels. i \<notin> reach_of inp si rel) \<longrightarrow> d' ! i = d ! i) \<and>
    (\<forall>rel\<in>set rels. reloc_width (rl_kind rel) \<noteq> None \<and> unat (patch_position inp si rel) \<le> length d)"
  using assms
proof (induction rels arbitrary: d)
  case (Cons x rels)
  obtain d1 where x: "apply_relocation r inp si m image_base tls_size x d = Inr d1"
    and rest: "fold_outcome (apply_relocation r inp si m image_base tls_size) rels d1 = Inr d'"
    using Cons.prems(1) by (auto simp: andthen_Inr_iff)
  note o1 = apply_relocation_ok [OF x]
  have disj: "\<And>y. y \<in> set rels \<Longrightarrow> reach_of inp si x \<inter> reach_of inp si y = {}" using Cons.prems(2) by simp
  have IH: "length d' = length d1" "\<And>rel. rel \<in> set rels \<Longrightarrow> patched r inp si m image_base tls_size d1 d' rel"
    "\<And>i. i < length d1 \<Longrightarrow> (\<forall>rel\<in>set rels. i \<notin> reach_of inp si rel) \<Longrightarrow> d' ! i = d1 ! i"
    "\<And>rel. rel \<in> set rels \<Longrightarrow> reloc_width (rl_kind rel) \<noteq> None \<and> unat (patch_position inp si rel) \<le> length d1"
    using Cons.IH [OF rest] Cons.prems(2) by auto
  have keep: "d1 ! i = d ! i" if "i < length d" "i \<notin> reach_of inp si x" for i
    using o1(3) that by (simp add: reach_of_def)
  have px: "patched r inp si m image_base tls_size d d' x"
  proof -
    have same: "\<And>i. i \<in> reach_of inp si x \<Longrightarrow> i < length d1 \<Longrightarrow> d' ! i = d1 ! i" using IH(3) disj by blast
    have loc: "field_reads (rl_kind x) d' (unat (patch_position inp si x)) v = field_reads (rl_kind x) d1 (unat (patch_position inp si x)) v" for v
      by (rule reads_local(2) [OF IH(1) same o1(4)])
    show ?thesis using o1(1) unfolding patched_def Let_def loc .
  qed
  have py: "patched r inp si m image_base tls_size d d' y" if y: "y \<in> set rels" for y
  proof -
    have w: "reloc_width (rl_kind y) \<noteq> None" "unat (patch_position inp si y) \<le> length d1" using IH(4) [OF y] by auto
    have same: "\<And>i. i \<in> reach_of inp si y \<Longrightarrow> i < length d1 \<Longrightarrow> d ! i = d1 ! i"
      using keep disj [OF y] o1(2) by (metis disjoint_iff)
    show ?thesis using IH(2) [OF y] unfolding patched_def Let_def
      using reads_local(1) [OF o1(2) [symmetric] same w(1)] reads_local(3) [OF o1(2) [symmetric] same w(1) _ w(2)] by metis
  qed
  have px5: "unat (patch_position inp si x) \<le> length d" using o1(5) by (auto split: option.splits)
  show ?case using px py IH(1,3,4) o1(2,4) keep px5 by auto
qed simp



section \<open>The whole pass\<close>

text \<open>The sections that are relocated, in order: input object, index of the section in it, merged section.\<close>

type_synonym work_item = "LinkedInputObject \<times> nat \<times> nat"

definition source_of :: "LinkedInputObject \<Rightarrow> nat \<Rightarrow> LinkSection" where
  "source_of inp si = ob_sections (the (in_object inp)) ! si"

definition object_work :: "LinkedInputObject \<Rightarrow> work_item list" where
  "object_work inp = (case in_object inp of None \<Rightarrow> []
     | Some ob \<Rightarrow> concat (map (\<lambda>si.
         if sc_relocations (ob_sections ob ! si) = [] \<or> (case in_section_gc_dead inp of None \<Rightarrow> False | Some dead \<Rightarrow> dead ! si) then []
         else case in_section_merged_indices inp ! si of None \<Rightarrow> [] | Some m \<Rightarrow> [(inp, si, m)]) [0..<length (ob_sections ob)]))"

definition relocation_work :: "LinkResolution \<Rightarrow> work_item list" where
  "relocation_work r = concat (map object_work (rs_objects r))"

definition do_work :: "u64 \<Rightarrow> u64 \<Rightarrow> work_item \<Rightarrow> LinkResolution \<Rightarrow> LinkResolution outcome" where
  "do_work image_base tls_size = (\<lambda>(inp, si, m). link_apply_section_relocations inp (source_of inp si) si m image_base tls_size)"

text \<open>A loop whose successful steps do the work of a list of items does the work of all of them.\<close>

lemma fold_outcome_refine:
  assumes "\<And>x s s'. x \<in> set xs \<Longrightarrow> f x s = Inr s' \<Longrightarrow> fold_outcome g (w x) s = Inr s'"
  shows "fold_outcome f xs s = Inr s' \<Longrightarrow> fold_outcome g (concat (map w xs)) s = Inr s'"
  using assms
proof (induction xs arbitrary: s)
  case (Cons x xs)
  then obtain s1 where "f x s = Inr s1" "fold_outcome f xs s1 = Inr s'" by (auto simp: andthen_Inr_iff)
  then show ?case using Cons.IH [of s1] Cons.prems(2) by (simp add: fold_outcome_append)
qed simp

lemma relocate_object_work:
  assumes "relocate_object image_base tls_size inp r = Inr r'"
  shows "fold_outcome (do_work image_base tls_size) (object_work inp) r = Inr r'"
proof (cases "in_object inp")
  case None
  then show ?thesis using assms by (simp add: relocate_object_def object_work_def)
next
  case (Some ob)
  then have "fold_outcome (relocate_section image_base tls_size inp ob) [0..<length (ob_sections ob)] r = Inr r'"
    using assms by (simp add: relocate_object_def)
  then show ?thesis unfolding object_work_def using Some
    by (simp, elim fold_outcome_refine [rotated])
      (auto simp: relocate_section_def Let_def do_work_def source_of_def Some split: if_splits option.splits)
qed

lemma pass_is_work:
  assumes "link_apply_relocations options r = Inr r'"
  shows "fold_outcome (do_work (case options of None \<Rightarrow> 0 | Some b \<Rightarrow> b) (tls_size_of r)) (relocation_work r) r = Inr r'"
  unfolding relocation_work_def
  by (rule fold_outcome_refine [OF relocate_object_work])
    (use assms in \<open>simp_all add: link_apply_relocations_def\<close>)

abbreviation data_of :: "LinkResolution \<Rightarrow> nat \<Rightarrow> bytes" where
  "data_of r m \<equiv> lk_data (rs_sections r ! m)"

definition without_data :: "LinkResolution \<Rightarrow> LinkResolution" where
  "without_data r = r\<lparr>rs_sections := map (\<lambda>s. s\<lparr>lk_data := []\<rparr>) (rs_sections r)\<rparr>"

lemma without_data_facts:
  assumes "without_data r = without_data r'" "m < length (rs_sections r)"
  shows "relocation_resolve_target r = relocation_resolve_target r'"
    "lk_virtual_address (rs_sections r ! m) = lk_virtual_address (rs_sections r' ! m)"
    "length (rs_sections r) = length (rs_sections r')"
proof -
  have f: "f (without_data r) = f (without_data r')" for f :: "LinkResolution \<Rightarrow> 'a" using assms by simp
  have sym: "rs_symbols r = rs_symbols r'" "rs_symbol_buckets r = rs_symbol_buckets r'"
    using f [of rs_symbols] f [of rs_symbol_buckets] by (simp_all add: without_data_def)
  have fs: "link_resolution_find_symbol r = link_resolution_find_symbol r'"
    unfolding link_resolution_find_symbol_def [abs_def] sym ..
  show "relocation_resolve_target r = relocation_resolve_target r'"
    unfolding relocation_resolve_target_def [abs_def] fs sym ..
  have m: "map (\<lambda>s. s\<lparr>lk_data := []\<rparr>) (rs_sections r) = map (\<lambda>s. s\<lparr>lk_data := []\<rparr>) (rs_sections r')"
    using f [of rs_sections] by (simp add: without_data_def)
  then show l: "length (rs_sections r) = length (rs_sections r')" by (rule map_eq_imp_length_eq)
  have "(rs_sections r ! m)\<lparr>lk_data := []\<rparr> = (rs_sections r' ! m)\<lparr>lk_data := []\<rparr>"
    using m assms(2) l by (metis nth_map)
  then have "lk_virtual_address ((rs_sections r ! m)\<lparr>lk_data := []\<rparr>) = lk_virtual_address ((rs_sections r' ! m)\<lparr>lk_data := []\<rparr>)" by simp
  then show "lk_virtual_address (rs_sections r ! m) = lk_virtual_address (rs_sections r' ! m)" by simp
qed

lemma patched_without_data:
  "without_data r = without_data r' \<Longrightarrow> m < length (rs_sections r) \<Longrightarrow>
   patched r inp si m image_base tls_size d d' rel = patched r' inp si m image_base tls_size d d' rel"
  using without_data_facts [of r r' m] by (simp add: patched_def)

definition item_reach :: "work_item \<Rightarrow> nat set" where
  "item_reach = (\<lambda>(inp, si, m). \<Union> (reach_of inp si ` set (sc_relocations (source_of inp si))))"

definition item_ok :: "work_item \<Rightarrow> bool" where
  "item_ok = (\<lambda>(inp, si, m). sorted_wrt (\<lambda>x y. reach_of inp si x \<inter> reach_of inp si y = {}) (sc_relocations (source_of inp si)))"

definition apart :: "work_item \<Rightarrow> work_item \<Rightarrow> bool" where
  "apart x y \<longleftrightarrow> snd (snd x) = snd (snd y) \<longrightarrow> item_reach x \<inter> item_reach y = {}"

lemma do_work_ok:
  assumes "do_work image_base tls_size (inp, si, m) r = Inr r'" "item_ok (inp, si, m)" "m < length (rs_sections r)"
  shows "without_data r' = without_data r" "\<And>k. k \<noteq> m \<Longrightarrow> data_of r' k = data_of r k"
    "length (data_of r' m) = length (data_of r m)"
    "\<And>rel. rel \<in> set (sc_relocations (source_of inp si)) \<Longrightarrow> patched r inp si m image_base tls_size (data_of r m) (data_of r' m) rel \<and>
       reloc_width (rl_kind rel) \<noteq> None \<and> unat (patch_position inp si rel) \<le> length (data_of r m)"
    "\<And>i. i < length (data_of r m) \<Longrightarrow> i \<notin> item_reach (inp, si, m) \<Longrightarrow> data_of r' m ! i = data_of r m ! i"
proof -
  obtain d where d: "fold_outcome (apply_relocation r inp si m image_base tls_size) (sc_relocations (source_of inp si)) (data_of r m) = Inr d"
    and r': "r' = r\<lparr>rs_sections := (rs_sections r)[m := (rs_sections r ! m)\<lparr>lk_data := d\<rparr>]\<rparr>"
    using assms(1) by (auto simp: do_work_def link_apply_section_relocations_def andthen_Inr_iff)
  note ok = apply_all_ok [OF d assms(2) [unfolded item_ok_def split_conv]]
  have dm: "data_of r' m = d" using assms(3) by (simp add: r')
  have "map (\<lambda>s. s\<lparr>lk_data := []\<rparr>) ((rs_sections r)[m := (rs_sections r ! m)\<lparr>lk_data := d\<rparr>]) = map (\<lambda>s. s\<lparr>lk_data := []\<rparr>) (rs_sections r)"
    by (simp add: map_update) (metis (no_types, lifting) LinkedSection.update_convs(3) list_update_id map_update)
  then show "without_data r' = without_data r" by (simp add: without_data_def r')
  show "data_of r' k = data_of r k" if "k \<noteq> m" for k using that by (simp add: r')
  show "length (data_of r' m) = length (data_of r m)" using ok dm by simp
  show "patched r inp si m image_base tls_size (data_of r m) (data_of r' m) rel \<and> reloc_width (rl_kind rel) \<noteq> None \<and>
      unat (patch_position inp si rel) \<le> length (data_of r m)" if "rel \<in> set (sc_relocations (source_of inp si))" for rel
    using ok dm that by simp
  show "data_of r' m ! i = data_of r m ! i" if "i < length (data_of r m)" "i \<notin> item_reach (inp, si, m)" for i
    using ok dm that by (auto simp: item_reach_def)
qed


lemma work_all_ok:
  assumes "fold_outcome (do_work image_base tls_size) W r = Inr r'"
    and "\<forall>x\<in>set W. item_ok x \<and> snd (snd x) < length (rs_sections r)" and "sorted_wrt apart W"
  shows "without_data r' = without_data r \<and> (\<forall>m. length (data_of r' m) = length (data_of r m)) \<and>
    (\<forall>(inp, si, m)\<in>set W. \<forall>rel\<in>set (sc_relocations (source_of inp si)). patched r inp si m image_base tls_size (data_of r m) (data_of r' m) rel) \<and>
    (\<forall>m. \<forall>i < length (data_of r m). (\<forall>x\<in>set W. snd (snd x) = m \<longrightarrow> i \<notin> item_reach x) \<longrightarrow> data_of r' m ! i = data_of r m ! i) \<and>
    (\<forall>(inp, si, m)\<in>set W. \<forall>rel\<in>set (sc_relocations (source_of inp si)). reloc_width (rl_kind rel) \<noteq> None \<and>
       unat (patch_position inp si rel) \<le> length (data_of r m))"
  using assms
proof (induction W arbitrary: r)
  case (Cons x W)
  obtain inp si m where x: "x = (inp, si, m)" by (cases x)
  obtain r1 where r1: "do_work image_base tls_size (inp, si, m) r = Inr r1" "fold_outcome (do_work image_base tls_size) W r1 = Inr r'"
    using Cons.prems(1) x by (auto simp: andthen_Inr_iff)
  have m: "item_ok (inp, si, m)" "m < length (rs_sections r)" using Cons.prems(2) x by auto
  note o1 = do_work_ok [OF r1(1) m]
  have len1: "length (rs_sections r1) = length (rs_sections r)"
    using o1(1) by (metis length_map LinkResolution.select_convs(2) LinkResolution.surjective LinkResolution.update_convs(2) without_data_def)
  note IH = Cons.IH [OF r1(2)]
  have IHp: "\<forall>x\<in>set W. item_ok x \<and> snd (snd x) < length (rs_sections r1)" "sorted_wrt apart W"
    using Cons.prems(2,3) len1 by auto
  note I = IH [OF IHp]
  have ap: "apart x y" if "y \<in> set W" for y using Cons.prems(3) that by simp
  have keep1: "data_of r1 k ! i = data_of r k ! i" if "i < length (data_of r k)" "k = m \<longrightarrow> i \<notin> item_reach x" for k i
    using o1(2,5) that x by (cases "k = m") auto
  have keep2: "data_of r' k ! i = data_of r1 k ! i"
    if "i < length (data_of r1 k)" "\<forall>y\<in>set W. snd (snd y) = k \<longrightarrow> i \<notin> item_reach y" for k i
    using I that by blast
  have len: "length (data_of r1 k) = length (data_of r k)" for k using o1(2,3) by (cases "k = m") auto
  have px: "patched r inp si m image_base tls_size (data_of r m) (data_of r' m) rel" if rel: "rel \<in> set (sc_relocations (source_of inp si))" for rel
  proof -
    have same: "data_of r' m ! i = data_of r1 m ! i" if "i \<in> reach_of inp si rel" "i < length (data_of r1 m)" for i
    proof (rule keep2 [OF that(2)], intro ballI impI notI)
      fix y assume y: "y \<in> set W" "snd (snd y) = m" "i \<in> item_reach y"
      have "i \<in> item_reach x" using rel that(1) x by (auto simp: item_reach_def)
      then show False using ap [OF y(1)] y x by (auto simp: apart_def)
    qed
    have "field_reads (rl_kind rel) (data_of r' m) (unat (patch_position inp si rel)) v =
        field_reads (rl_kind rel) (data_of r1 m) (unat (patch_position inp si rel)) v" for v
      by (rule reads_local(2) [OF _ same]) (use I o1(4) [OF rel] in auto)
    then show ?thesis using o1(4) [OF rel] by (simp add: patched_def)
  qed
  have py: "patched r inp' si' k image_base tls_size (data_of r k) (data_of r' k) rel"
    if y: "(inp', si', k) \<in> set W" and rel: "rel \<in> set (sc_relocations (source_of inp' si'))" for inp' si' k rel
  proof -
    have w: "reloc_width (rl_kind rel) \<noteq> None" "unat (patch_position inp' si' rel) \<le> length (data_of r1 k)" using I y rel by auto
    have k: "k < length (rs_sections r1)" using IHp(1) y by auto
    have same: "data_of r k ! i = data_of r1 k ! i" if "i \<in> reach_of inp' si' rel" "i < length (data_of r1 k)" for i
    proof (rule keep1 [symmetric])
      show "i < length (data_of r k)" using that(2) len by simp
      have "i \<in> item_reach (inp', si', k)" using rel that(1) by (auto simp: item_reach_def)
      then show "k = m \<longrightarrow> i \<notin> item_reach x" using ap [OF y] x by (auto simp: apart_def)
    qed
    have p1: "patched r1 inp' si' k image_base tls_size (data_of r1 k) (data_of r' k) rel" using I y rel by auto
    have "patched r1 inp' si' k image_base tls_size (data_of r k) (data_of r' k) rel"
      using p1 unfolding patched_def Let_def
      using reads_local(1) [OF len [symmetric] same w(1)] reads_local(3) [OF len [symmetric] same w(1) _ w(2)] by metis
    then show ?thesis using patched_without_data [OF o1(1) k] by simp
  qed
  show ?case
  proof (intro conjI)
    show "without_data r' = without_data r" using I o1(1) by simp
    show "\<forall>m. length (data_of r' m) = length (data_of r m)" using I len by simp
    show "\<forall>(inp, si, m)\<in>set (x # W). \<forall>rel\<in>set (sc_relocations (source_of inp si)). patched r inp si m image_base tls_size (data_of r m) (data_of r' m) rel"
      using px py x by auto
    show "\<forall>m. \<forall>i < length (data_of r m). (\<forall>y\<in>set (x # W). snd (snd y) = m \<longrightarrow> i \<notin> item_reach y) \<longrightarrow> data_of r' m ! i = data_of r m ! i"
    proof (intro allI impI)
      fix k i assume i: "i < length (data_of r k)" "\<forall>y\<in>set (x # W). snd (snd y) = k \<longrightarrow> i \<notin> item_reach y"
      then show "data_of r' k ! i = data_of r k ! i" using keep1 [of i k] keep2 [of i k] len x by auto
    qed
    show "\<forall>(inp, si, m)\<in>set (x # W). \<forall>rel\<in>set (sc_relocations (source_of inp si)). reloc_width (rl_kind rel) \<noteq> None \<and>
       unat (patch_position inp si rel) \<le> length (data_of r m)"
      using I o1(4) x len by fastforce
  qed
qed simp

section \<open>Properties\<close>



text \<open>A call at offset 1 of a text section at address 4096 to a symbol of the same section.\<close>

definition call_reloc :: LinkReloc where
  "call_reloc = \<lparr>rl_offset = 1, rl_symbol_index = 0, rl_kind = LINK_RELOC_PC32, rl_addend = -4, rl_addend_is_explicit = True, rl_format_type = 4\<rparr>"

definition call_input :: LinkedInputObject where
  "call_input = (sample_input False)\<lparr>in_object := Some \<lparr>ob_format = LINK_FORMAT_ELF, ob_sections = [\<lparr>sc_name = Some ''.text'',
       sc_kind = LINK_SECTION_KIND_TEXT, sc_virtual_size = 16, sc_size_of_raw_data = 16, sc_alignment = 16, sc_raw_data = None,
       sc_relocations = [call_reloc], sc_is_metadata = False\<rparr>], ob_symbols = []\<rparr>,
     in_section_merged_indices := [Some 0], in_section_merged_offsets := [0],
     in_symbols := [(sample_symbol 0)\<lparr>os_merged_offset := 12, os_virtual_address := 4108\<rparr>]\<rparr>"

definition call_link :: LinkResolution where
  "call_link = (blank_resolution [call_input])\<lparr>rs_sections := (blank_section LINK_SECTION_KIND_TEXT)
     \<lparr>lk_data := 0xE8 # replicate 15 0x90, lk_size := 16, lk_virtual_size := 16, lk_virtual_address := 4096\<rparr> #
     map blank_section (tl linked_section_kinds)\<rparr>"

lemma call_link_runs:
  "(case link_apply_relocations None call_link of Inl _ \<Rightarrow> False
    | Inr r \<Rightarrow> lk_data (rs_sections r ! 0) = [0xE8, 7, 0, 0, 0, 0x90, 0x90, 0x90, 0x90, 0x90, 0x90, 0x90, 0x90, 0x90, 0x90, 0x90])"
  by code_simp

lemma call_link_work: "relocation_work call_link = [(call_input, 0, 0)]" "sc_relocations (source_of call_input 0) = [call_reloc]"
  "length (rs_sections call_link) = 7"
  by (simp_all add: relocation_work_def call_link_def blank_resolution_def object_work_def call_input_def source_of_def
      linked_section_kinds_def sample_input_def)


text \<open>C24. What the bytes of a patched field mean to the machine, for each kind of relocation: a 64-bit absolute address is the
  address of the symbol plus the addend; a zero-extended 32-bit one too; a displacement, sign-extended and added to the address
  of the field, gives symbol plus addend (for an addend taken from the field, added to the end of the field); an offset into
  the image, the section or the thread-local block gives symbol plus addend relative to its base.\<close>

theorem relocation_semantics:
  assumes "apply_relocation r inp si m image_base tls_size rel d = Inr d'"
  shows "\<exists>target addend absolute.
    relocation_resolve_target r inp (rl_symbol_index rel) = Inr target \<and> reloc_addend d (patch_position inp si rel) rel = Inr addend \<and>
    relaxes_to d (patch_position inp si rel) rel absolute \<and>
    (let p = unat (patch_position inp si rel); P = lk_virtual_address (rs_sections r ! m) + patch_position inp si rel;
         S = tg_virtual_address target; shift = (if rl_addend_is_explicit rel then 0 else 4)
     in case rl_kind rel of
          LINK_RELOC_ABS64 \<Rightarrow> linker_read_u64 d' p = Inr (S + addend) \<and> 0 \<le> sint (S + addend)
        | LINK_RELOC_ABS32 \<Rightarrow> \<exists>x. linker_read_u32 d' p = Inr x \<and> ucast x = S + addend
        | LINK_RELOC_PC32 \<Rightarrow> \<exists>x. linker_read_u32 d' p = Inr x \<and> P + shift + scast x = S + addend
        | LINK_RELOC_GOTPCRELX32 \<Rightarrow> \<exists>x. linker_read_u32 d' p = Inr x \<and>
            (if absolute then scast x = S + addend + 4 else P + shift + scast x = S + addend)
        | LINK_RELOC_IMAGE_REL32 \<Rightarrow> \<exists>x. linker_read_u32 d' p = Inr x \<and>
            ucast x + (if image_base \<noteq> 0 \<and> S \<ge> image_base then image_base else 0) = S + addend
        | LINK_RELOC_SECREL32 \<Rightarrow> \<exists>x. linker_read_u32 d' p = Inr x \<and> ucast x = tg_merged_offset target + addend
        | LINK_RELOC_TPOFF32 \<Rightarrow> \<exists>x. linker_read_u32 d' p = Inr x \<and> tls_size + scast x = tg_merged_offset target + addend
        | _ \<Rightarrow> False)"
proof -
  let ?po = "patch_position inp si rel"
  obtain target addend absolute where h: "relocation_resolve_target r inp (rl_symbol_index rel) = Inr target"
    "reloc_addend d ?po rel = Inr addend" "relaxes_to d ?po rel absolute"
    "value_in_range (rl_kind rel) absolute (reloc_value image_base tls_size rel target (lk_virtual_address (rs_sections r ! m) + ?po) addend absolute)"
    "field_reads (rl_kind rel) d' (unat ?po) (reloc_value image_base tls_size rel target (lk_virtual_address (rs_sections r ! m) + ?po) addend absolute)"
    using apply_relocation_ok(1) [OF assms] unfolding patched_def Let_def by blast
  have u: "uint32_range v \<Longrightarrow> ucast (ucast v :: u32) = v" for v by (simp add: uint32_range_def ucast_ucast32)
  have i: "int32_range v \<Longrightarrow> scast (ucast v :: u32) = v" for v by (rule scast_ucast32)
  have p: "0 \<le> sint v \<Longrightarrow> sint v < 2 ^ 31 \<Longrightarrow> scast (ucast v :: u32) = (v :: i64)" for v
    by (rule scast_ucast32) (simp add: int32_range_def)
  have a: "absolute \<Longrightarrow> rl_kind rel = LINK_RELOC_GOTPCRELX32" using h(3) by (auto simp: relaxes_to_def split: if_splits)
  have w: "reloc_width (rl_kind rel) \<noteq> None" using apply_relocation_ok(4) [OF assms] .
  show ?thesis
    by (rule exI [of _ target], rule exI [of _ addend], rule exI [of _ absolute])
      (use h a w in \<open>cases "rl_kind rel"; auto simp: Let_def field_reads_def reloc_value_def value_in_range_def u i p reloc_width_def algebra_simps\<close>)
qed

theorem relocation_semantics_witness:
  "\<exists>d' x. apply_relocation call_link call_input 0 0 0 0 call_reloc (data_of call_link 0) = Inr d' \<and>
     linker_read_u32 d' 1 = Inr x \<and> 4097 + scast x = (4104 :: u64)"
proof -
  have e: "(case apply_relocation call_link call_input 0 0 0 0 call_reloc (data_of call_link 0) of Inl _ \<Rightarrow> False
      | Inr d' \<Rightarrow> linker_read_u32 d' 1 = Inr 7)" by code_simp
  then obtain d' where d': "apply_relocation call_link call_input 0 0 0 0 call_reloc (data_of call_link 0) = Inr d'" by (auto split: sum.splits)
  have "unat (patch_position call_input 0 call_reloc) = 1" "lk_virtual_address (rs_sections call_link ! 0) + patch_position call_input 0 call_reloc = 4097"
    by code_simp+
  moreover have "relocation_resolve_target call_link call_input (rl_symbol_index call_reloc) =
      Inr \<lparr>tg_merged_section_index = 0, tg_merged_offset = 12, tg_virtual_address = 4108\<rparr>" by code_simp
  ultimately show ?thesis using relocation_semantics [OF d'] d'
    by (auto simp: call_reloc_def reloc_addend_def Let_def)
qed

end
