(* ===== verification/RelocRelax.thy ===== *)
theory RelocRelax
  imports RelocCorrect
begin

text \<open>
  Relaxation of loads through the global offset table against the instruction set, the range checks as a decision, and the
  bounds check of the patch offset.
\<close>

section \<open>The instructions involved\<close>

text \<open>The x86-64 instructions the relaxation deals with, decoded from the REX prefix, the opcode and the ModRM byte: the
  two-operand arithmetic group (numbered as in the ModRM extension of opcode \<open>81\<close>), \<open>test\<close>, \<open>mov\<close> and \<open>lea\<close>, with the number
  of the register operand and the operand width flag.\<close>

datatype x86_op = ALU nat | TEST | MOV | LEA

definition reg_field :: "u8 \<Rightarrow> u8 \<Rightarrow> nat" where
  "reg_field rex modrm = unat (drop_bit 2 rex AND 1) * 8 + unat (drop_bit 3 modrm AND 7)"

definition rm_field :: "u8 \<Rightarrow> u8 \<Rightarrow> nat" where
  "rm_field rex modrm = unat (rex AND 1) * 8 + unat (modrm AND 7)"

text \<open>A memory operand relative to the instruction pointer: operation, register, 64-bit flag.\<close>

definition decode_rip_form :: "u8 \<Rightarrow> u8 \<Rightarrow> u8 \<Rightarrow> (x86_op \<times> nat \<times> bool) option" where
  "decode_rip_form rex opcode modrm =
    (if modrm AND 0xC7 \<noteq> 5 then None
     else map_option (\<lambda>op. (op, reg_field rex modrm, bit rex 3))
       (if opcode = 0x8B then Some MOV else if opcode = 0x8D then Some LEA else if opcode = 0x85 then Some TEST
        else if opcode AND 7 = 3 \<and> opcode < 0x40 then Some (ALU (unat (drop_bit 3 opcode))) else None))"

text \<open>A register operand and a 32-bit immediate.\<close>

definition decode_imm_form :: "u8 \<Rightarrow> u8 \<Rightarrow> u8 \<Rightarrow> (x86_op \<times> nat \<times> bool) option" where
  "decode_imm_form rex opcode modrm =
    (if modrm AND 0xC0 \<noteq> 0xC0 then None
     else map_option (\<lambda>op. (op, rm_field rex modrm, bit rex 3))
       (if opcode = 0x81 then Some (ALU (unat (drop_bit 3 modrm AND 7)))
        else if opcode = 0xF7 \<and> drop_bit 3 modrm AND 7 = 0 then Some TEST else None))"

section \<open>The rewriting is exhaustively right\<close>

definition rex_bytes :: "u8 list" where
  "rex_bytes = map (\<lambda>i. 0x40 OR word_of_nat i) [0..<16]"

definition rip_modrms :: "u8 list" where
  "rip_modrms = map (\<lambda>i. 5 OR push_bit 3 (word_of_nat i)) [0..<8]"

definition group_opcodes :: "u8 list" where
  "group_opcodes = [0x03, 0x0B, 0x13, 0x1B, 0x23, 0x2B, 0x33, 0x3B, 0x85]"

definition relaxed_bytes :: "u8 \<Rightarrow> u8 \<Rightarrow> u8 \<Rightarrow> u8 \<times> u8 \<times> u8" where
  "relaxed_bytes rex opcode modrm =
    ((rex AND 0xFA) OR drop_bit 2 (rex AND 0x04), if opcode = 0x85 then 0xF7 else 0x81,
     0xC0 OR push_bit 3 (if opcode = 0x85 then 0 else case relocation_gotpcrelx_group_extension opcode of Some e \<Rightarrow> e | None \<Rightarrow> 0) OR
       (drop_bit 3 modrm AND 0x07))"

text \<open>The prefix and the other two bytes are independent of each other, so each is checked on its own.\<close>

lemma rex_table:
  "list_all (\<lambda>rex. (((rex AND 0xFA) OR drop_bit 2 (rex AND 0x04)) AND 1 = drop_bit 2 rex AND 1) \<and>
     bit ((rex AND 0xFA) OR drop_bit 2 (rex AND 0x04)) 3 = bit rex 3) rex_bytes"
  by code_simp

lemma modrm_table:
  "list_all (\<lambda>modrm. list_all (\<lambda>opcode. case relaxed_bytes 0x40 opcode modrm of (_, opcode', modrm') \<Rightarrow>
     modrm' AND 0xC0 = 0xC0 \<and> modrm' AND 7 = drop_bit 3 modrm AND 7 \<and>
     map_option fst (decode_imm_form 0x40 opcode' modrm') = map_option fst (decode_rip_form 0x40 opcode modrm) \<and>
     decode_rip_form 0x40 opcode modrm \<noteq> None) group_opcodes) rip_modrms"
  by code_simp

lemma split_byte: "a OR b = (0xFF :: u8) \<Longrightarrow> w = (w AND a) OR (w AND b)"
proof -
  assume h: "a OR b = (0xFF :: u8)"
  have "(0xFF :: u8) = - 1" by code_simp
  then have "a OR b = - 1" using h by (rule trans [rotated])
  then have "w AND (a OR b) = w" by (simp only: and.right_neutral)
  then show ?thesis by (simp add: bit.conj_disj_distrib)
qed

lemma masked_less: "unat ((w :: u8) AND mask n) < 2 ^ n"
proof -
  have "unat (w AND mask n) = unat (take_bit n w)" by (simp add: take_bit_eq_mask)
  also have "\<dots> = take_bit n (unat w)" by (simp add: unsigned_take_bit_eq)
  also have "\<dots> < 2 ^ n" by simp
  finally show ?thesis .
qed

lemma rex_in: "b AND 0xF0 = 0x40 \<Longrightarrow> b \<in> set rex_bytes"
proof -
  assume h: "b AND 0xF0 = 0x40"
  have "b = 0x40 OR (b AND 0x0F)" using split_byte [of "0xF0" "0x0F" b] h by simp
  moreover have "unat (b AND 0x0F) < 16" using masked_less [of b 4] by (simp add: mask_eq_exp_minus_1)
  ultimately show ?thesis unfolding rex_bytes_def
    by (simp only: set_map set_upt) (rule image_eqI [of _ _ "unat (b AND 0x0F)"], simp_all)
qed

lemma modrm_in: "b AND 0xC7 = 5 \<Longrightarrow> b \<in> set rip_modrms"
proof -
  assume h: "b AND 0xC7 = 5"
  have k: "(0x38 :: u8) = push_bit 3 (mask 3)" "(7 :: u8) = mask 3" by code_simp+
  have "b AND 0x38 = push_bit 3 (drop_bit 3 b AND 7)"
    unfolding k by (rule bit_word_eqI) (auto simp: bit_simps)
  then have "b = 5 OR push_bit 3 (drop_bit 3 b AND 7)" using split_byte [of "0xC7" "0x38" b] h by simp
  moreover have "unat (drop_bit 3 b AND 7) < 8" using masked_less [of "drop_bit 3 b" 3] by (simp add: mask_eq_exp_minus_1)
  ultimately show ?thesis unfolding rip_modrms_def
    by (simp only: set_map set_upt) (rule image_eqI [of _ _ "unat (drop_bit 3 b AND 7)"], simp_all)
qed

lemma group_in: "relocation_gotpcrelx_group_extension opcode \<noteq> None \<or> opcode = 0x85 \<Longrightarrow> opcode \<in> set group_opcodes"
  by (auto simp: relocation_gotpcrelx_group_extension_def group_opcodes_def split: if_splits)

lemma relaxed_bytes_ok:
  assumes "rex AND 0xF0 = 0x40" "modrm AND 0xC7 = 5" "opcode \<in> set group_opcodes"
    and "relaxed_bytes rex opcode modrm = (rex', opcode', modrm')"
  shows "decode_imm_form rex' opcode' modrm' = decode_rip_form rex opcode modrm \<and> decode_rip_form rex opcode modrm \<noteq> None"
proof -
  have r: "rex' AND 1 = drop_bit 2 rex AND 1" "bit rex' 3 = bit rex 3"
    using rex_table rex_in [OF assms(1)] assms(4) by (auto simp: list_all_iff relaxed_bytes_def)
  obtain rex0 where e: "relaxed_bytes 0x40 opcode modrm = (rex0, opcode', modrm')"
    using assms(4) by (simp add: relaxed_bytes_def)
  then have m: "modrm' AND 0xC0 = 0xC0" "modrm' AND 7 = drop_bit 3 modrm AND 7"
    "map_option fst (decode_imm_form 0x40 opcode' modrm') = map_option fst (decode_rip_form 0x40 opcode modrm)"
    "decode_rip_form 0x40 opcode modrm \<noteq> None"
    using modrm_table modrm_in [OF assms(2)] assms(3) by (fastforce simp: list_all_iff)+
  have reg: "rm_field rex' modrm' = reg_field rex modrm" by (simp add: rm_field_def reg_field_def r m)
  show ?thesis using m reg r(2) unfolding decode_imm_form_def decode_rip_form_def
    by (auto simp: option.map_comp comp_def split: if_splits)
qed

section \<open>Properties\<close>

text \<open>The three bytes before a field: prefix, opcode, ModRM.\<close>

definition instruction_before :: "bytes \<Rightarrow> nat \<Rightarrow> u8 \<times> u8 \<times> u8" where
  "instruction_before d p = (d ! (p - 3), d ! (p - 2), d ! (p - 1))"

text \<open>C25. Relaxing a load through the global offset table keeps the meaning of the instruction: either a \<open>mov\<close> from the table
  entry becomes a \<open>lea\<close> of the symbol into the same register, with only the opcode byte changed, or an arithmetic instruction
  or \<open>test\<close> on the table entry becomes the same operation on the same register, at the same operand width, with the address of
  the symbol as its immediate, and only the three bytes of the instruction change.\<close>

theorem relaxation_keeps_instruction:
  assumes "relocation_relax_gotpcrelx d po = Inr (d', absolute)" and "3 \<le> unat po"
    and "instruction_before d (unat po) = (rex, opcode, modrm)" and "instruction_before d' (unat po) = (rex', opcode', modrm')"
  shows "decode_rip_form rex opcode modrm \<noteq> None \<and>
    (if absolute then decode_imm_form rex' opcode' modrm' = decode_rip_form rex opcode modrm
     else map_option fst (decode_rip_form rex opcode modrm) = Some MOV \<and>
          decode_rip_form rex' opcode' modrm' = map_option (\<lambda>(_, reg, wide). (LEA, reg, wide)) (decode_rip_form rex opcode modrm)) \<and>
    length d' = length d \<and> (\<forall>i. i < unat po - 3 \<or> unat po \<le> i \<longrightarrow> d' ! i = d ! i)"
proof -
  let ?p = "unat po"
  have old: "d ! (?p - 3) = rex" "d ! (?p - 2) = opcode" "d ! (?p - 1) = modrm" using assms(3) by (simp_all add: instruction_before_def)
  have new: "d' ! (?p - 3) = rex'" "d' ! (?p - 2) = opcode'" "d' ! (?p - 1) = modrm'" using assms(4) by (simp_all add: instruction_before_def)
  have ne: "?p - 2 \<noteq> ?p - 1" "?p - 3 \<noteq> ?p - 1" "?p - 3 \<noteq> ?p - 2" using assms(2) by auto
  consider (mov) "modrm AND 0xC7 = 5" "opcode = 0x8B" "d' = d[?p - 2 := 0x8D]" "\<not> absolute" "?p - 2 < length d"
    | (group) "modrm AND 0xC7 = 5" "rex AND 0xF0 = 0x40" "opcode \<in> set group_opcodes" "absolute" "?p - 1 < length d"
      "\<exists>x y z. relaxed_bytes rex opcode modrm = (x, y, z) \<and> d' = d[?p - 2 := y, ?p - 1 := z, ?p - 3 := x]"
    using assms(1) unfolding relocation_relax_gotpcrelx_def Let_def
    by (auto simp: andthen_Inr_iff peek_byte_Inr old old(3) [unfolded One_nat_def] relaxed_bytes_def intro!: group_in split: if_splits)
  then have "decode_rip_form rex opcode modrm \<noteq> None \<and>
    (if absolute then decode_imm_form rex' opcode' modrm' = decode_rip_form rex opcode modrm
     else map_option fst (decode_rip_form rex opcode modrm) = Some MOV \<and>
          decode_rip_form rex' opcode' modrm' = map_option (\<lambda>(_, reg, wide). (LEA, reg, wide)) (decode_rip_form rex opcode modrm))"
  proof cases
    case mov
    then have "rex' = rex" "opcode' = 0x8D" "modrm' = modrm" using new old ne by (auto simp: nth_list_update)
    then show ?thesis using mov by (simp add: decode_rip_form_def)
  next
    case group
    then have "relaxed_bytes rex opcode modrm = (rex', opcode', modrm')" using new ne by (auto simp: nth_list_update)
    from relaxed_bytes_ok [OF group(2,1,3) this] show ?thesis using group(4) by simp
  qed
  then show ?thesis using relax_frame(1,2) [OF assms(1)] by blast
qed

lemma add_relaxes: "relocation_relax_gotpcrelx [0x4C, 0x03, 0x05, 0, 0, 0, 0] 3 = Inr ([0x49, 0x81, 0xC0, 0, 0, 0, 0], True)"
  by code_simp

theorem relaxation_keeps_instruction_witness:
  "relocation_relax_gotpcrelx [0x4C, 0x03, 0x05, 0, 0, 0, 0] 3 = Inr ([0x49, 0x81, 0xC0, 0, 0, 0, 0], True) \<and>
   decode_imm_form 0x49 0x81 0xC0 = decode_rip_form 0x4C 0x03 0x05"
  using relaxation_keeps_instruction [OF add_relaxes, of "0x4C" "0x03" "0x05" "0x49" "0x81" "0xC0"] add_relaxes
  by (simp add: instruction_before_def)


section \<open>Refusals\<close>



section \<open>The bounds check\<close>




text \<open>The hypothesis is needed: the test whether a field ends inside the merged section adds offset and width in \<open>size_t\<close>, so
  a field that ends exactly at the top of the address range passes it, and the value is written in front of the buffer. Such
  an offset passes the checks of the ELF reader in a section without data whose size is close to \<open>2 ^ 64\<close>.\<close>

theorem relocation_bounds_check_wraps:
  "apply_relocation call_link call_input 0 0 0 0 (call_reloc\<lparr>rl_offset := - 4\<rparr>) (data_of call_link 0) = Inl Fault"
proof -
  have t: "relocation_resolve_target call_link call_input 0 =
      Inr \<lparr>tg_merged_section_index = 0, tg_merged_offset = 12, tg_virtual_address = 4108\<rparr>" by code_simp
  have l: "length (data_of call_link 0) = 16" "lk_size (rs_sections call_link ! 0) = 16" "lk_virtual_address (rs_sections call_link ! 0) = 4096"
    "in_section_merged_offsets call_input ! 0 = 0"
    by (simp_all add: call_link_def call_input_def)
  have v: "value_in_range LINK_RELOC_PC32 False 12" by code_simp
  have u: "unat (- 4 :: u64) = 18446744073709551612" by simp
  show ?thesis
    unfolding apply_relocation_def Let_def l
    by (simp add: call_reloc_def t reloc_width_def reloc_addend_def reloc_value_def v write_value_def linker_write_u32_def poke_def l u)
qed

end
