(* ===== verification/Bitset.thy ===== *)
theory Bitset
  imports Prelude
begin

text \<open>
  The data structures the MIR analyses share, as \<open>mir_cfg.h\<close>, \<open>mir_cfg.c\<close> and \<open>mir_regalloc_verify.c\<close>
  lay them out: sets of virtual registers as arrays of 64-bit words, with the word-wise union the
  data-flow loops run, the loop that visits the members of a word by its trailing zeros, and edge
  lists threaded through a pair of arrays. Each has a reading as a set or a list, and the lemmas say
  what the operations do to that reading.
\<close>

section \<open>Sets of registers as arrays of words\<close>

type_synonym bits = "u64 list"

definition mir_cfg_set_get :: "bits \<Rightarrow> nat \<Rightarrow> bool" where
  "mir_cfg_set_get s v \<longleftrightarrow> drop_bit (v mod 64) (s ! (v div 64)) AND 1 \<noteq> 0"

definition mir_cfg_set_add :: "bits \<Rightarrow> nat \<Rightarrow> bits" where
  "mir_cfg_set_add s v = s[v div 64 := s ! (v div 64) OR push_bit (v mod 64) 1]"

definition mir_cfg_set_clear :: "bits \<Rightarrow> nat \<Rightarrow> bits" where
  "mir_cfg_set_clear s v = s[v div 64 := s ! (v div 64) AND NOT (push_bit (v mod 64) 1)]"

definition no_bits :: "nat \<Rightarrow> bits" where
  "no_bits words = replicate words 0"

text \<open>The loop \<open>for (w = 0; w < words; w++) out[w] |= s[w]\<close>.\<close>

definition or_words :: "bits \<Rightarrow> bits \<Rightarrow> bits" where
  "or_words out s = map2 (OR) out s"

definition members :: "bits \<Rightarrow> nat set" where
  "members s = {v. v < 64 * length s \<and> mir_cfg_set_get s v}"

lemma and_one_bit: "(drop_bit k (x :: u64) AND 1 \<noteq> 0) \<longleftrightarrow> bit x k"
  by (simp add: and_one_eq bit_iff_odd_drop_bit odd_iff_mod_2_eq_one)

lemma set_get_bit: "mir_cfg_set_get s v \<longleftrightarrow> bit (s ! (v div 64)) (v mod 64)"
  by (simp add: mir_cfg_set_get_def and_one_bit)

lemma members_iff: "v \<in> members s \<longleftrightarrow> v < 64 * length s \<and> bit (s ! (v div 64)) (v mod 64)"
  by (simp add: members_def set_get_bit)

lemma bit_one_pos: "bit (2 ^ k :: u64) j \<longleftrightarrow> j = k \<and> k < 64"
  by (auto simp: bit_exp_iff possible_bit_word)

lemma same_cell: "v div 64 = w div 64 \<Longrightarrow> v mod 64 = w mod 64 \<Longrightarrow> v = (w :: nat)"
  by (metis div_mult_mod_eq)

lemma length_set_ops [simp]:
  "length (mir_cfg_set_add s v) = length s"
  "length (mir_cfg_set_clear s v) = length s"
  "length (no_bits n) = n"
  "length (or_words a b) = min (length a) (length b)"
  by (simp_all add: mir_cfg_set_add_def mir_cfg_set_clear_def no_bits_def or_words_def)

lemma members_no_bits [simp]: "members (no_bits n) = {}"
  by (auto simp: members_iff no_bits_def)

lemma members_set_add [simp]:
  assumes "v < 64 * length s" shows "members (mir_cfg_set_add s v) = insert v (members s)"
proof -
  have "v div 64 < length s" using assms by simp
  then show ?thesis using assms
    by (auto intro: same_cell simp: members_iff mir_cfg_set_add_def nth_list_update bit_or_iff bit_one_pos split: if_splits)
qed

lemma bit_clear_pos: "j < 64 \<Longrightarrow> bit (x AND NOT (2 ^ k) :: u64) j \<longleftrightarrow> bit x j \<and> j \<noteq> k"
  by (auto simp: bit_and_iff bit_not_iff_eq bit_one_pos possible_bit_word)

lemma members_set_clear [simp]:
  assumes "v < 64 * length s" shows "members (mir_cfg_set_clear s v) = members s - {v}"
proof -
  have "v div 64 < length s" using assms by simp
  then show ?thesis using assms
    by (auto intro: same_cell simp: members_iff mir_cfg_set_clear_def nth_list_update bit_clear_pos
        split: if_splits)
qed

lemma members_or_words [simp]:
  "length a = length b \<Longrightarrow> members (or_words a b) = members a \<union> members b"
  by (auto simp: members_iff or_words_def bit_or_iff less_mult_imp_div_less mult.commute)

lemma set_get_members: "v < 64 * length s \<Longrightarrow> mir_cfg_set_get s v \<longleftrightarrow> v \<in> members s"
  by (simp add: members_def)

lemma bits_eqI: "length a = length b \<Longrightarrow> members a = members b \<Longrightarrow> a = b"
proof (rule nth_equalityI, assumption)
  fix w assume l: "length a = length b" and m: "members a = members b" and w: "w < length a"
  show "a ! w = b ! w"
  proof (rule bit_word_eqI)
    fix k assume k: "k < LENGTH(64)"
    then have "(64 * w + k) div 64 = w" "(64 * w + k) mod 64 = k" "64 * w + k < 64 * length a"
      using w by auto
    then show "bit (a ! w) k = bit (b ! w) k"
      using m l by (metis members_iff)
  qed
qed

section \<open>Visiting the members of a word\<close>

text \<open>
  \<open>while (bits) { v = w * 64 + __builtin_ctzll(bits); bits &= bits - 1; ... }\<close>: the positions of the set
  bits in ascending order.
\<close>

definition ctzll :: "u64 \<Rightarrow> nat" where
  "ctzll b = length (takeWhile (\<lambda>k. \<not> bit b k) [0..<64])"

lemma ctzll_bit:
  assumes "b \<noteq> 0" shows "bit b (ctzll b)" and "j < ctzll b \<Longrightarrow> \<not> bit b j" and "ctzll b < 64"
proof -
  obtain k where k: "bit b k" using assms by (metis bit_eqI bit_0_eq bot_apply bot_bool_def)
  then have k64: "k < 64" using bit_imp_le_length by force
  let ?P = "\<lambda>k. \<not> bit b k"
  have "length (takeWhile ?P [0..<64]) \<le> 64" using length_takeWhile_le [of ?P "[0..<64]"] by simp
  moreover have "length (takeWhile ?P [0..<64]) \<noteq> 64"
  proof
    assume "length (takeWhile ?P [0..<64]) = 64"
    then have "takeWhile ?P [0..<64] = [0..<64]"
      by (metis length_upt minus_nat.diff_0 takeWhile_eq_take take_all order_refl)
    then have "\<forall>j \<in> set [0..<64]. ?P j" by (metis takeWhile_eq_all_conv)
    then show False using k k64 by auto
  qed
  ultimately have lt: "length (takeWhile ?P [0..<64]) < length [0..<64]" by simp
  show "ctzll b < 64" using lt by (simp add: ctzll_def)
  show "bit b (ctzll b)" using nth_length_takeWhile [OF lt] lt by (simp add: ctzll_def)
  show "\<not> bit b j" if "j < ctzll b" for j
  proof -
    have j: "j < length (takeWhile ?P [0..<64])" using that by (simp add: ctzll_def)
    then have "takeWhile ?P [0..<64] ! j = [0..<64] ! j" by (rule takeWhile_nth)
    also have "\<dots> = j" using j lt by simp
    finally show ?thesis using set_takeWhileD [OF nth_mem [OF j]] by simp
  qed
qed

lemma clear_lowest:
  assumes "b \<noteq> (0 :: u64)"
  shows "bit (b AND (b - 1)) j \<longleftrightarrow> bit b j \<and> j \<noteq> ctzll b"
proof -
  let ?k = "ctzll b" and ?q = "drop_bit (Suc (ctzll b)) b"
  note c = ctzll_bit [OF assms]
  have low: "bit (push_bit (Suc ?k) ?q) n \<longleftrightarrow> n < 64 \<and> ?k < n \<and> bit b n" for n
    by (auto simp: bit_push_bit_iff bit_drop_bit_eq Suc_le_eq simp del: push_bit_Suc)
  have b: "b = push_bit ?k 1 + push_bit (Suc ?k) ?q"
  proof -
    have "b = push_bit ?k 1 OR push_bit (Suc ?k) ?q"
      by (rule bit_word_eqI)
        (use c in \<open>auto simp: bit_or_iff low bit_one_pos simp del: push_bit_Suc intro: linorder_cases\<close>)
    also have "\<dots> = push_bit ?k 1 + push_bit (Suc ?k) ?q"
      by (rule disjunctive_add_eq_or [symmetric])
        (auto intro!: bit_word_eqI simp: bit_and_iff low bit_one_pos simp del: push_bit_Suc)
    finally show ?thesis .
  qed
  have "b - 1 = push_bit (Suc ?k) ?q + (push_bit ?k 1 - 1)"
    by (subst (1) b) (simp add: algebra_simps)
  also have "push_bit ?k 1 - 1 = (mask ?k :: u64)" by (simp add: mask_eq_exp_minus_1 push_bit_eq_mult)
  also have "push_bit (Suc ?k) ?q + mask ?k = push_bit (Suc ?k) ?q OR mask ?k"
    by (rule disjunctive_add_eq_or)
      (auto intro!: bit_word_eqI simp: bit_and_iff low bit_mask_iff simp del: push_bit_Suc)
  finally have m: "b - 1 = push_bit (Suc ?k) ?q OR mask ?k" .
  show ?thesis unfolding bit_and_iff m bit_or_iff low using c bit_imp_le_length [of b j]
    by (auto simp: bit_mask_iff not_less intro: linorder_cases)
qed

function bit_loop :: "nat \<Rightarrow> u64 \<Rightarrow> nat list" where
  "bit_loop w b = (if b = 0 then [] else (w * 64 + ctzll b) # bit_loop w (b AND (b - 1)))"
  by pat_completeness auto
termination
proof (relation "measure (\<lambda>(w, b). card {k. bit b k})")
  show "((w, b AND (b - 1)), (w, b)) \<in> measure (\<lambda>(w, b). card {k. bit b k})" if "b \<noteq> 0" for w and b :: u64
  proof -
    have "{k. bit (b AND (b - 1)) k} = {k. bit b k} - {ctzll b}"
      using clear_lowest [OF that] by auto
    moreover have "finite {k. bit b k}"
      by (rule finite_subset [of _ "{..<64}"]) (auto dest: bit_imp_le_length)
    ultimately have "card {k. bit (b AND (b - 1)) k} < card {k. bit b k}"
      using ctzll_bit(1) [OF that] by (metis card_Diff1_less mem_Collect_eq)
    then show ?thesis by simp
  qed
qed simp

declare bit_loop.simps [simp del]

lemma set_bit_loop: "set (bit_loop w b) = {w * 64 + k |k. bit b k}"
proof (induction w b rule: bit_loop.induct)
  case (1 w b)
  show ?case
  proof (cases "b = 0")
    case True
    then show ?thesis by (simp add: bit_loop.simps)
  next
    case False
    then show ?thesis
      using 1 [OF False] clear_lowest [OF False] ctzll_bit(1) [OF False]
      by (subst bit_loop.simps) auto
  qed
qed

text \<open>All the members of a set, word by word.\<close>

definition member_loop :: "bits \<Rightarrow> nat list" where
  "member_loop s = concat (map (\<lambda>w. bit_loop w (s ! w)) [0..<length s])"

lemma set_member_loop: "set (member_loop s) = members s"
proof -
  have "v \<in> set (member_loop s) \<longleftrightarrow> v \<in> members s" for v
  proof
    assume "v \<in> set (member_loop s)"
    then obtain w k where w: "w < length s" and v: "v = w * 64 + k" and k: "bit (s ! w) k"
      by (auto simp: member_loop_def set_bit_loop)
    have "k < 64" using bit_imp_le_length [OF k] by simp
    then show "v \<in> members s" using w k unfolding v by (auto simp: members_iff)
  next
    assume "v \<in> members s"
    then have "v div 64 < length s" "bit (s ! (v div 64)) (v mod 64)"
      by (auto simp: members_iff)
    moreover have "v = (v div 64) * 64 + v mod 64" by simp
    ultimately show "v \<in> set (member_loop s)"
      unfolding member_loop_def set_concat set_map by (force simp: set_bit_loop)
  qed
  then show ?thesis by blast
qed

section \<open>Edge lists in a pair of arrays\<close>

text \<open>
  An edge list is a head, the index of its newest edge, and an array \<open>next\<close> that links each edge to the
  one added before it (\<open>-1\<close> ends the list). The loop \<open>for (e = head; e >= 0; e = next[e])\<close> visits the
  edges below; an edge points to an older one, so that the number of edges is fuel enough.
\<close>

fun edge_chain :: "int list \<Rightarrow> nat \<Rightarrow> int \<Rightarrow> nat list" where
  "edge_chain nxt 0 e = []"
| "edge_chain nxt (Suc fuel) e = (if e < 0 then [] else nat e # edge_chain nxt fuel (nxt ! nat e))"

definition edges_from :: "int list \<Rightarrow> int \<Rightarrow> nat list" where
  "edges_from nxt e = edge_chain nxt (length nxt) e"

definition linked :: "int list \<Rightarrow> bool" where
  "linked nxt \<longleftrightarrow> (\<forall>k < length nxt. -1 \<le> nxt ! k \<and> nxt ! k < int k)"

lemma linked_Nil [simp]: "linked []"
  by (simp add: linked_def)

lemma linked_snoc: "linked nxt \<Longrightarrow> -1 \<le> h \<Longrightarrow> h < int (length nxt) \<Longrightarrow> linked (nxt @ [h])"
  by (auto simp: linked_def nth_append less_Suc_eq)

lemma edge_chain_fuel:
  "linked nxt \<Longrightarrow> e < int (length nxt) \<Longrightarrow> nat (e + 1) \<le> fuel \<Longrightarrow>
   edge_chain (nxt @ more) (fuel + extra) e = edge_chain nxt fuel e"
proof (induction fuel arbitrary: e)
  case 0
  then show ?case by (cases extra) auto
next
  case (Suc fuel)
  show ?case
  proof (cases "e < 0")
    case False
    then have e: "nat e < length nxt" using Suc.prems(2) by simp
    then have n: "nxt ! nat e < int (nat e)" using Suc.prems(1) unfolding linked_def by blast
    have "edge_chain (nxt @ more) (fuel + extra) (nxt ! nat e) = edge_chain nxt fuel (nxt ! nat e)"
      by (rule Suc.IH [OF Suc.prems(1)]) (use n e False Suc.prems in auto)
    then show ?thesis using False e by (simp add: nth_append)
  qed simp
qed

lemma edges_from_append:
  "linked nxt \<Longrightarrow> e < int (length nxt) \<Longrightarrow> edges_from (nxt @ more) e = edges_from nxt e"
  using edge_chain_fuel [of nxt e "length nxt" more "length more"]
  by (simp add: edges_from_def)

lemma edges_from_end [simp]: "e < 0 \<Longrightarrow> edges_from nxt e = []"
  by (cases "length nxt") (simp_all add: edges_from_def)

lemma edges_from_new:
  assumes "linked nxt" and "h < int (length nxt)"
  shows "edges_from (nxt @ [h]) (int (length nxt)) = length nxt # edges_from nxt h"
  using edge_chain_fuel [of nxt h "length nxt" "[h]" 0] assms by (simp add: edges_from_def)

lemma edges_from_less: "linked nxt \<Longrightarrow> e < int (length nxt) \<Longrightarrow> k \<in> set (edges_from nxt e) \<Longrightarrow> k < length nxt"
proof -
  have "linked nxt \<Longrightarrow> e < int (length nxt) \<Longrightarrow> k \<in> set (edge_chain nxt f e) \<Longrightarrow> k < length nxt" for f
  proof (induction f arbitrary: e)
    case (Suc f)
    show ?case
    proof (cases "e < 0")
      case False
      then have "nxt ! nat e < int (length nxt)"
        using Suc.prems by (simp add: linked_def) (meson le_less_trans less_imp_le nat_less_iff not_le of_nat_less_iff order.strict_trans)
      then show ?thesis using Suc.IH [OF Suc.prems(1), of "nxt ! nat e"] Suc.prems False by auto
    qed (use Suc.prems in simp)
  qed simp
  then show "linked nxt \<Longrightarrow> e < int (length nxt) \<Longrightarrow> k \<in> set (edges_from nxt e) \<Longrightarrow> k < length nxt"
    unfolding edges_from_def by blast
qed

end
