(* ===== verification/MirMachine.thy ===== *)
theory MirMachine
  imports Mir
begin

text \<open>
  The target description the register allocator and its verifier consult,
  \<open>codegen/binary/mir_machine.c\<close> and the kernel table of \<open>mir_kernel.c\<close>: per opcode a set of flags and
  the general-purpose registers it fixes, per instruction the registers it pins, and the registers an
  inline kernel overwrites. A mask is an \<open>unsigned\<close> with one bit per register.
\<close>

section \<open>Registers and flags\<close>

definition BINARY_GP_RAX :: int where "BINARY_GP_RAX = 0"
definition BINARY_GP_RCX :: int where "BINARY_GP_RCX = 1"
definition BINARY_GP_RDX :: int where "BINARY_GP_RDX = 2"
definition BINARY_GP_RBX :: int where "BINARY_GP_RBX = 3"
definition BINARY_GP_RBP :: int where "BINARY_GP_RBP = 5"
definition BINARY_GP_RSI :: int where "BINARY_GP_RSI = 6"
definition BINARY_GP_RDI :: int where "BINARY_GP_RDI = 7"
definition BINARY_GP_R12 :: int where "BINARY_GP_R12 = 12"
definition BINARY_GP_R13 :: int where "BINARY_GP_R13 = 13"
definition BINARY_GP_R14 :: int where "BINARY_GP_R14 = 14"
definition BINARY_GP_R15 :: int where "BINARY_GP_R15 = 15"

lemmas gp_numbers = BINARY_GP_RAX_def BINARY_GP_RCX_def BINARY_GP_RDX_def BINARY_GP_RBX_def
  BINARY_GP_RBP_def BINARY_GP_RSI_def BINARY_GP_RDI_def BINARY_GP_R12_def BINARY_GP_R13_def
  BINARY_GP_R14_def BINARY_GP_R15_def

definition MIR_GP_BIT :: "int \<Rightarrow> u32" where "MIR_GP_BIT r = push_bit (nat r) 1"

type_synonym MirOpFlag = u32

definition MIR_OPF_PURE_DEF :: MirOpFlag where "MIR_OPF_PURE_DEF = push_bit 0 1"
definition MIR_OPF_COMMUTATIVE :: MirOpFlag where "MIR_OPF_COMMUTATIVE = push_bit 1 1"
definition MIR_OPF_COALESCE_CANDIDATE :: MirOpFlag where "MIR_OPF_COALESCE_CANDIDATE = push_bit 2 1"
definition MIR_OPF_CALL_BARRIER :: MirOpFlag where "MIR_OPF_CALL_BARRIER = push_bit 3 1"
definition MIR_OPF_REAL_CALL :: MirOpFlag where "MIR_OPF_REAL_CALL = push_bit 4 1"
definition MIR_OPF_INLINE_KERNEL :: MirOpFlag where "MIR_OPF_INLINE_KERNEL = push_bit 5 1"
definition MIR_OPF_PINS_RCX_WHEN_SHIFT_IS_VARIABLE :: MirOpFlag where "MIR_OPF_PINS_RCX_WHEN_SHIFT_IS_VARIABLE = push_bit 6 1"
definition MIR_OPF_PINS_RCX_WHEN_COMPARE_IS_UNORDERED :: MirOpFlag where "MIR_OPF_PINS_RCX_WHEN_COMPARE_IS_UNORDERED = push_bit 7 1"
definition MIR_OPF_CLOBBERS_EVERY_GP :: MirOpFlag where "MIR_OPF_CLOBBERS_EVERY_GP = push_bit 8 1"
definition MIR_OPF_CLOBBERS_LISTED_BY_KERNEL :: MirOpFlag where "MIR_OPF_CLOBBERS_LISTED_BY_KERNEL = push_bit 9 1"

record MirOpInfo =
  oi_flags :: MirOpFlag
  oi_fixed_gp :: u32

section \<open>The table of opcodes\<close>

definition MIR_DEF :: MirOpFlag where "MIR_DEF = MIR_OPF_PURE_DEF"
definition MIR_COAL :: MirOpFlag where "MIR_COAL = MIR_OPF_COALESCE_CANDIDATE"
definition MIR_COMM :: MirOpFlag where
  "MIR_COMM = MIR_OPF_COMMUTATIVE OR MIR_OPF_COALESCE_CANDIDATE"
definition MIR_REALCALL :: MirOpFlag where
  "MIR_REALCALL = MIR_OPF_CALL_BARRIER OR MIR_OPF_REAL_CALL"
definition MIR_KERNEL :: MirOpFlag where
  "MIR_KERNEL = MIR_OPF_CALL_BARRIER OR MIR_OPF_INLINE_KERNEL"

definition info :: "MirOpFlag \<Rightarrow> u32 \<Rightarrow> MirOpInfo" where
  "info flags fixed = \<lparr>oi_flags = flags, oi_fixed_gp = fixed\<rparr>"

definition MIR_OP_INFO_NONE :: MirOpInfo where "MIR_OP_INFO_NONE = info 0 0"

definition flow_op_info :: "MirFlowOpcode \<Rightarrow> MirOpInfo" where
  "flow_op_info op =
    (case op of
       MIR_SETCC \<Rightarrow> info MIR_DEF (MIR_GP_BIT BINARY_GP_RAX)
     | MIR_CMOVCC \<Rightarrow> info MIR_DEF 0
     | MIR_CALL \<Rightarrow> info MIR_REALCALL 0
     | MIR_CALL_INDIRECT \<Rightarrow> info MIR_REALCALL 0
     | MIR_REP_MOVSB \<Rightarrow> info MIR_REALCALL 0
     | MIR_REP_STOSB \<Rightarrow> info MIR_REALCALL 0
     | MIR_SYSCALL \<Rightarrow> info MIR_REALCALL 0
     | MIR_INLINE_ASM \<Rightarrow> info (MIR_OPF_CALL_BARRIER OR MIR_OPF_CLOBBERS_EVERY_GP) 0
     | _ \<Rightarrow> MIR_OP_INFO_NONE)"

definition float_op_info :: "MirFloatOpcode \<Rightarrow> MirOpInfo" where
  "float_op_info op =
    (case op of
       MIR_FADD \<Rightarrow> info (MIR_DEF OR MIR_COMM) 0
     | MIR_FSUB \<Rightarrow> info (MIR_DEF OR MIR_COAL) 0
     | MIR_FMUL \<Rightarrow> info (MIR_DEF OR MIR_COMM) 0
     | MIR_FDIV \<Rightarrow> info (MIR_DEF OR MIR_COAL) 0
     | MIR_FXOR \<Rightarrow> info (MIR_DEF OR MIR_COMM) 0
     | MIR_FSETCC \<Rightarrow> info MIR_OPF_PINS_RCX_WHEN_COMPARE_IS_UNORDERED (MIR_GP_BIT BINARY_GP_RAX)
     | MIR_UCOMIS \<Rightarrow> MIR_OP_INFO_NONE
     | MIR_FCMPBR \<Rightarrow> MIR_OP_INFO_NONE
     | _ \<Rightarrow> info MIR_DEF 0)"

definition mir_op_info :: "MirOpcode \<Rightarrow> MirOpInfo" where
  "mir_op_info op =
    (let rax = MIR_GP_BIT BINARY_GP_RAX; rdx = MIR_GP_BIT BINARY_GP_RDX;
         shift = MIR_DEF OR MIR_COAL OR MIR_OPF_PINS_RCX_WHEN_SHIFT_IS_VARIABLE
     in case op of
       MIR_NOP \<Rightarrow> MIR_OP_INFO_NONE
     | MIR_MOV \<Rightarrow> info (MIR_DEF OR MIR_COAL) 0
     | MIR_LEA \<Rightarrow> info MIR_DEF 0
     | MIR_MOVZX \<Rightarrow> info MIR_DEF 0
     | MIR_MOVSX \<Rightarrow> info MIR_DEF 0
     | MIR_ADD \<Rightarrow> info (MIR_DEF OR MIR_COMM) 0
     | MIR_SUB \<Rightarrow> info (MIR_DEF OR MIR_COAL) 0
     | MIR_AND \<Rightarrow> info (MIR_DEF OR MIR_COMM) 0
     | MIR_OR \<Rightarrow> info (MIR_DEF OR MIR_COMM) 0
     | MIR_XOR \<Rightarrow> info (MIR_DEF OR MIR_COMM) 0
     | MIR_IMUL \<Rightarrow> info (MIR_DEF OR MIR_COMM) 0
     | MIR_NEG \<Rightarrow> info (MIR_DEF OR MIR_COAL) 0
     | MIR_NOT \<Rightarrow> info (MIR_DEF OR MIR_COAL) 0
     | MIR_SHL \<Rightarrow> info shift 0
     | MIR_SHR \<Rightarrow> info shift 0
     | MIR_SAR \<Rightarrow> info shift 0
     | MIR_CQO \<Rightarrow> info 0 rdx
     | MIR_XOR_RDX \<Rightarrow> info 0 rdx
     | MIR_IDIV \<Rightarrow> info 0 (rax OR rdx)
     | MIR_DIV \<Rightarrow> info 0 (rax OR rdx)
     | MIR_MULHI \<Rightarrow> info 0 (rax OR rdx)
     | OpData d \<Rightarrow> (case d of
           MIR_HEAP_NEW \<Rightarrow> info MIR_REALCALL 0
         | MIR_LOAD_GLOBAL \<Rightarrow> MIR_OP_INFO_NONE
         | MIR_STORE_GLOBAL \<Rightarrow> MIR_OP_INFO_NONE
         | _ \<Rightarrow> info MIR_DEF 0)
     | OpFlow f \<Rightarrow> flow_op_info f
     | OpFloat f \<Rightarrow> float_op_info f
     | OpVector v \<Rightarrow> MIR_OP_INFO_NONE
     | OpKernel k \<Rightarrow> info (MIR_KERNEL OR (if k = MIR_IR_KERNEL then MIR_OPF_CLOBBERS_LISTED_BY_KERNEL else 0)) 0)"

definition mir_op_has :: "MirOpcode \<Rightarrow> MirOpFlag \<Rightarrow> bool" where
  "mir_op_has op flags \<longleftrightarrow> oi_flags (mir_op_info op) AND flags \<noteq> 0"

definition mir_op_fixed_gp :: "MirOpcode \<Rightarrow> u32" where
  "mir_op_fixed_gp op = oi_fixed_gp (mir_op_info op)"

definition mir_op_is_inline_kernel :: "MirOpcode \<Rightarrow> bool" where
  "mir_op_is_inline_kernel op = (case op of OpKernel k \<Rightarrow> True | _ \<Rightarrow> False)"

section \<open>What an instruction pins\<close>

definition mir_fsetcc_unordered_cc :: "u8 \<Rightarrow> int" where
  "mir_fsetcc_unordered_cc cc = (if cc = 0x94 then 0x9B else if cc = 0x95 then 0x9A else -1)"

fun is_imm :: "MirOperand \<Rightarrow> bool" where
  "is_imm (MIR_OPK_IMM k) = True"
| "is_imm x = False"

definition mir_inst_fixed_gp :: "MirInst \<Rightarrow> u32" where
  "mir_inst_fixed_gp inst =
    (let mask0 = oi_fixed_gp (mir_op_info (in_op inst));
         mask1 = (if mir_op_has (in_op inst) MIR_OPF_PINS_RCX_WHEN_SHIFT_IS_VARIABLE \<and> \<not> is_imm (in_b inst)
                  then mask0 OR MIR_GP_BIT BINARY_GP_RCX else mask0)
     in if mir_op_has (in_op inst) MIR_OPF_PINS_RCX_WHEN_COMPARE_IS_UNORDERED \<and>
           0 \<le> mir_fsetcc_unordered_cc (in_cc inst)
        then mask1 OR MIR_GP_BIT BINARY_GP_RCX else mask1)"

definition mir_inst_pins_gp :: "MirInst \<Rightarrow> int \<Rightarrow> bool" where
  "mir_inst_pins_gp inst reg \<longleftrightarrow>
     (if reg < 0 \<or> 64 \<le> reg then False else mir_inst_fixed_gp inst AND MIR_GP_BIT reg \<noteq> 0)"

definition pinned_gp :: u32 where
  "pinned_gp = MIR_GP_BIT BINARY_GP_RAX OR MIR_GP_BIT BINARY_GP_RCX OR MIR_GP_BIT BINARY_GP_RDX"

definition mir_machine_gp_is_pinned :: "int \<Rightarrow> bool" where
  "mir_machine_gp_is_pinned reg \<longleftrightarrow>
     (if reg < 0 \<or> 64 \<le> reg then False else pinned_gp AND MIR_GP_BIT reg \<noteq> 0)"

definition MIR_XMM_POOL :: "int list" where "MIR_XMM_POOL = [0, 1, 2, 3]"

section \<open>Inline kernels\<close>

text \<open>The kernels of the table by name, each with the registers it overwrites.\<close>

definition kMirIrKernels :: "(string \<times> u32) list" where
  "kMirIrKernels =
    [(''simd_sum_i32'', 0), (''simd_sum_u8'', 0), (''simd_dot_i32'', 0), (''simd_dot_i8'', 0),
     (''simd_minmax_i32'', MIR_GP_BIT BINARY_GP_R14), (''prefix_sum_i32'', 0), (''lower_bound_i32'', 0),
     (''simd_scale_i32'', 0), (''simd_clamp_i32'', 0), (''simd_reverse_copy_i32'', 0),
     (''simd_byte_map'', 0), (''simd_find'', 0), (''count_word_starts'', 0), (''simd_sum_f64'', 0),
     (''simd_sum_f32'', 0), (''simd_dot_f64'', 0), (''simd_dot_f32'', 0), (''simd_copy'', 0),
     (''memcpy_inline'', 0), (''simd_vloop_f64'', 0), (''simd_vloop_i32'', 0),
     (''simd_insertion_sort_i32'', 0), (''simd_i2f_reduce_f64'', 0), (''simd_exp_f32'', 0),
     (''simd_affine_map_f32'', 0), (''simd_affine_map_f64'', 0), (''simd_outer_lane_f64'', 0),
     (''simd_lcg_u32'', 0)]"

definition mir_ir_kernel_at :: "int \<Rightarrow> (string \<times> u32) option" where
  "mir_ir_kernel_at index =
    (if index < 0 \<or> int (length kMirIrKernels) \<le> index then None else Some (kMirIrKernels ! nat index))"

section \<open>Facts\<close>

lemma bit_gp_bit: "bit (MIR_GP_BIT r) k \<longleftrightarrow> k = nat r \<and> k < 32"
  by (auto simp: MIR_GP_BIT_def bit_exp_iff possible_bit_word)

lemma mask_has_gp: "m AND MIR_GP_BIT r \<noteq> 0 \<longleftrightarrow> bit m (nat r)"
proof -
  have "m AND MIR_GP_BIT r \<noteq> 0 \<longleftrightarrow> (\<exists>k. bit (m AND MIR_GP_BIT r) k)"
    by (metis bit_0_eq bit_eqI bot_apply bot_bool_def)
  also have "\<dots> \<longleftrightarrow> bit m (nat r)"
    using bit_imp_le_length [of m] by (auto simp: bit_and_iff bit_gp_bit)
  finally show ?thesis .
qed

text \<open>An instruction pins only the registers the machine reserves for pinning.\<close>

lemma pinned_registers_covered: "mir_inst_pins_gp inst reg \<Longrightarrow> mir_machine_gp_is_pinned reg"
proof -
  have c: "bit (oi_fixed_gp (mir_op_info op)) k \<Longrightarrow> k \<in> {0, 2}" for op k
    by (auto simp: mir_op_info_def Let_def info_def MIR_OP_INFO_NONE_def flow_op_info_def
        float_op_info_def bit_or_iff bit_gp_bit gp_numbers
        split: MirOpcode.splits MirDataOpcode.splits MirFlowOpcode.splits MirFloatOpcode.splits)
  show "mir_inst_pins_gp inst reg \<Longrightarrow> mir_machine_gp_is_pinned reg"
    using c [of "in_op inst" "nat reg"]
    by (auto simp: mir_inst_pins_gp_def mir_machine_gp_is_pinned_def mask_has_gp pinned_gp_def
        mir_inst_fixed_gp_def Let_def bit_or_iff bit_gp_bit gp_numbers split: if_splits)
qed

end
