(* ===== verification/MirVerify.thy ===== *)
theory MirVerify
  imports Bitset MirMachine
begin

text \<open>
  The verifier of a register allocation, \<open>codegen/binary/mir_regalloc_verify.c\<close>: it recomputes, one
  instruction at a time, which virtual registers are live and which may be defined, and rejects an
  assignment in which an instruction overwrites the register of a value that is still needed.

  Every C function is a definition of the same name. The record holds what \<open>mir_verify_init\<close> sets up;
  the two arrays of sets that the analyses fill (\<open>live_in\<close>, \<open>defd_in\<close>) are passed along as lists of
  rows, one per instruction. A failure message is the value \<open>MirVerifyFail\<close> that the C code formats.

  Allocation. \<open>ok\<close> says which allocations succeed: the seven blocks of \<open>mir_verify_init\<close>, the array of
  list heads, and each growth of an array, named by the capacity it starts from. An array that was
  grown keeps its size, so the question for one capacity has one answer.
\<close>

section \<open>Data\<close>

datatype verify_alloc = VerifyBlock nat | PredHead | PredNext nat | PredFrom nat | TableSucc nat

record MirVerify =
  mv_n :: nat
  mv_words :: nat
  mv_pred_head :: "int list"
  mv_pred_next :: "int list"
  mv_pred_from :: "nat list"
  mv_pred_capacity :: nat
  mv_has_def :: "bool list"
  mv_mentioned :: "bool list"
  mv_labels :: "(string \<times> nat) list"

record MirVerifyFail =
  vf_what :: string
  vf_at :: nat
  vf_a :: MirVregId
  vf_b :: MirVregId

definition MIR_VERIFY_MAX_WORK :: int where "MIR_VERIFY_MAX_WORK = 4000000"

definition mir_verify_fail :: "string \<Rightarrow> nat \<Rightarrow> MirVregId \<Rightarrow> MirVregId \<Rightarrow> MirVerifyFail" where
  "mir_verify_fail what at a b = \<lparr>vf_what = what, vf_at = at, vf_a = a, vf_b = b\<rparr>"

section \<open>What an instruction reads and writes\<close>

definition mir_verify_dst_is_read :: "MirInst \<Rightarrow> bool" where
  "mir_verify_dst_is_read inst \<longleftrightarrow> in_op inst = OpFlow MIR_CMOV \<or> in_op inst = OpFlow MIR_CMOVCC"

fun mir_verify_operand_vregs :: "MirOperand \<Rightarrow> MirVregId list" where
  "mir_verify_operand_vregs (MIR_OPK_VREG v) = [v]"
| "mir_verify_operand_vregs (MIR_OPK_MEM m) = [mem_base m, mem_index m]"
| "mir_verify_operand_vregs x = []"

fun is_mem :: "MirOperand \<Rightarrow> bool" where
  "is_mem (MIR_OPK_MEM m) = True"
| "is_mem x = False"

definition mir_verify_uses :: "MirInst \<Rightarrow> MirVregId list" where
  "mir_verify_uses inst =
    (if is_mem (in_dst inst) \<or> mir_verify_dst_is_read inst
     then mir_verify_operand_vregs (in_dst inst) else []) @
    mir_verify_operand_vregs (in_a inst) @ mir_verify_operand_vregs (in_b inst)"

fun operand_def :: "MirOperand \<Rightarrow> MirVregId" where
  "operand_def (MIR_OPK_VREG v) = v"
| "operand_def x = MIR_VREG_NONE"

definition mir_verify_def :: "MirInst \<Rightarrow> MirVregId" where
  "mir_verify_def inst = operand_def (in_dst inst)"

definition mir_verify_valid :: "nat \<Rightarrow> MirVregId \<Rightarrow> bool" where
  "mir_verify_valid n v \<longleftrightarrow> 0 \<le> v \<and> nat v < n"

text \<open>The name a label instruction carries, when it carries one.\<close>

definition label_name :: "MirInst \<Rightarrow> string option" where
  "label_name inst =
    (if in_op inst = OpFlow MIR_LABEL then (case in_dst inst of MIR_OPK_LABEL s \<Rightarrow> s | _ \<Rightarrow> None) else None)"

section \<open>Successors\<close>

definition mir_verify_find_label :: "MirVerify \<Rightarrow> string option \<Rightarrow> int" where
  "mir_verify_find_label st name =
    (case name of None \<Rightarrow> -1
     | Some s \<Rightarrow> (case find (\<lambda>l. fst l = s) (mv_labels st) of None \<Rightarrow> -1 | Some l \<Rightarrow> int (snd l)))"

definition mir_verify_push_table_succ ::
  "(verify_alloc \<Rightarrow> bool) \<Rightarrow> nat \<times> int list \<Rightarrow> int \<Rightarrow> (nat \<times> int list) option" where
  "mir_verify_push_table_succ ok buf target =
    (case buf of (cap, ts) \<Rightarrow>
       if length ts = cap then
         (if ok (TableSucc cap) then Some (if cap \<noteq> 0 then cap * 2 else 64, ts @ [target]) else None)
       else Some (cap, ts @ [target]))"

fun table_targets ::
  "(verify_alloc \<Rightarrow> bool) \<Rightarrow> MirVerify \<Rightarrow> string option list \<Rightarrow> nat \<times> int list \<Rightarrow> int list option" where
  "table_targets ok st [] buf = Some (snd buf)"
| "table_targets ok st (l # ls) buf =
    (let target = mir_verify_find_label st l
     in if target < 0 then None
        else (case mir_verify_push_table_succ ok buf target of None \<Rightarrow> None
              | Some buf' \<Rightarrow> table_targets ok st ls buf'))"

definition is_cond_branch :: "MirOpcode \<Rightarrow> bool" where
  "is_cond_branch op \<longleftrightarrow> op = OpFlow MIR_JCC \<or> op = OpFlow MIR_CMPBR \<or> op = OpFloat MIR_FCMPBR"

text \<open>
  The instructions control may reach next: the branch target and the next instruction, then the
  targets of a jump table; nothing when a target is not a label of the function.
\<close>

definition mir_verify_successors ::
  "(verify_alloc \<Rightarrow> bool) \<Rightarrow> MirFunction \<Rightarrow> MirVerify \<Rightarrow> nat \<Rightarrow> nat list option" where
  "mir_verify_successors ok fn st i =
    (let inst = fn_insns fn ! i;
         target = mir_verify_find_label st (op_sym (in_dst inst));
         next = (if i + 1 < length (fn_insns fn) then [i + 1] else [])
     in if in_op inst = OpFlow MIR_JMP then
          (if target < 0 then None else Some [nat target])
        else if is_cond_branch (in_op inst) then
          (if target < 0 then None else Some (nat target # next))
        else if in_op inst = OpFlow MIR_JMP_TABLE then
          (case in_aux inst of
             AuxJumpTable labels \<Rightarrow> map_option (map nat) (table_targets ok st labels (0, []))
           | _ \<Rightarrow> None)
        else if in_op inst = OpFlow MIR_RET \<or> in_op inst = OpFlow MIR_TRAP then Some []
        else Some next)"

definition mir_verify_live_out ::
  "(verify_alloc \<Rightarrow> bool) \<Rightarrow> MirFunction \<Rightarrow> MirVerify \<Rightarrow> bits list \<Rightarrow> nat \<Rightarrow> bits option" where
  "mir_verify_live_out ok fn st live_in i =
    map_option (\<lambda>succs. fold (\<lambda>s out. or_words out (live_in ! s)) succs (no_bits (mv_words st)))
      (mir_verify_successors ok fn st i)"

section \<open>Predecessor lists\<close>

definition mir_verify_add_pred ::
  "(verify_alloc \<Rightarrow> bool) \<Rightarrow> nat \<Rightarrow> MirVerify \<Rightarrow> nat \<Rightarrow> MirVerify option" where
  "mir_verify_add_pred ok from st to =
    (let cap = mv_pred_capacity st;
         add = (\<lambda>st. st\<lparr>mv_pred_from := mv_pred_from st @ [from],
                        mv_pred_next := mv_pred_next st @ [mv_pred_head st ! to],
                        mv_pred_head := (mv_pred_head st)[to := int (length (mv_pred_from st))]\<rparr>)
     in if length (mv_pred_from st) = cap then
          (if ok (PredNext cap) \<and> ok (PredFrom cap)
           then Some (add (st\<lparr>mv_pred_capacity := if cap \<noteq> 0 then cap * 2 else 256\<rparr>)) else None)
        else Some (add st))"

fun add_preds ::
  "(verify_alloc \<Rightarrow> bool) \<Rightarrow> nat \<Rightarrow> nat list \<Rightarrow> MirVerify \<Rightarrow> MirVerify option" where
  "add_preds ok from [] st = Some st"
| "add_preds ok from (to # tos) st =
    (case mir_verify_add_pred ok from st to of None \<Rightarrow> None | Some st' \<Rightarrow> add_preds ok from tos st')"

definition preds_of_insn ::
  "(verify_alloc \<Rightarrow> bool) \<Rightarrow> MirFunction \<Rightarrow> nat \<Rightarrow> MirVerify \<Rightarrow> MirVerify option" where
  "preds_of_insn ok fn i st =
    (if in_op (fn_insns fn ! i) = MIR_NOP then
       add_preds ok i (if i + 1 < length (fn_insns fn) then [i + 1] else []) st
     else (case mir_verify_successors ok fn st i of None \<Rightarrow> None
           | Some succs \<Rightarrow> add_preds ok i succs st))"

fun preds_from ::
  "(verify_alloc \<Rightarrow> bool) \<Rightarrow> MirFunction \<Rightarrow> nat list \<Rightarrow> MirVerify \<Rightarrow> MirVerify option" where
  "preds_from ok fn [] st = Some st"
| "preds_from ok fn (i # is) st =
    (case preds_of_insn ok fn i st of None \<Rightarrow> None | Some st' \<Rightarrow> preds_from ok fn is st')"

definition mir_verify_build_preds ::
  "(verify_alloc \<Rightarrow> bool) \<Rightarrow> MirFunction \<Rightarrow> MirVerify \<Rightarrow> MirVerify option" where
  "mir_verify_build_preds ok fn st =
    (if ok PredHead then
       preds_from ok fn [0..<length (fn_insns fn)]
         (st\<lparr>mv_pred_head := replicate (length (fn_insns fn)) (-1)\<rparr>)
     else None)"

section \<open>Initialisation\<close>

definition mark :: "nat \<Rightarrow> MirVregId \<Rightarrow> bool list \<Rightarrow> bool list" where
  "mark n v xs = (if mir_verify_valid n v then xs[nat v := True] else xs)"

definition scan_insn :: "nat \<times> MirInst \<Rightarrow> MirVerify \<Rightarrow> MirVerify" where
  "scan_insn ii st =
    (case ii of (i, inst) \<Rightarrow>
     case label_name inst of
       Some s \<Rightarrow> st\<lparr>mv_labels := mv_labels st @ [(s, i)]\<rparr>
     | None \<Rightarrow>
         if in_op inst = MIR_NOP then st
         else st\<lparr>mv_has_def := mark (mv_n st) (mir_verify_def inst) (mv_has_def st),
                 mv_mentioned := fold (mark (mv_n st)) (mir_verify_def inst # mir_verify_uses inst)
                                   (mv_mentioned st)\<rparr>)"

text \<open>The registers that hold a value on entry: the parameters and the indirect result pointer.\<close>

definition entry_vregs :: "MirFunction \<Rightarrow> MirVregId list" where
  "entry_vregs fn =
    concat (map (\<lambda>p. [pa_vreg p, pa_sysv_storage p]) (fn_params fn)) @
    (if fn_returns_indirect fn then [fn_indirect_return_vreg fn] else [])"

definition verify_fresh :: "MirFunction \<Rightarrow> MirVerify" where
  "verify_fresh fn =
    (let n = length (fn_vregs fn)
     in \<lparr>mv_n = n, mv_words = (n + 63) div 64, mv_pred_head = [], mv_pred_next = [],
         mv_pred_from = [], mv_pred_capacity = 0, mv_has_def = replicate n False,
         mv_mentioned = replicate n False, mv_labels = []\<rparr>)"

datatype init_result = InitSkip | InitFail | InitReady MirVerify

definition mir_verify_init :: "(verify_alloc \<Rightarrow> bool) \<Rightarrow> MirFunction \<Rightarrow> init_result" where
  "mir_verify_init ok fn =
    (let st0 = verify_fresh fn
     in if MIR_VERIFY_MAX_WORK < int (length (fn_insns fn) * mv_words st0) then InitSkip
        else if \<not> (\<forall>k \<in> set [0..<7]. ok (VerifyBlock k)) then InitFail
        else
          let st1 = fold scan_insn (enumerate 0 (fn_insns fn)) st0;
              st2 = st1\<lparr>mv_has_def := fold (mark (mv_n st1)) (entry_vregs fn) (mv_has_def st1)\<rparr>
          in case mir_verify_build_preds ok fn st2 of None \<Rightarrow> InitFail | Some st3 \<Rightarrow> InitReady st3)"

section \<open>The two analyses\<close>

definition add_valid :: "nat \<Rightarrow> MirVregId \<Rightarrow> bits \<Rightarrow> bits" where
  "add_valid n v s = (if mir_verify_valid n v then mir_cfg_set_add s (nat v) else s)"

definition mir_verify_defd_out :: "MirFunction \<Rightarrow> MirVerify \<Rightarrow> bits list \<Rightarrow> nat \<Rightarrow> bits" where
  "mir_verify_defd_out fn st defd_in i =
    (let inst = fn_insns fn ! i
     in if in_op inst = MIR_NOP then defd_in ! i
        else add_valid (mv_n st) (mir_verify_def inst) (defd_in ! i))"

text \<open>One edge \<open>e\<close> into instruction \<open>i\<close>: its row takes what the predecessor defines.\<close>

definition defined_edge ::
  "MirFunction \<Rightarrow> MirVerify \<Rightarrow> nat \<Rightarrow> nat \<Rightarrow> bits list \<times> bool \<Rightarrow> bits list \<times> bool" where
  "defined_edge fn st i e s =
    (case s of (rows, changed) \<Rightarrow>
       let cur = rows ! i;
           next = or_words cur (mir_verify_defd_out fn st rows (mv_pred_from st ! e))
       in (rows[i := next], changed \<or> next \<noteq> cur))"

definition defined_insn ::
  "MirFunction \<Rightarrow> MirVerify \<Rightarrow> nat \<Rightarrow> bits list \<times> bool \<Rightarrow> bits list \<times> bool" where
  "defined_insn fn st i =
    fold (defined_edge fn st i) (edges_from (mv_pred_next st) (mv_pred_head st ! i))"

definition defined_sweep :: "MirFunction \<Rightarrow> MirVerify \<Rightarrow> bits list \<Rightarrow> bits list \<times> bool" where
  "defined_sweep fn st rows = fold (defined_insn fn st) [1..<length (fn_insns fn)] (rows, False)"

function defined_loop :: "MirFunction \<Rightarrow> MirVerify \<Rightarrow> int \<Rightarrow> bits list \<Rightarrow> bits list option" where
  "defined_loop fn st rounds rows =
    (if rounds + 1 > 10000 then None
     else case defined_sweep fn st rows of
            (rows', changed) \<Rightarrow> if changed then defined_loop fn st (rounds + 1) rows' else Some rows')"
  by pat_completeness auto
termination
  by (relation "measure (\<lambda>(fn, st, rounds, rows). nat (10000 - rounds))") auto

definition mir_verify_compute_defined :: "MirFunction \<Rightarrow> MirVerify \<Rightarrow> bits list option" where
  "mir_verify_compute_defined fn st =
    (let rows = replicate (length (fn_insns fn)) (no_bits (mv_words st))
     in defined_loop fn st 0 (rows[0 := fold (add_valid (mv_n st)) (entry_vregs fn) (rows ! 0)]))"

definition clear_valid :: "nat \<Rightarrow> MirVregId \<Rightarrow> bits \<Rightarrow> bits" where
  "clear_valid n v s = (if mir_verify_valid n v then mir_cfg_set_clear s (nat v) else s)"

definition liveness_insn ::
  "(verify_alloc \<Rightarrow> bool) \<Rightarrow> MirFunction \<Rightarrow> MirVerify \<Rightarrow> nat \<Rightarrow> bits list \<times> bool \<Rightarrow>
   (bits list \<times> bool) option" where
  "liveness_insn ok fn st i s =
    (case s of (rows, changed) \<Rightarrow>
       let inst = fn_insns fn ! i;
           set_row = (\<lambda>next. Some (rows[i := next], changed \<or> next \<noteq> rows ! i))
       in if in_op inst = MIR_NOP then
            (if i + 1 < length (fn_insns fn) then set_row (rows ! (i + 1)) else Some (rows, changed))
          else (case mir_verify_live_out ok fn st rows i of None \<Rightarrow> None
                | Some out \<Rightarrow>
                    set_row (fold (add_valid (mv_n st)) (mir_verify_uses inst)
                               (clear_valid (mv_n st) (mir_verify_def inst) out))))"

fun liveness_sweep ::
  "(verify_alloc \<Rightarrow> bool) \<Rightarrow> MirFunction \<Rightarrow> MirVerify \<Rightarrow> nat \<Rightarrow> bits list \<times> bool \<Rightarrow>
   (bits list \<times> bool) option" where
  "liveness_sweep ok fn st 0 s = Some s"
| "liveness_sweep ok fn st (Suc i) s =
    (case liveness_insn ok fn st i s of None \<Rightarrow> None | Some s' \<Rightarrow> liveness_sweep ok fn st i s')"

function liveness_loop ::
  "(verify_alloc \<Rightarrow> bool) \<Rightarrow> MirFunction \<Rightarrow> MirVerify \<Rightarrow> int \<Rightarrow> bits list \<Rightarrow> bits list option" where
  "liveness_loop ok fn st rounds rows =
    (if rounds + 1 > 10000 then None
     else case liveness_sweep ok fn st (length (fn_insns fn)) (rows, False) of
            None \<Rightarrow> None
          | Some (rows', changed) \<Rightarrow>
              if changed then liveness_loop ok fn st (rounds + 1) rows' else Some rows')"
  by pat_completeness auto
termination
  by (relation "measure (\<lambda>(ok, fn, st, rounds, rows). nat (10000 - rounds))") auto

declare defined_loop.simps [simp del] liveness_loop.simps [simp del]

definition mir_verify_compute_liveness ::
  "(verify_alloc \<Rightarrow> bool) \<Rightarrow> MirFunction \<Rightarrow> MirVerify \<Rightarrow> bits list option" where
  "mir_verify_compute_liveness ok fn st =
    liveness_loop ok fn st 0 (replicate (length (fn_insns fn)) (no_bits (mv_words st)))"

definition mir_verify_analyse ::
  "(verify_alloc \<Rightarrow> bool) \<Rightarrow> MirFunction \<Rightarrow> MirVerify \<Rightarrow> (bits list \<times> bits list) option" where
  "mir_verify_analyse ok fn st =
    (case mir_verify_compute_liveness ok fn st of None \<Rightarrow> None
     | Some live \<Rightarrow> map_option (\<lambda>defd. (live, defd)) (mir_verify_compute_defined fn st))"

section \<open>The checks\<close>

definition mir_verify_gp_survives_barrier :: "bool \<Rightarrow> MirInst \<Rightarrow> int \<Rightarrow> bool" where
  "mir_verify_gp_survives_barrier sysv inst phys =
    (if phys \<in> {BINARY_GP_RBX, BINARY_GP_RBP, BINARY_GP_R12, BINARY_GP_R13, BINARY_GP_R14, BINARY_GP_R15}
     then True
     else if phys \<in> {BINARY_GP_RSI, BINARY_GP_RDI} then \<not> sysv
     else if phys = BINARY_GP_RAX then in_op inst = OpFlow MIR_CALL \<and> in_preserves_rax inst
     else False)"

definition mir_verify_xmm_survives_barrier :: "MirInst \<Rightarrow> int \<Rightarrow> bool" where
  "mir_verify_xmm_survives_barrier inst phys =
    (if in_op inst \<noteq> OpFlow MIR_CALL \<or> \<not> in_preserves_xmm inst then False
     else phys \<in> set MIR_XMM_POOL)"

definition mir_verify_gp_clobbers :: "MirInst \<Rightarrow> u32" where
  "mir_verify_gp_clobbers inst =
    (let m0 = mir_inst_fixed_gp inst;
         m1 = (case in_dst inst of
                 MIR_OPK_PHYS phys rclass \<Rightarrow>
                   if rclass = MIR_RC_GP \<and> 0 \<le> phys \<and> phys < 16 then m0 OR push_bit (nat phys) 1 else m0
               | _ \<Rightarrow> m0);
         m2 = (if mir_op_has (in_op inst) MIR_OPF_CLOBBERS_LISTED_BY_KERNEL then
                 (case in_aux inst of
                    AuxKernel index \<Rightarrow>
                      (case mir_ir_kernel_at index of None \<Rightarrow> m1 | Some kern \<Rightarrow> m1 OR snd kern)
                  | _ \<Rightarrow> m1)
               else m1)
     in if mir_op_has (in_op inst) MIR_OPF_CLOBBERS_EVERY_GP then m2 OR 0xFFFF else m2)"

definition xmm_clobber :: "MirInst \<Rightarrow> int" where
  "xmm_clobber inst =
    (case in_dst inst of MIR_OPK_PHYS phys rclass \<Rightarrow> if rclass = MIR_RC_XMM then phys else -1 | _ \<Rightarrow> -1)"

text \<open>The body of the loop of \<open>mir_verify_check_insn\<close> for one live register \<open>v\<close>.\<close>

definition check_live_value ::
  "bool \<Rightarrow> MirFunction \<Rightarrow> MirVerify \<Rightarrow> nat \<Rightarrow> nat \<Rightarrow> MirVerifyFail option" where
  "check_live_value sysv fn st i v =
    (let inst = fn_insns fn ! i;
         def = mir_verify_def inst;
         dv = (if mir_verify_valid (mv_n st) def then Some (fn_vregs fn ! nat def) else None);
         vr = fn_vregs fn ! v
     in if mv_n st \<le> v \<or> \<not> mv_has_def st ! v then None
        else if \<not> vr_in_register vr then None
        else if int v = def then None
        else if (case dv of None \<Rightarrow> False
                 | Some d \<Rightarrow> vr_in_register d \<and> mv_has_def st ! nat def \<and>
                     vr_rclass d = vr_rclass vr \<and> vr_phys d = vr_phys vr) then
          Some (mir_verify_fail ''two live values share a register'' i def (int v))
        else if vr_rclass vr = MIR_RC_GP \<and> 0 \<le> vr_phys vr \<and> vr_phys vr < 16 \<and>
                mir_verify_gp_clobbers inst AND push_bit (nat (vr_phys vr)) 1 \<noteq> 0 then
          Some (mir_verify_fail ''live value in a clobbered register'' i (int v) def)
        else if vr_rclass vr = MIR_RC_XMM \<and> vr_phys vr = xmm_clobber inst then
          Some (mir_verify_fail ''live value in a clobbered xmm register'' i (int v) def)
        else if mir_op_has (in_op inst) MIR_OPF_CALL_BARRIER \<and>
                \<not> (if vr_rclass vr = MIR_RC_GP then mir_verify_gp_survives_barrier sysv inst (vr_phys vr)
                   else mir_verify_xmm_survives_barrier inst (vr_phys vr)) then
          Some (mir_verify_fail ''live value in a register the call does not preserve'' i (int v) def)
        else None)"

fun first_failure :: "('a \<Rightarrow> MirVerifyFail option) \<Rightarrow> 'a list \<Rightarrow> MirVerifyFail option" where
  "first_failure f [] = None"
| "first_failure f (x # xs) = (case f x of None \<Rightarrow> first_failure f xs | Some e \<Rightarrow> Some e)"

definition and_words :: "bits \<Rightarrow> bits \<Rightarrow> bits" where
  "and_words a b = map2 (AND) a b"

lemma members_and_words:
  "length a = length b \<Longrightarrow> members (and_words a b) = members a \<inter> members b"
  by (auto simp: members_iff and_words_def bit_and_iff less_mult_imp_div_less mult.commute)

definition mir_verify_check_insn ::
  "(verify_alloc \<Rightarrow> bool) \<Rightarrow> bool \<Rightarrow> MirFunction \<Rightarrow> MirVerify \<Rightarrow> bits list \<Rightarrow> bits list \<Rightarrow> nat \<Rightarrow>
   MirVerifyFail option" where
  "mir_verify_check_insn ok sysv fn st live defd i =
    (if in_op (fn_insns fn ! i) = MIR_NOP then None
     else case mir_verify_live_out ok fn st live i of
            None \<Rightarrow> Some (mir_verify_fail ''branch target unresolved'' i MIR_VREG_NONE MIR_VREG_NONE)
          | Some out \<Rightarrow>
              first_failure (check_live_value sysv fn st i) (member_loop (and_words out (defd ! i))))"

definition entry_candidate :: "MirVerify \<Rightarrow> bits list \<Rightarrow> bits list \<Rightarrow> nat \<Rightarrow> bool" where
  "entry_candidate st live defd v \<longleftrightarrow>
     mv_has_def st ! v \<and> mir_cfg_set_get (live ! 0) v \<and> mir_cfg_set_get (defd ! 0) v"

definition mir_verify_check_entry ::
  "MirFunction \<Rightarrow> MirVerify \<Rightarrow> bits list \<Rightarrow> bits list \<Rightarrow> MirVerifyFail option" where
  "mir_verify_check_entry fn st live defd =
    first_failure (\<lambda>a.
      let av = fn_vregs fn ! a
      in if \<not> entry_candidate st live defd a \<or> \<not> vr_in_register av then None
         else first_failure (\<lambda>b.
                let bv = fn_vregs fn ! b
                in if \<not> entry_candidate st live defd b then None
                   else if vr_in_register bv \<and> vr_rclass bv = vr_rclass av \<and> vr_phys bv = vr_phys av then
                     Some (mir_verify_fail ''two entry-live values share a register'' 0 (int a) (int b))
                   else None)
              [a + 1..<mv_n st])
      [0..<mv_n st]"

definition mir_verify_check_assignments :: "MirFunction \<Rightarrow> MirVerify \<Rightarrow> MirVerifyFail option" where
  "mir_verify_check_assignments fn st =
    first_failure (\<lambda>v.
      let vr = fn_vregs fn ! v
      in if \<not> mv_mentioned st ! v then None
         else if \<not> vr_assigned vr then
           Some (mir_verify_fail ''a mentioned value was never assigned'' 0 (int v) MIR_VREG_NONE)
         else if vr_in_register vr then
           (if vr_phys vr < 0 \<or> 16 \<le> vr_phys vr then
              Some (mir_verify_fail ''register number out of range'' 0 (int v) MIR_VREG_NONE)
            else None)
         else if vr_spill_offset vr \<le> 0 then
           Some (mir_verify_fail ''a spilled value has no frame slot'' 0 (int v) MIR_VREG_NONE)
         else None)
      [0..<mv_n st]"

section \<open>The verifier\<close>

definition fail_on :: "MirFunction \<Rightarrow> MirVerifyFail \<Rightarrow> bool \<times> MirFunction \<times> MirVerifyFail option" where
  "fail_on fn e = (False, fn\<lparr>fn_has_error := True\<rparr>, Some e)"

definition mir_regalloc_verify ::
  "(verify_alloc \<Rightarrow> bool) \<Rightarrow> bool \<Rightarrow> MirFunction \<Rightarrow> bool \<times> MirFunction \<times> MirVerifyFail option" where
  "mir_regalloc_verify ok sysv fn =
    (if fn_vregs fn = [] \<or> fn_insns fn = [] then (True, fn, None)
     else case mir_verify_init ok fn of
       InitSkip \<Rightarrow> (True, fn, None)
     | InitFail \<Rightarrow> (True, fn, None)
     | InitReady st \<Rightarrow>
         (case mir_verify_analyse ok fn st of
            None \<Rightarrow> fail_on fn (mir_verify_fail ''liveness did not converge'' 0 MIR_VREG_NONE MIR_VREG_NONE)
          | Some (live, defd) \<Rightarrow>
              (case mir_verify_check_assignments fn st of
                 Some e \<Rightarrow> fail_on fn e
               | None \<Rightarrow>
                   (case mir_verify_check_entry fn st live defd of
                      Some e \<Rightarrow> fail_on fn e
                    | None \<Rightarrow>
                        (case first_failure (mir_verify_check_insn ok sysv fn st live defd)
                                [0..<length (fn_insns fn)] of
                           Some e \<Rightarrow> fail_on fn e
                         | None \<Rightarrow> (True, fn, None))))))"

section \<open>Corrupting a colouring\<close>

text \<open>
  \<open>mir_regalloc_verify_sabotage\<close> gives one defined register the register of a value that is live across
  its definition, the first pair in the order of the two loops.
\<close>

definition sabotage_pair ::
  "(verify_alloc \<Rightarrow> bool) \<Rightarrow> MirFunction \<Rightarrow> MirVerify \<Rightarrow> bits list \<Rightarrow> bits list \<Rightarrow> nat \<Rightarrow> nat option" where
  "sabotage_pair ok fn st live defd i =
    (let inst = fn_insns fn ! i;
         def = mir_verify_def inst;
         dv = fn_vregs fn ! nat def
     in if in_op inst = MIR_NOP \<or> \<not> mir_verify_valid (mv_n st) def then None
        else if \<not> vr_in_register dv then None
        else case mir_verify_live_out ok fn st live i of
               None \<Rightarrow> None
             | Some out \<Rightarrow>
                 find (\<lambda>v. let vr = fn_vregs fn ! v
                           in \<not> (int v = def \<or> \<not> mv_has_def st ! v \<or> \<not> vr_in_register vr \<or>
                                 vr_rclass vr \<noteq> vr_rclass dv \<or> \<not> mir_cfg_set_get out v \<or>
                                 \<not> mir_cfg_set_get (defd ! i) v))
                   [0..<mv_n st])"

fun sabotage_scan :: "(nat \<Rightarrow> nat option) \<Rightarrow> nat list \<Rightarrow> (nat \<times> nat) option" where
  "sabotage_scan f [] = None"
| "sabotage_scan f (i # is) = (case f i of Some v \<Rightarrow> Some (i, v) | None \<Rightarrow> sabotage_scan f is)"

definition mir_regalloc_verify_sabotage :: "(verify_alloc \<Rightarrow> bool) \<Rightarrow> MirFunction \<Rightarrow> MirFunction" where
  "mir_regalloc_verify_sabotage ok fn =
    (case mir_verify_init ok fn of
       InitReady st \<Rightarrow>
         (case mir_verify_analyse ok fn st of
            None \<Rightarrow> fn
          | Some (live, defd) \<Rightarrow>
              (case sabotage_scan (sabotage_pair ok fn st live defd) [0..<length (fn_insns fn)] of
                 None \<Rightarrow> fn
               | Some (i, v) \<Rightarrow>
                   let def = nat (mir_verify_def (fn_insns fn ! i))
                   in fn\<lparr>fn_vregs := (fn_vregs fn)[def := (fn_vregs fn ! def)\<lparr>vr_phys := vr_phys (fn_vregs fn ! v)\<rparr>]\<rparr>))
     | _ \<Rightarrow> fn)"

section \<open>Sets of valid registers\<close>

lemma length_add_valid [simp]: "length (add_valid n v s) = length s"
  by (simp add: add_valid_def)

lemma length_clear_valid [simp]: "length (clear_valid n v s) = length s"
  by (simp add: clear_valid_def)

lemma length_fold_add_valid [simp]: "length (fold (add_valid n) vs s) = length s"
  by (induction vs arbitrary: s) simp_all

lemma members_add_valid:
  "n \<le> 64 * length s \<Longrightarrow>
   members (add_valid n v s) = members s \<union> (if mir_verify_valid n v then {nat v} else {})"
  by (auto simp: add_valid_def mir_verify_valid_def)

lemma members_fold_add_valid:
  "n \<le> 64 * length s \<Longrightarrow>
   members (fold (add_valid n) vs s) = members s \<union> nat ` {v \<in> set vs. mir_verify_valid n v}"
proof (induction vs arbitrary: s)
  case (Cons v vs)
  have "members (fold (add_valid n) vs (add_valid n v s)) =
      members (add_valid n v s) \<union> nat ` {v \<in> set vs. mir_verify_valid n v}"
    by (rule Cons.IH) (simp add: Cons.prems)
  then show ?case using Cons.prems by (auto simp: members_add_valid)
qed simp

lemma members_clear_valid:
  "n \<le> 64 * length s \<Longrightarrow>
   members (clear_valid n v s) = members s - (if mir_verify_valid n v then {nat v} else {})"
  by (auto simp: clear_valid_def mir_verify_valid_def)

lemma members_fold_or:
  "\<forall>s \<in> set ss. length (rows ! s) = length out \<Longrightarrow>
   length (fold (\<lambda>s out. or_words out (rows ! s)) ss out) = length out \<and>
   members (fold (\<lambda>s out. or_words out (rows ! s)) ss out) = members out \<union> (\<Union>s \<in> set ss. members (rows ! s))"
  by (induction ss arbitrary: out) auto

end
