(* ===== verification/MirExec.thy ===== *)
theory MirExec
  imports MirVerify
begin

text \<open>
  What a register allocation has to preserve: execution of a MIR function on virtual registers, and
  execution of the same instructions when every virtual register lives where the allocator put it.

  Both machines share the effect of the instructions. \<open>eff i xs e\<close> is what instruction \<open>i\<close> does with the
  values \<open>xs\<close> of the registers it reads in the environment \<open>e\<close> (memory, flags, the registers it names
  itself): the value for the register it writes, the new environment, and the instruction control goes
  to. The first machine reads and writes virtual registers, undefined until they are written. The
  second reads the assigned registers and frame slots, and an instruction may leave any value in the
  physical registers it clobbers: those it pins, those a call does not preserve, a physical
  destination. A spilled value has a slot of its own.
\<close>

section \<open>Reads, writes and control flow of the program\<close>

definition reads :: "MirFunction \<Rightarrow> nat \<Rightarrow> nat list" where
  "reads fn i =
    (if in_op (fn_insns fn ! i) = MIR_NOP then []
     else map nat (filter (mir_verify_valid (length (fn_vregs fn))) (mir_verify_uses (fn_insns fn ! i))))"

definition writes :: "MirFunction \<Rightarrow> nat \<Rightarrow> nat option" where
  "writes fn i =
    (if in_op (fn_insns fn ! i) \<noteq> MIR_NOP \<and>
        mir_verify_valid (length (fn_vregs fn)) (mir_verify_def (fn_insns fn ! i))
     then Some (nat (mir_verify_def (fn_insns fn ! i))) else None)"

definition label_at :: "MirFunction \<Rightarrow> string option \<Rightarrow> nat option" where
  "label_at fn name =
    (case name of None \<Rightarrow> None
     | Some s \<Rightarrow> map_option fst (find (\<lambda>l. label_name (snd l) = Some s) (enumerate 0 (fn_insns fn))))"

definition falls_through :: "MirOpcode \<Rightarrow> bool" where
  "falls_through op \<longleftrightarrow>
     op \<noteq> OpFlow MIR_JMP \<and> op \<noteq> OpFlow MIR_JMP_TABLE \<and> op \<noteq> OpFlow MIR_RET \<and> op \<noteq> OpFlow MIR_TRAP"

definition branch_targets :: "MirInst \<Rightarrow> string option list" where
  "branch_targets inst =
    (if in_op inst = OpFlow MIR_JMP \<or> is_cond_branch (in_op inst) then [op_sym (in_dst inst)]
     else if in_op inst = OpFlow MIR_JMP_TABLE then
       (case in_aux inst of AuxJumpTable labels \<Rightarrow> labels | _ \<Rightarrow> [])
     else [])"

definition next_insn :: "MirFunction \<Rightarrow> nat \<Rightarrow> nat \<Rightarrow> bool" where
  "next_insn fn i j \<longleftrightarrow>
     i < length (fn_insns fn) \<and>
     ((falls_through (in_op (fn_insns fn ! i)) \<and> j = i + 1 \<and> j < length (fn_insns fn)) \<or>
      Some j \<in> label_at fn ` set (branch_targets (fn_insns fn ! i)))"

text \<open>A register is live at an instruction when some path reads it before writing it.\<close>

inductive live_at :: "MirFunction \<Rightarrow> nat \<Rightarrow> nat \<Rightarrow> bool" for fn where
  live_read: "i < length (fn_insns fn) \<Longrightarrow> v \<in> set (reads fn i) \<Longrightarrow> live_at fn i v"
| live_pass: "next_insn fn i j \<Longrightarrow> live_at fn j v \<Longrightarrow> writes fn i \<noteq> Some v \<Longrightarrow> live_at fn i v"

section \<open>Execution on virtual registers\<close>

type_synonym ('v, 'e) effect = "nat \<Rightarrow> 'v list \<Rightarrow> 'e \<Rightarrow> 'v \<times> 'e \<times> nat"

definition vstep ::
  "MirFunction \<Rightarrow> ('v, 'e) effect \<Rightarrow> nat \<times> (nat \<rightharpoonup> 'v) \<times> 'e \<Rightarrow> (nat \<times> (nat \<rightharpoonup> 'v) \<times> 'e) option" where
  "vstep fn eff s =
    (case s of (i, V, e) \<Rightarrow>
       if length (fn_insns fn) \<le> i then None
       else case those (map V (reads fn i)) of
              None \<Rightarrow> None
            | Some xs \<Rightarrow>
                (case eff i xs e of (x, e', j) \<Rightarrow>
                   if next_insn fn i j
                   then Some (j, (case writes fn i of None \<Rightarrow> V | Some d \<Rightarrow> V(d \<mapsto> x)), e')
                   else None))"

fun vrun ::
  "MirFunction \<Rightarrow> ('v, 'e) effect \<Rightarrow> nat \<Rightarrow> nat \<times> (nat \<rightharpoonup> 'v) \<times> 'e \<Rightarrow> (nat \<times> (nat \<rightharpoonup> 'v) \<times> 'e) option" where
  "vrun fn eff 0 s = Some s"
| "vrun fn eff (Suc n) s = (case vrun fn eff n s of None \<Rightarrow> None | Some s' \<Rightarrow> vstep fn eff s')"

section \<open>Execution on assigned registers\<close>

type_synonym 'v regs = "MirRegClass \<Rightarrow> int \<Rightarrow> 'v"

text \<open>The registers the instruction may overwrite besides the one it writes its result to.\<close>

definition clobbered :: "bool \<Rightarrow> MirInst \<Rightarrow> MirRegClass \<Rightarrow> int \<Rightarrow> bool" where
  "clobbered sysv inst c r \<longleftrightarrow>
     in_op inst \<noteq> MIR_NOP \<and>
     ((c = MIR_RC_GP \<and> 0 \<le> r \<and> r < 16 \<and> bit (mir_verify_gp_clobbers inst) (nat r)) \<or>
      (c = MIR_RC_XMM \<and> r = xmm_clobber inst) \<or>
      (mir_op_has (in_op inst) MIR_OPF_CALL_BARRIER \<and>
       \<not> (if c = MIR_RC_GP then mir_verify_gp_survives_barrier sysv inst r
          else mir_verify_xmm_survives_barrier inst r)))"

definition assigned_to :: "MirFunction \<Rightarrow> nat \<Rightarrow> MirRegClass \<Rightarrow> int \<Rightarrow> bool" where
  "assigned_to fn v c r \<longleftrightarrow>
     vr_in_register (fn_vregs fn ! v) \<and> vr_rclass (fn_vregs fn ! v) = c \<and> vr_phys (fn_vregs fn ! v) = r"

definition held :: "MirFunction \<Rightarrow> 'v regs \<times> (nat \<Rightarrow> 'v) \<Rightarrow> nat \<Rightarrow> 'v" where
  "held fn p v =
    (if vr_in_register (fn_vregs fn ! v)
     then fst p (vr_rclass (fn_vregs fn ! v)) (vr_phys (fn_vregs fn ! v)) else snd p v)"

inductive pstep ::
  "bool \<Rightarrow> MirFunction \<Rightarrow> ('v, 'e) effect \<Rightarrow>
   nat \<times> ('v regs \<times> (nat \<Rightarrow> 'v)) \<times> 'e \<Rightarrow> nat \<times> ('v regs \<times> (nat \<Rightarrow> 'v)) \<times> 'e \<Rightarrow> bool"
  for sysv fn eff where
  pstep_insn:
    "i < length (fn_insns fn) \<Longrightarrow>
     eff i (map (held fn p) (reads fn i)) e = (x, e', j) \<Longrightarrow>
     next_insn fn i j \<Longrightarrow>
     (\<And>d. writes fn i = Some d \<Longrightarrow> held fn p' d = x) \<Longrightarrow>
     (\<And>c r. \<not> clobbered sysv (fn_insns fn ! i) c r \<Longrightarrow>
        (\<And>d. writes fn i = Some d \<Longrightarrow> \<not> assigned_to fn d c r) \<Longrightarrow> fst p' c r = fst p c r) \<Longrightarrow>
     (\<And>v. writes fn i \<noteq> Some v \<Longrightarrow> snd p' v = snd p v) \<Longrightarrow>
     pstep sysv fn eff (i, p, e) (j, p', e')"

inductive prun ::
  "bool \<Rightarrow> MirFunction \<Rightarrow> ('v, 'e) effect \<Rightarrow> nat \<Rightarrow>
   nat \<times> ('v regs \<times> (nat \<Rightarrow> 'v)) \<times> 'e \<Rightarrow> nat \<times> ('v regs \<times> (nat \<Rightarrow> 'v)) \<times> 'e \<Rightarrow> bool"
  for sysv fn eff where
  prun_none: "prun sysv fn eff 0 s s"
| prun_more: "prun sysv fn eff n s s' \<Longrightarrow> pstep sysv fn eff s' s'' \<Longrightarrow> prun sysv fn eff (Suc n) s s''"

inductive_cases prun_0E: "prun sysv fn eff 0 s s'"
inductive_cases prun_SucE: "prun sysv fn eff (Suc n) s s'"

section \<open>Facts\<close>

lemma reads_valid: "v \<in> set (reads fn i) \<Longrightarrow> v < length (fn_vregs fn)"
  by (auto simp: reads_def mir_verify_valid_def split: if_splits)

lemma writes_valid: "writes fn i = Some d \<Longrightarrow> d < length (fn_vregs fn)"
  by (auto simp: writes_def mir_verify_valid_def split: if_splits)

lemma live_valid: "live_at fn i v \<Longrightarrow> i < length (fn_insns fn) \<and> v < length (fn_vregs fn)"
  by (induction rule: live_at.induct) (auto dest: reads_valid simp: next_insn_def)

lemma label_at_less: "label_at fn name = Some j \<Longrightarrow> j < length (fn_insns fn)"
  by (auto simp: label_at_def find_Some_iff nth_enumerate_eq split: option.splits)

lemma next_insn_less: "next_insn fn i j \<Longrightarrow> j < length (fn_insns fn)"
  by (auto simp: next_insn_def dest: label_at_less [OF sym])

lemma nop_next: "in_op (fn_insns fn ! i) = MIR_NOP \<Longrightarrow> next_insn fn i j \<longleftrightarrow> j = i + 1 \<and> j < length (fn_insns fn)"
  by (auto simp: next_insn_def falls_through_def branch_targets_def is_cond_branch_def)

lemma those_map_Some:
  "those (map f xs) = Some ys \<Longrightarrow> (\<And>x y. x \<in> set xs \<Longrightarrow> f x = Some y \<Longrightarrow> g x = y) \<Longrightarrow> map g xs = ys"
  by (induction xs arbitrary: ys) (auto split: option.splits)

section \<open>Running the assigned machine\<close>

text \<open>The execution on assigned registers that leaves the clobbered registers as they are.\<close>

definition store :: "MirFunction \<Rightarrow> 'v regs \<times> (nat \<Rightarrow> 'v) \<Rightarrow> nat \<Rightarrow> 'v \<Rightarrow> 'v regs \<times> (nat \<Rightarrow> 'v)" where
  "store fn p d x =
    (if vr_in_register (fn_vregs fn ! d)
     then ((\<lambda>c r. if assigned_to fn d c r then x else fst p c r), snd p)
     else (fst p, (snd p)(d := x)))"

definition pexec ::
  "MirFunction \<Rightarrow> ('v, 'e) effect \<Rightarrow> nat \<times> ('v regs \<times> (nat \<Rightarrow> 'v)) \<times> 'e \<Rightarrow>
   (nat \<times> ('v regs \<times> (nat \<Rightarrow> 'v)) \<times> 'e) option" where
  "pexec fn eff s =
    (case s of (i, p, e) \<Rightarrow>
       if length (fn_insns fn) \<le> i then None
       else (case eff i (map (held fn p) (reads fn i)) e of (x, e', j) \<Rightarrow>
               if next_insn fn i j
               then Some (j, (case writes fn i of None \<Rightarrow> p | Some d \<Rightarrow> store fn p d x), e')
               else None))"

fun pexecs ::
  "MirFunction \<Rightarrow> ('v, 'e) effect \<Rightarrow> nat \<Rightarrow> nat \<times> ('v regs \<times> (nat \<Rightarrow> 'v)) \<times> 'e \<Rightarrow>
   (nat \<times> ('v regs \<times> (nat \<Rightarrow> 'v)) \<times> 'e) option" where
  "pexecs fn eff 0 s = Some s"
| "pexecs fn eff (Suc n) s = (case pexecs fn eff n s of None \<Rightarrow> None | Some s' \<Rightarrow> pexec fn eff s')"

lemma held_store: "held fn (store fn p d x) d = x"
  by (simp add: held_def store_def assigned_to_def)

lemma store_other:
  "\<not> assigned_to fn d c r \<Longrightarrow> fst (store fn p d x) c r = fst p c r"
  "v \<noteq> d \<Longrightarrow> snd (store fn p d x) v = snd p v"
  by (simp_all add: store_def)

lemma pexec_pstep: "pexec fn eff s = Some s' \<Longrightarrow> pstep sysv fn eff s s'"
  by (cases s) (auto simp: pexec_def held_store store_other intro!: pstep_insn
      split: if_splits prod.splits option.splits)

lemma pexecs_prun: "pexecs fn eff n s = Some s' \<Longrightarrow> prun sysv fn eff n s s'"
  by (induction n arbitrary: s') (auto intro: prun.intros pexec_pstep split: option.splits)

end
