(* ===== verification/MirVerifyCorrect.thy ===== *)
theory MirVerifyCorrect
  imports MirExec
begin

text \<open>
  The verifier is sound: when it accepts an allocation, running the function with the assigned
  registers computes what running it on virtual registers computes. The proof reads off the accepted
  run three facts: the initialisation has recorded every definition, label and edge; the two analyses
  have ended at solutions of the data-flow equations; the checks hold at every instruction. A
  simulation then carries the values of the live registers along any execution.

  The verifier does not propagate definedness into instruction 0. The theorem has the hypothesis that
  no branch goes there, and an example shows that without it a wrong allocation is accepted.
\<close>

section \<open>What initialisation records\<close>

text \<open>The tables the analyses read, without the predecessor lists.\<close>

definition tables :: "MirVerify \<Rightarrow> nat \<times> nat \<times> bool list \<times> bool list \<times> (string \<times> nat) list" where
  "tables st = (mv_n st, mv_words st, mv_has_def st, mv_mentioned st, mv_labels st)"

lemma tables_eqD:
  "tables st = tables st' \<Longrightarrow>
   mv_n st = mv_n st' \<and> mv_words st = mv_words st' \<and> mv_has_def st = mv_has_def st' \<and>
   mv_mentioned st = mv_mentioned st' \<and> mv_labels st = mv_labels st'"
  by (simp add: tables_def)

lemma find_label_tables: "tables st = tables st' \<Longrightarrow> mir_verify_find_label st = mir_verify_find_label st'"
  by (auto simp: fun_eq_iff mir_verify_find_label_def dest: tables_eqD split: option.splits)

lemma table_targets_tables:
  assumes "tables st = tables st'" shows "table_targets ok st ls = table_targets ok st' ls"
proof
  show "table_targets ok st ls buf = table_targets ok st' ls buf" for buf
    by (induction ls arbitrary: buf)
      (simp_all add: Let_def find_label_tables [OF assms] split: option.split)
qed

lemma successors_tables:
  assumes "tables st = tables st'"
  shows "mir_verify_successors ok fn st i = mir_verify_successors ok fn st' i"
  unfolding mir_verify_successors_def find_label_tables [OF assms] table_targets_tables [OF assms] ..

lemma add_pred_tables: "mir_verify_add_pred ok from st to = Some st' \<Longrightarrow> tables st' = tables st"
  by (auto simp: mir_verify_add_pred_def tables_def Let_def split: if_splits)

lemma add_preds_tables: "add_preds ok from tos st = Some st' \<Longrightarrow> tables st' = tables st"
  by (induction tos arbitrary: st) (auto dest: add_pred_tables split: option.splits)

lemma preds_of_insn_tables: "preds_of_insn ok fn i st = Some st' \<Longrightarrow> tables st' = tables st"
  unfolding preds_of_insn_def by (metis add_preds_tables option.case_eq_if option.distinct(1))

lemma preds_from_tables: "preds_from ok fn is st = Some st' \<Longrightarrow> tables st' = tables st"
  by (induction "is" arbitrary: st) (auto dest: preds_of_insn_tables split: option.splits)

subsection \<open>The scan over the instructions\<close>

abbreviation scanned :: "MirFunction \<Rightarrow> MirVerify" where
  "scanned fn \<equiv> fold scan_insn (enumerate 0 (fn_insns fn)) (verify_fresh fn)"

abbreviation with_entry :: "MirFunction \<Rightarrow> MirVerify \<Rightarrow> MirVerify" where
  "with_entry fn st \<equiv> st\<lparr>mv_has_def := fold (mark (mv_n st)) (entry_vregs fn) (mv_has_def st)\<rparr>"

lemma length_mark [simp]: "length (mark n v xs) = length xs"
  by (simp add: mark_def)

lemma mark_keeps: "xs ! k \<Longrightarrow> mark n v xs ! k"
  by (cases "nat v = k"; cases "k < length xs") (auto simp: mark_def list_update_beyond)

lemma mark_marks: "mir_verify_valid n v \<Longrightarrow> length xs = n \<Longrightarrow> mark n v xs ! nat v"
  by (simp add: mark_def mir_verify_valid_def)

lemma fold_mark_keeps: "xs ! k \<Longrightarrow> fold (mark n) vs xs ! k"
  by (induction vs arbitrary: xs) (auto intro: mark_keeps)

lemma length_fold_mark [simp]: "length (fold (mark n) vs xs) = length xs"
  by (induction vs arbitrary: xs) simp_all

lemma fold_mark_marks:
  "v \<in> set vs \<Longrightarrow> mir_verify_valid n v \<Longrightarrow> length xs = n \<Longrightarrow> fold (mark n) vs xs ! nat v"
  by (induction vs arbitrary: xs) (auto intro: fold_mark_keeps mark_marks)

lemma scan_insn_sizes:
  "mv_n (scan_insn ii st) = mv_n st \<and> mv_words (scan_insn ii st) = mv_words st \<and>
   mv_pred_next (scan_insn ii st) = mv_pred_next st \<and> mv_pred_from (scan_insn ii st) = mv_pred_from st \<and>
   mv_pred_capacity (scan_insn ii st) = mv_pred_capacity st \<and>
   length (mv_has_def (scan_insn ii st)) = length (mv_has_def st)"
  by (cases ii) (simp add: scan_insn_def split: option.split)

lemma scan_sizes:
  "mv_n (fold scan_insn is st) = mv_n st \<and> mv_words (fold scan_insn is st) = mv_words st \<and>
   mv_pred_next (fold scan_insn is st) = mv_pred_next st \<and>
   mv_pred_from (fold scan_insn is st) = mv_pred_from st \<and>
   mv_pred_capacity (fold scan_insn is st) = mv_pred_capacity st \<and>
   length (mv_has_def (fold scan_insn is st)) = length (mv_has_def st)"
  by (induction "is" arbitrary: st) (simp_all add: scan_insn_sizes)

lemma scan_insn_keeps: "mv_has_def st ! k \<Longrightarrow> mv_has_def (scan_insn ii st) ! k"
  by (cases ii) (auto simp: scan_insn_def intro: mark_keeps split: option.split)

lemma scan_keeps: "mv_has_def st ! k \<Longrightarrow> mv_has_def (fold scan_insn is st) ! k"
  by (induction "is" arbitrary: st) (auto intro: scan_insn_keeps)

lemma scan_marks:
  "(i, inst) \<in> set is \<Longrightarrow> label_name inst = None \<Longrightarrow> in_op inst \<noteq> MIR_NOP \<Longrightarrow>
   mir_verify_valid (mv_n st) (mir_verify_def inst) \<Longrightarrow> length (mv_has_def st) = mv_n st \<Longrightarrow>
   mv_has_def (fold scan_insn is st) ! nat (mir_verify_def inst)"
proof (induction "is" arbitrary: st)
  case (Cons a "is")
  show ?case
  proof (cases "a = (i, inst)")
    case True
    then have "mv_has_def (scan_insn a st) ! nat (mir_verify_def inst)"
      using Cons.prems by (simp add: scan_insn_def mark_marks)
    then show ?thesis by (auto intro: scan_keeps)
  next
    case False
    then show ?thesis using Cons.prems Cons.IH [of "scan_insn a st"] by (simp add: scan_insn_sizes)
  qed
qed simp

lemma label_writes_nothing: "label_name inst \<noteq> None \<Longrightarrow> mir_verify_def inst = MIR_VREG_NONE"
  by (auto simp: label_name_def mir_verify_def_def split: if_splits MirOperand.splits)

lemma scan_labels:
  "find (\<lambda>l. fst l = s) (mv_labels (fold scan_insn is st)) =
   (case find (\<lambda>l. fst l = s) (mv_labels st) of
      Some l \<Rightarrow> Some l
    | None \<Rightarrow> map_option (\<lambda>l. (s, fst l)) (find (\<lambda>l. label_name (snd l) = Some s) is))"
proof (induction "is" arbitrary: st)
  case Nil
  then show ?case by (simp split: option.split)
next
  case (Cons a "is")
  obtain i inst where a: "a = (i, inst)" by (cases a)
  have "mv_labels (scan_insn a st) =
      mv_labels st @ (case label_name inst of None \<Rightarrow> [] | Some t \<Rightarrow> [(t, i)])"
    by (simp add: a scan_insn_def split: option.split)
  moreover have "find P (xs @ ys) = (case find P xs of Some x \<Rightarrow> Some x | None \<Rightarrow> find P ys)"
    for P and xs ys :: "(string \<times> nat) list"
    by (induction xs) simp_all
  ultimately show ?case using Cons.IH [of "scan_insn a st"]
    by (auto simp: a split: option.splits)
qed

subsection \<open>Edges\<close>

definition has_edge :: "MirVerify \<Rightarrow> nat \<Rightarrow> nat \<Rightarrow> bool" where
  "has_edge st i j \<longleftrightarrow> j < length (mv_pred_head st) \<and>
     (\<exists>e \<in> set (edges_from (mv_pred_next st) (mv_pred_head st ! j)). mv_pred_from st ! e = i)"

definition preds_wf :: "MirFunction \<Rightarrow> MirVerify \<Rightarrow> bool" where
  "preds_wf fn st \<longleftrightarrow>
     linked (mv_pred_next st) \<and> length (mv_pred_next st) = length (mv_pred_from st) \<and>
     length (mv_pred_head st) = length (fn_insns fn) \<and>
     (\<forall>h \<in> set (mv_pred_head st). -1 \<le> h \<and> h < int (length (mv_pred_next st))) \<and>
     (\<forall>i \<in> set (mv_pred_from st). i < length (fn_insns fn))"

lemma add_pred_step:
  assumes "preds_wf fn st" and "to < length (fn_insns fn)" and "from < length (fn_insns fn)"
    and "mir_verify_add_pred ok from st to = Some st'"
  shows "preds_wf fn st'" and "has_edge st' from to" and "has_edge st i j \<Longrightarrow> has_edge st' i j"
proof -
  let ?nx = "mv_pred_next st" and ?hd = "mv_pred_head st" and ?fr = "mv_pred_from st"
  have st': "mv_pred_next st' = ?nx @ [?hd ! to]" "mv_pred_from st' = ?fr @ [from]"
    "mv_pred_head st' = ?hd[to := int (length ?nx)]"
    using assms(1,4) by (auto simp: mir_verify_add_pred_def Let_def preds_wf_def split: if_splits)
  have wf: "linked ?nx" "length ?nx = length ?fr" "to < length ?hd"
    "-1 \<le> ?hd ! k" "?hd ! k < int (length ?nx)" if "k < length ?hd" for k
    using assms(1,2) that by (auto simp: preds_wf_def)
  have to: "to < length ?hd" using assms(1,2) by (simp add: preds_wf_def)
  note wto = wf [OF to]
  have new: "edges_from (?nx @ [?hd ! to]) (int (length ?nx)) = length ?nx # edges_from ?nx (?hd ! to)"
    by (rule edges_from_new [OF wto(1,5)])
  show "preds_wf fn st'"
    using assms(1,3) to wto linked_snoc [OF wto(1,4,5)]
    by (auto simp: preds_wf_def st' dest!: set_update_subset_insert [THEN subsetD])
      (fastforce+)?
  show "has_edge st' from to"
    using wto(2) new by (auto simp: has_edge_def st' to)
  assume "has_edge st i j"
  then obtain e where e: "e \<in> set (edges_from ?nx (?hd ! j))" "?fr ! e = i" and j: "j < length ?hd"
    by (auto simp: has_edge_def)
  have less: "e < length ?nx" if "h < int (length ?nx)" "e \<in> set (edges_from ?nx h)" for h
    by (rule edges_from_less [OF wto(1) that])
  show "has_edge st' i j"
  proof (cases "j = to")
    case True
    then show ?thesis using e less [OF wto(5)] wto(2) to new
      by (auto simp: has_edge_def st' nth_append intro!: bexI [of _ e])
  next
    case False
    then show ?thesis using e less [OF wf(5) [OF j]] wto(1,2) j edges_from_append [OF wto(1) wf(5) [OF j]]
      by (auto simp: has_edge_def st' nth_append intro!: bexI [of _ e])
  qed
qed

lemma add_preds_step:
  "preds_wf fn st \<Longrightarrow> \<forall>to \<in> set tos. to < length (fn_insns fn) \<Longrightarrow> from < length (fn_insns fn) \<Longrightarrow>
   add_preds ok from tos st = Some st' \<Longrightarrow>
   preds_wf fn st' \<and> (\<forall>to \<in> set tos. has_edge st' from to) \<and> (\<forall>i j. has_edge st i j \<longrightarrow> has_edge st' i j)"
proof (induction tos arbitrary: st)
  case (Cons to tos)
  then obtain st1 where s1: "mir_verify_add_pred ok from st to = Some st1"
    and s2: "add_preds ok from tos st1 = Some st'" by (auto split: option.splits)
  note a = add_pred_step [OF Cons.prems(1) _ Cons.prems(3) s1]
  have to: "to < length (fn_insns fn)" using Cons.prems(2) by simp
  have "preds_wf fn st' \<and> (\<forall>to \<in> set tos. has_edge st' from to) \<and> (\<forall>i j. has_edge st1 i j \<longrightarrow> has_edge st' i j)"
    by (rule Cons.IH [OF a(1) [OF to] _ Cons.prems(3) s2]) (use Cons.prems in auto)
  then show ?case using a(2,3) [OF to] by auto
qed auto

subsection \<open>Successors\<close>

definition labels_ok :: "MirFunction \<Rightarrow> MirVerify \<Rightarrow> bool" where
  "labels_ok fn st \<longleftrightarrow>
     (\<forall>name. mir_verify_find_label st name = (case label_at fn name of None \<Rightarrow> -1 | Some j \<Rightarrow> int j))"

lemma table_targets_set:
  assumes "labels_ok fn st"
  shows "table_targets ok st ls (cap, ts) = Some us \<Longrightarrow>
    (\<forall>l \<in> set ls. label_at fn l \<noteq> None) \<and> us = ts @ map (int \<circ> the \<circ> label_at fn) ls"
proof (induction ls arbitrary: cap ts)
  case (Cons l ls)
  then obtain j where j: "label_at fn l = Some j"
    using assms by (cases "label_at fn l") (auto simp: labels_ok_def)
  then have t: "mir_verify_find_label st l = int j" using assms by (simp add: labels_ok_def)
  then obtain cap' where "table_targets ok st ls (cap', ts @ [int j]) = Some us"
    using Cons.prems by (auto simp: mir_verify_push_table_succ_def Let_def split: if_splits option.splits)
  then show ?case using Cons.IH [of cap' "ts @ [int j]"] j by simp
qed simp

lemma successors_are_next:
  assumes "labels_ok fn st" and "i < length (fn_insns fn)"
    and s: "mir_verify_successors ok fn st i = Some succs"
  shows "set succs = {j. next_insn fn i j}"
proof -
  let ?in = "fn_insns fn ! i"
  have find: "mir_verify_find_label st name = (case label_at fn name of None \<Rightarrow> -1 | Some j \<Rightarrow> int j)" for name
    using assms(1) by (simp add: labels_ok_def)
  show ?thesis
  proof (cases "in_op ?in = OpFlow MIR_JMP_TABLE")
    case True
    then obtain ls us where ls: "in_aux ?in = AuxJumpTable ls"
      and us: "table_targets ok st ls (0, []) = Some us" and succs: "succs = map nat us"
      using s by (auto simp: mir_verify_successors_def Let_def is_cond_branch_def split: MirAux.splits)
    from table_targets_set [OF assms(1) us] have
      "\<forall>l \<in> set ls. label_at fn l \<noteq> None" "us = map (int \<circ> the \<circ> label_at fn) ls" by auto
    then show ?thesis using True assms(2) succs ls
      by (force simp: next_insn_def falls_through_def branch_targets_def is_cond_branch_def image_iff)
  next
    case False
    then show ?thesis using s assms(2)
      by (auto simp: mir_verify_successors_def Let_def find next_insn_def falls_through_def
          branch_targets_def is_cond_branch_def split: if_splits option.splits)
  qed
qed

lemma preds_of_insn_step:
  assumes "labels_ok fn st" and "preds_wf fn st" and i: "i < length (fn_insns fn)"
    and s: "preds_of_insn ok fn i st = Some st'"
  shows "preds_wf fn st' \<and> (\<forall>j. next_insn fn i j \<longrightarrow> has_edge st' i j) \<and>
    (\<forall>k j. has_edge st k j \<longrightarrow> has_edge st' k j)"
proof (cases "in_op (fn_insns fn ! i) = MIR_NOP")
  case True
  let ?tos = "if i + 1 < length (fn_insns fn) then [i + 1] else []"
  have "add_preds ok i ?tos st = Some st'"
    using s True by (simp add: preds_of_insn_def)
  from add_preds_step [OF assms(2) _ i this] show ?thesis using nop_next [OF True] by auto
next
  case False
  then obtain succs where succs: "mir_verify_successors ok fn st i = Some succs"
    and a: "add_preds ok i succs st = Some st'"
    using s by (auto simp: preds_of_insn_def split: option.splits)
  have set: "set succs = {j. next_insn fn i j}" by (rule successors_are_next [OF assms(1) i succs])
  from add_preds_step [OF assms(2) _ i a] show ?thesis unfolding set using next_insn_less by auto
qed

lemma labels_ok_tables: "tables st' = tables st \<Longrightarrow> labels_ok fn st \<Longrightarrow> labels_ok fn st'"
  unfolding labels_ok_def using find_label_tables [of st' st] by simp

lemma labels_ok_same: "mv_labels st' = mv_labels st \<Longrightarrow> labels_ok fn st \<Longrightarrow> labels_ok fn st'"
  unfolding labels_ok_def mir_verify_find_label_def by (simp only: simp_thms)

lemma preds_from_step:
  "labels_ok fn st \<Longrightarrow> preds_wf fn st \<Longrightarrow> \<forall>i \<in> set is. i < length (fn_insns fn) \<Longrightarrow>
   preds_from ok fn is st = Some st' \<Longrightarrow>
   preds_wf fn st' \<and> (\<forall>i \<in> set is. \<forall>j. next_insn fn i j \<longrightarrow> has_edge st' i j) \<and>
   (\<forall>k j. has_edge st k j \<longrightarrow> has_edge st' k j) \<and>
   (\<forall>i \<in> set is. in_op (fn_insns fn ! i) \<noteq> MIR_NOP \<longrightarrow> mir_verify_successors ok fn st i \<noteq> None)"
proof (induction "is" arbitrary: st)
  case (Cons i "is")
  then obtain st1 where s1: "preds_of_insn ok fn i st = Some st1"
    and s2: "preds_from ok fn is st1 = Some st'" by (auto split: option.splits)
  have i: "i < length (fn_insns fn)" using Cons.prems(3) by simp
  note a = preds_of_insn_step [OF Cons.prems(1,2) i s1]
  note t = preds_of_insn_tables [OF s1]
  have b: "preds_wf fn st' \<and> (\<forall>i \<in> set is. \<forall>j. next_insn fn i j \<longrightarrow> has_edge st' i j) \<and>
    (\<forall>k j. has_edge st1 k j \<longrightarrow> has_edge st' k j) \<and>
    (\<forall>i \<in> set is. in_op (fn_insns fn ! i) \<noteq> MIR_NOP \<longrightarrow> mir_verify_successors ok fn st1 i \<noteq> None)"
    by (rule Cons.IH [OF labels_ok_tables [OF t Cons.prems(1)] _ _ s2]) (use a Cons.prems in auto)
  have "in_op (fn_insns fn ! i) \<noteq> MIR_NOP \<Longrightarrow> mir_verify_successors ok fn st i \<noteq> None"
    using s1 by (auto simp: preds_of_insn_def split: option.splits)
  then show ?case using a b successors_tables [OF t] by auto
qed auto


subsection \<open>A verifier that is ready\<close>

definition verify_ready :: "(verify_alloc \<Rightarrow> bool) \<Rightarrow> MirFunction \<Rightarrow> MirVerify \<Rightarrow> bool" where
  "verify_ready ok fn st \<longleftrightarrow>
     mv_n st = length (fn_vregs fn) \<and> mv_words st = (length (fn_vregs fn) + 63) div 64 \<and>
     labels_ok fn st \<and> preds_wf fn st \<and> (\<forall>i j. next_insn fn i j \<longrightarrow> has_edge st i j) \<and>
     (\<forall>i < length (fn_insns fn). in_op (fn_insns fn ! i) \<noteq> MIR_NOP \<longrightarrow>
        mir_verify_successors ok fn st i \<noteq> None) \<and>
     (\<forall>i < length (fn_insns fn). \<forall>d. writes fn i = Some d \<longrightarrow> mv_has_def st ! d) \<and>
     (\<forall>v \<in> set (entry_vregs fn). mir_verify_valid (mv_n st) v \<longrightarrow> mv_has_def st ! nat v)"

lemma scanned_labels_ok: "labels_ok fn (scanned fn)"
  unfolding labels_ok_def mir_verify_find_label_def label_at_def scan_labels
  by (auto simp: verify_fresh_def Let_def split: option.splits)

lemma scanned_has_def:
  assumes "i < length (fn_insns fn)" and "writes fn i = Some d"
  shows "mv_has_def (scanned fn) ! d"
proof -
  let ?in = "fn_insns fn ! i"
  have op: "in_op ?in \<noteq> MIR_NOP" and v: "mir_verify_valid (length (fn_vregs fn)) (mir_verify_def ?in)"
    and d: "d = nat (mir_verify_def ?in)"
    using assms(2) by (auto simp: writes_def split: if_splits)
  have "label_name ?in = None"
    using v label_writes_nothing [of ?in]
    by (cases "label_name ?in") (auto simp: mir_verify_valid_def MIR_VREG_NONE_def)
  moreover have "(i, ?in) \<in> set (enumerate 0 (fn_insns fn))"
    using assms(1) by (auto simp: in_set_enumerate_eq)
  ultimately show ?thesis unfolding d
    using op v by (intro scan_marks) (auto simp: verify_fresh_def Let_def)
qed

lemma scanned_sizes:
  "mv_n (scanned fn) = length (fn_vregs fn)" "mv_words (scanned fn) = (length (fn_vregs fn) + 63) div 64"
  "mv_pred_next (scanned fn) = []" "mv_pred_from (scanned fn) = []"
  "length (mv_has_def (scanned fn)) = length (fn_vregs fn)"
  using scan_sizes [of "enumerate 0 (fn_insns fn)" "verify_fresh fn"]
  by (simp_all add: verify_fresh_def Let_def)

lemma init_ready:
  assumes "mir_verify_init ok fn = InitReady st"
  shows "verify_ready ok fn st"
proof -
  let ?s0 = "(with_entry fn (scanned fn))\<lparr>mv_pred_head := replicate (length (fn_insns fn)) (-1)\<rparr>"
  have p: "preds_from ok fn [0..<length (fn_insns fn)] ?s0 = Some st"
    using assms by (auto simp: mir_verify_init_def mir_verify_build_preds_def Let_def
        split: if_splits option.splits)
  note t = preds_from_tables [OF p]
  have l0: "labels_ok fn ?s0" by (rule labels_ok_same [OF _ scanned_labels_ok]) simp
  have w0: "preds_wf fn ?s0" by (auto simp: preds_wf_def scanned_sizes)
  note q = preds_from_step [OF l0 w0 _ p]
  have h: "mv_has_def st = fold (mark (length (fn_vregs fn))) (entry_vregs fn) (mv_has_def (scanned fn))"
    and n: "mv_n st = length (fn_vregs fn)" "mv_words st = (length (fn_vregs fn) + 63) div 64"
    using tables_eqD [OF t] by (simp_all add: scanned_sizes)
  have "next_insn fn i j \<Longrightarrow> has_edge st i j" for i j
    using q by (auto simp: next_insn_def)
  moreover have "writes fn i = Some d \<Longrightarrow> mv_has_def st ! d" if "i < length (fn_insns fn)" for i d
    using scanned_has_def [OF that] unfolding h by (auto intro: fold_mark_keeps)
  moreover have "mv_has_def st ! nat v" if "v \<in> set (entry_vregs fn)" "mir_verify_valid (mv_n st) v" for v
    unfolding h by (rule fold_mark_marks [OF that(1)]) (use that n scanned_sizes in auto)
  moreover have "mir_verify_successors ok fn st i \<noteq> None"
    if "i < length (fn_insns fn)" "in_op (fn_insns fn ! i) \<noteq> MIR_NOP" for i
    using q that unfolding successors_tables [OF t] by auto
  ultimately show ?thesis
    unfolding verify_ready_def using q n labels_ok_tables [OF t l0] by auto
qed

section \<open>The analyses end at solutions\<close>

definition rows_wf :: "MirFunction \<Rightarrow> MirVerify \<Rightarrow> bits list \<Rightarrow> bool" where
  "rows_wf fn st rows \<longleftrightarrow>
     length rows = length (fn_insns fn) \<and> (\<forall>r \<in> set rows. length r = mv_words st)"

lemma rows_wf_nth: "rows_wf fn st rows \<Longrightarrow> i < length (fn_insns fn) \<Longrightarrow> length (rows ! i) = mv_words st"
  by (simp add: rows_wf_def)

lemma rows_wf_update: "rows_wf fn st rows \<Longrightarrow> length r = mv_words st \<Longrightarrow> rows_wf fn st (rows[i := r])"
  by (auto simp: rows_wf_def dest!: set_update_subset_insert [THEN subsetD])

lemma words_enough: "verify_ready ok fn st \<Longrightarrow> length (fn_vregs fn) \<le> 64 * mv_words st"
  by (auto simp: verify_ready_def)

subsection \<open>Liveness\<close>

definition live_solved :: "(verify_alloc \<Rightarrow> bool) \<Rightarrow> MirFunction \<Rightarrow> MirVerify \<Rightarrow> bits list \<Rightarrow> nat \<Rightarrow> bool" where
  "live_solved ok fn st rows i \<longleftrightarrow>
     (if in_op (fn_insns fn ! i) = MIR_NOP then
        (i + 1 < length (fn_insns fn) \<longrightarrow> rows ! i = rows ! (i + 1))
      else \<exists>out. mir_verify_live_out ok fn st rows i = Some out \<and>
             rows ! i = fold (add_valid (mv_n st)) (mir_verify_uses (fn_insns fn ! i))
                          (clear_valid (mv_n st) (mir_verify_def (fn_insns fn ! i)) out))"

lemma liveness_insn_still:
  "liveness_insn ok fn st i (rows, changed) = Some (rows', False) \<Longrightarrow>
   \<not> changed \<and> rows' = rows \<and> live_solved ok fn st rows i"
  by (auto simp: liveness_insn_def live_solved_def Let_def split: if_splits option.splits)

lemma liveness_insn_changed:
  "liveness_insn ok fn st i (rows, True) = Some (rows', changed') \<Longrightarrow> changed'"
  by (auto simp: liveness_insn_def Let_def split: if_splits option.splits)

lemma liveness_sweep_changed:
  "liveness_sweep ok fn st n (rows, True) = Some (rows', changed') \<Longrightarrow> changed'"
proof (induction n arbitrary: rows)
  case (Suc n)
  then obtain r1 c1 where 1: "liveness_insn ok fn st n (rows, True) = Some (r1, c1)"
    and 2: "liveness_sweep ok fn st n (r1, c1) = Some (rows', changed')"
    by (auto split: option.splits)
  have c1 using liveness_insn_changed [OF 1] .
  then show ?case using 2 Suc.IH [of r1] by simp
qed simp

lemma liveness_sweep_still:
  "liveness_sweep ok fn st n (rows, False) = Some (rows', False) \<Longrightarrow>
   rows' = rows \<and> (\<forall>i < n. live_solved ok fn st rows i)"
proof (induction n arbitrary: rows)
  case (Suc n)
  then obtain r1 c1 where 1: "liveness_insn ok fn st n (rows, False) = Some (r1, c1)"
    and 2: "liveness_sweep ok fn st n (r1, c1) = Some (rows', False)"
    by (auto split: option.splits)
  have "\<not> c1" using 2 liveness_sweep_changed by (cases c1) auto
  then show ?case using 1 2 liveness_insn_still [of ok fn st n rows False r1] Suc.IH [of r1]
    by (auto simp: less_Suc_eq)
qed simp


lemma successors_less:
  assumes "verify_ready ok fn st" and "i < length (fn_insns fn)"
    and "mir_verify_successors ok fn st i = Some succs" and "s \<in> set succs"
  shows "s < length (fn_insns fn)"
  using successors_are_next [OF _ assms(2,3)] assms(1,4) next_insn_less by (auto simp: verify_ready_def)

lemma live_out_members:
  assumes "verify_ready ok fn st" and "rows_wf fn st rows" and i: "i < length (fn_insns fn)"
    and out: "mir_verify_live_out ok fn st rows i = Some out"
  shows "length out = mv_words st" and "members out = (\<Union>j \<in> {j. next_insn fn i j}. members (rows ! j))"
proof -
  obtain succs where s: "mir_verify_successors ok fn st i = Some succs"
    and o: "out = fold (\<lambda>s out. or_words out (rows ! s)) succs (no_bits (mv_words st))"
    using out by (auto simp: mir_verify_live_out_def)
  have "\<forall>s \<in> set succs. length (rows ! s) = length (no_bits (mv_words st))"
    using successors_less [OF assms(1) i s] rows_wf_nth [OF assms(2)] by simp
  note f = members_fold_or [OF this]
  have "set succs = {j. next_insn fn i j}"
    using successors_are_next [OF _ i s] assms(1) by (simp add: verify_ready_def)
  then show "length out = mv_words st" "members out = (\<Union>j \<in> {j. next_insn fn i j}. members (rows ! j))"
    using f by (simp_all add: o)
qed

lemma liveness_insn_wf:
  assumes "verify_ready ok fn st" and "rows_wf fn st rows" and i: "i < length (fn_insns fn)"
    and s: "liveness_insn ok fn st i (rows, changed) = Some (rows', changed')"
  shows "rows_wf fn st rows'"
proof -
  note out = live_out_members(1) [OF assms(1-3)]
  show ?thesis using s rows_wf_nth [OF assms(2)] rows_wf_nth [OF assms(2) i] assms(2) out
    by (auto simp: liveness_insn_def Let_def intro!: rows_wf_update split: if_splits option.splits)
qed

lemma liveness_sweep_wf:
  "verify_ready ok fn st \<Longrightarrow> rows_wf fn st rows \<Longrightarrow> n \<le> length (fn_insns fn) \<Longrightarrow>
   liveness_sweep ok fn st n (rows, changed) = Some (rows', changed') \<Longrightarrow> rows_wf fn st rows'"
proof (induction n arbitrary: rows changed)
  case (Suc n)
  then obtain r1 c1 where 1: "liveness_insn ok fn st n (rows, changed) = Some (r1, c1)"
    and 2: "liveness_sweep ok fn st n (r1, c1) = Some (rows', changed')"
    by (auto split: option.splits)
  have "rows_wf fn st r1" by (rule liveness_insn_wf [OF Suc.prems(1,2) _ 1]) (use Suc.prems in simp)
  then show ?case using Suc.IH [OF Suc.prems(1) _ _ 2] Suc.prems(3) by simp
qed simp

lemma liveness_loop_solved:
  "verify_ready ok fn st \<Longrightarrow> rows_wf fn st rows \<Longrightarrow> liveness_loop ok fn st k rows = Some live \<Longrightarrow>
   rows_wf fn st live \<and> (\<forall>i < length (fn_insns fn). live_solved ok fn st live i)"
proof (induction ok fn st k rows rule: liveness_loop.induct)
  case (1 ok fn st k rows)
  then obtain r1 c1 where k: "\<not> 10000 < k + 1"
    and 2: "liveness_sweep ok fn st (length (fn_insns fn)) (rows, False) = Some (r1, c1)"
    and 3: "(if c1 then liveness_loop ok fn st (k + 1) r1 else Some r1) = Some live"
    by (subst (asm) liveness_loop.simps) (auto split: if_splits option.splits)
  note w = liveness_sweep_wf [OF "1.prems"(1,2) order_refl 2]
  show ?case
  proof (cases c1)
    case True
    then show ?thesis using "1.IH" [OF k 2 refl True "1.prems"(1) w] 3 by simp
  next
    case False
    then show ?thesis using liveness_sweep_still [of ok fn st _ rows r1] 2 3 w by auto
  qed
qed

lemma initial_rows_wf: "rows_wf fn st (replicate (length (fn_insns fn)) (no_bits (mv_words st)))"
  by (simp add: rows_wf_def)

lemma live_solved_row:
  assumes "verify_ready ok fn st" and "rows_wf fn st live" and "i < length (fn_insns fn)"
    and "live_solved ok fn st live i" and op: "in_op (fn_insns fn ! i) \<noteq> MIR_NOP"
  shows "members (live ! i) =
    ((\<Union>j \<in> {j. next_insn fn i j}. members (live ! j)) - set_option (writes fn i)) \<union> set (reads fn i)"
proof -
  obtain out where o: "mir_verify_live_out ok fn st live i = Some out"
    and r: "live ! i = fold (add_valid (mv_n st)) (mir_verify_uses (fn_insns fn ! i))
              (clear_valid (mv_n st) (mir_verify_def (fn_insns fn ! i)) out)"
    using assms(4) op unfolding live_solved_def by auto
  have "mv_n st \<le> 64 * length out" "mv_n st = length (fn_vregs fn)"
    using words_enough [OF assms(1)] live_out_members(1) [OF assms(1-3) o] assms(1)
    by (auto simp: verify_ready_def)
  then show ?thesis using op unfolding r
    by (auto simp: members_fold_add_valid members_clear_valid live_out_members(2) [OF assms(1-3) o]
        reads_def writes_def)
qed

text \<open>The rows contain every register that is live on some path.\<close>

lemma live_rows_cover:
  assumes "verify_ready ok fn st" and wf: "rows_wf fn st live"
    and sol: "\<forall>i < length (fn_insns fn). live_solved ok fn st live i"
  shows "live_at fn i v \<Longrightarrow> v \<in> members (live ! i)"
proof (induction rule: live_at.induct)
  case (live_read i v)
  then have op: "in_op (fn_insns fn ! i) \<noteq> MIR_NOP" by (auto simp: reads_def split: if_splits)
  show ?case using live_solved_row [OF assms(1) wf live_read(1) _ op] sol live_read by auto
next
  case (live_pass i j v)
  have i: "i < length (fn_insns fn)" using live_pass(1) by (simp add: next_insn_def)
  show ?case
  proof (cases "in_op (fn_insns fn ! i) = MIR_NOP")
    case True
    then show ?thesis using live_pass sol i nop_next [OF True] by (auto simp: live_solved_def)
  next
    case False
    then show ?thesis using live_solved_row [OF assms(1) wf i _ False] sol live_pass i
      by auto
  qed
qed

subsection \<open>Definedness\<close>

definition defd_solved :: "MirFunction \<Rightarrow> MirVerify \<Rightarrow> bits list \<Rightarrow> nat \<Rightarrow> nat \<Rightarrow> bool" where
  "defd_solved fn st rows i e \<longleftrightarrow>
     or_words (rows ! i) (mir_verify_defd_out fn st rows (mv_pred_from st ! e)) = rows ! i"

lemma defined_edge_still:
  "defined_edge fn st i e (rows, changed) = (rows', False) \<Longrightarrow>
   \<not> changed \<and> rows' = rows \<and> defd_solved fn st rows i e"
  by (auto simp: defined_edge_def defd_solved_def Let_def)

lemma fold_changed:
  assumes "\<And>x rows. snd (f x (rows, True))"
  shows "snd (fold f xs (rows, True))"
proof (induction xs arbitrary: rows)
  case (Cons x xs)
  then show ?case using assms [of x rows] by (cases "f x (rows, True)") auto
qed simp

lemma fold_still:
  assumes "\<And>x rows. snd (f x (rows, True))"
    and "\<And>x rows rows'. f x (rows, False) = (rows', False) \<Longrightarrow> rows' = rows \<and> P rows x"
  shows "fold f xs (rows, False) = (rows', False) \<Longrightarrow> rows' = rows \<and> (\<forall>x \<in> set xs. P rows x)"
proof (induction xs arbitrary: rows)
  case (Cons x xs)
  obtain r1 c1 where 1: "f x (rows, False) = (r1, c1)" by fastforce
  with Cons.prems have 2: "fold f xs (r1, c1) = (rows', False)" by simp
  have "\<not> c1" using 2 fold_changed [of f xs r1, OF assms(1)] by (cases c1) auto
  then show ?case using 1 2 assms(2) Cons.IH [of r1] by auto
qed simp

lemma defined_edge_changed: "snd (defined_edge fn st i e (rows, True))"
  by (simp add: defined_edge_def Let_def)

lemma defined_insn_changed: "snd (defined_insn fn st i (rows, True))"
  unfolding defined_insn_def by (rule fold_changed) (rule defined_edge_changed)

lemma defined_insn_still:
  "defined_insn fn st i (rows, False) = (rows', False) \<Longrightarrow> rows' = rows \<and>
   (\<forall>e \<in> set (edges_from (mv_pred_next st) (mv_pred_head st ! i)). defd_solved fn st rows i e)"
  unfolding defined_insn_def
  by (rule fold_still [where P = "\<lambda>rows e. defd_solved fn st rows i e"])
    (auto intro: defined_edge_changed dest: defined_edge_still)

lemma defined_sweep_still:
  "defined_sweep fn st rows = (rows', False) \<Longrightarrow> rows' = rows \<and>
   (\<forall>i \<in> {1..<length (fn_insns fn)}.
      \<forall>e \<in> set (edges_from (mv_pred_next st) (mv_pred_head st ! i)). defd_solved fn st rows i e)"
  unfolding defined_sweep_def
  using fold_still [where f = "defined_insn fn st" and xs = "[1..<length (fn_insns fn)]" and
    P = "\<lambda>rows i. \<forall>e \<in> set (edges_from (mv_pred_next st) (mv_pred_head st ! i)). defd_solved fn st rows i e",
    OF defined_insn_changed defined_insn_still]
  by simp

text \<open>The first row is never written, and the shape of the rows is kept.\<close>

definition defd_kept :: "MirFunction \<Rightarrow> MirVerify \<Rightarrow> bits \<Rightarrow> bits list \<times> bool \<Rightarrow> bool" where
  "defd_kept fn st entry s \<longleftrightarrow> rows_wf fn st (fst s) \<and> fst s ! 0 = entry"

lemma length_defd_out:
  "rows_wf fn st rows \<Longrightarrow> i < length (fn_insns fn) \<Longrightarrow>
   length (mir_verify_defd_out fn st rows i) = mv_words st"
  by (simp add: mir_verify_defd_out_def Let_def rows_wf_nth)

lemma defined_edge_kept:
  assumes "preds_wf fn st" and "e < length (mv_pred_from st)" and "0 < i" and "i < length (fn_insns fn)"
    and "defd_kept fn st entry s"
  shows "defd_kept fn st entry (defined_edge fn st i e s)"
proof -
  have "mv_pred_from st ! e < length (fn_insns fn)" using assms(1,2) by (auto simp: preds_wf_def)
  then show ?thesis using assms
    by (cases s) (auto simp: defd_kept_def defined_edge_def Let_def length_defd_out rows_wf_nth
        intro!: rows_wf_update)
qed

lemma fold_kept: "(\<And>x s. x \<in> set xs \<Longrightarrow> K s \<Longrightarrow> K (f x s)) \<Longrightarrow> K s \<Longrightarrow> K (fold f xs s)"
  by (induction xs arbitrary: s) auto

lemma defined_insn_kept:
  assumes "preds_wf fn st" and "0 < i" and "i < length (fn_insns fn)" and "defd_kept fn st entry s"
  shows "defd_kept fn st entry (defined_insn fn st i s)"
  unfolding defined_insn_def
proof (rule fold_kept [where K = "defd_kept fn st entry", OF _ assms(4)])
  fix e s assume e: "e \<in> set (edges_from (mv_pred_next st) (mv_pred_head st ! i))" and k: "defd_kept fn st entry s"
  have "e < length (mv_pred_next st)"
    by (rule edges_from_less [OF _ _ e]) (use assms(1,3) in \<open>auto simp: preds_wf_def\<close>)
  then show "defd_kept fn st entry (defined_edge fn st i e s)"
    using defined_edge_kept [OF assms(1) _ assms(2,3) k] assms(1) by (simp add: preds_wf_def)
qed

lemma defined_sweep_kept:
  assumes "preds_wf fn st" and "defd_kept fn st entry (rows, False)"
  shows "defd_kept fn st entry (defined_sweep fn st rows)"
  unfolding defined_sweep_def
  by (rule fold_kept [where K = "defd_kept fn st entry", OF _ assms(2)]) (auto intro: defined_insn_kept [OF assms(1)])

lemma defined_loop_solved:
  "preds_wf fn st \<Longrightarrow> defd_kept fn st entry (rows, False) \<Longrightarrow> defined_loop fn st k rows = Some defd \<Longrightarrow>
   rows_wf fn st defd \<and> defd ! 0 = entry \<and>
   (\<forall>i \<in> {1..<length (fn_insns fn)}.
      \<forall>e \<in> set (edges_from (mv_pred_next st) (mv_pred_head st ! i)). defd_solved fn st defd i e)"
proof (induction fn st k rows rule: defined_loop.induct)
  case (1 fn st k rows)
  obtain r1 c1 where 2: "defined_sweep fn st rows = (r1, c1)" by fastforce
  have k: "\<not> 10000 < k + 1" and 3: "(if c1 then defined_loop fn st (k + 1) r1 else Some r1) = Some defd"
    using "1.prems"(3) 2 by (auto simp: defined_loop.simps [of fn st k rows] split: if_splits)
  have w: "defd_kept fn st entry (r1, c1)" using defined_sweep_kept [OF "1.prems"(1,2)] 2 by simp
  show ?case
  proof (cases c1)
    case True
    have "defd_kept fn st entry (r1, False)" using w by (simp add: defd_kept_def)
    then show ?thesis using "1.IH" [OF k 2 [symmetric] True "1.prems"(1)] 3 True by simp
  next
    case False
    then show ?thesis using defined_sweep_still [of fn st rows r1] 2 3 w by (auto simp: defd_kept_def)
  qed
qed


lemma defd_rows_flow:
  assumes r: "verify_ready ok fn st" and wf: "rows_wf fn st defd"
    and sol: "\<forall>i \<in> {1..<length (fn_insns fn)}.
      \<forall>e \<in> set (edges_from (mv_pred_next st) (mv_pred_head st ! i)). defd_solved fn st defd i e"
    and n: "next_insn fn i j" and "j \<noteq> 0"
  shows "members (defd ! i) \<union> set_option (writes fn i) \<subseteq> members (defd ! j)"
proof -
  have i: "i < length (fn_insns fn)" using n by (simp add: next_insn_def)
  note j = next_insn_less [OF n]
  have "has_edge st i j" using r n by (simp add: verify_ready_def)
  then have "or_words (defd ! j) (mir_verify_defd_out fn st defd i) = defd ! j"
    using sol j \<open>j \<noteq> 0\<close> by (auto simp: has_edge_def defd_solved_def)
  moreover have "members (or_words (defd ! j) (mir_verify_defd_out fn st defd i)) =
      members (defd ! j) \<union> members (mir_verify_defd_out fn st defd i)"
    by (rule members_or_words) (simp add: rows_wf_nth [OF wf j] length_defd_out [OF wf i])
  ultimately have "members (mir_verify_defd_out fn st defd i) \<subseteq> members (defd ! j)" by auto
  moreover have "members (mir_verify_defd_out fn st defd i) = members (defd ! i) \<union> set_option (writes fn i)"
    using words_enough [OF r] r rows_wf_nth [OF wf i]
    by (auto simp: mir_verify_defd_out_def Let_def writes_def members_add_valid verify_ready_def)
  ultimately show ?thesis by simp
qed

lemma compute_defined_solved:
  assumes r: "verify_ready ok fn st" and "fn_insns fn \<noteq> []" and d: "mir_verify_compute_defined fn st = Some defd"
  shows "rows_wf fn st defd"
    and "v \<in> set (entry_vregs fn) \<Longrightarrow> mir_verify_valid (mv_n st) v \<Longrightarrow> nat v \<in> members (defd ! 0)"
    and "next_insn fn i j \<Longrightarrow> j \<noteq> 0 \<Longrightarrow> members (defd ! i) \<union> set_option (writes fn i) \<subseteq> members (defd ! j)"
proof -
  let ?rows = "replicate (length (fn_insns fn)) (no_bits (mv_words st))"
  let ?entry = "fold (add_valid (mv_n st)) (entry_vregs fn) (no_bits (mv_words st))"
  have l: "defined_loop fn st 0 (?rows[0 := ?entry]) = Some defd"
    using d assms(2) by (simp add: mir_verify_compute_defined_def)
  have k: "defd_kept fn st ?entry (?rows[0 := ?entry], False)"
    using assms(2) by (auto simp: defd_kept_def initial_rows_wf intro!: rows_wf_update)
  have p: "preds_wf fn st" using r by (simp add: verify_ready_def)
  note s = defined_loop_solved [OF p k l]
  show "rows_wf fn st defd" using s by simp
  show "nat v \<in> members (defd ! 0)" if "v \<in> set (entry_vregs fn)" "mir_verify_valid (mv_n st) v"
    using s that words_enough [OF r] r by (auto simp: members_fold_add_valid verify_ready_def)
  show "members (defd ! i) \<union> set_option (writes fn i) \<subseteq> members (defd ! j)"
    if "next_insn fn i j" "j \<noteq> 0"
    by (rule defd_rows_flow [OF r _ _ that]) (use s in auto)
qed

section \<open>What the checks establish\<close>

lemma first_failure_None: "first_failure f xs = None \<longleftrightarrow> (\<forall>x \<in> set xs. f x = None)"
  by (induction xs) (auto split: option.split)

lemma gp_mask_bit: "m AND push_bit (nat r) 1 \<noteq> 0 \<longleftrightarrow> bit (m :: u32) (nat r)"
  using mask_has_gp [of m r] by (simp add: MIR_GP_BIT_def)

text \<open>A live value that passes the check keeps its register.\<close>

lemma check_live_value_kept:
  assumes r: "verify_ready ok fn st" and i: "i < length (fn_insns fn)"
    and op: "in_op (fn_insns fn ! i) \<noteq> MIR_NOP"
    and c: "check_live_value sysv fn st i v = None" and v: "v < length (fn_vregs fn)" "mv_has_def st ! v"
    and a: "assigned_to fn v cl ph" and w: "writes fn i \<noteq> Some v"
  shows "\<not> clobbered sysv (fn_insns fn ! i) cl ph" and "writes fn i = Some d \<Longrightarrow> \<not> assigned_to fn d cl ph"
proof -
  let ?in = "fn_insns fn ! i" and ?def = "mir_verify_def (fn_insns fn ! i)"
  have n: "mv_n st = length (fn_vregs fn)" using r by (simp add: verify_ready_def)
  have ne: "int v \<noteq> ?def" using w v(1) op by (auto simp: writes_def mir_verify_valid_def split: if_splits)
  have reg: "vr_in_register (fn_vregs fn ! v)" "vr_rclass (fn_vregs fn ! v) = cl" "vr_phys (fn_vregs fn ! v) = ph"
    using a by (simp_all add: assigned_to_def)
  note chk = c [unfolded check_live_value_def Let_def]
  show "\<not> clobbered sysv ?in cl ph"
    using chk v n ne reg by (auto simp: clobbered_def gp_mask_bit simp del: push_bit_of_1 split: if_splits)
  show "\<not> assigned_to fn d cl ph" if d: "writes fn i = Some d"
  proof
    assume "assigned_to fn d cl ph"
    moreover have "mir_verify_valid (mv_n st) ?def" "nat ?def = d"
      using d n by (auto simp: writes_def split: if_splits)
    moreover have "mv_has_def st ! d" using r i d by (simp add: verify_ready_def)
    ultimately show False using chk v n ne reg by (auto simp: assigned_to_def split: if_splits)
  qed
qed


definition sound_rows :: "bool \<Rightarrow> MirFunction \<Rightarrow> MirVerify \<Rightarrow> bits list \<Rightarrow> bool" where
  "sound_rows sysv fn st defd \<longleftrightarrow>
     (\<forall>i j v. next_insn fn i j \<longrightarrow> live_at fn j v \<longrightarrow> v \<in> members (defd ! i) \<longrightarrow>
        in_op (fn_insns fn ! i) \<noteq> MIR_NOP \<longrightarrow> check_live_value sysv fn st i v = None)"

lemma accepted_rows:
  assumes init: "mir_verify_init ok fn = InitReady st" and acc: "fst (mir_regalloc_verify ok sysv fn)"
    and ne: "fn_vregs fn \<noteq> []" "fn_insns fn \<noteq> []"
  obtains live defd where "mir_verify_compute_liveness ok fn st = Some live"
    and "mir_verify_compute_defined fn st = Some defd"
    and "mir_verify_check_entry fn st live defd = None"
    and "\<forall>i < length (fn_insns fn). mir_verify_check_insn ok sysv fn st live defd i = None"
proof -
  obtain live defd where an: "mir_verify_analyse ok fn st = Some (live, defd)"
    and e: "mir_verify_check_entry fn st live defd = None"
    and c: "first_failure (mir_verify_check_insn ok sysv fn st live defd) [0..<length (fn_insns fn)] = None"
    using acc init ne by (auto simp: mir_regalloc_verify_def fail_on_def split: option.splits)
  show ?thesis
    by (rule that [of live defd])
      (use an e c in \<open>auto simp: mir_verify_analyse_def first_failure_None split: option.splits\<close>)
qed

lemma liveness_solved:
  assumes "verify_ready ok fn st" and "mir_verify_compute_liveness ok fn st = Some live"
  shows "rows_wf fn st live" and "live_at fn i v \<Longrightarrow> v \<in> members (live ! i)"
proof -
  note s = liveness_loop_solved [OF assms(1) initial_rows_wf assms(2) [unfolded mir_verify_compute_liveness_def]]
  show "rows_wf fn st live" using s by simp
  show "live_at fn i v \<Longrightarrow> v \<in> members (live ! i)" using live_rows_cover [OF assms(1)] s by blast
qed

lemma accepted_sound_rows:
  assumes r: "verify_ready ok fn st" and live: "mir_verify_compute_liveness ok fn st = Some live"
    and wd: "rows_wf fn st defd"
    and chk: "\<forall>i < length (fn_insns fn). mir_verify_check_insn ok sysv fn st live defd i = None"
  shows "sound_rows sysv fn st defd"
  unfolding sound_rows_def
proof (intro allI impI)
  fix i j v
  assume n: "next_insn fn i j" and l: "live_at fn j v" and d: "v \<in> members (defd ! i)"
    and op: "in_op (fn_insns fn ! i) \<noteq> MIR_NOP"
  have i: "i < length (fn_insns fn)" using n by (simp add: next_insn_def)
  note wl = liveness_solved(1) [OF r live]
  obtain out where o: "mir_verify_live_out ok fn st live i = Some out"
    and f: "\<forall>v \<in> members (and_words out (defd ! i)). check_live_value sysv fn st i v = None"
    using chk i op
    by (fastforce simp: mir_verify_check_insn_def first_failure_None set_member_loop split: option.splits)
  have "v \<in> members out"
    using live_out_members(2) [OF r wl i o] n liveness_solved(2) [OF r live l] by auto
  moreover have "length out = length (defd ! i)"
    using live_out_members(1) [OF r wl i o] rows_wf_nth [OF wd i] by simp
  ultimately show "check_live_value sysv fn st i v = None" using d f by (simp add: members_and_words)
qed

section \<open>Simulation\<close>

definition agrees :: "MirFunction \<Rightarrow> nat \<Rightarrow> (nat \<rightharpoonup> 'v) \<Rightarrow> 'v regs \<times> (nat \<Rightarrow> 'v) \<Rightarrow> bool" where
  "agrees fn i V p \<longleftrightarrow> (\<forall>v x. live_at fn i v \<longrightarrow> V v = Some x \<longrightarrow> held fn p v = x)"

definition defined_within :: "MirFunction \<Rightarrow> MirVerify \<Rightarrow> bits list \<Rightarrow> nat \<Rightarrow> (nat \<rightharpoonup> 'v) \<Rightarrow> bool" where
  "defined_within fn st defd i V \<longleftrightarrow>
     (\<forall>v \<in> dom V. v < length (fn_vregs fn) \<and> mv_has_def st ! v \<and> v \<in> members (defd ! i))"

lemma held_kept:
  assumes r: "verify_ready ok fn st" and s: "sound_rows sysv fn st defd"
    and p: "pstep sysv fn eff (i, p, e) (j, p', e')"
    and v: "live_at fn j v" "v < length (fn_vregs fn)" "mv_has_def st ! v" "v \<in> members (defd ! i)"
    and w: "writes fn i \<noteq> Some v"
  shows "held fn p' v = held fn p v"
proof -
  from p have n: "next_insn fn i j" and i: "i < length (fn_insns fn)"
    and keep: "\<And>c r. \<not> clobbered sysv (fn_insns fn ! i) c r \<Longrightarrow>
        (\<And>d. writes fn i = Some d \<Longrightarrow> \<not> assigned_to fn d c r) \<Longrightarrow> fst p' c r = fst p c r"
    and mem: "\<And>v. writes fn i \<noteq> Some v \<Longrightarrow> snd p' v = snd p v"
    by (auto elim!: pstep.cases)
  show ?thesis
  proof (cases "vr_in_register (fn_vregs fn ! v)")
    case False
    then show ?thesis using mem [OF w] by (simp add: held_def)
  next
    case True
    let ?c = "vr_rclass (fn_vregs fn ! v)" and ?r = "vr_phys (fn_vregs fn ! v)"
    have a: "assigned_to fn v ?c ?r" using True by (simp add: assigned_to_def)
    have "fst p' ?c ?r = fst p ?c ?r"
    proof (cases "in_op (fn_insns fn ! i) = MIR_NOP")
      case True
      then show ?thesis by (intro keep) (simp_all add: clobbered_def writes_def)
    next
      case False
      have "check_live_value sysv fn st i v = None" using s n v False by (auto simp: sound_rows_def)
      note k = check_live_value_kept [OF r i False this v(2,3) a w]
      show ?thesis using keep k by blast
    qed
    then show ?thesis using True by (simp add: held_def)
  qed
qed

lemma simulation_step:
  assumes r: "verify_ready ok fn st" and s: "sound_rows sysv fn st defd"
    and flow: "\<And>i j. next_insn fn i j \<Longrightarrow> j \<noteq> 0 \<Longrightarrow>
      members (defd ! i) \<union> set_option (writes fn i) \<subseteq> members (defd ! j)"
    and entry: "\<forall>i. \<not> next_insn fn i 0"
    and a: "agrees fn i V p" and d: "defined_within fn st defd i V"
    and vs: "vstep fn eff (i, V, e) = Some (j, V', e1)"
    and ps: "pstep sysv fn eff (i, p, e) (j2, p', e2)"
  shows "j2 = j \<and> e2 = e1 \<and> agrees fn j V' p' \<and> defined_within fn st defd j V'"
proof -
  obtain xs x where i: "i < length (fn_insns fn)" and xs: "those (map V (reads fn i)) = Some xs"
    and eff: "eff i xs e = (x, e1, j)" and n: "next_insn fn i j"
    and V': "V' = (case writes fn i of None \<Rightarrow> V | Some d \<Rightarrow> V(d \<mapsto> x))"
    using vs by (auto simp: vstep_def split: if_splits option.splits prod.splits)
  have "map (held fn p) (reads fn i) = xs"
    by (rule those_map_Some [OF xs]) (use a i in \<open>auto simp: agrees_def intro: live_read\<close>)
  with ps eff have same: "j2 = j" "e2 = e1" and res: "\<And>d. writes fn i = Some d \<Longrightarrow> held fn p' d = x"
    by (auto elim!: pstep.cases)
  have ps': "pstep sysv fn eff (i, p, e) (j, p', e1)" using ps same by simp
  have "agrees fn j V' p'"
    unfolding agrees_def
  proof (intro allI impI)
    fix v y assume l: "live_at fn j v" and y: "V' v = Some y"
    show "held fn p' v = y"
    proof (cases "writes fn i = Some v")
      case True
      then show ?thesis using y res V' by auto
    next
      case False
      then have Vv: "V v = Some y" using y V' by (auto split: option.splits if_splits)
      then have dv: "v < length (fn_vregs fn)" "mv_has_def st ! v" "v \<in> members (defd ! i)"
        using d by (auto simp: defined_within_def)
      have "held fn p' v = held fn p v" by (rule held_kept [OF r s ps' l dv False])
      moreover have "live_at fn i v" by (rule live_pass [OF n l False])
      ultimately show ?thesis using a Vv by (auto simp: agrees_def)
    qed
  qed
  moreover have "defined_within fn st defd j V'"
  proof -
    have "j \<noteq> 0" using entry n by metis
    note f = flow [OF n this]
    show ?thesis using d f V' writes_valid [of fn i] r i
      by (fastforce simp: defined_within_def verify_ready_def split: option.splits if_splits)
  qed
  ultimately show ?thesis using same by simp
qed

text \<open>
  The entry: parameters and the result pointer are defined, nothing else.
\<close>

definition entry_values :: "MirFunction \<Rightarrow> (nat \<rightharpoonup> 'v) \<Rightarrow> bool" where
  "entry_values fn V \<longleftrightarrow>
     (\<forall>v \<in> dom V. int v \<in> set (entry_vregs fn) \<and> v < length (fn_vregs fn))"

lemma simulation_run:
  assumes r: "verify_ready ok fn st" and s: "sound_rows sysv fn st defd"
    and flow: "\<And>i j. next_insn fn i j \<Longrightarrow> j \<noteq> 0 \<Longrightarrow>
      members (defd ! i) \<union> set_option (writes fn i) \<subseteq> members (defd ! j)"
    and entry: "\<forall>i. \<not> next_insn fn i 0"
    and a: "agrees fn 0 V0 p0" and d: "defined_within fn st defd 0 V0"
  shows "vrun fn eff n (0, V0, e0) = Some (i, V, e) \<Longrightarrow> prun sysv fn eff n (0, p0, e0) (i', p, e') \<Longrightarrow>
    i' = i \<and> e' = e \<and> agrees fn i V p \<and> defined_within fn st defd i V"
proof (induction n arbitrary: i V e i' p e')
  case 0
  then show ?case using a d by (auto elim: prun_0E)
next
  case (Suc n)
  obtain i1 V1 e1 where v1: "vrun fn eff n (0, V0, e0) = Some (i1, V1, e1)"
    and v2: "vstep fn eff (i1, V1, e1) = Some (i, V, e)"
    using Suc.prems(1) by (auto split: option.splits)
  obtain i2 p2 e2 where p1: "prun sysv fn eff n (0, p0, e0) (i2, p2, e2)"
    and p2: "pstep sysv fn eff (i2, p2, e2) (i', p, e')"
    using Suc.prems(2) by (auto elim: prun_SucE)
  from Suc.IH [OF v1 p1] have "i2 = i1" "e2 = e1" "agrees fn i1 V1 p2" "defined_within fn st defd i1 V1"
    by simp_all
  then show ?case using simulation_step [OF r s flow entry _ _ v2] p2 by blast
qed



section \<open>Entry\<close>

lemma entry_check_distinct:
  assumes "mir_verify_check_entry fn st live defd = None" and "a < mv_n st" and "b < mv_n st" and "a \<noteq> b"
    and "entry_candidate st live defd a" and "entry_candidate st live defd b"
    and "assigned_to fn a c r" shows "\<not> assigned_to fn b c r"
proof -
  have "\<not> assigned_to fn y c r" if "x < y" "y < mv_n st" "entry_candidate st live defd x"
    "entry_candidate st live defd y" "assigned_to fn x c r" for x y
    using assms(1) that
    by (fastforce simp: mir_verify_check_entry_def first_failure_None assigned_to_def Let_def split: if_splits)
  then show ?thesis using assms(2-) by (metis linorder_neqE_nat)
qed

text \<open>The entry of an accepted function can be set up: whatever values the parameters and the result
  pointer have, there is a content of the registers and frame slots in which every one of them that is
  live at the entry is in its assigned place, because no two of those share a register.
\<close>

theorem entry_values_placeable:
  assumes "mir_verify_init ok fn = InitReady st" and "fst (mir_regalloc_verify ok sysv fn)"
    and "fn_vregs fn \<noteq> []" and "fn_insns fn \<noteq> []" and "entry_values fn V0"
  shows "\<exists>p0. agrees fn 0 V0 p0"
proof -
  note r = init_ready [OF assms(1)]
  obtain live defd where live: "mir_verify_compute_liveness ok fn st = Some live"
    and defd: "mir_verify_compute_defined fn st = Some defd"
    and chk: "mir_verify_check_entry fn st live defd = None"
    by (rule accepted_rows [OF assms(1-4)])
  note dd = compute_defined_solved [OF r assms(4) defd]
  let ?ok = "\<lambda>v. live_at fn 0 v \<and> v \<in> dom V0"
  have cand: "v < mv_n st \<and> entry_candidate st live defd v" if "?ok v" for v
  proof -
    have v: "int v \<in> set (entry_vregs fn)" "v < mv_n st"
      using that assms(5) r by (auto simp: entry_values_def verify_ready_def)
    then have valid: "mir_verify_valid (mv_n st) (int v)" by (simp add: mir_verify_valid_def)
    have small: "v < 64 * mv_words st" using v(2) words_enough [OF r] r by (auto simp: verify_ready_def)
    have "v \<in> members (defd ! 0)" "v \<in> members (live ! 0)"
      using dd(2) [OF v(1) valid] liveness_solved(2) [OF r live] that by auto
    moreover have "mv_has_def st ! v" using r v(1) valid unfolding verify_ready_def by (metis nat_int)
    ultimately show ?thesis using v(2) by (simp add: entry_candidate_def members_def)
  qed
  define R where "R c ph = the (V0 (SOME v. ?ok v \<and> assigned_to fn v c ph))" for c ph
  have "held fn (R, the \<circ> V0) v = x" if "live_at fn 0 v" "V0 v = Some x" for v x
  proof (cases "vr_in_register (fn_vregs fn ! v)")
    case True
    let ?c = "vr_rclass (fn_vregs fn ! v)" and ?r = "vr_phys (fn_vregs fn ! v)"
    have v: "?ok v" "assigned_to fn v ?c ?r" using that True by (auto simp: assigned_to_def)
    have "(SOME w. ?ok w \<and> assigned_to fn w ?c ?r) = v"
      by (rule some_equality) (use v cand entry_check_distinct [OF chk] in blast)+
    then show ?thesis using True that(2) by (simp add: held_def R_def)
  qed (use that in \<open>simp add: held_def\<close>)
  then show ?thesis unfolding agrees_def by blast
qed

section \<open>The analyses do not look at the assignment\<close>

abbreviation recoloured :: "MirFunction \<Rightarrow> MirVreg list \<Rightarrow> MirFunction" where
  "recoloured fn vs \<equiv> fn\<lparr>fn_vregs := vs\<rparr>"

lemma successors_recoloured [simp]:
  "mir_verify_successors ok (recoloured fn vs) st i = mir_verify_successors ok fn st i"
  by (simp add: mir_verify_successors_def)

lemma live_out_recoloured [simp]:
  "mir_verify_live_out ok (recoloured fn vs) st rows i = mir_verify_live_out ok fn st rows i"
  by (simp add: mir_verify_live_out_def)

lemma preds_recoloured [simp]: "preds_from ok (recoloured fn vs) is st = preds_from ok fn is st"
  by (induction "is" arbitrary: st) (simp_all add: preds_of_insn_def split: option.split)

lemma entry_vregs_recoloured [simp]: "entry_vregs (recoloured fn vs) = entry_vregs fn"
  by (simp add: entry_vregs_def)

lemma init_recoloured:
  "length vs = length (fn_vregs fn) \<Longrightarrow> mir_verify_init ok (recoloured fn vs) = mir_verify_init ok fn"
  by (simp add: mir_verify_init_def mir_verify_build_preds_def verify_fresh_def Let_def)

lemma liveness_insn_recoloured [simp]: "liveness_insn ok (recoloured fn vs) st i s = liveness_insn ok fn st i s"
  by (cases s) (simp add: liveness_insn_def Let_def)

lemma liveness_recoloured [simp]:
  "liveness_sweep ok (recoloured fn vs) st n s = liveness_sweep ok fn st n s"
  by (induction n arbitrary: s) (simp_all split: option.split)

lemma liveness_loop_recoloured [simp]:
  "liveness_loop ok (recoloured fn vs) st k rows = liveness_loop ok fn st k rows"
proof (induction ok fn st k rows rule: liveness_loop.induct)
  case (1 ok fn st k rows)
  show ?case
    by (subst (1 2) liveness_loop.simps) (use 1 in \<open>auto split: option.splits\<close>)
qed

lemma defined_recoloured [simp]: "defined_sweep (recoloured fn vs) st rows = defined_sweep fn st rows"
proof -
  have "defined_edge (recoloured fn vs) st = defined_edge fn st"
    by (simp add: fun_eq_iff defined_edge_def mir_verify_defd_out_def)
  then show ?thesis by (simp add: defined_sweep_def defined_insn_def [abs_def])
qed

lemma defined_loop_recoloured [simp]:
  "defined_loop (recoloured fn vs) st k rows = defined_loop fn st k rows"
proof (induction fn st k rows rule: defined_loop.induct)
  case (1 fn st k rows)
  show ?case
    by (subst (1 2) defined_loop.simps) (use 1 in \<open>auto split: prod.splits\<close>)
qed

lemma analyse_recoloured [simp]: "mir_verify_analyse ok (recoloured fn vs) st = mir_verify_analyse ok fn st"
  by (simp add: mir_verify_analyse_def mir_verify_compute_liveness_def mir_verify_compute_defined_def
      split: option.split)

section \<open>A corrupted colouring is rejected\<close>

lemma sabotage_scan_Some: "sabotage_scan f is = Some (i, v) \<Longrightarrow> i \<in> set is \<and> f i = Some v"
  by (induction "is") (auto split: option.splits)

lemma sabotage_pairE:
  assumes "sabotage_pair ok fn st live defd i = Some v"
  obtains out d where "in_op (fn_insns fn ! i) \<noteq> MIR_NOP" and "writes fn i = Some d \<or> mv_n st \<noteq> length (fn_vregs fn)"
    and "mir_verify_def (fn_insns fn ! i) = int d" and "d < mv_n st" and "vr_in_register (fn_vregs fn ! d)"
    and "mir_verify_live_out ok fn st live i = Some out"
    and "v < mv_n st" and "v \<noteq> d" and "mv_has_def st ! v" and "vr_in_register (fn_vregs fn ! v)"
    and "vr_rclass (fn_vregs fn ! v) = vr_rclass (fn_vregs fn ! d)"
    and "mir_cfg_set_get out v" and "mir_cfg_set_get (defd ! i) v"
proof -
  let ?def = "mir_verify_def (fn_insns fn ! i)"
  have "in_op (fn_insns fn ! i) \<noteq> MIR_NOP" "mir_verify_valid (mv_n st) ?def"
    "vr_in_register (fn_vregs fn ! nat ?def)"
    using assms by (auto simp: sabotage_pair_def Let_def split: if_splits)
  moreover obtain out where "mir_verify_live_out ok fn st live i = Some out"
    using assms by (auto simp: sabotage_pair_def Let_def split: if_splits option.splits)
  ultimately show thesis using assms that [of "nat ?def" out]
    by (fastforce simp: sabotage_pair_def Let_def find_Some_iff mir_verify_valid_def writes_def)
qed

text \<open>C2. The self-test of the verifier works: whenever \<open>mir_regalloc_verify_sabotage\<close> changes a
  function, the verifier rejects the result and marks the function with an error.
\<close>

theorem sabotage_rejected:
  assumes "mir_regalloc_verify_sabotage ok fn = fn'" and "fn' \<noteq> fn" and "fn_vregs fn \<noteq> []"
  shows "\<exists>e. mir_regalloc_verify ok sysv fn' = (False, fn'\<lparr>fn_has_error := True\<rparr>, Some e)"
proof -
  obtain st live defd i v where init: "mir_verify_init ok fn = InitReady st"
    and an: "mir_verify_analyse ok fn st = Some (live, defd)"
    and sc: "sabotage_scan (sabotage_pair ok fn st live defd) [0..<length (fn_insns fn)] = Some (i, v)"
    using assms(1,2) by (auto simp: mir_regalloc_verify_sabotage_def split: init_result.splits option.splits)
  have i: "i < length (fn_insns fn)" and pair: "sabotage_pair ok fn st live defd i = Some v"
    using sabotage_scan_Some [OF sc] by auto
  note r = init_ready [OF init]
  have n: "mv_n st = length (fn_vregs fn)" "length (fn_vregs fn) \<le> 64 * mv_words st"
    using r words_enough [OF r] by (auto simp: verify_ready_def)
  obtain out d where p: "in_op (fn_insns fn ! i) \<noteq> MIR_NOP" "writes fn i = Some d \<or> mv_n st \<noteq> length (fn_vregs fn)"
    "mir_verify_def (fn_insns fn ! i) = int d" "d < mv_n st" "vr_in_register (fn_vregs fn ! d)"
    "mir_verify_live_out ok fn st live i = Some out" "v < mv_n st" "v \<noteq> d" "mv_has_def st ! v"
    "vr_in_register (fn_vregs fn ! v)" "vr_rclass (fn_vregs fn ! v) = vr_rclass (fn_vregs fn ! d)"
    "mir_cfg_set_get out v" "mir_cfg_set_get (defd ! i) v"
    using pair by (rule sabotage_pairE)
  define vs where "vs = (fn_vregs fn)[d := (fn_vregs fn ! d)\<lparr>vr_phys := vr_phys (fn_vregs fn ! v)\<rparr>]"
  have fn': "fn' = recoloured fn vs"
    using assms(1) init an sc p(3) by (simp add: mir_regalloc_verify_sabotage_def vs_def)
  have live: "mir_verify_compute_liveness ok fn st = Some live" and defd: "mir_verify_compute_defined fn st = Some defd"
    using an by (auto simp: mir_verify_analyse_def split: option.splits)
  have ne: "fn_insns fn \<noteq> []" using i by auto
  note wl = liveness_solved(1) [OF r live] and wd = compute_defined_solved(1) [OF r ne defd]
  have "length out = mv_words st" "length (defd ! i) = mv_words st"
    using live_out_members(1) [OF r wl i p(6)] rows_wf_nth [OF wd i] by auto
  then have mem: "v \<in> members (and_words out (defd ! i))"
    using p(7,12,13) n by (subst members_and_words) (auto simp: members_def)
  have "mv_has_def st ! d" using r i p(2) n by (auto simp: verify_ready_def)
  then have "check_live_value sysv fn' st i v \<noteq> None"
    using p n by (simp add: check_live_value_def fn' vs_def mir_verify_valid_def Let_def)
  then have "mir_verify_check_insn ok sysv fn' st live defd i \<noteq> None"
    using mem p(1,6)
    by (auto simp: mir_verify_check_insn_def fn' first_failure_None set_member_loop)
  then have ff: "first_failure (mir_verify_check_insn ok sysv fn' st live defd) [0..<length (fn_insns fn)] \<noteq> None"
    using i by (auto simp: first_failure_None simp del: not_None_eq)
  have "mir_verify_init ok fn' = InitReady st" "mir_verify_analyse ok fn' st = Some (live, defd)"
    "fn_insns fn' = fn_insns fn" "fn_vregs fn' \<noteq> []" "fn_insns fn \<noteq> []"
    using init an assms(3) i by (auto simp: fn' init_recoloured vs_def)
  then show ?thesis using ff by (auto simp: mir_regalloc_verify_def fail_on_def split: option.splits)
qed


section \<open>What is accepted without being checked\<close>

text \<open>
  A function with a branch to a name that is not one of its labels is accepted whatever its
  colouring is: building the predecessor lists fails, and a failed initialisation counts as a success.
  The message of \<open>mir_verify_check_insn\<close> for that case is never produced.
\<close>

theorem unresolved_branch_accepted:
  assumes "i < length (fn_insns fn)"
    and "in_op (fn_insns fn ! i) = OpFlow MIR_JMP \<or> is_cond_branch (in_op (fn_insns fn ! i))"
    and "label_at fn (op_sym (in_dst (fn_insns fn ! i))) = None"
  shows "mir_regalloc_verify ok sysv fn = (True, fn, None)"
proof -
  have "mir_verify_init ok fn \<noteq> InitReady st" for st
  proof
    assume "mir_verify_init ok fn = InitReady st"
    then have r: "verify_ready ok fn st" by (rule init_ready)
    have "in_op (fn_insns fn ! i) \<noteq> MIR_NOP" using assms(2) by (auto simp: is_cond_branch_def)
    then have "mir_verify_successors ok fn st i \<noteq> None" using r assms(1) by (simp add: verify_ready_def)
    moreover have "mir_verify_find_label st (op_sym (in_dst (fn_insns fn ! i))) = -1"
      using r assms(3) by (simp add: verify_ready_def labels_ok_def)
    ultimately show False using assms(2)
      by (auto simp: mir_verify_successors_def Let_def is_cond_branch_def split: if_splits)
  qed
  then show ?thesis by (auto simp: mir_regalloc_verify_def split: init_result.splits)
qed

section \<open>Examples\<close>

definition in_gp :: "int \<Rightarrow> MirVreg" where
  "in_gp r = (new_vreg_record MIR_RC_GP 8)\<lparr>vr_assigned := True, vr_in_register := True, vr_phys := r\<rparr>"

definition plain_param :: "MirVregId \<Rightarrow> MirParam" where
  "plain_param v =
    \<lparr>pa_vreg = v, pa_arg_index = 0, pa_width = 8, pa_is_signed = False, pa_is_float = False,
     pa_sysv_eightbytes = 0, pa_sysv_in_memory = False, pa_sysv_sse = (False, False),
     pa_sysv_size = 0, pa_sysv_direct_sse = False, pa_sysv_storage = MIR_VREG_NONE\<rparr>"

definition label_insn :: "string \<Rightarrow> MirInst" where
  "label_insn s = mk_inst (OpFlow MIR_LABEL) (MIR_OPK_LABEL (Some s)) MIR_OPK_NONE MIR_OPK_NONE False"

text \<open>A loop that adds the parameter to an accumulator.\<close>

definition adder :: MirFunction where
  "adder = mir_function_init
    \<lparr>fn_vregs := [in_gp 12, in_gp 3], fn_params := [plain_param 0],
     fn_insns :=
       [mk_inst MIR_MOV (MIR_OPK_VREG 1) (MIR_OPK_IMM 0) MIR_OPK_NONE False,
        label_insn ''L'',
        mk_inst MIR_ADD (MIR_OPK_VREG 1) (MIR_OPK_VREG 1) (MIR_OPK_VREG 0) False,
        mk_inst (OpFlow MIR_CMPBR) (MIR_OPK_LABEL (Some ''L'')) (MIR_OPK_VREG 1) (MIR_OPK_IMM 10) False,
        mk_inst (OpFlow MIR_RET) MIR_OPK_NONE (MIR_OPK_VREG 1) MIR_OPK_NONE False]\<rparr>"

definition adder_effect :: "(int, unit) effect" where
  "adder_effect i xs e = (sum_list xs, (), i + 1)"

definition adder_regs :: "int \<Rightarrow> int regs \<times> (nat \<Rightarrow> int)" where
  "adder_regs acc =
    ((\<lambda>c r. if c = MIR_RC_GP \<and> r = 12 then 5 else if c = MIR_RC_GP \<and> r = 3 then acc else 0), \<lambda>v. 0)"

lemma adder_accepted: "fst (mir_regalloc_verify (\<lambda>_. True) False adder)"
  by code_simp

lemma adder_ready: obtains st where "mir_verify_init (\<lambda>_. True) adder = InitReady st"
proof -
  have "(case mir_verify_init (\<lambda>_. True) adder of InitReady st \<Rightarrow> True | _ \<Rightarrow> False)" by code_simp
  then show ?thesis using that by (cases "mir_verify_init (\<lambda>_. True) adder") auto
qed

lemma adder_no_entry_branch: "\<not> next_insn adder i 0"
proof -
  have "\<forall>i \<in> set [0..<length (fn_insns adder)]. \<not> next_insn adder i 0" by code_simp
  then show ?thesis by (auto simp: next_insn_def)
qed

lemma adder_entry: "entry_values adder [0 \<mapsto> 5 :: int]" "agrees adder 0 [0 \<mapsto> 5] (adder_regs 7)"
proof -
  have "0 \<in> set (entry_vregs adder)" "0 < length (fn_vregs adder)" "held adder (adder_regs 7) 0 = 5"
    by code_simp+
  then show "entry_values adder [0 \<mapsto> 5 :: int]" "agrees adder 0 [0 \<mapsto> 5] (adder_regs 7)"
    by (auto simp: entry_values_def agrees_def split: if_splits)
qed

lemma adder_virtual_run:
  obtains V where "vrun adder adder_effect 3 (0, [0 \<mapsto> 5], ()) = Some (3, V, ())" and "V 1 = Some 5"
proof -
  have "(case vrun adder adder_effect 3 (0, [0 \<mapsto> 5], ()) of
      None \<Rightarrow> False | Some (i, V, e) \<Rightarrow> i = 3 \<and> V 1 = Some 5)" by code_simp
  then show ?thesis using that by (auto split: option.splits)
qed

lemma adder_assigned_run:
  obtains p where "prun False adder adder_effect 3 (0, adder_regs 7, ()) (3, p, ())" and "held adder p 1 = 5"
proof -
  have "(case pexecs adder adder_effect 3 (0, adder_regs 7, ()) of
      None \<Rightarrow> False | Some (i, p, e) \<Rightarrow> i = 3 \<and> held adder p 1 = 5)" by code_simp
  then obtain p where "pexecs adder adder_effect 3 (0, adder_regs 7, ()) = Some (3, p, ())" "held adder p 1 = 5"
    by (auto split: option.splits)
  then show ?thesis by (intro that [of p] pexecs_prun)
qed


theorem entry_values_placeable_witness: "\<exists>p0. agrees adder 0 [0 \<mapsto> 5 :: int] p0"
proof -
  obtain st where st: "mir_verify_init (\<lambda>_. True) adder = InitReady st" by (rule adder_ready)
  have ne: "fn_vregs adder \<noteq> []" "fn_insns adder \<noteq> []" by (simp_all add: adder_def)
  show ?thesis by (rule entry_values_placeable [OF st adder_accepted ne adder_entry(1)])
qed

lemma adder_sabotaged: "mir_regalloc_verify_sabotage (\<lambda>_. True) adder \<noteq> adder"
proof -
  have "vr_phys (fn_vregs (mir_regalloc_verify_sabotage (\<lambda>_. True) adder) ! 1) = 12"
    "vr_phys (fn_vregs adder ! 1) = 3" by code_simp+
  then show ?thesis by auto
qed

theorem sabotage_rejected_witness:
  "\<not> fst (mir_regalloc_verify (\<lambda>_. True) False (mir_regalloc_verify_sabotage (\<lambda>_. True) adder))"
  using sabotage_rejected [OF refl adder_sabotaged, of False] by (auto simp: adder_def)

theorem unresolved_branch_accepted_witness:
  "mir_regalloc_verify (\<lambda>_. True) False (adder\<lparr>fn_insns := drop 2 (fn_insns adder)\<rparr>) =
   (True, adder\<lparr>fn_insns := drop 2 (fn_insns adder)\<rparr>, None)"
proof (rule unresolved_branch_accepted [of 1])
  let ?f = "adder\<lparr>fn_insns := drop 2 (fn_insns adder)\<rparr>"
  show "1 < length (fn_insns ?f)" by code_simp
  show "in_op (fn_insns ?f ! 1) = OpFlow MIR_JMP \<or> is_cond_branch (in_op (fn_insns ?f ! 1))" by code_simp
  show "label_at ?f (op_sym (in_dst (fn_insns ?f ! 1))) = None" by code_simp
qed

text \<open>
  The function below branches to its first instruction. Register 2, written by instruction 5, is read by
  instruction 3 after the path 6, 0, 1, 2, and instruction 1 overwrites the physical register it is in.
\<close>

definition entry_loop :: MirFunction where
  "entry_loop = mir_function_init
    \<lparr>fn_vregs := [in_gp 12, in_gp 3, in_gp 3], fn_params := [plain_param 0],
     fn_insns :=
       [label_insn ''L'',
        mk_inst MIR_MOV (MIR_OPK_VREG 1) (MIR_OPK_IMM 7) MIR_OPK_NONE False,
        mk_inst (OpFlow MIR_CMPBR) (MIR_OPK_LABEL (Some ''D'')) (MIR_OPK_VREG 0) (MIR_OPK_IMM 0) False,
        mk_inst MIR_ADD (MIR_OPK_VREG 0) (MIR_OPK_VREG 1) (MIR_OPK_VREG 2) False,
        label_insn ''D'',
        mk_inst MIR_MOV (MIR_OPK_VREG 2) (MIR_OPK_IMM 9) MIR_OPK_NONE False,
        mk_inst (OpFlow MIR_JMP) (MIR_OPK_LABEL (Some ''L'')) MIR_OPK_NONE MIR_OPK_NONE False]\<rparr>"

lemma entry_loop_path:
  "writes entry_loop 5 = Some 2" "2 \<in> set (reads entry_loop 3)"
  "next_insn entry_loop 5 6" "next_insn entry_loop 6 0" "next_insn entry_loop 0 1"
  "next_insn entry_loop 1 2" "next_insn entry_loop 2 3"
  "\<forall>i \<in> {6, 0, 1, 2}. writes entry_loop i \<noteq> Some 2"
  "writes entry_loop 1 = Some 1" "assigned_to entry_loop 1 MIR_RC_GP 3" "assigned_to entry_loop 2 MIR_RC_GP 3"
  by code_simp+

lemma entry_loop_accepted: "fst (mir_regalloc_verify (\<lambda>_. True) False entry_loop)"
  by code_simp


definition entry_loop_effect :: "(int, nat) effect" where
  "entry_loop_effect i xs k =
    (if i = 1 then 7 else if i = 5 then 9 else 0, k + 1,
     if i = 2 \<and> k < 5 then 4 else if i = 6 then 0 else i + 1)"

text \<open>The hypothesis on the entry is needed, and the verifier does not check it. The definedness
  analysis skips instruction 0, so for a function that branches to its first instruction it does not
  see the values that come around. The verifier accepts \<open>entry_loop\<close>, and after nine steps of it the
  virtual register 2 is 9 while its assigned register holds 7 when instruction 3 reads it.
\<close>

theorem entry_branch_accepts_overwrite:
  "fst (mir_regalloc_verify (\<lambda>_. True) False entry_loop) \<and>
   (\<exists>V p. vrun entry_loop entry_loop_effect 9 (0, [0 \<mapsto> 5], 0) = Some (3, V, 9) \<and>
     prun False entry_loop entry_loop_effect 9 (0, adder_regs 0, 0) (3, p, 9) \<and>
     2 \<in> set (reads entry_loop 3) \<and> V 2 = Some 9 \<and> held entry_loop p 2 = 7)"
proof -
  have "(case vrun entry_loop entry_loop_effect 9 (0, [0 \<mapsto> 5], 0) of
      None \<Rightarrow> False | Some (i, V, e) \<Rightarrow> i = 3 \<and> e = 9 \<and> V 2 = Some 9)" by code_simp
  then obtain V where V: "vrun entry_loop entry_loop_effect 9 (0, [0 \<mapsto> 5], 0) = Some (3, V, 9)" "V 2 = Some 9"
    by (auto split: option.splits)
  have "(case pexecs entry_loop entry_loop_effect 9 (0, adder_regs 0, 0) of
      None \<Rightarrow> False | Some (i, p, e) \<Rightarrow> i = 3 \<and> e = 9 \<and> held entry_loop p 2 = 7)" by code_simp
  then obtain p where pe: "pexecs entry_loop entry_loop_effect 9 (0, adder_regs 0, 0) = Some (3, p, 9)"
    and h: "held entry_loop p 2 = 7"
    by (auto split: option.splits)
  note p = pexecs_prun [OF pe, of False] h
  show ?thesis using entry_loop_accepted entry_loop_path(2) V p by blast
qed


end
