(* ===== verification/MirCfg.thy ===== *)
theory MirCfg
  imports MirExec Probing
begin

text \<open>
  The control-flow graph of a MIR function and the analyses on it, \<open>codegen/binary/mir_cfg.c\<close>: basic
  blocks, edges through a hash map of the labels, reverse postorder, dominators, natural loops, the
  sets each block reads and writes, liveness, definedness, and the cursor with which the register
  allocator walks a block backwards.

  A function that returns 0 gives an error: \<open>OutOfMemory\<close> or \<open>Refused\<close>. \<open>ok\<close> says which allocations
  succeed. The loops over the hash map and the depth-first search have fuel, which is enough; the
  loops that run until nothing changes and the walks along dominators are partial functions, so that
  not ending is the value \<open>None\<close>, \<open>Diverge\<close> in the result of \<open>mir_cfg_build\<close>; the theories that follow
  show that they end. Indices of instructions and blocks are not wrapped: the sources keep them in
  \<open>int\<close>, and a function has fewer than \<open>2 ^ 31\<close> instructions. The functions that release memory are left
  out.
\<close>

section \<open>Data\<close>

datatype cfg_alloc =
    LabelSlots | BlockOf | BlockArray | EdgeNext nat | EdgeTo nat | RpoArrays | OrderArray
  | LoopArrays | InsnDepth | SetArrays | CursorArrays

record MirCfgBlock =
  bk_start :: nat
  bk_end :: nat
  bk_succ_head :: int
  bk_pred_head :: int
  bk_idom :: int
  bk_rpo :: int
  bk_loop_depth :: nat
  bk_loop_header :: int

record MirCfg =
  cf_blocks :: "MirCfgBlock list"
  cf_block_of :: "nat list"
  cf_edge_next :: "int list"
  cf_edge_to :: "nat list"
  cf_edge_capacity :: nat
  cf_rpo_order :: "nat list"
  cf_order :: "nat list"
  cf_words :: nat
  cf_use :: "bits list"
  cf_def :: "bits list"
  cf_live_in :: "bits list"
  cf_live_out :: "bits list"
  cf_defd_in :: "bits list"
  cf_defd_out :: "bits list"
  cf_insn_depth :: "nat list"

abbreviation set_block :: "MirCfg \<Rightarrow> nat \<Rightarrow> (MirCfgBlock \<Rightarrow> MirCfgBlock) \<Rightarrow> MirCfg" where
  "set_block cfg b f \<equiv> cfg\<lparr>cf_blocks := (cf_blocks cfg)[b := f (cf_blocks cfg ! b)]\<rparr>"

section \<open>Reads and writes\<close>

definition mir_cfg_insn_reads_dst :: "MirInst \<Rightarrow> bool" where
  "mir_cfg_insn_reads_dst inst \<longleftrightarrow> in_op inst = OpFlow MIR_CMOV \<or> in_op inst = OpFlow MIR_CMOVCC"

fun mir_cfg_operand_vregs :: "MirOperand \<Rightarrow> MirVregId list" where
  "mir_cfg_operand_vregs (MIR_OPK_VREG v) = [v]"
| "mir_cfg_operand_vregs (MIR_OPK_MEM m) = [mem_base m, mem_index m]"
| "mir_cfg_operand_vregs x = []"

definition mir_cfg_insn_uses :: "MirInst \<Rightarrow> MirVregId list" where
  "mir_cfg_insn_uses inst =
    (if in_op inst = MIR_NOP then []
     else (if is_mem (in_dst inst) \<or> mir_cfg_insn_reads_dst inst then mir_cfg_operand_vregs (in_dst inst) else []) @
          mir_cfg_operand_vregs (in_a inst) @ mir_cfg_operand_vregs (in_b inst))"

definition mir_cfg_insn_def :: "MirInst \<Rightarrow> MirVregId" where
  "mir_cfg_insn_def inst = (if in_op inst \<noteq> MIR_NOP then operand_def (in_dst inst) else MIR_VREG_NONE)"

definition mir_cfg_ends_block :: "MirInst \<Rightarrow> bool" where
  "mir_cfg_ends_block inst \<longleftrightarrow>
     in_op inst = OpFlow MIR_JMP \<or> in_op inst = OpFlow MIR_JCC \<or> in_op inst = OpFlow MIR_CMPBR \<or>
     in_op inst = OpFloat MIR_FCMPBR \<or> in_op inst = OpFlow MIR_JMP_TABLE \<or>
     in_op inst = OpFlow MIR_RET \<or> in_op inst = OpFlow MIR_TRAP"

definition mir_cfg_is_label :: "MirInst \<Rightarrow> bool" where
  "mir_cfg_is_label inst \<longleftrightarrow> label_name inst \<noteq> None"

section \<open>The map of the labels\<close>

text \<open>A slot holds the index of a label instruction plus one; 0 is a free slot.\<close>

definition slot_name :: "MirFunction \<Rightarrow> nat \<Rightarrow> string option" where
  "slot_name fn s = op_sym (in_dst (fn_insns fn ! (s - 1)))"

definition label_insert :: "MirFunction \<Rightarrow> nat \<Rightarrow> nat list \<Rightarrow> nat list outcome" where
  "label_insert fn i slots =
    (case label_name (fn_insns fn ! i) of
       None \<Rightarrow> Inr slots
     | Some name \<Rightarrow>
         andthen (probe (\<lambda>h. slots ! h = 0 \<or> slot_name fn (slots ! h) = Some name)
                    (next_slot (length slots)) (length slots)
                    (slot_of (mettle_fnv1a_hash name) (length slots))) (\<lambda>h.
         Inr (if slots ! h = 0 then slots[h := i + 1] else slots)))"

fun label_inserts :: "MirFunction \<Rightarrow> nat list \<Rightarrow> nat list \<Rightarrow> nat list outcome" where
  "label_inserts fn [] slots = Inr slots"
| "label_inserts fn (i # is) slots = andthen (label_insert fn i slots) (label_inserts fn is)"

definition mir_cfg_label_map_build :: "(cfg_alloc \<Rightarrow> bool) \<Rightarrow> MirFunction \<Rightarrow> nat list outcome" where
  "mir_cfg_label_map_build ok fn =
    (let label_count = length (filter mir_cfg_is_label (fn_insns fn));
         slot_count = double_until 16 (label_count * 2)
     in andthen (allocate_mem (ok LabelSlots)) (\<lambda>_.
        label_inserts fn [0..<length (fn_insns fn)] (replicate slot_count 0)))"

definition mir_cfg_label_find :: "MirFunction \<Rightarrow> nat list \<Rightarrow> string option \<Rightarrow> int outcome" where
  "mir_cfg_label_find fn slots name =
    (case name of
       None \<Rightarrow> Inr (-1)
     | Some nm \<Rightarrow>
         andthen (probe (\<lambda>h. slots ! h = 0 \<or> slot_name fn (slots ! h) = Some nm)
                    (next_slot (length slots)) (length slots)
                    (slot_of (mettle_fnv1a_hash nm) (length slots))) (\<lambda>h.
         Inr (if slots ! h = 0 then -1 else int (slots ! h) - 1)))"

section \<open>Blocks\<close>

text \<open>The number of the block of each instruction: a new one starts at a leader.\<close>

definition leader :: "MirFunction \<Rightarrow> nat \<Rightarrow> bool" where
  "leader fn i \<longleftrightarrow>
     i = 0 \<or> mir_cfg_is_label (fn_insns fn ! i) \<or> mir_cfg_ends_block (fn_insns fn ! (i - 1))"

definition number_insn :: "MirFunction \<Rightarrow> nat \<Rightarrow> nat \<times> nat list \<Rightarrow> nat \<times> nat list" where
  "number_insn fn i s =
    (case s of (nblocks, block_of) \<Rightarrow>
       let n = (if leader fn i then nblocks + 1 else nblocks) in (n, block_of @ [n - 1]))"

definition fresh_block :: MirCfgBlock where
  "fresh_block =
    \<lparr>bk_start = 0, bk_end = 0, bk_succ_head = -1, bk_pred_head = -1, bk_idom = -1, bk_rpo = -1,
     bk_loop_depth = 0, bk_loop_header = -1\<rparr>"

definition extend_block :: "nat list \<Rightarrow> nat \<Rightarrow> MirCfgBlock list \<Rightarrow> MirCfgBlock list" where
  "extend_block block_of i blocks =
    (let b = block_of ! i; blk = blocks ! b
     in blocks[b := (if i = 0 \<or> block_of ! (i - 1) \<noteq> block_of ! i then blk\<lparr>bk_start := i\<rparr> else blk)
                      \<lparr>bk_end := i + 1\<rparr>])"

definition mir_cfg_split_blocks :: "(cfg_alloc \<Rightarrow> bool) \<Rightarrow> MirFunction \<Rightarrow> MirCfg \<Rightarrow> MirCfg outcome" where
  "mir_cfg_split_blocks ok fn cfg =
    andthen (allocate_mem (ok BlockOf)) (\<lambda>_.
      case fold (number_insn fn) [0..<length (fn_insns fn)] (0, []) of
        (nblocks, block_of) \<Rightarrow>
          andthen (allocate_mem (ok BlockArray)) (\<lambda>_.
          Inr (cfg\<lparr>cf_block_of := block_of,
                   cf_blocks := fold (extend_block block_of) [0..<length (fn_insns fn)]
                                  (replicate nblocks fresh_block)\<rparr>)))"

section \<open>Edges\<close>

text \<open>The new edge and the index of it, which becomes the head of the list.\<close>

definition mir_cfg_edge_add ::
  "(cfg_alloc \<Rightarrow> bool) \<Rightarrow> MirCfg \<Rightarrow> int \<Rightarrow> nat \<Rightarrow> (MirCfg \<times> int) outcome" where
  "mir_cfg_edge_add ok cfg head to =
    (let cap = cf_edge_capacity cfg;
         add = (\<lambda>cfg. (cfg\<lparr>cf_edge_to := cf_edge_to cfg @ [to], cf_edge_next := cf_edge_next cfg @ [head]\<rparr>,
                       int (length (cf_edge_to cfg))))
     in if length (cf_edge_to cfg) = cap then
          andthen (allocate_mem (ok (EdgeNext cap))) (\<lambda>_.
          andthen (allocate_mem (ok (EdgeTo cap))) (\<lambda>_.
          Inr (add (cfg\<lparr>cf_edge_capacity := if cap \<noteq> 0 then cap * 2 else 64\<rparr>))))
        else Inr (add cfg))"

definition mir_cfg_link :: "(cfg_alloc \<Rightarrow> bool) \<Rightarrow> nat \<Rightarrow> int \<Rightarrow> MirCfg \<Rightarrow> MirCfg outcome" where
  "mir_cfg_link ok from target_insn cfg =
    andthen (need (0 \<le> target_insn) ''branch target'') (\<lambda>_.
      let to = cf_block_of cfg ! nat target_insn
      in andthen (mir_cfg_edge_add ok cfg (bk_succ_head (cf_blocks cfg ! from)) to) (\<lambda>(cfg, e).
         let cfg = set_block cfg from (bk_succ_head_update (\<lambda>_. e))
         in andthen (mir_cfg_edge_add ok cfg (bk_pred_head (cf_blocks cfg ! to)) from) (\<lambda>(cfg, e).
            Inr (set_block cfg to (bk_pred_head_update (\<lambda>_. e))))))"

fun link_labels ::
  "(cfg_alloc \<Rightarrow> bool) \<Rightarrow> MirFunction \<Rightarrow> nat list \<Rightarrow> nat \<Rightarrow> string option list \<Rightarrow> MirCfg \<Rightarrow> MirCfg outcome" where
  "link_labels ok fn slots b [] cfg = Inr cfg"
| "link_labels ok fn slots b (l # ls) cfg =
    andthen (mir_cfg_label_find fn slots l) (\<lambda>target.
    andthen (mir_cfg_link ok b target cfg) (link_labels ok fn slots b ls))"

definition mir_cfg_link_block ::
  "(cfg_alloc \<Rightarrow> bool) \<Rightarrow> MirFunction \<Rightarrow> nat list \<Rightarrow> nat \<Rightarrow> MirCfg \<Rightarrow> MirCfg outcome" where
  "mir_cfg_link_block ok fn slots b cfg =
    (let final = fn_insns fn ! (bk_end (cf_blocks cfg ! b) - 1);
         target = link_labels ok fn slots b [op_sym (in_dst final)];
         fall = (\<lambda>cfg. if b + 1 < length (cf_blocks cfg)
                        then mir_cfg_link ok b (int (bk_start (cf_blocks cfg ! (b + 1)))) cfg else Inr cfg)
     in if in_op final = OpFlow MIR_JMP then target cfg
        else if is_cond_branch (in_op final) then andthen (target cfg) fall
        else if in_op final = OpFlow MIR_JMP_TABLE then
          (case in_aux final of
             AuxJumpTable labels \<Rightarrow> link_labels ok fn slots b labels cfg
           | _ \<Rightarrow> Inl (Refused ''jump table''))
        else if in_op final = OpFlow MIR_RET \<or> in_op final = OpFlow MIR_TRAP then Inr cfg
        else fall cfg)"

fun link_blocks ::
  "(cfg_alloc \<Rightarrow> bool) \<Rightarrow> MirFunction \<Rightarrow> nat list \<Rightarrow> nat list \<Rightarrow> MirCfg \<Rightarrow> MirCfg outcome" where
  "link_blocks ok fn slots [] cfg = Inr cfg"
| "link_blocks ok fn slots (b # bs) cfg =
    andthen (mir_cfg_link_block ok fn slots b cfg) (link_blocks ok fn slots bs)"

definition mir_cfg_build_edges :: "(cfg_alloc \<Rightarrow> bool) \<Rightarrow> MirFunction \<Rightarrow> MirCfg \<Rightarrow> MirCfg outcome" where
  "mir_cfg_build_edges ok fn cfg =
    andthen (mir_cfg_label_map_build ok fn) (\<lambda>slots.
    link_blocks ok fn slots [0..<length (cf_blocks cfg)] cfg)"

text \<open>The loops over the successors and the predecessors of a block.\<close>

definition succs_of :: "MirCfg \<Rightarrow> nat \<Rightarrow> nat list" where
  "succs_of cfg b = map (\<lambda>e. cf_edge_to cfg ! e) (edges_from (cf_edge_next cfg) (bk_succ_head (cf_blocks cfg ! b)))"

definition preds_of :: "MirCfg \<Rightarrow> nat \<Rightarrow> nat list" where
  "preds_of cfg b = map (\<lambda>e. cf_edge_to cfg ! e) (edges_from (cf_edge_next cfg) (bk_pred_head (cf_blocks cfg ! b)))"

section \<open>Reverse postorder\<close>

text \<open>
  The depth-first search: the stack with the next edge of each entry, the flags of the blocks seen, and
  the blocks in postorder. A step takes an edge or pops, so that for every block the number of edges and
  one more is fuel enough.
\<close>

fun rpo_search ::
  "MirCfg \<Rightarrow> nat \<Rightarrow> (nat \<times> int) list \<Rightarrow> bool list \<Rightarrow> nat list \<Rightarrow> nat list outcome" where
  "rpo_search cfg 0 stack seen post = Inl Diverge"
| "rpo_search cfg (Suc fuel) [] seen post = Inr post"
| "rpo_search cfg (Suc fuel) ((b, e) # stack) seen post =
    (if 0 \<le> e then
       (let to = cf_edge_to cfg ! nat e; stack' = (b, cf_edge_next cfg ! nat e) # stack
        in if \<not> seen ! to
           then rpo_search cfg fuel ((to, bk_succ_head (cf_blocks cfg ! to)) # stack') (seen[to := True]) post
           else rpo_search cfg fuel stack' seen post)
     else rpo_search cfg fuel stack seen (post @ [b]))"

definition number_rpo :: "nat \<times> nat \<Rightarrow> MirCfgBlock list \<Rightarrow> MirCfgBlock list" where
  "number_rpo kb blocks = blocks[snd kb := (blocks ! snd kb)\<lparr>bk_rpo := int (fst kb)\<rparr>]"

definition mir_cfg_build_rpo :: "(cfg_alloc \<Rightarrow> bool) \<Rightarrow> MirCfg \<Rightarrow> MirCfg outcome" where
  "mir_cfg_build_rpo ok cfg =
    (let n = length (cf_blocks cfg)
     in andthen (allocate_mem (ok RpoArrays)) (\<lambda>_.
        andthen (rpo_search cfg (n * (length (cf_edge_next cfg) + 1) + 1)
                   [(0, bk_succ_head (cf_blocks cfg ! 0))] ((replicate n False)[0 := True]) []) (\<lambda>post.
        Inr (cfg\<lparr>cf_rpo_order := rev post,
                 cf_blocks := fold number_rpo (enumerate 0 (rev post)) (cf_blocks cfg)\<rparr>))))"

definition mir_cfg_build_order :: "(cfg_alloc \<Rightarrow> bool) \<Rightarrow> MirCfg \<Rightarrow> MirCfg outcome" where
  "mir_cfg_build_order ok cfg =
    andthen (allocate_mem (ok OrderArray)) (\<lambda>_.
    Inr (cfg\<lparr>cf_order := cf_rpo_order cfg @
               filter (\<lambda>b. bk_rpo (cf_blocks cfg ! b) < 0) [0..<length (cf_blocks cfg)]\<rparr>))"

section \<open>Dominators\<close>

text \<open>Walking up from a block without immediate dominator reads outside the array; that is \<open>None\<close> too.\<close>

partial_function (option) climb :: "MirCfgBlock list \<Rightarrow> int \<Rightarrow> int \<Rightarrow> int option" where
  "climb blocks a b =
    (if a < 0 \<or> b < 0 then None
     else if bk_rpo (blocks ! nat b) < bk_rpo (blocks ! nat a) then climb blocks (bk_idom (blocks ! nat a)) b
     else Some a)"

partial_function (option) mir_cfg_intersect :: "MirCfgBlock list \<Rightarrow> int \<Rightarrow> int \<Rightarrow> int option" where
  "mir_cfg_intersect blocks a b =
    (if a = b then Some a
     else Option.bind (climb blocks a b) (\<lambda>a'.
          Option.bind (climb blocks b a') (\<lambda>b'. mir_cfg_intersect blocks a' b')))"

fun meet_preds :: "MirCfgBlock list \<Rightarrow> nat list \<Rightarrow> int \<Rightarrow> int option" where
  "meet_preds blocks [] new_idom = Some new_idom"
| "meet_preds blocks (p # ps) new_idom =
    (if bk_idom (blocks ! p) < 0 then meet_preds blocks ps new_idom
     else Option.bind (if new_idom < 0 then Some (int p) else mir_cfg_intersect blocks (int p) new_idom)
            (meet_preds blocks ps))"

definition dominator_step :: "MirCfg \<Rightarrow> nat \<Rightarrow> MirCfgBlock list \<times> bool \<Rightarrow> (MirCfgBlock list \<times> bool) option" where
  "dominator_step cfg b s =
    (case s of (blocks, changed) \<Rightarrow>
       Option.bind (meet_preds blocks (preds_of cfg b) (-1)) (\<lambda>new_idom.
       Some (if 0 \<le> new_idom \<and> bk_idom (blocks ! b) \<noteq> new_idom
             then (blocks[b := (blocks ! b)\<lparr>bk_idom := new_idom\<rparr>], True) else (blocks, changed))))"

fun dominator_sweep ::
  "MirCfg \<Rightarrow> nat list \<Rightarrow> MirCfgBlock list \<times> bool \<Rightarrow> (MirCfgBlock list \<times> bool) option" where
  "dominator_sweep cfg [] s = Some s"
| "dominator_sweep cfg (b # bs) s = Option.bind (dominator_step cfg b s) (dominator_sweep cfg bs)"

partial_function (option) dominator_loop :: "MirCfg \<Rightarrow> MirCfgBlock list \<Rightarrow> MirCfgBlock list option" where
  "dominator_loop cfg blocks =
    Option.bind (dominator_sweep cfg (drop 1 (cf_rpo_order cfg)) (blocks, False)) (\<lambda>s.
    if snd s then dominator_loop cfg (fst s) else Some (fst s))"

definition mir_cfg_build_dominators :: "MirCfg \<Rightarrow> MirCfg option" where
  "mir_cfg_build_dominators cfg =
    map_option (\<lambda>blocks. cfg\<lparr>cf_blocks := blocks\<rparr>)
      (dominator_loop cfg ((cf_blocks cfg)[0 := (cf_blocks cfg ! 0)\<lparr>bk_idom := 0\<rparr>]))"

partial_function (option) mir_cfg_dominates :: "MirCfgBlock list \<Rightarrow> int \<Rightarrow> int \<Rightarrow> bool option" where
  "mir_cfg_dominates blocks a b =
    (if b < 0 then Some False
     else if a = b then Some True
     else if bk_idom (blocks ! nat b) = b then Some False
     else mir_cfg_dominates blocks a (bk_idom (blocks ! nat b)))"

section \<open>Loops\<close>

definition push_preds :: "nat \<Rightarrow> bool list \<times> nat list \<Rightarrow> bool list \<times> nat list" where
  "push_preds p s = (case s of (member, work) \<Rightarrow>
     if \<not> member ! p then (member[p := True], p # work) else (member, work))"

partial_function (option) member_walk :: "MirCfg \<Rightarrow> bool list \<Rightarrow> nat list \<Rightarrow> bool list option" where
  "member_walk cfg member work =
    (case work of
       [] \<Rightarrow> Some member
     | b # rest \<Rightarrow>
         (case fold push_preds (preds_of cfg b) (member, rest) of (member', work') \<Rightarrow>
            member_walk cfg member' work'))"

definition mir_cfg_loop_members :: "MirCfg \<Rightarrow> nat \<Rightarrow> nat \<Rightarrow> bool list option" where
  "mir_cfg_loop_members cfg header tail =
    (let member = (replicate (length (cf_blocks cfg)) False)[header := True]
     in if \<not> member ! tail then member_walk cfg (member[tail := True]) [tail] else member_walk cfg member [])"

definition mir_cfg_is_back_edge :: "MirCfg \<Rightarrow> nat \<Rightarrow> nat \<Rightarrow> bool option" where
  "mir_cfg_is_back_edge cfg from to =
    (if bk_rpo (cf_blocks cfg ! from) < 0 then Some False
     else mir_cfg_dominates (cf_blocks cfg) (int to) (int from))"

definition assign_header :: "nat \<Rightarrow> bool list \<Rightarrow> nat \<Rightarrow> MirCfgBlock list \<Rightarrow> MirCfgBlock list" where
  "assign_header header member b blocks =
    (let cur = bk_loop_header (blocks ! b)
     in if \<not> member ! b then blocks
        else if cur < 0 \<or> bk_loop_depth (blocks ! nat cur) < bk_loop_depth (blocks ! header)
        then blocks[b := (blocks ! b)\<lparr>bk_loop_header := int header\<rparr>] else blocks)"

definition mir_cfg_assign_headers :: "MirCfg \<Rightarrow> nat \<Rightarrow> bool list \<Rightarrow> MirCfg" where
  "mir_cfg_assign_headers cfg header member =
    cfg\<lparr>cf_blocks := fold (assign_header header member) [0..<length (cf_blocks cfg)] (cf_blocks cfg)\<rparr>"

definition deepen :: "bool list \<Rightarrow> nat \<Rightarrow> MirCfgBlock list \<Rightarrow> MirCfgBlock list" where
  "deepen member k blocks =
    (if member ! k then blocks[k := (blocks ! k)\<lparr>bk_loop_depth := bk_loop_depth (blocks ! k) + 1\<rparr>] else blocks)"

definition visit_edge :: "bool \<Rightarrow> nat \<Rightarrow> nat \<Rightarrow> MirCfg \<Rightarrow> MirCfg option" where
  "visit_edge assign b h cfg =
    Option.bind (mir_cfg_is_back_edge cfg b h) (\<lambda>back.
      if \<not> back then Some cfg
      else Option.bind (mir_cfg_loop_members cfg h b) (\<lambda>member.
        Some (if assign then mir_cfg_assign_headers cfg h member
              else cfg\<lparr>cf_blocks := fold (deepen member) [0..<length (cf_blocks cfg)] (cf_blocks cfg)\<rparr>)))"

fun visit_edges :: "bool \<Rightarrow> nat \<Rightarrow> nat list \<Rightarrow> MirCfg \<Rightarrow> MirCfg option" where
  "visit_edges assign b [] cfg = Some cfg"
| "visit_edges assign b (h # hs) cfg = Option.bind (visit_edge assign b h cfg) (visit_edges assign b hs)"

fun visit_blocks :: "bool \<Rightarrow> nat list \<Rightarrow> MirCfg \<Rightarrow> MirCfg option" where
  "visit_blocks assign [] cfg = Some cfg"
| "visit_blocks assign (b # bs) cfg =
    Option.bind (visit_edges assign b (succs_of cfg b) cfg) (visit_blocks assign bs)"

definition mir_cfg_visit_loops :: "bool \<Rightarrow> MirCfg \<Rightarrow> MirCfg option" where
  "mir_cfg_visit_loops assign cfg = visit_blocks assign [0..<length (cf_blocks cfg)] cfg"

definition ends :: "'a option \<Rightarrow> 'a outcome" where
  "ends m = (case m of None \<Rightarrow> Inl Diverge | Some x \<Rightarrow> Inr x)"

definition mir_cfg_build_loops :: "(cfg_alloc \<Rightarrow> bool) \<Rightarrow> MirCfg \<Rightarrow> MirCfg outcome" where
  "mir_cfg_build_loops ok cfg =
    andthen (allocate_mem (ok LoopArrays)) (\<lambda>_.
    andthen (ends (mir_cfg_visit_loops False cfg)) (\<lambda>cfg.
    andthen (ends (mir_cfg_visit_loops True cfg)) (\<lambda>cfg.
    andthen (allocate_mem (ok InsnDepth)) (\<lambda>_.
    Inr (cfg\<lparr>cf_insn_depth :=
               map (\<lambda>b. let d = bk_loop_depth (cf_blocks cfg ! b) in if 255 < d then 255 else d)
                 (cf_block_of cfg)\<rparr>)))))"

section \<open>Sets of a block\<close>

definition mir_cfg_alloc_sets :: "(cfg_alloc \<Rightarrow> bool) \<Rightarrow> MirCfg \<Rightarrow> MirCfg outcome" where
  "mir_cfg_alloc_sets ok cfg =
    (let cells = replicate (length (cf_blocks cfg)) (no_bits (cf_words cfg))
     in andthen (allocate_mem (ok SetArrays)) (\<lambda>_.
        Inr (cfg\<lparr>cf_use := cells, cf_def := cells, cf_live_in := cells, cf_live_out := cells,
                 cf_defd_in := cells, cf_defd_out := cells\<rparr>)))"

definition add_use :: "nat \<Rightarrow> bits \<Rightarrow> MirVregId \<Rightarrow> bits \<Rightarrow> bits" where
  "add_use n d v u =
    (if mir_verify_valid n v \<and> \<not> mir_cfg_set_get d (nat v) then mir_cfg_set_add u (nat v) else u)"

definition local_insn :: "MirFunction \<Rightarrow> nat \<Rightarrow> bits \<times> bits \<Rightarrow> bits \<times> bits" where
  "local_insn fn i s =
    (case s of (u, d) \<Rightarrow>
       let inst = fn_insns fn ! i; n = length (fn_vregs fn)
       in (fold (add_use n d) (mir_cfg_insn_uses inst) u, add_valid n (mir_cfg_insn_def inst) d))"

definition local_block :: "MirFunction \<Rightarrow> MirCfg \<Rightarrow> nat \<Rightarrow> bits \<times> bits" where
  "local_block fn cfg b =
    fold (local_insn fn) [bk_start (cf_blocks cfg ! b)..<bk_end (cf_blocks cfg ! b)]
      (cf_use cfg ! b, cf_def cfg ! b)"

definition mir_cfg_local_sets :: "MirFunction \<Rightarrow> MirCfg \<Rightarrow> MirCfg" where
  "mir_cfg_local_sets fn cfg =
    (let sets = map (local_block fn cfg) [0..<length (cf_blocks cfg)]
     in cfg\<lparr>cf_use := map fst sets, cf_def := map snd sets\<rparr>)"

section \<open>Liveness\<close>

definition transfer_words :: "bits \<Rightarrow> bits \<Rightarrow> bits \<Rightarrow> bits" where
  "transfer_words u out d = map2 (OR) u (map2 (\<lambda>o_w d_w. o_w AND NOT d_w) out d)"

text \<open>One block: its row of \<open>live_out\<close> gains the successors' rows, its row of \<open>live_in\<close> is recomputed.\<close>

definition live_block ::
  "MirCfg \<Rightarrow> nat \<Rightarrow> bits list \<times> bits list \<times> bool \<Rightarrow> bits list \<times> bits list \<times> bool" where
  "live_block cfg b s =
    (case s of (ins, outs, changed) \<Rightarrow>
       let out = fold (\<lambda>s out. or_words out (ins ! s)) (succs_of cfg b) (outs ! b);
           next = transfer_words (cf_use cfg ! b) out (cf_def cfg ! b)
       in (ins[b := next], outs[b := out], changed \<or> next \<noteq> ins ! b))"

definition live_sweep :: "MirCfg \<Rightarrow> bits list \<times> bits list \<Rightarrow> bits list \<times> bits list \<times> bool" where
  "live_sweep cfg s =
    fold (live_block cfg) (rev [0..<length (cf_blocks cfg)]) (fst s, snd s, False)"

partial_function (option) live_loop :: "MirCfg \<Rightarrow> bits list \<times> bits list \<Rightarrow> (bits list \<times> bits list) option" where
  "live_loop cfg s =
    (case live_sweep cfg s of (ins, outs, changed) \<Rightarrow>
       if changed then live_loop cfg (ins, outs) else Some (ins, outs))"

definition mir_cfg_liveness :: "MirCfg \<Rightarrow> MirCfg option" where
  "mir_cfg_liveness cfg =
    map_option (\<lambda>(ins, outs). cfg\<lparr>cf_live_in := ins, cf_live_out := outs\<rparr>)
      (live_loop cfg (cf_live_in cfg, cf_live_out cfg))"

section \<open>Definedness\<close>

definition mir_cfg_seed_entry_defs :: "MirFunction \<Rightarrow> MirCfg \<Rightarrow> MirCfg" where
  "mir_cfg_seed_entry_defs fn cfg =
    cfg\<lparr>cf_defd_in := (cf_defd_in cfg)
          [0 := fold (add_valid (length (fn_vregs fn))) (entry_vregs fn) (cf_defd_in cfg ! 0)]\<rparr>"

definition defd_block ::
  "MirCfg \<Rightarrow> nat \<Rightarrow> bits list \<times> bits list \<times> bool \<Rightarrow> bits list \<times> bits list \<times> bool" where
  "defd_block cfg b s =
    (case s of (ins, outs, changed) \<Rightarrow>
       let inn = fold (\<lambda>p inn. or_words inn (outs ! p)) (preds_of cfg b) (ins ! b);
           next = or_words inn (cf_def cfg ! b)
       in (ins[b := inn], outs[b := next], changed \<or> next \<noteq> outs ! b))"

definition defd_sweep :: "MirCfg \<Rightarrow> bits list \<times> bits list \<Rightarrow> bits list \<times> bits list \<times> bool" where
  "defd_sweep cfg s =
    fold (defd_block cfg) (take (length (cf_blocks cfg)) (cf_order cfg)) (fst s, snd s, False)"

partial_function (option) defd_loop :: "MirCfg \<Rightarrow> bits list \<times> bits list \<Rightarrow> (bits list \<times> bits list) option" where
  "defd_loop cfg s =
    (case defd_sweep cfg s of (ins, outs, changed) \<Rightarrow>
       if changed then defd_loop cfg (ins, outs) else Some (ins, outs))"

definition mir_cfg_definedness :: "MirFunction \<Rightarrow> MirCfg \<Rightarrow> MirCfg option" where
  "mir_cfg_definedness fn cfg =
    (let cfg = mir_cfg_seed_entry_defs fn cfg
     in map_option (\<lambda>(ins, outs). cfg\<lparr>cf_defd_in := ins, cf_defd_out := outs\<rparr>)
          (defd_loop cfg (cf_defd_in cfg, cf_defd_out cfg)))"

section \<open>The graph\<close>

definition fresh_cfg :: "MirFunction \<Rightarrow> MirCfg" where
  "fresh_cfg fn =
    \<lparr>cf_blocks = [], cf_block_of = [], cf_edge_next = [], cf_edge_to = [], cf_edge_capacity = 0,
     cf_rpo_order = [], cf_order = [], cf_words = (length (fn_vregs fn) + 63) div 64, cf_use = [],
     cf_def = [], cf_live_in = [], cf_live_out = [], cf_defd_in = [], cf_defd_out = [],
     cf_insn_depth = []\<rparr>"

definition mir_cfg_build :: "(cfg_alloc \<Rightarrow> bool) \<Rightarrow> MirFunction \<Rightarrow> MirCfg outcome" where
  "mir_cfg_build ok fn =
    (if fn_insns fn = [] \<or> fn_vregs fn = [] then Inl (Refused ''empty function'')
     else
       andthen (mir_cfg_split_blocks ok fn (fresh_cfg fn)) (\<lambda>cfg.
       andthen (mir_cfg_build_edges ok fn cfg) (\<lambda>cfg.
       andthen (mir_cfg_build_rpo ok cfg) (\<lambda>cfg.
       andthen (ends (mir_cfg_build_dominators cfg)) (\<lambda>cfg.
       andthen (mir_cfg_build_order ok cfg) (\<lambda>cfg.
       andthen (mir_cfg_build_loops ok cfg) (\<lambda>cfg.
       andthen (mir_cfg_alloc_sets ok cfg) (\<lambda>cfg.
       andthen (ends (mir_cfg_liveness (mir_cfg_local_sets fn cfg))) (\<lambda>cfg.
       ends (mir_cfg_definedness fn cfg))))))))))"

section \<open>The cursor\<close>

record MirCfgCursor =
  cu_block :: nat
  cu_at :: nat
  cu_live :: bits
  cu_defd :: bits
  cu_count :: "int list"

definition mir_cfg_cursor_init :: "(cfg_alloc \<Rightarrow> bool) \<Rightarrow> MirFunction \<Rightarrow> MirCfg \<Rightarrow> MirCfgCursor option" where
  "mir_cfg_cursor_init ok fn cfg =
    (if ok CursorArrays then
       Some \<lparr>cu_block = 0, cu_at = 0, cu_live = no_bits (cf_words cfg), cu_defd = no_bits (cf_words cfg),
             cu_count = replicate (length (fn_vregs fn)) 0\<rparr>
     else None)"

definition count_def :: "MirFunction \<Rightarrow> int \<Rightarrow> nat \<Rightarrow> int list \<Rightarrow> int list" where
  "count_def fn k i counts =
    (let d = mir_cfg_insn_def (fn_insns fn ! i)
     in if mir_verify_valid (length (fn_vregs fn)) d then counts[nat d := counts ! nat d + k] else counts)"

definition mir_cfg_cursor_start_block :: "MirFunction \<Rightarrow> MirCfg \<Rightarrow> nat \<Rightarrow> MirCfgCursor \<Rightarrow> MirCfgCursor" where
  "mir_cfg_cursor_start_block fn cfg block cur =
    (let blk = cf_blocks cfg ! block
     in cur\<lparr>cu_block := block, cu_at := bk_end blk, cu_live := cf_live_out cfg ! block,
            cu_defd := cf_defd_out cfg ! block,
            cu_count := fold (count_def fn 1) [bk_start blk..<bk_end blk] (cu_count cur)\<rparr>)"

definition mir_cfg_cursor_step_back :: "MirFunction \<Rightarrow> MirCfg \<Rightarrow> MirCfgCursor \<Rightarrow> MirCfgCursor" where
  "mir_cfg_cursor_step_back fn cfg cur =
    (if cu_at cur = 0 \<or> cu_at cur \<le> bk_start (cf_blocks cfg ! cu_block cur) then cur
     else
       let at = cu_at cur - 1;
           inst = fn_insns fn ! at;
           d = mir_cfg_insn_def inst;
           n = length (fn_vregs fn);
           cleared = clear_valid n d (cu_live cur);
           counts = count_def fn (-1) at (cu_count cur);
           defd = (if mir_verify_valid n d \<and> counts ! nat d = 0 \<and>
                      \<not> mir_cfg_set_get (cf_defd_in cfg ! cu_block cur) (nat d)
                   then mir_cfg_set_clear (cu_defd cur) (nat d) else cu_defd cur)
       in cur\<lparr>cu_at := at, cu_live := fold (add_valid n) (mir_cfg_insn_uses inst) cleared,
              cu_defd := defd, cu_count := counts\<rparr>)"

declare climb.simps [code] mir_cfg_intersect.simps [code] dominator_loop.simps [code]
  mir_cfg_dominates.simps [code] member_walk.simps [code] live_loop.simps [code] defd_loop.simps [code]

end
