(* ===== verification/MirCfgBlocks.thy ===== *)
theory MirCfgBlocks
  imports MirCfg
begin

text \<open>
  The shape of the graph \<open>mir_cfg_build\<close> makes: the blocks are the maximal runs of instructions between
  leaders, in order and without gap; the map of the labels finds the first label of a name; and the
  edges, in both directions, are the steps control can take from the last instruction of a block to the
  first of another.
\<close>

section \<open>Blocks\<close>

definition rank :: "MirFunction \<Rightarrow> nat \<Rightarrow> nat" where
  "rank fn m = length (filter (leader fn) [0..<m])"

lemma rank_simps: "rank fn 0 = 0" "rank fn (Suc m) = rank fn m + (if leader fn m then 1 else 0)"
  by (simp_all add: rank_def)

lemma rank_pos: "0 < m \<Longrightarrow> 0 < rank fn m"
  by (induction m) (auto simp: rank_simps leader_def)

lemma rank_mono: "i \<le> m \<Longrightarrow> rank fn i \<le> rank fn m"
  by (induction rule: dec_induct) (simp_all add: rank_simps)

lemma number_insns:
  "fold (number_insn fn) [0..<m] (0, []) = (rank fn m, map (\<lambda>i. rank fn (Suc i) - 1) [0..<m])"
proof (induction m)
  case (Suc m)
  then show ?case by (simp add: number_insn_def Let_def rank_simps)
qed (simp add: rank_simps)

text \<open>What a list of blocks looks like once the first \<open>m\<close> instructions are in.\<close>

definition filled :: "MirFunction \<Rightarrow> nat list \<Rightarrow> nat \<Rightarrow> MirCfgBlock list \<Rightarrow> bool" where
  "filled fn bo m blocks \<longleftrightarrow>
     (\<forall>i < m. bk_start (blocks ! (bo ! i)) \<le> i \<and> i < bk_end (blocks ! (bo ! i)) \<and>
        bk_end (blocks ! (bo ! i)) \<le> m \<and> leader fn (bk_start (blocks ! (bo ! i))) \<and>
        (leader fn i \<longrightarrow> bk_start (blocks ! (bo ! i)) = i)) \<and>
     (\<forall>b < length blocks. \<forall>i. bk_start (blocks ! b) \<le> i \<longrightarrow> i < bk_end (blocks ! b) \<longrightarrow> i < m \<and> bo ! i = b) \<and>
     (\<forall>b < length blocks. rank fn m \<le> b \<longrightarrow> blocks ! b = fresh_block) \<and>
     (\<forall>b < length blocks. bk_succ_head (blocks ! b) = -1 \<and> bk_pred_head (blocks ! b) = -1)"

lemma filledD:
  assumes "filled fn bo m blocks"
  shows "i < m \<Longrightarrow> bk_start (blocks ! (bo ! i)) \<le> i" "i < m \<Longrightarrow> i < bk_end (blocks ! (bo ! i))"
    "i < m \<Longrightarrow> bk_end (blocks ! (bo ! i)) \<le> m" "i < m \<Longrightarrow> leader fn (bk_start (blocks ! (bo ! i)))"
    "i < m \<Longrightarrow> leader fn i \<Longrightarrow> bk_start (blocks ! (bo ! i)) = i"
    "b < length blocks \<Longrightarrow> bk_start (blocks ! b) \<le> i \<Longrightarrow> i < bk_end (blocks ! b) \<Longrightarrow> i < m"
    "b < length blocks \<Longrightarrow> bk_start (blocks ! b) \<le> i \<Longrightarrow> i < bk_end (blocks ! b) \<Longrightarrow> bo ! i = b"
    "b < length blocks \<Longrightarrow> rank fn m \<le> b \<Longrightarrow> blocks ! b = fresh_block"
    "b < length blocks \<Longrightarrow> bk_succ_head (blocks ! b) = -1" "b < length blocks \<Longrightarrow> bk_pred_head (blocks ! b) = -1"
  using assms unfolding filled_def by blast+

text \<open>Putting instruction \<open>m\<close> into its block, given what the block becomes.\<close>

lemma filled_put:
  assumes f: "filled fn bo m blocks" and b: "bo ! m < length blocks"
    and old: "\<And>i. i < m \<Longrightarrow> bo ! i < length blocks"
    and at: "\<And>c. c < length blocks \<Longrightarrow> bs ! c = (if c = bo ! m then nb else blocks ! c)"
    and l: "length bs = length blocks"
    and nb: "bk_end nb = Suc m" "bk_start nb \<le> m" "leader fn (bk_start nb)" "leader fn m \<Longrightarrow> bk_start nb = m"
      "bk_succ_head nb = -1" "bk_pred_head nb = -1"
    and same: "\<And>i. i < m \<Longrightarrow> bo ! i = bo ! m \<longleftrightarrow> bk_start nb \<le> i"
    and keep: "\<And>i. i < m \<Longrightarrow> bo ! i = bo ! m \<Longrightarrow> bk_start nb = bk_start (blocks ! (bo ! m))"
    and fresh: "\<And>c. c < length blocks \<Longrightarrow> rank fn (Suc m) \<le> c \<Longrightarrow> c \<noteq> bo ! m \<and> rank fn m \<le> c"
  shows "filled fn bo (Suc m) bs"
  unfolding filled_def l
proof (intro conjI allI impI)
  note F = filledD [OF f]
  fix i assume i: "i < Suc m"
  have blk: "bs ! (bo ! i) = (if bo ! i = bo ! m then nb else blocks ! (bo ! i))"
    using at old b i by (cases "i = m") auto
  show "bk_start (bs ! (bo ! i)) \<le> i"
    using blk F(1) [of i] nb(2) same [of i] i by (cases "i = m") auto
  show "i < bk_end (bs ! (bo ! i))" using blk F(2) [of i] nb(1) i by (cases "i = m") auto
  show "bk_end (bs ! (bo ! i)) \<le> Suc m" using blk F(3) [of i] nb(1) i by (cases "i = m") auto
  show "leader fn (bk_start (bs ! (bo ! i)))" using blk F(4) [of i] nb(3) i by (cases "i = m") auto
  assume "leader fn i"
  then show "bk_start (bs ! (bo ! i)) = i"
    using blk F(5) [of i] nb(4) keep [of i] i by (cases "i = m") auto
next
  note F = filledD [OF f]
  fix c i assume c: "c < length blocks" and i: "bk_start (bs ! c) \<le> i" "i < bk_end (bs ! c)"
  show "i < Suc m" using i at [OF c] nb(1) F(6) [OF c, of i] by (auto split: if_splits)
  show "bo ! i = c"
  proof (cases "c = bo ! m")
    case True
    then show ?thesis using i at [OF c] nb(1) same [of i] by (cases "i = m") auto
  next
    case False
    then show ?thesis using i at [OF c] F(7) [OF c, of i] by auto
  qed
next
  fix c assume "c < length blocks" "rank fn (Suc m) \<le> c"
  then show "bs ! c = fresh_block" using fresh at filledD(8) [OF f] by auto
next
  fix c assume c: "c < length blocks"
  show "bk_succ_head (bs ! c) = -1" "bk_pred_head (bs ! c) = -1"
    using at [OF c] nb(5,6) filledD(9,10) [OF f c] by simp_all
qed

lemma length_extend_block [simp]: "length (extend_block bo i blocks) = length blocks"
  by (simp add: extend_block_def Let_def)

lemma filled_step:
  assumes f: "filled fn bo m blocks" and bo: "bo = map (\<lambda>i. rank fn (Suc i) - 1) [0..<n]"
    and m: "m < n" and len: "length blocks = rank fn n"
  shows "filled fn bo (Suc m) (extend_block bo m blocks)"
proof -
  let ?b = "bo ! m" and ?bs = "extend_block bo m blocks"
  have bm: "bo ! i = rank fn (Suc i) - 1" if "i < n" for i using that bo by simp
  have b: "?b < length blocks"
    using rank_pos [of "Suc m" fn] rank_mono [of "Suc m" n fn] m len bm [OF m] by simp
  have le: "bo ! i < rank fn m" if "i < m" for i
    using rank_mono [of "Suc i" m fn] rank_pos [of "Suc i" fn] bm [of i] that m by simp
  have old: "bo ! i < length blocks" if "i < m" for i
    using le [OF that] rank_mono [of m n fn] m len by simp
  have l: "length ?bs = length blocks" by simp
  show ?thesis
  proof (cases "leader fn m")
    case True
    let ?nb = "fresh_block\<lparr>bk_start := m, bk_end := Suc m\<rparr>"
    have rb: "?b = rank fn m" using True bm [OF m] by (simp add: rank_simps)
    have new: "m = 0 \<or> bo ! (m - 1) \<noteq> ?b" using le [of "m - 1"] rb by (cases m) auto
    have fr: "blocks ! ?b = fresh_block" using filledD(8) [OF f b] rb by simp
    have at: "?bs ! c = (if c = ?b then ?nb else blocks ! c)" if "c < length blocks" for c
      using that new fr by (simp add: extend_block_def Let_def nth_list_update)
    show ?thesis
      by (rule filled_put [OF f b old at l])
        (use True rb in \<open>auto simp: fresh_block_def rank_simps dest: le\<close>)
  next
    case False
    then have m0: "0 < m" by (auto simp: leader_def)
    let ?nb = "(blocks ! ?b)\<lparr>bk_end := Suc m\<rparr>"
    have rb: "?b = rank fn m - 1" "bo ! (m - 1) = ?b"
      using False m0 m bm [OF m] bm [of "m - 1"] by (auto simp: rank_simps)
    note P = filledD [OF f, of "m - 1"]
    have prev: "bk_start (blocks ! ?b) \<le> m - 1" "bk_end (blocks ! ?b) = m" "leader fn (bk_start (blocks ! ?b))"
      using P(1-4) m0 unfolding rb(2) by auto
    have at: "?bs ! c = (if c = ?b then ?nb else blocks ! c)" if "c < length blocks" for c
      using that rb m0 by (simp add: extend_block_def Let_def nth_list_update)
    have same: "bo ! i = ?b \<longleftrightarrow> bk_start ?nb \<le> i" if "i < m" for i
      using filledD(1) [OF f that] filledD(7) [OF f b, of i] prev(2) that by auto
    show ?thesis
      by (rule filled_put [OF f b old at l _ _ _ _ _ _ same])
        (use False prev m0 rb rank_pos [OF m0, of fn] filledD(9,10) [OF f b] in \<open>auto simp: rank_simps\<close>)
  qed
qed

text \<open>The blocks of the whole function.\<close>

definition blocks_wf :: "MirFunction \<Rightarrow> nat list \<Rightarrow> MirCfgBlock list \<Rightarrow> bool" where
  "blocks_wf fn bo blocks \<longleftrightarrow>
     length bo = length (fn_insns fn) \<and>
     (\<forall>i < length (fn_insns fn). bo ! i < length blocks \<and> bk_start (blocks ! (bo ! i)) \<le> i \<and>
        i < bk_end (blocks ! (bo ! i)) \<and> (leader fn i \<longrightarrow> bk_start (blocks ! (bo ! i)) = i)) \<and>
     (\<forall>b < length blocks. bk_start (blocks ! b) < bk_end (blocks ! b) \<and>
        bk_end (blocks ! b) \<le> length (fn_insns fn) \<and>
        (\<forall>i. bk_start (blocks ! b) \<le> i \<longrightarrow> i < bk_end (blocks ! b) \<longrightarrow> bo ! i = b) \<and>
        (b + 1 < length blocks \<longrightarrow> bk_start (blocks ! (b + 1)) = bk_end (blocks ! b)) \<and>
        (b + 1 = length blocks \<longrightarrow> bk_end (blocks ! b) = length (fn_insns fn)))"

lemma filled_all:
  assumes bo: "bo = map (\<lambda>i. rank fn (Suc i) - 1) [0..<n]" and "m \<le> n"
  shows "filled fn bo m (fold (extend_block bo) [0..<m] (replicate (rank fn n) fresh_block)) \<and>
    length (fold (extend_block bo) [0..<m] (replicate (rank fn n) fresh_block)) = rank fn n"
  using assms(2)
proof (induction m)
  case 0
  then show ?case by (auto simp: filled_def fresh_block_def)
next
  case (Suc m)
  let ?bs = "fold (extend_block bo) [0..<m] (replicate (rank fn n) fresh_block)"
  have "filled fn bo (Suc m) (extend_block bo m ?bs)"
    by (rule filled_step [OF _ bo]) (use Suc in auto)
  then show ?case using Suc by simp
qed

lemma rank_onto: "b < rank fn m \<Longrightarrow> \<exists>i < m. rank fn (Suc i) - 1 = b \<and> leader fn i"
proof (induction m)
  case (Suc m)
  show ?case
  proof (cases "b < rank fn m")
    case True
    then show ?thesis using Suc.IH by (auto intro: less_SucI)
  next
    case False
    then have "leader fn m" "b = rank fn m" using Suc.prems by (auto simp: rank_simps split: if_splits)
    then show ?thesis by (intro exI [of _ m]) (simp add: rank_simps)
  qed
qed (simp add: rank_simps)

lemma filled_blocks_wf:
  assumes f: "filled fn bo n blocks" and bo: "bo = map (\<lambda>i. rank fn (Suc i) - 1) [0..<n]"
    and n: "n = length (fn_insns fn)" and len: "length blocks = rank fn n"
  shows "blocks_wf fn bo blocks"
proof -
  note F = filledD [OF f]
  have bm: "bo ! i = rank fn (Suc i) - 1" if "i < n" for i using that bo by simp
  have small: "bo ! i < length blocks" if "i < n" for i
    using rank_pos [of "Suc i" fn] rank_mono [of "Suc i" n fn] bm [OF that] that len by simp
  have first: "\<exists>i < n. bo ! i = b \<and> leader fn i" if "b < length blocks" for b
    using rank_onto [of b fn n] that len bm by auto
  have ne: "bk_start (blocks ! b) < bk_end (blocks ! b)" "bk_end (blocks ! b) \<le> n" if b: "b < length blocks" for b
    using first [OF b] F(1-3) by fastforce+
  have nxt: "bk_start (blocks ! (b + 1)) = bk_end (blocks ! b)" if b: "b + 1 < length blocks" for b
  proof -
    obtain s where s: "s < n" "bo ! s = b + 1" "leader fn s" using first [OF b] by auto
    have st: "bk_start (blocks ! (b + 1)) = s" using F(5) [OF s(1,3)] s(2) by simp
    have s0: "0 < s" using s bm [OF s(1)] by (cases s) (auto simp: rank_simps split: if_splits)
    then have "bo ! (s - 1) = b"
      using s bm [OF s(1)] bm [of "s - 1"] rank_pos [OF s0, of fn] by (auto simp: rank_simps)
    then have p: "bk_start (blocks ! b) \<le> s - 1" "s - 1 < bk_end (blocks ! b)"
      using F(1,2) [of "s - 1"] s by auto
    have "bk_start (blocks ! b) \<le> s" using p by simp
    then have "\<not> s < bk_end (blocks ! b)" using F(7) [of b s] b s by auto
    then show ?thesis using p s0 st by simp
  qed
  have fin: "bk_end (blocks ! b) = n" if b: "b + 1 = length blocks" for b
  proof -
    have n0: "0 < n" using first [of b] b by auto
    then have "bo ! (n - 1) = b" using bm [of "n - 1"] b len by simp
    then show ?thesis using F(2,3) [of "n - 1"] n0 by simp
  qed
  have "length bo = n" by (simp add: bo)
  then show ?thesis
    unfolding blocks_wf_def n [symmetric]
    by (intro conjI allI impI) (use small F(1,2,5,7) ne nxt fin in blast)+
qed

lemma split_blocks_wf:
  assumes "mir_cfg_split_blocks ok fn cfg = Inr cfg'"
  shows "blocks_wf fn (cf_block_of cfg') (cf_blocks cfg')"
    and "cf_edge_next cfg' = cf_edge_next cfg" and "cf_edge_to cfg' = cf_edge_to cfg" and "cf_words cfg' = cf_words cfg"
    and "b < length (cf_blocks cfg') \<Longrightarrow> bk_succ_head (cf_blocks cfg' ! b) = -1 \<and> bk_pred_head (cf_blocks cfg' ! b) = -1"
    and "fn_insns fn \<noteq> [] \<Longrightarrow> cf_blocks cfg' \<noteq> []"
proof -
  let ?n = "length (fn_insns fn)"
  define bo where "bo = map (\<lambda>i. rank fn (Suc i) - 1) [0..<?n]"
  have c: "cfg' = cfg\<lparr>cf_block_of := bo,
      cf_blocks := fold (extend_block bo) [0..<?n] (replicate (rank fn ?n) fresh_block)\<rparr>"
    using assms by (auto simp: mir_cfg_split_blocks_def number_insns andthen_Inr_iff bo_def)
  note f = filled_all [OF bo_def order_refl]
  show "blocks_wf fn (cf_block_of cfg') (cf_blocks cfg')"
    unfolding c using filled_blocks_wf [OF _ bo_def refl] f by simp
  show "cf_edge_next cfg' = cf_edge_next cfg" "cf_edge_to cfg' = cf_edge_to cfg" "cf_words cfg' = cf_words cfg"
    by (simp_all add: c)
  show "bk_succ_head (cf_blocks cfg' ! b) = -1 \<and> bk_pred_head (cf_blocks cfg' ! b) = -1"
    if "b < length (cf_blocks cfg')"
    using that f filledD(9,10) [of fn bo ?n "cf_blocks cfg'" b] unfolding c by simp
  show "cf_blocks cfg' \<noteq> []" if "fn_insns fn \<noteq> []"
    using f rank_pos [of ?n fn] that unfolding c by (auto simp flip: length_greater_0_conv)
qed


section \<open>The map of the labels\<close>

definition slot_key :: "MirFunction \<Rightarrow> nat list \<Rightarrow> nat \<Rightarrow> string option" where
  "slot_key fn slots h = (if slots ! h = 0 then None else slot_name fn (slots ! h))"

text \<open>The first \<open>m\<close> instructions are in the table: every name they carry, at the first of its labels.\<close>

definition labels_in :: "MirFunction \<Rightarrow> nat \<Rightarrow> nat list \<Rightarrow> bool" where
  "labels_in fn m slots \<longleftrightarrow>
     lp.placed mettle_fnv1a_hash (slot_key fn slots) (length slots) \<and>
     (\<forall>h < length slots. slots ! h \<noteq> 0 \<longrightarrow> slots ! h \<le> m \<and> label_name (fn_insns fn ! (slots ! h - 1)) \<noteq> None \<and>
        (\<forall>i < slots ! h - 1. label_name (fn_insns fn ! i) \<noteq> label_name (fn_insns fn ! (slots ! h - 1)))) \<and>
     (\<forall>i < m. \<forall>s. label_name (fn_insns fn ! i) = Some s \<longrightarrow> (\<exists>h < length slots. slot_key fn slots h = Some s)) \<and>
     card {h. h < length slots \<and> slots ! h \<noteq> 0} \<le> length (filter mir_cfg_is_label (take m (fn_insns fn)))"

lemma label_sym: "label_name inst \<noteq> None \<Longrightarrow> op_sym (in_dst inst) = label_name inst"
  by (auto simp: label_name_def split: if_splits MirOperand.splits)

lemma slot_key_None: "labels_in fn m slots \<Longrightarrow> h < length slots \<Longrightarrow> slot_key fn slots h = None \<longleftrightarrow> slots ! h = 0"
  by (auto simp: slot_key_def slot_name_def label_sym labels_in_def)

lemma slot_key_Some:
  assumes "labels_in fn m slots" and "h < length slots" and "slot_key fn slots h = Some s"
  shows "0 < slots ! h" "slots ! h \<le> m" "label_name (fn_insns fn ! (slots ! h - 1)) = Some s"
    "i < slots ! h - 1 \<Longrightarrow> label_name (fn_insns fn ! i) \<noteq> Some s"
proof -
  have ne: "slots ! h \<noteq> 0" using assms(3) by (auto simp: slot_key_def split: if_splits)
  note L = assms(1) [unfolded labels_in_def]
  have a: "slots ! h \<le> m" "label_name (fn_insns fn ! (slots ! h - 1)) \<noteq> None"
    "\<forall>i < slots ! h - 1. label_name (fn_insns fn ! i) \<noteq> label_name (fn_insns fn ! (slots ! h - 1))"
    using L assms(2) ne by blast+
  have b: "label_name (fn_insns fn ! (slots ! h - 1)) = Some s"
    using assms(3) ne label_sym [OF a(2)] by (simp add: slot_key_def slot_name_def)
  show "0 < slots ! h" "slots ! h \<le> m" "label_name (fn_insns fn ! (slots ! h - 1)) = Some s" using ne a b by auto
  show "i < slots ! h - 1 \<Longrightarrow> label_name (fn_insns fn ! i) \<noteq> Some s" using a(3) b by metis
qed

lemma slot_probe:
  assumes "labels_in fn m slots"
  shows "probe (\<lambda>h. slots ! h = 0 \<or> slot_name fn (slots ! h) = Some s) (next_slot (length slots)) (length slots)
      (slot_of (mettle_fnv1a_hash s) (length slots)) =
    probe (\<lambda>h. slot_key fn slots h = None \<or> slot_key fn slots h = Some s) (next_slot (length slots)) (length slots)
      (slot_of (mettle_fnv1a_hash s) (length slots))"
proof -
  have sz: "pow2_size (length slots)" using assms by (simp add: labels_in_def lp.placed_def)
  show ?thesis
  proof (rule probe_cong [where n = "length slots"])
    show "slots ! h = 0 \<or> slot_name fn (slots ! h) = Some s \<longleftrightarrow>
        slot_key fn slots h = None \<or> slot_key fn slots h = Some s" if "h < length slots" for h
      using slot_key_None [OF assms that] by (auto simp: slot_key_def)
    show "next_slot (length slots) b < length slots" if "b < length slots" for b
      using lp.nxt_mod [OF sz that] that by (metis gr_implies_not_zero mod_less_divisor neq0_conv)
    show "slot_of (mettle_fnv1a_hash s) (length slots) < length slots" by (rule lp.home_less [OF sz])
  qed
qed

lemma labels_roomy:
  assumes "labels_in fn m slots" and "length (filter mir_cfg_is_label (take m (fn_insns fn))) < length slots"
  shows "lp.roomy (slot_key fn slots) (length slots)"
proof (rule ccontr)
  assume "\<not> ?thesis"
  then have "\<forall>h < length slots. slots ! h \<noteq> 0"
    using slot_key_None [OF assms(1)] unfolding lp.roomy_def by blast
  then have "{h. h < length slots \<and> slots ! h \<noteq> 0} = {..<length slots}" by auto
  then show False using assms by (simp add: labels_in_def)
qed

lemma label_insert_in:
  assumes l: "labels_in fn m slots" and m: "m < length (fn_insns fn)"
    and room: "length (filter mir_cfg_is_label (fn_insns fn)) < length slots"
  shows "\<exists>slots'. label_insert fn m slots = Inr slots' \<and> labels_in fn (Suc m) slots' \<and> length slots' = length slots"
proof -
  let ?n = "length slots" and ?in = "fn_insns fn ! m"
  note L = l [unfolded labels_in_def]
  have tk: "take (Suc m) (fn_insns fn) = take m (fn_insns fn) @ [?in]" using m by (simp add: take_Suc_conv_app_nth)
  have "length (filter mir_cfg_is_label (take m (fn_insns fn))) \<le> length (filter mir_cfg_is_label (fn_insns fn))"
    by (metis append_take_drop_id filter_append le_add1 length_append)
  then have few: "length (filter mir_cfg_is_label (take m (fn_insns fn))) < ?n" using room by simp
  show ?thesis
  proof (cases "label_name ?in")
    case None
    then have "label_insert fn m slots = Inr slots" by (simp add: label_insert_def)
    moreover have "labels_in fn (Suc m) slots"
      using L None unfolding labels_in_def tk by (auto simp: less_Suc_eq le_SucI mir_cfg_is_label_def)
    ultimately show ?thesis by simp
  next
    case (Some s)
    show ?thesis
    proof (cases "\<exists>h < ?n. slot_key fn slots h = Some s")
      case True
      then obtain h where h: "h < ?n" "slot_key fn slots h = Some s" by blast
      have "probe (\<lambda>h. slot_key fn slots h = None \<or> slot_key fn slots h = Some s) (next_slot ?n) ?n
          (slot_of (mettle_fnv1a_hash s) ?n) = Inr h"
        by (rule lp.find_hit) (use L h in auto)
      then have "label_insert fn m slots = Inr slots"
        using Some slot_key_Some(1) [OF l h] by (simp add: label_insert_def slot_probe [OF l])
      moreover have "labels_in fn (Suc m) slots"
        using L Some h unfolding labels_in_def tk by (auto simp: less_Suc_eq le_SucI)
      ultimately show ?thesis by simp
    next
      case False
      obtain i where i: "i < ?n" "probe (\<lambda>b. slot_key fn slots b = None \<or> slot_key fn slots b = Some s)
          (next_slot ?n) ?n (slot_of (mettle_fnv1a_hash s) ?n) = Inr (lp.walk mettle_fnv1a_hash s ?n i)"
        "slot_key fn slots (lp.walk mettle_fnv1a_hash s ?n i) = None"
        "\<forall>j < i. slot_key fn slots (lp.walk mettle_fnv1a_hash s ?n j) \<noteq> None"
        by (rule lp.find_miss [of mettle_fnv1a_hash "slot_key fn slots" ?n s])
          (use L False labels_roomy [OF l few] in auto)
      let ?h = "lp.walk mettle_fnv1a_hash s ?n i"
      let ?slots = "slots[?h := Suc m]"
      have sz: "pow2_size ?n" using L by (simp add: lp.placed_def)
      have h: "?h < ?n" by (rule lp.walk_less [OF sz])
      have free: "slots ! ?h = 0" using slot_key_None [OF l h] i(3) by simp
      have ins: "label_insert fn m slots = Inr ?slots"
        using Some i(2) free by (simp add: label_insert_def slot_probe [OF l])
      have key: "slot_key fn ?slots c = ((slot_key fn slots)(?h \<mapsto> s)) c" if "c < ?n" for c
        using that h Some label_sym [of ?in] by (auto simp: slot_key_def slot_name_def nth_list_update)
      have "lp.placed mettle_fnv1a_hash ((slot_key fn slots)(?h \<mapsto> s)) ?n"
        by (rule lp.placed_insert) (use L i False in auto)
      then have pl: "lp.placed mettle_fnv1a_hash (slot_key fn ?slots) ?n"
        using lp.placed_cong [of ?n "(slot_key fn slots)(?h \<mapsto> s)" "slot_key fn ?slots"] key by simp
      have fresh: "label_name (fn_insns fn ! k) \<noteq> Some s" if "k < m" for k using L False that by blast
      have occ: "{c. c < ?n \<and> ?slots ! c \<noteq> 0} = insert ?h {c. c < ?n \<and> slots ! c \<noteq> 0}"
        using h by (auto simp: nth_list_update)
      have card: "card {c. c < ?n \<and> ?slots ! c \<noteq> 0} \<le> Suc (card {c. c < ?n \<and> slots ! c \<noteq> 0})"
        unfolding occ by (rule card_insert_le_m1) auto
      have "labels_in fn (Suc m) ?slots"
        unfolding labels_in_def length_list_update
      proof (intro conjI allI impI)
        show "lp.placed mettle_fnv1a_hash (slot_key fn ?slots) ?n" by (rule pl)
        show "card {c. c < ?n \<and> ?slots ! c \<noteq> 0} \<le> length (filter mir_cfg_is_label (take (Suc m) (fn_insns fn)))"
          using card L Some unfolding tk by (simp add: mir_cfg_is_label_def)
        fix k t assume k: "k < Suc m" "label_name (fn_insns fn ! k) = Some t"
        show "\<exists>c < ?n. slot_key fn ?slots c = Some t"
        proof (cases "k = m")
          case True
          then show ?thesis using k Some h key [OF h] by auto
        next
          case False
          then have "k < m" using k by simp
          then obtain c where c: "c < ?n" "slot_key fn slots c = Some t" using L k by blast
          then have "c \<noteq> ?h" using i(3) by auto
          then show ?thesis using c key [of c] by auto
        qed
      next
        fix c assume c: "c < ?n" "?slots ! c \<noteq> 0"
        show "?slots ! c \<le> Suc m" "label_name (fn_insns fn ! (?slots ! c - 1)) \<noteq> None"
          using c L Some h by (auto simp: nth_list_update le_SucI split: if_splits)
        fix k assume "k < ?slots ! c - 1"
        then show "label_name (fn_insns fn ! k) \<noteq> label_name (fn_insns fn ! (?slots ! c - 1))"
          using c L Some h fresh by (auto simp: nth_list_update split: if_splits)
      qed
      then show ?thesis using ins by simp
    qed
  qed
qed

lemma label_inserts_in:
  assumes "labels_in fn 0 slots" and "length (filter mir_cfg_is_label (fn_insns fn)) < length slots"
    and "m \<le> length (fn_insns fn)"
  shows "\<exists>slots'. label_inserts fn [0..<m] slots = Inr slots' \<and> labels_in fn m slots' \<and> length slots' = length slots"
  using assms(3)
proof (induction m)
  case 0
  then show ?case using assms(1) by simp
next
  case (Suc m)
  have app: "label_inserts fn (xs @ ys) sl = andthen (label_inserts fn xs sl) (label_inserts fn ys)" for xs ys sl
  proof (induction xs arbitrary: sl)
    case (Cons x xs)
    then have "label_inserts fn (xs @ ys) = (\<lambda>sl. andthen (label_inserts fn xs sl) (label_inserts fn ys))" by blast
    then show ?case by (simp add: andthen_assoc)
  qed simp
  obtain s1 where s1: "label_inserts fn [0..<m] slots = Inr s1" "labels_in fn m s1" "length s1 = length slots"
    using Suc by auto
  obtain s2 where "label_insert fn m s1 = Inr s2" "labels_in fn (Suc m) s2" "length s2 = length s1"
    using label_insert_in [OF s1(2)] Suc.prems assms(2) s1(3) by auto
  then show ?case using s1 by (simp add: app)
qed


text \<open>Building the map always succeeds when its memory is there, and lookup finds the first label.\<close>

lemma label_map_built:
  assumes "ok LabelSlots" and "length (fn_insns fn) < 2 ^ 31"
  obtains slots where "mir_cfg_label_map_build ok fn = Inr slots"
    and "labels_in fn (length (fn_insns fn)) slots"
    and "length (filter mir_cfg_is_label (fn_insns fn)) < length slots"
proof -
  let ?L = "length (filter mir_cfg_is_label (fn_insns fn))"
  let ?n = "double_until 16 (?L * 2)"
  have "?L < 2 ^ 31" using assms(2) length_filter_le [of mir_cfg_is_label "fn_insns fn"] by linarith
  then have "?n < 2 ^ 63"
    using double_until_less [of 16 "?L * 2"] double_until.simps [of 16 "?L * 2"] by (cases "16 < ?L * 2") auto
  moreover obtain j where j: "?n = 2 ^ (4 + j)" using double_until_pow2 [of 4 "?L * 2"] by auto
  ultimately have "(2 :: nat) ^ (4 + j) < 2 ^ 63" by simp
  then have "4 + j < 63" by (rule power_less_imp_less_exp [rotated]) simp
  then have "pow2_size ?n" unfolding pow2_size_def j by (intro exI [of _ "4 + j"]) simp
  moreover have room: "?L < ?n" using double_until_ge [of 16 "?L * 2"] double_until_le [of 16 "?L * 2"] by simp
  ultimately have "labels_in fn 0 (replicate ?n 0)"
    by (auto simp: labels_in_def slot_key_def intro!: lp.placed_empty)
  then obtain slots where "label_inserts fn [0..<length (fn_insns fn)] (replicate ?n 0) = Inr slots"
    "labels_in fn (length (fn_insns fn)) slots" "length slots = ?n"
    using label_inserts_in [of fn "replicate ?n 0" "length (fn_insns fn)"] room by auto
  then show ?thesis using that [of slots] assms(1) room
    by (simp add: mir_cfg_label_map_build_def allocate_mem_def Let_def)
qed

lemma label_at_first:
  "label_at fn (Some s) = Some j \<longleftrightarrow>
   j < length (fn_insns fn) \<and> label_name (fn_insns fn ! j) = Some s \<and>
   (\<forall>i < j. label_name (fn_insns fn ! i) \<noteq> Some s)"
  (is "?l \<longleftrightarrow> ?r")
proof
  show "?l \<Longrightarrow> ?r" by (auto simp: label_at_def find_Some_iff nth_enumerate_eq)
  assume ?r
  then have "find (\<lambda>l. label_name (snd l) = Some s) (enumerate 0 (fn_insns fn)) = Some (j, fn_insns fn ! j)"
    unfolding find_Some_iff by (intro exI [of _ j]) (auto simp: nth_enumerate_eq)
  then show ?l by (simp add: label_at_def)
qed

lemma label_find_first:
  assumes l: "labels_in fn (length (fn_insns fn)) slots"
    and room: "length (filter mir_cfg_is_label (fn_insns fn)) < length slots"
  shows "mir_cfg_label_find fn slots name = Inr (case label_at fn name of None \<Rightarrow> -1 | Some j \<Rightarrow> int j)"
proof (cases name)
  case None
  then show ?thesis by (simp add: mir_cfg_label_find_def label_at_def)
next
  case (Some s)
  let ?n = "length slots"
  show ?thesis
  proof (cases "\<exists>h < ?n. slot_key fn slots h = Some s")
    case True
    then obtain h where h: "h < ?n" "slot_key fn slots h = Some s" by blast
    have "probe (\<lambda>h. slot_key fn slots h = None \<or> slot_key fn slots h = Some s) (next_slot ?n) ?n
        (slot_of (mettle_fnv1a_hash s) ?n) = Inr h"
      by (rule lp.find_hit) (use l h in \<open>auto simp: labels_in_def\<close>)
    moreover note k = slot_key_Some [OF l h]
    moreover have "label_at fn (Some s) = Some (slots ! h - 1)"
      unfolding label_at_first using k by auto
    ultimately show ?thesis using Some by (simp add: mir_cfg_label_find_def slot_probe [OF l] of_nat_diff)
  next
    case False
    obtain i where i: "i < ?n" "probe (\<lambda>b. slot_key fn slots b = None \<or> slot_key fn slots b = Some s)
        (next_slot ?n) ?n (slot_of (mettle_fnv1a_hash s) ?n) = Inr (lp.walk mettle_fnv1a_hash s ?n i)"
      "slot_key fn slots (lp.walk mettle_fnv1a_hash s ?n i) = None"
      by (rule lp.find_miss [of mettle_fnv1a_hash "slot_key fn slots" ?n s])
        (use l False labels_roomy [OF l] room in \<open>auto simp: labels_in_def\<close>)
    have sz: "pow2_size ?n" using l by (simp add: labels_in_def lp.placed_def)
    have "slots ! lp.walk mettle_fnv1a_hash s ?n i = 0"
      using slot_key_None [OF l lp.walk_less [OF sz, of mettle_fnv1a_hash s i]] i(3) by blast
    moreover have "label_at fn (Some s) = None"
    proof (rule ccontr)
      assume "label_at fn (Some s) \<noteq> None"
      then obtain j where "j < length (fn_insns fn)" "label_name (fn_insns fn ! j) = Some s"
        using label_at_first by auto
      then show False using l False unfolding labels_in_def by blast
    qed
    ultimately show ?thesis using Some i(2) by (simp add: mir_cfg_label_find_def slot_probe [OF l])
  qed
qed

section \<open>Edges\<close>

text \<open>What linking leaves alone.\<close>

definition spans :: "MirCfg \<Rightarrow> (nat \<times> nat) list" where
  "spans cfg = map (\<lambda>b. (bk_start b, bk_end b)) (cf_blocks cfg)"

lemma spans_eqD:
  assumes "spans cfg' = spans cfg"
  shows "length (cf_blocks cfg') = length (cf_blocks cfg)"
    and "b < length (cf_blocks cfg) \<Longrightarrow> bk_start (cf_blocks cfg' ! b) = bk_start (cf_blocks cfg ! b)"
    and "b < length (cf_blocks cfg) \<Longrightarrow> bk_end (cf_blocks cfg' ! b) = bk_end (cf_blocks cfg ! b)"
proof -
  show l: "length (cf_blocks cfg') = length (cf_blocks cfg)"
    using arg_cong [OF assms, of length] by (simp add: spans_def)
  have "spans cfg' ! b = spans cfg ! b" by (simp add: assms)
  then show "b < length (cf_blocks cfg) \<Longrightarrow> bk_start (cf_blocks cfg' ! b) = bk_start (cf_blocks cfg ! b)"
    "b < length (cf_blocks cfg) \<Longrightarrow> bk_end (cf_blocks cfg' ! b) = bk_end (cf_blocks cfg ! b)"
    using l by (simp_all add: spans_def)
qed

lemma spans_blocks: "cf_blocks cfg' = cf_blocks cfg \<Longrightarrow> spans cfg' = spans cfg"
  by (simp add: spans_def)

lemma spans_set_block:
  "(\<And>x. bk_start (f x) = bk_start x) \<Longrightarrow> (\<And>x. bk_end (f x) = bk_end x) \<Longrightarrow> spans (set_block cfg b f) = spans cfg"
  by (cases "b < length (cf_blocks cfg)") (simp_all add: spans_def map_update list_update_same_conv list_update_beyond)

definition edges_wf :: "MirCfg \<Rightarrow> bool" where
  "edges_wf cfg \<longleftrightarrow>
     linked (cf_edge_next cfg) \<and> length (cf_edge_next cfg) = length (cf_edge_to cfg) \<and>
     (\<forall>e < length (cf_edge_to cfg). cf_edge_to cfg ! e < length (cf_blocks cfg)) \<and>
     (\<forall>b < length (cf_blocks cfg).
        -1 \<le> bk_succ_head (cf_blocks cfg ! b) \<and> bk_succ_head (cf_blocks cfg ! b) < int (length (cf_edge_to cfg)) \<and>
        -1 \<le> bk_pred_head (cf_blocks cfg ! b) \<and> bk_pred_head (cf_blocks cfg ! b) < int (length (cf_edge_to cfg)))"

text \<open>Adding an edge: the list with the new head gains it, every other list stays.\<close>

lemma edge_add:
  assumes w: "edges_wf cfg" and r: "mir_cfg_edge_add ok cfg h to = Inr (cfg', e)"
    and h: "-1 \<le> h" "h < int (length (cf_edge_to cfg))"
  shows "e = int (length (cf_edge_to cfg))" and "cf_blocks cfg' = cf_blocks cfg" and "cf_block_of cfg' = cf_block_of cfg"
    and "cf_words cfg' = cf_words cfg"
    and "cf_edge_to cfg' = cf_edge_to cfg @ [to]" and "cf_edge_next cfg' = cf_edge_next cfg @ [h]"
    and "linked (cf_edge_next cfg')"
    and "map ((!) (cf_edge_to cfg')) (edges_from (cf_edge_next cfg') e) =
      to # map ((!) (cf_edge_to cfg)) (edges_from (cf_edge_next cfg) h)"
    and "-1 \<le> k \<Longrightarrow> k < int (length (cf_edge_to cfg)) \<Longrightarrow>
      map ((!) (cf_edge_to cfg')) (edges_from (cf_edge_next cfg') k) =
      map ((!) (cf_edge_to cfg)) (edges_from (cf_edge_next cfg) k)"
proof -
  have c: "cf_edge_to cfg' = cf_edge_to cfg @ [to]" "cf_edge_next cfg' = cf_edge_next cfg @ [h]"
    "e = int (length (cf_edge_to cfg))"
    and o: "cf_blocks cfg' = cf_blocks cfg" "cf_block_of cfg' = cf_block_of cfg" "cf_words cfg' = cf_words cfg"
    using r by (auto simp: mir_cfg_edge_add_def Let_def andthen_Inr_iff split: if_splits)
  show "e = int (length (cf_edge_to cfg))" "cf_blocks cfg' = cf_blocks cfg" "cf_block_of cfg' = cf_block_of cfg"
    "cf_words cfg' = cf_words cfg" "cf_edge_to cfg' = cf_edge_to cfg @ [to]" "cf_edge_next cfg' = cf_edge_next cfg @ [h]"
    using c o by auto
  have lk: "linked (cf_edge_next cfg)" and ln: "length (cf_edge_next cfg) = length (cf_edge_to cfg)"
    using w by (auto simp: edges_wf_def)
  show "linked (cf_edge_next cfg')" unfolding c by (rule linked_snoc [OF lk]) (use h ln in auto)
  have m: "map ((!) (cf_edge_to cfg @ [to])) (edges_from (cf_edge_next cfg) k) =
      map ((!) (cf_edge_to cfg)) (edges_from (cf_edge_next cfg) k)" if "k < int (length (cf_edge_to cfg))" for k
    using edges_from_less [OF lk, of k] ln that by (auto simp: nth_append)
  show "map ((!) (cf_edge_to cfg')) (edges_from (cf_edge_next cfg') e) =
      to # map ((!) (cf_edge_to cfg)) (edges_from (cf_edge_next cfg) h)"
    using edges_from_new [OF lk, of h] ln h m [of h] by (simp add: c)
  show "map ((!) (cf_edge_to cfg')) (edges_from (cf_edge_next cfg') k) =
      map ((!) (cf_edge_to cfg)) (edges_from (cf_edge_next cfg) k)"
    if "-1 \<le> k" "k < int (length (cf_edge_to cfg))"
    using edges_from_append [OF lk, of k] ln m [of k] that by (simp add: c)
qed


text \<open>\<open>gains cfg from cs cfg'\<close>: \<open>cfg'\<close> is \<open>cfg\<close> with edges from block \<open>from\<close> to the blocks \<open>cs\<close>.\<close>

definition gains :: "MirCfg \<Rightarrow> nat \<Rightarrow> nat set \<Rightarrow> MirCfg \<Rightarrow> bool" where
  "gains cfg from cs cfg' \<longleftrightarrow>
     edges_wf cfg' \<and> spans cfg' = spans cfg \<and> cf_block_of cfg' = cf_block_of cfg \<and> cf_words cfg' = cf_words cfg \<and>
     (\<forall>b < length (cf_blocks cfg). set (succs_of cfg' b) = set (succs_of cfg b) \<union> (if b = from then cs else {})) \<and>
     (\<forall>c < length (cf_blocks cfg). set (preds_of cfg' c) = set (preds_of cfg c) \<union> (if c \<in> cs then {from} else {}))"

lemma gains_refl: "edges_wf cfg \<Longrightarrow> gains cfg from {} cfg"
  by (simp add: gains_def)

lemma gains_trans: "gains cfg from cs cfg1 \<Longrightarrow> gains cfg1 from cs' cfg2 \<Longrightarrow> gains cfg from (cs \<union> cs') cfg2"
proof -
  assume a: "gains cfg from cs cfg1" and b: "gains cfg1 from cs' cfg2"
  have l: "length (cf_blocks cfg1) = length (cf_blocks cfg)" by (rule spans_eqD(1)) (use a in \<open>simp add: gains_def\<close>)
  have "set (succs_of cfg2 k) = set (succs_of cfg k) \<union> (if k = from then cs \<union> cs' else {})"
    "set (preds_of cfg2 k) = set (preds_of cfg k) \<union> (if k \<in> cs \<union> cs' then {from} else {})"
    if "k < length (cf_blocks cfg)" for k
    using a b l that unfolding gains_def by (auto split: if_splits)
  then show ?thesis using a b unfolding gains_def by (intro conjI allI impI) auto
qed

lemma edges_wf_more:
  assumes w: "edges_wf cfg" and e: "cf_edge_to cfg' = cf_edge_to cfg @ [to]" "cf_edge_next cfg' = cf_edge_next cfg @ [h]"
    and l: "linked (cf_edge_next cfg')" and to: "to < length (cf_blocks cfg)"
    and b: "length (cf_blocks cfg') = length (cf_blocks cfg)"
    and s: "\<And>b. b < length (cf_blocks cfg) \<Longrightarrow>
      bk_succ_head (cf_blocks cfg' ! b) \<in> {bk_succ_head (cf_blocks cfg ! b), int (length (cf_edge_to cfg))}"
    and p: "\<And>b. b < length (cf_blocks cfg) \<Longrightarrow>
      bk_pred_head (cf_blocks cfg' ! b) \<in> {bk_pred_head (cf_blocks cfg ! b), int (length (cf_edge_to cfg))}"
  shows "edges_wf cfg'"
proof -
  have old: "-1 \<le> bk_succ_head (cf_blocks cfg ! b)" "bk_succ_head (cf_blocks cfg ! b) < int (length (cf_edge_to cfg))"
    "-1 \<le> bk_pred_head (cf_blocks cfg ! b)" "bk_pred_head (cf_blocks cfg ! b) < int (length (cf_edge_to cfg))"
    if "b < length (cf_blocks cfg)" for b using w that by (auto simp: edges_wf_def)
  have "cf_edge_to cfg' ! k < length (cf_blocks cfg)" if "k < length (cf_edge_to cfg')" for k
    using w to that by (cases "k < length (cf_edge_to cfg)") (auto simp: edges_wf_def e nth_append)
  moreover have "-1 \<le> bk_succ_head (cf_blocks cfg' ! c)" "bk_succ_head (cf_blocks cfg' ! c) < int (length (cf_edge_to cfg'))"
    "-1 \<le> bk_pred_head (cf_blocks cfg' ! c)" "bk_pred_head (cf_blocks cfg' ! c) < int (length (cf_edge_to cfg'))"
    if "c < length (cf_blocks cfg)" for c
    using s [OF that] p [OF that] old [OF that] by (auto simp: e)
  moreover have "length (cf_edge_next cfg') = length (cf_edge_to cfg')" using w by (simp add: e edges_wf_def)
  ultimately show ?thesis using l b unfolding edges_wf_def by simp
qed

lemma link_gains:
  assumes w: "edges_wf cfg" and fr: "from < length (cf_blocks cfg)"
    and t: "cf_block_of cfg ! nat target < length (cf_blocks cfg)"
    and r: "mir_cfg_link ok from target cfg = Inr cfg'"
  shows "0 \<le> target \<and> gains cfg from {cf_block_of cfg ! nat target} cfg'"
proof -
  let ?to = "cf_block_of cfg ! nat target" and ?B = "length (cf_blocks cfg)"
  obtain c1 e1 c3 e2 where t0: "0 \<le> target"
    and a1: "mir_cfg_edge_add ok cfg (bk_succ_head (cf_blocks cfg ! from)) ?to = Inr (c1, e1)"
    and a2: "mir_cfg_edge_add ok (set_block c1 from (bk_succ_head_update (\<lambda>_. e1)))
        (bk_pred_head (cf_blocks (set_block c1 from (bk_succ_head_update (\<lambda>_. e1))) ! ?to)) from = Inr (c3, e2)"
    and c': "cfg' = set_block c3 ?to (bk_pred_head_update (\<lambda>_. e2))"
    using r by (auto simp: mir_cfg_link_def need_def Let_def andthen_Inr_iff split: if_splits)
  define c2 where "c2 = set_block c1 from (bk_succ_head_update (\<lambda>_. e1))"
  have hd: "-1 \<le> bk_succ_head (cf_blocks cfg ! b)" "bk_succ_head (cf_blocks cfg ! b) < int (length (cf_edge_to cfg))"
    "-1 \<le> bk_pred_head (cf_blocks cfg ! b)" "bk_pred_head (cf_blocks cfg ! b) < int (length (cf_edge_to cfg))"
    if "b < ?B" for b using w that by (auto simp: edges_wf_def)
  note A1 = edge_add [OF w a1 hd(1,2) [OF fr]]
  have ln: "length (cf_edge_next cfg) = length (cf_edge_to cfg)" using w by (simp add: edges_wf_def)
  have f2: "cf_edge_to c2 = cf_edge_to c1" "cf_edge_next c2 = cf_edge_next c1" "cf_block_of c2 = cf_block_of cfg"
    "cf_words c2 = cf_words cfg" "length (cf_blocks c2) = ?B"
    "\<And>b. b < ?B \<Longrightarrow> bk_pred_head (cf_blocks c2 ! b) = bk_pred_head (cf_blocks cfg ! b)"
    "\<And>b. b < ?B \<Longrightarrow> bk_succ_head (cf_blocks c2 ! b) = (if b = from then e1 else bk_succ_head (cf_blocks cfg ! b))"
    using A1(2,3,4) fr by (auto simp: c2_def nth_list_update)
  have w2: "edges_wf c2"
    by (rule edges_wf_more [OF w, of _ ?to "bk_succ_head (cf_blocks cfg ! from)"])
      (use A1(1,5,6,7) t f2 in auto)
  have a2': "mir_cfg_edge_add ok c2 (bk_pred_head (cf_blocks c2 ! ?to)) from = Inr (c3, e2)"
    using a2 by (simp add: c2_def)
  have hd2: "-1 \<le> bk_succ_head (cf_blocks c2 ! b)" "bk_succ_head (cf_blocks c2 ! b) < int (length (cf_edge_to c2))"
    "-1 \<le> bk_pred_head (cf_blocks c2 ! b)" "bk_pred_head (cf_blocks c2 ! b) < int (length (cf_edge_to c2))"
    if "b < ?B" for b using w2 that f2(5) by (auto simp: edges_wf_def)
  note A2 = edge_add [OF w2 a2' hd2(3,4) [OF t]]
  have f3: "cf_edge_to cfg' = cf_edge_to c3" "cf_edge_next cfg' = cf_edge_next c3" "length (cf_blocks cfg') = ?B"
    "\<And>b. b < ?B \<Longrightarrow> bk_succ_head (cf_blocks cfg' ! b) = bk_succ_head (cf_blocks c2 ! b)"
    "\<And>b. b < ?B \<Longrightarrow> bk_pred_head (cf_blocks cfg' ! b) = (if b = ?to then e2 else bk_pred_head (cf_blocks c2 ! b))"
    using A2(2) t f2(5) by (auto simp: c' nth_list_update)
  have "edges_wf cfg'"
    by (rule edges_wf_more [OF w2, of _ "from" "bk_pred_head (cf_blocks c2 ! ?to)"])
      (use A2(1,5,6,7) fr f2(5) f3 in auto)
  moreover have "spans cfg' = spans c3" "spans c2 = spans c1"
    unfolding c' c2_def by (rule spans_set_block; simp)+
  then have "spans cfg' = spans cfg" using spans_blocks [OF A2(2)] spans_blocks [OF A1(2)] by simp
  moreover have "cf_block_of cfg' = cf_block_of cfg" "cf_words cfg' = cf_words cfg"
    using A2(3,4) f2(3,4) by (simp_all add: c')
  moreover have "succs_of cfg' b = (if b = from then [?to] else []) @ succs_of cfg b" if b: "b < ?B" for b
    using A2(9) [OF hd2(1,2) [OF b]] A1(8) A1(9) [OF hd(1,2) [OF b]] b f2 f3
    by (simp add: succs_of_def comp_def)
  moreover have "preds_of cfg' b = (if b = ?to then [from] else []) @ preds_of cfg b" if b: "b < ?B" for b
    using A2(9) [OF hd2(3,4) [OF b]] A2(8) A1(9) [OF hd(3,4) [OF b]] A1(9) [OF hd(3,4) [OF t]] b f2 f3 t
    by (simp add: preds_of_def comp_def)
  ultimately show ?thesis using t0 by (auto simp: gains_def)
qed


text \<open>The instructions of a graph are those of the function, and its names are found.\<close>

lemma blocks_wf_spans:
  assumes w: "blocks_wf fn bo (cf_blocks cfg)" and s: "spans cfg' = spans cfg"
  shows "blocks_wf fn bo (cf_blocks cfg')"
proof -
  have l: "length (cf_blocks cfg') = length (cf_blocks cfg)" by (rule spans_eqD(1) [OF s])
  have at: "bk_start (cf_blocks cfg' ! b) = bk_start (cf_blocks cfg ! b)" "bk_end (cf_blocks cfg' ! b) = bk_end (cf_blocks cfg ! b)"
    if "b < length (cf_blocks cfg)" for b using spans_eqD(2,3) [OF s that] .
  show ?thesis using w unfolding blocks_wf_def l by (simp add: at)
qed

lemma blocks_wfD:
  assumes "blocks_wf fn bo blocks"
  shows "length bo = length (fn_insns fn)"
    and "i < length (fn_insns fn) \<Longrightarrow> bo ! i < length blocks"
    and "i < length (fn_insns fn) \<Longrightarrow> bk_start (blocks ! (bo ! i)) \<le> i"
    and "i < length (fn_insns fn) \<Longrightarrow> i < bk_end (blocks ! (bo ! i))"
    and "i < length (fn_insns fn) \<Longrightarrow> leader fn i \<Longrightarrow> bk_start (blocks ! (bo ! i)) = i"
    and "b < length blocks \<Longrightarrow> bk_start (blocks ! b) < bk_end (blocks ! b)"
    and "b < length blocks \<Longrightarrow> bk_end (blocks ! b) \<le> length (fn_insns fn)"
    and "b < length blocks \<Longrightarrow> bk_start (blocks ! b) \<le> i \<Longrightarrow> i < bk_end (blocks ! b) \<Longrightarrow> bo ! i = b"
    and "b + 1 < length blocks \<Longrightarrow> bk_start (blocks ! (b + 1)) = bk_end (blocks ! b)"
    and "b + 1 = length blocks \<Longrightarrow> bk_end (blocks ! b) = length (fn_insns fn)"
  using assms by (auto simp: blocks_wf_def)

text \<open>Where control can go from the end of a block.\<close>

definition follows :: "MirFunction \<Rightarrow> nat list \<Rightarrow> MirCfgBlock \<Rightarrow> nat set" where
  "follows fn bo blk = (!) bo ` {j. next_insn fn (bk_end blk - 1) j}"

definition finds_labels :: "MirFunction \<Rightarrow> nat list \<Rightarrow> bool" where
  "finds_labels fn slots \<longleftrightarrow>
     (\<forall>name. mir_cfg_label_find fn slots name = Inr (case label_at fn name of None \<Rightarrow> -1 | Some j \<Rightarrow> int j))"

lemma link_labels_gains:
  assumes f: "finds_labels fn slots" and b: "b < length (cf_blocks cfg)"
    and bo: "\<And>j. j < length (fn_insns fn) \<Longrightarrow> cf_block_of cfg ! j < length (cf_blocks cfg)"
  shows "edges_wf cfg \<Longrightarrow> link_labels ok fn slots b ls cfg = Inr cfg' \<Longrightarrow>
    gains cfg b {cf_block_of cfg ! j | j. Some j \<in> label_at fn ` set ls} cfg'"
  using b bo
proof (induction ls arbitrary: cfg)
  case Nil
  then show ?case by (simp add: gains_refl)
next
  case (Cons l ls)
  have find: "mir_cfg_label_find fn slots l = Inr (case label_at fn l of None \<Rightarrow> -1 | Some j \<Rightarrow> int j)"
    using f by (simp add: finds_labels_def)
  show ?case
  proof (cases "label_at fn l")
    case None
    then show ?thesis using Cons.prems(2) find by (simp add: mir_cfg_link_def need_def)
  next
    case (Some j)
    obtain c1 where c1: "mir_cfg_link ok b (int j) cfg = Inr c1" "link_labels ok fn slots b ls c1 = Inr cfg'"
      using Cons.prems(2) find Some by (auto simp: andthen_Inr_iff)
    have g: "gains cfg b {cf_block_of cfg ! j} c1"
      using link_gains [OF Cons.prems(1,3) _ c1(1)] Cons.prems(4) [OF label_at_less [OF Some]] by simp
    have same: "cf_block_of c1 = cf_block_of cfg" "length (cf_blocks c1) = length (cf_blocks cfg)" "edges_wf c1"
      using g spans_eqD(1) [of c1 cfg] by (auto simp: gains_def)
    have "gains c1 b {cf_block_of c1 ! j | j. Some j \<in> label_at fn ` set ls} cfg'"
      by (rule Cons.IH [OF same(3) c1(2)]) (use Cons.prems(3,4) same in auto)
    from gains_trans [OF g this]
    have "gains cfg b ({cf_block_of cfg ! j} \<union> {cf_block_of cfg ! j | j. Some j \<in> label_at fn ` set ls}) cfg'"
      by (simp add: same(1))
    moreover have "{cf_block_of cfg ! j} \<union> {cf_block_of cfg ! j | j. Some j \<in> label_at fn ` set ls} =
        {cf_block_of cfg ! j | j. Some j \<in> label_at fn ` set (l # ls)}"
      using Some by auto
    ultimately show ?thesis by simp
  qed
qed


lemma link_block_gains:
  assumes f: "finds_labels fn slots" and b: "b < length (cf_blocks cfg)" and e: "edges_wf cfg"
    and w: "blocks_wf fn (cf_block_of cfg) (cf_blocks cfg)"
    and r: "mir_cfg_link_block ok fn slots b cfg = Inr cfg'"
  shows "gains cfg b (follows fn (cf_block_of cfg) (cf_blocks cfg ! b)) cfg'"
proof -
  let ?bo = "cf_block_of cfg" and ?i = "bk_end (cf_blocks cfg ! b) - 1"
  let ?op = "in_op (fn_insns fn ! ?i)" and ?B = "length (cf_blocks cfg)"
  define tgt where "tgt ls = {?bo ! j | j. Some j \<in> label_at fn ` set ls}" for ls
  define fall where "fall = (\<lambda>cfg. if b + 1 < length (cf_blocks cfg)
                        then mir_cfg_link ok b (int (bk_start (cf_blocks cfg ! (b + 1)))) cfg else Inr cfg)"
  define fs where "fs = (if b + 1 < ?B then {b + 1} else {})"
  note W = blocks_wfD [OF w]
  have i: "?i < length (fn_insns fn)" "?i + 1 = bk_end (cf_blocks cfg ! b)" using W(6,7) [OF b] by auto
  have fs: "fs = (!) ?bo ` {j. j = ?i + 1 \<and> j < length (fn_insns fn)}"
  proof (cases "b + 1 < ?B")
    case True
    then have "?bo ! bk_end (cf_blocks cfg ! b) = b + 1" "bk_end (cf_blocks cfg ! b) < length (fn_insns fn)"
      using W(8) [of "b + 1" "bk_end (cf_blocks cfg ! b)"] W(6,7,9) [of "b + 1"] W(9) [of b] by auto
    then show ?thesis using True i by (auto simp: fs_def)
  next
    case False
    then show ?thesis using W(10) [of b] b i by (auto simp: fs_def)
  qed
  have F: "follows fn ?bo (cf_blocks cfg ! b) =
      (if falls_through ?op then fs else {}) \<union> tgt (branch_targets (fn_insns fn ! ?i))"
    using i(1) unfolding fs follows_def next_insn_def tgt_def by auto
  have labels: "gains cfg b (tgt ls) c1" if "link_labels ok fn slots b ls cfg = Inr c1" for ls c1
    unfolding tgt_def by (rule link_labels_gains [OF f b _ e that]) (use W(2) in auto)
  have falls: "gains c1 b fs c2" if g: "gains cfg b cs c1" and r: "fall c1 = Inr c2" for cs c1 c2
  proof -
    have same: "cf_block_of c1 = ?bo" "length (cf_blocks c1) = ?B" "edges_wf c1" "spans c1 = spans cfg"
      using g spans_eqD(1) [of c1 cfg] by (auto simp: gains_def)
    show ?thesis
    proof (cases "b + 1 < ?B")
      case True
      then have s: "bk_start (cf_blocks c1 ! (b + 1)) = bk_start (cf_blocks cfg ! (b + 1))"
        using spans_eqD(2) [OF same(4)] by simp
      have bo: "?bo ! bk_start (cf_blocks cfg ! (b + 1)) = b + 1" using W(6) [OF True] W(8) [OF True] by simp
      then show ?thesis
        using link_gains [OF same(3), of b "int (bk_start (cf_blocks c1 ! (b + 1)))" ok c2] r True b
        by (simp add: fall_def fs_def same s [simplified])
    qed (use r same in \<open>simp add: fall_def fs_def gains_refl\<close>)
  qed
  have jumps: "in_op x = OpFlow MIR_JMP \<Longrightarrow> \<not> falls_through (in_op x)"
    "in_op x = OpFlow MIR_JMP \<Longrightarrow> branch_targets x = [op_sym (in_dst x)]"
    "is_cond_branch (in_op x) \<Longrightarrow> falls_through (in_op x)"
    "is_cond_branch (in_op x) \<Longrightarrow> branch_targets x = [op_sym (in_dst x)]" for x
    by (auto simp: falls_through_def branch_targets_def is_cond_branch_def)
  note r' = r [unfolded mir_cfg_link_block_def Let_def, folded fall_def]
  consider (jmp) "?op = OpFlow MIR_JMP" | (cond) "?op \<noteq> OpFlow MIR_JMP" "is_cond_branch ?op"
    | (table) "?op = OpFlow MIR_JMP_TABLE" "\<not> is_cond_branch ?op"
    | (leave) "?op = OpFlow MIR_RET \<or> ?op = OpFlow MIR_TRAP"
    | (other) "falls_through ?op" "\<not> is_cond_branch ?op"
    by (auto simp: falls_through_def is_cond_branch_def)
  then show ?thesis
  proof cases
    case jmp
    then show ?thesis using r' labels jumps(1,2) [of "fn_insns fn ! ?i"] by (simp add: F)
  next
    case cond
    then obtain c1 where c1: "link_labels ok fn slots b [op_sym (in_dst (fn_insns fn ! ?i))] cfg = Inr c1" "fall c1 = Inr cfg'"
      using r' by (auto simp: andthen_Inr_iff)
    from gains_trans [OF labels [OF c1(1)] falls [OF labels [OF c1(1)] c1(2)]] show ?thesis
      using jumps(3,4) [OF cond(2)] by (simp add: F Un_commute)
  next
    case table
    then show ?thesis using r' labels
      by (auto simp: F falls_through_def branch_targets_def split: MirAux.splits)
  next
    case leave
    then have "cfg' = cfg" "\<not> falls_through ?op" "branch_targets (fn_insns fn ! ?i) = []"
      using r' by (auto simp: falls_through_def branch_targets_def is_cond_branch_def)
    then show ?thesis using gains_refl [OF e] by (simp add: F tgt_def)
  next
    case other
    then have "fall cfg = Inr cfg'" "branch_targets (fn_insns fn ! ?i) = []"
      using r' by (auto simp: falls_through_def branch_targets_def fall_def)
    then show ?thesis using falls [OF gains_refl [OF e]] other by (simp add: F tgt_def)
  qed
qed


text \<open>The first \<open>k\<close> blocks are linked.\<close>

definition linked_upto :: "MirFunction \<Rightarrow> MirCfg \<Rightarrow> nat \<Rightarrow> MirCfg \<Rightarrow> bool" where
  "linked_upto fn cfg0 k cfg \<longleftrightarrow>
     edges_wf cfg \<and> spans cfg = spans cfg0 \<and> cf_block_of cfg = cf_block_of cfg0 \<and> cf_words cfg = cf_words cfg0 \<and>
     (\<forall>b < length (cf_blocks cfg0). set (succs_of cfg b) =
        (if b < k then follows fn (cf_block_of cfg0) (cf_blocks cfg0 ! b) else {})) \<and>
     (\<forall>c < length (cf_blocks cfg0). set (preds_of cfg c) =
        {b. b < k \<and> c \<in> follows fn (cf_block_of cfg0) (cf_blocks cfg0 ! b)})"

lemma linked_upto_Suc:
  assumes l: "linked_upto fn cfg0 k cfg" and k: "k < length (cf_blocks cfg0)"
    and g: "gains cfg k (follows fn (cf_block_of cfg0) (cf_blocks cfg0 ! k)) cfg'"
  shows "linked_upto fn cfg0 (Suc k) cfg'"
proof -
  have len: "length (cf_blocks cfg) = length (cf_blocks cfg0)"
    by (rule spans_eqD(1)) (use l in \<open>simp add: linked_upto_def\<close>)
  have "set (succs_of cfg' b) = (if b < Suc k then follows fn (cf_block_of cfg0) (cf_blocks cfg0 ! b) else {})"
    if "b < length (cf_blocks cfg0)" for b
    using l g that by (auto simp: linked_upto_def gains_def len)
  moreover have "set (preds_of cfg' c) = {b. b < Suc k \<and> c \<in> follows fn (cf_block_of cfg0) (cf_blocks cfg0 ! b)}"
    if "c < length (cf_blocks cfg0)" for c
    using l g that by (auto simp: linked_upto_def gains_def len less_Suc_eq)
  ultimately show ?thesis using l g unfolding linked_upto_def gains_def by simp
qed

lemma link_blocks_upto:
  assumes f: "finds_labels fn slots" and w: "blocks_wf fn (cf_block_of cfg0) (cf_blocks cfg0)"
    and r: "link_blocks ok fn slots [k..<length (cf_blocks cfg0)] cfg = Inr cfg'"
    and l: "linked_upto fn cfg0 k cfg" and k: "k \<le> length (cf_blocks cfg0)"
  shows "linked_upto fn cfg0 (length (cf_blocks cfg0)) cfg'"
  using r l k
proof (induction "length (cf_blocks cfg0) - k" arbitrary: k cfg)
  case 0
  then show ?case by simp
next
  case (Suc d)
  then have lt: "k < length (cf_blocks cfg0)" by simp
  have same: "spans cfg = spans cfg0" "cf_block_of cfg = cf_block_of cfg0" "edges_wf cfg"
    using Suc.prems(2) by (auto simp: linked_upto_def)
  obtain c1 where c1: "mir_cfg_link_block ok fn slots k cfg = Inr c1"
    "link_blocks ok fn slots [Suc k..<length (cf_blocks cfg0)] c1 = Inr cfg'"
    using Suc.prems(1) lt by (auto simp: upt_conv_Cons andthen_Inr_iff)
  have "gains cfg k (follows fn (cf_block_of cfg) (cf_blocks cfg ! k)) c1"
    by (rule link_block_gains [OF f _ same(3) _ c1(1)])
      (use lt spans_eqD(1) [OF same(1)] blocks_wf_spans [OF w same(1)] same(2) in auto)
  then have "gains cfg k (follows fn (cf_block_of cfg0) (cf_blocks cfg0 ! k)) c1"
    using spans_eqD(3) [OF same(1) lt] by (simp add: follows_def same(2))
  from Suc.hyps(1) [OF _ c1(2) linked_upto_Suc [OF Suc.prems(2) lt this]] show ?case
    using Suc.hyps(2) lt by simp
qed

text \<open>\<open>graph_of fn cfg\<close>: the blocks partition the function and the edges are the steps between them.\<close>

definition graph_of :: "MirFunction \<Rightarrow> MirCfg \<Rightarrow> bool" where
  "graph_of fn cfg \<longleftrightarrow>
     blocks_wf fn (cf_block_of cfg) (cf_blocks cfg) \<and> edges_wf cfg \<and> cf_blocks cfg \<noteq> [] \<and>
     cf_words cfg = (length (fn_vregs fn) + 63) div 64 \<and>
     (\<forall>b < length (cf_blocks cfg). set (succs_of cfg b) = follows fn (cf_block_of cfg) (cf_blocks cfg ! b)) \<and>
     (\<forall>c < length (cf_blocks cfg). set (preds_of cfg c) =
        {b. b < length (cf_blocks cfg) \<and> c \<in> follows fn (cf_block_of cfg) (cf_blocks cfg ! b)})"

lemma linked_graph_of:
  assumes w: "blocks_wf fn (cf_block_of cfg0) (cf_blocks cfg0)" and ne: "cf_blocks cfg0 \<noteq> []"
    and words: "cf_words cfg0 = (length (fn_vregs fn) + 63) div 64"
    and l: "linked_upto fn cfg0 (length (cf_blocks cfg0)) cfg"
  shows "graph_of fn cfg"
proof -
  have s: "spans cfg = spans cfg0" and bo: "cf_block_of cfg = cf_block_of cfg0" using l by (auto simp: linked_upto_def)
  note S = spans_eqD [OF s]
  have "follows fn bo (cf_blocks cfg ! b) = follows fn bo (cf_blocks cfg0 ! b)" if "b < length (cf_blocks cfg0)" for b bo
    using S(3) [OF that] by (simp add: follows_def)
  then have "\<forall>b < length (cf_blocks cfg). set (succs_of cfg b) = follows fn (cf_block_of cfg) (cf_blocks cfg ! b)"
    "\<forall>c < length (cf_blocks cfg). set (preds_of cfg c) =
        {b. b < length (cf_blocks cfg) \<and> c \<in> follows fn (cf_block_of cfg) (cf_blocks cfg ! b)}"
    using l S(1) bo by (auto simp: linked_upto_def)
  moreover have "cf_blocks cfg \<noteq> []" using S(1) ne by (metis length_0_conv)
  ultimately show ?thesis
    using l blocks_wf_spans [OF w s] words bo unfolding graph_of_def linked_upto_def by simp
qed

lemma build_edges_graph:
  assumes sp: "mir_cfg_split_blocks ok fn (fresh_cfg fn) = Inr cfg0" and ed: "mir_cfg_build_edges ok fn cfg0 = Inr cfg"
    and n: "fn_insns fn \<noteq> []" "length (fn_insns fn) < 2 ^ 31"
  shows "graph_of fn cfg"
proof -
  note S = split_blocks_wf [OF sp]
  obtain slots where m: "mir_cfg_label_map_build ok fn = Inr slots"
    "link_blocks ok fn slots [0..<length (cf_blocks cfg0)] cfg0 = Inr cfg"
    using ed by (auto simp: mir_cfg_build_edges_def andthen_Inr_iff)
  then have "ok LabelSlots" by (auto simp: mir_cfg_label_map_build_def allocate_mem_def split: if_splits)
  then have f: "finds_labels fn slots"
    using label_map_built [of ok fn] m(1) n(2) label_find_first unfolding finds_labels_def by (metis sum.inject(2))
  have empty: "succs_of cfg0 b = []" "preds_of cfg0 b = []" if "b < length (cf_blocks cfg0)" for b
    using S(5) [OF that] by (simp_all add: succs_of_def preds_of_def)
  have "linked_upto fn cfg0 0 cfg0"
    using S(2,3,5) empty by (auto simp: linked_upto_def edges_wf_def fresh_cfg_def linked_def)
  from link_blocks_upto [OF f S(1) m(2) this] show ?thesis
    by (intro linked_graph_of [OF S(1)]) (use S(4,6) n in \<open>simp_all add: fresh_cfg_def\<close>)
qed


end
