(* ===== verification/Sweeping.thy ===== *)
theory Sweeping
  imports Bitset
begin

text \<open>
  The data-flow loops \<open>do { changed = 0; ...one sweep over the blocks... } while (changed)\<close>. A sweep turns a
  pair of tables into another and says whether it changed a row. When a sweep that changes something
  makes the tables heavier, and the weight is bounded, the loop ends, in tables that a last sweep
  left as they were.
\<close>

locale sweeping =
  fixes sweep :: "'a \<times> 'b \<Rightarrow> 'a \<times> 'b \<times> bool"
    and loop :: "'a \<times> 'b \<Rightarrow> ('a \<times> 'b) option"
    and inv :: "'a \<times> 'b \<Rightarrow> bool"
    and weight :: "'a \<times> 'b \<Rightarrow> nat"
    and bound :: nat
  assumes loop_again: "sweep s = (x, y, True) \<Longrightarrow> loop s = loop (x, y)"
    and loop_stop: "sweep s = (x, y, False) \<Longrightarrow> loop s = Some (x, y)"
    and sweep_inv: "inv s \<Longrightarrow> sweep s = (x, y, changed) \<Longrightarrow> inv (x, y)"
    and sweep_heavier: "inv s \<Longrightarrow> sweep s = (x, y, True) \<Longrightarrow> weight s < weight (x, y)"
    and weight_bound: "inv s \<Longrightarrow> weight s \<le> bound"
begin

lemma loop_ends:
  "inv s \<Longrightarrow> \<exists>s' x y. inv s' \<and> sweep s' = (x, y, False) \<and> inv (x, y) \<and> loop s = Some (x, y)"
proof (induction "bound - weight s" arbitrary: s rule: less_induct)
  case less
  obtain x y changed where s: "sweep s = (x, y, changed)" by (cases "sweep s") auto
  have i: "inv (x, y)" by (rule sweep_inv [OF less.prems s])
  show ?case
  proof (cases changed)
    case True
    then have "weight s < weight (x, y)" using sweep_heavier [OF less.prems] s by simp
    then have "bound - weight (x, y) < bound - weight s" using weight_bound [OF i] by simp
    from less.hyps [OF this i] show ?thesis using loop_again s True by simp
  next
    case False
    then have "sweep s = (x, y, False)" using s by simp
    then show ?thesis using less.prems i loop_stop by blast
  qed
qed

end

text \<open>The weight of a table of rows: the number of members of its rows.\<close>

definition row_weight :: "bits list \<Rightarrow> nat" where
  "row_weight rows = (\<Sum>r \<leftarrow> rows. card (members r))"

lemma finite_members [simp]: "finite (members s)"
  by (rule finite_subset [of _ "{..<64 * length s}"]) (auto simp: members_iff)

lemma card_members: "card (members s) \<le> 64 * length s"
proof -
  have "members s \<subseteq> {..<64 * length s}" by (auto simp: members_iff)
  then show ?thesis using card_mono [of "{..<64 * length s}"] by fastforce
qed

lemma row_weight_bound: "(\<And>r. r \<in> set rows \<Longrightarrow> length r = w) \<Longrightarrow> row_weight rows \<le> length rows * (64 * w)"
proof (induction rows)
  case (Cons r rows)
  then have "card (members r) \<le> 64 * w" using card_members [of r] by simp
  then show ?case using Cons by (simp add: row_weight_def)
qed (simp add: row_weight_def)

lemma row_weight_update:
  "b < length rows \<Longrightarrow> row_weight (rows[b := r]) + card (members (rows ! b)) = row_weight rows + card (members r)"
proof (induction rows arbitrary: b)
  case (Cons x rows)
  then show ?case by (cases b) (auto simp: row_weight_def)
qed simp

text \<open>A row that is replaced by a larger one makes the table heavier, unless it is the same row.\<close>

lemma row_weight_grows:
  assumes "b < length rows" "length r = length (rows ! b)" "members (rows ! b) \<subseteq> members r"
  shows "row_weight rows \<le> row_weight (rows[b := r])"
    and "r \<noteq> rows ! b \<Longrightarrow> row_weight rows < row_weight (rows[b := r])"
proof -
  have "card (members (rows ! b)) \<le> card (members r)" using assms(3) by (simp add: card_mono)
  then show "row_weight rows \<le> row_weight (rows[b := r])" using row_weight_update [OF assms(1), of r] by simp
  assume "r \<noteq> rows ! b"
  then have "members (rows ! b) \<subset> members r" using assms(2,3) bits_eqI by blast
  then have "card (members (rows ! b)) < card (members r)" by (simp add: psubset_card_mono)
  then show "row_weight rows < row_weight (rows[b := r])" using row_weight_update [OF assms(1), of r] by simp
qed

end
