(* ===== verification/MirCfgLive.thy ===== *)
theory MirCfgLive
  imports MirCfgBlocks Sweeping
begin

text \<open>
  The liveness \<open>mir_cfg_build\<close> computes. The sets of a block hold what the block reads before it writes,
  and what it writes; the sweeps over the blocks end, because the rows only grow; and what they leave
  is liveness itself, for every block of the function, with the rows the cursor derives from it.
\<close>

section \<open>Liveness along a block\<close>

definition live_after :: "MirFunction \<Rightarrow> nat \<Rightarrow> nat \<Rightarrow> bool" where
  "live_after fn i v \<longleftrightarrow> (\<exists>j. next_insn fn i j \<and> live_at fn j v)"

lemma live_at_iff:
  "live_at fn i v \<longleftrightarrow>
   i < length (fn_insns fn) \<and> (v \<in> set (reads fn i) \<or> writes fn i \<noteq> Some v \<and> live_after fn i v)"
  unfolding live_after_def by (subst live_at.simps) (auto simp: next_insn_def)

lemma cfg_uses_reads:
  "nat ` {v \<in> set (mir_cfg_insn_uses (fn_insns fn ! i)). mir_verify_valid (length (fn_vregs fn)) v} = set (reads fn i)"
proof -
  have "mir_cfg_operand_vregs x = mir_verify_operand_vregs x" for x by (cases x) auto
  moreover have "mir_cfg_insn_reads_dst x = mir_verify_dst_is_read x" for x
    by (simp add: mir_cfg_insn_reads_dst_def mir_verify_dst_is_read_def)
  ultimately show ?thesis by (auto simp: reads_def mir_cfg_insn_uses_def mir_verify_uses_def)
qed

lemma cfg_def_writes:
  "writes fn i = (let d = mir_cfg_insn_def (fn_insns fn ! i)
                  in if mir_verify_valid (length (fn_vregs fn)) d then Some (nat d) else None)"
  by (auto simp: writes_def mir_cfg_insn_def_def mir_verify_def_def mir_verify_valid_def MIR_VREG_NONE_def Let_def)

lemma inside_next:
  assumes w: "blocks_wf fn bo blocks" and b: "b < length blocks"
    and i: "bk_start (blocks ! b) \<le> i" "i + 1 < bk_end (blocks ! b)"
  shows "next_insn fn i j \<longleftrightarrow> j = i + 1"
proof -
  note W = blocks_wfD [OF w]
  have n: "i + 1 < length (fn_insns fn)" using W(7) [OF b] i by simp
  have "bo ! (i + 1) = b" by (rule W(8) [OF b]) (use i in auto)
  then have "\<not> leader fn (i + 1)" using W(5) [OF n] i by auto
  then have "\<not> mir_cfg_ends_block (fn_insns fn ! i)" by (simp add: leader_def)
  then have "falls_through (in_op (fn_insns fn ! i))" "branch_targets (fn_insns fn ! i) = []"
    by (auto simp: mir_cfg_ends_block_def falls_through_def branch_targets_def is_cond_branch_def)
  then show ?thesis using n by (auto simp: next_insn_def)
qed

lemma inside_live_after:
  "blocks_wf fn bo blocks \<Longrightarrow> b < length blocks \<Longrightarrow> bk_start (blocks ! b) \<le> i \<Longrightarrow> i + 1 < bk_end (blocks ! b) \<Longrightarrow>
   live_after fn i v \<longleftrightarrow> live_at fn (i + 1) v"
  by (simp add: live_after_def inside_next)

text \<open>Control enters a block at its first instruction.\<close>

lemma next_starts:
  assumes w: "blocks_wf fn bo blocks" and b: "b < length blocks" and nx: "next_insn fn (bk_end (blocks ! b) - 1) j"
  shows "j = bk_start (blocks ! (bo ! j))"
proof -
  note W = blocks_wfD [OF w]
  have j: "j < length (fn_insns fn)" using next_insn_less [OF nx] .
  consider "j = bk_end (blocks ! b)" | name where "label_at fn name = Some j"
    using nx W(6) [OF b] by (auto simp: next_insn_def)
  then show ?thesis
  proof cases
    case 1
    then have "b + 1 < length blocks" using W(10) [of b] b j by (cases "b + 1 = length blocks") auto
    then have "bk_start (blocks ! (b + 1)) = j" "bo ! j = b + 1"
      using 1 W(9) [of b] W(8) [of "b + 1" j] W(6) [of "b + 1"] by auto
    then show ?thesis by simp
  next
    case 2
    then obtain s where "label_at fn (Some s) = Some j" by (cases name) (auto simp: label_at_def)
    then have "leader fn j" by (auto simp: label_at_first leader_def mir_cfg_is_label_def)
    then show ?thesis using W(5) [OF j] by simp
  qed
qed

lemma live_after_succs:
  assumes g: "graph_of fn cfg" and b: "b < length (cf_blocks cfg)"
  shows "live_after fn (bk_end (cf_blocks cfg ! b) - 1) v \<longleftrightarrow>
    (\<exists>c \<in> set (succs_of cfg b). live_at fn (bk_start (cf_blocks cfg ! c)) v)"
proof -
  have w: "blocks_wf fn (cf_block_of cfg) (cf_blocks cfg)"
    and s: "set (succs_of cfg b) = follows fn (cf_block_of cfg) (cf_blocks cfg ! b)" using g b by (auto simp: graph_of_def)
  show ?thesis unfolding s live_after_def follows_def using next_starts [OF w b] by force
qed

section \<open>The sets of a block\<close>

definition exposed :: "MirFunction \<Rightarrow> nat \<Rightarrow> nat \<Rightarrow> nat set" where
  "exposed fn s e = {v. \<exists>k. s \<le> k \<and> k < e \<and> v \<in> set (reads fn k) \<and> (\<forall>m. s \<le> m \<longrightarrow> m < k \<longrightarrow> writes fn m \<noteq> Some v)}"

definition killed :: "MirFunction \<Rightarrow> nat \<Rightarrow> nat \<Rightarrow> nat set" where
  "killed fn s e = {v. \<exists>m. s \<le> m \<and> m < e \<and> writes fn m = Some v}"

lemma exposed_Suc:
  "s \<le> e \<Longrightarrow> exposed fn s (Suc e) = exposed fn s e \<union> (set (reads fn e) - killed fn s e)"
  by (auto simp: exposed_def killed_def less_Suc_eq)

lemma killed_Suc: "s \<le> e \<Longrightarrow> killed fn s (Suc e) = killed fn s e \<union> {v. writes fn e = Some v}"
  by (auto simp: killed_def less_Suc_eq)

lemma length_add_uses [simp]: "length (fold (add_use n d) vs u) = length u"
  by (induction vs arbitrary: u) (simp_all add: add_use_def)

lemma members_add_uses:
  "n \<le> 64 * length u \<Longrightarrow> length d = length u \<Longrightarrow>
   members (fold (add_use n d) vs u) = members u \<union> (nat ` {v \<in> set vs. mir_verify_valid n v} - members d)"
proof (induction vs arbitrary: u)
  case (Cons v vs)
  have one: "members (add_use n d v u) = members u \<union> (if mir_verify_valid n v \<and> nat v \<notin> members d then {nat v} else {})"
    using Cons.prems by (auto simp: add_use_def mir_verify_valid_def set_get_members)
  have "length (add_use n d v u) = length u" by (simp add: add_use_def)
  then show ?case using Cons.IH [of "add_use n d v u"] Cons.prems by (auto simp: one)
qed simp

lemma local_insns:
  assumes n: "length (fn_vregs fn) \<le> 64 * w"
  shows "s \<le> e \<Longrightarrow>
    (case fold (local_insn fn) [s..<e] (no_bits w, no_bits w) of (u, d) \<Rightarrow>
       length u = w \<and> length d = w \<and> members u = exposed fn s e \<and> members d = killed fn s e)"
proof (induction rule: dec_induct)
  case base
  then show ?case by (simp add: exposed_def killed_def)
next
  case (step e)
  obtain u d where ud: "fold (local_insn fn) [s..<e] (no_bits w, no_bits w) = (u, d)" by fastforce
  then have IH: "length u = w" "length d = w" "members u = exposed fn s e" "members d = killed fn s e"
    using step.IH by auto
  have "members (add_valid (length (fn_vregs fn)) (mir_cfg_insn_def (fn_insns fn ! e)) d) = killed fn s (Suc e)"
    using step.hyps n by (simp add: members_add_valid IH killed_Suc cfg_def_writes Let_def)
  moreover have "members (fold (add_use (length (fn_vregs fn)) d) (mir_cfg_insn_uses (fn_insns fn ! e)) u) = exposed fn s (Suc e)"
    using step.hyps n by (simp add: members_add_uses IH exposed_Suc cfg_uses_reads)
  moreover have eq: "fold (local_insn fn) [s..<Suc e] (no_bits w, no_bits w) = local_insn fn e (u, d)"
    using step.hyps ud by simp
  ultimately show ?case unfolding eq using IH by (simp add: local_insn_def Let_def)
qed

text \<open>Liveness at an instruction of a block from liveness at the end of the block.\<close>

lemma first_insn:
  assumes "i < e"
  shows "exposed fn i e = set (reads fn i) \<union> (exposed fn (Suc i) e - {v. writes fn i = Some v})"
    and "killed fn i e = {v. writes fn i = Some v} \<union> killed fn (Suc i) e"
proof -
  have split: "i \<le> k \<longleftrightarrow> k = i \<or> Suc i \<le> k" for k by auto
  show "exposed fn i e = set (reads fn i) \<union> (exposed fn (Suc i) e - {v. writes fn i = Some v})"
    using assms unfolding exposed_def split by auto
  show "killed fn i e = {v. writes fn i = Some v} \<union> killed fn (Suc i) e"
    using assms unfolding killed_def split by auto
qed

lemma no_insn: "exposed fn e e = {}" "killed fn e e = {}"
  by (auto simp: exposed_def killed_def)

lemma live_at_through:
  assumes w: "blocks_wf fn bo blocks" and b: "b < length blocks"
    and i: "bk_start (blocks ! b) \<le> i" "i < bk_end (blocks ! b)"
  shows "live_at fn i v \<longleftrightarrow> v \<in> exposed fn i (bk_end (blocks ! b)) \<or>
      v \<notin> killed fn i (bk_end (blocks ! b)) \<and> live_after fn (bk_end (blocks ! b) - 1) v"
  using i
proof (induction "bk_end (blocks ! b) - i" arbitrary: i)
  case (Suc k)
  let ?e = "bk_end (blocks ! b)"
  have n: "i < length (fn_insns fn)" using Suc.prems blocks_wfD(7) [OF w b] by simp
  show ?case
  proof (cases "i + 1 < ?e")
    case True
    have "live_at fn i v \<longleftrightarrow> v \<in> set (reads fn i) \<or> writes fn i \<noteq> Some v \<and> live_at fn (Suc i) v"
      using n inside_live_after [OF w b Suc.prems(1) True, of v] by (subst live_at_iff) simp
    also have "live_at fn (Suc i) v \<longleftrightarrow> v \<in> exposed fn (Suc i) ?e \<or> v \<notin> killed fn (Suc i) ?e \<and> live_after fn (?e - 1) v"
      using Suc.hyps(1) [of "Suc i"] Suc.hyps(2) Suc.prems True by simp
    finally show ?thesis using True by (auto simp: first_insn)
  next
    case False
    then have e: "?e = Suc i" using Suc.prems by simp
    show ?thesis unfolding e using n by (subst live_at_iff) (auto simp: first_insn no_insn)
  qed
qed simp

section \<open>The sweeps\<close>

text \<open>The sets of every block are those of its instructions.\<close>

definition sets_of :: "MirFunction \<Rightarrow> MirCfg \<Rightarrow> bool" where
  "sets_of fn cfg \<longleftrightarrow>
     graph_of fn cfg \<and>
     (\<forall>b < length (cf_blocks cfg).
        length (cf_use cfg ! b) = cf_words cfg \<and> length (cf_def cfg ! b) = cf_words cfg \<and>
        members (cf_use cfg ! b) = exposed fn (bk_start (cf_blocks cfg ! b)) (bk_end (cf_blocks cfg ! b)) \<and>
        members (cf_def cfg ! b) = killed fn (bk_start (cf_blocks cfg ! b)) (bk_end (cf_blocks cfg ! b)))"

definition through :: "MirCfg \<Rightarrow> nat \<Rightarrow> nat set \<Rightarrow> nat set" where
  "through cfg b X = members (cf_use cfg ! b) \<union> (X - members (cf_def cfg ! b))"

lemma members_transfer_words:
  assumes "length u = w" "length out = w" "length d = w"
  shows "members (transfer_words u out d) = members u \<union> (members out - members d)"
    and "length (transfer_words u out d) = w"
  using assms
  by (auto simp: transfer_words_def members_iff bit_or_iff bit_and_iff bit_not_iff_eq possible_bit_word
      less_mult_imp_div_less mult.commute)

lemma members_or_rows:
  assumes "length out = w" "\<And>c. c \<in> set cs \<Longrightarrow> length (rows ! c) = w"
  shows "members (fold (\<lambda>s out. or_words out (rows ! s)) cs out) = members out \<union> (\<Union>c \<in> set cs. members (rows ! c))"
    and "length (fold (\<lambda>s out. or_words out (rows ! s)) cs out) = w"
  using assms by (induction cs arbitrary: out) auto

definition live_inv :: "MirFunction \<Rightarrow> MirCfg \<Rightarrow> bits list \<times> bits list \<Rightarrow> bool" where
  "live_inv fn cfg s \<longleftrightarrow>
     sets_of fn cfg \<and> length (fst s) = length (cf_blocks cfg) \<and> length (snd s) = length (cf_blocks cfg) \<and>
     (\<forall>b < length (cf_blocks cfg).
        length (fst s ! b) = cf_words cfg \<and> length (snd s ! b) = cf_words cfg \<and>
        members (fst s ! b) \<subseteq> through cfg b (members (snd s ! b)) \<and>
        members (fst s ! b) \<subseteq> {v. live_at fn (bk_start (cf_blocks cfg ! b)) v} \<and>
        members (snd s ! b) \<subseteq> {v. live_after fn (bk_end (cf_blocks cfg ! b) - 1) v})"

lemma live_through:
  assumes s: "sets_of fn cfg" and b: "b < length (cf_blocks cfg)"
  shows "{v. live_at fn (bk_start (cf_blocks cfg ! b)) v} =
    through cfg b {v. live_after fn (bk_end (cf_blocks cfg ! b) - 1) v}"
proof -
  have w: "blocks_wf fn (cf_block_of cfg) (cf_blocks cfg)" using s by (simp add: sets_of_def graph_of_def)
  show ?thesis
    using live_at_through [OF w b order_refl blocks_wfD(6) [OF w b]] s b by (auto simp: through_def sets_of_def)
qed

lemma graph_succs:
  assumes "graph_of fn cfg" "b < length (cf_blocks cfg)" "c \<in> set (succs_of cfg b)"
  shows "c < length (cf_blocks cfg)"
  using assms blocks_wfD(2) [of fn "cf_block_of cfg" "cf_blocks cfg"] next_insn_less
  by (auto simp: graph_of_def follows_def)

text \<open>A block is settled when its rows solve the equations of liveness.\<close>

definition settled :: "MirCfg \<Rightarrow> nat \<Rightarrow> bits list \<times> bits list \<Rightarrow> bool" where
  "settled cfg b s \<longleftrightarrow>
     members (fst s ! b) = through cfg b (members (snd s ! b)) \<and>
     (\<forall>c \<in> set (succs_of cfg b). members (fst s ! c) \<subseteq> members (snd s ! b))"

lemma live_block_step:
  assumes i: "live_inv fn cfg (ins, outs)" and b: "b < length (cf_blocks cfg)"
    and r: "live_block cfg b (ins, outs, ch) = (ins', outs', ch')"
  shows "live_inv fn cfg (ins', outs')" and "row_weight ins \<le> row_weight ins'"
    and "ch' \<Longrightarrow> ch \<or> row_weight ins < row_weight ins'"
    and "\<not> ch' \<Longrightarrow> \<not> ch \<and> ins' = ins \<and> settled cfg b (ins', outs') \<and>
      (\<forall>k < length (cf_blocks cfg). settled cfg k (ins, outs) \<longrightarrow> settled cfg k (ins', outs'))"
proof -
  let ?B = "length (cf_blocks cfg)" and ?w = "cf_words cfg"
  define out where "out = fold (\<lambda>s out. or_words out (ins ! s)) (succs_of cfg b) (outs ! b)"
  define nx where "nx = transfer_words (cf_use cfg ! b) out (cf_def cfg ! b)"
  have e: "ins' = ins[b := nx]" "outs' = outs[b := out]" "ch' \<longleftrightarrow> ch \<or> nx \<noteq> ins ! b"
    using r by (auto simp: live_block_def Let_def out_def nx_def)
  have s: "sets_of fn cfg" and g: "graph_of fn cfg" and l: "length ins = ?B" "length outs = ?B"
    using i by (auto simp: live_inv_def sets_of_def)
  have row: "length (ins ! k) = ?w" "length (outs ! k) = ?w" "members (ins ! k) \<subseteq> through cfg k (members (outs ! k))"
    "members (ins ! k) \<subseteq> {v. live_at fn (bk_start (cf_blocks cfg ! k)) v}"
    "members (outs ! k) \<subseteq> {v. live_after fn (bk_end (cf_blocks cfg ! k) - 1) v}" if "k < ?B" for k
    using i that by (auto simp: live_inv_def)
  have O: "members out = members (outs ! b) \<union> (\<Union>c \<in> set (succs_of cfg b). members (ins ! c))" "length out = ?w"
    unfolding out_def by (rule members_or_rows; use row graph_succs [OF g b] b in auto)+
  have N: "members nx = through cfg b (members out)" "length nx = ?w"
    unfolding nx_def through_def by (rule members_transfer_words; use s b O in \<open>auto simp: sets_of_def\<close>)+
  have grow: "members (ins ! b) \<subseteq> members nx" unfolding N using row(3) [OF b] O(1) by (auto simp: through_def)
  have live_out: "members out \<subseteq> {v. live_after fn (bk_end (cf_blocks cfg ! b) - 1) v}"
    unfolding O using row(5) [OF b] live_after_succs [OF g b] row(4) graph_succs [OF g b] by blast
  then have live_in: "members nx \<subseteq> {v. live_at fn (bk_start (cf_blocks cfg ! b)) v}"
    unfolding N live_through [OF s b] by (auto simp: through_def)
  show "live_inv fn cfg (ins', outs')"
    using s l row N O live_out live_in b by (auto simp: live_inv_def e nth_list_update)
  show "row_weight ins \<le> row_weight ins'"
    unfolding e by (rule row_weight_grows(1)) (use b l N row grow in auto)
  show "ch \<or> row_weight ins < row_weight ins'" if ch'
    using row_weight_grows(2) [of b ins nx] that b l N row grow by (auto simp: e)
  show "\<not> ch \<and> ins' = ins \<and> settled cfg b (ins', outs') \<and>
      (\<forall>k < ?B. settled cfg k (ins, outs) \<longrightarrow> settled cfg k (ins', outs'))" if "\<not> ch'"
  proof -
    have same: "ins' = ins" "nx = ins ! b" "\<not> ch" using that by (auto simp: e)
    then have "settled cfg b (ins', outs')" using N(1) O(1) b l by (auto simp: settled_def e(2))
    moreover have "settled cfg k (ins', outs')" if "settled cfg k (ins, outs)" "k \<noteq> b" for k
      using that same(1) by (simp add: settled_def e(2))
    ultimately show ?thesis using same by blast
  qed
qed

lemma live_blocks_fold:
  assumes "live_inv fn cfg (ins, outs)" and "\<forall>b \<in> set bs. b < length (cf_blocks cfg)"
    and "fold (live_block cfg) bs (ins, outs, ch) = (ins', outs', ch')"
  shows "live_inv fn cfg (ins', outs') \<and> row_weight ins \<le> row_weight ins' \<and>
    (ch' \<longrightarrow> ch \<or> row_weight ins < row_weight ins') \<and>
    (\<not> ch' \<longrightarrow> \<not> ch \<and> ins' = ins \<and> (\<forall>b \<in> set bs. settled cfg b (ins', outs')) \<and>
      (\<forall>k < length (cf_blocks cfg). settled cfg k (ins, outs) \<longrightarrow> settled cfg k (ins', outs')))"
  using assms
proof (induction bs arbitrary: ins outs ch)
  case (Cons b bs)
  obtain i1 o1 c1 where s1: "live_block cfg b (ins, outs, ch) = (i1, o1, c1)" by (cases "live_block cfg b (ins, outs, ch)") auto
  have b: "b < length (cf_blocks cfg)" using Cons.prems(2) by simp
  note S = live_block_step [OF Cons.prems(1) b s1]
  have "fold (live_block cfg) bs (i1, o1, c1) = (ins', outs', ch')" using Cons.prems(3) s1 by simp
  note IH = Cons.IH [OF S(1) _ this]
  show ?case using IH S(2,3,4) Cons.prems(2) b by (cases c1; cases ch') auto
qed auto

lemma live_sweep_step:
  assumes "live_inv fn cfg s" and "live_sweep cfg s = (ins', outs', ch')"
  shows "live_inv fn cfg (ins', outs')" and "ch' \<Longrightarrow> row_weight (fst s) < row_weight ins'"
    and "\<not> ch' \<Longrightarrow> b < length (cf_blocks cfg) \<Longrightarrow> settled cfg b (ins', outs')"
  using live_blocks_fold [of fn cfg "fst s" "snd s" "rev [0..<length (cf_blocks cfg)]" False ins' outs' ch'] assms
  by (auto simp: live_sweep_def)

interpretation live: sweeping "live_sweep cfg" "live_loop cfg" "live_inv fn cfg" "\<lambda>s. row_weight (fst s)"
  "length (cf_blocks cfg) * (64 * cf_words cfg)"
proof (unfold_locales, goal_cases)
  case (1 s x y)
  then show ?case by (subst live_loop.simps) simp
next
  case (2 s x y)
  then show ?case by (subst live_loop.simps) simp
next
  case (3 s x y changed)
  then show ?case by (rule live_sweep_step(1))
next
  case (4 s x y)
  then show ?case using live_sweep_step(2) by fastforce
next
  case (5 s)
  then have "row_weight (fst s) \<le> length (fst s) * (64 * cf_words cfg)"
    by (intro row_weight_bound) (auto simp: live_inv_def in_set_conv_nth)
  then show ?case using 5 by (simp add: live_inv_def)
qed


section \<open>Liveness\<close>

text \<open>Tables whose blocks are all settled hold liveness.\<close>

lemma settled_complete:
  assumes s: "sets_of fn cfg" and t: "\<And>b. b < length (cf_blocks cfg) \<Longrightarrow> settled cfg b t"
    and l: "live_at fn i v"
  shows "v \<in> exposed fn i (bk_end (cf_blocks cfg ! (cf_block_of cfg ! i))) \<or>
    v \<notin> killed fn i (bk_end (cf_blocks cfg ! (cf_block_of cfg ! i))) \<and> v \<in> members (snd t ! (cf_block_of cfg ! i))"
  using l
proof induction
  case (live_read i v)
  have w: "blocks_wf fn (cf_block_of cfg) (cf_blocks cfg)" using s by (simp add: sets_of_def graph_of_def)
  show ?case using live_read blocks_wfD(4) [OF w live_read(1)] by (auto simp: first_insn)
next
  case (live_pass i j v)
  let ?b = "cf_block_of cfg ! i"
  have g: "graph_of fn cfg" and w: "blocks_wf fn (cf_block_of cfg) (cf_blocks cfg)"
    using s by (auto simp: sets_of_def graph_of_def)
  note W = blocks_wfD [OF w]
  have i: "i < length (fn_insns fn)" using live_pass(1) by (simp add: next_insn_def)
  have b: "?b < length (cf_blocks cfg)" "bk_start (cf_blocks cfg ! ?b) \<le> i" "i < bk_end (cf_blocks cfg ! ?b)"
    using W(2,3,4) [OF i] by auto
  show ?case
  proof (cases "i + 1 < bk_end (cf_blocks cfg ! ?b)")
    case True
    then have "j = i + 1" using inside_next [OF w b(1,2) True] live_pass(1) by simp
    moreover have "cf_block_of cfg ! (i + 1) = ?b" by (rule W(8) [OF b(1)]) (use b True in auto)
    ultimately show ?thesis using live_pass.IH live_pass(3) b by (auto simp: first_insn)
  next
    case False
    let ?c = "cf_block_of cfg ! j"
    have e: "bk_end (cf_blocks cfg ! ?b) = Suc i" using False b by simp
    then have j: "next_insn fn (bk_end (cf_blocks cfg ! ?b) - 1) j" using live_pass(1) by simp
    have cb: "?c < length (cf_blocks cfg)" using W(2) next_insn_less [OF live_pass(1)] by simp
    have c: "?c \<in> set (succs_of cfg ?b)" using g b(1) j by (auto simp: graph_of_def follows_def)
    have "v \<in> through cfg ?c (members (snd t ! ?c))"
      using live_pass.IH next_starts [OF w b(1) j] s cb by (auto simp: through_def sets_of_def)
    then have "v \<in> members (fst t ! ?c)" using t [OF cb] by (simp add: settled_def)
    then have "v \<in> members (snd t ! ?b)" using t [OF b(1)] c unfolding settled_def by blast
    then show ?thesis using live_pass(3) by (simp add: e first_insn no_insn)
  qed
qed

definition live_rows :: "MirFunction \<Rightarrow> MirCfg \<Rightarrow> bool" where
  "live_rows fn cfg \<longleftrightarrow>
     length (cf_live_in cfg) = length (cf_blocks cfg) \<and> length (cf_live_out cfg) = length (cf_blocks cfg) \<and>
     (\<forall>b < length (cf_blocks cfg).
        length (cf_live_in cfg ! b) = cf_words cfg \<and> length (cf_live_out cfg ! b) = cf_words cfg \<and>
        members (cf_live_in cfg ! b) = {v. live_at fn (bk_start (cf_blocks cfg ! b)) v} \<and>
        members (cf_live_out cfg ! b) = {v. live_after fn (bk_end (cf_blocks cfg ! b) - 1) v})"

lemma settled_exact:
  assumes i: "live_inv fn cfg (ins, outs)" and t: "\<And>b. b < length (cf_blocks cfg) \<Longrightarrow> settled cfg b (ins, outs)"
  shows "live_rows fn (cfg\<lparr>cf_live_in := ins, cf_live_out := outs\<rparr>)"
proof -
  have s: "sets_of fn cfg" and g: "graph_of fn cfg" and w: "blocks_wf fn (cf_block_of cfg) (cf_blocks cfg)"
    using i by (auto simp: live_inv_def sets_of_def graph_of_def)
  have ins: "members (ins ! b) = {v. live_at fn (bk_start (cf_blocks cfg ! b)) v}" if b: "b < length (cf_blocks cfg)" for b
  proof
    show "members (ins ! b) \<subseteq> {v. live_at fn (bk_start (cf_blocks cfg ! b)) v}" using i b by (simp add: live_inv_def)
    have bo: "cf_block_of cfg ! bk_start (cf_blocks cfg ! b) = b"
      by (rule blocks_wfD(8) [OF w b order_refl blocks_wfD(6) [OF w b]])
    show "{v. live_at fn (bk_start (cf_blocks cfg ! b)) v} \<subseteq> members (ins ! b)"
      using settled_complete [OF s t, of "bk_start (cf_blocks cfg ! b)"] t [OF b] s b
      by (auto simp: bo settled_def through_def sets_of_def)
  qed
  have outs: "members (outs ! b) = {v. live_after fn (bk_end (cf_blocks cfg ! b) - 1) v}" if b: "b < length (cf_blocks cfg)" for b
  proof
    show "members (outs ! b) \<subseteq> {v. live_after fn (bk_end (cf_blocks cfg ! b) - 1) v}" using i b by (simp add: live_inv_def)
    show "{v. live_after fn (bk_end (cf_blocks cfg ! b) - 1) v} \<subseteq> members (outs ! b)"
      using live_after_succs [OF g b] ins graph_succs [OF g b] t [OF b] by (fastforce simp: settled_def)
  qed
  show ?thesis using i ins outs by (simp add: live_rows_def live_inv_def)
qed

text \<open>The loop ends, with liveness in the rows.\<close>

lemma liveness_exact:
  assumes s: "sets_of fn cfg" and l: "length (cf_live_in cfg) = length (cf_blocks cfg)" "length (cf_live_out cfg) = length (cf_blocks cfg)"
    and z: "\<And>b. b < length (cf_blocks cfg) \<Longrightarrow> cf_live_in cfg ! b = no_bits (cf_words cfg)"
      "\<And>b. b < length (cf_blocks cfg) \<Longrightarrow> cf_live_out cfg ! b = no_bits (cf_words cfg)"
  shows "\<exists>ins outs. mir_cfg_liveness cfg = Some (cfg\<lparr>cf_live_in := ins, cf_live_out := outs\<rparr>) \<and>
    live_rows fn (cfg\<lparr>cf_live_in := ins, cf_live_out := outs\<rparr>)"
proof -
  have "live_inv fn cfg (cf_live_in cfg, cf_live_out cfg)" using s l z by (simp add: live_inv_def)
  from live.loop_ends [OF this] obtain s' x y where
    r: "live_inv fn cfg s'" "live_sweep cfg s' = (x, y, False)" "live_inv fn cfg (x, y)"
      "live_loop cfg (cf_live_in cfg, cf_live_out cfg) = Some (x, y)" by blast
  from settled_exact [OF r(3) live_sweep_step(3) [OF r(1,2)]] show ?thesis
    using r(4) by (auto simp: mir_cfg_liveness_def)
qed

lemma local_sets_of:
  assumes g: "graph_of fn cfg" and a: "mir_cfg_alloc_sets ok cfg = Inr cfg'"
  shows "sets_of fn (mir_cfg_local_sets fn cfg')"
proof -
  let ?w = "cf_words cfg"
  have n: "length (fn_vregs fn) \<le> 64 * ?w" using g by (auto simp: graph_of_def)
  have c: "cfg' = cfg\<lparr>cf_use := cf_use cfg', cf_def := cf_def cfg', cf_live_in := cf_live_in cfg',
      cf_live_out := cf_live_out cfg', cf_defd_in := cf_defd_in cfg', cf_defd_out := cf_defd_out cfg'\<rparr>"
    "cf_use cfg' = replicate (length (cf_blocks cfg)) (no_bits ?w)" "cf_def cfg' = replicate (length (cf_blocks cfg)) (no_bits ?w)"
    using a by (auto simp: mir_cfg_alloc_sets_def andthen_Inr_iff Let_def)
  have bl: "cf_blocks cfg' = cf_blocks cfg" "cf_words cfg' = ?w" by (subst c(1); simp)+
  have "graph_of fn (mir_cfg_local_sets fn cfg')"
    using g by (subst c(1)) (simp add: graph_of_def mir_cfg_local_sets_def Let_def edges_wf_def succs_of_def preds_of_def)
  moreover have "case local_block fn cfg' b of (u, d) \<Rightarrow> length u = ?w \<and> length d = ?w \<and>
      members u = exposed fn (bk_start (cf_blocks cfg ! b)) (bk_end (cf_blocks cfg ! b)) \<and>
      members d = killed fn (bk_start (cf_blocks cfg ! b)) (bk_end (cf_blocks cfg ! b))" if b: "b < length (cf_blocks cfg)" for b
  proof -
    have "bk_start (cf_blocks cfg ! b) \<le> bk_end (cf_blocks cfg ! b)"
      using g b blocks_wfD(6) [of fn "cf_block_of cfg" "cf_blocks cfg" b] by (simp add: graph_of_def)
    from local_insns [OF n this] show ?thesis using b by (simp add: local_block_def c(2,3) bl)
  qed
  ultimately show ?thesis by (simp add: sets_of_def mir_cfg_local_sets_def Let_def bl case_prod_unfold)
qed


section \<open>The cursor\<close>

text \<open>After \<open>k\<close> steps back from the end of a block, the cursor holds what is live there.\<close>

lemma cursor_live:
  assumes g: "graph_of fn cfg" and r: "live_rows fn cfg" and b: "b < length (cf_blocks cfg)"
    and k: "k \<le> bk_end (cf_blocks cfg ! b) - bk_start (cf_blocks cfg ! b)"
    and c: "c = (mir_cfg_cursor_step_back fn cfg ^^ k) (mir_cfg_cursor_start_block fn cfg b cur)"
  shows "cu_block c = b \<and> cu_at c = bk_end (cf_blocks cfg ! b) - k \<and> length (cu_live c) = cf_words cfg \<and>
    members (cu_live c) =
      {v. if k = 0 then live_after fn (bk_end (cf_blocks cfg ! b) - 1) v
          else live_at fn (bk_end (cf_blocks cfg ! b) - k) v}"
  using k c
proof (induction k arbitrary: c)
  case 0
  then show ?case using r b by (simp add: mir_cfg_cursor_start_block_def live_rows_def Let_def)
next
  case (Suc k)
  let ?e = "bk_end (cf_blocks cfg ! b)" and ?n = "length (fn_vregs fn)"
  define d where "d = (mir_cfg_cursor_step_back fn cfg ^^ k) (mir_cfg_cursor_start_block fn cfg b cur)"
  have IH: "cu_block d = b" "cu_at d = ?e - k" "length (cu_live d) = cf_words cfg"
    "members (cu_live d) = {v. if k = 0 then live_after fn (?e - 1) v else live_at fn (?e - k) v}"
    using Suc.IH [OF _ d_def] Suc.prems(1) by auto
  have w: "blocks_wf fn (cf_block_of cfg) (cf_blocks cfg)" and n: "?n \<le> 64 * cf_words cfg" using g by (auto simp: graph_of_def)
  let ?i = "?e - Suc k"
  have i: "bk_start (cf_blocks cfg ! b) \<le> ?i" "?i < length (fn_insns fn)" "?i + 1 = ?e - k" "?e - k - 1 = ?i"
    using Suc.prems(1) blocks_wfD(6,7) [OF w b] by auto
  have after: "members (cu_live d) = {v. live_after fn ?i v}"
  proof (cases "k = 0")
    case False
    then have "?i + 1 < ?e" using i by simp
    from inside_live_after [OF w b i(1) this] show ?thesis using False IH(4) i(3) by simp
  qed (use IH(4) in simp)
  define c1 where "c1 = mir_cfg_cursor_step_back fn cfg d"
  have st: "cu_block c1 = b" "cu_at c1 = ?i"
    "cu_live c1 = fold (add_valid ?n) (mir_cfg_insn_uses (fn_insns fn ! ?i))
                   (clear_valid ?n (mir_cfg_insn_def (fn_insns fn ! ?i)) (cu_live d))"
    using IH(1,2) i by (auto simp: c1_def mir_cfg_cursor_step_back_def Let_def)
  have "members (cu_live c1) = (members (cu_live d) - {v. writes fn ?i = Some v}) \<union> set (reads fn ?i)"
    using n by (simp add: st members_fold_add_valid members_clear_valid IH(3) cfg_uses_reads cfg_def_writes Let_def)
  also have "\<dots> = {v. live_at fn ?i v}" unfolding after using i(2) by (auto simp: live_at_iff)
  finally have "members (cu_live c1) = {v. live_at fn ?i v}" .
  moreover have "c = c1" using Suc.prems(2) by (simp add: c1_def d_def)
  ultimately show ?case using st IH(3) by simp
qed


end
