(* ===== verification/MirCfgOrder.thy ===== *)
theory MirCfgOrder
  imports MirCfgLive
begin

text \<open>
  The reverse postorder of \<open>mir_cfg_build_rpo\<close>: the search ends, it numbers exactly the blocks control can
  reach from the first, each once, the first block gets number 0, and every other block has a
  predecessor with a smaller number. The order of the definedness sweeps holds every block once.
\<close>

definition steps :: "MirCfg \<Rightarrow> (nat \<times> nat) set" where
  "steps cfg = {(b, c). b < length (cf_blocks cfg) \<and> c \<in> set (succs_of cfg b)}"

definition targets :: "MirCfg \<Rightarrow> int \<Rightarrow> nat list" where
  "targets cfg e = map (\<lambda>e. cf_edge_to cfg ! e) (edges_from (cf_edge_next cfg) e)"

lemma succs_targets: "succs_of cfg b = targets cfg (bk_succ_head (cf_blocks cfg ! b))"
  by (simp add: succs_of_def targets_def)

lemma edges_from_step:
  assumes "linked nxt" "0 \<le> e" "e < int (length nxt)"
  shows "edges_from nxt e = nat e # edges_from nxt (nxt ! nat e)"
proof -
  have e: "nat e < length nxt" using assms by simp
  then have n: "nxt ! nat e < int (nat e)" using assms(1) unfolding linked_def by blast
  obtain f where f: "length nxt = Suc f" using e by (cases "length nxt") auto
  have "edge_chain nxt (f + 1) (nxt ! nat e) = edge_chain nxt f (nxt ! nat e)"
    using edge_chain_fuel [OF assms(1), of "nxt ! nat e" f "[]" 1] n e f assms(2) by (simp del: edge_chain.simps)
  then show ?thesis using assms(2) by (simp add: edges_from_def f)
qed

lemma targets_step:
  "edges_wf cfg \<Longrightarrow> 0 \<le> e \<Longrightarrow> e < int (length (cf_edge_to cfg)) \<Longrightarrow>
   targets cfg e = cf_edge_to cfg ! nat e # targets cfg (cf_edge_next cfg ! nat e)"
  by (simp add: targets_def edges_from_step edges_wf_def)

lemma targets_end [simp]: "e < 0 \<Longrightarrow> targets cfg e = []"
  by (simp add: targets_def)

lemma length_edge_chain: "length (edge_chain nxt f e) \<le> f"
  by (induction f arbitrary: e) auto

lemma length_targets: "length (targets cfg e) \<le> length (cf_edge_next cfg)"
  by (simp add: targets_def edges_from_def length_edge_chain)

text \<open>Every block but the first has a predecessor further on in the list.\<close>

fun parented :: "MirCfg \<Rightarrow> nat list \<Rightarrow> bool" where
  "parented cfg [] \<longleftrightarrow> True"
| "parented cfg (b # bs) \<longleftrightarrow> (b = 0 \<or> (\<exists>p \<in> set bs. b \<in> set (succs_of cfg p))) \<and> parented cfg bs"

lemma parented_insert:
  "parented cfg (xs @ ys) \<Longrightarrow> \<exists>p \<in> set ys. b \<in> set (succs_of cfg p) \<Longrightarrow> parented cfg (xs @ b # ys)"
  by (induction xs) auto

definition rpo_inv :: "MirCfg \<Rightarrow> (nat \<times> int) list \<Rightarrow> bool list \<Rightarrow> nat list \<Rightarrow> bool" where
  "rpo_inv cfg stack seen post \<longleftrightarrow>
     (let L = post @ map fst stack
      in length seen = length (cf_blocks cfg) \<and> distinct L \<and> L \<noteq> [] \<and> last L = 0 \<and> parented cfg L \<and>
         (\<forall>b < length (cf_blocks cfg). seen ! b \<longleftrightarrow> b \<in> set L) \<and>
         (\<forall>b \<in> set L. b < length (cf_blocks cfg) \<and> (0, b) \<in> (steps cfg)\<^sup>*) \<and>
         (\<forall>(b, e) \<in> set stack. -1 \<le> e \<and> e < int (length (cf_edge_to cfg)) \<and>
            set (targets cfg e) \<subseteq> set (succs_of cfg b) \<and>
            (\<forall>t \<in> set (succs_of cfg b). t \<in> set (targets cfg e) \<or> t \<in> set L)) \<and>
         (\<forall>b \<in> set post. set (succs_of cfg b) \<subseteq> set L))"

text \<open>The steps left: the edges and the pop of every entry, and of every block not seen.\<close>

definition rpo_left :: "MirCfg \<Rightarrow> (nat \<times> int) list \<Rightarrow> bool list \<Rightarrow> nat" where
  "rpo_left cfg stack seen =
     (\<Sum>(b, e) \<leftarrow> stack. length (targets cfg e) + 1) +
     length (filter Not seen) * (length (cf_edge_next cfg) + 1)"

lemma filter_Not_mark:
  "b < length seen \<Longrightarrow> \<not> seen ! b \<Longrightarrow> Suc (length (filter Not (seen[b := True]))) = length (filter Not seen)"
proof (induction seen arbitrary: b)
  case (Cons x seen)
  then show ?case by (cases b) auto
qed simp

lemma edge_next_bounds:
  assumes "edges_wf cfg" "0 \<le> e" "e < int (length (cf_edge_to cfg))"
  shows "-1 \<le> cf_edge_next cfg ! nat e" "cf_edge_next cfg ! nat e < int (length (cf_edge_to cfg))"
    "cf_edge_to cfg ! nat e < length (cf_blocks cfg)"
proof -
  have n: "nat e < length (cf_edge_next cfg)" "nat e < length (cf_edge_to cfg)" using assms by (auto simp: edges_wf_def)
  then have "-1 \<le> cf_edge_next cfg ! nat e \<and> cf_edge_next cfg ! nat e < int (nat e)"
    using assms(1) unfolding edges_wf_def linked_def by blast
  then show "-1 \<le> cf_edge_next cfg ! nat e" "cf_edge_next cfg ! nat e < int (length (cf_edge_to cfg))" using n assms(2,3) by auto
  show "cf_edge_to cfg ! nat e < length (cf_blocks cfg)" using assms(1) n by (simp add: edges_wf_def)
qed

lemma rpo_inv_pop:
  "rpo_inv cfg ((b, e) # stack) seen post \<Longrightarrow> e < 0 \<Longrightarrow> rpo_inv cfg stack seen (post @ [b])"
  by (auto simp: rpo_inv_def Let_def)

lemma rpo_inv_edge:
  assumes w: "edges_wf cfg" and i: "rpo_inv cfg ((b, e) # stack) seen post" and e: "0 \<le> e"
    and s: "seen ! (cf_edge_to cfg ! nat e)"
  shows "rpo_inv cfg ((b, cf_edge_next cfg ! nat e) # stack) seen post"
proof -
  have el: "e < int (length (cf_edge_to cfg))" using i by (auto simp: rpo_inv_def Let_def)
  note B = edge_next_bounds [OF w e el] and T = targets_step [OF w e el]
  show ?thesis using i s B T by (auto simp: rpo_inv_def Let_def)
qed

lemma rpo_inv_push:
  assumes w: "edges_wf cfg" and i: "rpo_inv cfg ((b, e) # stack) seen post" and e: "0 \<le> e"
    and s: "\<not> seen ! (cf_edge_to cfg ! nat e)" and t: "t = cf_edge_to cfg ! nat e"
  shows "rpo_inv cfg ((t, bk_succ_head (cf_blocks cfg ! t)) # (b, cf_edge_next cfg ! nat e) # stack) (seen[t := True]) post"
proof -
  have el: "e < int (length (cf_edge_to cfg))" using i by (auto simp: rpo_inv_def Let_def)
  note B = edge_next_bounds [OF w e el] and T = targets_step [OF w e el]
  have bt: "t \<in> set (succs_of cfg b)" "b < length (cf_blocks cfg)" "(0, b) \<in> (steps cfg)\<^sup>*"
    using i T t by (auto simp: rpo_inv_def Let_def)
  have tb: "t < length (cf_blocks cfg)" using B(3) t by simp
  have r: "(0, t) \<in> (steps cfg)\<^sup>*" using bt by (auto simp: steps_def intro: rtrancl_into_rtrancl)
  have new: "t \<notin> set (post @ b # map fst stack)" using i s tb t by (simp add: rpo_inv_def Let_def)
  have hd: "-1 \<le> bk_succ_head (cf_blocks cfg ! t)" "bk_succ_head (cf_blocks cfg ! t) < int (length (cf_edge_to cfg))"
    using w tb by (auto simp: edges_wf_def)
  have p: "parented cfg (post @ t # b # map fst stack)"
    by (rule parented_insert) (use i bt in \<open>auto simp: rpo_inv_def Let_def\<close>)
  let ?L = "post @ t # b # map fst stack"
  have D: "length seen = length (cf_blocks cfg)" "distinct (post @ b # map fst stack)" "last (post @ b # map fst stack) = 0"
    "\<And>k. k < length (cf_blocks cfg) \<Longrightarrow> seen ! k \<longleftrightarrow> k \<in> set (post @ b # map fst stack)"
    "\<And>k. k \<in> set (post @ b # map fst stack) \<Longrightarrow> k < length (cf_blocks cfg) \<and> (0, k) \<in> (steps cfg)\<^sup>*"
    "\<And>k f. (k, f) \<in> set ((b, e) # stack) \<Longrightarrow> -1 \<le> f \<and> f < int (length (cf_edge_to cfg)) \<and>
       set (targets cfg f) \<subseteq> set (succs_of cfg k) \<and>
       (\<forall>u \<in> set (succs_of cfg k). u \<in> set (targets cfg f) \<or> u \<in> set (post @ b # map fst stack))"
    "\<And>k. k \<in> set post \<Longrightarrow> set (succs_of cfg k) \<subseteq> set (post @ b # map fst stack)"
    using i by (auto simp: rpo_inv_def Let_def)
  have st: "-1 \<le> f \<and> f < int (length (cf_edge_to cfg)) \<and> set (targets cfg f) \<subseteq> set (succs_of cfg k) \<and>
      (\<forall>u \<in> set (succs_of cfg k). u \<in> set (targets cfg f) \<or> u \<in> set ?L)"
    if kf: "(k, f) \<in> set ((t, bk_succ_head (cf_blocks cfg ! t)) # (b, cf_edge_next cfg ! nat e) # stack)" for k f
  proof -
    consider "k = t" "f = bk_succ_head (cf_blocks cfg ! t)" | "k = b" "f = cf_edge_next cfg ! nat e" | "(k, f) \<in> set stack"
      using kf by auto
    then show ?thesis
    proof cases
      case 1
      then show ?thesis using hd by (simp add: succs_targets)
    next
      case 2
      then show ?thesis using D(6) [of b e] T B t by auto
    next
      case 3
      then show ?thesis using D(6) [of k f] by auto
    qed
  qed
  have sn: "seen[t := True] ! k \<longleftrightarrow> k \<in> set ?L" if "k < length (cf_blocks cfg)" for k
    using D(4) [OF that] that D(1) tb by (auto simp: nth_list_update)
  let ?stack = "(t, bk_succ_head (cf_blocks cfg ! t)) # (b, cf_edge_next cfg ! nat e) # stack"
  have L: "post @ map fst ?stack = ?L" by simp
  show ?thesis unfolding rpo_inv_def Let_def L
  proof (intro conjI ballI allI impI)
    show "length (seen[t := True]) = length (cf_blocks cfg)" using D(1) by simp
    show "distinct ?L" "last ?L = 0" "?L \<noteq> []" using D(2,3) new by auto
    show "k < length (cf_blocks cfg)" "(0, k) \<in> (steps cfg)\<^sup>*" if "k \<in> set ?L" for k
      using D(5) [of k] that tb r by auto
    show "set (succs_of cfg k) \<subseteq> set ?L" if "k \<in> set post" for k using D(7) [OF that] by auto
    show "case x of (k, f) \<Rightarrow> -1 \<le> f \<and> f < int (length (cf_edge_to cfg)) \<and>
        set (targets cfg f) \<subseteq> set (succs_of cfg k) \<and>
        (\<forall>u \<in> set (succs_of cfg k). u \<in> set (targets cfg f) \<or> u \<in> set ?L)" if "x \<in> set ?stack" for x
      using st [of "fst x" "snd x"] that by (simp add: case_prod_beta)
  qed (use p sn in auto)
qed

text \<open>The search ends with the blocks in postorder.\<close>

lemma rpo_search_ends:
  assumes w: "edges_wf cfg"
  shows "rpo_inv cfg stack seen post \<Longrightarrow> rpo_left cfg stack seen < fuel \<Longrightarrow>
    \<exists>post' seen'. rpo_search cfg fuel stack seen post = Inr post' \<and> rpo_inv cfg [] seen' post'"
proof (induction fuel arbitrary: stack seen post)
  case (Suc fuel)
  show ?case
  proof (cases stack)
    case Nil
    then show ?thesis using Suc.prems by auto
  next
    case (Cons be rest)
    obtain b e where be: "be = (b, e)" by (cases be)
    have i: "rpo_inv cfg ((b, e) # rest) seen post" and l: "rpo_left cfg ((b, e) # rest) seen \<le> fuel"
      using Suc.prems Cons be by auto
    show ?thesis
    proof (cases "0 \<le> e")
      case False
      then have "rpo_left cfg rest seen < fuel" using l by (simp add: rpo_left_def)
      from Suc.IH [OF rpo_inv_pop [OF i] this] show ?thesis using False Cons be by simp
    next
      case e: True
      let ?t = "cf_edge_to cfg ! nat e"
      have el: "e < int (length (cf_edge_to cfg))" using i by (auto simp: rpo_inv_def Let_def)
      have T: "length (targets cfg e) = Suc (length (targets cfg (cf_edge_next cfg ! nat e)))"
        by (simp add: targets_step [OF w e el])
      show ?thesis
      proof (cases "seen ! ?t")
        case True
        have "rpo_left cfg ((b, cf_edge_next cfg ! nat e) # rest) seen < fuel" using l T by (simp add: rpo_left_def)
        from Suc.IH [OF rpo_inv_edge [OF w i e True] this] show ?thesis using e True Cons be by simp
      next
        case False
        have "?t < length seen" using edge_next_bounds(3) [OF w e el] i by (simp add: rpo_inv_def Let_def)
        note F = filter_Not_mark [OF this False, symmetric]
        have "rpo_left cfg ((?t, bk_succ_head (cf_blocks cfg ! ?t)) # (b, cf_edge_next cfg ! nat e) # rest) (seen[?t := True]) < fuel"
          using l T length_targets [of cfg "bk_succ_head (cf_blocks cfg ! ?t)"] by (simp add: rpo_left_def F)
        from Suc.IH [OF rpo_inv_push [OF w i e False refl] this] show ?thesis using e False Cons be by (simp add: Let_def)
      qed
    qed
  qed
qed simp

lemma rpo_inv_start:
  assumes w: "edges_wf cfg" and ne: "cf_blocks cfg \<noteq> []"
  shows "rpo_inv cfg [(0, bk_succ_head (cf_blocks cfg ! 0))] ((replicate (length (cf_blocks cfg)) False)[0 := True]) []"
    and "rpo_left cfg [(0, bk_succ_head (cf_blocks cfg ! 0))] ((replicate (length (cf_blocks cfg)) False)[0 := True]) <
      length (cf_blocks cfg) * (length (cf_edge_next cfg) + 1) + 1"
proof -
  have B: "0 < length (cf_blocks cfg)" using ne by simp
  then show "rpo_inv cfg [(0, bk_succ_head (cf_blocks cfg ! 0))] ((replicate (length (cf_blocks cfg)) False)[0 := True]) []"
    using w by (auto simp: rpo_inv_def Let_def edges_wf_def nth_list_update succs_targets)
  obtain m where m: "length (cf_blocks cfg) = Suc m" using B by (cases "length (cf_blocks cfg)") auto
  show "rpo_left cfg [(0, bk_succ_head (cf_blocks cfg ! 0))] ((replicate (length (cf_blocks cfg)) False)[0 := True]) <
      length (cf_blocks cfg) * (length (cf_edge_next cfg) + 1) + 1"
    using length_targets [of cfg "bk_succ_head (cf_blocks cfg ! 0)"] by (simp add: rpo_left_def m)
qed

lemma rpo_inv_done:
  assumes i: "rpo_inv cfg [] seen post"
  shows "distinct post" "post \<noteq> []" "last post = 0" "parented cfg post"
    and "set post = {b. (0, b) \<in> (steps cfg)\<^sup>*}" "\<And>b. b \<in> set post \<Longrightarrow> b < length (cf_blocks cfg)"
proof -
  show p: "distinct post" "post \<noteq> []" "last post = 0" "parented cfg post" "\<And>b. b \<in> set post \<Longrightarrow> b < length (cf_blocks cfg)"
    using i by (auto simp: rpo_inv_def Let_def)
  have "b \<in> set post" if "(0, b) \<in> (steps cfg)\<^sup>*" for b
    using that
  proof induction
    case base
    then show ?case using p(2,3) last_in_set by metis
  next
    case (step b c)
    then show ?case using i by (auto simp: rpo_inv_def Let_def steps_def)
  qed
  moreover have "(0, b) \<in> (steps cfg)\<^sup>*" if "b \<in> set post" for b using i that by (auto simp: rpo_inv_def Let_def)
  ultimately show "set post = {b. (0, b) \<in> (steps cfg)\<^sup>*}" by auto
qed

section \<open>What the stages after the edges leave alone\<close>

definition frame :: "MirCfgBlock \<Rightarrow> nat \<times> nat \<times> int \<times> int" where
  "frame b = (bk_start b, bk_end b, bk_succ_head b, bk_pred_head b)"

definition skeleton :: "MirCfg \<Rightarrow> (nat \<times> nat \<times> int \<times> int) list \<times> nat list \<times> int list \<times> nat list \<times> nat" where
  "skeleton cfg = (map frame (cf_blocks cfg), cf_block_of cfg, cf_edge_next cfg, cf_edge_to cfg, cf_words cfg)"

lemma skeletonD:
  assumes "skeleton cfg' = skeleton cfg"
  shows "length (cf_blocks cfg') = length (cf_blocks cfg)" "cf_block_of cfg' = cf_block_of cfg"
    "cf_words cfg' = cf_words cfg" "cf_edge_next cfg' = cf_edge_next cfg" "cf_edge_to cfg' = cf_edge_to cfg"
    and "b < length (cf_blocks cfg) \<Longrightarrow> bk_start (cf_blocks cfg' ! b) = bk_start (cf_blocks cfg ! b)"
    and "b < length (cf_blocks cfg) \<Longrightarrow> bk_end (cf_blocks cfg' ! b) = bk_end (cf_blocks cfg ! b)"
    and "b < length (cf_blocks cfg) \<Longrightarrow> bk_succ_head (cf_blocks cfg' ! b) = bk_succ_head (cf_blocks cfg ! b)"
    and "b < length (cf_blocks cfg) \<Longrightarrow> bk_pred_head (cf_blocks cfg' ! b) = bk_pred_head (cf_blocks cfg ! b)"
proof -
  have m: "map frame (cf_blocks cfg') = map frame (cf_blocks cfg)" using assms by (simp add: skeleton_def)
  show l: "length (cf_blocks cfg') = length (cf_blocks cfg)" by (rule map_eq_imp_length_eq [OF m])
  show "cf_block_of cfg' = cf_block_of cfg" "cf_words cfg' = cf_words cfg" "cf_edge_next cfg' = cf_edge_next cfg"
    "cf_edge_to cfg' = cf_edge_to cfg" using assms by (auto simp: skeleton_def)
  have f: "frame (cf_blocks cfg' ! b) = frame (cf_blocks cfg ! b)" if "b < length (cf_blocks cfg)"
    using arg_cong [OF m, of "\<lambda>xs. xs ! b"] that l by simp
  show "b < length (cf_blocks cfg) \<Longrightarrow> bk_start (cf_blocks cfg' ! b) = bk_start (cf_blocks cfg ! b)"
    "b < length (cf_blocks cfg) \<Longrightarrow> bk_end (cf_blocks cfg' ! b) = bk_end (cf_blocks cfg ! b)"
    "b < length (cf_blocks cfg) \<Longrightarrow> bk_succ_head (cf_blocks cfg' ! b) = bk_succ_head (cf_blocks cfg ! b)"
    "b < length (cf_blocks cfg) \<Longrightarrow> bk_pred_head (cf_blocks cfg' ! b) = bk_pred_head (cf_blocks cfg ! b)"
    using f by (auto simp: frame_def)
qed

lemma skeleton_edges:
  assumes s: "skeleton cfg' = skeleton cfg" and b: "b < length (cf_blocks cfg)"
  shows "succs_of cfg' b = succs_of cfg b" "preds_of cfg' b = preds_of cfg b"
  using skeletonD(4,5) [OF s] skeletonD(8,9) [OF s b] by (simp_all add: succs_of_def preds_of_def)

lemma skeleton_steps: "skeleton cfg' = skeleton cfg \<Longrightarrow> steps cfg' = steps cfg"
  using skeletonD(1) [of cfg' cfg] skeleton_edges(1) [of cfg' cfg] by (auto simp: steps_def)

lemma skeleton_graph:
  assumes s: "skeleton cfg' = skeleton cfg" and g: "graph_of fn cfg"
  shows "graph_of fn cfg'"
proof -
  note D = skeletonD [OF s]
  have "spans cfg' = spans cfg"
    using D(1,6,7) by (auto simp: spans_def intro!: nth_equalityI)
  then have "blocks_wf fn (cf_block_of cfg') (cf_blocks cfg')"
    using g D(2) blocks_wf_spans [of fn "cf_block_of cfg" cfg cfg'] by (simp add: graph_of_def)
  moreover have "edges_wf cfg'" using g D(1,4,5,8,9) by (simp add: graph_of_def edges_wf_def)
  moreover have "follows fn bo (cf_blocks cfg' ! b) = follows fn bo (cf_blocks cfg ! b)"
    if "b < length (cf_blocks cfg)" for b bo using D(7) [OF that] by (simp add: follows_def)
  moreover have "cf_blocks cfg' \<noteq> []" using g D(1) by (metis graph_of_def length_0_conv)
  ultimately show ?thesis
    using g D(1,2,3) skeleton_edges [OF s] unfolding graph_of_def by (intro conjI allI impI) auto
qed

lemma skeleton_blocks:
  "map frame bs = map frame (cf_blocks cfg) \<Longrightarrow> skeleton (cfg\<lparr>cf_blocks := bs\<rparr>) = skeleton cfg"
  by (simp add: skeleton_def)

section \<open>Numbers\<close>

text \<open>No block has a number or a dominator before the search.\<close>

definition unmarked :: "MirCfgBlock \<Rightarrow> bool" where
  "unmarked b \<longleftrightarrow> bk_rpo b = -1 \<and> bk_idom b = -1 \<and> bk_loop_depth b = 0 \<and> bk_loop_header b = -1"

definition loop_mark :: "MirCfgBlock \<Rightarrow> nat \<times> int" where
  "loop_mark b = (bk_loop_depth b, bk_loop_header b)"

definition numbered :: "MirCfg \<Rightarrow> bool" where
  "numbered cfg \<longleftrightarrow>
     distinct (cf_rpo_order cfg) \<and> cf_rpo_order cfg \<noteq> [] \<and> cf_rpo_order cfg ! 0 = 0 \<and>
     set (cf_rpo_order cfg) = {b. (0, b) \<in> (steps cfg)\<^sup>*} \<and>
     (\<forall>b \<in> set (cf_rpo_order cfg). b < length (cf_blocks cfg)) \<and>
     (\<forall>k < length (cf_rpo_order cfg). bk_rpo (cf_blocks cfg ! (cf_rpo_order cfg ! k)) = int k) \<and>
     (\<forall>b < length (cf_blocks cfg). b \<notin> set (cf_rpo_order cfg) \<longrightarrow> bk_rpo (cf_blocks cfg ! b) = -1) \<and>
     (\<forall>k < length (cf_rpo_order cfg). k \<noteq> 0 \<longrightarrow> (\<exists>m < k. (cf_rpo_order cfg ! m, cf_rpo_order cfg ! k) \<in> steps cfg))"

lemma map_pair_eq: "map f xs = map f ys \<Longrightarrow> map g xs = map g ys \<Longrightarrow> map (\<lambda>x. (f x, g x)) xs = map (\<lambda>x. (f x, g x)) ys"
proof -
  have "map (\<lambda>x. (f x, g x)) zs = zip (map f zs) (map g zs)" for zs by (induction zs) auto
  then show "map f xs = map f ys \<Longrightarrow> map g xs = map g ys \<Longrightarrow> map (\<lambda>x. (f x, g x)) xs = map (\<lambda>x. (f x, g x)) ys" by simp
qed

lemma number_rpo_fold:
  assumes "distinct ord" "\<forall>b \<in> set ord. b < length blocks"
  shows "length (fold number_rpo (enumerate n ord) blocks) = length blocks \<and>
    map frame (fold number_rpo (enumerate n ord) blocks) = map frame blocks \<and>
    map bk_idom (fold number_rpo (enumerate n ord) blocks) = map bk_idom blocks \<and>
    map loop_mark (fold number_rpo (enumerate n ord) blocks) = map loop_mark blocks \<and>
    (\<forall>k < length ord. bk_rpo (fold number_rpo (enumerate n ord) blocks ! (ord ! k)) = int (n + k)) \<and>
    (\<forall>b < length blocks. b \<notin> set ord \<longrightarrow> fold number_rpo (enumerate n ord) blocks ! b = blocks ! b)"
  using assms
proof (induction ord arbitrary: n blocks)
  case (Cons b ord)
  let ?bs = "blocks[b := (blocks ! b)\<lparr>bk_rpo := int n\<rparr>]"
  have bs: "length ?bs = length blocks" "map frame ?bs = map frame blocks" "map bk_idom ?bs = map bk_idom blocks"
    "map loop_mark ?bs = map loop_mark blocks"
    by (simp, (rule map_update_same, simp add: frame_def loop_mark_def)+)
  have IH: "length (fold number_rpo (enumerate (Suc n) ord) ?bs) = length ?bs \<and>
    map frame (fold number_rpo (enumerate (Suc n) ord) ?bs) = map frame ?bs \<and>
    map bk_idom (fold number_rpo (enumerate (Suc n) ord) ?bs) = map bk_idom ?bs \<and>
    map loop_mark (fold number_rpo (enumerate (Suc n) ord) ?bs) = map loop_mark ?bs \<and>
    (\<forall>k < length ord. bk_rpo (fold number_rpo (enumerate (Suc n) ord) ?bs ! (ord ! k)) = int (Suc n + k)) \<and>
    (\<forall>b < length ?bs. b \<notin> set ord \<longrightarrow> fold number_rpo (enumerate (Suc n) ord) ?bs ! b = ?bs ! b)"
    by (rule Cons.IH) (use Cons.prems in auto)
  have e: "fold number_rpo (enumerate n (b # ord)) blocks = fold number_rpo (enumerate (Suc n) ord) ?bs"
    by (simp add: number_rpo_def)
  have "bk_rpo (fold number_rpo (enumerate (Suc n) ord) ?bs ! ((b # ord) ! k)) = int (n + k)" if "k < length (b # ord)" for k
  proof (cases k)
    case 0
    then show ?thesis using IH Cons.prems by simp
  next
    case (Suc m)
    then show ?thesis using IH that by simp
  qed
  then show ?case unfolding e using IH bs by auto
qed simp

lemma parented_nth:
  "parented cfg bs \<Longrightarrow> k < length bs \<Longrightarrow> bs ! k \<noteq> 0 \<Longrightarrow> \<exists>m. k < m \<and> m < length bs \<and> bs ! k \<in> set (succs_of cfg (bs ! m))"
proof (induction bs arbitrary: k)
  case (Cons b bs)
  show ?case
  proof (cases k)
    case 0
    then obtain p where p: "p \<in> set bs" "b \<in> set (succs_of cfg p)" using Cons.prems by auto
    then obtain m where "m < length bs" "b \<in> set (succs_of cfg (bs ! m))" by (metis in_set_conv_nth)
    then show ?thesis using 0 by (intro exI [of _ "Suc m"]) simp
  next
    case (Suc j)
    then obtain m where "j < m" "m < length bs" "bs ! j \<in> set (succs_of cfg (bs ! m))"
      using Cons.IH [of j] Cons.prems by auto
    then show ?thesis using Suc by (intro exI [of _ "Suc m"]) simp
  qed
qed simp

lemma build_rpo_numbered:
  assumes g: "graph_of fn cfg" and u: "\<forall>b \<in> set (cf_blocks cfg). unmarked b" and ok: "ok RpoArrays"
  shows "\<exists>cfg'. mir_cfg_build_rpo ok cfg = Inr cfg' \<and> skeleton cfg' = skeleton cfg \<and> numbered cfg' \<and>
    (\<forall>b < length (cf_blocks cfg'). bk_idom (cf_blocks cfg' ! b) = -1 \<and> loop_mark (cf_blocks cfg' ! b) = (0, -1))"
proof -
  have w: "edges_wf cfg" and ne: "cf_blocks cfg \<noteq> []" using g by (auto simp: graph_of_def)
  obtain post seen where s: "rpo_search cfg (length (cf_blocks cfg) * (length (cf_edge_next cfg) + 1) + 1)
      [(0, bk_succ_head (cf_blocks cfg ! 0))] ((replicate (length (cf_blocks cfg)) False)[0 := True]) [] = Inr post"
    and i: "rpo_inv cfg [] seen post"
    using rpo_search_ends [OF w rpo_inv_start [OF w ne]] by blast
  note P = rpo_inv_done [OF i]
  define ord where "ord = rev post"
  define bs where "bs = fold number_rpo (enumerate 0 ord) (cf_blocks cfg)"
  let ?cfg = "cfg\<lparr>cf_rpo_order := ord, cf_blocks := bs\<rparr>"
  have F: "length bs = length (cf_blocks cfg)" "map frame bs = map frame (cf_blocks cfg)"
    "map (\<lambda>b. (bk_idom b, loop_mark b)) bs = map (\<lambda>b. (bk_idom b, loop_mark b)) (cf_blocks cfg)"
    "\<And>k. k < length ord \<Longrightarrow> bk_rpo (bs ! (ord ! k)) = int k"
    "\<And>b. b < length (cf_blocks cfg) \<Longrightarrow> b \<notin> set ord \<Longrightarrow> bs ! b = cf_blocks cfg ! b"
    using number_rpo_fold [of ord "cf_blocks cfg" 0] P unfolding bs_def ord_def by (auto intro: map_pair_eq)
  have sk: "skeleton ?cfg = skeleton cfg" using F(2) by (simp add: skeleton_def)
  have "\<exists>m < k. (ord ! m, ord ! k) \<in> steps cfg" if k: "k < length ord" "k \<noteq> 0" for k
  proof -
    have "ord ! k \<noteq> 0"
      using k P(2,3) nth_eq_iff_index_eq [OF P(1), of "length post - 1" "length post - 1 - k"]
      by (auto simp: ord_def rev_nth last_conv_nth)
    moreover have at: "length post - 1 - k < length post" "ord ! k = post ! (length post - 1 - k)"
      using k P(2) by (auto simp: ord_def rev_nth)
    ultimately obtain m where m: "length post - 1 - k < m" "m < length post" "ord ! k \<in> set (succs_of cfg (post ! m))"
      using parented_nth [OF P(4) at(1)] by auto
    then have "post ! m = ord ! (length post - 1 - m)" "length post - 1 - m < k" "post ! m < length (cf_blocks cfg)"
      using P(6) k by (auto simp: ord_def rev_nth)
    then show ?thesis using m(3) by (intro exI [of _ "length post - 1 - m"]) (simp add: steps_def)
  qed
  moreover have "ord ! 0 = 0" using P(2,3) by (simp add: ord_def rev_nth last_conv_nth)
  moreover have "bk_rpo (bs ! b) = -1" if "b < length (cf_blocks cfg)" "b \<notin> set ord" for b
    using F(5) [OF that] u that(1) by (simp add: unmarked_def)
  ultimately have "numbered ?cfg"
    unfolding numbered_def skeleton_steps [OF sk] using P F(1,4) by (simp add: ord_def)
  moreover have "bk_idom (bs ! b) = -1 \<and> loop_mark (bs ! b) = (0, -1)" if "b < length (cf_blocks cfg)" for b
    using arg_cong [OF F(3), of "\<lambda>xs. xs ! b"] that F(1) u by (simp add: unmarked_def loop_mark_def)
  moreover have "mir_cfg_build_rpo ok cfg = Inr ?cfg"
    using s ok by (simp add: mir_cfg_build_rpo_def Let_def allocate_mem_def ord_def bs_def)
  ultimately show ?thesis using sk F(1) by (intro exI [of _ ?cfg]) simp
qed


text \<open>Splitting and linking number nothing.\<close>

lemma extend_block_marks:
  "\<forall>b \<in> set blocks. unmarked b \<Longrightarrow> bo ! i < length blocks \<Longrightarrow> \<forall>b \<in> set (extend_block bo i blocks). unmarked b"
  by (auto simp: extend_block_def Let_def unmarked_def dest!: set_update_subset_insert [THEN subsetD])

lemma split_blocks_unmarked:
  assumes "mir_cfg_split_blocks ok fn cfg = Inr cfg'"
  shows "\<forall>b \<in> set (cf_blocks cfg'). unmarked b"
proof -
  let ?n = "length (fn_insns fn)"
  define bo where "bo = map (\<lambda>i. rank fn (Suc i) - 1) [0..<?n]"
  have c: "cf_blocks cfg' = fold (extend_block bo) [0..<?n] (replicate (rank fn ?n) fresh_block)"
    using assms by (auto simp: mir_cfg_split_blocks_def number_insns andthen_Inr_iff bo_def)
  have "(\<forall>b \<in> set (fold (extend_block bo) [0..<m] (replicate (rank fn ?n) fresh_block)). unmarked b) \<and>
      length (fold (extend_block bo) [0..<m] (replicate (rank fn ?n) fresh_block)) = rank fn ?n" if "m \<le> ?n" for m
    using that
  proof (induction m)
    case 0
    then show ?case by (auto simp: unmarked_def fresh_block_def)
  next
    case (Suc m)
    have "bo ! m < rank fn ?n"
      using rank_pos [of "Suc m" fn] rank_mono [of "Suc m" ?n fn] Suc.prems by (simp add: bo_def)
    then show ?case using extend_block_marks [of "fold (extend_block bo) [0..<m] (replicate (rank fn ?n) fresh_block)" bo m]
      Suc by simp
  qed
  then show ?thesis unfolding c by blast
qed

lemma edge_add_blocks: "mir_cfg_edge_add ok cfg h to = Inr (cfg', e) \<Longrightarrow> cf_blocks cfg' = cf_blocks cfg"
  by (auto simp: mir_cfg_edge_add_def Let_def andthen_Inr_iff split: if_splits)

lemma link_marks:
  assumes "mir_cfg_link ok from target cfg = Inr cfg'"
  shows "map (\<lambda>b. (bk_rpo b, bk_idom b, bk_loop_depth b, bk_loop_header b)) (cf_blocks cfg') =
    map (\<lambda>b. (bk_rpo b, bk_idom b, bk_loop_depth b, bk_loop_header b)) (cf_blocks cfg)"
  using assms
  by (auto simp: mir_cfg_link_def need_def Let_def andthen_Inr_iff map_update_same dest!: edge_add_blocks split: if_splits)

lemma unmarked_map:
  "(\<forall>b \<in> set bs. unmarked b) \<longleftrightarrow>
   (\<forall>m \<in> set (map (\<lambda>b. (bk_rpo b, bk_idom b, bk_loop_depth b, bk_loop_header b)) bs). m = (-1, -1, 0, -1))"
  by (auto simp: unmarked_def)

lemma link_unmarked:
  "mir_cfg_link ok from target cfg = Inr cfg' \<Longrightarrow> \<forall>b \<in> set (cf_blocks cfg). unmarked b \<Longrightarrow>
   \<forall>b \<in> set (cf_blocks cfg'). unmarked b"
proof -
  assume r: "mir_cfg_link ok from target cfg = Inr cfg'" and u: "\<forall>b \<in> set (cf_blocks cfg). unmarked b"
  show ?thesis using u unfolding unmarked_map link_marks [OF r] .
qed

lemma link_labels_unmarked:
  "link_labels ok fn slots b ls cfg = Inr cfg' \<Longrightarrow> \<forall>b \<in> set (cf_blocks cfg). unmarked b \<Longrightarrow>
   \<forall>b \<in> set (cf_blocks cfg'). unmarked b"
  by (induction ls arbitrary: cfg) (auto simp: andthen_Inr_iff dest: link_unmarked)

lemma link_block_unmarked:
  assumes "mir_cfg_link_block ok fn slots b cfg = Inr cfg'" "\<forall>b \<in> set (cf_blocks cfg). unmarked b"
  shows "\<forall>b \<in> set (cf_blocks cfg'). unmarked b"
  using assms unfolding mir_cfg_link_block_def Let_def
  by (auto simp del: link_labels.simps simp: andthen_Inr_iff split: if_splits MirAux.splits
      dest: link_labels_unmarked link_unmarked) (use link_unmarked link_labels_unmarked in blast)

lemma build_edges_unmarked:
  assumes "mir_cfg_build_edges ok fn cfg = Inr cfg'" "\<forall>b \<in> set (cf_blocks cfg). unmarked b"
  shows "\<forall>b \<in> set (cf_blocks cfg'). unmarked b"
proof -
  have "link_blocks ok fn slots bs c = Inr cfg' \<Longrightarrow> \<forall>b \<in> set (cf_blocks c). unmarked b \<Longrightarrow>
      \<forall>b \<in> set (cf_blocks cfg'). unmarked b" for slots bs c
    by (induction bs arbitrary: c) (auto simp: andthen_Inr_iff dest: link_block_unmarked)
  then show ?thesis using assms by (auto simp: mir_cfg_build_edges_def andthen_Inr_iff)
qed

section \<open>The order of the definedness sweeps\<close>

lemma build_order_all:
  assumes n: "numbered cfg" and r: "mir_cfg_build_order ok cfg = Inr cfg'"
  shows "skeleton cfg' = skeleton cfg" "cf_blocks cfg' = cf_blocks cfg" "cf_rpo_order cfg' = cf_rpo_order cfg"
    and "distinct (cf_order cfg')" "set (cf_order cfg') = {..<length (cf_blocks cfg)}"
proof -
  have c: "cfg' = cfg\<lparr>cf_order := cf_rpo_order cfg @
      filter (\<lambda>b. bk_rpo (cf_blocks cfg ! b) < 0) [0..<length (cf_blocks cfg)]\<rparr>"
    using r by (auto simp: mir_cfg_build_order_def andthen_Inr_iff)
  show "skeleton cfg' = skeleton cfg" "cf_blocks cfg' = cf_blocks cfg" "cf_rpo_order cfg' = cf_rpo_order cfg"
    by (simp_all add: c skeleton_def)
  have pos: "0 \<le> bk_rpo (cf_blocks cfg ! b)" if b: "b \<in> set (cf_rpo_order cfg)" for b
  proof -
    obtain k where "k < length (cf_rpo_order cfg)" "b = cf_rpo_order cfg ! k"
      using b by (metis in_set_conv_nth)
    then show ?thesis using n by (simp add: numbered_def)
  qed
  then have "set (cf_rpo_order cfg) \<inter> set (filter (\<lambda>b. bk_rpo (cf_blocks cfg ! b) < 0) [0..<length (cf_blocks cfg)]) = {}"
    by fastforce
  then show "distinct (cf_order cfg')" using n by (simp add: c numbered_def)
  have "\<And>b. b < length (cf_blocks cfg) \<Longrightarrow> b \<notin> set (cf_rpo_order cfg) \<Longrightarrow> bk_rpo (cf_blocks cfg ! b) < 0"
    "\<And>b. b \<in> set (cf_rpo_order cfg) \<Longrightarrow> b < length (cf_blocks cfg)"
    using n by (auto simp: numbered_def)
  then show "set (cf_order cfg') = {..<length (cf_blocks cfg)}" unfolding c by auto
qed


end
