(* ===== verification/MirCfgDom.thy ===== *)
theory MirCfgDom
  imports MirCfgOrder
begin

text \<open>
  The dominators of \<open>mir_cfg_build_dominators\<close>, the iteration of Cooper, Harvey and Kennedy. The chain of a
  block, the blocks met going up along immediate dominators, over-approximates the dominators of the
  block in every state of the iteration, and after \<open>k\<close> sweeps it holds only blocks on every path with
  fewer than \<open>k\<close> retreating edges. So the sweeps end, and then the chain is the set of dominators: a block
  dominates another when the other cannot be reached from the first block around it.
\<close>

section \<open>Chains\<close>

definition num :: "MirCfg \<Rightarrow> nat \<Rightarrow> nat" where
  "num cfg b = nat (bk_rpo (cf_blocks cfg ! b))"

definition has_idom :: "MirCfgBlock list \<Rightarrow> nat \<Rightarrow> bool" where
  "has_idom blocks b \<longleftrightarrow> b < length blocks \<and> 0 \<le> bk_idom (blocks ! b)"

abbreviation parent :: "MirCfgBlock list \<Rightarrow> nat \<Rightarrow> nat" where
  "parent blocks b \<equiv> nat (bk_idom (blocks ! b))"

inductive above :: "MirCfgBlock list \<Rightarrow> nat \<Rightarrow> nat \<Rightarrow> bool" for blocks where
  above_self: "above blocks b b"
| above_up: "b \<noteq> 0 \<Longrightarrow> above blocks a (parent blocks b) \<Longrightarrow> above blocks a b"

definition tree :: "MirCfg \<Rightarrow> MirCfgBlock list \<Rightarrow> bool" where
  "tree cfg blocks \<longleftrightarrow>
     map frame blocks = map frame (cf_blocks cfg) \<and> map bk_rpo blocks = map bk_rpo (cf_blocks cfg) \<and>
     map loop_mark blocks = map loop_mark (cf_blocks cfg) \<and>
     bk_idom (blocks ! 0) = 0 \<and>
     (\<forall>b. has_idom blocks b \<longrightarrow> b \<in> set (cf_rpo_order cfg) \<and> has_idom blocks (parent blocks b) \<and>
        (b \<noteq> 0 \<longrightarrow> num cfg (parent blocks b) < num cfg b))"

lemma numberedD:
  assumes "numbered cfg"
  shows "0 \<in> set (cf_rpo_order cfg)" "num cfg 0 = 0"
    and "b \<in> set (cf_rpo_order cfg) \<Longrightarrow> b < length (cf_blocks cfg)"
    and "b \<in> set (cf_rpo_order cfg) \<Longrightarrow> bk_rpo (cf_blocks cfg ! b) = int (num cfg b)"
    and "b \<in> set (cf_rpo_order cfg) \<Longrightarrow> num cfg b < length (cf_rpo_order cfg) \<and> cf_rpo_order cfg ! num cfg b = b"
    and "k < length (cf_rpo_order cfg) \<Longrightarrow> num cfg (cf_rpo_order cfg ! k) = k"
    and "a \<in> set (cf_rpo_order cfg) \<Longrightarrow> b \<in> set (cf_rpo_order cfg) \<Longrightarrow> num cfg a = num cfg b \<Longrightarrow> a = b"
proof -
  let ?o = "cf_rpo_order cfg"
  have z: "?o \<noteq> []" "?o ! 0 = 0" using assms by (auto simp: numbered_def)
  then show in0: "0 \<in> set ?o" by (metis length_greater_0_conv nth_mem)
  have r: "bk_rpo (cf_blocks cfg ! (?o ! k)) = int k" if "k < length ?o" for k using assms that by (simp add: numbered_def)
  then show n: "num cfg (?o ! k) = k" if "k < length ?o" for k using that by (simp add: num_def)
  show "num cfg 0 = 0" using n [of 0] z by simp
  have ix: "num cfg b < length ?o \<and> ?o ! num cfg b = b" if b: "b \<in> set ?o" for b
  proof -
    obtain k where "k < length ?o" "b = ?o ! k" using b by (metis in_set_conv_nth)
    then show ?thesis using n by simp
  qed
  then show "b \<in> set ?o \<Longrightarrow> num cfg b < length ?o \<and> ?o ! num cfg b = b" .
  show "b \<in> set ?o \<Longrightarrow> bk_rpo (cf_blocks cfg ! b) = int (num cfg b)" using ix [of b] r [of "num cfg b"] by simp
  show "b \<in> set ?o \<Longrightarrow> b < length (cf_blocks cfg)" using assms by (simp add: numbered_def)
  show "a \<in> set ?o \<Longrightarrow> b \<in> set ?o \<Longrightarrow> num cfg a = num cfg b \<Longrightarrow> a = b" using ix by metis
qed

lemma treeD:
  assumes "tree cfg blocks"
  shows "length blocks = length (cf_blocks cfg)" "bk_idom (blocks ! 0) = 0"
    and "has_idom blocks b \<Longrightarrow> b \<in> set (cf_rpo_order cfg)" "has_idom blocks b \<Longrightarrow> has_idom blocks (parent blocks b)"
    and "has_idom blocks b \<Longrightarrow> b \<noteq> 0 \<Longrightarrow> num cfg (parent blocks b) < num cfg b"
    and "b < length (cf_blocks cfg) \<Longrightarrow> bk_rpo (blocks ! b) = bk_rpo (cf_blocks cfg ! b)"
proof -
  show l: "length blocks = length (cf_blocks cfg)" using assms map_eq_imp_length_eq by (auto simp: tree_def)
  have "map bk_rpo blocks = map bk_rpo (cf_blocks cfg)" using assms by (simp add: tree_def)
  from arg_cong [OF this, of "\<lambda>xs. xs ! b"]
  show "b < length (cf_blocks cfg) \<Longrightarrow> bk_rpo (blocks ! b) = bk_rpo (cf_blocks cfg ! b)" using l by simp
qed (use assms in \<open>auto simp: tree_def\<close>)

lemma above_has_idom: "above blocks a b \<Longrightarrow> tree cfg blocks \<Longrightarrow> has_idom blocks b \<Longrightarrow> has_idom blocks a"
  by (induction rule: above.induct) (auto dest: treeD(4))

lemma above_num: "above blocks a b \<Longrightarrow> tree cfg blocks \<Longrightarrow> has_idom blocks b \<Longrightarrow> num cfg a \<le> num cfg b"
proof (induction rule: above.induct)
  case (above_up b a)
  then show ?case using treeD(4,5) [OF above_up.prems] by force
qed simp

lemma above_trans: "above blocks b c \<Longrightarrow> above blocks a b \<Longrightarrow> above blocks a c"
  by (induction rule: above.induct) (auto intro: above.intros)

lemma above_linear: "above blocks a c \<Longrightarrow> above blocks b c \<Longrightarrow> above blocks a b \<or> above blocks b a"
proof (induction rule: above.induct)
  case (above_up c a)
  from above_up.prems show ?case
  proof (cases rule: above.cases)
    case above_self
    then show ?thesis using above_up.hyps above.above_up by blast
  next
    case above_up
    then show ?thesis using above_up.IH by blast
  qed
qed simp

lemma above_antisym:
  assumes t: "tree cfg blocks" and n: "numbered cfg" and h: "has_idom blocks a" "has_idom blocks b"
    and ab: "above blocks a b" "above blocks b a"
  shows "a = b"
  using above_num [OF ab(1) t h(2)] above_num [OF ab(2) t h(1)] numberedD(7) [OF n treeD(3) [OF t h(1)] treeD(3) [OF t h(2)]]
  by simp

inductive_simps above_iff: "above blocks a b"

lemma above_0: "above blocks a 0 \<longleftrightarrow> a = 0"
  by (subst above_iff) auto

lemma above_root:
  assumes t: "tree cfg blocks" and h: "has_idom blocks b"
  shows "above blocks 0 b"
  using h
proof (induction "num cfg b" arbitrary: b rule: less_induct)
  case less
  show ?case
  proof (cases "b = 0")
    case False
    then show ?thesis using less treeD(4,5) [OF t less.prems] by (auto intro: above.above_up)
  qed (simp add: above.above_self)
qed

section \<open>The deepest common block\<close>

lemma climb_to:
  assumes n: "numbered cfg" and t: "tree cfg blocks" and h: "has_idom blocks a" "has_idom blocks b"
  shows "\<exists>c. climb blocks (int a) (int b) = Some (int c) \<and> above blocks c a \<and> num cfg c \<le> num cfg b \<and>
    (\<forall>d. above blocks d a \<longrightarrow> num cfg d \<le> num cfg b \<longrightarrow> above blocks d c)"
  using h(1)
proof (induction "num cfg a" arbitrary: a rule: less_induct)
  case less
  note N = numberedD [OF n]
  have rp: "bk_rpo (blocks ! x) = int (num cfg x)" if "has_idom blocks x" for x
    using that treeD(3,6) [OF t] N(3,4) by simp
  have e: "climb blocks (int a) (int b) =
      (if num cfg b < num cfg a then climb blocks (bk_idom (blocks ! a)) (int b) else Some (int a))"
    by (subst climb.simps) (use rp [OF less.prems] rp [OF h(2)] in simp)
  show ?case
  proof (cases "num cfg b < num cfg a")
    case False
    then show ?thesis by (auto simp: e intro: above.above_self)
  next
    case True
    then have a0: "a \<noteq> 0" using N(2) by (cases "a = 0") auto
    have p: "has_idom blocks (parent blocks a)" "num cfg (parent blocks a) < num cfg a" "int (parent blocks a) = bk_idom (blocks ! a)"
      using treeD(4,5) [OF t less.prems] a0 less.prems by (auto simp: has_idom_def)
    from less.hyps [OF p(2,1)] obtain c where c: "climb blocks (bk_idom (blocks ! a)) (int b) = Some (int c)"
      "above blocks c (parent blocks a)" "num cfg c \<le> num cfg b"
      "\<And>d. above blocks d (parent blocks a) \<Longrightarrow> num cfg d \<le> num cfg b \<Longrightarrow> above blocks d c"
      unfolding p(3) by blast
    have "above blocks d c" if "above blocks d a" "num cfg d \<le> num cfg b" for d
      using that True c(4) by (subst (asm) above_iff) auto
    then show ?thesis using c True a0 by (auto simp: e intro: above.above_up)
  qed
qed

lemma intersect_meets:
  assumes n: "numbered cfg" and t: "tree cfg blocks" and h: "has_idom blocks a" "has_idom blocks b"
  shows "\<exists>c. mir_cfg_intersect blocks (int a) (int b) = Some (int c) \<and> has_idom blocks c \<and>
    (\<forall>d. above blocks d c \<longleftrightarrow> above blocks d a \<and> above blocks d b)"
  using h
proof (induction "num cfg a + num cfg b" arbitrary: a b rule: less_induct)
  case less
  show ?case
  proof (cases "a = b")
    case True
    then show ?thesis using less.prems by (subst mir_cfg_intersect.simps) auto
  next
    case False
    obtain a' where a': "climb blocks (int a) (int b) = Some (int a')" "above blocks a' a" "num cfg a' \<le> num cfg b"
      "\<And>d. above blocks d a \<Longrightarrow> num cfg d \<le> num cfg b \<Longrightarrow> above blocks d a'"
      using climb_to [OF n t less.prems] by blast
    have ha: "has_idom blocks a'" by (rule above_has_idom [OF a'(2) t less.prems(1)])
    obtain b' where b': "climb blocks (int b) (int a') = Some (int b')" "above blocks b' b" "num cfg b' \<le> num cfg a'"
      "\<And>d. above blocks d b \<Longrightarrow> num cfg d \<le> num cfg a' \<Longrightarrow> above blocks d b'"
      using climb_to [OF n t less.prems(2) ha] by blast
    have hb: "has_idom blocks b'" by (rule above_has_idom [OF b'(2) t less.prems(2)])
    have le: "num cfg a' \<le> num cfg a" "num cfg b' \<le> num cfg b"
      using above_num [OF a'(2) t less.prems(1)] above_num [OF b'(2) t less.prems(2)] by auto
    have "num cfg a' + num cfg b' < num cfg a + num cfg b"
    proof (rule ccontr)
      assume "\<not> num cfg a' + num cfg b' < num cfg a + num cfg b"
      then have "num cfg a' = num cfg a" "num cfg b' = num cfg b" using le by auto
      then have "num cfg a = num cfg b" using a'(3) b'(3) by simp
      then show False using False numberedD(7) [OF n] treeD(3) [OF t] less.prems by blast
    qed
    from less.hyps [OF this ha hb] obtain c where c: "mir_cfg_intersect blocks (int a') (int b') = Some (int c)"
      "has_idom blocks c" "\<And>d. above blocks d c \<longleftrightarrow> above blocks d a' \<and> above blocks d b'" by blast
    have "above blocks d c \<longleftrightarrow> above blocks d a \<and> above blocks d b" for d
    proof
      show "above blocks d c \<Longrightarrow> above blocks d a \<and> above blocks d b" using c(3) above_trans a'(2) b'(2) by blast
      assume d: "above blocks d a \<and> above blocks d b"
      then have "above blocks d a'" using a'(4) above_num [OF _ t less.prems(2)] by blast
      then show "above blocks d c" using c(3) b'(4) above_num [OF _ t ha] d by blast
    qed
    then show ?thesis using False c a'(1) b'(1) by (subst mir_cfg_intersect.simps) auto
  qed
qed

lemma meet_preds_meets:
  assumes n: "numbered cfg" and t: "tree cfg blocks" and q: "\<forall>p \<in> set ps. p < length blocks"
  shows "meet_preds blocks ps (-1) =
      Some (-1) \<and> (\<forall>p \<in> set ps. \<not> has_idom blocks p) \<or>
    (\<exists>c. meet_preds blocks ps (-1) = Some (int c) \<and> has_idom blocks c \<and> (\<exists>p \<in> set ps. has_idom blocks p) \<and>
      (\<forall>d. above blocks d c \<longleftrightarrow> (\<forall>p \<in> set ps. has_idom blocks p \<longrightarrow> above blocks d p)))"
proof -
  have more: "\<exists>c. meet_preds blocks ps (int a) = Some (int c) \<and> has_idom blocks c \<and>
      (\<forall>d. above blocks d c \<longleftrightarrow> above blocks d a \<and> (\<forall>p \<in> set ps. has_idom blocks p \<longrightarrow> above blocks d p))"
    if "has_idom blocks a" "\<forall>p \<in> set ps. p < length blocks" for ps a
    using that
  proof (induction ps arbitrary: a)
    case (Cons p ps)
    show ?case
    proof (cases "has_idom blocks p")
      case True
      obtain c where "mir_cfg_intersect blocks (int p) (int a) = Some (int c)" "has_idom blocks c"
        "\<And>d. above blocks d c \<longleftrightarrow> above blocks d p \<and> above blocks d a"
        using intersect_meets [OF n t True Cons.prems(1)] by blast
      then show ?thesis using Cons.IH [of c] Cons.prems True by (auto simp: has_idom_def)
    next
      case False
      then show ?thesis using Cons.IH [of a] Cons.prems by (auto simp: has_idom_def)
    qed
  qed auto
  show ?thesis using q
  proof (induction ps)
    case (Cons p ps)
    show ?case
    proof (cases "has_idom blocks p")
      case True
      then show ?thesis using more [OF True, of ps] Cons.prems by (auto simp: has_idom_def)
    next
      case False
      then show ?thesis using Cons by (auto simp: has_idom_def)
    qed
  qed auto
qed

section \<open>Dominators\<close>

text \<open>The blocks that control reaches without entering block \<open>a\<close>.\<close>

inductive reach_avoiding :: "MirCfg \<Rightarrow> nat \<Rightarrow> nat \<Rightarrow> bool" for cfg a where
  avoid_first: "a \<noteq> 0 \<Longrightarrow> reach_avoiding cfg a 0"
| avoid_step: "reach_avoiding cfg a b \<Longrightarrow> (b, c) \<in> steps cfg \<Longrightarrow> c \<noteq> a \<Longrightarrow> reach_avoiding cfg a c"

text \<open>\<open>walk cfg n V b\<close>: a path from the first block to \<open>b\<close> through the blocks \<open>V\<close>, with \<open>n\<close> retreating edges.\<close>

inductive walk :: "MirCfg \<Rightarrow> nat \<Rightarrow> nat set \<Rightarrow> nat \<Rightarrow> bool" for cfg where
  walk_first: "walk cfg 0 {0} 0"
| walk_forward: "walk cfg n V b \<Longrightarrow> (b, c) \<in> steps cfg \<Longrightarrow> num cfg b < num cfg c \<Longrightarrow> walk cfg n (insert c V) c"
| walk_back: "walk cfg n V b \<Longrightarrow> (b, c) \<in> steps cfg \<Longrightarrow> num cfg c \<le> num cfg b \<Longrightarrow> walk cfg (Suc n) (insert c V) c"

lemma walk_extend: "walk cfg n V b \<Longrightarrow> (b, c) \<in> steps cfg \<Longrightarrow> \<exists>m. walk cfg m (insert c V) c"
  by (cases "num cfg b < num cfg c") (auto simp: not_less intro: walk_forward walk_back)

lemma walk_reach: "walk cfg n V b \<Longrightarrow> (0, b) \<in> (steps cfg)\<^sup>*"
  by (induction rule: walk.induct) (auto intro: rtrancl_into_rtrancl)

lemma walk_ends: "walk cfg n V b \<Longrightarrow> b \<in> V \<and> 0 \<in> V"
  by (induction rule: walk.induct) auto

lemma walk_avoids: "walk cfg n V b \<Longrightarrow> a \<notin> V \<Longrightarrow> reach_avoiding cfg a b"
  by (induction rule: walk.induct) (auto intro: reach_avoiding.intros)

lemma avoids_walk: "reach_avoiding cfg a b \<Longrightarrow> \<exists>n V. walk cfg n V b \<and> a \<notin> V"
proof (induction rule: reach_avoiding.induct)
  case avoid_first
  then show ?case using walk_first by fastforce
next
  case (avoid_step b c)
  then obtain n V where "walk cfg n V b" "a \<notin> V" by blast
  then show ?case using walk_extend [of cfg n V b c] avoid_step.hyps by fastforce
qed

lemma walk_prefix: "walk cfg n V b \<Longrightarrow> a \<in> V \<Longrightarrow> \<exists>m V'. m \<le> n \<and> V' \<subseteq> V \<and> walk cfg m V' a"
proof (induction rule: walk.induct)
  case walk_first
  then show ?case using walk.walk_first [of cfg] by (intro exI [of _ 0] exI [of _ "{0}"]) simp
next
  case (walk_forward n V b c)
  show ?case
  proof (cases "a = c")
    case True
    then show ?thesis using walk.walk_forward [OF walk_forward.hyps] by (intro exI [of _ n] exI [of _ "insert c V"]) simp
  next
    case False
    then obtain m V' where "m \<le> n" "V' \<subseteq> V" "walk cfg m V' a" using walk_forward by auto
    then show ?thesis by (intro exI [of _ m] exI [of _ V']) auto
  qed
next
  case (walk_back n V b c)
  show ?case
  proof (cases "a = c")
    case True
    then show ?thesis using walk.walk_back [OF walk_back.hyps] by (intro exI [of _ "Suc n"] exI [of _ "insert c V"]) simp
  next
    case False
    then obtain m V' where "m \<le> n" "V' \<subseteq> V" "walk cfg m V' a" using walk_back by auto
    then show ?thesis by (intro exI [of _ m] exI [of _ V']) auto
  qed
qed

text \<open>A path without retreating edges, taken up from one of its blocks, only meets larger numbers.\<close>

lemma walk_join:
  assumes "walk cfg k V x" "k = 0" "b \<in> V" and w: "walk cfg n W b"
  shows "\<exists>U. walk cfg n (W \<union> U) x \<and> (\<forall>y \<in> U. num cfg b < num cfg y) \<and> num cfg b \<le> num cfg x"
  using assms(1-3)
proof (induction rule: walk.induct)
  case walk_first
  then have "b = 0" by simp
  then show ?case using w by (intro exI [of _ "{}"]) auto
next
  case (walk_forward k V p c)
  show ?case
  proof (cases "b = c")
    case True
    then show ?thesis using w by (intro exI [of _ "{}"]) auto
  next
    case False
    then obtain U where U: "walk cfg n (W \<union> U) p" "\<forall>y \<in> U. num cfg b < num cfg y" "num cfg b \<le> num cfg p"
      using walk_forward by auto
    then have "num cfg b < num cfg c" using walk_forward.hyps(3) by simp
    then show ?thesis using walk.walk_forward [OF U(1) walk_forward.hyps(2,3)] U(2)
      by (intro exI [of _ "insert c U"]) auto
  qed
qed simp

lemma forward_walk:
  assumes n: "numbered cfg" and b: "b \<in> set (cf_rpo_order cfg)"
  shows "\<exists>V. walk cfg 0 V b"
  using b
proof (induction "num cfg b" arbitrary: b rule: less_induct)
  case less
  note N = numberedD [OF n]
  show ?case
  proof (cases "num cfg b = 0")
    case True
    then have "b = 0" using N(1,2,7) less.prems by metis
    then show ?thesis using walk_first by blast
  next
    case False
    then obtain m where m: "m < num cfg b" "(cf_rpo_order cfg ! m, b) \<in> steps cfg"
      using n N(5) [OF less.prems] unfolding numbered_def by metis
    let ?p = "cf_rpo_order cfg ! m"
    have p: "?p \<in> set (cf_rpo_order cfg)" "num cfg ?p = m" using m N(5) [OF less.prems] N(6) [of m] by auto
    then obtain V where "walk cfg 0 V ?p" using less.hyps [of ?p] m by auto
    then show ?thesis using walk_forward m p by metis
  qed
qed

section \<open>Moving a block up\<close>

lemma above_update:
  assumes n: "numbered cfg" and t: "tree cfg blocks" and b: "b < length blocks" "b \<noteq> 0"
    and c: "has_idom blocks c" "num cfg c < num cfg b"
    and bs: "bs = blocks[b := (blocks ! b)\<lparr>bk_idom := int c\<rparr>]"
  shows "has_idom blocks x \<Longrightarrow> \<not> above blocks b x \<Longrightarrow> above bs d x \<longleftrightarrow> above blocks d x"
    and "above bs d b \<longleftrightarrow> d = b \<or> above blocks d c"
    and "has_idom blocks x \<Longrightarrow> above blocks b x \<Longrightarrow> above bs d x \<longleftrightarrow> above blocks d x \<and> above blocks b d \<or> above blocks d c"
proof -
  have up: "parent bs x = (if x = b then c else parent blocks x)" for x using b by (simp add: bs nth_list_update)
  have off: "above bs d x \<longleftrightarrow> above blocks d x" if "has_idom blocks x" "\<not> above blocks b x" for d x
    using that
  proof (induction "num cfg x" arbitrary: x rule: less_induct)
    case less
    have "x \<noteq> b" using less.prems above_self by blast
    moreover have "above bs d (parent blocks x) \<longleftrightarrow> above blocks d (parent blocks x)" if "x \<noteq> 0"
      by (rule less.hyps) (use treeD(4,5) [OF t less.prems(1)] that less.prems(2) above_up in blast)+
    ultimately show ?case by (subst (1 2) above_iff) (auto simp: up)
  qed
  then show "has_idom blocks x \<Longrightarrow> \<not> above blocks b x \<Longrightarrow> above bs d x \<longleftrightarrow> above blocks d x" .
  have bc: "\<not> above blocks b c" using above_num [OF _ t c(1)] c(2) by fastforce
  show at: "above bs d b \<longleftrightarrow> d = b \<or> above blocks d c" for d
    by (subst above_iff) (use b up off [OF c(1) bc] in auto)
  have anti: "above blocks b d \<Longrightarrow> above blocks d b \<Longrightarrow> has_idom blocks b \<Longrightarrow> d = b" for d
    using above_antisym [OF t n] above_has_idom [OF _ t] by blast
  show "above bs d x \<longleftrightarrow> above blocks d x \<and> above blocks b d \<or> above blocks d c"
    if "has_idom blocks x" "above blocks b x"
    using that
  proof (induction "num cfg x" arbitrary: x rule: less_induct)
    case less
    show ?case
    proof (cases "x = b")
      case True
      then have "above blocks d b \<and> above blocks b d \<longleftrightarrow> d = b" using anti less.prems above_self by blast
      then show ?thesis using True at by simp
    next
      case False
      then have x: "x \<noteq> 0" "above blocks b (parent blocks x)"
        using less.prems(2) b(2) by (subst (asm) above_iff; auto)+
      have IH: "above bs d (parent blocks x) \<longleftrightarrow> above blocks d (parent blocks x) \<and> above blocks b d \<or> above blocks d c"
        by (rule less.hyps) (use treeD(4,5) [OF t less.prems(1)] x in auto)
      have "above bs d x \<longleftrightarrow> d = x \<or> above bs d (parent blocks x)" using x(1) up [of x] False by (subst above_iff) auto
      moreover have "above blocks d x \<longleftrightarrow> d = x \<or> above blocks d (parent blocks x)" using x(1) by (subst above_iff) auto
      ultimately show ?thesis using IH less.prems(2) by blast
    qed
  qed
qed


section \<open>The sweeps\<close>

definition covers :: "MirCfg \<Rightarrow> MirCfgBlock list \<Rightarrow> nat \<Rightarrow> nat \<Rightarrow> bool" where
  "covers cfg blocks k b \<longleftrightarrow>
     (\<forall>n V. walk cfg n V b \<longrightarrow> n < k \<longrightarrow> has_idom blocks b \<and> (\<forall>d. above blocks d b \<longrightarrow> d \<in> V))"

definition keeps :: "MirCfg \<Rightarrow> MirCfgBlock list \<Rightarrow> bool" where
  "keeps cfg blocks \<longleftrightarrow> (\<forall>b d. has_idom blocks b \<longrightarrow> \<not> reach_avoiding cfg d b \<longrightarrow> above blocks d b)"

text \<open>Sweep \<open>k + 1\<close> has treated the first \<open>j\<close> blocks of the order.\<close>

definition sweep_state :: "MirCfg \<Rightarrow> nat \<Rightarrow> nat \<Rightarrow> MirCfgBlock list \<Rightarrow> bool" where
  "sweep_state cfg k j blocks \<longleftrightarrow>
     tree cfg blocks \<and> keeps cfg blocks \<and>
     (\<forall>i < length (cf_rpo_order cfg). covers cfg blocks (if i < j then Suc k else k) (cf_rpo_order cfg ! i)) \<and>
     (k = 0 \<longrightarrow> (\<forall>i < length (cf_rpo_order cfg). j \<le> i \<longrightarrow> \<not> has_idom blocks (cf_rpo_order cfg ! i)))"

lemma preds_steps:
  "graph_of fn cfg \<Longrightarrow> b < length (cf_blocks cfg) \<Longrightarrow> set (preds_of cfg b) = {p. (p, b) \<in> steps cfg}"
  by (auto simp: graph_of_def steps_def)

lemma has_idom_update:
  "b < length blocks \<Longrightarrow> has_idom (blocks[b := (blocks ! b)\<lparr>bk_idom := int c\<rparr>]) x \<longleftrightarrow> has_idom blocks x \<or> x = b"
  by (auto simp: has_idom_def nth_list_update)

lemma tree_update:
  assumes t: "tree cfg blocks" and b: "b < length blocks" "b \<noteq> 0" "b \<in> set (cf_rpo_order cfg)"
    and c: "has_idom blocks c" "num cfg c < num cfg b"
  shows "tree cfg (blocks[b := (blocks ! b)\<lparr>bk_idom := int c\<rparr>])"
proof -
  let ?bs = "blocks[b := (blocks ! b)\<lparr>bk_idom := int c\<rparr>]"
  have "map frame ?bs = map frame blocks" "map bk_rpo ?bs = map bk_rpo blocks" "map loop_mark ?bs = map loop_mark blocks"
    by (rule map_update_same, simp add: frame_def loop_mark_def)+
  moreover have "x \<in> set (cf_rpo_order cfg) \<and> has_idom ?bs (parent ?bs x) \<and> (x \<noteq> 0 \<longrightarrow> num cfg (parent ?bs x) < num cfg x)"
    if "has_idom ?bs x" for x
  proof (cases "x = b")
    case True
    then show ?thesis using b c by (simp add: has_idom_update)
  next
    case False
    then show ?thesis using that treeD(3,4,5) [OF t, of x] b by (simp add: has_idom_update)
  qed
  ultimately show ?thesis using t b(2) by (simp add: tree_def)
qed

lemma walk_last:
  assumes "walk cfg n V b" "b \<noteq> 0"
  obtains p V' where "walk cfg n V' p" "(p, b) \<in> steps cfg" "num cfg p < num cfg b" "V = insert b V'"
  | p V' m where "walk cfg m V' p" "(p, b) \<in> steps cfg" "num cfg b \<le> num cfg p" "V = insert b V'" "n = Suc m"
  using assms by (auto elim: walk.cases)

lemma sweep_covers:
  assumes n: "numbered cfg" and s: "sweep_state cfg k j blocks" and x: "x \<in> set (cf_rpo_order cfg)"
  shows "covers cfg blocks (if num cfg x < j then Suc k else k) x"
  using s numberedD(5) [OF n x] unfolding sweep_state_def by metis

text \<open>The block the step computes: the deepest one common to the chains of the predecessors.\<close>

lemma step_meets:
  assumes g: "graph_of fn cfg" and n: "numbered cfg" and s: "sweep_state cfg k j blocks"
    and j: "0 < j" "j < length (cf_rpo_order cfg)" and b: "b = cf_rpo_order cfg ! j"
  shows "\<exists>c. meet_preds blocks (preds_of cfg b) (-1) = Some (int c) \<and> has_idom blocks c \<and> num cfg c < num cfg b \<and>
    (\<forall>d. above blocks d c \<longleftrightarrow> (\<forall>p. (p, b) \<in> steps cfg \<longrightarrow> has_idom blocks p \<longrightarrow> above blocks d p))"
proof -
  note N = numberedD [OF n]
  have t: "tree cfg blocks" using s by (simp add: sweep_state_def)
  have bs: "b \<in> set (cf_rpo_order cfg)" "num cfg b = j" using b j N(6) by auto
  have P: "set (preds_of cfg b) = {p. (p, b) \<in> steps cfg}" by (rule preds_steps [OF g N(3) [OF bs(1)]])
  obtain m where m: "m < j" "(cf_rpo_order cfg ! m, b) \<in> steps cfg" using n j b unfolding numbered_def by blast
  let ?p = "cf_rpo_order cfg ! m"
  have p: "?p \<in> set (cf_rpo_order cfg)" "num cfg ?p = m" using m j N(6) [of m] by auto
  obtain V where "walk cfg 0 V ?p" using forward_walk [OF n p(1)] by blast
  moreover have "covers cfg blocks (Suc k) ?p" using sweep_covers [OF n s p(1)] m p(2) by simp
  ultimately have hp: "has_idom blocks ?p" by (auto simp: covers_def)
  have "\<forall>p \<in> set (preds_of cfg b). p < length blocks" using P treeD(1) [OF t] by (auto simp: steps_def)
  from meet_preds_meets [OF n t this] obtain c where c: "meet_preds blocks (preds_of cfg b) (-1) = Some (int c)"
    "has_idom blocks c" "\<And>d. above blocks d c \<longleftrightarrow> (\<forall>p. (p, b) \<in> steps cfg \<longrightarrow> has_idom blocks p \<longrightarrow> above blocks d p)"
    using P hp m by auto
  have "above blocks c ?p" using c(3) above_self m hp by blast
  then have "num cfg c < num cfg b" using above_num [OF _ t hp] p bs m by fastforce
  then show ?thesis using c by blast
qed

lemma moved_covers:
  assumes n: "numbered cfg" and s: "sweep_state cfg k j blocks" and j: "0 < j" "j < length (cf_rpo_order cfg)"
    and b: "b = cf_rpo_order cfg ! j" and c: "has_idom blocks c" "num cfg c < num cfg b"
    and m: "\<And>d. above blocks d c \<longleftrightarrow> (\<forall>p. (p, b) \<in> steps cfg \<longrightarrow> has_idom blocks p \<longrightarrow> above blocks d p)"
    and bs: "bs = blocks[b := (blocks ! b)\<lparr>bk_idom := int c\<rparr>]"
  shows "covers cfg bs (Suc k) b"
    and "i < length (cf_rpo_order cfg) \<Longrightarrow> covers cfg bs (if i < Suc j then Suc k else k) (cf_rpo_order cfg ! i)"
proof -
  note N = numberedD [OF n]
  have t: "tree cfg blocks" using s by (simp add: sweep_state_def)
  have bo: "b \<in> set (cf_rpo_order cfg)" "num cfg b = j" using b j N(6) by auto
  have b0: "b \<noteq> 0" using bo(2) N(2) j(1) by (cases "b = 0") auto
  have bl: "b < length blocks" using N(3) [OF bo(1)] treeD(1) [OF t] by simp
  note U = above_update [OF n t bl b0 c bs]
  note C = sweep_covers [OF n s]
  have reach: "x \<in> set (cf_rpo_order cfg)" if "walk cfg i V x" for i V x
    using walk_reach [OF that] n by (simp add: numbered_def)
  show cb: "covers cfg bs (Suc k) b"
    unfolding covers_def
  proof (intro allI impI conjI)
    fix i V d assume w: "walk cfg i V b" "i < Suc k"
    show "has_idom bs b" using bl c by (simp add: bs has_idom_update)
    assume "above bs d b"
    then have d: "d = b \<or> above blocks d c" by (simp add: U)
    from w(1) b0 show "d \<in> V"
    proof (cases rule: walk_last)
      case (1 p V')
      then have "covers cfg blocks (Suc k) p" using C [OF reach [OF 1(1)]] bo by simp
      then show ?thesis using d m 1 w by (auto simp: covers_def)
    next
      case (2 p V' i')
      then have "covers cfg blocks k p" using C [OF reach [OF 2(1)]] bo by simp
      then show ?thesis using d m 2 w by (auto simp: covers_def)
    qed
  qed
  show "covers cfg bs (if i < Suc j then Suc k else k) (cf_rpo_order cfg ! i)" if i: "i < length (cf_rpo_order cfg)"
  proof (cases "i = j")
    case True
    then show ?thesis using cb b by simp
  next
    case False
    let ?x = "cf_rpo_order cfg ! i" and ?k = "if i < Suc j then Suc k else k"
    have x: "?x \<in> set (cf_rpo_order cfg)" "num cfg ?x = i" using i N(6) by auto
    have old: "covers cfg blocks ?k ?x" using C [OF x(1)] False x(2) by (auto simp: less_Suc_eq)
    show ?thesis
      unfolding covers_def
    proof (intro allI impI conjI)
      fix m V d assume w: "walk cfg m V ?x" "m < ?k"
      then have hx: "has_idom blocks ?x" and V: "\<And>d. above blocks d ?x \<Longrightarrow> d \<in> V" using old by (auto simp: covers_def)
      then show "has_idom bs ?x" using bl by (simp add: bs has_idom_update)
      assume d: "above bs d ?x"
      show "d \<in> V"
      proof (cases "above blocks b ?x")
        case True
        then have "j < i" using above_num [OF True t hx] False bo x by simp
        then have "m < k" using w(2) by simp
        obtain m' V' where p: "m' \<le> m" "V' \<subseteq> V" "walk cfg m' V' b" using walk_prefix [OF w(1) V [OF True]] by blast
        have "above blocks d ?x \<or> above bs d b" using d U(3) [OF hx True] U(2) by blast
        then show ?thesis using V cb p \<open>m < k\<close> unfolding covers_def by (meson less_Suc_eq le_less_trans subsetD)
      qed (use U(1) [OF hx] d V in blast)
    qed
  qed
qed


lemma moved_keeps:
  assumes n: "numbered cfg" and s: "sweep_state cfg k j blocks" and j: "0 < j" "j < length (cf_rpo_order cfg)"
    and b: "b = cf_rpo_order cfg ! j" and c: "has_idom blocks c" "num cfg c < num cfg b"
    and m: "\<And>d. above blocks d c \<longleftrightarrow> (\<forall>p. (p, b) \<in> steps cfg \<longrightarrow> has_idom blocks p \<longrightarrow> above blocks d p)"
    and bs: "bs = blocks[b := (blocks ! b)\<lparr>bk_idom := int c\<rparr>]"
  shows "keeps cfg bs"
proof -
  note N = numberedD [OF n]
  have t: "tree cfg blocks" and kp: "keeps cfg blocks" using s by (auto simp: sweep_state_def)
  have bo: "b \<in> set (cf_rpo_order cfg)" "num cfg b = j" using b j N(6) by auto
  have b0: "b \<noteq> 0" using bo(2) N(2) j(1) by (cases "b = 0") auto
  have bl: "b < length blocks" using N(3) [OF bo(1)] treeD(1) [OF t] by simp
  note U = above_update [OF n t bl b0 c bs]
  have at_b: "above blocks d c" if d: "\<not> reach_avoiding cfg d b" "d \<noteq> b" for d
    unfolding m
  proof (intro allI impI)
    fix p assume p: "(p, b) \<in> steps cfg" "has_idom blocks p"
    then have "\<not> reach_avoiding cfg d p" using d avoid_step by blast
    then show "above blocks d p" using kp p by (simp add: keeps_def)
  qed
  show ?thesis
    unfolding keeps_def
  proof (intro allI impI)
    fix x d assume hx: "has_idom bs x" and d: "\<not> reach_avoiding cfg d x"
    show "above bs d x"
    proof (cases "x = b")
      case True
      then show ?thesis using at_b d U(2) by blast
    next
      case False
      then have x: "has_idom blocks x" using hx bl by (simp add: bs has_idom_update)
      then have dx: "above blocks d x" using kp d by (simp add: keeps_def)
      show ?thesis
      proof (cases "above blocks b x \<and> \<not> above blocks b d")
        case True
        then have db: "above blocks d b" "d \<noteq> b" using above_linear [OF dx] above_self by blast+
        have hb: "has_idom blocks b" using above_has_idom True t x by blast
        have xo: "x \<in> set (cf_rpo_order cfg)" by (rule treeD(3) [OF t x])
        have "num cfg b \<le> num cfg x" using above_num True t x by blast
        then have jx: "j < num cfg x" using bo N(7) [OF bo(1) xo] False by (cases "num cfg x = j") auto
        have "k \<noteq> 0"
        proof
          assume "k = 0"
          then have "\<not> has_idom blocks (cf_rpo_order cfg ! num cfg x)"
            using s N(5) [OF xo] less_imp_le [OF jx] unfolding sweep_state_def by blast
          then show False using N(5) [OF xo] x by simp
        qed
        obtain V where V: "walk cfg 0 V x" using forward_walk [OF n xo] by blast
        then have bV: "b \<in> V"
          using sweep_covers [OF n s xo] jx \<open>k \<noteq> 0\<close> True by (auto simp: covers_def)
        have "\<not> reach_avoiding cfg d b"
        proof
          assume "reach_avoiding cfg d b"
          then obtain i W where W: "walk cfg i W b" "d \<notin> W" using avoids_walk by blast
          obtain Y where Y: "walk cfg i (W \<union> Y) x" "\<forall>y \<in> Y. num cfg b < num cfg y"
            using walk_join [OF V refl bV W(1)] by blast
          have "d \<notin> Y" using Y(2) above_num [OF db(1) t hb] by auto
          then show False using walk_avoids [OF Y(1)] W(2) d by blast
        qed
        then show ?thesis using at_b db(2) U(3) [OF x] True by blast
      next
        case False
        then show ?thesis using dx U(1,3) [OF x] by blast
      qed
    qed
  qed
qed

lemma dominator_step_state:
  assumes g: "graph_of fn cfg" and n: "numbered cfg" and s: "sweep_state cfg k j blocks"
    and j: "0 < j" "j < length (cf_rpo_order cfg)"
  shows "\<exists>bs. dominator_step cfg (cf_rpo_order cfg ! j) (blocks, ch) = Some (bs, ch \<or> bs \<noteq> blocks) \<and>
    sweep_state cfg k (Suc j) bs \<and> (\<exists>c. bs = blocks[cf_rpo_order cfg ! j := (blocks ! (cf_rpo_order cfg ! j))\<lparr>bk_idom := c\<rparr>])"
proof -
  let ?b = "cf_rpo_order cfg ! j"
  note N = numberedD [OF n]
  have t: "tree cfg blocks" using s by (simp add: sweep_state_def)
  obtain c where c: "meet_preds blocks (preds_of cfg ?b) (-1) = Some (int c)" "has_idom blocks c" "num cfg c < num cfg ?b"
    "\<And>d. above blocks d c \<longleftrightarrow> (\<forall>p. (p, ?b) \<in> steps cfg \<longrightarrow> has_idom blocks p \<longrightarrow> above blocks d p)"
    using step_meets [OF g n s j refl] by blast
  define bs where "bs = blocks[?b := (blocks ! ?b)\<lparr>bk_idom := int c\<rparr>]"
  have bo: "?b \<in> set (cf_rpo_order cfg)" "num cfg ?b = j" using j N(6) by auto
  have b0: "?b \<noteq> 0" using bo(2) N(2) j(1) by (cases "?b = 0") auto
  have bl: "?b < length blocks" using N(3) [OF bo(1)] treeD(1) [OF t] by simp
  have same: "bs \<noteq> blocks \<longleftrightarrow> bk_idom (blocks ! ?b) \<noteq> int c"
  proof
    have "bs = blocks" if e: "bk_idom (blocks ! ?b) = int c" unfolding bs_def e [symmetric] by simp
    then show "bs \<noteq> blocks \<Longrightarrow> bk_idom (blocks ! ?b) \<noteq> int c" by blast
    show "bk_idom (blocks ! ?b) \<noteq> int c \<Longrightarrow> bs \<noteq> blocks"
      using bl by (metis bs_def nth_list_update_eq MirCfgBlock.select_convs(5) MirCfgBlock.update_convs(5) MirCfgBlock.surjective)
  qed
  have "\<not> has_idom bs (cf_rpo_order cfg ! i)" if "k = 0" "i < length (cf_rpo_order cfg)" "Suc j \<le> i" for i
  proof -
    have "cf_rpo_order cfg ! i \<noteq> ?b" using that j n by (simp add: numbered_def nth_eq_iff_index_eq)
    then show ?thesis using s that bl by (simp add: bs_def has_idom_update sweep_state_def)
  qed
  moreover note tree_update [OF t bl b0 bo(1) c(2,3), folded bs_def] moved_keeps [OF n s j refl c(2,3,4) bs_def]
    moved_covers(2) [OF n s j refl c(2,3,4) bs_def]
  ultimately have "sweep_state cfg k (Suc j) bs" unfolding sweep_state_def by blast
  moreover have "dominator_step cfg ?b (blocks, ch) = Some (bs, ch \<or> bs \<noteq> blocks)"
    unfolding dominator_step_def using c(1) same by (auto simp: bs_def)
  ultimately show ?thesis unfolding bs_def by blast
qed


lemma dominator_sweep_state:
  assumes g: "graph_of fn cfg" and n: "numbered cfg"
  shows "sweep_state cfg k j blocks \<Longrightarrow> 0 < j \<Longrightarrow> j \<le> length (cf_rpo_order cfg) \<Longrightarrow>
    \<exists>bs ch'. dominator_sweep cfg (drop j (cf_rpo_order cfg)) (blocks, ch) = Some (bs, ch') \<and>
      sweep_state cfg k (length (cf_rpo_order cfg)) bs \<and> (\<not> ch' \<longrightarrow> \<not> ch \<and> bs = blocks) \<and> (ch \<longrightarrow> ch')"
proof (induction "length (cf_rpo_order cfg) - j" arbitrary: j blocks ch)
  case 0
  then show ?case by auto
next
  case (Suc d)
  then have j: "j < length (cf_rpo_order cfg)" by simp
  obtain b1 where b1: "dominator_step cfg (cf_rpo_order cfg ! j) (blocks, ch) = Some (b1, ch \<or> b1 \<noteq> blocks)"
    "sweep_state cfg k (Suc j) b1"
    using dominator_step_state [OF g n Suc.prems(1,2) j] by blast
  have "d = length (cf_rpo_order cfg) - Suc j" "Suc j \<le> length (cf_rpo_order cfg)" using Suc.hyps(2) j by auto
  from Suc.hyps(1) [OF this(1) b1(2) zero_less_Suc this(2), of "ch \<or> b1 \<noteq> blocks"] obtain bs ch' where
    r: "dominator_sweep cfg (drop (Suc j) (cf_rpo_order cfg)) (b1, ch \<or> b1 \<noteq> blocks) = Some (bs, ch')"
      "sweep_state cfg k (length (cf_rpo_order cfg)) bs" "\<not> ch' \<longrightarrow> \<not> (ch \<or> b1 \<noteq> blocks) \<and> bs = b1"
      "ch \<or> b1 \<noteq> blocks \<longrightarrow> ch'" by blast
  have "dominator_sweep cfg (drop j (cf_rpo_order cfg)) (blocks, ch) = Some (bs, ch')"
    using r(1) b1(1) by (simp add: Cons_nth_drop_Suc [OF j, symmetric])
  then show ?case using r by blast
qed

text \<open>A sweep that is done is a sweep to begin.\<close>

lemma sweep_state_next:
  assumes n: "numbered cfg" and s: "sweep_state cfg k (length (cf_rpo_order cfg)) blocks"
  shows "sweep_state cfg (Suc k) 1 blocks"
proof -
  have t: "tree cfg blocks" using s by (simp add: sweep_state_def)
  have "0 < length blocks" using numberedD(1,3) [OF n] treeD(1) [OF t] by fastforce
  then have h: "has_idom blocks 0" using treeD(2) [OF t] by (simp add: has_idom_def)
  have "covers cfg blocks i 0" for i using h walk_ends by (auto simp: covers_def above_0)
  moreover have "cf_rpo_order cfg ! 0 = 0" using n by (simp add: numbered_def)
  ultimately show ?thesis using s by (auto simp: sweep_state_def)
qed

lemma sweep_state_first:
  assumes n: "numbered cfg" and u: "\<forall>b < length (cf_blocks cfg). bk_idom (cf_blocks cfg ! b) = -1"
  shows "sweep_state cfg 0 1 ((cf_blocks cfg)[0 := (cf_blocks cfg ! 0)\<lparr>bk_idom := 0\<rparr>])"
proof -
  let ?bs = "(cf_blocks cfg)[0 := (cf_blocks cfg ! 0)\<lparr>bk_idom := 0\<rparr>]"
  note N = numberedD [OF n]
  have b0: "0 < length (cf_blocks cfg)" using N(1,3) by blast
  have h: "has_idom ?bs b \<longleftrightarrow> b = 0" for b using b0 u by (auto simp: has_idom_def nth_list_update)
  have "map frame ?bs = map frame (cf_blocks cfg)" "map bk_rpo ?bs = map bk_rpo (cf_blocks cfg)"
    "map loop_mark ?bs = map loop_mark (cf_blocks cfg)"
    by (rule map_update_same, simp add: frame_def loop_mark_def)+
  then have t: "tree cfg ?bs" using b0 N(1) by (simp add: tree_def h)
  have o0: "cf_rpo_order cfg ! 0 = 0" using n by (simp add: numbered_def)
  have "covers cfg ?bs (if i < 1 then Suc 0 else 0) (cf_rpo_order cfg ! i)" for i
    using o0 walk_ends by (auto simp: covers_def h above_0)
  moreover have "keeps cfg ?bs" using avoid_first by (auto simp: keeps_def h above_0)
  moreover have "\<not> has_idom ?bs (cf_rpo_order cfg ! i)" if "i < length (cf_rpo_order cfg)" "1 \<le> i" for i
    using that n o0 nth_eq_iff_index_eq [of "cf_rpo_order cfg" i 0] by (auto simp: h numbered_def)
  ultimately show ?thesis using t by (simp add: sweep_state_def)
qed

text \<open>The chains are the dominators.\<close>

definition dominators_of :: "MirCfg \<Rightarrow> MirCfgBlock list \<Rightarrow> bool" where
  "dominators_of cfg blocks \<longleftrightarrow>
     tree cfg blocks \<and>
     (\<forall>b. has_idom blocks b \<longleftrightarrow> b \<in> set (cf_rpo_order cfg)) \<and>
     (\<forall>b \<in> set (cf_rpo_order cfg). \<forall>a. above blocks a b \<longleftrightarrow> \<not> reach_avoiding cfg a b)"

lemma avoiding_bound:
  "\<exists>k. \<forall>a < m. \<forall>b < m. reach_avoiding cfg a b \<longrightarrow> (\<exists>n V. walk cfg n V b \<and> n < k \<and> a \<notin> V)"
proof -
  have "\<exists>k. reach_avoiding cfg (fst p) (snd p) \<longrightarrow> (\<exists>n V. walk cfg n V (snd p) \<and> n < k \<and> fst p \<notin> V)" for p
    using avoids_walk [of cfg "fst p" "snd p"] by blast
  then obtain f where f: "\<And>p. reach_avoiding cfg (fst p) (snd p) \<Longrightarrow> \<exists>n V. walk cfg n V (snd p) \<and> n < f p \<and> fst p \<notin> V"
    by metis
  let ?P = "{..<m} \<times> {..<m}"
  have "\<exists>n V. walk cfg n V b \<and> n < Max (f ` ?P) \<and> a \<notin> V" if ab: "a < m" "b < m" "reach_avoiding cfg a b" for a b
  proof -
    obtain n V where w: "walk cfg n V b" "n < f (a, b)" "a \<notin> V" using f [of "(a, b)"] ab by auto
    have "f (a, b) \<le> Max (f ` ?P)" by (rule Max_ge) (use ab in auto)
    then show ?thesis using w by (intro exI [of _ n] exI [of _ V]) simp
  qed
  then show ?thesis by blast
qed

lemma covers_all:
  assumes n: "numbered cfg" and c: "\<And>k. sweep_state cfg (Suc k) 1 blocks"
  shows "dominators_of cfg blocks"
proof -
  note N = numberedD [OF n]
  have t: "tree cfg blocks" and kp: "keeps cfg blocks" using c [of 0] by (auto simp: sweep_state_def)
  have cv: "covers cfg blocks k b" if b: "b \<in> set (cf_rpo_order cfg)" for k b
  proof -
    have "covers cfg blocks (if num cfg b < 1 then Suc (Suc k) else Suc k) b" by (rule sweep_covers [OF n c b])
    then show ?thesis by (auto simp: covers_def split: if_splits)
  qed
  have h: "has_idom blocks b" if b: "b \<in> set (cf_rpo_order cfg)" for b
    using cv [OF b, of 1] forward_walk [OF n b] by (auto simp: covers_def)
  have "above blocks a b \<longleftrightarrow> \<not> reach_avoiding cfg a b" if b: "b \<in> set (cf_rpo_order cfg)" for a b
  proof
    show "\<not> reach_avoiding cfg a b \<Longrightarrow> above blocks a b" using kp h [OF b] by (simp add: keeps_def)
    assume ab: "above blocks a b"
    show "\<not> reach_avoiding cfg a b"
    proof
      assume "reach_avoiding cfg a b"
      then obtain i V where "walk cfg i V b" "a \<notin> V" using avoids_walk by blast
      then show False using cv [OF b, of "Suc i"] ab unfolding covers_def by blast
    qed
  qed
  then show ?thesis using t h treeD(3) [OF t] unfolding dominators_of_def by blast
qed


lemma sweep_exact:
  assumes n: "numbered cfg" and s: "sweep_state cfg k j blocks" and k: "0 < k"
    and K: "\<forall>a < length (cf_blocks cfg). \<forall>b < length (cf_blocks cfg).
      reach_avoiding cfg a b \<longrightarrow> (\<exists>n V. walk cfg n V b \<and> n < k \<and> a \<notin> V)"
  shows "dominators_of cfg blocks"
proof -
  note N = numberedD [OF n]
  have t: "tree cfg blocks" and kp: "keeps cfg blocks" using s by (auto simp: sweep_state_def)
  have cv: "covers cfg blocks k b" if b: "b \<in> set (cf_rpo_order cfg)" for b
    using sweep_covers [OF n s b] by (auto simp: covers_def split: if_splits)
  have h: "has_idom blocks b" if b: "b \<in> set (cf_rpo_order cfg)" for b
    using cv [OF b] forward_walk [OF n b] k by (auto simp: covers_def)
  have "above blocks a b \<longleftrightarrow> \<not> reach_avoiding cfg a b" if b: "b \<in> set (cf_rpo_order cfg)" for a b
  proof
    show "\<not> reach_avoiding cfg a b \<Longrightarrow> above blocks a b" using kp h [OF b] by (simp add: keeps_def)
    assume ab: "above blocks a b"
    then have "a < length (cf_blocks cfg)" using N(3) treeD(3) [OF t above_has_idom [OF ab t h [OF b]]] by simp
    then show "\<not> reach_avoiding cfg a b" using K N(3) [OF b] cv [OF b] ab unfolding covers_def by blast
  qed
  then show ?thesis using t h treeD(3) [OF t] unfolding dominators_of_def by blast
qed

lemma dominators_unique:
  assumes n: "numbered cfg" and d: "dominators_of cfg bs" "dominators_of cfg bs'"
    and b: "b \<in> set (cf_rpo_order cfg)" "b \<noteq> 0"
  shows "bk_idom (bs ! b) = bk_idom (bs' ! b)"
proof -
  have t: "tree cfg bs" "tree cfg bs'" and h: "has_idom bs b" "has_idom bs' b"
    using d b by (auto simp: dominators_of_def)
  have eq: "above bs a x \<longleftrightarrow> above bs' a x" if "x \<in> set (cf_rpo_order cfg)" for a x
    using d that by (auto simp: dominators_of_def)
  let ?p = "parent bs b" and ?q = "parent bs' b"
  have p: "?p \<in> set (cf_rpo_order cfg)" "?p \<noteq> b" and q: "?q \<in> set (cf_rpo_order cfg)" "?q \<noteq> b"
    using treeD(3,4,5) [OF t(1)] treeD(3,4,5) [OF t(2)] h b by fastforce+
  have "above bs ?p b" "above bs' ?q b" using b(2) above_self above_up by blast+
  then have "above bs' ?p b" "above bs ?q b" using eq b by blast+
  then have "above bs' ?p ?q" "above bs ?q ?p" using p(2) q(2) above_iff [of bs' ?p b] above_iff [of bs ?q b] by auto
  then have "above bs ?p ?q" using eq q(1) by blast
  then have "?p = ?q"
    using above_antisym [OF t(1) n _ _ _ \<open>above bs ?q ?p\<close>] d(1) p(1) q(1) by (auto simp: dominators_of_def)
  then show ?thesis using h by (auto simp: has_idom_def)
qed

lemma exact_sweep_still:
  assumes g: "graph_of fn cfg" and n: "numbered cfg" and k: "0 < k"
    and K: "\<forall>a < length (cf_blocks cfg). \<forall>b < length (cf_blocks cfg).
      reach_avoiding cfg a b \<longrightarrow> (\<exists>n V. walk cfg n V b \<and> n < k \<and> a \<notin> V)"
  shows "sweep_state cfg k j blocks \<Longrightarrow> 0 < j \<Longrightarrow> j \<le> length (cf_rpo_order cfg) \<Longrightarrow>
    dominator_sweep cfg (drop j (cf_rpo_order cfg)) (blocks, ch) = Some (blocks, ch)"
proof (induction "length (cf_rpo_order cfg) - j" arbitrary: j)
  case (Suc d)
  then have j: "j < length (cf_rpo_order cfg)" by simp
  let ?b = "cf_rpo_order cfg ! j"
  obtain b1 c where b1: "dominator_step cfg ?b (blocks, ch) = Some (b1, ch \<or> b1 \<noteq> blocks)"
    "sweep_state cfg k (Suc j) b1" "b1 = blocks[?b := (blocks ! ?b)\<lparr>bk_idom := c\<rparr>]"
    using dominator_step_state [OF g n Suc.prems(1,2) j] by blast
  have bo: "?b \<in> set (cf_rpo_order cfg)" "num cfg ?b = j" using j numberedD(6) [OF n] by auto
  then have b0: "?b \<noteq> 0" using numberedD(2) [OF n] Suc.prems(2) by (cases "?b = 0") auto
  have bl: "?b < length blocks"
    using numberedD(3) [OF n bo(1)] Suc.prems(1) treeD(1) [of cfg blocks] by (simp add: sweep_state_def)
  have "bk_idom (blocks ! ?b) = bk_idom (b1 ! ?b)"
    by (rule dominators_unique [OF n sweep_exact [OF n Suc.prems(1) k K] sweep_exact [OF n b1(2) k K] bo(1) b0])
  then have e: "bk_idom (blocks ! ?b) = c" using b1(3) bl by simp
  have "b1 = blocks" unfolding b1(3) e [symmetric] by simp
  then have s1: "dominator_step cfg ?b (blocks, ch) = Some (blocks, ch)" "sweep_state cfg k (Suc j) blocks" using b1 by auto
  have "dominator_sweep cfg (drop (Suc j) (cf_rpo_order cfg)) (blocks, ch) = Some (blocks, ch)"
    by (rule Suc.hyps(1) [OF _ s1(2)]) (use Suc.hyps(2) j in auto)
  then show ?case using s1(1) by (simp add: Cons_nth_drop_Suc [OF j, symmetric])
qed simp

lemma sweep_state_mono:
  assumes s: "sweep_state cfg (Suc k) j blocks" and m: "m \<le> k"
  shows "sweep_state cfg (Suc m) j blocks"
proof -
  have c: "covers cfg blocks k' b \<Longrightarrow> m' \<le> k' \<Longrightarrow> covers cfg blocks m' b" for m' k' b
    unfolding covers_def by (meson less_le_trans)
  have "covers cfg blocks (if i < j then Suc (Suc m) else Suc m) (cf_rpo_order cfg ! i)" if "i < length (cf_rpo_order cfg)" for i
    by (rule c [of "if i < j then Suc (Suc k) else Suc k"]) (use s that m in \<open>auto simp: sweep_state_def\<close>)
  then show ?thesis using s by (simp add: sweep_state_def)
qed

lemma still_exact:
  assumes g: "graph_of fn cfg" and n: "numbered cfg" and s: "sweep_state cfg k 1 blocks"
    and still: "dominator_sweep cfg (drop 1 (cf_rpo_order cfg)) (blocks, False) = Some (blocks, False)"
  shows "dominators_of cfg blocks"
proof (rule covers_all [OF n])
  have l: "0 < length (cf_rpo_order cfg)" using n by (simp add: numbered_def)
  have up: "sweep_state cfg (k + m) 1 blocks" for m
  proof (induction m)
    case (Suc m)
    have "sweep_state cfg (k + m) (length (cf_rpo_order cfg)) blocks"
      using dominator_sweep_state [OF g n Suc.IH, of False] still l by (auto simp: Suc_le_eq)
    then show ?case using sweep_state_next [OF n] by simp
  qed (use s in simp)
  fix m
  have "sweep_state cfg (Suc (k + m)) 1 blocks" using up [of "Suc m"] by simp
  then show "sweep_state cfg (Suc m) 1 blocks" by (rule sweep_state_mono) simp
qed

lemma dominator_loop_exact:
  assumes g: "graph_of fn cfg" and n: "numbered cfg"
  shows "sweep_state cfg k 1 blocks \<Longrightarrow> \<exists>bs. dominator_loop cfg blocks = Some bs \<and> dominators_of cfg bs"
proof -
  obtain K where K: "\<forall>a < length (cf_blocks cfg). \<forall>b < length (cf_blocks cfg).
      reach_avoiding cfg a b \<longrightarrow> (\<exists>n V. walk cfg n V b \<and> n < K \<and> a \<notin> V)"
    using avoiding_bound [of "length (cf_blocks cfg)" cfg] by blast
  have l: "1 \<le> length (cf_rpo_order cfg)" using n by (simp add: numbered_def Suc_le_eq)
  show "sweep_state cfg k 1 blocks \<Longrightarrow> \<exists>bs. dominator_loop cfg blocks = Some bs \<and> dominators_of cfg bs"
  proof (induction "Suc K - k" arbitrary: k blocks)
    case 0
    have "K \<le> k" using 0(1) by simp
    then have Kk: "\<forall>a < length (cf_blocks cfg). \<forall>b < length (cf_blocks cfg).
      reach_avoiding cfg a b \<longrightarrow> (\<exists>n V. walk cfg n V b \<and> n < k \<and> a \<notin> V)"
      using K by (meson less_le_trans)
    have "dominator_sweep cfg (drop 1 (cf_rpo_order cfg)) (blocks, False) = Some (blocks, False)"
      by (rule exact_sweep_still [OF g n _ Kk 0(2)]) (use 0 l in auto)
    moreover from this have "dominators_of cfg blocks" by (rule still_exact [OF g n 0(2)])
    ultimately show ?case by (subst dominator_loop.simps) simp
  next
    case (Suc d)
    obtain bs ch where r: "dominator_sweep cfg (drop 1 (cf_rpo_order cfg)) (blocks, False) = Some (bs, ch)"
      "sweep_state cfg k (length (cf_rpo_order cfg)) bs" "\<not> ch \<longrightarrow> bs = blocks"
      using dominator_sweep_state [OF g n Suc.prems zero_less_one l, of False] by blast
    show ?case
    proof (cases ch)
      case True
      have "\<exists>bs'. dominator_loop cfg bs = Some bs' \<and> dominators_of cfg bs'"
        by (rule Suc.hyps(1) [OF _ sweep_state_next [OF n r(2)]]) (use Suc.hyps(2) in simp)
      then show ?thesis using r(1) True by (subst dominator_loop.simps) simp
    next
      case False
      then have "dominators_of cfg blocks" using still_exact [OF g n Suc.prems] r by simp
      then show ?thesis using r False by (subst dominator_loop.simps) simp
    qed
  qed
qed

text \<open>The query \<open>mir_cfg_dominates\<close>.\<close>

lemma dominates_above:
  assumes n: "numbered cfg" and t: "tree cfg blocks" and h: "has_idom blocks b"
  shows "mir_cfg_dominates blocks (int a) (int b) = Some (above blocks a b)"
  using h
proof (induction "num cfg b" arbitrary: b rule: less_induct)
  case less
  show ?case
  proof (cases "a = b \<or> b = 0")
    case True
    then show ?thesis using treeD(2) [OF t] above_self by (subst mir_cfg_dominates.simps) (auto simp: above_0)
  next
    case False
    then have p: "has_idom blocks (parent blocks b)" "num cfg (parent blocks b) < num cfg b" "int (parent blocks b) = bk_idom (blocks ! b)"
      using treeD(4,5) [OF t less.prems] less.prems by (auto simp: has_idom_def)
    then have "bk_idom (blocks ! b) \<noteq> int b" by (metis nat_int less_irrefl)
    moreover have "above blocks a b \<longleftrightarrow> above blocks a (parent blocks b)" using False by (subst above_iff) auto
    ultimately show ?thesis using less.hyps [OF p(2,1)] False p(3) by (subst mir_cfg_dominates.simps) simp
  qed
qed

lemma build_dominators_exact:
  assumes g: "graph_of fn cfg" and n: "numbered cfg" and u: "\<forall>b < length (cf_blocks cfg). bk_idom (cf_blocks cfg ! b) = -1"
  shows "\<exists>bs. mir_cfg_build_dominators cfg = Some (cfg\<lparr>cf_blocks := bs\<rparr>) \<and> dominators_of cfg bs"
  using dominator_loop_exact [OF g n sweep_state_first [OF n u]] by (auto simp: mir_cfg_build_dominators_def)


end
