(* ===== verification/MirCfgLoops.thy ===== *)
theory MirCfgLoops
  imports MirCfgDom
begin

text \<open>
  The loops of \<open>mir_cfg_build_loops\<close>. An edge from a reachable block to a block that dominates it is a back
  edge; the members of its loop are the header, and what reaches the tail without passing the header.
  The walk over the predecessors ends with exactly those. The depth of a block is the number of back
  edges whose loop it is in, and its header is a header of such a loop, of greatest depth.
\<close>

section \<open>Members\<close>

inductive in_loop :: "MirCfg \<Rightarrow> nat \<Rightarrow> nat \<Rightarrow> nat \<Rightarrow> bool" for cfg header tail where
  loop_header: "in_loop cfg header tail header"
| loop_tail: "in_loop cfg header tail tail"
| loop_pred: "in_loop cfg header tail b \<Longrightarrow> b \<noteq> header \<Longrightarrow> (p, b) \<in> steps cfg \<Longrightarrow> in_loop cfg header tail p"

lemma push_preds_fold:
  assumes "\<forall>p \<in> set ps. p < length member" "fold push_preds ps (member, work) = (member', work')"
  shows "length member' = length member \<and>
    (\<forall>b < length member. member' ! b \<longleftrightarrow> member ! b \<or> b \<in> set ps) \<and>
    set work' = set work \<union> {p \<in> set ps. \<not> member ! p} \<and>
    length work' + length (filter Not member') = length work + length (filter Not member)"
  using assms
proof (induction ps arbitrary: member work)
  case (Cons p ps)
  show ?case
  proof (cases "member ! p")
    case True
    then have "push_preds p (member, work) = (member, work)" by (simp add: push_preds_def)
    then have "fold push_preds ps (member, work) = (member', work')" using Cons.prems(2) by simp
    from Cons.IH [OF _ this] show ?thesis using Cons.prems(1) True by auto
  next
    case False
    have p: "p < length member" using Cons.prems(1) by simp
    have "push_preds p (member, work) = (member[p := True], p # work)" using False by (simp add: push_preds_def)
    then have "fold push_preds ps (member[p := True], p # work) = (member', work')" using Cons.prems(2) by simp
    from Cons.IH [OF _ this] have IH: "length member' = length member"
      "\<forall>b < length member. member' ! b \<longleftrightarrow> member[p := True] ! b \<or> b \<in> set ps"
      "set work' = insert p (set work) \<union> {q \<in> set ps. \<not> member[p := True] ! q}"
      "length work' + length (filter Not member') = Suc (length work) + length (filter Not (member[p := True]))"
      using Cons.prems(1) by auto
    have "member[p := True] ! b \<longleftrightarrow> member ! b \<or> b = p" if "b < length member" for b using that p by (simp add: nth_list_update)
    then show ?thesis using IH Cons.prems(1) False filter_Not_mark [OF p False] by auto
  qed
qed auto

definition walk_inv :: "MirCfg \<Rightarrow> nat \<Rightarrow> nat \<Rightarrow> bool list \<Rightarrow> nat list \<Rightarrow> bool" where
  "walk_inv cfg header tail member work \<longleftrightarrow>
     length member = length (cf_blocks cfg) \<and> member ! header \<and> member ! tail \<and> header \<notin> set work \<and>
     (\<forall>b \<in> set work. b < length (cf_blocks cfg) \<and> member ! b) \<and>
     (\<forall>b < length (cf_blocks cfg). member ! b \<longrightarrow> in_loop cfg header tail b) \<and>
     (\<forall>b < length (cf_blocks cfg). member ! b \<longrightarrow> b \<noteq> header \<longrightarrow> b \<notin> set work \<longrightarrow>
        (\<forall>p. (p, b) \<in> steps cfg \<longrightarrow> member ! p))"

lemma in_loop_less:
  "in_loop cfg h t b \<Longrightarrow> h < length (cf_blocks cfg) \<Longrightarrow> t < length (cf_blocks cfg) \<Longrightarrow> b < length (cf_blocks cfg)"
  by (induction rule: in_loop.induct) (auto simp: steps_def)

lemma member_walk_exact:
  assumes g: "graph_of fn cfg" and hd: "header < length (cf_blocks cfg)" "tail < length (cf_blocks cfg)"
  shows "walk_inv cfg header tail member work \<Longrightarrow>
    \<exists>m. member_walk cfg member work = Some m \<and> length m = length (cf_blocks cfg) \<and>
      (\<forall>b < length (cf_blocks cfg). m ! b \<longleftrightarrow> in_loop cfg header tail b)"
proof (induction "length work + length (filter Not member)" arbitrary: member work rule: less_induct)
  case less
  have I: "length member = length (cf_blocks cfg)" "member ! header" "member ! tail" "header \<notin> set work"
    "\<And>b. b \<in> set work \<Longrightarrow> b < length (cf_blocks cfg) \<and> member ! b"
    "\<And>b. b < length (cf_blocks cfg) \<Longrightarrow> member ! b \<Longrightarrow> in_loop cfg header tail b"
    "\<And>b p. b < length (cf_blocks cfg) \<Longrightarrow> member ! b \<Longrightarrow> b \<noteq> header \<Longrightarrow> b \<notin> set work \<Longrightarrow>
      (p, b) \<in> steps cfg \<Longrightarrow> member ! p"
    using less.prems unfolding walk_inv_def by blast+
  show ?case
  proof (cases work)
    case Nil
    have "member ! b" if "in_loop cfg header tail b" for b
      using that
    proof induction
      case (loop_pred b p)
      then show ?case using I(7) [OF in_loop_less [OF loop_pred.hyps(1) hd]] Nil by simp
    qed (use I(2,3) in auto)
    then show ?thesis using I(1,6) Nil by (subst member_walk.simps) auto
  next
    case (Cons b rest)
    have b: "b < length (cf_blocks cfg)" "member ! b" "b \<noteq> header" using I(4) I(5) [of b] Cons by auto
    have P: "set (preds_of cfg b) = {p. (p, b) \<in> steps cfg}" by (rule preds_steps [OF g b(1)])
    obtain member' work' where f: "fold push_preds (preds_of cfg b) (member, rest) = (member', work')" by fastforce
    have F: "length member' = length member" "\<And>x. x < length member \<Longrightarrow> member' ! x \<longleftrightarrow> member ! x \<or> (x, b) \<in> steps cfg"
      "set work' = set rest \<union> {p. (p, b) \<in> steps cfg \<and> \<not> member ! p}"
      "length work' + length (filter Not member') = length rest + length (filter Not member)"
      using push_preds_fold [OF _ f] P I(1) by (auto simp: steps_def)
    have small: "p < length (cf_blocks cfg)" if "(p, x) \<in> steps cfg" for p x using that by (simp add: steps_def)
    have "walk_inv cfg header tail member' work'"
      unfolding walk_inv_def
    proof (intro conjI allI impI ballI)
      show "length member' = length (cf_blocks cfg)" "member' ! header" "member' ! tail" using F(1,2) I(1,2,3) hd by auto
      show "header \<notin> set work'" using F(3) I(2,4) Cons by auto
      fix x
      show "x < length (cf_blocks cfg)" "member' ! x" if "x \<in> set work'"
        using that F(2) [of x] F(3) I(1) I(5) [of x] Cons small [of x b] by auto
      assume x: "x < length (cf_blocks cfg)" and m: "member' ! x"
      have mx: "member ! x \<or> (x, b) \<in> steps cfg" using F(2) [of x] I(1) x m by simp
      show "in_loop cfg header tail x" using mx I(6) [OF x] I(6) [OF b(1,2)] b(3) loop_pred by blast
      fix p assume h: "x \<noteq> header" and w: "x \<notin> set work'" and p: "(p, x) \<in> steps cfg"
      show "member' ! p"
      proof (cases "x = b")
        case True
        then show ?thesis using F(2) [of p] I(1) small [OF p] p by simp
      next
        case False
        then have "member ! x" "x \<notin> set work" using mx w F(3) Cons by auto
        then show ?thesis using I(7) [OF x _ h _ p] F(2) [of p] I(1) small [OF p] by simp
      qed
    qed
    from less.hyps [OF _ this] show ?thesis using F(4) Cons f by (subst member_walk.simps) auto
  qed
qed

lemma loop_members_exact:
  assumes g: "graph_of fn cfg" and hd: "header < length (cf_blocks cfg)" "tail < length (cf_blocks cfg)"
  shows "\<exists>m. mir_cfg_loop_members cfg header tail = Some m \<and> length m = length (cf_blocks cfg) \<and>
      (\<forall>b < length (cf_blocks cfg). m ! b \<longleftrightarrow> in_loop cfg header tail b)"
proof (cases "header = tail")
  case True
  have "walk_inv cfg header tail ((replicate (length (cf_blocks cfg)) False)[header := True]) []"
    using hd True by (auto simp: walk_inv_def nth_list_update intro: in_loop.intros)
  from member_walk_exact [OF g hd this] show ?thesis using True hd by (simp add: mir_cfg_loop_members_def Let_def)
next
  case False
  have "walk_inv cfg header tail ((replicate (length (cf_blocks cfg)) False)[header := True, tail := True]) [tail]"
    using hd False by (auto simp: walk_inv_def nth_list_update intro: in_loop.intros)
  from member_walk_exact [OF g hd this] show ?thesis using False hd by (simp add: mir_cfg_loop_members_def Let_def)
qed

section \<open>What the loops leave alone\<close>

definition kernel :: "MirCfg \<Rightarrow> _" where
  "kernel cfg = (skeleton cfg, map bk_rpo (cf_blocks cfg), map bk_idom (cf_blocks cfg), cf_rpo_order cfg, cf_order cfg)"

definition dominated :: "MirFunction \<Rightarrow> MirCfg \<Rightarrow> bool" where
  "dominated fn cfg \<longleftrightarrow> graph_of fn cfg \<and> numbered cfg \<and> dominators_of cfg (cf_blocks cfg)"

lemma kernelD:
  assumes "kernel cfg' = kernel cfg"
  shows "skeleton cfg' = skeleton cfg" "cf_rpo_order cfg' = cf_rpo_order cfg" "cf_order cfg' = cf_order cfg"
    and "b < length (cf_blocks cfg) \<Longrightarrow> bk_rpo (cf_blocks cfg' ! b) = bk_rpo (cf_blocks cfg ! b)"
    and "b < length (cf_blocks cfg) \<Longrightarrow> bk_idom (cf_blocks cfg' ! b) = bk_idom (cf_blocks cfg ! b)"
proof -
  show s: "skeleton cfg' = skeleton cfg" "cf_rpo_order cfg' = cf_rpo_order cfg" "cf_order cfg' = cf_order cfg"
    using assms by (auto simp: kernel_def)
  have l: "length (cf_blocks cfg') = length (cf_blocks cfg)" by (rule skeletonD(1) [OF s(1)])
  have "map bk_rpo (cf_blocks cfg') = map bk_rpo (cf_blocks cfg)" "map bk_idom (cf_blocks cfg') = map bk_idom (cf_blocks cfg)"
    using assms by (auto simp: kernel_def)
  then show "b < length (cf_blocks cfg) \<Longrightarrow> bk_rpo (cf_blocks cfg' ! b) = bk_rpo (cf_blocks cfg ! b)"
    "b < length (cf_blocks cfg) \<Longrightarrow> bk_idom (cf_blocks cfg' ! b) = bk_idom (cf_blocks cfg ! b)"
    using l by (metis nth_map)+
qed

lemma reach_avoiding_steps: "steps cfg' = steps cfg \<Longrightarrow> reach_avoiding cfg' a b \<longleftrightarrow> reach_avoiding cfg a b"
proof -
  have "reach_avoiding c a b \<Longrightarrow> steps c = steps c' \<Longrightarrow> reach_avoiding c' a b" for c c'
    by (induction rule: reach_avoiding.induct) (auto intro: reach_avoiding.intros)
  then show "steps cfg' = steps cfg \<Longrightarrow> reach_avoiding cfg' a b \<longleftrightarrow> reach_avoiding cfg a b" by metis
qed

lemma in_loop_steps: "steps cfg' = steps cfg \<Longrightarrow> in_loop cfg' h t b \<longleftrightarrow> in_loop cfg h t b"
proof -
  have "in_loop c h t b \<Longrightarrow> steps c = steps c' \<Longrightarrow> in_loop c' h t b" for c c'
    by (induction rule: in_loop.induct) (auto intro: in_loop.intros)
  then show "steps cfg' = steps cfg \<Longrightarrow> in_loop cfg' h t b \<longleftrightarrow> in_loop cfg h t b" by metis
qed

lemma kernel_numbered:
  assumes k: "kernel cfg' = kernel cfg" and n: "numbered cfg"
  shows "numbered cfg'"
proof -
  note K = kernelD [OF k]
  have "bk_rpo (cf_blocks cfg' ! (cf_rpo_order cfg ! i)) = bk_rpo (cf_blocks cfg ! (cf_rpo_order cfg ! i))"
    if "i < length (cf_rpo_order cfg)" for i
    using K(4) numberedD(3) [OF n nth_mem [OF that]] .
  then show ?thesis
    using n K(4) skeletonD(1) [OF K(1)] unfolding numbered_def K(2) skeleton_steps [OF K(1)] by simp
qed

lemma kernel_above:
  assumes k: "kernel cfg' = kernel cfg" and t: "tree cfg (cf_blocks cfg)" and h: "has_idom (cf_blocks cfg) b"
  shows "above (cf_blocks cfg') a b \<longleftrightarrow> above (cf_blocks cfg) a b"
  using h
proof (induction "num cfg b" arbitrary: b rule: less_induct)
  case less
  have i: "bk_idom (cf_blocks cfg' ! b) = bk_idom (cf_blocks cfg ! b)"
    using kernelD(5) [OF k] less.prems by (simp add: has_idom_def)
  show ?case
  proof (cases "b = 0")
    case False
    then have "above (cf_blocks cfg') a (parent (cf_blocks cfg) b) \<longleftrightarrow> above (cf_blocks cfg) a (parent (cf_blocks cfg) b)"
      using less.hyps treeD(4,5) [OF t less.prems] by blast
    then show ?thesis by (subst (1 2) above_iff) (simp add: i)
  qed (simp add: above_0)
qed

lemma kernel_dominated:
  assumes k: "kernel cfg' = kernel cfg" and d: "dominated fn cfg"
  shows "dominated fn cfg'"
proof -
  note K = kernelD [OF k]
  have g: "graph_of fn cfg" and n: "numbered cfg" and D: "dominators_of cfg (cf_blocks cfg)"
    using d by (auto simp: dominated_def)
  have t: "tree cfg (cf_blocks cfg)" using D by (simp add: dominators_of_def)
  have l: "length (cf_blocks cfg') = length (cf_blocks cfg)" by (rule skeletonD(1) [OF K(1)])
  have h: "has_idom (cf_blocks cfg') b \<longleftrightarrow> has_idom (cf_blocks cfg) b" for b using K(5) l by (auto simp: has_idom_def)
  have nm: "num cfg' b = num cfg b" if "b < length (cf_blocks cfg)" for b using K(4) [OF that] by (simp add: num_def)
  have "b \<in> set (cf_rpo_order cfg) \<and> has_idom (cf_blocks cfg) (parent (cf_blocks cfg') b) \<and>
      (b \<noteq> 0 \<longrightarrow> num cfg' (parent (cf_blocks cfg') b) < num cfg' b)" if b: "has_idom (cf_blocks cfg) b" for b
  proof -
    have "b < length (cf_blocks cfg)" "parent (cf_blocks cfg) b < length (cf_blocks cfg)"
      using b treeD(4) [OF t b] by (auto simp: has_idom_def)
    then show ?thesis using treeD(3,4,5) [OF t b] K(5) [of b] nm by simp
  qed
  moreover have "bk_idom (cf_blocks cfg' ! 0) = 0"
    using treeD(2) [OF t] K(5) [of 0] numberedD(1,3) [OF n] by auto
  ultimately have t': "tree cfg' (cf_blocks cfg')" by (simp add: tree_def h K(2))
  have "above (cf_blocks cfg') a b \<longleftrightarrow> \<not> reach_avoiding cfg' a b" if "b \<in> set (cf_rpo_order cfg)" for a b
    using kernel_above [OF k t] D that reach_avoiding_steps [OF skeleton_steps [OF K(1)]] by (auto simp: dominators_of_def)
  then have "dominators_of cfg' (cf_blocks cfg')" using t' D by (simp add: dominators_of_def h K(2))
  then show ?thesis using skeleton_graph [OF K(1) g] kernel_numbered [OF k n] by (simp add: dominated_def)
qed

section \<open>Back edges, depths and headers\<close>

definition back_edge :: "MirCfg \<Rightarrow> nat \<Rightarrow> nat \<Rightarrow> bool" where
  "back_edge cfg b h \<longleftrightarrow> b \<in> set (cf_rpo_order cfg) \<and> \<not> reach_avoiding cfg h b"

definition loop_over :: "MirCfg \<Rightarrow> nat \<Rightarrow> nat \<times> nat \<Rightarrow> bool" where
  "loop_over cfg x e \<longleftrightarrow> back_edge cfg (fst e) (snd e) \<and> in_loop cfg (snd e) (fst e) x"

lemma kernel_loop_over: "kernel cfg' = kernel cfg \<Longrightarrow> loop_over cfg' x e \<longleftrightarrow> loop_over cfg x e"
  using kernelD(1,2) [of cfg' cfg] skeleton_steps [of cfg' cfg] reach_avoiding_steps [of cfg' cfg] in_loop_steps [of cfg' cfg]
  by (simp add: loop_over_def back_edge_def)

lemma is_back_edge_exact:
  assumes d: "dominated fn cfg" and b: "b < length (cf_blocks cfg)"
  shows "mir_cfg_is_back_edge cfg b h = Some (back_edge cfg b h)"
proof -
  have n: "numbered cfg" and D: "dominators_of cfg (cf_blocks cfg)" using d by (auto simp: dominated_def)
  show ?thesis
  proof (cases "b \<in> set (cf_rpo_order cfg)")
    case True
    then have "mir_cfg_dominates (cf_blocks cfg) (int h) (int b) = Some (\<not> reach_avoiding cfg h b)"
      using dominates_above [OF n, of "cf_blocks cfg" b h] D by (simp add: dominators_of_def)
    then show ?thesis using True numberedD(4) [OF n True] by (simp add: mir_cfg_is_back_edge_def back_edge_def)
  next
    case False
    then show ?thesis using n b by (simp add: mir_cfg_is_back_edge_def back_edge_def numbered_def)
  qed
qed

lemma deepen_fold:
  assumes "n \<le> length blocks" "length m = length blocks"
  shows "length (fold (deepen m) [0..<n] blocks) = length blocks \<and>
    (\<forall>x < length blocks. fold (deepen m) [0..<n] blocks ! x =
       (if x < n \<and> m ! x then (blocks ! x)\<lparr>bk_loop_depth := bk_loop_depth (blocks ! x) + 1\<rparr> else blocks ! x))"
  using assms(1)
proof (induction n)
  case (Suc n)
  then show ?case by (auto simp: deepen_def nth_list_update less_Suc_eq)
qed simp

lemma assign_header_fold:
  assumes "n \<le> length blocks" "length m = length blocks" "h < length blocks"
    and hd: "\<And>x. x < length blocks \<Longrightarrow> bk_loop_header (blocks ! x) < int (length blocks)"
  shows "length (fold (assign_header h m) [0..<n] blocks) = length blocks \<and>
    (\<forall>x < length blocks. fold (assign_header h m) [0..<n] blocks ! x =
       (if x < n \<and> m ! x \<and> (bk_loop_header (blocks ! x) < 0 \<or>
            bk_loop_depth (blocks ! nat (bk_loop_header (blocks ! x))) < bk_loop_depth (blocks ! h))
        then (blocks ! x)\<lparr>bk_loop_header := int h\<rparr> else blocks ! x))"
  using assms(1)
proof (induction n)
  case (Suc n)
  let ?F = "fold (assign_header h m) [0..<n] blocks"
  have IH: "length ?F = length blocks" "\<And>x. x < length blocks \<Longrightarrow> ?F ! x =
       (if x < n \<and> m ! x \<and> (bk_loop_header (blocks ! x) < 0 \<or>
            bk_loop_depth (blocks ! nat (bk_loop_header (blocks ! x))) < bk_loop_depth (blocks ! h))
        then (blocks ! x)\<lparr>bk_loop_header := int h\<rparr> else blocks ! x)"
    using Suc by auto
  have dep: "bk_loop_depth (?F ! x) = bk_loop_depth (blocks ! x)" if "x < length blocks" for x using IH(2) [OF that] by simp
  have n: "?F ! n = blocks ! n" using IH(2) [of n] Suc.prems by simp
  have cur: "nat (bk_loop_header (blocks ! n)) < length blocks" if "\<not> bk_loop_header (blocks ! n) < 0"
    using hd [of n] Suc.prems that by simp
  have "assign_header h m n ?F = (if m ! n \<and> (bk_loop_header (blocks ! n) < 0 \<or>
            bk_loop_depth (blocks ! nat (bk_loop_header (blocks ! n))) < bk_loop_depth (blocks ! h))
        then ?F[n := (blocks ! n)\<lparr>bk_loop_header := int h\<rparr>] else ?F)"
    using dep [OF assms(3)] dep [OF cur] by (auto simp: assign_header_def Let_def n)
  then show ?case using IH Suc.prems by (auto simp: nth_list_update less_Suc_eq)
qed simp

text \<open>Visiting the edges in order, with a property of the edges visited so far.\<close>

lemma visit_edges_all:
  assumes "\<And>E c h. P E c \<Longrightarrow> h \<in> set hs \<Longrightarrow> \<exists>c'. visit_edge a b h c = Some c' \<and> P (E @ [(b, h)]) c'" "P E cfg"
  shows "\<exists>cfg'. visit_edges a b hs cfg = Some cfg' \<and> P (E @ map (Pair b) hs) cfg'"
  using assms
proof (induction hs arbitrary: E cfg)
  case (Cons h hs)
  obtain c1 where c1: "visit_edge a b h cfg = Some c1" "P (E @ [(b, h)]) c1" using Cons.prems by (metis list.set_intros(1))
  have "\<exists>cfg'. visit_edges a b hs c1 = Some cfg' \<and> P ((E @ [(b, h)]) @ map (Pair b) hs) cfg'"
    by (rule Cons.IH [OF _ c1(2)]) (use Cons.prems(1) in auto)
  then show ?case using c1 by simp
qed simp

definition loop_edges :: "MirCfg \<Rightarrow> nat list \<Rightarrow> (nat \<times> nat) list" where
  "loop_edges cfg bs = concat (map (\<lambda>b. map (Pair b) (succs_of cfg b)) bs)"

lemma visit_blocks_all:
  assumes "\<And>E c b h. P E c \<Longrightarrow> b \<in> set bs \<Longrightarrow> h \<in> set (succs_of cfg0 b) \<Longrightarrow> \<exists>c'. visit_edge a b h c = Some c' \<and> P (E @ [(b, h)]) c'"
    and "\<And>E c b. P E c \<Longrightarrow> b \<in> set bs \<Longrightarrow> succs_of c b = succs_of cfg0 b" and "P E cfg"
  shows "\<exists>cfg'. visit_blocks a bs cfg = Some cfg' \<and> P (E @ loop_edges cfg0 bs) cfg'"
  using assms
proof (induction bs arbitrary: E cfg)
  case (Cons b bs)
  have "\<exists>c1. visit_edges a b (succs_of cfg0 b) cfg = Some c1 \<and> P (E @ map (Pair b) (succs_of cfg0 b)) c1"
    by (rule visit_edges_all [where P = P and E = E and cfg = cfg]) (use Cons.prems(1,3) in auto)
  then obtain c1 where c1: "visit_edges a b (succs_of cfg0 b) cfg = Some c1" "P (E @ map (Pair b) (succs_of cfg0 b)) c1" by blast
  have "\<exists>cfg'. visit_blocks a bs c1 = Some cfg' \<and> P ((E @ map (Pair b) (succs_of cfg0 b)) @ loop_edges cfg0 bs) cfg'"
    by (rule Cons.IH) (use Cons.prems c1(2) in auto)
  then show ?case using c1 Cons.prems(2) [OF Cons.prems(3)] by (simp add: loop_edges_def)
qed (simp add: loop_edges_def)

definition deep :: "MirCfg \<Rightarrow> (nat \<times> nat) list \<Rightarrow> nat \<Rightarrow> nat" where
  "deep cfg E x = length (filter (loop_over cfg x) E)"

definition depth_state :: "MirCfg \<Rightarrow> (nat \<times> nat) list \<Rightarrow> MirCfg \<Rightarrow> bool" where
  "depth_state cfg0 E cfg \<longleftrightarrow>
     kernel cfg = kernel cfg0 \<and> (\<forall>x < length (cf_blocks cfg0). loop_mark (cf_blocks cfg ! x) = (deep cfg0 E x, -1))"

lemma map_nth_same:
  "length xs = length ys \<Longrightarrow> (\<And>x. x < length ys \<Longrightarrow> f (xs ! x) = f (ys ! x)) \<Longrightarrow> map f xs = map f ys"
  by (auto intro: nth_equalityI)

lemma kernel_blocks:
  assumes "length bs = length (cf_blocks cfg)"
    "\<And>x. x < length (cf_blocks cfg) \<Longrightarrow> frame (bs ! x) = frame (cf_blocks cfg ! x) \<and>
       bk_rpo (bs ! x) = bk_rpo (cf_blocks cfg ! x) \<and> bk_idom (bs ! x) = bk_idom (cf_blocks cfg ! x)"
  shows "kernel (cfg\<lparr>cf_blocks := bs\<rparr>) = kernel cfg"
  using assms map_nth_same [of bs "cf_blocks cfg" frame] map_nth_same [of bs "cf_blocks cfg" bk_rpo]
    map_nth_same [of bs "cf_blocks cfg" bk_idom]
  by (simp add: kernel_def skeleton_def)

lemma visit_edge_members:
  assumes d: "dominated fn cfg0" and k: "kernel cfg = kernel cfg0"
    and b: "b < length (cf_blocks cfg0)" "h \<in> set (succs_of cfg0 b)"
  shows "h < length (cf_blocks cfg0)" "length (cf_blocks cfg) = length (cf_blocks cfg0)"
    and "\<exists>m. visit_edge a b h cfg =
      Some (if back_edge cfg0 b h then
              if a then mir_cfg_assign_headers cfg h m
              else cfg\<lparr>cf_blocks := fold (deepen m) [0..<length (cf_blocks cfg)] (cf_blocks cfg)\<rparr>
            else cfg) \<and>
      length m = length (cf_blocks cfg0) \<and> (\<forall>x < length (cf_blocks cfg0). m ! x \<longleftrightarrow> in_loop cfg0 h b x)"
proof -
  have d': "dominated fn cfg" by (rule kernel_dominated [OF k d])
  then have g: "graph_of fn cfg" by (simp add: dominated_def)
  show l: "length (cf_blocks cfg) = length (cf_blocks cfg0)" by (rule skeletonD(1) [OF kernelD(1) [OF k]])
  have g0: "graph_of fn cfg0" using d by (simp add: dominated_def)
  show h: "h < length (cf_blocks cfg0)" by (rule graph_succs [OF g0 b])
  obtain m where m: "mir_cfg_loop_members cfg h b = Some m" "length m = length (cf_blocks cfg)"
    "\<And>x. x < length (cf_blocks cfg) \<Longrightarrow> m ! x \<longleftrightarrow> in_loop cfg h b x"
    using loop_members_exact [OF g, of h b] h b l by auto
  have "back_edge cfg b h = back_edge cfg0 b h"
    using kernelD(2) [OF k] reach_avoiding_steps [OF skeleton_steps [OF kernelD(1) [OF k]]] by (simp add: back_edge_def)
  then have "mir_cfg_is_back_edge cfg b h = Some (back_edge cfg0 b h)" using is_back_edge_exact [OF d', of b h] b l by simp
  then show "\<exists>m. visit_edge a b h cfg =
      Some (if back_edge cfg0 b h then
              if a then mir_cfg_assign_headers cfg h m
              else cfg\<lparr>cf_blocks := fold (deepen m) [0..<length (cf_blocks cfg)] (cf_blocks cfg)\<rparr>
            else cfg) \<and>
      length m = length (cf_blocks cfg0) \<and> (\<forall>x < length (cf_blocks cfg0). m ! x \<longleftrightarrow> in_loop cfg0 h b x)"
    using m l in_loop_steps [OF skeleton_steps [OF kernelD(1) [OF k]]]
    by (intro exI [of _ m]) (auto simp: visit_edge_def)
qed

lemma visit_depths:
  assumes d: "dominated fn cfg" and z: "\<forall>x < length (cf_blocks cfg). loop_mark (cf_blocks cfg ! x) = (0, -1)"
  shows "\<exists>cfg'. mir_cfg_visit_loops False cfg = Some cfg' \<and> depth_state cfg (loop_edges cfg [0..<length (cf_blocks cfg)]) cfg'"
proof -
  have A: "\<exists>c'. visit_edge False b h c = Some c' \<and> depth_state cfg (E @ [(b, h)]) c'"
    if s: "depth_state cfg E c" and b: "b \<in> set [0..<length (cf_blocks cfg)]" and h: "h \<in> set (succs_of cfg b)" for E c b h
  proof -
    have k: "kernel c = kernel cfg" using s by (simp add: depth_state_def)
    have b': "b < length (cf_blocks cfg)" using b by simp
    note V = visit_edge_members [OF d k b' h]
    obtain m where m: "visit_edge False b h c = Some (if back_edge cfg b h then
          c\<lparr>cf_blocks := fold (deepen m) [0..<length (cf_blocks c)] (cf_blocks c)\<rparr> else c)"
      "length m = length (cf_blocks cfg)" "\<And>x. x < length (cf_blocks cfg) \<Longrightarrow> m ! x \<longleftrightarrow> in_loop cfg h b x"
      using V(3) [of False] unfolding if_False by blast
    have F: "length (fold (deepen m) [0..<length (cf_blocks c)] (cf_blocks c)) = length (cf_blocks c)"
      "\<And>x. x < length (cf_blocks c) \<Longrightarrow> fold (deepen m) [0..<length (cf_blocks c)] (cf_blocks c) ! x =
         (if m ! x then (cf_blocks c ! x)\<lparr>bk_loop_depth := bk_loop_depth (cf_blocks c ! x) + 1\<rparr> else cf_blocks c ! x)"
      using deepen_fold [of "length (cf_blocks c)" "cf_blocks c" m] m(2) V(2) by auto
    let ?c = "if back_edge cfg b h then
        c\<lparr>cf_blocks := fold (deepen m) [0..<length (cf_blocks c)] (cf_blocks c)\<rparr> else c"
    have "kernel (c\<lparr>cf_blocks := fold (deepen m) [0..<length (cf_blocks c)] (cf_blocks c)\<rparr>) = kernel c"
      by (rule kernel_blocks) (use F in \<open>auto simp: frame_def\<close>)
    then have "kernel ?c = kernel cfg" using k by simp
    moreover have "loop_mark (cf_blocks ?c ! x) = (deep cfg (E @ [(b, h)]) x, -1)" if x: "x < length (cf_blocks cfg)" for x
    proof -
      have "loop_mark (cf_blocks c ! x) = (deep cfg E x, -1)" using s x by (simp add: depth_state_def)
      then show ?thesis using F(2) [of x] V(2) x m(3) [OF x] by (simp add: deep_def loop_over_def loop_mark_def)
    qed
    ultimately show ?thesis using m(1) unfolding depth_state_def by blast
  qed
  have B: "succs_of c b = succs_of cfg b" if "depth_state cfg E c" "b \<in> set [0..<length (cf_blocks cfg)]" for E c b
    by (rule skeleton_edges(1) [OF kernelD(1)]) (use that in \<open>auto simp: depth_state_def\<close>)
  have C: "depth_state cfg [] cfg" using z by (simp add: depth_state_def deep_def)
  show ?thesis unfolding mir_cfg_visit_loops_def
    using visit_blocks_all [where P = "depth_state cfg" and bs = "[0..<length (cf_blocks cfg)]", OF A B C] by simp
qed


text \<open>The header of a block: of the loops visited that hold the block, one whose header is deepest.\<close>

definition header_ok :: "MirCfg \<Rightarrow> (nat \<times> nat) list \<Rightarrow> (nat \<Rightarrow> nat) \<Rightarrow> nat \<Rightarrow> int \<Rightarrow> bool" where
  "header_ok cfg E depth x hdr \<longleftrightarrow>
     (if \<exists>e \<in> set E. loop_over cfg x e
      then \<exists>e \<in> set E. loop_over cfg x e \<and> hdr = int (snd e) \<and>
             (\<forall>e' \<in> set E. loop_over cfg x e' \<longrightarrow> depth (snd e') \<le> depth (snd e))
      else hdr = -1)"

definition header_state :: "MirCfg \<Rightarrow> (nat \<Rightarrow> nat) \<Rightarrow> (nat \<times> nat) list \<Rightarrow> MirCfg \<Rightarrow> bool" where
  "header_state cfg0 depth E cfg \<longleftrightarrow>
     kernel cfg = kernel cfg0 \<and> (\<forall>e \<in> set E. snd e < length (cf_blocks cfg0)) \<and>
     (\<forall>x < length (cf_blocks cfg0). bk_loop_depth (cf_blocks cfg ! x) = depth x \<and>
        header_ok cfg0 E depth x (bk_loop_header (cf_blocks cfg ! x)))"

lemma header_okI:
  assumes "e \<in> set E" "loop_over cfg x e" "\<And>e'. e' \<in> set E \<Longrightarrow> loop_over cfg x e' \<Longrightarrow> depth (snd e') \<le> depth (snd e)"
  shows "header_ok cfg E depth x (int (snd e))"
  unfolding header_ok_def using assms by (subst if_P) blast+

lemma header_ok_more:
  assumes "header_ok cfg E depth x hdr"
  shows "header_ok cfg (E @ [e]) depth x
    (if loop_over cfg x e \<and> (hdr < 0 \<or> depth (nat hdr) < depth (snd e)) then int (snd e) else hdr)"
proof (cases "loop_over cfg x e")
  case True
  show ?thesis
  proof (cases "\<exists>e \<in> set E. loop_over cfg x e")
    case old: True
    then obtain e0 where e0: "e0 \<in> set E" "loop_over cfg x e0" "hdr = int (snd e0)"
      "\<And>e'. e' \<in> set E \<Longrightarrow> loop_over cfg x e' \<Longrightarrow> depth (snd e') \<le> depth (snd e0)"
      using assms by (auto simp: header_ok_def)
    show ?thesis
    proof (cases "depth (snd e0) < depth (snd e)")
      case True
      have "depth (snd e') \<le> depth (snd e)" if "e' \<in> set (E @ [e])" "loop_over cfg x e'" for e'
        using e0(4) [of e'] True that by (cases "e' = e") auto
      moreover have "e \<in> set (E @ [e])" by simp
      ultimately have "header_ok cfg (E @ [e]) depth x (int (snd e))"
        using \<open>loop_over cfg x e\<close> header_okI by blast
      then show ?thesis using True \<open>loop_over cfg x e\<close> e0(3) by simp
    next
      case False
      then have "depth (snd e') \<le> depth (snd e0)" if "e' \<in> set (E @ [e])" "loop_over cfg x e'" for e'
        using e0(4) [of e'] that by (cases "e' = e") auto
      moreover have "e0 \<in> set (E @ [e])" using e0(1) by simp
      ultimately have "header_ok cfg (E @ [e]) depth x hdr"
        using e0(2) header_okI unfolding e0(3) by blast
      then show ?thesis using False e0(3) by simp
    qed
  next
    case False
    then have "hdr = -1" using assms by (simp add: header_ok_def)
    then show ?thesis using True False by (auto simp: header_ok_def)
  qed
next
  case False
  then show ?thesis using assms by (auto simp: header_ok_def)
qed

lemma header_ok_bound:
  "header_ok cfg E depth x hdr \<Longrightarrow> \<forall>e \<in> set E. snd e < n \<Longrightarrow> hdr < int n"
  by (auto simp: header_ok_def split: if_splits)

lemma visit_headers:
  assumes d: "dominated fn cfg" and z: "\<forall>x < length (cf_blocks cfg). loop_mark (cf_blocks cfg ! x) = (depth x, -1)"
  shows "\<exists>cfg'. mir_cfg_visit_loops True cfg = Some cfg' \<and> header_state cfg depth (loop_edges cfg [0..<length (cf_blocks cfg)]) cfg'"
proof -
  have A: "\<exists>c'. visit_edge True b h c = Some c' \<and> header_state cfg depth (E @ [(b, h)]) c'"
    if s: "header_state cfg depth E c" and b: "b \<in> set [0..<length (cf_blocks cfg)]" and h: "h \<in> set (succs_of cfg b)" for E c b h
  proof -
    have k: "kernel c = kernel cfg" using s by (simp add: header_state_def)
    have b': "b < length (cf_blocks cfg)" using b by simp
    note V = visit_edge_members [OF d k b' h]
    obtain m where m: "visit_edge True b h c = Some (if back_edge cfg b h then mir_cfg_assign_headers c h m else c)"
      "length m = length (cf_blocks cfg)" "\<And>x. x < length (cf_blocks cfg) \<Longrightarrow> m ! x \<longleftrightarrow> in_loop cfg h b x"
      using V(3) [of True] unfolding if_True by blast
    have old: "bk_loop_depth (cf_blocks c ! x) = depth x" "header_ok cfg E depth x (bk_loop_header (cf_blocks c ! x))"
      "bk_loop_header (cf_blocks c ! x) < int (length (cf_blocks cfg))" if "x < length (cf_blocks cfg)" for x
      using s that header_ok_bound by (auto simp: header_state_def)
    define bs where "bs = fold (assign_header h m) [0..<length (cf_blocks c)] (cf_blocks c)"
    have F: "length bs = length (cf_blocks c)"
      "\<And>x. x < length (cf_blocks c) \<Longrightarrow> bs ! x =
         (if m ! x \<and> (bk_loop_header (cf_blocks c ! x) < 0 \<or>
              bk_loop_depth (cf_blocks c ! nat (bk_loop_header (cf_blocks c ! x))) < bk_loop_depth (cf_blocks c ! h))
          then (cf_blocks c ! x)\<lparr>bk_loop_header := int h\<rparr> else cf_blocks c ! x)"
      using assign_header_fold [of "length (cf_blocks c)" "cf_blocks c" m h] m(2) V(1,2) old(3) unfolding bs_def by auto
    have kb: "kernel (c\<lparr>cf_blocks := bs\<rparr>) = kernel c"
      by (rule kernel_blocks) (use F in \<open>auto simp: frame_def\<close>)
    let ?c = "if back_edge cfg b h then c\<lparr>cf_blocks := bs\<rparr> else c"
    have new: "bk_loop_header (cf_blocks ?c ! x) =
        (let hdr = bk_loop_header (cf_blocks c ! x)
         in if loop_over cfg x (b, h) \<and> (hdr < 0 \<or> depth (nat hdr) < depth h) then int h else hdr)"
      "bk_loop_depth (cf_blocks ?c ! x) = depth x" if x: "x < length (cf_blocks cfg)" for x
    proof -
      have cur: "bk_loop_depth (cf_blocks c ! nat (bk_loop_header (cf_blocks c ! x))) = depth (nat (bk_loop_header (cf_blocks c ! x)))"
        if "\<not> bk_loop_header (cf_blocks c ! x) < 0"
        by (rule old(1)) (use old(3) [OF x] that in simp)
      then show "bk_loop_header (cf_blocks ?c ! x) =
          (let hdr = bk_loop_header (cf_blocks c ! x)
           in if loop_over cfg x (b, h) \<and> (hdr < 0 \<or> depth (nat hdr) < depth h) then int h else hdr)"
        using F(2) [of x] m(3) [OF x] x V(1,2) old(1) [of h] by (auto simp: loop_over_def Let_def)
      show "bk_loop_depth (cf_blocks ?c ! x) = depth x" using F(2) [of x] x V(2) old(1) [OF x] by auto
    qed
    have "header_ok cfg (E @ [(b, h)]) depth x (bk_loop_header (cf_blocks ?c ! x))" if x: "x < length (cf_blocks cfg)" for x
      using header_ok_more [OF old(2) [OF x], of "(b, h)"] unfolding new(1) [OF x] Let_def snd_conv .
    moreover have "\<forall>e \<in> set (E @ [(b, h)]). snd e < length (cf_blocks cfg)" using s V(1) by (simp add: header_state_def)
    moreover have "kernel ?c = kernel cfg" using k kb by simp
    ultimately have "header_state cfg depth (E @ [(b, h)]) ?c" using new(2) unfolding header_state_def by blast
    then show ?thesis using m(1) by (auto simp: mir_cfg_assign_headers_def bs_def)
  qed
  have B: "succs_of c b = succs_of cfg b" if "header_state cfg depth E c" "b \<in> set [0..<length (cf_blocks cfg)]" for E c b
    by (rule skeleton_edges(1) [OF kernelD(1)]) (use that in \<open>auto simp: header_state_def\<close>)
  have C: "header_state cfg depth [] cfg" using z by (simp add: header_state_def header_ok_def loop_mark_def)
  show ?thesis unfolding mir_cfg_visit_loops_def
    using visit_blocks_all [where P = "header_state cfg depth" and bs = "[0..<length (cf_blocks cfg)]", OF A B C] by simp
qed

text \<open>The depths and headers of the blocks, and the depths of the instructions.\<close>

definition loops_of :: "MirCfg \<Rightarrow> bool" where
  "loops_of cfg \<longleftrightarrow>
     (let E = loop_edges cfg [0..<length (cf_blocks cfg)]
      in (\<forall>x < length (cf_blocks cfg). bk_loop_depth (cf_blocks cfg ! x) = deep cfg E x \<and>
            header_ok cfg E (deep cfg E) x (bk_loop_header (cf_blocks cfg ! x))) \<and>
         cf_insn_depth cfg = map (\<lambda>b. min 255 (deep cfg E b)) (cf_block_of cfg))"

lemma kernel_loop_edges: "kernel cfg' = kernel cfg \<Longrightarrow> loop_edges cfg' [0..<length (cf_blocks cfg)] = loop_edges cfg [0..<length (cf_blocks cfg)]"
proof -
  assume k: "kernel cfg' = kernel cfg"
  have "map (Pair b) (succs_of cfg' b) = map (Pair b) (succs_of cfg b)" if "b \<in> set [0..<length (cf_blocks cfg)]" for b
    using skeleton_edges(1) [OF kernelD(1) [OF k], of b] that by simp
  then show ?thesis unfolding loop_edges_def by (metis (no_types, lifting) map_cong)
qed

lemma kernel_deep: "kernel cfg' = kernel cfg \<Longrightarrow> deep cfg' E = deep cfg E"
proof (rule ext)
  fix x assume "kernel cfg' = kernel cfg"
  then have "loop_over cfg' x = loop_over cfg x" using kernel_loop_over by blast
  then show "deep cfg' E x = deep cfg E x" by (simp add: deep_def)
qed

lemma kernel_header_ok: "kernel cfg' = kernel cfg \<Longrightarrow> header_ok cfg' E = header_ok cfg E"
proof (intro ext)
  fix depth x hdr assume "kernel cfg' = kernel cfg"
  then have "loop_over cfg' x = loop_over cfg x" using kernel_loop_over by blast
  then show "header_ok cfg' E depth x hdr = header_ok cfg E depth x hdr" by (simp add: header_ok_def)
qed

lemma build_loops_exact:
  assumes d: "dominated fn cfg" and z: "\<forall>x < length (cf_blocks cfg). loop_mark (cf_blocks cfg ! x) = (0, -1)"
    and ok: "ok LoopArrays" "ok InsnDepth"
  shows "\<exists>cfg'. mir_cfg_build_loops ok cfg = Inr cfg' \<and> kernel cfg' = kernel cfg \<and> loops_of cfg'"
proof -
  let ?E = "loop_edges cfg [0..<length (cf_blocks cfg)]"
  obtain c1 where c1: "mir_cfg_visit_loops False cfg = Some c1" "depth_state cfg ?E c1" using visit_depths [OF d z] by blast
  have k1: "kernel c1 = kernel cfg" and m1: "\<forall>x < length (cf_blocks cfg). loop_mark (cf_blocks c1 ! x) = (deep cfg ?E x, -1)"
    using c1(2) by (auto simp: depth_state_def)
  have l1: "length (cf_blocks c1) = length (cf_blocks cfg)" by (rule skeletonD(1) [OF kernelD(1) [OF k1]])
  obtain c2 where c2: "mir_cfg_visit_loops True c1 = Some c2" "header_state c1 (deep cfg ?E) (loop_edges c1 [0..<length (cf_blocks c1)]) c2"
    using visit_headers [OF kernel_dominated [OF k1 d], of "deep cfg ?E"] m1 l1 by auto
  have k2: "kernel c2 = kernel cfg" using c2(2) k1 by (simp add: header_state_def)
  have l2: "length (cf_blocks c2) = length (cf_blocks cfg)" by (rule skeletonD(1) [OF kernelD(1) [OF k2]])
  let ?ds = "map (\<lambda>b. let d = bk_loop_depth (cf_blocks c2 ! b) in if 255 < d then 255 else d) (cf_block_of c2)"
  let ?c = "c2\<lparr>cf_insn_depth := ?ds\<rparr>"
  have k: "kernel ?c = kernel cfg" using k2 by (simp add: kernel_def skeleton_def)
  have E: "loop_edges ?c [0..<length (cf_blocks ?c)] = ?E" "loop_edges c1 [0..<length (cf_blocks c1)] = ?E"
    using kernel_loop_edges [OF k] kernel_loop_edges [OF k1] l1 l2 by simp_all
  have x: "bk_loop_depth (cf_blocks c2 ! x) = deep cfg ?E x \<and> header_ok cfg ?E (deep cfg ?E) x (bk_loop_header (cf_blocks c2 ! x))"
    if "x < length (cf_blocks cfg)" for x
    using c2(2) that E(2) kernel_header_ok [OF k1] l1 by (simp add: header_state_def)
  have bo: "b < length (cf_blocks cfg)" if "b \<in> set (cf_block_of c2)" for b
  proof -
    have "cf_block_of c2 = cf_block_of cfg" by (rule skeletonD(2) [OF kernelD(1) [OF k2]])
    moreover have "blocks_wf fn (cf_block_of cfg) (cf_blocks cfg)" using d by (simp add: dominated_def graph_of_def)
    ultimately show ?thesis using that blocks_wfD(1,2) [of fn "cf_block_of cfg" "cf_blocks cfg"] by (auto simp: in_set_conv_nth)
  qed
  have "?ds = map (\<lambda>b. min 255 (deep cfg ?E b)) (cf_block_of c2)" using bo x by (auto simp: Let_def min_def)
  then have "loops_of ?c" using x E(1) kernel_deep [OF k] kernel_header_ok [OF k] l2 by (simp add: loops_of_def)
  then show ?thesis using c1 c2 ok k by (intro exI [of _ ?c]) (simp add: mir_cfg_build_loops_def allocate_mem_def ends_def)
qed


end
