(* ===== verification/MirCfgDefd.thy ===== *)
theory MirCfgDefd
  imports MirCfgOrder
begin

text \<open>
  The definedness \<open>mir_cfg_build\<close> computes: a register is in the row of a block when some path from the
  entry, or from a block control never reaches, writes it before. The sweeps end with exactly
  those rows, and the cursor derives from them what is defined before every instruction, with the
  counts of the writes it has not passed.
\<close>

section \<open>Definedness of the program\<close>

inductive defined_before :: "MirFunction \<Rightarrow> nat \<Rightarrow> nat \<Rightarrow> bool" for fn where
  defd_entry: "fn_insns fn \<noteq> [] \<Longrightarrow> int v \<in> set (entry_vregs fn) \<Longrightarrow> v < length (fn_vregs fn) \<Longrightarrow> defined_before fn 0 v"
| defd_write: "next_insn fn i j \<Longrightarrow> writes fn i = Some v \<Longrightarrow> defined_before fn j v"
| defd_pass: "next_insn fn i j \<Longrightarrow> defined_before fn i v \<Longrightarrow> defined_before fn j v"

definition defined_after :: "MirFunction \<Rightarrow> nat \<Rightarrow> nat \<Rightarrow> bool" where
  "defined_after fn i v \<longleftrightarrow> writes fn i = Some v \<or> defined_before fn i v"

lemma defined_next: "next_insn fn i j \<Longrightarrow> defined_after fn i v \<Longrightarrow> defined_before fn j v"
  by (auto simp: defined_after_def intro: defd_write defd_pass)

lemma defined_inside:
  assumes w: "blocks_wf fn bo blocks" and b: "b < length blocks"
  shows "bk_start (blocks ! b) \<le> i \<Longrightarrow> i < bk_end (blocks ! b) \<Longrightarrow>
    defined_before fn (bk_start (blocks ! b)) v \<or> v \<in> killed fn (bk_start (blocks ! b)) i \<Longrightarrow> defined_before fn i v"
proof (induction i rule: dec_induct)
  case base
  then show ?case by (simp add: no_insn)
next
  case (step i)
  have "next_insn fn i (Suc i)" using inside_next [OF w b step.hyps(1), of "Suc i"] step.prems by simp
  then show ?case using step by (auto simp: killed_Suc intro: defd_write defd_pass)
qed

lemma defined_out:
  assumes w: "blocks_wf fn bo blocks" and b: "b < length blocks"
    and v: "defined_before fn (bk_start (blocks ! b)) v \<or> v \<in> killed fn (bk_start (blocks ! b)) (bk_end (blocks ! b))"
  shows "defined_after fn (bk_end (blocks ! b) - 1) v"
proof -
  have e: "bk_start (blocks ! b) \<le> bk_end (blocks ! b) - 1" "bk_end (blocks ! b) = Suc (bk_end (blocks ! b) - 1)"
    using blocks_wfD(6) [OF w b] by auto
  have "v \<in> killed fn (bk_start (blocks ! b)) (bk_end (blocks ! b)) \<longleftrightarrow>
      v \<in> killed fn (bk_start (blocks ! b)) (bk_end (blocks ! b) - 1) \<or> writes fn (bk_end (blocks ! b) - 1) = Some v"
    using killed_Suc [OF e(1), of fn] by (subst e(2)) simp
  then show ?thesis using v defined_inside [OF w b e(1), of v] e by (auto simp: defined_after_def)
qed

lemma first_block:
  assumes w: "blocks_wf fn bo blocks" and n: "fn_insns fn \<noteq> []"
  shows "bo ! 0 = 0" "bk_start (blocks ! 0) = 0"
proof -
  note W = blocks_wfD [OF w]
  have i: "0 < length (fn_insns fn)" using n by simp
  have b: "bo ! 0 < length blocks" "bk_start (blocks ! (bo ! 0)) = 0" using W(2,3) [OF i] by auto
  show "bo ! 0 = 0"
  proof (rule ccontr)
    assume "bo ! 0 \<noteq> 0"
    then obtain c where c: "bo ! 0 = c + 1" by (metis Suc_eq_plus1 not0_implies_Suc)
    then have "bk_start (blocks ! (c + 1)) = bk_end (blocks ! c)" "bk_start (blocks ! c) < bk_end (blocks ! c)"
      using W(9) [of c] W(6) [of c] b by auto
    then show False using b(2) c by simp
  qed
  then show "bk_start (blocks ! 0) = 0" using b by simp
qed

section \<open>The sweeps\<close>

definition entry_set :: "MirFunction \<Rightarrow> nat set" where
  "entry_set fn = {v. int v \<in> set (entry_vregs fn) \<and> v < length (fn_vregs fn)}"

definition defd_inv :: "MirFunction \<Rightarrow> MirCfg \<Rightarrow> bits list \<times> bits list \<Rightarrow> bool" where
  "defd_inv fn cfg s \<longleftrightarrow>
     sets_of fn cfg \<and> fn_insns fn \<noteq> [] \<and> set (cf_order cfg) = {..<length (cf_blocks cfg)} \<and> distinct (cf_order cfg) \<and>
     length (fst s) = length (cf_blocks cfg) \<and> length (snd s) = length (cf_blocks cfg) \<and>
     entry_set fn \<subseteq> members (fst s ! 0) \<and>
     (\<forall>b < length (cf_blocks cfg).
        length (fst s ! b) = cf_words cfg \<and> length (snd s ! b) = cf_words cfg \<and>
        members (snd s ! b) \<subseteq> members (fst s ! b) \<union> members (cf_def cfg ! b) \<and>
        members (fst s ! b) \<subseteq> {v. defined_before fn (bk_start (cf_blocks cfg ! b)) v} \<and>
        members (snd s ! b) \<subseteq> {v. defined_after fn (bk_end (cf_blocks cfg ! b) - 1) v})"

definition defd_settled :: "MirCfg \<Rightarrow> nat \<Rightarrow> bits list \<times> bits list \<Rightarrow> bool" where
  "defd_settled cfg b s \<longleftrightarrow>
     members (snd s ! b) = members (fst s ! b) \<union> members (cf_def cfg ! b) \<and>
     (\<forall>p \<in> set (preds_of cfg b). members (snd s ! p) \<subseteq> members (fst s ! b))"

lemma graph_preds:
  assumes g: "graph_of fn cfg" and b: "b < length (cf_blocks cfg)" and p: "p \<in> set (preds_of cfg b)"
  shows "p < length (cf_blocks cfg)" "next_insn fn (bk_end (cf_blocks cfg ! p) - 1) (bk_start (cf_blocks cfg ! b))"
proof -
  show l: "p < length (cf_blocks cfg)" using g b p by (simp add: graph_of_def)
  have w: "blocks_wf fn (cf_block_of cfg) (cf_blocks cfg)" using g by (simp add: graph_of_def)
  have "b \<in> follows fn (cf_block_of cfg) (cf_blocks cfg ! p)" using g b p by (simp add: graph_of_def)
  then obtain j where "b = cf_block_of cfg ! j" "next_insn fn (bk_end (cf_blocks cfg ! p) - 1) j" by (auto simp: follows_def)
  then show "next_insn fn (bk_end (cf_blocks cfg ! p) - 1) (bk_start (cf_blocks cfg ! b))"
    using next_starts [OF w l] by metis
qed

lemma defd_block_step:
  assumes i: "defd_inv fn cfg (ins, outs)" and b: "b < length (cf_blocks cfg)"
    and r: "defd_block cfg b (ins, outs, ch) = (ins', outs', ch')"
  shows "defd_inv fn cfg (ins', outs')" and "row_weight outs \<le> row_weight outs'"
    and "ch' \<Longrightarrow> ch \<or> row_weight outs < row_weight outs'"
    and "\<not> ch' \<Longrightarrow> \<not> ch \<and> outs' = outs \<and> defd_settled cfg b (ins', outs') \<and>
      (\<forall>k < length (cf_blocks cfg). defd_settled cfg k (ins, outs) \<longrightarrow> defd_settled cfg k (ins', outs'))"
proof -
  let ?B = "length (cf_blocks cfg)" and ?w = "cf_words cfg"
  define inn where "inn = fold (\<lambda>p inn. or_words inn (outs ! p)) (preds_of cfg b) (ins ! b)"
  define nx where "nx = or_words inn (cf_def cfg ! b)"
  have e: "ins' = ins[b := inn]" "outs' = outs[b := nx]" "ch' \<longleftrightarrow> ch \<or> nx \<noteq> outs ! b"
    using r by (auto simp: defd_block_def Let_def inn_def nx_def)
  have s: "sets_of fn cfg" and g: "graph_of fn cfg" and l: "length ins = ?B" "length outs = ?B"
    and w: "blocks_wf fn (cf_block_of cfg) (cf_blocks cfg)"
    using i by (auto simp: defd_inv_def sets_of_def graph_of_def)
  have row: "length (ins ! k) = ?w" "length (outs ! k) = ?w"
    "members (outs ! k) \<subseteq> members (ins ! k) \<union> members (cf_def cfg ! k)"
    "members (ins ! k) \<subseteq> {v. defined_before fn (bk_start (cf_blocks cfg ! k)) v}"
    "members (outs ! k) \<subseteq> {v. defined_after fn (bk_end (cf_blocks cfg ! k) - 1) v}" if "k < ?B" for k
    using i that by (auto simp: defd_inv_def)
  have I: "members inn = members (ins ! b) \<union> (\<Union>p \<in> set (preds_of cfg b). members (outs ! p))" "length inn = ?w"
    unfolding inn_def by (rule members_or_rows; use row graph_preds(1) [OF g b] b in auto)+
  have dl: "length (cf_def cfg ! b) = ?w" and dm: "members (cf_def cfg ! b) = killed fn (bk_start (cf_blocks cfg ! b)) (bk_end (cf_blocks cfg ! b))"
    using s b by (auto simp: sets_of_def)
  have N: "members nx = members inn \<union> members (cf_def cfg ! b)" "length nx = ?w"
    unfolding nx_def using I(2) dl by auto
  have grow: "members (outs ! b) \<subseteq> members nx" unfolding N using row(3) [OF b] I(1) by auto
  have before: "members inn \<subseteq> {v. defined_before fn (bk_start (cf_blocks cfg ! b)) v}"
  proof -
    have "members (outs ! p) \<subseteq> {v. defined_before fn (bk_start (cf_blocks cfg ! b)) v}" if p: "p \<in> set (preds_of cfg b)" for p
      using row(5) [OF graph_preds(1) [OF g b p]] defined_next [OF graph_preds(2) [OF g b p]] by blast
    then show ?thesis unfolding I using row(4) [OF b] by blast
  qed
  then have after: "members nx \<subseteq> {v. defined_after fn (bk_end (cf_blocks cfg ! b) - 1) v}"
    unfolding N dm using defined_out [OF w b] by blast
  have ent: "entry_set fn \<subseteq> members (ins[b := inn] ! 0)"
    using i I(1) b l by (cases "b = 0") (auto simp: defd_inv_def)
  have fix_parts: "sets_of fn cfg" "fn_insns fn \<noteq> []" "set (cf_order cfg) = {..<?B}" "distinct (cf_order cfg)"
    using i by (auto simp: defd_inv_def)
  have rows: "length (ins[b := inn] ! k) = ?w \<and> length (outs[b := nx] ! k) = ?w \<and>
      members (outs[b := nx] ! k) \<subseteq> members (ins[b := inn] ! k) \<union> members (cf_def cfg ! k) \<and>
      members (ins[b := inn] ! k) \<subseteq> {v. defined_before fn (bk_start (cf_blocks cfg ! k)) v} \<and>
      members (outs[b := nx] ! k) \<subseteq> {v. defined_after fn (bk_end (cf_blocks cfg ! k) - 1) v}" if k: "k < ?B" for k
  proof (cases "k = b")
    case True
    then show ?thesis using N I(2) before after b l by simp
  next
    case False
    then show ?thesis using row [OF k] by simp
  qed
  show "defd_inv fn cfg (ins', outs')"
    unfolding defd_inv_def e using fix_parts ent l rows by simp
  show "row_weight outs \<le> row_weight outs'"
    unfolding e by (rule row_weight_grows(1)) (use b l N row grow in auto)
  show "ch \<or> row_weight outs < row_weight outs'" if ch'
    using row_weight_grows(2) [of b outs nx] that b l N row grow by (auto simp: e)
  show "\<not> ch \<and> outs' = outs \<and> defd_settled cfg b (ins', outs') \<and>
      (\<forall>k < ?B. defd_settled cfg k (ins, outs) \<longrightarrow> defd_settled cfg k (ins', outs'))" if "\<not> ch'"
  proof -
    have same: "outs' = outs" "nx = outs ! b" "\<not> ch" using that by (auto simp: e)
    then have "defd_settled cfg b (ins', outs')" using N(1) I(1) b l by (auto simp: defd_settled_def e(1))
    moreover have "defd_settled cfg k (ins', outs')" if "defd_settled cfg k (ins, outs)" "k \<noteq> b" for k
      using that same(1) by (simp add: defd_settled_def e(1))
    ultimately show ?thesis using same by blast
  qed
qed

lemma defd_blocks_fold:
  assumes "defd_inv fn cfg (ins, outs)" and "\<forall>b \<in> set bs. b < length (cf_blocks cfg)"
    and "fold (defd_block cfg) bs (ins, outs, ch) = (ins', outs', ch')"
  shows "defd_inv fn cfg (ins', outs') \<and> row_weight outs \<le> row_weight outs' \<and>
    (ch' \<longrightarrow> ch \<or> row_weight outs < row_weight outs') \<and>
    (\<not> ch' \<longrightarrow> \<not> ch \<and> outs' = outs \<and> (\<forall>b \<in> set bs. defd_settled cfg b (ins', outs')) \<and>
      (\<forall>k < length (cf_blocks cfg). defd_settled cfg k (ins, outs) \<longrightarrow> defd_settled cfg k (ins', outs')))"
  using assms
proof (induction bs arbitrary: ins outs ch)
  case (Cons b bs)
  obtain i1 o1 c1 where s1: "defd_block cfg b (ins, outs, ch) = (i1, o1, c1)" by (cases "defd_block cfg b (ins, outs, ch)") auto
  have b: "b < length (cf_blocks cfg)" using Cons.prems(2) by simp
  note S = defd_block_step [OF Cons.prems(1) b s1]
  have "fold (defd_block cfg) bs (i1, o1, c1) = (ins', outs', ch')" using Cons.prems(3) s1 by simp
  note IH = Cons.IH [OF S(1) _ this]
  show ?case using IH S(2,3,4) Cons.prems(2) b by (cases c1; cases ch') auto
qed auto

lemma defd_sweep_step:
  assumes i: "defd_inv fn cfg s" and r: "defd_sweep cfg s = (ins', outs', ch')"
  shows "defd_inv fn cfg (ins', outs')" and "ch' \<Longrightarrow> row_weight (snd s) < row_weight outs'"
    and "\<not> ch' \<Longrightarrow> b < length (cf_blocks cfg) \<Longrightarrow> defd_settled cfg b (ins', outs')"
proof -
  have o: "set (cf_order cfg) = {..<length (cf_blocks cfg)}" "distinct (cf_order cfg)" using i by (auto simp: defd_inv_def)
  then have "length (cf_order cfg) = length (cf_blocks cfg)" using distinct_card [of "cf_order cfg"] by simp
  then have t: "take (length (cf_blocks cfg)) (cf_order cfg) = cf_order cfg" by simp
  have F: "fold (defd_block cfg) (cf_order cfg) (fst s, snd s, False) = (ins', outs', ch')" using r by (simp add: defd_sweep_def t)
  have i': "defd_inv fn cfg (fst s, snd s)" using i by simp
  note D = defd_blocks_fold [OF i' _ F]
  show "defd_inv fn cfg (ins', outs')" "ch' \<Longrightarrow> row_weight (snd s) < row_weight outs'"
    "\<not> ch' \<Longrightarrow> b < length (cf_blocks cfg) \<Longrightarrow> defd_settled cfg b (ins', outs')" using D o(1) by auto
qed

interpretation defd: sweeping "defd_sweep cfg" "defd_loop cfg" "defd_inv fn cfg" "\<lambda>s. row_weight (snd s)"
  "length (cf_blocks cfg) * (64 * cf_words cfg)"
proof (unfold_locales, goal_cases)
  case (1 s x y)
  then show ?case by (subst defd_loop.simps) simp
next
  case (2 s x y)
  then show ?case by (subst defd_loop.simps) simp
next
  case (3 s x y changed)
  then show ?case by (rule defd_sweep_step(1))
next
  case (4 s x y)
  then show ?case using defd_sweep_step(2) by fastforce
next
  case (5 s)
  then have "row_weight (snd s) \<le> length (snd s) * (64 * cf_words cfg)"
    by (intro row_weight_bound) (auto simp: defd_inv_def in_set_conv_nth)
  then show ?case using 5 by (simp add: defd_inv_def)
qed

section \<open>Definedness\<close>

lemma defd_complete:
  assumes s: "sets_of fn cfg" and n: "fn_insns fn \<noteq> []" and ent: "entry_set fn \<subseteq> members (fst t ! 0)"
    and t: "\<And>b. b < length (cf_blocks cfg) \<Longrightarrow> defd_settled cfg b t" and d: "defined_before fn i v"
  shows "v \<in> members (fst t ! (cf_block_of cfg ! i)) \<or>
    v \<in> killed fn (bk_start (cf_blocks cfg ! (cf_block_of cfg ! i))) i"
  using d
proof induction
  have g: "graph_of fn cfg" and w: "blocks_wf fn (cf_block_of cfg) (cf_blocks cfg)"
    using s by (auto simp: sets_of_def graph_of_def)
  note W = blocks_wfD [OF w]
  have step: "v \<in> members (fst t ! (cf_block_of cfg ! j)) \<or> v \<in> killed fn (bk_start (cf_blocks cfg ! (cf_block_of cfg ! j))) j"
    if nx: "next_insn fn i j" and v: "writes fn i = Some v \<or> v \<in> members (fst t ! (cf_block_of cfg ! i)) \<or>
      v \<in> killed fn (bk_start (cf_blocks cfg ! (cf_block_of cfg ! i))) i" for i j v
  proof -
    let ?b = "cf_block_of cfg ! i" and ?c = "cf_block_of cfg ! j"
    have i: "i < length (fn_insns fn)" using nx unfolding next_insn_def by blast
    have j: "j < length (fn_insns fn)" by (rule next_insn_less [OF nx])
    have b: "?b < length (cf_blocks cfg)" "bk_start (cf_blocks cfg ! ?b) \<le> i" "i < bk_end (cf_blocks cfg ! ?b)"
      using W(2,3,4) [OF i] by auto
    have v': "v \<in> members (fst t ! ?b) \<or> v \<in> killed fn (bk_start (cf_blocks cfg ! ?b)) (Suc i)"
      using v b(2) by (auto simp: killed_Suc)
    show ?thesis
    proof (cases "i + 1 < bk_end (cf_blocks cfg ! ?b)")
      case True
      then have "j = Suc i" using inside_next [OF w b(1,2) True] nx by simp
      moreover have "cf_block_of cfg ! Suc i = ?b" by (rule W(8) [OF b(1)]) (use b True in auto)
      ultimately show ?thesis using v' by simp
    next
      case False
      then have e: "bk_end (cf_blocks cfg ! ?b) = Suc i" using b by simp
      then have nx': "next_insn fn (bk_end (cf_blocks cfg ! ?b) - 1) j" using nx by simp
      have c: "?c < length (cf_blocks cfg)" using W(2) [OF j] .
      have "?b \<in> set (preds_of cfg ?c)" using g b(1) c nx' by (auto simp: graph_of_def follows_def)
      moreover have "v \<in> members (snd t ! ?b)" using v' t [OF b(1)] s b(1) e by (auto simp: defd_settled_def sets_of_def)
      ultimately show ?thesis using t [OF c] unfolding defd_settled_def by blast
    qed
  qed
  {
    case (defd_entry v)
    then show ?case using ent first_block(1) [OF w n] by (auto simp: entry_set_def)
  next
    case (defd_write i j v)
    then show ?case using step by blast
  next
    case (defd_pass i j v)
    then show ?case using step by blast
  }
qed

definition defd_rows :: "MirFunction \<Rightarrow> MirCfg \<Rightarrow> bool" where
  "defd_rows fn cfg \<longleftrightarrow>
     length (cf_defd_in cfg) = length (cf_blocks cfg) \<and> length (cf_defd_out cfg) = length (cf_blocks cfg) \<and>
     (\<forall>b < length (cf_blocks cfg).
        length (cf_defd_in cfg ! b) = cf_words cfg \<and> length (cf_defd_out cfg ! b) = cf_words cfg \<and>
        members (cf_defd_in cfg ! b) = {v. defined_before fn (bk_start (cf_blocks cfg ! b)) v} \<and>
        members (cf_defd_out cfg ! b) = {v. defined_after fn (bk_end (cf_blocks cfg ! b) - 1) v})"

lemma defd_settled_exact:
  assumes i: "defd_inv fn cfg (ins, outs)" and t: "\<And>b. b < length (cf_blocks cfg) \<Longrightarrow> defd_settled cfg b (ins, outs)"
  shows "defd_rows fn (cfg\<lparr>cf_defd_in := ins, cf_defd_out := outs\<rparr>)"
proof -
  have s: "sets_of fn cfg" and n: "fn_insns fn \<noteq> []" and w: "blocks_wf fn (cf_block_of cfg) (cf_blocks cfg)"
    and ent: "entry_set fn \<subseteq> members (fst (ins, outs) ! 0)"
    using i by (auto simp: defd_inv_def sets_of_def graph_of_def)
  note C = defd_complete [OF s n ent t] and W = blocks_wfD [OF w]
  have "members (ins ! b) = {v. defined_before fn (bk_start (cf_blocks cfg ! b)) v}" if b: "b < length (cf_blocks cfg)" for b
  proof
    show "members (ins ! b) \<subseteq> {v. defined_before fn (bk_start (cf_blocks cfg ! b)) v}" using i b by (simp add: defd_inv_def)
    have bo: "cf_block_of cfg ! bk_start (cf_blocks cfg ! b) = b" by (rule W(8) [OF b order_refl W(6) [OF b]])
    show "{v. defined_before fn (bk_start (cf_blocks cfg ! b)) v} \<subseteq> members (ins ! b)"
      using C [of "bk_start (cf_blocks cfg ! b)"] by (auto simp: bo no_insn)
  qed
  moreover have "members (outs ! b) = {v. defined_after fn (bk_end (cf_blocks cfg ! b) - 1) v}" if b: "b < length (cf_blocks cfg)" for b
  proof
    show "members (outs ! b) \<subseteq> {v. defined_after fn (bk_end (cf_blocks cfg ! b) - 1) v}" using i b by (simp add: defd_inv_def)
    obtain i where e: "bk_end (cf_blocks cfg ! b) = Suc i" "bk_start (cf_blocks cfg ! b) \<le> i"
      using W(6) [OF b] by (cases "bk_end (cf_blocks cfg ! b)") auto
    have bo: "cf_block_of cfg ! i = b" by (rule W(8) [OF b e(2)]) (simp add: e(1))
    have out: "members (outs ! b) = members (ins ! b) \<union> killed fn (bk_start (cf_blocks cfg ! b)) i \<union> {v. writes fn i = Some v}"
      using t [OF b] s b killed_Suc [OF e(2), of fn] by (auto simp: defd_settled_def sets_of_def e(1))
    show "{v. defined_after fn (bk_end (cf_blocks cfg ! b) - 1) v} \<subseteq> members (outs ! b)"
      unfolding out e(1) using C [of i] by (auto simp: defined_after_def bo)
  qed
  ultimately show ?thesis using i by (simp add: defd_rows_def defd_inv_def)
qed

lemma definedness_exact:
  assumes s: "sets_of fn cfg" and n: "fn_insns fn \<noteq> []"
    and o: "set (cf_order cfg) = {..<length (cf_blocks cfg)}" "distinct (cf_order cfg)"
    and z: "cf_defd_in cfg = replicate (length (cf_blocks cfg)) (no_bits (cf_words cfg))"
      "cf_defd_out cfg = replicate (length (cf_blocks cfg)) (no_bits (cf_words cfg))"
  shows "\<exists>ins outs. mir_cfg_definedness fn cfg = Some (cfg\<lparr>cf_defd_in := ins, cf_defd_out := outs\<rparr>) \<and>
    defd_rows fn (cfg\<lparr>cf_defd_in := ins, cf_defd_out := outs\<rparr>)"
proof -
  let ?n = "length (fn_vregs fn)" and ?c = "mir_cfg_seed_entry_defs fn cfg"
  have g: "graph_of fn cfg" and w: "blocks_wf fn (cf_block_of cfg) (cf_blocks cfg)" using s by (auto simp: sets_of_def graph_of_def)
  have nw: "?n \<le> 64 * cf_words cfg" and b0: "0 < length (cf_blocks cfg)" using g by (auto simp: graph_of_def)
  let ?row = "fold (add_valid ?n) (entry_vregs fn) (no_bits (cf_words cfg))"
  have "nat ` {v \<in> set (entry_vregs fn). mir_verify_valid ?n v} = entry_set fn"
    by (force simp: entry_set_def mir_verify_valid_def image_iff)
  then have m: "members ?row = entry_set fn" using members_fold_add_valid [of ?n "no_bits (cf_words cfg)" "entry_vregs fn"] nw by simp
  have c: "?c = cfg\<lparr>cf_defd_in := (cf_defd_in cfg)[0 := ?row]\<rparr>"
    using b0 by (simp add: mir_cfg_seed_entry_defs_def z(1))
  have sc: "sets_of fn ?c" using s by (simp add: c sets_of_def graph_of_def edges_wf_def succs_of_def preds_of_def)
  have "entry_set fn \<subseteq> {v. defined_before fn (bk_start (cf_blocks cfg ! 0)) v}"
    using first_block(2) [OF w n] n by (auto simp: entry_set_def intro: defd_entry)
  then have "defd_inv fn ?c (cf_defd_in ?c, cf_defd_out ?c)"
    using sc n o b0 m by (auto simp: defd_inv_def c z nth_list_update)
  from defd.loop_ends [OF this] obtain s' x y where
    r: "defd_inv fn ?c s'" "defd_sweep ?c s' = (x, y, False)" "defd_inv fn ?c (x, y)"
      "defd_loop ?c (cf_defd_in ?c, cf_defd_out ?c) = Some (x, y)" by blast
  have "defd_rows fn (?c\<lparr>cf_defd_in := x, cf_defd_out := y\<rparr>)"
    using defd_settled_exact [OF r(3)] defd_sweep_step(3) [OF r(1,2)] by blast
  moreover have "?c\<lparr>cf_defd_in := x, cf_defd_out := y\<rparr> = cfg\<lparr>cf_defd_in := x, cf_defd_out := y\<rparr>" by (simp add: c)
  moreover have "mir_cfg_definedness fn cfg = Some (cfg\<lparr>cf_defd_in := x, cf_defd_out := y\<rparr>)"
    using r(4) by (simp add: mir_cfg_definedness_def Let_def c)
  ultimately show ?thesis by metis
qed


text \<open>Inside a block, an instruction is reached from the one before it only.\<close>

lemma inside_pred:
  assumes w: "blocks_wf fn bo blocks" and b: "b < length blocks"
    and i: "bk_start (blocks ! b) \<le> i" "i + 1 < bk_end (blocks ! b)" and nx: "next_insn fn k (i + 1)"
  shows "k = i"
proof -
  note W = blocks_wfD [OF w]
  have n: "i + 1 < length (fn_insns fn)" using W(7) [OF b] i by simp
  have "bo ! (i + 1) = b" by (rule W(8) [OF b]) (use i in auto)
  then have nl: "\<not> leader fn (i + 1)" using W(5) [OF n] i by auto
  have "label_at fn name \<noteq> Some (i + 1)" for name
  proof
    assume "label_at fn name = Some (i + 1)"
    moreover from this obtain s where "name = Some s" by (cases name) (auto simp: label_at_def)
    ultimately have "label_name (fn_insns fn ! (i + 1)) = Some s" using label_at_first by blast
    then show False using nl by (simp add: leader_def mir_cfg_is_label_def)
  qed
  then show ?thesis using nx unfolding next_insn_def by (metis add_right_cancel image_iff)
qed

lemma defined_inside_iff:
  assumes w: "blocks_wf fn bo blocks" and b: "b < length blocks"
  shows "bk_start (blocks ! b) \<le> i \<Longrightarrow> i < bk_end (blocks ! b) \<Longrightarrow>
    defined_before fn i v \<longleftrightarrow> defined_before fn (bk_start (blocks ! b)) v \<or> v \<in> killed fn (bk_start (blocks ! b)) i"
proof (induction i rule: dec_induct)
  case base
  then show ?case by (simp add: no_insn)
next
  case (step i)
  have nx: "next_insn fn i (Suc i)" using inside_next [OF w b step.hyps(1), of "Suc i"] step.prems by simp
  have only: "k = i" if "next_insn fn k (Suc i)" for k
    using inside_pred [OF w b step.hyps(1)] step.prems that by simp
  have "defined_before fn (Suc i) v \<longleftrightarrow> defined_after fn i v"
  proof
    assume "defined_before fn (Suc i) v"
    then show "defined_after fn i v" by (cases rule: defined_before.cases) (auto simp: defined_after_def dest: only)
  qed (rule defined_next [OF nx])
  then show ?case using step by (auto simp: defined_after_def killed_Suc)
qed

section \<open>The cursor\<close>

definition defs :: "MirFunction \<Rightarrow> nat \<Rightarrow> nat \<Rightarrow> nat \<Rightarrow> int" where
  "defs fn s e v = int (length (filter (\<lambda>m. writes fn m = Some v) [s..<e]))"

lemma defs_Suc: "s \<le> e \<Longrightarrow> defs fn s (Suc e) v = defs fn s e v + (if writes fn e = Some v then 1 else 0)"
  by (simp add: defs_def)

lemma defs_zero: "defs fn s e v = 0 \<longleftrightarrow> v \<notin> killed fn s e"
  by (auto simp: defs_def killed_def filter_empty_conv)

lemma count_def_writes:
  "count_def fn k i counts = (case writes fn i of None \<Rightarrow> counts | Some d \<Rightarrow> counts[d := counts ! d + k])"
  by (simp add: count_def_def cfg_def_writes Let_def)

lemma count_defs:
  "s \<le> e \<Longrightarrow> fold (count_def fn 1) [s..<e] (replicate (length (fn_vregs fn)) 0) = map (defs fn s e) [0..<length (fn_vregs fn)]"
proof (induction rule: dec_induct)
  case base
  then show ?case by (simp add: defs_def map_replicate_const)
next
  case (step e)
  let ?n = "length (fn_vregs fn)"
  have "fold (count_def fn 1) [s..<Suc e] (replicate ?n 0) = count_def fn 1 e (map (defs fn s e) [0..<?n])"
    using step by simp
  also have "\<dots> = map (defs fn s (Suc e)) [0..<?n]"
    using step.hyps writes_valid [of fn e]
    by (auto simp: count_def_writes defs_Suc nth_list_update intro!: nth_equalityI split: option.splits)
  finally show ?case .
qed

lemma uncount_defs:
  "s \<le> e \<Longrightarrow> count_def fn (-1) e (map (defs fn s (Suc e)) [0..<length (fn_vregs fn)]) = map (defs fn s e) [0..<length (fn_vregs fn)]"
  using writes_valid [of fn e]
  by (auto simp: count_def_writes defs_Suc nth_list_update intro!: nth_equalityI split: option.splits)

lemma cursor_defd:
  assumes g: "graph_of fn cfg" and r: "defd_rows fn cfg" and b: "b < length (cf_blocks cfg)"
    and z: "cu_count cur = replicate (length (fn_vregs fn)) 0"
    and k: "k \<le> bk_end (cf_blocks cfg ! b) - bk_start (cf_blocks cfg ! b)"
    and c: "c = (mir_cfg_cursor_step_back fn cfg ^^ k) (mir_cfg_cursor_start_block fn cfg b cur)"
  shows "cu_block c = b \<and> cu_at c = bk_end (cf_blocks cfg ! b) - k \<and> length (cu_defd c) = cf_words cfg \<and>
    cu_count c = map (defs fn (bk_start (cf_blocks cfg ! b)) (bk_end (cf_blocks cfg ! b) - k)) [0..<length (fn_vregs fn)] \<and>
    members (cu_defd c) =
      {v. defined_before fn (bk_start (cf_blocks cfg ! b)) v} \<union>
      killed fn (bk_start (cf_blocks cfg ! b)) (bk_end (cf_blocks cfg ! b) - k)"
  using k c
proof (induction k arbitrary: c)
  case 0
  have w: "blocks_wf fn (cf_block_of cfg) (cf_blocks cfg)" using g by (simp add: graph_of_def)
  let ?s = "bk_start (cf_blocks cfg ! b)"
  obtain i where e: "bk_end (cf_blocks cfg ! b) = Suc i" "?s \<le> i"
    using blocks_wfD(6) [OF w b] by (cases "bk_end (cf_blocks cfg ! b)") auto
  have "{v. defined_after fn i v} = {v. defined_before fn ?s v} \<union> killed fn ?s (Suc i)"
    using defined_inside_iff [OF w b e(2)] e by (auto simp: defined_after_def killed_Suc)
  moreover have "members (cf_defd_out cfg ! b) = {v. defined_after fn i v}" "length (cf_defd_out cfg ! b) = cf_words cfg"
    using r b e(1) by (auto simp: defd_rows_def)
  ultimately show ?case
    using 0 z e count_defs [of ?s "Suc i" fn] by (simp add: mir_cfg_cursor_start_block_def Let_def)
next
  case (Suc k)
  let ?s = "bk_start (cf_blocks cfg ! b)" and ?e = "bk_end (cf_blocks cfg ! b)" and ?n = "length (fn_vregs fn)"
  define d where "d = (mir_cfg_cursor_step_back fn cfg ^^ k) (mir_cfg_cursor_start_block fn cfg b cur)"
  let ?i = "?e - Suc k"
  have IH: "cu_block d = b" "cu_at d = ?e - k" "length (cu_defd d) = cf_words cfg"
    "cu_count d = map (defs fn ?s (?e - k)) [0..<?n]"
    "members (cu_defd d) = {v. defined_before fn ?s v} \<union> killed fn ?s (?e - k)"
    using Suc.IH [OF _ d_def] Suc.prems(1) by auto
  have i: "?s \<le> ?i" "?e - k = Suc ?i" "\<not> (?e - k = 0 \<or> ?e - k \<le> ?s)" using Suc.prems(1) by auto
  have nw: "?n \<le> 64 * cf_words cfg" using g by (auto simp: graph_of_def)
  define c1 where "c1 = mir_cfg_cursor_step_back fn cfg d"
  have cnt: "count_def fn (-1) ?i (cu_count d) = map (defs fn ?s ?i) [0..<?n]"
    using uncount_defs [OF i(1)] by (simp add: IH(4) i(2))
  have st: "cu_block c1 = b" "cu_at c1 = ?i" "cu_count c1 = map (defs fn ?s ?i) [0..<?n]"
    "cu_defd c1 = (case writes fn ?i of None \<Rightarrow> cu_defd d
       | Some v \<Rightarrow> if defs fn ?s ?i v = 0 \<and> \<not> mir_cfg_set_get (cf_defd_in cfg ! b) v
                    then mir_cfg_set_clear (cu_defd d) v else cu_defd d)"
    using IH(1,2) i cnt
    by (auto simp: c1_def mir_cfg_cursor_step_back_def Let_def cfg_def_writes mir_verify_valid_def)
  have "members (cu_defd c1) = {v. defined_before fn ?s v} \<union> killed fn ?s ?i"
  proof (cases "writes fn ?i")
    case None
    then show ?thesis using IH(5) killed_Suc [OF i(1), of fn] by (simp add: st i(2))
  next
    case (Some v)
    have v: "v < 64 * cf_words cfg" using writes_valid [OF Some] nw by simp
    have "mir_cfg_set_get (cf_defd_in cfg ! b) v \<longleftrightarrow> defined_before fn ?s v"
      using r b v set_get_members [of v "cf_defd_in cfg ! b"] by (auto simp: defd_rows_def)
    then show ?thesis using Some IH(3,5) killed_Suc [OF i(1), of fn] v
      by (auto simp: st i(2) defs_zero)
  qed
  moreover have "length (cu_defd c1) = cf_words cfg" using IH(3) by (simp add: st split: option.splits)
  moreover have "c = c1" using Suc.prems(2) by (simp add: c1_def d_def)
  ultimately show ?case using st by simp
qed


end
