(* ===== verification/MirCfgCorrect.thy ===== *)
theory MirCfgCorrect
  imports MirCfgLoops MirCfgDefd
begin

text \<open>
  \<open>mir_cfg_build\<close> as a whole: it ends on every function, it gives a graph exactly when the function has
  instructions and registers and every branch names a label, and the graph is correct: blocks and
  edges, dominators, loops, liveness and definedness.
\<close>

section \<open>The stages\<close>

definition cfg_correct :: "MirFunction \<Rightarrow> MirCfg \<Rightarrow> bool" where
  "cfg_correct fn cfg \<longleftrightarrow> dominated fn cfg \<and> loops_of cfg \<and> live_rows fn cfg \<and> defd_rows fn cfg"

lemma loops_of_kernel:
  assumes "kernel cfg' = kernel cfg" "cf_blocks cfg' = cf_blocks cfg" "cf_insn_depth cfg' = cf_insn_depth cfg"
  shows "loops_of cfg' \<longleftrightarrow> loops_of cfg"
  using kernel_loop_edges [OF assms(1)] kernel_deep [OF assms(1)] kernel_header_ok [OF assms(1)] assms(2,3)
    skeletonD(2) [OF kernelD(1) [OF assms(1)]]
  by (simp add: loops_of_def)

text \<open>From the edges on, only memory can run out.\<close>

lemma stages_after_edges:
  assumes g: "graph_of fn cfg" and u: "\<forall>b \<in> set (cf_blocks cfg). unmarked b" and n: "fn_insns fn \<noteq> []"
    and ok: "ok RpoArrays" "ok OrderArray" "ok LoopArrays" "ok InsnDepth" "ok SetArrays"
  obtains c1 c2 c3 c4 c5 c6 c7 where
    "mir_cfg_build_rpo ok cfg = Inr c1" "mir_cfg_build_dominators c1 = Some c2" "mir_cfg_build_order ok c2 = Inr c3"
    "mir_cfg_build_loops ok c3 = Inr c4" "mir_cfg_alloc_sets ok c4 = Inr c5"
    "mir_cfg_liveness (mir_cfg_local_sets fn c5) = Some c6" "mir_cfg_definedness fn c6 = Some c7" "cfg_correct fn c7"
proof -
  obtain c1 where c1: "mir_cfg_build_rpo ok cfg = Inr c1" "skeleton c1 = skeleton cfg" "numbered c1"
    "\<forall>b < length (cf_blocks c1). bk_idom (cf_blocks c1 ! b) = -1 \<and> loop_mark (cf_blocks c1 ! b) = (0, -1)"
    using build_rpo_numbered [OF g u, of ok] ok by blast
  have g1: "graph_of fn c1" by (rule skeleton_graph [OF c1(2) g])
  obtain bs where bs: "mir_cfg_build_dominators c1 = Some (c1\<lparr>cf_blocks := bs\<rparr>)" "dominators_of c1 bs"
    using build_dominators_exact [OF g1 c1(3)] c1(4) by blast
  define c2 where "c2 = c1\<lparr>cf_blocks := bs\<rparr>"
  have t: "map frame bs = map frame (cf_blocks c1)" "map bk_rpo bs = map bk_rpo (cf_blocks c1)"
    "map loop_mark bs = map loop_mark (cf_blocks c1)" and lb: "length bs = length (cf_blocks c1)"
    using bs(2) treeD(1) by (auto simp: dominators_of_def tree_def)
  have s2: "skeleton c2 = skeleton c1" using t by (simp add: c2_def skeleton_def)
  have r2: "bk_rpo (bs ! b) = bk_rpo (cf_blocks c1 ! b)" "loop_mark (bs ! b) = (0, -1)" if "b < length (cf_blocks c1)" for b
    using arg_cong [OF t(2), of "\<lambda>xs. xs ! b"] arg_cong [OF t(3), of "\<lambda>xs. xs ! b"] c1(4) that lb by auto
  have n2: "numbered c2"
  proof -
    have "bk_rpo (bs ! (cf_rpo_order c1 ! i)) = bk_rpo (cf_blocks c1 ! (cf_rpo_order c1 ! i))" if "i < length (cf_rpo_order c1)" for i
      using r2(1) numberedD(3) [OF c1(3) nth_mem [OF that]] by blast
    then show ?thesis using c1(3) r2(1) lb unfolding numbered_def skeleton_steps [OF s2] by (simp add: c2_def)
  qed
  have "dominators_of c2 (cf_blocks c2)"
  proof -
    have t1: "tree c1 bs" using bs(2) by (simp add: dominators_of_def)
    have nm: "num c2 b = num c1 b" if "has_idom bs b" for b
      using r2(1) [of b] that lb by (simp add: num_def c2_def has_idom_def)
    have "b \<in> set (cf_rpo_order c1) \<and> has_idom bs (parent bs b) \<and> (b \<noteq> 0 \<longrightarrow> num c2 (parent bs b) < num c2 b)"
      if h: "has_idom bs b" for b
      using treeD(3,4,5) [OF t1 h] nm [OF h] nm [OF treeD(4) [OF t1 h]] by simp
    then have "tree c2 bs" using t1 unfolding tree_def by (simp add: c2_def)
    then show ?thesis using bs(2) reach_avoiding_steps [OF skeleton_steps [OF s2]]
      by (simp add: dominators_of_def c2_def)
  qed
  then have d2: "dominated fn c2" using skeleton_graph [OF s2 g1] n2 by (simp add: dominated_def)
  obtain c3 where c3: "mir_cfg_build_order ok c2 = Inr c3" using ok by (simp add: mir_cfg_build_order_def allocate_mem_def)
  note O = build_order_all [OF n2 c3]
  have d3: "dominated fn c3"
  proof -
    have "graph_of fn c3" using skeleton_graph [OF O(1)] d2 by (simp add: dominated_def)
    moreover have "numbered c3" using n2 O(2,3) unfolding numbered_def skeleton_steps [OF O(1)] by simp
    moreover have t2: "tree c2 (cf_blocks c2)" using d2 by (simp add: dominated_def dominators_of_def)
    then have "tree c3 (cf_blocks c3)" using O(2,3) unfolding tree_def num_def by simp
    then have "dominators_of c3 (cf_blocks c3)"
      using d2 O(2,3) reach_avoiding_steps [OF skeleton_steps [OF O(1)]] by (simp add: dominated_def dominators_of_def)
    ultimately show ?thesis by (simp add: dominated_def)
  qed
  have "\<forall>x < length (cf_blocks c3). loop_mark (cf_blocks c3 ! x) = (0, -1)" using r2(2) lb O(2) by (simp add: c2_def)
  from build_loops_exact [OF d3 this] obtain c4 where c4: "mir_cfg_build_loops ok c3 = Inr c4" "kernel c4 = kernel c3" "loops_of c4"
    using ok by blast
  have d4: "dominated fn c4" by (rule kernel_dominated [OF c4(2) d3])
  have o4: "set (cf_order c4) = {..<length (cf_blocks c4)}" "distinct (cf_order c4)"
    using O(2,4,5) kernelD(3) [OF c4(2)] skeletonD(1) [OF kernelD(1) [OF c4(2)]] by auto
  obtain c5 where c5: "mir_cfg_alloc_sets ok c4 = Inr c5" using ok by (simp add: mir_cfg_alloc_sets_def allocate_mem_def Let_def)
  define l5 where "l5 = mir_cfg_local_sets fn c5"
  have s5: "sets_of fn l5" unfolding l5_def by (rule local_sets_of [OF _ c5]) (use d4 in \<open>simp add: dominated_def\<close>)
  have c5': "cf_blocks l5 = cf_blocks c4" "cf_words l5 = cf_words c4" "kernel l5 = kernel c4" "cf_insn_depth l5 = cf_insn_depth c4"
    "cf_live_in l5 = replicate (length (cf_blocks c4)) (no_bits (cf_words c4))"
    "cf_live_out l5 = replicate (length (cf_blocks c4)) (no_bits (cf_words c4))"
    "cf_defd_in l5 = replicate (length (cf_blocks c4)) (no_bits (cf_words c4))"
    "cf_defd_out l5 = replicate (length (cf_blocks c4)) (no_bits (cf_words c4))" "cf_order l5 = cf_order c4"
    using c5 by (auto simp: l5_def mir_cfg_alloc_sets_def mir_cfg_local_sets_def Let_def allocate_mem_def kernel_def skeleton_def split: if_splits)
  obtain li lo where l6: "mir_cfg_liveness l5 = Some (l5\<lparr>cf_live_in := li, cf_live_out := lo\<rparr>)"
    "live_rows fn (l5\<lparr>cf_live_in := li, cf_live_out := lo\<rparr>)"
    using liveness_exact [OF s5] c5' by (auto simp: c5')
  define c6 where "c6 = l5\<lparr>cf_live_in := li, cf_live_out := lo\<rparr>"
  have s6: "sets_of fn c6" using s5 by (simp add: c6_def sets_of_def graph_of_def edges_wf_def succs_of_def preds_of_def)
  have c6': "cf_blocks c6 = cf_blocks c4" "cf_words c6 = cf_words c4" "kernel c6 = kernel c4" "cf_insn_depth c6 = cf_insn_depth c4"
    "cf_order c6 = cf_order c4" using c5' by (auto simp: c6_def kernel_def skeleton_def)
  have "set (cf_order c6) = {..<length (cf_blocks c6)}" "distinct (cf_order c6)" using o4 c6' by auto
  from definedness_exact [OF s6 n this] obtain di dt where
    c7: "mir_cfg_definedness fn c6 = Some (c6\<lparr>cf_defd_in := di, cf_defd_out := dt\<rparr>)" "defd_rows fn (c6\<lparr>cf_defd_in := di, cf_defd_out := dt\<rparr>)"
    using c5' by (auto simp: c6_def)
  define c7 where "c7 = c6\<lparr>cf_defd_in := di, cf_defd_out := dt\<rparr>"
  have k7: "kernel c7 = kernel c4" "cf_blocks c7 = cf_blocks c4" "cf_insn_depth c7 = cf_insn_depth c4"
    using c6' by (auto simp: c7_def kernel_def skeleton_def)
  have "live_rows fn c7" using l6(2) by (simp add: c7_def c6_def live_rows_def)
  then have "cfg_correct fn c7"
    using kernel_dominated [OF k7(1) d4] loops_of_kernel [OF k7] c4(3) c7(2) by (simp add: cfg_correct_def c7_def)
  then show thesis using that c1(1) bs(1) c3 c4(1) c5 l6(1) c7(1) by (simp add: c2_def l5_def c6_def c7_def)
qed

section \<open>When there is a graph\<close>

definition resolved_at :: "MirFunction \<Rightarrow> nat \<Rightarrow> bool" where
  "resolved_at fn i \<longleftrightarrow>
     (in_op (fn_insns fn ! i) = OpFlow MIR_JMP_TABLE \<longrightarrow> (\<exists>labels. in_aux (fn_insns fn ! i) = AuxJumpTable labels)) \<and>
     (\<forall>l \<in> set (branch_targets (fn_insns fn ! i)). label_at fn l \<noteq> None)"

text \<open>Every branch names a label of the function, and every table jump has its table.\<close>

definition targets_resolved :: "MirFunction \<Rightarrow> bool" where
  "targets_resolved fn \<longleftrightarrow> (\<forall>i < length (fn_insns fn). resolved_at fn i)"

definition soft :: "'a outcome \<Rightarrow> bool" where
  "soft r \<longleftrightarrow> r \<noteq> Inl Diverge"

lemma soft_andthen: "soft m \<Longrightarrow> (\<And>x. m = Inr x \<Longrightarrow> soft (f x)) \<Longrightarrow> soft (andthen m f)"
  by (cases m) (auto simp: soft_def)

lemma soft_allocate: "soft (allocate_mem b)" "soft (need c what)" "soft (Inr x)" "soft (Inl OutOfMemory)" "soft (Inl (Refused w))"
  by (auto simp: soft_def allocate_mem_def need_def)

lemma soft_link: "soft (mir_cfg_link ok from t cfg)"
proof -
  have "soft (mir_cfg_edge_add ok cfg h to)" for cfg h to
    unfolding mir_cfg_edge_add_def Let_def by (auto intro!: soft_andthen soft_allocate)
  then show ?thesis unfolding mir_cfg_link_def Let_def by (auto intro!: soft_andthen soft_allocate)
qed

lemma link_ok: "(\<And>a. ok a) \<Longrightarrow> 0 \<le> t \<Longrightarrow> \<exists>cfg'. mir_cfg_link ok from t cfg = Inr cfg'"
  by (auto simp: mir_cfg_link_def need_def mir_cfg_edge_add_def allocate_mem_def Let_def)

lemma link_labels_result:
  assumes f: "finds_labels fn slots"
  shows "soft (link_labels ok fn slots b ls cfg)"
    and "link_labels ok fn slots b ls cfg = Inr cfg' \<Longrightarrow> \<forall>l \<in> set ls. label_at fn l \<noteq> None"
    and "(\<And>a. ok a) \<Longrightarrow> \<forall>l \<in> set ls. label_at fn l \<noteq> None \<Longrightarrow> \<exists>cfg'. link_labels ok fn slots b ls cfg = Inr cfg'"
proof -
  have F: "mir_cfg_label_find fn slots l = Inr (case label_at fn l of None \<Rightarrow> -1 | Some j \<Rightarrow> int j)" for l
    using f by (simp add: finds_labels_def)
  show "soft (link_labels ok fn slots b ls cfg)"
    by (induction ls arbitrary: cfg) (auto simp: F intro!: soft_andthen soft_link soft_allocate)
  show "link_labels ok fn slots b ls cfg = Inr cfg' \<Longrightarrow> \<forall>l \<in> set ls. label_at fn l \<noteq> None"
    by (induction ls arbitrary: cfg) (auto simp: F andthen_Inr_iff mir_cfg_link_def need_def split: option.splits if_splits)
  show "\<exists>cfg'. link_labels ok fn slots b ls cfg = Inr cfg'" if ok: "\<And>a. ok a" and "\<forall>l \<in> set ls. label_at fn l \<noteq> None"
    using that(2)
  proof (induction ls arbitrary: cfg)
    case (Cons l ls)
    then obtain j where j: "label_at fn l = Some j" by auto
    obtain c1 where "mir_cfg_link ok b (int j) cfg = Inr c1" using link_ok [of ok "int j" b cfg] ok by auto
    then show ?case using Cons j F by auto
  qed simp
qed

lemma link_block_result:
  assumes f: "finds_labels fn slots"
  shows "soft (mir_cfg_link_block ok fn slots b cfg)"
    and "mir_cfg_link_block ok fn slots b cfg = Inr cfg' \<Longrightarrow> resolved_at fn (bk_end (cf_blocks cfg ! b) - 1)"
    and "(\<And>a. ok a) \<Longrightarrow> resolved_at fn (bk_end (cf_blocks cfg ! b) - 1) \<Longrightarrow> \<exists>cfg'. mir_cfg_link_block ok fn slots b cfg = Inr cfg'"
proof -
  let ?x = "fn_insns fn ! (bk_end (cf_blocks cfg ! b) - 1)"
  note L = link_labels_result [OF f]
  define fall where "fall = (\<lambda>cfg. if b + 1 < length (cf_blocks cfg)
                        then mir_cfg_link ok b (int (bk_start (cf_blocks cfg ! (b + 1)))) cfg else Inr cfg)"
  have D: "mir_cfg_link_block ok fn slots b cfg =
     (if in_op ?x = OpFlow MIR_JMP then link_labels ok fn slots b [op_sym (in_dst ?x)] cfg
      else if is_cond_branch (in_op ?x) then andthen (link_labels ok fn slots b [op_sym (in_dst ?x)] cfg) fall
      else if in_op ?x = OpFlow MIR_JMP_TABLE then
        (case in_aux ?x of AuxJumpTable labels \<Rightarrow> link_labels ok fn slots b labels cfg | _ \<Rightarrow> Inl (Refused ''jump table''))
      else if in_op ?x = OpFlow MIR_RET \<or> in_op ?x = OpFlow MIR_TRAP then Inr cfg
      else fall cfg)"
    unfolding mir_cfg_link_block_def Let_def fall_def by simp
  have sf: "soft (fall c)" for c unfolding fall_def by (auto intro: soft_link soft_allocate)
  have okf: "(\<And>a. ok a) \<Longrightarrow> \<exists>c'. fall c = Inr c'" for c unfolding fall_def using link_ok by auto
  have cj: "is_cond_branch (in_op x) \<Longrightarrow> in_op x \<noteq> OpFlow MIR_JMP_TABLE" for x by (auto simp: is_cond_branch_def)
  show "soft (mir_cfg_link_block ok fn slots b cfg)"
  proof -
    have "soft (case in_aux ?x of AuxJumpTable labels \<Rightarrow> link_labels ok fn slots b labels cfg | _ \<Rightarrow> Inl (Refused ''jump table''))"
      using L(1) by (cases "in_aux ?x") (simp_all add: soft_def)
    moreover have "soft (andthen (link_labels ok fn slots b ls cfg) fall)" for ls by (rule soft_andthen [OF L(1) sf])
    moreover have "soft (Inr cfg)" by (simp add: soft_def)
    ultimately show ?thesis using L(1) sf unfolding D by (simp del: link_labels.simps)
  qed
  show "resolved_at fn (bk_end (cf_blocks cfg ! b) - 1)" if r: "mir_cfg_link_block ok fn slots b cfg = Inr cfg'"
  proof (cases "in_op ?x = OpFlow MIR_JMP \<or> is_cond_branch (in_op ?x)")
    case True
    then obtain c1 where "link_labels ok fn slots b [op_sym (in_dst ?x)] cfg = Inr c1"
      using r unfolding D by (auto simp del: link_labels.simps simp: andthen_Inr_iff split: if_splits)
    from L(2) [OF this] show ?thesis using True cj [of ?x] by (auto simp: resolved_at_def branch_targets_def)
  next
    case False
    show ?thesis
    proof (cases "in_op ?x = OpFlow MIR_JMP_TABLE")
      case True
      then obtain labels where "in_aux ?x = AuxJumpTable labels" "link_labels ok fn slots b labels cfg = Inr cfg'"
        using r False unfolding D by (cases "in_aux ?x") auto
      then show ?thesis using L(2) True False by (auto simp: resolved_at_def branch_targets_def)
    qed (use False in \<open>simp add: resolved_at_def branch_targets_def\<close>)
  qed
  show "\<exists>cfg'. mir_cfg_link_block ok fn slots b cfg = Inr cfg'" if ok: "\<And>a. ok a" and r: "resolved_at fn (bk_end (cf_blocks cfg ! b) - 1)"
  proof -
    have T: "\<exists>c'. link_labels ok fn slots b ls cfg = Inr c'" if "set ls \<subseteq> set (branch_targets ?x)" for ls
      by (rule L(3) [OF ok]) (use r that in \<open>unfold resolved_at_def, blast\<close>)
    show ?thesis
    proof (cases "in_op ?x = OpFlow MIR_JMP \<or> is_cond_branch (in_op ?x)")
      case True
      then obtain c1 where "link_labels ok fn slots b [op_sym (in_dst ?x)] cfg = Inr c1"
        using T [of "[op_sym (in_dst ?x)]"] by (auto simp: branch_targets_def)
      then show ?thesis using True okf [OF ok, of c1] unfolding D by auto
    next
      case False
      show ?thesis
      proof (cases "in_op ?x = OpFlow MIR_JMP_TABLE")
        case True
        then obtain labels where "in_aux ?x = AuxJumpTable labels" using r unfolding resolved_at_def by blast
        then show ?thesis using True False T [of labels] unfolding D by (simp add: branch_targets_def)
      next
        case no_table: False
        obtain c' where "fall cfg = Inr c'" using okf [OF ok] by blast
        then show ?thesis using False no_table unfolding D by simp
      qed
    qed
  qed
qed


lemma link_blocks_result:
  assumes f: "finds_labels fn slots" and w: "blocks_wf fn (cf_block_of cfg0) (cf_blocks cfg0)"
    and l: "linked_upto fn cfg0 k cfg" and k: "k \<le> length (cf_blocks cfg0)"
  shows "soft (link_blocks ok fn slots [k..<length (cf_blocks cfg0)] cfg) \<and>
    (\<forall>cfg'. link_blocks ok fn slots [k..<length (cf_blocks cfg0)] cfg = Inr cfg' \<longrightarrow>
       (\<forall>b. k \<le> b \<longrightarrow> b < length (cf_blocks cfg0) \<longrightarrow> resolved_at fn (bk_end (cf_blocks cfg0 ! b) - 1))) \<and>
    ((\<forall>a. ok a) \<longrightarrow> targets_resolved fn \<longrightarrow> (\<exists>cfg'. link_blocks ok fn slots [k..<length (cf_blocks cfg0)] cfg = Inr cfg'))"
  using l k
proof (induction "length (cf_blocks cfg0) - k" arbitrary: k cfg)
  case 0
  then show ?case by (simp add: soft_def)
next
  case (Suc d)
  let ?B = "length (cf_blocks cfg0)"
  have lt: "k < ?B" using Suc.hyps(2) by simp
  have same: "spans cfg = spans cfg0" "cf_block_of cfg = cf_block_of cfg0" "edges_wf cfg"
    using Suc.prems(1) by (auto simp: linked_upto_def)
  have e: "bk_end (cf_blocks cfg ! k) = bk_end (cf_blocks cfg0 ! k)" by (rule spans_eqD(3) [OF same(1) lt])
  note R = link_block_result [OF f, where ok = ok and b = k and cfg = cfg]
  have un: "link_blocks ok fn slots [k..<?B] cfg = andthen (mir_cfg_link_block ok fn slots k cfg) (link_blocks ok fn slots [Suc k..<?B])"
    using lt by (simp add: upt_conv_Cons)
  have next_ok: "linked_upto fn cfg0 (Suc k) c1" if c1: "mir_cfg_link_block ok fn slots k cfg = Inr c1" for c1
  proof -
    have "gains cfg k (follows fn (cf_block_of cfg) (cf_blocks cfg ! k)) c1"
      by (rule link_block_gains [OF f _ same(3) _ c1])
        (use lt spans_eqD(1) [OF same(1)] blocks_wf_spans [OF w same(1)] same(2) in auto)
    then have "gains cfg k (follows fn (cf_block_of cfg0) (cf_blocks cfg0 ! k)) c1" using e by (simp add: follows_def same(2))
    then show ?thesis by (rule linked_upto_Suc [OF Suc.prems(1) lt])
  qed
  have IH: "soft (link_blocks ok fn slots [Suc k..<?B] c1)"
    "\<And>cfg' b. link_blocks ok fn slots [Suc k..<?B] c1 = Inr cfg' \<Longrightarrow> Suc k \<le> b \<Longrightarrow> b < ?B \<Longrightarrow> resolved_at fn (bk_end (cf_blocks cfg0 ! b) - 1)"
    "\<forall>a. ok a \<Longrightarrow> targets_resolved fn \<Longrightarrow> \<exists>cfg'. link_blocks ok fn slots [Suc k..<?B] c1 = Inr cfg'"
    if "mir_cfg_link_block ok fn slots k cfg = Inr c1" for c1
    using Suc.hyps(1) [OF _ next_ok [OF that]] Suc.hyps(2) lt by auto
  have "soft (link_blocks ok fn slots [k..<?B] cfg)" unfolding un by (rule soft_andthen [OF R(1) IH(1)])
  moreover have "resolved_at fn (bk_end (cf_blocks cfg0 ! b) - 1)"
    if r: "link_blocks ok fn slots [k..<?B] cfg = Inr cfg'" "k \<le> b" "b < ?B" for cfg' b
  proof -
    obtain c1 where c1: "mir_cfg_link_block ok fn slots k cfg = Inr c1" "link_blocks ok fn slots [Suc k..<?B] c1 = Inr cfg'"
      using r(1) unfolding un by (auto simp: andthen_Inr_iff)
    show ?thesis using R(2) [OF c1(1)] IH(2) [OF c1, of b] r(2,3) e by (cases "b = k") auto
  qed
  moreover have "\<exists>cfg'. link_blocks ok fn slots [k..<?B] cfg = Inr cfg'" if a: "\<forall>a. ok a" "targets_resolved fn"
  proof -
    have "bk_end (cf_blocks cfg0 ! k) - 1 < length (fn_insns fn)" using blocks_wfD(6,7) [OF w lt] by simp
    then have "resolved_at fn (bk_end (cf_blocks cfg ! k) - 1)" using a(2) e by (simp add: targets_resolved_def)
    then obtain c1 where "mir_cfg_link_block ok fn slots k cfg = Inr c1" using R(3) a(1) by blast
    then show ?thesis using IH(3) a unfolding un by auto
  qed
  ultimately show ?case by blast
qed

lemma branch_ends_block:
  assumes w: "blocks_wf fn bo blocks" and i: "i < length (fn_insns fn)"
    and e: "\<And>b. b < length blocks \<Longrightarrow> resolved_at fn (bk_end (blocks ! b) - 1)"
  shows "resolved_at fn i"
proof (cases "mir_cfg_ends_block (fn_insns fn ! i)")
  case False
  then show ?thesis by (auto simp: resolved_at_def branch_targets_def mir_cfg_ends_block_def is_cond_branch_def)
next
  case True
  note W = blocks_wfD [OF w]
  let ?b = "bo ! i"
  have b: "?b < length blocks" "bk_start (blocks ! ?b) \<le> i" "i < bk_end (blocks ! ?b)" using W(2,3,4) [OF i] by auto
  have "bk_end (blocks ! ?b) = i + 1"
  proof (rule ccontr)
    assume "bk_end (blocks ! ?b) \<noteq> i + 1"
    then have i1: "i + 1 < bk_end (blocks ! ?b)" using b(3) by simp
    then have n1: "i + 1 < length (fn_insns fn)" using W(7) [OF b(1)] by simp
    have "bo ! (i + 1) = ?b" by (rule W(8) [OF b(1)]) (use b i1 in auto)
    moreover have "leader fn (i + 1)" using True by (simp add: leader_def)
    ultimately show False using W(5) [OF n1] b(2) by simp
  qed
  then show ?thesis using e [OF b(1)] by simp
qed

lemma build_edges_result:
  assumes sp: "mir_cfg_split_blocks ok fn (fresh_cfg fn) = Inr cfg0" and n: "length (fn_insns fn) < 2 ^ 31"
  shows "soft (mir_cfg_build_edges ok fn cfg0)"
    and "mir_cfg_build_edges ok fn cfg0 = Inr cfg \<Longrightarrow> targets_resolved fn"
    and "\<forall>a. ok a \<Longrightarrow> targets_resolved fn \<Longrightarrow> \<exists>cfg. mir_cfg_build_edges ok fn cfg0 = Inr cfg"
proof -
  note S = split_blocks_wf [OF sp]
  have empty: "succs_of cfg0 b = []" "preds_of cfg0 b = []" if "b < length (cf_blocks cfg0)" for b
    using S(5) [OF that] by (simp_all add: succs_of_def preds_of_def)
  have l0: "linked_upto fn cfg0 0 cfg0"
    using S(2,3,5) empty by (auto simp: linked_upto_def edges_wf_def fresh_cfg_def linked_def)
  have M: "mir_cfg_label_map_build ok fn = Inl OutOfMemory \<and> \<not> ok LabelSlots \<or>
      (\<exists>slots. mir_cfg_label_map_build ok fn = Inr slots \<and> finds_labels fn slots)"
  proof (cases "ok LabelSlots")
    case True
    then obtain slots where "mir_cfg_label_map_build ok fn = Inr slots" "labels_in fn (length (fn_insns fn)) slots"
      "length (filter mir_cfg_is_label (fn_insns fn)) < length slots" using label_map_built [of ok fn, OF True n] by blast
    then show ?thesis using label_find_first unfolding finds_labels_def by blast
  qed (simp add: mir_cfg_label_map_build_def allocate_mem_def Let_def)
  have R: "soft (link_blocks ok fn slots [0..<length (cf_blocks cfg0)] cfg0)"
    "\<And>cfg b. link_blocks ok fn slots [0..<length (cf_blocks cfg0)] cfg0 = Inr cfg \<Longrightarrow> b < length (cf_blocks cfg0) \<Longrightarrow>
       resolved_at fn (bk_end (cf_blocks cfg0 ! b) - 1)"
    "\<forall>a. ok a \<Longrightarrow> targets_resolved fn \<Longrightarrow> \<exists>cfg'. link_blocks ok fn slots [0..<length (cf_blocks cfg0)] cfg0 = Inr cfg'"
    if "finds_labels fn slots" for slots
    using link_blocks_result [OF that S(1) l0 le0, of ok] by auto
  show "soft (mir_cfg_build_edges ok fn cfg0)"
    using M R(1) by (auto simp: mir_cfg_build_edges_def soft_def)
  show "targets_resolved fn" if "mir_cfg_build_edges ok fn cfg0 = Inr cfg"
    unfolding targets_resolved_def
    using M R(2) that branch_ends_block [OF S(1)] by (auto simp: mir_cfg_build_edges_def)
  show "\<exists>cfg. mir_cfg_build_edges ok fn cfg0 = Inr cfg" if "\<forall>a. ok a" "targets_resolved fn"
    using M R(3) that by (auto simp: mir_cfg_build_edges_def)
qed


section \<open>The whole\<close>

lemma gate_rpo:
  assumes "mir_cfg_build_rpo (\<lambda>_. True) c = Inr c'" shows "mir_cfg_build_rpo ok c = (if ok RpoArrays then Inr c' else Inl OutOfMemory)"
  using assms by (simp add: mir_cfg_build_rpo_def allocate_mem_def Let_def)

lemma gate_order:
  assumes "mir_cfg_build_order (\<lambda>_. True) c = Inr c'" shows "mir_cfg_build_order ok c = (if ok OrderArray then Inr c' else Inl OutOfMemory)"
  using assms by (simp add: mir_cfg_build_order_def allocate_mem_def)

lemma gate_loops:
  assumes "mir_cfg_build_loops (\<lambda>_. True) c = Inr c'"
  shows "mir_cfg_build_loops ok c = (if ok LoopArrays \<and> ok InsnDepth then Inr c' else Inl OutOfMemory)"
  using assms by (auto simp: mir_cfg_build_loops_def allocate_mem_def ends_def andthen_Inr_iff split: option.splits)

lemma gate_sets:
  assumes "mir_cfg_alloc_sets (\<lambda>_. True) c = Inr c'" shows "mir_cfg_alloc_sets ok c = (if ok SetArrays then Inr c' else Inl OutOfMemory)"
  using assms by (simp add: mir_cfg_alloc_sets_def allocate_mem_def Let_def)

definition later_ok :: "(cfg_alloc \<Rightarrow> bool) \<Rightarrow> bool" where
  "later_ok ok \<longleftrightarrow> ok RpoArrays \<and> ok OrderArray \<and> ok LoopArrays \<and> ok InsnDepth \<and> ok SetArrays"

lemma after_edges:
  assumes sp: "mir_cfg_split_blocks ok fn (fresh_cfg fn) = Inr cfg0" and ed: "mir_cfg_build_edges ok fn cfg0 = Inr cfg1"
    and ne: "fn_insns fn \<noteq> []" "fn_vregs fn \<noteq> []" and n: "length (fn_insns fn) < 2 ^ 31"
  obtains cfg where "mir_cfg_build ok fn = (if later_ok ok then Inr cfg else Inl OutOfMemory)" "cfg_correct fn cfg"
proof -
  have g: "graph_of fn cfg1" by (rule build_edges_graph [OF sp ed ne(1) n])
  have u: "\<forall>b \<in> set (cf_blocks cfg1). unmarked b" by (rule build_edges_unmarked [OF ed split_blocks_unmarked [OF sp]])
  obtain c1 c2 c3 c4 c5 c6 c7 where c: "mir_cfg_build_rpo (\<lambda>_. True) cfg1 = Inr c1" "mir_cfg_build_dominators c1 = Some c2"
    "mir_cfg_build_order (\<lambda>_. True) c2 = Inr c3" "mir_cfg_build_loops (\<lambda>_. True) c3 = Inr c4"
    "mir_cfg_alloc_sets (\<lambda>_. True) c4 = Inr c5" "mir_cfg_liveness (mir_cfg_local_sets fn c5) = Some c6"
    "mir_cfg_definedness fn c6 = Some c7" "cfg_correct fn c7"
    by (rule stages_after_edges [OF g u ne(1), where ok = "\<lambda>_. True"]) auto
  have "mir_cfg_build ok fn = (if later_ok ok then Inr c7 else Inl OutOfMemory)"
    using ne sp ed
    by (simp add: mir_cfg_build_def gate_rpo [OF c(1)] c(2,6,7) gate_order [OF c(3)] gate_loops [OF c(4)] gate_sets [OF c(5)] ends_def later_ok_def)
  then show thesis using that c(8) by blast
qed

lemma build_result:
  assumes n: "length (fn_insns fn) < 2 ^ 31"
  shows "soft (mir_cfg_build ok fn)"
    and "mir_cfg_build ok fn = Inr cfg \<Longrightarrow> cfg_correct fn cfg \<and> fn_insns fn \<noteq> [] \<and> fn_vregs fn \<noteq> [] \<and> targets_resolved fn"
    and "\<forall>a. ok a \<Longrightarrow> fn_insns fn \<noteq> [] \<Longrightarrow> fn_vregs fn \<noteq> [] \<Longrightarrow> targets_resolved fn \<Longrightarrow> \<exists>cfg. mir_cfg_build ok fn = Inr cfg"
proof -
  consider (empty) "fn_insns fn = [] \<or> fn_vregs fn = []"
    | (split) e where "fn_insns fn \<noteq> []" "fn_vregs fn \<noteq> []" "mir_cfg_split_blocks ok fn (fresh_cfg fn) = Inl e" "e = OutOfMemory" "\<not> (\<forall>a. ok a)"
    | (edges) cfg0 e where "fn_insns fn \<noteq> []" "fn_vregs fn \<noteq> []" "mir_cfg_split_blocks ok fn (fresh_cfg fn) = Inr cfg0"
        "mir_cfg_build_edges ok fn cfg0 = Inl e"
    | (later) cfg0 cfg1 where "fn_insns fn \<noteq> []" "fn_vregs fn \<noteq> []" "mir_cfg_split_blocks ok fn (fresh_cfg fn) = Inr cfg0"
        "mir_cfg_build_edges ok fn cfg0 = Inr cfg1"
  proof (cases "fn_insns fn = [] \<or> fn_vregs fn = []")
    case False
    show thesis
    proof (cases "mir_cfg_split_blocks ok fn (fresh_cfg fn)")
      case (Inl e)
      then have "e = OutOfMemory \<and> \<not> (\<forall>a. ok a)"
        by (auto simp: mir_cfg_split_blocks_def allocate_mem_def split: prod.splits if_splits)
      then show thesis using split Inl False by blast
    next
      case (Inr cfg0)
      then show thesis using edges later False by (cases "mir_cfg_build_edges ok fn cfg0") auto
    qed
  qed (rule empty)
  then have "soft (mir_cfg_build ok fn) \<and>
    (\<forall>cfg. mir_cfg_build ok fn = Inr cfg \<longrightarrow> cfg_correct fn cfg \<and> fn_insns fn \<noteq> [] \<and> fn_vregs fn \<noteq> [] \<and> targets_resolved fn) \<and>
    ((\<forall>a. ok a) \<longrightarrow> fn_insns fn \<noteq> [] \<longrightarrow> fn_vregs fn \<noteq> [] \<longrightarrow> targets_resolved fn \<longrightarrow> (\<exists>cfg. mir_cfg_build ok fn = Inr cfg))"
  proof cases
    case empty
    then show ?thesis by (auto simp: mir_cfg_build_def soft_def)
  next
    case split
    then have "mir_cfg_build ok fn = Inl OutOfMemory" by (simp add: mir_cfg_build_def)
    then show ?thesis using split(5) by (auto simp: soft_def)
  next
    case edges
    then have b: "mir_cfg_build ok fn = Inl e" by (simp add: mir_cfg_build_def)
    note R = build_edges_result [OF edges(3) n]
    show ?thesis using b R(1,3) edges(4) by (auto simp: soft_def)
  next
    case later
    obtain cfg where b: "mir_cfg_build ok fn = (if later_ok ok then Inr cfg else Inl OutOfMemory)" "cfg_correct fn cfg"
      by (rule after_edges [OF later(3,4,1,2) n])
    show ?thesis using b later(1,2) build_edges_result(2) [OF later(3) n later(4)] by (simp add: soft_def later_ok_def)
  qed
  then show "soft (mir_cfg_build ok fn)"
    "mir_cfg_build ok fn = Inr cfg \<Longrightarrow> cfg_correct fn cfg \<and> fn_insns fn \<noteq> [] \<and> fn_vregs fn \<noteq> [] \<and> targets_resolved fn"
    "\<forall>a. ok a \<Longrightarrow> fn_insns fn \<noteq> [] \<Longrightarrow> fn_vregs fn \<noteq> [] \<Longrightarrow> targets_resolved fn \<Longrightarrow> \<exists>cfg. mir_cfg_build ok fn = Inr cfg"
    by blast+
qed


section \<open>Properties\<close>

lemma defs_self: "defs fn s s = (\<lambda>_. 0)"
  by (simp add: defs_def fun_eq_iff)

lemma built:
  assumes "mir_cfg_build ok fn = Inr cfg" "length (fn_insns fn) < 2 ^ 31"
  shows "graph_of fn cfg" "numbered cfg" "dominators_of cfg (cf_blocks cfg)" "loops_of cfg" "live_rows fn cfg" "defd_rows fn cfg"
    "blocks_wf fn (cf_block_of cfg) (cf_blocks cfg)"
  using build_result(2) [OF assms(2,1)] by (auto simp: cfg_correct_def dominated_def graph_of_def)

text \<open>C8. \<open>mir_cfg_build\<close> ends on every function: the searches, the sweeps of the dominators, of liveness and of
  definedness, and the walks over the loops all stop. When memory lasts it gives a graph exactly when
  the function has instructions and registers, every branch names a label of the function, and every
  table jump has a table whose entries do.\<close>

theorem cfg_build_ends:
  assumes "length (fn_insns fn) < 2 ^ 31"
  shows "mir_cfg_build ok fn \<noteq> Inl Diverge \<and>
    ((\<exists>cfg. mir_cfg_build (\<lambda>_. True) fn = Inr cfg) \<longleftrightarrow>
       fn_insns fn \<noteq> [] \<and> fn_vregs fn \<noteq> [] \<and> targets_resolved fn)"
  using build_result [OF assms] by (auto simp: soft_def)

text \<open>C4. The graph is the control flow of the function. Every instruction is in the block the table says,
  control goes from an instruction inside a block to the next one and nowhere else, and from the last
  one of a block to the first instructions of exactly the successors of the block. The predecessor
  lists hold the same edges.\<close>

theorem cfg_edges_are_steps:
  assumes "mir_cfg_build ok fn = Inr cfg" and "length (fn_insns fn) < 2 ^ 31" and "i < length (fn_insns fn)"
    and "b = cf_block_of cfg ! i"
  shows "b < length (cf_blocks cfg) \<and> bk_start (cf_blocks cfg ! b) \<le> i \<and> i < bk_end (cf_blocks cfg ! b) \<and>
    (next_insn fn i j \<longleftrightarrow>
       (if i + 1 < bk_end (cf_blocks cfg ! b) then j = i + 1
        else \<exists>c \<in> set (succs_of cfg b). j = bk_start (cf_blocks cfg ! c))) \<and>
    (c < length (cf_blocks cfg) \<longrightarrow> b \<in> set (preds_of cfg c) \<longleftrightarrow> c \<in> set (succs_of cfg b))"
proof -
  note w = built(7) [OF assms(1,2)] and g = built(1) [OF assms(1,2)]
  have b: "b < length (cf_blocks cfg)" "bk_start (cf_blocks cfg ! b) \<le> i" "i < bk_end (cf_blocks cfg ! b)"
    using blocks_wfD(2,3,4) [OF w assms(3)] assms(4) by auto
  have s: "set (succs_of cfg b) = follows fn (cf_block_of cfg) (cf_blocks cfg ! b)" using g b(1) by (simp add: graph_of_def)
  have "next_insn fn i j \<longleftrightarrow> (\<exists>c \<in> set (succs_of cfg b). j = bk_start (cf_blocks cfg ! c))" if "\<not> i + 1 < bk_end (cf_blocks cfg ! b)"
  proof -
    have i: "i = bk_end (cf_blocks cfg ! b) - 1" using that b(3) by simp
    show ?thesis unfolding s follows_def i using next_starts [OF w b(1)] by force
  qed
  moreover have "b \<in> set (preds_of cfg c) \<longleftrightarrow> c \<in> set (succs_of cfg b)" if "c < length (cf_blocks cfg)"
    using g that b(1) s by (simp add: graph_of_def)
  ultimately show ?thesis using b inside_next [OF w b(1,2)] by auto
qed

text \<open>C5. The query \<open>mir_cfg_dominates\<close> answers dominance: for a block control can reach, that it cannot be
  reached from the first block without entering the other one; a block that is out of reach is
  dominated by itself only.\<close>

theorem cfg_dominators_exact:
  assumes "mir_cfg_build ok fn = Inr cfg" and "length (fn_insns fn) < 2 ^ 31" and "b < length (cf_blocks cfg)"
  shows "mir_cfg_dominates (cf_blocks cfg) (int a) (int b) =
    Some (if (0, b) \<in> (steps cfg)\<^sup>* then \<not> reach_avoiding cfg a b else a = b)"
proof -
  note n = built(2) [OF assms(1,2)] and d = built(3) [OF assms(1,2)]
  have r: "(0, b) \<in> (steps cfg)\<^sup>* \<longleftrightarrow> b \<in> set (cf_rpo_order cfg)" using n by (simp add: numbered_def)
  show ?thesis
  proof (cases "b \<in> set (cf_rpo_order cfg)")
    case True
    then show ?thesis using dominates_above [OF n, of "cf_blocks cfg" b a] d r by (simp add: dominators_of_def)
  next
    case False
    then have "bk_idom (cf_blocks cfg ! b) < 0" using d assms(3) by (auto simp: dominators_of_def has_idom_def)
    moreover have "mir_cfg_dominates (cf_blocks cfg) (int a) y = Some False" if "y < 0" for y
      using that by (subst mir_cfg_dominates.simps) simp
    ultimately show ?thesis using r False by (subst mir_cfg_dominates.simps) auto
  qed
qed

text \<open>C6. The depth of a block is the number of back edges whose natural loop holds the block, and its loop
  header is the header of such a loop, of greatest depth, or \<open>-1\<close> when there is none. The depth of an
  instruction is that of its block, up to 255.\<close>

theorem cfg_loops_exact:
  assumes "mir_cfg_build ok fn = Inr cfg" and "length (fn_insns fn) < 2 ^ 31"
    and "E = filter (\<lambda>e. back_edge cfg (fst e) (snd e)) (loop_edges cfg [0..<length (cf_blocks cfg)])"
    and "x < length (cf_blocks cfg)"
  shows "bk_loop_depth (cf_blocks cfg ! x) = length (filter (\<lambda>e. in_loop cfg (snd e) (fst e) x) E) \<and>
    (if \<exists>e \<in> set E. in_loop cfg (snd e) (fst e) x
     then \<exists>e \<in> set E. in_loop cfg (snd e) (fst e) x \<and> bk_loop_header (cf_blocks cfg ! x) = int (snd e) \<and>
            (\<forall>e' \<in> set E. in_loop cfg (snd e') (fst e') x \<longrightarrow>
               bk_loop_depth (cf_blocks cfg ! snd e') \<le> bk_loop_depth (cf_blocks cfg ! snd e))
     else bk_loop_header (cf_blocks cfg ! x) = -1) \<and>
    (\<forall>i < length (fn_insns fn). cf_block_of cfg ! i = x \<longrightarrow>
       cf_insn_depth cfg ! i = min 255 (bk_loop_depth (cf_blocks cfg ! x)))"
proof -
  note g = built(1) [OF assms(1,2)] and L = built(4) [OF assms(1,2), unfolded loops_of_def Let_def]
    and w = built(7) [OF assms(1,2)]
  let ?E = "loop_edges cfg [0..<length (cf_blocks cfg)]"
  have ov: "e \<in> set ?E \<and> loop_over cfg x e \<longleftrightarrow> e \<in> set E \<and> in_loop cfg (snd e) (fst e) x" for e
    by (auto simp: assms(3) loop_over_def)
  have dp: "bk_loop_depth (cf_blocks cfg ! y) = deep cfg ?E y" if "y < length (cf_blocks cfg)" for y using L that by blast
  have sm: "snd e < length (cf_blocks cfg)" if "e \<in> set ?E" for e
    using that graph_succs [OF g] by (auto simp: loop_edges_def)
  have "deep cfg ?E x = length (filter (\<lambda>e. in_loop cfg (snd e) (fst e) x) E)"
    by (simp add: deep_def assms(3) loop_over_def filter_filter cong: filter_cong)
  moreover have "header_ok cfg ?E (deep cfg ?E) x (bk_loop_header (cf_blocks cfg ! x))" using L assms(4) by blast
  then have "if \<exists>e \<in> set E. in_loop cfg (snd e) (fst e) x
     then \<exists>e \<in> set E. in_loop cfg (snd e) (fst e) x \<and> bk_loop_header (cf_blocks cfg ! x) = int (snd e) \<and>
            (\<forall>e' \<in> set E. in_loop cfg (snd e') (fst e') x \<longrightarrow>
               bk_loop_depth (cf_blocks cfg ! snd e') \<le> bk_loop_depth (cf_blocks cfg ! snd e))
     else bk_loop_header (cf_blocks cfg ! x) = -1"
  proof (cases "\<exists>e \<in> set E. in_loop cfg (snd e) (fst e) x")
    case True
    assume "header_ok cfg ?E (deep cfg ?E) x (bk_loop_header (cf_blocks cfg ! x))"
    moreover have "\<exists>e \<in> set ?E. loop_over cfg x e" using True ov by blast
    ultimately obtain e where e: "e \<in> set ?E" "loop_over cfg x e" "bk_loop_header (cf_blocks cfg ! x) = int (snd e)"
      "\<And>e'. e' \<in> set ?E \<Longrightarrow> loop_over cfg x e' \<Longrightarrow> deep cfg ?E (snd e') \<le> deep cfg ?E (snd e)"
      by (auto simp: header_ok_def)
    have "bk_loop_depth (cf_blocks cfg ! snd e') \<le> bk_loop_depth (cf_blocks cfg ! snd e)"
      if "e' \<in> set E" "in_loop cfg (snd e') (fst e') x" for e'
      using e(1) e(4) [of e'] ov [of e'] that dp sm by simp
    then show ?thesis using True e(3) ov [of e] e(1,2) by (subst if_P) blast+
  next
    case False
    assume "header_ok cfg ?E (deep cfg ?E) x (bk_loop_header (cf_blocks cfg ! x))"
    then show ?thesis using False ov unfolding header_ok_def by (metis (no_types, lifting))
  qed
  moreover have "cf_insn_depth cfg ! i = min 255 (deep cfg ?E x)" if "i < length (fn_insns fn)" "cf_block_of cfg ! i = x" for i
    using L that blocks_wfD(1) [OF w] by simp
  ultimately show ?thesis using dp [OF assms(4)] by simp
qed

text \<open>C3. The rows of a block are liveness and definedness of the program: the registers some path reads before
  writing them, from the first instruction of the block and from its end, and the registers some path
  writes before.\<close>

theorem cfg_dataflow_exact:
  assumes "mir_cfg_build ok fn = Inr cfg" and "length (fn_insns fn) < 2 ^ 31" and "b < length (cf_blocks cfg)"
  shows "members (cf_live_in cfg ! b) = {v. live_at fn (bk_start (cf_blocks cfg ! b)) v} \<and>
    members (cf_live_out cfg ! b) = {v. live_after fn (bk_end (cf_blocks cfg ! b) - 1) v} \<and>
    members (cf_defd_in cfg ! b) = {v. defined_before fn (bk_start (cf_blocks cfg ! b)) v} \<and>
    members (cf_defd_out cfg ! b) = {v. defined_after fn (bk_end (cf_blocks cfg ! b) - 1) v}"
  using built(5,6) [OF assms(1,2)] assms(3) by (simp add: live_rows_def defd_rows_def)

text \<open>C7. The cursor follows the program backwards through a block: after \<open>k\<close> steps from the end it holds what is
  live and what is defined before the instruction it stands at, and its counts are back to zero when
  it reaches the start of the block, so that it can start another.\<close>

theorem cursor_exact:
  assumes "mir_cfg_build ok fn = Inr cfg" and "length (fn_insns fn) < 2 ^ 31" and "b < length (cf_blocks cfg)"
    and "cu_count cur = replicate (length (fn_vregs fn)) 0"
    and "s = bk_start (cf_blocks cfg ! b)" and "e = bk_end (cf_blocks cfg ! b)" and "k \<le> e - s"
    and "c = (mir_cfg_cursor_step_back fn cfg ^^ k) (mir_cfg_cursor_start_block fn cfg b cur)"
  shows "cu_at c = e - k \<and>
    members (cu_live c) = {v. if k = 0 then live_after fn (e - 1) v else live_at fn (e - k) v} \<and>
    members (cu_defd c) = {v. if k = 0 then defined_after fn (e - 1) v else defined_before fn (e - k) v} \<and>
    (k = e - s \<longrightarrow> cu_count c = cu_count cur)"
proof -
  note g = built(1) [OF assms(1,2)] and w = built(7) [OF assms(1,2)]
  have k: "k \<le> bk_end (cf_blocks cfg ! b) - bk_start (cf_blocks cfg ! b)" using assms(5-7) by simp
  note L = cursor_live [OF g built(5) [OF assms(1,2)] assms(3) k assms(8)]
  note D = cursor_defd [OF g built(6) [OF assms(1,2)] assms(3,4) k assms(8)]
  have se: "s < e" using blocks_wfD(6) [OF w assms(3)] assms(5,6) by simp
  have "{v. defined_before fn s v} \<union> killed fn s (e - k) =
      {v. if k = 0 then defined_after fn (e - 1) v else defined_before fn (e - k) v}"
  proof (cases "k = 0")
    case True
    obtain i where i: "e = Suc i" "s \<le> i" using se by (cases e) auto
    show ?thesis
      using True i defined_inside_iff [OF w assms(3), of i] assms(5,6) by (auto simp: defined_after_def killed_Suc)
  next
    case False
    then show ?thesis using defined_inside_iff [OF w assms(3), of "e - k"] assms(5-7) se by auto
  qed
  moreover have "cu_count c = cu_count cur" if "k = e - s"
    using D that se assms(4-6) by (simp add: defs_self map_replicate_const)
  ultimately show ?thesis using L D assms(5,6) by simp
qed

section \<open>Example\<close>

text \<open>A loop that adds a counter to a sum, and a block after it.\<close>

definition counter :: MirFunction where
  "counter = mir_function_init
    \<lparr>fn_vregs := [new_vreg_record MIR_RC_GP 8, new_vreg_record MIR_RC_GP 8],
     fn_insns :=
       [mk_inst MIR_MOV (MIR_OPK_VREG 0) (MIR_OPK_IMM 0) MIR_OPK_NONE False,
        mk_inst (OpFlow MIR_LABEL) (MIR_OPK_LABEL (Some ''L'')) MIR_OPK_NONE MIR_OPK_NONE False,
        mk_inst MIR_ADD (MIR_OPK_VREG 1) (MIR_OPK_VREG 1) (MIR_OPK_VREG 0) False,
        mk_inst (OpFlow MIR_CMPBR) (MIR_OPK_LABEL (Some ''L'')) (MIR_OPK_VREG 1) (MIR_OPK_IMM 10) False,
        mk_inst (OpFlow MIR_RET) MIR_OPK_NONE (MIR_OPK_VREG 1) MIR_OPK_NONE False]\<rparr>"

lemma counter_values:
  "case mir_cfg_build (\<lambda>_. True) counter of Inl e \<Rightarrow> False
   | Inr cfg \<Rightarrow> map bk_start (cf_blocks cfg) = [0, 1, 4] \<and> map bk_end (cf_blocks cfg) = [1, 4, 5] \<and>
       cf_block_of cfg = [0, 1, 1, 1, 2] \<and> succs_of cfg 1 = [2, 1] \<and>
       cf_live_in cfg = [[2], [3], [2]] \<and> map bk_loop_depth (cf_blocks cfg) = [0, 1, 0] \<and>
       mir_cfg_dominates (cf_blocks cfg) 1 2 = Some True"
  by code_simp

lemma counter_built:
  obtains cfg where "mir_cfg_build (\<lambda>_. True) counter = Inr cfg" "length (cf_blocks cfg) = 3"
    "map bk_start (cf_blocks cfg) = [0, 1, 4]" "map bk_end (cf_blocks cfg) = [1, 4, 5]" "cf_block_of cfg = [0, 1, 1, 1, 2]"
    "succs_of cfg 1 = [2, 1]" "cf_live_in cfg = [[2], [3], [2]]" "map bk_loop_depth (cf_blocks cfg) = [0, 1, 0]"
    "mir_cfg_dominates (cf_blocks cfg) 1 2 = Some True"
proof (cases "mir_cfg_build (\<lambda>_. True) counter")
  case (Inr cfg)
  then have v: "map bk_start (cf_blocks cfg) = [0, 1, 4]" "map bk_end (cf_blocks cfg) = [1, 4, 5]" "cf_block_of cfg = [0, 1, 1, 1, 2]"
    "succs_of cfg 1 = [2, 1]" "cf_live_in cfg = [[2], [3], [2]]" "map bk_loop_depth (cf_blocks cfg) = [0, 1, 0]"
    "mir_cfg_dominates (cf_blocks cfg) 1 2 = Some True"
    using counter_values unfolding Inr sum.case by blast+
  have l: "length (cf_blocks cfg) = 3" using arg_cong [OF v(1), of length] by simp
  show thesis by (rule that [OF Inr l v(1) v(2) v(3) v(4) v(5) v(6) v(7)])
qed (use counter_values in auto)

lemma counter_size: "length (fn_insns counter) = 5" "length (fn_vregs counter) = 2"
  by (simp_all add: counter_def)

theorem cfg_build_ends_witness: "mir_cfg_build (\<lambda>_. False) counter \<noteq> Inl Diverge \<and> targets_resolved counter"
proof -
  obtain cfg where "mir_cfg_build (\<lambda>_. True) counter = Inr cfg" by (rule counter_built)
  then show ?thesis using cfg_build_ends [of counter "\<lambda>_. False"] by (auto simp: counter_size)
qed

theorem cfg_edges_are_steps_witness: "\<forall>j. next_insn counter 3 j \<longleftrightarrow> j = 1 \<or> j = 4"
proof
  fix j
  obtain cfg where c: "mir_cfg_build (\<lambda>_. True) counter = Inr cfg" "length (cf_blocks cfg) = 3"
    "map bk_start (cf_blocks cfg) = [0, 1, 4]" "map bk_end (cf_blocks cfg) = [1, 4, 5]" "cf_block_of cfg = [0, 1, 1, 1, 2]"
    "succs_of cfg 1 = [2, 1]" by (rule counter_built)
  have at: "1 = cf_block_of cfg ! 3" "bk_end (cf_blocks cfg ! 1) = 4" "bk_start (cf_blocks cfg ! 1) = 1" "bk_start (cf_blocks cfg ! 2) = 4"
    using arg_cong [OF c(3), of "\<lambda>xs. xs ! 1"] arg_cong [OF c(3), of "\<lambda>xs. xs ! 2"] arg_cong [OF c(4), of "\<lambda>xs. xs ! 1"] c(2,5)
    by simp_all
  show "next_insn counter 3 j \<longleftrightarrow> j = 1 \<or> j = 4"
    using cfg_edges_are_steps [OF c(1) _ _ at(1), of j] c(6) at(2-4) by (auto simp: counter_size)
qed

theorem cfg_dominators_exact_witness:
  "\<exists>cfg. mir_cfg_build (\<lambda>_. True) counter = Inr cfg \<and> \<not> reach_avoiding cfg 1 2"
proof -
  obtain cfg where c: "mir_cfg_build (\<lambda>_. True) counter = Inr cfg" "length (cf_blocks cfg) = 3"
    "mir_cfg_dominates (cf_blocks cfg) 1 2 = Some True" by (rule counter_built)
  have "\<not> reach_avoiding cfg 1 2"
    using cfg_dominators_exact [OF c(1), of 2 1] c(2,3) by (auto simp: counter_size split: if_splits)
  then show ?thesis using c(1) by blast
qed

theorem cfg_loops_exact_witness:
  "\<exists>cfg t h. mir_cfg_build (\<lambda>_. True) counter = Inr cfg \<and> back_edge cfg t h \<and> in_loop cfg h t 1"
proof -
  obtain cfg where c: "mir_cfg_build (\<lambda>_. True) counter = Inr cfg" "length (cf_blocks cfg) = 3"
    "map bk_loop_depth (cf_blocks cfg) = [0, 1, 0]" by (rule counter_built)
  have "bk_loop_depth (cf_blocks cfg ! 1) = 1" using arg_cong [OF c(3), of "\<lambda>xs. xs ! 1"] c(2) by simp
  then have "filter (\<lambda>e. in_loop cfg (snd e) (fst e) 1)
      (filter (\<lambda>e. back_edge cfg (fst e) (snd e)) (loop_edges cfg [0..<length (cf_blocks cfg)])) \<noteq> []"
    using cfg_loops_exact [OF c(1) _ refl, of 1] c(2) by (auto simp: counter_size)
  then show ?thesis using c(1) by (auto simp: filter_empty_conv)
qed

theorem cfg_dataflow_exact_witness: "live_at counter 0 1 \<and> \<not> live_at counter 0 0"
proof -
  obtain cfg where c: "mir_cfg_build (\<lambda>_. True) counter = Inr cfg" "length (cf_blocks cfg) = 3"
    "map bk_start (cf_blocks cfg) = [0, 1, 4]" "cf_live_in cfg = [[2], [3], [2]]" by (rule counter_built)
  have s: "bk_start (cf_blocks cfg ! 0) = 0" using arg_cong [OF c(3), of "\<lambda>xs. xs ! 0"] c(2) by simp
  have "members [2] = {v. live_at counter 0 v}"
    using cfg_dataflow_exact [OF c(1), of 0] c(2,4) by (simp add: counter_size s)
  moreover have "1 \<in> members [2]" "0 \<notin> members [2]" by (simp_all add: members_def mir_cfg_set_get_def)
  ultimately show ?thesis by auto
qed

theorem cursor_exact_witness:
  "\<exists>cfg (c :: MirCfgCursor). mir_cfg_build (\<lambda>_. True) counter = Inr cfg \<and> cu_at c = 2 \<and>
     members (cu_live c) = {v. live_at counter 2 v} \<and> members (cu_defd c) = {v. defined_before counter 2 v}"
proof -
  obtain cfg where c: "mir_cfg_build (\<lambda>_. True) counter = Inr cfg" "length (cf_blocks cfg) = 3"
    "map bk_start (cf_blocks cfg) = [0, 1, 4]" "map bk_end (cf_blocks cfg) = [1, 4, 5]" by (rule counter_built)
  obtain cur where cur: "mir_cfg_cursor_init (\<lambda>_. True) counter cfg = Some cur"
    "cu_count cur = replicate (length (fn_vregs counter)) 0" by (simp add: mir_cfg_cursor_init_def)
  have se: "1 = bk_start (cf_blocks cfg ! 1)" "4 = bk_end (cf_blocks cfg ! 1)"
    using arg_cong [OF c(3), of "\<lambda>xs. xs ! 1"] arg_cong [OF c(4), of "\<lambda>xs. xs ! 1"] c(2) by simp_all
  let ?c = "(mir_cfg_cursor_step_back counter cfg ^^ 2) (mir_cfg_cursor_start_block counter cfg 1 cur)"
  show ?thesis
    using cursor_exact [OF c(1) _ _ cur(2) se _ refl, of 2] c(1,2)
    by (intro exI [of _ cfg] exI [of _ ?c]) (simp add: counter_size)
qed

end
