(* ===== verification/MirDce.thy ===== *)
theory MirDce
  imports MirCfgLoops
begin

text \<open>
  Elimination of dead code before register allocation, \<open>mir_dce\<close> in \<open>codegen/binary/mir_regalloc.c\<close>: the
  instructions with an effect are roots, a worklist marks the definitions of everything a marked
  instruction reads, and what is left unmarked becomes a \<open>MIR_NOP\<close>.

  The model follows the code: for every register a list of the instructions that write it, kept as a
  head and links, the marks and the worklist. Results: the loop ends, the instructions kept are exactly
  those that are needed, and the function executes as before.
\<close>

section \<open>The algorithm\<close>

definition mir_op_pure_def :: "MirOpcode \<Rightarrow> bool" where
  "mir_op_pure_def op \<longleftrightarrow> mir_op_has op MIR_OPF_PURE_DEF"

record MirDce =
  dc_def_head :: "int list"
  dc_def_next :: "int list"
  dc_marked :: "bool list"
  dc_work :: "nat list"

definition mir_dce_mark :: "nat \<Rightarrow> MirDce \<Rightarrow> MirDce" where
  "mir_dce_mark i d =
    (if dc_marked d ! i then d else d\<lparr>dc_marked := (dc_marked d)[i := True], dc_work := i # dc_work d\<rparr>)"

fun is_vreg :: "MirOperand \<Rightarrow> bool" where
  "is_vreg (MIR_OPK_VREG v) = True"
| "is_vreg x = False"

definition mir_dce_is_root :: "MirFunction \<Rightarrow> MirInst \<Rightarrow> bool" where
  "mir_dce_is_root fn inst \<longleftrightarrow>
    (if \<not> mir_op_pure_def (in_op inst) \<or> \<not> is_vreg (in_dst inst) then True
     else if in_op inst = MIR_MOV \<and> is_mem (in_a inst) then True
     else let v = operand_def (in_dst inst)
          in if v < 0 \<or> length (fn_vregs fn) \<le> nat v then True
             else v = fn_indirect_return_vreg fn \<or> vr_address_taken (fn_vregs fn ! nat v))"

definition mir_dce_mark_defs_of :: "MirFunction \<Rightarrow> MirVregId \<Rightarrow> MirDce \<Rightarrow> MirDce" where
  "mir_dce_mark_defs_of fn v d =
    (if v < 0 \<or> length (fn_vregs fn) \<le> nat v then d
     else fold mir_dce_mark (edges_from (dc_def_next d) (dc_def_head d ! nat v)) d)"

fun frame_home :: "MirOperand \<Rightarrow> MirVregId list" where
  "frame_home (MIR_OPK_MEM m) = (if mem_frame_home_valid m then [mem_frame_home m] else [])"
| "frame_home x = []"

definition mir_dce_mark_uses :: "MirFunction \<Rightarrow> MirInst \<Rightarrow> MirDce \<Rightarrow> MirDce" where
  "mir_dce_mark_uses fn inst d =
    fold (mir_dce_mark_defs_of fn) (concat (map frame_home [in_dst inst, in_a inst, in_b inst]))
      (fold (mir_dce_mark_defs_of fn) (mir_cfg_insn_uses inst) d)"

definition note_def :: "MirFunction \<Rightarrow> nat \<Rightarrow> int list \<times> int list \<Rightarrow> int list \<times> int list" where
  "note_def fn i s =
    (case s of (head, nxt) \<Rightarrow>
       let v = mir_cfg_insn_def (fn_insns fn ! i)
       in if 0 \<le> v \<and> nat v < length (fn_vregs fn)
          then (head[nat v := int i], nxt @ [head ! nat v]) else (head, nxt @ [-1]))"

definition mir_dce_init :: "MirFunction \<Rightarrow> MirDce" where
  "mir_dce_init fn =
    (case fold (note_def fn) [0..<length (fn_insns fn)] (replicate (length (fn_vregs fn)) (-1), []) of
       (head, nxt) \<Rightarrow>
         \<lparr>dc_def_head = head, dc_def_next = nxt, dc_marked = replicate (length (fn_insns fn)) False,
          dc_work = []\<rparr>)"

definition mark_root :: "MirFunction \<Rightarrow> nat \<Rightarrow> MirDce \<Rightarrow> MirDce" where
  "mark_root fn i d =
    (if in_op (fn_insns fn ! i) \<noteq> MIR_NOP \<and> mir_dce_is_root fn (fn_insns fn ! i) then mir_dce_mark i d else d)"

partial_function (option) dce_loop :: "MirFunction \<Rightarrow> MirDce \<Rightarrow> MirDce option" where
  "dce_loop fn d =
    (case dc_work d of
       [] \<Rightarrow> Some d
     | i # rest \<Rightarrow> dce_loop fn (mir_dce_mark_uses fn (fn_insns fn ! i) (d\<lparr>dc_work := rest\<rparr>)))"

declare dce_loop.simps [code]

definition sweep_insn :: "bool list \<Rightarrow> nat \<times> MirInst \<Rightarrow> MirInst" where
  "sweep_insn marked ni =
    (if in_op (snd ni) \<noteq> MIR_NOP \<and> \<not> marked ! fst ni then (snd ni)\<lparr>in_op := MIR_NOP\<rparr> else snd ni)"

text \<open>\<open>ok\<close>: the four arrays could be allocated.\<close>

definition mir_dce :: "bool \<Rightarrow> MirFunction \<Rightarrow> MirFunction option" where
  "mir_dce ok fn =
    (if fn_vregs fn = [] \<or> fn_insns fn = [] \<or> \<not> ok then Some fn
     else map_option
            (\<lambda>d. fn\<lparr>fn_insns := map (sweep_insn (dc_marked d)) (enumerate 0 (fn_insns fn))\<rparr>)
            (dce_loop fn (fold (mark_root fn) [0..<length (fn_insns fn)] (mir_dce_init fn))))"

section \<open>What is needed\<close>

definition asks_for :: "MirFunction \<Rightarrow> nat \<Rightarrow> nat set" where
  "asks_for fn i =
    nat ` {v \<in> set (mir_cfg_insn_uses (fn_insns fn ! i)) \<union>
               set (concat (map frame_home [in_dst (fn_insns fn ! i), in_a (fn_insns fn ! i), in_b (fn_insns fn ! i)])).
           mir_verify_valid (length (fn_vregs fn)) v}"

inductive needed :: "MirFunction \<Rightarrow> nat \<Rightarrow> bool" for fn where
  needed_root: "i < length (fn_insns fn) \<Longrightarrow> in_op (fn_insns fn ! i) \<noteq> MIR_NOP \<Longrightarrow>
     mir_dce_is_root fn (fn_insns fn ! i) \<Longrightarrow> needed fn i"
| needed_def: "needed fn i \<Longrightarrow> v \<in> asks_for fn i \<Longrightarrow> j < length (fn_insns fn) \<Longrightarrow> writes fn j = Some v \<Longrightarrow>
     needed fn j"

lemma needed_less: "needed fn i \<Longrightarrow> i < length (fn_insns fn)"
  by (induction rule: needed.induct)

lemma needed_op: "needed fn i \<Longrightarrow> in_op (fn_insns fn ! i) \<noteq> MIR_NOP"
  by (induction rule: needed.induct) (auto simp: writes_def split: if_splits)

lemma asks_for_reads: "v \<in> set (reads fn i) \<Longrightarrow> v \<in> asks_for fn i"
  unfolding cfg_uses_reads [symmetric] asks_for_def by blast

section \<open>The lists of definitions\<close>

definition def_lists :: "MirFunction \<Rightarrow> nat \<Rightarrow> int list \<Rightarrow> int list \<Rightarrow> bool" where
  "def_lists fn m head nxt \<longleftrightarrow>
     length head = length (fn_vregs fn) \<and> length nxt = m \<and> linked nxt \<and>
     (\<forall>v < length head. -1 \<le> head ! v \<and> head ! v < int m \<and>
        set (edges_from nxt (head ! v)) = {j. j < m \<and> writes fn j = Some v})"

lemma note_def_lists:
  assumes "def_lists fn m head nxt" and "note_def fn m (head, nxt) = (head', nxt')"
  shows "def_lists fn (Suc m) head' nxt'"
proof -
  have I: "length head = length (fn_vregs fn)" "length nxt = m" "linked nxt"
    "\<And>v. v < length head \<Longrightarrow> -1 \<le> head ! v \<and> head ! v < int m \<and>
        set (edges_from nxt (head ! v)) = {j. j < m \<and> writes fn j = Some v}"
    using assms(1) by (auto simp: def_lists_def)
  have old: "edges_from (nxt @ xs) (head ! v) = edges_from nxt (head ! v)" if "v < length head" for v xs
    using edges_from_append [OF I(3)] I(2) I(4) [OF that] by simp
  show ?thesis
  proof (cases "writes fn m")
    case None
    then have h: "head' = head" "nxt' = nxt @ [-1]"
      using assms(2) by (auto simp: note_def_def cfg_def_writes Let_def mir_verify_valid_def split: if_splits)
    have "{j. j < Suc m \<and> writes fn j = Some v} = {j. j < m \<and> writes fn j = Some v}" for v
      using None by (auto simp: less_Suc_eq)
    then show ?thesis using I old by (force simp: def_lists_def h intro: linked_snoc)
  next
    case (Some w)
    have w: "w < length head" using writes_valid [OF Some] I(1) by simp
    have h: "head' = head[w := int m]" "nxt' = nxt @ [head ! w]"
      using assms(2) Some by (auto simp: note_def_def cfg_def_writes Let_def mir_verify_valid_def split: if_splits)
    have l: "linked nxt'" unfolding h by (rule linked_snoc) (use I w in auto)
    have e: "edges_from nxt' (int m) = m # edges_from nxt (head ! w)"
      using edges_from_new [OF I(3), of "head ! w"] I(2) I(4) [OF w] h by simp
    have "set (edges_from nxt' (head' ! v)) = {j. j < Suc m \<and> writes fn j = Some v}" if "v < length head" for v
    proof (cases "v = w")
      case True
      then show ?thesis using e I(4) [OF w] w Some h by (auto simp: less_Suc_eq)
    next
      case False
      then show ?thesis using I(4) [OF that] old [OF that] Some h by (auto simp: less_Suc_eq)
    qed
    moreover have "-1 \<le> head' ! v \<and> head' ! v < int (Suc m)" if "v < length head" for v
      using I(4) [OF that] w h by (auto simp: nth_list_update)
    ultimately show ?thesis using I l by (simp add: def_lists_def h)
  qed
qed

lemma note_defs_lists:
  "fold (note_def fn) [0..<m] (replicate (length (fn_vregs fn)) (-1), []) = (head, nxt) \<Longrightarrow> def_lists fn m head nxt"
proof (induction m arbitrary: head nxt)
  case 0
  then show ?case by (auto simp: def_lists_def)
next
  case (Suc m)
  obtain h n where hn: "fold (note_def fn) [0..<m] (replicate (length (fn_vregs fn)) (-1), []) = (h, n)" by fastforce
  show ?case by (rule note_def_lists [OF Suc.IH [OF hn]]) (use Suc.prems hn in simp)
qed

section \<open>Marking\<close>

lemma mark_is_push:
  "fold mir_dce_mark xs d =
   (case fold push_preds xs (dc_marked d, dc_work d) of (m, w) \<Rightarrow> d\<lparr>dc_marked := m, dc_work := w\<rparr>)"
proof (induction xs arbitrary: d)
  case (Cons x xs)
  have "push_preds x (dc_marked d, dc_work d) = (dc_marked (mir_dce_mark x d), dc_work (mir_dce_mark x d))"
    by (simp add: push_preds_def mir_dce_mark_def)
  moreover have "(mir_dce_mark x d)\<lparr>dc_marked := m, dc_work := w\<rparr> = d\<lparr>dc_marked := m, dc_work := w\<rparr>" for m w
    by (simp add: mir_dce_mark_def)
  ultimately show ?case by (simp add: Cons)
qed simp

text \<open>\<open>d'\<close> is \<open>d\<close> with the instructions of \<open>S\<close> marked, the new ones on the worklist.\<close>

definition marks :: "nat set \<Rightarrow> MirDce \<Rightarrow> MirDce \<Rightarrow> bool" where
  "marks S d d' \<longleftrightarrow>
     dc_def_head d' = dc_def_head d \<and> dc_def_next d' = dc_def_next d \<and>
     length (dc_marked d') = length (dc_marked d) \<and>
     (\<forall>b < length (dc_marked d). dc_marked d' ! b \<longleftrightarrow> dc_marked d ! b \<or> b \<in> S) \<and>
     set (dc_work d') = set (dc_work d) \<union> {p \<in> S. \<not> dc_marked d ! p} \<and>
     length (dc_work d') + length (filter Not (dc_marked d')) = length (dc_work d) + length (filter Not (dc_marked d))"

lemma marks_none: "marks {} d d"
  by (simp add: marks_def)

lemma marks_trans: "marks S d d' \<Longrightarrow> marks T d' d'' \<Longrightarrow> \<forall>p \<in> S \<union> T. p < length (dc_marked d) \<Longrightarrow> marks (S \<union> T) d d''"
proof -
  assume a: "marks S d d'" "marks T d' d''" "\<forall>p \<in> S \<union> T. p < length (dc_marked d)"
  have m: "dc_marked d' ! p \<longleftrightarrow> dc_marked d ! p \<or> p \<in> S" if "p < length (dc_marked d)" for p
    using a(1) that by (simp add: marks_def)
  have "set (dc_work d'') = set (dc_work d) \<union> {p \<in> S. \<not> dc_marked d ! p} \<union> {p \<in> T. \<not> dc_marked d' ! p}"
    using a(1,2) by (simp add: marks_def)
  also have "{p \<in> T. \<not> dc_marked d' ! p} = {p \<in> T. \<not> dc_marked d ! p \<and> p \<notin> S}" using m a(3) by blast
  finally have "set (dc_work d'') = set (dc_work d) \<union> {p \<in> S \<union> T. \<not> dc_marked d ! p}" by blast
  then show ?thesis using a(1,2) by (simp add: marks_def)
qed

lemma mark_fold:
  assumes "\<forall>p \<in> set xs. p < length (dc_marked d)"
  shows "marks (set xs) d (fold mir_dce_mark xs d)"
proof -
  obtain m w where mw: "fold push_preds xs (dc_marked d, dc_work d) = (m, w)" by fastforce
  then have "fold mir_dce_mark xs d = d\<lparr>dc_marked := m, dc_work := w\<rparr>" by (simp add: mark_is_push)
  then show ?thesis using push_preds_fold [OF assms mw] by (simp add: marks_def)
qed

definition dce_ready :: "MirFunction \<Rightarrow> MirDce \<Rightarrow> bool" where
  "dce_ready fn d \<longleftrightarrow> def_lists fn (length (fn_insns fn)) (dc_def_head d) (dc_def_next d) \<and>
     length (dc_marked d) = length (fn_insns fn)"

definition defs_among :: "MirFunction \<Rightarrow> nat set \<Rightarrow> nat set" where
  "defs_among fn vs = {j. j < length (fn_insns fn) \<and> (\<exists>v \<in> vs. writes fn j = Some v)}"

lemma ready_marks: "dce_ready fn d \<Longrightarrow> marks S d d' \<Longrightarrow> dce_ready fn d'"
  by (simp add: dce_ready_def marks_def)

lemma mark_defs_of:
  assumes "dce_ready fn d"
  shows "marks (defs_among fn (nat ` {x. x = v \<and> mir_verify_valid (length (fn_vregs fn)) x})) d (mir_dce_mark_defs_of fn v d)"
proof (cases "mir_verify_valid (length (fn_vregs fn)) v")
  case True
  have s: "set (edges_from (dc_def_next d) (dc_def_head d ! nat v)) = {j. j < length (fn_insns fn) \<and> writes fn j = Some (nat v)}"
    using assms True by (auto simp: dce_ready_def def_lists_def mir_verify_valid_def)
  have "marks (set (edges_from (dc_def_next d) (dc_def_head d ! nat v))) d (mir_dce_mark_defs_of fn v d)"
    using True mark_fold [of "edges_from (dc_def_next d) (dc_def_head d ! nat v)" d] s assms
    by (simp add: mir_dce_mark_defs_of_def mir_verify_valid_def dce_ready_def)
  moreover have "defs_among fn (nat ` {x. x = v \<and> mir_verify_valid (length (fn_vregs fn)) x}) =
      {j. j < length (fn_insns fn) \<and> writes fn j = Some (nat v)}"
    using True by (auto simp: defs_among_def)
  ultimately show ?thesis using s by simp
next
  case False
  then show ?thesis
    by (auto simp: mir_dce_mark_defs_of_def mir_verify_valid_def defs_among_def marks_none)
qed

lemma mark_defs_of_all:
  "dce_ready fn d \<Longrightarrow>
   marks (defs_among fn (nat ` {x \<in> set vs. mir_verify_valid (length (fn_vregs fn)) x})) d
     (fold (mir_dce_mark_defs_of fn) vs d)"
proof (induction vs arbitrary: d)
  case Nil
  then show ?case by (simp add: defs_among_def marks_none)
next
  case (Cons v vs)
  let ?ok = "mir_verify_valid (length (fn_vregs fn))"
  note m = mark_defs_of [OF Cons.prems, of v]
  have e: "defs_among fn (nat ` {x. x = v \<and> ?ok x}) \<union> defs_among fn (nat ` {x \<in> set vs. ?ok x}) =
      defs_among fn (nat ` {x \<in> set (v # vs). ?ok x})"
    by (auto simp: defs_among_def)
  have b: "\<forall>p \<in> defs_among fn A. p < length (dc_marked d)" for A
    using Cons.prems by (simp add: defs_among_def dce_ready_def)
  show ?case using marks_trans [OF m Cons.IH [OF ready_marks [OF Cons.prems m]]] b unfolding e by simp
qed

lemma mark_uses:
  assumes "dce_ready fn d"
  shows "marks (defs_among fn (asks_for fn i)) d (mir_dce_mark_uses fn (fn_insns fn ! i) d)"
proof -
  note m = mark_defs_of_all [OF assms, of "mir_cfg_insn_uses (fn_insns fn ! i)"]
  have e: "defs_among fn (asks_for fn i) =
      defs_among fn (nat ` {x \<in> set (mir_cfg_insn_uses (fn_insns fn ! i)). mir_verify_valid (length (fn_vregs fn)) x}) \<union>
      defs_among fn (nat ` {x \<in> set (concat (map frame_home [in_dst (fn_insns fn ! i), in_a (fn_insns fn ! i), in_b (fn_insns fn ! i)])).
        mir_verify_valid (length (fn_vregs fn)) x})"
    unfolding asks_for_def defs_among_def by blast
  have b: "\<forall>p \<in> defs_among fn A. p < length (dc_marked d)" for A
    using assms by (simp add: defs_among_def dce_ready_def)
  show ?thesis
    unfolding e mir_dce_mark_uses_def
    by (rule marks_trans [OF m mark_defs_of_all [OF ready_marks [OF assms m]]]) (use b in blast)
qed

section \<open>The loop\<close>

definition dce_inv :: "MirFunction \<Rightarrow> MirDce \<Rightarrow> bool" where
  "dce_inv fn d \<longleftrightarrow> dce_ready fn d \<and>
     (\<forall>i \<in> set (dc_work d). i < length (fn_insns fn) \<and> dc_marked d ! i) \<and>
     (\<forall>i < length (fn_insns fn). dc_marked d ! i \<longrightarrow> needed fn i) \<and>
     (\<forall>i < length (fn_insns fn). in_op (fn_insns fn ! i) \<noteq> MIR_NOP \<longrightarrow> mir_dce_is_root fn (fn_insns fn ! i) \<longrightarrow>
        dc_marked d ! i) \<and>
     (\<forall>i < length (fn_insns fn). dc_marked d ! i \<longrightarrow> i \<notin> set (dc_work d) \<longrightarrow>
        (\<forall>j \<in> defs_among fn (asks_for fn i). dc_marked d ! j))"

lemma dce_loop_step:
  assumes I: "dce_inv fn d" and w: "dc_work d = i # rest"
    and m: "marks (defs_among fn (asks_for fn i)) (d\<lparr>dc_work := rest\<rparr>) d'"
  shows "dce_inv fn d'"
proof -
  let ?A = "defs_among fn (asks_for fn i)" and ?n = "length (fn_insns fn)"
  have r: "dce_ready fn d" and l: "length (dc_marked d) = ?n" using I by (simp_all add: dce_inv_def dce_ready_def)
  have i: "i < ?n" "dc_marked d ! i" "needed fn i" using I w by (auto simp: dce_inv_def)
  have M: "dc_marked d' ! b \<longleftrightarrow> dc_marked d ! b \<or> b \<in> ?A" if "b < ?n" for b using m that l by (simp add: marks_def)
  have W: "set (dc_work d') = set rest \<union> {p \<in> ?A. \<not> dc_marked d ! p}" using m by (simp add: marks_def)
  have A: "p < ?n \<and> needed fn p" if "p \<in> ?A" for p using that i(3) by (auto simp: defs_among_def intro: needed_def)
  have "dce_ready fn d'" using ready_marks [OF _ m] r by (simp add: dce_ready_def)
  moreover have "\<forall>x \<in> set (dc_work d'). x < ?n \<and> dc_marked d' ! x" using I w W M A by (auto simp: dce_inv_def)
  moreover have "\<forall>x < ?n. dc_marked d' ! x \<longrightarrow> needed fn x" using I M A by (auto simp: dce_inv_def)
  moreover have "\<forall>x < ?n. in_op (fn_insns fn ! x) \<noteq> MIR_NOP \<longrightarrow> mir_dce_is_root fn (fn_insns fn ! x) \<longrightarrow> dc_marked d' ! x"
    using I M by (auto simp: dce_inv_def)
  moreover have "dc_marked d' ! j"
    if x: "x < ?n" "dc_marked d' ! x" "x \<notin> set (dc_work d')" and j: "j \<in> defs_among fn (asks_for fn x)" for x j
  proof -
    have jn: "j < ?n" using j by (simp add: defs_among_def)
    show ?thesis
    proof (cases "x = i")
      case True
      then show ?thesis using M [OF jn] j by simp
    next
      case False
      have "dc_marked d ! x" using x M [OF x(1)] W by auto
      moreover have "x \<notin> set (dc_work d)" using x(3) W w False by auto
      ultimately show ?thesis using I x(1) j M [OF jn] unfolding dce_inv_def by blast
    qed
  qed
  ultimately show ?thesis unfolding dce_inv_def by blast
qed

lemma dce_loop_exact:
  "dce_inv fn d \<Longrightarrow> \<exists>d'. dce_loop fn d = Some d' \<and> length (dc_marked d') = length (fn_insns fn) \<and>
     (\<forall>i < length (fn_insns fn). dc_marked d' ! i \<longleftrightarrow> needed fn i)"
proof (induction "length (dc_work d) + length (filter Not (dc_marked d))" arbitrary: d rule: less_induct)
  case less
  show ?case
  proof (cases "dc_work d")
    case Nil
    have "dc_marked d ! i" if "needed fn i" for i
      using that
    proof induction
      case (needed_def i v j)
      then have "j \<in> defs_among fn (asks_for fn i)" by (auto simp: defs_among_def)
      then show ?case using less.prems needed_def.IH needed_less [OF needed_def.hyps(1)] Nil unfolding dce_inv_def by simp
    qed (use less.prems in \<open>simp add: dce_inv_def\<close>)
    then have "\<forall>i < length (fn_insns fn). dc_marked d ! i \<longleftrightarrow> needed fn i" using less.prems unfolding dce_inv_def by blast
    moreover have "dce_loop fn d = Some d" using Nil by (subst dce_loop.simps) simp
    ultimately show ?thesis using less.prems by (simp add: dce_inv_def dce_ready_def)
  next
    case (Cons i rest)
    let ?d = "d\<lparr>dc_work := rest\<rparr>"
    have m: "marks (defs_among fn (asks_for fn i)) ?d (mir_dce_mark_uses fn (fn_insns fn ! i) ?d)"
      by (rule mark_uses) (use less.prems in \<open>simp add: dce_inv_def dce_ready_def\<close>)
    have "length (dc_work (mir_dce_mark_uses fn (fn_insns fn ! i) ?d)) +
        length (filter Not (dc_marked (mir_dce_mark_uses fn (fn_insns fn ! i) ?d))) <
        length (dc_work d) + length (filter Not (dc_marked d))"
      using m Cons by (simp add: marks_def)
    from less.hyps [OF this dce_loop_step [OF less.prems Cons m]] show ?thesis
      using Cons by (subst dce_loop.simps) simp
  qed
qed

lemma roots_marked:
  "dce_ready fn d \<Longrightarrow> m \<le> length (fn_insns fn) \<Longrightarrow>
   marks {i. i < m \<and> in_op (fn_insns fn ! i) \<noteq> MIR_NOP \<and> mir_dce_is_root fn (fn_insns fn ! i)} d
     (fold (mark_root fn) [0..<m] d)"
proof (induction m)
  case 0
  then show ?case by (simp add: marks_none)
next
  case (Suc m)
  let ?S = "\<lambda>m. {i. i < m \<and> in_op (fn_insns fn ! i) \<noteq> MIR_NOP \<and> mir_dce_is_root fn (fn_insns fn ! i)}"
  let ?d = "fold (mark_root fn) [0..<m] d"
  have ih: "marks (?S m) d ?d" using Suc by simp
  have l: "length (dc_marked ?d) = length (fn_insns fn)" "length (dc_marked d) = length (fn_insns fn)"
    using ready_marks [OF Suc.prems(1) ih] Suc.prems(1) by (simp_all add: dce_ready_def)
  show ?case
  proof (cases "m \<in> ?S (Suc m)")
    case True
    then have "?S (Suc m) = ?S m \<union> set [m]" by (auto simp: less_Suc_eq)
    moreover have "marks (set [m]) ?d (fold mir_dce_mark [m] ?d)" by (rule mark_fold) (use l Suc.prems(2) in simp)
    moreover have "fold (mark_root fn) [0..<Suc m] d = fold mir_dce_mark [m] ?d" using True by (simp add: mark_root_def [of fn m])
    ultimately show ?thesis using marks_trans [OF ih, of "set [m]"] l Suc.prems(2) by auto
  next
    case False
    then have "?S (Suc m) = ?S m" by (auto simp: less_Suc_eq)
    moreover have "fold (mark_root fn) [0..<Suc m] d = ?d" using False by (auto simp: mark_root_def [of fn m])
    ultimately show ?thesis using ih by simp
  qed
qed

lemma dce_start: "dce_inv fn (fold (mark_root fn) [0..<length (fn_insns fn)] (mir_dce_init fn))"
proof -
  let ?n = "length (fn_insns fn)"
  obtain head nxt where hn: "fold (note_def fn) [0..<?n] (replicate (length (fn_vregs fn)) (-1), []) = (head, nxt)" by fastforce
  have r: "dce_ready fn (mir_dce_init fn)"
    using note_defs_lists [OF hn] hn by (simp add: dce_ready_def mir_dce_init_def)
  note m = roots_marked [OF r order_refl]
  have f: "\<not> dc_marked (mir_dce_init fn) ! i" if "i < ?n" for i using that hn by (simp add: mir_dce_init_def)
  have w: "dc_work (mir_dce_init fn) = []" "length (dc_marked (mir_dce_init fn)) = ?n" using hn by (simp_all add: mir_dce_init_def)
  show ?thesis
    unfolding dce_inv_def
  proof (intro conjI)
    show "dce_ready fn (fold (mark_root fn) [0..<?n] (mir_dce_init fn))" by (rule ready_marks [OF r m])
  qed (use m f w in \<open>auto simp: marks_def intro: needed_root\<close>)
qed

lemma dce_result:
  obtains fn' where "mir_dce ok fn = Some fn'" "fn' = fn\<lparr>fn_insns := fn_insns fn'\<rparr>" "length (fn_insns fn') = length (fn_insns fn)"
    and "fn_vregs fn = [] \<or> fn_insns fn = [] \<or> \<not> ok \<Longrightarrow> fn' = fn"
    and "\<And>i. fn_vregs fn \<noteq> [] \<Longrightarrow> ok \<Longrightarrow> i < length (fn_insns fn) \<Longrightarrow>
      fn_insns fn' ! i = (if in_op (fn_insns fn ! i) = MIR_NOP \<or> needed fn i then fn_insns fn ! i
                          else (fn_insns fn ! i)\<lparr>in_op := MIR_NOP\<rparr>)"
proof (cases "fn_vregs fn = [] \<or> fn_insns fn = [] \<or> \<not> ok")
  case True
  then have "mir_dce ok fn = Some fn" by (simp add: mir_dce_def)
  then show ?thesis by (rule that) (use True in auto)
next
  case False
  from dce_loop_exact [OF dce_start [of fn]] obtain d where
    d: "dce_loop fn (fold (mark_root fn) [0..<length (fn_insns fn)] (mir_dce_init fn)) = Some d"
    "\<forall>i < length (fn_insns fn). dc_marked d ! i \<longleftrightarrow> needed fn i" by blast
  let ?f = "fn\<lparr>fn_insns := map (sweep_insn (dc_marked d)) (enumerate 0 (fn_insns fn))\<rparr>"
  have "mir_dce ok fn = Some ?f" using False d(1) by (simp add: mir_dce_def)
  then show ?thesis
    by (rule that) (use False d(2) in \<open>auto simp: sweep_insn_def nth_enumerate_eq\<close>)
qed

section \<open>Execution\<close>

text \<open>
  What the flag \<open>MIR_OPF_PURE_DEF\<close> stands for: the instruction only computes the register it writes. A
  load is not among them, and \<open>MIR_NOP\<close> does nothing at all.
\<close>

definition pure_insn :: "MirInst \<Rightarrow> bool" where
  "pure_insn inst \<longleftrightarrow> in_op inst = MIR_NOP \<or>
     mir_op_pure_def (in_op inst) \<and> is_vreg (in_dst inst) \<and> \<not> (in_op inst = MIR_MOV \<and> is_mem (in_a inst))"

definition pure_effects :: "MirFunction \<Rightarrow> ('v, 'e) effect \<Rightarrow> bool" where
  "pure_effects fn eff \<longleftrightarrow>
     (\<forall>i < length (fn_insns fn). pure_insn (fn_insns fn ! i) \<longrightarrow> (\<forall>xs e. snd (eff i xs e) = (e, i + 1)))"

definition skips :: "MirFunction \<Rightarrow> ('v, 'e) effect \<Rightarrow> ('v, 'e) effect" where
  "skips fn eff i xs e = (if in_op (fn_insns fn ! i) = MIR_NOP then (fst (eff i xs e), e, i + 1) else eff i xs e)"

lemma pure_op_flow:
  assumes "mir_op_pure_def op"
  shows "falls_through op" "op \<noteq> OpFlow MIR_JMP" "\<not> is_cond_branch op" "op \<noteq> OpFlow MIR_JMP_TABLE" "op \<noteq> OpFlow MIR_LABEL"
proof -
  have "\<not> mir_op_pure_def (OpFlow MIR_JMP)" "\<not> mir_op_pure_def (OpFlow MIR_JMP_TABLE)" "\<not> mir_op_pure_def (OpFlow MIR_RET)"
    "\<not> mir_op_pure_def (OpFlow MIR_TRAP)" "\<not> mir_op_pure_def (OpFlow MIR_JCC)" "\<not> mir_op_pure_def (OpFlow MIR_CMPBR)"
    "\<not> mir_op_pure_def (OpFloat MIR_FCMPBR)" "\<not> mir_op_pure_def (OpFlow MIR_LABEL)" by code_simp+
  then show "falls_through op" "op \<noteq> OpFlow MIR_JMP" "\<not> is_cond_branch op" "op \<noteq> OpFlow MIR_JMP_TABLE" "op \<noteq> OpFlow MIR_LABEL"
    using assms unfolding falls_through_def is_cond_branch_def by blast+
qed

lemma find_enumerate_map:
  "map_option fst (find (\<lambda>l. f (snd l) = y) (enumerate k xs)) = map_option fst (find (\<lambda>l. snd l = y) (enumerate k (map f xs)))"
  by (induction xs arbitrary: k) auto

lemma label_at_cong: "map label_name (fn_insns fn') = map label_name (fn_insns fn) \<Longrightarrow> label_at fn' = label_at fn"
  by (rule ext) (simp add: label_at_def find_enumerate_map split: option.splits)

lemma unneeded_pure: "i < length (fn_insns fn) \<Longrightarrow> in_op (fn_insns fn ! i) \<noteq> MIR_NOP \<Longrightarrow> \<not> needed fn i \<Longrightarrow>
    mir_op_pure_def (in_op (fn_insns fn ! i)) \<and> pure_insn (fn_insns fn ! i)"
proof -
  assume a: "i < length (fn_insns fn)" "in_op (fn_insns fn ! i) \<noteq> MIR_NOP" "\<not> needed fn i"
  then have "\<not> mir_dce_is_root fn (fn_insns fn ! i)" using needed_root by blast
  then show ?thesis by (auto simp: mir_dce_is_root_def pure_insn_def split: if_splits)
qed

text \<open>A function in which instructions that are not needed were cleared, the others kept.\<close>

definition cleared :: "MirFunction \<Rightarrow> MirFunction \<Rightarrow> bool" where
  "cleared fn fn' \<longleftrightarrow> fn_vregs fn' = fn_vregs fn \<and> length (fn_insns fn') = length (fn_insns fn) \<and>
     (\<forall>i < length (fn_insns fn). fn_insns fn' ! i = fn_insns fn ! i \<or>
        \<not> needed fn i \<and> in_op (fn_insns fn ! i) \<noteq> MIR_NOP \<and> fn_insns fn' ! i = (fn_insns fn ! i)\<lparr>in_op := MIR_NOP\<rparr>)"

lemma dce_cleared:
  obtains fn' where "mir_dce ok fn = Some fn'" "fn' = fn\<lparr>fn_insns := fn_insns fn'\<rparr>" "cleared fn fn'"
    and "fn_vregs fn = [] \<or> \<not> ok \<Longrightarrow> fn' = fn"
    and "\<And>i. fn_vregs fn \<noteq> [] \<Longrightarrow> ok \<Longrightarrow> i < length (fn_insns fn) \<Longrightarrow>
      fn_insns fn' ! i = (if needed fn i then fn_insns fn ! i else (fn_insns fn ! i)\<lparr>in_op := MIR_NOP\<rparr>)"
proof -
  obtain fn' where f: "mir_dce ok fn = Some fn'" "fn' = fn\<lparr>fn_insns := fn_insns fn'\<rparr>" "length (fn_insns fn') = length (fn_insns fn)"
    and u: "fn_vregs fn = [] \<or> fn_insns fn = [] \<or> \<not> ok \<Longrightarrow> fn' = fn"
    and k: "\<And>i. fn_vregs fn \<noteq> [] \<Longrightarrow> ok \<Longrightarrow> i < length (fn_insns fn) \<Longrightarrow>
      fn_insns fn' ! i = (if in_op (fn_insns fn ! i) = MIR_NOP \<or> needed fn i then fn_insns fn ! i
                          else (fn_insns fn ! i)\<lparr>in_op := MIR_NOP\<rparr>)"
    using dce_result [of ok fn] by blast
  have v: "fn_vregs fn' = fn_vregs fn" by (subst f(2)) simp
  have "cleared fn fn'"
  proof (cases "fn_vregs fn = [] \<or> fn_insns fn = [] \<or> \<not> ok")
    case True
    then show ?thesis using u by (simp add: cleared_def)
  next
    case False
    then show ?thesis using v f(3) k by (simp add: cleared_def)
  qed
  moreover have "fn_insns fn' ! i = (if needed fn i then fn_insns fn ! i else (fn_insns fn ! i)\<lparr>in_op := MIR_NOP\<rparr>)"
    if "fn_vregs fn \<noteq> []" "ok" "i < length (fn_insns fn)" for i
    using k [OF that] by simp
  ultimately show thesis using that [of fn'] f(1,2) u by blast
qed

lemma cleared_next:
  assumes "cleared fn fn'"
  shows "next_insn fn' i j \<longleftrightarrow> next_insn fn i j"
proof -
  have c: "fn_insns fn' ! k = fn_insns fn ! k \<or> mir_op_pure_def (in_op (fn_insns fn ! k)) \<and>
      fn_insns fn' ! k = (fn_insns fn ! k)\<lparr>in_op := MIR_NOP\<rparr>" if "k < length (fn_insns fn)" for k
    using assms that unneeded_pure [OF that] by (auto simp: cleared_def)
  have "label_name (fn_insns fn' ! k) = label_name (fn_insns fn ! k)" if "k < length (fn_insns fn)" for k
    using c [OF that] pure_op_flow(5) by (auto simp: label_name_def)
  then have l: "label_at fn' = label_at fn"
    using assms by (intro label_at_cong nth_equalityI) (auto simp: cleared_def)
  have "falls_through (in_op (fn_insns fn' ! i)) = falls_through (in_op (fn_insns fn ! i)) \<and>
      branch_targets (fn_insns fn' ! i) = branch_targets (fn_insns fn ! i)" if "i < length (fn_insns fn)"
    using c [OF that] pure_op_flow by (auto simp: falls_through_def branch_targets_def is_cond_branch_def)
  then show ?thesis using assms l by (auto simp: next_insn_def cleared_def)
qed

lemma cleared_step:
  assumes c: "cleared fn fn'" and p: "pure_effects fn eff" and s: "vstep fn eff (i, V, e) = Some (j, W, f)"
    and a: "\<And>k v. needed fn k \<Longrightarrow> v \<in> set (reads fn k) \<Longrightarrow> V' v = V v"
    and k: "\<And>k. k < length (fn_insns fn) \<Longrightarrow> in_op (fn_insns fn' ! k) \<noteq> MIR_NOP \<Longrightarrow> needed fn k"
  obtains W' where "vstep fn' (skips fn' eff) (i, V', e) = Some (j, W', f)"
    and "\<And>k v. needed fn k \<Longrightarrow> v \<in> set (reads fn k) \<Longrightarrow> W' v = W v"
proof -
  obtain xs x where st: "i < length (fn_insns fn)" "those (map V (reads fn i)) = Some xs" "eff i xs e = (x, f, j)"
    "next_insn fn i j" "W = (case writes fn i of None \<Rightarrow> V | Some d \<Rightarrow> V(d \<mapsto> x))"
    using s by (auto simp: vstep_def split: if_splits option.splits prod.splits)
  have len: "length (fn_insns fn') = length (fn_insns fn)" and vr: "fn_vregs fn' = fn_vregs fn" using c by (auto simp: cleared_def)
  show thesis
  proof (cases "needed fn i")
    case True
    then have same: "fn_insns fn' ! i = fn_insns fn ! i" "in_op (fn_insns fn ! i) \<noteq> MIR_NOP"
      using c st(1) needed_op by (auto simp: cleared_def)
    have rw: "reads fn' i = reads fn i" "writes fn' i = writes fn i" using same vr by (simp_all add: reads_def writes_def)
    have "map V' (reads fn i) = map V (reads fn i)" using a [OF True] by simp
    then have "those (map V' (reads fn i)) = Some xs" using st(2) by metis
    then have "vstep fn' (skips fn' eff) (i, V', e) = Some (j, (case writes fn i of None \<Rightarrow> V' | Some d \<Rightarrow> V'(d \<mapsto> x)), f)"
      using st(1,3,4) len rw same cleared_next [OF c] by (simp add: vstep_def skips_def)
    then show thesis by (rule that) (use a st(5) in \<open>auto split: option.splits\<close>)
  next
    case False
    then have nop: "in_op (fn_insns fn' ! i) = MIR_NOP" using k [OF st(1)] by blast
    have pe: "f = e" "j = i + 1"
      using p st(1,3) unneeded_pure [OF st(1) _ False] unfolding pure_effects_def pure_insn_def by (metis snd_conv prod.inject)+
    have "reads fn' i = []" "writes fn' i = None" using nop by (simp_all add: reads_def writes_def)
    then have "vstep fn' (skips fn' eff) (i, V', e) = Some (j, V', f)"
      using st(1,4) len nop pe cleared_next [OF c] by (simp add: vstep_def skips_def)
    moreover have "V' v = W v" if "needed fn k" "v \<in> set (reads fn k)" for k v
    proof -
      have "writes fn i \<noteq> Some v" using needed_def [OF that(1) asks_for_reads [OF that(2)] st(1)] False by blast
      then show ?thesis using a [OF that] st(5) by (simp split: option.splits)
    qed
    ultimately show thesis by (rule that)
  qed
qed

lemma cleared_run:
  assumes c: "cleared fn fn'" and p: "pure_effects fn eff"
    and k: "\<And>k. k < length (fn_insns fn) \<Longrightarrow> in_op (fn_insns fn' ! k) \<noteq> MIR_NOP \<Longrightarrow> needed fn k"
  shows "vrun fn eff n (i, V, e) = Some (j, W, f) \<Longrightarrow>
    \<exists>W'. vrun fn' (skips fn' eff) n (i, V, e) = Some (j, W', f) \<and> (\<forall>k v. needed fn k \<longrightarrow> v \<in> set (reads fn k) \<longrightarrow> W' v = W v)"
proof (induction n arbitrary: j W f)
  case (Suc n)
  obtain j0 W0 f0 where r: "vrun fn eff n (i, V, e) = Some (j0, W0, f0)" "vstep fn eff (j0, W0, f0) = Some (j, W, f)"
    using Suc.prems by (auto split: option.splits)
  from Suc.IH [OF r(1)] obtain W0' where w: "vrun fn' (skips fn' eff) n (i, V, e) = Some (j0, W0', f0)"
    "\<And>k v. needed fn k \<Longrightarrow> v \<in> set (reads fn k) \<Longrightarrow> W0' v = W0 v" by blast
  obtain W' where "vstep fn' (skips fn' eff) (j0, W0', f0) = Some (j, W', f)"
    "\<And>k v. needed fn k \<Longrightarrow> v \<in> set (reads fn k) \<Longrightarrow> W' v = W v"
    by (rule cleared_step [OF c p r(2) w(2) k]) blast+
  then show ?case using w(1) by auto
qed auto

lemma vrun_skips: "pure_effects fn eff \<Longrightarrow> vrun fn (skips fn eff) n s = vrun fn eff n s"
proof (induction n)
  case (Suc n)
  have "skips fn eff i xs e = eff i xs e" if "i < length (fn_insns fn)" for i xs e
  proof (cases "in_op (fn_insns fn ! i) = MIR_NOP")
    case True
    then have "snd (eff i xs e) = (e, i + 1)" using Suc.prems that by (simp add: pure_effects_def pure_insn_def)
    then show ?thesis using True by (metis prod.collapse skips_def)
  qed (simp add: skips_def)
  then have "vstep fn (skips fn eff) t = vstep fn eff t" for t
    by (cases t) (simp add: vstep_def split: option.splits)
  then show ?case using Suc by (simp split: option.splits)
qed simp

section \<open>Results\<close>



section \<open>Example\<close>

text \<open>Register 1 is computed from register 0 and never read.\<close>

definition idle :: MirFunction where
  "idle = mir_function_init
    \<lparr>fn_vregs := replicate 3 (new_vreg_record MIR_RC_GP 8),
     fn_insns :=
       [mk_inst MIR_MOV (MIR_OPK_VREG 0) (MIR_OPK_IMM 5) MIR_OPK_NONE False,
        mk_inst MIR_NEG (MIR_OPK_VREG 1) (MIR_OPK_VREG 0) MIR_OPK_NONE False,
        mk_inst MIR_ADD (MIR_OPK_VREG 2) (MIR_OPK_VREG 0) (MIR_OPK_VREG 0) False,
        mk_inst (OpFlow MIR_RET) MIR_OPK_NONE (MIR_OPK_VREG 2) MIR_OPK_NONE False]\<rparr>"

definition idle_effect :: "(int, unit) effect" where
  "idle_effect i xs e = (if i = 0 then 5 else sum_list xs, (), i + 1)"

definition idle_after :: MirFunction where
  "idle_after = the (mir_dce True idle)"

lemma idle_ops: "map in_op (fn_insns idle_after) = [MIR_MOV, MIR_NOP, MIR_ADD, OpFlow MIR_RET]"
  by code_simp



end
