(* ===== verification/Spec2Isabelle.thy ===== *)
theory Spec2Isabelle
  imports StrengthCorrect DivMod Arm64EmitCorrect Arm64Abi LexerPeek ElfSafe ElfSharedSafe LinkBuildCorrect RelocRelax MirVerifyCorrect
    MirCfgCorrect MirDce
begin

text \<open>
  Verification of the Mettle compiler, the C sources under \<open>src/src\<close>.

  \<^bold>\<open>The program.\<close> Mettle is an ahead-of-time compiler with its own back ends and its own linker. A source file is split
  into tokens (\<open>lexer/\<close>, over a table of interned strings), parsed (\<open>parser/\<close>) and type checked (\<open>semantic/\<close>), lowered to
  an intermediate representation and optimised (\<open>ir/\<close>), lowered again to machine instructions over virtual registers
  (\<open>codegen/binary/mir_lower.c\<close>, or \<open>arm64_ir_encode.c\<close> for AArch64), allocated, encoded, and written as an object file.
  The linker (\<open>linker/\<close>) reads object files, drops sections that nothing uses, merges the rest, resolves symbols, assigns
  addresses, applies relocations and writes the image.

  \<^bold>\<open>What is modelled, and where.\<close>

  \<^item> \<^bold>\<open>Constants in division and multiplication.\<close> \<open>StrengthRules\<close> is \<open>codegen/binary/strength_rules.c\<close>: the rule table, the
    classifier and the two computations of magic numbers. \<open>Mir\<close> holds the instructions and the growing arrays of
    \<open>mir.h\<close>/\<open>mir.c\<close> and a meaning for the 64-bit integer opcodes; \<open>DivMod\<close> the functions of \<open>mir_lower.c\<close> that lower a
    division by a constant. \<open>MagicDivision\<close> and \<open>DivModArith\<close> hold the number theory. Results: the loops end, every magic
    number gives the exact quotient of every dividend (\<open>StrengthCorrect\<close>), and the code emitted for division and
    remainder by any non-zero constant computes the C result or an allocation failed (\<open>DivMod\<close>).
  \<^item> \<^bold>\<open>AArch64.\<close> \<open>Arm64Encode\<close> is \<open>arm64_encode.c\<close>, \<open>Arm64Decode\<close> is \<open>arm64_disasm.c\<close>, \<open>Arm64Roundtrip\<close> shows that
    decoding inverts encoding and where it does not. \<open>Arm64Emit\<close> is \<open>arm64_emit.c\<close> (code buffer, labels, fixups, prologue,
    epilogue); \<open>Arm64EmitCorrect\<close> shows its invariant over every sequence of calls, and that \<open>arm64_emit_finalize\<close>
    resolves every branch and address load, or fails exactly when it has to. \<open>Arm64Abi\<close> is \<open>arm64_abi.c\<close> with its
    overridable argument registers.
  \<^item> \<^bold>\<open>Lexing.\<close> \<open>StringIntern\<close> is \<open>string_intern\<close> (two hash tables refine an injective map from strings to addresses);
    \<open>LexWords\<close> the word tables of \<open>lexer.c\<close> and their binary search; \<open>Lexer\<close> every function of \<open>lexer.c\<close>.
    \<open>LexerCorrect\<close>, \<open>LexerProps\<close> and \<open>LexerPeek\<close>: progress and bounds, liveness (the end of the file is reached), tokens
    spell the source, string literals round trip, peeking does not change what comes next.
  \<^item> \<^bold>\<open>Reading objects.\<close> \<open>LinkBytes\<close> is \<open>linker_common.h\<close>, \<open>LinkObject\<close> is \<open>link_object.c\<close>, \<open>CoffReader\<close> and \<open>ElfReader\<close>
    are the two readers. \<open>CoffSafe\<close> and \<open>ElfSafe\<close>: no input makes a reader access memory outside the file, and what it
    accepts is well formed. \<open>ElfShared\<close> is \<open>elf_shared.c\<close>, the reader of shared libraries and of the linker scripts that
    stand for them; \<open>ElfSharedSafe\<close>: it is safe and ends for libraries whose loadable segments lie inside the file, a
    library that breaks this hypothesis makes it leave the image, and the index it builds finds the first symbol of a
    name.
  \<^item> \<^bold>\<open>Linking.\<close> \<open>Probing\<close> holds hash tables with linear probing, once, as a locale that the symbol index and the table of
    the collector interpret. \<open>LinkTypes\<close>, \<open>LinkSymbols\<close>, \<open>LinkGlobals\<close>, \<open>LinkGc\<close> and \<open>LinkMerge\<close> are the stages of
    \<open>symbol_resolve.c\<close>; \<open>Relocation\<close> is \<open>relocation.c\<close>. \<open>LinkGlobals\<close>: the symbol table holds what the rule of
    precedence gives for all occurrences of a name. \<open>LinkGcCorrect\<close>: a section is dead exactly when it may be collected
    and nothing reaches it. \<open>LinkLayout\<close>: contributions are aligned, disjoint, hold the bytes of their sections, with
    zeros between them; addresses do not overlap. \<open>LinkBuild\<close> is \<open>link_resolution_build\<close>, which composes the stages and binds
    what is left to shared libraries; \<open>LinkBuildCorrect\<close>: no relocation of a section in the image is left without a
    target, and the image holds the bytes of the object files. \<open>RelocCorrect\<close> and \<open>RelocRelax\<close>: every relocated field means what its
    kind prescribes, nothing else changes, and the relaxed form of an instruction computes what the original does.

  \<^item> \<^bold>\<open>Machine instructions over virtual registers.\<close> \<open>MirMachine\<close> is \<open>mir_machine.c\<close>, what every opcode fixes and destroys;
    \<open>Bitset\<close> the sets of registers as arrays of 64-bit words; \<open>MirExec\<close> the order in which control visits the
    instructions of a function and, along it, which registers are live and which are defined. \<open>MirVerify\<close> is
    \<open>mir_regalloc_verify.c\<close>, the checker of a finished register allocation, with the function that spoils an allocation
    to test it. \<open>MirVerifyCorrect\<close>: an accepted allocation executes, on machine registers and frame slots, like the
    function on virtual registers, step by step; a spoilt one is rejected; and a function that branches to its first
    instruction can be accepted wrongly.
  \<^item> \<^bold>\<open>Control-flow graph.\<close> \<open>MirCfg\<close> is \<open>mir_cfg.c\<close>: blocks, edges through a hash map of the labels, reverse postorder,
    dominators, natural loops, the sets of a block, liveness, definedness and the backward cursor of the allocator.
    \<open>MirCfgBlocks\<close> shows what the blocks, the map and the edges are, \<open>MirCfgOrder\<close> that the search visits the blocks in
    reach in an order that respects the depth-first tree, \<open>MirCfgDom\<close> that the sweeps over the dominators end with the
    dominators, \<open>MirCfgLoops\<close> what depths and headers are. \<open>Sweeping\<close> is a locale for rows of bits that only grow: it
    shows once that sweeping until nothing changes ends at the least solution, and liveness (\<open>MirCfgLive\<close>) and
    definedness (\<open>MirCfgDefd\<close>) interpret it. \<open>MirCfgCorrect\<close> composes the stages: \<open>mir_cfg_build\<close> ends on every
    function, and edges, dominators, loops, liveness, definedness and cursor are exactly those of the program.

  \<^item> \<^bold>\<open>Dead code.\<close> \<open>MirDce\<close> is \<open>mir_dce\<close> of \<open>mir_regalloc.c\<close>, which clears the instructions nothing needs before registers
    are allocated: it ends, keeps exactly the needed ones, and every run of the function is a run of what is left.

  \<open>Prelude\<close> holds what the components share.

  \<^bold>\<open>How state, errors and machine integers are rendered.\<close> A C struct is a record whose fields carry a short prefix
  (\<open>lk_size\<close> for \<open>LinkedSection.size\<close>), an enum a datatype with the constructors of the source. Fixed-width integers are
  words; offsets, sizes and addresses that the sources keep in \<open>size_t\<close> and \<open>uint64_t\<close> are 64-bit words where they can
  wrap, and natural numbers where they count elements of an array in memory. A pointer that may be null is an option; an
  array with its count is a list; an array whose capacity matters keeps it as a field. A function that changes a struct
  returns the new one. A function that fails returns the error: in the linker the type \<open>'a outcome\<close>, whose errors are the
  refusals of the source, \<open>OutOfMemory\<close>, \<open>Diverge\<close> for a loop that does not end, and \<open>Fault\<close> for an access outside an
  array, so that memory safety is the absence of \<open>Fault\<close>. Formatted messages are the constant part of the format.

  \<^bold>\<open>Parameters.\<close> Whether an allocation succeeds is a function of the place (or of the number of the allocation) and a
  parameter everywhere; the theorems hold for all of them, and total ones say that nothing but memory can fail. The bytes
  \<open>realloc\<close> adds are a parameter too. The contents of a file are an argument. Character classes are those of the C locale.

  \<^bold>\<open>Fuel.\<close> These loops carry fuel: the walk through a hash table (as many steps as the table has slots: after that a walk
  repeats itself), the doubling of a 64-bit capacity (66 steps: after 64 doublings the value is zero for ever), the
  worklist of the section collector (one step per section: no section enters twice), the two walks over the hash chain and
  the version definitions of a shared library (the size of the file: each step moves on by a byte at least) and the
  recursion of its reader through a linker script (two: a script can only name a shared object), and the depth-first search
  over a control-flow graph (for each block its edges and one more: a step takes an edge or leaves a block). In each case
  running out of fuel is the value \<open>Diverge\<close>, and theorems show that it does not occur or when it does. Loops that run
  until nothing changes, and the walks along immediate dominators, are partial functions whose value \<open>None\<close> is a run
  without end; \<open>cfg_build_ends\<close> shows that there is none.

  \<^bold>\<open>Not modelled.\<close> The parser, the type checker, the intermediate representation with its optimiser and interpreter, the
  rest of the lowering to machine instructions, coalescing and register allocation (its checker is modelled) and the
  x86-64 encoder, the PTX and SPIR-V back ends,
  the writers of object files and images, debug information, diagnostics, the run-time library and the driver. They are
  named, part by part, in the manifest; code that only performs input and output or frees memory is left out of the
  components that are modelled.
\<close>

end
